(* ===== verification/Prelude_MPOLSR.thy ===== *)
theory Prelude_MPOLSR imports Main "HOL-Library.Word" "HOL-Library.Monad_Syntax" begin

text \<open>
  Shared vocabulary of the development: the machine types of the target, C arrays with
  bounds-checked access, C counting loops whose body may fail, and the lemmas about them that
  carry the proofs of the components.

  The testbed is compiled for a 32-bit little-endian Linux target (the code writes
  \<open>ip_v4_size\<close> as 4 for a value of type \<open>unsigned long\<close>), so \<open>unsigned long\<close> is
  \<open>32 word\<close>, \<open>unsigned short\<close> is \<open>16 word\<close> and \<open>char\<close> is \<open>8 word\<close>.

  A function whose C body can run into undefined behaviour (an index out of range, a NULL or a
  dangling pointer) returns an \<open>option\<close>: \<open>None\<close> is undefined behaviour, and a theorem that a
  function returns \<open>Some\<close> is a memory-safety theorem.
\<close>

unbundle bit_operations_syntax

type_synonym byte = "8 word"
type_synonym u16 = "16 word"
type_synonym ulong = "32 word"
type_synonym ip_addr = "32 word"

named_theorems c_array \<open>bounds-checked array access\<close>
named_theorems c_loop \<open>counting loops\<close>

section \<open>Arrays\<close>

definition rd :: "'a list \<Rightarrow> int \<Rightarrow> 'a option" where
  "rd xs i = (if 0 \<le> i \<and> i < int (length xs) then Some (xs ! nat i) else None)"

definition wr :: "'a list \<Rightarrow> int \<Rightarrow> 'a \<Rightarrow> 'a list option" where
  "wr xs i v = (if 0 \<le> i \<and> i < int (length xs) then Some (xs[nat i := v]) else None)"

lemma rd_in [c_array]: "0 \<le> i \<Longrightarrow> i < int (length xs) \<Longrightarrow> rd xs i = Some (xs ! nat i)"
  by (simp add: rd_def)

lemma wr_in [c_array]: "0 \<le> i \<Longrightarrow> i < int (length xs) \<Longrightarrow> wr xs i v = Some (xs[nat i := v])"
  by (simp add: wr_def)

lemma rd_nat [simp]: "n < length xs \<Longrightarrow> rd xs (int n) = Some (xs ! n)"
  by (simp add: rd_def)

lemma wr_nat [simp]: "n < length xs \<Longrightarrow> wr xs (int n) v = Some (xs[n := v])"
  by (simp add: wr_def)

lemma rd_Some_iff: "rd xs i = Some v \<longleftrightarrow> 0 \<le> i \<and> i < int (length xs) \<and> v = xs ! nat i"
  by (auto simp: rd_def)

lemma wr_Some_iff:
  "wr xs i v = Some ys \<longleftrightarrow> 0 \<le> i \<and> i < int (length xs) \<and> ys = xs[nat i := v]"
  by (auto simp: wr_def)

lemma wr_length: "wr xs i v = Some ys \<Longrightarrow> length ys = length xs"
  by (auto simp: wr_Some_iff)

section \<open>Counting loops\<close>

text \<open>\<open>iter [0..<n] body s\<close> is \<open>for (i = 0; i < n; i++) body\<close> on the state \<open>s\<close>.\<close>

primrec iter :: "'a list \<Rightarrow> ('a \<Rightarrow> 's \<Rightarrow> 's option) \<Rightarrow> 's \<Rightarrow> 's option" where
  "iter [] f s = Some s"
| "iter (x # xs) f s = Option.bind (f x s) (iter xs f)"

lemma iter_append: "iter (xs @ ys) f s = Option.bind (iter xs f s) (iter ys f)"
proof (induction xs arbitrary: s)
  case Nil
  show ?case by simp
next
  case (Cons x xs)
  then show ?case by (cases "f x s") simp_all
qed

text \<open>The total rule: an invariant indexed by the number of completed rounds.\<close>

lemma iter_upt_total:
  assumes "P 0 s"
    and "\<And>i s. i < n \<Longrightarrow> P i s \<Longrightarrow> \<exists>s'. f i s = Some s' \<and> P (Suc i) s'"
  shows "\<exists>s'. iter [0..<n] f s = Some s' \<and> P n s'"
  using assms(2)
proof (induction n)
  case 0
  then show ?case using assms(1) by simp
next
  case (Suc n)
  then obtain s' where s': "iter [0..<n] f s = Some s'" "P n s'"
    by (meson less_Suc_eq)
  from Suc.prems [OF lessI s'(2)] obtain s'' where "f n s' = Some s''" "P (Suc n) s''" by blast
  with s' show ?case by (simp add: iter_append)
qed

text \<open>The total rule for a loop over any list; the property may speak of what is left of the list.\<close>

lemma iter_rest_total:
  assumes "P xs s" and "\<And>x ys s. x \<in> set xs \<Longrightarrow> P (x # ys) s \<Longrightarrow> \<exists>s'. f x s = Some s' \<and> P ys s'"
  shows "\<exists>s'. iter xs f s = Some s' \<and> P [] s'"
  using assms
proof (induction xs arbitrary: s)
  case (Cons x xs)
  from Cons.prems(2) [OF _ Cons.prems(1)] obtain s1 where s1: "f x s = Some s1" "P xs s1" by auto
  from Cons.IH [OF s1(2)] Cons.prems(2) obtain s2 where "iter xs f s1 = Some s2" "P [] s2" by auto
  then show ?case using s1(1) by simp
qed auto

text \<open>The partial rule: what every round keeps holds of the result, if there is one.\<close>

lemma iter_partial:
  assumes "iter xs f s = Some t" and "P s"
    and "\<And>x s s'. x \<in> set xs \<Longrightarrow> P s \<Longrightarrow> f x s = Some s' \<Longrightarrow> P s'"
  shows "P t"
  using assms
proof (induction xs arbitrary: s)
  case Nil
  then show ?case by simp
next
  case (Cons x xs)
  from Cons.prems(1) obtain u where u: "f x s = Some u" "iter xs f u = Some t"
    by (auto simp: bind_eq_Some_conv)
  show ?case
  proof (rule Cons.IH [OF u(2)])
    show "P u" using Cons.prems(2,3) u(1) by (meson list.set_intros(1))
    show "\<And>y s s'. y \<in> set xs \<Longrightarrow> P s \<Longrightarrow> f y s = Some s' \<Longrightarrow> P s'"
      using Cons.prems(3) by (meson list.set_intros(2))
  qed
qed

lemma iter_Some_fold:
  "(\<And>x s. x \<in> set xs \<Longrightarrow> f x s = Some (g x s)) \<Longrightarrow> iter xs f s = Some (fold g xs s)"
  by (induction xs arbitrary: s) simp_all

text \<open>
  A loop that turns a property \<open>Q i\<close> of every index into \<open>R i\<close>, one index per round, and
  leaves the other indices alone; \<open>I\<close> is what it keeps as a whole.
\<close>

lemma iter_each:
  assumes "I s" "\<And>i. i < n \<Longrightarrow> Q i s"
    and "\<And>i s. i < n \<Longrightarrow> I s \<Longrightarrow> Q i s \<Longrightarrow>
      \<exists>s'. f i s = Some s' \<and> I s' \<and> R i s' \<and>
        (\<forall>j < n. j \<noteq> i \<longrightarrow> (Q j s \<longrightarrow> Q j s') \<and> (R j s \<longrightarrow> R j s'))"
  shows "\<exists>s'. iter [0..<n] f s = Some s' \<and> I s' \<and> (\<forall>i < n. R i s')"
proof -
  define P where "P i s \<longleftrightarrow> I s \<and> (\<forall>j < n. if j < i then R j s else Q j s)" for i s
  have "\<exists>s'. iter [0..<n] f s = Some s' \<and> P n s'"
  proof (rule iter_upt_total)
    show "P 0 s" using assms(1,2) by (simp add: P_def)
    fix i s
    assume i: "i < n" and P: "P i s"
    then have "I s" "Q i s" by (auto simp: P_def)
    from assms(3) [OF i this] obtain s' where s': "f i s = Some s'" "I s'" "R i s'"
      "\<And>j. j < n \<Longrightarrow> j \<noteq> i \<Longrightarrow> (Q j s \<longrightarrow> Q j s') \<and> (R j s \<longrightarrow> R j s')" by blast
    have "P (Suc i) s'"
      unfolding P_def
    proof (intro conjI allI impI)
      fix j
      assume j: "j < n"
      then have "if j < i then R j s else Q j s" using P by (auto simp: P_def)
      with s'(3,4) j show "if j < Suc i then R j s' else Q j s'"
        by (cases "j = i") (auto simp: less_Suc_eq)
    qed (rule s')
    with s' show "\<exists>s'. f i s = Some s' \<and> P (Suc i) s'" by blast
  qed
  then show ?thesis by (auto simp: P_def)
qed

lemma matrix_index_lt:
  fixes l k L K :: nat
  assumes "l < L" "k < K"
  shows "l * K + k < L * K"
proof -
  have "l * K + k < Suc l * K" using assms(2) by simp
  also have "\<dots> \<le> L * K" using assms(1) by (intro mult_le_mono1) simp
  finally show ?thesis .
qed

text \<open>Two nested loops over a matrix of \<open>L\<close> rows and \<open>K\<close> columns, row by row.\<close>

lemma iter_matrix:
  assumes "P 0 s"
    and step: "\<And>l k s. l < L \<Longrightarrow> k < K \<Longrightarrow> P (l * K + k) s \<Longrightarrow>
      \<exists>s'. f l k s = Some s' \<and> P (Suc (l * K + k)) s'"
  shows "\<exists>s'. iter [0..<L] (\<lambda>l. iter [0..<K] (f l)) s = Some s' \<and> P (L * K) s'"
proof -
  have "\<exists>s'. iter [0..<L] (\<lambda>l. iter [0..<K] (f l)) s = Some s' \<and> (\<lambda>l. P (l * K)) L s'"
  proof (rule iter_upt_total)
    show "P (0 * K) s" using assms(1) by simp
    fix l s
    assume l: "l < L" and P: "P (l * K) s"
    have "\<exists>s'. iter [0..<K] (f l) s = Some s' \<and> (\<lambda>k. P (l * K + k)) K s'"
      by (rule iter_upt_total) (use P step l in auto)
    then show "\<exists>s'. iter [0..<K] (f l) s = Some s' \<and> P (Suc l * K) s'"
      by (simp add: add.commute)
  qed
  then show ?thesis by simp
qed

section \<open>Sums over XOR\<close>

interpretation xorsum: comm_monoid_set "(XOR) :: 8 word \<Rightarrow> 8 word \<Rightarrow> 8 word" 0
  by unfold_locales (simp_all add: ac_simps)

lemma xor_cancel_right: "(a XOR b) XOR b = (a :: 'a :: len word)"
  by (simp add: xor.assoc)

lemma xorsum_remove:
  assumes "finite A" "d \<in> A"
  shows "xorsum.F f A XOR f d = xorsum.F f (A - {d})"
proof -
  have "xorsum.F f A = f d XOR xorsum.F f (A - {d})"
    using assms by (rule xorsum.remove)
  then show ?thesis by (metis xor.commute xor_cancel_right)
qed

section \<open>Small values of a word\<close>

lemma unat_small: "n < 2 ^ 32 \<Longrightarrow> unat (of_nat n :: 32 word) = n"
  by (simp add: unat_of_nat)

lemma sint_small:
  assumes "unat (w :: 32 word) < 2 ^ 31"
  shows "sint w = int (unat w)"
proof -
  have "sint w = signed_take_bit 31 (uint w)" by (simp add: sint_uint)
  also have "\<dots> = uint w"
  proof (rule signed_take_bit_int_eq_self)
    have "- (2 ^ 31) \<le> (0 :: int)" by simp
    also have "0 \<le> uint w" by simp
    finally show "- (2 ^ 31) \<le> uint w" .
    have "int (unat w) < int (2 ^ 31)" using assms by (simp only: of_nat_less_iff)
    then show "uint w < 2 ^ 31" by simp
  qed
  finally show ?thesis by simp
qed

section \<open>Byte order\<close>

text \<open>\<open>htons\<close> and \<open>ntohs\<close> both swap the two bytes on the little-endian target.\<close>

definition htons :: "u16 \<Rightarrow> u16" where
  "htons w = push_bit 8 w OR drop_bit 8 w"

definition le16 :: "u16 \<Rightarrow> byte list" where
  "le16 w = [ucast w, ucast (drop_bit 8 w)]"

definition le32 :: "ulong \<Rightarrow> byte list" where
  "le32 w = [ucast w, ucast (drop_bit 8 w), ucast (drop_bit 16 w), ucast (drop_bit 24 w)]"

fun of_le16 :: "byte list \<Rightarrow> u16" where
  "of_le16 [a, b] = ucast a OR push_bit 8 (ucast b)"
| "of_le16 _ = 0"

fun of_le32 :: "byte list \<Rightarrow> ulong" where
  "of_le32 [a, b, c, d] =
     ucast a OR push_bit 8 (ucast b) OR push_bit 16 (ucast c) OR push_bit 24 (ucast d)"
| "of_le32 _ = 0"

lemma htons_htons [simp]: "htons (htons w) = w"
  unfolding htons_def by (rule bit_word_eqI) (auto simp: bit_simps)

lemma length_le16 [simp]: "length (le16 w) = 2"
  by (simp add: le16_def)

lemma length_le32 [simp]: "length (le32 w) = 4"
  by (simp add: le32_def)

lemma of_le16_le16 [simp]: "of_le16 (le16 w) = w"
  unfolding le16_def of_le16.simps by (rule bit_word_eqI) (auto simp: bit_simps)

lemma of_le32_le32 [simp]: "of_le32 (le32 w) = w"
  unfolding le32_def of_le32.simps
proof (rule bit_word_eqI)
  fix n
  assume n: "n < LENGTH(32)"
  consider "n < 8" | "8 \<le> n" "n < 16" | "16 \<le> n" "n < 24" | "24 \<le> n" by linarith
  then show "bit (ucast (ucast w :: byte) OR push_bit 8 (ucast (ucast (drop_bit 8 w) :: byte)) OR
      push_bit 16 (ucast (ucast (drop_bit 16 w) :: byte)) OR
      push_bit 24 (ucast (ucast (drop_bit 24 w) :: byte)) :: ulong) n = bit w n"
    using n by cases (auto simp: bit_simps)
qed

end
