(* ===== verification/Mojette.thy ===== *)
theory Mojette imports Prelude_MPOLSR begin

text \<open>
  The XOR Mojette transform of \<open>mojette/mojette.c\<close> (the copies in \<open>ser_mojette/\<close> and
  \<open>serveur/\<close> add \<open>inverse_system\<close>). A support is a matrix of \<open>l\<close> rows and \<open>k\<close>
  columns of bytes, stored row by row; a projection of angle \<open>(p, q)\<close> XORs the pixel of row
  \<open>l\<close> and column \<open>k\<close> into its bin \<open>k * q + l * p - offset\<close>. The inverse keeps for every
  bin the number of pixels not yet decoded on it (\<open>pu\<close>) and the sum of their positions
  (\<open>pd\<close>, the Dietmar index); a bin with one pixel left gives that pixel's position and value.

  The linked list of univocal bins is the list of the pairs (projection, bin) from the pointer
  \<open>curr\<close> on: the code only appends at its tail and moves \<open>curr\<close> forward. \<open>None\<close> is
  undefined behaviour: an index out of its array or \<open>curr\<close> running off the list.
\<close>

section \<open>Data\<close>

record projection =
  pr_p :: int
  pr_q :: int
  pr_size :: int
  bins :: "byte list"

record support =
  s_l :: int
  s_k :: int
  pixels :: "byte list"

text \<open>The \<open>line_t\<close> of \<open>serveur/mojette.h\<close>: a received row of the support.\<close>

record line =
  num_line :: int
  line_val :: "byte list"
  line_size :: int

text \<open>
  \<open>calloc (n, 1)\<close> with a signed \<open>n\<close>: a negative count is a request larger than half of the
  address space, which fails. The flag says whether the allocator has memory.
\<close>

definition calloc :: "bool \<Rightarrow> int \<Rightarrow> byte list option" where
  "calloc mem n = (if mem \<and> 0 \<le> n then Some (replicate (nat n) 0) else None)"

text \<open>Here \<open>None\<close> is the NULL that the two constructors return.\<close>

definition projection_new :: "bool \<Rightarrow> bool \<Rightarrow> int \<Rightarrow> int \<Rightarrow> int \<Rightarrow> int \<Rightarrow> projection option" where
  "projection_new mem1 mem2 p q l k =
     (if \<not> mem1 then None
      else let size = \<bar>p\<bar> * (l - 1) + \<bar>q\<bar> * (k - 1) + 1
           in case calloc mem2 size of
                None \<Rightarrow> None
              | Some b \<Rightarrow> Some \<lparr>pr_p = p, pr_q = q, pr_size = size, bins = b\<rparr>)"

definition support_new :: "bool \<Rightarrow> bool \<Rightarrow> int \<Rightarrow> int \<Rightarrow> support option" where
  "support_new mem1 mem2 l k =
     (if \<not> mem1 then None
      else case calloc mem2 (l * k) of
             None \<Rightarrow> None
           | Some px \<Rightarrow> Some \<lparr>s_l = l, s_k = k, pixels = px\<rparr>)"

section \<open>The forward transform\<close>

definition prj_offset :: "int \<Rightarrow> int \<Rightarrow> int" where
  "prj_offset L p = (if p < 0 then (L - 1) * p else 0)"

definition bin_index :: "int \<Rightarrow> projection \<Rightarrow> int \<Rightarrow> int \<Rightarrow> int" where
  "bin_index L pr l k = k * pr_q pr + l * pr_p pr - prj_offset L (pr_p pr)"

definition forward_bin ::
  "support \<Rightarrow> int \<Rightarrow> int \<Rightarrow> int \<Rightarrow> projection list \<Rightarrow> projection list option" where
  "forward_bin s l k pp prjs = do {
     pr \<leftarrow> rd prjs pp;
     let i = bin_index (s_l s) pr l k;
     b \<leftarrow> rd (bins pr) i;
     px \<leftarrow> rd (pixels s) (l * s_k s + k);
     b' \<leftarrow> wr (bins pr) i (b XOR px);
     wr prjs pp (pr\<lparr>bins := b'\<rparr>)
   }"

definition forward :: "support \<Rightarrow> projection list \<Rightarrow> int \<Rightarrow> projection list option" where
  "forward s prjs nr_prj =
     iter [0..<nat (s_l s)] (\<lambda>l.
       iter [0..<nat (s_k s)] (\<lambda>k.
         iter [0..<nat nr_prj] (\<lambda>pp. forward_bin s (int l) (int k) (int pp)))) prjs"

section \<open>The inverse transform\<close>

record mojette_state =
  m_pix :: "byte list"
  m_prj :: "projection list"
  m_pu :: "ulong list list"
  m_pd :: "ulong list list"
  m_queue :: "(nat \<times> nat) list"

text \<open>\<open>t[j][b]\<close> and \<open>t[j][b] = v\<close> on an array of arrays.\<close>

definition rd2 :: "'a list list \<Rightarrow> int \<Rightarrow> int \<Rightarrow> 'a option" where
  "rd2 t j b = do { row \<leftarrow> rd t j; rd row b }"

definition wr2 :: "'a list list \<Rightarrow> int \<Rightarrow> int \<Rightarrow> 'a \<Rightarrow> 'a list list option" where
  "wr2 t j b v = do { row \<leftarrow> rd t j; row' \<leftarrow> wr row b v; wr t j row' }"

text \<open>Allocation of \<open>pu[i]\<close> and \<open>pd[i]\<close>, both zeroed, for every projection.\<close>

definition alloc_counts :: "int \<Rightarrow> int \<Rightarrow> projection list \<Rightarrow> int \<Rightarrow> ulong list list option" where
  "alloc_counts L K prjs nr_prj =
     iter [0..<nat nr_prj] (\<lambda>i t. do {
       p \<leftarrow> rd prjs (int i);
       let size = \<bar>pr_p p\<bar> * (L - 1) + \<bar>pr_q p\<bar> * (K - 1) + 1;
       Some (t @ [replicate (nat size) 0])
     }) []"

text \<open>The counting loop over all pixels; \<open>d\<close> is the running position.\<close>

definition count_bin :: "int \<Rightarrow> projection list \<Rightarrow> int \<Rightarrow> int \<Rightarrow> ulong \<Rightarrow> int \<Rightarrow>
    ulong list list \<times> ulong list list \<Rightarrow> (ulong list list \<times> ulong list list) option" where
  "count_bin L prjs l k d i = (\<lambda>(pu, pd). do {
     pr \<leftarrow> rd prjs i;
     let b = bin_index L pr l k;
     u \<leftarrow> rd2 pu i b;
     pu' \<leftarrow> wr2 pu i b (u + 1);
     v \<leftarrow> rd2 pd i b;
     pd' \<leftarrow> wr2 pd i b (v + d);
     Some (pu', pd')
   })"

definition count_bins :: "int \<Rightarrow> int \<Rightarrow> projection list \<Rightarrow> int \<Rightarrow>
    ulong list list \<Rightarrow> ulong list list \<Rightarrow> (ulong list list \<times> ulong list list) option" where
  "count_bins L K prjs nr_prj pu pd =
     map_option fst
       (iter [0..<nat L] (\<lambda>l.
          iter [0..<nat K] (\<lambda>k (t, d).
            map_option (\<lambda>t'. (t', d + 1))
              (iter [0..<nat nr_prj] (\<lambda>i. count_bin L prjs (int l) (int k) d (int i)) t)))
        ((pu, pd), 0))"

text \<open>The first queue: every bin with \<open>pu = 1\<close>, projection by projection.\<close>

definition scan_univoc ::
  "projection list \<Rightarrow> int \<Rightarrow> ulong list list \<Rightarrow> (nat \<times> nat) list option" where
  "scan_univoc prjs nr_prj pu =
     iter [0..<nat nr_prj] (\<lambda>i q. do {
       p \<leftarrow> rd prjs (int i);
       iter [0..<nat (pr_size p)] (\<lambda>j q. do {
         u \<leftarrow> rd2 pu (int i) (int j);
         Some (if u = 1 then q @ [(i, j)] else q)
       }) q
     }) []"

text \<open>\<open>while (*(curr->u) != 1) curr = curr->next\<close>.\<close>

fun skip_queue :: "ulong list list \<Rightarrow> (nat \<times> nat) list \<Rightarrow> (nat \<times> nat) list option" where
  "skip_queue pu [] = None"
| "skip_queue pu ((i, j) # q) =
     Option.bind (rd2 pu (int i) (int j))
       (\<lambda>u. if u \<noteq> 1 then skip_queue pu q else Some ((i, j) # q))"

text \<open>
  Taking a known pixel of row \<open>l\<close> and column \<open>k\<close> out of projection \<open>j\<close>: its value out of the
  bin, its position out of \<open>pd\<close> and one out of \<open>pu\<close>.
\<close>

definition take_out ::
  "int \<Rightarrow> int \<Rightarrow> int \<Rightarrow> byte \<Rightarrow> ulong \<Rightarrow> nat \<Rightarrow> mojette_state \<Rightarrow> mojette_state option" where
  "take_out L l k bin diet j st = do {
     pr \<leftarrow> rd (m_prj st) (int j);
     let b = bin_index L pr l k;
     v \<leftarrow> rd (bins pr) b;
     bs \<leftarrow> wr (bins pr) b (v XOR bin);
     prjs \<leftarrow> wr (m_prj st) (int j) (pr\<lparr>bins := bs\<rparr>);
     w \<leftarrow> rd2 (m_pd st) (int j) b;
     pd \<leftarrow> wr2 (m_pd st) (int j) b (w - diet);
     u \<leftarrow> rd2 (m_pu st) (int j) b;
     pu \<leftarrow> wr2 (m_pu st) (int j) b (u - 1);
     Some (st\<lparr>m_prj := prjs, m_pd := pd, m_pu := pu\<rparr>)
   }"

text \<open>The same in the decoding loop, where a bin left with one pixel joins the queue.\<close>

definition remove_pixel ::
  "int \<Rightarrow> int \<Rightarrow> int \<Rightarrow> byte \<Rightarrow> ulong \<Rightarrow> nat \<Rightarrow> mojette_state \<Rightarrow> mojette_state option" where
  "remove_pixel L l k bin diet j st = do {
     st' \<leftarrow> take_out L l k bin diet j st;
     pr \<leftarrow> rd (m_prj st') (int j);
     let b = bin_index L pr l k;
     u \<leftarrow> rd2 (m_pu st') (int j) b;
     Some (if u = 1 then st'\<lparr>m_queue := m_queue st' @ [(j, nat b)]\<rparr> else st')
   }"

text \<open>One round of the decoding loop.\<close>

definition decode_step :: "int \<Rightarrow> int \<Rightarrow> int \<Rightarrow> mojette_state \<Rightarrow> mojette_state option" where
  "decode_step L K nr_prj st = do {
     q \<leftarrow> skip_queue (m_pu st) (m_queue st);
     (case q of [] \<Rightarrow> None | (i, j) # _ \<Rightarrow> do {
       pr \<leftarrow> rd (m_prj st) (int i);
       bin \<leftarrow> rd (bins pr) (int j);
       diet \<leftarrow> rd2 (m_pd st) (int i) (int j);
       let l = sint (diet div of_int K);
       let k = sint (diet - of_int (l * K));
       px \<leftarrow> wr (m_pix st) (l * K + k) bin;
       iter [0..<nat nr_prj] (remove_pixel L l k bin diet) (st\<lparr>m_queue := q, m_pix := px\<rparr>)
     })
   }"

definition decode_loop ::
  "int \<Rightarrow> int \<Rightarrow> int \<Rightarrow> int \<Rightarrow> mojette_state \<Rightarrow> mojette_state option" where
  "decode_loop L K nr_prj n st = iter [0..<nat n] (\<lambda>_. decode_step L K nr_prj) st"

definition inverse_mj :: "support \<Rightarrow> projection list \<Rightarrow> int \<Rightarrow> (support \<times> projection list) option" where
  "inverse_mj s prjs nr_prj = do {
     z \<leftarrow> alloc_counts (s_l s) (s_k s) prjs nr_prj;
     (pu, pd) \<leftarrow> count_bins (s_l s) (s_k s) prjs nr_prj z z;
     q \<leftarrow> scan_univoc prjs nr_prj pu;
     st \<leftarrow> decode_loop (s_l s) (s_k s) nr_prj (s_l s * s_k s)
            \<lparr>m_pix = pixels s, m_prj = prjs, m_pu = pu, m_pd = pd, m_queue = q\<rparr>;
     Some (s\<lparr>pixels := m_pix st\<rparr>, m_prj st)
   }"

section \<open>The systematic inverse\<close>

text \<open>Writing pixel \<open>k\<close> of a received row into the support and taking it out of the bins.\<close>

definition line_pixel ::
  "int \<Rightarrow> int \<Rightarrow> int \<Rightarrow> line \<Rightarrow> nat \<Rightarrow> mojette_state \<Rightarrow> mojette_state option" where
  "line_pixel L K nr_prj ln k st = do {
     v \<leftarrow> rd (line_val ln) (int k);
     px \<leftarrow> wr (m_pix st) (num_line ln * K + int k) v;
     let diet = (of_int (int k + num_line ln * K) :: ulong);
     iter [0..<nat nr_prj] (take_out L (num_line ln) (int k) v diet) (st\<lparr>m_pix := px\<rparr>)
   }"

text \<open>
  \<open>ligne[i]\<close> for \<open>i < nb_ligne\<close>: an entry that was never assigned is an uninitialised pointer,
  here \<open>None\<close>, and following it is undefined behaviour.
\<close>

definition line_pixels :: "int \<Rightarrow> int \<Rightarrow> int \<Rightarrow> line option list \<Rightarrow> int \<Rightarrow>
    mojette_state \<Rightarrow> mojette_state option" where
  "line_pixels L K nr_prj ligne nb_ligne st =
     iter [0..<nat nb_ligne] (\<lambda>i st. do {
       ln \<leftarrow> rd ligne (int i);
       ln \<leftarrow> ln;
       iter [0..<nat K] (line_pixel L K nr_prj ln) st
     }) st"

text \<open>The branch of \<open>nr_prj == 0\<close> with every row received: the rows are copied.\<close>

definition copy_lines :: "int \<Rightarrow> line option list \<Rightarrow> int \<Rightarrow> byte list \<Rightarrow> byte list option" where
  "copy_lines K ligne nb_ligne px =
     iter [0..<nat nb_ligne] (\<lambda>i px. do {
       ln \<leftarrow> rd ligne (int i);
       ln \<leftarrow> ln;
       iter [0..<nat K] (\<lambda>k px. do {
         v \<leftarrow> rd (line_val ln) (int k);
         wr px (num_line ln * K + int k) v
       }) px
     }) px"

definition inverse_system :: "support \<Rightarrow> projection list \<Rightarrow> int \<Rightarrow> line option list \<Rightarrow> int \<Rightarrow>
    (support \<times> projection list) option" where
  "inverse_system s prjs nr_prj ligne nb_ligne =
     (if nr_prj = 0 \<and> s_l s = nb_ligne
      then do {
        px \<leftarrow> copy_lines (s_k s) ligne nb_ligne (pixels s);
        Some (s\<lparr>pixels := px\<rparr>, prjs)
      }
      else do {
        z \<leftarrow> alloc_counts (s_l s) (s_k s) prjs nr_prj;
        (pu, pd) \<leftarrow> count_bins (s_l s) (s_k s) prjs nr_prj z z;
        st \<leftarrow> line_pixels (s_l s) (s_k s) nr_prj ligne nb_ligne
               \<lparr>m_pix = pixels s, m_prj = prjs, m_pu = pu, m_pd = pd, m_queue = []\<rparr>;
        q \<leftarrow> scan_univoc (m_prj st) nr_prj (m_pu st);
        st' \<leftarrow> decode_loop (s_l s) (s_k s) nr_prj (s_l s * s_k s - s_k s * nb_ligne)
                 (st\<lparr>m_queue := q\<rparr>);
        Some (s\<lparr>pixels := m_pix st'\<rparr>, m_prj st')
      })"

end
