(* ===== verification/Mojette_Counts.thy ===== *)
theory Mojette_Counts imports Mojette begin

text \<open>
  What the three arrays of the inverse transform mean. For a set \<open>A\<close> of pixel positions not yet
  decoded, \<open>pu[j][b]\<close> is the number of positions of \<open>A\<close> on bin \<open>b\<close> of projection \<open>j\<close>,
  \<open>pd[j][b]\<close> is their sum and \<open>bins[b]\<close> the XOR of their pixels. The lemmas show that each loop
  of the code builds or keeps this meaning.
\<close>

section \<open>Geometry\<close>

definition pos_bin :: "int \<Rightarrow> int \<Rightarrow> projection \<Rightarrow> nat \<Rightarrow> nat" where
  "pos_bin L K pr d = nat (bin_index L pr (int d div K) (int d mod K))"

definition on_bin :: "int \<Rightarrow> int \<Rightarrow> projection \<Rightarrow> nat set \<Rightarrow> nat \<Rightarrow> nat set" where
  "on_bin L K pr A b = {d \<in> A. pos_bin L K pr d = b}"

text \<open>A projection allocated by \<open>projection_new (p, q, L, K)\<close> with \<open>q\<close> not negative.\<close>

definition prj_geom :: "int \<Rightarrow> int \<Rightarrow> projection \<Rightarrow> bool" where
  "prj_geom L K pr \<longleftrightarrow> 0 \<le> pr_q pr \<and>
     pr_size pr = \<bar>pr_p pr\<bar> * (L - 1) + \<bar>pr_q pr\<bar> * (K - 1) + 1 \<and>
     length (bins pr) = nat (pr_size pr)"

definition support_geom :: "int \<Rightarrow> int \<Rightarrow> bool" where
  "support_geom L K \<longleftrightarrow> 0 < L \<and> 0 < K \<and> L * K < 2 ^ 31"

lemma pos_bin_bins [simp]: "pos_bin L K (pr\<lparr>bins := x\<rparr>) d = pos_bin L K pr d"
  by (simp add: pos_bin_def bin_index_def)

lemma on_bin_bins [simp]: "on_bin L K (pr\<lparr>bins := x\<rparr>) A b = on_bin L K pr A b"
  by (simp add: on_bin_def)

lemma bin_index_bins [simp]: "bin_index L (pr\<lparr>bins := x\<rparr>) l k = bin_index L pr l k"
  by (simp add: bin_index_def)

lemma prj_geom_bins [simp]:
  "length x = length (bins pr) \<Longrightarrow> prj_geom L K (pr\<lparr>bins := x\<rparr>) \<longleftrightarrow> prj_geom L K pr"
  by (simp add: prj_geom_def)

text \<open>The index of every pixel of the support is inside the projection.\<close>

lemma bin_index_bounds:
  assumes g: "prj_geom L K pr" and l: "0 \<le> l" "l < L" and k: "0 \<le> k" "k < K"
  shows "0 \<le> bin_index L pr l k" and "bin_index L pr l k < pr_size pr"
proof -
  let ?p = "pr_p pr" and ?q = "pr_q pr"
  have q: "0 \<le> ?q" and size: "pr_size pr = \<bar>?p\<bar> * (L - 1) + ?q * (K - 1) + 1"
    using g by (auto simp: prj_geom_def)
  have kq: "0 \<le> k * ?q" "k * ?q \<le> ?q * (K - 1)"
    using q k mult_left_mono [of k "K - 1" ?q] by (auto simp: mult.commute)
  have lp: "0 \<le> l * ?p - prj_offset L ?p \<and> l * ?p - prj_offset L ?p \<le> \<bar>?p\<bar> * (L - 1)"
  proof (cases "?p < 0")
    case True
    have "l * ?p - (L - 1) * ?p = (L - 1 - l) * (- ?p)" by (simp add: algebra_simps)
    moreover have "0 \<le> (L - 1 - l) * (- ?p)" using True l by (intro mult_nonneg_nonneg) auto
    moreover have "(L - 1 - l) * (- ?p) \<le> (L - 1) * (- ?p)"
      using True l by (intro mult_right_mono) auto
    ultimately show ?thesis using True by (simp add: prj_offset_def mult.commute)
  next
    case False
    have "l * ?p \<le> (L - 1) * ?p" using False l by (intro mult_right_mono) auto
    then show ?thesis using False l by (simp add: prj_offset_def mult.commute)
  qed
  show "0 \<le> bin_index L pr l k" "bin_index L pr l k < pr_size pr"
    using kq lp size by (auto simp: bin_index_def)
qed

text \<open>A position of the support and its row and column.\<close>

lemma pos_row_col:
  assumes K: "0 < K" and d: "int d < L * K"
  shows "0 \<le> int d div K" "int d div K < L" "0 \<le> int d mod K" "int d mod K < K"
    "int d div K * K + int d mod K = int d"
proof -
  show "0 \<le> int d div K" "0 \<le> int d mod K" "int d mod K < K"
    using K by (auto simp: pos_imp_zdiv_nonneg_iff)
  show eq: "int d div K * K + int d mod K = int d" by simp
  show "int d div K < L"
  proof (rule ccontr)
    assume "\<not> int d div K < L"
    then have "L * K \<le> int d div K * K" using K by (simp add: mult_right_mono)
    also have "\<dots> \<le> int d" using eq \<open>0 \<le> int d mod K\<close> by linarith
    finally show False using d by simp
  qed
qed

lemma pos_of_row_col:
  assumes "k < nat K"
  shows "int (l * nat K + k) div K = int l" "int (l * nat K + k) mod K = int k"
  using assms by (auto simp: nat_less_iff)

lemma pos_bin_lt:
  assumes "prj_geom L K pr" "0 < K" "int d < L * K"
  shows "pos_bin L K pr d < nat (pr_size pr)" and "pos_bin L K pr d < length (bins pr)"
    and "int (pos_bin L K pr d) = bin_index L pr (int d div K) (int d mod K)"
proof -
  note rc = pos_row_col [OF assms(2,3)]
  note b = bin_index_bounds [OF assms(1) rc(1,2,3,4)]
  show "pos_bin L K pr d < nat (pr_size pr)"
    "int (pos_bin L K pr d) = bin_index L pr (int d div K) (int d mod K)"
    using b by (auto simp: pos_bin_def)
  then show "pos_bin L K pr d < length (bins pr)" using assms(1) by (simp add: prj_geom_def)
qed

lemma on_bin_insert:
  "on_bin L K pr (insert d A) b =
     (if pos_bin L K pr d = b then insert d (on_bin L K pr A b) else on_bin L K pr A b)"
  by (auto simp: on_bin_def)

lemma on_bin_diff: "on_bin L K pr (A - {d}) b = on_bin L K pr A b - {d}"
  by (auto simp: on_bin_def)

lemma finite_on_bin [simp, intro]: "finite A \<Longrightarrow> finite (on_bin L K pr A b)"
  by (simp add: on_bin_def)

lemma on_bin_subset: "on_bin L K pr A b \<subseteq> A"
  by (auto simp: on_bin_def)

lemma on_bin_empty [simp]: "on_bin L K pr {} b = {}"
  by (simp add: on_bin_def)

section \<open>The meaning of the arrays\<close>

definition counts_ok ::
  "int \<Rightarrow> int \<Rightarrow> nat set \<Rightarrow> projection \<Rightarrow> ulong list \<Rightarrow> ulong list \<Rightarrow> bool" where
  "counts_ok L K A pr pu pd \<longleftrightarrow>
     length pu = nat (pr_size pr) \<and> length pd = nat (pr_size pr) \<and>
     (\<forall>b < nat (pr_size pr).
        pu ! b = of_nat (card (on_bin L K pr A b)) \<and> pd ! b = (\<Sum>d \<in> on_bin L K pr A b. of_nat d))"

definition bins_ok :: "int \<Rightarrow> int \<Rightarrow> byte list \<Rightarrow> nat set \<Rightarrow> projection \<Rightarrow> bool" where
  "bins_ok L K orig A pr \<longleftrightarrow>
     (\<forall>b < nat (pr_size pr). bins pr ! b = xorsum.F ((!) orig) (on_bin L K pr A b))"

lemma counts_ok_bins [simp]: "counts_ok L K A (pr\<lparr>bins := x\<rparr>) pu pd = counts_ok L K A pr pu pd"
  by (simp add: counts_ok_def)

lemma counts_ok_empty:
  "counts_ok L K {} pr (replicate (nat (pr_size pr)) 0) (replicate (nat (pr_size pr)) 0)"
  by (simp add: counts_ok_def)

lemma counts_ok_insert:
  assumes c: "counts_ok L K A pr pu pd" and d: "d \<notin> A" "finite A"
    and b: "b = pos_bin L K pr d" "b < nat (pr_size pr)"
  shows "counts_ok L K (insert d A) pr (pu[b := pu ! b + 1]) (pd[b := pd ! b + of_nat d])"
proof -
  have "d \<notin> on_bin L K pr A c" for c using d on_bin_subset by blast
  then show ?thesis
    using assms by (auto simp: counts_ok_def on_bin_insert nth_list_update add.commute)
qed

lemma counts_ok_remove:
  assumes c: "counts_ok L K A pr pu pd" and d: "d \<in> A" "finite A"
    and b: "b = pos_bin L K pr d" "b < nat (pr_size pr)"
  shows "counts_ok L K (A - {d}) pr (pu[b := pu ! b - 1]) (pd[b := pd ! b - of_nat d])"
proof -
  let ?S = "on_bin L K pr A b"
  have dS: "d \<in> ?S" using d b by (simp add: on_bin_def)
  have other: "d \<notin> on_bin L K pr A c" if "c \<noteq> b" for c using that b by (simp add: on_bin_def)
  have "card ?S = Suc (card (?S - {d}))" using dS d by (intro card.remove) auto
  moreover have "(of_nat (Suc n) :: ulong) - 1 = of_nat n" for n by simp
  ultimately have cd: "(of_nat (card ?S) :: ulong) - 1 = of_nat (card (?S - {d}))" by (simp only:)
  have "(\<Sum>x \<in> ?S. of_nat x :: ulong) = of_nat d + (\<Sum>x \<in> ?S - {d}. of_nat x)"
    using dS d by (intro sum.remove) auto
  then have sd: "(\<Sum>x \<in> ?S. of_nat x :: ulong) - of_nat d = (\<Sum>x \<in> ?S - {d}. of_nat x)"
    by (simp only: add_diff_cancel_left')
  show ?thesis
    unfolding counts_ok_def
  proof (intro conjI allI impI)
    fix c
    assume c: "c < nat (pr_size pr)"
    show "pu[b := pu ! b - 1] ! c = of_nat (card (on_bin L K pr (A - {d}) c))"
      "pd[b := pd ! b - of_nat d] ! c = (\<Sum>d \<in> on_bin L K pr (A - {d}) c. of_nat d)"
      using assms c cd sd other [of c]
      by (cases "c = b"; simp add: counts_ok_def on_bin_diff)+
  qed (use assms in \<open>auto simp: counts_ok_def\<close>)
qed

lemma bins_ok_empty:
  "length (bins pr) = nat (pr_size pr) \<Longrightarrow> (\<forall>x \<in> set (bins pr). x = 0) \<Longrightarrow> bins_ok L K orig {} pr"
  by (simp add: bins_ok_def)

lemma bins_ok_insert:
  assumes c: "bins_ok L K orig A pr" and d: "d \<notin> A" "finite A"
    and b: "b = pos_bin L K pr d" "b < length (bins pr)" "length (bins pr) = nat (pr_size pr)"
  shows "bins_ok L K orig (insert d A) (pr\<lparr>bins := (bins pr)[b := bins pr ! b XOR orig ! d]\<rparr>)"
proof -
  have "d \<notin> on_bin L K pr A c" for c using d on_bin_subset by blast
  then show ?thesis
    using assms by (auto simp: bins_ok_def on_bin_insert nth_list_update xor.commute)
qed

lemma bins_ok_remove:
  assumes c: "bins_ok L K orig A pr" and d: "d \<in> A" "finite A"
    and b: "b = pos_bin L K pr d" "b < length (bins pr)" "length (bins pr) = nat (pr_size pr)"
  shows "bins_ok L K orig (A - {d}) (pr\<lparr>bins := (bins pr)[b := bins pr ! b XOR orig ! d]\<rparr>)"
proof -
  have dS: "d \<in> on_bin L K pr A b" using d b by (simp add: on_bin_def)
  have other: "d \<notin> on_bin L K pr A c" if "c \<noteq> b" for c using that b by (simp add: on_bin_def)
  have "xorsum.F ((!) orig) (on_bin L K pr A b) XOR orig ! d =
      xorsum.F ((!) orig) (on_bin L K pr A b - {d})"
    using dS d by (intro xorsum_remove) auto
  with assms other show ?thesis
    by (auto simp: bins_ok_def on_bin_diff nth_list_update)
qed

end
