(* ===== verification/Katz.thy ===== *)
theory Katz imports Prelude_MPOLSR begin

text \<open>
  Why the peeling of the inverse transform never gets stuck. A direction \<open>(p, q)\<close> groups the
  pixels of a set by the value \<open>col * q + row * p\<close>. If in none of the directions a group has
  exactly one pixel, the two extreme pixels of the topmost groups give a chain of rows that climbs
  by \<open>q\<close> for every direction, so the set needs more rows than the directions' \<open>q\<close> sum to
  (Katz' criterion). The locale states the only fact about the grid this uses: a pixel is
  determined by its row and its column.
\<close>

section \<open>Angles in the order of their slopes\<close>

definition angles_ok :: "(int \<times> int) list \<Rightarrow> bool" where
  "angles_ok as \<longleftrightarrow> distinct as \<and> (\<forall>(p, q) \<in> set as. 0 < q \<and> coprime p q)"

lemma reduced_fraction_unique:
  fixes p q p' q' :: int
  assumes "p * q' = p' * q" "0 < q" "0 < q'" "coprime p q" "coprime p' q'"
  shows "(p, q) = (p', q')"
proof -
  have "q dvd p * q'" "q' dvd p' * q" using assms(1) by (metis dvd_triv_right)+
  then have "q dvd q'" "q' dvd q"
    using assms(4,5) by (auto simp: coprime_commute coprime_dvd_mult_right_iff)
  then have "q = q'" using assms(2,3) by (simp add: zdvd_antisym_nonneg)
  then show ?thesis using assms by simp
qed

lemma sort_by_slope:
  assumes "angles_ok as"
  shows "\<exists>bs. set bs = set as \<and> length bs = length as \<and>
    sum_list (map snd bs) = sum_list (map snd as) \<and>
    sorted_wrt (\<lambda>(p, q) (p', q'). p * q' < p' * q) bs"
proof -
  define D where "D = prod_list (map snd as)"
  have pos: "0 < q" "coprime p q" "q dvd D" if "(p, q) \<in> set as" for p q
  proof -
    show "0 < q" "coprime p q" using assms that by (auto simp: angles_ok_def)
    have "x dvd prod_list xs" if "x \<in> set xs" for x and xs :: "int list"
      using that by (induction xs) (auto intro: dvd_mult)
    moreover have "q \<in> set (map snd as)" using that by force
    ultimately show "q dvd D" unfolding D_def by blast
  qed
  have "0 < prod_list xs" if "\<forall>x \<in> set xs. 0 < x" for xs :: "int list"
    using that by (induction xs) auto
  moreover have "\<forall>x \<in> set (map snd as). 0 < x" using pos(1) by auto
  ultimately have D: "0 < D" unfolding D_def by blast
  define key where "key a = fst a * (D div snd a)" for a :: "int \<times> int"
  have slope: "p * q' < p' * q" if in1: "(p, q) \<in> set as" and in2: "(p', q') \<in> set as"
    and le: "key (p, q) \<le> key (p', q')" and ne: "(p, q) \<noteq> (p', q')" for p q p' q'
  proof -
    obtain e e' where e: "D = q * e" "D = q' * e'" using pos(3) in1 in2 by (meson dvdE)
    have "q * e div q = e" "q' * e' div q' = e'" using pos(1) [OF in1] pos(1) [OF in2] by simp_all
    then have div: "D div q = e" "D div q' = e'" using e by metis+
    have k: "key (p, q) = p * e" "key (p', q') = p' * e'"
      unfolding key_def fst_conv snd_conv using div by simp_all
    have "p * q' * D = (p * e) * (q * q')" by (subst e(1)) (simp add: algebra_simps)
    also have "\<dots> \<le> (p' * e') * (q * q')"
      using le k pos(1) [OF in1] pos(1) [OF in2] by (intro mult_right_mono) auto
    also have "\<dots> = p' * q * D" by (subst e(2)) (simp add: algebra_simps)
    finally have "p * q' \<le> p' * q" using D by simp
    moreover have "p * q' \<noteq> p' * q"
      using reduced_fraction_unique pos in1 in2 ne by blast
    ultimately show ?thesis by simp
  qed
  let ?bs = "sort_key key as"
  have d: "distinct as" using assms by (simp add: angles_ok_def)
  have "sorted_wrt (\<lambda>a b. key a \<le> key b) ?bs" using sorted_sort_key [of key as] by (simp add: sorted_map)
  then have "sorted_wrt (\<lambda>a b. a \<noteq> b \<and> key a \<le> key b) ?bs"
    using d by (simp add: sorted_wrt_iff_nth_less nth_eq_iff_index_eq)
  then have "sorted_wrt (\<lambda>(p, q) (p', q'). p * q' < p' * q) ?bs"
    by (rule sorted_wrt_mono_rel [rotated]) (use slope in auto)
  then show ?thesis
    using d by (intro exI [of _ ?bs]) (simp add: sum_list_distinct_conv_sum_set)
qed

section \<open>The climbing chain of rows\<close>

locale pixel_grid =
  fixes row col :: "nat \<Rightarrow> int"
  assumes row_col_inj: "row d = row e \<Longrightarrow> col d = col e \<Longrightarrow> d = e"
begin

definition ray :: "int \<Rightarrow> int \<Rightarrow> nat \<Rightarrow> int" where
  "ray p q d = col d * q + row d * p"

definition topmost :: "int \<Rightarrow> int \<Rightarrow> nat set \<Rightarrow> nat set" where
  "topmost p q A = {d \<in> A. \<forall>e \<in> A. ray p q e \<le> ray p q d}"

lemma same_ray_rows:
  assumes "d \<noteq> e" "ray p q d = ray p q e" "0 < q" "coprime p q"
  shows "q \<le> \<bar>row d - row e\<bar>"
proof -
  have eq: "(col d - col e) * q = (row e - row d) * p"
    using assms(2) by (simp add: ray_def algebra_simps)
  then have "q dvd (row e - row d) * p" by (metis dvd_triv_right)
  then have dvd: "q dvd row e - row d"
    using assms(4) by (simp add: coprime_commute coprime_dvd_mult_left_iff)
  have "row e \<noteq> row d"
  proof
    assume r: "row e = row d"
    then have "col d = col e" using eq assms(3) by simp
    with r assms(1) show False using row_col_inj by metis
  qed
  then have "q \<le> \<bar>row e - row d\<bar>" using dvd assms(3) by (intro zdvd_imp_le) auto
  then show ?thesis by simp
qed

lemma topmost_nonempty:
  assumes "finite A" "A \<noteq> {}"
  shows "topmost p q A \<noteq> {}"
proof -
  have "Max (ray p q ` A) \<in> ray p q ` A" using assms by (intro Max_in) auto
  then obtain d where "d \<in> A" "ray p q d = Max (ray p q ` A)" by auto
  then have "d \<in> topmost p q A" using assms by (auto simp: topmost_def)
  then show ?thesis by blast
qed

lemma topmost_two:
  assumes A: "finite A" "A \<noteq> {}" and pq: "0 < q" "coprime p q"
    and stuck: "\<And>v. card {d \<in> A. ray p q d = v} \<noteq> 1"
  obtains x y where "x \<in> topmost p q A" "y \<in> topmost p q A" "row x + q \<le> row y"
proof -
  obtain d where d: "d \<in> topmost p q A" using topmost_nonempty [OF A] by blast
  let ?S = "{e \<in> A. ray p q e = ray p q d}"
  have "?S \<noteq> {d}" using stuck [of "ray p q d"] by (metis is_singletonI is_singleton_altdef)
  moreover have "d \<in> ?S" using d by (simp add: topmost_def)
  ultimately obtain e where e: "e \<in> ?S" "e \<noteq> d" by blast
  then have et: "e \<in> topmost p q A" using d by (auto simp: topmost_def)
  have "q \<le> \<bar>row d - row e\<bar>" using e pq by (intro same_ray_rows) auto
  then have "row d + q \<le> row e \<or> row e + q \<le> row d" by linarith
  with d et that show thesis by blast
qed

lemma topmost_rows_mono:
  assumes x: "x \<in> topmost p q A" and y: "y \<in> topmost p' q' A"
    and slope: "p * q' < p' * q" and "0 < q" "0 < q'"
  shows "row x \<le> row y"
proof -
  have "ray p q y \<le> ray p q x" "ray p' q' x \<le> ray p' q' y"
    using x y by (auto simp: topmost_def)
  then have "ray p q y * q' \<le> ray p q x * q'" "ray p' q' x * q \<le> ray p' q' y * q"
    using assms(4,5) by (auto intro: mult_right_mono)
  then have "(row x - row y) * (p' * q - p * q') \<le> 0"
    by (simp add: ray_def algebra_simps)
  then show ?thesis
    using slope by (metis diff_gt_0_iff_gt diff_le_0_iff_le mult_le_0_iff not_le)
qed

text \<open>The chain of rows, one climb per direction, the directions sorted by slope.\<close>

lemma stuck_row_chain:
  assumes A: "finite A" "A \<noteq> {}"
    and stuck: "\<forall>(p, q) \<in> set as. \<forall>v. card {d \<in> A. ray p q d = v} \<noteq> 1"
    and pos: "\<forall>(p, q) \<in> set as. 0 < q \<and> coprime p q"
    and slopes: "sorted_wrt (\<lambda>(p, q) (p', q'). p * q' < p' * q) as"
    and m: "m \<in> row ` A"
      "as \<noteq> [] \<Longrightarrow> \<forall>x \<in> topmost (fst (hd as)) (snd (hd as)) A. m \<le> row x"
  shows "\<exists>rs. length rs = Suc (length as) \<and> sorted_wrt (<) rs \<and> set rs \<subseteq> row ` A \<and>
      m \<le> hd rs \<and> hd rs + sum_list (map snd as) \<le> last rs"
  using stuck pos slopes m
proof (induction as arbitrary: m)
  case Nil
  then show ?case by (intro exI [of _ "[m]"]) auto
next
  case (Cons a as)
  obtain p q where a: "a = (p, q)" by (cases a)
  have pq: "0 < q" "coprime p q" and st: "\<And>v. card {d \<in> A. ray p q d = v} \<noteq> 1"
    using Cons.prems(1,2) a by auto
  obtain x y where x: "x \<in> topmost p q A" and y: "y \<in> topmost p q A" and xy: "row x + q \<le> row y"
    by (rule topmost_two [OF A pq st])
  have "\<exists>rs. length rs = Suc (length as) \<and> sorted_wrt (<) rs \<and> set rs \<subseteq> row ` A \<and>
      row y \<le> hd rs \<and> hd rs + sum_list (map snd as) \<le> last rs"
  proof (rule Cons.IH)
    show "row y \<in> row ` A" using y by (simp add: topmost_def)
    assume "as \<noteq> []"
    then obtain p' q' as' where as: "as = (p', q') # as'" by (cases as) auto
    have sl: "p * q' < p' * q" and q': "0 < q'" using Cons.prems(2,3) a as by auto
    show "\<forall>z \<in> topmost (fst (hd as)) (snd (hd as)) A. row y \<le> row z"
      using topmost_rows_mono [OF y _ sl pq(1) q'] as by simp
  qed (use Cons.prems in auto)
  then obtain rs where rs: "length rs = Suc (length as)" "sorted_wrt (<) rs" "set rs \<subseteq> row ` A"
      "row y \<le> hd rs" "hd rs + sum_list (map snd as) \<le> last rs" by blast
  have ne: "rs \<noteq> []" using rs(1) by auto
  have "row x < r" if "r \<in> set rs" for r
  proof -
    have "hd rs \<le> r" using rs(2) that by (cases rs) auto
    then show ?thesis using rs(4) xy pq(1) by linarith
  qed
  then show ?case
    using rs x xy ne a Cons.prems(5)
    by (intro exI [of _ "row x # rs"]) (auto simp: topmost_def)
qed

lemma stuck_rows:
  assumes A: "finite A" "A \<noteq> {}"
    and stuck: "\<forall>(p, q) \<in> set as. \<forall>v. card {d \<in> A. ray p q d = v} \<noteq> 1"
    and angles: "angles_ok as"
  shows "Suc (length as) \<le> card (row ` A)"
    and "\<exists>x \<in> A. \<exists>y \<in> A. row x + sum_list (map snd as) \<le> row y"
proof -
  have fin: "finite (row ` A)" using A by simp
  obtain bs where bs: "set bs = set as" "length bs = length as"
      "sum_list (map snd bs) = sum_list (map snd as)"
      "sorted_wrt (\<lambda>(p, q) (p', q'). p * q' < p' * q) bs"
    using sort_by_slope [OF angles] by blast
  have "\<exists>rs. length rs = Suc (length bs) \<and> sorted_wrt (<) rs \<and> set rs \<subseteq> row ` A \<and>
      Min (row ` A) \<le> hd rs \<and> hd rs + sum_list (map snd bs) \<le> last rs"
    using stuck angles A fin bs(1)
    by (intro stuck_row_chain [OF A _ _ bs(4)]) (auto simp: topmost_def angles_ok_def)
  then obtain rs where rs: "length rs = Suc (length as)" "sorted_wrt (<) rs" "set rs \<subseteq> row ` A"
      "hd rs + sum_list (map snd as) \<le> last rs" using bs by auto
  have "card (set rs) = length rs" using rs(2) by (intro distinct_card) (simp add: strict_sorted_iff)
  then show "Suc (length as) \<le> card (row ` A)" using rs(1,3) card_mono [OF fin] by metis
  have "rs \<noteq> []" using rs(1) by auto
  then have "hd rs \<in> row ` A" "last rs \<in> row ` A" using rs(3) by auto
  then obtain x y where "x \<in> A" "y \<in> A" "hd rs = row x" "last rs = row y" by auto
  with rs(4) show "\<exists>x \<in> A. \<exists>y \<in> A. row x + sum_list (map snd as) \<le> row y"
    by (intro bexI [of _ x] bexI [of _ y]) auto
qed

end

text \<open>The support of the code is such a grid: the position \<open>d\<close> is row \<open>d / K\<close>, column \<open>d mod K\<close>.\<close>

interpretation support_grid: pixel_grid "\<lambda>d. int d div K" "\<lambda>d. int d mod K" for K
proof
  fix d e
  assume "int d div K = int e div K" "int d mod K = int e mod K"
  then have "int d = int e" by (metis div_mult_mod_eq)
  then show "d = e" by simp
qed

end
