(* ===== verification/Mojette_Inverse.thy ===== *)
theory Mojette_Inverse imports Mojette_Counts Katz begin

text \<open>
  Correctness of the Mojette transform: what \<open>forward\<close> computes, and that the inverse and the
  systematic inverse return the original support whenever the remaining pixels can be peeled,
  which Katz' criterion gives for the angles the sender uses.
\<close>

section \<open>Arrays of arrays\<close>

lemma rd2_nat [simp]:
  "j < length t \<Longrightarrow> b < length (t ! j) \<Longrightarrow> rd2 t (int j) (int b) = Some (t ! j ! b)"
  by (simp add: rd2_def)

lemma wr2_nat [simp]:
  "j < length t \<Longrightarrow> b < length (t ! j) \<Longrightarrow> wr2 t (int j) (int b) v = Some (t[j := (t ! j)[b := v]])"
  by (simp add: wr2_def)

section \<open>Projections that differ in their bins only\<close>

definition same_prj :: "projection \<Rightarrow> projection \<Rightarrow> bool" where
  "same_prj pr0 pr \<longleftrightarrow> pr = pr0\<lparr>bins := bins pr\<rparr>"

lemma same_prj_simps:
  assumes "same_prj pr0 pr"
  shows "pr_p pr = pr_p pr0" "pr_q pr = pr_q pr0" "pr_size pr = pr_size pr0"
    "bin_index L pr l k = bin_index L pr0 l k" "pos_bin L K pr d = pos_bin L K pr0 d"
    "on_bin L K pr A b = on_bin L K pr0 A b"
proof -
  obtain x where "pr = pr0\<lparr>bins := x\<rparr>" using assms by (auto simp: same_prj_def)
  then show "pr_p pr = pr_p pr0" "pr_q pr = pr_q pr0" "pr_size pr = pr_size pr0"
    "bin_index L pr l k = bin_index L pr0 l k" "pos_bin L K pr d = pos_bin L K pr0 d"
    "on_bin L K pr A b = on_bin L K pr0 A b" by simp_all
qed

lemma same_prj_refl [simp]: "same_prj pr pr"
  by (simp add: same_prj_def)

lemma same_prj_upd [simp]: "same_prj pr0 (pr\<lparr>bins := x\<rparr>) \<longleftrightarrow> same_prj pr0 pr"
  by (cases pr0; cases pr) (auto simp: same_prj_def)

definition prjs_geom :: "int \<Rightarrow> int \<Rightarrow> projection list \<Rightarrow> bool" where
  "prjs_geom L K prjs \<longleftrightarrow> support_geom L K \<and> (\<forall>pr \<in> set prjs. prj_geom L K pr)"

lemma prjs_geom_nth: "prjs_geom L K prjs \<Longrightarrow> j < length prjs \<Longrightarrow> prj_geom L K (prjs ! j)"
  by (simp add: prjs_geom_def)

lemma support_geom_pos:
  assumes "support_geom L K"
  shows "0 < L" "0 < K" "int (nat L * nat K) = L * K" "nat (L * K) = nat L * nat K"
    "int (nat L) = L" "int (nat K) = K"
  using assms by (auto simp: support_geom_def nat_mult_distrib)

lemma pos_lt_iff: "support_geom L K \<Longrightarrow> int d < L * K \<longleftrightarrow> d < nat L * nat K"
  using support_geom_pos(3) [of L K] by (metis of_nat_less_iff)

section \<open>The forward transform\<close>

lemma forward_bin_eq:
  assumes "prj_geom L K pr" "pr = prjs ! j" "j < length prjs" and sg: "support_geom L K"
    and s: "s_l s = L" "s_k s = K" "length (pixels s) = nat L * nat K"
    and lk: "l < nat L" "k < nat K" and d: "d = l * nat K + k"
  shows "forward_bin s (int l) (int k) (int j) prjs =
    Some (prjs[j := pr\<lparr>bins := (bins pr)[pos_bin L K pr d :=
      bins pr ! pos_bin L K pr d XOR pixels s ! d]\<rparr>])"
proof -
  note g = support_geom_pos [OF sg]
  have dn: "d < nat L * nat K" using matrix_index_lt [OF lk] d by simp
  then have "int d < L * K" using pos_lt_iff [OF sg] by simp
  then have b: "int (pos_bin L K pr d) = bin_index L pr (int l) (int k)"
    "pos_bin L K pr d < length (bins pr)"
    using pos_bin_lt [OF assms(1) g(2)] pos_of_row_col [OF lk(2), of l] d by auto
  have di: "int l * K + int k = int d" using g d by simp
  show ?thesis
    using assms(3) s b(2) dn
    by (simp add: forward_bin_def di assms(2) [symmetric] b(1) [symmetric])
qed

text \<open>Every bin of the result is the XOR of the pixels on it.\<close>

lemma forward_bins:
  assumes geom: "prjs_geom L K prjs" and s: "s_l s = L" "s_k s = K" "length (pixels s) = nat (L * K)"
    and zero: "\<forall>pr \<in> set prjs. \<forall>x \<in> set (bins pr). x = 0"
  shows "\<exists>prjs'. forward s prjs (int (length prjs)) = Some prjs' \<and>
    list_all2 same_prj prjs prjs' \<and> prjs_geom L K prjs' \<and>
    (\<forall>pr \<in> set prjs'. bins_ok L K (pixels s) {..<nat (L * K)} pr)"
proof -
  have sg: "support_geom L K" using geom by (simp add: prjs_geom_def)
  note g = support_geom_pos [OF sg]
  let ?n = "length prjs"
  define I where "I ps \<longleftrightarrow> list_all2 same_prj prjs ps \<and> (\<forall>pr \<in> set ps. prj_geom L K pr)" for ps
  define Q where "Q d j ps \<longleftrightarrow> bins_ok L K (pixels s) {..<d} (ps ! j)" for d j and ps :: "projection list"
  define P where "P d ps \<longleftrightarrow> I ps \<and> (\<forall>j < ?n. Q d j ps)" for d ps
  have "\<exists>ps. iter [0..<nat L] (\<lambda>l. iter [0..<nat K] (\<lambda>k. iter [0..<?n]
      (\<lambda>pp. forward_bin s (int l) (int k) (int pp)))) prjs = Some ps \<and> P (nat L * nat K) ps"
  proof (rule iter_matrix)
    have "bins_ok L K (pixels s) {} (prjs ! j)" if "j < ?n" for j
      using that geom zero by (intro bins_ok_empty) (auto simp: prjs_geom_def prj_geom_def)
    then show "P 0 prjs"
      using geom by (auto simp: P_def I_def Q_def prjs_geom_def intro!: list_all2_refl)
  next
    fix l k ps
    assume lk: "l < nat L" "k < nat K" and P: "P (l * nat K + k) ps"
    define d where "d = l * nat K + k"
    have "\<exists>ps'. iter [0..<?n] (\<lambda>pp. forward_bin s (int l) (int k) (int pp)) ps = Some ps' \<and>
        I ps' \<and> (\<forall>j < ?n. Q (Suc d) j ps')"
    proof (rule iter_each [where Q = "Q d"])
      show "I ps" "\<And>j. j < ?n \<Longrightarrow> Q d j ps" using P by (auto simp: P_def d_def)
      fix j ps
      assume j: "j < ?n" and I: "I ps" and Q: "Q d j ps"
      let ?pr = "ps ! j" and ?b = "pos_bin L K (ps ! j) d"
      let ?pr' = "?pr\<lparr>bins := (bins ?pr)[?b := bins ?pr ! ?b XOR pixels s ! d]\<rparr>"
      have len: "length ps = ?n" using I by (auto simp: I_def dest: list_all2_lengthD)
      have pg: "prj_geom L K ?pr" using I j len by (auto simp: I_def)
      have "d < nat L * nat K" using matrix_index_lt [OF lk] by (simp add: d_def)
      then have "?b < length (bins ?pr)"
        using pos_bin_lt(2) [OF pg g(2)] pos_lt_iff [OF sg] by simp
      then have ok: "bins_ok L K (pixels s) {..<Suc d} ?pr'"
        using bins_ok_insert [of L K "pixels s" "{..<d}" ?pr d ?b] Q pg
        by (simp add: Q_def prj_geom_def lessThan_Suc)
      have eq: "forward_bin s (int l) (int k) (int j) ps = Some (ps[j := ?pr'])"
        by (rule forward_bin_eq [OF pg refl _ sg s(1,2) _ lk d_def]) (use j len s(3) g in auto)
      have "I (ps[j := ?pr'])"
        using I pg j len
        by (auto simp: I_def list_all2_conv_all_nth nth_list_update dest!: subsetD [OF set_update_subset_insert])
      with ok eq j len show "\<exists>ps'. forward_bin s (int l) (int k) (int j) ps = Some ps' \<and> I ps' \<and>
          Q (Suc d) j ps' \<and> (\<forall>i < ?n. i \<noteq> j \<longrightarrow> (Q d i ps \<longrightarrow> Q d i ps') \<and> (Q (Suc d) i ps \<longrightarrow> Q (Suc d) i ps'))"
        by (intro exI [of _ "ps[j := ?pr']"]) (simp add: Q_def)
    qed
    then show "\<exists>ps'. iter [0..<?n] (\<lambda>pp. forward_bin s (int l) (int k) (int pp)) ps = Some ps' \<and>
        P (Suc (l * nat K + k)) ps'"
      by (simp add: P_def d_def)
  qed
  then obtain ps where ps: "forward s prjs (int ?n) = Some ps" "P (nat L * nat K) ps"
    using s by (auto simp: forward_def)
  then have "length ps = ?n" by (auto simp: P_def I_def dest: list_all2_lengthD)
  with ps sg g show ?thesis
    by (auto simp: P_def I_def Q_def prjs_geom_def in_set_conv_nth)
qed

section \<open>Taking one pixel out\<close>

definition st_geom :: "int \<Rightarrow> int \<Rightarrow> projection list \<Rightarrow> mojette_state \<Rightarrow> bool" where
  "st_geom L K prjs0 st \<longleftrightarrow> support_geom L K \<and> list_all2 same_prj prjs0 (m_prj st) \<and>
     (\<forall>pr \<in> set (m_prj st). prj_geom L K pr) \<and>
     length (m_pu st) = length prjs0 \<and> length (m_pd st) = length prjs0"

definition prj_ok :: "int \<Rightarrow> int \<Rightarrow> byte list \<Rightarrow> nat set \<Rightarrow> nat \<Rightarrow> mojette_state \<Rightarrow> bool" where
  "prj_ok L K orig A j st \<longleftrightarrow>
     counts_ok L K A (m_prj st ! j) (m_pu st ! j) (m_pd st ! j) \<and> bins_ok L K orig A (m_prj st ! j)"

lemma st_geomD:
  assumes "st_geom L K prjs0 st"
  shows "support_geom L K" "length (m_prj st) = length prjs0"
    "length (m_pu st) = length prjs0" "length (m_pd st) = length prjs0"
    "j < length prjs0 \<Longrightarrow> prj_geom L K (m_prj st ! j)"
    "j < length prjs0 \<Longrightarrow> same_prj (prjs0 ! j) (m_prj st ! j)"
  using assms by (auto simp: st_geom_def list_all2_conv_all_nth)

lemma prj_ok_lengths:
  assumes "st_geom L K prjs0 st" "j < length prjs0" "prj_ok L K orig A j st"
  shows "length (m_pu st ! j) = nat (pr_size (prjs0 ! j))"
    "length (m_pd st ! j) = nat (pr_size (prjs0 ! j))"
    "length (bins (m_prj st ! j)) = nat (pr_size (prjs0 ! j))"
  using assms st_geomD(5,6) [OF assms(1,2)]
  by (auto simp: prj_ok_def counts_ok_def prj_geom_def same_prj_simps(3))

definition taken_out :: "nat \<Rightarrow> nat \<Rightarrow> byte \<Rightarrow> ulong \<Rightarrow> mojette_state \<Rightarrow> mojette_state" where
  "taken_out j b v diet st = st\<lparr>
     m_prj := (m_prj st)[j := (m_prj st ! j)
       \<lparr>bins := (bins (m_prj st ! j))[b := bins (m_prj st ! j) ! b XOR v]\<rparr>],
     m_pd := (m_pd st)[j := (m_pd st ! j)[b := m_pd st ! j ! b - diet]],
     m_pu := (m_pu st)[j := (m_pu st ! j)[b := m_pu st ! j ! b - 1]]\<rparr>"

lemma take_out_eq:
  assumes "j < length (m_prj st)" "j < length (m_pu st)" "j < length (m_pd st)"
    and b: "bin_index L (m_prj st ! j) l k = int b"
    and "b < length (bins (m_prj st ! j))" "b < length (m_pu st ! j)" "b < length (m_pd st ! j)"
  shows "take_out L l k v diet j st = Some (taken_out j b v diet st)"
  using assms by (simp add: take_out_def taken_out_def)

lemma take_out_ok:
  assumes st: "st_geom L K prjs0 st" and j: "j < length prjs0" and ok: "prj_ok L K orig A j st"
    and d: "d \<in> A" "finite A" "d < nat L * nat K" and b: "b = pos_bin L K (prjs0 ! j) d"
  shows "take_out L (int d div K) (int d mod K) (orig ! d) (of_nat d) j st =
      Some (taken_out j b (orig ! d) (of_nat d) st)" (is ?eq)
    and "st_geom L K prjs0 (taken_out j b (orig ! d) (of_nat d) st)" (is ?geom)
    and "prj_ok L K orig (A - {d}) j (taken_out j b (orig ! d) (of_nat d) st)" (is ?ok)
    and "b < nat (pr_size (prjs0 ! j))"
proof -
  note g = st_geomD [OF st]
  note len = prj_ok_lengths [OF st j ok]
  have sg: "support_geom L K" by (rule g(1))
  note pos = support_geom_pos [OF sg]
  have dd: "int d < L * K" using d pos_lt_iff [OF sg] by simp
  note same = same_prj_simps [OF g(6) [OF j]]
  have bp: "b = pos_bin L K (m_prj st ! j) d" using b same by simp
  note pb = pos_bin_lt [OF g(5) [OF j] pos(2) dd]
  have bi: "bin_index L (m_prj st ! j) (int d div K) (int d mod K) = int b" using pb(3) bp by simp
  show bs: "b < nat (pr_size (prjs0 ! j))" using pb(1) bp same by simp
  show ?eq by (rule take_out_eq [OF _ _ _ bi]) (use g j len bs in auto)
  show ?geom
    using st j len g(5) [OF j]
    by (auto simp: st_geom_def taken_out_def list_all2_conv_all_nth nth_list_update
        dest!: subsetD [OF set_update_subset_insert])
  have "counts_ok L K (A - {d}) (m_prj st ! j) ((m_pu st ! j)[b := m_pu st ! j ! b - 1])
      ((m_pd st ! j)[b := m_pd st ! j ! b - of_nat d])"
    by (rule counts_ok_remove [OF _ d(1,2) bp]) (use ok bs same in \<open>auto simp: prj_ok_def\<close>)
  moreover have "bins_ok L K orig (A - {d}) ((m_prj st ! j)
      \<lparr>bins := (bins (m_prj st ! j))[b := bins (m_prj st ! j) ! b XOR orig ! d]\<rparr>)"
    by (rule bins_ok_remove [OF _ d(1,2) bp]) (use ok bs len same in \<open>auto simp: prj_ok_def\<close>)
  ultimately show ?ok using g j by (simp add: prj_ok_def taken_out_def)
qed

lemma taken_out_simps [simp]:
  "i \<noteq> j \<Longrightarrow> m_prj (taken_out j b v diet st) ! i = m_prj st ! i"
  "i \<noteq> j \<Longrightarrow> m_pu (taken_out j b v diet st) ! i = m_pu st ! i"
  "i \<noteq> j \<Longrightarrow> m_pd (taken_out j b v diet st) ! i = m_pd st ! i"
  "m_pix (taken_out j b v diet st) = m_pix st"
  "m_queue (taken_out j b v diet st) = m_queue st"
  "i \<noteq> j \<Longrightarrow> prj_ok L K orig A i (taken_out j b v diet st) = prj_ok L K orig A i st"
  by (simp_all add: taken_out_def prj_ok_def)

lemma geom_frame [simp]:
  "st_geom L K prjs0 (st\<lparr>m_pix := px\<rparr>) = st_geom L K prjs0 st"
  "st_geom L K prjs0 (st\<lparr>m_queue := q\<rparr>) = st_geom L K prjs0 st"
  "prj_ok L K orig A j (st\<lparr>m_pix := px\<rparr>) = prj_ok L K orig A j st"
  "prj_ok L K orig A j (st\<lparr>m_queue := q\<rparr>) = prj_ok L K orig A j st"
  by (simp_all add: st_geom_def prj_ok_def)

section \<open>The state of the decoding\<close>

definition mj_inv ::
  "int \<Rightarrow> int \<Rightarrow> projection list \<Rightarrow> byte list \<Rightarrow> nat set \<Rightarrow> mojette_state \<Rightarrow> bool" where
  "mj_inv L K prjs0 orig A st \<longleftrightarrow> st_geom L K prjs0 st \<and> (\<forall>j < length prjs0. prj_ok L K orig A j st) \<and>
     A \<subseteq> {..<nat L * nat K} \<and> length (m_pix st) = nat L * nat K \<and>
     (\<forall>d < nat L * nat K. d \<notin> A \<longrightarrow> m_pix st ! d = orig ! d)"

lemma mj_inv_finite: "mj_inv L K prjs0 orig A st \<Longrightarrow> finite A"
  by (auto simp: mj_inv_def intro: finite_subset)

text \<open>A received row: its pixel is stored and taken out of every projection.\<close>

lemma line_pixel_ok:
  assumes inv: "mj_inv L K prjs0 orig A st" and r: "num_line ln = int r" "r < nat L" and k: "k < nat K"
    and d: "d = r * nat K + k" "d \<in> A" and v: "k < length (line_val ln)" "line_val ln ! k = orig ! d"
  shows "\<exists>st'. line_pixel L K (int (length prjs0)) ln k st = Some st' \<and>
    mj_inv L K prjs0 orig (A - {d}) st' \<and> m_queue st' = m_queue st"
proof -
  let ?n = "length prjs0"
  have st: "st_geom L K prjs0 st" using inv by (simp add: mj_inv_def)
  have sg: "support_geom L K" using st by (simp add: st_geom_def)
  note pos = support_geom_pos [OF sg]
  have dn: "d < nat L * nat K" using matrix_index_lt [OF r(2) k] d by simp
  have dl: "int d div K = int r" "int d mod K = int k" "num_line ln * K + int k = int d"
    using pos_of_row_col [OF k, of r] d r pos by auto
  define px where "px = (m_pix st)[d := orig ! d]"
  define I where "I s \<longleftrightarrow> st_geom L K prjs0 s \<and> m_pix s = px \<and> m_queue s = m_queue st" for s
  have "\<exists>s. iter [0..<?n] (take_out L (int d div K) (int d mod K) (orig ! d) (of_nat d))
      (st\<lparr>m_pix := px\<rparr>) = Some s \<and> I s \<and> (\<forall>j < ?n. prj_ok L K orig (A - {d}) j s)"
  proof (rule iter_each [where Q = "\<lambda>j. prj_ok L K orig A j"])
    show "I (st\<lparr>m_pix := px\<rparr>)" "\<And>j. j < ?n \<Longrightarrow> prj_ok L K orig A j (st\<lparr>m_pix := px\<rparr>)"
      using inv by (auto simp: I_def mj_inv_def)
    fix j s
    assume j: "j < ?n" and I: "I s" and ok: "prj_ok L K orig A j s"
    from I have "st_geom L K prjs0 s" by (simp add: I_def)
    from take_out_ok [OF this j ok d(2) mj_inv_finite [OF inv] dn refl] I
    show "\<exists>s'. take_out L (int d div K) (int d mod K) (orig ! d) (of_nat d) j s = Some s' \<and> I s' \<and>
        prj_ok L K orig (A - {d}) j s' \<and>
        (\<forall>i < ?n. i \<noteq> j \<longrightarrow> (prj_ok L K orig A i s \<longrightarrow> prj_ok L K orig A i s') \<and>
          (prj_ok L K orig (A - {d}) i s \<longrightarrow> prj_ok L K orig (A - {d}) i s'))"
      by (intro exI conjI) (auto simp: I_def)
  qed
  then obtain s where s: "iter [0..<?n] (take_out L (int d div K) (int d mod K) (orig ! d) (of_nat d))
      (st\<lparr>m_pix := px\<rparr>) = Some s" "I s" "\<forall>j < ?n. prj_ok L K orig (A - {d}) j s" by blast
  have len: "length (m_pix st) = nat L * nat K" using inv by (simp add: mj_inv_def)
  have "of_int (int k + num_line ln * K) = (of_nat d :: ulong)"
    using dl(3) by (metis add.commute of_int_of_nat_eq)
  then have "line_pixel L K (int ?n) ln k st = Some s"
    using v len dn s(1) dl r(1) by (simp add: line_pixel_def px_def)
  moreover have "mj_inv L K prjs0 orig (A - {d}) s"
    using s(2,3) inv len dn by (auto simp: mj_inv_def I_def px_def nth_list_update)
  ultimately show ?thesis using s(2) by (auto simp: I_def)
qed

section \<open>Building the counts\<close>

lemma alloc_counts_ok:
  assumes "prjs_geom L K prjs"
  shows "alloc_counts L K prjs (int (length prjs)) =
    Some (map (\<lambda>pr. replicate (nat (pr_size pr)) 0) prjs)"
proof -
  let ?n = "length prjs"
  define P where "P i t \<longleftrightarrow> t = map (\<lambda>pr. replicate (nat (pr_size pr)) (0 :: ulong)) (take i prjs)" for i t
  have "\<exists>t. alloc_counts L K prjs (int ?n) = Some t \<and> P ?n t"
    unfolding alloc_counts_def nat_int
  proof (rule iter_upt_total)
    show "P 0 []" by (simp add: P_def)
    fix i t
    assume i: "i < ?n" and P: "P i t"
    have "prj_geom L K (prjs ! i)" using assms i by (rule prjs_geom_nth)
    then show "\<exists>t'. do {
       p \<leftarrow> rd prjs (int i);
       let size = \<bar>pr_p p\<bar> * (L - 1) + \<bar>pr_q p\<bar> * (K - 1) + 1;
       Some (t @ [replicate (nat size) 0])
     } = Some t' \<and> P (Suc i) t'"
      using i P by (simp add: P_def take_Suc_conv_app_nth prj_geom_def Let_def)
  qed
  then show ?thesis by (auto simp: P_def)
qed

definition tables_ok ::
  "int \<Rightarrow> int \<Rightarrow> projection list \<Rightarrow> nat set \<Rightarrow> ulong list list \<times> ulong list list \<Rightarrow> bool" where
  "tables_ok L K prjs A t \<longleftrightarrow> length (fst t) = length prjs \<and> length (snd t) = length prjs \<and>
     (\<forall>j < length prjs. counts_ok L K A (prjs ! j) (fst t ! j) (snd t ! j))"

lemma count_bin_ok:
  assumes geom: "prjs_geom L K prjs" and j: "j < length prjs"
    and len: "length (fst t) = length prjs" "length (snd t) = length prjs"
    and ok: "counts_ok L K {..<d} (prjs ! j) (fst t ! j) (snd t ! j)"
    and lk: "l < nat L" "k < nat K" and d: "d = l * nat K + k"
  shows "\<exists>t'. count_bin L prjs (int l) (int k) (of_nat d) (int j) t = Some t' \<and>
    (length (fst t') = length prjs \<and> length (snd t') = length prjs) \<and>
    counts_ok L K {..<Suc d} (prjs ! j) (fst t' ! j) (snd t' ! j) \<and>
    (\<forall>i. i \<noteq> j \<longrightarrow> fst t' ! i = fst t ! i \<and> snd t' ! i = snd t ! i)"
proof -
  have sg: "support_geom L K" using geom by (simp add: prjs_geom_def)
  note g = support_geom_pos [OF sg]
  have pg: "prj_geom L K (prjs ! j)" using geom j by (rule prjs_geom_nth)
  obtain pu pd where t: "t = (pu, pd)" by (cases t)
  define b where "b = pos_bin L K (prjs ! j) d"
  have "d < nat L * nat K" using matrix_index_lt [OF lk] d by simp
  then have "int d < L * K" using pos_lt_iff [OF sg] by simp
  then have b: "int b = bin_index L (prjs ! j) (int l) (int k)" "b < nat (pr_size (prjs ! j))"
    using pos_bin_lt [OF pg g(2)] pos_of_row_col [OF lk(2), of l] d by (auto simp: b_def)
  have "counts_ok L K (insert d {..<d}) (prjs ! j) ((pu ! j)[b := pu ! j ! b + 1])
      ((pd ! j)[b := pd ! j ! b + of_nat d])"
    by (rule counts_ok_insert [OF _ _ _ b_def b(2)]) (use ok t in auto)
  then have "counts_ok L K {..<Suc d} (prjs ! j) ((pu ! j)[b := pu ! j ! b + 1])
      ((pd ! j)[b := pd ! j ! b + of_nat d])"
    by (simp add: lessThan_Suc)
  moreover have "count_bin L prjs (int l) (int k) (of_nat d) (int j) t =
      Some (pu[j := (pu ! j)[b := pu ! j ! b + 1]], pd[j := (pd ! j)[b := pd ! j ! b + of_nat d]])"
    using j len b(2) ok t by (simp add: count_bin_def counts_ok_def b(1) [symmetric])
  ultimately show ?thesis using j len t by simp
qed

lemma count_bins_ok:
  assumes geom: "prjs_geom L K prjs" and z: "z = map (\<lambda>pr. replicate (nat (pr_size pr)) 0) prjs"
  shows "\<exists>t. count_bins L K prjs (int (length prjs)) z z = Some t \<and>
    tables_ok L K prjs {..<nat L * nat K} t"
proof -
  let ?n = "length prjs"
  define P where "P d s \<longleftrightarrow> tables_ok L K prjs {..<d} (fst s) \<and> snd s = (of_nat d :: ulong)" for d s
  let ?body = "\<lambda>l k (t, d). map_option (\<lambda>t'. (t', d + 1))
      (iter [0..<?n] (\<lambda>i. count_bin L prjs (int l) (int k) d (int i)) t)"
  have "\<exists>s. iter [0..<nat L] (\<lambda>l. iter [0..<nat K] (?body l)) ((z, z), 0) = Some s \<and>
      P (nat L * nat K) s"
  proof (rule iter_matrix)
    show "P 0 ((z, z), 0)" using counts_ok_empty by (simp add: P_def tables_ok_def z)
    fix l k and s :: "(ulong list list \<times> ulong list list) \<times> ulong"
    assume lk: "l < nat L" "k < nat K" and P: "P (l * nat K + k) s"
    define d where "d = l * nat K + k"
    obtain t where s: "s = (t, of_nat d)" using P by (cases s) (auto simp: P_def d_def)
    let ?Q = "\<lambda>A j t. counts_ok L K A (prjs ! j) (fst t ! j) (snd t ! j)"
    have "\<exists>t'. iter [0..<?n] (\<lambda>i. count_bin L prjs (int l) (int k) (of_nat d) (int i)) t = Some t' \<and>
        (length (fst t') = ?n \<and> length (snd t') = ?n) \<and> (\<forall>j < ?n. ?Q {..<Suc d} j t')"
    proof (rule iter_each [where Q = "?Q {..<d}"])
      show "length (fst t) = ?n \<and> length (snd t) = ?n" "\<And>j. j < ?n \<Longrightarrow> ?Q {..<d} j t"
        using P s by (auto simp: P_def tables_ok_def d_def)
      fix j t
      assume "j < ?n" "length (fst t) = ?n \<and> length (snd t) = ?n" "?Q {..<d} j t"
      with count_bin_ok [OF geom _ _ _ _ lk d_def, of j t]
      show "\<exists>t'. count_bin L prjs (int l) (int k) (of_nat d) (int j) t = Some t' \<and>
          (length (fst t') = ?n \<and> length (snd t') = ?n) \<and> ?Q {..<Suc d} j t' \<and>
          (\<forall>i < ?n. i \<noteq> j \<longrightarrow> (?Q {..<d} i t \<longrightarrow> ?Q {..<d} i t') \<and>
            (?Q {..<Suc d} i t \<longrightarrow> ?Q {..<Suc d} i t'))"
        by fastforce
    qed
    then show "\<exists>s'. ?body l k s = Some s' \<and> P (Suc (l * nat K + k)) s'"
      by (auto simp: s P_def tables_ok_def d_def add.commute)
  qed
  then obtain s where "iter [0..<nat L] (\<lambda>l. iter [0..<nat K] (?body l)) ((z, z), 0) = Some s"
      "P (nat L * nat K) s" by blast
  then show ?thesis by (auto simp: count_bins_def P_def)
qed

section \<open>The queue of univocal bins\<close>

definition queue_in :: "projection list \<Rightarrow> (nat \<times> nat) list \<Rightarrow> bool" where
  "queue_in prjs0 q \<longleftrightarrow> (\<forall>(j, b) \<in> set q. j < length prjs0 \<and> b < nat (pr_size (prjs0 ! j)))"

definition queue_cov :: "projection list \<Rightarrow> ulong list list \<Rightarrow> (nat \<times> nat) list \<Rightarrow> bool" where
  "queue_cov prjs0 pu q \<longleftrightarrow> (\<forall>j < length prjs0. \<forall>b < nat (pr_size (prjs0 ! j)).
     pu ! j ! b = 1 \<longrightarrow> (j, b) \<in> set q)"

definition queue_ok :: "projection list \<Rightarrow> mojette_state \<Rightarrow> bool" where
  "queue_ok prjs0 st \<longleftrightarrow> queue_in prjs0 (m_queue st) \<and> queue_cov prjs0 (m_pu st) (m_queue st)"

lemma scan_univoc_ok:
  assumes same: "list_all2 same_prj prjs0 prjs" and len: "length pu = length prjs0"
    "\<And>j. j < length prjs0 \<Longrightarrow> length (pu ! j) = nat (pr_size (prjs0 ! j))"
  shows "\<exists>q. scan_univoc prjs (int (length prjs0)) pu = Some q \<and>
    queue_in prjs0 q \<and> queue_cov prjs0 pu q"
proof -
  let ?n = "length prjs0"
  define C where "C i b q \<longleftrightarrow> queue_in prjs0 q \<and>
    (\<forall>j c. j < ?n \<longrightarrow> c < nat (pr_size (prjs0 ! j)) \<longrightarrow> j < i \<or> j = i \<and> c < b \<longrightarrow>
      pu ! j ! c = 1 \<longrightarrow> (j, c) \<in> set q)" for i b q
  have "\<exists>q. scan_univoc prjs (int ?n) pu = Some q \<and> C ?n 0 q"
    unfolding scan_univoc_def nat_int
  proof (rule iter_upt_total [where P = "\<lambda>i. C i 0"])
    show "C 0 0 []" by (simp add: C_def queue_in_def)
    fix i q
    assume i: "i < ?n" and C: "C i 0 q"
    have pr: "rd prjs (int i) = Some (prjs ! i)" "pr_size (prjs ! i) = pr_size (prjs0 ! i)"
      using same i by (auto simp: list_all2_conv_all_nth same_prj_simps(3))
    have "\<exists>q'. iter [0..<nat (pr_size (prjs0 ! i))] (\<lambda>j q. do {
         u \<leftarrow> rd2 pu (int i) (int j); Some (if u = 1 then q @ [(i, j)] else q) }) q = Some q' \<and>
        C i (nat (pr_size (prjs0 ! i))) q'"
    proof (rule iter_upt_total [where P = "C i"])
      fix j q
      assume j: "j < nat (pr_size (prjs0 ! i))" and C: "C i j q"
      then have "C i (Suc j) (if pu ! i ! j = 1 then q @ [(i, j)] else q)"
        using i by (auto simp: C_def queue_in_def less_Suc_eq)
      then show "\<exists>q'. do { u \<leftarrow> rd2 pu (int i) (int j);
          Some (if u = 1 then q @ [(i, j)] else q) } = Some q' \<and> C i (Suc j) q'"
        using i j len by simp
    qed (rule C)
    then show "\<exists>q'. do { p \<leftarrow> rd prjs (int i); iter [0..<nat (pr_size p)] (\<lambda>j q. do {
         u \<leftarrow> rd2 pu (int i) (int j); Some (if u = 1 then q @ [(i, j)] else q) }) q } = Some q' \<and>
        C (Suc i) 0 q'"
      unfolding pr(1) by (auto simp: pr(2) C_def less_Suc_eq)
  qed
  then show ?thesis by (auto simp: C_def queue_cov_def)
qed

lemma skip_queue_ok:
  assumes "queue_in prjs0 q" "length pu = length prjs0"
    "\<And>j. j < length prjs0 \<Longrightarrow> length (pu ! j) = nat (pr_size (prjs0 ! j))"
    and "(i, c) \<in> set q" "pu ! i ! c = 1" and cov: "queue_cov prjs0 pu q"
  shows "\<exists>j b q'. skip_queue pu q = Some ((j, b) # q') \<and> pu ! j ! b = 1 \<and>
    queue_in prjs0 ((j, b) # q') \<and> queue_cov prjs0 pu ((j, b) # q')"
  using assms
proof (induction q)
  case Nil
  then show ?case by simp
next
  case (Cons x q)
  obtain j b where x: "x = (j, b)" by (cases x)
  then have jb: "rd2 pu (int j) (int b) = Some (pu ! j ! b)"
    using Cons.prems(1-3) by (auto simp: queue_in_def)
  show ?case
  proof (cases "pu ! j ! b = 1")
    case True
    then show ?thesis using Cons.prems x jb by auto
  next
    case False
    then have "(i, c) \<in> set q" "queue_cov prjs0 pu q" "queue_in prjs0 q"
      using Cons.prems x by (auto simp: queue_cov_def queue_in_def)
    with Cons.IH Cons.prems(2,3,5) x jb False show ?thesis by simp
  qed
qed

section \<open>One round of the decoding\<close>

lemma support_geom_bound: "support_geom L K \<Longrightarrow> nat L * nat K < 2 ^ 31"
  using support_geom_pos(4) [of L K] nat_less_iff [of "L * K" "2 ^ 31"]
  by (simp add: support_geom_def)

lemma decode_position:
  assumes sg: "support_geom L K" and d: "d < nat L * nat K"
  shows "sint ((of_nat d :: ulong) div of_int K) = int d div K"
    and "sint ((of_nat d :: ulong) - of_nat d div of_int K * of_int K) = int d mod K"
proof -
  define n where "n = nat K"
  have K: "K = int n" using support_geom_pos(6) [OF sg] by (simp add: n_def)
  have "nat L * n < 2 ^ 31" "n \<le> nat L * n"
    using support_geom_bound [OF sg] support_geom_pos(1) [OF sg]
    by (auto simp: n_def intro: Suc_leI)
  then have small: "d < 2 ^ 31" "n < 2 ^ 31" using d unfolding n_def by linarith+
  have un: "unat (of_nat m :: ulong) = m" if "m < 2 ^ 31" for m
    using that by (intro unat_small) simp
  define w where "w = (of_nat d :: ulong) div of_int K"
  have "unat w = d div n" using small by (simp only: w_def K of_int_of_nat_eq unat_div un)
  moreover have "of_nat (unat w) = w" by simp
  ultimately have w: "w = of_nat (d div n)" by simp
  have q: "d div n < 2 ^ 31" "d mod n < 2 ^ 31"
    using small(1) by (meson div_le_dividend mod_less_eq_dividend le_less_trans)+
  then have "sint w = int (d div n)" by (simp only: w sint_small un)
  then show "sint ((of_nat d :: ulong) div of_int K) = int d div K"
    by (simp only: w_def K zdiv_int)
  have "(of_nat d :: ulong) = of_nat (d div n * n + d mod n)" by simp
  also have "\<dots> = w * of_int K + of_nat (d mod n)" by (simp only: w K of_int_of_nat_eq of_nat_add of_nat_mult)
  finally have "(of_nat d :: ulong) - w * of_int K = of_nat (d mod n)" by (simp only: add_diff_cancel_left')
  moreover have "sint (of_nat (d mod n) :: ulong) = int (d mod n)"
    using q(2) by (simp only: sint_small un)
  ultimately show "sint ((of_nat d :: ulong) - of_nat d div of_int K * of_int K) = int d mod K"
    by (simp only: w_def K zmod_int)
qed

lemma univocal_iff:
  assumes sg: "support_geom L K" and A: "A \<subseteq> {..<nat L * nat K}"
  shows "(of_nat (card (on_bin L K pr A b)) :: ulong) = 1 \<longleftrightarrow> card (on_bin L K pr A b) = 1"
proof -
  have fin: "finite A" using A finite_subset by blast
  have "card (on_bin L K pr A b) \<le> card A" by (rule card_mono [OF fin on_bin_subset])
  also have "\<dots> \<le> nat L * nat K" using card_mono [OF _ A] by simp
  also have "\<dots> < 2 ^ 31" by (rule support_geom_bound [OF sg])
  finally have "card (on_bin L K pr A b) < 2 ^ 31" .
  then have "unat (of_nat (card (on_bin L K pr A b)) :: ulong) = card (on_bin L K pr A b)"
    by (intro unat_small) simp
  then show ?thesis by (metis of_nat_1 unat_1)
qed

lemma remove_pixel_ok:
  assumes st: "st_geom L K prjs0 st" and j: "j < length prjs0" and ok: "prj_ok L K orig A j st"
    and d: "d \<in> A" "finite A" "d < nat L * nat K" and q: "queue_ok prjs0 st"
  shows "\<exists>st'. remove_pixel L (int d div K) (int d mod K) (orig ! d) (of_nat d) j st = Some st' \<and>
    st_geom L K prjs0 st' \<and> prj_ok L K orig (A - {d}) j st' \<and> queue_ok prjs0 st' \<and>
    m_pix st' = m_pix st \<and> (\<forall>i B. i \<noteq> j \<longrightarrow> prj_ok L K orig B i st' = prj_ok L K orig B i st)"
proof -
  define b where "b = pos_bin L K (prjs0 ! j) d"
  define t where "t = taken_out j b (orig ! d) (of_nat d) st"
  note to = take_out_ok [OF st j ok d b_def, folded t_def]
  note g = st_geomD [OF to(2)]
  note len = prj_ok_lengths [OF to(2) j to(3)]
  have sg: "support_geom L K" by (rule g(1))
  have "int d < L * K" using d(3) pos_lt_iff [OF sg] by simp
  then have bi: "bin_index L (m_prj t ! j) (int d div K) (int d mod K) = int b"
    using pos_bin_lt(3) [OF g(5) [OF j] support_geom_pos(2) [OF sg]] same_prj_simps [OF g(6) [OF j]]
    by (simp add: b_def)
  let ?t' = "if m_pu t ! j ! b = 1 then t\<lparr>m_queue := m_queue t @ [(j, b)]\<rparr> else t"
  have "remove_pixel L (int d div K) (int d mod K) (orig ! d) (of_nat d) j st = Some ?t'"
    using to(1) g(2,3) j len(1) to(4) bi by (simp add: remove_pixel_def)
  moreover have "queue_ok prjs0 ?t'"
  proof -
    have "queue_in prjs0 (m_queue t)" using q by (simp add: queue_ok_def t_def)
    moreover have "(i, c) \<in> set (m_queue t)"
      if "i < length prjs0" "c < nat (pr_size (prjs0 ! i))" "m_pu t ! i ! c = 1" "(i, c) \<noteq> (j, b)" for i c
      using that q j by (cases "i = j")
        (auto simp: queue_ok_def queue_cov_def t_def taken_out_def st_geomD(3) [OF st] nth_list_update)
    ultimately show ?thesis
      using j to(4) by (auto simp: queue_ok_def queue_in_def queue_cov_def)
  qed
  ultimately show ?thesis using to(2,3) by (intro exI [of _ ?t']) (auto simp: t_def)
qed

text \<open>
  As long as some bin has exactly one pixel left, a round decodes one pixel of \<open>A\<close> rightly.
\<close>

lemma decode_step_ok:
  assumes inv: "mj_inv L K prjs0 orig A st" and q: "queue_ok prjs0 st"
    and ex: "j0 < length prjs0" "card (on_bin L K (prjs0 ! j0) A b0) = 1"
  shows "\<exists>d st'. d \<in> A \<and> decode_step L K (int (length prjs0)) st = Some st' \<and>
    mj_inv L K prjs0 orig (A - {d}) st' \<and> queue_ok prjs0 st'"
proof -
  let ?n = "length prjs0"
  have st: "st_geom L K prjs0 st" and A: "A \<subseteq> {..<nat L * nat K}" using inv by (auto simp: mj_inv_def)
  have ok: "prj_ok L K orig A j st" if "j < ?n" for j using inv that by (simp add: mj_inv_def)
  note g = st_geomD [OF st]
  have sg: "support_geom L K" by (rule g(1))
  note len = prj_ok_lengths [OF st _ ok]
  have pu: "m_pu st ! j ! b = of_nat (card (on_bin L K (prjs0 ! j) A b))"
    and pd: "m_pd st ! j ! b = (\<Sum>d \<in> on_bin L K (prjs0 ! j) A b. of_nat d)"
    and bn: "bins (m_prj st ! j) ! b = xorsum.F ((!) orig) (on_bin L K (prjs0 ! j) A b)"
    if "j < ?n" "b < nat (pr_size (prjs0 ! j))" for j b
    using ok [OF that(1)] that same_prj_simps [OF g(6) [OF that(1)]]
    by (auto simp: prj_ok_def counts_ok_def bins_ok_def)
  obtain d0 where d0: "on_bin L K (prjs0 ! j0) A b0 = {d0}" using ex(2) card_1_singletonE by blast
  then have "d0 \<in> A" "pos_bin L K (prjs0 ! j0) d0 = b0" by (auto simp: on_bin_def)
  then have b0: "b0 < nat (pr_size (prjs0 ! j0))"
    using take_out_ok(4) [OF st ex(1) ok [OF ex(1)] _ mj_inv_finite [OF inv]] A by auto
  have "m_pu st ! j0 ! b0 = 1" using pu [OF ex(1) b0] ex(2) by simp
  then have "(j0, b0) \<in> set (m_queue st)" using q ex(1) b0 by (simp add: queue_ok_def queue_cov_def)
  then obtain i c q' where skip: "skip_queue (m_pu st) (m_queue st) = Some ((i, c) # q')"
      "m_pu st ! i ! c = 1" "queue_in prjs0 ((i, c) # q')" "queue_cov prjs0 (m_pu st) ((i, c) # q')"
    using skip_queue_ok [OF _ g(3) len(1) _ \<open>m_pu st ! j0 ! b0 = 1\<close>, of "m_queue st"] q
    by (auto simp: queue_ok_def)
  have ic: "i < ?n" "c < nat (pr_size (prjs0 ! i))" using skip(3) by (auto simp: queue_in_def)
  have "card (on_bin L K (prjs0 ! i) A c) = 1" using pu [OF ic] skip(2) univocal_iff [OF sg A] by simp
  then obtain d where d: "on_bin L K (prjs0 ! i) A c = {d}" using card_1_singletonE by blast
  then have dA: "d \<in> A" by (auto simp: on_bin_def)
  then have dn: "d < nat L * nat K" using A by auto
  define px where "px = (m_pix st)[d := orig ! d]"
  define I where "I s \<longleftrightarrow> st_geom L K prjs0 s \<and> queue_ok prjs0 s \<and> m_pix s = px" for s
  have "\<exists>s. iter [0..<?n] (remove_pixel L (int d div K) (int d mod K) (orig ! d) (of_nat d))
      (st\<lparr>m_queue := (i, c) # q', m_pix := px\<rparr>) = Some s \<and> I s \<and>
      (\<forall>j < ?n. prj_ok L K orig (A - {d}) j s)"
  proof (rule iter_each [where Q = "prj_ok L K orig A"])
    show "I (st\<lparr>m_queue := (i, c) # q', m_pix := px\<rparr>)"
      "\<And>j. j < ?n \<Longrightarrow> prj_ok L K orig A j (st\<lparr>m_queue := (i, c) # q', m_pix := px\<rparr>)"
      using st skip ok by (auto simp: I_def queue_ok_def)
    fix j s
    assume j: "j < ?n" and I: "I s" and okj: "prj_ok L K orig A j s"
    show "\<exists>s'. remove_pixel L (int d div K) (int d mod K) (orig ! d) (of_nat d) j s = Some s' \<and> I s' \<and>
        prj_ok L K orig (A - {d}) j s' \<and>
        (\<forall>i < ?n. i \<noteq> j \<longrightarrow> (prj_ok L K orig A i s \<longrightarrow> prj_ok L K orig A i s') \<and>
          (prj_ok L K orig (A - {d}) i s \<longrightarrow> prj_ok L K orig (A - {d}) i s'))"
      using remove_pixel_ok [OF _ j okj dA mj_inv_finite [OF inv] dn] I unfolding I_def by fastforce
  qed
  then obtain s where s: "iter [0..<?n] (remove_pixel L (int d div K) (int d mod K) (orig ! d) (of_nat d))
      (st\<lparr>m_queue := (i, c) # q', m_pix := px\<rparr>) = Some s" "I s"
      "\<forall>j < ?n. prj_ok L K orig (A - {d}) j s" by blast
  have pix: "length (m_pix st) = nat L * nat K" using inv by (simp add: mj_inv_def)
  have "decode_step L K (int ?n) st = Some s"
    using skip(1) ic g(2,4) len [OF ic(1)] pd [OF ic] bn [OF ic] d s(1) pix dn
    by (simp add: decode_step_def decode_position [OF sg dn] px_def)
  moreover have "mj_inv L K prjs0 orig (A - {d}) s"
    using s(2,3) inv pix dn by (auto simp: mj_inv_def I_def px_def nth_list_update)
  ultimately show ?thesis using s(2) dA by (auto simp: I_def)
qed

section \<open>The decoding loop\<close>

text \<open>Every non-empty set of pixels of \<open>R\<close> has a bin with exactly one of its pixels.\<close>

definition peelable :: "int \<Rightarrow> int \<Rightarrow> projection list \<Rightarrow> nat set \<Rightarrow> bool" where
  "peelable L K prjs R \<longleftrightarrow> (\<forall>A. A \<subseteq> R \<longrightarrow> A \<noteq> {} \<longrightarrow>
     (\<exists>j < length prjs. \<exists>b. card (on_bin L K (prjs ! j) A b) = 1))"

lemma decode_loop_ok:
  assumes inv: "mj_inv L K prjs0 orig R st" and q: "queue_ok prjs0 st" and peel: "peelable L K prjs0 R"
  shows "\<exists>st'. decode_loop L K (int (length prjs0)) (int (card R)) st = Some st' \<and>
    mj_inv L K prjs0 orig {} st'"
proof -
  define P where "P i s \<longleftrightarrow> (\<exists>A. A \<subseteq> R \<and> card A = card R - i \<and> mj_inv L K prjs0 orig A s \<and>
    queue_ok prjs0 s)" for i s
  have fin: "finite R" by (rule mj_inv_finite [OF inv])
  have "\<exists>s. iter [0..<card R] (\<lambda>_. decode_step L K (int (length prjs0))) st = Some s \<and> P (card R) s"
  proof (rule iter_upt_total)
    show "P 0 st" using inv q by (auto simp: P_def)
    fix i s
    assume i: "i < card R" and "P i s"
    then obtain A where A: "A \<subseteq> R" "card A = card R - i" "mj_inv L K prjs0 orig A s" "queue_ok prjs0 s"
      by (auto simp: P_def)
    have "A \<noteq> {}" using A(2) i by auto
    then obtain j b where "j < length prjs0" "card (on_bin L K (prjs0 ! j) A b) = 1"
      using peel A(1) unfolding peelable_def by blast
    from decode_step_ok [OF A(3,4) this] obtain d s' where s': "d \<in> A"
      "decode_step L K (int (length prjs0)) s = Some s'" "mj_inv L K prjs0 orig (A - {d}) s'" "queue_ok prjs0 s'"
      by blast
    moreover have "card (A - {d}) = card R - Suc i" using A(2) s'(1) by simp
    ultimately show "\<exists>s'. decode_step L K (int (length prjs0)) s = Some s' \<and> P (Suc i) s'"
      using A(1) unfolding P_def by blast
  qed
  then obtain s A where "decode_loop L K (int (length prjs0)) (int (card R)) st = Some s"
      "A \<subseteq> R" "card A = 0" "mj_inv L K prjs0 orig A s"
    by (auto simp: decode_loop_def P_def)
  moreover have "A = {}" using \<open>card A = 0\<close> \<open>A \<subseteq> R\<close> fin by (simp add: finite_subset)
  ultimately show ?thesis by blast
qed

lemma mj_inv_done:
  assumes "mj_inv L K prjs0 orig {} st" "length orig = nat L * nat K"
  shows "m_pix st = orig"
  using assms by (intro nth_equalityI) (auto simp: mj_inv_def)

lemma mj_inv_done_bins:
  assumes "mj_inv L K prjs0 orig {} st" "pr \<in> set (m_prj st)"
  shows "bins pr = replicate (nat (pr_size pr)) 0"
proof -
  have st: "st_geom L K prjs0 st" using assms(1) by (simp add: mj_inv_def)
  obtain j where j: "j < length prjs0" "pr = m_prj st ! j"
    using assms(2) st_geomD(2) [OF st] by (auto simp: in_set_conv_nth)
  then have "prj_ok L K orig {} j st" using assms(1) by (simp add: mj_inv_def)
  then show ?thesis
    using st_geomD(5) [OF st j(1)] j(2)
    by (intro nth_equalityI) (auto simp: prj_ok_def bins_ok_def prj_geom_def)
qed

section \<open>The inverse returns the support\<close>

lemma mj_inv_start:
  assumes geom: "prjs_geom L K prjs" and bins: "\<forall>pr \<in> set prjs. bins_ok L K orig {..<nat L * nat K} pr"
    and t: "tables_ok L K prjs {..<nat L * nat K} (pu, pd)" and px: "length px = nat L * nat K"
  shows "mj_inv L K prjs orig {..<nat L * nat K}
    \<lparr>m_pix = px, m_prj = prjs, m_pu = pu, m_pd = pd, m_queue = q\<rparr>"
  using assms
  by (auto simp: mj_inv_def st_geom_def prjs_geom_def tables_ok_def prj_ok_def intro: list_all2_refl)

lemma scan_state_ok:
  assumes "mj_inv L K prjs0 orig A st"
  shows "\<exists>q. scan_univoc (m_prj st) (int (length prjs0)) (m_pu st) = Some q \<and>
    queue_ok prjs0 (st\<lparr>m_queue := q\<rparr>)"
proof -
  have st: "st_geom L K prjs0 st" using assms by (simp add: mj_inv_def)
  have "length (m_pu st ! j) = nat (pr_size (prjs0 ! j))" if "j < length prjs0" for j
    using prj_ok_lengths(1) [OF st that] assms that by (auto simp: mj_inv_def)
  then show ?thesis
    using scan_univoc_ok [of prjs0 "m_prj st" "m_pu st"] st by (auto simp: st_geom_def queue_ok_def)
qed

lemma mj_inv_queue [simp]: "mj_inv L K prjs0 orig A (st\<lparr>m_queue := q\<rparr>) = mj_inv L K prjs0 orig A st"
  by (simp add: mj_inv_def)

lemma inverse_peelable:
  assumes geom: "prjs_geom L K prjs" and bins: "\<forall>pr \<in> set prjs. bins_ok L K orig {..<nat (L * K)} pr"
    and orig: "length orig = nat (L * K)" and peel: "peelable L K prjs {..<nat (L * K)}"
    and z: "s_l z = L" "s_k z = K" "length (pixels z) = nat (L * K)"
  shows "\<exists>prjs'. inverse_mj z prjs (int (length prjs)) = Some (z\<lparr>pixels := orig\<rparr>, prjs') \<and>
    (\<forall>pr \<in> set prjs'. bins pr = replicate (nat (pr_size pr)) 0)"
proof -
  have sg: "support_geom L K" using geom by (simp add: prjs_geom_def)
  note g = support_geom_pos [OF sg]
  obtain zs where zs: "alloc_counts L K prjs (int (length prjs)) = Some zs"
      "zs = map (\<lambda>pr. replicate (nat (pr_size pr)) 0) prjs"
    using alloc_counts_ok [OF geom] by blast
  obtain pu pd where t: "count_bins L K prjs (int (length prjs)) zs zs = Some (pu, pd)"
      "tables_ok L K prjs {..<nat L * nat K} (pu, pd)"
    using count_bins_ok [OF geom zs(2)] by fastforce
  define st where "st = \<lparr>m_pix = pixels z, m_prj = prjs, m_pu = pu, m_pd = pd, m_queue = []\<rparr>"
  have inv: "mj_inv L K prjs orig {..<nat L * nat K} st"
    unfolding st_def by (rule mj_inv_start [OF geom _ t(2)]) (use bins z g in auto)
  obtain q where q: "scan_univoc prjs (int (length prjs)) pu = Some q" "queue_ok prjs (st\<lparr>m_queue := q\<rparr>)"
    using scan_state_ok [OF inv] by (auto simp: st_def)
  have N: "L * K = int (card {..<nat L * nat K})" using g by simp
  have "\<exists>st'. decode_loop L K (int (length prjs)) (int (card {..<nat L * nat K})) (st\<lparr>m_queue := q\<rparr>) =
      Some st' \<and> mj_inv L K prjs orig {} st'"
    by (rule decode_loop_ok) (use inv q(2) peel g(4) in auto)
  then obtain st' where st': "decode_loop L K (int (length prjs)) (L * K) (st\<lparr>m_queue := q\<rparr>) = Some st'"
      "mj_inv L K prjs orig {} st'" unfolding N by blast
  have "m_pix st' = orig" by (rule mj_inv_done [OF st'(2)]) (use orig g in simp)
  then show ?thesis
    using zs(1) t(1) q(1) st'(1) mj_inv_done_bins [OF st'(2)] z by (simp add: inverse_mj_def st_def)
qed

end
