(* ===== verification/Mojette_System.thy ===== *)
theory Mojette_System imports Mojette_Inverse begin

text \<open>
  The end-to-end properties of the Mojette transform: the inverse of a forward transform returns
  the message as soon as Katz' criterion holds, and the systematic inverse returns it from any
  rows and projections that are together at least as many as the rows of the support.
\<close>

section \<open>Katz' criterion for the bins\<close>

definition prj_angles :: "projection list \<Rightarrow> (int \<times> int) list" where
  "prj_angles prjs = map (\<lambda>pr. (pr_p pr, pr_q pr)) prjs"

lemma on_bin_ray:
  assumes geom: "prj_geom L K pr" "support_geom L K" and A: "A \<subseteq> {..<nat L * nat K}"
    and stuck: "\<And>b. card (on_bin L K pr A b) \<noteq> 1"
  shows "card {d \<in> A. support_grid.ray K (pr_p pr) (pr_q pr) d = v} \<noteq> 1"
proof
  let ?ray = "support_grid.ray K (pr_p pr) (pr_q pr)"
  assume "card {d \<in> A. ?ray d = v} = 1"
  then obtain d where d: "{d \<in> A. ?ray d = v} = {d}" using card_1_singletonE by blast
  have bin: "int (pos_bin L K pr e) = ?ray e - prj_offset L (pr_p pr)" if "e \<in> A" for e
  proof -
    have "int e < L * K" using that A pos_lt_iff [OF geom(2)] by auto
    from pos_bin_lt(3) [OF geom(1) support_geom_pos(2) [OF geom(2)] this] show ?thesis
      by (simp add: bin_index_def support_grid.ray_def)
  qed
  have "d \<in> A" "?ray d = v" using d by auto
  then have "on_bin L K pr A (pos_bin L K pr d) = {d \<in> A. ?ray d = v}"
    unfolding on_bin_def using bin by (smt (verit) Collect_cong of_nat_eq_iff)
  then show False using stuck [of "pos_bin L K pr d"] d by simp
qed

lemma peelable_angles:
  assumes geom: "prjs_geom L K prjs" and angles: "angles_ok (prj_angles prjs)"
    and R: "R \<subseteq> {..<nat L * nat K}"
    and rows: "\<And>A. A \<subseteq> R \<Longrightarrow> A \<noteq> {} \<Longrightarrow> card ((\<lambda>d. int d div K) ` A) \<le> length prjs \<or>
      (\<forall>x \<in> A. \<forall>y \<in> A. int y div K < int x div K + sum_list (map pr_q prjs))"
  shows "peelable L K prjs R"
  unfolding peelable_def
proof (intro allI impI, rule ccontr)
  fix A
  assume A: "A \<subseteq> R" "A \<noteq> {}" and "\<not> (\<exists>j < length prjs. \<exists>b. card (on_bin L K (prjs ! j) A b) = 1)"
  then have stuck: "card (on_bin L K pr A b) \<noteq> 1" if "pr \<in> set prjs" for pr b
    using that by (auto simp: in_set_conv_nth)
  have AN: "A \<subseteq> {..<nat L * nat K}" using A R by blast
  have fin: "finite A" using finite_subset [OF AN] by simp
  have "\<forall>(p, q) \<in> set (prj_angles prjs). \<forall>v. card {d \<in> A. support_grid.ray K p q d = v} \<noteq> 1"
    using on_bin_ray [OF _ _ AN stuck] geom by (auto simp: prj_angles_def prjs_geom_def)
  note sr = support_grid.stuck_rows [OF fin A(2) this angles]
  have "map snd (prj_angles prjs) = map pr_q prjs" "length (prj_angles prjs) = length prjs"
    by (simp_all add: prj_angles_def)
  then show False using sr rows [OF A] by (fastforce simp: not_less [symmetric])
qed

lemma katz_full:
  assumes geom: "prjs_geom L K prjs" and angles: "angles_ok (prj_angles prjs)"
    and q: "L \<le> sum_list (map pr_q prjs)"
  shows "peelable L K prjs {..<nat L * nat K}"
proof (rule peelable_angles [OF geom angles subset_refl], rule disjI2, intro ballI)
  fix A x y
  assume A: "A \<subseteq> {..<nat L * nat K}" and "x \<in> A" "y \<in> A"
  have sg: "support_geom L K" using geom by (simp add: prjs_geom_def)
  have "int x < L * K" "int y < L * K" using A \<open>x \<in> A\<close> \<open>y \<in> A\<close> pos_lt_iff [OF sg] by auto
  then have "0 \<le> int x div K" "int y div K < L"
    using pos_row_col [OF support_geom_pos(2) [OF sg]] by blast+
  then show "int y div K < int x div K + sum_list (map pr_q prjs)" using q by linarith
qed

lemma katz_rows:
  assumes geom: "prjs_geom L K prjs" and angles: "angles_ok (prj_angles prjs)"
    and R: "R \<subseteq> {..<nat L * nat K}" and rows: "card ((\<lambda>d. int d div K) ` R) \<le> length prjs"
  shows "peelable L K prjs R"
proof (rule peelable_angles [OF geom angles R], rule disjI1)
  fix A
  assume "A \<subseteq> R"
  then have "(\<lambda>d. int d div K) ` A \<subseteq> (\<lambda>d. int d div K) ` R" by blast
  moreover have "finite R" using R finite_subset by blast
  ultimately show "card ((\<lambda>d. int d div K) ` A) \<le> length prjs"
    using rows card_mono by (meson finite_imageI le_trans)
qed

section \<open>Freshly allocated projections\<close>

definition new_projections :: "int \<Rightarrow> int \<Rightarrow> (int \<times> int) list \<Rightarrow> projection list" where
  "new_projections L K as = map (\<lambda>(p, q). the (projection_new True True p q L K)) as"

lemma projection_new_geom:
  assumes "support_geom L K" "0 \<le> q"
  shows "\<exists>pr. projection_new True True p q L K = Some pr \<and> prj_geom L K pr \<and>
    pr_p pr = p \<and> pr_q pr = q \<and> (\<forall>x \<in> set (bins pr). x = 0)"
  using assms by (auto simp: projection_new_def calloc_def prj_geom_def support_geom_def Let_def)

lemma new_projections_ok:
  assumes "support_geom L K" "angles_ok as"
  shows "prjs_geom L K (new_projections L K as)" "prj_angles (new_projections L K as) = as"
    "length (new_projections L K as) = length as"
    "\<forall>pr \<in> set (new_projections L K as). \<forall>x \<in> set (bins pr). x = 0"
    "sum_list (map pr_q (new_projections L K as)) = sum_list (map snd as)"
proof -
  have one: "prj_geom L K (the (projection_new True True p q L K)) \<and>
      pr_p (the (projection_new True True p q L K)) = p \<and>
      pr_q (the (projection_new True True p q L K)) = q \<and>
      (\<forall>x \<in> set (bins (the (projection_new True True p q L K))). x = 0)" if "(p, q) \<in> set as" for p q
  proof -
    have "0 \<le> q" using assms(2) that by (auto simp: angles_ok_def)
    from projection_new_geom [OF assms(1) this, of p] show ?thesis by auto
  qed
  show "prjs_geom L K (new_projections L K as)" "length (new_projections L K as) = length as"
    "\<forall>pr \<in> set (new_projections L K as). \<forall>x \<in> set (bins pr). x = 0"
    using one assms(1) by (auto simp: new_projections_def prjs_geom_def)
  show ang: "prj_angles (new_projections L K as) = as"
    using one by (auto simp: new_projections_def prj_angles_def intro!: map_idI)
  have "map pr_q (new_projections L K as) = map snd (prj_angles (new_projections L K as))"
    by (simp add: prj_angles_def)
  then show "sum_list (map pr_q (new_projections L K as)) = sum_list (map snd as)"
    by (simp add: ang)
qed

lemma forward_new:
  assumes sg: "support_geom L K" and as: "angles_ok as"
    and s: "s_l s = L" "s_k s = K" "length (pixels s) = nat (L * K)"
  obtains prjs where "forward s (new_projections L K as) (int (length as)) = Some prjs"
    "length prjs = length as" "prjs_geom L K prjs" "prj_angles prjs = as"
    "sum_list (map pr_q prjs) = sum_list (map snd as)"
    "\<forall>pr \<in> set prjs. bins_ok L K (pixels s) {..<nat (L * K)} pr"
proof -
  note new = new_projections_ok [OF sg as]
  obtain prjs where f: "forward s (new_projections L K as) (int (length as)) = Some prjs"
      "list_all2 same_prj (new_projections L K as) prjs" "prjs_geom L K prjs"
      "\<forall>pr \<in> set prjs. bins_ok L K (pixels s) {..<nat (L * K)} pr"
    using forward_bins [OF new(1) s new(4)] new(3) by auto
  have len: "length prjs = length as" using f(2) new(3) list_all2_lengthD by fastforce
  have "prj_angles prjs = prj_angles (new_projections L K as)"
    using f(2) len new(3)
    by (intro nth_equalityI) (auto simp: prj_angles_def list_all2_conv_all_nth same_prj_simps)
  then have ang: "prj_angles prjs = as" using new(2) by simp
  have "map pr_q prjs = map snd (prj_angles prjs)" by (simp add: prj_angles_def)
  then have "sum_list (map pr_q prjs) = sum_list (map snd as)" by (simp add: ang)
  with f len ang that show thesis by blast
qed

text \<open>
  What the forward transform computes: on freshly allocated projections of any distinct
  reduced angles it never leaves an array, keeps the angles, and stores in bin \<open>b\<close> of the
  projection of angle \<open>(p, q)\<close> exactly the XOR of the pixels \<open>(l, k)\<close> with
  \<open>k * q + l * p - offset = b\<close>.
\<close>

theorem forward_xor:
  assumes sg: "support_geom L K" and as: "angles_ok as"
    and s: "s_l s = L" "s_k s = K" "length (pixels s) = nat (L * K)"
  shows "\<exists>prjs. forward s (new_projections L K as) (int (length as)) = Some prjs \<and>
    prj_angles prjs = as \<and>
    (\<forall>pr \<in> set prjs. length (bins pr) = nat (\<bar>pr_p pr\<bar> * (L - 1) + pr_q pr * (K - 1) + 1) \<and>
      (\<forall>b < length (bins pr). bins pr ! b =
        xorsum.F ((!) (pixels s)) {d. d < nat (L * K) \<and>
          int d mod K * pr_q pr + int d div K * pr_p pr - prj_offset L (pr_p pr) = int b}))"
proof -
  note g = support_geom_pos [OF sg]
  obtain prjs where f: "forward s (new_projections L K as) (int (length as)) = Some prjs"
      "length prjs = length as" "prjs_geom L K prjs" "prj_angles prjs = as"
      "sum_list (map pr_q prjs) = sum_list (map snd as)"
      "\<forall>pr \<in> set prjs. bins_ok L K (pixels s) {..<nat (L * K)} pr"
    by (rule forward_new [OF sg as s])
  have "length (bins pr) = nat (\<bar>pr_p pr\<bar> * (L - 1) + pr_q pr * (K - 1) + 1) \<and>
      (\<forall>b < length (bins pr). bins pr ! b =
        xorsum.F ((!) (pixels s)) {d. d < nat (L * K) \<and>
          int d mod K * pr_q pr + int d div K * pr_p pr - prj_offset L (pr_p pr) = int b})"
    if pr: "pr \<in> set prjs" for pr
  proof -
    have geom: "prj_geom L K pr" using f(3) pr by (simp add: prjs_geom_def)
    have "on_bin L K pr {..<nat (L * K)} b = {d. d < nat (L * K) \<and>
        int d mod K * pr_q pr + int d div K * pr_p pr - prj_offset L (pr_p pr) = int b}" for b
    proof -
      have "pos_bin L K pr d = b \<longleftrightarrow>
          int d mod K * pr_q pr + int d div K * pr_p pr - prj_offset L (pr_p pr) = int b"
        if d: "d < nat (L * K)" for d
      proof -
        have "int d < L * K" using d by (simp add: zless_nat_eq_int_zless)
        from pos_bin_lt(3) [OF geom g(2) this] show ?thesis by (auto simp: bin_index_def)
      qed
      then show ?thesis by (auto simp: on_bin_def)
    qed
    with f(6) pr geom show ?thesis by (simp add: bins_ok_def prj_geom_def)
  qed
  with f show ?thesis by blast
qed

theorem forward_xor_witness:
  "\<exists>prjs. forward \<lparr>s_l = 2, s_k = 2, pixels = [4, 2, 1, 8]\<rparr> (new_projections 2 2 [(-1, 1), (0, 1)])
      (int (length [(-1 :: int, 1 :: int), (0, 1)])) = Some prjs \<and>
    prj_angles prjs = [(-1, 1), (0, 1)] \<and>
    (\<forall>pr \<in> set prjs. length (bins pr) = nat (\<bar>pr_p pr\<bar> * (2 - 1) + pr_q pr * (2 - 1) + 1) \<and>
      (\<forall>b < length (bins pr). bins pr ! b =
        xorsum.F ((!) (pixels \<lparr>s_l = 2, s_k = 2, pixels = [4, 2, 1, 8]\<rparr>)) {d. d < nat (2 * 2) \<and>
          int d mod 2 * pr_q pr + int d div 2 * pr_p pr - prj_offset 2 (pr_p pr) = int b}))"
  by (rule forward_xor [of 2 2]) (simp_all add: support_geom_def angles_ok_def)

section \<open>Decoding from projections only\<close>



section \<open>Decoding from rows and projections\<close>

text \<open>The received rows \<open>rows\<close> of a support, as the receiver stores them.\<close>

definition row_of :: "support \<Rightarrow> nat \<Rightarrow> line" where
  "row_of s r = \<lparr>num_line = int r, line_val = take (nat (s_k s)) (drop (r * nat (s_k s)) (pixels s)),
     line_size = s_k s\<rparr>"

definition rows_of :: "support \<Rightarrow> nat list \<Rightarrow> line option list" where
  "rows_of s rows = map (\<lambda>r. Some (row_of s r)) rows"

lemma row_of_val:
  assumes "length (pixels s) = nat L * nat K" "s_k s = K" "r < nat L" "k < nat K"
  shows "k < length (line_val (row_of s r))" "line_val (row_of s r) ! k = pixels s ! (r * nat K + k)"
proof -
  have "r * nat K + nat K \<le> nat L * nat K"
    using assms(3) mult_le_mono1 [of "Suc r" "nat L" "nat K"] by simp
  then have "k < nat L * nat K - r * nat K" using assms(4) by linarith
  then show "k < length (line_val (row_of s r))"
    "line_val (row_of s r) ! k = pixels s ! (r * nat K + k)"
    using assms by (auto simp: row_of_def)
qed

text \<open>The pixels still to be decoded before pixel \<open>k\<close> of the \<open>i\<close>-th received row.\<close>

definition missing :: "nat \<Rightarrow> nat \<Rightarrow> nat list \<Rightarrow> nat \<Rightarrow> nat \<Rightarrow> nat set" where
  "missing l n rows i k = {d. d < l * n \<and> d div n \<notin> set (take i rows) \<and>
     \<not> (i < length rows \<and> d div n = rows ! i \<and> d mod n < k)}"

lemma missing_step:
  assumes "i < length rows" "k < n" "distinct rows"
  shows "missing l n rows i (Suc k) = missing l n rows i k - {rows ! i * n + k}"
    and "rows ! i < l \<Longrightarrow> rows ! i * n + k \<in> missing l n rows i k"
proof -
  have eq: "d = rows ! i * n + k \<longleftrightarrow> d div n = rows ! i \<and> d mod n = k" for d
  proof
    show "d = rows ! i * n + k \<Longrightarrow> d div n = rows ! i \<and> d mod n = k" using assms(2) by simp
    show "d div n = rows ! i \<and> d mod n = k \<Longrightarrow> d = rows ! i * n + k" by (metis div_mult_mod_eq)
  qed
  show "missing l n rows i (Suc k) = missing l n rows i k - {rows ! i * n + k}"
    using assms(1) eq by (auto simp: missing_def less_Suc_eq)
  have "rows ! i \<notin> set (take i rows)"
    using assms(1,3) by (auto simp: in_set_conv_nth nth_eq_iff_index_eq)
  moreover have "(rows ! i * n + k) div n = rows ! i" "(rows ! i * n + k) mod n = k"
    using assms(2) by auto
  ultimately show "rows ! i < l \<Longrightarrow> rows ! i * n + k \<in> missing l n rows i k"
    using matrix_index_lt [of "rows ! i" l k n] assms(2) by (auto simp: missing_def)
qed

lemma missing_next:
  assumes "i < length rows" "0 < n"
  shows "missing l n rows (Suc i) 0 = missing l n rows i n"
  using assms by (auto simp: missing_def take_Suc_conv_app_nth)

lemma missing_0: "missing l n rows 0 0 = {..<l * n}"
  by (auto simp: missing_def)

lemma missing_finite [simp]: "finite (missing l n rows i k)"
  by (rule finite_subset [of _ "{..<l * n}"]) (auto simp: missing_def)

lemma line_pixels_ok:
  assumes inv: "mj_inv L K prjs0 (pixels s) {..<nat L * nat K} st" and sg: "support_geom L K"
    and s: "length (pixels s) = nat L * nat K" "s_k s = K"
    and rows: "distinct rows" "\<forall>r \<in> set rows. r < nat L"
  shows "\<exists>st'. line_pixels L K (int (length prjs0)) (rows_of s rows @ rest) (int (length rows)) st = Some st' \<and>
    mj_inv L K prjs0 (pixels s) (missing (nat L) (nat K) rows (length rows) 0) st' \<and>
    card (missing (nat L) (nat K) rows (length rows) 0) = nat L * nat K - length rows * nat K"
proof -
  let ?n = "nat K" and ?m = "missing (nat L) (nat K) rows"
  define P where "P i k st \<longleftrightarrow> mj_inv L K prjs0 (pixels s) (?m i k) st \<and>
    card (?m i k) = nat L * ?n - (i * ?n + k)" for i k st
  have K: "0 < ?n" using support_geom_pos(2) [OF sg] by simp
  have "\<exists>st'. line_pixels L K (int (length prjs0)) (rows_of s rows @ rest) (int (length rows)) st = Some st' \<and>
      P (length rows) 0 st'"
    unfolding line_pixels_def nat_int
  proof (rule iter_upt_total [where P = "\<lambda>i. P i 0"])
    show "P 0 0 st" using inv by (simp add: P_def missing_0)
    fix i st
    assume i: "i < length rows" and P: "P i 0 st"
    have r: "rows ! i < nat L" using rows(2) i by simp
    have "\<exists>st'. iter [0..<?n] (line_pixel L K (int (length prjs0)) (row_of s (rows ! i))) st = Some st' \<and>
        P i ?n st'"
    proof (rule iter_upt_total [where P = "P i"])
      fix k st
      assume k: "k < ?n" and P: "P i k st"
      note step = missing_step [OF i k rows(1)]
      obtain st' where st': "line_pixel L K (int (length prjs0)) (row_of s (rows ! i)) k st = Some st'"
          "mj_inv L K prjs0 (pixels s) (?m i k - {rows ! i * ?n + k}) st'"
        using line_pixel_ok [of L K prjs0 "pixels s" "?m i k" st "row_of s (rows ! i)" "rows ! i" k]
          P r k step(2) [OF r] row_of_val [OF s r k] by (auto simp: P_def row_of_def)
      have "card (?m i (Suc k)) = card (?m i k) - 1"
        using step(2) [OF r] by (simp add: step(1))
      then have "P i (Suc k) st'" using st'(2) P step(1) by (simp add: P_def)
      with st'(1) show "\<exists>st'. line_pixel L K (int (length prjs0)) (row_of s (rows ! i)) k st = Some st' \<and>
          P i (Suc k) st'" by blast
    qed (rule P)
    then obtain st' where "iter [0..<?n] (line_pixel L K (int (length prjs0)) (row_of s (rows ! i))) st =
        Some st'" "P (Suc i) 0 st'"
      using missing_next [OF i K] by (auto simp: P_def add.commute)
    with i show "\<exists>st'. do { ln \<leftarrow> rd (rows_of s rows @ rest) (int i); ln \<leftarrow> ln;
         iter [0..<?n] (line_pixel L K (int (length prjs0)) ln) st } = Some st' \<and> P (Suc i) 0 st'"
      by (simp add: rows_of_def nth_append)
  qed
  then show ?thesis by (auto simp: P_def)
qed

lemma missing_rows_card:
  assumes rows: "distinct rows" "\<forall>r \<in> set rows. r < l" and n: "0 < n"
  shows "card ((\<lambda>d. int d div int n) ` missing l n rows (length rows) 0) \<le> l - length rows"
proof -
  have "(\<lambda>d. int d div int n) ` missing l n rows (length rows) 0 \<subseteq> int ` ({..<l} - set rows)"
    using n by (auto simp: missing_def zdiv_int [symmetric] div_less_iff_less_mult)
  then have "card ((\<lambda>d. int d div int n) ` missing l n rows (length rows) 0) \<le> card (int ` ({..<l} - set rows))"
    by (intro card_mono) auto
  also have "\<dots> = card ({..<l} - set rows)" by (simp add: card_image)
  also have "\<dots> = l - length rows"
    using rows by (subst card_Diff_subset) (auto simp: distinct_card)
  finally show ?thesis .
qed

text \<open>Copying the rows when all of them arrived.\<close>

lemma copy_lines_ok:
  assumes sg: "support_geom L K" and s: "length (pixels s) = nat L * nat K" "s_k s = K"
    and rows: "distinct rows" "\<forall>r \<in> set rows. r < nat L" and px: "length px = nat L * nat K"
  shows "\<exists>px'. copy_lines K (rows_of s rows @ rest) (int (length rows)) px = Some px' \<and>
    length px' = nat L * nat K \<and>
    (\<forall>d < nat L * nat K. d \<notin> missing (nat L) (nat K) rows (length rows) 0 \<longrightarrow> px' ! d = pixels s ! d)"
proof -
  let ?n = "nat K" and ?m = "missing (nat L) (nat K) rows"
  define P where "P i k px \<longleftrightarrow> length px = nat L * ?n \<and>
    (\<forall>d < nat L * ?n. d \<notin> ?m i k \<longrightarrow> px ! d = pixels s ! d)" for i k and px :: "byte list"
  have K: "0 < ?n" "int ?n = K" using support_geom_pos [OF sg] by auto
  have "\<exists>px'. copy_lines K (rows_of s rows @ rest) (int (length rows)) px = Some px' \<and> P (length rows) 0 px'"
    unfolding copy_lines_def nat_int
  proof (rule iter_upt_total [where P = "\<lambda>i. P i 0"])
    show "P 0 0 px" using px by (simp add: P_def missing_0)
    fix i px
    assume i: "i < length rows" and P: "P i 0 px"
    have r: "rows ! i < nat L" using rows(2) i by simp
    have "\<exists>px'. iter [0..<?n] (\<lambda>k px. do { v \<leftarrow> rd (line_val (row_of s (rows ! i))) (int k);
        wr px (num_line (row_of s (rows ! i)) * K + int k) v }) px = Some px' \<and> P i ?n px'"
    proof (rule iter_upt_total [where P = "P i"])
      fix k px
      assume k: "k < ?n" and P: "P i k px"
      define d where "d = rows ! i * ?n + k"
      have d: "d < nat L * ?n" using matrix_index_lt [OF r k] by (simp add: d_def)
      have "num_line (row_of s (rows ! i)) * K + int k = int d"
        using K(2) by (simp add: row_of_def d_def)
      moreover have "P i (Suc k) (px[d := pixels s ! d])"
        using P missing_step(1) [OF i k rows(1)] d by (auto simp: P_def nth_list_update d_def)
      moreover have "d < length px" using P d by (simp add: P_def)
      ultimately show "\<exists>px'. do { v \<leftarrow> rd (line_val (row_of s (rows ! i))) (int k);
          wr px (num_line (row_of s (rows ! i)) * K + int k) v } = Some px' \<and> P i (Suc k) px'"
        using row_of_val [OF s r k, folded d_def] by simp
    qed (rule P)
    with i missing_next [OF i K(1)] show "\<exists>px'. do { ln \<leftarrow> rd (rows_of s rows @ rest) (int i); ln \<leftarrow> ln;
         iter [0..<?n] (\<lambda>k px. do { v \<leftarrow> rd (line_val ln) (int k); wr px (num_line ln * K + int k) v }) px } =
         Some px' \<and> P (Suc i) 0 px'"
      by (simp add: rows_of_def P_def nth_append)
  qed
  then show ?thesis by (auto simp: P_def)
qed

lemma inverse_system_ok:
  assumes geom: "prjs_geom L K prjs" and as: "angles_ok (prj_angles prjs)"
    and bins: "\<forall>pr \<in> set prjs. bins_ok L K (pixels s) {..<nat (L * K)} pr"
    and s: "s_l s = L" "s_k s = K" "length (pixels s) = nat (L * K)"
    and z: "s_l z = L" "s_k z = K" "length (pixels z) = nat (L * K)"
    and rows: "distinct rows" "\<forall>r \<in> set rows. r < nat L" and enough: "nat L \<le> length rows + length prjs"
  shows "\<exists>prjs'. inverse_system z prjs (int (length prjs)) (rows_of s rows @ rest) (int (length rows)) =
      Some (z\<lparr>pixels := pixels s\<rparr>, prjs') \<and> length prjs' = length prjs"
proof -
  have sg: "support_geom L K" using geom by (simp add: prjs_geom_def)
  note g = support_geom_pos [OF sg]
  have ls: "length (pixels s) = nat L * nat K" "length (pixels z) = nat L * nat K" using s(3) z(3) g(4) by auto
  let ?R = "missing (nat L) (nat K) rows (length rows) 0"
  have K: "0 < nat K" using g(2) by simp
  have "length rows = card (set rows)" using rows(1) by (simp add: distinct_card)
  also have "\<dots> \<le> card {..<nat L}" using rows(2) by (intro card_mono) auto
  finally have le: "length rows \<le> nat L" by simp
  show ?thesis
  proof (cases "int (length prjs) = 0 \<and> L = int (length rows)")
    case True
    obtain px where px: "copy_lines K (rows_of s rows @ rest) (int (length rows)) (pixels z) = Some px"
        "length px = nat L * nat K" "\<forall>d < nat L * nat K. d \<notin> ?R \<longrightarrow> px ! d = pixels s ! d"
      using copy_lines_ok [OF sg ls(1) s(2) rows ls(2)] by blast
    have "card ((\<lambda>d. int d div int (nat K)) ` ?R) = 0"
      using missing_rows_card [OF rows K] True by simp
    then have "?R = {}" by simp
    then have "px = pixels s" using px(2,3) ls(1) by (intro nth_equalityI) auto
    with True px(1) z show ?thesis by (auto simp: inverse_system_def)
  next
    case False
    obtain zs where zs: "alloc_counts L K prjs (int (length prjs)) = Some zs"
        "zs = map (\<lambda>pr. replicate (nat (pr_size pr)) 0) prjs"
      using alloc_counts_ok [OF geom] by blast
    obtain pu pd where t: "count_bins L K prjs (int (length prjs)) zs zs = Some (pu, pd)"
        "tables_ok L K prjs {..<nat L * nat K} (pu, pd)"
      using count_bins_ok [OF geom zs(2)] by fastforce
    have inv: "mj_inv L K prjs (pixels s) {..<nat L * nat K}
        \<lparr>m_pix = pixels z, m_prj = prjs, m_pu = pu, m_pd = pd, m_queue = []\<rparr>"
      by (rule mj_inv_start [OF geom _ t(2)]) (use bins ls g in auto)
    obtain st where st: "line_pixels L K (int (length prjs)) (rows_of s rows @ rest) (int (length rows))
        \<lparr>m_pix = pixels z, m_prj = prjs, m_pu = pu, m_pd = pd, m_queue = []\<rparr> = Some st"
        "mj_inv L K prjs (pixels s) ?R st" "card ?R = nat L * nat K - length rows * nat K"
      using line_pixels_ok [OF inv sg ls(1) s(2) rows] by blast
    obtain q where q: "scan_univoc (m_prj st) (int (length prjs)) (m_pu st) = Some q"
        "queue_ok prjs (st\<lparr>m_queue := q\<rparr>)"
      using scan_state_ok [OF st(2)] by blast
    have "card ((\<lambda>d. int d div K) ` ?R) \<le> length prjs"
      using missing_rows_card [OF rows K] enough g(6) by simp
    then have "peelable L K prjs ?R"
      by (intro katz_rows [OF geom]) (use as in \<open>auto simp: missing_def\<close>)
    then obtain st' where st': "decode_loop L K (int (length prjs)) (int (card ?R)) (st\<lparr>m_queue := q\<rparr>) =
        Some st'" "mj_inv L K prjs (pixels s) {} st'"
      using decode_loop_ok [of L K prjs "pixels s" ?R "st\<lparr>m_queue := q\<rparr>"] st(2) q(2) by auto
    have "int (card ?R) = L * K - K * int (length rows)"
      using st(3) le g by (simp add: of_nat_diff mult.commute)
    then have dl: "decode_loop L K (int (length prjs)) (L * K - K * int (length rows)) (st\<lparr>m_queue := q\<rparr>) =
        Some st'" using st'(1) by simp
    have "m_pix st' = pixels s" by (rule mj_inv_done [OF st'(2) ls(1)])
    moreover have "length (m_prj st') = length prjs"
      using st'(2) st_geomD(2) [of L K prjs st'] by (simp add: mj_inv_def)
    ultimately show ?thesis
      using False zs(1) t(1) st(1) q(1) dl z by (auto simp: inverse_system_def)
  qed
qed



end
