(* ===== verification/Mojette_Net.thy ===== *)
theory Mojette_Net imports Mojette_System begin

text \<open>
  The Mojette transport over UDP: the \<open>sendto\<close> wrapper of \<open>ser_mojette/ser_sendto.c\<close>, which
  cuts a message into row and projection datagrams, and the receiver of \<open>serveur/serveur_udp.c\<close>,
  which collects them and calls \<open>inverse_system\<close>.

  The C library's \<open>sendto\<close> is the parameter \<open>api\<close> (the value it returns for a datagram); what
  the wrapper passes to it is returned as a list of datagrams. Printing is left out. Allocations
  of the two programs succeed. \<open>None\<close> is undefined behaviour, a variable or table entry that was
  never assigned included.
\<close>

section \<open>The sender\<close>

definition line_datagram :: "support \<Rightarrow> int \<Rightarrow> int \<Rightarrow> nat \<Rightarrow> byte list option" where
  "line_datagram s nb_lignes long_lignes i =
     iter [0..<nat long_lignes]
       (\<lambda>j dg. do { v \<leftarrow> rd (pixels s) (int i * long_lignes + int j); Some (dg @ [v]) })
       [0x6C, of_nat i, of_int nb_lignes, of_int long_lignes]"

definition projection_datagram ::
  "projection \<Rightarrow> int \<Rightarrow> int \<Rightarrow> int \<Rightarrow> nat \<Rightarrow> byte list option" where
  "projection_datagram pr nb_proj nb_lignes long_lignes i =
     iter [0..<nat (pr_size pr)]
       (\<lambda>j dg. do { v \<leftarrow> rd (bins pr) (int j); Some (dg @ [v]) })
       [0x70, of_nat i, of_int nb_proj, of_int (pr_size pr), of_int (pr_p pr), of_int (pr_q pr),
        of_int nb_lignes, of_int long_lignes]"

text \<open>\<open>retour\<close>: the last value of the library's \<open>sendto\<close>, unassigned at first.\<close>

type_synonym sent = "int option \<times> byte list list"

definition send_one :: "(byte list \<Rightarrow> int) \<Rightarrow> byte list \<Rightarrow> sent \<Rightarrow> sent" where
  "send_one api dg out = (Some (api dg), snd out @ [dg])"

definition angles_p :: "int list" where "angles_p = [-1, 0, 1]"

definition angles_q :: "int list" where "angles_q = [1, 1, 1]"

definition send_lines :: "(byte list \<Rightarrow> int) \<Rightarrow> support \<Rightarrow> int \<Rightarrow> int \<Rightarrow> int \<Rightarrow> sent \<Rightarrow> sent option" where
  "send_lines api s nb_lignes long_lignes nb_lignes_env out =
     iter [0..<nat nb_lignes_env]
       (\<lambda>i out. do { dg \<leftarrow> line_datagram s nb_lignes long_lignes i; Some (send_one api dg out) }) out"

definition send_projections ::
  "(byte list \<Rightarrow> int) \<Rightarrow> support \<Rightarrow> int \<Rightarrow> int \<Rightarrow> int \<Rightarrow> sent \<Rightarrow> sent option" where
  "send_projections api s nb_lignes long_lignes nb_proj_env out = do {
     prjs \<leftarrow> iter [0..<nat nb_proj_env] (\<lambda>i ps. do {
       p \<leftarrow> rd angles_p (int i);
       q \<leftarrow> rd angles_q (int i);
       pr \<leftarrow> projection_new True True p q nb_lignes long_lignes;
       Some (ps @ [pr]) }) [];
     prjs' \<leftarrow> forward s prjs nb_proj_env;
     iter [0..<nat nb_proj_env] (\<lambda>i out. do {
       pr \<leftarrow> rd prjs' (int i);
       dg \<leftarrow> projection_datagram pr nb_proj_env nb_lignes long_lignes i;
       Some (send_one api dg out) }) out
   }"

text \<open>
  The wrapper with its two compiled-in counts as arguments. \<open>memcpy\<close> of \<open>len\<close> bytes into the
  support overflows it when \<open>len\<close> is not a multiple of the number of rows.
\<close>

definition encode_message ::
  "(byte list \<Rightarrow> int) \<Rightarrow> int \<Rightarrow> int \<Rightarrow> int \<Rightarrow> byte list \<Rightarrow> sent option" where
  "encode_message api nb_lignes nb_lignes_env nb_proj_env msg = do {
     let long_lignes = int (length msg) div nb_lignes;
     s \<leftarrow> support_new True True nb_lignes long_lignes;
     s \<leftarrow> (if length msg \<le> length (pixels s)
           then Some (s\<lparr>pixels := msg @ drop (length msg) (pixels s)\<rparr>) else None);
     out \<leftarrow> send_lines api s nb_lignes long_lignes nb_lignes_env (None, []);
     send_projections api s nb_lignes long_lignes nb_proj_env out
   }"

text \<open>\<open>sendto\<close>: \<open>api_sendto\<close> is NULL before the library is initialised.\<close>

definition ser_sendto ::
  "(byte list \<Rightarrow> int) option \<Rightarrow> int \<Rightarrow> int \<Rightarrow> byte list \<Rightarrow> sent option" where
  "ser_sendto api_sendto sockDesc s msg =
     (case api_sendto of
        None \<Rightarrow> Some (Some (-1), [])
      | Some api \<Rightarrow>
          if sockDesc = s then encode_message api 9 9 0 msg
          else Some (Some (api msg), [msg]))"

section \<open>The receiver\<close>

text \<open>
  The variables of \<open>main\<close> that live across datagrams. \<open>sv_k\<close> and \<open>sv_l\<close> are unassigned until
  a datagram sets them; the two tables hold pointers, \<open>None\<close> where nothing was stored.
\<close>

record server =
  sv_buf :: "byte list"
  sv_prjs :: "projection option list"
  sv_lines :: "line option list"
  sv_nb_projections :: int
  sv_l :: "int option"
  sv_k :: "int option"
  sv_nb_prj :: int
  sv_nb_line :: int
  sv_out :: "byte list list"

definition server_init :: "byte list \<Rightarrow> server" where
  "server_init buf = \<lparr>sv_buf = buf, sv_prjs = [], sv_lines = [], sv_nb_projections = 0,
     sv_l = None, sv_k = None, sv_nb_prj = 0, sv_nb_line = 0, sv_out = []\<rparr>"

text \<open>\<open>char\<close> is signed: reading a byte into an \<open>int\<close> sign-extends it.\<close>

definition buf_int :: "server \<Rightarrow> int \<Rightarrow> int option" where
  "buf_int sv i = map_option sint (rd (sv_buf sv) i)"

definition receive_line :: "server \<Rightarrow> server option" where
  "receive_line sv = do {
     l \<leftarrow> buf_int sv 2;
     let tab = (if sv_nb_line sv = 0 then replicate (nat l) None else sv_lines sv);
     num \<leftarrow> buf_int sv 1;
     k \<leftarrow> buf_int sv 3;
     val \<leftarrow> iter [0..<nat k] (\<lambda>j val. do {
       v \<leftarrow> rd (sv_buf sv) (int j + 4);
       Some (val @ [v]) }) [];
     tab' \<leftarrow> wr tab num (Some \<lparr>num_line = num, line_val = val, line_size = k\<rparr>);
     Some (sv\<lparr>sv_l := Some l, sv_k := Some k, sv_lines := tab', sv_nb_line := sv_nb_line sv + 1\<rparr>)
   }"

definition receive_projection :: "server \<Rightarrow> server option" where
  "receive_projection sv = do {
     nb \<leftarrow> buf_int sv 2;
     let tab = (if sv_nb_prj sv = 0 then replicate (nat nb) None else sv_prjs sv);
     p \<leftarrow> buf_int sv 4;
     q \<leftarrow> buf_int sv 5;
     l \<leftarrow> buf_int sv 6;
     k \<leftarrow> buf_int sv 7;
     pr \<leftarrow> projection_new True True p q l k;
     size \<leftarrow> buf_int sv 3;
     bs \<leftarrow> iter [0..<nat size] (\<lambda>j bs. do {
       v \<leftarrow> rd (sv_buf sv) (int j + 8);
       wr bs (int j) v }) (bins pr);
     tab' \<leftarrow> wr tab (sv_nb_prj sv) (Some (pr\<lparr>bins := bs\<rparr>));
     Some (sv\<lparr>sv_nb_projections := nb, sv_l := Some l, sv_k := Some k, sv_prjs := tab',
              sv_nb_prj := sv_nb_prj sv + 1\<rparr>)
   }"

text \<open>Following the first \<open>n\<close> pointers of a table.\<close>

fun deref_all :: "'a option list \<Rightarrow> 'a list option" where
  "deref_all [] = Some []"
| "deref_all (None # xs) = None"
| "deref_all (Some x # xs) = map_option (Cons x) (deref_all xs)"

definition deref_table :: "'a option list \<Rightarrow> int \<Rightarrow> 'a list option" where
  "deref_table tab n = (if n \<le> int (length tab) then deref_all (take (nat n) tab) else None)"

text \<open>Decoding, printing the first \<open>l * k\<close> pixels, and resetting the counters.\<close>

definition server_decode :: "server \<Rightarrow> server option" where
  "server_decode sv = do {
     l \<leftarrow> sv_l sv;
     k \<leftarrow> sv_k sv;
     s \<leftarrow> support_new True True l k;
     prjs \<leftarrow> deref_table (sv_prjs sv) (sv_nb_prj sv);
     (s', prjs') \<leftarrow> inverse_system s prjs (sv_nb_prj sv) (sv_lines sv) (sv_nb_line sv);
     Some (sv\<lparr>sv_prjs := map Some prjs' @ drop (length prjs') (sv_prjs sv),
              sv_nb_prj := 0, sv_nb_line := 0,
              sv_out := sv_out sv @ [take (nat (l * k)) (pixels s')]\<rparr>)
   }"

definition server_check :: "(server \<Rightarrow> int \<Rightarrow> bool) \<Rightarrow> server \<Rightarrow> server option" where
  "server_check cond sv = do {
     l \<leftarrow> sv_l sv;
     if cond sv l then server_decode sv else Some sv
   }"

text \<open>A datagram arrives in \<open>buf\<close> and is stored by its type.\<close>

definition server_receive :: "server \<Rightarrow> byte list \<Rightarrow> server option" where
  "server_receive sv dg = do {
     let n = min (length dg) (length (sv_buf sv));
     let sv = sv\<lparr>sv_buf := take n dg @ drop n (sv_buf sv)\<rparr>;
     type_data \<leftarrow> rd (sv_buf sv) 0;
     sv \<leftarrow> (if type_data = 0x6C then receive_line sv else Some sv);
     if type_data = 0x70 then receive_projection sv else Some sv
   }"

text \<open>One round of the receiver's loop: all projections, all rows, or some of both are there.\<close>

definition server_checks :: "server \<Rightarrow> server option" where
  "server_checks sv = do {
     sv \<leftarrow> server_check (\<lambda>sv l. l = sv_nb_prj sv) sv;
     sv \<leftarrow> server_check (\<lambda>sv l. sv_nb_line sv = l) sv;
     server_check (\<lambda>sv l. sv_nb_line sv + sv_nb_prj sv = l \<and> sv_nb_line sv \<noteq> l) sv
   }"

definition server_step :: "server \<Rightarrow> byte list \<Rightarrow> server option" where
  "server_step sv dg = do { sv \<leftarrow> server_receive sv dg; server_checks sv }"

definition server_run :: "byte list list \<Rightarrow> server \<Rightarrow> server option" where
  "server_run dgs sv = iter dgs (\<lambda>dg sv. server_step sv dg) sv"

end
