(* ===== verification/Mojette_Transport.thy ===== *)
theory Mojette_Transport imports Mojette_Net begin

text \<open>
  End-to-end behaviour of the Mojette transport: what the sender puts in its datagrams, when it
  stays inside its buffers, and that the receiver rebuilds the message from the datagrams of the
  first rows and of any projections, whatever their order of arrival.
\<close>

section \<open>Datagrams\<close>

lemma iter_copy:
  assumes "\<And>j. j < n \<Longrightarrow> f j = Some (xs ! j)" "length xs = n"
  shows "iter [0..<n] (\<lambda>j dg. do { v \<leftarrow> f j; Some (dg @ [v]) }) h = Some (h @ xs)"
proof -
  have "\<exists>t. iter [0..<n] (\<lambda>j dg. do { v \<leftarrow> f j; Some (dg @ [v]) }) h = Some t \<and>
      (\<lambda>j dg. dg = h @ take j xs) n t"
    by (rule iter_upt_total) (use assms in \<open>auto simp: take_Suc_conv_app_nth\<close>)
  then show ?thesis using assms(2) by simp
qed

lemma line_datagram_eq:
  assumes sg: "support_geom L K" and s: "s_k s = K" "length (pixels s) = nat L * nat K" and r: "r < nat L"
  shows "line_datagram s nb K r =
    Some ([0x6C, of_nat r, of_int nb, of_int K] @ line_val (row_of s r))"
  unfolding line_datagram_def
proof (rule iter_copy)
  note g = support_geom_pos [OF sg]
  show "length (line_val (row_of s r)) = nat K"
    using mult_le_mono1 [of "Suc r" "nat L" "nat K"] r s
    by (simp add: row_of_def min_absorb2 le_diff_conv2)
  fix j
  assume j: "j < nat K"
  define d where "d = r * nat K + j"
  have "int r * K + int j = int d" using g(6) by (simp add: d_def)
  moreover have "d < length (pixels s)" using matrix_index_lt [OF r j] s(2) by (simp add: d_def)
  ultimately show "rd (pixels s) (int r * K + int j) = Some (line_val (row_of s r) ! j)"
    using row_of_val(2) [OF s(2,1) r j, folded d_def] by simp
qed

lemma projection_datagram_eq:
  assumes "length (bins pr) = nat (pr_size pr)"
  shows "projection_datagram pr nb_proj nb K i =
    Some ([0x70, of_nat i, of_int nb_proj, of_int (pr_size pr), of_int (pr_p pr), of_int (pr_q pr),
      of_int nb, of_int K] @ bins pr)"
  unfolding projection_datagram_def by (rule iter_copy) (use assms in auto)

section \<open>The sender's buffers\<close>

lemma send_lines_total:
  assumes sg: "support_geom L K" and s: "s_k s = K" "length (pixels s) = nat L * nat K"
    and n: "nat m \<le> nat L"
  shows "\<exists>out'. send_lines api s nb K m out = Some out'"
proof -
  have "\<exists>out'. send_lines api s nb K m out = Some out' \<and> True"
    unfolding send_lines_def
    by (rule iter_upt_total [where P = "\<lambda>_ _. True"])
       (use line_datagram_eq [OF sg s] n in \<open>auto simp: less_le_trans\<close>)
  then show ?thesis by blast
qed

text \<open>
  C40. The wrapper stays inside its buffers exactly when the length of the message is a multiple of the
  nine rows it is cut into: for any other length the copy into the support overflows the
  allocation.
\<close>

theorem ser_sendto_safe_iff:
  assumes "length msg < 2 ^ 31"
  shows "ser_sendto (Some api) s s msg \<noteq> None \<longleftrightarrow> 9 dvd length msg"
proof -
  let ?K = "int (length msg) div 9"
  have len: "nat (9 * ?K) = 9 * (length msg div 9)" by (simp add: zdiv_int [symmetric] nat_mult_distrib)
  define s0 where "s0 = \<lparr>s_l = 9, s_k = ?K, pixels = replicate (nat (9 * ?K)) (0 :: byte)\<rparr>"
  have new: "support_new True True 9 ?K = Some s0"
    by (simp add: support_new_def calloc_def s0_def)
  have fits: "length msg \<le> length (pixels s0) \<longleftrightarrow> 9 dvd length msg"
    using len by (simp add: s0_def) (metis div_times_less_eq_dividend dvd_div_mult_self dvd_triv_left
        le_antisym mult.commute order_refl)
  show ?thesis
  proof (cases "9 dvd length msg")
    case False
    then show ?thesis using fits new by (simp add: ser_sendto_def encode_message_def)
  next
    case True
    define s1 where "s1 = s0\<lparr>pixels := msg @ drop (length msg) (pixels s0)\<rparr>"
    have "\<exists>out'. send_lines api s1 9 ?K 9 (None, []) = Some out'"
    proof (cases "msg = []")
      case True
      then show ?thesis by (simp add: send_lines_def line_datagram_def upt_conv_Cons)
    next
      case False
      obtain k where k: "length msg = 9 * k" using True by (auto elim: dvdE)
      have "0 < k" using k False by (cases k) auto
      then have "0 < ?K" using k by simp
      then have "support_geom 9 ?K" using assms by (simp add: support_geom_def)
      moreover have "length (pixels s1) = nat 9 * nat ?K" "s_k s1 = ?K"
        using True len by (auto simp: s1_def s0_def zdiv_int [symmetric])
      ultimately show ?thesis by (intro send_lines_total) auto
    qed
    moreover have "forward s1 [] 0 = Some []"
    proof -
      have "fold (\<lambda>_ s. s) xs ps = ps" for xs :: "nat list" and ps :: "projection list"
        by (induction xs) auto
      then show ?thesis by (simp add: forward_def iter_Some_fold)
    qed
    ultimately show ?thesis
      using new fits True
      by (auto simp: ser_sendto_def encode_message_def s1_def send_projections_def)
  qed
qed

theorem ser_sendto_safe_iff_witness:
  "length (replicate 18 (7 :: byte)) < 2 ^ 31 \<and>
   (ser_sendto (Some (\<lambda>dg. int (length dg))) 3 3 (replicate 18 7) \<noteq> None \<longleftrightarrow>
     9 dvd length (replicate 18 (7 :: byte)))"
proof -
  have h: "length (replicate 18 (7 :: byte)) < 2 ^ 31" by simp
  show ?thesis using h ser_sendto_safe_iff [OF h, of "\<lambda>dg. int (length dg)" 3] by simp
qed

section \<open>Lost rows\<close>

lemma iter_None:
  assumes "x \<in> set xs" "\<And>s. f x s = None"
  shows "iter xs f s = None"
  using assms(1)
proof (induction xs arbitrary: s)
  case Nil
  then show ?case by simp
next
  case (Cons y ys)
  then show ?case using assms(2) by (cases "f y s") (auto simp: Option.bind_eq_None_conv)
qed

text \<open>
  A lost row can crash the receiver: if one of the first \<open>nb_ligne\<close> entries of its table was never stored
  (the table is indexed by row number, the decoder reads it by arrival count), the decoding
  follows an uninitialised pointer, whatever else was received.
\<close>

theorem server_lost_row_undefined:
  assumes "i < nat (sv_nb_line sv)" "i < length (sv_lines sv)" "sv_lines sv ! i = None"
  shows "server_decode sv = None"
proof -
  have "line_pixels L K n (sv_lines sv) (sv_nb_line sv) st = None" for L K n st
    unfolding line_pixels_def by (rule iter_None [of i]) (use assms in auto)
  moreover have "copy_lines K (sv_lines sv) (sv_nb_line sv) px = None" for K px
    unfolding copy_lines_def by (rule iter_None [of i]) (use assms in auto)
  ultimately have "inverse_system s prjs n (sv_lines sv) (sv_nb_line sv) = None" for s prjs n
    by (auto simp: inverse_system_def Option.bind_eq_None_conv split: prod.splits)
  then show ?thesis
    by (auto simp: server_decode_def Option.bind_eq_None_conv)
qed

section \<open>Reading a datagram\<close>

lemma sint_byte: "-128 \<le> k \<Longrightarrow> k < 128 \<Longrightarrow> sint (of_int k :: byte) = k"
  by (simp add: sint_sbintrunc' signed_take_bit_int_eq_self)

lemma sint_byte_nat: "n < 128 \<Longrightarrow> sint (of_nat n :: byte) = int n"
  using sint_byte [of "int n"] by simp

lemma rd_tail: "n < length xs \<Longrightarrow> rd (h @ xs @ rest) (int n + int (length h)) = Some (xs ! n)"
  by (simp add: rd_def nth_append nat_add_distrib)

text \<open>The prefix of a datagram, once it is in the buffer.\<close>

lemma receive_line_ok:
  assumes buf: "sv_buf sv = [0x6C, of_nat r, of_int L, of_int K] @ line_val (row_of s r) @ rest"
    and L: "0 < L" "L < 128" and K: "0 < K" "K < 128" and r: "r < nat L"
    and s: "s_k s = K" "length (pixels s) = nat L * nat K"
    and tab: "sv_nb_line sv \<noteq> 0 \<Longrightarrow> length (sv_lines sv) = nat L"
  shows "receive_line sv = Some (sv\<lparr>sv_l := Some L, sv_k := Some K,
    sv_lines := (if sv_nb_line sv = 0 then replicate (nat L) None else sv_lines sv)
      [r := Some (row_of s r)], sv_nb_line := sv_nb_line sv + 1\<rparr>)"
proof -
  have len: "length (line_val (row_of s r)) = nat K"
    using mult_le_mono1 [of "Suc r" "nat L" "nat K"] r s
    by (simp add: row_of_def min_absorb2 le_diff_conv2)
  have val: "iter [0..<nat K] (\<lambda>j val. do { v \<leftarrow> rd (sv_buf sv) (int j + 4); Some (val @ [v]) }) [] =
      Some (line_val (row_of s r))"
    using iter_copy [of "nat K" "\<lambda>j. rd (sv_buf sv) (int j + 4)" "line_val (row_of s r)" "[]"]
      rd_tail [of _ "line_val (row_of s r)" "[0x6C, of_nat r, of_int L, of_int K]" rest] len
    by (simp add: buf)
  have hd: "buf_int sv 2 = Some L" "buf_int sv 1 = Some (int r)" "buf_int sv 3 = Some K"
    using L K r by (auto simp: buf_int_def rd_def buf sint_byte sint_byte_nat)
  have "length (if sv_nb_line sv = 0 then replicate (nat L) None else sv_lines sv) = nat L"
    using tab by simp
  then show ?thesis
    unfolding receive_line_def hd by (simp add: val r row_of_def s)
qed

lemma receive_projection_ok:
  assumes buf: "sv_buf sv = [0x70, i, of_int m, of_int (pr_size pr), of_int (pr_p pr), of_int (pr_q pr),
      of_int L, of_int K] @ bins pr @ rest"
    and L: "0 < L" "L < 128" and K: "0 < K" "K < 128" and m: "0 < m" "m < 128"
    and pr: "prj_geom L K pr" "pr_size pr < 128" "\<bar>pr_p pr\<bar> < 128" "pr_q pr < 128"
    and tab: "sv_nb_prj sv = int (length ps)" "length ps < nat m"
      "0 < length ps \<Longrightarrow> sv_prjs sv = map Some ps @ replicate (nat m - length ps) None"
  shows "receive_projection sv = Some (sv\<lparr>sv_nb_projections := m, sv_l := Some L, sv_k := Some K,
    sv_prjs := map Some (ps @ [pr]) @ replicate (nat m - length (ps @ [pr])) None,
    sv_nb_prj := sv_nb_prj sv + 1\<rparr>)"
proof -
  have q: "0 \<le> pr_q pr" and len: "length (bins pr) = nat (pr_size pr)"
    and size: "pr_size pr = \<bar>pr_p pr\<bar> * (L - 1) + \<bar>pr_q pr\<bar> * (K - 1) + 1"
    using pr(1) by (auto simp: prj_geom_def)
  have pos: "0 \<le> pr_size pr" using L K by (simp add: size)
  have hd: "buf_int sv 2 = Some m" "buf_int sv 3 = Some (pr_size pr)" "buf_int sv 4 = Some (pr_p pr)"
      "buf_int sv 5 = Some (pr_q pr)" "buf_int sv 6 = Some L" "buf_int sv 7 = Some K"
    using L K m pr(2,3,4) q pos by (auto simp: buf_int_def rd_def buf sint_byte)
  have new: "projection_new True True (pr_p pr) (pr_q pr) L K =
      Some (pr\<lparr>bins := replicate (nat (pr_size pr)) 0\<rparr>)"
    using pos size by (cases pr) (auto simp: projection_new_def calloc_def Let_def)
  have "\<exists>bs. iter [0..<nat (pr_size pr)] (\<lambda>j bs. do { v \<leftarrow> rd (sv_buf sv) (int j + 8); wr bs (int j) v })
        (replicate (nat (pr_size pr)) 0) = Some bs \<and>
      (\<lambda>j bs. bs = take j (bins pr) @ replicate (nat (pr_size pr) - j) 0) (nat (pr_size pr)) bs"
  proof (rule iter_upt_total [where
        P = "\<lambda>j bs. bs = take j (bins pr) @ replicate (nat (pr_size pr) - j) 0"])
    fix j bs
    assume j: "j < nat (pr_size pr)" and bs: "bs = take j (bins pr) @ replicate (nat (pr_size pr) - j) 0"
    have "rd (sv_buf sv) (int j + 8) = Some (bins pr ! j)"
      using rd_tail [of j "bins pr" "[0x70, i, of_int m, of_int (pr_size pr), of_int (pr_p pr),
        of_int (pr_q pr), of_int L, of_int K]" rest] j len by (simp add: buf)
    moreover have "bs[j := bins pr ! j] = take (Suc j) (bins pr) @ replicate (nat (pr_size pr) - Suc j) 0"
      using j len by (intro nth_equalityI) (auto simp: bs nth_append nth_list_update less_Suc_eq)
    ultimately show "\<exists>bs'. do { v \<leftarrow> rd (sv_buf sv) (int j + 8); wr bs (int j) v } = Some bs' \<and>
        bs' = take (Suc j) (bins pr) @ replicate (nat (pr_size pr) - Suc j) 0"
      using j len by (simp add: bs)
  qed simp
  then have copy: "iter [0..<nat (pr_size pr)] (\<lambda>j bs. do { v \<leftarrow> rd (sv_buf sv) (int j + 8); wr bs (int j) v })
        (replicate (nat (pr_size pr)) 0) = Some (bins pr)" using len by simp
  define tab where "tab = (if sv_nb_prj sv = 0 then replicate (nat m) None else sv_prjs sv)"
  have "tab = map Some ps @ replicate (nat m - length ps) None"
    using tab by (cases "ps = []") (auto simp: tab_def)
  then have "wr tab (sv_nb_prj sv) (Some pr) =
      Some (map Some (ps @ [pr]) @ replicate (nat m - length (ps @ [pr])) None)"
    using tab(1,2) by (cases "nat m - length ps") (auto simp: Suc_diff_Suc list_update_append)
  then show ?thesis
    unfolding receive_projection_def hd tab_def by (simp add: new copy)
qed

section \<open>The datagrams of a message\<close>

text \<open>What the wrapper sends for a support, as a function of the datagram's index.\<close>

definition message_datagram :: "support \<Rightarrow> projection list \<Rightarrow> nat \<Rightarrow> nat \<Rightarrow> byte list" where
  "message_datagram s prjs n i =
     (if i < n then [0x6C, of_nat i, of_int (s_l s), of_int (s_k s)] @ line_val (row_of s i)
      else let pr = prjs ! (i - n) in
        [0x70, of_nat (i - n), of_nat (length prjs), of_int (pr_size pr), of_int (pr_p pr),
         of_int (pr_q pr), of_int (s_l s), of_int (s_k s)] @ bins pr)"

lemma send_lines_eq:
  assumes sg: "support_geom L K" and s: "s_l s = L" "s_k s = K" "length (pixels s) = nat L * nat K"
    and n: "n \<le> nat L"
  shows "\<exists>ret. send_lines api s L K (int n) (r0, ds) =
    Some (ret, ds @ map (message_datagram s prjs n) [0..<n])"
proof -
  have "\<exists>out. send_lines api s L K (int n) (r0, ds) = Some out \<and>
      (\<lambda>i (out :: sent). snd out = ds @ map (message_datagram s prjs n) [0..<i]) n out"
    unfolding send_lines_def nat_int
  proof (rule iter_upt_total [where
        P = "\<lambda>i out. snd out = ds @ map (message_datagram s prjs n) [0..<i]"])
    fix i and out :: sent
    assume i: "i < n" and out: "snd out = ds @ map (message_datagram s prjs n) [0..<i]"
    have "line_datagram s L K i = Some (message_datagram s prjs n i)"
      using line_datagram_eq [OF sg s(2,3), of i L] i n s by (simp add: message_datagram_def)
    then show "\<exists>out'. do { dg \<leftarrow> line_datagram s L K i; Some (send_one api dg out) } = Some out' \<and>
        snd out' = ds @ map (message_datagram s prjs n) [0..<Suc i]"
      using out by (simp add: send_one_def)
  qed simp
  then show ?thesis by (metis prod.collapse)
qed

definition first_angles :: "nat \<Rightarrow> (int \<times> int) list" where
  "first_angles m = take m [(-1, 1), (0, 1), (1, 1)]"

lemma less_3_cases: "(i :: nat) < 3 \<Longrightarrow> i = 0 \<or> i = 1 \<or> i = 2" by linarith

lemma first_angles:
  assumes "m \<le> 3"
  shows "length (first_angles m) = m" "angles_ok (first_angles m)"
    "(p, q) \<in> set (first_angles m) \<Longrightarrow> \<bar>p\<bar> \<le> 1 \<and> q = 1"
    "i < m \<Longrightarrow> rd angles_p (int i) = Some (fst (first_angles m ! i)) \<and>
       rd angles_q (int i) = Some (snd (first_angles m ! i))"
proof -
  have m: "m = 0 \<or> m = 1 \<or> m = 2 \<or> m = 3" using assms by linarith
  then show "length (first_angles m) = m" "angles_ok (first_angles m)"
    "(p, q) \<in> set (first_angles m) \<Longrightarrow> \<bar>p\<bar> \<le> 1 \<and> q = 1"
    by (auto simp: first_angles_def angles_ok_def)
  show "i < m \<Longrightarrow> rd angles_p (int i) = Some (fst (first_angles m ! i)) \<and>
       rd angles_q (int i) = Some (snd (first_angles m ! i))"
    using less_3_cases [of i] m by (auto simp: first_angles_def angles_p_def angles_q_def rd_def)
qed

lemma new_projections_loop:
  assumes sg: "support_geom L K" and m: "m \<le> 3"
  shows "iter [0..<m] (\<lambda>i ps. do { p \<leftarrow> rd angles_p (int i); q \<leftarrow> rd angles_q (int i);
      pr \<leftarrow> projection_new True True p q L K; Some (ps @ [pr]) }) [] =
    Some (new_projections L K (first_angles m))"
proof (rule iter_copy [of m "\<lambda>i. do { p \<leftarrow> rd angles_p (int i); q \<leftarrow> rd angles_q (int i);
      projection_new True True p q L K }" _ "[]", simplified])
  show "length (new_projections L K (first_angles m)) = m"
    by (simp add: new_projections_def first_angles(1) [OF m])
  fix i
  assume i: "i < m"
  define p q where "p = fst (first_angles m ! i)" and "q = snd (first_angles m ! i)"
  have pq: "first_angles m ! i = (p, q)" by (simp add: p_def q_def)
  have "(p, q) \<in> set (first_angles m)"
    using i first_angles(1) [OF m] by (simp add: pq [symmetric])
  then have "0 \<le> q" using first_angles(3) [OF m] by fastforce
  then obtain pr where "projection_new True True p q L K = Some pr"
    using projection_new_geom [OF sg, of q p] by blast
  then show "do { p \<leftarrow> rd angles_p (int i); q \<leftarrow> rd angles_q (int i);
      projection_new True True p q L K } = Some (new_projections L K (first_angles m) ! i)"
    using first_angles(4) [OF m i] i first_angles(1) [OF m] by (simp add: new_projections_def pq)
qed

lemma send_projections_eq:
  assumes sg: "support_geom L K" and s: "s_l s = L" "s_k s = K"
    and m: "m \<le> 3"
    and f: "forward s (new_projections L K (first_angles m)) (int m) = Some prjs"
      "length prjs = m" "prjs_geom L K prjs"
  shows "\<exists>ret. send_projections api s L K (int m) (r0, ds) =
    Some (ret, ds @ map (message_datagram s prjs n) [n..<n + m])"
proof -
  have "\<exists>out. iter [0..<m] (\<lambda>i out. do { pr \<leftarrow> rd prjs (int i); dg \<leftarrow> projection_datagram pr (int m) L K i;
        Some (send_one api dg out) }) (r0, ds) = Some out \<and>
      snd out = ds @ map (message_datagram s prjs n) [n..<n + m]"
  proof (rule iter_upt_total [where P = "\<lambda>i out. snd out = ds @ map (message_datagram s prjs n) [n..<n + i]"])
    fix i and out :: sent
    assume i: "i < m" and out: "snd out = ds @ map (message_datagram s prjs n) [n..<n + i]"
    have "prj_geom L K (prjs ! i)" using f(2,3) i by (simp add: prjs_geom_def)
    then have "projection_datagram (prjs ! i) (int m) L K i = Some (message_datagram s prjs n (n + i))"
      using projection_datagram_eq [of "prjs ! i" "int m" L K i] s f(2)
      by (simp add: prj_geom_def message_datagram_def Let_def)
    with i f(2) out show "\<exists>out'. do { pr \<leftarrow> rd prjs (int i); dg \<leftarrow> projection_datagram pr (int m) L K i;
        Some (send_one api dg out) } = Some out' \<and>
        snd out' = ds @ map (message_datagram s prjs n) [n..<n + Suc i]"
      by (simp add: send_one_def)
  qed simp
  then obtain out where "iter [0..<m] (\<lambda>i out. do { pr \<leftarrow> rd prjs (int i);
      dg \<leftarrow> projection_datagram pr (int m) L K i; Some (send_one api dg out) }) (r0, ds) = Some out"
      "snd out = ds @ map (message_datagram s prjs n) [n..<n + m]" by blast
  then show ?thesis
    unfolding send_projections_def nat_int new_projections_loop [OF sg m] by (cases out) (simp add: f(1))
qed

lemma encode_message_eq:
  assumes sg: "support_geom L K" and n: "n \<le> nat L" and m: "m \<le> 3" and msg: "length msg = nat (L * K)"
  obtains ret prjs where
    "encode_message api L (int n) (int m) msg = Some (ret, map (message_datagram \<lparr>s_l = L, s_k = K, pixels = msg\<rparr> prjs n) [0..<n + m])"
    "length prjs = m" "prjs_geom L K prjs" "prj_angles prjs = first_angles m"
    "\<forall>pr \<in> set prjs. bins_ok L K msg {..<nat (L * K)} pr"
proof -
  define s where "s = \<lparr>s_l = L, s_k = K, pixels = msg\<rparr>"
  have sf: "s_l s = L" "s_k s = K" "length (pixels s) = nat (L * K)" using msg by (simp_all add: s_def)
  note g = support_geom_pos [OF sg] and fa = first_angles [OF m]
  obtain prjs where f: "forward s (new_projections L K (first_angles m)) (int (length (first_angles m))) = Some prjs"
      "length prjs = length (first_angles m)" "prjs_geom L K prjs" "prj_angles prjs = first_angles m"
      "\<forall>pr \<in> set prjs. bins_ok L K (pixels s) {..<nat (L * K)} pr"
    by (rule forward_new [OF sg fa(2) sf])
  have LK: "nat (L * K) = nat L * nat K" by (rule g(4))
  have LK0: "0 \<le> L * K" using mult_pos_pos [OF g(1,2)] by simp
  have div: "int (length msg) div L = K" unfolding msg using LK0 g(1) by simp
  define s0 where "s0 = \<lparr>s_l = L, s_k = K, pixels = replicate (nat (L * K)) (0 :: byte)\<rparr>"
  have new: "support_new True True L K = Some s0" using LK0 by (simp add: support_new_def calloc_def s0_def)
  have fits: "length msg \<le> length (pixels s0)" and s_eq: "s0\<lparr>pixels := msg @ drop (length msg) (pixels s0)\<rparr> = s"
    unfolding s0_def s_def msg by simp_all
  obtain r0 where l: "send_lines api s L K (int n) (None, []) =
      Some (r0, map (message_datagram s prjs n) [0..<n])"
    using send_lines_eq [OF sg, of s n api None "[]" prjs] n sf LK by auto
  have f1: "forward s (new_projections L K (first_angles m)) (int m) = Some prjs" "length prjs = m"
    using f(1,2) by (simp_all only: fa(1))
  note sp = send_projections_eq [OF sg sf(1) sf(2) m f1 f(3)]
  obtain ret where pj: "send_projections api s L K (int m) (r0, map (message_datagram s prjs n) [0..<n]) =
      Some (ret, map (message_datagram s prjs n) [0..<n] @ map (message_datagram s prjs n) [n..<n + m])"
    using sp [of api r0 "map (message_datagram s prjs n) [0..<n]" n] ..
  have "[0..<n] @ [n..<n + m] = [0..<n + m]" by (rule upt_add_eq_append [symmetric]) simp
  then have "map (message_datagram s prjs n) [0..<n] @ map (message_datagram s prjs n) [n..<n + m] =
      map (message_datagram s prjs n) [0..<n + m]" by (metis map_append)
  then have "encode_message api L (int n) (int m) msg = Some (ret, map (message_datagram s prjs n) [0..<n + m])"
    unfolding encode_message_def div Let_def new by (simp add: l pj fits s_eq)
  then show thesis using that [of ret prjs] f fa(1) by (simp add: s_def)
qed

section \<open>Collecting datagrams\<close>

text \<open>The rows and the projections among the datagrams received so far, in order of arrival.\<close>

definition got_rows :: "nat \<Rightarrow> nat list \<Rightarrow> nat list" where
  "got_rows n is = filter (\<lambda>i. i < n) is"

definition got_prjs :: "projection list \<Rightarrow> nat \<Rightarrow> nat list \<Rightarrow> projection list" where
  "got_prjs prjs n is = map (\<lambda>i. prjs ! (i - n)) (filter (\<lambda>i. \<not> i < n) is)"

definition collected :: "support \<Rightarrow> projection list \<Rightarrow> nat \<Rightarrow> nat list \<Rightarrow> server \<Rightarrow> bool" where
  "collected s prjs n is sv \<longleftrightarrow> length (sv_buf sv) = 1024 \<and> sv_out sv = [] \<and>
     (is \<noteq> [] \<longrightarrow> sv_l sv = Some (s_l s) \<and> sv_k sv = Some (s_k s)) \<and>
     sv_nb_line sv = int (length (got_rows n is)) \<and> sv_nb_prj sv = int (length (got_prjs prjs n is)) \<and>
     (got_rows n is \<noteq> [] \<longrightarrow> length (sv_lines sv) = nat (s_l s) \<and>
        (\<forall>r \<in> set (got_rows n is). sv_lines sv ! r = Some (row_of s r))) \<and>
     (got_prjs prjs n is \<noteq> [] \<longrightarrow> sv_prjs sv = map Some (got_prjs prjs n is) @
        replicate (length prjs - length (got_prjs prjs n is)) None)"

lemma got_length: "length (got_rows n is) + length (got_prjs prjs n is) = length is"
  unfolding got_rows_def got_prjs_def length_map by (rule sum_length_filter_compl)

lemma got_snoc [simp]:
  "got_rows n (is @ [i]) = (if i < n then got_rows n is @ [i] else got_rows n is)"
  "got_prjs prjs n (is @ [i]) = (if i < n then got_prjs prjs n is else got_prjs prjs n is @ [prjs ! (i - n)])"
  by (simp_all add: got_rows_def got_prjs_def)

lemma got_prjs_less:
  assumes "distinct (is @ [i])" "set (is @ [i]) \<subseteq> {..<n + length prjs}" "\<not> i < n"
  shows "length (got_prjs prjs n is) < length prjs"
proof -
  have d: "distinct (filter (\<lambda>i. \<not> i < n) (is @ [i]))" using assms(1) by simp
  have "length (got_prjs prjs n (is @ [i])) = card (set (filter (\<lambda>i. \<not> i < n) (is @ [i])))"
    by (simp only: got_prjs_def length_map distinct_card [OF d])
  also have "\<dots> \<le> card {n..<n + length prjs}" using assms(2) by (intro card_mono) auto
  finally show ?thesis using assms(3) by simp
qed

text \<open>The counts of the message fit the signed bytes of the datagram headers.\<close>

definition sendable :: "support \<Rightarrow> projection list \<Rightarrow> nat \<Rightarrow> bool" where
  "sendable s prjs n \<longleftrightarrow> support_geom (s_l s) (s_k s) \<and> s_l s < 128 \<and> s_k s < 128 \<and>
     length (pixels s) = nat (s_l s) * nat (s_k s) \<and> n \<le> nat (s_l s) \<and> length prjs < 128 \<and>
     (\<forall>pr \<in> set prjs. prj_geom (s_l s) (s_k s) pr \<and> pr_size pr < 128 \<and> \<bar>pr_p pr\<bar> < 128 \<and> pr_q pr < 128)"

lemma collected_row:
  assumes ok: "sendable s prjs n" and col: "collected s prjs n is sv" and i: "i < n" "i \<notin> set is"
  shows "\<exists>sv'. server_receive sv (message_datagram s prjs n i) = Some sv' \<and> collected s prjs n (is @ [i]) sv'"
proof -
  let ?L = "s_l s" and ?K = "s_k s"
  define dg where "dg = message_datagram s prjs n i"
  define sv1 where "sv1 = sv\<lparr>sv_buf := dg @ drop (length dg) (sv_buf sv)\<rparr>"
  have b: "0 < ?L" "?L < 128" "0 < ?K" "?K < 128" "i < nat ?L" "length (pixels s) = nat ?L * nat ?K"
    using ok i by (auto simp: sendable_def support_geom_def)
  have dg: "dg = [0x6C, of_nat i, of_int ?L, of_int ?K] @ line_val (row_of s i)"
    using i by (simp add: dg_def message_datagram_def)
  have "length dg \<le> 4 + nat ?K" by (simp add: dg row_of_def)
  then have len: "length dg \<le> length (sv_buf sv)" using b col by (simp add: collected_def)
  then have buf: "take (min (length dg) (length (sv_buf sv))) dg @ drop (min (length dg) (length (sv_buf sv)))
      (sv_buf sv) = dg @ drop (length dg) (sv_buf sv)" by simp
  define sv' where "sv' = sv1\<lparr>sv_l := Some ?L, sv_k := Some ?K,
    sv_lines := (if sv_nb_line sv1 = 0 then replicate (nat ?L) None else sv_lines sv1)
      [i := Some (row_of s i)], sv_nb_line := sv_nb_line sv1 + 1\<rparr>"
  have tab: "sv_nb_line sv1 \<noteq> 0 \<Longrightarrow> length (sv_lines sv1) = nat ?L"
    using col by (auto simp: collected_def sv1_def)
  have "receive_line sv1 = Some sv'"
    unfolding sv'_def by (rule receive_line_ok) (use b tab in \<open>auto simp: sv1_def dg\<close>)
  moreover have "rd (sv_buf sv1) 0 = Some 0x6C" by (simp add: sv1_def dg rd_def)
  ultimately have "server_receive sv dg = Some sv'"
    unfolding server_receive_def Let_def buf sv1_def [symmetric] by simp
  moreover have "i \<notin> set (got_rows n is)" using i by (simp add: got_rows_def)
  then have "collected s prjs n (is @ [i]) sv'"
    using col i b(5) len by (auto simp: collected_def sv'_def sv1_def nth_list_update)
  ultimately show ?thesis unfolding dg_def by blast
qed

lemma collected_projection:
  assumes ok: "sendable s prjs n" and col: "collected s prjs n is sv" and i: "\<not> i < n"
    and dist: "distinct (is @ [i])" "set (is @ [i]) \<subseteq> {..<n + length prjs}"
  shows "\<exists>sv'. server_receive sv (message_datagram s prjs n i) = Some sv' \<and> collected s prjs n (is @ [i]) sv'"
proof -
  let ?L = "s_l s" and ?K = "s_k s" and ?ps = "got_prjs prjs n is"
  define dg where "dg = message_datagram s prjs n i"
  define pr where "pr = prjs ! (i - n)"
  define sv1 where "sv1 = sv\<lparr>sv_buf := dg @ drop (length dg) (sv_buf sv)\<rparr>"
  have "pr \<in> set prjs" using dist(2) i by (auto simp: pr_def)
  then have pr: "prj_geom ?L ?K pr" "pr_size pr < 128" "\<bar>pr_p pr\<bar> < 128" "pr_q pr < 128" "prjs \<noteq> []"
    using ok by (auto simp: sendable_def)
  have b: "0 < ?L" "?L < 128" "0 < ?K" "?K < 128" "0 < int (length prjs)" "int (length prjs) < 128"
    using ok pr(5) by (auto simp: sendable_def support_geom_def)
  have dg: "dg = [0x70, of_nat (i - n), of_int (int (length prjs)), of_int (pr_size pr), of_int (pr_p pr),
      of_int (pr_q pr), of_int ?L, of_int ?K] @ bins pr"
    using i by (simp add: dg_def message_datagram_def Let_def pr_def)
  have "length dg = 8 + nat (pr_size pr)" using pr(1) by (simp add: dg prj_geom_def)
  then have len: "length dg \<le> length (sv_buf sv)" using pr(2) col by (simp add: collected_def)
  then have buf: "take (min (length dg) (length (sv_buf sv))) dg @ drop (min (length dg) (length (sv_buf sv)))
      (sv_buf sv) = dg @ drop (length dg) (sv_buf sv)" by simp
  note less = got_prjs_less [OF dist i]
  define sv' where "sv' = sv1\<lparr>sv_nb_projections := int (length prjs), sv_l := Some ?L, sv_k := Some ?K,
    sv_prjs := map Some (?ps @ [pr]) @ replicate (nat (int (length prjs)) - length (?ps @ [pr])) None,
    sv_nb_prj := sv_nb_prj sv1 + 1\<rparr>"
  have "receive_projection sv1 = Some sv'"
    unfolding sv'_def
    by (rule receive_projection_ok [OF _ b pr(1-4)])
       (use col less in \<open>auto simp: sv1_def dg collected_def\<close>)
  moreover have "rd (sv_buf sv1) 0 = Some 0x70" by (simp add: sv1_def dg rd_def)
  ultimately have "server_receive sv dg = Some sv'"
    unfolding server_receive_def Let_def buf sv1_def [symmetric] by simp
  moreover have "collected s prjs n (is @ [i]) sv'"
    using col i len by (auto simp: collected_def sv'_def sv1_def pr_def)
  ultimately show ?thesis unfolding dg_def by blast
qed

text \<open>Nothing is decoded before as many datagrams as rows have arrived.\<close>

lemma server_checks_wait:
  assumes "collected s prjs n is sv" "is \<noteq> []" "length is < nat (s_l s)"
  shows "server_checks sv = Some sv"
proof -
  have "length (got_rows n is) + length (got_prjs prjs n is) < nat (s_l s)"
    using assms(3) by (simp add: got_length)
  then have "sv_l sv = Some (s_l s)" "s_l s \<noteq> sv_nb_prj sv" "sv_nb_line sv \<noteq> s_l s"
    "sv_nb_line sv + sv_nb_prj sv \<noteq> s_l s"
    using assms(1,2) by (auto simp: collected_def)
  then show ?thesis by (simp add: server_checks_def server_check_def)
qed

lemma server_checks_decode:
  assumes col: "collected s prjs n is sv" and full: "length is = nat (s_l s)" "0 < s_l s"
    and dec: "server_decode sv = Some sv'" "sv_l sv' = sv_l sv" "sv_nb_line sv' = 0" "sv_nb_prj sv' = 0"
  shows "server_checks sv = Some sv'"
proof -
  have "is \<noteq> []" using full by auto
  then have l: "sv_l sv = Some (s_l s)" "sv_l sv' = Some (s_l s)" using col dec(2) by (auto simp: collected_def)
  have "sv_nb_line sv + sv_nb_prj sv = s_l s"
    using col full got_length [of n "is" prjs] by (auto simp: collected_def)
  then consider "s_l s = sv_nb_prj sv" | "s_l s \<noteq> sv_nb_prj sv" "sv_nb_line sv = s_l s"
    | "s_l s \<noteq> sv_nb_prj sv" "sv_nb_line sv \<noteq> s_l s" "sv_nb_line sv + sv_nb_prj sv = s_l s" by blast
  then show ?thesis
    by cases (use l dec full in \<open>simp_all add: server_checks_def server_check_def\<close>)
qed

lemma deref_all_map_Some [simp]: "deref_all (map Some xs) = Some xs"
  by (induction xs) auto

text \<open>The rows that arrived are the first ones.\<close>

definition first_rows :: "nat \<Rightarrow> nat list \<Rightarrow> bool" where
  "first_rows n is \<longleftrightarrow> (\<forall>i \<in> set is. i < n \<longrightarrow> (\<forall>j < i. j \<in> set is))"

lemma down_closed_lessThan:
  assumes "finite (A :: nat set)" "\<And>i j. i \<in> A \<Longrightarrow> j < i \<Longrightarrow> j \<in> A"
  shows "A = {..<card A}"
proof (cases "A = {}")
  case False
  have "j \<in> A" if "j \<le> Max A" for j
    using assms(2) [OF Max_in [OF assms(1) False], of j] Max_in [OF assms(1) False] that
    by (cases "j = Max A") auto
  then have "A = {..Max A}" using Max_ge [OF assms(1)] by auto
  then have "card A = Suc (Max A)" by (metis card_atMost)
  with \<open>A = {..Max A}\<close> show ?thesis by (simp add: lessThan_Suc_atMost)
qed simp

lemma got_rows_first:
  assumes "first_rows n is" "distinct is"
  shows "set (got_rows n is) = {..<length (got_rows n is)}"
proof -
  have "distinct (got_rows n is)" using assms(2) by (simp add: got_rows_def)
  moreover have "set (got_rows n is) = {..<card (set (got_rows n is))}"
    by (rule down_closed_lessThan) (use assms(1) in \<open>auto simp: first_rows_def got_rows_def\<close>)
  ultimately show ?thesis by (simp add: distinct_card)
qed

lemma angles_ok_nths:
  assumes "angles_ok as" "distinct js" "set js \<subseteq> {..<length as}"
  shows "angles_ok (map ((!) as) js)"
proof -
  have "inj_on ((!) as) (set js)"
    using assms(1,3) by (intro inj_on_nth) (auto simp: angles_ok_def)
  then have "distinct (map ((!) as) js)" using assms(2) by (simp add: distinct_map)
  moreover have "set (map ((!) as) js) \<subseteq> set as" using assms(3) by (auto intro: nth_mem)
  ultimately show ?thesis using assms(1) unfolding angles_ok_def by blast
qed

lemma got_prjs_angles:
  assumes "angles_ok (prj_angles prjs)" "distinct is" "set is \<subseteq> {..<n + length prjs}"
  shows "angles_ok (prj_angles (got_prjs prjs n is))" "set (got_prjs prjs n is) \<subseteq> set prjs"
proof -
  let ?js = "map (\<lambda>i. i - n) (filter (\<lambda>i. \<not> i < n) is)"
  have js: "distinct ?js" "set ?js \<subseteq> {..<length prjs}"
    using assms(2,3) by (auto simp: distinct_map inj_on_def)
  have "prj_angles (got_prjs prjs n is) = map ((!) (prj_angles prjs)) ?js"
    using js(2) by (auto simp: prj_angles_def got_prjs_def)
  moreover have "angles_ok (map ((!) (prj_angles prjs)) ?js)"
    using assms(1) js by (intro angles_ok_nths) (auto simp: prj_angles_def)
  ultimately show "angles_ok (prj_angles (got_prjs prjs n is))" by simp
  show "set (got_prjs prjs n is) \<subseteq> set prjs" using js(2) by (auto simp: got_prjs_def)
qed

lemma server_decode_ok:
  assumes ok: "sendable s prjs n" and col: "collected s prjs n is sv" and as: "angles_ok (prj_angles prjs)"
    and bins: "\<forall>pr \<in> set prjs. bins_ok (s_l s) (s_k s) (pixels s) {..<nat (s_l s * s_k s)} pr"
    and ids: "distinct is" "set is \<subseteq> {..<n + length prjs}" "first_rows n is" "length is = nat (s_l s)"
  shows "\<exists>sv'. server_decode sv = Some sv' \<and> sv_l sv' = sv_l sv \<and> sv_nb_line sv' = 0 \<and>
    sv_nb_prj sv' = 0 \<and> sv_out sv' = [pixels s]"
proof -
  let ?L = "s_l s" and ?K = "s_k s" and ?ps = "got_prjs prjs n is" and ?r = "length (got_rows n is)"
  have sg: "support_geom ?L ?K" and len: "length (pixels s) = nat ?L * nat ?K" and n: "n \<le> nat ?L"
    using ok by (auto simp: sendable_def)
  have LK: "length (pixels s) = nat (?L * ?K)" using len by (simp add: support_geom_pos(4) [OF sg])
  have LK0: "0 \<le> ?L * ?K" using mult_pos_pos [OF support_geom_pos(1,2) [OF sg]] by simp
  have ne: "is \<noteq> []" using ids(4) support_geom_pos(1) [OF sg] by auto
  note ps = got_prjs_angles [OF as ids(1,2)]
  have geom: "prjs_geom ?L ?K ?ps" using ok ps(2) by (auto simp: prjs_geom_def sendable_def)
  note rset = got_rows_first [OF ids(3,1)]
  have rn: "set (got_rows n is) \<subseteq> {..<n}" by (auto simp: got_rows_def)
  then have r: "?r \<le> n" using rset by simp
  have rows: "\<forall>x \<in> set [0..<?r]. x < nat ?L" using r n by auto
  have lines: "?r = 0 \<or> (?r \<le> length (sv_lines sv) \<and> (\<forall>j < ?r. sv_lines sv ! j = Some (row_of s j)))"
    using col rset r n by (auto simp: collected_def)
  have tab: "sv_lines sv = rows_of s [0..<?r] @ drop ?r (sv_lines sv)"
    using lines by (intro nth_equalityI) (auto simp: rows_of_def nth_append)
  define z where "z = \<lparr>s_l = ?L, s_k = ?K, pixels = replicate (nat (?L * ?K)) (0 :: byte)\<rparr>"
  have new: "support_new True True ?L ?K = Some z"
    using LK0 by (simp add: support_new_def calloc_def z_def)
  obtain prjs' where inv: "inverse_system z ?ps (int (length ?ps)) (sv_lines sv) (int ?r) =
      Some (z\<lparr>pixels := pixels s\<rparr>, prjs')" "length prjs' = length ?ps"
    using inverse_system_ok [OF geom ps(1) _ refl refl LK, of z "[0..<?r]" "drop ?r (sv_lines sv)"]
      bins ps(2) rows got_length [of n "is" prjs] ids(4) tab by (auto simp: z_def)
  have deref: "deref_table (sv_prjs sv) (int (length ?ps)) = Some ?ps"
    using col by (cases "?ps = []") (auto simp: collected_def deref_table_def)
  have "sv_l sv = Some ?L" "sv_k sv = Some ?K" "sv_nb_prj sv = int (length ?ps)" "sv_nb_line sv = int ?r"
    "sv_out sv = []" using col ne by (auto simp: collected_def)
  then show ?thesis using new deref inv LK by (simp add: server_decode_def z_def)
qed

section \<open>End to end\<close>

lemma collected_step:
  assumes "sendable s prjs n" "collected s prjs n is sv"
    and "distinct (is @ [i])" "set (is @ [i]) \<subseteq> {..<n + length prjs}"
  shows "\<exists>sv'. server_receive sv (message_datagram s prjs n i) = Some sv' \<and> collected s prjs n (is @ [i]) sv'"
  using assms collected_row [OF assms(1,2), of i] collected_projection [OF assms(1,2) _ assms(3,4)]
  by (cases "i < n") auto

lemma server_run_wait:
  assumes ok: "sendable s prjs n" and buf: "length buf = 1024"
  shows "distinct is \<Longrightarrow> set is \<subseteq> {..<n + length prjs} \<Longrightarrow> length is < nat (s_l s) \<Longrightarrow>
    \<exists>sv. server_run (map (message_datagram s prjs n) is) (server_init buf) = Some sv \<and>
      collected s prjs n is sv"
proof (induction "is" rule: rev_induct)
  case Nil
  show ?case using buf by (simp add: server_run_def server_init_def collected_def got_rows_def got_prjs_def)
next
  case (snoc i "is")
  then obtain sv where sv: "server_run (map (message_datagram s prjs n) is) (server_init buf) = Some sv"
      "collected s prjs n is sv" by auto
  from collected_step [OF ok sv(2) snoc.prems(1,2)] obtain sv' where
    sv': "server_receive sv (message_datagram s prjs n i) = Some sv'" "collected s prjs n (is @ [i]) sv'" by blast
  then have "server_step sv (message_datagram s prjs n i) = Some sv'"
    using server_checks_wait [OF sv'(2)] snoc.prems(3) by (simp add: server_step_def)
  then show ?case using sv sv'(2) by (simp add: server_run_def iter_append)
qed

lemma server_run_decode:
  assumes ok: "sendable s prjs n" and buf: "length buf = 1024" and as: "angles_ok (prj_angles prjs)"
    and bins: "\<forall>pr \<in> set prjs. bins_ok (s_l s) (s_k s) (pixels s) {..<nat (s_l s * s_k s)} pr"
    and ids: "distinct is" "set is \<subseteq> {..<n + length prjs}" "first_rows n is" "length is = nat (s_l s)"
  shows "\<exists>sv. server_run (map (message_datagram s prjs n) is) (server_init buf) = Some sv \<and>
    sv_out sv = [pixels s] \<and> sv_nb_line sv = 0 \<and> sv_nb_prj sv = 0"
proof -
  have L: "0 < s_l s" using ok by (simp add: sendable_def support_geom_def)
  then have "is \<noteq> []" using ids(4) by auto
  then obtain js i where js: "is = js @ [i]" by (metis rev_exhaust)
  obtain sv where sv: "server_run (map (message_datagram s prjs n) js) (server_init buf) = Some sv"
      "collected s prjs n js sv"
    using server_run_wait [OF ok buf, of js] ids js by auto
  obtain sv1 where sv1: "server_receive sv (message_datagram s prjs n i) = Some sv1" "collected s prjs n is sv1"
    using collected_step [OF ok sv(2), of i] ids js by auto
  obtain sv2 where sv2: "server_decode sv1 = Some sv2" "sv_l sv2 = sv_l sv1" "sv_nb_line sv2 = 0"
      "sv_nb_prj sv2 = 0" "sv_out sv2 = [pixels s]"
    using server_decode_ok [OF ok sv1(2) as bins ids] by blast
  have "server_step sv (message_datagram s prjs n i) = Some sv2"
    using server_checks_decode [OF sv1(2) ids(4) L sv2(1-4)] sv1(1) by (simp add: server_step_def)
  then show ?thesis using sv(1) sv2 js by (simp add: server_run_def iter_append)
qed

lemma first_angles_geom:
  assumes "prjs_geom L K prjs" "prj_angles prjs = first_angles m" "m \<le> 3" "pr \<in> set prjs"
  shows "prj_geom L K pr" "\<bar>pr_p pr\<bar> \<le> 1" "pr_q pr = 1" "pr_size pr \<le> L + K - 1"
proof -
  show g: "prj_geom L K pr" using assms(1,4) by (simp add: prjs_geom_def)
  have "(pr_p pr, pr_q pr) \<in> set (prj_angles prjs)" using assms(4) by (auto simp: prj_angles_def)
  then have pq: "\<bar>pr_p pr\<bar> \<le> 1" "pr_q pr = 1" using first_angles(3) [OF assms(3)] assms(2) by auto
  then show "\<bar>pr_p pr\<bar> \<le> 1" "pr_q pr = 1" by auto
  have "0 < L" using assms(1) by (simp add: prjs_geom_def support_geom_def)
  then have "\<bar>pr_p pr\<bar> * (L - 1) \<le> 1 * (L - 1)" using pq(1) by (intro mult_right_mono) auto
  then show "pr_size pr \<le> L + K - 1" using g pq(2) by (simp add: prj_geom_def)
qed



theorem server_lost_row_undefined_witness:
  "server_decode (server_init [0, 0]\<lparr>sv_l := Some 2, sv_k := Some 1, sv_nb_line := 1,
     sv_lines := [None, Some \<lparr>num_line = 1, line_val = [7], line_size = 1\<rparr>]\<rparr>) = None"
  by (rule server_lost_row_undefined [of 0]) simp_all

end
