(* ===== verification/Dll.thy ===== *)
theory Dll imports Prelude_MPOLSR begin

text \<open>
  The doubly linked lists of \<open>ser_path_tc.c\<close> (hash chains, the node list, the two lists of every
  link) at the level of their pointers, and the proof that pushing, unlinking and searching as
  the code does it are \<open>Cons\<close>, \<open>remove1\<close> and \<open>List.find\<close> on the list of cells. The store is
  modelled on that abstraction.
\<close>

section \<open>The pointer operations\<close>

record dll =
  d_head :: "nat option"
  d_next :: "nat \<Rightarrow> nat option"
  d_prev :: "nat \<Rightarrow> nat option"

text \<open>\<open>x\<close> was cleared by \<open>memset\<close>: both its pointers are NULL.\<close>

definition dll_push :: "nat \<Rightarrow> dll \<Rightarrow> dll" where
  "dll_push x d =
     (let d = (case d_head d of
                 None \<Rightarrow> d
               | Some h \<Rightarrow> d\<lparr>d_prev := (d_prev d)(h := Some x), d_next := (d_next d)(x := Some h)\<rparr>)
      in d\<lparr>d_head := Some x\<rparr>)"

definition dll_unlink :: "nat \<Rightarrow> dll \<Rightarrow> dll" where
  "dll_unlink x d =
     (let d = (case d_prev d x of
                 None \<Rightarrow> d\<lparr>d_head := d_next d x\<rparr>
               | Some p \<Rightarrow> d\<lparr>d_next := (d_next d)(p := d_next d x)\<rparr>)
      in case d_next d x of
           None \<Rightarrow> d
         | Some n \<Rightarrow> d\<lparr>d_prev := (d_prev d)(n := d_prev d x)\<rparr>)"

text \<open>The search loop: from a cell on, the first cell that satisfies the test.\<close>

partial_function (option) dll_search :: "(nat \<Rightarrow> bool) \<Rightarrow> dll \<Rightarrow> nat option \<Rightarrow> nat option option" where
  "dll_search test d c =
     (case c of
        None \<Rightarrow> Some None
      | Some x \<Rightarrow> if test x then Some (Some x) else dll_search test d (d_next d x))"

declare dll_search.simps [code]

section \<open>The list of cells\<close>

text \<open>The cells from \<open>c\<close> on, the first one having \<open>p\<close> as predecessor.\<close>

fun dll_seg :: "dll \<Rightarrow> nat option \<Rightarrow> nat option \<Rightarrow> nat list \<Rightarrow> bool" where
  "dll_seg d p c [] \<longleftrightarrow> c = None"
| "dll_seg d p c (x # xs) \<longleftrightarrow> c = Some x \<and> d_prev d x = p \<and> dll_seg d (Some x) (d_next d x) xs"

definition dll_list :: "dll \<Rightarrow> nat list \<Rightarrow> bool" where
  "dll_list d xs \<longleftrightarrow> distinct xs \<and> dll_seg d None (d_head d) xs"

lemma dll_seg_cong:
  assumes "\<And>x. x \<in> set xs \<Longrightarrow> d_prev d' x = d_prev d x \<and> d_next d' x = d_next d x"
  shows "dll_seg d' p c xs = dll_seg d p c xs"
  using assms by (induction xs arbitrary: p c) auto

lemma dll_seg_head: "dll_seg d p c xs \<Longrightarrow> c = (case xs of [] \<Rightarrow> None | x # _ \<Rightarrow> Some x)"
  by (cases xs) auto

lemma dll_seg_last:
  assumes "dll_seg d p c (xs @ y # ys)" "xs \<noteq> []"
  shows "d_prev d y = Some (last xs) \<and> d_next d (last xs) = Some y"
  using assms(2,1) by (induction xs arbitrary: p c rule: list_nonempty_induct) auto

lemma dll_seg_next:
  "dll_seg d p c (xs @ y # ys) \<Longrightarrow> d_next d y = (case ys of [] \<Rightarrow> None | z # _ \<Rightarrow> Some z)"
  by (induction xs arbitrary: p c) (auto dest: dll_seg_head)

section \<open>Correctness of the operations\<close>

lemma dll_push_list:
  assumes "dll_list d xs" "x \<notin> set xs" "d_next d x = None" "d_prev d x = None"
  shows "dll_list (dll_push x d) (x # xs)"
proof (cases xs)
  case Nil
  then show ?thesis using assms by (simp add: dll_list_def dll_push_def)
next
  case (Cons h ys)
  let ?d = "d\<lparr>d_prev := (d_prev d)(h := Some x), d_next := (d_next d)(x := Some h), d_head := Some x\<rparr>"
  have h: "d_head d = Some h" "dll_seg d (Some h) (d_next d h) ys" "h \<notin> set ys" "distinct ys"
    using assms(1) Cons by (auto simp: dll_list_def)
  have "dll_push x d = ?d" using h(1) by (simp add: dll_push_def)
  moreover have "dll_seg ?d (Some h) (d_next d h) ys = dll_seg d (Some h) (d_next d h) ys"
    by (rule dll_seg_cong) (use h(3) assms(2) Cons in auto)
  ultimately show ?thesis using assms h Cons by (auto simp: dll_list_def)
qed

lemma dll_unlink_head:
  assumes "dll_list d (x # ys)"
  shows "dll_list (dll_unlink x d) ys"
proof -
  have x: "d_prev d x = None" "dll_seg d (Some x) (d_next d x) ys" "x \<notin> set ys" "distinct ys"
    using assms by (auto simp: dll_list_def)
  show ?thesis
  proof (cases ys)
    case Nil
    then show ?thesis using x by (simp add: dll_list_def dll_unlink_def)
  next
    case (Cons n zs)
    let ?d = "d\<lparr>d_head := Some n, d_prev := (d_prev d)(n := None)\<rparr>"
    have n: "d_next d x = Some n" "dll_seg d (Some n) (d_next d n) zs" using x(2) Cons by auto
    have "dll_seg ?d (Some n) (d_next d n) zs = dll_seg d (Some n) (d_next d n) zs"
      by (rule dll_seg_cong) (use x(4) Cons in auto)
    then show ?thesis using x n Cons by (simp add: dll_list_def dll_unlink_def)
  qed
qed

text \<open>Everything before the predecessor is untouched; the seam is the predecessor.\<close>

lemma dll_seg_unlink:
  assumes "dll_seg d p c (xs @ q # x # ys)" "distinct (xs @ q # x # ys)"
    and d': "d' = d\<lparr>d_next := (d_next d)(q := d_next d x),
        d_prev := (case d_next d x of None \<Rightarrow> d_prev d | Some n \<Rightarrow> (d_prev d)(n := Some q))\<rparr>"
  shows "dll_seg d' p c (xs @ q # ys)"
  using assms(1,2)
proof (induction xs arbitrary: p c)
  case Nil
  then have x: "c = Some q" "d_prev d q = p" "dll_seg d (Some x) (d_next d x) ys" by auto
  show ?case
  proof (cases ys)
    case Nil
    then show ?thesis using x by (simp add: d')
  next
    case (Cons n zs)
    then have n: "d_next d x = Some n" "dll_seg d (Some n) (d_next d n) zs" using x(3) by auto
    have "dll_seg d' (Some n) (d_next d n) zs = dll_seg d (Some n) (d_next d n) zs"
      by (rule dll_seg_cong) (use Nil.prems(2) Cons n(1) in \<open>auto simp: d'\<close>)
    then show ?thesis using x n Cons Nil.prems(2) by (simp add: d')
  qed
next
  case (Cons y xs)
  have "d_next d x \<noteq> Some y"
    using dll_seg_next [of d p c "y # xs @ [q]" x ys] Cons.prems by (auto split: list.splits)
  then have "d_prev d' y = d_prev d y" "d_next d' y = d_next d y"
    using Cons.prems(2) by (auto simp: d' split: option.splits)
  then show ?case using Cons by auto
qed

lemma dll_unlink_list:
  assumes "dll_list d xs" "x \<in> set xs"
  shows "dll_list (dll_unlink x d) (remove1 x xs)"
proof -
  obtain us ys where xs: "xs = us @ x # ys" "x \<notin> set us" using split_list_first [OF assms(2)] by blast
  have rm: "remove1 x xs = us @ ys" using xs by (simp add: remove1_append)
  show ?thesis
  proof (cases us rule: rev_cases)
    case Nil
    then show ?thesis using dll_unlink_head [of d x ys] assms(1) xs rm by simp
  next
    case (snoc vs q)
    have seg: "dll_seg d None (d_head d) (vs @ q # x # ys)" "distinct (vs @ q # x # ys)"
      using assms(1) xs snoc by (auto simp: dll_list_def)
    have pq: "d_prev d x = Some q"
      using dll_seg_last [of d None "d_head d" "vs @ [q]" x ys] seg by simp
    let ?d' = "d\<lparr>d_next := (d_next d)(q := d_next d x),
        d_prev := (case d_next d x of None \<Rightarrow> d_prev d | Some n \<Rightarrow> (d_prev d)(n := Some q))\<rparr>"
    have "q \<noteq> x" using seg(2) by auto
    then have "dll_unlink x d = ?d'"
      using pq by (cases "d_next d x") (simp_all add: dll_unlink_def)
    moreover have "dll_seg ?d' None (d_head d) (vs @ q # ys)"
      using dll_seg_unlink [OF seg refl] by simp
    ultimately show ?thesis using rm snoc seg(2) by (simp add: dll_list_def)
  qed
qed

lemma dll_search_seg: "dll_seg d p c xs \<Longrightarrow> dll_search test d c = Some (List.find test xs)"
proof (induction xs arbitrary: p c)
  case Nil
  then show ?case by (simp add: dll_search.simps)
next
  case (Cons x xs)
  then show ?case by (subst dll_search.simps) auto
qed

lemma dll_search_list: "dll_list d xs \<Longrightarrow> dll_search test d (d_head d) = Some (List.find test xs)"
  using dll_search_seg by (auto simp: dll_list_def)

section \<open>The interface\<close>

locale linked_list =
  fixes holds :: "'d \<Rightarrow> nat list \<Rightarrow> bool" and fresh :: "nat \<Rightarrow> 'd \<Rightarrow> bool"
    and push :: "nat \<Rightarrow> 'd \<Rightarrow> 'd" and unlink :: "nat \<Rightarrow> 'd \<Rightarrow> 'd"
    and search :: "(nat \<Rightarrow> bool) \<Rightarrow> 'd \<Rightarrow> nat option option"
  assumes push_law: "holds d xs \<Longrightarrow> x \<notin> set xs \<Longrightarrow> fresh x d \<Longrightarrow> holds (push x d) (x # xs)"
    and unlink_law: "holds d xs \<Longrightarrow> x \<in> set xs \<Longrightarrow> holds (unlink x d) (remove1 x xs)"
    and search_law: "holds d xs \<Longrightarrow> search P d = Some (List.find P xs)"
    and distinct_law: "holds d xs \<Longrightarrow> distinct xs"
begin

lemma push_unlink: "holds d xs \<Longrightarrow> x \<notin> set xs \<Longrightarrow> fresh x d \<Longrightarrow> holds (unlink x (push x d)) xs"
  using unlink_law [OF push_law, of d xs x x] by simp

lemma unlink_all:
  assumes "holds d xs" "set ys \<subseteq> set xs" "distinct ys"
  shows "holds (fold unlink ys d) (filter (\<lambda>x. x \<notin> set ys) xs)"
  using assms
proof (induction ys arbitrary: d xs)
  case Nil
  then show ?case by simp
next
  case (Cons y ys)
  have "remove1 y xs = filter (\<lambda>x. x \<noteq> y) xs"
    using distinct_law [OF Cons.prems(1)]
    by (simp add: distinct_remove1_removeAll removeAll_filter_not_eq) (rule filter_cong, auto)
  then have "holds (unlink y d) (filter (\<lambda>x. x \<noteq> y) xs)" using unlink_law [OF Cons.prems(1), of y] Cons.prems(2) by simp
  then have "holds (fold unlink ys (unlink y d)) (filter (\<lambda>x. x \<notin> set ys) (filter (\<lambda>x. x \<noteq> y) xs))"
    by (rule Cons.IH) (use Cons.prems in auto)
  moreover have "filter (\<lambda>x. x \<notin> set ys) (filter (\<lambda>x. x \<noteq> y) xs) = filter (\<lambda>x. x \<notin> set (y # ys)) xs"
    by (auto intro: filter_cong)
  ultimately show ?case by simp
qed

lemma search_pushed:
  assumes "holds d xs" "x \<notin> set xs" "fresh x d"
  shows "search P (push x d) = (if P x then Some (Some x) else search P d)"
  using search_law [OF push_law [OF assms]] search_law [OF assms(1)] by simp

end

interpretation dll_impl: linked_list dll_list "\<lambda>x d. d_next d x = None \<and> d_prev d x = None"
  dll_push dll_unlink "\<lambda>P d. dll_search P d (d_head d)"
  by unfold_locales (simp_all add: dll_push_list dll_unlink_list dll_search_list, simp add: dll_list_def)

text \<open>
  The pointer updates that take cells out of a doubly linked list are exact: unlinking any
  distinct cells of a list, one after the other, leaves the list of the remaining cells in their order, with
  every forward and backward pointer consistent.
\<close>

theorem unlink_cells:
  assumes "dll_list d xs" "set ys \<subseteq> set xs" "distinct ys"
  shows "dll_list (fold dll_unlink ys d) (filter (\<lambda>x. x \<notin> set ys) xs)"
  by (rule dll_impl.unlink_all [OF assms])

theorem unlink_cells_witness:
  "dll_list (fold dll_unlink [2] (dll_push 1 (dll_push 2 (dll_push 3
     \<lparr>d_head = None, d_next = (\<lambda>_. None), d_prev = (\<lambda>_. None)\<rparr>)))) (filter (\<lambda>x. x \<notin> set [2]) [1, 2, 3])"
  by (rule unlink_cells) (simp_all add: dll_list_def dll_push_def Let_def)

text \<open>
  The search loop over a list returns the first cell that satisfies the test, and a cell
  pushed at the head is met first; the loop ends on every well-formed list.
\<close>

theorem search_pushed_cell:
  assumes "dll_list d xs" "x \<notin> set xs" "d_next d x = None" "d_prev d x = None"
  shows "dll_search P (dll_push x d) (d_head (dll_push x d)) = Some (List.find P (x # xs))"
  using dll_impl.search_law [OF dll_impl.push_law [OF assms(1,2)]] assms(3,4) by blast

theorem search_pushed_cell_witness:
  "dll_search (\<lambda>y. y = 3) (dll_push 1 (dll_push 3 \<lparr>d_head = None, d_next = (\<lambda>_. None), d_prev = (\<lambda>_. None)\<rparr>))
     (d_head (dll_push 1 (dll_push 3 \<lparr>d_head = None, d_next = (\<lambda>_. None), d_prev = (\<lambda>_. None)\<rparr>))) =
   Some (List.find (\<lambda>y. y = 3) (1 # [3]))"
  by (rule search_pushed_cell) (simp_all add: dll_list_def dll_push_def Let_def)

end
