(* ===== verification/Tc_Store.thy ===== *)
theory Tc_Store imports Prelude_MPOLSR begin

text \<open>
  The topology store of the kernel module (\<open>ser_path_tc.c\<close>): nodes with their addresses, links
  with their costs, the links of the local machine and the path cache.

  Structures that the code allocates and links by pointers are named by a number and kept in a
  map; a number outside the map is freed memory, and following it is undefined behaviour
  (\<open>None\<close>). The doubly linked lists of the code are lists of such numbers here; theory
  \<open>Dll\<close> shows that the pointer updates of the code implement the list operations used
  below. A \<open>olsr_node_addr\<close> is only ever reached through its hash chain and through one slot of its
  node, so it is kept by value. Every operation runs under the write lock, hence as one
  step. The outcome of an allocation is an argument.
\<close>

section \<open>Data\<close>

record node_addr =
  na_ip :: ip_addr
  na_pos :: int
  na_node :: nat

record tc_node =
  nd_addr :: "ip_addr option list"
  nd_src :: "nat list"
  nd_dst :: "nat list"
  nd_cost :: ulong
  nd_path :: "nat option"
  nd_hops :: int
  nd_done :: bool

record tc_link =
  lk_src :: nat
  lk_dst :: nat
  lk_cost :: ulong
  lk_dcost :: ulong
  lk_dcost_p1 :: ulong

record local_link =
  ll_dst :: ip_addr
  ll_dst_alias :: ip_addr
  ll_local :: ip_addr
  ll_mask :: ip_addr

record olsr_path =
  ph_ips :: "ip_addr list"
  ph_hops :: int

text \<open>\<open>pb_paths\<close> is the circular list of a cache entry, from the current path on.\<close>

record path_buffer =
  pb_src :: ip_addr
  pb_dst :: ip_addr
  pb_paths :: "olsr_path list"

record tc_state =
  t_hash :: "byte \<Rightarrow> node_addr list"
  t_nodes :: "nat \<rightharpoonup> tc_node"
  t_list :: "nat list"
  t_links :: "nat \<rightharpoonup> tc_link"
  t_local_addr :: "ip_addr list"
  t_local_mask :: "ip_addr list"
  t_local_links :: "local_link list"
  t_cache :: "path_buffer list"
  t_next :: nat

definition max_alias :: nat where "max_alias = 5"

text \<open>The globals of a freshly loaded module.\<close>

definition tc_empty :: tc_state where
  "tc_empty = \<lparr>t_hash = (\<lambda>_. []), t_nodes = Map.empty, t_list = [], t_links = Map.empty,
     t_local_addr = replicate max_alias 0, t_local_mask = replicate max_alias 0,
     t_local_links = [], t_cache = [], t_next = 0\<rparr>"

text \<open>\<open>memset (new, 0, sizeof)\<close>.\<close>

definition blank_node :: tc_node where
  "blank_node = \<lparr>nd_addr = replicate max_alias None, nd_src = [], nd_dst = [], nd_cost = 0,
     nd_path = None, nd_hops = 0, nd_done = False\<rparr>"

definition tc_init_data :: "tc_state \<Rightarrow> tc_state" where
  "tc_init_data s = s\<lparr>t_hash := (\<lambda>_. []), t_local_addr := replicate max_alias 0,
     t_local_mask := replicate max_alias 0\<rparr>"

section \<open>Addresses\<close>

text \<open>The first byte in memory of a little-endian address.\<close>

definition get_hash_key :: "ip_addr \<Rightarrow> byte" where
  "get_hash_key ip = ucast ip"

definition free_slot :: "ip_addr option list \<Rightarrow> nat option" where
  "free_slot tab = List.find (\<lambda>i. rd tab (int i) = Some None) [1..<max_alias]"

text \<open>The flag of the result tells success from \<open>-1\<close>.\<close>

definition tc_add_node_addr :: "nat \<Rightarrow> ip_addr \<Rightarrow> bool \<Rightarrow> tc_state \<Rightarrow> (tc_state \<times> bool) option" where
  "tc_add_node_addr nid ip main_addr s = do {
     nd \<leftarrow> t_nodes s nid;
     case (if main_addr then Some 0 else free_slot (nd_addr nd)) of
       None \<Rightarrow> Some (s, False)
     | Some pos \<Rightarrow> do {
         tab \<leftarrow> wr (nd_addr nd) (int pos) (Some ip);
         let k = get_hash_key ip;
         Some (s\<lparr>t_nodes := (t_nodes s)(nid \<mapsto> nd\<lparr>nd_addr := tab\<rparr>),
                 t_hash := (t_hash s)(k := \<lparr>na_ip = ip, na_pos = int pos, na_node = nid\<rparr> # t_hash s k)\<rparr>, True)
       }
   }"

definition find_addr :: "ip_addr \<Rightarrow> tc_state \<Rightarrow> node_addr option" where
  "find_addr ip s = List.find (\<lambda>e. na_ip e = ip) (t_hash s (get_hash_key ip))"

definition tc_rmv_node_addr :: "ip_addr \<Rightarrow> tc_state \<Rightarrow> tc_state option" where
  "tc_rmv_node_addr ip s =
     (case find_addr ip s of
        None \<Rightarrow> Some s
      | Some e \<Rightarrow> do {
          let k = get_hash_key ip;
          nd \<leftarrow> t_nodes s (na_node e);
          tab \<leftarrow> wr (nd_addr nd) (na_pos e) None;
          Some (s\<lparr>t_hash := (t_hash s)(k := remove1 e (t_hash s k)),
                  t_nodes := (t_nodes s)(na_node e \<mapsto> nd\<lparr>nd_addr := tab\<rparr>)\<rparr>)
        })"

definition tc_get_node :: "ip_addr \<Rightarrow> tc_state \<Rightarrow> nat option" where
  "tc_get_node ip s = map_option na_node (find_addr ip s)"

text \<open>\<open>node->addr_tab[0]->addr_ip\<close>, for a node that may be freed or without main address.\<close>

definition main_addr :: "tc_state \<Rightarrow> nat \<Rightarrow> ip_addr option" where
  "main_addr s nid = do { nd \<leftarrow> t_nodes s nid; a \<leftarrow> rd (nd_addr nd) 0; a }"

section \<open>Local links\<close>

text \<open>The first local interface, and on it the first address of the node, on a common network.\<close>

definition same_network :: "ip_addr list \<Rightarrow> ip_addr list \<Rightarrow> ip_addr option list \<Rightarrow> nat \<times> nat \<Rightarrow> bool" where
  "same_network addrs masks tab = (\<lambda>(i, j).
     case (rd addrs (int i), rd masks (int i), rd tab (int j)) of
       (Some a, Some m, Some (Some b)) \<Rightarrow> a AND m \<noteq> 0 \<and> b AND m = a AND m
     | _ \<Rightarrow> False)"

definition tc_update_local_link :: "nat \<Rightarrow> local_link \<Rightarrow> tc_state \<Rightarrow> local_link option" where
  "tc_update_local_link nid ll s = do {
     nd \<leftarrow> t_nodes s nid;
     ip \<leftarrow> main_addr s nid;
     let ll = ll\<lparr>ll_dst := ip, ll_dst_alias := 0, ll_local := 0, ll_mask := 0\<rparr>;
     case List.find (same_network (t_local_addr s) (t_local_mask s) (nd_addr nd))
            (List.product [0..<max_alias] [0..<max_alias]) of
       None \<Rightarrow> Some ll
     | Some (i, j) \<Rightarrow> do {
         a \<leftarrow> rd (t_local_addr s) (int i);
         m \<leftarrow> rd (t_local_mask s) (int i);
         b \<leftarrow> rd (nd_addr nd) (int j);
         b \<leftarrow> b;
         Some (ll\<lparr>ll_local := a, ll_mask := m, ll_dst_alias := b\<rparr>)
       }
   }"

text \<open>Updating the first local link that reaches the node.\<close>

fun refresh_local_links :: "ip_addr \<Rightarrow> nat \<Rightarrow> tc_state \<Rightarrow> local_link list \<Rightarrow> local_link list option" where
  "refresh_local_links ip nid s [] = Some []"
| "refresh_local_links ip nid s (ll # lls) =
     (if ll_dst ll = ip
      then map_option (\<lambda>ll'. ll' # lls) (tc_update_local_link nid ll s)
      else map_option (Cons ll) (refresh_local_links ip nid s lls))"

text \<open>Unlinking the first local link that reaches an address.\<close>

fun remove_local_link :: "ip_addr \<Rightarrow> local_link list \<Rightarrow> local_link list" where
  "remove_local_link ip [] = []"
| "remove_local_link ip (ll # lls) =
     (if ll_dst ll = ip then lls else ll # remove_local_link ip lls)"

section \<open>Nodes\<close>

definition tc_add_node :: "bool \<Rightarrow> bool \<Rightarrow> ip_addr \<Rightarrow> tc_state \<Rightarrow> tc_state option" where
  "tc_add_node mem1 mem2 ip s =
     (if \<not> mem1 \<or> \<not> mem2 then Some s
      else do {
        let nid = t_next s;
        (s', ok) \<leftarrow> tc_add_node_addr nid ip True
          (s\<lparr>t_nodes := (t_nodes s)(nid \<mapsto> blank_node), t_next := nid + 1, t_cache := []\<rparr>);
        Some (if ok then s'\<lparr>t_list := nid # t_list s'\<rparr> else s'\<lparr>t_nodes := (t_nodes s')(nid := None)\<rparr>)
      })"

definition unlink_dst :: "nat \<Rightarrow> tc_state \<Rightarrow> tc_state option" where
  "unlink_dst lid s = do {
     lk \<leftarrow> t_links s lid;
     nd \<leftarrow> t_nodes s (lk_dst lk);
     Some (s\<lparr>t_nodes := (t_nodes s)(lk_dst lk \<mapsto> nd\<lparr>nd_dst := remove1 lid (nd_dst nd)\<rparr>)\<rparr>)
   }"

definition unlink_src :: "nat \<Rightarrow> tc_state \<Rightarrow> tc_state option" where
  "unlink_src lid s = do {
     lk \<leftarrow> t_links s lid;
     nd \<leftarrow> t_nodes s (lk_src lk);
     Some (s\<lparr>t_nodes := (t_nodes s)(lk_src lk \<mapsto> nd\<lparr>nd_src := remove1 lid (nd_src nd)\<rparr>)\<rparr>)
   }"

text \<open>Freeing a link twice is undefined.\<close>

definition free_link :: "nat \<Rightarrow> tc_state \<Rightarrow> tc_state option" where
  "free_link lid s = do { _ \<leftarrow> t_links s lid; Some (s\<lparr>t_links := (t_links s)(lid := None)\<rparr>) }"

text \<open>The two unlink loops of a node, followed by the two loops that free its links.\<close>

definition drop_links :: "nat \<Rightarrow> tc_state \<Rightarrow> tc_state option" where
  "drop_links n s = do {
     nd \<leftarrow> t_nodes s n;
     s \<leftarrow> iter (nd_src nd) unlink_dst s;
     nd \<leftarrow> t_nodes s n;
     s \<leftarrow> iter (nd_dst nd) unlink_src s;
     nd \<leftarrow> t_nodes s n;
     s \<leftarrow> iter (nd_src nd) free_link s;
     s \<leftarrow> iter (nd_dst nd) free_link s;
     Some (s\<lparr>t_nodes := (t_nodes s)(n := None)\<rparr>)
   }"

definition remove_addr_slot :: "nat \<Rightarrow> nat \<Rightarrow> tc_state \<Rightarrow> tc_state option" where
  "remove_addr_slot nid i s = do {
     nd \<leftarrow> t_nodes s nid;
     a \<leftarrow> rd (nd_addr nd) (int i);
     case a of None \<Rightarrow> Some s | Some ip \<Rightarrow> tc_rmv_node_addr ip s
   }"

definition tc_remove_node :: "ip_addr \<Rightarrow> tc_state \<Rightarrow> tc_state option" where
  "tc_remove_node ip s = do {
     nid \<leftarrow> tc_get_node ip s;
     _ \<leftarrow> t_nodes s nid;
     here \<leftarrow> rd (t_local_addr s) 0;
     let s = s\<lparr>t_local_links := (if ip = here then [] else remove_local_link ip (t_local_links s)),
               t_cache := [], t_list := remove1 nid (t_list s)\<rparr>;
     s \<leftarrow> iter [0..<max_alias] (remove_addr_slot nid) s;
     drop_links nid s
   }"

definition free_node :: "nat \<Rightarrow> tc_state \<Rightarrow> tc_state option" where
  "free_node nid s = do {
     nd \<leftarrow> t_nodes s nid;
     s \<leftarrow> iter (nd_src nd) free_link s;
     Some (s\<lparr>t_nodes := (t_nodes s)(nid := None)\<rparr>)
   }"

definition tc_free_data :: "tc_state \<Rightarrow> tc_state option" where
  "tc_free_data s = do {
     s \<leftarrow> iter (t_list s) free_node s;
     Some (s\<lparr>t_list := [], t_hash := (\<lambda>_. []), t_cache := [], t_local_links := [],
             t_local_addr := replicate max_alias 0, t_local_mask := replicate max_alias 0\<rparr>)
   }"

section \<open>Aliases and local addresses\<close>

text \<open>The result of \<open>tc_add_node_addr\<close> is ignored: an alias that does not fit is leaked.\<close>

definition tc_add_alias :: "bool \<Rightarrow> ip_addr \<Rightarrow> ip_addr \<Rightarrow> tc_state \<Rightarrow> tc_state option" where
  "tc_add_alias mem ip alias s =
     (if \<not> mem then Some s
      else case tc_get_node ip s of
        None \<Rightarrow> Some s
      | Some nid \<Rightarrow> do {
          (s, _) \<leftarrow> tc_add_node_addr nid alias False s;
          lls \<leftarrow> refresh_local_links ip nid s (t_local_links s);
          Some (s\<lparr>t_local_links := lls\<rparr>)
        })"

definition tc_remove_alias :: "ip_addr \<Rightarrow> ip_addr \<Rightarrow> tc_state \<Rightarrow> tc_state option" where
  "tc_remove_alias ip alias s =
     (case tc_get_node ip s of
        None \<Rightarrow> Some s
      | Some nid \<Rightarrow> do {
          s \<leftarrow> tc_rmv_node_addr alias s;
          lls \<leftarrow> refresh_local_links ip nid s (t_local_links s);
          Some (s\<lparr>t_local_links := lls\<rparr>)
        })"

definition tc_set_local_addr :: "ip_addr \<Rightarrow> ip_addr \<Rightarrow> tc_state \<Rightarrow> tc_state option" where
  "tc_set_local_addr ip msk s = do {
     as \<leftarrow> wr (t_local_addr s) 0 ip;
     ms \<leftarrow> wr (t_local_mask s) 0 msk;
     Some (s\<lparr>t_local_addr := as, t_local_mask := ms\<rparr>)
   }"

definition tc_set_local_alias :: "ip_addr \<Rightarrow> ip_addr \<Rightarrow> tc_state \<Rightarrow> tc_state option" where
  "tc_set_local_alias ip msk s =
     (case List.find (\<lambda>i. rd (t_local_addr s) (int i) = Some 0) [1..<max_alias] of
        None \<Rightarrow> Some s
      | Some i \<Rightarrow> do {
          as \<leftarrow> wr (t_local_addr s) (int i) ip;
          ms \<leftarrow> wr (t_local_mask s) (int i) msk;
          Some (s\<lparr>t_local_addr := as, t_local_mask := ms\<rparr>)
        })"

section \<open>Links\<close>

text \<open>Once the two nodes are found: the local link, then the link in both lists.\<close>

definition insert_link :: "nat \<Rightarrow> nat \<Rightarrow> int \<Rightarrow> bool \<Rightarrow> tc_state \<Rightarrow> tc_state option" where
  "insert_link src dst cost is_local s = do {
     lls \<leftarrow> (if is_local
             then do {
               ll \<leftarrow> tc_update_local_link dst \<lparr>ll_dst = 0, ll_dst_alias = 0, ll_local = 0, ll_mask = 0\<rparr> s;
               Some (ll # t_local_links s) }
             else Some (t_local_links s));
     let lid = t_next s;
     ns \<leftarrow> t_nodes s src;
     let s = s\<lparr>t_local_links := lls, t_next := lid + 1,
               t_links := (t_links s)(lid \<mapsto> \<lparr>lk_src = src, lk_dst = dst, lk_cost = of_int cost,
                                              lk_dcost = 0, lk_dcost_p1 = 0\<rparr>),
               t_nodes := (t_nodes s)(src \<mapsto> ns\<lparr>nd_src := lid # nd_src ns\<rparr>)\<rparr>;
     nd \<leftarrow> t_nodes s dst;
     Some (s\<lparr>t_nodes := (t_nodes s)(dst \<mapsto> nd\<lparr>nd_dst := lid # nd_dst nd\<rparr>)\<rparr>)
   }"

definition tc_add_link :: "bool \<Rightarrow> bool \<Rightarrow> ip_addr \<Rightarrow> ip_addr \<Rightarrow> int \<Rightarrow> tc_state \<Rightarrow> tc_state option" where
  "tc_add_link mem1 mem2 ip_src ip_dst cost s =
     (if \<not> mem1 then Some s
      else do {
        here \<leftarrow> rd (t_local_addr s) 0;
        if ip_src = here \<and> \<not> mem2 then Some s
        else do {
          let s = s\<lparr>t_cache := []\<rparr>;
          case (tc_get_node ip_src s, tc_get_node ip_dst s) of
            (Some src, Some dst) \<Rightarrow> insert_link src dst cost (ip_src = here) s
          | _ \<Rightarrow> Some s
        }
      })"

text \<open>The first link of the list whose destination has the main address \<open>ip\<close>.\<close>

fun find_link :: "tc_state \<Rightarrow> ip_addr \<Rightarrow> nat list \<Rightarrow> nat option option" where
  "find_link s ip [] = Some None"
| "find_link s ip (lid # lids) = do {
     lk \<leftarrow> t_links s lid;
     a \<leftarrow> main_addr s (lk_dst lk);
     if a = ip then Some (Some lid) else find_link s ip lids
   }"

definition tc_remove_link :: "ip_addr \<Rightarrow> ip_addr \<Rightarrow> tc_state \<Rightarrow> tc_state option" where
  "tc_remove_link ip_src ip_dst s = do {
     let s = s\<lparr>t_cache := []\<rparr>;
     case tc_get_node ip_src s of
       None \<Rightarrow> Some s
     | Some src \<Rightarrow> do {
         ns \<leftarrow> t_nodes s src;
         l \<leftarrow> find_link s ip_dst (nd_src ns);
         case l of
           None \<Rightarrow> Some s
         | Some lid \<Rightarrow> do {
             s \<leftarrow> unlink_dst lid s;
             s \<leftarrow> unlink_src lid s;
             here \<leftarrow> rd (t_local_addr s) 0;
             s \<leftarrow> free_link lid s;
             Some (s\<lparr>t_local_links := (if ip_src = here then remove_local_link ip_dst (t_local_links s)
                                       else t_local_links s)\<rparr>)
           }
       }
   }"

end
