(* ===== verification/Tc_Dijkstra.thy ===== *)
theory Tc_Dijkstra imports Tc_Store begin

text \<open>
  Route computation of the kernel module (\<open>ser_path_djk.c\<close>): \<open>dijkstra\<close> on the topology store and
  \<open>tc_k_dijstra\<close>, which runs it repeatedly and penalises the links of the paths it found, so that the next path
  avoids them. The working list of the code (\<open>dijkstra_list\<close>) is a list here; a cost is a
  32-bit word with \<open>-1\<close> for unreachable.
\<close>

section \<open>Single source\<close>

definition no_cost :: ulong where "no_cost = - 1"

text \<open>The loop that resets every node and builds the list of nodes to process.\<close>

definition djk_init_node :: "ip_addr \<Rightarrow> nat \<Rightarrow> tc_state \<times> nat list \<Rightarrow> (tc_state \<times> nat list) option" where
  "djk_init_node src n = (\<lambda>(s, work). do {
     nd \<leftarrow> t_nodes s n;
     ip \<leftarrow> main_addr s n;
     Some (s\<lparr>t_nodes := (t_nodes s)(n \<mapsto> nd\<lparr>nd_done := False, nd_path := None,
             nd_cost := (if ip = src then 0 else no_cost)\<rparr>)\<rparr>, n # work)
   })"

definition djk_init :: "ip_addr \<Rightarrow> tc_state \<Rightarrow> (tc_state \<times> nat list) option" where
  "djk_init src s = iter (t_list s) (djk_init_node src) (s, [])"

text \<open>The scan for the first node of least cost below \<open>min_cost\<close>.\<close>

fun scan_min :: "tc_state \<Rightarrow> ulong \<Rightarrow> nat option \<Rightarrow> nat list \<Rightarrow> nat option option" where
  "scan_min s min_cost best [] = Some best"
| "scan_min s min_cost best (n # ns) = do {
     nd \<leftarrow> t_nodes s n;
     if nd_cost nd < min_cost then scan_min s (nd_cost nd) (Some n) ns
     else scan_min s min_cost best ns
   }"

text \<open>Relaxing one link that leaves \<open>u\<close>.\<close>

definition djk_relax :: "nat \<Rightarrow> nat \<Rightarrow> tc_state \<Rightarrow> tc_state option" where
  "djk_relax u l s = do {
     lk \<leftarrow> t_links s l;
     nu \<leftarrow> t_nodes s u;
     nv \<leftarrow> t_nodes s (lk_dst lk);
     let c = nd_cost nu + lk_dcost lk;
     Some (if \<not> nd_done nv \<and> c < nd_cost nv
           then s\<lparr>t_nodes := (t_nodes s)(lk_dst lk \<mapsto>
                    nv\<lparr>nd_cost := c, nd_path := Some u, nd_hops := nd_hops nu + 1\<rparr>)\<rparr>
           else s)
   }"

definition djk_process :: "nat \<Rightarrow> tc_state \<Rightarrow> tc_state option" where
  "djk_process u s = do {
     nu \<leftarrow> t_nodes s u;
     iter (nd_src nu) (djk_relax u) (s\<lparr>t_nodes := (t_nodes s)(u \<mapsto> nu\<lparr>nd_done := True\<rparr>)\<rparr>)
   }"

lemma scan_min_member:
  "scan_min s c best ns = Some (Some u) \<Longrightarrow> u \<in> set ns \<or> best = Some u"
  by (induction ns arbitrary: c best) (auto simp: bind_eq_Some_conv split: if_splits)

text \<open>The main loop: every round takes one node off the list.\<close>

function djk_loop :: "nat list \<Rightarrow> tc_state \<Rightarrow> tc_state option" where
  "djk_loop work s =
     (if work = [] then Some s
      else case scan_min s no_cost None work of
        None \<Rightarrow> None
      | Some None \<Rightarrow> Some s
      | Some (Some u) \<Rightarrow>
          (case djk_process u s of
             None \<Rightarrow> None
           | Some s' \<Rightarrow> djk_loop (remove1 u work) s'))"
  by pat_completeness auto
termination
proof (relation "measure (\<lambda>(work, s). length work)")
  fix work s b u s'
  assume "scan_min s no_cost None work = Some b" "b = Some u"
  then have "u \<in> set work" using scan_min_member by fastforce
  then show "((remove1 u work, s'), work, s) \<in> measure (\<lambda>(work, s). length work)"
    by (auto simp: length_remove1 intro!: diff_less length_pos_if_in_set)
qed simp

declare djk_loop.simps [simp del]

definition dijkstra :: "ip_addr \<Rightarrow> tc_state \<Rightarrow> tc_state option" where
  "dijkstra src s = do { (s, work) \<leftarrow> djk_init src s; djk_loop work s }"

section \<open>Several paths\<close>

record djk_config =
  cf_path :: int
  cf_fp :: int
  cf_fe :: int

definition update_link :: "(tc_link \<Rightarrow> tc_link) \<Rightarrow> nat \<Rightarrow> tc_state \<Rightarrow> tc_state option" where
  "update_link f l s = do { lk \<leftarrow> t_links s l; Some (s\<lparr>t_links := (t_links s)(l \<mapsto> f lk)\<rparr>) }"

text \<open>A loop over all links, node by node.\<close>

definition update_all_links :: "(tc_link \<Rightarrow> tc_link) \<Rightarrow> tc_state \<Rightarrow> tc_state option" where
  "update_all_links f s =
     iter (t_list s) (\<lambda>n s. do { nd \<leftarrow> t_nodes s n; iter (nd_src nd) (update_link f) s }) s"

definition init_costs :: "tc_link \<Rightarrow> tc_link" where
  "init_costs lk = lk\<lparr>lk_dcost := lk_cost lk, lk_dcost_p1 := lk_cost lk\<rparr>"

definition commit_costs :: "tc_link \<Rightarrow> tc_link" where
  "commit_costs lk = lk\<lparr>lk_dcost := lk_dcost_p1 lk\<rparr>"

definition penalty :: "int \<Rightarrow> tc_link \<Rightarrow> tc_link" where
  "penalty f lk = lk\<lparr>lk_dcost_p1 := lk_dcost lk * of_int f\<rparr>"

text \<open>The first link of a list that leads to a node.\<close>

fun first_link_to :: "tc_state \<Rightarrow> nat \<Rightarrow> nat list \<Rightarrow> nat option option" where
  "first_link_to s n [] = Some None"
| "first_link_to s n (l # ls) = do {
     lk \<leftarrow> t_links s l;
     if lk_dst lk = n then Some (Some l) else first_link_to s n ls
   }"

text \<open>
  Penalties for the step from \<open>n\<close> to \<open>v\<close> of a path: the links into \<open>v\<close>, those from \<open>n\<close> more than the
  others, and one link back from \<open>v\<close> to \<open>n\<close>.
\<close>

definition penalise_step :: "djk_config \<Rightarrow> nat \<Rightarrow> nat \<Rightarrow> tc_state \<Rightarrow> tc_state option" where
  "penalise_step cf n v s = do {
     nv \<leftarrow> t_nodes s v;
     s \<leftarrow> iter (nd_dst nv) (\<lambda>l s. do {
       lk \<leftarrow> t_links s l;
       update_link (penalty (if lk_src lk = n then cf_fp cf else cf_fe cf)) l s }) s;
     back \<leftarrow> first_link_to s n (nd_src nv);
     case back of
       None \<Rightarrow> Some s
     | Some l \<Rightarrow> update_link (penalty (cf_fp cf)) l s
   }"

text \<open>
  The walk from the destination back to the source, writing the path from its end; it does not
  return if the pointers run in a circle.
\<close>

partial_function (option) extract_path ::
  "djk_config \<Rightarrow> nat \<Rightarrow> nat option \<Rightarrow> int \<Rightarrow> ip_addr list \<Rightarrow> tc_state \<Rightarrow> (ip_addr list \<times> tc_state) option" where
  "extract_path cf n prev i buff s = do {
     nd \<leftarrow> t_nodes s n;
     buff' \<leftarrow> (if nd_path nd \<noteq> None then do { ip \<leftarrow> main_addr s n; wr buff i ip } else Some buff);
     s' \<leftarrow> (case prev of None \<Rightarrow> Some s | Some v \<Rightarrow> penalise_step cf n v s);
     case nd_path nd of
       None \<Rightarrow> Some (buff', s')
     | Some u \<Rightarrow> extract_path cf u (Some n) (i - 1) buff' s'
   }"

declare extract_path.simps [code]

text \<open>Inserting a path in the circular list of the cache entry, behind the current one.\<close>

fun insert_path :: "olsr_path \<Rightarrow> olsr_path list \<Rightarrow> olsr_path list" where
  "insert_path p [] = [p]"
| "insert_path p (q # qs) = q # p # qs"

text \<open>
  The loop over the paths. The two flags of a round are its allocations; the result is true when the
  loop ran to its end.
\<close>

fun k_paths :: "djk_config \<Rightarrow> (nat \<Rightarrow> bool \<times> bool) \<Rightarrow> ip_addr \<Rightarrow> nat \<Rightarrow> nat \<Rightarrow> nat \<Rightarrow> olsr_path list \<Rightarrow> tc_state \<Rightarrow>
    (bool \<times> olsr_path list \<times> tc_state) option" where
  "k_paths cf mem src dst i 0 paths s = Some (True, paths, s)"
| "k_paths cf mem src dst i (Suc k) paths s = do {
     s \<leftarrow> dijkstra src s;
     nd \<leftarrow> t_nodes s dst;
     if nd_cost nd = no_cost \<or> \<not> fst (mem i) \<or> \<not> snd (mem i) then Some (False, paths, s)
     else do {
       (ips, s) \<leftarrow> extract_path cf dst None (nd_hops nd - 1) (replicate (nat (nd_hops nd)) 0) s;
       s \<leftarrow> update_all_links commit_costs s;
       k_paths cf mem src dst (Suc i) k (insert_path \<lparr>ph_ips = ips, ph_hops = nd_hops nd\<rparr> paths) s
     }
   }"

text \<open>
  The entry is put in the cache first and stays there whatever happens; the result is the first
  path, or NULL when a round failed.
\<close>

definition tc_k_dijstra ::
  "djk_config \<Rightarrow> bool \<Rightarrow> (nat \<Rightarrow> bool \<times> bool) \<Rightarrow> ip_addr \<Rightarrow> ip_addr \<Rightarrow> tc_state \<Rightarrow> (olsr_path option \<times> tc_state) option" where
  "tc_k_dijstra cf mem1 mem src dst s =
     (if \<not> mem1 then Some (None, s)
      else case tc_get_node dst s of
        None \<Rightarrow> Some (None, s\<lparr>t_cache := \<lparr>pb_src = src, pb_dst = dst, pb_paths = []\<rparr> # t_cache s\<rparr>)
      | Some n \<Rightarrow> do {
          s \<leftarrow> update_all_links init_costs s;
          (ok, paths, s) \<leftarrow> k_paths cf mem src n 0 (nat (cf_path cf)) [] s;
          let first = (if ok then (case paths of [] \<Rightarrow> None | p # _ \<Rightarrow> Some p) else None);
          Some (first, s\<lparr>t_cache := \<lparr>pb_src = src, pb_dst = dst, pb_paths = paths\<rparr> # t_cache s\<rparr>)
        })"

end
