(* ===== verification/Tc_Invariant.thy ===== *)
theory Tc_Invariant imports Tc_Store begin

text \<open>
  The well-formedness of the topology store and what every operation does to it: the hash
  chains and the address tables of the nodes describe one finite map from addresses to nodes, and the
  two lists of every node hold exactly the live links that leave and reach it.
\<close>

section \<open>Views\<close>

definition addrs :: "tc_state \<Rightarrow> nat \<Rightarrow> ip_addr option list option" where
  "addrs s n = map_option nd_addr (t_nodes s n)"

definition srcs :: "tc_state \<Rightarrow> nat \<Rightarrow> nat list option" where
  "srcs s n = map_option nd_src (t_nodes s n)"

definition dsts :: "tc_state \<Rightarrow> nat \<Rightarrow> nat list option" where
  "dsts s n = map_option nd_dst (t_nodes s n)"

lemmas views = addrs_def srcs_def dsts_def

text \<open>Slot \<open>i\<close> of node \<open>n\<close> holds the address \<open>ip\<close>.\<close>

definition slot :: "tc_state \<Rightarrow> nat \<Rightarrow> nat \<Rightarrow> ip_addr \<Rightarrow> bool" where
  "slot s n i ip \<longleftrightarrow> (\<exists>tab. addrs s n = Some tab \<and> i < length tab \<and> tab ! i = Some ip)"

definition addr_ok :: "tc_state \<Rightarrow> bool" where
  "addr_ok s \<longleftrightarrow>
     (\<forall>k. distinct (map na_ip (t_hash s k))) \<and>
     (\<forall>k. \<forall>e \<in> set (t_hash s k). get_hash_key (na_ip e) = k \<and>
        (\<exists>i. na_pos e = int i \<and> slot s (na_node e) i (na_ip e))) \<and>
     (\<forall>n i ip. slot s n i ip \<longrightarrow> \<lparr>na_ip = ip, na_pos = int i, na_node = n\<rparr> \<in> set (t_hash s (get_hash_key ip))) \<and>
     (\<forall>n tab. addrs s n = Some tab \<longrightarrow> length tab = max_alias)"

lemma addr_okD:
  assumes "addr_ok s"
  shows "distinct (map na_ip (t_hash s k))"
    and "e \<in> set (t_hash s k) \<Longrightarrow> get_hash_key (na_ip e) = k"
    and "e \<in> set (t_hash s k) \<Longrightarrow> \<exists>i. na_pos e = int i \<and> slot s (na_node e) i (na_ip e)"
    and "slot s n i ip \<Longrightarrow> \<lparr>na_ip = ip, na_pos = int i, na_node = n\<rparr> \<in> set (t_hash s (get_hash_key ip))"
    and "addrs s n = Some tab \<Longrightarrow> length tab = max_alias"
  using assms unfolding addr_ok_def by blast+

lemma addr_ok_length:
  assumes "addr_ok s" "t_nodes s n = Some nd"
  shows "length (nd_addr nd) = max_alias"
  by (rule addr_okD(5) [OF assms(1), of n]) (simp add: addrs_def assms(2))

definition link_ok :: "tc_state \<Rightarrow> bool" where
  "link_ok s \<longleftrightarrow>
     (\<forall>l lk. t_links s l = Some lk \<longrightarrow>
        (\<exists>ls. srcs s (lk_src lk) = Some ls \<and> l \<in> set ls) \<and> (\<exists>ls. dsts s (lk_dst lk) = Some ls \<and> l \<in> set ls)) \<and>
     (\<forall>n ls. srcs s n = Some ls \<longrightarrow> distinct ls \<and> (\<forall>l \<in> set ls. \<exists>lk. t_links s l = Some lk \<and> lk_src lk = n)) \<and>
     (\<forall>n ls. dsts s n = Some ls \<longrightarrow> distinct ls \<and> (\<forall>l \<in> set ls. \<exists>lk. t_links s l = Some lk \<and> lk_dst lk = n))"

definition main_ok :: "tc_state \<Rightarrow> bool" where
  "main_ok s \<longleftrightarrow> (\<forall>n. t_nodes s n \<noteq> None \<longrightarrow> (\<exists>ip. slot s n 0 ip))"

definition list_ok :: "tc_state \<Rightarrow> bool" where
  "list_ok s \<longleftrightarrow> distinct (t_list s) \<and> set (t_list s) = dom (t_nodes s) \<and>
     (\<forall>n \<in> dom (t_nodes s). n < t_next s) \<and> (\<forall>l \<in> dom (t_links s). l < t_next s) \<and>
     length (t_local_addr s) = max_alias \<and> length (t_local_mask s) = max_alias"

definition tc_ok :: "tc_state \<Rightarrow> bool" where
  "tc_ok s \<longleftrightarrow> addr_ok s \<and> link_ok s \<and> main_ok s \<and> list_ok s"

lemma addr_ok_cong: "t_hash s' = t_hash s \<Longrightarrow> addrs s' = addrs s \<Longrightarrow> addr_ok s' = addr_ok s"
  by (simp add: addr_ok_def slot_def)

lemma link_ok_cong:
  "t_links s' = t_links s \<Longrightarrow> srcs s' = srcs s \<Longrightarrow> dsts s' = dsts s \<Longrightarrow> link_ok s' = link_ok s"
  by (simp add: link_ok_def)

lemma slot_cong: "addrs s' = addrs s \<Longrightarrow> slot s' = slot s"
  by (auto simp: slot_def fun_eq_iff)

text \<open>Updates of fields that a view does not read.\<close>

lemma views_update [simp]:
  "addrs (s\<lparr>t_list := a\<rparr>) = addrs s" "srcs (s\<lparr>t_list := a\<rparr>) = srcs s" "dsts (s\<lparr>t_list := a\<rparr>) = dsts s"
  "addrs (s\<lparr>t_hash := b\<rparr>) = addrs s" "srcs (s\<lparr>t_hash := b\<rparr>) = srcs s" "dsts (s\<lparr>t_hash := b\<rparr>) = dsts s"
  "addrs (s\<lparr>t_links := c\<rparr>) = addrs s" "srcs (s\<lparr>t_links := c\<rparr>) = srcs s" "dsts (s\<lparr>t_links := c\<rparr>) = dsts s"
  "addrs (s\<lparr>t_local_links := d\<rparr>) = addrs s" "srcs (s\<lparr>t_local_links := d\<rparr>) = srcs s" "dsts (s\<lparr>t_local_links := d\<rparr>) = dsts s"
  "addrs (s\<lparr>t_cache := e\<rparr>) = addrs s" "srcs (s\<lparr>t_cache := e\<rparr>) = srcs s" "dsts (s\<lparr>t_cache := e\<rparr>) = dsts s"
  "addrs (s\<lparr>t_next := f\<rparr>) = addrs s" "srcs (s\<lparr>t_next := f\<rparr>) = srcs s" "dsts (s\<lparr>t_next := f\<rparr>) = dsts s"
  "addrs (s\<lparr>t_local_addr := g\<rparr>) = addrs s" "srcs (s\<lparr>t_local_addr := g\<rparr>) = srcs s" "dsts (s\<lparr>t_local_addr := g\<rparr>) = dsts s"
  "addrs (s\<lparr>t_local_mask := h\<rparr>) = addrs s" "srcs (s\<lparr>t_local_mask := h\<rparr>) = srcs s" "dsts (s\<lparr>t_local_mask := h\<rparr>) = dsts s"
  by (auto simp: views)

section \<open>Looking addresses up\<close>

lemma find_Some_distinct:
  assumes "distinct (map f xs)"
  shows "List.find (\<lambda>x. f x = a) xs = Some e \<longleftrightarrow> e \<in> set xs \<and> f e = a"
  using assms by (induction xs) (auto simp: image_iff)

lemma find_addr_iff:
  assumes "addr_ok s"
  shows "find_addr ip s = Some e \<longleftrightarrow>
    (\<exists>n i. e = \<lparr>na_ip = ip, na_pos = int i, na_node = n\<rparr> \<and> slot s n i ip)"
proof -
  have d: "distinct (map na_ip (t_hash s (get_hash_key ip)))" using assms by (simp add: addr_ok_def)
  have "find_addr ip s = Some e \<longleftrightarrow> e \<in> set (t_hash s (get_hash_key ip)) \<and> na_ip e = ip"
    unfolding find_addr_def by (rule find_Some_distinct [OF d])
  also have "\<dots> \<longleftrightarrow> (\<exists>n i. e = \<lparr>na_ip = ip, na_pos = int i, na_node = n\<rparr> \<and> slot s n i ip)"
  proof
    assume e: "e \<in> set (t_hash s (get_hash_key ip)) \<and> na_ip e = ip"
    then obtain i where "na_pos e = int i" "slot s (na_node e) i (na_ip e)"
      using assms unfolding addr_ok_def by blast
    then show "\<exists>n i. e = \<lparr>na_ip = ip, na_pos = int i, na_node = n\<rparr> \<and> slot s n i ip"
      using e by (cases e) auto
  next
    assume "\<exists>n i. e = \<lparr>na_ip = ip, na_pos = int i, na_node = n\<rparr> \<and> slot s n i ip"
    then show "e \<in> set (t_hash s (get_hash_key ip)) \<and> na_ip e = ip"
      using assms unfolding addr_ok_def by fastforce
  qed
  finally show ?thesis .
qed

lemma tc_get_node_iff:
  assumes "addr_ok s"
  shows "tc_get_node ip s = Some n \<longleftrightarrow> (\<exists>i. slot s n i ip)"
  using find_addr_iff [OF assms, of ip] by (fastforce simp: tc_get_node_def)

lemma tc_get_node_None:
  assumes "addr_ok s"
  shows "tc_get_node ip s = None \<longleftrightarrow> (\<forall>n i. \<not> slot s n i ip)"
  using tc_get_node_iff [OF assms, of ip] by (metis not_None_eq)

lemma slot_unique:
  assumes ok: "addr_ok s" and "slot s n i ip" "slot s n' i' ip"
  shows "n = n' \<and> i = i'"
proof -
  have "find_addr ip s = Some \<lparr>na_ip = ip, na_pos = int i, na_node = n\<rparr>"
    "find_addr ip s = Some \<lparr>na_ip = ip, na_pos = int i', na_node = n'\<rparr>"
    using assms find_addr_iff [OF ok, of ip] by blast+
  then show ?thesis by simp
qed

lemma slot_live: "slot s n i ip \<Longrightarrow> \<exists>nd. t_nodes s n = Some nd \<and> i < length (nd_addr nd) \<and> nd_addr nd ! i = Some ip"
  by (auto simp: slot_def addrs_def)

section \<open>Adding and removing one address\<close>

lemma tc_add_node_addr_ok:
  assumes ok: "addr_ok s" and new: "tc_get_node ip s = None" and nd: "t_nodes s n = Some nd"
    and pos: "i < max_alias" "nd_addr nd ! i = None"
    and sel: "(if m then Some 0 else free_slot (nd_addr nd)) = Some i"
  defines "s' \<equiv> s\<lparr>t_nodes := (t_nodes s)(n \<mapsto> nd\<lparr>nd_addr := (nd_addr nd)[i := Some ip]\<rparr>),
     t_hash := (t_hash s)(get_hash_key ip := \<lparr>na_ip = ip, na_pos = int i, na_node = n\<rparr> # t_hash s (get_hash_key ip))\<rparr>"
  shows "tc_add_node_addr n ip m s = Some (s', True)" "addr_ok s'"
    "addrs s' = (addrs s)(n \<mapsto> (nd_addr nd)[i := Some ip])" "srcs s' = srcs s" "dsts s' = dsts s"
    "slot s' n' j a \<longleftrightarrow> slot s n' j a \<or> (n' = n \<and> j = i \<and> a = ip)"
proof -
  have old: "addrs s n = Some (nd_addr nd)" using nd by (simp add: addrs_def)
  then have len: "length (nd_addr nd) = max_alias" using ok unfolding addr_ok_def by blast
  show "tc_add_node_addr n ip m s = Some (s', True)"
    using nd len pos(1) sel by (simp add: tc_add_node_addr_def s'_def Let_def)
  show ad: "addrs s' = (addrs s)(n \<mapsto> (nd_addr nd)[i := Some ip])" "srcs s' = srcs s" "dsts s' = dsts s"
    using nd by (auto simp: views s'_def)
  have sl: "slot s' n' j a \<longleftrightarrow> slot s n' j a \<or> (n' = n \<and> j = i \<and> a = ip)" for n' j a
    using len pos old by (auto simp: slot_def ad nth_list_update)
  then show "slot s' n' j a \<longleftrightarrow> slot s n' j a \<or> (n' = n \<and> j = i \<and> a = ip)" .
  have fresh: "ip \<notin> na_ip ` set (t_hash s (get_hash_key ip))"
    using new by (auto simp: tc_get_node_def find_addr_def find_None_iff)
  let ?e = "\<lparr>na_ip = ip, na_pos = int i, na_node = n\<rparr>"
  have hash: "e \<in> set (t_hash s' k) \<longleftrightarrow> e \<in> set (t_hash s k) \<or> (k = get_hash_key ip \<and> e = ?e)" for k e
    by (auto simp: s'_def)
  have "distinct (map na_ip (t_hash s' k))" for k
    using ok fresh by (auto simp: s'_def addr_ok_def)
  moreover have "get_hash_key (na_ip e) = k \<and> (\<exists>i. na_pos e = int i \<and> slot s' (na_node e) i (na_ip e))"
    if "e \<in> set (t_hash s' k)" for k e
  proof (cases "e \<in> set (t_hash s k)")
    case True
    then show ?thesis using ok unfolding addr_ok_def sl by blast
  next
    case False
    then show ?thesis using that unfolding hash sl by simp
  qed
  moreover have "\<lparr>na_ip = a, na_pos = int j, na_node = n'\<rparr> \<in> set (t_hash s' (get_hash_key a))"
    if "slot s' n' j a" for n' j a
    using ok that unfolding addr_ok_def hash sl by blast
  moreover have "length tab = max_alias" if "addrs s' n' = Some tab" for n' tab
  proof (cases "n' = n")
    case True
    then show ?thesis using that len by (auto simp: ad)
  next
    case False
    then show ?thesis using that ok unfolding addr_ok_def ad by simp
  qed
  ultimately show "addr_ok s'" unfolding addr_ok_def by blast
qed

lemma tc_rmv_node_addr_ok:
  assumes ok: "addr_ok s" and sl: "slot s n i ip"
  shows "\<exists>s' nd. t_nodes s n = Some nd \<and> tc_rmv_node_addr ip s = Some s' \<and> addr_ok s' \<and>
    s' = s\<lparr>t_hash := t_hash s', t_nodes := (t_nodes s)(n \<mapsto> nd\<lparr>nd_addr := (nd_addr nd)[i := None]\<rparr>)\<rparr> \<and>
    (\<forall>n' j a. slot s' n' j a \<longleftrightarrow> slot s n' j a \<and> a \<noteq> ip)"
proof -
  let ?e = "\<lparr>na_ip = ip, na_pos = int i, na_node = n\<rparr>" and ?k = "get_hash_key ip"
  obtain nd where nd: "t_nodes s n = Some nd" "i < length (nd_addr nd)" "nd_addr nd ! i = Some ip"
    using slot_live [OF sl] by blast
  define s' where "s' = s\<lparr>t_hash := (t_hash s)(?k := remove1 ?e (t_hash s ?k)),
    t_nodes := (t_nodes s)(n \<mapsto> nd\<lparr>nd_addr := (nd_addr nd)[i := None]\<rparr>)\<rparr>"
  have f: "find_addr ip s = Some ?e" using find_addr_iff [OF ok] sl by blast
  have r: "tc_rmv_node_addr ip s = Some s'"
    using f nd by (simp add: tc_rmv_node_addr_def s'_def Let_def)
  have ad: "addrs s' = (addrs s)(n \<mapsto> (nd_addr nd)[i := None])" "addrs s n = Some (nd_addr nd)"
    using nd by (auto simp: views s'_def)
  have sl': "slot s' n' j a \<longleftrightarrow> slot s n' j a \<and> a \<noteq> ip" for n' j a
  proof -
    have "slot s' n' j a \<longleftrightarrow> slot s n' j a \<and> \<not> (n' = n \<and> j = i)"
      using nd ad by (auto simp: slot_def nth_list_update)
    also have "\<dots> \<longleftrightarrow> slot s n' j a \<and> a \<noteq> ip"
    proof -
      have "slot s n' j a \<Longrightarrow> a = ip \<Longrightarrow> n' = n \<and> j = i" using slot_unique [OF ok _ sl] by blast
      moreover have "slot s n i a \<Longrightarrow> a = ip" using nd(3) ad(2) by (auto simp: slot_def)
      ultimately show ?thesis by blast
    qed
    finally show ?thesis .
  qed
  have d: "distinct (map na_ip (t_hash s k))" for k using ok by (simp add: addr_ok_def)
  have mem: "?e \<in> set (t_hash s ?k)" using ok sl by (simp add: addr_ok_def)
  have hash: "set (t_hash s' k) = {e \<in> set (t_hash s k). na_ip e \<noteq> ip}" for k
  proof (cases "k = ?k")
    case True
    have inj: "inj_on na_ip (set (t_hash s ?k))" "distinct (t_hash s ?k)"
      using d [of ?k] by (simp_all add: distinct_map)
    have eq: "na_ip e = ip \<longleftrightarrow> e = ?e" if "e \<in> set (t_hash s ?k)" for e
      using inj_onD [OF inj(1) _ that mem] by auto
    moreover have "t_hash s' ?k = remove1 ?e (t_hash s ?k)" by (simp add: s'_def)
    then have "set (t_hash s' ?k) = set (t_hash s ?k) - {?e}" by (simp only: set_remove1_eq [OF inj(2)])
    ultimately show ?thesis using True eq by blast
  next
    case False
    then have "t_hash s' k = t_hash s k" by (simp add: s'_def)
    moreover have "na_ip e \<noteq> ip" if "e \<in> set (t_hash s k)" for e
      using addr_okD(2) [OF ok that] False by auto
    ultimately show ?thesis by auto
  qed
  have "distinct (map na_ip (t_hash s' k))" for k
    using d [of k] inj_on_subset [OF _ set_remove1_subset, of na_ip "t_hash s k" ?e]
    by (cases "k = ?k") (simp_all add: s'_def distinct_map)
  moreover have "get_hash_key (na_ip e) = k \<and> (\<exists>i. na_pos e = int i \<and> slot s' (na_node e) i (na_ip e))"
    if "e \<in> set (t_hash s' k)" for k e
    using ok that unfolding addr_ok_def hash sl' by blast
  moreover have "\<lparr>na_ip = a, na_pos = int j, na_node = n'\<rparr> \<in> set (t_hash s' (get_hash_key a))"
    if "slot s' n' j a" for n' j a
    using ok that unfolding addr_ok_def hash sl' by simp
  moreover have "length tab = max_alias" if "addrs s' n' = Some tab" for n' tab
  proof (cases "n' = n")
    case True
    then show ?thesis using that ad ok unfolding addr_ok_def by auto
  next
    case False
    then show ?thesis using that ok unfolding addr_ok_def ad by simp
  qed
  ultimately have "addr_ok s'" unfolding addr_ok_def by blast
  moreover have "s' = s\<lparr>t_hash := t_hash s', t_nodes := (t_nodes s)(n \<mapsto> nd\<lparr>nd_addr := (nd_addr nd)[i := None]\<rparr>)\<rparr>"
    by (simp add: s'_def)
  ultimately show ?thesis using nd(1) r sl' by blast
qed

lemma addrs_dom: "addrs s n = None \<longleftrightarrow> t_nodes s n = None" "srcs s n = None \<longleftrightarrow> t_nodes s n = None"
  "dsts s n = None \<longleftrightarrow> t_nodes s n = None"
  by (simp_all add: views)

text \<open>The loop of \<open>tc_remove_node\<close> over the address table.\<close>

lemma remove_slots_ok:
  assumes ok: "addr_ok s" and live: "t_nodes s n \<noteq> None"
  shows "\<exists>s'. iter [0..<max_alias] (remove_addr_slot n) s = Some s' \<and> addr_ok s' \<and>
    s' = s\<lparr>t_hash := t_hash s', t_nodes := t_nodes s'\<rparr> \<and> srcs s' = srcs s \<and> dsts s' = dsts s \<and>
    (\<forall>n' j a. slot s' n' j a \<longleftrightarrow> slot s n' j a \<and> n' \<noteq> n)"
proof -
  define P where "P i s' \<longleftrightarrow> addr_ok s' \<and> s' = s\<lparr>t_hash := t_hash s', t_nodes := t_nodes s'\<rparr> \<and>
    srcs s' = srcs s \<and> dsts s' = dsts s \<and> (\<forall>n' j a. slot s' n' j a \<longleftrightarrow> slot s n' j a \<and> \<not> (n' = n \<and> j < i))" for i s'
  have "\<exists>s'. iter [0..<max_alias] (remove_addr_slot n) s = Some s' \<and> P max_alias s'"
  proof (rule iter_upt_total [where P = P])
    show "P 0 s" using ok by (simp add: P_def)
    fix i s1
    assume i: "i < max_alias" and P: "P i s1"
    then have ok1: "addr_ok s1" by (simp add: P_def)
    have "srcs s1 = srcs s" using P unfolding P_def by blast
    then have "t_nodes s1 n \<noteq> None" using live by (metis addrs_dom(2))
    then obtain nd where nd: "t_nodes s1 n = Some nd" by blast
    note len = addr_ok_length [OF ok1 nd]
    show "\<exists>s'. remove_addr_slot n i s1 = Some s' \<and> P (Suc i) s'"
    proof (cases "nd_addr nd ! i")
      case None
      then have "\<not> slot s1 n i a" for a using nd by (simp add: slot_def addrs_def)
      then have "P (Suc i) s1" using P unfolding P_def by (metis less_Suc_eq)
      then show ?thesis using None nd len i by (simp add: remove_addr_slot_def)
    next
      case (Some ip)
      then have sl: "slot s1 n i ip" using nd len i by (simp add: slot_def addrs_def)
      from tc_rmv_node_addr_ok [OF ok1 sl] nd obtain s' where s': "tc_rmv_node_addr ip s1 = Some s'" "addr_ok s'"
          "s' = s1\<lparr>t_hash := t_hash s', t_nodes := (t_nodes s1)(n \<mapsto> nd\<lparr>nd_addr := (nd_addr nd)[i := None]\<rparr>)\<rparr>"
          "\<forall>n' j a. slot s' n' j a \<longleftrightarrow> slot s1 n' j a \<and> a \<noteq> ip" by auto
      have tn: "t_nodes s' = (t_nodes s1)(n \<mapsto> nd\<lparr>nd_addr := (nd_addr nd)[i := None]\<rparr>)" by (subst s'(3)) simp
      have "srcs s' = srcs s1" "dsts s' = dsts s1" using tn nd by (auto simp: views)
      moreover have "slot s' n' j a \<longleftrightarrow> slot s n' j a \<and> \<not> (n' = n \<and> j < Suc i)" for n' j a
      proof -
        have "slot s1 n' j a \<Longrightarrow> a = ip \<longleftrightarrow> n' = n \<and> j = i"
          using slot_unique [OF ok1 _ sl, of n' j] sl nd Some by (auto simp: slot_def addrs_def)
        then have "slot s' n' j a \<longleftrightarrow> slot s1 n' j a \<and> \<not> (n' = n \<and> j = i)" using s'(4) by blast
        then show ?thesis using P unfolding P_def by (metis less_Suc_eq)
      qed
      moreover have "s' = s\<lparr>t_hash := t_hash s', t_nodes := t_nodes s'\<rparr>"
      proof -
        have "s1 = s\<lparr>t_hash := t_hash s1, t_nodes := t_nodes s1\<rparr>" using P by (simp add: P_def)
        then show ?thesis using s'(3) by (cases s, cases s1, cases s') simp
      qed
      ultimately have "P (Suc i) s'" using P s'(2) by (simp add: P_def)
      then show ?thesis using s'(1) Some nd len i by (simp add: remove_addr_slot_def)
    qed
  qed
  then obtain s' where s': "iter [0..<max_alias] (remove_addr_slot n) s = Some s'" "P max_alias s'" by blast
  have "j < max_alias" if "slot s n j a" for j a
    using that addr_okD(5) [OF ok, of n] by (auto simp: slot_def)
  then have "slot s' n' j a \<longleftrightarrow> slot s n' j a \<and> n' \<noteq> n" for n' j a
    using s'(2) unfolding P_def by blast
  then show ?thesis using s' unfolding P_def by blast
qed

end
