(* ===== verification/Tc_Ops.thy ===== *)
theory Tc_Ops imports Tc_Invariant begin

text \<open>
  The effect of every operation of the topology store on a well-formed state: none of them
  follows a freed or missing pointer, all keep the state well formed, and seen from outside
  (which addresses belong to which node, which links exist) they are simple updates of an
  abstract topology.
\<close>

section \<open>Links\<close>

lemma link_okD:
  assumes "link_ok s"
  shows "t_links s l = Some lk \<Longrightarrow> \<exists>ls. srcs s (lk_src lk) = Some ls \<and> l \<in> set ls"
    and "t_links s l = Some lk \<Longrightarrow> \<exists>ls. dsts s (lk_dst lk) = Some ls \<and> l \<in> set ls"
    and "srcs s n = Some ls \<Longrightarrow> distinct ls" and "dsts s n = Some ls \<Longrightarrow> distinct ls"
    and "srcs s n = Some ls \<Longrightarrow> l \<in> set ls \<Longrightarrow> \<exists>lk. t_links s l = Some lk \<and> lk_src lk = n"
    and "dsts s n = Some ls \<Longrightarrow> l \<in> set ls \<Longrightarrow> \<exists>lk. t_links s l = Some lk \<and> lk_dst lk = n"
  using assms unfolding link_ok_def by blast+

lemma link_okI:
  assumes "\<And>l lk. t_links s l = Some lk \<Longrightarrow>
      (\<exists>ls. srcs s (lk_src lk) = Some ls \<and> l \<in> set ls) \<and> (\<exists>ls. dsts s (lk_dst lk) = Some ls \<and> l \<in> set ls)"
    and "\<And>n ls. srcs s n = Some ls \<Longrightarrow> distinct ls \<and> (\<forall>l \<in> set ls. \<exists>lk. t_links s l = Some lk \<and> lk_src lk = n)"
    and "\<And>n ls. dsts s n = Some ls \<Longrightarrow> distinct ls \<and> (\<forall>l \<in> set ls. \<exists>lk. t_links s l = Some lk \<and> lk_dst lk = n)"
  shows "link_ok s"
  using assms unfolding link_ok_def by blast

text \<open>What the two unlink loops need of one direction of the lists.\<close>

definition half_ok :: "(nat \<rightharpoonup> nat) \<Rightarrow> (nat \<Rightarrow> nat list option) \<Rightarrow> bool" where
  "half_ok endp lsts \<longleftrightarrow>
     (\<forall>n ls. lsts n = Some ls \<longrightarrow> distinct ls \<and> (\<forall>l \<in> set ls. endp l = Some n))"

lemma half_ok_remove:
  assumes "half_ok endp lsts" "endp l = Some m"
  shows "(\<lambda>n. if n = m then map_option (remove1 l) (lsts n) else lsts n) =
      (\<lambda>n. map_option (filter (\<lambda>x. x \<noteq> l)) (lsts n))"
    and "half_ok endp (\<lambda>n. map_option (filter (\<lambda>x. x \<noteq> l)) (lsts n))"
proof -
  have "(if n = m then map_option (remove1 l) (lsts n) else lsts n) =
      map_option (filter (\<lambda>x. x \<noteq> l)) (lsts n)" for n
  proof (cases "lsts n")
    case (Some ls)
    then have "distinct ls" "n \<noteq> m \<Longrightarrow> l \<notin> set ls" using assms unfolding half_ok_def by force+
    moreover have "filter ((\<noteq>) l) ls = filter (\<lambda>x. x \<noteq> l) ls" by (rule filter_cong) auto
    moreover have "filter (\<lambda>x. x \<noteq> l) ls = ls" if "l \<notin> set ls" using that by (auto simp: filter_id_conv)
    ultimately show ?thesis using Some by (auto simp: distinct_remove1_removeAll removeAll_filter_not_eq)
  qed auto
  then show "(\<lambda>n. if n = m then map_option (remove1 l) (lsts n) else lsts n) =
      (\<lambda>n. map_option (filter (\<lambda>x. x \<noteq> l)) (lsts n))" by blast
  show "half_ok endp (\<lambda>n. map_option (filter (\<lambda>x. x \<noteq> l)) (lsts n))"
    using assms(1) unfolding half_ok_def by fastforce
qed

definition src_end :: "tc_state \<Rightarrow> nat \<rightharpoonup> nat" where "src_end s l = map_option lk_src (t_links s l)"
definition dst_end :: "tc_state \<Rightarrow> nat \<rightharpoonup> nat" where "dst_end s l = map_option lk_dst (t_links s l)"

lemma half_link_ok:
  assumes "link_ok s"
  shows "half_ok (src_end s) (srcs s)" "half_ok (dst_end s) (dsts s)"
  using link_okD(3-6) [OF assms] unfolding half_ok_def src_end_def dst_end_def by fastforce+

lemma filter_filter_out:
  "map_option (filter (\<lambda>x. x \<notin> set ls)) (map_option (filter (\<lambda>x. x \<noteq> l)) v) =
   map_option (filter (\<lambda>x. x \<notin> set (l # ls))) v"
  by (cases v) (auto intro: filter_cong)

lemma unlink_dst_loop:
  assumes "\<And>l. l \<in> set ls \<Longrightarrow> \<exists>m. dst_end s l = Some m \<and> t_nodes s m \<noteq> None"
    and "half_ok (dst_end s) (dsts s)"
  shows "\<exists>s'. iter ls unlink_dst s = Some s' \<and> s' = s\<lparr>t_nodes := t_nodes s'\<rparr> \<and> addrs s' = addrs s \<and>
    srcs s' = srcs s \<and> dsts s' = (\<lambda>n. map_option (filter (\<lambda>l. l \<notin> set ls)) (dsts s n))"
  using assms
proof (induction ls arbitrary: s)
  case Nil
  then show ?case by (simp add: option.map_ident)
next
  case (Cons l ls)
  obtain m where m: "dst_end s l = Some m" "t_nodes s m \<noteq> None" using Cons.prems(1) [of l] by auto
  then obtain lk nd where lk: "t_links s l = Some lk" "lk_dst lk = m" "t_nodes s m = Some nd"
    by (auto simp: dst_end_def)
  define s1 where "s1 = s\<lparr>t_nodes := (t_nodes s)(m \<mapsto> nd\<lparr>nd_dst := remove1 l (nd_dst nd)\<rparr>)\<rparr>"
  have u: "unlink_dst l s = Some s1" using lk by (simp add: unlink_dst_def s1_def)
  have v: "addrs s1 = addrs s" "srcs s1 = srcs s" "dst_end s1 = dst_end s"
    using lk by (auto simp: views s1_def dst_end_def)
  have "dsts s1 = (\<lambda>n. if n = m then map_option (remove1 l) (dsts s n) else dsts s n)"
    using lk by (auto simp: views s1_def)
  note d1 = this [unfolded half_ok_remove(1) [OF Cons.prems(2) m(1)]]
  have h1: "half_ok (dst_end s1) (dsts s1)"
    unfolding v(3) d1 by (rule half_ok_remove(2) [OF Cons.prems(2) m(1)])
  have "\<exists>m. dst_end s1 l' = Some m \<and> t_nodes s1 m \<noteq> None" if "l' \<in> set ls" for l'
    using Cons.prems(1) [of l'] that unfolding v(3) by (auto simp: s1_def)
  from Cons.IH [OF this h1] obtain s' where s': "iter ls unlink_dst s1 = Some s'"
      "s' = s1\<lparr>t_nodes := t_nodes s'\<rparr>" "addrs s' = addrs s1" "srcs s' = srcs s1"
      "dsts s' = (\<lambda>n. map_option (filter (\<lambda>l. l \<notin> set ls)) (dsts s1 n))" by blast
  have "s' = s\<lparr>t_nodes := t_nodes s'\<rparr>" using s'(2) by (simp add: s1_def)
  with u s' v show ?case unfolding d1 filter_filter_out by auto
qed

lemma unlink_src_loop:
  assumes "\<And>l. l \<in> set ls \<Longrightarrow> \<exists>m. src_end s l = Some m \<and> t_nodes s m \<noteq> None"
    and "half_ok (src_end s) (srcs s)"
  shows "\<exists>s'. iter ls unlink_src s = Some s' \<and> s' = s\<lparr>t_nodes := t_nodes s'\<rparr> \<and> addrs s' = addrs s \<and>
    dsts s' = dsts s \<and> srcs s' = (\<lambda>n. map_option (filter (\<lambda>l. l \<notin> set ls)) (srcs s n))"
  using assms
proof (induction ls arbitrary: s)
  case Nil
  then show ?case by (simp add: option.map_ident)
next
  case (Cons l ls)
  obtain m where m: "src_end s l = Some m" "t_nodes s m \<noteq> None" using Cons.prems(1) [of l] by auto
  then obtain lk nd where lk: "t_links s l = Some lk" "lk_src lk = m" "t_nodes s m = Some nd"
    by (auto simp: src_end_def)
  define s1 where "s1 = s\<lparr>t_nodes := (t_nodes s)(m \<mapsto> nd\<lparr>nd_src := remove1 l (nd_src nd)\<rparr>)\<rparr>"
  have u: "unlink_src l s = Some s1" using lk by (simp add: unlink_src_def s1_def)
  have v: "addrs s1 = addrs s" "dsts s1 = dsts s" "src_end s1 = src_end s"
    using lk by (auto simp: views s1_def src_end_def)
  have "srcs s1 = (\<lambda>n. if n = m then map_option (remove1 l) (srcs s n) else srcs s n)"
    using lk by (auto simp: views s1_def)
  note d1 = this [unfolded half_ok_remove(1) [OF Cons.prems(2) m(1)]]
  have h1: "half_ok (src_end s1) (srcs s1)"
    unfolding v(3) d1 by (rule half_ok_remove(2) [OF Cons.prems(2) m(1)])
  have "\<exists>m. src_end s1 l' = Some m \<and> t_nodes s1 m \<noteq> None" if "l' \<in> set ls" for l'
    using Cons.prems(1) [of l'] that unfolding v(3) by (auto simp: s1_def)
  from Cons.IH [OF this h1] obtain s' where s': "iter ls unlink_src s1 = Some s'"
      "s' = s1\<lparr>t_nodes := t_nodes s'\<rparr>" "addrs s' = addrs s1" "dsts s' = dsts s1"
      "srcs s' = (\<lambda>n. map_option (filter (\<lambda>l. l \<notin> set ls)) (srcs s1 n))" by blast
  have "s' = s\<lparr>t_nodes := t_nodes s'\<rparr>" using s'(2) by (simp add: s1_def)
  with u s' v show ?case unfolding d1 filter_filter_out by auto
qed

lemma free_link_loop:
  assumes "distinct ls" "set ls \<subseteq> dom (t_links s)"
  shows "iter ls free_link s = Some (s\<lparr>t_links := t_links s |` (- set ls)\<rparr>)"
  using assms
proof (induction ls arbitrary: s)
  case Nil
  then show ?case by (simp add: restrict_map_def)
next
  case (Cons l ls)
  then obtain lk where lk: "t_links s l = Some lk" by auto
  have "set ls \<subseteq> dom (t_links (s\<lparr>t_links := (t_links s)(l := None)\<rparr>))" using Cons.prems by auto
  from Cons.IH [OF _ this] Cons.prems(1) lk show ?case
    by (simp add: free_link_def restrict_map_def fun_eq_iff)
qed

section \<open>The abstract topology\<close>

record topo =
  tp_nodes :: "nat set"
  tp_owner :: "ip_addr \<rightharpoonup> nat"
  tp_main :: "nat \<rightharpoonup> ip_addr"
  tp_links :: "nat \<rightharpoonup> nat \<times> nat \<times> ulong"

definition topo_of :: "tc_state \<Rightarrow> topo" where
  "topo_of s = \<lparr>tp_nodes = dom (t_nodes s), tp_owner = (\<lambda>ip. tc_get_node ip s), tp_main = main_addr s,
     tp_links = (\<lambda>l. map_option (\<lambda>lk. (lk_src lk, lk_dst lk, lk_cost lk)) (t_links s l))\<rparr>"

definition topo_add_node :: "nat \<Rightarrow> ip_addr \<Rightarrow> topo \<Rightarrow> topo" where
  "topo_add_node n ip t = t\<lparr>tp_nodes := insert n (tp_nodes t), tp_owner := (tp_owner t)(ip \<mapsto> n),
     tp_main := (tp_main t)(n \<mapsto> ip)\<rparr>"

definition topo_remove_node :: "nat \<Rightarrow> topo \<Rightarrow> topo" where
  "topo_remove_node n t = t\<lparr>tp_nodes := tp_nodes t - {n},
     tp_owner := tp_owner t |` {a. tp_owner t a \<noteq> Some n}, tp_main := (tp_main t)(n := None),
     tp_links := (\<lambda>l. case tp_links t l of None \<Rightarrow> None
        | Some (a, b, c) \<Rightarrow> if a = n \<or> b = n then None else Some (a, b, c))\<rparr>"

definition topo_add_alias :: "nat \<Rightarrow> ip_addr \<Rightarrow> topo \<Rightarrow> topo" where
  "topo_add_alias n a t = t\<lparr>tp_owner := (tp_owner t)(a \<mapsto> n)\<rparr>"

definition topo_remove_alias :: "ip_addr \<Rightarrow> topo \<Rightarrow> topo" where
  "topo_remove_alias a t = t\<lparr>tp_owner := (tp_owner t)(a := None)\<rparr>"

definition topo_add_link :: "nat \<Rightarrow> nat \<Rightarrow> nat \<Rightarrow> ulong \<Rightarrow> topo \<Rightarrow> topo" where
  "topo_add_link l a b c t = t\<lparr>tp_links := (tp_links t)(l \<mapsto> (a, b, c))\<rparr>"

definition topo_remove_link :: "nat \<Rightarrow> topo \<Rightarrow> topo" where
  "topo_remove_link l t = t\<lparr>tp_links := (tp_links t)(l := None)\<rparr>"

lemma main_addr_slot:
  assumes "addr_ok s"
  shows "main_addr s n = Some ip \<longleftrightarrow> slot s n 0 ip"
proof (cases "t_nodes s n")
  case None
  then show ?thesis by (simp add: main_addr_def slot_def addrs_def)
next
  case (Some nd)
  with addr_ok_length [OF assms Some] show ?thesis
    by (auto simp: main_addr_def slot_def addrs_def rd_def max_alias_def bind_eq_Some_conv)
qed

text \<open>The two lookups are determined by the slots.\<close>

lemma tc_get_node_eqI:
  assumes "addr_ok s" "\<And>n. (\<exists>i. slot s n i a) \<longleftrightarrow> v = Some n"
  shows "tc_get_node a s = v"
  using tc_get_node_iff [OF assms(1), of a] assms(2) by (metis not_None_eq)

lemma main_addr_eqI:
  assumes "addr_ok s" "\<And>ip. slot s n 0 ip \<longleftrightarrow> v = Some ip"
  shows "main_addr s n = v"
  using main_addr_slot [OF assms(1), of n] assms(2) by (metis not_None_eq)

lemma tc_okD:
  assumes "tc_ok s"
  shows "addr_ok s" "link_ok s" "main_ok s" "list_ok s"
  using assms by (simp_all add: tc_ok_def)

lemma list_okD:
  assumes "list_ok s"
  shows "distinct (t_list s)" "set (t_list s) = dom (t_nodes s)" "n \<in> dom (t_nodes s) \<Longrightarrow> n < t_next s"
    "l \<in> dom (t_links s) \<Longrightarrow> l < t_next s" "length (t_local_addr s) = max_alias" "length (t_local_mask s) = max_alias"
  using assms by (auto simp: list_ok_def)

lemma main_ok_addr:
  assumes "tc_ok s" "t_nodes s n = Some nd"
  shows "\<exists>ip. main_addr s n = Some ip"
  using tc_okD(3) [OF assms(1)] main_addr_slot [OF tc_okD(1) [OF assms(1)]] assms(2)
  unfolding main_ok_def by auto

text \<open>The local address is always readable.\<close>

lemma here_ok:
  assumes "list_ok s"
  shows "\<exists>a. rd (t_local_addr s) 0 = Some a"
  using list_okD(5) [OF assms] by (simp add: rd_def max_alias_def)

section \<open>Adding a node\<close>

theorem tc_add_node_ok:
  assumes ok: "tc_ok s" and new: "tc_get_node ip s = None"
  shows "\<exists>s'. tc_add_node True True ip s = Some s' \<and> tc_ok s' \<and>
    topo_of s' = topo_add_node (t_next s) ip (topo_of s) \<and> t_list s' = t_next s # t_list s \<and>
    t_cache s' = [] \<and> t_local_links s' = t_local_links s"
proof -
  let ?n = "t_next s"
  note okD = tc_okD [OF ok]
  define s0 where "s0 = s\<lparr>t_nodes := (t_nodes s)(?n \<mapsto> blank_node), t_next := ?n + 1, t_cache := []\<rparr>"
  have fresh: "t_nodes s ?n = None" using list_okD(3) [OF okD(4), of ?n] by (cases "t_nodes s ?n") auto
  have v0: "addrs s0 = (addrs s)(?n \<mapsto> replicate max_alias None)" "srcs s0 = (srcs s)(?n \<mapsto> [])"
    "dsts s0 = (dsts s)(?n \<mapsto> [])" "t_hash s0 = t_hash s" "t_links s0 = t_links s"
    by (auto simp: views s0_def blank_node_def)
  have "addrs s ?n = None" using fresh by (simp add: addrs_def)
  then have sl0: "slot s0 = slot s" by (auto simp: slot_def v0 fun_eq_iff)
  have a0: "addr_ok s0" using okD(1) unfolding addr_ok_def sl0 v0 by auto
  have new0: "tc_get_node ip s0 = None" using new by (simp add: tc_get_node_def find_addr_def v0)
  have nd: "t_nodes s0 ?n = Some blank_node" by (simp add: s0_def)
  have pos: "0 < max_alias" "nd_addr blank_node ! 0 = None" by (simp_all add: max_alias_def blank_node_def)
  have sel: "(if True then Some 0 else free_slot (nd_addr blank_node)) = Some 0" by simp
  note ad = tc_add_node_addr_ok [OF a0 new0 nd pos sel]
  define s1 where "s1 = s0\<lparr>t_nodes := (t_nodes s0)(?n \<mapsto> blank_node\<lparr>nd_addr := (nd_addr blank_node)[0 := Some ip]\<rparr>),
    t_hash := (t_hash s0)(get_hash_key ip := \<lparr>na_ip = ip, na_pos = int 0, na_node = ?n\<rparr> # t_hash s0 (get_hash_key ip))\<rparr>"
  note ad' = ad [folded s1_def]
  define s' where "s' = s1\<lparr>t_list := ?n # t_list s1\<rparr>"
  have r: "tc_add_node True True ip s = Some s'"
    using ad'(1) by (simp add: tc_add_node_def s0_def s'_def Let_def)
  have l1: "t_links s1 = t_links s" by (simp add: s1_def s0_def)
  have v': "addrs s' = addrs s1" "srcs s' = srcs s0" "dsts s' = dsts s0" "t_links s' = t_links s" "t_hash s' = t_hash s1"
    using ad'(4,5) by (simp_all add: s'_def l1)
  have aok: "addr_ok s'" using ad'(2) addr_ok_cong [OF v'(5,1)] by simp
  have slot': "slot s' n j a \<longleftrightarrow> slot s n j a \<or> (n = ?n \<and> j = 0 \<and> a = ip)" for n j a
    using ad'(6) [of n j a] slot_cong [OF v'(1)] sl0 by simp
  have dom': "t_nodes s' n \<noteq> None \<longleftrightarrow> t_nodes s n \<noteq> None \<or> n = ?n" for n
    by (auto simp: s'_def s1_def s0_def)
  note lD = link_okD [OF okD(2)]
  have nn: "srcs s ?n = None" "dsts s ?n = None" using fresh by (simp_all add: views)
  have lok: "link_ok s'"
  proof (rule link_okI)
    fix l lk
    assume "t_links s' l = Some lk"
    then have lk: "t_links s l = Some lk" by (simp add: v')
    have "lk_src lk \<noteq> ?n" "lk_dst lk \<noteq> ?n" using lD(1,2) [OF lk] nn by auto
    then show "(\<exists>ls. srcs s' (lk_src lk) = Some ls \<and> l \<in> set ls) \<and> (\<exists>ls. dsts s' (lk_dst lk) = Some ls \<and> l \<in> set ls)"
      using lD(1,2) [OF lk] by (simp add: v' v0)
  qed (use lD(3-6) in \<open>auto simp: v' v0 split: if_splits\<close>)
  have mok: "main_ok s'" using okD(3) unfolding main_ok_def dom' slot' by blast
  have "list_ok s'"
    using okD(4) dom' fresh unfolding list_ok_def
    by (auto simp: s'_def s1_def s0_def dom_def)
  then have tok: "tc_ok s'" using aok lok mok by (simp add: tc_ok_def)
  have own: "tc_get_node a s' = (if a = ip then Some ?n else tc_get_node a s)" for a
    by (rule tc_get_node_eqI [OF aok])
      (use tc_get_node_iff [OF okD(1)] tc_get_node_None [OF okD(1)] slot' new in auto)
  have no: "\<not> slot s ?n i a" for i a using fresh slot_live by fastforce
  have main: "main_addr s' n = (if n = ?n then Some ip else main_addr s n)" for n
    by (rule main_addr_eqI [OF aok]) (use main_addr_slot [OF okD(1), of n] slot' no in auto)
  have "dom (t_nodes s') = insert ?n (dom (t_nodes s))" using dom' by auto
  then have "topo_of s' = topo_add_node ?n ip (topo_of s)"
    by (simp add: topo_of_def topo_add_node_def own main v' fun_eq_iff)
  then show ?thesis using r tok by (simp add: s'_def s1_def s0_def)
qed

section \<open>Removing a node\<close>

text \<open>Dropping a node that no slot and no link mentions any more.\<close>

lemma addr_ok_drop:
  assumes ok: "addr_ok s" and no: "\<And>i a. \<not> slot s n i a"
    and v: "t_hash s' = t_hash s" "addrs s' = (addrs s)(n := None)"
  shows "addr_ok s'" "slot s' = slot s"
proof -
  show sl: "slot s' = slot s"
    using no by (auto simp: slot_def v fun_eq_iff)
  show "addr_ok s'"
    using addr_okD [OF ok] unfolding addr_ok_def v sl by (auto split: if_splits)
qed

definition links_at :: "tc_state \<Rightarrow> nat \<Rightarrow> nat set" where
  "links_at s n = {l. \<exists>lk. t_links s l = Some lk \<and> (lk_src lk = n \<or> lk_dst lk = n)}"

lemma links_at_lists:
  assumes ok: "link_ok s" and S: "srcs s n = Some ls" and D: "dsts s n = Some ld"
  shows "links_at s n = set ls \<union> set (filter (\<lambda>l. l \<notin> set ls) ld)"
proof -
  note lD = link_okD [OF ok]
  have "l \<in> set ls \<longleftrightarrow> (\<exists>lk. t_links s l = Some lk \<and> lk_src lk = n)" for l
    using lD(1) lD(5) [OF S] S by fastforce
  moreover have "l \<in> set ld \<longleftrightarrow> (\<exists>lk. t_links s l = Some lk \<and> lk_dst lk = n)" for l
    using lD(2) lD(6) [OF D] D by fastforce
  ultimately show ?thesis by (auto simp: links_at_def)
qed

lemma link_ok_drop:
  assumes ok: "link_ok s" and t: "t_links s' = t_links s |` (- links_at s n)"
    and S: "srcs s' = (\<lambda>m. if m = n then None else map_option (filter (\<lambda>l. l \<notin> links_at s n)) (srcs s m))"
    and D: "dsts s' = (\<lambda>m. if m = n then None else map_option (filter (\<lambda>l. l \<notin> links_at s n)) (dsts s m))"
  shows "link_ok s'"
proof (rule link_okI)
  note lD = link_okD [OF ok]
  fix l lk
  assume "t_links s' l = Some lk"
  then have lk: "t_links s l = Some lk" "l \<notin> links_at s n" by (auto simp: t restrict_map_def split: if_splits)
  then have "lk_src lk \<noteq> n" "lk_dst lk \<noteq> n" by (auto simp: links_at_def)
  then show "(\<exists>ls. srcs s' (lk_src lk) = Some ls \<and> l \<in> set ls) \<and> (\<exists>ls. dsts s' (lk_dst lk) = Some ls \<and> l \<in> set ls)"
    using lD(1,2) [OF lk(1)] lk(2) by (auto simp: S D)
next
  note lD = link_okD [OF ok]
  show "srcs s' m = Some ls \<Longrightarrow> distinct ls \<and> (\<forall>l \<in> set ls. \<exists>lk. t_links s' l = Some lk \<and> lk_src lk = m)" for m ls
    using lD(3,5) by (auto simp: S t restrict_map_def split: if_splits)
  show "dsts s' m = Some ls \<Longrightarrow> distinct ls \<and> (\<forall>l \<in> set ls. \<exists>lk. t_links s' l = Some lk \<and> lk_dst lk = m)" for m ls
    using lD(4,6) by (auto simp: D t restrict_map_def split: if_splits)
qed

lemma t_nodes_views:
  "t_nodes s n = Some nd \<Longrightarrow> srcs s n = Some (nd_src nd) \<and> dsts s n = Some (nd_dst nd) \<and> addrs s n = Some (nd_addr nd)"
  by (simp add: views)

lemma filter_both:
  "(\<And>l. l \<in> set xs \<Longrightarrow> P l = Q l) \<Longrightarrow> map_option (filter P) (Some xs) = map_option (filter Q) (Some xs)"
  by (auto intro: filter_cong)

lemma drop_links_ok:
  assumes ok: "link_ok s" and nd: "t_nodes s n = Some nd"
  shows "\<exists>s'. drop_links n s = Some s' \<and>
    s' = s\<lparr>t_nodes := t_nodes s', t_links := t_links s |` (- links_at s n)\<rparr> \<and>
    link_ok s' \<and> addrs s' = (addrs s)(n := None)"
proof -
  note lD = link_okD [OF ok] and half = half_link_ok [OF ok]
  let ?S = "nd_src nd" and ?R = "links_at s n"
  let ?D = "filter (\<lambda>l. l \<notin> set ?S) (nd_dst nd)"
  have v: "srcs s n = Some ?S" "dsts s n = Some (nd_dst nd)" using nd by (simp_all add: views)
  have R: "?R = set ?S \<union> set ?D" by (rule links_at_lists [OF ok v])
  have live: "\<exists>lk. t_links s l = Some lk \<and> t_nodes s (lk_src lk) \<noteq> None \<and> t_nodes s (lk_dst lk) \<noteq> None" if "l \<in> ?R" for l
  proof -
    from that obtain lk where lk: "t_links s l = Some lk" by (auto simp: links_at_def)
    have "srcs s (lk_src lk) \<noteq> None" "dsts s (lk_dst lk) \<noteq> None" using lD(1,2) [OF lk] by auto
    then show ?thesis using lk unfolding addrs_dom by blast
  qed
  obtain s1 where s1: "iter ?S unlink_dst s = Some s1" "s1 = s\<lparr>t_nodes := t_nodes s1\<rparr>" "addrs s1 = addrs s"
      "srcs s1 = srcs s" "dsts s1 = (\<lambda>m. map_option (filter (\<lambda>l. l \<notin> set ?S)) (dsts s m))"
  proof -
    have "\<exists>m. dst_end s l = Some m \<and> t_nodes s m \<noteq> None" if "l \<in> set ?S" for l
    proof -
      from live [of l] that R obtain lk where "t_links s l = Some lk" "t_nodes s (lk_dst lk) \<noteq> None" by auto
      then show ?thesis by (simp add: dst_end_def)
    qed
    from unlink_dst_loop [OF this half(2)] that show thesis by blast
  qed
  have l1: "t_links s1 = t_links s" by (subst s1(2)) simp
  have "t_nodes s1 n \<noteq> None" using s1(3) nd addrs_dom(1) by (metis option.distinct(1))
  then obtain nd1 where nd1: "t_nodes s1 n = Some nd1" by blast
  have "srcs s1 n = Some ?S" "dsts s1 n = Some ?D" using s1(4,5) v by simp_all
  then have v1: "nd_src nd1 = ?S" "nd_dst nd1 = ?D" using t_nodes_views [OF nd1] by (metis option.inject)+
  have "src_end s1 = src_end s" by (simp add: src_end_def l1 fun_eq_iff)
  then have half1: "half_ok (src_end s1) (srcs s1)" using half(1) s1(4) by simp
  have live1: "\<exists>m. src_end s1 l = Some m \<and> t_nodes s1 m \<noteq> None" if "l \<in> set ?D" for l
  proof -
    from live [of l] that R obtain lk where lk: "t_links s l = Some lk" "t_nodes s (lk_src lk) \<noteq> None" by auto
    then have "t_nodes s1 (lk_src lk) \<noteq> None" using s1(3) addrs_dom(1) by metis
    then show ?thesis using lk(1) by (simp add: src_end_def l1)
  qed
  obtain s2 where s2: "iter ?D unlink_src s1 = Some s2" "s2 = s1\<lparr>t_nodes := t_nodes s2\<rparr>" "addrs s2 = addrs s1"
      "dsts s2 = dsts s1" "srcs s2 = (\<lambda>m. map_option (filter (\<lambda>l. l \<notin> set ?D)) (srcs s1 m))"
    using unlink_src_loop [OF live1 half1] by blast
  have l2: "t_links s2 = t_links s" by (subst s2(2)) (simp add: l1)
  have "t_nodes s2 n \<noteq> None" using s2(3) nd1 addrs_dom(1) by (metis option.distinct(1))
  then obtain nd2 where nd2: "t_nodes s2 n = Some nd2" by blast
  have "filter (\<lambda>l. l \<notin> set ?D) ?S = ?S" by (auto simp: filter_id_conv)
  then have "srcs s2 n = Some ?S" "dsts s2 n = Some ?D" using s1(4,5) s2(4,5) v by simp_all
  then have v2: "nd_src nd2 = ?S" "nd_dst nd2 = ?D" using t_nodes_views [OF nd2] by (metis option.inject)+
  have "distinct ?S" "distinct (nd_dst nd)" using lD(3,4) v by blast+
  then have dist: "distinct ?S" "distinct ?D" by auto
  define s3 where "s3 = s2\<lparr>t_links := t_links s2 |` (- set ?S)\<rparr>"
  have sub: "set ?S \<subseteq> dom (t_links s2)" "set ?D \<subseteq> dom (t_links s3)"
    using live R by (force simp: l2 s3_def restrict_map_def)+
  have f: "iter ?S free_link s2 = Some s3" "iter ?D free_link s3 = Some (s3\<lparr>t_links := t_links s3 |` (- set ?D)\<rparr>)"
    using free_link_loop [OF dist(1) sub(1)] free_link_loop [OF dist(2) sub(2)] by (simp_all add: s3_def)
  define s' where "s' = s3\<lparr>t_links := t_links s3 |` (- set ?D), t_nodes := (t_nodes s3)(n := None)\<rparr>"
  have r: "drop_links n s = Some s'"
    using nd s1(1) nd1 v1 s2(1) nd2 v2 f by (simp add: drop_links_def s'_def)
  have t: "t_links s' = t_links s |` (- ?R)"
    by (auto simp: s'_def s3_def l2 R restrict_map_def fun_eq_iff)
  have "s' = s2\<lparr>t_nodes := t_nodes s', t_links := t_links s'\<rparr>" by (simp add: s'_def s3_def)
  then have frame: "s' = s\<lparr>t_nodes := t_nodes s', t_links := t_links s |` (- ?R)\<rparr>"
    using s1(2) s2(2) t by (cases s, cases s1, cases s2, cases s') simp
  have drop: "addrs s' = (addrs s2)(n := None)" "srcs s' = (srcs s2)(n := None)" "dsts s' = (dsts s2)(n := None)"
    by (auto simp: views s'_def s3_def)
  have S': "srcs s' = (\<lambda>m. if m = n then None else map_option (filter (\<lambda>l. l \<notin> ?R)) (srcs s m))"
  proof (rule ext)
    fix m
    show "srcs s' m = (if m = n then None else map_option (filter (\<lambda>l. l \<notin> ?R)) (srcs s m))"
    proof (cases "m = n \<or> srcs s m = None")
      case True
      then show ?thesis by (auto simp: drop s2(5) s1(4))
    next
      case False
      then obtain ls where ls: "srcs s m = Some ls" "m \<noteq> n" by auto
      have "l \<notin> set ?D \<longleftrightarrow> l \<notin> ?R" if "l \<in> set ls" for l
        using lD(5) [OF ls(1) that] lD(5) [OF v(1), of l] ls(2) unfolding R by auto
      then show ?thesis using ls by (simp add: drop s2(5) s1(4) cong: filter_cong)
    qed
  qed
  have D': "dsts s' = (\<lambda>m. if m = n then None else map_option (filter (\<lambda>l. l \<notin> ?R)) (dsts s m))"
  proof (rule ext)
    fix m
    show "dsts s' m = (if m = n then None else map_option (filter (\<lambda>l. l \<notin> ?R)) (dsts s m))"
    proof (cases "m = n \<or> dsts s m = None")
      case True
      then show ?thesis by (auto simp: drop s2(4) s1(5))
    next
      case False
      then obtain ls where ls: "dsts s m = Some ls" "m \<noteq> n" by auto
      have "l \<notin> set ?S \<longleftrightarrow> l \<notin> ?R" if "l \<in> set ls" for l
        using lD(6) [OF ls(1) that] lD(6) [OF v(2), of l] ls(2) unfolding R by auto
      then show ?thesis using ls by (simp add: drop s2(4) s1(5) cong: filter_cong)
    qed
  qed
  have "link_ok s'" by (rule link_ok_drop [OF ok t S' D'])
  moreover have "addrs s' = (addrs s)(n := None)" by (simp add: drop s2(3) s1(3))
  ultimately show ?thesis using r frame by blast
qed

lemma restrict_links_topo:
  "map_option (\<lambda>lk. (lk_src lk, lk_dst lk, lk_cost lk)) ((t_links s |` (- links_at s n)) l) =
    (case map_option (\<lambda>lk. (lk_src lk, lk_dst lk, lk_cost lk)) (t_links s l) of None \<Rightarrow> None
      | Some (a, b, c) \<Rightarrow> if a = n \<or> b = n then None else Some (a, b, c))"
  by (cases "t_links s l") (auto simp: restrict_map_def links_at_def)

theorem tc_remove_node_ok:
  assumes ok: "tc_ok s" and n: "tc_get_node ip s = Some n"
  shows "\<exists>s'. tc_remove_node ip s = Some s' \<and> tc_ok s' \<and>
    topo_of s' = topo_remove_node n (topo_of s) \<and> t_list s' = remove1 n (t_list s) \<and> t_cache s' = [] \<and>
    t_local_links s' = (if rd (t_local_addr s) 0 = Some ip then [] else remove_local_link ip (t_local_links s))"
proof -
  note okD = tc_okD [OF ok]
  obtain here where here: "rd (t_local_addr s) 0 = Some here" using here_ok [OF okD(4)] by blast
  obtain i where "slot s n i ip" using tc_get_node_iff [OF okD(1)] n by blast
  then have live: "t_nodes s n \<noteq> None" using slot_live by fastforce
  define s0 where "s0 = s\<lparr>t_local_links := (if ip = here then [] else remove_local_link ip (t_local_links s)),
    t_cache := [], t_list := remove1 n (t_list s)\<rparr>"
  have v0: "addrs s0 = addrs s" "srcs s0 = srcs s" "dsts s0 = dsts s" "t_hash s0 = t_hash s" "t_links s0 = t_links s"
    by (auto simp: views s0_def)
  have a0: "addr_ok s0" using okD(1) addr_ok_cong [OF v0(4,1)] by simp
  have live0: "t_nodes s0 n \<noteq> None" using live by (simp add: s0_def)
  obtain s1 where s1: "iter [0..<max_alias] (remove_addr_slot n) s0 = Some s1" "addr_ok s1"
      "s1 = s0\<lparr>t_hash := t_hash s1, t_nodes := t_nodes s1\<rparr>" "srcs s1 = srcs s0" "dsts s1 = dsts s0"
      "\<forall>n' j a. slot s1 n' j a \<longleftrightarrow> slot s0 n' j a \<and> n' \<noteq> n"
    using remove_slots_ok [OF a0 live0] by blast
  have l1: "t_links s1 = t_links s" by (subst s1(3)) (simp add: v0)
  have lok1: "link_ok s1" using okD(2) link_ok_cong [of s1 s] l1 s1(4,5) v0 by simp
  have "t_nodes s1 n \<noteq> None" using live s1(4) v0(2) addrs_dom(2) by metis
  then obtain nd where nd: "t_nodes s1 n = Some nd" by blast
  obtain s' where s': "drop_links n s1 = Some s'"
      "s' = s1\<lparr>t_nodes := t_nodes s', t_links := t_links s1 |` (- links_at s1 n)\<rparr>"
      "link_ok s'" "addrs s' = (addrs s1)(n := None)"
    using drop_links_ok [OF lok1 nd] by blast
  have r: "tc_remove_node ip s = Some s'"
    using n live here s1(1) s'(1) by (auto simp: tc_remove_node_def s0_def)
  have h': "t_hash s' = t_hash s1" by (subst s'(2)) simp
  have no: "\<not> slot s1 n i a" for i a using s1(6) by blast
  note aok = addr_ok_drop [OF s1(2) no h' s'(4)]
  have sl': "slot s' n' j a \<longleftrightarrow> slot s n' j a \<and> n' \<noteq> n" for n' j a
    using s1(6) slot_cong [OF v0(1)] aok(2) by simp
  have dom': "t_nodes s' m \<noteq> None \<longleftrightarrow> t_nodes s m \<noteq> None \<and> m \<noteq> n" for m
  proof -
    have "t_nodes s' m \<noteq> None \<longleftrightarrow> addrs s' m \<noteq> None" by (simp only: addrs_dom)
    also have "\<dots> \<longleftrightarrow> addrs s1 m \<noteq> None \<and> m \<noteq> n" by (simp add: s'(4))
    also have "addrs s1 m \<noteq> None \<longleftrightarrow> t_nodes s m \<noteq> None" using s1(4) v0(2) addrs_dom by metis
    finally show ?thesis .
  qed
  have mok: "main_ok s'" using okD(3) unfolding main_ok_def dom' sl' by blast
  have links': "t_links s' = t_links s |` (- links_at s n)" by (subst s'(2)) (simp add: l1 links_at_def)
  have rest: "t_list s' = remove1 n (t_list s)" "t_next s' = t_next s" "t_local_addr s' = t_local_addr s"
      "t_local_mask s' = t_local_mask s" "t_cache s' = []"
      "t_local_links s' = (if ip = here then [] else remove_local_link ip (t_local_links s))"
    by (subst s'(2), subst s1(3), simp add: s0_def)+
  have "dom (t_nodes s') = dom (t_nodes s) - {n}" using dom' by blast
  moreover have "dom (t_links s') \<subseteq> dom (t_links s)" by (auto simp: links')
  then have "\<forall>l \<in> dom (t_links s'). l < t_next s" using list_okD(4) [OF okD(4)] by blast
  ultimately have "list_ok s'"
    using okD(4) unfolding list_ok_def rest by (auto simp: set_remove1_eq)
  then have tok: "tc_ok s'" using aok(1) s'(3) mok by (simp add: tc_ok_def)
  have own: "tc_get_node a s' = ((\<lambda>ip. tc_get_node ip s) |` {a. tc_get_node a s \<noteq> Some n}) a" for a
  proof (rule tc_get_node_eqI [OF aok(1)])
    fix m
    have "(\<exists>i. slot s' m i a) \<longleftrightarrow> tc_get_node a s = Some m \<and> m \<noteq> n"
      unfolding sl' tc_get_node_iff [OF okD(1)] by blast
    then show "(\<exists>i. slot s' m i a) \<longleftrightarrow> ((\<lambda>ip. tc_get_node ip s) |` {a. tc_get_node a s \<noteq> Some n}) a = Some m"
      by (auto simp: restrict_map_def)
  qed
  have main: "main_addr s' m = (if m = n then None else main_addr s m)" for m
    by (rule main_addr_eqI [OF aok(1)]) (use main_addr_slot [OF okD(1), of m] in \<open>auto simp: sl'\<close>)
  have "(\<lambda>l. map_option (\<lambda>lk. (lk_src lk, lk_dst lk, lk_cost lk)) (t_links s' l)) =
      (\<lambda>l. case map_option (\<lambda>lk. (lk_src lk, lk_dst lk, lk_cost lk)) (t_links s l) of None \<Rightarrow> None
        | Some (a, b, c) \<Rightarrow> if a = n \<or> b = n then None else Some (a, b, c))"
    by (rule ext) (simp only: links' restrict_links_topo)
  moreover have "(\<lambda>a. tc_get_node a s') = (\<lambda>a. tc_get_node a s) |` {a. tc_get_node a s \<noteq> Some n}"
    by (rule ext) (rule own)
  moreover have "main_addr s' = (main_addr s)(n := None)" by (rule ext) (simp add: main)
  ultimately have "topo_of s' = topo_remove_node n (topo_of s)"
    using \<open>dom (t_nodes s') = dom (t_nodes s) - {n}\<close> by (simp only: topo_of_def topo_remove_node_def topo.simps)
  then show ?thesis using r tok rest here by auto
qed

section \<open>Local links\<close>

lemma find_SomeD: "List.find P xs = Some x \<Longrightarrow> P x \<and> x \<in> set xs"
  by (auto simp: find_Some_iff)

text \<open>The addresses that one interface of the local machine shares a network with.\<close>

definition reachable_by :: "tc_state \<Rightarrow> nat \<Rightarrow> nat \<Rightarrow> ip_addr \<Rightarrow> bool" where
  "reachable_by s n i b \<longleftrightarrow> i < max_alias \<and> (\<exists>j. slot s n j b) \<and>
     t_local_addr s ! i AND t_local_mask s ! i \<noteq> 0 \<and>
     b AND t_local_mask s ! i = t_local_addr s ! i AND t_local_mask s ! i"

lemma tc_update_local_link_ok:
  assumes ok: "tc_ok s" and live: "t_nodes s n = Some nd"
  shows "\<exists>ll'. tc_update_local_link n ll s = Some ll' \<and> main_addr s n = Some (ll_dst ll') \<and>
    ((\<exists>i. reachable_by s n i (ll_dst_alias ll') \<and> ll_local ll' = t_local_addr s ! i \<and> ll_mask ll' = t_local_mask s ! i) \<or>
     (\<forall>i b. \<not> reachable_by s n i b) \<and> ll_dst_alias ll' = 0 \<and> ll_local ll' = 0 \<and> ll_mask ll' = 0)"
proof -
  note okD = tc_okD [OF ok]
  note lens = list_okD(5,6) [OF okD(4)] addr_ok_length [OF okD(1) live]
  obtain ip where ip: "main_addr s n = Some ip" using main_ok_addr [OF ok live] by blast
  let ?P = "same_network (t_local_addr s) (t_local_mask s) (nd_addr nd)"
  let ?ij = "List.product [0..<max_alias] [0..<max_alias]"
  have same: "?P (i, j) \<longleftrightarrow> (\<exists>b. nd_addr nd ! j = Some b \<and> t_local_addr s ! i AND t_local_mask s ! i \<noteq> 0 \<and>
      b AND t_local_mask s ! i = t_local_addr s ! i AND t_local_mask s ! i)" if "i < max_alias" "j < max_alias" for i j
    using that lens by (auto simp: same_network_def split: option.splits)
  have sl: "slot s n j b \<longleftrightarrow> j < max_alias \<and> nd_addr nd ! j = Some b" for j b
    using live lens by (simp add: slot_def addrs_def)
  show ?thesis
  proof (cases "List.find ?P ?ij")
    case None
    then have "\<not> ?P (i, j)" if "i < max_alias" "j < max_alias" for i j
      using that by (auto simp: find_None_iff)
    then have "\<not> reachable_by s n i b" for i b using same unfolding reachable_by_def sl by blast
    then show ?thesis using None live ip by (simp add: tc_update_local_link_def Let_def)
  next
    case (Some ij)
    obtain i j where ij: "ij = (i, j)" by (cases ij)
    have lt: "?P (i, j)" "i < max_alias" "j < max_alias" using find_SomeD [OF Some] ij by auto
    then obtain b where b: "nd_addr nd ! j = Some b" "reachable_by s n i b"
      using same [OF lt(2,3)] sl unfolding reachable_by_def by blast
    then show ?thesis
      using Some ij live ip lens lt(2,3) by (auto simp: tc_update_local_link_def Let_def)
  qed
qed

lemma refresh_local_links_ok:
  assumes "tc_ok s" "t_nodes s n = Some nd"
  shows "\<exists>lls'. refresh_local_links ip n s lls = Some lls'"
proof (induction lls)
  case Nil
  show ?case by simp
next
  case (Cons ll lls)
  then show ?case using tc_update_local_link_ok [OF assms, of ll] by auto
qed

text \<open>Only the local links changed.\<close>

lemma tc_ok_local_links [simp]: "tc_ok (s\<lparr>t_local_links := x\<rparr>) = tc_ok s"
  by (simp add: tc_ok_def addr_ok_def link_ok_def main_ok_def list_ok_def slot_def)

lemma tc_ok_cache [simp]: "tc_ok (s\<lparr>t_cache := x\<rparr>) = tc_ok s"
  by (simp add: tc_ok_def addr_ok_def link_ok_def main_ok_def list_ok_def slot_def)

lemma topo_of_frame [simp]:
  "topo_of (s\<lparr>t_local_links := x\<rparr>) = topo_of s" "topo_of (s\<lparr>t_cache := y\<rparr>) = topo_of s"
  "topo_of (s\<lparr>t_local_addr := z\<rparr>) = topo_of s" "topo_of (s\<lparr>t_local_mask := w\<rparr>) = topo_of s"
  by (simp_all add: topo_of_def tc_get_node_def find_addr_def main_addr_def fun_eq_iff)

lemma tc_ok_local_addr:
  "tc_ok s \<Longrightarrow> length x = max_alias \<Longrightarrow> length y = max_alias \<Longrightarrow> tc_ok (s\<lparr>t_local_addr := x, t_local_mask := y\<rparr>)"
  by (simp add: tc_ok_def addr_ok_def link_ok_def main_ok_def list_ok_def slot_def)

lemma tc_set_local_addr_ok:
  assumes "tc_ok s"
  shows "\<exists>s'. tc_set_local_addr ip m s = Some s' \<and> tc_ok s' \<and> topo_of s' = topo_of s \<and>
    rd (t_local_addr s') 0 = Some ip"
proof -
  note l = list_okD(5,6) [OF tc_okD(4) [OF assms]]
  have "tc_set_local_addr ip m s = Some (s\<lparr>t_local_addr := (t_local_addr s)[0 := ip], t_local_mask := (t_local_mask s)[0 := m]\<rparr>)"
    using l by (simp add: tc_set_local_addr_def wr_def max_alias_def)
  moreover have "t_local_addr s \<noteq> []" using l by (auto simp: max_alias_def)
  ultimately show ?thesis using tc_ok_local_addr [OF assms] l by (cases "t_local_addr s") (simp_all add: rd_def)
qed

lemma tc_set_local_alias_ok:
  assumes "tc_ok s"
  shows "\<exists>s'. tc_set_local_alias ip m s = Some s' \<and> tc_ok s' \<and> topo_of s' = topo_of s \<and>
    rd (t_local_addr s') 0 = rd (t_local_addr s) 0"
proof (cases "List.find (\<lambda>i. rd (t_local_addr s) (int i) = Some 0) [1..<max_alias]")
  case None
  then show ?thesis using assms by (simp add: tc_set_local_alias_def)
next
  case (Some i)
  note l = list_okD(5,6) [OF tc_okD(4) [OF assms]]
  have i: "0 < i" "i < max_alias" using find_SomeD [OF Some] by auto
  then have "tc_set_local_alias ip m s = Some (s\<lparr>t_local_addr := (t_local_addr s)[i := ip], t_local_mask := (t_local_mask s)[i := m]\<rparr>)"
    using l Some by (simp add: tc_set_local_alias_def)
  moreover have "t_local_addr s \<noteq> []" using l by (auto simp: max_alias_def)
  ultimately show ?thesis using tc_ok_local_addr [OF assms] l i by (simp add: rd_def)
qed

section \<open>Aliases\<close>

lemma free_slot_Some:
  assumes "free_slot tab = Some i" "length tab = max_alias"
  shows "0 < i \<and> i < max_alias \<and> tab ! i = None"
  using find_SomeD [OF assms(1) [unfolded free_slot_def]] assms(2) by auto

text \<open>Operations that touch addresses only.\<close>

lemma tc_ok_addr_update:
  assumes ok: "tc_ok s" and a: "addr_ok s'" and fr: "s' = s\<lparr>t_hash := t_hash s', t_nodes := t_nodes s'\<rparr>"
    and v: "srcs s' = srcs s" "dsts s' = dsts s" and m: "\<And>n ip. slot s n 0 ip \<Longrightarrow> slot s' n 0 ip"
  shows "tc_ok s'" "dom (t_nodes s') = dom (t_nodes s)" "t_links s' = t_links s"
proof -
  note okD = tc_okD [OF ok]
  show l: "t_links s' = t_links s" by (subst fr) simp
  have d: "t_nodes s' n = None \<longleftrightarrow> t_nodes s n = None" for n using v(1) addrs_dom(2) by metis
  then show dd: "dom (t_nodes s') = dom (t_nodes s)" by (simp add: dom_def d)
  have "main_ok s'" using okD(3) m unfolding main_ok_def d by blast
  moreover have "link_ok s'" using okD(2) link_ok_cong [OF l v] by simp
  moreover have "t_list s' = t_list s" "t_next s' = t_next s" "t_local_addr s' = t_local_addr s" "t_local_mask s' = t_local_mask s"
    by (subst fr, simp)+
  then have "list_ok s'" using okD(4) unfolding list_ok_def dd l by simp
  ultimately show "tc_ok s'" using a by (simp add: tc_ok_def)
qed

lemma topo_of_eqI:
  assumes "dom (t_nodes s') = N" "\<And>a. tc_get_node a s' = ow a" "\<And>n. main_addr s' n = mn n"
    "\<And>l. map_option (\<lambda>lk. (lk_src lk, lk_dst lk, lk_cost lk)) (t_links s' l) = lk l"
  shows "topo_of s' = \<lparr>tp_nodes = N, tp_owner = ow, tp_main = mn, tp_links = lk\<rparr>"
  using assms by (simp add: topo_of_def fun_eq_iff)

lemma add_alias_addr_ok:
  assumes ok: "tc_ok s" and new: "tc_get_node a s = None" and nd: "t_nodes s n = Some nd"
    and fs: "free_slot (nd_addr nd) = Some i"
  shows "\<exists>s'. tc_add_node_addr n a False s = Some (s', True) \<and> tc_ok s' \<and> topo_of s' = topo_add_alias n a (topo_of s)"
proof -
  note okD = tc_okD [OF ok]
  have i: "0 < i" "i < max_alias" "nd_addr nd ! i = None"
    using free_slot_Some [OF fs addr_ok_length [OF okD(1) nd]] by auto
  have sel: "(if False then Some 0 else free_slot (nd_addr nd)) = Some i" using fs by simp
  note ad = tc_add_node_addr_ok [OF okD(1) new nd i(2,3) sel]
  define s' where "s' = s\<lparr>t_nodes := (t_nodes s)(n \<mapsto> nd\<lparr>nd_addr := (nd_addr nd)[i := Some a]\<rparr>),
     t_hash := (t_hash s)(get_hash_key a := \<lparr>na_ip = a, na_pos = int i, na_node = n\<rparr> # t_hash s (get_hash_key a))\<rparr>"
  note ad' = ad [folded s'_def]
  have fr: "s' = s\<lparr>t_hash := t_hash s', t_nodes := t_nodes s'\<rparr>" by (simp add: s'_def)
  note upd = tc_ok_addr_update [OF ok ad'(2) fr ad'(4,5)]
  have own: "tc_get_node b s' = ((\<lambda>b. tc_get_node b s)(a \<mapsto> n)) b" for b
    by (rule tc_get_node_eqI [OF ad'(2)])
      (use tc_get_node_iff [OF okD(1)] tc_get_node_None [OF okD(1)] ad'(6) new in auto)
  have main: "main_addr s' m = main_addr s m" for m
    by (rule main_addr_eqI [OF ad'(2)]) (use main_addr_slot [OF okD(1), of m] ad'(6) i(1) in auto)
  have "topo_of s' = topo_add_alias n a (topo_of s)"
    unfolding topo_add_alias_def
    by (subst topo_of_eqI [OF upd(2) own main]) (use upd ad'(6) in \<open>auto simp: topo_of_def\<close>)
  then show ?thesis using ad'(1,6) upd(1) by blast
qed

theorem tc_add_alias_ok:
  assumes ok: "tc_ok s" and n: "tc_get_node ip s = Some n" and new: "tc_get_node a s = None"
    and nd: "t_nodes s n = Some nd"
  shows "\<exists>s'. tc_add_alias True ip a s = Some s' \<and> tc_ok s' \<and> t_cache s' = t_cache s \<and>
    topo_of s' = (if free_slot (nd_addr nd) = None then topo_of s else topo_add_alias n a (topo_of s))"
proof -
  have "\<exists>s1 b. tc_add_node_addr n a False s = Some (s1, b) \<and> tc_ok s1 \<and> t_nodes s1 n \<noteq> None \<and>
      t_cache s1 = t_cache s \<and>
      topo_of s1 = (if free_slot (nd_addr nd) = None then topo_of s else topo_add_alias n a (topo_of s))"
  proof (cases "free_slot (nd_addr nd)")
    case None
    then show ?thesis using ok nd by (simp add: tc_add_node_addr_def exI [of _ False])
  next
    case (Some i)
    obtain s1 where s1: "tc_add_node_addr n a False s = Some (s1, True)" "tc_ok s1"
        "topo_of s1 = topo_add_alias n a (topo_of s)"
      using add_alias_addr_ok [OF ok new nd Some] by blast
    moreover have "t_nodes s1 n \<noteq> None" "t_cache s1 = t_cache s"
      using s1(1) nd Some by (auto simp: tc_add_node_addr_def Let_def bind_eq_Some_conv)
    ultimately show ?thesis using Some by auto
  qed
  then obtain s1 b where s1: "tc_add_node_addr n a False s = Some (s1, b)" "tc_ok s1" "t_nodes s1 n \<noteq> None"
      "t_cache s1 = t_cache s"
      "topo_of s1 = (if free_slot (nd_addr nd) = None then topo_of s else topo_add_alias n a (topo_of s))" by blast
  obtain lls where "refresh_local_links ip n s1 (t_local_links s1) = Some lls"
    using refresh_local_links_ok [OF s1(2)] s1(3) by blast
  then show ?thesis using s1 n by (simp add: tc_add_alias_def)
qed

theorem tc_remove_alias_ok:
  assumes ok: "tc_ok s" and n: "tc_get_node ip s = Some n" and main: "\<And>m. main_addr s m \<noteq> Some a"
  shows "\<exists>s'. tc_remove_alias ip a s = Some s' \<and> tc_ok s' \<and> topo_of s' = topo_remove_alias a (topo_of s)"
proof -
  note okD = tc_okD [OF ok]
  have "\<exists>s1. tc_rmv_node_addr a s = Some s1 \<and> tc_ok s1 \<and> topo_of s1 = topo_remove_alias a (topo_of s)"
  proof (cases "tc_get_node a s")
    case None
    then have "tc_rmv_node_addr a s = Some s"
      by (auto simp: tc_rmv_node_addr_def tc_get_node_def)
    moreover have "topo_of s = topo_remove_alias a (topo_of s)"
      using None by (auto simp: topo_of_def topo_remove_alias_def fun_eq_iff)
    ultimately show ?thesis using ok by auto
  next
    case (Some m)
    then obtain i where sl: "slot s m i a" using tc_get_node_iff [OF okD(1)] by blast
    have nomain: "\<not> slot s k 0 a" for k using main [of k] main_addr_slot [OF okD(1), of k a] by simp
    obtain s1 nd where s1: "t_nodes s m = Some nd"
        "tc_rmv_node_addr a s = Some s1" "addr_ok s1"
        "s1 = s\<lparr>t_hash := t_hash s1, t_nodes := (t_nodes s)(m \<mapsto> nd\<lparr>nd_addr := (nd_addr nd)[i := None]\<rparr>)\<rparr>"
        "\<forall>n' j b. slot s1 n' j b \<longleftrightarrow> slot s n' j b \<and> b \<noteq> a"
      using tc_rmv_node_addr_ok [OF okD(1) sl] by (elim exE conjE) (rule that)
    have tn: "t_nodes s1 = (t_nodes s)(m \<mapsto> nd\<lparr>nd_addr := (nd_addr nd)[i := None]\<rparr>)" by (subst s1(4)) simp
    have v: "srcs s1 = srcs s" "dsts s1 = dsts s" using tn s1(1) by (auto simp: views)
    have fr: "s1 = s\<lparr>t_hash := t_hash s1, t_nodes := t_nodes s1\<rparr>" using s1(4) tn by simp
    have keep: "slot s n' 0 b \<Longrightarrow> slot s1 n' 0 b" for n' b
      using s1(5) nomain by auto
    note upd = tc_ok_addr_update [OF ok s1(3) fr v keep]
    have own: "tc_get_node b s1 = ((\<lambda>b. tc_get_node b s)(a := None)) b" for b
      by (rule tc_get_node_eqI [OF s1(3)]) (use tc_get_node_iff [OF okD(1)] s1(5) in auto)
    have mn: "main_addr s1 k = main_addr s k" for k
      by (rule main_addr_eqI [OF s1(3)]) (use main_addr_slot [OF okD(1), of k] s1(5) keep in blast)
    have "topo_of s1 = topo_remove_alias a (topo_of s)"
      unfolding topo_remove_alias_def
      by (subst topo_of_eqI [OF upd(2) own mn]) (use upd in \<open>auto simp: topo_of_def\<close>)
    then show ?thesis using s1(2) upd(1) by blast
  qed
  then obtain s1 where s1: "tc_rmv_node_addr a s = Some s1" "tc_ok s1" "topo_of s1 = topo_remove_alias a (topo_of s)" by blast
  have "tp_nodes (topo_of s1) = tp_nodes (topo_of s)" by (simp add: s1(3) topo_remove_alias_def)
  then have "dom (t_nodes s1) = dom (t_nodes s)" by (simp add: topo_of_def)
  moreover have "n \<in> dom (t_nodes s)" using n tc_get_node_iff [OF okD(1)] slot_live by fastforce
  ultimately obtain nd where "t_nodes s1 n = Some nd" by blast
  then obtain lls where "refresh_local_links ip n s1 (t_local_links s1) = Some lls"
    using refresh_local_links_ok [OF s1(2)] by blast
  then show ?thesis using s1 n by (simp add: tc_remove_alias_def)
qed

section \<open>Adding and removing a link\<close>

text \<open>Operations that touch links only.\<close>

lemma tc_ok_link_update:
  assumes ok: "tc_ok s" and l: "link_ok s'" and a: "addrs s' = addrs s" "t_hash s' = t_hash s" "t_list s' = t_list s"
    "t_local_addr s' = t_local_addr s" "t_local_mask s' = t_local_mask s" "t_next s \<le> t_next s'"
    and d: "\<And>l. t_links s' l \<noteq> None \<Longrightarrow> l < t_next s'"
  shows "tc_ok s'" "topo_of s' = (topo_of s)\<lparr>tp_links := tp_links (topo_of s')\<rparr>"
proof -
  note okD = tc_okD [OF ok]
  have n: "t_nodes s' m = None \<longleftrightarrow> t_nodes s m = None" for m using a(1) addrs_dom(1) by metis
  have dd: "dom (t_nodes s') = dom (t_nodes s)" by (simp add: dom_def n)
  have aok: "addr_ok s'" using okD(1) addr_ok_cong [OF a(2,1)] by simp
  have "main_ok s'" using okD(3) slot_cong [OF a(1)] unfolding main_ok_def n by simp
  moreover have "\<forall>n \<in> dom (t_nodes s). n < t_next s'" using list_okD(3) [OF okD(4)] a(6) by (meson less_le_trans)
  moreover have "\<forall>l \<in> dom (t_links s'). l < t_next s'" unfolding dom_def using d by blast
  ultimately show "tc_ok s'"
    using list_okD [OF okD(4)] aok l unfolding tc_ok_def list_ok_def dd a by blast
  have "tc_get_node b s' = tc_get_node b s" for b by (simp add: tc_get_node_def find_addr_def a)
  moreover have "main_addr s' m = main_addr s m" for m
    by (rule main_addr_eqI [OF aok]) (simp add: main_addr_slot [OF okD(1)] slot_cong [OF a(1)])
  ultimately show "topo_of s' = (topo_of s)\<lparr>tp_links := tp_links (topo_of s')\<rparr>"
    by (simp add: topo_of_def dd fun_eq_iff)
qed

lemma link_ok_insert:
  assumes ok: "link_ok s" and fresh: "t_links s l = None" and live: "srcs s a \<noteq> None" "dsts s b \<noteq> None"
    and t: "t_links s' = (t_links s)(l \<mapsto> lk)" "lk_src lk = a" "lk_dst lk = b"
    and S: "srcs s' = (srcs s)(a := map_option (Cons l) (srcs s a))"
    and D: "dsts s' = (dsts s)(b := map_option (Cons l) (dsts s b))"
  shows "link_ok s'"
proof (rule link_okI)
  note lD = link_okD [OF ok]
  fix k lk'
  assume k: "t_links s' k = Some lk'"
  show "(\<exists>ls. srcs s' (lk_src lk') = Some ls \<and> k \<in> set ls) \<and> (\<exists>ls. dsts s' (lk_dst lk') = Some ls \<and> k \<in> set ls)"
  proof (cases "k = l")
    case True
    then have "lk' = lk" using k by (simp add: t(1))
    then show ?thesis using live True by (auto simp: t(2,3) S D)
  next
    case False
    then have "t_links s k = Some lk'" using k by (simp add: t)
    from lD(1,2) [OF this] show ?thesis by (auto simp: S D)
  qed
next
  note lD = link_okD [OF ok]
  fix m ls
  have new: "l \<notin> set xs" if "srcs s m = Some xs \<or> dsts s m = Some xs" for xs
    using that lD(5,6) [of m xs l] fresh by auto
  show "srcs s' m = Some ls \<Longrightarrow> distinct ls \<and> (\<forall>l \<in> set ls. \<exists>lk. t_links s' l = Some lk \<and> lk_src lk = m)"
    using lD(3) lD(5) new by (fastforce simp: S t split: if_splits)
  show "dsts s' m = Some ls \<Longrightarrow> distinct ls \<and> (\<forall>l \<in> set ls. \<exists>lk. t_links s' l = Some lk \<and> lk_dst lk = m)"
    using lD(4) lD(6) new by (fastforce simp: D t split: if_splits)
qed

lemma topo_add_linkI:
  "t_links s' = (t_links s)(l \<mapsto> lk) \<Longrightarrow>
   (topo_of s)\<lparr>tp_links := tp_links (topo_of s')\<rparr> = topo_add_link l (lk_src lk) (lk_dst lk) (lk_cost lk) (topo_of s)"
  by (auto simp: topo_add_link_def topo_of_def fun_eq_iff)

lemma insert_link_ok:
  assumes ok: "tc_ok s" and a: "t_nodes s a \<noteq> None" and b: "t_nodes s b \<noteq> None"
  shows "\<exists>s' lls. insert_link a b c here s = Some s' \<and> tc_ok s' \<and> t_cache s' = t_cache s \<and>
    topo_of s' = topo_add_link (t_next s) a b (of_int c) (topo_of s) \<and>
    t_local_links s' = lls @ t_local_links s \<and>
    (if here then \<exists>ll. lls = [ll] \<and> main_addr s b = Some (ll_dst ll) else lls = [])"
proof -
  note okD = tc_okD [OF ok]
  let ?l = "t_next s"
  define ll0 where "ll0 = \<lparr>ll_dst = 0 :: ip_addr, ll_dst_alias = 0, ll_local = 0, ll_mask = 0\<rparr>"
  obtain na where na: "t_nodes s a = Some na" using a by blast
  obtain nb0 where nb0: "t_nodes s b = Some nb0" using b by blast
  obtain ll where ll: "tc_update_local_link b ll0 s = Some ll" "main_addr s b = Some (ll_dst ll)"
    using tc_update_local_link_ok [OF ok nb0, of ll0] by blast
  define lls where "lls = (if here then [ll] else [])"
  define lk where "lk = \<lparr>lk_src = a, lk_dst = b, lk_cost = of_int c :: ulong, lk_dcost = 0, lk_dcost_p1 = 0\<rparr>"
  define s1 where "s1 = s\<lparr>t_local_links := lls @ t_local_links s, t_next := ?l + 1, t_links := (t_links s)(?l \<mapsto> lk),
    t_nodes := (t_nodes s)(a \<mapsto> na\<lparr>nd_src := ?l # nd_src na\<rparr>)\<rparr>"
  obtain nb where nb: "t_nodes s1 b = Some nb" "nd_dst nb = nd_dst nb0" "nd_addr nb = nd_addr nb0"
    using nb0 na by (cases "a = b") (auto simp: s1_def)
  define s' where "s' = s1\<lparr>t_nodes := (t_nodes s1)(b \<mapsto> nb\<lparr>nd_dst := ?l # nd_dst nb\<rparr>)\<rparr>"
  have r: "insert_link a b c here s = Some s'"
    using ll(1) na nb(1) by (simp add: insert_link_def lls_def s'_def s1_def lk_def ll0_def Let_def)
  have fresh: "t_links s ?l = None" using list_okD(4) [OF okD(4), of ?l] by (cases "t_links s ?l") auto
  have t: "t_links s' = (t_links s)(?l \<mapsto> lk)" by (simp add: s'_def s1_def)
  have v1: "addrs s1 = addrs s" "srcs s1 = (srcs s)(a := map_option (Cons ?l) (srcs s a))" "dsts s1 = dsts s"
    using na by (auto simp: views s1_def)
  have v2: "addrs s' = addrs s1" "srcs s' = srcs s1" "dsts s' = (dsts s1)(b := map_option (Cons ?l) (dsts s1 b))"
    using nb(1) by (auto simp: views s'_def)
  have "link_ok s'"
    by (rule link_ok_insert [OF okD(2) fresh _ _ t]) (use a b v1 v2 in \<open>simp_all add: lk_def addrs_dom\<close>)
  moreover have "addrs s' = addrs s" by (simp add: v1 v2)
  moreover have "l < t_next s'" if "t_links s' l \<noteq> None" for l
    using that list_okD(4) [OF okD(4), of l] t by (auto simp: s'_def s1_def less_Suc_eq split: if_splits)
  ultimately have fin: "tc_ok s'" "topo_of s' = (topo_of s)\<lparr>tp_links := tp_links (topo_of s')\<rparr>"
    using tc_ok_link_update [OF ok, of s'] by (simp_all add: s'_def s1_def)
  have "topo_of s' = topo_add_link ?l a b (of_int c) (topo_of s)"
    using fin(2) topo_add_linkI [OF t] by (simp add: lk_def)
  moreover have "t_local_links s' = lls @ t_local_links s" "t_cache s' = t_cache s" by (simp_all add: s'_def s1_def)
  ultimately show ?thesis using r fin(1) ll(2) by (auto simp: lls_def)
qed

theorem tc_add_link_ok:
  assumes ok: "tc_ok s" and a: "tc_get_node ip_a s = Some a" and b: "tc_get_node ip_b s = Some b"
  shows "\<exists>s' lls. tc_add_link True True ip_a ip_b c s = Some s' \<and> tc_ok s' \<and> t_cache s' = [] \<and>
    topo_of s' = topo_add_link (t_next s) a b (of_int c) (topo_of s) \<and>
    t_local_links s' = lls @ t_local_links s \<and>
    (if rd (t_local_addr s) 0 = Some ip_a then \<exists>ll. lls = [ll] \<and> main_addr s b = Some (ll_dst ll) else lls = [])"
proof -
  note okD = tc_okD [OF ok]
  obtain here where here: "rd (t_local_addr s) 0 = Some here" using here_ok [OF okD(4)] by blast
  define s0 where "s0 = s\<lparr>t_cache := []\<rparr>"
  have "t_nodes s a \<noteq> None" "t_nodes s b \<noteq> None"
    using a b tc_get_node_iff [OF okD(1)] slot_live by fastforce+
  then have live: "t_nodes s0 a \<noteq> None" "t_nodes s0 b \<noteq> None" by (simp_all add: s0_def)
  have g: "tc_get_node ip s0 = tc_get_node ip s" "main_addr s0 n = main_addr s n" for ip n
    by (simp_all add: s0_def tc_get_node_def find_addr_def main_addr_def)
  have ok0: "tc_ok s0" using ok by (simp add: s0_def)
  have r: "tc_add_link True True ip_a ip_b c s = insert_link a b c (ip_a = here) s0"
    using here a b g by (simp add: tc_add_link_def s0_def Let_def)
  have f: "topo_of s0 = topo_of s" "t_next s0 = t_next s" "t_local_links s0 = t_local_links s" "t_cache s0 = []"
    by (simp_all add: s0_def)
  obtain s' lls where x: "insert_link a b c (ip_a = here) s0 = Some s'" "tc_ok s'" "t_cache s' = []"
      "topo_of s' = topo_add_link (t_next s) a b (of_int c) (topo_of s)" "t_local_links s' = lls @ t_local_links s"
      "if ip_a = here then \<exists>ll. lls = [ll] \<and> main_addr s b = Some (ll_dst ll) else lls = []"
    using insert_link_ok [OF ok0 live, of c "ip_a = here"] unfolding f g by blast
  then show ?thesis unfolding r here by (intro exI [of _ s'] exI [of _ lls]) auto
qed

definition leads_to :: "tc_state \<Rightarrow> ip_addr \<Rightarrow> nat \<Rightarrow> bool" where
  "leads_to s ip l \<longleftrightarrow> (\<exists>lk. t_links s l = Some lk \<and> main_addr s (lk_dst lk) = Some ip)"

lemma find_link_eq:
  assumes "\<And>l. l \<in> set ls \<Longrightarrow> \<exists>lk ip. t_links s l = Some lk \<and> main_addr s (lk_dst lk) = Some ip"
  shows "find_link s ip ls = Some (List.find (leads_to s ip) ls)"
  using assms
proof (induction ls)
  case Nil
  show ?case by simp
next
  case (Cons l ls)
  obtain lk a where "t_links s l = Some lk" "main_addr s (lk_dst lk) = Some a" using Cons.prems [of l] by auto
  then show ?case using Cons by (auto simp: leads_to_def)
qed

lemma link_ok_delete:
  assumes ok: "link_ok s" and lk: "t_links s l = Some lk"
    and t: "t_links s' = (t_links s)(l := None)"
    and S: "srcs s' = (\<lambda>n. map_option (filter (\<lambda>x. x \<noteq> l)) (srcs s n))"
    and D: "dsts s' = (\<lambda>n. map_option (filter (\<lambda>x. x \<noteq> l)) (dsts s n))"
  shows "link_ok s'"
proof (rule link_okI)
  note lD = link_okD [OF ok]
  fix k lk'
  assume "t_links s' k = Some lk'"
  then have k: "k \<noteq> l" "t_links s k = Some lk'" by (auto simp: t split: if_splits)
  then show "(\<exists>ls. srcs s' (lk_src lk') = Some ls \<and> k \<in> set ls) \<and> (\<exists>ls. dsts s' (lk_dst lk') = Some ls \<and> k \<in> set ls)"
    using lD(1,2) [OF k(2)] by (auto simp: S D)
next
  note lD = link_okD [OF ok]
  fix m ls
  show "srcs s' m = Some ls \<Longrightarrow> distinct ls \<and> (\<forall>l \<in> set ls. \<exists>lk. t_links s' l = Some lk \<and> lk_src lk = m)"
    using lD(3,5) by (auto simp: S t)
  show "dsts s' m = Some ls \<Longrightarrow> distinct ls \<and> (\<forall>l \<in> set ls. \<exists>lk. t_links s' l = Some lk \<and> lk_dst lk = m)"
    using lD(4,6) by (auto simp: D t)
qed

lemma delete_link_ok:
  assumes ok: "tc_ok s" and lk: "t_links s l = Some lk"
  shows "\<exists>s'. do { s \<leftarrow> unlink_dst l s; s \<leftarrow> unlink_src l s; free_link l s } = Some s' \<and> tc_ok s' \<and>
    s' = s\<lparr>t_nodes := t_nodes s', t_links := (t_links s)(l := None)\<rparr> \<and>
    topo_of s' = topo_remove_link l (topo_of s)"
proof -
  note okD = tc_okD [OF ok] and half = half_link_ok [OF tc_okD(2) [OF ok]]
  have live: "t_nodes s (lk_src lk) \<noteq> None" "t_nodes s (lk_dst lk) \<noteq> None"
    using link_okD(1,2) [OF okD(2) lk] addrs_dom(2,3) [of s] by (metis option.distinct(1))+
  obtain s1 where s1: "iter [l] unlink_dst s = Some s1" "s1 = s\<lparr>t_nodes := t_nodes s1\<rparr>" "addrs s1 = addrs s"
      "srcs s1 = srcs s" "dsts s1 = (\<lambda>m. map_option (filter (\<lambda>x. x \<notin> set [l])) (dsts s m))"
    using unlink_dst_loop [OF _ half(2), of "[l]"] lk live(2) by (auto simp: dst_end_def)
  have l1: "t_links s1 = t_links s" by (subst s1(2)) simp
  have h1: "half_ok (src_end s1) (srcs s1)"
  proof -
    have "src_end s1 = src_end s" by (simp add: src_end_def l1 fun_eq_iff)
    then show ?thesis using half(1) s1(4) by simp
  qed
  have live1: "t_nodes s1 (lk_src lk) \<noteq> None" using live(1) s1(3) addrs_dom(1) by metis
  obtain s2 where s2: "iter [l] unlink_src s1 = Some s2" "s2 = s1\<lparr>t_nodes := t_nodes s2\<rparr>" "addrs s2 = addrs s1"
      "dsts s2 = dsts s1" "srcs s2 = (\<lambda>m. map_option (filter (\<lambda>x. x \<notin> set [l])) (srcs s1 m))"
    using unlink_src_loop [OF _ h1, of "[l]"] lk live1 l1 by (auto simp: src_end_def)
  define s' where "s' = s2\<lparr>t_links := (t_links s)(l := None)\<rparr>"
  have l2: "t_links s2 = t_links s" by (subst s2(2)) (simp add: l1)
  have r: "do { s \<leftarrow> unlink_dst l s; s \<leftarrow> unlink_src l s; free_link l s } = Some s'"
  proof -
    have "unlink_dst l s = Some s1" "unlink_src l s1 = Some s2"
      using s1(1) s2(1) by (auto split: bind_splits)
    then show ?thesis using lk by (simp add: free_link_def l2 s'_def)
  qed
  have fr: "s' = s\<lparr>t_nodes := t_nodes s', t_links := (t_links s)(l := None)\<rparr>"
    using s1(2) s2(2) by (cases s, cases s1, cases s2, cases s') (simp add: s'_def)
  have t: "t_links s' = (t_links s)(l := None)" by (simp add: s'_def)
  have v: "srcs s' = (\<lambda>n. map_option (filter (\<lambda>x. x \<noteq> l)) (srcs s n))"
    "dsts s' = (\<lambda>n. map_option (filter (\<lambda>x. x \<noteq> l)) (dsts s n))" "addrs s' = addrs s"
    by (simp_all add: s'_def s1(3-5) s2(3-5))
  have "link_ok s'" by (rule link_ok_delete [OF okD(2) lk t v(1,2)])
  moreover have "t_hash s' = t_hash s" "t_list s' = t_list s" "t_local_addr s' = t_local_addr s"
    "t_local_mask s' = t_local_mask s" "t_next s' = t_next s" by (subst fr, simp)+
  moreover have "k < t_next s" if "t_links s' k \<noteq> None" for k
    using that list_okD(4) [OF okD(4), of k] by (auto simp: t split: if_splits)
  ultimately have fin: "tc_ok s'" "topo_of s' = (topo_of s)\<lparr>tp_links := tp_links (topo_of s')\<rparr>"
    using tc_ok_link_update [OF ok, of s'] v(3) by simp_all
  have "(topo_of s)\<lparr>tp_links := tp_links (topo_of s')\<rparr> = topo_remove_link l (topo_of s)"
    by (auto simp: topo_remove_link_def topo_of_def t fun_eq_iff)
  then show ?thesis using r fin fr by metis
qed

theorem tc_remove_link_ok:
  assumes ok: "tc_ok s" and a: "tc_get_node ip_a s = Some a"
  shows "\<exists>s'. tc_remove_link ip_a ip_b s = Some s' \<and> tc_ok s' \<and> t_cache s' = [] \<and>
    (case List.find (leads_to s ip_b) (the (srcs s a)) of
       None \<Rightarrow> topo_of s' = topo_of s \<and> t_local_links s' = t_local_links s
     | Some l \<Rightarrow> topo_of s' = topo_remove_link l (topo_of s) \<and>
         t_local_links s' = (if rd (t_local_addr s) 0 = Some ip_a then remove_local_link ip_b (t_local_links s)
                             else t_local_links s))"
proof -
  note okD = tc_okD [OF ok]
  obtain here where here: "rd (t_local_addr s) 0 = Some here" using here_ok [OF okD(4)] by blast
  define s0 where "s0 = s\<lparr>t_cache := []\<rparr>"
  have ok0: "tc_ok s0" using ok by (simp add: s0_def)
  note okD0 = tc_okD [OF ok0]
  have f: "topo_of s0 = topo_of s" "t_local_links s0 = t_local_links s" "t_cache s0 = []"
    "t_local_addr s0 = t_local_addr s" "srcs s0 = srcs s" by (simp_all add: s0_def)
  have g: "tc_get_node ip s0 = tc_get_node ip s" "leads_to s0 ip = leads_to s ip" for ip
    by (auto simp: s0_def tc_get_node_def find_addr_def main_addr_def leads_to_def fun_eq_iff)
  have "t_nodes s a \<noteq> None" using a tc_get_node_iff [OF okD(1)] slot_live by fastforce
  then obtain na where na: "t_nodes s0 a = Some na" by (auto simp: s0_def)
  have S: "srcs s0 a = Some (nd_src na)" using na by (simp add: views)
  then have S': "the (srcs s a) = nd_src na" by (simp add: f)
  have lk: "\<exists>lk. t_links s0 l = Some lk" if "l \<in> set (nd_src na)" for l
    using link_okD(5) [OF okD0(2) S that] by blast
  have "\<exists>lk ip. t_links s0 l = Some lk \<and> main_addr s0 (lk_dst lk) = Some ip" if l: "l \<in> set (nd_src na)" for l
  proof -
    obtain lk where k: "t_links s0 l = Some lk" using lk [OF l] by blast
    obtain nd where "t_nodes s0 (lk_dst lk) = Some nd"
      using link_okD(2) [OF okD0(2) k] by (auto simp: views)
    then show ?thesis using k main_ok_addr [OF ok0] by blast
  qed
  then have find: "find_link s0 ip_b (nd_src na) = Some (List.find (leads_to s ip_b) (nd_src na))"
    using find_link_eq [of "nd_src na" s0 ip_b] by (simp add: g)
  have aa: "tc_get_node ip_a s0 = Some a" using a g by simp
  show ?thesis
  proof (cases "List.find (leads_to s ip_b) (nd_src na)")
    case None
    then have "tc_remove_link ip_a ip_b s = Some s0"
      using aa na find by (simp add: tc_remove_link_def s0_def Let_def)
    then show ?thesis using None ok0 f S' by simp
  next
    case (Some l)
    then obtain lk where lk: "t_links s0 l = Some lk" using find_SomeD [OF Some] lk by blast
    from delete_link_ok [OF ok0 lk] obtain s1 where s1:
        "do { s \<leftarrow> unlink_dst l s0; s \<leftarrow> unlink_src l s; free_link l s } = Some s1" "tc_ok s1"
        "s1 = s0\<lparr>t_nodes := t_nodes s1, t_links := (t_links s0)(l := None)\<rparr>"
        "topo_of s1 = topo_remove_link l (topo_of s0)" by (elim exE conjE)
    obtain u w where u: "unlink_dst l s0 = Some u" "unlink_src l u = Some w" "free_link l w = Some s1"
      using s1(1) by (auto simp: bind_eq_Some_conv)
    have "t_local_addr w = t_local_addr s"
      using u(1,2) by (auto simp: unlink_dst_def unlink_src_def bind_eq_Some_conv s0_def)
    moreover have "t_local_links s1 = t_local_links s" "t_cache s1 = []" by (subst s1(3), simp add: f)+
    moreover define s' where "s' = s1\<lparr>t_local_links := (if ip_a = here then remove_local_link ip_b (t_local_links s1)
        else t_local_links s1)\<rparr>"
    ultimately have "tc_remove_link ip_a ip_b s = Some s'"
      using aa na find Some u here by (simp add: tc_remove_link_def s0_def Let_def)
    then show ?thesis
      using Some s1(2,4) f here S' \<open>t_local_links s1 = t_local_links s\<close> \<open>t_cache s1 = []\<close> by (auto simp: s'_def)
  qed
qed

section \<open>Freeing everything\<close>

definition links_from :: "tc_state \<Rightarrow> nat set \<Rightarrow> nat set" where
  "links_from s N = {l. \<exists>lk. t_links s l = Some lk \<and> lk_src lk \<in> N}"

lemma free_nodes_loop:
  assumes "half_ok (src_end s) (srcs s)" "distinct ns" "\<And>n. n \<in> set ns \<Longrightarrow> t_nodes s n \<noteq> None"
    and "\<And>n l lk. n \<in> set ns \<Longrightarrow> t_links s l = Some lk \<Longrightarrow> lk_src lk = n \<Longrightarrow> l \<in> set (the (srcs s n))"
  shows "iter ns free_node s = Some (s\<lparr>t_nodes := t_nodes s |` (- set ns),
    t_links := t_links s |` (- links_from s (set ns))\<rparr>)"
  using assms
proof (induction ns arbitrary: s)
  case Nil
  have "links_from s {} = {}" by (simp add: links_from_def)
  then show ?case by (simp add: restrict_map_def)
next
  case (Cons n ns)
  obtain nd where nd: "t_nodes s n = Some nd" using Cons.prems(3) [of n] by auto
  have sn: "srcs s n = Some (nd_src nd)" using nd by (simp add: views)
  have dist: "distinct (nd_src nd)" using Cons.prems(1) sn unfolding half_ok_def by blast
  have ends: "src_end s l = Some n" if "l \<in> set (nd_src nd)" for l
    using Cons.prems(1) sn that unfolding half_ok_def by blast
  have R: "set (nd_src nd) = links_from s {n}"
    using ends Cons.prems(4) [of n] sn by (fastforce simp: links_from_def src_end_def)
  have "set (nd_src nd) \<subseteq> dom (t_links s)" using ends by (fastforce simp: src_end_def)
  note f = free_link_loop [OF dist this]
  define s1 where "s1 = s\<lparr>t_links := t_links s |` (- links_from s {n}), t_nodes := (t_nodes s)(n := None)\<rparr>"
  have r: "free_node n s = Some s1" using nd f R by (simp add: free_node_def s1_def)
  have t1: "t_links s1 l = (if l \<in> links_from s {n} then None else t_links s l)" for l
    by (simp add: s1_def restrict_map_def)
  have src1: "srcs s1 m = (if m = n then None else srcs s m)" for m by (simp add: views s1_def)
  have e1: "src_end s1 l = (if l \<in> links_from s {n} then None else src_end s l)" for l
    by (simp add: src_end_def t1)
  have h1: "half_ok (src_end s1) (srcs s1)"
    unfolding half_ok_def
  proof (intro allI impI)
    fix m ls
    assume "srcs s1 m = Some ls"
    then have m: "m \<noteq> n" "srcs s m = Some ls" by (auto simp: src1 split: if_splits)
    then have "distinct ls" "\<forall>l \<in> set ls. src_end s l = Some m" using Cons.prems(1) unfolding half_ok_def by blast+
    moreover have "l \<notin> links_from s {n}" if "src_end s l = Some m" for l
      using that m(1) by (auto simp: src_end_def links_from_def)
    ultimately show "distinct ls \<and> (\<forall>l \<in> set ls. src_end s1 l = Some m)" by (simp add: e1)
  qed
  have nn: "n \<notin> set ns" "distinct ns" using Cons.prems(2) by auto
  have live: "t_nodes s1 m \<noteq> None" if "m \<in> set ns" for m
    using Cons.prems(3) [of m] that nn by (auto simp: s1_def)
  have mem: "l \<in> set (the (srcs s1 m))" if "m \<in> set ns" "t_links s1 l = Some lk" "lk_src lk = m" for m l lk
    using Cons.prems(4) [of m l lk] that nn by (auto simp: t1 src1 split: if_splits)
  have "t_nodes s1 |` (- set ns) = t_nodes s |` (- set (n # ns))"
    by (auto simp: s1_def restrict_map_def fun_eq_iff)
  moreover have "t_links s1 |` (- links_from s1 (set ns)) = t_links s |` (- links_from s (set (n # ns)))"
    by (rule ext) (auto simp: restrict_map_def t1 links_from_def)
  ultimately have fin: "s1\<lparr>t_nodes := t_nodes s1 |` (- set ns), t_links := t_links s1 |` (- links_from s1 (set ns))\<rparr> =
      s\<lparr>t_nodes := t_nodes s |` (- set (n # ns)), t_links := t_links s |` (- links_from s (set (n # ns)))\<rparr>"
    by (simp only:) (simp add: s1_def)
  have "iter ns free_node s1 = Some (s1\<lparr>t_nodes := t_nodes s1 |` (- set ns),
      t_links := t_links s1 |` (- links_from s1 (set ns))\<rparr>)"
    by (rule Cons.IH) (use h1 nn live mem in blast)+
  then show ?case using r fin by simp
qed

theorem tc_free_data_ok:
  assumes ok: "tc_ok s"
  shows "tc_free_data s = Some (tc_empty\<lparr>t_next := t_next s\<rparr>)"
proof -
  note okD = tc_okD [OF ok]
  note lst = list_okD [OF okD(4)]
  have live: "t_nodes s n \<noteq> None" if "n \<in> set (t_list s)" for n using that lst(2) by auto
  have mem: "l \<in> set (the (srcs s n))" if "n \<in> set (t_list s)" "t_links s l = Some lk" "lk_src lk = n" for n l lk
    using link_okD(1) [OF okD(2) that(2)] that(3) by auto
  note loop = free_nodes_loop [OF half_link_ok(1) [OF okD(2)] lst(1) live mem]
  have "t_nodes s |` (- set (t_list s)) = Map.empty"
    by (rule ext) (auto simp: restrict_map_def lst(2))
  moreover have "t_links s |` (- links_from s (set (t_list s))) = Map.empty"
  proof (rule ext)
    fix l
    show "(t_links s |` (- links_from s (set (t_list s)))) l = None"
    proof (cases "t_links s l")
      case (Some lk)
      have "srcs s (lk_src lk) \<noteq> None" using link_okD(1) [OF okD(2) Some] by auto
      then have "lk_src lk \<in> set (t_list s)" unfolding addrs_dom lst(2) by blast
      then have "l \<in> links_from s (set (t_list s))" using Some by (auto simp: links_from_def)
      then show ?thesis by (simp add: restrict_map_def)
    qed (simp add: restrict_map_def)
  qed
  ultimately show ?thesis
    by (simp add: tc_free_data_def loop tc_empty_def)
qed

lemma tc_empty_ok: "tc_ok (tc_empty\<lparr>t_next := n\<rparr>)"
  by (simp add: tc_ok_def addr_ok_def link_ok_def main_ok_def list_ok_def tc_empty_def slot_def views)

end
