(* ===== verification/Tc_Shortest.thy ===== *)
theory Tc_Shortest imports Tc_Dijkstra Tc_Ops begin

text \<open>
  Correctness of \<open>dijkstra\<close>: on a well-formed store whose link costs cannot overflow, the cost of
  every node is the length of a shortest route from the source, nodes without a route keep the cost \<open>-1\<close>, and following the
  predecessor pointers from a node gives such a route.
\<close>

section \<open>Reading the fields of a node\<close>

definition node_of :: "tc_state \<Rightarrow> nat \<Rightarrow> tc_node" where "node_of s v = the (t_nodes s v)"

definition cost :: "tc_state \<Rightarrow> nat \<Rightarrow> nat" where "cost s v = unat (nd_cost (node_of s v))"

definition infinite :: nat where "infinite = unat no_cost"

definition live :: "tc_state \<Rightarrow> nat \<Rightarrow> bool" where "live s v \<longleftrightarrow> t_nodes s v \<noteq> None"

lemma liveD: "live s v \<Longrightarrow> t_nodes s v = Some (node_of s v)"
  by (auto simp: live_def node_of_def)

lemma infinite_eq: "infinite = 2 ^ 32 - 1"
  by (simp add: infinite_def no_cost_def unsigned_minus_1_eq_mask mask_eq_exp_minus_1)

lemma infinite_pos: "0 < infinite"
proof -
  have "(1 :: nat) < 2 ^ 32" by simp
  then show ?thesis unfolding infinite_eq by linarith
qed

lemma cost_le: "cost s v \<le> infinite"
  unfolding cost_def infinite_def no_cost_def word_le_nat_alt [symmetric] by (rule word_order.extremum)

lemma no_cost_iff: "nd_cost (node_of s v) = no_cost \<longleftrightarrow> cost s v = infinite"
  by (simp add: cost_def infinite_def word_unat_eq_iff)

section \<open>Routes\<close>

text \<open>A route from \<open>a\<close> over the nodes \<open>vs\<close>, of total length \<open>c\<close>.\<close>

fun route :: "tc_state \<Rightarrow> nat \<Rightarrow> nat list \<Rightarrow> nat \<Rightarrow> bool" where
  "route s a [] c \<longleftrightarrow> c = 0"
| "route s a (v # vs) c \<longleftrightarrow> (\<exists>l lk c'. t_links s l = Some lk \<and> lk_src lk = a \<and> lk_dst lk = v \<and>
     c = unat (lk_dcost lk) + c' \<and> route s v vs c')"

lemma route_append:
  "route s a (xs @ ys) c \<longleftrightarrow> (\<exists>c1 c2. c = c1 + c2 \<and> route s a xs c1 \<and> route s (last (a # xs)) ys c2)"
proof (induction xs arbitrary: a c)
  case Nil
  show ?case by auto
next
  case (Cons x xs)
  have "route s a ((x # xs) @ ys) c \<longleftrightarrow> (\<exists>l lk c'. t_links s l = Some lk \<and> lk_src lk = a \<and> lk_dst lk = x \<and>
      c = unat (lk_dcost lk) + c' \<and> (\<exists>c1 c2. c' = c1 + c2 \<and> route s x xs c1 \<and> route s (last (x # xs)) ys c2))"
    using Cons.IH by simp
  also have "\<dots> \<longleftrightarrow> (\<exists>c1 c2. c = c1 + c2 \<and> route s a (x # xs) c1 \<and> route s (last (a # x # xs)) ys c2)"
    by (auto simp: add.assoc) (metis add.assoc)+
  finally show ?case .
qed

lemma route_snoc:
  assumes "route s a xs c" "t_links s l = Some lk" "lk_src lk = last (a # xs)" "lk_dst lk = v"
  shows "route s a (xs @ [v]) (c + unat (lk_dcost lk))"
proof -
  have "route s (last (a # xs)) [v] (unat (lk_dcost lk))"
    using assms(2-4) by (auto intro!: exI [of _ l] exI [of _ lk])
  then show ?thesis unfolding route_append using assms(1) by blast
qed

text \<open>The predecessor pointers from the last node of \<open>vs\<close> lead back to \<open>a\<close> through \<open>vs\<close>.\<close>

fun chain :: "tc_state \<Rightarrow> nat \<Rightarrow> nat list \<Rightarrow> bool" where
  "chain s a [] \<longleftrightarrow> True"
| "chain s a (v # vs) \<longleftrightarrow> nd_path (node_of s v) = Some a \<and> chain s v vs"

lemma chain_snoc: "chain s a (xs @ [v]) \<longleftrightarrow> chain s a xs \<and> nd_path (node_of s v) = Some (last (a # xs))"
  by (induction xs arbitrary: a) auto

lemma chain_cong:
  assumes "\<And>v. v \<in> set xs \<Longrightarrow> nd_path (node_of s' v) = nd_path (node_of s v)"
  shows "chain s' a xs = chain s a xs"
  using assms by (induction xs arbitrary: a) auto

section \<open>The invariant\<close>

text \<open>\<open>v\<close> was reached from \<open>r\<close> through processed nodes only.\<close>

definition reached :: "nat \<Rightarrow> int \<Rightarrow> tc_state \<Rightarrow> nat set \<Rightarrow> tc_state \<Rightarrow> nat \<Rightarrow> bool" where
  "reached r h s0 D s v \<longleftrightarrow> (\<exists>ps. chain s r ps \<and> last (r # ps) = v \<and> route s0 r ps (cost s v) \<and>
     set (butlast (r # ps)) \<subseteq> D \<and> distinct (r # ps) \<and> nd_hops (node_of s v) = h + int (length ps))"

definition dinv :: "nat \<Rightarrow> int \<Rightarrow> tc_state \<Rightarrow> nat set \<Rightarrow> nat \<Rightarrow> nat set \<Rightarrow> tc_state \<Rightarrow> bool" where
  "dinv r h s0 D B P s \<longleftrightarrow>
     s = s0\<lparr>t_nodes := t_nodes s\<rparr> \<and> addrs s = addrs s0 \<and> srcs s = srcs s0 \<and> dsts s = dsts s0 \<and>
     (\<forall>v \<in> D. live s0 v) \<and> live s0 r \<and>
     (\<forall>v. live s0 v \<longrightarrow> (nd_done (node_of s v) \<longleftrightarrow> v \<in> D)) \<and>
     (\<forall>v. live s0 v \<longrightarrow> cost s v \<noteq> infinite \<longrightarrow> reached r h s0 D s v \<and> cost s v \<le> B) \<and>
     (\<forall>v. live s0 v \<longrightarrow> cost s v = infinite \<longrightarrow> nd_path (node_of s v) = None) \<and>
     (\<forall>u \<in> D. cost s u \<noteq> infinite) \<and> (\<forall>u \<in> D. \<forall>v. live s0 v \<longrightarrow> v \<notin> D \<longrightarrow> cost s u \<le> cost s v) \<and>
     (\<forall>l lk. t_links s0 l = Some lk \<longrightarrow> lk_src lk \<in> D \<longrightarrow> l \<notin> P \<longrightarrow>
        cost s (lk_dst lk) \<le> cost s (lk_src lk) + unat (lk_dcost lk)) \<and>
     cost s r = 0 \<and> nd_path (node_of s r) = None \<and> nd_hops (node_of s r) = h"

lemma dinvD:
  assumes "dinv r h s0 D B P s"
  shows "s = s0\<lparr>t_nodes := t_nodes s\<rparr>" "addrs s = addrs s0" "srcs s = srcs s0" "dsts s = dsts s0"
    "v \<in> D \<Longrightarrow> live s0 v" "live s0 r"
    "live s0 v \<Longrightarrow> nd_done (node_of s v) \<longleftrightarrow> v \<in> D"
    "live s0 v \<Longrightarrow> cost s v \<noteq> infinite \<Longrightarrow> reached r h s0 D s v"
    "live s0 v \<Longrightarrow> cost s v \<noteq> infinite \<Longrightarrow> cost s v \<le> B"
    "live s0 v \<Longrightarrow> cost s v = infinite \<Longrightarrow> nd_path (node_of s v) = None"
    "u \<in> D \<Longrightarrow> cost s u \<noteq> infinite" "u \<in> D \<Longrightarrow> live s0 v \<Longrightarrow> v \<notin> D \<Longrightarrow> cost s u \<le> cost s v"
    "t_links s0 l = Some lk \<Longrightarrow> lk_src lk \<in> D \<Longrightarrow> l \<notin> P \<Longrightarrow>
        cost s (lk_dst lk) \<le> cost s (lk_src lk) + unat (lk_dcost lk)"
    "cost s r = 0" "nd_path (node_of s r) = None" "nd_hops (node_of s r) = h"
  using assms unfolding dinv_def by blast+

lemma live_views: "addrs s = addrs s0 \<Longrightarrow> live s v \<longleftrightarrow> live s0 v"
  unfolding live_def by (metis addrs_dom(1))

lemma reached_mono:
  assumes "reached r h s0 D s v" "D \<subseteq> D'"
  shows "reached r h s0 D' s v"
  using assms unfolding reached_def by blast

lemma reached_cong:
  assumes "reached r h s0 D s v" "live s0 v"
    and "\<And>x. x \<in> insert v D \<Longrightarrow> nd_path (node_of s' x) = nd_path (node_of s x)"
    and "cost s' v = cost s v" "nd_hops (node_of s' v) = nd_hops (node_of s v)"
  shows "reached r h s0 D s' v"
proof -
  obtain ps where ps: "chain s r ps" "last (r # ps) = v" "route s0 r ps (cost s v)" "set (butlast (r # ps)) \<subseteq> D"
      "distinct (r # ps)" "nd_hops (node_of s v) = h + int (length ps)"
    using assms(1) unfolding reached_def by blast
  have "set ps \<subseteq> insert v D"
  proof (cases ps rule: rev_cases)
    case (snoc qs w)
    then show ?thesis using ps(2,4) by (auto simp: butlast_append)
  qed simp
  then have "chain s' r ps" using ps(1) chain_cong [of ps s' s r] assms(3) by blast
  with ps assms(4,5) show ?thesis unfolding reached_def by metis
qed

section \<open>Relaxing a link\<close>

lemma unat_add_small:
  assumes "unat (a :: ulong) + unat b < infinite"
  shows "unat (a + b) = unat a + unat b"
proof -
  have "unat a + unat b < 2 ^ 32" using assms by (simp add: infinite_eq)
  then show ?thesis by (simp add: unat_word_ariths)
qed

lemma node_of_update: "node_of (s\<lparr>t_nodes := (t_nodes s)(v \<mapsto> nd)\<rparr>) x = (if x = v then nd else node_of s x)"
  by (simp add: node_of_def)

lemma dinv_links: "dinv r h s0 D B P s \<Longrightarrow> t_links s = t_links s0"
  using dinvD(1) by (metis tc_state.select_convs(4) tc_state.surjective tc_state.update_convs(2))

lemma dinv_weaken:
  assumes "dinv r h s0 D B P s" "\<And>l lk. l \<in> P - P' \<Longrightarrow> t_links s0 l = Some lk \<Longrightarrow> lk_src lk \<in> D \<Longrightarrow>
      cost s (lk_dst lk) \<le> cost s (lk_src lk) + unat (lk_dcost lk)"
  shows "dinv r h s0 D B P' s"
proof -
  have E: "\<forall>l lk. t_links s0 l = Some lk \<longrightarrow> lk_src lk \<in> D \<longrightarrow> l \<notin> P' \<longrightarrow>
      cost s (lk_dst lk) \<le> cost s (lk_src lk) + unat (lk_dcost lk)"
    using dinvD(13) [OF assms(1)] assms(2) by (metis DiffI)
  show ?thesis using assms(1) E unfolding dinv_def by (elim conjE) (intro conjI; assumption)
qed

lemma relax_update_ok:
  assumes inv: "dinv r h s0 D B P s" and u: "u \<in> D" and l: "t_links s0 l = Some lk" "lk_src lk = u"
    and v: "live s0 (lk_dst lk)" "lk_dst lk \<notin> D"
    and b: "cost s u + unat (lk_dcost lk) \<le> B" "B < infinite" and umax: "\<forall>x \<in> D. cost s x \<le> cost s u"
    and less: "cost s u + unat (lk_dcost lk) < cost s (lk_dst lk)"
  defines "s' \<equiv> s\<lparr>t_nodes := (t_nodes s)(lk_dst lk \<mapsto> (node_of s (lk_dst lk))
      \<lparr>nd_cost := nd_cost (node_of s u) + lk_dcost lk, nd_path := Some u, nd_hops := nd_hops (node_of s u) + 1\<rparr>)\<rparr>"
  shows "dinv r h s0 D B (P - {l}) s'" "\<forall>x \<in> D. cost s' x = cost s x"
proof -
  let ?v = "lk_dst lk" and ?w = "unat (lk_dcost lk)"
  note I = dinvD [OF inv]
  have nv: "t_nodes s ?v = Some (node_of s ?v)" using v(1) live_views [OF I(2)] liveD by blast
  have nod: "node_of s' x = (if x = ?v then (node_of s ?v)\<lparr>nd_cost := nd_cost (node_of s u) + lk_dcost lk,
      nd_path := Some u, nd_hops := nd_hops (node_of s u) + 1\<rparr> else node_of s x)" for x
    unfolding s'_def by (rule node_of_update)
  have c: "cost s' ?v = cost s u + ?w"
    using unat_add_small [of "nd_cost (node_of s u)" "lk_dcost lk"] b by (simp add: cost_def nod)
  have co: "x \<noteq> ?v \<Longrightarrow> cost s' x = cost s x" for x by (simp add: cost_def nod)
  have uv: "u \<noteq> ?v" "r \<noteq> ?v" using u v(2) less I(14) by auto
  have D': "\<forall>x \<in> D. cost s' x = cost s x"
  proof
    fix x
    assume "x \<in> D"
    then have "x \<noteq> ?v" using v(2) by blast
    then show "cost s' x = cost s x" by (rule co)
  qed
  have le: "cost s' x \<le> cost s x" for x using co [of x] c less by (cases "x = ?v") auto
  have fin: "cost s' ?v \<noteq> infinite" using c b by simp
  have fr: "s' = s0\<lparr>t_nodes := t_nodes s'\<rparr>" by (subst s'_def, subst I(1)) (simp add: s'_def)
  have vw: "addrs s' = addrs s" "srcs s' = srcs s" "dsts s' = dsts s" using nv by (auto simp: views s'_def)
  have new: "reached r h s0 D s' ?v"
  proof -
    obtain ps where ps: "chain s r ps" "last (r # ps) = u" "route s0 r ps (cost s u)" "set (butlast (r # ps)) \<subseteq> D"
        "distinct (r # ps)" "nd_hops (node_of s u) = h + int (length ps)"
      using I(8) [OF I(5) [OF u] I(11) [OF u]] unfolding reached_def by blast
    have sub: "set (r # ps) \<subseteq> D"
    proof -
      have "set (r # ps) = insert (last (r # ps)) (set (butlast (r # ps)))"
        by (metis append_butlast_last_id list.simps(15) rotate1.simps(2) set_rotate1 list.discI)
      then show ?thesis using ps(2,4) u by auto
    qed
    have "x \<noteq> ?v" if "x \<in> set ps" for x using that sub v(2) by auto
    then have "chain s' r ps = chain s r ps" by (intro chain_cong) (simp add: nod)
    then have "chain s' r ps" using ps(1) by simp
    then have "chain s' r (ps @ [?v])" using ps(2) by (simp add: chain_snoc nod)
    moreover have "route s0 r (ps @ [?v]) (cost s' ?v)"
      using route_snoc [OF ps(3) l(1)] l(2) ps(2) c by simp
    moreover have "set (butlast (r # ps @ [?v])) \<subseteq> D" using sub by (simp add: butlast_append)
    moreover have "distinct (r # ps @ [?v])" using ps(5) sub v(2) by auto
    moreover have "nd_hops (node_of s' ?v) = h + int (length (ps @ [?v]))" using ps(6) by (simp add: nod)
    ultimately show ?thesis unfolding reached_def by (metis append_is_Nil_conv last.simps last_snoc list.discI)
  qed
  have old: "reached r h s0 D s' x" if "live s0 x" "x \<noteq> ?v" "cost s x \<noteq> infinite" for x
    by (rule reached_cong [OF I(8) [OF that(1,3)] that(1)]) (use that(2) v(2) co in \<open>auto simp: nod\<close>)
  have inf': "cost s' x = infinite \<Longrightarrow> cost s x = infinite" for x using le [of x] cost_le [of s x] by simp
  have mono: "cost s x \<le> cost s' y" if "x \<in> D" "live s0 y" "y \<notin> D" for x y
    using I(12) [OF that] umax that(1) co [of y] c by (cases "y = ?v") auto
  have edges: "cost s' (lk_dst k) \<le> cost s' (lk_src k) + unat (lk_dcost k)"
    if "t_links s0 m = Some k" "lk_src k \<in> D" "m \<notin> P - {l}" for m k
  proof (cases "m = l")
    case True
    then have "k = lk" using that(1) l(1) by simp
    then show ?thesis using c D' u l(2) by simp
  next
    case False
    then show ?thesis using I(13) [OF that(1,2)] that(3) le [of "lk_dst k"] D' that(2) by force
  qed
  show "\<forall>x \<in> D. cost s' x = cost s x" by (rule D')
  have P1: "\<forall>x. live s0 x \<longrightarrow> (nd_done (node_of s' x) \<longleftrightarrow> x \<in> D)" using I(7) v by (simp add: nod)
  have P2: "\<forall>x. live s0 x \<longrightarrow> cost s' x \<noteq> infinite \<longrightarrow> reached r h s0 D s' x \<and> cost s' x \<le> B"
  proof (intro allI impI)
    fix x
    assume x: "live s0 x" "cost s' x \<noteq> infinite"
    show "reached r h s0 D s' x \<and> cost s' x \<le> B"
    proof (cases "x = ?v")
      case True
      then show ?thesis using new c b by simp
    next
      case False
      then show ?thesis using old [OF x(1)] I(9) [OF x(1)] co [of x] x(2) by simp
    qed
  qed
  have P3: "\<forall>x. live s0 x \<longrightarrow> cost s' x = infinite \<longrightarrow> nd_path (node_of s' x) = None"
    using fin inf' I(10) by (auto simp: nod)
  have P4: "\<forall>x \<in> D. cost s' x \<noteq> infinite" using I(11) D' by simp
  have P5: "\<forall>x \<in> D. \<forall>y. live s0 y \<longrightarrow> y \<notin> D \<longrightarrow> cost s' x \<le> cost s' y" using mono D' by simp
  have P6: "cost s' r = 0 \<and> nd_path (node_of s' r) = None \<and> nd_hops (node_of s' r) = h"
    using I(14-16) uv(2) co [of r] by (simp add: nod)
  have P7: "(\<forall>x \<in> D. live s0 x) \<and> live s0 r" using I(5,6) by blast
  show "dinv r h s0 D B (P - {l}) s'"
    unfolding dinv_def using fr vw I(2-4) P1 P2 P3 P4 P5 P6 P7 edges by simp
qed

lemma relax_ok:
  assumes inv: "dinv r h s0 D B P s" and ok: "link_ok s0" and u: "u \<in> D"
    and l: "t_links s0 l = Some lk" "lk_src lk = u"
    and b: "cost s u + unat (lk_dcost lk) \<le> B" "B < infinite" and umax: "\<forall>x \<in> D. cost s x \<le> cost s u"
  shows "\<exists>s'. djk_relax u l s = Some s' \<and> dinv r h s0 D B (P - {l}) s' \<and> (\<forall>x \<in> D. cost s' x = cost s x)"
proof -
  let ?v = "lk_dst lk"
  note I = dinvD [OF inv]
  have v: "live s0 ?v" using link_okD(2) [OF ok l(1)] addrs_dom(3) [of s0 ?v] by (auto simp: live_def)
  have nodes: "t_nodes s u = Some (node_of s u)" "t_nodes s ?v = Some (node_of s ?v)"
    using I(5) [OF u] v live_views [OF I(2)] liveD by blast+
  have lks: "t_links s l = Some lk" using l(1) dinv_links [OF inv] by simp
  have c: "unat (nd_cost (node_of s u) + lk_dcost lk) = cost s u + unat (lk_dcost lk)"
    using unat_add_small [of "nd_cost (node_of s u)" "lk_dcost lk"] b by (simp add: cost_def)
  have test: "nd_cost (node_of s u) + lk_dcost lk < nd_cost (node_of s ?v) \<longleftrightarrow>
      cost s u + unat (lk_dcost lk) < cost s ?v"
    by (simp add: word_less_nat_alt c cost_def [of s ?v])
  show ?thesis
  proof (cases "?v \<notin> D \<and> cost s u + unat (lk_dcost lk) < cost s ?v")
    case True
    note up = relax_update_ok [OF inv u l v _ b umax]
    from True I(7) [OF v] test have "djk_relax u l s = Some (s\<lparr>t_nodes := (t_nodes s)(?v \<mapsto> (node_of s ?v)
      \<lparr>nd_cost := nd_cost (node_of s u) + lk_dcost lk, nd_path := Some u, nd_hops := nd_hops (node_of s u) + 1\<rparr>)\<rparr>)"
      by (simp add: djk_relax_def lks nodes Let_def)
    then show ?thesis using up True by blast
  next
    case False
    then have "djk_relax u l s = Some s"
      using I(7) [OF v] test by (auto simp: djk_relax_def lks nodes Let_def)
    moreover have "cost s ?v \<le> cost s u + unat (lk_dcost lk)"
      using False umax by (cases "?v \<in> D") (auto intro: trans_le_add1)
    then have "dinv r h s0 D B (P - {l}) s"
      by (intro dinv_weaken [OF inv]) (use l in auto)
    ultimately show ?thesis by blast
  qed
qed

lemma relax_loop_ok:
  assumes "dinv r h s0 D B P s" "link_ok s0" "u \<in> D" "\<forall>x \<in> D. cost s x \<le> cost s u" "B < infinite"
    and "\<And>l. l \<in> set ls \<Longrightarrow> \<exists>lk. t_links s0 l = Some lk \<and> lk_src lk = u \<and> cost s u + unat (lk_dcost lk) \<le> B"
  shows "\<exists>s'. iter ls (djk_relax u) s = Some s' \<and> dinv r h s0 D B (P - set ls) s'"
  using assms
proof (induction ls arbitrary: s P)
  case Nil
  then show ?case by simp
next
  case (Cons l ls)
  obtain lk where lk: "t_links s0 l = Some lk" "lk_src lk = u" "cost s u + unat (lk_dcost lk) \<le> B"
    using Cons.prems(6) [of l] by auto
  obtain s1 where s1: "djk_relax u l s = Some s1" "dinv r h s0 D B (P - {l}) s1" "\<forall>x \<in> D. cost s1 x = cost s x"
    using relax_ok [OF Cons.prems(1,2,3) lk(1,2,3) Cons.prems(5,4)] by blast
  have um: "\<forall>x \<in> D. cost s1 x \<le> cost s1 u" using s1(3) Cons.prems(3,4) by simp
  have "\<exists>lk. t_links s0 l' = Some lk \<and> lk_src lk = u \<and> cost s1 u + unat (lk_dcost lk) \<le> B" if "l' \<in> set ls" for l'
    using Cons.prems(6) [of l'] that s1(3) Cons.prems(3) by simp
  from Cons.IH [OF s1(2) Cons.prems(2,3) um Cons.prems(5) this] obtain s' where
    "iter ls (djk_relax u) s1 = Some s'" "dinv r h s0 D B (P - {l} - set ls) s'" by blast
  then show ?case using s1(1) by (simp add: Diff_insert2 [symmetric])
qed

section \<open>Processing a node\<close>

lemma process_ok:
  assumes inv: "dinv r h s0 D B {} s" and ok: "link_ok s0" and u: "live s0 u" "u \<notin> D" "cost s u \<noteq> infinite"
    and min: "\<And>v. live s0 v \<Longrightarrow> v \<notin> D \<Longrightarrow> cost s u \<le> cost s v"
    and C: "\<And>l lk. t_links s0 l = Some lk \<Longrightarrow> unat (lk_dcost lk) \<le> C" and b: "B + C < infinite"
  shows "\<exists>s'. djk_process u s = Some s' \<and> dinv r h s0 (insert u D) (B + C) {} s'"
proof -
  note I = dinvD [OF inv]
  define s1 where "s1 = s\<lparr>t_nodes := (t_nodes s)(u \<mapsto> (node_of s u)\<lparr>nd_done := True\<rparr>)\<rparr>"
  have nu: "t_nodes s u = Some (node_of s u)" using u(1) live_views [OF I(2)] liveD by blast
  have nod: "node_of s1 x = (if x = u then (node_of s u)\<lparr>nd_done := True\<rparr> else node_of s x)" for x
    unfolding s1_def by (rule node_of_update)
  have same: "cost s1 x = cost s x" "nd_path (node_of s1 x) = nd_path (node_of s x)"
    "nd_hops (node_of s1 x) = nd_hops (node_of s x)" for x
    by (simp_all add: cost_def nod)
  have vw: "addrs s1 = addrs s" "srcs s1 = srcs s" "dsts s1 = dsts s" using nu by (auto simp: views s1_def)
  have fr: "s1 = s0\<lparr>t_nodes := t_nodes s1\<rparr>" by (subst s1_def, subst I(1)) (simp add: s1_def)
  let ?D = "insert u D" and ?P = "{l. \<exists>lk. t_links s0 l = Some lk \<and> lk_src lk = u}"
  have R: "\<forall>x. live s0 x \<longrightarrow> cost s1 x \<noteq> infinite \<longrightarrow> reached r h s0 ?D s1 x \<and> cost s1 x \<le> B + C"
  proof (intro allI impI)
    fix x
    assume x: "live s0 x" "cost s1 x \<noteq> infinite"
    then have "reached r h s0 D s x" "cost s x \<le> B" using I(8,9) [OF x(1)] same(1) by auto
    then show "reached r h s0 ?D s1 x \<and> cost s1 x \<le> B + C"
      using reached_mono [OF reached_cong [OF _ x(1)], of r h D s s1 ?D] same by auto
  qed
  have inv1: "dinv r h s0 ?D (B + C) ?P s1"
    unfolding dinv_def
  proof (intro conjI)
    show "\<forall>x. live s0 x \<longrightarrow> nd_done (node_of s1 x) = (x \<in> ?D)" using I(7) by (simp add: nod)
    show "\<forall>x. live s0 x \<longrightarrow> cost s1 x = infinite \<longrightarrow> nd_path (node_of s1 x) = None" using I(10) same by simp
    show "\<forall>x \<in> ?D. cost s1 x \<noteq> infinite" using I(11) u(3) same by simp
    show "\<forall>x \<in> ?D. \<forall>v. live s0 v \<longrightarrow> v \<notin> ?D \<longrightarrow> cost s1 x \<le> cost s1 v" using I(12) min same by auto
    show "\<forall>l lk. t_links s0 l = Some lk \<longrightarrow> lk_src lk \<in> ?D \<longrightarrow> l \<notin> ?P \<longrightarrow>
        cost s1 (lk_dst lk) \<le> cost s1 (lk_src lk) + unat (lk_dcost lk)"
    proof (intro allI impI)
      fix l lk
      assume a: "t_links s0 l = Some lk" "lk_src lk \<in> ?D" "l \<notin> ?P"
      then have "lk_src lk \<in> D" by auto
      then show "cost s1 (lk_dst lk) \<le> cost s1 (lk_src lk) + unat (lk_dcost lk)" using I(13) [OF a(1)] same by simp
    qed
    show "\<forall>x. live s0 x \<longrightarrow> cost s1 x \<noteq> infinite \<longrightarrow> reached r h s0 ?D s1 x \<and> cost s1 x \<le> B + C" by (rule R)
  qed (use fr vw I u same in auto)
  have um: "\<forall>x \<in> ?D. cost s1 x \<le> cost s1 u" using I(12) u(1,2) same by auto
  have "srcs s u = Some (nd_src (node_of s u))" using nu by (simp add: srcs_def)
  then have S: "srcs s0 u = Some (nd_src (node_of s u))" using I(3) by simp
  have ub: "cost s1 u \<le> B" using I(9) [OF u(1,3)] same by simp
  have lks: "\<exists>lk. t_links s0 l = Some lk \<and> lk_src lk = u \<and> cost s1 u + unat (lk_dcost lk) \<le> B + C"
    if mem: "l \<in> set (nd_src (node_of s u))" for l
  proof -
    obtain lk where "t_links s0 l = Some lk" "lk_src lk = u" using link_okD(5) [OF ok S mem] by blast
    with C [of l lk] ub show ?thesis by auto
  qed
  obtain s' where s': "iter (nd_src (node_of s u)) (djk_relax u) s1 = Some s'"
      "dinv r h s0 ?D (B + C) (?P - set (nd_src (node_of s u))) s'"
    using relax_loop_ok [OF inv1 ok _ um b lks] by blast
  have "?P \<subseteq> set (nd_src (node_of s u))" using link_okD(1) [OF ok] S by fastforce
  then have "?P - set (nd_src (node_of s u)) = {}" by blast
  then have "dinv r h s0 ?D (B + C) {} s'" using s'(2) by (simp only:)
  then show ?thesis using s'(1) nu by (simp add: djk_process_def s1_def)
qed

section \<open>The main loop\<close>

lemma scan_min_ok:
  assumes "\<And>n. n \<in> set ns \<Longrightarrow> live s n"
  shows "\<exists>b. scan_min s c best ns = Some b \<and>
    ((b = best \<and> (\<forall>n \<in> set ns. unat c \<le> cost s n)) \<or>
     (\<exists>u \<in> set ns. b = Some u \<and> cost s u < unat c \<and> (\<forall>n \<in> set ns. cost s u \<le> cost s n)))"
  using assms
proof (induction ns arbitrary: c best)
  case Nil
  then show ?case by simp
next
  case (Cons n ns)
  have n: "t_nodes s n = Some (node_of s n)" using Cons.prems liveD by simp
  have lt: "nd_cost (node_of s n) < c \<longleftrightarrow> cost s n < unat c" by (simp add: word_less_nat_alt cost_def)
  show ?case
  proof (cases "cost s n < unat c")
    case True
    from Cons.IH [of "nd_cost (node_of s n)" "Some n"] Cons.prems obtain b where b:
      "scan_min s (nd_cost (node_of s n)) (Some n) ns = Some b"
      "(b = Some n \<and> (\<forall>k \<in> set ns. cost s n \<le> cost s k)) \<or>
       (\<exists>u \<in> set ns. b = Some u \<and> cost s u < cost s n \<and> (\<forall>k \<in> set ns. cost s u \<le> cost s k))"
      by (auto simp: cost_def [of s n])
    then show ?thesis using True n lt by fastforce
  next
    case False
    from Cons.IH [of c best] Cons.prems obtain b where b: "scan_min s c best ns = Some b"
      "(b = best \<and> (\<forall>k \<in> set ns. unat c \<le> cost s k)) \<or>
       (\<exists>u \<in> set ns. b = Some u \<and> cost s u < unat c \<and> (\<forall>k \<in> set ns. cost s u \<le> cost s k))" by auto
    then show ?thesis using False n lt by fastforce
  qed
qed

lemma djk_loop_ok:
  assumes "dinv r h s0 D (card D * C) {} s" "link_ok s0" "finite {v. live s0 v}"
    and "distinct work" "set work = {v. live s0 v} - D"
    and "\<And>l lk. t_links s0 l = Some lk \<Longrightarrow> unat (lk_dcost lk) \<le> C" "card {v. live s0 v} * C < infinite"
  shows "\<exists>s' D'. djk_loop work s = Some s' \<and> dinv r h s0 D' (card D' * C) {} s' \<and>
    (\<forall>v. live s0 v \<longrightarrow> v \<notin> D' \<longrightarrow> cost s' v = infinite)"
  using assms
proof (induction work s arbitrary: D rule: djk_loop.induct)
  case (1 work s)
  note I = dinvD [OF "1.prems"(1)]
  show ?case
  proof (cases "work = []")
    case True
    then have "djk_loop work s = Some s" by (simp add: djk_loop.simps)
    moreover have "\<forall>v. live s0 v \<longrightarrow> v \<notin> D \<longrightarrow> cost s v = infinite" using True "1.prems"(5) by auto
    ultimately show ?thesis using "1.prems"(1) by blast
  next
    case False
    have "live s n" if "n \<in> set work" for n using that "1.prems"(5) live_views [OF I(2)] by auto
    from scan_min_ok [OF this, of work no_cost None] obtain b where b: "scan_min s no_cost None work = Some b"
      "(b = None \<and> (\<forall>n \<in> set work. infinite \<le> cost s n)) \<or>
       (\<exists>u \<in> set work. b = Some u \<and> cost s u < infinite \<and> (\<forall>n \<in> set work. cost s u \<le> cost s n))"
      by (auto simp: infinite_def)
    from b(2) show ?thesis
    proof (elim disjE conjE bexE)
      assume none: "b = None" "\<forall>n \<in> set work. infinite \<le> cost s n"
      have "djk_loop work s = Some s" using False b(1) none(1) by (subst djk_loop.simps) simp
      moreover have "\<forall>v. live s0 v \<longrightarrow> v \<notin> D \<longrightarrow> cost s v = infinite"
        using none(2) "1.prems"(5) cost_le le_antisym by (metis Diff_iff mem_Collect_eq)
      ultimately show ?thesis using "1.prems"(1) by blast
    next
      fix u
      assume u: "u \<in> set work" "b = Some u" "cost s u < infinite" "\<forall>n \<in> set work. cost s u \<le> cost s n"
      have ul: "live s0 u" "u \<notin> D" using u(1) "1.prems"(5) by auto
      have "finite D" using "1.prems"(3) I(5) by (meson finite_subset mem_Collect_eq subsetI)
      then have card: "card (insert u D) = card D + 1" using ul(2) by simp
      have "insert u D \<subseteq> {v. live s0 v}" using I(5) ul(1) by blast
      then have "card (insert u D) * C \<le> card {v. live s0 v} * C"
        using card_mono [OF "1.prems"(3)] mult_le_mono1 by blast
      then have bnd: "card D * C + C < infinite" using "1.prems"(7) card by (simp add: add.commute)
      obtain s1 where s1: "djk_process u s = Some s1" "dinv r h s0 (insert u D) (card D * C + C) {} s1"
        using process_ok [OF "1.prems"(1,2) ul _ _ "1.prems"(6) bnd] u(3,4) "1.prems"(5) by fastforce
      have inv1: "dinv r h s0 (insert u D) (card (insert u D) * C) {} s1" using s1(2) card by (simp add: add.commute)
      have work1: "distinct (remove1 u work)" "set (remove1 u work) = {v. live s0 v} - insert u D"
        using "1.prems"(4,5) by auto
      have "djk_loop work s = djk_loop (remove1 u work) s1"
        using False b(1) u(2) s1(1) by (subst djk_loop.simps) simp
      then show ?thesis
        using "1.IH" [OF False b(1) u(2) s1(1) inv1 "1.prems"(2,3) work1 "1.prems"(6,7)] by simp
    qed
  qed
qed

section \<open>The initialisation\<close>

definition reset_node :: "tc_state \<Rightarrow> ip_addr \<Rightarrow> nat \<Rightarrow> tc_node" where
  "reset_node s src n = (node_of s n)\<lparr>nd_done := False, nd_path := None,
     nd_cost := (if main_addr s n = Some src then 0 else no_cost)\<rparr>"

lemma djk_init_loop:
  assumes "distinct ns" "\<And>n. n \<in> set ns \<Longrightarrow> live s n \<and> main_addr s n \<noteq> None"
  shows "\<exists>s'. iter ns (djk_init_node src) (s, work) = Some (s', rev ns @ work) \<and>
    s' = s\<lparr>t_nodes := t_nodes s'\<rparr> \<and> addrs s' = addrs s \<and> srcs s' = srcs s \<and> dsts s' = dsts s \<and>
    (\<forall>n. node_of s' n = (if n \<in> set ns then reset_node s src n else node_of s n))"
  using assms
proof (induction ns arbitrary: s work)
  case Nil
  then show ?case by simp
next
  case (Cons n ns)
  obtain ip where ip: "main_addr s n = Some ip" and nd: "t_nodes s n = Some (node_of s n)"
    using Cons.prems(2) [of n] liveD by auto
  define s1 where "s1 = s\<lparr>t_nodes := (t_nodes s)(n \<mapsto> reset_node s src n)\<rparr>"
  have step: "djk_init_node src n (s, work) = Some (s1, n # work)"
    using nd ip by (simp add: djk_init_node_def s1_def reset_node_def)
  have vw: "addrs s1 = addrs s" "srcs s1 = srcs s" "dsts s1 = dsts s"
    using nd by (auto simp: views s1_def reset_node_def)
  have nod: "node_of s1 x = (if x = n then reset_node s src n else node_of s x)" for x
    unfolding s1_def by (rule node_of_update)
  have main1: "main_addr s1 x = main_addr s x" for x
    using nd by (auto simp: main_addr_def s1_def reset_node_def)
  have "\<And>m. m \<in> set ns \<Longrightarrow> live s1 m \<and> main_addr s1 m \<noteq> None"
    using Cons.prems(2) live_views [OF vw(1)] main1 by simp
  from Cons.IH [OF _ this, of "n # work"] Cons.prems(1) obtain s' where s':
    "iter ns (djk_init_node src) (s1, n # work) = Some (s', rev ns @ n # work)" "s' = s1\<lparr>t_nodes := t_nodes s'\<rparr>"
    "addrs s' = addrs s1" "srcs s' = srcs s1" "dsts s' = dsts s1"
    "\<forall>x. node_of s' x = (if x \<in> set ns then reset_node s1 src x else node_of s1 x)" by auto
  have "s' = s\<lparr>t_nodes := t_nodes s'\<rparr>" using s'(2) by (simp add: s1_def)
  moreover have "node_of s' x = (if x \<in> set (n # ns) then reset_node s src x else node_of s x)" for x
    using s'(6) nod main1 Cons.prems(1) by (auto simp: reset_node_def)
  ultimately show ?case using step s' vw by simp
qed

lemma main_addr_unique:
  assumes "addr_ok s" "main_addr s n = Some ip" "main_addr s m = Some ip"
  shows "n = m"
  using slot_unique [OF assms(1)] assms(2,3) by (auto simp: main_addr_slot [OF assms(1)])

lemma live_dom: "{v. live s v} = dom (t_nodes s)"
  by (auto simp: live_def)

lemma djk_init_ok:
  assumes ok: "tc_ok s" and r: "main_addr s r = Some src"
  shows "\<exists>s'. djk_init src s = Some (s', rev (t_list s)) \<and> dinv r (nd_hops (node_of s r)) s {} 0 {} s'"
proof -
  note okD = tc_okD [OF ok] and lst = list_okD [OF tc_okD(4) [OF ok]]
  have lv: "n \<in> set (t_list s) \<longleftrightarrow> live s n" for n using lst(2) live_dom [of s] by auto
  have "live s n \<and> main_addr s n \<noteq> None" if "n \<in> set (t_list s)" for n
    using that lv main_ok_addr [OF ok liveD [of s n]] by auto
  from djk_init_loop [OF lst(1) this, of src "[]"] obtain s' where s':
      "iter (t_list s) (djk_init_node src) (s, []) = Some (s', rev (t_list s) @ [])"
      "s' = s\<lparr>t_nodes := t_nodes s'\<rparr>" "addrs s' = addrs s" "srcs s' = srcs s" "dsts s' = dsts s"
      "\<forall>n. node_of s' n = (if n \<in> set (t_list s) then reset_node s src n else node_of s n)" by blast
  have "live s r" using r by (cases "t_nodes s r") (auto simp: main_addr_def live_def)
  have nod: "node_of s' n = reset_node s src n" if "live s n" for n using s'(6) lv that by simp
  have c: "cost s' n = (if n = r then 0 else infinite)" if "live s n" for n
  proof -
    have "main_addr s n = Some src \<longleftrightarrow> n = r" using main_addr_unique [OF okD(1) r, of n] r by blast
    then show ?thesis using nod [OF that] by (simp add: cost_def reset_node_def infinite_def)
  qed
  have z: "infinite \<noteq> 0" using infinite_pos by simp
  have p: "nd_path (node_of s' n) = None" "nd_hops (node_of s' n) = nd_hops (node_of s n)" "\<not> nd_done (node_of s' n)"
    if "live s n" for n
    using nod [OF that] by (simp_all add: reset_node_def)
  have "reached r (nd_hops (node_of s r)) s {} s' r"
    unfolding reached_def by (rule exI [of _ "[]"]) (use c p \<open>live s r\<close> in simp)
  then have "dinv r (nd_hops (node_of s r)) s {} 0 {} s'"
    unfolding dinv_def
  proof (intro conjI)
    show "\<forall>v. live s v \<longrightarrow> cost s' v \<noteq> infinite \<longrightarrow> reached r (nd_hops (node_of s r)) s {} s' v \<and> cost s' v \<le> 0"
      using c \<open>reached r (nd_hops (node_of s r)) s {} s' r\<close> by simp
  qed (use s'(2-5) \<open>live s r\<close> c p in simp_all)
  then show ?thesis using s'(1) by (simp add: djk_init_def)
qed

section \<open>Shortest routes\<close>

lemma route_lower:
  assumes inv: "dinv r h s0 D B {} s" and ok: "link_ok s0"
    and out: "\<And>v. live s0 v \<Longrightarrow> v \<notin> D \<Longrightarrow> cost s v = infinite \<and> B + C < infinite"
    and C: "\<And>l lk. t_links s0 l = Some lk \<Longrightarrow> unat (lk_dcost lk) \<le> C"
  shows "route s0 a ps c \<Longrightarrow> a \<in> D \<Longrightarrow> last (a # ps) \<in> D \<and> cost s (last (a # ps)) \<le> cost s a + c"
proof (induction ps arbitrary: a c)
  case Nil
  then show ?case by simp
next
  case (Cons v ps)
  note I = dinvD [OF inv]
  obtain l lk c' where l: "t_links s0 l = Some lk" "lk_src lk = a" "lk_dst lk = v"
      "c = unat (lk_dcost lk) + c'" "route s0 v ps c'" using Cons.prems(1) by auto
  have e: "cost s v \<le> cost s a + unat (lk_dcost lk)" using I(13) [OF l(1)] l(2,3) Cons.prems(2) by simp
  have lv: "live s0 v" using link_okD(2) [OF ok l(1)] l(3) addrs_dom(3) [of s0 v] by (auto simp: live_def)
  have "v \<in> D"
  proof (rule ccontr)
    assume v: "v \<notin> D"
    have "cost s a \<le> B" using I(9) [OF I(5) I(11)] Cons.prems(2) by blast
    then show False using out [OF lv v] e C [OF l(1)] by simp
  qed
  from Cons.IH [OF l(5) this] e l(4) show ?case by simp
qed

theorem dijkstra_ok:
  assumes ok: "tc_ok s" and r: "main_addr s r = Some src"
    and C: "\<And>l lk. t_links s l = Some lk \<Longrightarrow> unat (lk_dcost lk) \<le> C"
    and bound: "length (t_list s) * C < infinite"
  shows "\<exists>s' D B. dijkstra src s = Some s' \<and> dinv r (nd_hops (node_of s r)) s D B {} s' \<and> r \<in> D \<and>
    (\<forall>v. live s v \<longrightarrow> v \<notin> D \<longrightarrow> cost s' v = infinite) \<and>
    (\<forall>ps c. route s r ps c \<longrightarrow> last (r # ps) \<in> D \<and> cost s' (last (r # ps)) \<le> c)"
proof -
  note okD = tc_okD [OF ok] and lst = list_okD [OF tc_okD(4) [OF ok]]
  obtain s1 where s1: "djk_init src s = Some (s1, rev (t_list s))" "dinv r (nd_hops (node_of s r)) s {} 0 {} s1"
    using djk_init_ok [OF ok r] by blast
  have lv: "set (t_list s) = {v. live s v}" using lst(2) live_dom [of s] by simp
  have cd: "card {v. live s v} = length (t_list s)" using lst(1) lv distinct_card by metis
  have fin: "finite {v. live s v}" using lv by (metis List.finite_set)
  have work: "distinct (rev (t_list s))" "set (rev (t_list s)) = {v. live s v} - {}" using lst(1) lv by simp_all
  have inv0: "dinv r (nd_hops (node_of s r)) s {} (card {} * C) {} s1" using s1(2) by simp
  have bound': "card {v. live s v} * C < infinite" using bound cd by simp
  have "\<exists>s' D'. djk_loop (rev (t_list s)) s1 = Some s' \<and> dinv r (nd_hops (node_of s r)) s D' (card D' * C) {} s' \<and>
      (\<forall>v. live s v \<longrightarrow> v \<notin> D' \<longrightarrow> cost s' v = infinite)"
    by (rule djk_loop_ok [OF inv0 okD(2) fin work _ bound']) (rule C)
  then obtain s' D where s': "djk_loop (rev (t_list s)) s1 = Some s'"
      "dinv r (nd_hops (node_of s r)) s D (card D * C) {} s'" "\<forall>v. live s v \<longrightarrow> v \<notin> D \<longrightarrow> cost s' v = infinite"
    by blast
  note I = dinvD [OF s'(2)]
  have "r \<in> D" using s'(3) I(6,14) infinite_pos by auto
  have out: "cost s' v = infinite \<and> card D * C + C < infinite" if "live s v" "v \<notin> D" for v
  proof -
    have "insert v D \<subseteq> {v. live s v}" using I(5) that(1) by blast
    then have "card (insert v D) \<le> length (t_list s)" using card_mono [OF fin] cd by metis
    moreover have "finite D" using fin I(5) by (meson finite_subset mem_Collect_eq subsetI)
    ultimately have "(card D + 1) * C \<le> length (t_list s) * C" using that(2) by (intro mult_le_mono1) simp
    then show ?thesis using bound s'(3) that by (simp add: add.commute)
  qed
  have "last (r # ps) \<in> D \<and> cost s' (last (r # ps)) \<le> c" if rt: "route s r ps c" for ps c
  proof -
    have "last (r # ps) \<in> D \<and> cost s' (last (r # ps)) \<le> cost s' r + c"
      by (rule route_lower [OF s'(2) okD(2) _ _ rt \<open>r \<in> D\<close>]) (use out C in blast)+
    then show ?thesis using I(14) by simp
  qed
  moreover have "dijkstra src s = Some s'" using s1(1) s'(1) by (simp add: dijkstra_def)
  ultimately show ?thesis using s'(2,3) \<open>r \<in> D\<close> by blast
qed

end
