(* ===== verification/Tc_Paths.thy ===== *)
theory Tc_Paths imports Tc_Shortest begin

text \<open>
  Correctness of \<open>tc_k_dijstra\<close>: the first path it returns is a shortest one for the link costs
  that the daemon announced, every path it puts in the cache is a simple path of
  announced links from the source to the destination, the store stays well formed and its
  topology is untouched.
\<close>

section \<open>Walks of a topology\<close>

fun walk :: "topo \<Rightarrow> nat \<Rightarrow> nat list \<Rightarrow> nat \<Rightarrow> bool" where
  "walk t a [] c \<longleftrightarrow> c = 0"
| "walk t a (v # vs) c \<longleftrightarrow> (\<exists>l w c'. tp_links t l = Some (a, v, w) \<and> c = unat w + c' \<and> walk t v vs c')"

lemma route_walk:
  "route s a vs c \<Longrightarrow> \<exists>c. walk (topo_of s) a vs c"
proof (induction vs arbitrary: a c)
  case Nil
  then show ?case by simp
next
  case (Cons v vs)
  then obtain l lk c' where l: "t_links s l = Some lk" "lk_src lk = a" "lk_dst lk = v" "route s v vs c'" by auto
  obtain c2 where "walk (topo_of s) v vs c2" using Cons.IH [OF l(4)] by blast
  moreover have "tp_links (topo_of s) l = Some (a, v, lk_cost lk)" using l by (simp add: topo_of_def)
  ultimately show ?case by auto
qed

lemma route_eq_walk:
  assumes "\<And>l lk. t_links s l = Some lk \<Longrightarrow> lk_dcost lk = lk_cost lk"
  shows "route s a vs c \<longleftrightarrow> walk (topo_of s) a vs c"
proof (induction vs arbitrary: a c)
  case (Cons v vs)
  have "(\<exists>l lk c'. t_links s l = Some lk \<and> lk_src lk = a \<and> lk_dst lk = v \<and> c = unat (lk_dcost lk) + c' \<and> P c') \<longleftrightarrow>
      (\<exists>l w c'. tp_links (topo_of s) l = Some (a, v, w) \<and> c = unat w + c' \<and> P c')" for P
    using assms by (fastforce simp: topo_of_def)
  then show ?case using Cons.IH by simp
qed simp

section \<open>Updates of the working costs\<close>

text \<open>\<open>s'\<close> differs from \<open>s\<close> in the working costs only.\<close>

definition costs_only :: "tc_state \<Rightarrow> tc_state \<Rightarrow> bool" where
  "costs_only s s' \<longleftrightarrow> s' = s\<lparr>t_links := t_links s'\<rparr> \<and>
     (\<forall>l. map_option (\<lambda>lk. (lk_src lk, lk_dst lk, lk_cost lk)) (t_links s' l) =
          map_option (\<lambda>lk. (lk_src lk, lk_dst lk, lk_cost lk)) (t_links s l))"

lemma costs_only_fields:
  assumes "costs_only s s'"
  shows "t_nodes s' = t_nodes s" "t_hash s' = t_hash s" "t_list s' = t_list s" "t_next s' = t_next s"
    "t_local_addr s' = t_local_addr s" "t_local_mask s' = t_local_mask s" "t_local_links s' = t_local_links s"
    "t_cache s' = t_cache s"
proof -
  have e: "s' = s\<lparr>t_links := t_links s'\<rparr>" using assms by (simp add: costs_only_def)
  show "t_nodes s' = t_nodes s" "t_hash s' = t_hash s" "t_list s' = t_list s" "t_next s' = t_next s"
    "t_local_addr s' = t_local_addr s" "t_local_mask s' = t_local_mask s" "t_local_links s' = t_local_links s"
    "t_cache s' = t_cache s" by (subst e, simp)+
qed

lemma costs_only_links:
  assumes "costs_only s s'" "t_links s l = Some lk"
  shows "\<exists>lk'. t_links s' l = Some lk' \<and> lk_src lk' = lk_src lk \<and> lk_dst lk' = lk_dst lk \<and> lk_cost lk' = lk_cost lk"
proof -
  have "map_option (\<lambda>lk. (lk_src lk, lk_dst lk, lk_cost lk)) (t_links s' l) = Some (lk_src lk, lk_dst lk, lk_cost lk)"
    using assms by (simp add: costs_only_def)
  then show ?thesis by (auto simp: map_option_eq_Some)
qed

lemma costs_only_sym: "costs_only s s' \<Longrightarrow> costs_only s' s"
  using costs_only_fields [of s s'] by (cases s, cases s') (auto simp: costs_only_def)

lemma costs_only_refl [simp]: "costs_only s s" by (simp add: costs_only_def)

lemma costs_only_trans: "costs_only s s' \<Longrightarrow> costs_only s' s'' \<Longrightarrow> costs_only s s''"
  by (cases s, cases s', cases s'') (auto simp: costs_only_def)

lemma costs_only_ok:
  assumes c: "costs_only s s'" and ok: "tc_ok s"
  shows "tc_ok s'" "topo_of s' = topo_of s"
proof -
  note f = costs_only_fields [OF c] and okD = tc_okD [OF ok]
  have v: "addrs s' = addrs s" "srcs s' = srcs s" "dsts s' = dsts s" by (simp_all add: views f fun_eq_iff)
  have "link_ok s'"
  proof (rule link_okI)
    note lD = link_okD [OF okD(2)]
    fix l lk
    assume "t_links s' l = Some lk"
    from costs_only_links [OF costs_only_sym [OF c] this] obtain lk0 where lk0:
      "t_links s l = Some lk0" "lk_src lk0 = lk_src lk" "lk_dst lk0 = lk_dst lk" by blast
    show "(\<exists>ls. srcs s' (lk_src lk) = Some ls \<and> l \<in> set ls) \<and> (\<exists>ls. dsts s' (lk_dst lk) = Some ls \<and> l \<in> set ls)"
      using lD(1,2) [OF lk0(1)] lk0(2,3) v by simp
  next
    note lD = link_okD [OF okD(2)]
    fix n ls
    show "srcs s' n = Some ls \<Longrightarrow> distinct ls \<and> (\<forall>l \<in> set ls. \<exists>lk. t_links s' l = Some lk \<and> lk_src lk = n)"
      using lD(3,5) costs_only_links [OF c] unfolding v by metis
    show "dsts s' n = Some ls \<Longrightarrow> distinct ls \<and> (\<forall>l \<in> set ls. \<exists>lk. t_links s' l = Some lk \<and> lk_dst lk = n)"
      using lD(4,6) costs_only_links [OF c] unfolding v by metis
  qed
  moreover have "l < t_next s'" if mem: "t_links s' l \<noteq> None" for l
  proof -
    obtain lk where "t_links s' l = Some lk" using mem by blast
    from costs_only_links [OF costs_only_sym [OF c] this] show ?thesis using list_okD(4) [OF okD(4), of l] f by auto
  qed
  ultimately have t: "tc_ok s'" "topo_of s' = (topo_of s)\<lparr>tp_links := tp_links (topo_of s')\<rparr>"
    using tc_ok_link_update [OF ok, of s'] v f by simp_all
  then show "tc_ok s'" by blast
  have "tp_links (topo_of s') = tp_links (topo_of s)"
    using c by (simp add: topo_of_def costs_only_def fun_eq_iff)
  then show "topo_of s' = topo_of s" using t(2) by simp
qed

definition keeps_ends :: "(tc_link \<Rightarrow> tc_link) \<Rightarrow> bool" where
  "keeps_ends f \<longleftrightarrow> (\<forall>lk. lk_src (f lk) = lk_src lk \<and> lk_dst (f lk) = lk_dst lk \<and> lk_cost (f lk) = lk_cost lk)"

lemma keeps_ends_fs: "keeps_ends init_costs" "keeps_ends commit_costs" "keeps_ends (penalty k)"
  by (simp_all add: keeps_ends_def init_costs_def commit_costs_def penalty_def)

lemma update_link_ok:
  assumes "t_links s l = Some lk" "keeps_ends f"
  shows "update_link f l s = Some (s\<lparr>t_links := (t_links s)(l \<mapsto> f lk)\<rparr>)"
    "costs_only s (s\<lparr>t_links := (t_links s)(l \<mapsto> f lk)\<rparr>)"
  using assms by (simp_all add: update_link_def costs_only_def keeps_ends_def)

lemma update_links_loop:
  assumes "set ls \<subseteq> dom (t_links s)" "keeps_ends f" "\<And>lk. f (f lk) = f lk"
  shows "\<exists>s'. iter ls (update_link f) s = Some s' \<and> costs_only s s' \<and>
    t_links s' = (\<lambda>l. if l \<in> set ls then map_option f (t_links s l) else t_links s l)"
  using assms(1)
proof (induction ls arbitrary: s)
  case Nil
  then show ?case by simp
next
  case (Cons l ls)
  then obtain lk where lk: "t_links s l = Some lk" by auto
  define s1 where "s1 = s\<lparr>t_links := (t_links s)(l \<mapsto> f lk)\<rparr>"
  have up: "update_link f l s = Some s1" "costs_only s s1" using update_link_ok [OF lk assms(2)] by (simp_all add: s1_def)
  have "set ls \<subseteq> dom (t_links s1)" using Cons.prems by (auto simp: s1_def)
  from Cons.IH [OF this] obtain s' where s': "iter ls (update_link f) s1 = Some s'" "costs_only s1 s'"
    "t_links s' = (\<lambda>l. if l \<in> set ls then map_option f (t_links s1 l) else t_links s1 l)" by blast
  have "t_links s' = (\<lambda>x. if x \<in> set (l # ls) then map_option f (t_links s x) else t_links s x)"
    unfolding s'(3) by (rule ext) (auto simp: s1_def lk assms(3))
  then show ?case using up s' costs_only_trans by auto
qed

lemma update_all_links_ok:
  assumes ok: "tc_ok s" and f: "keeps_ends f" "\<And>lk. f (f lk) = f lk"
  shows "\<exists>s'. update_all_links f s = Some s' \<and> costs_only s s' \<and> t_links s' = (\<lambda>l. map_option f (t_links s l))"
proof -
  note okD = tc_okD [OF ok]
  have loop: "\<exists>s'. iter ns (\<lambda>n s. do { nd \<leftarrow> t_nodes s n; iter (nd_src nd) (update_link f) s }) u = Some s' \<and>
      costs_only u s' \<and>
      t_links s' = (\<lambda>l. if \<exists>n \<in> set ns. l \<in> set (the (srcs s n)) then map_option f (t_links u l) else t_links u l)"
    if "costs_only s u" "set ns \<subseteq> dom (t_nodes s)" for ns u
    using that
  proof (induction ns arbitrary: u)
    case Nil
    then show ?case by simp
  next
    case (Cons n ns)
    obtain nd where nd: "t_nodes s n = Some nd" using Cons.prems(2) by auto
    then have ndu: "t_nodes u n = Some nd" using costs_only_fields(1) [OF Cons.prems(1)] by simp
    have S: "srcs s n = Some (nd_src nd)" using nd by (simp add: views)
    have "set (nd_src nd) \<subseteq> dom (t_links u)"
      using link_okD(5) [OF okD(2) S] costs_only_links [OF Cons.prems(1)] by blast
    from update_links_loop [OF this f] obtain u1 where u1: "iter (nd_src nd) (update_link f) u = Some u1" "costs_only u u1"
      "t_links u1 = (\<lambda>l. if l \<in> set (nd_src nd) then map_option f (t_links u l) else t_links u l)" by blast
    have "costs_only s u1" using costs_only_trans [OF Cons.prems(1) u1(2)] .
    from Cons.IH [OF this] Cons.prems(2) obtain s' where s':
      "iter ns (\<lambda>n s. do { nd \<leftarrow> t_nodes s n; iter (nd_src nd) (update_link f) s }) u1 = Some s'" "costs_only u1 s'"
      "t_links s' = (\<lambda>l. if \<exists>n \<in> set ns. l \<in> set (the (srcs s n)) then map_option f (t_links u1 l) else t_links u1 l)"
      by auto
    have "t_links s' = (\<lambda>l. if \<exists>m \<in> set (n # ns). l \<in> set (the (srcs s m)) then map_option f (t_links u l) else t_links u l)"
      unfolding s'(3) u1(3) by (rule ext) (auto simp: S option.map_comp f(2) comp_def)
    then show ?case using ndu u1 s' costs_only_trans by auto
  qed
  have lst: "set (t_list s) = dom (t_nodes s)" using list_okD(2) [OF okD(4)] .
  obtain s' where s': "update_all_links f s = Some s'" "costs_only s s'"
    "t_links s' = (\<lambda>l. if \<exists>n \<in> set (t_list s). l \<in> set (the (srcs s n)) then map_option f (t_links s l) else t_links s l)"
    using loop [OF costs_only_refl, of "t_list s"] lst by (auto simp: update_all_links_def)
  have "map_option f (t_links s l) = t_links s l" if none: "\<not> (\<exists>n \<in> set (t_list s). l \<in> set (the (srcs s n)))" for l
  proof (cases "t_links s l")
    case (Some lk)
    from link_okD(1) [OF okD(2) Some] obtain ls where ls: "srcs s (lk_src lk) = Some ls" "l \<in> set ls" by blast
    then have "lk_src lk \<in> dom (t_nodes s)" using addrs_dom(2) [of s "lk_src lk"] by auto
    then have "lk_src lk \<in> set (t_list s)" using lst by simp
    moreover have "l \<in> set (the (srcs s (lk_src lk)))" using ls by simp
    ultimately show ?thesis using none by blast
  qed simp
  then have "t_links s' = (\<lambda>l. map_option f (t_links s l))" unfolding s'(3) by auto
  then show ?thesis using s' by blast
qed

section \<open>One penalty step\<close>

lemma penalty_simps [simp]:
  "lk_src (penalty k lk) = lk_src lk" "lk_dst (penalty k lk) = lk_dst lk" "lk_cost (penalty k lk) = lk_cost lk"
  "lk_dcost (penalty k lk) = lk_dcost lk" "lk_dcost_p1 (penalty k lk) = lk_dcost lk * of_int k"
  "penalty k (penalty j lk) = penalty k lk"
  by (simp_all add: penalty_def)

lemma first_link_to_ok:
  assumes "set ls \<subseteq> dom (t_links s)"
  shows "first_link_to s n ls = Some (List.find (\<lambda>l. \<exists>lk. t_links s l = Some lk \<and> lk_dst lk = n) ls)"
  using assms by (induction ls) auto

lemma first_link_to_cong:
  assumes "costs_only s s'"
  shows "first_link_to s' n ls = first_link_to s n ls"
proof (induction ls)
  case (Cons l ls)
  show ?case
  proof (cases "t_links s l")
    case None
    then have "t_links s' l = None" using costs_only_links [OF costs_only_sym [OF assms], of l] by (cases "t_links s' l") auto
    then show ?thesis using None by simp
  next
    case (Some lk)
    then show ?thesis using costs_only_links [OF assms Some] Cons.IH by auto
  qed
qed simp

text \<open>The link back from \<open>v\<close> to \<open>n\<close> that a step penalises.\<close>

definition back_link :: "tc_state \<Rightarrow> nat \<Rightarrow> nat \<Rightarrow> nat option" where
  "back_link s n v = Option.bind (t_nodes s v) (\<lambda>nv. Option.bind (first_link_to s n (nd_src nv)) (\<lambda>x. x))"

text \<open>What a step does to a link.\<close>

definition penalised :: "djk_config \<Rightarrow> tc_state \<Rightarrow> nat \<Rightarrow> nat \<Rightarrow> nat \<Rightarrow> tc_link \<Rightarrow> tc_link" where
  "penalised cf s n v l lk =
     (if back_link s n v = Some l then penalty (cf_fp cf) lk
      else if lk_dst lk = v then penalty (if lk_src lk = n then cf_fp cf else cf_fe cf) lk
      else lk)"

lemma penalise_step_ok:
  assumes ok: "tc_ok s" and v: "t_nodes s v \<noteq> None"
  shows "penalise_step cf n v s = Some (s\<lparr>t_links := (\<lambda>l. map_option (penalised cf s n v l) (t_links s l))\<rparr>)"
proof -
  note okD = tc_okD [OF ok]
  obtain nv where nv: "t_nodes s v = Some nv" using v by blast
  have S: "srcs s v = Some (nd_src nv)" "dsts s v = Some (nd_dst nv)" using nv by (simp_all add: views)
  let ?g = "\<lambda>lk. penalty (if lk_src lk = n then cf_fp cf else cf_fe cf) lk"
  have g: "keeps_ends ?g" "?g (?g lk) = ?g lk" for lk by (simp_all add: keeps_ends_def)
  have body: "(\<lambda>l s. do { lk \<leftarrow> t_links s l;
      update_link (penalty (if lk_src lk = n then cf_fp cf else cf_fe cf)) l s }) = update_link ?g"
    by (intro ext) (simp add: update_link_def bind_assoc split: Option.bind_splits)
  have "set (nd_dst nv) \<subseteq> dom (t_links s)" using link_okD(6) [OF okD(2) S(2)] by blast
  from update_links_loop [OF this g(1) g(2)] obtain s1 where s1: "iter (nd_dst nv) (update_link ?g) s = Some s1"
    "costs_only s s1" "t_links s1 = (\<lambda>l. if l \<in> set (nd_dst nv) then map_option ?g (t_links s l) else t_links s l)" by blast
  have into: "l \<in> set (nd_dst nv) \<longleftrightarrow> lk_dst lk = v" if "t_links s l = Some lk" for l lk
    using link_okD(2) [OF okD(2) that] link_okD(6) [OF okD(2) S(2), of l] that S(2) by force
  have s1e: "s1 = s\<lparr>t_links := t_links s1\<rparr>" using s1(2) by (simp add: costs_only_def)
  have src: "set (nd_src nv) \<subseteq> dom (t_links s)" using link_okD(5) [OF okD(2) S(1)] by blast
  obtain b where b: "first_link_to s n (nd_src nv) = Some b" using first_link_to_ok [OF src] by blast
  then have b1: "first_link_to s1 n (nd_src nv) = Some b" using first_link_to_cong [OF s1(2)] by simp
  have bl: "back_link s n v = b" using nv b by (simp add: back_link_def)
  show ?thesis
  proof (cases b)
    case None
    have "t_links s1 = (\<lambda>l. map_option (penalised cf s n v l) (t_links s l))"
      unfolding s1(3)
    proof (rule ext)
      fix l
      show "(if l \<in> set (nd_dst nv) then map_option ?g (t_links s l) else t_links s l) =
        map_option (penalised cf s n v l) (t_links s l)"
        using into [of l] bl None by (cases "t_links s l") (auto simp: penalised_def)
    qed
    then show ?thesis using nv s1(1) b1 None s1e by (simp add: penalise_step_def body)
  next
    case (Some l0)
    have "l0 \<in> set (nd_src nv)" using b Some first_link_to_ok [OF src, of n] by (auto simp: find_Some_iff)
    then obtain lk0 where lk0: "t_links s l0 = Some lk0" using src by blast
    define lk1 where "lk1 = (if l0 \<in> set (nd_dst nv) then ?g lk0 else lk0)"
    have lk1: "t_links s1 l0 = Some lk1" using s1(3) lk0 by (simp add: lk1_def)
    have "(t_links s1)(l0 \<mapsto> penalty (cf_fp cf) lk1) = (\<lambda>l. map_option (penalised cf s n v l) (t_links s l))"
      unfolding s1(3)
    proof (rule ext)
      fix l
      show "((\<lambda>l. if l \<in> set (nd_dst nv) then map_option ?g (t_links s l) else t_links s l)(l0 \<mapsto> penalty (cf_fp cf) lk1)) l =
        map_option (penalised cf s n v l) (t_links s l)"
        using into [of l] bl Some lk0 by (cases "t_links s l") (auto simp: penalised_def lk1_def)
    qed
    moreover have "penalise_step cf n v s = Some (s1\<lparr>t_links := (t_links s1)(l0 \<mapsto> penalty (cf_fp cf) lk1)\<rparr>)"
    proof -
      have "update_link (penalty (cf_fp cf)) l0 s1 = Some (s1\<lparr>t_links := (t_links s1)(l0 \<mapsto> penalty (cf_fp cf) lk1)\<rparr>)"
        using lk1 by (simp add: update_link_def)
      then show ?thesis using nv s1(1) b1 Some by (simp add: penalise_step_def body)
    qed
    moreover have "s1\<lparr>t_links := X\<rparr> = s\<lparr>t_links := X\<rparr>" for X by (subst s1e) simp
    ultimately show ?thesis by simp
  qed
qed

section \<open>Extracting a path\<close>

text \<open>\<open>s'\<close> differs from \<open>s\<close> in the next costs of some links, raised by one of the two factors.\<close>

definition raised :: "djk_config \<Rightarrow> tc_state \<Rightarrow> tc_state \<Rightarrow> bool" where
  "raised cf s s' \<longleftrightarrow> costs_only s s' \<and> (\<forall>l lk lk'. t_links s l = Some lk \<longrightarrow> t_links s' l = Some lk' \<longrightarrow>
     lk_dcost lk' = lk_dcost lk \<and>
     lk_dcost_p1 lk' \<in> {lk_dcost_p1 lk, lk_dcost lk * of_int (cf_fp cf), lk_dcost lk * of_int (cf_fe cf)})"

lemma raised_refl: "raised cf s s" by (simp add: raised_def)

lemma raised_trans:
  assumes "raised cf s s'" "raised cf s' s''"
  shows "raised cf s s''"
proof -
  have c: "costs_only s s'" "costs_only s' s''" using assms by (simp_all add: raised_def)
  have "lk_dcost k'' = lk_dcost k \<and>
      lk_dcost_p1 k'' \<in> {lk_dcost_p1 k, lk_dcost k * of_int (cf_fp cf), lk_dcost k * of_int (cf_fe cf)}"
    if k: "t_links s l = Some k" "t_links s'' l = Some k''" for l k k''
  proof -
    obtain k' where k': "t_links s' l = Some k'" using costs_only_links [OF c(1) k(1)] by blast
    have "lk_dcost k' = lk_dcost k \<and>
        lk_dcost_p1 k' \<in> {lk_dcost_p1 k, lk_dcost k * of_int (cf_fp cf), lk_dcost k * of_int (cf_fe cf)}"
      using assms(1) k(1) k' unfolding raised_def by blast
    moreover have "lk_dcost k'' = lk_dcost k' \<and>
        lk_dcost_p1 k'' \<in> {lk_dcost_p1 k', lk_dcost k' * of_int (cf_fp cf), lk_dcost k' * of_int (cf_fe cf)}"
      using assms(2) k(2) k' unfolding raised_def by blast
    ultimately show ?thesis by auto
  qed
  then show ?thesis using costs_only_trans [OF c] unfolding raised_def by blast
qed

lemma penalise_raised:
  assumes "tc_ok s" "t_nodes s v \<noteq> None"
  shows "\<exists>s'. penalise_step cf n v s = Some s' \<and> raised cf s s'"
  using penalise_step_ok [OF assms]
  by (auto simp: raised_def costs_only_def penalised_def option.map_comp comp_def intro!: option.map_cong)

lemma maybe_penalise:
  assumes "tc_ok s" "\<And>v. prev = Some v \<Longrightarrow> live s v"
  shows "\<exists>s'. (case prev of None \<Rightarrow> Some s | Some v \<Rightarrow> penalise_step cf n v s) = Some s' \<and> raised cf s s'"
  using penalise_raised [OF assms(1)] assms(2) raised_refl by (cases prev) (auto simp: live_def)

lemma raised_ok:
  assumes "raised cf s s'" "tc_ok s"
  shows "tc_ok s'" "topo_of s' = topo_of s" "t_nodes s' = t_nodes s" "node_of s' = node_of s" "main_addr s' = main_addr s"
    "live s' = live s"
proof -
  have c: "costs_only s s'" using assms(1) by (simp add: raised_def)
  note f = costs_only_fields(1) [OF c]
  show "tc_ok s'" "topo_of s' = topo_of s" using costs_only_ok [OF c assms(2)] by blast+
  show "t_nodes s' = t_nodes s" by (rule f)
  show "node_of s' = node_of s" "main_addr s' = main_addr s" "live s' = live s"
    by (simp_all add: fun_eq_iff node_of_def main_addr_def live_def f)
qed

lemma main_addr_live: "tc_ok s \<Longrightarrow> live s v \<Longrightarrow> main_addr s v = Some (the (main_addr s v))"
  using main_ok_addr [of s v] liveD by fastforce

lemma extract_path_ok:
  assumes "tc_ok s" "chain s r ps" "nd_path (node_of s r) = None" "n = last (r # ps)" "\<forall>v \<in> set (r # ps). live s v"
    and "h + length ps \<le> length buff" "\<And>v. prev = Some v \<Longrightarrow> live s v"
  shows "\<exists>s'. extract_path cf n prev (int (h + length ps) - 1) buff s =
      Some (take h buff @ map (the \<circ> main_addr s) ps @ drop (h + length ps) buff, s') \<and> raised cf s s'"
  using assms
proof (induction ps arbitrary: n prev buff s rule: rev_induct)
  case Nil
  have nd: "t_nodes s r = Some (node_of s r)" using Nil.prems(5) liveD by simp
  show ?case using maybe_penalise [OF Nil.prems(1,7), of prev cf r] Nil.prems(3,4) nd by (subst extract_path.simps) auto
next
  case (snoc v qs)
  have n: "n = v" and nd: "t_nodes s v = Some (node_of s v)" and lv: "live s v"
    using snoc.prems(4,5) liveD by simp_all
  have path: "chain s r qs" "nd_path (node_of s v) = Some (last (r # qs))" using snoc.prems(2) by (simp_all add: chain_snoc)
  obtain ip where ip: "main_addr s v = Some ip" using main_addr_live [OF snoc.prems(1) lv] by blast
  define buff1 where "buff1 = buff[h + length qs := ip]"
  have w: "wr buff (int (h + length (qs @ [v])) - 1) ip = Some buff1"
    using snoc.prems(6) wr_nat [of "h + length qs" buff ip] by (simp add: buff1_def)
  obtain s1 where s1: "(case prev of None \<Rightarrow> Some s | Some u \<Rightarrow> penalise_step cf v u s) = Some s1" "raised cf s s1"
    using maybe_penalise [OF snoc.prems(1,7), of prev cf v] by blast
  note R = raised_ok [OF s1(2) snoc.prems(1)]
  have "chain s1 r qs" using path(1) chain_cong [of qs s1 s r] R(4) by simp
  from snoc.IH [OF R(1) this, of "last (r # qs)" buff1 "Some v"] obtain s' where s':
    "extract_path cf (last (r # qs)) (Some v) (int (h + length qs) - 1) buff1 s1 =
      Some (take h buff1 @ map (the \<circ> main_addr s1) qs @ drop (h + length qs) buff1, s')" "raised cf s1 s'"
    using snoc.prems(3,5,6) R(4,6) lv by (auto simp: buff1_def)
  have d: "drop (h + length qs) buff1 = ip # drop (h + length (qs @ [v])) buff"
    using snoc.prems(6) by (simp add: buff1_def drop_update_swap Cons_nth_drop_Suc [symmetric])
  have t: "take h buff1 = take h buff" by (simp add: buff1_def)
  have idx: "int (h + length (qs @ [v])) - 1 - 1 = int (h + length qs) - 1" by simp
  have "extract_path cf n prev (int (h + length (qs @ [v])) - 1) buff s =
      extract_path cf (last (r # qs)) (Some v) (int (h + length qs) - 1) buff1 s1"
    unfolding n by (subst extract_path.simps) (simp add: nd path(2) ip w s1(1) idx del: length_append of_nat_add)
  then show ?case using s' d t ip R(5) raised_trans [OF s1(2) s'(2)] by simp
qed

section \<open>What a search keeps\<close>

definition same_net :: "nat \<Rightarrow> tc_state \<Rightarrow> tc_state \<Rightarrow> bool" where
  "same_net r s s' \<longleftrightarrow> tc_ok s' \<and> topo_of s' = topo_of s \<and> s' = s\<lparr>t_nodes := t_nodes s', t_links := t_links s'\<rparr> \<and>
     nd_hops (node_of s' r) = nd_hops (node_of s r)"

lemma same_netD:
  assumes "same_net r s s'"
  shows "tc_ok s'" "topo_of s' = topo_of s" "t_list s' = t_list s" "t_cache s' = t_cache s"
    "t_local_links s' = t_local_links s" "nd_hops (node_of s' r) = nd_hops (node_of s r)" "main_addr s' = main_addr s"
    "live s' = live s"
proof -
  have e: "s' = s\<lparr>t_nodes := t_nodes s', t_links := t_links s'\<rparr>" using assms by (simp add: same_net_def)
  show "t_list s' = t_list s" "t_cache s' = t_cache s" "t_local_links s' = t_local_links s" by (subst e, simp)+
  show t: "topo_of s' = topo_of s" using assms by (simp add: same_net_def)
  show "tc_ok s'" "nd_hops (node_of s' r) = nd_hops (node_of s r)" using assms by (simp_all add: same_net_def)
  have "tp_main (topo_of s') = tp_main (topo_of s)" "tp_nodes (topo_of s') = tp_nodes (topo_of s)" by (simp_all add: t)
  then show "main_addr s' = main_addr s" "live s' = live s"
    by (auto simp: topo_of_def live_def fun_eq_iff dom_def)
qed

lemma same_net_trans:
  assumes "same_net r s s'" "same_net r s' s''"
  shows "same_net r s s''"
proof -
  have "s'' = s\<lparr>t_nodes := t_nodes s'', t_links := t_links s''\<rparr>"
    using assms unfolding same_net_def by (cases s, cases s', cases s'') auto
  then show ?thesis using assms unfolding same_net_def by auto
qed

lemma dinv_same_net:
  assumes inv: "dinv r (nd_hops (node_of s r)) s D B {} s1" and ok: "tc_ok s"
  shows "same_net r s s1"
proof -
  note I = dinvD [OF inv] and okD = tc_okD [OF ok]
  have f: "t_hash s1 = t_hash s" "t_list s1 = t_list s" "t_local_addr s1 = t_local_addr s"
    "t_local_mask s1 = t_local_mask s" "t_next s1 = t_next s" "t_links s1 = t_links s"
    by (subst I(1), simp)+
  have "link_ok s1" using link_ok_cong [OF f(6) I(3,4)] okD(2) by simp
  moreover have "l < t_next s1" if "t_links s1 l \<noteq> None" for l
    using that list_okD(4) [OF okD(4), of l] f(5,6) by auto
  ultimately have t: "tc_ok s1" "topo_of s1 = (topo_of s)\<lparr>tp_links := tp_links (topo_of s1)\<rparr>"
    using tc_ok_link_update [OF ok, of s1] I(2) f by simp_all
  have "tp_links (topo_of s1) = tp_links (topo_of s)" by (simp add: topo_of_def f(6))
  then have "topo_of s1 = topo_of s" using t(2) by simp
  moreover have "s1 = s\<lparr>t_nodes := t_nodes s1, t_links := t_links s1\<rparr>" using I(1) f(6) by (cases s, cases s1) simp
  ultimately show ?thesis using t(1) I(16) by (simp add: same_net_def)
qed

lemma costs_only_same_net:
  assumes "costs_only s s'" "tc_ok s"
  shows "same_net r s s'"
proof -
  have "s' = s\<lparr>t_links := t_links s'\<rparr>" using assms(1) by (simp add: costs_only_def)
  then have "s' = s\<lparr>t_nodes := t_nodes s', t_links := t_links s'\<rparr>" by (cases s, cases s') simp
  then show ?thesis using costs_only_ok [OF assms] costs_only_fields(1) [OF assms(1)]
    by (simp add: same_net_def node_of_def)
qed

lemma walk_route: "walk (topo_of s) a vs c \<Longrightarrow> \<exists>c'. route s a vs c'"
proof (induction vs arbitrary: a c)
  case Nil
  then show ?case by simp
next
  case (Cons v vs)
  then obtain l w c' where l: "tp_links (topo_of s) l = Some (a, v, w)" "walk (topo_of s) v vs c'" by auto
  obtain lk where lk: "t_links s l = Some lk" "lk_src lk = a" "lk_dst lk = v" using l(1) by (auto simp: topo_of_def)
  obtain c2 where "route s v vs c2" using Cons.IH [OF l(2)] by blast
  then have "route s a (v # vs) (unat (lk_dcost lk) + c2)" using lk by auto
  then show ?case by blast
qed

section \<open>One round\<close>

definition bounded :: "nat \<Rightarrow> tc_state \<Rightarrow> bool" where
  "bounded C s \<longleftrightarrow> (\<forall>l lk. t_links s l = Some lk \<longrightarrow> unat (lk_dcost lk) \<le> C \<and> unat (lk_dcost_p1 lk) \<le> C)"

text \<open>The two factors lie between 0 and \<open>M\<close>.\<close>

definition factors_ok :: "djk_config \<Rightarrow> nat \<Rightarrow> bool" where
  "factors_ok cf M \<longleftrightarrow> 1 \<le> M \<and> 0 \<le> cf_fp cf \<and> cf_fp cf \<le> int M \<and> 0 \<le> cf_fe cf \<and> cf_fe cf \<le> int M"

lemma unat_mult_factor:
  assumes "unat (a :: ulong) \<le> C" "0 \<le> f" "f \<le> int M"
  shows "unat (a * of_int f) \<le> C * M"
proof -
  have "unat (of_int f :: ulong) \<le> nat f"
  proof -
    have "(of_int f :: ulong) = of_nat (nat f)" using assms(2) by (metis int_nat_eq of_int_of_nat_eq)
    then show ?thesis by (simp add: unat_of_nat)
  qed
  then have f: "unat (of_int f :: ulong) \<le> M" using assms(3) by simp
  have "unat (a * of_int f) \<le> unat a * unat (of_int f :: ulong)"
    by (simp only: unat_word_ariths mod_less_eq_dividend)
  also have "\<dots> \<le> C * M" using assms(1) f mult_le_mono by blast
  finally show ?thesis .
qed

lemma raised_commit:
  assumes ok: "tc_ok s" and b: "bounded C s" "factors_ok cf M" and r: "raised cf s s'"
  shows "\<exists>s''. update_all_links commit_costs s' = Some s'' \<and> same_net r s s'' \<and> bounded (C * M) s''"
proof -
  have c: "costs_only s s'" using r by (simp add: raised_def)
  have idem: "commit_costs (commit_costs lk) = commit_costs lk" for lk by (simp add: commit_costs_def)
  obtain s'' where s'': "update_all_links commit_costs s' = Some s''" "costs_only s' s''"
    "t_links s'' = (\<lambda>l. map_option commit_costs (t_links s' l))"
    using update_all_links_ok [OF costs_only_ok(1) [OF c ok] keeps_ends_fs(2) idem] by blast
  have "unat (lk_dcost lk'') \<le> C * M \<and> unat (lk_dcost_p1 lk'') \<le> C * M" if l: "t_links s'' l = Some lk''" for l lk''
  proof -
    obtain lk' where lk': "t_links s' l = Some lk'" "lk'' = commit_costs lk'" using l s''(3) by auto
    obtain lk where lk: "t_links s l = Some lk" using costs_only_links [OF costs_only_sym [OF c] lk'(1)] by blast
    have bl: "unat (lk_dcost lk) \<le> C" "unat (lk_dcost_p1 lk) \<le> C" using b(1) lk by (simp_all add: bounded_def)
    have p: "lk_dcost_p1 lk' \<in> {lk_dcost_p1 lk, lk_dcost lk * of_int (cf_fp cf), lk_dcost lk * of_int (cf_fe cf)}"
      using r lk lk'(1) unfolding raised_def by blast
    have "1 \<le> M" using b(2) by (simp add: factors_ok_def)
    then have "C \<le> C * M" by simp
    then have "unat (lk_dcost_p1 lk) \<le> C * M" using bl(2) by (rule order_trans [rotated])
    then have "unat (lk_dcost_p1 lk') \<le> C * M"
      using p bl unat_mult_factor [OF bl(1), of "cf_fp cf" M] unat_mult_factor [OF bl(1), of "cf_fe cf" M] b(2)
      unfolding factors_ok_def by auto
    then show ?thesis using lk'(2) by (simp add: commit_costs_def)
  qed
  then show ?thesis using s''(1) costs_only_same_net [OF costs_only_trans [OF c s''(2)] ok] by (auto simp: bounded_def)
qed

text \<open>\<open>n\<close> can be reached from \<open>r\<close>.\<close>

definition connected :: "topo \<Rightarrow> nat \<Rightarrow> nat \<Rightarrow> bool" where
  "connected t r n \<longleftrightarrow> (\<exists>vs c. walk t r vs c \<and> last (r # vs) = n)"

text \<open>
  A path of the cache: after \<open>h\<close> zero entries (none for a source without stale hop count), the main addresses of the
  nodes of a simple walk of length \<open>c\<close> from \<open>r\<close>, without \<open>r\<close> itself, to \<open>n\<close>.
\<close>

definition path_of :: "topo \<Rightarrow> nat \<Rightarrow> nat \<Rightarrow> nat \<Rightarrow> nat \<Rightarrow> olsr_path \<Rightarrow> bool" where
  "path_of t h r n c p \<longleftrightarrow> (\<exists>vs. walk t r vs c \<and> last (r # vs) = n \<and> distinct (r # vs) \<and>
     ph_ips p = replicate h 0 @ map (\<lambda>v. the (tp_main t v)) vs \<and> ph_hops p = int (h + length vs))"

definition shortest :: "topo \<Rightarrow> nat \<Rightarrow> nat \<Rightarrow> nat \<Rightarrow> bool" where
  "shortest t r n c \<longleftrightarrow> (\<forall>vs d. walk t r vs d \<longrightarrow> last (r # vs) = n \<longrightarrow> c \<le> d)"

definition announced_costs :: "tc_state \<Rightarrow> bool" where
  "announced_costs s \<longleftrightarrow> (\<forall>l lk. t_links s l = Some lk \<longrightarrow> lk_dcost lk = lk_cost lk)"

text \<open>A round finds a path and prepares the costs of the next one, or the destination is out of reach.\<close>

definition round_result :: "djk_config \<Rightarrow> nat \<Rightarrow> nat \<Rightarrow> nat \<Rightarrow> nat \<Rightarrow> tc_state \<Rightarrow> tc_state \<Rightarrow> bool" where
  "round_result cf h r n B s s1 \<longleftrightarrow> (\<exists>c s2 s3 ips.
     extract_path cf n None (nd_hops (node_of s1 n) - 1) (replicate (nat (nd_hops (node_of s1 n))) 0) s1 = Some (ips, s2) \<and>
     update_all_links commit_costs s2 = Some s3 \<and> same_net r s s3 \<and> bounded B s3 \<and>
     path_of (topo_of s) h r n c \<lparr>ph_ips = ips, ph_hops = nd_hops (node_of s1 n)\<rparr> \<and>
     (announced_costs s \<longrightarrow> shortest (topo_of s) r n c))"

lemma round_ok:
  assumes ok: "tc_ok s" and r: "main_addr s r = Some src" "nd_hops (node_of s r) = int h" and n: "live s n"
    and C: "bounded C s" "length (t_list s) * C < infinite" and f: "factors_ok cf M"
  shows "\<exists>s1. dijkstra src s = Some s1 \<and> same_net r s s1 \<and> t_nodes s1 n = Some (node_of s1 n) \<and>
    (if nd_cost (node_of s1 n) = no_cost then \<not> connected (topo_of s) r n
     else connected (topo_of s) r n \<and> round_result cf h r n (C * M) s s1)"
proof -
  have Cl: "\<And>l lk. t_links s l = Some lk \<Longrightarrow> unat (lk_dcost lk) \<le> C" using C(1) by (simp add: bounded_def)
  obtain s1 D B where s1: "dijkstra src s = Some s1" "dinv r (int h) s D B {} s1" "r \<in> D"
    "\<forall>v. live s v \<longrightarrow> v \<notin> D \<longrightarrow> cost s1 v = infinite"
    "\<forall>ps c. route s r ps c \<longrightarrow> last (r # ps) \<in> D \<and> cost s1 (last (r # ps)) \<le> c"
    using dijkstra_ok [OF ok r(1) _ C(2)] Cl unfolding r(2) by blast
  note I = dinvD [OF s1(2)]
  have net: "same_net r s s1" using dinv_same_net [of r s D B s1] s1(2) r(2) ok by simp
  note N = same_netD [OF net]
  have nn: "t_nodes s1 n = Some (node_of s1 n)" using n N(8) liveD by metis
  have unreach: "\<not> connected (topo_of s) r n" if "cost s1 n = infinite"
  proof
    assume "connected (topo_of s) r n"
    then obtain vs c where "route s r vs c" "last (r # vs) = n" using walk_route unfolding connected_def by blast
    then have "n \<in> D" using s1(5) by blast
    then show False using I(11) that by blast
  qed
  have reach: "connected (topo_of s) r n \<and> round_result cf h r n (C * M) s s1" if fin: "cost s1 n \<noteq> infinite"
  proof -
    obtain ps where ps: "chain s1 r ps" "last (r # ps) = n" "route s r ps (cost s1 n)" "set (butlast (r # ps)) \<subseteq> D"
        "distinct (r # ps)" "nd_hops (node_of s1 n) = int h + int (length ps)"
      using I(8) [OF n fin] unfolding reached_def by blast
    have "set (r # ps) = insert n (set (butlast (r # ps)))"
      using ps(2) by (metis append_butlast_last_id list.simps(15) rotate1.simps(2) set_rotate1 list.discI)
    then have lv: "\<forall>v \<in> set (r # ps). live s1 v" using ps(4) I(5) n N(8) by auto
    have hops: "nd_hops (node_of s1 n) = int (h + length ps)" "nat (nd_hops (node_of s1 n)) = h + length ps"
      using ps(6) by simp_all
    have p: "nd_path (node_of s1 r) = None" using I(15) by simp
    obtain s2 where s2: "extract_path cf n None (int (h + length ps) - 1) (replicate (h + length ps) 0) s1 =
        Some (replicate h 0 @ map (the \<circ> main_addr s1) ps, s2)" "raised cf s1 s2"
      using extract_path_ok [OF N(1) ps(1) p ps(2) [symmetric] lv, of h "replicate (h + length ps) 0" None cf] by auto
    have "bounded C s1" using C(1) dinv_links [OF s1(2)] by (simp add: bounded_def)
    from raised_commit [OF N(1) this f s2(2)] obtain s3 where s3: "update_all_links commit_costs s2 = Some s3"
        "same_net r s1 s3" "bounded (C * M) s3" by blast
    have walk_c: "\<exists>c. walk (topo_of s) r ps c \<and> (announced_costs s \<longrightarrow> shortest (topo_of s) r n c)"
    proof (cases "announced_costs s")
      case True
      then have rw: "\<And>a vs c. route s a vs c \<longleftrightarrow> walk (topo_of s) a vs c"
        by (intro route_eq_walk) (simp add: announced_costs_def)
      then have "shortest (topo_of s) r n (cost s1 n)" using s1(5) unfolding shortest_def by blast
      then show ?thesis using ps(3) rw by blast
    next
      case False
      then show ?thesis using route_walk [OF ps(3)] by blast
    qed
    then obtain c where c: "walk (topo_of s) r ps c" "announced_costs s \<longrightarrow> shortest (topo_of s) r n c" by blast
    have "map (the \<circ> main_addr s1) ps = map (\<lambda>v. the (tp_main (topo_of s) v)) ps"
      using N(7) by (simp add: topo_of_def)
    then have "path_of (topo_of s) h r n c
        \<lparr>ph_ips = replicate h 0 @ map (the \<circ> main_addr s1) ps, ph_hops = nd_hops (node_of s1 n)\<rparr>"
      unfolding path_of_def using c(1) ps(2,5) hops(1) by (intro exI [of _ ps]) simp
    then have "round_result cf h r n (C * M) s s1"
      using s2(1) s3(1,3) same_net_trans [OF net s3(2)] c(2) unfolding round_result_def hops(1) nat_int by blast
    moreover have "connected (topo_of s) r n" using c(1) ps(2) unfolding connected_def by blast
    ultimately show ?thesis by blast
  qed
  show ?thesis using s1(1) net nn unreach reach no_cost_iff [of s1 n] by (cases "cost s1 n = infinite") simp_all
qed

section \<open>All rounds\<close>

definition enough_memory :: "(nat \<Rightarrow> bool \<times> bool) \<Rightarrow> nat \<Rightarrow> nat \<Rightarrow> bool" where
  "enough_memory mem i k \<longleftrightarrow> (\<forall>j < k. fst (mem (i + j)) \<and> snd (mem (i + j)))"

lemma enough_memory_Suc:
  "enough_memory mem i (Suc k) \<longleftrightarrow> fst (mem i) \<and> snd (mem i) \<and> enough_memory mem (Suc i) k"
  unfolding enough_memory_def by (auto simp: less_Suc_eq_0_disj)

lemma insert_path_set [simp]: "set (insert_path p ps) = insert p (set ps)" "length (insert_path p ps) = Suc (length ps)"
  by (cases ps; auto)+

lemma bounded_power: "1 \<le> M \<Longrightarrow> L * (C * M ^ Suc k) < (b :: nat) \<Longrightarrow> L * C < b"
proof -
  assume M: "1 \<le> M" and l: "L * (C * M ^ Suc k) < b"
  have "1 \<le> M ^ Suc k" using M by (rule one_le_power)
  then have "L * C * 1 \<le> L * C * M ^ Suc k" by (rule mult_le_mono2)
  also have "\<dots> = L * (C * M ^ Suc k)" by (simp only: mult.assoc)
  finally have "L * C \<le> L * (C * M ^ Suc k)" unfolding mult_1_right .
  then show "L * C < b" using l by (rule le_less_trans)
qed

lemma k_paths_ok:
  assumes "tc_ok s" "main_addr s r = Some src" "nd_hops (node_of s r) = int h" "live s n"
    and "bounded C s" "length (t_list s) * (C * M ^ k) < infinite" "factors_ok cf M"
    and "\<forall>p \<in> set paths. \<exists>c. path_of (topo_of s) h r n c p"
  shows "\<exists>ok paths' s'. k_paths cf mem src n i k paths s = Some (ok, paths', s') \<and> same_net r s s' \<and>
    (\<forall>p \<in> set paths'. \<exists>c. path_of (topo_of s) h r n c p) \<and>
    (ok \<longleftrightarrow> k = 0 \<or> connected (topo_of s) r n \<and> enough_memory mem i k) \<and>
    (ok \<longrightarrow> length paths' = length paths + k) \<and> length paths' \<le> length paths + k \<and>
    (\<not> connected (topo_of s) r n \<longrightarrow> paths' = paths) \<and>
    (paths \<noteq> [] \<longrightarrow> paths' \<noteq> [] \<and> hd paths' = hd paths) \<and>
    (paths = [] \<longrightarrow> paths' \<noteq> [] \<longrightarrow> announced_costs s \<longrightarrow>
       (\<exists>c. path_of (topo_of s) h r n c (hd paths') \<and> shortest (topo_of s) r n c))"
  using assms
proof (induction k arbitrary: i s C paths)
  case 0
  then show ?case by (auto simp: same_net_def enough_memory_def)
next
  case (Suc k)
  have M: "1 \<le> M" using Suc.prems(7) by (simp add: factors_ok_def)
  obtain s1 where s1: "dijkstra src s = Some s1" "same_net r s s1" "t_nodes s1 n = Some (node_of s1 n)"
    "if nd_cost (node_of s1 n) = no_cost then \<not> connected (topo_of s) r n
     else connected (topo_of s) r n \<and> round_result cf h r n (C * M) s s1"
    using round_ok [OF Suc.prems(1-5) bounded_power [OF M Suc.prems(6)] Suc.prems(7)] by blast
  show ?case
  proof (cases "nd_cost (node_of s1 n) = no_cost \<or> \<not> fst (mem i) \<or> \<not> snd (mem i)")
    case True
    then have "k_paths cf mem src n i (Suc k) paths s = Some (False, paths, s1)" using s1(1,3) by simp
    moreover have "\<not> (connected (topo_of s) r n \<and> enough_memory mem i (Suc k))"
      using True s1(4) by (auto simp: enough_memory_Suc)
    ultimately show ?thesis using s1(2) Suc.prems(8) by auto
  next
    case False
    then have conn: "connected (topo_of s) r n" and "round_result cf h r n (C * M) s s1" using s1(4) by simp_all
    then obtain c s2 s3 ips where R:
      "extract_path cf n None (nd_hops (node_of s1 n) - 1) (replicate (nat (nd_hops (node_of s1 n))) 0) s1 = Some (ips, s2)"
      "update_all_links commit_costs s2 = Some s3" "same_net r s s3" "bounded (C * M) s3"
      "path_of (topo_of s) h r n c \<lparr>ph_ips = ips, ph_hops = nd_hops (node_of s1 n)\<rparr>"
      "announced_costs s \<longrightarrow> shortest (topo_of s) r n c" unfolding round_result_def by blast
    define p where "p = \<lparr>ph_ips = ips, ph_hops = nd_hops (node_of s1 n)\<rparr>"
    note N = same_netD [OF R(3)]
    have step: "k_paths cf mem src n i (Suc k) paths s = k_paths cf mem src n (Suc i) k (insert_path p paths) s3"
      using False s1(1,3) R(1,2) by (simp add: p_def)
    have valid: "\<forall>q \<in> set (insert_path p paths). \<exists>c. path_of (topo_of s3) h r n c q"
      using Suc.prems(8) R(5) N(2) by (auto simp: p_def)
    have bnd: "length (t_list s3) * (C * M * M ^ k) < infinite" using Suc.prems(6) N(3) by (simp add: mult.assoc)
    have pre: "main_addr s3 r = Some src" "nd_hops (node_of s3 r) = int h" "live s3 n"
      using Suc.prems(2-4) N(6-8) by simp_all
    from Suc.IH [OF N(1) pre R(4) bnd Suc.prems(7) valid, of "Suc i"] obtain ok paths' s' where I:
      "k_paths cf mem src n (Suc i) k (insert_path p paths) s3 = Some (ok, paths', s')" "same_net r s3 s'"
      "\<forall>q \<in> set paths'. \<exists>c. path_of (topo_of s) h r n c q"
      "ok \<longleftrightarrow> k = 0 \<or> connected (topo_of s) r n \<and> enough_memory mem (Suc i) k"
      "ok \<longrightarrow> length paths' = length (insert_path p paths) + k" "length paths' \<le> length (insert_path p paths) + k"
      "insert_path p paths \<noteq> [] \<longrightarrow> paths' \<noteq> [] \<and> hd paths' = hd (insert_path p paths)"
      unfolding N(2) by blast
    have ne: "insert_path p paths \<noteq> []" by (cases paths) simp_all
    have hd: "paths' \<noteq> [] \<and> hd paths' = hd (insert_path p paths)" using I(7) ne by blast
    have "ok \<longleftrightarrow> enough_memory mem i (Suc k)" 
      unfolding enough_memory_Suc using I(4) conn False by (cases "k = 0") (simp_all add: enough_memory_def)
    moreover have "paths \<noteq> [] \<longrightarrow> hd (insert_path p paths) = hd paths" by (cases paths) simp_all
    moreover have "paths = [] \<longrightarrow> hd (insert_path p paths) = p" by simp
    moreover have "length paths' \<le> length paths + Suc k" "ok \<longrightarrow> length paths' = length paths + Suc k"
      using I(5,6) by simp_all
    ultimately show ?thesis
      using step I(1,3) same_net_trans [OF R(3) I(2)] hd conn R(5,6) unfolding p_def by (intro exI conjI) auto
  qed
qed

section \<open>The whole search\<close>

lemma init_costs_ok:
  assumes ok: "tc_ok s" and C: "\<And>l lk. t_links s l = Some lk \<Longrightarrow> unat (lk_cost lk) \<le> C"
  shows "\<exists>s'. update_all_links init_costs s = Some s' \<and> same_net r s s' \<and> bounded C s' \<and> announced_costs s'"
proof -
  have idem: "init_costs (init_costs lk) = init_costs lk" for lk by (simp add: init_costs_def)
  obtain s' where s': "update_all_links init_costs s = Some s'" "costs_only s s'"
    "t_links s' = (\<lambda>l. map_option init_costs (t_links s l))"
    using update_all_links_ok [OF ok keeps_ends_fs(1) idem] by blast
  have "bounded C s'" "announced_costs s'"
    using C s'(3) by (auto simp: bounded_def announced_costs_def init_costs_def)
  then show ?thesis using s'(1) costs_only_same_net [OF s'(2) ok] by blast
qed

text \<open>The hypotheses under which no cost can overflow: \<open>C\<close> bounds the announced costs.\<close>

definition no_overflow :: "djk_config \<Rightarrow> nat \<Rightarrow> nat \<Rightarrow> tc_state \<Rightarrow> bool" where
  "no_overflow cf C M s \<longleftrightarrow> factors_ok cf M \<and> (\<forall>l lk. t_links s l = Some lk \<longrightarrow> unat (lk_cost lk) \<le> C) \<and>
     length (t_list s) * (C * M ^ nat (cf_path cf)) < infinite"

lemma tc_k_dijstra_ok:
  assumes ok: "tc_ok s" and r: "main_addr s r = Some src" "nd_hops (node_of s r) = int h"
    and n: "tc_get_node dst s = Some n" and b: "no_overflow cf C M s"
  shows "\<exists>res paths s'. tc_k_dijstra cf True mem src dst s = Some (res, s') \<and> tc_ok s' \<and> topo_of s' = topo_of s \<and>
    t_cache s' = \<lparr>pb_src = src, pb_dst = dst, pb_paths = paths\<rparr> # t_cache s \<and> t_list s' = t_list s \<and>
    t_local_links s' = t_local_links s \<and> nd_hops (node_of s' r) = nd_hops (node_of s r) \<and>
    (\<forall>p \<in> set paths. \<exists>c. path_of (topo_of s) h r n c p) \<and>
    (\<not> connected (topo_of s) r n \<longrightarrow> paths = []) \<and>
    (\<forall>p. res = Some p \<longleftrightarrow> connected (topo_of s) r n \<and> 0 < cf_path cf \<and> enough_memory mem 0 (nat (cf_path cf)) \<and> p = hd paths) \<and>
    (res \<noteq> None \<longrightarrow> length paths = nat (cf_path cf)) \<and>
    (paths \<noteq> [] \<longrightarrow> (\<exists>c. path_of (topo_of s) h r n c (hd paths) \<and> shortest (topo_of s) r n c))"
proof -
  have C: "\<And>l lk. t_links s l = Some lk \<Longrightarrow> unat (lk_cost lk) \<le> C" and f: "factors_ok cf M"
    and l: "length (t_list s) * (C * M ^ nat (cf_path cf)) < infinite" using b by (auto simp: no_overflow_def)
  obtain s1 where s1: "update_all_links init_costs s = Some s1" "same_net r s s1" "bounded C s1" "announced_costs s1"
    using init_costs_ok [OF ok] C by metis
  note N = same_netD [OF s1(2)]
  have nl: "live s n"
    using n tc_get_node_iff [OF tc_okD(1) [OF ok]] slot_live by (fastforce simp: live_def)
  have pre: "main_addr s1 r = Some src" "nd_hops (node_of s1 r) = int h" "live s1 n"
    "length (t_list s1) * (C * M ^ nat (cf_path cf)) < infinite" "\<forall>p \<in> set []. \<exists>c. path_of (topo_of s1) h r n c p"
    using r nl l N by simp_all
  from k_paths_ok [OF N(1) pre(1-3) s1(3) pre(4) f pre(5), of mem 0] obtain ok' paths s' where K:
    "k_paths cf mem src n 0 (nat (cf_path cf)) [] s1 = Some (ok', paths, s')" "same_net r s1 s'"
    "\<forall>p \<in> set paths. \<exists>c. path_of (topo_of s) h r n c p"
    "ok' \<longleftrightarrow> nat (cf_path cf) = 0 \<or> connected (topo_of s) r n \<and> enough_memory mem 0 (nat (cf_path cf))"
    "ok' \<longrightarrow> length paths = nat (cf_path cf)" "\<not> connected (topo_of s) r n \<longrightarrow> paths = []"
    "length paths \<le> nat (cf_path cf)"
    "paths \<noteq> [] \<longrightarrow> (\<exists>c. path_of (topo_of s) h r n c (hd paths) \<and> shortest (topo_of s) r n c)"
    using s1(4) unfolding N(2) by auto
  define res where "res = (if ok' then (case paths of [] \<Rightarrow> None | p # _ \<Rightarrow> Some p) else None)"
  define t where "t = s'\<lparr>t_cache := \<lparr>pb_src = src, pb_dst = dst, pb_paths = paths\<rparr> # t_cache s'\<rparr>"
  note S = same_netD [OF same_net_trans [OF s1(2) K(2)]]
  have run: "tc_k_dijstra cf True mem src dst s = Some (res, t)"
    using n s1(1) K(1) by (simp add: tc_k_dijstra_def res_def t_def Let_def)
  have res: "res = Some p \<longleftrightarrow> connected (topo_of s) r n \<and> 0 < cf_path cf \<and> enough_memory mem 0 (nat (cf_path cf)) \<and> p = hd paths" for p
    using K(4,5,6,7) by (cases paths) (auto simp: res_def)
  have tt: "tc_ok t" "topo_of t = topo_of s'"
    using S(1) by (simp_all add: t_def tc_ok_def addr_ok_def link_ok_def main_ok_def list_ok_def slot_def topo_of_def fun_eq_iff
        tc_get_node_def find_addr_def main_addr_def)
  have "nd_hops (node_of t r) = nd_hops (node_of s r)" using S(6) by (simp add: t_def node_of_def)
  moreover have "t_cache t = \<lparr>pb_src = src, pb_dst = dst, pb_paths = paths\<rparr> # t_cache s" "t_list t = t_list s"
    "t_local_links t = t_local_links s" using S(3-5) by (simp_all add: t_def)
  moreover have "res \<noteq> None \<longrightarrow> length paths = nat (cf_path cf)" using K(5) by (simp add: res_def)
  moreover have "tc_ok t" "topo_of t = topo_of s" using tt S(1,2) by simp_all
  moreover have "\<forall>p. res = Some p \<longleftrightarrow> connected (topo_of s) r n \<and> 0 < cf_path cf \<and>
      enough_memory mem 0 (nat (cf_path cf)) \<and> p = hd paths" using res by blast
  ultimately show ?thesis using run K(3,6,8) by blast
qed

end
