(* ===== verification/Codec.thy ===== *)
theory Codec imports Prelude_MPOLSR begin

text \<open>
  Binary layouts of fixed size: the C structures that travel in a byte buffer (the command
  tokens of the device, the routing header of a packet, the addresses of its path). The locale
  states what an encoding promises; the components interpret it on their own layouts.
\<close>

text \<open>A buffer cut into records of \<open>n\<close> bytes; a shorter rest is dropped.\<close>

function chunks :: "nat \<Rightarrow> 'a list \<Rightarrow> 'a list list" where
  "chunks n xs = (if n = 0 \<or> length xs < n then [] else take n xs # chunks n (drop n xs))"
  by pat_completeness auto
termination by (relation "measure (\<lambda>(n, xs). length xs)") auto

declare chunks.simps [simp del]

lemma chunks_append:
  assumes "0 < n" "length xs = n"
  shows "chunks n (xs @ ys) = xs # chunks n ys"
  using assms by (subst chunks.simps) simp

lemma chunks_short: "length xs < n \<Longrightarrow> chunks n xs = []"
  by (subst chunks.simps) simp

lemma length_chunks: "0 < n \<Longrightarrow> length (chunks n xs) = length xs div n"
proof (induction n xs rule: chunks.induct)
  case (1 n xs)
  show ?case
  proof (cases "length xs < n")
    case True
    then show ?thesis by (simp add: chunks_short)
  next
    case False
    then have "length (chunks n xs) = Suc (length (chunks n (drop n xs)))"
      using 1 by (subst chunks.simps) simp
    also have "length (chunks n (drop n xs)) = (length xs - n) div n" using 1 False by simp
    finally show ?thesis using 1(2) False by (simp add: le_div_geq)
  qed
qed

locale fixed_codec =
  fixes enc :: "'a \<Rightarrow> byte list" and dec :: "byte list \<Rightarrow> 'a" and size :: nat
  assumes size_pos: "0 < size" and enc_length: "length (enc a) = size" and dec_enc: "dec (enc a) = a"
begin

lemma enc_inj: "enc a = enc b \<longleftrightarrow> a = b"
  by (metis dec_enc)

lemma dec_prefix: "dec (take size (enc a @ ys)) = a"
  by (simp add: enc_length dec_enc)

lemma drop_prefix: "drop size (enc a @ ys) = ys"
  by (simp add: enc_length)

lemma length_stream: "length (concat (map enc as)) = size * length as"
  by (induction as) (simp_all add: enc_length)

lemma chunks_stream: "chunks size (concat (map enc as)) = map enc as"
  by (induction as) (simp_all add: chunks_short size_pos chunks_append enc_length)

lemma decode_stream: "map dec (chunks size (concat (map enc as))) = as"
  by (simp add: chunks_stream dec_enc map_idI)

lemma stream_inj: "concat (map enc as) = concat (map enc bs) \<longleftrightarrow> as = bs"
  by (metis decode_stream)

lemma stream_nth: "i < length as \<Longrightarrow> take size (drop (size * i) (concat (map enc as))) = enc (as ! i)"
proof (induction "as" arbitrary: i)
  case (Cons a "as")
  then show ?case by (cases i) (simp_all add: enc_length)
qed simp

end

text \<open>Addresses are stored as they are in memory.\<close>

interpretation addr_codec: fixed_codec le32 of_le32 4
  by unfold_locales simp_all

end
