(* ===== verification/Ser_Device.thy ===== *)
theory Ser_Device imports Tc_Ops Codec begin

text \<open>
  The character device of the kernel module (\<open>ser_device.c\<close>): the OLSR daemon writes tokens of 16
  bytes that drive the topology store. \<open>copy_from_user\<close> and \<open>copy_to_user\<close>, which may fail, and the
  outcome of the allocations are parameters.
\<close>

section \<open>Tokens\<close>

record dev_tc_token =
  tk_type :: ulong
  tk_addr_1 :: ip_addr
  tk_addr_2 :: ip_addr
  tk_value :: ulong

definition token_size :: nat where "token_size = 16"

definition token_bytes :: "dev_tc_token \<Rightarrow> byte list" where
  "token_bytes t = le32 (tk_type t) @ le32 (tk_addr_1 t) @ le32 (tk_addr_2 t) @ le32 (tk_value t)"

definition token_of_bytes :: "byte list \<Rightarrow> dev_tc_token" where
  "token_of_bytes bs = \<lparr>tk_type = of_le32 (take 4 bs), tk_addr_1 = of_le32 (take 4 (drop 4 bs)),
     tk_addr_2 = of_le32 (take 4 (drop 8 bs)), tk_value = of_le32 (take 4 (drop 12 bs))\<rparr>"

interpretation token_codec: fixed_codec token_bytes token_of_bytes token_size
  by unfold_locales (simp_all add: token_bytes_def token_of_bytes_def token_size_def)

definition cmd_reset_tc :: ulong where "cmd_reset_tc = 1"
definition cmd_add_node :: ulong where "cmd_add_node = 2"
definition cmd_remove_node :: ulong where "cmd_remove_node = 3"
definition cmd_add_link :: ulong where "cmd_add_link = 4"
definition cmd_remove_link :: ulong where "cmd_remove_link = 5"
definition cmd_add_alias :: ulong where "cmd_add_alias = 6"
definition cmd_remove_alias :: ulong where "cmd_remove_alias = 7"
definition cmd_set_local_addr :: ulong where "cmd_set_local_addr = 8"
definition cmd_set_alias_addr :: ulong where "cmd_set_alias_addr = 9"

lemmas cmd_defs = cmd_reset_tc_def cmd_add_node_def cmd_remove_node_def cmd_add_link_def
  cmd_remove_link_def cmd_add_alias_def cmd_remove_alias_def cmd_set_local_addr_def cmd_set_alias_addr_def

section \<open>Writing\<close>

text \<open>The two flags are the outcomes of the allocations made for the token.\<close>

definition dev_dispatch :: "bool \<Rightarrow> bool \<Rightarrow> dev_tc_token \<Rightarrow> tc_state \<Rightarrow> tc_state option" where
  "dev_dispatch mem1 mem2 t s =
     (if tk_type t = cmd_reset_tc then tc_free_data s
      else if tk_type t = cmd_add_node then tc_add_node mem1 mem2 (tk_addr_1 t) s
      else if tk_type t = cmd_remove_node then tc_remove_node (tk_addr_1 t) s
      else if tk_type t = cmd_add_link then tc_add_link mem1 mem2 (tk_addr_1 t) (tk_addr_2 t) (sint (tk_value t)) s
      else if tk_type t = cmd_remove_link then tc_remove_link (tk_addr_1 t) (tk_addr_2 t) s
      else if tk_type t = cmd_add_alias then tc_add_alias mem1 (tk_addr_1 t) (tk_addr_2 t) s
      else if tk_type t = cmd_remove_alias then tc_remove_alias (tk_addr_1 t) (tk_addr_2 t) s
      else if tk_type t = cmd_set_local_addr then tc_set_local_addr (tk_addr_1 t) (tk_addr_2 t) s
      else if tk_type t = cmd_set_alias_addr then tc_set_local_alias (tk_addr_1 t) (tk_addr_2 t) s
      else Some s)"

text \<open>The \<open>copy\<close> flag of a token is false when \<open>copy_from_user\<close> fails on it; then the rest is dropped.\<close>

record outcome =
  oc_copy :: bool
  oc_mem1 :: bool
  oc_mem2 :: bool

fun dev_write_loop :: "(nat \<Rightarrow> outcome) \<Rightarrow> nat \<Rightarrow> byte list list \<Rightarrow> tc_state \<Rightarrow> tc_state option" where
  "dev_write_loop oc i [] s = Some s"
| "dev_write_loop oc i (b # bs) s =
     (if \<not> oc_copy (oc i) then Some s
      else do {
        s \<leftarrow> dev_dispatch (oc_mem1 (oc i)) (oc_mem2 (oc i)) (token_of_bytes b) s;
        dev_write_loop oc (Suc i) bs s
      })"

definition dev_device_write :: "(nat \<Rightarrow> outcome) \<Rightarrow> byte list \<Rightarrow> tc_state \<Rightarrow> (tc_state \<times> int) option" where
  "dev_device_write oc buffer s =
     (if length buffer mod token_size \<noteq> 0 then Some (s, int (length buffer))
      else do {
        s \<leftarrow> dev_write_loop oc 0 (chunks token_size buffer) s;
        Some (s, int (length buffer))
      })"

section \<open>Reading, opening and closing\<close>

fun digits :: "nat \<Rightarrow> string" where
  "digits n = (if n < 10 then [char_of (48 + n)] else digits (n div 10) @ [char_of (48 + n mod 10)])"

definition decimal :: "int \<Rightarrow> string" where
  "decimal n = (if n < 0 then CHR ''-'' # digits (nat (- n)) else digits (nat n))"

definition read_message :: "int \<Rightarrow> string" where
  "read_message counter = ''SEREADMO char device registred and open '' @ decimal counter @ '' times''"

text \<open>The bytes copied to the reader, the result and the new offset; \<open>ok\<close> is \<open>copy_to_user\<close>.\<close>

definition dev_device_read :: "bool \<Rightarrow> int \<Rightarrow> nat \<Rightarrow> nat \<Rightarrow> string \<times> int \<times> nat" where
  "dev_device_read ok counter len offset =
     (let msg = read_message counter in
      if length msg \<le> offset then ([], 0, offset)
      else let n = min (length msg - offset) len in
           if ok then (take n (drop offset msg), int n, offset + n) else ([], 0, offset))"

definition dev_device_open :: "int \<Rightarrow> int" where "dev_device_open counter = counter + 1"

definition dev_device_release :: "int \<Rightarrow> int" where "dev_device_release counter = counter - 1"

text \<open>\<open>register_chrdev\<close> is the argument; the result is the major number kept and the return code.\<close>

definition dev_init_device :: "int \<Rightarrow> int \<times> int" where
  "dev_init_device major = (if major < 0 then (0, -19) else (major, 0))"

definition dev_cleanup_device :: "int \<Rightarrow> bool" where
  "dev_cleanup_device major = (0 < major)"

end
