(* ===== verification/Device_Safety.thy ===== *)
theory Device_Safety imports Ser_Device begin

text \<open>
  What the device guarantees to the daemon: a token stream is executed token by token, a stream
  that follows the protocol (no address is given to two nodes, only known nodes are removed, a main
  address is never removed as an alias) never reaches undefined behaviour, and the reader gets the message in
  whatever pieces it asks for.
\<close>

section \<open>The store as seen by its clients\<close>

locale node_store =
  fixes inv :: "'s \<Rightarrow> bool" and lookup :: "'s \<Rightarrow> ip_addr \<rightharpoonup> nat"
    and add :: "ip_addr \<Rightarrow> 's \<Rightarrow> 's option" and remove :: "ip_addr \<Rightarrow> 's \<Rightarrow> 's option"
  assumes add_law: "inv s \<Longrightarrow> lookup s ip = None \<Longrightarrow>
      \<exists>s' n. add ip s = Some s' \<and> inv s' \<and> lookup s' = (lookup s)(ip \<mapsto> n) \<and> n \<notin> ran (lookup s)"
    and remove_law: "inv s \<Longrightarrow> lookup s ip = Some n \<Longrightarrow>
      \<exists>s'. remove ip s = Some s' \<and> inv s' \<and> lookup s' = lookup s |` {a. lookup s a \<noteq> Some n}"
begin

lemma add_then_remove:
  assumes "inv s" "lookup s ip = None"
  shows "\<exists>s'. do { s \<leftarrow> add ip s; remove ip s } = Some s' \<and> inv s' \<and> lookup s' = lookup s"
proof -
  obtain s1 n where s1: "add ip s = Some s1" "inv s1" "lookup s1 = (lookup s)(ip \<mapsto> n)" "n \<notin> ran (lookup s)"
    using add_law [OF assms] by blast
  then have "lookup s1 ip = Some n" by simp
  from remove_law [OF s1(2) this] obtain s2 where s2: "remove ip s1 = Some s2" "inv s2"
    "lookup s2 = lookup s1 |` {a. lookup s1 a \<noteq> Some n}" by blast
  have "lookup s2 a = lookup s a" for a
  proof (cases "a = ip")
    case True
    then show ?thesis using s2(3) s1(3) assms(2) by (simp add: restrict_map_def)
  next
    case False
    then have "lookup s a \<noteq> Some n" using s1(4) by (metis ranI)
    then show ?thesis using s2(3) s1(3) False by (simp add: restrict_map_def)
  qed
  then show ?thesis using s1(1) s2 by auto
qed

lemma add_all:
  assumes "inv s" "distinct ips" "\<forall>ip \<in> set ips. lookup s ip = None"
  shows "\<exists>s'. iter ips add s = Some s' \<and> inv s' \<and> dom (lookup s') = dom (lookup s) \<union> set ips"
  using assms
proof (induction ips arbitrary: s)
  case Nil
  then show ?case by simp
next
  case (Cons ip ips)
  obtain s1 n where s1: "add ip s = Some s1" "inv s1" "lookup s1 = (lookup s)(ip \<mapsto> n)"
    using add_law [of s ip] Cons.prems by auto
  have "\<forall>a \<in> set ips. lookup s1 a = None" using Cons.prems s1(3) by auto
  from Cons.IH [OF s1(2) _ this] Cons.prems(2) obtain s2 where
    "iter ips add s1 = Some s2" "inv s2" "dom (lookup s2) = dom (lookup s1) \<union> set ips" by auto
  with s1 show ?case by auto
qed

lemma remove_frees:
  assumes "inv s" "lookup s ip = Some n"
  shows "\<exists>s'. remove ip s = Some s' \<and> inv s' \<and> n \<notin> ran (lookup s')"
  using remove_law [OF assms] by (auto simp: ran_def restrict_map_def)

end

lemma lookup_live:
  assumes "tc_ok s" "tc_get_node ip s = Some n"
  shows "t_nodes s n \<noteq> None" "n < t_next s"
proof -
  show "t_nodes s n \<noteq> None" using tc_get_node_iff [OF tc_okD(1) [OF assms(1)]] assms(2) slot_live by fastforce
  then show "n < t_next s" using list_okD(3) [OF tc_okD(4) [OF assms(1)]] by blast
qed

interpretation tc_store: node_store tc_ok "\<lambda>s ip. tc_get_node ip s" "tc_add_node True True" tc_remove_node
proof unfold_locales
  fix s ip
  assume ok: "tc_ok s" and new: "tc_get_node ip s = None"
  obtain s' where s': "tc_add_node True True ip s = Some s'" "tc_ok s'"
      "topo_of s' = topo_add_node (t_next s) ip (topo_of s)"
    using tc_add_node_ok [OF ok new] by blast
  have "tp_owner (topo_of s') = (tp_owner (topo_of s))(ip \<mapsto> t_next s)" by (simp add: s'(3) topo_add_node_def)
  moreover have "t_next s \<notin> ran (\<lambda>ip. tc_get_node ip s)"
    using lookup_live(2) [OF ok] by (auto simp: ran_def)
  ultimately show "\<exists>s' n. tc_add_node True True ip s = Some s' \<and> tc_ok s' \<and>
      (\<lambda>ip. tc_get_node ip s') = (\<lambda>ip. tc_get_node ip s)(ip \<mapsto> n) \<and> n \<notin> ran (\<lambda>ip. tc_get_node ip s)"
    using s'(1,2) by (auto simp: topo_of_def)
next
  fix s ip n
  assume ok: "tc_ok s" and n: "tc_get_node ip s = Some n"
  obtain s' where s': "tc_remove_node ip s = Some s'" "tc_ok s'" "topo_of s' = topo_remove_node n (topo_of s)"
    using tc_remove_node_ok [OF ok n] by blast
  have "tp_owner (topo_of s') = tp_owner (topo_of s) |` {a. tp_owner (topo_of s) a \<noteq> Some n}"
    by (simp add: s'(3) topo_remove_node_def)
  then show "\<exists>s'. tc_remove_node ip s = Some s' \<and> tc_ok s' \<and>
      (\<lambda>ip. tc_get_node ip s') = (\<lambda>ip. tc_get_node ip s) |` {a. tc_get_node a s \<noteq> Some n}"
    using s'(1,2) by (auto simp: topo_of_def)
qed

section \<open>The protocol of the daemon\<close>

definition admissible :: "dev_tc_token \<Rightarrow> tc_state \<Rightarrow> bool" where
  "admissible t s \<longleftrightarrow>
     (tk_type t = cmd_add_node \<longrightarrow> tc_get_node (tk_addr_1 t) s = None) \<and>
     (tk_type t = cmd_remove_node \<longrightarrow> tc_get_node (tk_addr_1 t) s \<noteq> None) \<and>
     (tk_type t = cmd_add_alias \<longrightarrow> tc_get_node (tk_addr_2 t) s = None) \<and>
     (tk_type t = cmd_remove_alias \<longrightarrow> (\<forall>m \<in> set (t_list s). main_addr s m \<noteq> Some (tk_addr_2 t)))"

lemma tc_add_link_safe:
  assumes ok: "tc_ok s"
  shows "\<exists>s'. tc_add_link m1 m2 a b c s = Some s' \<and> tc_ok s'"
proof -
  obtain here where here: "rd (t_local_addr s) 0 = Some here" using here_ok [OF tc_okD(4) [OF ok]] by blast
  have g: "tc_get_node ip (s\<lparr>t_cache := []\<rparr>) = tc_get_node ip s" for ip
    by (simp add: tc_get_node_def find_addr_def)
  show ?thesis
  proof (cases "\<not> m1 \<or> (a = here \<and> \<not> m2) \<or> tc_get_node a s = None \<or> tc_get_node b s = None")
    case True
    then show ?thesis using ok here g by (auto simp: tc_add_link_def Let_def split: option.splits)
  next
    case False
    then obtain na nb where n: "tc_get_node a s = Some na" "tc_get_node b s = Some nb" by auto
    have ok0: "tc_ok (s\<lparr>t_cache := []\<rparr>)" using ok by simp
    have "t_nodes (s\<lparr>t_cache := []\<rparr>) na \<noteq> None" "t_nodes (s\<lparr>t_cache := []\<rparr>) nb \<noteq> None"
      using lookup_live(1) [OF ok] n by auto
    from insert_link_ok [OF ok0 this, of c "a = here"] show ?thesis
      using False n here g by (auto simp: tc_add_link_def Let_def)
  qed
qed

lemma tc_remove_link_safe:
  assumes ok: "tc_ok s"
  shows "\<exists>s'. tc_remove_link a b s = Some s' \<and> tc_ok s'"
proof (cases "tc_get_node a s")
  case None
  then have "tc_remove_link a b s = Some (s\<lparr>t_cache := []\<rparr>)"
    by (simp add: tc_remove_link_def tc_get_node_def find_addr_def Let_def)
  then show ?thesis using ok by simp
next
  case (Some n)
  then show ?thesis using tc_remove_link_ok [OF ok Some] by blast
qed

lemma dev_dispatch_safe:
  assumes ok: "tc_ok s" and adm: "admissible t s"
  shows "\<exists>s'. dev_dispatch m1 m2 t s = Some s' \<and> tc_ok s'"
proof -
  have node: "\<exists>s'. tc_add_node m1 m2 ip s = Some s' \<and> tc_ok s'" if "tc_get_node ip s = None" for ip
    using tc_add_node_ok [OF ok that] ok by (cases "m1 \<and> m2") (auto simp: tc_add_node_def)
  have remove: "\<exists>s'. tc_remove_node ip s = Some s' \<and> tc_ok s'" if "tc_get_node ip s \<noteq> None" for ip
    using tc_remove_node_ok [OF ok] that by blast
  have al: "\<exists>s'. tc_add_alias m1 ip a s = Some s' \<and> tc_ok s'" if new: "tc_get_node a s = None" for ip a
  proof (cases "m1 \<and> tc_get_node ip s \<noteq> None")
    case True
    then obtain n where n: "m1" "tc_get_node ip s = Some n" by blast
    obtain nd where "t_nodes s n = Some nd" using lookup_live(1) [OF ok n(2)] by blast
    from tc_add_alias_ok [OF ok n(2) new this] n(1) show ?thesis by auto
  next
    case False
    then show ?thesis using ok by (auto simp: tc_add_alias_def)
  qed
  have unal: "\<exists>s'. tc_remove_alias ip a s = Some s' \<and> tc_ok s'"
    if main: "\<forall>m \<in> set (t_list s). main_addr s m \<noteq> Some a" for ip a
  proof -
    have "main_addr s m \<noteq> Some a" for m
    proof (cases "t_nodes s m")
      case None
      then show ?thesis by (simp add: main_addr_def)
    next
      case (Some nd)
      then have "m \<in> set (t_list s)" using list_okD(2) [OF tc_okD(4) [OF ok]] by blast
      then show ?thesis using main by blast
    qed
    then show ?thesis
      using tc_remove_alias_ok [OF ok _, of ip _ a] ok
      by (cases "tc_get_node ip s") (auto simp: tc_remove_alias_def)
  qed
  define Q where "Q x \<longleftrightarrow> (\<exists>s'. x = Some s' \<and> tc_ok s')" for x
  have set: "\<exists>s'. tc_set_local_addr ip m s = Some s' \<and> tc_ok s'" "\<exists>s'. tc_set_local_alias ip m s = Some s' \<and> tc_ok s'" for ip m
    using tc_set_local_addr_ok [OF ok] tc_set_local_alias_ok [OF ok] by blast+
  have free: "\<exists>s'. tc_free_data s = Some s' \<and> tc_ok s'"
    using tc_free_data_ok [OF ok] tc_empty_ok by blast
  have "Q (dev_dispatch m1 m2 t s)"
    using adm node remove al unal tc_add_link_safe [OF ok] tc_remove_link_safe [OF ok] set free ok
    unfolding dev_dispatch_def admissible_def Q_def [symmetric] by (simp add: Q_def)
  then show ?thesis by (simp add: Q_def)
qed

text \<open>The states that the daemon can drive the store into.\<close>

inductive reachable :: "tc_state \<Rightarrow> bool" where
  init: "reachable (tc_init_data tc_empty)"
| token: "reachable s \<Longrightarrow> admissible t s \<Longrightarrow> dev_dispatch m1 m2 t s = Some s' \<Longrightarrow> reachable s'"

inductive_cases reachable_cases: "reachable s"

lemma tc_init_ok: "tc_ok (tc_init_data tc_empty)"
proof -
  have "tc_init_data tc_empty = tc_empty\<lparr>t_next := t_next tc_empty\<rparr>" by (simp add: tc_init_data_def tc_empty_def)
  then show ?thesis using tc_empty_ok by metis
qed

lemma reachable_ok: "reachable s \<Longrightarrow> tc_ok s"
proof (induction rule: reachable.induct)
  case init
  show ?case by (rule tc_init_ok)
next
  case (token s t m1 m2 s')
  then show ?case using dev_dispatch_safe [OF token.IH token.hyps(2), of m1 m2] by auto
qed

text \<open>Runs of tokens, with the flags of their allocations.\<close>

fun dispatch_all :: "(nat \<Rightarrow> outcome) \<Rightarrow> nat \<Rightarrow> dev_tc_token list \<Rightarrow> tc_state \<Rightarrow> tc_state option" where
  "dispatch_all oc i [] s = Some s"
| "dispatch_all oc i (t # ts) s =
     Option.bind (dev_dispatch (oc_mem1 (oc i)) (oc_mem2 (oc i)) t s) (dispatch_all oc (Suc i) ts)"

lemma dev_write_loop_tokens:
  assumes "\<And>j. oc_copy (oc j)"
  shows "dev_write_loop oc i (map token_bytes ts) s = dispatch_all oc i ts s"
proof (induction ts arbitrary: i s)
  case (Cons t ts)
  then show ?case using assms
    by (cases "dev_dispatch (oc_mem1 (oc i)) (oc_mem2 (oc i)) t s") (simp_all add: token_codec.dec_enc)
qed simp

fun follows_protocol :: "(nat \<Rightarrow> outcome) \<Rightarrow> nat \<Rightarrow> dev_tc_token list \<Rightarrow> tc_state \<Rightarrow> bool" where
  "follows_protocol oc i [] s = True"
| "follows_protocol oc i (t # ts) s =
     (admissible t s \<and> (case dev_dispatch (oc_mem1 (oc i)) (oc_mem2 (oc i)) t s of
        None \<Rightarrow> True | Some s' \<Rightarrow> follows_protocol oc (Suc i) ts s'))"

lemma dispatch_all_reachable:
  assumes "reachable s" "follows_protocol oc i ts s"
  shows "\<exists>s'. dispatch_all oc i ts s = Some s' \<and> reachable s'"
  using assms
proof (induction ts arbitrary: i s)
  case (Cons t ts)
  then obtain s1 where s1: "dev_dispatch (oc_mem1 (oc i)) (oc_mem2 (oc i)) t s = Some s1"
    using dev_dispatch_safe [OF reachable_ok] by fastforce
  moreover have "reachable s1" using reachable.token [OF Cons.prems(1) _ s1] Cons.prems(2) by simp
  ultimately show ?case using Cons.IH Cons.prems(2) by simp
qed simp

text \<open>A run of the daemon: the local machine, two nodes, an alias and two links.\<close>

definition all_good :: "nat \<Rightarrow> outcome" where
  "all_good i = \<lparr>oc_copy = True, oc_mem1 = True, oc_mem2 = True\<rparr>"

definition token :: "ulong \<Rightarrow> ip_addr \<Rightarrow> ip_addr \<Rightarrow> ulong \<Rightarrow> dev_tc_token" where
  "token c a b v = \<lparr>tk_type = c, tk_addr_1 = a, tk_addr_2 = b, tk_value = v\<rparr>"

definition sample_tokens :: "dev_tc_token list" where
  "sample_tokens = [token cmd_set_local_addr 0x0100000A 0x00FFFFFF 0, token cmd_add_node 0x0100000A 0 0,
     token cmd_add_node 0x0200000A 0 0, token cmd_add_alias 0x0200000A 0x0300000A 0,
     token cmd_add_link 0x0100000A 0x0200000A 7, token cmd_add_link 0x0200000A 0x0100000A 9]"

definition sample_store :: tc_state where
  "sample_store = the (dispatch_all all_good 0 sample_tokens (tc_init_data tc_empty))"

lemma sample_protocol: "follows_protocol all_good 0 sample_tokens (tc_init_data tc_empty)"
  by code_simp

lemma sample_reachable: "reachable sample_store"
  using dispatch_all_reachable [OF reachable.init sample_protocol] by (auto simp: sample_store_def)

lemma sample_lookups:
  "tc_get_node 0x0100000A sample_store = Some 0" "tc_get_node 0x0200000A sample_store = Some 1"
  "tc_get_node 0x0300000A sample_store = Some 1" "tc_get_node 0x0900000A sample_store = None"
  by code_simp+



text \<open>
  C5. Memory safety of the topology store: as long as the tokens written to the device follow the protocol, no
  write follows a freed or missing pointer, whatever allocations fail, and every reachable
  state is well formed (hash chains, address tables and link lists agree).
\<close>

theorem daemon_never_crashes:
  assumes "reachable s" "follows_protocol oc 0 ts s" "\<And>j. oc_copy (oc j)"
  shows "\<exists>s'. dev_device_write oc (concat (map token_bytes ts)) s = Some (s', int (16 * length ts)) \<and>
    reachable s' \<and> tc_ok s'"
proof -
  have len: "length (concat (map token_bytes ts)) = 16 * length ts"
    using token_codec.length_stream [of ts] by (simp add: token_size_def)
  have "16 * length ts mod token_size = 0" by (simp add: token_size_def)
  moreover obtain s' where "dispatch_all oc 0 ts s = Some s'" "reachable s'"
    using dispatch_all_reachable [OF assms(1,2)] by blast
  ultimately show ?thesis
    using reachable_ok unfolding dev_device_write_def len token_codec.chunks_stream dev_write_loop_tokens [OF assms(3)]
    by simp
qed

theorem daemon_never_crashes_witness:
  "\<exists>s'. dev_device_write all_good (concat (map token_bytes sample_tokens)) (tc_init_data tc_empty) =
      Some (s', int (16 * length sample_tokens)) \<and> reachable s' \<and> tc_ok s'"
  by (rule daemon_never_crashes [OF reachable.init sample_protocol]) (simp add: all_good_def)

text \<open>
  After a reset token the store is empty again, whatever it held: no node, no link, no address, no
  local link and no cached path is left.
\<close>

theorem reset_empties_store:
  assumes "reachable s" "tk_type t = cmd_reset_tc"
  shows "\<exists>s'. dev_dispatch m1 m2 t s = Some s' \<and> s' = tc_empty\<lparr>t_next := t_next s\<rparr>"
  using tc_free_data_ok [OF reachable_ok [OF assms(1)]] assms(2) by (simp add: dev_dispatch_def)

theorem reset_empties_store_witness:
  "\<exists>s'. dev_dispatch True True (token cmd_reset_tc 0 0 0) sample_store = Some s' \<and>
    s' = tc_empty\<lparr>t_next := t_next sample_store\<rparr>"
  by (rule reset_empties_store [OF sample_reachable]) (simp add: token_def)

text \<open>
  Adding a node and removing it again gives every address back to the node it belonged to.
\<close>

theorem add_remove_node_lookup:
  assumes "reachable s" "tc_get_node ip s = None"
  shows "\<exists>s'. do { s \<leftarrow> tc_add_node True True ip s; tc_remove_node ip s } = Some s' \<and>
    (\<forall>a. tc_get_node a s' = tc_get_node a s)"
proof -
  obtain s' where "do { s \<leftarrow> tc_add_node True True ip s; tc_remove_node ip s } = Some s'"
      "(\<lambda>a. tc_get_node a s') = (\<lambda>a. tc_get_node a s)"
    using tc_store.add_then_remove [OF reachable_ok [OF assms(1)] assms(2)] by blast
  then show ?thesis by (metis (no_types))
qed

theorem add_remove_node_lookup_witness:
  "\<exists>s'. do { s \<leftarrow> tc_add_node True True 0x0900000A sample_store; tc_remove_node 0x0900000A s } = Some s' \<and>
    (\<forall>a. tc_get_node a s' = tc_get_node a sample_store)"
  by (rule add_remove_node_lookup [OF sample_reachable sample_lookups(4)])

text \<open>
  C34. Removing a node that the daemon announced earlier undoes exactly that node: it stays well formed, every address of the
  node is freed, every link that leaves or reaches the node is gone, and all other nodes,
  addresses and links are kept.
\<close>

theorem remove_node_refines:
  assumes "reachable s" "tc_get_node ip s = Some n"
  shows "\<exists>s'. tc_remove_node ip s = Some s' \<and> topo_of s' = topo_remove_node n (topo_of s) \<and>
    t_list s' = remove1 n (t_list s) \<and> t_cache s' = []"
  using tc_remove_node_ok [OF reachable_ok [OF assms(1)] assms(2)] by blast

theorem remove_node_refines_witness:
  "\<exists>s'. tc_remove_node 0x0300000A sample_store = Some s' \<and>
    topo_of s' = topo_remove_node 1 (topo_of sample_store) \<and>
    t_list s' = remove1 1 (t_list sample_store) \<and> t_cache s' = []"
  by (rule remove_node_refines [OF sample_reachable sample_lookups(3)])

text \<open>
  A link token between two known addresses adds exactly one link, from the node of the first to the node of the second,
  and one local link to the destination if the source is the local machine; the path
  cache is dropped.
\<close>

theorem add_link_refines:
  assumes "reachable s" "tc_get_node a s = Some n" "tc_get_node b s = Some m"
  shows "\<exists>s'. tc_add_link True True a b c s = Some s' \<and>
    topo_of s' = topo_add_link (t_next s) n m (of_int c) (topo_of s) \<and> t_cache s' = [] \<and>
    (if rd (t_local_addr s) 0 = Some a
     then \<exists>ll. t_local_links s' = ll # t_local_links s \<and> main_addr s m = Some (ll_dst ll)
     else t_local_links s' = t_local_links s)"
proof -
  obtain s' lls where "tc_add_link True True a b c s = Some s'" "t_cache s' = []"
      "topo_of s' = topo_add_link (t_next s) n m (of_int c) (topo_of s)" "t_local_links s' = lls @ t_local_links s"
      "if rd (t_local_addr s) 0 = Some a then \<exists>ll. lls = [ll] \<and> main_addr s m = Some (ll_dst ll) else lls = []"
    using tc_add_link_ok [OF reachable_ok [OF assms(1)] assms(2,3)] by blast
  then show ?thesis by (auto split: if_splits)
qed

theorem add_link_refines_witness:
  "\<exists>s'. tc_add_link True True 0x0100000A 0x0200000A 5 sample_store = Some s' \<and>
    topo_of s' = topo_add_link (t_next sample_store) 0 1 (of_int 5) (topo_of sample_store) \<and> t_cache s' = [] \<and>
    (if rd (t_local_addr sample_store) 0 = Some 0x0100000A
     then \<exists>ll. t_local_links s' = ll # t_local_links sample_store \<and> main_addr sample_store 1 = Some (ll_dst ll)
     else t_local_links s' = t_local_links sample_store)"
  by (rule add_link_refines [OF sample_reachable sample_lookups(1,2)])

text \<open>
  C35. A remove-link token removes exactly the first link of the source's list whose destination
  has the given main address (the most recently added one), or nothing if there is none.
\<close>

theorem remove_link_refines:
  assumes "reachable s" "tc_get_node a s = Some n"
  shows "\<exists>s'. tc_remove_link a b s = Some s' \<and> t_cache s' = [] \<and>
    topo_of s' = (case List.find (leads_to s b) (the (srcs s n)) of
       None \<Rightarrow> topo_of s | Some l \<Rightarrow> topo_remove_link l (topo_of s))"
proof -
  obtain s' where "tc_remove_link a b s = Some s'" "t_cache s' = []"
    "case List.find (leads_to s b) (the (srcs s n)) of
       None \<Rightarrow> topo_of s' = topo_of s \<and> t_local_links s' = t_local_links s
     | Some l \<Rightarrow> topo_of s' = topo_remove_link l (topo_of s) \<and>
         t_local_links s' = (if rd (t_local_addr s) 0 = Some a then remove_local_link b (t_local_links s)
                             else t_local_links s)"
    using tc_remove_link_ok [OF reachable_ok [OF assms(1)] assms(2), of b] by blast
  then show ?thesis by (cases "List.find (leads_to s b) (the (srcs s n))") auto
qed

theorem remove_link_refines_witness:
  "\<exists>s'. tc_remove_link 0x0100000A 0x0200000A sample_store = Some s' \<and> t_cache s' = [] \<and>
    topo_of s' = (case List.find (leads_to sample_store 0x0200000A) (the (srcs sample_store 0)) of
       None \<Rightarrow> topo_of sample_store | Some l \<Rightarrow> topo_remove_link l (topo_of sample_store))"
  by (rule remove_link_refines [OF sample_reachable sample_lookups(1)])

text \<open>
  The daemon must not remove a node it never announced: the handler then reads an address
  table it never filled and a NULL node.
\<close>

theorem remove_unknown_node_undefined:
  assumes "reachable s"
  shows "tc_remove_node ip s = None \<longleftrightarrow> tc_get_node ip s = None"
proof (cases "tc_get_node ip s")
  case None
  then show ?thesis by (simp add: tc_remove_node_def)
next
  case (Some n)
  then show ?thesis using tc_remove_node_ok [OF reachable_ok [OF assms] Some] by auto
qed

theorem remove_unknown_node_undefined_witness:
  "tc_remove_node 0x0900000A sample_store = None \<longleftrightarrow> tc_get_node 0x0900000A sample_store = None"
  by (rule remove_unknown_node_undefined [OF sample_reachable])

text \<open>
  C0. Reading the device in pieces of any size, starting at the beginning, returns the status
  message piece by piece, each piece starting where the last one ended.
\<close>

theorem dev_read_pieces:
  "fst (dev_device_read True c len off) = take len (drop off (read_message c)) \<and>
   snd (snd (dev_device_read True c len off)) = off + length (fst (dev_device_read True c len off))"
  by (auto simp: dev_device_read_def Let_def min_def)

end
