(* ===== verification/Route_Search.thy ===== *)
theory Route_Search imports Tc_Paths Device_Safety begin

text \<open>
  The guarantees of the route computation (\<open>dijkstra\<close>, \<open>tc_k_dijstra\<close>) on a well-formed topology store.
\<close>

section \<open>Concrete stores\<close>

text \<open>All links of a store, for checks by evaluation.\<close>

definition all_links :: "tc_state \<Rightarrow> nat list" where
  "all_links s = concat (map (\<lambda>n. case t_nodes s n of None \<Rightarrow> [] | Some nd \<Rightarrow> nd_src nd) (t_list s))"

lemma all_links_complete:
  assumes "tc_ok s" "t_links s l = Some lk"
  shows "l \<in> set (all_links s)"
proof -
  obtain ls where ls: "srcs s (lk_src lk) = Some ls" "l \<in> set ls" using link_okD(1) [OF tc_okD(2) [OF assms(1)] assms(2)] by blast
  then obtain nd where nd: "t_nodes s (lk_src lk) = Some nd" "l \<in> set (nd_src nd)" by (auto simp: views)
  then have "lk_src lk \<in> set (t_list s)" using list_okD(2) [OF tc_okD(4) [OF assms(1)]] by blast
  then show ?thesis using nd by (force simp: all_links_def)
qed

definition link_bound :: "(tc_link \<Rightarrow> ulong) \<Rightarrow> nat \<Rightarrow> tc_state \<Rightarrow> bool" where
  "link_bound f C s = list_all (\<lambda>l. case t_links s l of None \<Rightarrow> True | Some lk \<Rightarrow> unat (f lk) \<le> C) (all_links s)"

lemma link_boundD: "tc_ok s \<Longrightarrow> link_bound f C s \<Longrightarrow> t_links s l = Some lk \<Longrightarrow> unat (f lk) \<le> C"
  using all_links_complete [of s l lk] by (auto simp: link_bound_def list_all_iff)

definition sample_costs :: tc_state where
  "sample_costs = the (update_all_links init_costs sample_store)"

lemma sample_ok: "tc_ok sample_store" "tc_ok sample_costs"
proof -
  show ok: "tc_ok sample_store" by (rule reachable_ok [OF sample_reachable])
  have idem: "init_costs (init_costs lk) = init_costs lk" for lk by (simp add: init_costs_def)
  obtain s' where "update_all_links init_costs sample_store = Some s'" "costs_only sample_store s'"
    using update_all_links_ok [OF ok keeps_ends_fs(1) idem] by blast
  then show "tc_ok sample_costs" using costs_only_ok(1) [OF _ ok] by (simp add: sample_costs_def)
qed

lemma sample_values:
  "main_addr sample_store 0 = Some 0x0100000A" "main_addr sample_costs 0 = Some 0x0100000A"
  "nd_hops (node_of sample_store 0) = 0" "link_bound lk_cost 9 sample_store" "link_bound lk_dcost 9 sample_costs"
  "length (t_list sample_store) = 2" "length (t_list sample_costs) = 2" "tc_get_node 0x0300000A sample_store = Some 1"
  by code_simp+

section \<open>Single source\<close>

text \<open>
  C19. Dijkstra returns, and for every node the cost it leaves is the length of a shortest route from the
  source, whose nodes the predecessor pointers list; a node without a route keeps the
  cost \<open>-1\<close>.
\<close>

theorem dijkstra_shortest:
  assumes "tc_ok s" "main_addr s r = Some src" "\<And>l lk. t_links s l = Some lk \<Longrightarrow> unat (lk_dcost lk) \<le> C"
    and "length (t_list s) * C < infinite"
  shows "\<exists>s'. dijkstra src s = Some s' \<and> topo_of s' = topo_of s \<and> (\<forall>n nd. t_nodes s' n = Some nd \<longrightarrow>
    (if \<exists>vs c. route s r vs c \<and> last (r # vs) = n
     then (\<exists>vs. route s r vs (unat (nd_cost nd)) \<and> last (r # vs) = n \<and> distinct (r # vs) \<and> chain s' r vs) \<and>
          (\<forall>vs c. route s r vs c \<longrightarrow> last (r # vs) = n \<longrightarrow> unat (nd_cost nd) \<le> c)
     else nd_cost nd = no_cost))"
proof -
  obtain s' D B where s': "dijkstra src s = Some s'" "dinv r (nd_hops (node_of s r)) s D B {} s'"
    "\<forall>v. live s v \<longrightarrow> v \<notin> D \<longrightarrow> cost s' v = infinite"
    "\<forall>ps c. route s r ps c \<longrightarrow> last (r # ps) \<in> D \<and> cost s' (last (r # ps)) \<le> c"
    using dijkstra_ok [OF assms(1,2) _ assms(4)] assms(3) by blast
  note I = dinvD [OF s'(2)] and net = dinv_same_net [OF s'(2) assms(1)]
  have "if \<exists>vs c. route s r vs c \<and> last (r # vs) = n
     then (\<exists>vs. route s r vs (unat (nd_cost nd)) \<and> last (r # vs) = n \<and> distinct (r # vs) \<and> chain s' r vs) \<and>
          (\<forall>vs c. route s r vs c \<longrightarrow> last (r # vs) = n \<longrightarrow> unat (nd_cost nd) \<le> c)
     else nd_cost nd = no_cost" if nd: "t_nodes s' n = Some nd" for n nd
  proof -
    have c: "unat (nd_cost nd) = cost s' n" "nd_cost nd = nd_cost (node_of s' n)" using nd by (simp_all add: cost_def node_of_def)
    have lv: "live s n" using nd same_netD(8) [OF net] by (metis live_def option.discI)
    show ?thesis
    proof (cases "n \<in> D")
      case True
      have "reached r (nd_hops (node_of s r)) s D s' n" by (rule I(8) [OF lv I(11) [OF True]])
      then show ?thesis using s'(4) unfolding reached_def c(1) by metis
    next
      case False
      then show ?thesis using s'(3,4) lv c(2) no_cost_iff [of s' n] by metis
    qed
  qed
  then show ?thesis using s'(1) same_netD(2) [OF net] by blast
qed

theorem dijkstra_shortest_witness:
  "\<exists>s'. dijkstra 0x0100000A sample_costs = Some s' \<and> topo_of s' = topo_of sample_costs \<and>
    (\<forall>n nd. t_nodes s' n = Some nd \<longrightarrow>
    (if \<exists>vs c. route sample_costs 0 vs c \<and> last (0 # vs) = n
     then (\<exists>vs. route sample_costs 0 vs (unat (nd_cost nd)) \<and> last (0 # vs) = n \<and> distinct (0 # vs) \<and> chain s' 0 vs) \<and>
          (\<forall>vs c. route sample_costs 0 vs c \<longrightarrow> last (0 # vs) = n \<longrightarrow> unat (nd_cost nd) \<le> c)
     else nd_cost nd = no_cost))"
  by (rule dijkstra_shortest [OF sample_ok(2) sample_values(2) link_boundD [OF sample_ok(2) sample_values(5)]])
    (simp_all add: sample_values(7) infinite_eq)

section \<open>Several paths\<close>

text \<open>
  C18. The multipath search is safe and complete: whatever allocations fail it returns, without following a bad pointer,
  leaves the topology untouched and puts one entry in the cache, all of whose paths are simple paths of announced
  links from the source to the destination with the right number of hops; it returns a path
  exactly when the destination can be reached, at least one path is asked for and memory suffices.
\<close>

theorem tc_k_dijstra_paths:
  assumes "tc_ok s" "main_addr s r = Some src" "nd_hops (node_of s r) = int h" "tc_get_node dst s = Some n"
    and "no_overflow cf C M s"
  shows "\<exists>res paths s'. tc_k_dijstra cf True mem src dst s = Some (res, s') \<and> tc_ok s' \<and> topo_of s' = topo_of s \<and>
    t_cache s' = \<lparr>pb_src = src, pb_dst = dst, pb_paths = paths\<rparr> # t_cache s \<and>
    (\<forall>p \<in> set paths. \<exists>c. path_of (topo_of s) h r n c p) \<and>
    (res \<noteq> None \<longleftrightarrow> connected (topo_of s) r n \<and> 0 < cf_path cf \<and> enough_memory mem 0 (nat (cf_path cf)))"
proof -
  obtain res paths s' where "tc_k_dijstra cf True mem src dst s = Some (res, s')" "tc_ok s'" "topo_of s' = topo_of s"
    "t_cache s' = \<lparr>pb_src = src, pb_dst = dst, pb_paths = paths\<rparr> # t_cache s"
    "\<forall>p \<in> set paths. \<exists>c. path_of (topo_of s) h r n c p"
    "\<forall>p. res = Some p \<longleftrightarrow> connected (topo_of s) r n \<and> 0 < cf_path cf \<and> enough_memory mem 0 (nat (cf_path cf)) \<and> p = hd paths"
    using tc_k_dijstra_ok [OF assms] by blast
  then show ?thesis by (cases res) blast+
qed

definition three_paths :: djk_config where
  "three_paths = \<lparr>cf_path = 3, cf_fp = 2, cf_fe = 2\<rparr>"

lemma three_paths_bounds: "no_overflow three_paths 9 2 sample_store"
  unfolding no_overflow_def
  using link_boundD [OF sample_ok(1) sample_values(4)]
  by (simp add: factors_ok_def three_paths_def sample_values(6) infinite_eq)

theorem tc_k_dijstra_paths_witness:
  "\<exists>res paths s'. tc_k_dijstra three_paths True (\<lambda>_. (True, True)) 0x0100000A 0x0300000A sample_store = Some (res, s') \<and>
    tc_ok s' \<and> topo_of s' = topo_of sample_store \<and>
    t_cache s' = \<lparr>pb_src = 0x0100000A, pb_dst = 0x0300000A, pb_paths = paths\<rparr> # t_cache sample_store \<and>
    (\<forall>p \<in> set paths. \<exists>c. path_of (topo_of sample_store) 0 0 1 c p) \<and>
    (res \<noteq> None \<longleftrightarrow> connected (topo_of sample_store) 0 1 \<and> 0 < cf_path three_paths \<and>
       enough_memory (\<lambda>_. (True, True)) 0 (nat (cf_path three_paths)))"
  by (rule tc_k_dijstra_paths [OF sample_ok(1) sample_values(1) _ sample_values(8) three_paths_bounds])
    (simp add: sample_values(3))

text \<open>
  C6. The first path that the multipath search returns is a shortest path for the announced link costs, and it
  is followed in the cache by the configured number of paths.
\<close>

theorem tc_k_dijstra_first:
  assumes "tc_ok s" "main_addr s r = Some src" "nd_hops (node_of s r) = 0" "tc_get_node dst s = Some n"
    and "no_overflow cf C M s" "tc_k_dijstra cf True mem src dst s = Some (Some p, s')"
  shows "\<exists>vs c. walk (topo_of s) r vs c \<and> last (r # vs) = n \<and> distinct (r # vs) \<and>
    ph_ips p = map (\<lambda>v. the (main_addr s v)) vs \<and> ph_hops p = int (length vs) \<and>
    (\<forall>ws d. walk (topo_of s) r ws d \<longrightarrow> last (r # ws) = n \<longrightarrow> c \<le> d) \<and>
    (\<exists>e. t_cache s' = e # t_cache s \<and> p = hd (pb_paths e) \<and> length (pb_paths e) = nat (cf_path cf))"
proof -
  have "nd_hops (node_of s r) = int 0" using assms(3) by simp
  from tc_k_dijstra_ok [OF assms(1,2) this assms(4,5), of mem] assms(6) obtain paths where P:
    "t_cache s' = \<lparr>pb_src = src, pb_dst = dst, pb_paths = paths\<rparr> # t_cache s" "p = hd paths" "0 < cf_path cf"
    "length paths = nat (cf_path cf)"
    "paths \<noteq> [] \<longrightarrow> (\<exists>c. path_of (topo_of s) 0 r n c (hd paths) \<and> shortest (topo_of s) r n c)" by auto
  then have "paths \<noteq> []" by auto
  then obtain c where "path_of (topo_of s) 0 r n c p" "shortest (topo_of s) r n c" using P(2,5) by blast
  moreover have "tp_main (topo_of s) = main_addr s" by (simp add: topo_of_def)
  moreover have "\<exists>e. t_cache s' = e # t_cache s \<and> p = hd (pb_paths e) \<and> length (pb_paths e) = nat (cf_path cf)"
    using P(1,2,4) by simp
  ultimately show ?thesis unfolding path_of_def shortest_def
    by (elim exE conjE) (intro exI conjI, assumption+, simp_all)
qed

lemma sample_search:
  "\<exists>p s'. tc_k_dijstra three_paths True (\<lambda>_. (True, True)) 0x0100000A 0x0300000A sample_store = Some (Some p, s')"
proof -
  have l: "map_option (\<lambda>lk. (lk_src lk, lk_dst lk, lk_cost lk)) (t_links sample_store 2) = Some (0, 1, 7)" by code_simp
  have "walk (topo_of sample_store) 0 [1] 7"
    unfolding walk.simps using l by (intro exI [of _ 2] exI [of _ "7 :: ulong"] exI [of _ 0]) (auto simp: topo_of_def)
  then have "connected (topo_of sample_store) 0 1" unfolding connected_def by (metis last_ConsL last_ConsR list.discI)
  moreover have "nd_hops (node_of sample_store 0) = int 0" by (simp add: sample_values(3))
  moreover have "0 < cf_path three_paths" by (simp add: three_paths_def)
  moreover have "enough_memory (\<lambda>_. (True, True)) 0 k" for k by (simp add: enough_memory_def)
  moreover obtain res paths s' where
    "tc_k_dijstra three_paths True (\<lambda>_. (True, True)) 0x0100000A 0x0300000A sample_store = Some (res, s')"
    "\<forall>p. res = Some p \<longleftrightarrow> connected (topo_of sample_store) 0 1 \<and> 0 < cf_path three_paths \<and>
      enough_memory (\<lambda>_. (True, True)) 0 (nat (cf_path three_paths)) \<and> p = hd paths"
    using tc_k_dijstra_ok [OF sample_ok(1) sample_values(1) calculation(2) sample_values(8) three_paths_bounds,
        of "\<lambda>_. (True, True)"] by blast
  ultimately have "res = Some (hd paths)" by metis
  with \<open>tc_k_dijstra three_paths True _ _ _ _ = Some (res, s')\<close> show ?thesis by metis
qed

theorem tc_k_dijstra_first_witness:
  "\<exists>p s'. tc_k_dijstra three_paths True (\<lambda>_. (True, True)) 0x0100000A 0x0300000A sample_store = Some (Some p, s') \<and>
    (\<exists>vs c. walk (topo_of sample_store) 0 vs c \<and> last (0 # vs) = 1 \<and> distinct (0 # vs) \<and>
    ph_ips p = map (\<lambda>v. the (main_addr sample_store v)) vs \<and> ph_hops p = int (length vs) \<and>
    (\<forall>ws d. walk (topo_of sample_store) 0 ws d \<longrightarrow> last (0 # ws) = 1 \<longrightarrow> c \<le> d))"
proof -
  obtain p s' where P: "tc_k_dijstra three_paths True (\<lambda>_. (True, True)) 0x0100000A 0x0300000A sample_store = Some (Some p, s')"
    using sample_search by blast
  show ?thesis
    using tc_k_dijstra_first [OF sample_ok(1) sample_values(1,3,8) three_paths_bounds P] P by blast
qed

end
