(* ===== verification/Bytes.thy ===== *)
theory Bytes imports Codec begin

text \<open>
  Byte buffers: \<open>memcpy\<close> out of and into a buffer, with its bounds, and the byte-wise loops that the
  code uses to move overlapping blocks.
\<close>

named_theorems c_bytes \<open>copies between byte buffers\<close>

definition get_bytes :: "byte list \<Rightarrow> int \<Rightarrow> nat \<Rightarrow> byte list option" where
  "get_bytes buf off n =
     (if 0 \<le> off \<and> off + int n \<le> int (length buf) then Some (take n (drop (nat off) buf)) else None)"

definition put_bytes :: "byte list \<Rightarrow> int \<Rightarrow> byte list \<Rightarrow> byte list option" where
  "put_bytes buf off bs =
     (if 0 \<le> off \<and> off + int (length bs) \<le> int (length buf)
      then Some (take (nat off) buf @ bs @ drop (nat off + length bs) buf) else None)"

lemma get_bytes_nat [c_bytes]:
  "i + n \<le> length buf \<Longrightarrow> get_bytes buf (int i) n = Some (take n (drop i buf))"
  by (simp add: get_bytes_def)

lemma put_bytes_nat [c_bytes]:
  "i + length bs \<le> length buf \<Longrightarrow> put_bytes buf (int i) bs = Some (take i buf @ bs @ drop (i + length bs) buf)"
  by (simp add: put_bytes_def)

lemma get_bytes_append:
  "length xs = i \<Longrightarrow> length ys = n \<Longrightarrow> get_bytes (xs @ ys @ zs) (int i) n = Some ys"
  by (simp add: get_bytes_nat)

lemma get_bytes_prefix: "length ys = n \<Longrightarrow> get_bytes (ys @ zs) 0 n = Some ys"
  using get_bytes_append [of "[]" 0 ys n zs] by simp

lemma put_bytes_append:
  "length xs = i \<Longrightarrow> length ys = length bs \<Longrightarrow> put_bytes (xs @ ys @ zs) (int i) bs = Some (xs @ bs @ zs)"
  by (simp add: put_bytes_nat)

lemma put_bytes_prefix: "length ys = length bs \<Longrightarrow> put_bytes (ys @ zs) 0 bs = Some (bs @ zs)"
  using put_bytes_append [of "[]" 0 ys bs zs] by simp

lemma put_bytes_length: "put_bytes buf off bs = Some buf' \<Longrightarrow> length buf' = length buf"
  by (auto simp: put_bytes_def split: if_splits)

lemma get_put_bytes:
  assumes "put_bytes buf off bs = Some buf'"
  shows "get_bytes buf' off (length bs) = Some bs"
  using assms by (auto simp: put_bytes_def get_bytes_def split: if_splits)

section \<open>Loops that move a block\<close>

text \<open>\<open>for (i = 0; i < n; i++) *(dst--) = *(src--)\<close>, from the last byte of the block down.\<close>

definition copy_down :: "int \<Rightarrow> int \<Rightarrow> nat \<Rightarrow> byte list \<Rightarrow> byte list option" where
  "copy_down src dst n = iter [0..<n] (\<lambda>i d. do { b \<leftarrow> rd d (src - int i); wr d (dst - int i) b })"

text \<open>\<open>for (i = 0; i < n; i++) *(dst++) = *(src++)\<close>.\<close>

definition copy_up :: "int \<Rightarrow> int \<Rightarrow> nat \<Rightarrow> byte list \<Rightarrow> byte list option" where
  "copy_up src dst n = iter [0..<n] (\<lambda>i d. do { b \<leftarrow> rd d (src + int i); wr d (dst + int i) b })"

lemma nth_mid: "length xs = a \<Longrightarrow> j < length m \<Longrightarrow> (xs @ m @ zs) ! (a + j) = m ! j"
  by (simp add: nth_append)

lemma nth_end: "length xs = a \<Longrightarrow> length m = b \<Longrightarrow> (xs @ m @ zs) ! (a + b + j) = zs ! j"
  by (simp add: nth_append)

text \<open>Moving a block towards the end of the buffer, over a gap of \<open>length gs\<close> bytes.\<close>

lemma copy_down_block:
  fixes p :: nat
  assumes p: "p = length xs" and g: "g = length gs" and n: "n = length ys"
  shows "copy_down (int (p + n) - 1) (int (p + n + g) - 1) n (xs @ ys @ gs @ zs) =
    Some (xs @ take g (ys @ gs) @ ys @ zs)"
proof -
  let ?d0 = "xs @ ys @ gs @ zs"
  define P where "P i d \<longleftrightarrow> length d = length ?d0 \<and>
    (\<forall>k < length ?d0. d ! k = (if p + g + (n - i) \<le> k \<and> k < p + g + n then ?d0 ! (k - g) else ?d0 ! k))" for i d
  have "\<exists>d. copy_down (int (p + n) - 1) (int (p + n + g) - 1) n ?d0 = Some d \<and> P n d"
    unfolding copy_down_def
  proof (rule iter_upt_total [where P = P])
    show "P 0 ?d0" by (auto simp: P_def)
    fix i d
    assume i: "i < n" and P: "P i d"
    have len: "length d = length ?d0" using P by (simp add: P_def)
    have src: "int (p + n) - 1 - int i = int (p + n - 1 - i)" "p + n - 1 - i < length d"
      using i p n len by simp_all
    have dst: "int (p + n + g) - 1 - int i = int (p + n + g - 1 - i)" "p + n + g - 1 - i < length d"
      using i p n g len by simp_all
    have v: "d ! (p + n - 1 - i) = ?d0 ! (p + n - 1 - i)"
      using P i src(2) len by (auto simp: P_def)
    have "P (Suc i) (d[p + n + g - 1 - i := ?d0 ! (p + n - 1 - i)])"
      unfolding P_def
    proof (intro conjI allI impI)
      fix k
      assume k: "k < length ?d0"
      show "d[p + n + g - 1 - i := ?d0 ! (p + n - 1 - i)] ! k =
        (if p + g + (n - Suc i) \<le> k \<and> k < p + g + n then ?d0 ! (k - g) else ?d0 ! k)"
      proof (cases "k = p + n + g - 1 - i")
        case True
        then show ?thesis using i dst(2) by (simp add: algebra_simps)
      next
        case False
        then have "(p + g + (n - Suc i) \<le> k \<and> k < p + g + n) \<longleftrightarrow> (p + g + (n - i) \<le> k \<and> k < p + g + n)"
          using i by auto
        then show ?thesis using P k False by (simp add: P_def)
      qed
    qed (use len in simp)
    then show "\<exists>d'. (do { b \<leftarrow> rd d (int (p + n) - 1 - int i); wr d (int (p + n + g) - 1 - int i) b }) = Some d' \<and>
        P (Suc i) d'"
      using rd_nat [OF src(2)] wr_nat [OF dst(2)] v unfolding src(1) dst(1) by (simp del: of_nat_add of_nat_diff)
  qed
  then obtain d where d: "copy_down (int (p + n) - 1) (int (p + n + g) - 1) n ?d0 = Some d" "P n d" by blast
  have "d = xs @ take g (ys @ gs) @ ys @ zs"
  proof (rule nth_equalityI)
    show "length d = length (xs @ take g (ys @ gs) @ ys @ zs)" using d(2) g by (simp add: P_def)
    fix k
    assume k: "k < length d"
    then have "d ! k = (if p + g \<le> k \<and> k < p + g + n then ?d0 ! (k - g) else ?d0 ! k)"
      using d(2) by (simp add: P_def)
    also have "\<dots> = (xs @ take g (ys @ gs) @ ys @ zs) ! k"
    proof -
      consider "k < p" | j where "k = p + j" "j < g" | j where "k = p + g + j" "j < n" | j where "k = p + g + n + j"
        by (metis add.assoc le_Suc_ex nat_add_left_cancel_less not_less)
      then show ?thesis
      proof cases
        case 2
        have "?d0 ! k = (ys @ gs) ! j" using nth_mid [of xs p j "ys @ gs" zs] 2 p g by simp
        moreover have "(xs @ take g (ys @ gs) @ ys @ zs) ! k = take g (ys @ gs) ! j"
          using nth_mid [of xs p j "take g (ys @ gs)" "ys @ zs"] 2 p g by simp
        moreover have "take g (ys @ gs) ! j = (ys @ gs) ! j" using 2(2) by (rule nth_take)
        ultimately show ?thesis using 2 by (simp del: take_append)
      next
        case 3
        have "?d0 ! (k - g) = ys ! j" using nth_mid [of xs p j ys "gs @ zs"] 3 p n by simp
        moreover have "(xs @ take g (ys @ gs) @ ys @ zs) ! k = ys ! j"
          using nth_mid [of "xs @ take g (ys @ gs)" "p + g" j ys zs] 3 p g n by simp
        ultimately show ?thesis using 3 by simp
      next
        case 4
        have "?d0 ! k = zs ! j" using nth_end [of xs p "ys @ gs" "g + n" zs j] 4 p g n by (simp add: add.assoc)
        moreover have "(xs @ take g (ys @ gs) @ ys @ zs) ! k = zs ! j"
          using nth_end [of xs p "take g (ys @ gs) @ ys" "g + n" zs j] 4 p g n by (simp add: add.assoc)
        ultimately show ?thesis using 4 by simp
      qed (use p in \<open>simp add: nth_append\<close>)
    qed
    finally show "d ! k = (xs @ take g (ys @ gs) @ ys @ zs) ! k" .
  qed
  then show ?thesis using d(1) by simp
qed

text \<open>Moving a block towards the beginning, over \<open>length gs\<close> bytes that it replaces.\<close>

lemma copy_up_block:
  fixes p :: nat
  assumes p: "p = length xs" and g: "g = length gs" and n: "n = length ys"
  shows "copy_up (int (p + g)) (int p) n (xs @ gs @ ys @ zs) =
    Some (xs @ ys @ drop n (gs @ ys) @ zs)"
proof -
  let ?d0 = "xs @ gs @ ys @ zs"
  define P where "P i d \<longleftrightarrow> length d = length ?d0 \<and>
    (\<forall>k < length ?d0. d ! k = (if p \<le> k \<and> k < p + i then ?d0 ! (k + g) else ?d0 ! k))" for i d
  have "\<exists>d. copy_up (int (p + g)) (int p) n ?d0 = Some d \<and> P n d"
    unfolding copy_up_def
  proof (rule iter_upt_total [where P = P])
    show "P 0 ?d0" by (auto simp: P_def)
    fix i d
    assume i: "i < n" and P: "P i d"
    have len: "length d = length ?d0" using P by (simp add: P_def)
    have src: "int (p + g) + int i = int (p + g + i)" "p + g + i < length d" using i p g n len by simp_all
    have dst: "int p + int i = int (p + i)" "p + i < length d" using i p n len by simp_all
    have v: "d ! (p + g + i) = ?d0 ! (p + g + i)" using P src(2) len by (auto simp: P_def)
    have "P (Suc i) (d[p + i := ?d0 ! (p + g + i)])"
      unfolding P_def
    proof (intro conjI allI impI)
      fix k
      assume k: "k < length ?d0"
      show "d[p + i := ?d0 ! (p + g + i)] ! k = (if p \<le> k \<and> k < p + Suc i then ?d0 ! (k + g) else ?d0 ! k)"
      proof (cases "k = p + i")
        case True
        then show ?thesis using dst(2) by (simp add: algebra_simps)
      next
        case False
        then show ?thesis using P k by (auto simp: P_def)
      qed
    qed (use len in simp)
    then show "\<exists>d'. (do { b \<leftarrow> rd d (int (p + g) + int i); wr d (int p + int i) b }) = Some d' \<and> P (Suc i) d'"
      using rd_nat [OF src(2)] wr_nat [OF dst(2)] v unfolding src(1) dst(1) by (simp del: of_nat_add)
  qed
  then obtain d where d: "copy_up (int (p + g)) (int p) n ?d0 = Some d" "P n d" by blast
  have "d = xs @ ys @ drop n (gs @ ys) @ zs"
  proof (rule nth_equalityI)
    show "length d = length (xs @ ys @ drop n (gs @ ys) @ zs)" using d(2) n by (simp add: P_def)
    fix k
    assume k: "k < length d"
    then have "d ! k = (if p \<le> k \<and> k < p + n then ?d0 ! (k + g) else ?d0 ! k)"
      using d(2) by (simp add: P_def)
    also have "\<dots> = (xs @ ys @ drop n (gs @ ys) @ zs) ! k"
    proof -
      consider "k < p" | j where "k = p + j" "j < n" | j where "k = p + n + j" "j < g" | j where "k = p + n + g + j"
        by (metis add.assoc le_Suc_ex nat_add_left_cancel_less not_less)
      then show ?thesis
      proof cases
        case 2
        have "?d0 ! (k + g) = ys ! j" using nth_mid [of "xs @ gs" "p + g" j ys zs] 2 p g n by (simp add: ac_simps)
        moreover have "(xs @ ys @ drop n (gs @ ys) @ zs) ! k = ys ! j"
          using nth_mid [of xs p j ys] 2 p n by simp
        ultimately show ?thesis using 2 by simp
      next
        case 3
        have "?d0 ! k = (gs @ ys) ! (n + j)" using nth_mid [of xs p "n + j" "gs @ ys" zs] 3 p g n by (simp add: add.assoc)
        moreover have "(xs @ ys @ drop n (gs @ ys) @ zs) ! k = drop n (gs @ ys) ! j"
          using nth_mid [of "xs @ ys" "p + n" j "drop n (gs @ ys)" zs] 3 p g n by simp
        ultimately show ?thesis using 3 p g n by (simp add: nth_drop del: drop_append)
      next
        case 4
        have "?d0 ! k = zs ! j" using nth_end [of xs p "gs @ ys" "g + n" zs j] 4 p g n by (simp add: ac_simps)
        moreover have "(xs @ ys @ drop n (gs @ ys) @ zs) ! k = zs ! j"
          using nth_end [of "xs @ ys" "p + n" "drop n (gs @ ys)" g zs j] 4 p g n by simp
        ultimately show ?thesis using 4 by simp
      qed (use p in \<open>simp add: nth_append\<close>)
    qed
    finally show "d ! k = (xs @ ys @ drop n (gs @ ys) @ zs) ! k" .
  qed
  then show ?thesis using d(1) by simp
qed

end
