(* ===== verification/Path_Header.thy ===== *)
theory Path_Header imports Bytes Tc_Dijkstra begin

text \<open>
  The routing header of a datagram (\<open>ser_path.h\<close>, \<open>ser_path.c\<close>): its layout, the search for a
  path with its cache, and the checks that a node makes on the path of a datagram.
  The functions get the path in a buffer and ignore the size they are given; reading behind the buffer is undefined
  (\<open>None\<close>). A result \<open>-1\<close> of the code is the inner \<open>None\<close> where nothing else of the result is used.
\<close>

section \<open>The header\<close>

record ser_header =
  sh_version :: byte
  sh_protocol :: byte
  sh_empty :: u16
  sh_hops :: u16
  sh_cur :: u16
  sh_first_node :: ulong

definition header_size :: nat where "header_size = 12"

definition header_bytes :: "ser_header \<Rightarrow> byte list" where
  "header_bytes h = [sh_version h, sh_protocol h] @ le16 (sh_empty h) @ le16 (sh_hops h) @ le16 (sh_cur h) @
     le32 (sh_first_node h)"

definition header_of_bytes :: "byte list \<Rightarrow> ser_header" where
  "header_of_bytes bs = \<lparr>sh_version = bs ! 0, sh_protocol = bs ! 1, sh_empty = of_le16 (take 2 (drop 2 bs)),
     sh_hops = of_le16 (take 2 (drop 4 bs)), sh_cur = of_le16 (take 2 (drop 6 bs)),
     sh_first_node = of_le32 (take 4 (drop 8 bs))\<rparr>"

interpretation header_codec: fixed_codec header_bytes header_of_bytes header_size
  by unfold_locales (simp_all add: header_bytes_def header_of_bytes_def header_size_def)

definition mpolsr_version :: byte where "mpolsr_version = 1"

text \<open>\<open>memset (&header, 0, sizeof (header))\<close>.\<close>

definition zero_header :: ser_header where
  "zero_header = \<lparr>sh_version = 0, sh_protocol = 0, sh_empty = 0, sh_hops = 0, sh_cur = 0, sh_first_node = 0\<rparr>"

definition read_header :: "byte list \<Rightarrow> ser_header option" where
  "read_header buf = map_option header_of_bytes (get_bytes buf 0 header_size)"

definition read_addr :: "byte list \<Rightarrow> int \<Rightarrow> ip_addr option" where
  "read_addr buf off = map_option of_le32 (get_bytes buf off 4)"

text \<open>\<open>hops\<close> and \<open>cur\<close> as the code reads them.\<close>

definition hops_of :: "ser_header \<Rightarrow> int" where "hops_of h = uint (htons (sh_hops h))"

definition cur_of :: "ser_header \<Rightarrow> int" where "cur_of h = uint (htons (sh_cur h))"

section \<open>Finding a path\<close>

text \<open>The address of the first local link that reaches a node, as the code looks it up.\<close>

definition local_link_to :: "ip_addr \<Rightarrow> tc_state \<Rightarrow> local_link option" where
  "local_link_to ip s = List.find (\<lambda>ll. ll_dst ll = ip) (t_local_links s)"

text \<open>The entries of a path, as long as its allocation holds them.\<close>

definition path_bytes :: "olsr_path \<Rightarrow> byte list option" where
  "path_bytes p =
     (if 0 \<le> ph_hops p \<and> nat (ph_hops p) \<le> length (ph_ips p)
      then Some (concat (map le32 (take (nat (ph_hops p)) (ph_ips p)))) else None)"

text \<open>The buffer with the path, its size, the next hop and the updated header, or \<open>-1\<close>.\<close>

type_synonym path_result = "(byte list \<times> ulong \<times> ip_addr \<times> ser_header) option"

definition pth_copy_path :: "olsr_path \<Rightarrow> byte list \<Rightarrow> bool \<Rightarrow> ser_header \<Rightarrow> tc_state \<Rightarrow> path_result option" where
  "pth_copy_path p buf src_local h s = do {
     let h = h\<lparr>sh_version := mpolsr_version, sh_hops := htons (of_int (ph_hops p)), sh_cur := htons 1\<rparr>;
     buf \<leftarrow> put_bytes buf 0 (header_bytes h);
     bs \<leftarrow> path_bytes p;
     buf \<leftarrow> put_bytes buf (int header_size) bs;
     let size = of_int (ph_hops p) * 4 + of_nat header_size;
     addr \<leftarrow> read_addr buf (int header_size);
     let real = (case local_link_to addr s of None \<Rightarrow> 0 | Some ll \<Rightarrow> ll_dst_alias ll);
     Some (if src_local
           then (if real = 0 then None else Some (buf, size, real, h))
           else Some (buf, size, addr, h))
   }"

text \<open>
  The search in the cache: the first entry for the two nodes, if any, and its current path; the
  next search will start with the path behind it.
\<close>

fun use_cached :: "ip_addr \<Rightarrow> ip_addr \<Rightarrow> path_buffer list \<Rightarrow> (olsr_path option \<times> path_buffer list) option" where
  "use_cached src dst [] = None"
| "use_cached src dst (e # es) =
     (if pb_src e = src \<and> pb_dst e = dst
      then Some (case pb_paths e of [] \<Rightarrow> None | p # _ \<Rightarrow> Some p, e\<lparr>pb_paths := rotate1 (pb_paths e)\<rparr> # es)
      else map_option (\<lambda>(p, es'). (p, e # es')) (use_cached src dst es))"

text \<open>
  \<open>mid\<close> is what the daemon does to the store between the two critical sections, when the path is not in
  the cache.
\<close>

definition pth_find_datagram_path ::
  "djk_config \<Rightarrow> bool \<Rightarrow> (nat \<Rightarrow> bool \<times> bool) \<Rightarrow> (tc_state \<Rightarrow> tc_state) \<Rightarrow> byte list \<Rightarrow> ip_addr \<Rightarrow> ip_addr \<Rightarrow>
   ser_header \<Rightarrow> tc_state \<Rightarrow> (path_result \<times> tc_state) option" where
  "pth_find_datagram_path cf mem1 mem mid buf src_req dst_req h s =
     (case tc_get_node src_req s of
        None \<Rightarrow> Some (None, s)
      | Some sn \<Rightarrow> do {
          src \<leftarrow> main_addr s sn;
          here \<leftarrow> rd (t_local_addr s) 0;
          let src_local = (src = here);
          case tc_get_node dst_req s of
            None \<Rightarrow> Some (None, s)
          | Some dn \<Rightarrow> do {
              dst \<leftarrow> main_addr s dn;
              case use_cached src dst (t_cache s) of
                Some (Some p, c) \<Rightarrow> do {
                  r \<leftarrow> pth_copy_path p buf src_local h (s\<lparr>t_cache := c\<rparr>);
                  Some (r, s\<lparr>t_cache := c\<rparr>)
                }
              | Some (None, c) \<Rightarrow> Some (None, s)
              | None \<Rightarrow> do {
                  (path, s) \<leftarrow> tc_k_dijstra cf mem1 mem src dst (mid s);
                  case path of
                    None \<Rightarrow> Some (None, s)
                  | Some p \<Rightarrow> do {
                      r \<leftarrow> pth_copy_path p buf src_local h s;
                      Some (r, s)
                    }
                }
            }
        })"

section \<open>Checking the path of a datagram\<close>

definition pth_isEndOfPath :: "byte list \<Rightarrow> tc_state \<Rightarrow> int option" where
  "pth_isEndOfPath buf s = do {
     h \<leftarrow> read_header buf;
     if hops_of h < cur_of h then Some (- 1)
     else if hops_of h \<noteq> cur_of h then Some 0
     else if cur_of h < 1 then Some (- 1)
     else do {
       addr \<leftarrow> read_addr buf ((cur_of h - 1) * 4 + int header_size);
       here \<leftarrow> rd (t_local_addr s) 0;
       Some (if addr = here then 1 else - 1)
     }
   }"

text \<open>The result code, the buffer and, for the code 0, the next hop.\<close>

definition pth_checkNextHop :: "byte list \<Rightarrow> tc_state \<Rightarrow> (int \<times> byte list \<times> ip_addr option) option" where
  "pth_checkNextHop buf s = do {
     h \<leftarrow> read_header buf;
     if hops_of h \<le> cur_of h then Some (- 1, buf, None)
     else do {
       let off = (cur_of h - 1) * 4 + int header_size;
       addr \<leftarrow> read_addr buf off;
       here \<leftarrow> rd (t_local_addr s) 0;
       if addr \<noteq> here then Some (- 1, buf, None)
       else do {
         buf \<leftarrow> put_bytes buf 0 (header_bytes (h\<lparr>sh_cur := htons (of_int (cur_of h + 1))\<rparr>));
         next_addr \<leftarrow> read_addr buf (off + 4);
         Some (case local_link_to next_addr s of
                 None \<Rightarrow> (1, buf, None)
               | Some ll \<Rightarrow> if ll_dst_alias ll = 0 then (- 1, buf, None) else (0, buf, Some (ll_dst_alias ll)))
       }
     }
   }"

text \<open>The addresses that are printed, when the debug level asks for it.\<close>

definition pth_printPath :: "bool \<Rightarrow> byte list \<Rightarrow> ip_addr list option" where
  "pth_printPath dbg buf =
     (if \<not> dbg then Some []
      else do {
        h \<leftarrow> read_header buf;
        iter [0..<nat (hops_of h)] (\<lambda>i out. do { a \<leftarrow> read_addr buf (int header_size + 4 * int i); Some (out @ [a]) }) []
      })"

definition pth_getLastNode :: "byte list \<Rightarrow> ip_addr option" where
  "pth_getLastNode buf = do {
     h \<leftarrow> read_header buf;
     read_addr buf (int header_size + (hops_of h - 1) * 4)
   }"

section \<open>Well-formed paths\<close>

text \<open>The bytes of a path \<open>ips\<close> with the current hop \<open>cur\<close>.\<close>

definition path_header :: "ser_header \<Rightarrow> nat \<Rightarrow> nat \<Rightarrow> ser_header" where
  "path_header h n cur = h\<lparr>sh_version := mpolsr_version, sh_hops := htons (of_nat n), sh_cur := htons (of_nat cur)\<rparr>"

definition path_image :: "ser_header \<Rightarrow> ip_addr list \<Rightarrow> nat \<Rightarrow> byte list" where
  "path_image h ips cur = header_bytes (path_header h (length ips) cur) @ concat (map le32 ips)"

lemma length_header_bytes [simp]: "length (header_bytes h) = 12"
  using header_codec.enc_length by (simp add: header_size_def)

lemma length_addrs: "length (concat (map le32 ips)) = 4 * length ips"
  using addr_codec.length_stream [of ips] by simp

lemma length_path_image: "length (path_image h ips cur) = 12 + 4 * length ips"
  by (simp add: path_image_def length_addrs)

lemma path_header_simps:
  assumes "n < 2 ^ 16" "cur < 2 ^ 16"
  shows "hops_of (path_header h n cur) = int n" "cur_of (path_header h n cur) = int cur"
  using assms by (simp_all add: hops_of_def cur_of_def path_header_def unsigned_of_nat take_bit_nat_eq_self)

lemma read_header_image: "read_header (path_image h ips cur @ rest) = Some (path_header h (length ips) cur)"
  unfolding read_header_def path_image_def append_assoc
  using get_bytes_prefix [OF header_codec.enc_length] by (simp add: header_codec.dec_enc)

lemma read_addr_image:
  assumes "i < length ips"
  shows "read_addr (path_image h ips cur @ rest) (int header_size + 4 * int i) = Some (ips ! i)"
proof -
  have "concat (map le32 ips) = concat (map le32 (take i ips)) @ le32 (ips ! i) @ concat (map le32 (drop (Suc i) ips))"
    by (metis assms concat.simps(2) concat_append id_take_nth_drop list.simps(9) map_append)
  then have e: "path_image h ips cur @ rest = (header_bytes (path_header h (length ips) cur) @ concat (map le32 (take i ips))) @
      le32 (ips ! i) @ (concat (map le32 (drop (Suc i) ips)) @ rest)"
    by (simp add: path_image_def)
  have l: "length (header_bytes (path_header h (length ips) cur) @ concat (map le32 (take i ips))) = header_size + 4 * i"
    using assms by (simp add: length_addrs header_size_def)
  have "get_bytes (path_image h ips cur @ rest) (int (header_size + 4 * i)) 4 = Some (le32 (ips ! i))"
    unfolding e by (rule get_bytes_append [OF l]) simp
  then show ?thesis by (simp add: read_addr_def)
qed

lemma put_header_image:
  "put_bytes (path_image h ips cur @ rest) 0 (header_bytes (path_header h (length ips) cur')) =
    Some (path_image h ips cur' @ rest)"
  unfolding path_image_def append_assoc by (rule put_bytes_prefix) simp

lemma path_header_cur: "(path_header h n cur)\<lparr>sh_cur := htons (of_nat cur')\<rparr> = path_header h n cur'"
  by (simp add: path_header_def)

lemma is_end_image:
  assumes "1 \<le> cur" "cur \<le> length ips" "length ips < 2 ^ 16" "rd (t_local_addr s) 0 = Some here"
  shows "pth_isEndOfPath (path_image h ips cur @ rest) s =
    Some (if cur < length ips then 0 else if ips ! (cur - 1) = here then 1 else - 1)"
proof -
  note H = path_header_simps [of "length ips" cur h, OF assms(3) order.strict_trans1 [OF assms(2,3)]]
  have "read_addr (path_image h ips cur @ rest) ((int cur - 1) * 4 + int header_size) = Some (ips ! (cur - 1))"
    using read_addr_image [of "cur - 1" ips h cur rest] assms(1,2) by (simp add: algebra_simps of_nat_diff)
  moreover have "hops_of (path_header h (length ips) cur) = int (length ips)"
    "cur_of (path_header h (length ips) cur) = int cur" by (rule H)+
  ultimately show ?thesis
    using assms unfolding pth_isEndOfPath_def read_header_image by (cases "cur = length ips") auto
qed

lemma check_next_image:
  assumes "1 \<le> cur" "cur < length ips" "length ips < 2 ^ 16" "rd (t_local_addr s) 0 = Some (ips ! (cur - 1))"
  shows "pth_checkNextHop (path_image h ips cur @ rest) s =
    Some (case local_link_to (ips ! cur) s of
            None \<Rightarrow> (1, path_image h ips (cur + 1) @ rest, None)
          | Some ll \<Rightarrow> if ll_dst_alias ll = 0 then (- 1, path_image h ips (cur + 1) @ rest, None)
                      else (0, path_image h ips (cur + 1) @ rest, Some (ll_dst_alias ll)))"
proof -
  note H = path_header_simps [of "length ips" cur h, OF assms(3) order.strict_trans [OF assms(2,3)]]
  have r1: "read_addr (path_image h ips cur @ rest) ((int cur - 1) * 4 + int header_size) = Some (ips ! (cur - 1))"
    using read_addr_image [of "cur - 1" ips h cur rest] assms(1,2) by (simp add: algebra_simps of_nat_diff)
  have r2: "read_addr (path_image h ips (cur + 1) @ rest) ((int cur - 1) * 4 + int header_size + 4) = Some (ips ! cur)"
    using read_addr_image [of cur ips h "cur + 1" rest] assms(2) by (simp add: algebra_simps)
  have e: "(path_header h (length ips) cur)\<lparr>sh_cur := htons (of_nat cur + 1)\<rparr> = path_header h (length ips) (cur + 1)"
    using path_header_cur [where h = h and n = "length ips" and cur = cur and cur' = "cur + 1"] by (simp add: add.commute)
  have pu: "put_bytes (path_image h ips cur @ rest) 0
      (header_bytes ((path_header h (length ips) cur)\<lparr>sh_cur := htons (of_nat cur + 1)\<rparr>)) =
    Some (path_image h ips (cur + 1) @ rest)"
    unfolding e by (rule put_header_image)
  show ?thesis
    using assms r1 r2 by (simp add: pth_checkNextHop_def read_header_image H Let_def pu split: option.split)
qed

lemma last_node_image:
  assumes "ips \<noteq> []" "length ips < 2 ^ 16" "cur < 2 ^ 16"
  shows "pth_getLastNode (path_image h ips cur @ rest) = Some (last ips)"
proof -
  have "read_addr (path_image h ips cur @ rest) (int header_size + (int (length ips) - 1) * 4) = Some (ips ! (length ips - 1))"
    using read_addr_image [of "length ips - 1" ips h cur rest] assms(1)
    by (simp add: algebra_simps of_nat_diff Suc_leI)
  then show ?thesis using assms by (simp add: pth_getLastNode_def read_header_image path_header_simps last_conv_nth)
qed

lemma print_path_image:
  assumes "length ips < 2 ^ 16" "cur < 2 ^ 16"
  shows "pth_printPath True (path_image h ips cur @ rest) = Some ips"
proof -
  define P where "P i out \<longleftrightarrow> out = take i ips" for i out
  have "\<exists>out. iter [0..<length ips]
      (\<lambda>i out. do { a \<leftarrow> read_addr (path_image h ips cur @ rest) (int header_size + 4 * int i); Some (out @ [a]) }) [] = Some out \<and>
      P (length ips) out"
    by (rule iter_upt_total [where P = P]) (simp_all add: P_def read_addr_image take_Suc_conv_app_nth)
  then show ?thesis using path_header_simps(1) [OF assms] by (simp add: pth_printPath_def read_header_image P_def)
qed

text \<open>The path that the source writes is the image of the path, at its first hop.\<close>

lemma copy_path_image:
  assumes "ph_ips p \<noteq> []" "ph_hops p = int (length (ph_ips p))" "12 + 4 * length (ph_ips p) \<le> length buf"
    "length (ph_ips p) < 2 ^ 16"
  shows "pth_copy_path p buf src_local h s =
    Some (let real = (case local_link_to (hd (ph_ips p)) s of None \<Rightarrow> 0 | Some ll \<Rightarrow> ll_dst_alias ll);
              img = path_image h (ph_ips p) 1 @ drop (12 + 4 * length (ph_ips p)) buf;
              size = of_nat (12 + 4 * length (ph_ips p)) in
          if src_local then (if real = 0 then None else Some (img, size, real, path_header h (length (ph_ips p)) 1))
          else Some (img, size, hd (ph_ips p), path_header h (length (ph_ips p)) 1))"
proof -
  let ?ips = "ph_ips p"
  let ?img = "path_image h ?ips 1 @ drop (12 + 4 * length ?ips) buf"
  have h: "h\<lparr>sh_version := mpolsr_version, sh_hops := htons (of_int (ph_hops p)), sh_cur := htons 1\<rparr> =
      path_header h (length ?ips) 1"
    using assms(2) by (simp add: path_header_def)
  have pb: "path_bytes p = Some (concat (map le32 ?ips))" using assms(2) by (simp add: path_bytes_def)
  have p1: "put_bytes buf 0 (header_bytes (path_header h (length ?ips) 1)) =
      Some (header_bytes (path_header h (length ?ips) 1) @ drop 12 buf)"
    using assms(3) by (simp add: put_bytes_def)
  have p2: "put_bytes (header_bytes (path_header h (length ?ips) 1) @ drop 12 buf) (int header_size) (concat (map le32 ?ips)) =
      Some ?img"
  proof -
    have d: "drop 12 buf = take (4 * length ?ips) (drop 12 buf) @ drop (12 + 4 * length ?ips) buf"
      using append_take_drop_id [of "4 * length ?ips" "drop 12 buf", symmetric] unfolding drop_drop
      by (simp only: add.commute)
    have "put_bytes (header_bytes (path_header h (length ?ips) 1) @ take (4 * length ?ips) (drop 12 buf) @
        drop (12 + 4 * length ?ips) buf) (int header_size) (concat (map le32 ?ips)) = Some ?img"
      using put_bytes_append [of "header_bytes (path_header h (length ?ips) 1)" header_size
          "take (4 * length ?ips) (drop 12 buf)" "concat (map le32 ?ips)" "drop (12 + 4 * length ?ips) buf"] assms(3)
      by (simp add: path_image_def length_addrs header_size_def)
    then show ?thesis using d by simp
  qed
  have a: "read_addr ?img (int header_size) = Some (hd ?ips)"
    using read_addr_image [of 0 ?ips h 1] assms(1) by (simp add: hd_conv_nth)
  have size: "of_int (ph_hops p) * 4 + of_nat header_size = (of_nat (12 + 4 * length ?ips) :: ulong)"
    using assms(2) by (simp add: header_size_def)
  show ?thesis
    unfolding pth_copy_path_def Let_def h
    by (simp only: p1 p2 pb a size Option.bind.simps)
qed

section \<open>The cache\<close>

text \<open>The entry found for two nodes.\<close>

lemma use_cached_None: "use_cached src dst c = None \<longleftrightarrow> (\<forall>e \<in> set c. \<not> (pb_src e = src \<and> pb_dst e = dst))"
  by (induction c) auto

text \<open>Repeated searches use the paths of an entry one after the other.\<close>

fun uses :: "ip_addr \<Rightarrow> ip_addr \<Rightarrow> nat \<Rightarrow> path_buffer list \<Rightarrow> olsr_path option list" where
  "uses src dst 0 c = []"
| "uses src dst (Suc k) c = (case use_cached src dst c of None \<Rightarrow> [] | Some (p, c') \<Rightarrow> p # uses src dst k c')"

lemma use_cached_hit:
  assumes "\<forall>e \<in> set c1. \<not> (pb_src e = src \<and> pb_dst e = dst)" "pb_src e = src" "pb_dst e = dst"
  shows "use_cached src dst (c1 @ e # c2) =
    Some (case pb_paths e of [] \<Rightarrow> None | p # _ \<Rightarrow> Some p, c1 @ e\<lparr>pb_paths := rotate1 (pb_paths e)\<rparr> # c2)"
  using assms by (induction c1) auto

lemma uses_rotate:
  assumes "\<forall>e \<in> set c1. \<not> (pb_src e = src \<and> pb_dst e = dst)" "pb_src e = src" "pb_dst e = dst" "pb_paths e \<noteq> []"
  shows "uses src dst k (c1 @ e # c2) = map (\<lambda>i. Some (pb_paths e ! (i mod length (pb_paths e)))) [0..<k]"
  using assms(2-4)
proof (induction k arbitrary: e)
  case (Suc k)
  let ?ps = "pb_paths e"
  have "uses src dst (Suc k) (c1 @ e # c2) = Some (hd ?ps) # uses src dst k (c1 @ e\<lparr>pb_paths := rotate1 ?ps\<rparr> # c2)"
    using use_cached_hit [OF assms(1) Suc.prems(1,2)] Suc.prems(3) by (simp split: list.split)
  also have "\<dots> = Some (hd ?ps) # map (\<lambda>i. Some (rotate1 ?ps ! (i mod length ?ps))) [0..<k]"
    using Suc.IH [of "e\<lparr>pb_paths := rotate1 ?ps\<rparr>"] Suc.prems by simp
  also have "\<dots> = map (\<lambda>i. Some (?ps ! (i mod length ?ps))) (0 # map Suc [0..<k])"
    using Suc.prems(3) by (simp add: nth_rotate1 hd_conv_nth mod_Suc_eq)
  also have "0 # map Suc [0..<k] = [0..<Suc k]" by (simp add: map_Suc_upt upt_conv_Cons del: upt_Suc)
  finally show ?case .
qed simp

end
