(* ===== verification/Skb.thy ===== *)
theory Skb imports Path_Header begin

text \<open>
  Datagram editing (\<open>skb_tools.c\<close>): a path is put between the IP header and the payload of a datagram, read,
  replaced and taken out again. The data of a socket buffer starts with the IP header. The functions of the kernel
  that the code calls are the fields of a parameter; sizes are those of a path (at most 262152 bytes), so that no
  sum of the checks wraps.
\<close>

section \<open>Socket buffers and the kernel\<close>

record sk_buff =
  sk_data :: "byte list"
  sk_csum :: ulong

text \<open>
  \<open>kn_pointer\<close>: \<open>skb_header_pointer\<close> without a copy buffer gives a pointer into the data;
  \<open>kn_put\<close>: the buffer after \<open>skb_put\<close>; \<open>kn_route\<close>: \<open>ip_route_me_harder\<close>.
\<close>

record kernel =
  kn_pointer :: "sk_buff \<Rightarrow> int \<Rightarrow> int \<Rightarrow> bool"
  kn_ip_csum :: "byte list \<Rightarrow> u16"
  kn_csum_partial :: "byte list \<Rightarrow> ulong \<Rightarrow> ulong"
  kn_udp_magic :: "ip_addr \<Rightarrow> ip_addr \<Rightarrow> ulong \<Rightarrow> byte \<Rightarrow> ulong \<Rightarrow> u16"
  kn_trim :: "sk_buff \<Rightarrow> ulong \<Rightarrow> sk_buff"
  kn_linearize :: "sk_buff \<Rightarrow> (sk_buff \<times> int)"
  kn_writable :: "sk_buff \<Rightarrow> bool"
  kn_copy :: "sk_buff \<Rightarrow> sk_buff option"
  kn_expand :: "sk_buff \<Rightarrow> ulong \<Rightarrow> sk_buff option"
  kn_put :: "sk_buff \<Rightarrow> ulong \<Rightarrow> sk_buff"
  kn_route :: "sk_buff \<Rightarrow> sk_buff \<times> int"

section \<open>Fields of the IP header\<close>

definition ip_offset :: "byte list \<Rightarrow> int option" where
  "ip_offset d = map_option (\<lambda>b. int (unat (b AND 15)) * 4) (rd d 0)"

definition get_u16 :: "byte list \<Rightarrow> int \<Rightarrow> u16 option" where
  "get_u16 d off = map_option of_le16 (get_bytes d off 2)"

definition put_u16 :: "byte list \<Rightarrow> int \<Rightarrow> u16 \<Rightarrow> byte list option" where
  "put_u16 d off w = put_bytes d off (le16 w)"

definition ip_tot_len :: "byte list \<Rightarrow> u16 option" where "ip_tot_len d = get_u16 d 2"
definition ip_frag_off :: "byte list \<Rightarrow> u16 option" where "ip_frag_off d = get_u16 d 6"
definition ip_protocol :: "byte list \<Rightarrow> byte option" where "ip_protocol d = rd d 9"
definition ip_saddr :: "byte list \<Rightarrow> ip_addr option" where "ip_saddr d = read_addr d 12"
definition ip_daddr :: "byte list \<Rightarrow> ip_addr option" where "ip_daddr d = read_addr d 16"

definition set_tot_len :: "u16 \<Rightarrow> byte list \<Rightarrow> byte list option" where "set_tot_len w d = put_u16 d 2 w"
definition set_check :: "u16 \<Rightarrow> byte list \<Rightarrow> byte list option" where "set_check w d = put_u16 d 10 w"
definition set_protocol :: "byte \<Rightarrow> byte list \<Rightarrow> byte list option" where "set_protocol b d = wr d 9 b"
definition set_saddr :: "ip_addr \<Rightarrow> byte list \<Rightarrow> byte list option" where "set_saddr ip d = put_bytes d 12 (le32 ip)"
definition set_daddr :: "ip_addr \<Rightarrow> byte list \<Rightarrow> byte list option" where "set_daddr ip d = put_bytes d 16 (le32 ip)"

definition update_data :: "(byte list \<Rightarrow> byte list option) \<Rightarrow> sk_buff \<Rightarrow> sk_buff option" where
  "update_data f skb = map_option (\<lambda>d. skb\<lparr>sk_data := d\<rparr>) (f (sk_data skb))"

section \<open>Checksums\<close>

definition ip_checksum :: "kernel \<Rightarrow> byte list \<Rightarrow> byte list option" where
  "ip_checksum k d = do {
     off \<leftarrow> ip_offset d;
     d \<leftarrow> set_check 0 d;
     hd \<leftarrow> get_bytes d 0 (nat off);
     set_check (kn_ip_csum k hd) d
   }"

definition skb_updateChecksumIP :: "kernel \<Rightarrow> sk_buff \<Rightarrow> sk_buff option" where
  "skb_updateChecksumIP k skb = do {
     skb \<leftarrow> update_data (ip_checksum k) skb;
     Some (skb\<lparr>sk_csum := 0\<rparr>)
   }"

definition skb_updateChecksumIP_UDP :: "kernel \<Rightarrow> sk_buff \<Rightarrow> sk_buff option" where
  "skb_updateChecksumIP_UDP k skb = do {
     off \<leftarrow> ip_offset (sk_data skb);
     d \<leftarrow> ip_checksum k (sk_data skb);
     let len = int (length d) - off;
     payload \<leftarrow> (if len < 8 then None else get_bytes d (off + 8) (nat (len - 8)));
     let csum = kn_csum_partial k payload 0;
     d \<leftarrow> put_u16 d (off + 6) 0;
     saddr \<leftarrow> ip_saddr d;
     daddr \<leftarrow> ip_daddr d;
     uh \<leftarrow> get_bytes d off 8;
     d \<leftarrow> put_u16 d (off + 6) (kn_udp_magic k saddr daddr (of_int len) 17 (kn_csum_partial k uh csum));
     Some \<lparr>sk_data = d, sk_csum = csum\<rparr>
   }"

section \<open>Paths in a datagram\<close>

text \<open>The flag is false for the result \<open>-1\<close>; then the buffer is as it was.\<close>

definition skb_addPath :: "kernel \<Rightarrow> sk_buff \<Rightarrow> byte list \<Rightarrow> ulong \<Rightarrow> (sk_buff \<times> bool) option" where
  "skb_addPath k skb path sz = do {
     let d = sk_data skb;
     off \<leftarrow> ip_offset d;
     tl \<leftarrow> ip_tot_len d;
     let psize = uint (htons tl) - off;
     if int (length d) < off + psize \<or> psize < 0 \<or> int (length d) < off + psize + uint sz
       \<or> \<not> kn_pointer k skb off psize
     then Some (skb, False)
     else do {
       d \<leftarrow> copy_down (off + psize - 1) (off + psize + uint sz - 1) (nat psize) d;
       bs \<leftarrow> get_bytes path 0 (unat sz);
       d \<leftarrow> put_bytes d off bs;
       tl \<leftarrow> ip_tot_len d;
       d \<leftarrow> set_tot_len (htons (htons tl + ucast sz)) d;
       Some (skb\<lparr>sk_data := d\<rparr>, True)
     }
   }"

definition skb_replacePath :: "kernel \<Rightarrow> sk_buff \<Rightarrow> byte list \<Rightarrow> ulong \<Rightarrow> ulong \<Rightarrow> (sk_buff \<times> bool) option" where
  "skb_replacePath k skb path sz init_size = do {
     let d = sk_data skb;
     ihl \<leftarrow> ip_offset d;
     tl \<leftarrow> ip_tot_len d;
     let off = ihl + int header_size;
     let req = uint (htons tl) - ihl - int header_size;
     if \<not> kn_pointer k skb off req then Some (skb, False)
     else do {
       d \<leftarrow> (if init_size < sz
              then copy_down (off + req - 1) (off + req + (uint sz - uint init_size) - 1) (nat req) d
              else if sz < init_size
              then copy_up (off + (uint init_size - uint sz)) off (nat (req + uint sz - uint init_size)) d
              else Some d);
       bs \<leftarrow> get_bytes path 0 (unat sz);
       d \<leftarrow> put_bytes d off bs;
       tl \<leftarrow> ip_tot_len d;
       d \<leftarrow> set_tot_len (htons (htons tl + ucast (sz - init_size))) d;
       Some (skb\<lparr>sk_data := d\<rparr>, True)
     }
   }"

text \<open>The path buffer, the size and the header, or \<open>-1\<close>; the path buffer is an array of the caller.\<close>

definition skb_getPath :: "kernel \<Rightarrow> sk_buff \<Rightarrow> byte list \<Rightarrow> (byte list \<times> ulong \<times> ser_header) option option" where
  "skb_getPath k skb buf = do {
     let d = sk_data skb;
     off \<leftarrow> ip_offset d;
     let psize = int (length d) - off;
     if int (length d) < off + psize \<or> psize < 0 \<or> \<not> kn_pointer k skb off psize then Some None
     else do {
       hb \<leftarrow> get_bytes d off header_size;
       let h = header_of_bytes hb;
       let sz = hops_of h * 4 + int header_size;
       bs \<leftarrow> get_bytes d off (nat sz);
       buf \<leftarrow> put_bytes buf 0 bs;
       Some (Some (buf, of_int sz, h))
     }
   }"

definition skb_updatePath :: "kernel \<Rightarrow> sk_buff \<Rightarrow> byte list \<Rightarrow> ulong \<Rightarrow> (sk_buff \<times> bool) option" where
  "skb_updatePath k skb path sz = do {
     let d = sk_data skb;
     off \<leftarrow> ip_offset d;
     let psize = int (length d) - off;
     if int (length d) < off + psize \<or> psize < 0 \<or> \<not> kn_pointer k skb off psize then Some (skb, False)
     else do {
       bs \<leftarrow> get_bytes path 0 (unat sz);
       d \<leftarrow> put_bytes d off bs;
       Some (skb\<lparr>sk_data := d\<rparr>, True)
     }
   }"

definition skb_removePath :: "kernel \<Rightarrow> sk_buff \<Rightarrow> ulong \<Rightarrow> (sk_buff \<times> bool) option" where
  "skb_removePath k skb sz = do {
     let d = sk_data skb;
     off \<leftarrow> ip_offset d;
     let ser_size = int (length d) - off;
     let udp_size = ser_size - uint sz;
     if int (length d) < off + ser_size \<or> int (length d) < off + uint sz \<or> udp_size < 0 \<or> ser_size < 0
       \<or> \<not> kn_pointer k skb off ser_size
     then Some (skb, False)
     else do {
       d \<leftarrow> copy_up (off + uint sz) off (nat udp_size) d;
       tl \<leftarrow> ip_tot_len d;
       d \<leftarrow> set_tot_len (htons (htons tl - ucast sz)) d;
       Some (kn_trim k (skb\<lparr>sk_data := d\<rparr>) (of_nat (length d) - sz), True)
     }
   }"

section \<open>Documented behaviour of the kernel\<close>

text \<open>
  What the proofs rely on: a pointer is given exactly when the bytes are there, trimming shortens the data, a copy is
  equal, an expanded copy has room at its end, \<open>skb_put\<close> appends bytes, routing keeps the data.
\<close>

definition kernel_ok :: "kernel \<Rightarrow> bool" where
  "kernel_ok k \<longleftrightarrow>
     (\<forall>skb off n. kn_pointer k skb off n \<longleftrightarrow> 0 \<le> off \<and> 0 \<le> n \<and> off + n \<le> int (length (sk_data skb))) \<and>
     (\<forall>skb n. sk_data (kn_trim k skb n) = take (unat n) (sk_data skb)) \<and>
     (\<forall>skb skb'. kn_copy k skb = Some skb' \<longrightarrow> sk_data skb' = sk_data skb) \<and>
     (\<forall>skb n skb'. kn_expand k skb n = Some skb' \<longrightarrow> sk_data skb' = sk_data skb) \<and>
     (\<forall>skb n. \<exists>bs. length bs = unat n \<and> sk_data (kn_put k skb n) = sk_data skb @ bs) \<and>
     (\<forall>skb. sk_data (fst (kn_route k skb)) = sk_data skb) \<and>
     (\<forall>skb. sk_data (fst (kn_linearize k skb)) = sk_data skb)"

lemma kernel_okD:
  assumes "kernel_ok k"
  shows "kn_pointer k skb off n \<longleftrightarrow> 0 \<le> off \<and> 0 \<le> n \<and> off + n \<le> int (length (sk_data skb))"
    and "sk_data (kn_trim k skb m) = take (unat m) (sk_data skb)"
    and "kn_copy k skb = Some skb' \<Longrightarrow> sk_data skb' = sk_data skb"
    and "kn_expand k skb m = Some skb' \<Longrightarrow> sk_data skb' = sk_data skb"
    and "\<exists>bs. length bs = unat m \<and> sk_data (kn_put k skb m) = sk_data skb @ bs"
    and "sk_data (fst (kn_route k skb)) = sk_data skb" "sk_data (fst (kn_linearize k skb)) = sk_data skb"
  using assms unfolding kernel_ok_def by blast+

text \<open>A kernel that never fails, for concrete runs; its checksums are a plain sum.\<close>

definition byte_sum :: "byte list \<Rightarrow> ulong \<Rightarrow> ulong" where
  "byte_sum bs c = fold (\<lambda>b s. s + ucast b) bs c"

definition plain_kernel :: kernel where
  "plain_kernel = \<lparr>kn_pointer = (\<lambda>skb off n. 0 \<le> off \<and> 0 \<le> n \<and> off + n \<le> int (length (sk_data skb))),
     kn_ip_csum = (\<lambda>bs. ucast (byte_sum bs 0)), kn_csum_partial = byte_sum,
     kn_udp_magic = (\<lambda>s d len p c. ucast (s + d + len + ucast p + c)),
     kn_trim = (\<lambda>skb n. skb\<lparr>sk_data := take (unat n) (sk_data skb)\<rparr>),
     kn_linearize = (\<lambda>skb. (skb, 0)), kn_writable = (\<lambda>skb. True), kn_copy = Some, kn_expand = (\<lambda>skb n. Some skb),
     kn_put = (\<lambda>skb n. skb\<lparr>sk_data := sk_data skb @ replicate (unat n) 0\<rparr>), kn_route = (\<lambda>skb. (skb, 0))\<rparr>"

lemma plain_kernel_ok: "kernel_ok plain_kernel"
  unfolding kernel_ok_def plain_kernel_def by (auto intro: exI [of _ "replicate _ 0"])

end
