(* ===== verification/Hooks.thy ===== *)
theory Hooks imports Skb Ser_Device begin

text \<open>
  The netfilter hooks of the kernel module (\<open>hook_local_out.c\<close>, \<open>hook_local_in.c\<close>,
  \<open>hook_pre_routing.c\<close>) and its initialisation (\<open>sereadmo-module.c\<close>). A hook gets a datagram and the topology
  store and gives a verdict, the datagram as it leaves the hook, the datagrams it sends by itself and the store.
\<close>

section \<open>Environment and results\<close>

datatype verdict = NF_ACCEPT | NF_DROP | NF_STOLEN

text \<open>
  The kernel, the module parameters, the outcomes of the allocations of a route search, what the daemon does
  between its two locks, and what the array \<open>path[65536]\<close> on the stack holds at the start.
\<close>

record hook_env =
  he_kernel :: kernel
  he_config :: djk_config
  he_port :: int
  he_mem1 :: bool
  he_mem :: "nat \<Rightarrow> bool \<times> bool"
  he_mid :: "tc_state \<Rightarrow> tc_state"
  he_stack :: "byte list"

text \<open>The return code of a \<open>hk_process\<close> function, the datagram, the datagrams sent and the store.\<close>

type_synonym hook_result = "int \<times> sk_buff \<times> sk_buff list \<times> tc_state"

definition sereadmo_protocol :: byte where "sereadmo_protocol = 99"

definition find_path :: "hook_env \<Rightarrow> ip_addr \<Rightarrow> ip_addr \<Rightarrow> ser_header \<Rightarrow> tc_state \<Rightarrow> (path_result \<times> tc_state) option" where
  "find_path e = pth_find_datagram_path (he_config e) (he_mem1 e) (he_mem e) (he_mid e) (he_stack e)"

text \<open>The tail shared by all hooks that send a datagram: checksum, route, send.\<close>

definition route_and_send :: "kernel \<Rightarrow> sk_buff \<Rightarrow> (int \<times> sk_buff list) option" where
  "route_and_send k skb = do {
     skb \<leftarrow> skb_updateChecksumIP k skb;
     let (skb, rc) = kn_route k skb;
     Some (if rc \<noteq> 0 then (- 1, []) else (1, [skb]))
   }"

section \<open>Local out\<close>

definition hk_check_if_update :: "int \<Rightarrow> sk_buff \<Rightarrow> string option \<Rightarrow> bool option" where
  "hk_check_if_update port skb out_dev = do {
     proto \<leftarrow> ip_protocol (sk_data skb);
     if proto \<noteq> 17 then Some False
     else if (case out_dev of None \<Rightarrow> False | Some name \<Rightarrow> take 2 name = ''lo'') then Some False
     else do {
       off \<leftarrow> ip_offset (sk_data skb);
       dport \<leftarrow> get_u16 (sk_data skb) (off + 2);
       Some (uint (htons dport) = port)
     }
   }"

definition hk_process_datagram_local_out :: "hook_env \<Rightarrow> sk_buff \<Rightarrow> tc_state \<Rightarrow> hook_result option" where
  "hk_process_datagram_local_out e skb s = do {
     let k = he_kernel e;
     proto \<leftarrow> ip_protocol (sk_data skb);
     src \<leftarrow> ip_saddr (sk_data skb);
     dst \<leftarrow> ip_daddr (sk_data skb);
     (r, s) \<leftarrow> find_path e src dst (zero_header\<lparr>sh_protocol := proto, sh_first_node := src\<rparr>) s;
     case r of
       None \<Rightarrow> Some (- 1, skb, [], s)
     | Some (path, sz, next_hop, h) \<Rightarrow>
         if sz = of_nat header_size \<or> sz = 0 then Some (0, skb, [], s)
         else (case kn_expand k skb sz of
                 None \<Rightarrow> Some (- 1, skb, [], s)
               | Some skb_new \<Rightarrow> do {
                   (skb_new, ok) \<leftarrow> skb_addPath k (kn_put k skb_new sz) path sz;
                   if \<not> ok then Some (- 1, skb, [], s)
                   else do {
                     skb_new \<leftarrow> update_data (set_protocol sereadmo_protocol) skb_new;
                     skb_new \<leftarrow> update_data (set_daddr next_hop) skb_new;
                     (rc, out) \<leftarrow> route_and_send k skb_new;
                     Some (rc, skb, out, s)
                   }
                 })
   }"

definition hk_local_out_hook ::
  "hook_env \<Rightarrow> sk_buff \<Rightarrow> string option \<Rightarrow> tc_state \<Rightarrow> (verdict \<times> sk_buff \<times> sk_buff list \<times> tc_state) option" where
  "hk_local_out_hook e skb out_dev s = do {
     upd \<leftarrow> hk_check_if_update (he_port e) skb out_dev;
     if \<not> upd then Some (NF_ACCEPT, skb, [], s)
     else do {
       (rc, skb, out, s) \<leftarrow> hk_process_datagram_local_out e skb s;
       Some (if rc < 0 then NF_DROP else if rc = 0 then NF_ACCEPT else NF_STOLEN, skb, out, s)
     }
   }"

section \<open>Common to the receiving hooks\<close>

text \<open>The datagram for the local host: the path is taken out, protocol and sender are restored.\<close>

definition deliver_local :: "kernel \<Rightarrow> sk_buff \<Rightarrow> ulong \<Rightarrow> ser_header \<Rightarrow> (sk_buff \<times> bool) option" where
  "deliver_local k skb sz h = do {
     (skb, ok) \<leftarrow> skb_removePath k skb sz;
     if \<not> ok then Some (skb, False)
     else do {
       skb \<leftarrow> update_data (set_protocol (sh_protocol h)) skb;
       skb \<leftarrow> update_data (set_saddr (sh_first_node h)) skb;
       skb \<leftarrow> skb_updateChecksumIP_UDP k skb;
       Some (skb, True)
     }
   }"

section \<open>Pre routing\<close>

definition hk_route_recovery_pre_routing ::
  "hook_env \<Rightarrow> sk_buff \<Rightarrow> ser_header \<Rightarrow> byte list \<Rightarrow> ulong \<Rightarrow> tc_state \<Rightarrow> hook_result option" where
  "hk_route_recovery_pre_routing e skb h init_path init_size s = do {
     let k = he_kernel e;
     dst \<leftarrow> pth_getLastNode init_path;
     src \<leftarrow> ip_daddr (sk_data skb);
     (r, s) \<leftarrow> find_path e src dst h s;
     case r of
       None \<Rightarrow> Some (- 1, skb, [], s)
     | Some (path, sz, next_hop, h) \<Rightarrow>
         if sz = 0 then Some (- 1, skb, [], s)
         else (
           let delta = max 0 (uint sz - uint init_size) in
           case kn_expand k skb (of_int delta) of
             None \<Rightarrow> Some (- 1, skb, [], s)
           | Some skb_new \<Rightarrow> do {
               let skb_new = (if 0 < delta then kn_put k skb_new (of_int delta) else skb_new);
               (skb_new, ok) \<leftarrow> skb_replacePath k skb_new path sz init_size;
               if \<not> ok then Some (- 1, skb, [], s)
               else do {
                 let delta = uint init_size - uint sz;
                 let skb = (if 0 < delta then kn_trim k skb (of_int delta) else skb);
                 skb_new \<leftarrow> update_data (set_protocol sereadmo_protocol) skb_new;
                 skb_new \<leftarrow> update_data (set_daddr next_hop) skb_new;
                 skb_new \<leftarrow> update_data (set_saddr src) skb_new;
                 (rc, out) \<leftarrow> route_and_send k skb_new;
                 Some (rc, skb, out, s)
               }
             })
   }"

definition hk_process_datagram_pre_routing :: "hook_env \<Rightarrow> sk_buff \<Rightarrow> tc_state \<Rightarrow> hook_result option" where
  "hk_process_datagram_pre_routing e skb s = do {
     let k = he_kernel e;
     if \<not> kn_writable k skb then Some (- 1, skb, [], s)
     else do {
       got \<leftarrow> skb_getPath k skb (he_stack e);
       case got of
         None \<Rightarrow> Some (- 1, skb, [], s)
       | Some (path, sz, h) \<Rightarrow> do {
           fin \<leftarrow> pth_isEndOfPath path s;
           if fin \<noteq> 0 then do {
             (skb, ok) \<leftarrow> deliver_local k skb sz h;
             Some (if ok then 0 else - 1, skb, [], s)
           }
           else do {
             (ret, path, next_hop) \<leftarrow> pth_checkNextHop path s;
             if ret < 0 then Some (- 1, skb, [], s)
             else case next_hop of
               None \<Rightarrow> hk_route_recovery_pre_routing e skb h path sz s
             | Some ip \<Rightarrow> do {
                 skb \<leftarrow> update_data (set_daddr ip) skb;
                 (skb, ok) \<leftarrow> skb_updatePath k skb path sz;
                 if \<not> ok then Some (- 1, skb, [], s)
                 else do {
                   skb \<leftarrow> skb_updateChecksumIP k skb;
                   Some (0, skb, [], s)
                 }
               }
           }
         }
     }
   }"

definition ip_mf :: u16 where "ip_mf = 0x2000"
definition ip_offset_mask :: u16 where "ip_offset_mask = 0x1FFF"

definition hk_pre_routing_hook ::
  "hook_env \<Rightarrow> sk_buff \<Rightarrow> tc_state \<Rightarrow> (verdict \<times> sk_buff \<times> sk_buff list \<times> tc_state) option" where
  "hk_pre_routing_hook e skb s = do {
     proto \<leftarrow> ip_protocol (sk_data skb);
     if proto \<noteq> sereadmo_protocol then Some (NF_ACCEPT, skb, [], s)
     else do {
       frag \<leftarrow> ip_frag_off (sk_data skb);
       if frag AND htons ip_mf \<noteq> 0 \<or> frag AND htons ip_offset_mask \<noteq> 0 then Some (NF_ACCEPT, skb, [], s)
       else do {
         (rc, skb, out, s) \<leftarrow> hk_process_datagram_pre_routing e skb s;
         Some (if rc < 0 then NF_DROP else if 0 < rc then NF_STOLEN else NF_ACCEPT, skb, out, s)
       }
     }
   }"

section \<open>Local in\<close>

definition hk_process_datagram_local_in :: "hook_env \<Rightarrow> sk_buff \<Rightarrow> tc_state \<Rightarrow> hook_result option" where
  "hk_process_datagram_local_in e skb s = do {
     let k = he_kernel e;
     let (skb, rc) = kn_linearize k skb;
     if rc < 0 then Some (- 1, skb, [], s)
     else do {
       got \<leftarrow> skb_getPath k skb (he_stack e);
       case got of
         None \<Rightarrow> Some (- 1, skb, [], s)
       | Some (path, sz, h) \<Rightarrow> do {
           fin \<leftarrow> pth_isEndOfPath path s;
           if fin \<noteq> 0 then
             (if \<not> kn_writable k skb then Some (- 1, skb, [], s)
              else do {
                (skb, ok) \<leftarrow> deliver_local k skb sz h;
                Some (if ok then 0 else - 1, skb, [], s)
              })
           else do {
             src \<leftarrow> ip_daddr (sk_data skb);
             case kn_copy k skb of
               None \<Rightarrow> Some (- 1, skb, [], s)
             | Some skb_new \<Rightarrow> do {
                 (ret, path, next_hop) \<leftarrow> pth_checkNextHop path s;
                 case next_hop of
                   None \<Rightarrow> Some (- 1, skb, [], s)
                 | Some ip \<Rightarrow> do {
                     skb_new \<leftarrow> update_data (set_daddr ip) skb_new;
                     skb_new \<leftarrow> update_data (set_saddr src) skb_new;
                     (skb_new, ok) \<leftarrow> skb_updatePath k skb_new path sz;
                     if \<not> ok then Some (- 1, skb, [], s)
                     else do {
                       (rc, out) \<leftarrow> route_and_send k skb_new;
                       Some (rc, skb, out, s)
                     }
                   }
               }
           }
         }
     }
   }"

definition hk_local_in_hook ::
  "hook_env \<Rightarrow> sk_buff \<Rightarrow> tc_state \<Rightarrow> (verdict \<times> sk_buff \<times> sk_buff list \<times> tc_state) option" where
  "hk_local_in_hook e skb s = do {
     proto \<leftarrow> ip_protocol (sk_data skb);
     if proto \<noteq> sereadmo_protocol then Some (NF_ACCEPT, skb, [], s)
     else do {
       (rc, skb, out, s) \<leftarrow> hk_process_datagram_local_in e skb s;
       Some (if rc < 0 then NF_DROP else if rc = 0 then NF_ACCEPT else NF_STOLEN, skb, out, s)
     }
   }"

section \<open>Loading and unloading the module\<close>

text \<open>What the module has registered: hooks (by their index in the table) and the major number of the device.\<close>

record module_state =
  md_hooks :: "nat list"
  md_major :: int
  md_store :: tc_state

definition hook_count :: nat where "hook_count = 3"

text \<open>
  The loop over the table of hooks: the hooks registered, and the index and the result of the first one that
  fails (\<open>reg i\<close> is the result for hook \<open>i\<close>).
\<close>

fun register_hooks :: "(nat \<Rightarrow> int) \<Rightarrow> nat list \<Rightarrow> nat list \<Rightarrow> nat list \<times> (nat \<times> int) option" where
  "register_hooks reg done [] = (done, None)"
| "register_hooks reg done (i # is) =
     (if reg i < 0 then (done, Some (i, reg i)) else register_hooks reg (done @ [i]) is)"

text \<open>\<open>while (--i > 0) nf_unregister_hook (...)\<close>.\<close>

definition unregister_after_failure :: "nat \<Rightarrow> nat list \<Rightarrow> nat list" where
  "unregister_after_failure i hooks = filter (\<lambda>j. \<not> (1 \<le> j \<and> j < i)) hooks"

definition ser_iptables_init_module ::
  "bool \<Rightarrow> bool \<Rightarrow> int \<Rightarrow> (nat \<Rightarrow> int) \<Rightarrow> module_state \<Rightarrow> int \<times> module_state" where
  "ser_iptables_init_module act_device act_hook major reg m =
     (let m = m\<lparr>md_store := tc_init_data (md_store m)\<rparr>;
          (num, ret) = (if act_device then dev_init_device major else (md_major m, 0));
          m = m\<lparr>md_major := num\<rparr> in
      if ret < 0 then (ret, m)
      else if \<not> act_hook then (ret, m)
      else case register_hooks reg [] [0..<hook_count] of
             (hooks, None) \<Rightarrow> (reg (hook_count - 1), m\<lparr>md_hooks := hooks\<rparr>)
           | (hooks, Some (i, rc)) \<Rightarrow> (rc, m\<lparr>md_hooks := unregister_after_failure i hooks\<rparr>))"

definition ser_iptables_exit_module :: "bool \<Rightarrow> bool \<Rightarrow> module_state \<Rightarrow> module_state option" where
  "ser_iptables_exit_module act_device act_hook m = do {
     let m = (if act_hook then m\<lparr>md_hooks := filter (\<lambda>j. hook_count \<le> j) (md_hooks m)\<rparr> else m);
     let m = (if act_device \<and> dev_cleanup_device (md_major m) then m\<lparr>md_major := 0\<rparr> else m);
     s \<leftarrow> tc_free_data (md_store m);
     Some (m\<lparr>md_store := s\<rparr>)
   }"

end
