(* ===== verification/Ip_View.thy ===== *)
theory Ip_View imports Skb begin

text \<open>
  Datagrams as the proofs see them: an IP header whose fields are read through a view, followed by the rest. Every
  update of a field changes that field of the view and nothing else.
\<close>

section \<open>Reading what was written\<close>

lemma rd_get: "rd d i = map_option hd (get_bytes d i 1)"
  by (auto simp: rd_def get_bytes_def hd_conv_nth)

lemma wr_put: "wr d i b = put_bytes d i [b]"
  by (auto simp: wr_def put_bytes_def upd_conv_take_nth_drop)

lemma get_put_other:
  assumes "put_bytes d i bs = Some d'" "j + int n \<le> i \<or> i + int (length bs) \<le> j"
  shows "get_bytes d' j n = get_bytes d j n"
proof -
  have i: "0 \<le> i" "i + int (length bs) \<le> int (length d)" and d': "d' = take (nat i) d @ bs @ drop (nat i + length bs) d"
    using assms(1) by (auto simp: put_bytes_def split: if_splits)
  have len: "length d' = length d" using put_bytes_length [OF assms(1)] .
  show ?thesis
  proof (cases "0 \<le> j \<and> j + int n \<le> int (length d)")
    case True
    then have j: "nat j + n \<le> length d" by linarith
    have "take n (drop (nat j) d') = take n (drop (nat j) d)"
    proof (rule nth_equalityI)
      fix m
      assume "m < length (take n (drop (nat j) d'))"
      then have m: "m < n" "nat j + m < length d" using len by (auto simp: less_diff_conv)
      have k: "nat j + m < nat i \<or> nat i + length bs \<le> nat j + m" using assms(2) m(1) i True by linarith
      have "d' ! (nat j + m) = d ! (nat j + m)"
        using k i m(2) unfolding d' by (auto simp: nth_append min_def)
      then show "take n (drop (nat j) d') ! m = take n (drop (nat j) d) ! m" using m len by simp
    qed (simp add: len)
    then show ?thesis using True len by (simp add: get_bytes_def)
  next
    case False
    then show ?thesis using len by (auto simp: get_bytes_def)
  qed
qed

lemma get_bytes_left: "i + int n \<le> int (length xs) \<Longrightarrow> get_bytes (xs @ r) i n = get_bytes xs i n"
  by (auto simp: get_bytes_def)

lemma put_bytes_left:
  "i + int (length bs) \<le> int (length xs) \<Longrightarrow> put_bytes (xs @ r) i bs = map_option (\<lambda>x. x @ r) (put_bytes xs i bs)"
  by (auto simp: put_bytes_def)

lemma get_bytes_right: "length xs = i \<Longrightarrow> 0 \<le> j \<Longrightarrow> get_bytes (xs @ r) (int i + j) n = get_bytes r j n"
  by (auto simp: get_bytes_def nat_add_distrib)

lemma put_bytes_right:
  "length xs = i \<Longrightarrow> 0 \<le> j \<Longrightarrow> put_bytes (xs @ r) (int i + j) bs = map_option (\<lambda>x. xs @ x) (put_bytes r j bs)"
  by (auto simp: put_bytes_def nat_add_distrib)

section \<open>The view of a header\<close>

definition ip_head :: "byte list \<Rightarrow> bool" where
  "ip_head iph \<longleftrightarrow> 20 \<le> length iph \<and> ip_offset iph = Some (int (length iph))"

record ip_fields =
  if_len :: u16
  if_frag :: u16
  if_proto :: byte
  if_src :: ip_addr
  if_dst :: ip_addr

definition ip_view :: "byte list \<Rightarrow> ip_fields" where
  "ip_view iph = \<lparr>if_len = the (ip_tot_len iph), if_frag = the (ip_frag_off iph), if_proto = the (ip_protocol iph),
     if_src = the (ip_saddr iph), if_dst = the (ip_daddr iph)\<rparr>"

lemmas ip_getters = ip_tot_len_def ip_frag_off_def ip_protocol_def ip_saddr_def ip_daddr_def ip_offset_def
lemmas ip_setters = set_tot_len_def set_check_def set_protocol_def set_saddr_def set_daddr_def put_u16_def

lemma ip_get:
  assumes "ip_head iph"
  shows "ip_offset (iph @ r) = Some (int (length iph))" "ip_tot_len (iph @ r) = Some (if_len (ip_view iph))"
    "ip_frag_off (iph @ r) = Some (if_frag (ip_view iph))" "ip_protocol (iph @ r) = Some (if_proto (ip_view iph))"
    "ip_saddr (iph @ r) = Some (if_src (ip_view iph))" "ip_daddr (iph @ r) = Some (if_dst (ip_view iph))"
proof -
  have l: "20 \<le> length iph" using assms by (simp add: ip_head_def)
  show "ip_offset (iph @ r) = Some (int (length iph))"
    using assms by (auto simp: ip_head_def ip_offset_def rd_def nth_append)
  have g: "get_bytes (iph @ r) i n = get_bytes iph i n \<and> get_bytes iph i n \<noteq> None" if "0 \<le> i" "i + int n \<le> 20" for i n
    using that l by (auto simp: get_bytes_left get_bytes_def)
  show "ip_tot_len (iph @ r) = Some (if_len (ip_view iph))" "ip_frag_off (iph @ r) = Some (if_frag (ip_view iph))"
    "ip_protocol (iph @ r) = Some (if_proto (ip_view iph))" "ip_saddr (iph @ r) = Some (if_src (ip_view iph))"
    "ip_daddr (iph @ r) = Some (if_dst (ip_view iph))"
    using g [of 2 2] g [of 6 2] g [of 9 1] g [of 12 4] g [of 16 4]
    by (auto simp: ip_view_def ip_getters get_u16_def read_addr_def rd_get)
qed

text \<open>Writing bytes of the header that the offset does not depend on.\<close>

lemma ip_put:
  assumes "ip_head iph" "1 \<le> i" "i + int (length bs) \<le> 20"
  shows "\<exists>iph'. put_bytes (iph @ r) i bs = Some (iph' @ r) \<and> put_bytes iph i bs = Some iph' \<and> ip_head iph' \<and> length iph' = length iph"
proof -
  have l: "20 \<le> length iph" using assms by (simp add: ip_head_def)
  then obtain iph' where iph': "put_bytes iph i bs = Some iph'" using assms(2,3) by (auto simp: put_bytes_def)
  have len: "length iph' = length iph" by (rule put_bytes_length [OF iph'])
  have "rd iph' 0 = rd iph 0" using get_put_other [OF iph', of 0 1] assms(2) by (simp add: rd_get)
  then have "ip_head iph'" using assms(1) len by (simp add: ip_head_def ip_offset_def)
  moreover have "put_bytes (iph @ r) i bs = Some (iph' @ r)"
    using put_bytes_left [of i bs iph r] assms(3) l iph' by simp
  ultimately show ?thesis using iph' len by blast
qed

lemma ip_view_put:
  assumes "put_bytes iph i bs = Some iph'"
  shows "i = 2 \<Longrightarrow> bs = le16 w \<Longrightarrow> ip_view iph' = (ip_view iph)\<lparr>if_len := w\<rparr>"
    "i = 9 \<Longrightarrow> bs = [b] \<Longrightarrow> ip_view iph' = (ip_view iph)\<lparr>if_proto := b\<rparr>"
    "i = 10 \<Longrightarrow> bs = le16 w \<Longrightarrow> ip_view iph' = ip_view iph"
    "i = 12 \<Longrightarrow> bs = le32 a \<Longrightarrow> ip_view iph' = (ip_view iph)\<lparr>if_src := a\<rparr>"
    "i = 16 \<Longrightarrow> bs = le32 a \<Longrightarrow> ip_view iph' = (ip_view iph)\<lparr>if_dst := a\<rparr>"
  using get_put_bytes [OF assms] get_put_other [OF assms, of 2 2] get_put_other [OF assms, of 6 2]
    get_put_other [OF assms, of 9 1] get_put_other [OF assms, of 12 4] get_put_other [OF assms, of 16 4]
  by (simp_all add: ip_view_def ip_getters get_u16_def read_addr_def rd_get)

text \<open>The updates of the code, on a whole datagram.\<close>

lemma ip_set:
  assumes "ip_head iph"
  shows "\<exists>iph'. set_tot_len w (iph @ r) = Some (iph' @ r) \<and> ip_head iph' \<and> length iph' = length iph \<and>
      ip_view iph' = (ip_view iph)\<lparr>if_len := w\<rparr>"
    "\<exists>iph'. set_protocol b (iph @ r) = Some (iph' @ r) \<and> ip_head iph' \<and> length iph' = length iph \<and>
      ip_view iph' = (ip_view iph)\<lparr>if_proto := b\<rparr>"
    "\<exists>iph'. set_check w (iph @ r) = Some (iph' @ r) \<and> ip_head iph' \<and> length iph' = length iph \<and> ip_view iph' = ip_view iph"
    "\<exists>iph'. set_saddr a (iph @ r) = Some (iph' @ r) \<and> ip_head iph' \<and> length iph' = length iph \<and>
      ip_view iph' = (ip_view iph)\<lparr>if_src := a\<rparr>"
    "\<exists>iph'. set_daddr a (iph @ r) = Some (iph' @ r) \<and> ip_head iph' \<and> length iph' = length iph \<and>
      ip_view iph' = (ip_view iph)\<lparr>if_dst := a\<rparr>"
proof -
  show "\<exists>iph'. set_tot_len w (iph @ r) = Some (iph' @ r) \<and> ip_head iph' \<and> length iph' = length iph \<and>
      ip_view iph' = (ip_view iph)\<lparr>if_len := w\<rparr>"
    using ip_put [OF assms, of 2 "le16 w" r] ip_view_put(1) by (fastforce simp: ip_setters)
  show "\<exists>iph'. set_protocol b (iph @ r) = Some (iph' @ r) \<and> ip_head iph' \<and> length iph' = length iph \<and>
      ip_view iph' = (ip_view iph)\<lparr>if_proto := b\<rparr>"
    using ip_put [OF assms, of 9 "[b]" r] ip_view_put(2) by (fastforce simp: ip_setters wr_put)
  show "\<exists>iph'. set_check w (iph @ r) = Some (iph' @ r) \<and> ip_head iph' \<and> length iph' = length iph \<and> ip_view iph' = ip_view iph"
    using ip_put [OF assms, of 10 "le16 w" r] ip_view_put(3) by (fastforce simp: ip_setters)
  show "\<exists>iph'. set_saddr a (iph @ r) = Some (iph' @ r) \<and> ip_head iph' \<and> length iph' = length iph \<and>
      ip_view iph' = (ip_view iph)\<lparr>if_src := a\<rparr>"
    using ip_put [OF assms, of 12 "le32 a" r] ip_view_put(4) by (fastforce simp: ip_setters)
  show "\<exists>iph'. set_daddr a (iph @ r) = Some (iph' @ r) \<and> ip_head iph' \<and> length iph' = length iph \<and>
      ip_view iph' = (ip_view iph)\<lparr>if_dst := a\<rparr>"
    using ip_put [OF assms, of 16 "le32 a" r] ip_view_put(5) by (fastforce simp: ip_setters)
qed

lemma ip_checksum_view:
  assumes "ip_head iph"
  shows "\<exists>iph'. ip_checksum k (iph @ r) = Some (iph' @ r) \<and> ip_head iph' \<and> length iph' = length iph \<and> ip_view iph' = ip_view iph"
proof -
  obtain h1 where h1: "set_check 0 (iph @ r) = Some (h1 @ r)" "ip_head h1" "length h1 = length iph" "ip_view h1 = ip_view iph"
    using ip_set(3) [OF assms] by blast
  have g: "get_bytes (h1 @ r) 0 (length iph) = Some h1" by (rule get_bytes_prefix [OF h1(3)])
  obtain h2 where "set_check (kn_ip_csum k h1) (h1 @ r) = Some (h2 @ r)" "ip_head h2" "length h2 = length h1" "ip_view h2 = ip_view h1"
    using ip_set(3) [OF h1(2)] by blast
  then show ?thesis using h1 g by (simp add: ip_checksum_def ip_get(1) [OF assms])
qed

lemma update_data_Some: "f (sk_data skb) = Some d \<Longrightarrow> update_data f skb = Some (skb\<lparr>sk_data := d\<rparr>)"
  by (simp add: update_data_def)

lemma checksum_ip_view:
  assumes "sk_data skb = iph @ r" "ip_head iph"
  shows "\<exists>iph' skb'. skb_updateChecksumIP k skb = Some skb' \<and> sk_data skb' = iph' @ r \<and> ip_head iph' \<and>
    length iph' = length iph \<and> ip_view iph' = ip_view iph"
proof -
  obtain iph' where "ip_checksum k (sk_data skb) = Some (iph' @ r)" "ip_head iph'" "length iph' = length iph" "ip_view iph' = ip_view iph"
    using ip_checksum_view [OF assms(2), of k r] assms(1) by auto
  then show ?thesis by (auto simp: skb_updateChecksumIP_def update_data_Some)
qed

lemma checksum_udp_view:
  assumes "sk_data skb = iph @ r" "ip_head iph" "8 \<le> length r"
  shows "\<exists>iph' r' skb'. skb_updateChecksumIP_UDP k skb = Some skb' \<and> sk_data skb' = iph' @ r' \<and> ip_head iph' \<and>
    length iph' = length iph \<and> ip_view iph' = ip_view iph \<and> length r' = length r \<and> take 6 r' = take 6 r \<and> drop 8 r' = drop 8 r"
proof -
  obtain h1 where h1: "ip_checksum k (iph @ r) = Some (h1 @ r)" "ip_head h1" "length h1 = length iph" "ip_view h1 = ip_view iph"
    using ip_checksum_view [OF assms(2), of k r] by auto
  have p6: "\<exists>q. put_u16 (h1 @ q0) (int (length iph) + 6) w = Some (h1 @ q) \<and> length q = length q0 \<and>
      take 6 q = take 6 q0 \<and> drop 8 q = drop 8 q0" if "8 \<le> length q0" for q0 w
  proof -
    have "put_bytes q0 6 (le16 w) = Some (take 6 q0 @ le16 w @ drop 8 q0)" using that by (simp add: put_bytes_def)
    then have "put_u16 (h1 @ q0) (int (length iph) + 6) w = Some (h1 @ take 6 q0 @ le16 w @ drop 8 q0)"
      using put_bytes_right [OF h1(3), of 6 q0 "le16 w"] by (simp add: put_u16_def)
    then show ?thesis using that by (intro exI [of _ "take 6 q0 @ le16 w @ drop 8 q0"]) (simp add: min_def)
  qed
  have pl: "get_bytes (h1 @ r) (int (length iph) + 8) (nat (int (length (h1 @ r)) - int (length iph) - 8)) \<noteq> None"
    using assms(3) h1(3) by (simp add: get_bytes_def)
  obtain q where q: "put_u16 (h1 @ r) (int (length iph) + 6) 0 = Some (h1 @ q)" "length q = length r"
      "take 6 q = take 6 r" "drop 8 q = drop 8 r" using p6 [OF assms(3)] by blast
  have u: "get_bytes (h1 @ q) (int (length iph)) 8 \<noteq> None" using q(2) assms(3) h1(3) by (simp add: get_bytes_def)
  have q8: "8 \<le> length q" using q(2) assms(3) by simp
  obtain pb where pb: "get_bytes (h1 @ r) (int (length iph) + 8) (nat (int (length (h1 @ r)) - int (length iph) - 8)) = Some pb"
    using pl by blast
  obtain uh where uh: "get_bytes (h1 @ q) (int (length iph)) 8 = Some uh" using u by blast
  let ?c = "kn_csum_partial k pb 0"
  let ?m = "kn_udp_magic k (if_src (ip_view h1)) (if_dst (ip_view h1)) (of_int (int (length (h1 @ r)) - int (length iph))) 17
      (kn_csum_partial k uh ?c)"
  obtain q' where q': "put_u16 (h1 @ q) (int (length iph) + 6) ?m = Some (h1 @ q')" "length q' = length q"
      "take 6 q' = take 6 q" "drop 8 q' = drop 8 q" using p6 [OF q8] by blast
  have lt: "\<not> int (length (h1 @ r)) - int (length iph) < 8" using assms(3) h1(3) by simp
  have "skb_updateChecksumIP_UDP k skb = Some \<lparr>sk_data = h1 @ q', sk_csum = ?c\<rparr>"
    unfolding skb_updateChecksumIP_UDP_def assms(1)
    by (simp only: ip_get(1) [OF assms(2)] h1(1) Let_def lt if_False pb q(1) ip_get(5,6) [OF h1(2)] uh q'(1) Option.bind.simps)
  then show ?thesis using h1 q q' by (intro exI [of _ h1] exI [of _ q']) auto
qed

end
