(* ===== verification/Skb_Ops.thy ===== *)
theory Skb_Ops imports Ip_View begin

text \<open>
  What the datagram editing does on a datagram with an IP header \<open>iph\<close>: adding, reading, updating and removing a path
  move the payload by exactly the size of the path and keep the total length of the header in step.
\<close>

section \<open>The total length\<close>

definition total :: "byte list \<Rightarrow> int" where "total iph = uint (htons (if_len (ip_view iph)))"

lemma total_plus:
  assumes "if_len (ip_view iph') = htons (htons (if_len (ip_view iph)) + ucast (sz :: ulong))"
    and "total iph + uint sz < 2 ^ 16"
  shows "total iph' = total iph + uint sz"
proof -
  have s: "uint sz < 2 ^ 16" using assms(2) by (smt (verit) total_def uint_ge_0)
  have "uint (ucast sz :: u16) = uint sz" using s by (simp add: unsigned_ucast_eq take_bit_int_eq_self)
  then have "uint (htons (if_len (ip_view iph)) + ucast sz :: u16) = total iph + uint sz"
    using assms(2) by (subst uint_plus_simple_iff [THEN iffD1, rotated]) (auto simp: total_def no_olen_add)
  then show ?thesis using assms(1) by (simp add: total_def)
qed

lemma total_minus:
  assumes "if_len (ip_view iph') = htons (htons (if_len (ip_view iph)) - ucast (sz :: ulong))"
    and "uint sz \<le> total iph"
  shows "total iph' = total iph - uint sz"
proof -
  have "total iph < 2 ^ 16" unfolding total_def using uint_lt2p [of "htons (if_len (ip_view iph))"] by simp
  then have u: "uint (ucast sz :: u16) = uint sz"
    using assms(2) by (simp add: unsigned_ucast_eq take_bit_int_eq_self)
  have "uint (htons (if_len (ip_view iph)) - ucast sz :: u16) = total iph - uint sz"
    using assms(2) u by (simp add: uint_sub_if' total_def)
  then show ?thesis using assms(1) by (simp add: total_def)
qed

section \<open>Adding a path\<close>

lemma unat_diff_of_nat:
  assumes "m < 2 ^ 32" "unat (sz :: ulong) \<le> m"
  shows "unat (of_nat m - sz) = m - unat sz"
proof -
  have un: "unat (of_nat m :: ulong) = m" by (rule unat_small [OF assms(1)])
  then have "sz \<le> of_nat m" using assms(2) by (simp add: word_le_nat_alt)
  then show ?thesis using un by (simp add: unat_sub)
qed

lemma get_take: "n \<le> length path \<Longrightarrow> get_bytes path 0 n = Some (take n path)"
  by (simp add: get_bytes_def)

lemma add_path_ok:
  assumes k: "kernel_ok k" and d: "sk_data skb = iph @ pl @ room" "ip_head iph"
    and t: "total iph = int (length iph + length pl)" "int (length iph + length pl) + uint sz < 2 ^ 16"
    and p: "length room = unat sz" "unat sz \<le> length path"
  shows "\<exists>iph'. skb_addPath k skb path sz = Some (skb\<lparr>sk_data := iph' @ take (unat sz) path @ pl\<rparr>, True) \<and>
    ip_head iph' \<and> length iph' = length iph \<and> total iph' = total iph + uint sz \<and>
    ip_view iph' = (ip_view iph)\<lparr>if_len := if_len (ip_view iph')\<rparr>"
proof -
  let ?n = "unat sz" and ?a = "length iph"
  let ?mid = "take ?n (pl @ room)"
  have o: "ip_offset (sk_data skb) = Some (int ?a)" using ip_get(1) [OF d(2)] d(1) by simp
  have tl: "ip_tot_len (iph @ r) = Some (if_len (ip_view iph))" for r by (rule ip_get(2) [OF d(2)])
  have ps: "uint (htons (if_len (ip_view iph))) - int ?a = int (length pl)" using t(1) by (simp add: total_def)
  have us: "uint sz = int ?n" by simp
  have ptr: "kn_pointer k skb (int ?a) (int (length pl))" using kernel_okD(1) [OF k] d(1) by simp
  have c: "\<not> int (length (iph @ pl @ room)) < int ?a + int (length pl)" "\<not> int (length pl) < 0"
    "\<not> int (length (iph @ pl @ room)) < int ?a + int (length pl) + int ?n" using p(1) by simp_all
  have cd: "copy_down (int ?a + int (length pl) - 1) (int ?a + int (length pl) + int ?n - 1) (length pl) (sk_data skb) =
      Some (iph @ ?mid @ pl)"
    using copy_down_block [of ?a iph ?n room "length pl" pl "[]"] p(1) d(1) by simp
  have len: "length ?mid = ?n" using p(1) by simp
  have pb: "put_bytes (iph @ ?mid @ pl) (int ?a) (take ?n path) = Some (iph @ take ?n path @ pl)"
    by (rule put_bytes_append) (use len p(2) in simp_all)
  have gb: "get_bytes path 0 ?n = Some (take ?n path)" by (rule get_take [OF p(2)])
  obtain iph' where iph': "set_tot_len (htons (htons (if_len (ip_view iph)) + ucast sz)) (iph @ take ?n path @ pl) =
      Some (iph' @ take ?n path @ pl)" "ip_head iph'" "length iph' = length iph"
      "ip_view iph' = (ip_view iph)\<lparr>if_len := htons (htons (if_len (ip_view iph)) + ucast sz)\<rparr>"
    using ip_set(1) [OF d(2)] by blast
  have tp: "total iph' = total iph + uint sz" using total_plus [of iph' iph sz] iph'(4) t by simp
  have "skb_addPath k skb path sz = Some (skb\<lparr>sk_data := iph' @ take ?n path @ pl\<rparr>, True)"
    unfolding skb_addPath_def Let_def o
    by (simp only: Option.bind.simps d(1) tl ps us c ptr [unfolded d(1)] simp_thms if_False cd [unfolded d(1)] gb pb iph'(1) nat_int)
  moreover have "ip_view iph' = (ip_view iph)\<lparr>if_len := if_len (ip_view iph')\<rparr>" using iph'(4) by simp
  ultimately show ?thesis using iph'(2,3) tp by blast
qed

section \<open>Reading and updating\<close>

lemma get_path_ok:
  assumes k: "kernel_ok k" and d: "sk_data skb = iph @ path_image h ips cur @ pl" "ip_head iph"
    and l: "length ips < 2 ^ 16" "cur < 2 ^ 16" "12 + 4 * length ips \<le> length buf"
  shows "skb_getPath k skb buf = Some (Some (path_image h ips cur @ drop (12 + 4 * length ips) buf,
    of_nat (12 + 4 * length ips), path_header h (length ips) cur))"
proof -
  let ?a = "length iph" and ?img = "path_image h ips cur"
  have o: "ip_offset (sk_data skb) = Some (int ?a)" using ip_get(1) [OF d(2)] d(1) by simp
  have ptr: "kn_pointer k skb (int ?a) (int (length (sk_data skb)) - int ?a)" using kernel_okD(1) [OF k] d(1) by simp
  have li: "length ?img = 12 + 4 * length ips" by (rule length_path_image)
  have hb: "get_bytes (sk_data skb) (int ?a) header_size = Some (header_bytes (path_header h (length ips) cur))"
    unfolding d(1) path_image_def append_assoc by (rule get_bytes_append) (simp_all add: header_size_def)
  have ho: "hops_of (path_header h (length ips) cur) = int (length ips)" by (rule path_header_simps(1) [OF l(1,2)])
  have sz: "hops_of (path_header h (length ips) cur) * 4 + int header_size = int (12 + 4 * length ips)"
    by (simp add: ho header_size_def)
  have gb: "get_bytes (sk_data skb) (int ?a) (12 + 4 * length ips) = Some ?img"
    unfolding d(1) by (rule get_bytes_append) (simp_all add: li)
  have pb: "put_bytes buf 0 ?img = Some (?img @ drop (12 + 4 * length ips) buf)"
    using l(3) li by (simp add: put_bytes_def)
  have ge: "\<not> int (length (sk_data skb)) - int ?a < 0" "\<not> int (length (sk_data skb)) < int ?a + (int (length (sk_data skb)) - int ?a)"
    using d(1) by simp_all
  show ?thesis
    unfolding skb_getPath_def Let_def o
    by (simp only: Option.bind.simps ge ptr simp_thms if_False hb header_codec.dec_enc sz nat_int gb pb of_int_of_nat_eq)
qed

lemma update_path_ok:
  assumes k: "kernel_ok k" and d: "sk_data skb = iph @ old @ pl" "ip_head iph"
    and p: "length old = unat sz" "unat sz \<le> length path"
  shows "skb_updatePath k skb path sz = Some (skb\<lparr>sk_data := iph @ take (unat sz) path @ pl\<rparr>, True)"
proof -
  let ?a = "length iph"
  have o: "ip_offset (sk_data skb) = Some (int ?a)" using ip_get(1) [OF d(2)] d(1) by simp
  have ptr: "kn_pointer k skb (int ?a) (int (length (sk_data skb)) - int ?a)" using kernel_okD(1) [OF k] d(1) by simp
  have gb: "get_bytes path 0 (unat sz) = Some (take (unat sz) path)" by (rule get_take [OF p(2)])
  have pb: "put_bytes (sk_data skb) (int ?a) (take (unat sz) path) = Some (iph @ take (unat sz) path @ pl)"
    unfolding d(1) by (rule put_bytes_append) (use p in simp_all)
  have ge: "\<not> int (length (sk_data skb)) - int ?a < 0" "\<not> int (length (sk_data skb)) < int ?a + (int (length (sk_data skb)) - int ?a)"
    using d(1) by simp_all
  show ?thesis
    unfolding skb_updatePath_def Let_def o by (simp only: Option.bind.simps ge ptr simp_thms if_False gb pb)
qed

section \<open>Removing a path\<close>

lemma remove_path_ok:
  assumes k: "kernel_ok k" and d: "sk_data skb = iph @ old @ pl" "ip_head iph"
    and p: "length old = unat sz" "uint sz \<le> total iph" "length (sk_data skb) < 2 ^ 32"
  shows "\<exists>iph' skb'. skb_removePath k skb sz = Some (skb', True) \<and> sk_data skb' = iph' @ pl \<and>
    ip_head iph' \<and> length iph' = length iph \<and> total iph' = total iph - uint sz \<and>
    ip_view iph' = (ip_view iph)\<lparr>if_len := if_len (ip_view iph')\<rparr>"
proof -
  let ?a = "length iph" and ?n = "unat sz"
  have o: "ip_offset (sk_data skb) = Some (int ?a)" using ip_get(1) [OF d(2)] d(1) by simp
  have ptr: "kn_pointer k skb (int ?a) (int (length (sk_data skb)) - int ?a)" using kernel_okD(1) [OF k] d(1) by simp
  have us: "uint sz = int ?n" by simp
  have ss: "int (length (sk_data skb)) - int ?a = int (?n + length pl)" using d(1) p(1) by simp
  let ?rest = "drop (length pl) (old @ pl)"
  have cu: "copy_up (int ?a + int ?n) (int ?a) (length pl) (sk_data skb) = Some (iph @ pl @ ?rest)"
    using copy_up_block [of ?a iph ?n old "length pl" pl "[]"] p(1) d(1) by simp
  have tl: "ip_tot_len (iph @ pl @ ?rest) = Some (if_len (ip_view iph))" by (rule ip_get(2) [OF d(2)])
  obtain iph' where iph': "set_tot_len (htons (htons (if_len (ip_view iph)) - ucast sz)) (iph @ pl @ ?rest) =
      Some (iph' @ pl @ ?rest)" "ip_head iph'" "length iph' = length iph"
      "ip_view iph' = (ip_view iph)\<lparr>if_len := htons (htons (if_len (ip_view iph)) - ucast sz)\<rparr>"
    using ip_set(1) [OF d(2)] by blast
  have tm: "total iph' = total iph - uint sz" using total_minus [of iph' iph sz] iph'(4) p(2) by simp
  have c: "\<not> int (length (sk_data skb)) < int ?a + int (?n + length pl)" "\<not> int (length (sk_data skb)) < int ?a + int ?n"
    "\<not> int (?n + length pl) - int ?n < 0" "nat (int (?n + length pl) - int ?n) = length pl"
    using d(1) p(1) by simp_all
  have c0: "\<not> int (?n + length pl) < 0" by (metis of_nat_less_0_iff)
  let ?d1 = "iph' @ pl @ ?rest"
  have ld: "length ?d1 = length (sk_data skb)" using d(1) p(1) iph'(3) by simp
  let ?skb' = "kn_trim k (skb\<lparr>sk_data := ?d1\<rparr>) (of_nat (length ?d1) - sz)"
  have run: "skb_removePath k skb sz = Some (?skb', True)"
    unfolding skb_removePath_def Let_def o
    by (simp only: Option.bind.simps ss us c c0 ptr [unfolded ss] simp_thms if_False cu tl iph'(1))
  have "unat (of_nat (length ?d1) - sz) = length ?d1 - ?n"
    using p(3) ld d(1) p(1) by (intro unat_diff_of_nat) simp_all
  also have "\<dots> = ?a + length pl" using ld d(1) p(1) by simp
  finally have "sk_data ?skb' = take (?a + length pl) ?d1" using kernel_okD(2) [OF k] by simp
  then have "sk_data ?skb' = iph' @ pl" using iph'(3) by simp
  moreover have "ip_view iph' = (ip_view iph)\<lparr>if_len := if_len (ip_view iph')\<rparr>" using iph'(4) by simp
  ultimately show ?thesis using run iph'(2,3) tm by blast
qed

end
