(* ===== verification/Forwarding.thy ===== *)
theory Forwarding imports Hooks Skb_Ops begin

text \<open>
  The journey of a datagram: the source puts a path in it, every node on the path advances the current hop and
  sends it to the next one, the destination takes the path out again and gets the datagram that
  was sent.
\<close>

section \<open>Delivery\<close>

text \<open>The sizes of a path as the code computes them.\<close>

definition path_size :: "ip_addr list \<Rightarrow> ulong" where "path_size ips = of_nat (12 + 4 * length ips)"

lemma path_size_small:
  assumes "length ips < 2 ^ 16"
  shows "unat (path_size ips) = 12 + 4 * length ips" "uint (path_size ips) = int (12 + 4 * length ips)"
proof -
  have "12 + 4 * length ips < 2 ^ 32" using assms by simp
  then show u: "unat (path_size ips) = 12 + 4 * length ips" unfolding path_size_def by (rule unat_small)
  show "uint (path_size ips) = int (12 + 4 * length ips)" using u by (metis uint_nat)
qed

text \<open>The payload, up to the two bytes of the UDP checksum.\<close>

definition same_payload :: "byte list \<Rightarrow> byte list \<Rightarrow> bool" where
  "same_payload pl pl' \<longleftrightarrow> length pl' = length pl \<and> take 6 pl' = take 6 pl \<and> drop 8 pl' = drop 8 pl"

lemma deliver_ok:
  assumes k: "kernel_ok k" and d: "sk_data skb = iph @ path_image h ips cur @ pl" "ip_head iph"
    and l: "length ips < 2 ^ 16" "int (12 + 4 * length ips) \<le> total iph" "8 \<le> length pl" "length (sk_data skb) < 2 ^ 32"
  shows "\<exists>skb' iph' pl'. deliver_local k skb (path_size ips) (path_header h (length ips) cur) = Some (skb', True) \<and>
    sk_data skb' = iph' @ pl' \<and> ip_head iph' \<and> same_payload pl pl' \<and> total iph' = total iph - int (12 + 4 * length ips) \<and>
    ip_view iph' = (ip_view iph)\<lparr>if_len := if_len (ip_view iph'), if_proto := sh_protocol h, if_src := sh_first_node h\<rparr>"
proof -
  note sz = path_size_small [OF l(1)]
  obtain i1 s1 where s1: "skb_removePath k skb (path_size ips) = Some (s1, True)" "sk_data s1 = i1 @ pl" "ip_head i1"
      "total i1 = total iph - int (12 + 4 * length ips)" "ip_view i1 = (ip_view iph)\<lparr>if_len := if_len (ip_view i1)\<rparr>"
    using remove_path_ok [OF k d, of "path_size ips"] l sz length_path_image [of h ips cur] by auto
  obtain i2 where i2: "set_protocol (sh_protocol h) (sk_data s1) = Some (i2 @ pl)" "ip_head i2"
      "ip_view i2 = (ip_view i1)\<lparr>if_proto := sh_protocol h\<rparr>" using ip_set(2) [OF s1(3)] s1(2) by metis
  define s2 where "s2 = s1\<lparr>sk_data := i2 @ pl\<rparr>"
  have d2: "sk_data s2 = i2 @ pl" by (simp add: s2_def)
  obtain i3 where i3: "set_saddr (sh_first_node h) (sk_data s2) = Some (i3 @ pl)" "ip_head i3"
      "ip_view i3 = (ip_view i2)\<lparr>if_src := sh_first_node h\<rparr>" using ip_set(4) [OF i2(2)] d2 by metis
  define s3 where "s3 = s2\<lparr>sk_data := i3 @ pl\<rparr>"
  have d3: "sk_data s3 = i3 @ pl" by (simp add: s3_def)
  obtain i4 pl' s4 where s4: "skb_updateChecksumIP_UDP k s3 = Some s4" "sk_data s4 = i4 @ pl'" "ip_head i4" "ip_view i4 = ip_view i3"
      "length pl' = length pl" "take 6 pl' = take 6 pl" "drop 8 pl' = drop 8 pl"
    using checksum_udp_view [OF d3 i3(2) l(3), of k] by auto
  have h: "sh_protocol (path_header h (length ips) cur) = sh_protocol h" "sh_first_node (path_header h (length ips) cur) = sh_first_node h"
    by (simp_all add: path_header_def)
  have run: "deliver_local k skb (path_size ips) (path_header h (length ips) cur) = Some (s4, True)"
    unfolding deliver_local_def h
    using s1(1) update_data_Some [where f = "set_protocol _", OF i2(1)] update_data_Some [where f = "set_saddr _", OF i3(1)] s4(1) by (simp add: s2_def s3_def)
  have "total i4 = total i1" using s4(4) i3(3) i2(3) by (simp add: total_def)
  moreover have "ip_view i4 = (ip_view iph)\<lparr>if_len := if_len (ip_view i4), if_proto := sh_protocol h, if_src := sh_first_node h\<rparr>"
    using s4(4) i3(3) i2(3) s1(5) by (metis (no_types, lifting) ip_fields.surjective ip_fields.update_convs ip_fields.select_convs)
  moreover have "same_payload pl pl'" using s4(5-7) by (simp add: same_payload_def)
  ultimately show ?thesis using run s4(2,3) s1(4) by metis
qed

section \<open>One hop\<close>

text \<open>A datagram under way: protocol 99, no fragment, and a total length that covers the path.\<close>

definition under_way :: "byte list \<Rightarrow> ser_header \<Rightarrow> ip_addr list \<Rightarrow> nat \<Rightarrow> byte list \<Rightarrow> sk_buff \<Rightarrow> bool" where
  "under_way iph h ips cur pl skb \<longleftrightarrow> sk_data skb = iph @ path_image h ips cur @ pl \<and> ip_head iph \<and>
     if_proto (ip_view iph) = sereadmo_protocol \<and>
     if_frag (ip_view iph) AND htons ip_mf = 0 \<and> if_frag (ip_view iph) AND htons ip_offset_mask = 0 \<and>
     length ips < 2 ^ 16 \<and> int (12 + 4 * length ips) \<le> total iph \<and> 8 \<le> length pl \<and> length (sk_data skb) < 2 ^ 32"

text \<open>The environment of a node: its kernel behaves as documented and can write to datagrams, and its stack buffer holds the path.\<close>

definition node_env :: "ip_addr list \<Rightarrow> hook_env \<Rightarrow> bool" where
  "node_env ips e \<longleftrightarrow> kernel_ok (he_kernel e) \<and> (\<forall>skb. kn_writable (he_kernel e) skb) \<and> 12 + 4 * length ips \<le> length (he_stack e)"

lemma path_cur_small: "cur \<le> n \<Longrightarrow> n < (2 ^ 16 :: nat) \<Longrightarrow> cur < 2 ^ 16"
  by simp

lemma hook_get_path:
  assumes u: "under_way iph h ips cur pl skb" and e: "node_env ips e" and c: "cur \<le> length ips"
  shows "hk_pre_routing_hook e skb s = map_option
      (\<lambda>(rc, skb, out, s). (if rc < 0 then NF_DROP else if 0 < rc then NF_STOLEN else NF_ACCEPT, skb, out, s))
      (hk_process_datagram_pre_routing e skb s)"
    and "skb_getPath (he_kernel e) skb (he_stack e) = Some (Some (path_image h ips cur @ drop (12 + 4 * length ips) (he_stack e),
      path_size ips, path_header h (length ips) cur))"
proof -
  have d: "sk_data skb = iph @ path_image h ips cur @ pl" "ip_head iph" using u by (simp_all add: under_way_def)
  have g: "ip_protocol (sk_data skb) = Some sereadmo_protocol" "ip_frag_off (sk_data skb) = Some (if_frag (ip_view iph))"
    using ip_get [OF d(2)] d(1) u by (simp_all add: under_way_def)
  show "hk_pre_routing_hook e skb s = map_option
      (\<lambda>(rc, skb, out, s). (if rc < 0 then NF_DROP else if 0 < rc then NF_STOLEN else NF_ACCEPT, skb, out, s))
      (hk_process_datagram_pre_routing e skb s)"
    using u unfolding hk_pre_routing_hook_def g
    by (cases "hk_process_datagram_pre_routing e skb s") (auto simp: under_way_def)
  have li: "length ips < 2 ^ 16" using u by (simp add: under_way_def)
  show "skb_getPath (he_kernel e) skb (he_stack e) = Some (Some (path_image h ips cur @ drop (12 + 4 * length ips) (he_stack e),
      path_size ips, path_header h (length ips) cur))"
    unfolding path_size_def
    by (rule get_path_ok [OF _ d li path_cur_small [OF c li]]) (use e in \<open>simp_all add: node_env_def\<close>)
qed

lemma hop_forward:
  assumes u: "under_way iph h ips cur pl skb" and e: "node_env ips e"
    and c: "1 \<le> cur" "cur < length ips" "rd (t_local_addr s) 0 = Some (ips ! (cur - 1))"
    and l: "local_link_to (ips ! cur) s = Some ll" "ll_dst_alias ll \<noteq> 0"
  shows "\<exists>iph' skb'. hk_pre_routing_hook e skb s = Some (NF_ACCEPT, skb', [], s) \<and> under_way iph' h ips (cur + 1) pl skb' \<and>
    length iph' = length iph \<and> ip_view iph' = (ip_view iph)\<lparr>if_dst := ll_dst_alias ll\<rparr>"
proof -
  let ?k = "he_kernel e" and ?rest = "drop (12 + 4 * length ips) (he_stack e)"
  have d: "sk_data skb = iph @ path_image h ips cur @ pl" "ip_head iph" and li: "length ips < 2 ^ 16"
    using u by (simp_all add: under_way_def)
  have k: "kernel_ok ?k" "kn_writable ?k skb" using e by (simp_all add: node_env_def)
  note G = hook_get_path [OF u e order.strict_implies_order [OF c(2)]]
  have fin: "pth_isEndOfPath (path_image h ips cur @ ?rest) s = Some 0"
    using is_end_image [OF c(1) order.strict_implies_order [OF c(2)] li c(3)] c(2) by simp
  have nxt: "pth_checkNextHop (path_image h ips cur @ ?rest) s =
      Some (0, path_image h ips (cur + 1) @ ?rest, Some (ll_dst_alias ll))"
    using check_next_image [OF c(1,2) li c(3)] l by simp
  obtain i1 where i1: "set_daddr (ll_dst_alias ll) (sk_data skb) = Some (i1 @ path_image h ips cur @ pl)" "ip_head i1"
      "length i1 = length iph" "ip_view i1 = (ip_view iph)\<lparr>if_dst := ll_dst_alias ll\<rparr>"
    using ip_set(5) [OF d(2)] d(1) by metis
  define s1 where "s1 = skb\<lparr>sk_data := i1 @ path_image h ips cur @ pl\<rparr>"
  have d1: "sk_data s1 = i1 @ path_image h ips cur @ pl" by (simp add: s1_def)
  have up: "skb_updatePath ?k s1 (path_image h ips (cur + 1) @ ?rest) (path_size ips) =
      Some (s1\<lparr>sk_data := i1 @ path_image h ips (cur + 1) @ pl\<rparr>, True)"
    using update_path_ok [OF k(1) d1 i1(2), of "path_size ips" "path_image h ips (cur + 1) @ ?rest"]
    by (simp add: length_path_image path_size_small(1) [OF li])
  define s2 where "s2 = s1\<lparr>sk_data := i1 @ path_image h ips (cur + 1) @ pl\<rparr>"
  have d2: "sk_data s2 = i1 @ path_image h ips (cur + 1) @ pl" by (simp add: s2_def)
  obtain i3 s3 where s3: "skb_updateChecksumIP ?k s2 = Some s3" "sk_data s3 = i3 @ path_image h ips (cur + 1) @ pl" "ip_head i3"
      "length i3 = length i1" "ip_view i3 = ip_view i1"
    using checksum_ip_view [OF d2 i1(2), of ?k] by blast
  have "hk_process_datagram_pre_routing e skb s = Some (0, s3, [], s)"
    unfolding hk_process_datagram_pre_routing_def Let_def
    using k(2) G(2) fin nxt update_data_Some [where f = "set_daddr _", OF i1(1)] up s3(1) by (simp add: s1_def s2_def)
  then have "hk_pre_routing_hook e skb s = Some (NF_ACCEPT, s3, [], s)" by (simp add: G(1))
  moreover have "under_way i3 h ips (cur + 1) pl s3"
    using u s3 i1 d(1) unfolding under_way_def by (simp add: total_def length_path_image)
  ultimately show ?thesis using s3 i1 by auto
qed

lemma hop_deliver:
  assumes u: "under_way iph h ips cur pl skb" and e: "node_env ips e"
    and c: "1 \<le> cur" "cur = length ips" "rd (t_local_addr s) 0 = Some here"
  shows "\<exists>iph' pl' skb'. hk_pre_routing_hook e skb s = Some (NF_ACCEPT, skb', [], s) \<and> sk_data skb' = iph' @ pl' \<and>
    ip_head iph' \<and> same_payload pl pl' \<and> total iph' = total iph - int (12 + 4 * length ips) \<and>
    ip_view iph' = (ip_view iph)\<lparr>if_len := if_len (ip_view iph'), if_proto := sh_protocol h, if_src := sh_first_node h\<rparr>"
proof -
  let ?k = "he_kernel e" and ?rest = "drop (12 + 4 * length ips) (he_stack e)"
  have d: "sk_data skb = iph @ path_image h ips cur @ pl" "ip_head iph" and li: "length ips < 2 ^ 16"
    and t: "int (12 + 4 * length ips) \<le> total iph" "8 \<le> length pl" "length (sk_data skb) < 2 ^ 32"
    using u unfolding under_way_def by blast+
  have k: "kernel_ok ?k" "kn_writable ?k skb" using e by (simp_all add: node_env_def)
  note G = hook_get_path [OF u e eq_imp_le [OF c(2)]]
  have fin: "\<exists>f. pth_isEndOfPath (path_image h ips cur @ ?rest) s = Some f \<and> f \<noteq> 0"
    using is_end_image [OF c(1) eq_imp_le [OF c(2)] li c(3)] c(2) by auto
  obtain skb' iph' pl' where D: "deliver_local ?k skb (path_size ips) (path_header h (length ips) cur) = Some (skb', True)"
    "sk_data skb' = iph' @ pl'" "ip_head iph'" "same_payload pl pl'" "total iph' = total iph - int (12 + 4 * length ips)"
    "ip_view iph' = (ip_view iph)\<lparr>if_len := if_len (ip_view iph'), if_proto := sh_protocol h, if_src := sh_first_node h\<rparr>"
    using deliver_ok [OF k(1) d li t] by blast
  have "hk_process_datagram_pre_routing e skb s = Some (0, skb', [], s)"
    unfolding hk_process_datagram_pre_routing_def Let_def using k(2) G(2) fin D(1) by auto
  then have "hk_pre_routing_hook e skb s = Some (NF_ACCEPT, skb', [], s)" by (simp add: G(1))
  then show ?thesis using D by blast
qed

section \<open>The whole journey\<close>

text \<open>The datagram at every node of the path in turn, as long as each lets it pass unchanged otherwise.\<close>

fun travel :: "(hook_env \<times> tc_state) list \<Rightarrow> sk_buff \<Rightarrow> sk_buff option" where
  "travel [] skb = Some skb"
| "travel ((e, s) # ns) skb =
     (case hk_pre_routing_hook e skb s of
        Some (NF_ACCEPT, skb', [], _) \<Rightarrow> travel ns skb'
      | _ \<Rightarrow> None)"

text \<open>Node \<open>i\<close> has the address \<open>i\<close> of the path and a local link to the next one.\<close>

definition nodes_on_path :: "ip_addr list \<Rightarrow> (hook_env \<times> tc_state) list \<Rightarrow> bool" where
  "nodes_on_path ips ns \<longleftrightarrow> length ns = length ips \<and>
     (\<forall>i < length ips. node_env ips (fst (ns ! i)) \<and> rd (t_local_addr (snd (ns ! i))) 0 = Some (ips ! i) \<and>
        (i + 1 < length ips \<longrightarrow> (\<exists>ll. local_link_to (ips ! (i + 1)) (snd (ns ! i)) = Some ll \<and> ll_dst_alias ll \<noteq> 0)))"

lemma travel_from:
  assumes "nodes_on_path ips ns" "under_way iph h ips (Suc i) pl skb" "i < length ips"
  shows "\<exists>iph' pl' skb'. travel (drop i ns) skb = Some skb' \<and> sk_data skb' = iph' @ pl' \<and> ip_head iph' \<and>
    same_payload pl pl' \<and> total iph' = total iph - int (12 + 4 * length ips) \<and>
    if_proto (ip_view iph') = sh_protocol h \<and> if_src (ip_view iph') = sh_first_node h"
  using assms(2,3)
proof (induction "length ips - i" arbitrary: i iph skb)
  case (Suc m)
  have n: "node_env ips (fst (ns ! i))" "rd (t_local_addr (snd (ns ! i))) 0 = Some (ips ! i)" "i < length ns"
    using assms(1) Suc.prems(2) by (simp_all add: nodes_on_path_def)
  obtain e s where es: "ns ! i = (e, s)" by fastforce
  have ee: "node_env ips e" and rr: "rd (t_local_addr s) 0 = Some (ips ! (Suc i - 1))" and one: "1 \<le> Suc i"
    using n(1,2) es by simp_all
  have dr: "drop i ns = (e, s) # drop (Suc i) ns" using n(3) es by (metis Cons_nth_drop_Suc)
  show ?case
  proof (cases "Suc i < length ips")
    case True
    then obtain ll where ll: "local_link_to (ips ! Suc i) s = Some ll" "ll_dst_alias ll \<noteq> 0"
      using assms(1) es Suc.prems(2) unfolding nodes_on_path_def by (metis Suc_eq_plus1 snd_conv)
    obtain i1 skb1 where f: "hk_pre_routing_hook e skb s = Some (NF_ACCEPT, skb1, [], s)"
        "under_way i1 h ips (Suc (Suc i)) pl skb1" "ip_view i1 = (ip_view iph)\<lparr>if_dst := ll_dst_alias ll\<rparr>"
      using hop_forward [OF Suc.prems(1) ee one True rr ll] by auto
    have "total i1 = total iph" using f(3) by (simp add: total_def)
    moreover have "m = length ips - Suc i" using Suc.hyps(2) by simp
    ultimately show ?thesis using Suc.hyps(1) [OF _ f(2) True] f(1) dr by simp
  next
    case False
    then have last: "Suc i = length ips" using Suc.prems(2) by simp
    then have "drop (Suc i) ns = []" using assms(1) by (simp add: nodes_on_path_def)
    moreover obtain i1 pl1 skb1 where g: "hk_pre_routing_hook e skb s = Some (NF_ACCEPT, skb1, [], s)" "sk_data skb1 = i1 @ pl1"
        "ip_head i1" "same_payload pl pl1" "total i1 = total iph - int (12 + 4 * length ips)"
        "ip_view i1 = (ip_view iph)\<lparr>if_len := if_len (ip_view i1), if_proto := sh_protocol h, if_src := sh_first_node h\<rparr>"
      using hop_deliver [OF Suc.prems(1) ee one last rr] by auto
    moreover have "if_proto (ip_view i1) = sh_protocol h" "if_src (ip_view i1) = sh_first_node h"
      by (subst g(6), simp)+
    ultimately show ?thesis using dr by auto
  qed
qed simp

section \<open>The source\<close>

lemma local_out_ok:
  assumes d: "sk_data skb = iph @ pl" "ip_head iph" and k: "kernel_ok (he_kernel e)"
    and t: "total iph = int (length iph + length pl)" "8 \<le> length pl" "int (length iph + length pl + 12 + 4 * length ips) < 2 ^ 16"
    and f: "find_path e (if_src (ip_view iph)) (if_dst (ip_view iph))
        (zero_header\<lparr>sh_protocol := if_proto (ip_view iph), sh_first_node := if_src (ip_view iph)\<rparr>) s =
      Some (Some (path_image (zero_header\<lparr>sh_protocol := if_proto (ip_view iph), sh_first_node := if_src (ip_view iph)\<rparr>) ips 1 @ rest,
        path_size ips, next_hop, hdr), s')"
    and n: "ips \<noteq> []" "kn_expand (he_kernel e) skb (path_size ips) = Some skb0" "\<And>skb. snd (kn_route (he_kernel e) skb) = 0"
    and fr: "if_frag (ip_view iph) AND htons ip_mf = 0" "if_frag (ip_view iph) AND htons ip_offset_mask = 0"
  shows "\<exists>iph' skb'. hk_process_datagram_local_out e skb s = Some (1, skb, [skb'], s') \<and>
    under_way iph' (zero_header\<lparr>sh_protocol := if_proto (ip_view iph), sh_first_node := if_src (ip_view iph)\<rparr>) ips 1 pl skb' \<and>
    total iph' = total iph + int (12 + 4 * length ips) \<and> if_dst (ip_view iph') = next_hop \<and> if_src (ip_view iph') = if_src (ip_view iph)"
proof -
  let ?k = "he_kernel e" and ?h = "zero_header\<lparr>sh_protocol := if_proto (ip_view iph), sh_first_node := if_src (ip_view iph)\<rparr>"
  let ?img = "path_image ?h ips 1" and ?sz = "path_size ips"
  have li: "length ips < 2 ^ 16" using t(3) by simp
  note sz = path_size_small [OF li]
  have ns: "\<not> (?sz = of_nat header_size \<or> ?sz = 0)"
  proof -
    have "unat ?sz \<noteq> 12" "unat ?sz \<noteq> 0" using sz(1) n(1) by simp_all
    then show ?thesis by (auto simp: header_size_def)
  qed
  obtain bs where bs: "length bs = unat ?sz" "sk_data (kn_put ?k skb0 ?sz) = (iph @ pl) @ bs"
    using kernel_okD(5) [OF k, of ?sz skb0] kernel_okD(4) [OF k n(2)] d(1) by auto
  have dp: "sk_data (kn_put ?k skb0 ?sz) = iph @ pl @ bs" using bs(2) by simp
  have tk: "take (unat ?sz) (?img @ rest) = ?img" using sz(1) by (simp add: length_path_image)
  have ov: "int (length iph + length pl) + uint ?sz < 2 ^ 16" using t(3) sz(2) by simp
  have lp: "unat ?sz \<le> length (?img @ rest)" using sz(1) by (simp add: length_path_image)
  obtain i1 where i1: "skb_addPath ?k (kn_put ?k skb0 ?sz) (?img @ rest) ?sz =
      Some ((kn_put ?k skb0 ?sz)\<lparr>sk_data := i1 @ ?img @ pl\<rparr>, True)" "ip_head i1" "length i1 = length iph"
      "total i1 = total iph + uint ?sz" "ip_view i1 = (ip_view iph)\<lparr>if_len := if_len (ip_view i1)\<rparr>"
    using add_path_ok [OF k dp d(2) t(1) ov bs(1) lp] unfolding tk by blast
  define s1 where "s1 = (kn_put ?k skb0 ?sz)\<lparr>sk_data := i1 @ ?img @ pl\<rparr>"
  have d1: "sk_data s1 = i1 @ ?img @ pl" by (simp add: s1_def)
  obtain i2 where i2: "set_protocol sereadmo_protocol (sk_data s1) = Some (i2 @ ?img @ pl)" "ip_head i2" "length i2 = length i1"
      "ip_view i2 = (ip_view i1)\<lparr>if_proto := sereadmo_protocol\<rparr>" using ip_set(2) [OF i1(2)] d1 by metis
  define s2 where "s2 = s1\<lparr>sk_data := i2 @ ?img @ pl\<rparr>"
  have d2: "sk_data s2 = i2 @ ?img @ pl" by (simp add: s2_def)
  obtain i3 where i3: "set_daddr next_hop (sk_data s2) = Some (i3 @ ?img @ pl)" "ip_head i3" "length i3 = length i2"
      "ip_view i3 = (ip_view i2)\<lparr>if_dst := next_hop\<rparr>" using ip_set(5) [OF i2(2)] d2 by metis
  define s3 where "s3 = s2\<lparr>sk_data := i3 @ ?img @ pl\<rparr>"
  have d3: "sk_data s3 = i3 @ ?img @ pl" by (simp add: s3_def)
  obtain i4 s4 where s4: "skb_updateChecksumIP ?k s3 = Some s4" "sk_data s4 = i4 @ ?img @ pl" "ip_head i4" "length i4 = length i3"
      "ip_view i4 = ip_view i3" using checksum_ip_view [OF d3 i3(2), of ?k] by blast
  obtain s5 where s5: "kn_route ?k s4 = (s5, 0)" using n(3) [of s4] by (cases "kn_route ?k s4") auto
  have d5: "sk_data s5 = i4 @ ?img @ pl" using kernel_okD(6) [OF k, of s4] s5 s4(2) by simp
  have rs: "route_and_send ?k s3 = Some (1, [s5])" using s4(1) s5 by (simp add: route_and_send_def)
  have g: "ip_protocol (sk_data skb) = Some (if_proto (ip_view iph))" "ip_saddr (sk_data skb) = Some (if_src (ip_view iph))"
    "ip_daddr (sk_data skb) = Some (if_dst (ip_view iph))" using ip_get [OF d(2)] d(1) by simp_all
  have run: "hk_process_datagram_local_out e skb s = Some (1, skb, [s5], s')"
    unfolding hk_process_datagram_local_out_def Let_def g
    using f ns n(2) i1(1) update_data_Some [where f = "set_protocol _", OF i2(1)]
      update_data_Some [where f = "set_daddr _", OF i3(1)] rs
    by (simp add: s1_def s2_def s3_def)
  have v: "ip_view i4 = (ip_view iph)\<lparr>if_len := if_len (ip_view i1), if_proto := sereadmo_protocol, if_dst := next_hop\<rparr>"
    unfolding s4(5) i3(4) i2(4) by (subst i1(5)) simp
  have t4: "total i4 = total iph + int (12 + 4 * length ips)" using v i1(4) sz(2) by (simp add: total_def)
  have "under_way i4 ?h ips 1 pl s5"
    unfolding under_way_def using d5 s4(3,4) v fr li t t4 i3(3) i2(3) i1(3) by (simp add: length_path_image)
  then show ?thesis using run t4 v by auto
qed

end
