(* ===== verification/Datagram_Safety.thy ===== *)
theory Datagram_Safety imports Forwarding begin

text \<open>
  What the hooks guarantee for a datagram, from the socket of the sender to the socket of the receiver, and where they go
  wrong: paths that announce more hops than they hold, paths that end at another node,
  route recovery, and a failing load of the module.
\<close>

section \<open>Which path is used\<close>

text \<open>A search that finds a path, in the cache or by a computation.\<close>

definition path_found :: "hook_env \<Rightarrow> ip_addr \<Rightarrow> ip_addr \<Rightarrow> tc_state \<Rightarrow> olsr_path \<Rightarrow> tc_state \<Rightarrow> bool" where
  "path_found e a b s p s' \<longleftrightarrow>
     (\<exists>c. use_cached a b (t_cache s) = Some (Some p, c) \<and> s' = s\<lparr>t_cache := c\<rparr>) \<or>
     (use_cached a b (t_cache s) = None \<and>
      tc_k_dijstra (he_config e) (he_mem1 e) (he_mem e) a b (he_mid e s) = Some (Some p, s'))"

lemma find_path_local:
  assumes n: "tc_get_node src s = Some sn" "main_addr s sn = Some a" "rd (t_local_addr s) 0 = Some a"
    "tc_get_node dst s = Some dn" "main_addr s dn = Some b"
    and p: "path_found e a b s p s'" "ph_ips p \<noteq> []" "ph_hops p = int (length (ph_ips p))"
    "12 + 4 * length (ph_ips p) \<le> length (he_stack e)" "length (ph_ips p) < 2 ^ 16"
    and l: "local_link_to (hd (ph_ips p)) s' = Some ll" "ll_dst_alias ll \<noteq> 0"
  shows "find_path e src dst h s = Some (Some (path_image h (ph_ips p) 1 @ drop (12 + 4 * length (ph_ips p)) (he_stack e),
    path_size (ph_ips p), ll_dst_alias ll, path_header h (length (ph_ips p)) 1), s')"
proof -
  have c: "pth_copy_path p (he_stack e) True h s' =
      Some (Some (path_image h (ph_ips p) 1 @ drop (12 + 4 * length (ph_ips p)) (he_stack e),
        path_size (ph_ips p), ll_dst_alias ll, path_header h (length (ph_ips p)) 1))"
    using copy_path_image [OF p(2,3,4,5), of True h s'] l by (simp add: path_size_def)
  from p(1) show ?thesis
    unfolding path_found_def
  proof (elim disjE exE conjE)
    fix c'
    assume "use_cached a b (t_cache s) = Some (Some p, c')" "s' = s\<lparr>t_cache := c'\<rparr>"
    then show ?thesis using n c by (simp add: find_path_def pth_find_datagram_path_def)
  next
    assume "use_cached a b (t_cache s) = None"
      "tc_k_dijstra (he_config e) (he_mem1 e) (he_mem e) a b (he_mid e s) = Some (Some p, s')"
    then show ?thesis using n c by (simp add: find_path_def pth_find_datagram_path_def)
  qed
qed

text \<open>
  Successive searches for the same two nodes use the paths of their cache entry in turn: the first path twice
  (once when it is computed, once from the cache), then the next ones, round robin.
\<close>

theorem paths_round_robin:
  assumes "\<forall>e \<in> set c1. \<not> (pb_src e = src \<and> pb_dst e = dst)" "pb_src e = src" "pb_dst e = dst" "pb_paths e \<noteq> []"
  shows "uses src dst k (c1 @ e # c2) = map (\<lambda>i. Some (pb_paths e ! (i mod length (pb_paths e)))) [0..<k]"
  by (rule uses_rotate [OF assms])

definition one_hop :: "ip_addr \<Rightarrow> olsr_path" where "one_hop ip = \<lparr>ph_ips = [ip], ph_hops = 1\<rparr>"

theorem paths_round_robin_witness:
  "uses 1 2 5 ([\<lparr>pb_src = 1, pb_dst = 9, pb_paths = []\<rparr>] @ \<lparr>pb_src = 1, pb_dst = 2, pb_paths = [one_hop 2, one_hop 7]\<rparr> # []) =
    map (\<lambda>i. Some ([one_hop 2, one_hop 7] ! (i mod length [one_hop 2, one_hop 7]))) [0..<5]"
  using paths_round_robin [of "[\<lparr>pb_src = 1, pb_dst = 9, pb_paths = []\<rparr>]" 1 2
      "\<lparr>pb_src = 1, pb_dst = 2, pb_paths = [one_hop 2, one_hop 7]\<rparr>" 5 "[]"] by simp

section \<open>A concrete network\<close>

definition ip_a :: ip_addr where "ip_a = 0x0100000A"
definition ip_b :: ip_addr where "ip_b = 0x0200000A"
definition ip_c :: ip_addr where "ip_c = 0x0300000A"

text \<open>A node that knows its address and has one neighbour.\<close>

definition store_at :: "ip_addr \<Rightarrow> ip_addr \<Rightarrow> tc_state" where
  "store_at here nb = tc_empty\<lparr>t_local_addr := [here, 0, 0, 0, 0],
     t_local_links := [\<lparr>ll_dst = nb, ll_dst_alias = nb, ll_local = here, ll_mask = 0x00FFFFFF\<rparr>]\<rparr>"

definition sample_env :: hook_env where
  "sample_env = \<lparr>he_kernel = plain_kernel, he_config = \<lparr>cf_path = 3, cf_fp = 2, cf_fe = 2\<rparr>, he_port = 698, he_mem1 = True,
     he_mem = (\<lambda>_. (True, True)), he_mid = id, he_stack = replicate 65536 0\<rparr>"

definition sample_header :: ser_header where
  "sample_header = zero_header\<lparr>sh_protocol := 17, sh_first_node := ip_a\<rparr>"

text \<open>A datagram of 32 bytes: IP header, UDP header to the port 698, four bytes of data.\<close>

definition sample_ip :: "u16 \<Rightarrow> byte \<Rightarrow> byte list" where
  "sample_ip len proto = [0x45, 0] @ le16 (htons len) @ [0, 0, 0, 0, 64, proto, 0, 0] @ le32 ip_a @ le32 ip_c"

definition sample_udp :: "byte list" where
  "sample_udp = [0x10, 0, 2, 0xBA, 0, 12, 0, 0, 1, 2, 3, 4]"

lemma sample_ip_head: "ip_head (sample_ip len proto)"
  by (simp add: sample_ip_def ip_head_def ip_offset_def rd_def)

lemma sample_ip_view:
  "ip_view (sample_ip len proto) = \<lparr>if_len = htons len, if_frag = 0, if_proto = proto, if_src = ip_a, if_dst = ip_c\<rparr>"
  by (simp add: ip_view_def ip_getters get_u16_def read_addr_def get_bytes_def sample_ip_def rd_def le16_def
      of_le16_le16 [unfolded le16_def of_le16.simps])

lemma sample_head_length: "length (sample_ip len proto) = 20"
  by (simp add: sample_ip_def)

lemma sample_node_env: "length ips \<le> 16000 \<Longrightarrow> node_env ips sample_env"
  unfolding node_env_def sample_env_def using plain_kernel_ok by (simp add: plain_kernel_def)

section \<open>From sender to receiver\<close>


definition sample_datagram :: sk_buff where
  "sample_datagram = \<lparr>sk_data = sample_ip 32 17 @ sample_udp, sk_csum = 0\<rparr>"

text \<open>A sender that knows the nodes \<open>a\<close> and \<open>c\<close> and has a cached path over \<open>b\<close>.\<close>

definition sample_source :: tc_state where
  "sample_source = (the (do { s \<leftarrow> tc_add_node True True ip_a (store_at ip_a ip_b); tc_add_node True True ip_c s }))
     \<lparr>t_cache := [\<lparr>pb_src = ip_a, pb_dst = ip_c, pb_paths = [\<lparr>ph_ips = [ip_b, ip_c], ph_hops = 2\<rparr>]\<rparr>]\<rparr>"

lemma sample_source_values:
  "tc_get_node ip_a sample_source = Some 0" "main_addr sample_source 0 = Some ip_a"
  "rd (t_local_addr sample_source) 0 = Some ip_a" "tc_get_node ip_c sample_source = Some 1"
  "main_addr sample_source 1 = Some ip_c" "map_option ll_dst_alias (local_link_to ip_b sample_source) = Some ip_b"
  by code_simp+

lemma sample_source_path:
  "path_found sample_env ip_a ip_c sample_source \<lparr>ph_ips = [ip_b, ip_c], ph_hops = 2\<rparr>
    (sample_source\<lparr>t_cache := [\<lparr>pb_src = ip_a, pb_dst = ip_c, pb_paths = [\<lparr>ph_ips = [ip_b, ip_c], ph_hops = 2\<rparr>]\<rparr>]\<rparr>)"
  unfolding path_found_def by (rule disjI1) (simp add: sample_source_def)

lemma sample_nodes_on_path:
  "nodes_on_path [ip_b, ip_c] [(sample_env, store_at ip_b ip_c), (sample_env, store_at ip_c ip_b)]"
  unfolding nodes_on_path_def
  by (auto simp: sample_node_env less_Suc_eq store_at_def local_link_to_def rd_def ip_b_def ip_c_def)

lemma sample_total: "total (sample_ip len proto) = uint len"
  by (simp add: total_def sample_ip_view)


section \<open>One operation and its inverse\<close>

text \<open>
  Taking out the path that was put in gives back the payload byte for byte and the header with the same
  fields, including the total length.
\<close>

theorem add_remove_path:
  assumes k: "kernel_ok k" and d: "sk_data skb = iph @ pl @ room" "ip_head iph" "total iph = int (length iph + length pl)"
    and s: "length room = unat sz" "unat sz \<le> length path" "int (length iph + length pl) + uint sz < 2 ^ 16"
  shows "\<exists>skb1 skb2 iph2. skb_addPath k skb path sz = Some (skb1, True) \<and> skb_removePath k skb1 sz = Some (skb2, True) \<and>
    sk_data skb2 = iph2 @ pl \<and> length iph2 = length iph \<and> ip_view iph2 = ip_view iph"
proof -
  obtain i1 where a: "skb_addPath k skb path sz = Some (skb\<lparr>sk_data := i1 @ take (unat sz) path @ pl\<rparr>, True)" "ip_head i1"
      "length i1 = length iph" "total i1 = total iph + uint sz" "ip_view i1 = (ip_view iph)\<lparr>if_len := if_len (ip_view i1)\<rparr>"
    using add_path_ok [OF k d(1,2,3) s(3,1,2)] by blast
  let ?s1 = "skb\<lparr>sk_data := i1 @ take (unat sz) path @ pl\<rparr>"
  have d1: "sk_data ?s1 = i1 @ take (unat sz) path @ pl" and l: "length (take (unat sz) path) = unat sz" using s(2) by simp_all
  have "uint sz < 2 ^ 16" using s(3) by linarith
  then have "unat sz < 2 ^ 16" by (simp add: nat_less_iff flip: nat_uint_eq)
  moreover have "length iph + length pl < 2 ^ 16"
  proof -
    have "0 \<le> uint sz" by simp
    with s(3) have "int (length iph + length pl) < 2 ^ 16" by linarith
    then have "int (length iph + length pl) < int (2 ^ 16)" by simp
    then show ?thesis by (simp only: of_nat_less_iff)
  qed
  ultimately have ln: "length (sk_data ?s1) < 2 ^ 32" using a(3) s(2) by (simp add: min_def)
  have "uint sz \<le> total i1" using a(4) d(3) by simp
  from remove_path_ok [OF k d1 a(2) l this ln] obtain i2 s2 where b: "skb_removePath k ?s1 sz = Some (s2, True)" "sk_data s2 = i2 @ pl"
      "length i2 = length i1" "total i2 = total i1 - uint sz" "ip_view i2 = (ip_view i1)\<lparr>if_len := if_len (ip_view i2)\<rparr>" by blast
  have "htons (if_len (ip_view i2)) = htons (if_len (ip_view iph))"
    using b(4) a(4) by (simp add: total_def word_uint_eq_iff)
  then have "if_len (ip_view i2) = if_len (ip_view iph)" by (metis htons_htons)
  then have "ip_view i2 = ip_view iph" by (subst b(5), subst a(5)) simp
  then show ?thesis using a b by metis
qed

theorem add_remove_path_witness:
  "\<exists>skb1 skb2 iph2. skb_addPath plain_kernel \<lparr>sk_data = sample_ip 32 17 @ sample_udp @ [0, 0, 0], sk_csum = 0\<rparr> [7, 8, 9] 3 =
      Some (skb1, True) \<and> skb_removePath plain_kernel skb1 3 = Some (skb2, True) \<and>
    sk_data skb2 = iph2 @ sample_udp \<and> length iph2 = 20 \<and> ip_view iph2 = ip_view (sample_ip 32 17)"
  using add_remove_path [OF plain_kernel_ok, of "\<lparr>sk_data = sample_ip 32 17 @ sample_udp @ [0, 0, 0], sk_csum = 0\<rparr>"
      "sample_ip 32 17" sample_udp "[0, 0, 0]" 3 "[7, 8, 9]"]
  by (simp add: sample_ip_head sample_total sample_head_length sample_udp_def)

section \<open>Malformed and misdirected paths\<close>

text \<open>
  A datagram with protocol 99 whose routing header announces more hops than the datagram holds makes the hooks read behind the
  end of the packet: the size of the path is taken from the packet and never checked.
\<close>

theorem malformed_path_overread:
  assumes "kernel_ok k" "sk_data skb = iph @ header_bytes h @ rest" "ip_head iph" "int (length rest) < 4 * hops_of h"
  shows "skb_getPath k skb buf = None"
proof -
  let ?a = "length iph"
  have o: "ip_offset (sk_data skb) = Some (int ?a)" using ip_get(1) [OF assms(3)] assms(2) by simp
  have ptr: "kn_pointer k skb (int ?a) (int (length (sk_data skb)) - int ?a)" using kernel_okD(1) [OF assms(1)] assms(2) by simp
  have hb: "get_bytes (sk_data skb) (int ?a) header_size = Some (header_bytes h)"
    unfolding assms(2) by (rule get_bytes_append) (simp_all add: header_size_def)
  have gb: "get_bytes (sk_data skb) (int ?a) (nat (hops_of h * 4 + int header_size)) = None"
    using assms(4) by (simp add: get_bytes_def assms(2) header_size_def)
  have ge: "\<not> int (length (sk_data skb)) - int ?a < 0" "\<not> int (length (sk_data skb)) < int ?a + (int (length (sk_data skb)) - int ?a)"
    using assms(2) by simp_all
  show ?thesis
    unfolding skb_getPath_def Let_def o
    by (simp only: Option.bind.simps ge ptr simp_thms if_False hb header_codec.dec_enc gb)
qed

theorem malformed_path_overread_witness:
  "skb_getPath plain_kernel \<lparr>sk_data = sample_ip 32 99 @ header_bytes (path_header sample_header 2 1) @ [], sk_csum = 0\<rparr>
    (replicate 65536 0) = None"
  by (rule malformed_path_overread [OF plain_kernel_ok _ sample_ip_head])
    (auto simp: path_header_simps)

text \<open>
  A datagram whose path ends at another node is delivered to the local host all the same: \<open>pth_isEndOfPath\<close>
  reports the mismatch with \<open>-1\<close>, which the hook takes for true.
\<close>

theorem foreign_path_delivered:
  assumes "under_way iph h ips (length ips) pl skb" "node_env ips e" "ips \<noteq> []"
    and "rd (t_local_addr s) 0 = Some here" "here \<noteq> last ips"
  shows "pth_isEndOfPath (path_image h ips (length ips) @ rest) s = Some (- 1) \<and>
    (\<exists>iph' pl' skb'. hk_pre_routing_hook e skb s = Some (NF_ACCEPT, skb', [], s) \<and> sk_data skb' = iph' @ pl' \<and>
       same_payload pl pl' \<and> if_proto (ip_view iph') = sh_protocol h)"
proof -
  have one: "1 \<le> length ips" using assms(3) by (simp add: Suc_leI)
  have li: "length ips < 2 ^ 16" using assms(1) by (simp add: under_way_def)
  have "pth_isEndOfPath (path_image h ips (length ips) @ rest) s = Some (- 1)"
    using is_end_image [OF one order_refl li assms(4)] assms(3,5) by (simp add: last_conv_nth)
  moreover obtain iph' pl' skb' where "hk_pre_routing_hook e skb s = Some (NF_ACCEPT, skb', [], s)" "sk_data skb' = iph' @ pl'"
      "same_payload pl pl'" and
      v: "ip_view iph' = (ip_view iph)\<lparr>if_len := if_len (ip_view iph'), if_proto := sh_protocol h, if_src := sh_first_node h\<rparr>"
    using hop_deliver [OF assms(1,2) one refl assms(4)] by blast
  moreover have "if_proto (ip_view iph') = sh_protocol h" by (subst v) simp
  ultimately show ?thesis by blast
qed

definition sample_under_way :: sk_buff where
  "sample_under_way = \<lparr>sk_data = sample_ip 48 99 @ path_image sample_header [ip_c] 1 @ sample_udp, sk_csum = 0\<rparr>"

lemma sample_under_way: "under_way (sample_ip 48 99) sample_header [ip_c] 1 sample_udp sample_under_way"
  by (simp add: under_way_def sample_under_way_def sample_ip_head sample_ip_view sample_total sereadmo_protocol_def
      sample_udp_def length_path_image sample_head_length)

theorem foreign_path_delivered_witness:
  "pth_isEndOfPath (path_image sample_header [ip_c] (length [ip_c]) @ []) (store_at ip_b ip_a) = Some (- 1) \<and>
    (\<exists>iph' pl' skb'. hk_pre_routing_hook sample_env sample_under_way (store_at ip_b ip_a) =
       Some (NF_ACCEPT, skb', [], store_at ip_b ip_a) \<and> sk_data skb' = iph' @ pl' \<and>
       same_payload sample_udp pl' \<and> if_proto (ip_view iph') = sh_protocol sample_header)"
  by (rule foreign_path_delivered [where here = ip_b])
    (use sample_under_way in \<open>simp_all add: sample_node_env store_at_def rd_def ip_b_def ip_c_def\<close>)

text \<open>
  Route recovery damages the datagram: the new path, which starts with its own header, is written behind the old header, so the
  next node still reads the old header and the first twelve bytes of the payload are lost (stated for a new path of the same size).
\<close>

theorem recovery_misplaces_path:
  assumes k: "kernel_ok k" and d: "sk_data skb = iph @ header_bytes h0 @ olds @ pl" "ip_head iph"
    and s: "unat sz = 12 + length olds" "12 \<le> length pl" "unat sz \<le> length path"
    and t: "total iph = int (length (sk_data skb))"
  shows "\<exists>iph'. skb_replacePath k skb path sz sz =
    Some (skb\<lparr>sk_data := iph' @ header_bytes h0 @ take (unat sz) path @ drop 12 pl\<rparr>, True) \<and> length iph' = length iph"
proof -
  let ?a = "length iph" and ?n = "unat sz"
  have o: "ip_offset (sk_data skb) = Some (int ?a)" using ip_get(1) [OF d(2)] d(1) by simp
  have tl: "ip_tot_len (iph @ r) = Some (if_len (ip_view iph))" for r by (rule ip_get(2) [OF d(2)])
  have req: "uint (htons (if_len (ip_view iph))) - int ?a - int header_size = int (length olds + length pl)"
    using t d(1) by (simp add: total_def header_size_def)
  have ptr: "kn_pointer k skb (int ?a + int header_size) (int (length olds + length pl))"
    using kernel_okD(1) [OF k] d(1) by (simp add: header_size_def)
  have split: "sk_data skb = (iph @ header_bytes h0) @ (olds @ take 12 pl) @ drop 12 pl" using d(1) by simp
  have l12: "length (iph @ header_bytes h0) = ?a + header_size" by (simp add: header_size_def)
  have l: "length (olds @ take 12 pl) = length (take ?n path)" using s by simp
  have pb: "put_bytes (sk_data skb) (int ?a + int header_size) (take ?n path) =
      Some ((iph @ header_bytes h0) @ take ?n path @ drop 12 pl)"
    unfolding split of_nat_add [symmetric] by (rule put_bytes_append [OF l12 l])
  obtain iph' where iph': "set_tot_len (htons (htons (if_len (ip_view iph)) + ucast (sz - sz)))
      (iph @ header_bytes h0 @ take ?n path @ drop 12 pl) = Some (iph' @ header_bytes h0 @ take ?n path @ drop 12 pl)"
      "length iph' = length iph" using ip_set(1) [OF d(2)] by blast
  have "skb_replacePath k skb path sz sz = Some (skb\<lparr>sk_data := iph' @ header_bytes h0 @ take ?n path @ drop 12 pl\<rparr>, True)"
    unfolding skb_replacePath_def Let_def o
    using pb get_take [OF s(3)] iph'(1) tl ptr d(1)
    by (simp only: req Option.bind.simps tl) (simp add: tl [unfolded append_assoc])
  then show ?thesis using iph'(2) by blast
qed

theorem recovery_misplaces_path_witness:
  "\<exists>iph'. skb_replacePath plain_kernel \<lparr>sk_data = sample_ip 48 99 @ header_bytes sample_header @ le32 ip_c @ sample_udp, sk_csum = 0\<rparr>
      (path_image sample_header [ip_b] 1) 16 16 =
    Some (\<lparr>sk_data = sample_ip 48 99 @ header_bytes sample_header @ le32 ip_c @ sample_udp, sk_csum = 0\<rparr>
      \<lparr>sk_data := iph' @ header_bytes sample_header @ take (unat (16 :: ulong)) (path_image sample_header [ip_b] 1) @ drop 12 sample_udp\<rparr>, True) \<and>
    length iph' = length (sample_ip 48 99)"
  by (rule recovery_misplaces_path [OF plain_kernel_ok, where olds = "le32 ip_c"])
    (simp_all add: sample_ip_head sample_udp_def length_path_image sample_total sample_head_length)

section \<open>The module\<close>

text \<open>
  When the second or third hook cannot be registered, loading fails but leaves the first hook registered, although the module is
  gone (the clean-up loop stops before index 0).
\<close>

theorem failed_load_leaves_hook:
  assumes "0 \<le> reg 0" "reg 1 < 0 \<or> reg 2 < 0" "0 \<le> major" "md_hooks m = []"
  shows "fst (ser_iptables_init_module dev True major reg m) < 0 \<and> md_hooks (snd (ser_iptables_init_module dev True major reg m)) = [0]"
  using assms
  by (auto simp: ser_iptables_init_module_def dev_init_device_def hook_count_def unregister_after_failure_def
      Let_def upt_rec numeral_3_eq_3 numeral_2_eq_2)

definition unloaded :: module_state where
  "unloaded = \<lparr>md_hooks = [], md_major = 0, md_store = tc_empty\<rparr>"

theorem failed_load_leaves_hook_witness:
  "fst (ser_iptables_init_module True True 250 (\<lambda>i. if i = 2 then - 12 else 0) unloaded) < 0 \<and>
    md_hooks (snd (ser_iptables_init_module True True 250 (\<lambda>i. if i = 2 then - 12 else 0) unloaded)) = [0]"
  by (rule failed_load_leaves_hook) (simp_all add: unloaded_def)

text \<open>A successful load registers all three hooks and the device; unloading afterwards removes everything again.\<close>

theorem load_unload:
  assumes "\<And>i. 0 \<le> reg i" "0 < major" "md_store m = tc_empty" "md_hooks m = []"
  shows "let (ret, m') = ser_iptables_init_module True True major reg m in
    0 \<le> ret \<and> md_hooks m' = [0, 1, 2] \<and> md_major m' = major \<and>
    (\<exists>m''. ser_iptables_exit_module True True m' = Some m'' \<and> md_hooks m'' = [] \<and> md_major m'' = 0 \<and> md_store m'' = tc_empty)"
proof -
  have r: "\<not> reg i < 0" for i using assms(1) [of i] by simp
  have e: "tc_init_data tc_empty = tc_empty" by (simp add: tc_init_data_def tc_empty_def)
  have f: "tc_free_data tc_empty = Some tc_empty" by (simp add: tc_free_data_def tc_empty_def)
  show ?thesis
    using assms r e f
    by (simp add: ser_iptables_init_module_def ser_iptables_exit_module_def dev_init_device_def dev_cleanup_device_def
        hook_count_def upt_rec numeral_3_eq_3 Let_def)
qed

theorem load_unload_witness:
  "let (ret, m') = ser_iptables_init_module True True 250 (\<lambda>_. 0) unloaded in
    0 \<le> ret \<and> md_hooks m' = [0, 1, 2] \<and> md_major m' = 250 \<and>
    (\<exists>m''. ser_iptables_exit_module True True m' = Some m'' \<and> md_hooks m'' = [] \<and> md_major m'' = 0 \<and> md_store m'' = tc_empty)"
  by (rule load_unload) (simp_all add: unloaded_def)

end
