(* ===== verification/Duplicate_Set.thy ===== *)
theory Duplicate_Set imports Prelude_MPOLSR begin

text \<open>
  The duplicate set of the OLSR daemon (\<open>duplicate_set.c\<close>): for every originator the highest sequence number
  seen and a bitmap of the 32 numbers up to it, which decide whether a received message is processed. The
  tree of the entries is a map from addresses, because it is only searched, extended and walked through.
  The theory compares the bitmap with a reference that remembers unbounded numbers in a set.
\<close>

section \<open>The entries and the test\<close>

type_synonym clock = "32 word"

record dup_entry =
  du_ip :: ip_addr
  du_seqnr :: u16
  du_too_low :: u16
  du_array :: "32 word"
  du_valid_until :: clock

type_synonym dup_set = "ip_addr \<rightharpoonup> dup_entry"

definition olsr_create_duplicate_entry :: "ip_addr \<Rightarrow> u16 \<Rightarrow> dup_entry" where
  "olsr_create_duplicate_entry ip seqnr =
     \<lparr>du_ip = ip, du_seqnr = seqnr, du_too_low = 0, du_array = 0, du_valid_until = 0\<rparr>"

definition get_timestamp :: "nat \<Rightarrow> nat \<Rightarrow> clock \<Rightarrow> clock" where
  "get_timestamp tick_divider ms now = now + of_nat (ms div tick_divider)"

definition timed_out :: "clock \<Rightarrow> clock \<Rightarrow> bool" where
  "timed_out now t \<longleftrightarrow> sint (t - now) < 0"

definition duplicate_vtime :: nat where "duplicate_vtime = 120000"

definition seq_diff :: "u16 \<Rightarrow> u16 \<Rightarrow> int" where
  "seq_diff seqnr entry_seqnr =
     (let diff = uint seqnr - uint entry_seqnr in if diff > 2 ^ 15 then diff - 2 ^ 16 else diff)"

text \<open>The decision for an entry that exists already, and the entry afterwards.\<close>

definition judge :: "u16 \<Rightarrow> dup_entry \<Rightarrow> dup_entry \<times> bool" where
  "judge seqnr e =
     (let diff = seq_diff seqnr (du_seqnr e) in
      if diff < -31 then
        (let e = e\<lparr>du_too_low := du_too_low e + 1\<rparr> in
         if du_too_low e > 16 then (e\<lparr>du_too_low := 0, du_seqnr := seqnr, du_array := 1\<rparr>, True) else (e, False))
      else
        (let e = e\<lparr>du_too_low := 0\<rparr> in
         if diff \<le> 0 then
           (let bitmask = push_bit (nat (- diff)) 1 in
            if du_array e AND bitmask \<noteq> 0 then (e, False) else (e\<lparr>du_array := du_array e OR bitmask\<rparr>, True))
         else
           (let e = (if diff < 32 then e\<lparr>du_array := push_bit (nat diff) (du_array e)\<rparr> else e\<lparr>du_array := 0\<rparr>)
            in (e\<lparr>du_array := du_array e OR 1, du_seqnr := seqnr\<rparr>, True))))"

definition olsr_shall_process_message :: "nat \<Rightarrow> clock \<Rightarrow> ip_addr \<Rightarrow> u16 \<Rightarrow> dup_set \<Rightarrow> dup_set \<times> bool" where
  "olsr_shall_process_message tick_divider now ip seqnr ds =
     (let valid_until = get_timestamp tick_divider duplicate_vtime now in
      case ds ip of
        None \<Rightarrow> (ds(ip \<mapsto> (olsr_create_duplicate_entry ip seqnr)\<lparr>du_valid_until := valid_until\<rparr>), True)
      | Some e \<Rightarrow>
          (let e = (if sint valid_until > sint (du_valid_until e) then e\<lparr>du_valid_until := valid_until\<rparr> else e);
               (e, res) = judge seqnr e
           in (ds(ip \<mapsto> e), res)))"

definition olsr_cleanup_duplicate_entry :: "clock \<Rightarrow> dup_set \<Rightarrow> dup_set" where
  "olsr_cleanup_duplicate_entry now ds =
     (\<lambda>ip. case ds ip of None \<Rightarrow> None | Some e \<Rightarrow> if timed_out now (du_valid_until e) then None else Some e)"

text \<open>The verdicts on a sequence of messages, each with its arrival time and originator.\<close>

fun verdicts :: "nat \<Rightarrow> (clock \<times> ip_addr \<times> u16) list \<Rightarrow> dup_set \<Rightarrow> bool list" where
  "verdicts td [] ds = []"
| "verdicts td ((now, ip, n) # ms) ds =
     (let (ds, res) = olsr_shall_process_message td now ip n ds in res # verdicts td ms ds)"

section \<open>The reference\<close>

text \<open>
  The reference counts without wrap-around and keeps the set of all numbers it has processed. It refuses a
  number that was processed or lies more than 31 below the highest one, and starts
  again after 17 such numbers in a row.
\<close>

record window =
  w_top :: int
  w_seen :: "int set"
  w_low :: nat

definition w_judge :: "int \<Rightarrow> window \<Rightarrow> window \<times> bool" where
  "w_judge n w =
     (if n < w_top w - 31 then
        (if w_low w \<ge> 16 then (\<lparr>w_top = n, w_seen = {n}, w_low = 0\<rparr>, True) else (w\<lparr>w_low := w_low w + 1\<rparr>, False))
      else if n \<in> w_seen w then (w\<lparr>w_low := 0\<rparr>, False)
      else (\<lparr>w_top = max n (w_top w), w_seen = insert n (w_seen w), w_low = 0\<rparr>, True))"

definition w_first :: "int \<Rightarrow> window" where
  "w_first n = \<lparr>w_top = n, w_seen = {}, w_low = 0\<rparr>"

fun w_verdicts :: "(ip_addr \<times> int) list \<Rightarrow> (ip_addr \<rightharpoonup> window) \<Rightarrow> bool list" where
  "w_verdicts [] ws = []"
| "w_verdicts ((ip, n) # ms) ws =
     (case ws ip of
        None \<Rightarrow> True # w_verdicts ms (ws(ip \<mapsto> w_first n))
      | Some w \<Rightarrow> let (w, res) = w_judge n w in res # w_verdicts ms (ws(ip \<mapsto> w)))"

text \<open>
  What the sequence numbers of an originator must satisfy: less than half of the number space away from the
  highest one, and not past the next multiple of \<open>2 ^ 16\<close>.
\<close>

definition near :: "int \<Rightarrow> window \<Rightarrow> bool" where
  "near n w \<longleftrightarrow> w_top w - 2 ^ 15 < n \<and> n < w_top w + 2 ^ 15 \<and> n div 2 ^ 16 \<le> w_top w div 2 ^ 16"

fun all_near :: "(ip_addr \<times> int) list \<Rightarrow> (ip_addr \<rightharpoonup> window) \<Rightarrow> bool" where
  "all_near [] ws = True"
| "all_near ((ip, n) # ms) ws =
     (case ws ip of
        None \<Rightarrow> all_near ms (ws(ip \<mapsto> w_first n))
      | Some w \<Rightarrow> near n w \<and> all_near ms (ws(ip \<mapsto> fst (w_judge n w))))"

section \<open>The coupling of bitmap and set\<close>

definition coupled :: "dup_entry \<Rightarrow> window \<Rightarrow> bool" where
  "coupled e w \<longleftrightarrow>
     du_seqnr e = word_of_int (w_top w) \<and> unat (du_too_low e) = w_low w \<and> w_low w \<le> 16 \<and>
     (\<forall>m \<in> w_seen w. m \<le> w_top w) \<and>
     (\<forall>k < 32. bit (du_array e) k \<longleftrightarrow> w_top w - int k \<in> w_seen w)"

lemma seq_diff_near:
  assumes "near n w"
  shows "seq_diff (word_of_int n) (word_of_int (w_top w)) = n - w_top w"
proof -
  define a b where "a = n mod 65536" and "b = w_top w mod 65536"
  define q r where "q = n div 65536" and "r = w_top w div 65536"
  have n: "n = 65536 * q + a" "w_top w = 65536 * r + b" by (simp_all add: a_def b_def q_def r_def)
  have ab: "0 \<le> a" "a < 65536" "0 \<le> b" "b < 65536" by (simp_all add: a_def b_def)
  have near: "65536 * r + b - 32768 < 65536 * q + a" "q \<le> r" "65536 * q + a < 65536 * r + b + 32768"
    using assms n ab by (auto simp: near_def)
  have uints: "uint (word_of_int n :: u16) = a" "uint (word_of_int (w_top w) :: u16) = b"
    by (simp_all add: uint_word_of_int a_def b_def)
  have sd: "seq_diff (word_of_int n) (word_of_int (w_top w)) = (if a - b > 32768 then a - b - 65536 else a - b)"
    unfolding seq_diff_def Let_def uints by simp
  have "q = r \<or> q = r - 1" using near ab by linarith
  then show ?thesis
  proof
    assume "q = r"
    then show ?thesis using near ab n unfolding sd by simp
  next
    assume qr: "q = r - 1"
    then have "a - b > 32768" using near(1) by simp
    then show ?thesis using n qr unfolding sd by simp
  qed
qed

lemma bit_mask_test: "k < 32 \<Longrightarrow> (a :: 32 word) AND push_bit k 1 \<noteq> 0 \<longleftrightarrow> bit a k"
proof -
  assume k: "k < 32"
  have "bit (a AND push_bit k 1) j \<longleftrightarrow> j = k \<and> bit a k" for j
    using k by (auto simp: bit_simps)
  then show ?thesis by (metis bit_0_eq bot_apply bot_bool_def bit_eq_iff)
qed

lemma coupled_first:
  "coupled ((olsr_create_duplicate_entry ip (word_of_int n))\<lparr>du_valid_until := t\<rparr>) (w_first n)"
  by (simp add: coupled_def olsr_create_duplicate_entry_def w_first_def)

lemma coupled_valid [simp]: "coupled (e\<lparr>du_valid_until := t\<rparr>) w = coupled e w"
  by (simp add: coupled_def)

lemma too_low_succ: "unat (c :: u16) \<le> 16 \<Longrightarrow> unat (c + 1) = unat c + 1"
  by (simp add: unat_word_ariths)

lemma coupled_judge:
  assumes c: "coupled e w" and n: "near n w"
  shows "coupled (fst (judge (word_of_int n) e)) (fst (w_judge n w)) \<and>
    snd (judge (word_of_int n) e) = snd (w_judge n w)"
proof -
  have e: "du_seqnr e = word_of_int (w_top w)" "unat (du_too_low e) = w_low w" "w_low w \<le> 16"
    "\<And>m. m \<in> w_seen w \<Longrightarrow> m \<le> w_top w"
    "\<And>k. k < 32 \<Longrightarrow> bit (du_array e) k \<longleftrightarrow> w_top w - int k \<in> w_seen w"
    using c by (auto simp: coupled_def)
  have diff: "seq_diff (word_of_int n) (du_seqnr e) = n - w_top w"
    using seq_diff_near [OF n] e(1) by simp
  have low: "unat (du_too_low e + 1) = w_low w + 1" using too_low_succ e(2,3) by simp
  consider "n < w_top w - 31" | "w_top w - 31 \<le> n" "n \<le> w_top w" | "w_top w < n" by linarith
  then show ?thesis
  proof cases
    case 1
    have "du_too_low e + 1 > 16 \<longleftrightarrow> w_low w \<ge> 16" using low by (simp add: word_less_nat_alt) linarith
    then show ?thesis using 1 e low diff
      by (auto simp: judge_def w_judge_def Let_def coupled_def bit_simps)
  next
    case 2
    define k where "k = nat (w_top w - n)"
    have k: "k < 32" "w_top w - int k = n" using 2 by (auto simp: k_def)
    have neg: "nat (- (n - w_top w)) = k" by (simp add: k_def)
    have test: "du_array e AND push_bit k 1 \<noteq> 0 \<longleftrightarrow> n \<in> w_seen w"
      using bit_mask_test [OF k(1)] e(5) [OF k(1)] k(2) by simp
    have j: "judge (word_of_int n) e = (if n \<in> w_seen w then (e\<lparr>du_too_low := 0\<rparr>, False)
        else (e\<lparr>du_too_low := 0, du_array := du_array e OR push_bit k 1\<rparr>, True))"
      using 2 by (simp only: judge_def Let_def diff neg test [symmetric]) simp
    have w: "w_judge n w = (if n \<in> w_seen w then (w\<lparr>w_low := 0\<rparr>, False)
        else (\<lparr>w_top = w_top w, w_seen = insert n (w_seen w), w_low = 0\<rparr>, True))"
      using 2 by (simp add: w_judge_def)
    have "bit (du_array e OR push_bit k 1) j \<longleftrightarrow> w_top w - int j \<in> insert n (w_seen w)" if "j < 32" for j
    proof -
      have "j = k \<longleftrightarrow> w_top w - int j = n" using k(2) by auto
      then show ?thesis using e(5) [OF that] that by (auto simp: bit_simps)
    qed
    then show ?thesis using e 2(2) unfolding j w by (simp add: coupled_def)
  next
    case 3
    define k where "k = nat (n - w_top w)"
    define arr where "arr = (if k < 32 then push_bit k (du_array e) else 0) OR (1 :: 32 word)"
    have k: "0 < k" "n = w_top w + int k" using 3 by (auto simp: k_def)
    have new: "n \<notin> w_seen w" using e(4) 3 by fastforce
    have "bit arr j \<longleftrightarrow> n - int j \<in> insert n (w_seen w)" if j: "j < 32" for j
    proof (cases "k \<le> j")
      case True
      then have "n - int j = w_top w - int (j - k)" "n - int j \<noteq> n" using k by auto
      moreover have "bit arr j \<longleftrightarrow> bit (du_array e) (j - k)"
        using True k(1) j by (auto simp: arr_def bit_simps)
      ultimately show ?thesis using j e(5) [of "j - k"] by simp
    next
      case False
      then have "w_top w < n - int j" using k(2) by simp
      then have "n - int j \<notin> w_seen w" using e(4) by fastforce
      then show ?thesis using False j by (auto simp: arr_def bit_simps)
    qed
    moreover have "fst (judge (word_of_int n) e) = e\<lparr>du_too_low := 0, du_array := arr, du_seqnr := word_of_int n\<rparr>"
      "snd (judge (word_of_int n) e)"
      using 3 diff by (auto simp: judge_def Let_def arr_def k_def)
    moreover have "w_judge n w = (\<lparr>w_top = n, w_seen = insert n (w_seen w), w_low = 0\<rparr>, True)"
      using 3 new by (simp add: w_judge_def)
    ultimately show ?thesis using e(4) 3 by (fastforce simp: coupled_def)
  qed
qed

text \<open>The sets of entries and windows of all originators.\<close>

definition all_coupled :: "dup_set \<Rightarrow> (ip_addr \<rightharpoonup> window) \<Rightarrow> bool" where
  "all_coupled ds ws \<longleftrightarrow> (\<forall>ip. rel_option coupled (ds ip) (ws ip))"

lemma all_coupled_upd: "all_coupled ds ws \<Longrightarrow> coupled e w \<Longrightarrow> all_coupled (ds(ip \<mapsto> e)) (ws(ip \<mapsto> w))"
  by (simp add: all_coupled_def)

lemma verdicts_coupled:
  assumes "all_coupled ds ws" "all_near (map snd ms) ws"
  shows "verdicts td (map (\<lambda>(t, ip, n). (t, ip, word_of_int n)) ms) ds = w_verdicts (map snd ms) ws"
  using assms
proof (induction ms arbitrary: ds ws)
  case Nil
  then show ?case by simp
next
  case (Cons m ms)
  obtain t ip n where m: "m = (t, ip, n)" by (cases m) auto
  have rel: "rel_option coupled (ds ip) (ws ip)" using Cons.prems(1) by (simp add: all_coupled_def)
  show ?case
  proof (cases "ws ip")
    case None
    then have "ds ip = None" using rel by simp
    moreover have "all_near (map snd ms) (ws(ip \<mapsto> w_first n))" using Cons.prems(2) None by (simp add: m)
    note Cons.IH [OF all_coupled_upd [OF Cons.prems(1) coupled_first [where ip = ip and n = n and t = "get_timestamp td duplicate_vtime t"]] this]
    ultimately show ?thesis using None
      by (simp add: m olsr_shall_process_message_def Let_def del: fun_upd_apply)
  next
    case (Some w)
    then obtain e where e: "ds ip = Some e" "coupled e w" using rel by (auto simp: option_rel_Some2)
    let ?v = "get_timestamp td duplicate_vtime t"
    define e' where "e' = (if sint ?v > sint (du_valid_until e) then e\<lparr>du_valid_until := ?v\<rparr> else e)"
    have e': "coupled e' w" using e(2) by (simp add: e'_def)
    have near: "near n w" "all_near (map snd ms) (ws(ip \<mapsto> fst (w_judge n w)))" using Cons.prems(2) Some by (simp_all add: m)
    have "olsr_shall_process_message td t ip (word_of_int n) ds =
        (ds(ip \<mapsto> fst (judge (word_of_int n) e')), snd (judge (word_of_int n) e'))"
      by (simp add: olsr_shall_process_message_def Let_def e(1) e'_def [symmetric] split_beta)
    moreover note coupled_judge [OF e' near(1)]
    ultimately show ?thesis
      using Cons.IH [OF all_coupled_upd [OF Cons.prems(1)] near(2)] Some by (simp add: m split_beta del: fun_upd_apply)
  qed
qed

section \<open>What the window guarantees\<close>

text \<open>No number starts the window of an originator again.\<close>

fun no_restart :: "int list \<Rightarrow> window \<Rightarrow> bool" where
  "no_restart [] w = True"
| "no_restart (n # ns) w = (\<not> (n < w_top w - 31 \<and> w_low w \<ge> 16) \<and> no_restart ns (fst (w_judge n w)))"

definition processed :: "'a list \<Rightarrow> bool list \<Rightarrow> 'a list" where
  "processed ns vs = map fst (filter snd (zip ns vs))"

lemma processed_simps [simp]:
  "processed [] vs = []" "processed (n # ns) (v # vs) = (if v then n # processed ns vs else processed ns vs)"
  by (simp_all add: processed_def)

lemma processed_fresh:
  assumes "no_restart ns w" "ws ip = Some w"
  shows "distinct (processed ns (w_verdicts (map (Pair ip) ns) ws)) \<and>
    set (processed ns (w_verdicts (map (Pair ip) ns) ws)) \<inter> w_seen w = {}"
  using assms
proof (induction ns arbitrary: w ws)
  case Nil
  then show ?case by simp
next
  case (Cons n ns)
  let ?w = "fst (w_judge n w)"
  have IH: "distinct (processed ns (w_verdicts (map (Pair ip) ns) (ws(ip \<mapsto> ?w)))) \<and>
    set (processed ns (w_verdicts (map (Pair ip) ns) (ws(ip \<mapsto> ?w)))) \<inter> w_seen ?w = {}"
    by (rule Cons.IH) (use Cons.prems in auto)
  have "w_seen ?w = (if snd (w_judge n w) then insert n (w_seen w) else w_seen w)"
    "snd (w_judge n w) \<Longrightarrow> n \<notin> w_seen w"
    using Cons.prems(1) by (auto simp: w_judge_def split: if_splits)
  then show ?case using IH Cons.prems(2) by (auto simp: split_beta split: if_splits)
qed

text \<open>Numbers that lie past the wrap-around are all taken for old ones.\<close>

lemma judge_wrapped:
  assumes "seq_diff n (du_seqnr e) < -31"
  shows "judge n e = (if du_too_low e + 1 > 16 then (e\<lparr>du_too_low := 0, du_seqnr := n, du_array := 1\<rparr>, True)
    else (e\<lparr>du_too_low := du_too_low e + 1\<rparr>, False))"
  using assms by (simp add: judge_def Let_def)

lemma seq_diff_wrapped:
  assumes "uint s + int d \<ge> 2 ^ 16" "d \<le> 2 ^ 15"
  shows "seq_diff (s + of_nat d) s < -31"
proof -
  have "uint s < 2 ^ 16" using uint_lt2p [of s] by simp
  have "s + of_nat d = word_of_int (uint s + int d)" by simp
  then have "uint (s + of_nat d) = (uint s + int d) mod 2 ^ 16" by (simp only: uint_word_of_int) simp
  also have "\<dots> = uint s + int d - 2 ^ 16"
  proof -
    have "(uint s + int d - 2 ^ 16) mod 2 ^ 16 = uint s + int d - 2 ^ 16"
      by (rule mod_pos_pos_trivial) (use assms \<open>uint s < 2 ^ 16\<close> in simp_all)
    then show ?thesis by (simp only: minus_mod_self2)
  qed
  finally have "uint (s + of_nat d) - uint s = int d - 2 ^ 16" by simp
  then have "seq_diff (s + of_nat d) s = int d - 2 ^ 16"
    unfolding seq_diff_def Let_def using assms(2) by simp
  then show ?thesis using assms(2) by simp
qed

lemma verdicts_wrapped:
  assumes "ds ip = Some e" "unat (du_too_low e) = c" "c + length ms = 17"
    and "\<forall>(t, d) \<in> set ms. seq_diff (s + of_nat d) (du_seqnr e) < -31" "ms \<noteq> []"
  shows "verdicts td (map (\<lambda>(t, d). (t, ip, s + of_nat d)) ms) ds = replicate (length ms - 1) False @ [True]"
  using assms
proof (induction ms arbitrary: ds e c)
  case Nil
  then show ?case by simp
next
  case (Cons m ms)
  obtain t d where m: "m = (t, d)" by (cases m) auto
  let ?v = "get_timestamp td duplicate_vtime t"
  define e' where "e' = (if sint ?v > sint (du_valid_until e) then e\<lparr>du_valid_until := ?v\<rparr> else e)"
  have e': "du_too_low e' = du_too_low e" "du_seqnr e' = du_seqnr e" by (simp_all add: e'_def)
  have step: "olsr_shall_process_message td t ip (s + of_nat d) ds =
      (ds(ip \<mapsto> fst (judge (s + of_nat d) e')), snd (judge (s + of_nat d) e'))"
    by (simp add: olsr_shall_process_message_def Let_def Cons.prems(1) e'_def [symmetric] split_beta)
  have low: "unat (du_too_low e + 1) = c + 1" using too_low_succ [of "du_too_low e"] Cons.prems(2,3) by simp
  have wrapped: "seq_diff (s + of_nat d) (du_seqnr e') < -31" using Cons.prems(4) by (simp add: m e')
  show ?case
  proof (cases ms)
    case Nil
    then have "du_too_low e + 1 > 16" using low Cons.prems(3) by (simp add: word_less_nat_alt)
    then show ?thesis using judge_wrapped [OF wrapped] by (simp add: Nil m step e')
  next
    case (Cons m' ms')
    then have "\<not> du_too_low e + 1 > 16" using low Cons.prems(3) by (simp add: word_less_nat_alt)
    then have j: "judge (s + of_nat d) e' = (e'\<lparr>du_too_low := du_too_low e + 1\<rparr>, False)"
      using judge_wrapped [OF wrapped] by (simp add: e')
    have "verdicts td (map (\<lambda>(t, d). (t, ip, s + of_nat d)) ms) (ds(ip \<mapsto> e'\<lparr>du_too_low := du_too_low e + 1\<rparr>)) =
        replicate (length ms - 1) False @ [True]"
      by (rule Cons.IH [where c = "c + 1"]) (use Cons.prems low e' Cons in auto)
    then show ?thesis by (simp add: m step j Cons)
  qed
qed

section \<open>Properties\<close>


definition sample_messages :: "(clock \<times> ip_addr \<times> int) list" where
  "sample_messages = [(0, 1, 100), (1, 2, 65000), (2, 1, 99), (3, 1, 103), (4, 1, 99), (5, 2, 65001), (6, 1, 40), (7, 1, 102)]"


text \<open>
  After the message that creates the entry of an originator no sequence number is processed twice,
  as long as the numbers stay close to the highest one and do not start the window again.
\<close>

theorem processed_once:
  assumes "all_near (map (Pair ip) (n0 # ns)) Map.empty" "no_restart ns (w_first n0)" "length ts = length ns"
  shows "distinct (processed ns (tl (verdicts td
    (map (\<lambda>(t, n). (t, ip, word_of_int n)) (zip (t0 # ts) (n0 # ns))) Map.empty)))"
proof -
  let ?ms = "map (\<lambda>(t, n). (t, ip, n)) (zip (t0 # ts) (n0 # ns))"
  have "map (snd \<circ> (\<lambda>p. (fst p, ip, snd p))) (zip ts ns) = map (Pair ip) (map snd (zip ts ns))" by simp
  then have ms: "map snd ?ms = map (Pair ip) (n0 # ns)" using assms(3) by (simp add: split_def)
  have "verdicts td (map (\<lambda>(t, ip, n). (t, ip, word_of_int n)) ?ms) Map.empty =
      w_verdicts (map snd ?ms) Map.empty"
    by (rule verdicts_coupled) (use assms(1) ms in \<open>simp_all add: all_coupled_def\<close>)
  then have "tl (verdicts td (map (\<lambda>(t, n). (t, ip, word_of_int n)) (zip (t0 # ts) (n0 # ns))) Map.empty) =
      w_verdicts (map (Pair ip) ns) [ip \<mapsto> w_first n0]"
    unfolding ms by (simp add: o_def split_def)
  then show ?thesis using processed_fresh [OF assms(2), of "[ip \<mapsto> w_first n0]" ip] by simp
qed

theorem processed_once_witness:
  "distinct (processed [7, 9, 8, 7, 9 :: int] (tl (verdicts 10
    (map (\<lambda>(t, n). (t, 5, word_of_int n)) (zip (0 # [1, 2, 3, 4, 5]) (7 # [7, 9, 8, 7, 9]))) Map.empty)))"
  by (rule processed_once) (simp_all add: w_first_def w_judge_def near_def)

text \<open>
  The first message of an originator is processed twice: its number is not entered in the bitmap of the new
  entry, so the second copy is processed as well, and only the third one is refused.
\<close>

theorem first_message_twice:
  assumes "ds ip = None"
  shows "verdicts td [(t1, ip, n), (t2, ip, n), (t3, ip, n)] ds = [True, True, False]"
proof -
  have j: "judge n e = (if bit (du_array e) 0 then (e\<lparr>du_too_low := 0\<rparr>, False)
      else (e\<lparr>du_too_low := 0, du_array := du_array e OR 1\<rparr>, True))" if "du_seqnr e = n" for e
    using that bit_mask_test [of 0 "du_array e"] by (simp add: judge_def seq_diff_def Let_def)
  show ?thesis using assms
    by (simp add: olsr_shall_process_message_def olsr_create_duplicate_entry_def j Let_def bit_simps)
qed

theorem first_message_twice_witness:
  "verdicts 10 [(0, 7, 42), (1, 7, 42), (2, 7, 42)] Map.empty = [True, True, False]"
  by (rule first_message_twice) simp

text \<open>
  When the sequence numbers of an originator wrap around, its next 16 messages are refused although their
  numbers are newer, and only the 17th is processed: the difference of the numbers is corrected in one direction only.
\<close>

theorem wrap_blocks_originator:
  assumes "ds ip = Some e" "du_too_low e = 0" "length ms = 17"
    and "\<forall>(t, d) \<in> set ms. uint (du_seqnr e) + int d \<ge> 2 ^ 16 \<and> d \<le> 2 ^ 15"
  shows "verdicts td (map (\<lambda>(t, d). (t, ip, du_seqnr e + of_nat d)) ms) ds = replicate 16 False @ [True]"
proof -
  have "\<forall>(t, d) \<in> set ms. seq_diff (du_seqnr e + of_nat d) (du_seqnr e) < -31"
    using assms(4) seq_diff_wrapped by fastforce
  moreover have "unat (du_too_low e) = 0" "0 + length ms = 17" "ms \<noteq> []" using assms(2,3) by auto
  ultimately have "verdicts td (map (\<lambda>(t, d). (t, ip, du_seqnr e + of_nat d)) ms) ds =
      replicate (length ms - 1) False @ [True]"
    using assms(1) verdicts_wrapped [where ds = ds and ip = ip and e = e and s = "du_seqnr e" and c = 0 and ms = ms and td = td]
    by blast
  then show ?thesis using assms(3) by simp
qed

definition wrapping_entry :: dup_entry where
  "wrapping_entry = \<lparr>du_ip = 7, du_seqnr = 65535, du_too_low = 0, du_array = 1, du_valid_until = 0\<rparr>"

theorem wrap_blocks_originator_witness:
  "verdicts 10 (map (\<lambda>(t, d). (t, 7, du_seqnr wrapping_entry + of_nat d)) (map (\<lambda>d. (0, d)) [1..<18]))
    [7 \<mapsto> wrapping_entry] = replicate 16 False @ [True]"
  by (rule wrap_blocks_originator) (simp_all add: wrapping_entry_def)

end
