(* ===== verification/Mantissa.thy ===== *)
theory Mantissa imports Prelude_MPOLSR begin

text \<open>
  The 8-bit format for time intervals in OLSR messages (\<open>mantissa.c\<close>): a mantissa of four bits in the high half
  and an exponent of four bits in the low half, with intervals in milliseconds.
\<close>

section \<open>The conversions\<close>

text \<open>The loop \<open>while (u >= (1U << b)) b++\<close>; no interval makes \<open>u\<close> reach \<open>2 ^ 31\<close>, so the shift stays below the width.\<close>

function next_power :: "nat \<Rightarrow> nat \<Rightarrow> nat" where
  "next_power u b = (if u \<ge> 2 ^ b then next_power u (Suc b) else b)"
  by pat_completeness auto
termination
  by (relation "measure (\<lambda>(u, b). Suc u - b)") (auto simp: Suc_diff_le dest: le_trans [OF less_imp_le [OF less_exp]])

declare next_power.simps [simp del]

definition me_of :: "nat \<Rightarrow> nat \<Rightarrow> byte" where
  "me_of a b = push_bit 4 (of_nat a) OR (of_nat b AND 0x0F)"

definition reltime_to_me :: "ulong \<Rightarrow> byte" where
  "reltime_to_me interval =
     (let iv = unat interval;
          unscaled_interval = iv div 125 * 2;
          b = next_power unscaled_interval 0
      in if b = 0 then me_of 1 0
         else let b = b - 1 in
           if b > 15 then me_of 15 15
           else
             let a = (if b \<ge> 5 then (iv - 125 * 2 ^ (b - 1)) div (125 * 2 ^ (b - 5))
                      else (iv - 125 * 2 ^ (b - 1)) * 2 ^ (5 - b) div 125)
             in me_of (a mod 16) (b + a div 16))"

definition me_to_reltime :: "byte \<Rightarrow> ulong" where
  "me_to_reltime me =
     (let a = unat (drop_bit 4 me); b = unat (me AND 0x0F) in
      if b \<ge> 8 then of_nat ((16 + a) * 2 ^ (b - 8) * 1000) else of_nat ((16 + a) * 1000 div 2 ^ (8 - b)))"

section \<open>The intervals of one exponent\<close>

lemma next_power_eq:
  assumes "2 ^ k \<le> u" "u < 2 ^ Suc k" "b \<le> Suc k"
  shows "next_power u b = Suc k"
  using assms
proof (induction "Suc k - b" arbitrary: b)
  case 0
  then have "b = Suc k" by simp
  then show ?case using 0 by (simp add: next_power.simps)
next
  case (Suc n)
  then have "b \<le> k" by simp
  then have "2 ^ b \<le> (2 :: nat) ^ k" by simp
  then have "2 ^ b \<le> u" using Suc.prems(1) by linarith
  then show ?case using Suc by (subst next_power.simps) simp
qed

lemma next_power_ge:
  assumes "2 ^ k \<le> u" "b \<le> k"
  shows "k < next_power u b"
  using assms
proof (induction u b rule: next_power.induct)
  case (1 u b)
  have "2 ^ b \<le> (2 :: nat) ^ k" using 1 by simp
  then have ub: "2 ^ b \<le> u" using 1 by linarith
  show ?case
  proof (cases "b = k")
    case True
    have "Suc k \<le> next_power u (Suc k)" for k
      by (induction u "Suc k" arbitrary: k rule: next_power.induct) (subst next_power.simps, auto intro: Suc_leD)
    then show ?thesis using ub True by (subst next_power.simps) (simp add: Suc_le_eq)
  next
    case False
    then show ?thesis using 1 ub by (subst next_power.simps) simp
  qed
qed

text \<open>Exponent \<open>b\<close> covers the intervals from \<open>125 * 2 ^ (b - 1)\<close> up to its double.\<close>

definition covers :: "nat \<Rightarrow> nat \<Rightarrow> bool" where
  "covers b iv \<longleftrightarrow> 5 \<le> b \<and> b \<le> 15 \<and> 125 * 2 ^ (b - 1) \<le> iv \<and> iv < 125 * 2 ^ b"

lemma covers_unit:
  assumes "covers b iv"
  shows "125 * 2 ^ (b - 1) = 16 * (125 * 2 ^ (b - 5) :: nat)" "125 * 2 ^ b = 32 * (125 * 2 ^ (b - 5) :: nat)"
proof -
  obtain k where "b = k + 5" using assms by (metis covers_def le_add_diff_inverse2)
  then show "125 * 2 ^ (b - 1) = 16 * (125 * 2 ^ (b - 5) :: nat)" "125 * 2 ^ b = 32 * (125 * 2 ^ (b - 5) :: nat)"
    by (simp_all add: power_add)
qed

lemma covers_power:
  assumes "covers b iv"
  shows "next_power (iv div 125 * 2) 0 = Suc b"
proof (rule next_power_eq)
  obtain k where k: "b = Suc k" using assms by (cases b) (simp_all add: covers_def)
  have "2 ^ k \<le> iv div 125"
    using assms k by (simp add: covers_def less_eq_div_iff_mult_less_eq mult.commute)
  then show "2 ^ b \<le> iv div 125 * 2" using k by simp
  have "iv div 125 < 2 ^ b" using assms by (simp add: covers_def div_less_iff_less_mult mult.commute)
  then show "iv div 125 * 2 < 2 ^ Suc b" by simp
qed simp

lemma covers_mantissa:
  assumes "covers b iv"
  shows "(iv - 125 * 2 ^ (b - 1)) div (125 * 2 ^ (b - 5)) = iv div (125 * 2 ^ (b - 5)) - 16"
    "16 \<le> iv div (125 * 2 ^ (b - 5))" "iv div (125 * 2 ^ (b - 5)) < 32"
proof -
  let ?u = "125 * 2 ^ (b - 5) :: nat"
  have u: "0 < ?u" by simp
  have iv: "16 * ?u \<le> iv" "iv < 32 * ?u" using assms covers_unit [OF assms] by (simp_all add: covers_def)
  show "16 \<le> iv div ?u" using iv(1) u by (simp only: less_eq_div_iff_mult_less_eq)
  show "iv div ?u < 32" using iv(2) u by (simp only: div_less_iff_less_mult)
  obtain r where "iv = 16 * ?u + r" using iv(1) le_Suc_ex by blast
  moreover have "(16 * d + r - 16 * d) div d = (16 * d + r) div d - 16" if "0 < d" for d :: nat using that by simp
  ultimately have "(iv - 16 * ?u) div ?u = iv div ?u - 16" using u by blast
  then show "(iv - 125 * 2 ^ (b - 1)) div ?u = iv div ?u - 16" using covers_unit(1) [OF assms] by simp
qed

section \<open>The two halves of the byte\<close>

lemma me_halves:
  assumes "a < 16" "b < 16"
  shows "unat (drop_bit 4 (me_of a b)) = a" "unat (me_of a b AND 0x0F) = b"
proof -
  have "\<forall>a \<in> set [0..<16]. \<forall>b \<in> set [0..<16]. unat (drop_bit 4 (me_of a b)) = a \<and> unat (me_of a b AND 0x0F) = b"
    by code_simp
  then show "unat (drop_bit 4 (me_of a b)) = a" "unat (me_of a b AND 0x0F) = b" using assms by simp_all
qed

lemma me_of_halves: "me_of (unat (drop_bit 4 me)) (unat (me AND 0x0F)) = me"
proof -
  have "\<forall>n \<in> set [0..<256]. me_of (unat (drop_bit 4 (of_nat n :: byte))) (unat ((of_nat n :: byte) AND 0x0F)) = of_nat n"
    by code_simp
  moreover have "unat me \<in> set [0..<256]" using unsigned_less [of me] by simp
  ultimately have "me_of (unat (drop_bit 4 (of_nat (unat me) :: byte))) (unat ((of_nat (unat me) :: byte) AND 0x0F)) =
      of_nat (unat me)" by (rule bspec)
  then show ?thesis by simp
qed

lemma me_to_reltime_of:
  assumes "a < 16" "5 \<le> b" "b < 16"
  shows "me_to_reltime (me_of a b) = of_nat ((16 + a) * (125 * 2 ^ (b - 5)))"
proof (cases "b \<ge> 8")
  case True
  then obtain k where "b = k + 8" by (metis le_add_diff_inverse2)
  then have "(16 + a) * 2 ^ (b - 8) * 1000 = (16 + a) * (125 * 2 ^ (b - 5))" by (simp add: power_add)
  then show ?thesis using me_halves [OF assms(1,3)] True by (simp only: me_to_reltime_def Let_def if_True)
next
  case False
  then have "b \<in> {5, 6, 7}" using assms(2) by auto
  then have "(16 + a) * 1000 div 2 ^ (8 - b) = (16 + a) * (125 * 2 ^ (b - 5))" by auto
  then show ?thesis using me_halves [OF assms(1,3)] False by (simp only: me_to_reltime_def Let_def if_False)
qed

lemma reltime_to_me_covers:
  assumes "covers b (unat interval)"
  shows "reltime_to_me interval = me_of (unat interval div (125 * 2 ^ (b - 5)) - 16) b"
proof -
  let ?a = "unat interval div (125 * 2 ^ (b - 5)) - 16"
  have "?a < 16" using covers_mantissa(2,3) [OF assms] by linarith
  moreover have "5 \<le> b" "\<not> 15 < b" using assms by (simp_all add: covers_def)
  ultimately show ?thesis
    using covers_mantissa(1) [OF assms] by (simp add: reltime_to_me_def Let_def covers_power [OF assms])
qed

lemma covers_exists:
  assumes "2000 \<le> iv" "iv < 4096000"
  obtains b where "covers b iv"
proof -
  consider "iv < 125 * 2 ^ 5" | "125 * 2 ^ 5 \<le> iv" "iv < 125 * 2 ^ 6" | "125 * 2 ^ 6 \<le> iv" "iv < 125 * 2 ^ 7"
    | "125 * 2 ^ 7 \<le> iv" "iv < 125 * 2 ^ 8" | "125 * 2 ^ 8 \<le> iv" "iv < 125 * 2 ^ 9"
    | "125 * 2 ^ 9 \<le> iv" "iv < 125 * 2 ^ 10" | "125 * 2 ^ 10 \<le> iv" "iv < 125 * 2 ^ 11"
    | "125 * 2 ^ 11 \<le> iv" "iv < 125 * 2 ^ 12" | "125 * 2 ^ 12 \<le> iv" "iv < 125 * 2 ^ 13"
    | "125 * 2 ^ 13 \<le> iv" "iv < 125 * 2 ^ 14" | "125 * 2 ^ 14 \<le> iv" "iv < 125 * 2 ^ 15"
    using assms(2) by (simp only: not_less [symmetric]) force
  then show ?thesis
    by cases (use assms(1) that [of 5] that [of 6] that [of 7] that [of 8] that [of 9] that [of 10] that [of 11]
      that [of 12] that [of 13] that [of 14] that [of 15] in \<open>simp_all add: covers_def\<close>)
qed

section \<open>Properties\<close>

text \<open>
  Every code with an exponent of at least 5, that is every interval from two seconds on, survives decoding and
  encoding unchanged.
\<close>

theorem me_roundtrip:
  assumes "5 \<le> unat (me AND 0x0F)"
  shows "reltime_to_me (me_to_reltime me) = me"
proof -
  define a b where "a = unat (drop_bit 4 me)" and "b = unat (me AND 0x0F)"
  have ab: "a < 16" "b < 16"
  proof -
    have "unat me div 16 < 16" using unsigned_less [of me] by (simp add: div_less_iff_less_mult)
    then show "a < 16" by (simp only: a_def unat_drop_bit_eq) (simp add: drop_bit_eq_div)
    have "me AND 0x0F \<le> 15" by (rule word_and_le1)
    then show "b < 16" by (simp add: b_def word_le_nat_alt)
  qed
  let ?iv = "(16 + a) * (125 * 2 ^ (b - 5)) :: nat"
  have b5: "5 \<le> b" using assms by (simp add: b_def)
  have me: "me = me_of a b" by (simp add: a_def b_def me_of_halves)
  have u: "125 * 2 ^ (b - 1) = 16 * (125 * 2 ^ (b - 5) :: nat)" "125 * 2 ^ b = 32 * (125 * 2 ^ (b - 5) :: nat)"
  proof -
    obtain k where "b = k + 5" using b5 by (metis le_add_diff_inverse2)
    then show "125 * 2 ^ (b - 1) = 16 * (125 * 2 ^ (b - 5) :: nat)" "125 * 2 ^ b = 32 * (125 * 2 ^ (b - 5) :: nat)"
      by (simp_all add: power_add)
  qed
  have "16 * (125 * 2 ^ (b - 5)) \<le> ?iv" "?iv < 32 * (125 * 2 ^ (b - 5))"
    using ab(1) by (simp_all only: mult_le_mono1 mult_less_cancel2) simp_all
  then have cov: "covers b ?iv" using ab b5 by (simp only: covers_def u) simp
  have "(2 :: nat) ^ (b - 5) \<le> 2 ^ 10" using ab by (intro power_increasing) auto
  then have "?iv \<le> 31 * (125 * 2 ^ 10)" using ab(1) by (intro mult_le_mono) auto
  then have "unat (of_nat ?iv :: ulong) = ?iv" by (intro unat_small) simp
  moreover have "?iv div (125 * 2 ^ (b - 5)) = 16 + a" by simp
  ultimately show ?thesis
    using reltime_to_me_covers [of b "of_nat ?iv"] cov me me_to_reltime_of [OF ab(1) b5 ab(2)] by simp
qed

theorem me_roundtrip_witness: "reltime_to_me (me_to_reltime 0x86) = 0x86"
  by (rule me_roundtrip) simp

text \<open>
  An interval of at least two seconds is never lengthened by the format, and shortened by less than a
  sixteenth; from 4096 seconds on it becomes 3968 seconds.
\<close>

theorem me_precision:
  assumes "2000 \<le> unat interval"
  shows "if unat interval < 4096000
    then unat (me_to_reltime (reltime_to_me interval)) \<le> unat interval \<and>
      16 * (unat interval - unat (me_to_reltime (reltime_to_me interval))) < unat interval
    else me_to_reltime (reltime_to_me interval) = 3968000"
proof (cases "unat interval < 4096000")
  case True
  obtain b where b: "covers b (unat interval)" using covers_exists [OF assms True] by blast
  define u q where "u = (125 * 2 ^ (b - 5) :: nat)" and "q = unat interval div u"
  have q: "16 \<le> q" "q < 32" using covers_mantissa(2,3) [OF b] by (simp_all add: q_def u_def)
  have "me_to_reltime (reltime_to_me interval) = of_nat ((16 + (q - 16)) * u)"
    unfolding reltime_to_me_covers [OF b] u_def [symmetric] q_def [symmetric]
    unfolding u_def by (rule me_to_reltime_of) (use b q in \<open>auto simp: covers_def\<close>)
  then have t: "me_to_reltime (reltime_to_me interval) = of_nat (q * u)" using q(1) by simp
  have le: "q * u \<le> unat interval" by (simp add: q_def)
  have u0: "0 < u" by (simp add: u_def)
  have "q * u < 2 ^ 32" using le True by simp
  then have "unat (me_to_reltime (reltime_to_me interval)) = q * u" unfolding t by (rule unat_small)
  moreover have "unat interval - q * u < u" using u0 by (simp add: q_def minus_div_mult_eq_mod)
  then have "16 * (unat interval - q * u) < 16 * u" by simp
  moreover have "16 * u \<le> q * u" using q(1) by simp
  ultimately show ?thesis using True le by (simp only: if_True simp_thms)
next
  case False
  have "2 ^ 15 \<le> unat interval div 125" using False by (simp add: less_eq_div_iff_mult_less_eq)
  then have "16 < next_power (unat interval div 125 * 2) 0" by (intro next_power_ge) simp_all
  then have "next_power (unat interval div 125 * 2) 0 \<noteq> 0" "15 < next_power (unat interval div 125 * 2) 0 - 1" by linarith+
  then have "reltime_to_me interval = me_of 15 15" by (simp add: reltime_to_me_def Let_def)
  then show ?thesis using False me_to_reltime_of [of 15 15] by simp
qed

theorem me_precision_witness:
  "if unat (15000 :: ulong) < 4096000
    then unat (me_to_reltime (reltime_to_me 15000)) \<le> unat (15000 :: ulong) \<and>
      16 * (unat (15000 :: ulong) - unat (me_to_reltime (reltime_to_me 15000))) < unat (15000 :: ulong)
    else me_to_reltime (reltime_to_me 15000) = 3968000"
  by (rule me_precision) simp

end
