(* ===== verification/Ip_Calc.thy ===== *)
theory Ip_Calc imports Prelude_MPOLSR begin

text \<open>
  Addresses of the OLSR daemon: network masks (\<open>ipcalc.c\<close>) and the hash of an address (\<open>hashing.c\<close>). An address
  of version 4 is the word \<open>s_addr\<close>, whose bytes in memory are in network order; \<open>le32\<close> gives these bytes.
\<close>

section \<open>Prefix lengths and network masks\<close>

text \<open>The mask as the bytes written into a buffer of \<open>len\<close> bytes, with the value returned.\<close>

fun mask_bytes :: "nat \<Rightarrow> nat \<Rightarrow> byte list \<times> bool" where
  "mask_bytes 0 p = ([], False)"
| "mask_bytes (Suc len) p =
     (if p > 8 then (let (bs, ok) = mask_bytes len (p - 8) in (0xff # bs, ok))
      else (ucast (push_bit (8 - p) (0xff :: 32 word)) # replicate len 0, True))"

definition prefix_to_netmask :: "nat \<Rightarrow> byte \<Rightarrow> byte list \<times> bool" where
  "prefix_to_netmask len prefixlen = mask_bytes len (unat prefixlen)"

text \<open>A byte that no mask has makes the function write through a null pointer.\<close>

definition last_bits :: "byte \<Rightarrow> u16 option" where
  "last_bits b = map_of [(0, 0), (128, 1), (192, 2), (224, 3), (240, 4), (248, 5), (252, 6), (254, 7), (255, 8)] b"

fun count_prefix :: "byte list \<Rightarrow> u16 \<Rightarrow> u16 option" where
  "count_prefix [] prefix = Some prefix"
| "count_prefix (b # bs) prefix =
     (if b = 0xff then count_prefix bs (prefix + 8) else map_option (\<lambda>n. prefix + n) (last_bits b))"

definition netmask_to_prefix :: "byte list \<Rightarrow> byte option" where
  "netmask_to_prefix adr = map_option ucast (count_prefix adr 0)"

definition ip_in_net :: "ip_addr \<Rightarrow> ip_addr \<Rightarrow> byte \<Rightarrow> bool option" where
  "ip_in_net ipaddr prefix prefix_len =
     (if 0 < prefix_len \<and> prefix_len \<le> 32
      then Some (let netmask = push_bit (32 - unat prefix_len) (- 1) in ipaddr AND netmask = prefix AND netmask)
      else None)"

section \<open>The hash of an address\<close>

text \<open>Three lines of the macro \<open>__jhash_mix\<close>, which repeats them with other shift counts.\<close>

definition jhash_round :: "nat \<Rightarrow> nat \<Rightarrow> nat \<Rightarrow> ulong \<times> ulong \<times> ulong \<Rightarrow> ulong \<times> ulong \<times> ulong" where
  "jhash_round i j k = (\<lambda>(a, b, c).
     let a = (a - b - c) XOR drop_bit i c;
         b = (b - c - a) XOR push_bit j a;
         c = (c - a - b) XOR drop_bit k b
     in (a, b, c))"

definition jhash_mix :: "ulong \<times> ulong \<times> ulong \<Rightarrow> ulong \<times> ulong \<times> ulong" where
  "jhash_mix s = jhash_round 3 10 15 (jhash_round 12 16 5 (jhash_round 13 8 13 s))"

text \<open>Byte \<open>i\<close> of the key shifted to its place, and zero behind the end of the key.\<close>

definition key_byte :: "byte list \<Rightarrow> nat \<Rightarrow> nat \<Rightarrow> ulong" where
  "key_byte k i sh = (if i < length k then push_bit sh (ucast (k ! i)) else 0)"

definition key_word :: "byte list \<Rightarrow> nat \<Rightarrow> ulong" where
  "key_word k i = key_byte k i 0 + key_byte k (i + 1) 8 + key_byte k (i + 2) 16 + key_byte k (i + 3) 24"

function jhash_blocks :: "byte list \<Rightarrow> ulong \<times> ulong \<times> ulong \<Rightarrow> byte list \<times> ulong \<times> ulong \<times> ulong" where
  "jhash_blocks k (a, b, c) =
     (if length k < 12 then (k, a, b, c)
      else jhash_blocks (drop 12 k) (jhash_mix (a + key_word k 0, b + key_word k 4, c + key_word k 8)))"
  by pat_completeness auto
termination by (relation "measure (\<lambda>(k, s). length k)") auto

definition jenkins_hash :: "byte list \<Rightarrow> ulong" where
  "jenkins_hash key =
     (let (k, a, b, c) = jhash_blocks key (0x9e3779b9, 0x9e3779b9, 0);
          c = c + of_nat (length key) + key_byte k 10 24 + key_byte k 9 16 + key_byte k 8 8;
          b = b + key_byte k 7 24 + key_byte k 6 16 + key_byte k 5 8 + key_byte k 4 0;
          a = a + key_byte k 3 24 + key_byte k 2 16 + key_byte k 1 8 + key_byte k 0 0;
          (a, b, c) = jhash_mix (a, b, c)
      in c)"

definition hashsize :: nat where "hashsize = 128"

definition hashmask :: ulong where "hashmask = of_nat hashsize - 1"

definition olsr_ip_hashing :: "ip_addr \<Rightarrow> ulong" where
  "olsr_ip_hashing address = jenkins_hash (le32 address) AND hashmask"

text \<open>Every hash is an index of a table with \<open>hashsize\<close> rows.\<close>

lemma olsr_ip_hashing_lt: "unat (olsr_ip_hashing a) < hashsize"
proof -
  have "olsr_ip_hashing a \<le> hashmask" by (simp add: olsr_ip_hashing_def word_and_le1)
  then show ?thesis by (simp add: word_le_nat_alt hashmask_def hashsize_def)
qed

text \<open>The row of an address in a hash table.\<close>

definition hash_row :: "ip_addr \<Rightarrow> nat" where
  "hash_row a = unat (olsr_ip_hashing a)"

lemma hash_row_lt [simp]: "hash_row a < hashsize"
  by (simp add: hash_row_def olsr_ip_hashing_lt)

section \<open>Masks and prefix lengths fit together\<close>

lemma last_bits_mask:
  assumes "p \<le> 8"
  shows "last_bits (ucast (push_bit (8 - p) (0xff :: 32 word))) = Some (of_nat p)"
proof -
  have "\<forall>p \<in> set [0..<9]. last_bits (ucast (push_bit (8 - p) (0xff :: 32 word))) = Some (of_nat p)"
    by code_simp
  then show ?thesis using assms by simp
qed

lemma partial_mask:
  assumes "p < 8"
  shows "ucast (push_bit (8 - p) (0xff :: 32 word)) \<noteq> (0xff :: byte)"
proof -
  have "\<forall>p \<in> set [0..<8]. ucast (push_bit (8 - p) (0xff :: 32 word)) \<noteq> (0xff :: byte)"
    by code_simp
  then show ?thesis using assms by simp
qed

lemma full_mask: "ucast (push_bit 0 (0xff :: 32 word)) = (0xff :: byte)"
  by code_simp

lemma count_prefix_zeros: "count_prefix (replicate n 0) q = Some q"
  by (cases n) (simp_all add: last_bits_def)

lemma count_mask_bytes:
  assumes "p \<le> 8 * len"
  shows "count_prefix (fst (mask_bytes len p)) q = Some (q + of_nat p)"
  using assms
proof (induction len arbitrary: p q)
  case 0
  then show ?case by simp
next
  case (Suc len)
  consider "8 < p" | "p = 8" | "p < 8" by linarith
  then show ?case
  proof cases
    case 1
    then have "count_prefix (fst (mask_bytes len (p - 8))) (q + 8) = Some (q + 8 + of_nat (p - 8))"
      using Suc by simp
    with 1 show ?thesis by (simp add: split_beta Let_def)
  next
    case 2
    then show ?thesis using full_mask by (simp add: count_prefix_zeros)
  next
    case 3
    then show ?thesis using partial_mask [OF 3] last_bits_mask [of p] by simp
  qed
qed

lemma mask_bytes_ok: "mask_bytes len p = (bs, ok) \<Longrightarrow> length bs = len \<and> (ok \<longleftrightarrow> 0 < len \<and> p \<le> 8 * len)"
  by (induction len p arbitrary: bs ok rule: mask_bytes.induct)
    (auto simp: Let_def split: if_splits prod.splits)

section \<open>Properties\<close>

text \<open>
  Writing a prefix length as a network mask and reading it back gives the prefix length, for addresses of
  both versions; the mask fills the buffer exactly.
\<close>

theorem netmask_roundtrip:
  assumes "len = 4 \<or> len = 16" "unat prefixlen \<le> 8 * len"
  shows "snd (prefix_to_netmask len prefixlen) \<and> length (fst (prefix_to_netmask len prefixlen)) = len \<and>
    netmask_to_prefix (fst (prefix_to_netmask len prefixlen)) = Some prefixlen"
proof -
  have "of_nat (unat prefixlen) = (ucast prefixlen :: u16)" by simp
  then have "count_prefix (fst (mask_bytes len (unat prefixlen))) 0 = Some (ucast prefixlen)"
    using count_mask_bytes [OF assms(2), of 0] by simp
  moreover have "ucast (ucast prefixlen :: u16) = prefixlen" by (simp add: ucast_up_ucast_id is_up)
  ultimately show ?thesis
    using assms mask_bytes_ok [OF prod.collapse [symmetric], of len "unat prefixlen"]
    by (auto simp: prefix_to_netmask_def netmask_to_prefix_def)
qed

theorem netmask_roundtrip_witness:
  "snd (prefix_to_netmask 4 26) \<and> length (fst (prefix_to_netmask 4 26)) = 4 \<and>
    netmask_to_prefix (fst (prefix_to_netmask 4 26)) = Some 26"
  by (rule netmask_roundtrip) simp_all

text \<open>
  The test whether an address lies in a network compares the wrong bytes on a little-endian machine: two addresses
  pass the test for a prefix of 8 bits exactly when their last bytes agree, whatever their first bytes are.
\<close>

theorem ip_in_net_wrong_end:
  "ip_in_net a n 8 = Some (le32 a ! 3 = le32 n ! 3)"
proof -
  have "(a AND push_bit 24 (- 1) = n AND push_bit 24 (- 1)) \<longleftrightarrow>
      (ucast (drop_bit 24 a) :: byte) = ucast (drop_bit 24 n)"
  proof
    assume l: "a AND push_bit 24 (- 1) = n AND push_bit 24 (- 1)"
    show "(ucast (drop_bit 24 a) :: byte) = ucast (drop_bit 24 n)"
    proof (rule bit_word_eqI)
      fix i
      assume i: "i < LENGTH(8)"
      then have "bit (a AND push_bit 24 (- 1)) (24 + i) = bit (n AND push_bit 24 (- 1)) (24 + i)" by (simp only: l)
      then show "bit (ucast (drop_bit 24 a) :: byte) i = bit (ucast (drop_bit 24 n) :: byte) i"
        using i by (simp add: bit_simps)
    qed
  next
    assume r: "(ucast (drop_bit 24 a) :: byte) = ucast (drop_bit 24 n)"
    show "a AND push_bit 24 (- 1) = n AND push_bit 24 (- 1)"
    proof (rule bit_word_eqI)
      fix i
      assume i: "i < LENGTH(32)"
      show "bit (a AND push_bit 24 (- 1)) i = bit (n AND push_bit 24 (- 1)) i"
      proof (cases "24 \<le> i")
        case True
        then have "bit (ucast (drop_bit 24 a) :: byte) (i - 24) = bit (ucast (drop_bit 24 n) :: byte) (i - 24)"
          by (simp only: r)
        moreover have "i - 24 < 8" using True i by auto
        ultimately show ?thesis using True i by (simp add: bit_simps)
      qed (simp add: bit_simps)
    qed
  qed
  then show ?thesis by (simp add: ip_in_net_def le32_def)
qed

end
