(* ===== verification/Plugin_Tc.thy ===== *)
theory Plugin_Tc imports Ip_Calc Dll Ser_Device begin

text \<open>
  The SEREADMO plugin of the OLSR daemon (\<open>lib/sereadmo/src/ser_tc.c\<close>, \<open>ser_data.c\<close>): a copy of the topology known
  to the daemon, and the commands that describe its changes to the routing module. A node entry is a structure at
  an address (a number); an address outside the map is freed memory. The forward and backward pointers of the hash
  chains of entries are explicit, because the code does not keep them consistent. The chains of links inside an entry
  and the list of aliases are lists; their pointer updates are those of \<open>Dll\<close>.
\<close>

section \<open>State\<close>

record tc_dst =
  ds_addr :: ip_addr
  ds_active :: bool

record tc_entry =
  en_addr :: ip_addr
  en_prev :: "nat option"
  en_next :: "nat option"
  en_dst :: "tc_dst list list"
  en_nb_dst :: int
  en_active :: bool
  en_local :: bool

record tc_mid =
  md_main :: ip_addr
  md_alias :: ip_addr
  md_active :: bool

text \<open>A command for the routing module; an address that is not passed (\<open>NULL\<close>) is \<open>None\<close>.\<close>

record dev_cmd =
  dc_type :: ulong
  dc_addr_1 :: "ip_addr option"
  dc_addr_2 :: "ip_addr option"
  dc_value :: ulong

record plugin =
  pg_tab :: "nat option list"
  pg_entries :: "nat \<rightharpoonup> tc_entry"
  pg_mid :: "tc_mid list"
  pg_next :: nat
  pg_out :: "dev_cmd list"

text \<open>
  What the plugin reads of the daemon: the addresses of the interfaces, the neighbours with their status (symmetric or not),
  the edges of the topology set per node, and the aliases per main address.
\<close>

record olsr_env =
  oe_ifs :: "ip_addr list"
  oe_nbrs :: "(ip_addr \<times> bool) list"
  oe_tc :: "(ip_addr \<times> ip_addr list) list"
  oe_mid :: "(ip_addr \<times> ip_addr list) list"

definition tc_init_plugin :: "plugin \<Rightarrow> plugin" where
  "tc_init_plugin s = s\<lparr>pg_tab := replicate hashsize None, pg_mid := []\<rparr>"

definition plugin_start :: plugin where
  "plugin_start = tc_init_plugin \<lparr>pg_tab = [], pg_entries = Map.empty, pg_mid = [], pg_next = 0, pg_out = []\<rparr>"

section \<open>Commands\<close>

definition dev_add_cmd :: "ulong \<Rightarrow> ip_addr option \<Rightarrow> ip_addr option \<Rightarrow> ulong \<Rightarrow> plugin \<Rightarrow> plugin" where
  "dev_add_cmd type a b v s = s\<lparr>pg_out := pg_out s @ [\<lparr>dc_type = type, dc_addr_1 = a, dc_addr_2 = b, dc_value = v\<rparr>]\<rparr>"

definition dev_rmv_node :: "ip_addr \<Rightarrow> plugin \<Rightarrow> plugin" where
  "dev_rmv_node a = dev_add_cmd cmd_remove_node (Some a) None 0"

definition dev_rmv_link :: "ip_addr \<Rightarrow> ip_addr \<Rightarrow> plugin \<Rightarrow> plugin" where
  "dev_rmv_link a b = dev_add_cmd cmd_remove_link (Some a) (Some b) 0"

definition dev_add_node :: "ip_addr \<Rightarrow> plugin \<Rightarrow> plugin" where
  "dev_add_node a = dev_add_cmd cmd_add_node (Some a) None 0"

definition dev_add_link :: "ip_addr \<Rightarrow> ip_addr \<Rightarrow> ulong \<Rightarrow> plugin \<Rightarrow> plugin" where
  "dev_add_link a b qlt = dev_add_cmd cmd_add_link (Some a) (Some b) qlt"

definition dev_add_alias :: "ip_addr \<Rightarrow> ip_addr \<Rightarrow> plugin \<Rightarrow> plugin" where
  "dev_add_alias a b = dev_add_cmd cmd_add_alias (Some a) (Some b) 0"

definition dev_rmv_alias :: "ip_addr \<Rightarrow> ip_addr \<Rightarrow> plugin \<Rightarrow> plugin" where
  "dev_rmv_alias a b = dev_add_cmd cmd_remove_alias (Some a) (Some b) 0"

text \<open>The queue is handed over and emptied.\<close>

definition dev_send :: "plugin \<Rightarrow> dev_cmd list \<times> plugin" where
  "dev_send s = (pg_out s, s\<lparr>pg_out := []\<rparr>)"

section \<open>Nodes\<close>

definition tc_is_addr_local :: "ip_addr list \<Rightarrow> ip_addr \<Rightarrow> bool" where
  "tc_is_addr_local ifs a \<longleftrightarrow> List.find (\<lambda>i. i = a) ifs \<noteq> None"

definition tc_is_in_neighbourhood :: "(ip_addr \<times> bool) list \<Rightarrow> ip_addr \<Rightarrow> bool" where
  "tc_is_in_neighbourhood nbrs a = (case List.find (\<lambda>p. fst p = a) nbrs of None \<Rightarrow> False | Some p \<Rightarrow> snd p)"

partial_function (option) find_node :: "(nat \<rightharpoonup> tc_entry) \<Rightarrow> ip_addr \<Rightarrow> nat option \<Rightarrow> nat option option" where
  "find_node E a c =
     (case c of
        None \<Rightarrow> Some None
      | Some n \<Rightarrow> do { e \<leftarrow> E n; if en_addr e = a then Some (Some n) else find_node E a (en_next e) })"

declare find_node.simps [code]

definition tc_get_node_pl :: "ip_addr \<Rightarrow> plugin \<Rightarrow> nat option option" where
  "tc_get_node_pl a s = do { c \<leftarrow> rd (pg_tab s) (int (hash_row a)); find_node (pg_entries s) a c }"

text \<open>Assignment to a structure, through a pointer that must point to live memory.\<close>

definition upd_entry :: "nat \<Rightarrow> (tc_entry \<Rightarrow> tc_entry) \<Rightarrow> plugin \<Rightarrow> plugin option" where
  "upd_entry n f s = do { e \<leftarrow> pg_entries s n; Some (s\<lparr>pg_entries := (pg_entries s)(n \<mapsto> f e)\<rparr>) }"

definition tc_create_node :: "ip_addr list \<Rightarrow> ip_addr \<Rightarrow> plugin \<Rightarrow> (nat \<times> plugin) option" where
  "tc_create_node ifs a s =
     (let n = pg_next s; hash = int (hash_row a);
          e = \<lparr>en_addr = a, en_prev = None, en_next = None, en_dst = replicate hashsize [], en_nb_dst = 0,
               en_active = True, en_local = tc_is_addr_local ifs a\<rparr>;
          s = s\<lparr>pg_next := n + 1, pg_entries := (pg_entries s)(n \<mapsto> e)\<rparr>
      in do {
        pos \<leftarrow> rd (pg_tab s) hash;
        s \<leftarrow> (case pos of
               None \<Rightarrow> Some s
             | Some p \<Rightarrow> do { s \<leftarrow> upd_entry p (en_prev_update (\<lambda>_. Some n)) s;
                             upd_entry n (en_next_update (\<lambda>_. Some p)) s });
        tab \<leftarrow> wr (pg_tab s) hash (Some n);
        Some (n, dev_add_node a (s\<lparr>pg_tab := tab\<rparr>)) })"

section \<open>Marking\<close>

partial_function (option) reset_chain :: "nat option \<Rightarrow> plugin \<Rightarrow> plugin option" where
  "reset_chain c s =
     (case c of
        None \<Rightarrow> Some s
      | Some n \<Rightarrow> do {
          e \<leftarrow> pg_entries s n;
          let e = e\<lparr>en_active := False, en_dst := map (map (ds_active_update (\<lambda>_. False))) (en_dst e)\<rparr>;
          reset_chain (en_next e) (s\<lparr>pg_entries := (pg_entries s)(n \<mapsto> e)\<rparr>) })"

declare reset_chain.simps [code]

definition tc_reset_active_flag :: "plugin \<Rightarrow> plugin option" where
  "tc_reset_active_flag s = do {
     s \<leftarrow> iter [0..<hashsize] (\<lambda>i s. do { c \<leftarrow> rd (pg_tab s) (int i); reset_chain c s }) s;
     Some (s\<lparr>pg_mid := map (md_active_update (\<lambda>_. False)) (pg_mid s)\<rparr>) }"

section \<open>Links and aliases\<close>

text \<open>The first link to the address is marked; a missing link is put at the head of its chain.\<close>

fun mark_dst :: "ip_addr \<Rightarrow> tc_dst list \<Rightarrow> tc_dst list option" where
  "mark_dst a [] = None"
| "mark_dst a (d # ds) = (if ds_addr d = a then Some (d\<lparr>ds_active := True\<rparr> # ds) else map_option ((#) d) (mark_dst a ds))"

definition link_dst :: "nat \<Rightarrow> ip_addr \<Rightarrow> ip_addr \<Rightarrow> plugin \<Rightarrow> plugin option" where
  "link_dst n src_addr dst_addr s = do {
     e \<leftarrow> pg_entries s n;
     chain \<leftarrow> rd (en_dst e) (int (hash_row dst_addr));
     case mark_dst dst_addr chain of
       Some chain \<Rightarrow> do {
         dst \<leftarrow> wr (en_dst e) (int (hash_row dst_addr)) chain;
         Some (s\<lparr>pg_entries := (pg_entries s)(n \<mapsto> e\<lparr>en_dst := dst\<rparr>)\<rparr>) }
     | None \<Rightarrow> do {
         dst \<leftarrow> wr (en_dst e) (int (hash_row dst_addr)) (\<lparr>ds_addr = dst_addr, ds_active = True\<rparr> # chain);
         Some (dev_add_link src_addr dst_addr 1
           (s\<lparr>pg_entries := (pg_entries s)(n \<mapsto> e\<lparr>en_dst := dst, en_nb_dst := en_nb_dst e + 1\<rparr>)\<rparr>)) } }"

text \<open>
  The source node of a link, or nothing when the link leaves the local node for a node that is not a
  symmetric neighbour.
\<close>

definition link_src :: "olsr_env \<Rightarrow> ip_addr \<Rightarrow> ip_addr \<Rightarrow> plugin \<Rightarrow> (nat \<times> plugin) option option" where
  "link_src env src_addr dst_addr s = do {
     src \<leftarrow> tc_get_node_pl src_addr s;
     case src of
       None \<Rightarrow>
         if tc_is_addr_local (oe_ifs env) src_addr \<and> \<not> tc_is_in_neighbourhood (oe_nbrs env) dst_addr then Some None
         else do { (n, s) \<leftarrow> tc_create_node (oe_ifs env) src_addr s;
                   s \<leftarrow> upd_entry n (en_active_update (\<lambda>_. True)) s; Some (Some (n, s)) }
     | Some n \<Rightarrow> do {
         e \<leftarrow> pg_entries s n;
         if en_local e \<and> \<not> tc_is_in_neighbourhood (oe_nbrs env) dst_addr then Some None
         else do { s \<leftarrow> upd_entry n (en_active_update (\<lambda>_. True)) s; Some (Some (n, s)) } } }"

text \<open>The destination node, which is created when it is missing, is marked.\<close>

definition link_target :: "ip_addr list \<Rightarrow> ip_addr \<Rightarrow> plugin \<Rightarrow> plugin option" where
  "link_target ifs dst_addr s = do {
     dst \<leftarrow> tc_get_node_pl dst_addr s;
     (m, s) \<leftarrow> (case dst of None \<Rightarrow> tc_create_node ifs dst_addr s | Some m \<Rightarrow> Some (m, s));
     upd_entry m (en_active_update (\<lambda>_. True)) s }"

definition tc_addLink :: "olsr_env \<Rightarrow> ip_addr \<Rightarrow> ip_addr \<Rightarrow> plugin \<Rightarrow> plugin option" where
  "tc_addLink env src_addr dst_addr s = do {
     r \<leftarrow> link_src env src_addr dst_addr s;
     case r of
       None \<Rightarrow> Some s
     | Some (n, s) \<Rightarrow> do { s \<leftarrow> link_target (oe_ifs env) dst_addr s; link_dst n src_addr dst_addr s } }"

fun mark_mid :: "ip_addr \<Rightarrow> ip_addr \<Rightarrow> tc_mid list \<Rightarrow> tc_mid list option" where
  "mark_mid m a [] = None"
| "mark_mid m a (d # ds) =
     (if md_main d = m \<and> md_alias d = a then Some (d\<lparr>md_active := True\<rparr> # ds) else map_option ((#) d) (mark_mid m a ds))"

definition tc_addMid :: "ip_addr \<Rightarrow> ip_addr \<Rightarrow> plugin \<Rightarrow> plugin" where
  "tc_addMid m a s =
     (case mark_mid m a (pg_mid s) of
        Some mids \<Rightarrow> s\<lparr>pg_mid := mids\<rparr>
      | None \<Rightarrow> dev_add_alias m a (s\<lparr>pg_mid := \<lparr>md_main = m, md_alias = a, md_active = True\<rparr> # pg_mid s\<rparr>))"

section \<open>Removal\<close>

text \<open>The aliases that satisfy the test are announced as removed and unlinked, in the order of the list.\<close>

definition drop_mids :: "(tc_mid \<Rightarrow> bool) \<Rightarrow> plugin \<Rightarrow> plugin" where
  "drop_mids gone s = fold (\<lambda>d s. dev_rmv_alias (md_main d) (md_alias d) s) (filter gone (pg_mid s))
     (s\<lparr>pg_mid := filter (\<lambda>d. \<not> gone d) (pg_mid s)\<rparr>)"

definition tc_remove_useless_mid :: "plugin \<Rightarrow> plugin" where
  "tc_remove_useless_mid s = drop_mids (\<lambda>d. \<not> md_active d) s"

definition drop_dsts :: "nat \<Rightarrow> plugin \<Rightarrow> plugin option" where
  "drop_dsts n s = do {
     e \<leftarrow> pg_entries s n;
     let gone = filter (\<lambda>d. \<not> ds_active d) (concat (en_dst e));
     let e = e\<lparr>en_dst := map (filter ds_active) (en_dst e), en_nb_dst := en_nb_dst e - int (length gone)\<rparr>;
     Some (fold (\<lambda>d. dev_rmv_link (en_addr e) (ds_addr d)) gone (s\<lparr>pg_entries := (pg_entries s)(n \<mapsto> e)\<rparr>)) }"

text \<open>
  An entry that is not the head of its chain is freed while its predecessor still points to it: the code tests
  the backward pointer, but the branch for an entry with a predecessor is empty.
\<close>

definition drop_entry :: "nat \<Rightarrow> nat \<Rightarrow> plugin \<Rightarrow> plugin option" where
  "drop_entry i n s = do {
     e \<leftarrow> pg_entries s n;
     let s = drop_mids (\<lambda>d. md_main d = en_addr e) s;
     s \<leftarrow> (case en_next e of None \<Rightarrow> Some s | Some m \<Rightarrow> upd_entry m (en_prev_update (\<lambda>_. en_prev e)) s);
     s \<leftarrow> (case en_prev e of
            Some p \<Rightarrow> Some s
          | None \<Rightarrow> do { tab \<leftarrow> wr (pg_tab s) (int i) (en_next e); Some (s\<lparr>pg_tab := tab\<rparr>) });
     let s = dev_rmv_node (en_addr e) s;
     Some (s\<lparr>pg_entries := (pg_entries s)(n := None)\<rparr>) }"

partial_function (option) remove_chain :: "nat \<Rightarrow> nat option \<Rightarrow> plugin \<Rightarrow> plugin option" where
  "remove_chain i c s =
     (case c of
        None \<Rightarrow> Some s
      | Some n \<Rightarrow> do {
          s \<leftarrow> drop_dsts n s;
          e \<leftarrow> pg_entries s n;
          s \<leftarrow> (if en_active e then Some s else drop_entry i n s);
          remove_chain i (en_next e) s })"

declare remove_chain.simps [code]

definition tc_remove_useless_link :: "plugin \<Rightarrow> plugin option" where
  "tc_remove_useless_link s =
     iter [0..<hashsize] (\<lambda>i s. do { c \<leftarrow> rd (pg_tab s) (int i); remove_chain i c s }) s"

section \<open>The event handler\<close>

definition env_edges :: "olsr_env \<Rightarrow> (ip_addr \<times> ip_addr) list" where
  "env_edges env = concat (map (\<lambda>(a, bs). map (Pair a) bs) (oe_tc env))"

definition env_mids :: "olsr_env \<Rightarrow> (ip_addr \<times> ip_addr) list" where
  "env_mids env = concat (map (\<lambda>(a, bs). map (Pair a) bs) (oe_mid env))"

text \<open>The first half of \<open>tc_check_data\<close> marks and adds, the second half removes what is not marked.\<close>

definition tc_mark_data :: "olsr_env \<Rightarrow> plugin \<Rightarrow> plugin option" where
  "tc_mark_data env s = do {
     s \<leftarrow> tc_reset_active_flag s;
     s \<leftarrow> iter (env_edges env) (\<lambda>(a, b). tc_addLink env a b) s;
     Some (fold (\<lambda>(m, a). tc_addMid m a) (env_mids env) s) }"

definition tc_check_data :: "olsr_env \<Rightarrow> plugin \<Rightarrow> plugin option" where
  "tc_check_data env s = do { s \<leftarrow> tc_mark_data env s; tc_remove_useless_link (tc_remove_useless_mid s) }"

definition olsrd_pcf_event :: "olsr_env \<Rightarrow> plugin \<Rightarrow> (dev_cmd list \<times> plugin) option" where
  "olsrd_pcf_event env s = do { s \<leftarrow> tc_check_data env s; Some (dev_send s) }"

text \<open>A client that connects is sent the whole topology.\<close>

definition tc_send_all_data :: "olsr_env \<Rightarrow> plugin \<Rightarrow> plugin" where
  "tc_send_all_data env s =
     (let s = fold (\<lambda>(a, bs). dev_add_node a) (oe_tc env) s;
          s = fold (\<lambda>(a, b). dev_add_link a b 1) (env_edges env) s
      in fold (\<lambda>(m, a). dev_add_alias m a) (env_mids env) s)"

end
