(* ===== verification/Plugin_Inv.thy ===== *)
theory Plugin_Inv imports Plugin_Tc begin

text \<open>
  The plugin in a consistent state: \<open>plug_rep\<close> relates the pointers of the entries to one list of entries per row of
  the hash table. In such a state marking and adding never meet a missing pointer, and their effect is described by the sets
  of nodes and links, all and marked.
\<close>

section \<open>Chains of entries\<close>

type_synonym heap = "nat \<rightharpoonup> tc_entry"

fun en_seg :: "heap \<Rightarrow> nat option \<Rightarrow> nat option \<Rightarrow> nat list \<Rightarrow> bool" where
  "en_seg E p c [] \<longleftrightarrow> c = None"
| "en_seg E p c (n # ns) \<longleftrightarrow> c = Some n \<and> (\<exists>e. E n = Some e \<and> en_prev e = p \<and> en_seg E (Some n) (en_next e) ns)"

lemma en_seg_cong:
  assumes "\<And>n e. n \<in> set ns \<Longrightarrow> E n = Some e \<Longrightarrow> \<exists>e'. E' n = Some e' \<and> en_prev e' = en_prev e \<and> en_next e' = en_next e"
    and "en_seg E p c ns"
  shows "en_seg E' p c ns"
  using assms
proof (induction ns arbitrary: p c)
  case Nil
  then show ?case by simp
next
  case (Cons n ns)
  then obtain e where e: "c = Some n" "E n = Some e" "en_prev e = p" "en_seg E (Some n) (en_next e) ns" by auto
  moreover obtain e' where "E' n = Some e'" "en_prev e' = en_prev e" "en_next e' = en_next e"
    using Cons.prems(1) [OF _ e(2)] by auto
  ultimately show ?case using Cons.IH [of "Some n" "en_next e"] Cons.prems(1) by auto
qed

lemma en_seg_frame: "en_seg E p c ns \<Longrightarrow> m \<notin> set ns \<Longrightarrow> en_seg (E(m := x)) p c ns"
  by (erule en_seg_cong [rotated]) auto

lemma en_seg_live: "en_seg E p c ns \<Longrightarrow> n \<in> set ns \<Longrightarrow> \<exists>e. E n = Some e"
  by (induction ns arbitrary: p c) auto

text \<open>The search in a chain.\<close>

definition has_addr :: "heap \<Rightarrow> ip_addr \<Rightarrow> nat \<Rightarrow> bool" where
  "has_addr E a n \<longleftrightarrow> (\<exists>e. E n = Some e \<and> en_addr e = a)"

lemma find_node_seg: "en_seg E p c ns \<Longrightarrow> find_node E a c = Some (List.find (has_addr E a) ns)"
proof (induction ns arbitrary: p c)
  case Nil
  then show ?case by (simp add: find_node.simps)
next
  case (Cons n ns)
  then obtain e where "c = Some n" "E n = Some e" "find_node E a (en_next e) = Some (List.find (has_addr E a) ns)" by auto
  then show ?case by (subst find_node.simps) (simp add: has_addr_def)
qed

section \<open>Consistent states\<close>

definition entry_ok :: "ip_addr list \<Rightarrow> tc_entry \<Rightarrow> bool" where
  "entry_ok ifs e \<longleftrightarrow> length (en_dst e) = hashsize \<and> en_local e = tc_is_addr_local ifs (en_addr e) \<and>
     en_nb_dst e = int (length (concat (en_dst e))) \<and>
     (\<forall>i < hashsize. distinct (map ds_addr (en_dst e ! i)) \<and> (\<forall>d \<in> set (en_dst e ! i). hash_row (ds_addr d) = i))"

definition plug_rep :: "ip_addr list \<Rightarrow> plugin \<Rightarrow> (nat \<Rightarrow> nat list) \<Rightarrow> bool" where
  "plug_rep ifs s ch \<longleftrightarrow>
     length (pg_tab s) = hashsize \<and>
     (\<forall>i < hashsize. en_seg (pg_entries s) None (pg_tab s ! i) (ch i) \<and> distinct (ch i)) \<and>
     (\<forall>n e. pg_entries s n = Some e \<longrightarrow> entry_ok ifs e \<and> n < pg_next s \<and> n \<in> set (ch (hash_row (en_addr e)))) \<and>
     (\<forall>i < hashsize. \<forall>n \<in> set (ch i). \<forall>e. pg_entries s n = Some e \<longrightarrow> hash_row (en_addr e) = i) \<and>
     (\<forall>n m e f. pg_entries s n = Some e \<longrightarrow> pg_entries s m = Some f \<longrightarrow> en_addr e = en_addr f \<longrightarrow> n = m)"

lemma plug_repD:
  assumes "plug_rep ifs s ch"
  shows "length (pg_tab s) = hashsize"
    and "i < hashsize \<Longrightarrow> en_seg (pg_entries s) None (pg_tab s ! i) (ch i)"
    and "i < hashsize \<Longrightarrow> distinct (ch i)"
    and "pg_entries s n = Some e \<Longrightarrow> entry_ok ifs e"
    and "pg_entries s n = Some e \<Longrightarrow> n < pg_next s"
    and "pg_entries s n = Some e \<Longrightarrow> n \<in> set (ch (hash_row (en_addr e)))"
    and "i < hashsize \<Longrightarrow> n \<in> set (ch i) \<Longrightarrow> pg_entries s n = Some e \<Longrightarrow> hash_row (en_addr e) = i"
    and "pg_entries s n = Some e \<Longrightarrow> pg_entries s m = Some f \<Longrightarrow> en_addr e = en_addr f \<Longrightarrow> n = m"
  using assms unfolding plug_rep_def by blast+

lemma plug_rep_start: "plug_rep ifs plugin_start (\<lambda>_. [])"
  by (simp add: plug_rep_def plugin_start_def tc_init_plugin_def)

lemma chains_disjoint:
  assumes "plug_rep ifs s ch" "i < hashsize" "j < hashsize" "n \<in> set (ch i)" "n \<in> set (ch j)"
  shows "i = j"
proof -
  obtain e where "pg_entries s n = Some e" using en_seg_live [OF plug_repD(2) [OF assms(1,2)] assms(4)] by blast
  then show ?thesis using plug_repD(7) [OF assms(1)] assms(2-5) by metis
qed

text \<open>Nothing outside the entries, the table and the allocation counter matters.\<close>

lemma plug_rep_mid [simp]: "plug_rep ifs (s\<lparr>pg_mid := m\<rparr>) ch = plug_rep ifs s ch"
  by (simp add: plug_rep_def)

lemma plug_rep_out [simp]: "plug_rep ifs (s\<lparr>pg_out := m\<rparr>) ch = plug_rep ifs s ch"
  by (simp add: plug_rep_def)

lemma tc_get_node_rep:
  assumes "plug_rep ifs s ch"
  shows "tc_get_node_pl a s = Some (List.find (has_addr (pg_entries s) a) (ch (hash_row a)))"
  using find_node_seg [OF plug_repD(2) [OF assms hash_row_lt]] plug_repD(1) [OF assms]
  by (simp add: tc_get_node_pl_def)

section \<open>What the entries say\<close>

definition entry_links :: "tc_entry \<Rightarrow> (ip_addr \<times> ip_addr) set" where
  "entry_links e = (\<lambda>d. (en_addr e, ds_addr d)) ` set (concat (en_dst e))"

definition entry_mlinks :: "tc_entry \<Rightarrow> (ip_addr \<times> ip_addr) set" where
  "entry_mlinks e = (\<lambda>d. (en_addr e, ds_addr d)) ` {d \<in> set (concat (en_dst e)). ds_active d}"

definition tab_nodes :: "heap \<Rightarrow> ip_addr set" where
  "tab_nodes E = en_addr ` ran E"

definition tab_marked :: "heap \<Rightarrow> ip_addr set" where
  "tab_marked E = en_addr ` {e \<in> ran E. en_active e}"

definition tab_links :: "heap \<Rightarrow> (ip_addr \<times> ip_addr) set" where
  "tab_links E = \<Union> (entry_links ` ran E)"

definition tab_mlinks :: "heap \<Rightarrow> (ip_addr \<times> ip_addr) set" where
  "tab_mlinks E = \<Union> (entry_mlinks ` ran E)"

lemmas tab_defs = tab_nodes_def tab_marked_def tab_links_def tab_mlinks_def

lemma ran_split: "E n = Some e \<Longrightarrow> ran E = insert e (ran (E(n := None)))"
  by (force simp: ran_def)

lemma ran_upd: "ran (E(n \<mapsto> e)) = insert e (ran (E(n := None)))"
  by (auto simp: ran_def)

lemma tc_get_node_cases:
  assumes "plug_rep ifs s ch"
  obtains (found) n e where "tc_get_node_pl a s = Some (Some n)" "pg_entries s n = Some e" "en_addr e = a"
  | (absent) "tc_get_node_pl a s = Some None" "a \<notin> tab_nodes (pg_entries s)"
proof (cases "List.find (has_addr (pg_entries s) a) (ch (hash_row a))")
  case None
  then have "\<not> has_addr (pg_entries s) a n" if "n \<in> set (ch (hash_row a))" for n
    using that by (simp add: find_None_iff)
  then have "a \<notin> tab_nodes (pg_entries s)"
    using plug_repD(6) [OF assms] by (fastforce simp: tab_nodes_def has_addr_def ran_def)
  then show ?thesis using absent None tc_get_node_rep [OF assms] by simp
next
  case (Some n)
  then show ?thesis using found [of n] tc_get_node_rep [OF assms, of a]
    by (auto simp: find_Some_iff has_addr_def)
qed

section \<open>Updates of one entry\<close>

lemma plug_rep_upd:
  assumes rep: "plug_rep ifs s ch" and n: "pg_entries s n = Some e"
    and e': "en_addr e' = en_addr e" "en_prev e' = en_prev e" "en_next e' = en_next e" "entry_ok ifs e'"
  shows "plug_rep ifs (s\<lparr>pg_entries := (pg_entries s)(n \<mapsto> e')\<rparr>) ch"
proof -
  have seg: "en_seg ((pg_entries s)(n \<mapsto> e')) None (pg_tab s ! i) (ch i)" if "i < hashsize" for i
    using plug_repD(2) [OF rep that] by (rule en_seg_cong [rotated]) (use n e' in auto)
  show ?thesis
    unfolding plug_rep_def
  proof (intro conjI allI impI ballI, goal_cases)
    case (5 m f)
    then show ?case using plug_repD(5) [OF rep] n by (auto split: if_splits)
  next
    case (6 m f)
    then show ?case using plug_repD(6) [OF rep] n e'(1) by (auto split: if_splits)
  next
    case (7 i m f)
    then show ?case using plug_repD(7) [OF rep] n e'(1) by (auto split: if_splits)
  next
    case (8 k m f g)
    then show ?case using plug_repD(8) [OF rep] n e'(1) by (auto split: if_splits)
  next
    case (4 m f)
    then show ?case using plug_repD(4) [OF rep] e'(4) by (auto split: if_splits)
  qed (use plug_repD(1,3) [OF rep] seg in auto)
qed

text \<open>An entry that is updated in place says at least what it said before.\<close>

lemma tab_upd:
  assumes "E n = Some e" "en_addr e' = en_addr e" "en_active e \<Longrightarrow> en_active e'"
  shows "tab_nodes (E(n \<mapsto> e')) = tab_nodes E"
    and "tab_marked (E(n \<mapsto> e')) = (if en_active e' then insert (en_addr e) (tab_marked E) else tab_marked E)"
    and "entry_links e \<subseteq> entry_links e' \<Longrightarrow> tab_links (E(n \<mapsto> e')) = tab_links E \<union> entry_links e'"
    and "entry_mlinks e \<subseteq> entry_mlinks e' \<Longrightarrow> tab_mlinks (E(n \<mapsto> e')) = tab_mlinks E \<union> entry_mlinks e'"
  unfolding tab_defs ran_upd ran_split [where E = E and n = n and e = e, OF assms(1)] using assms(2,3)
  by (auto simp: image_iff) (metis+)?

lemma tab_new:
  assumes "E n = None"
  shows "tab_nodes (E(n \<mapsto> e)) = insert (en_addr e) (tab_nodes E)"
    and "tab_marked (E(n \<mapsto> e)) = (if en_active e then insert (en_addr e) (tab_marked E) else tab_marked E)"
    and "tab_links (E(n \<mapsto> e)) = entry_links e \<union> tab_links E"
    and "tab_mlinks (E(n \<mapsto> e)) = entry_mlinks e \<union> tab_mlinks E"
proof -
  have "E(n := None) = E" using assms by auto
  then show "tab_nodes (E(n \<mapsto> e)) = insert (en_addr e) (tab_nodes E)"
    "tab_marked (E(n \<mapsto> e)) = (if en_active e then insert (en_addr e) (tab_marked E) else tab_marked E)"
    "tab_links (E(n \<mapsto> e)) = entry_links e \<union> tab_links E"
    "tab_mlinks (E(n \<mapsto> e)) = entry_mlinks e \<union> tab_mlinks E"
    by (auto simp: tab_defs ran_upd)
qed

text \<open>The pointers of the chains say nothing about nodes and links.\<close>

definition same_core :: "tc_entry \<Rightarrow> tc_entry \<Rightarrow> bool" where
  "same_core e f \<longleftrightarrow> f = e\<lparr>en_prev := en_prev f, en_next := en_next f\<rparr>"

lemma same_core_prev [simp]: "same_core e (e\<lparr>en_prev := p\<rparr>)"
  by (simp add: same_core_def)

lemma same_core_refl [simp]: "same_core e e"
  by (simp add: same_core_def)

lemma same_coreD:
  assumes "same_core e f"
  shows "en_addr f = en_addr e" "en_active f = en_active e" "entry_links f = entry_links e"
    "entry_mlinks f = entry_mlinks e" "entry_ok ifs f = entry_ok ifs e" "en_dst f = en_dst e" "en_local f = en_local e"
proof -
  have f: "f = e\<lparr>en_prev := en_prev f, en_next := en_next f\<rparr>" using assms by (simp add: same_core_def)
  show "en_addr f = en_addr e" "en_active f = en_active e" "entry_links f = entry_links e"
    "entry_mlinks f = entry_mlinks e" "entry_ok ifs f = entry_ok ifs e" "en_dst f = en_dst e" "en_local f = en_local e"
    by (subst f, simp add: entry_links_def entry_mlinks_def entry_ok_def)+
qed

lemma tab_core:
  assumes "\<And>m. rel_option same_core (E m) (E' m)"
  shows "tab_nodes E' = tab_nodes E" "tab_marked E' = tab_marked E" "tab_links E' = tab_links E" "tab_mlinks E' = tab_mlinks E"
proof -
  have to: "\<exists>f \<in> ran E'. same_core e f" if "e \<in> ran E" for e
  proof -
    obtain n where "E n = Some e" using \<open>e \<in> ran E\<close> by (auto simp: ran_def)
    then show ?thesis using assms [of n] by (auto simp: option_rel_Some1 intro: ranI)
  qed
  have fro: "\<exists>e \<in> ran E. same_core e f" if "f \<in> ran E'" for f
  proof -
    obtain n where "E' n = Some f" using \<open>f \<in> ran E'\<close> by (auto simp: ran_def)
    then show ?thesis using assms [of n] by (auto simp: option_rel_Some2 intro: ranI)
  qed
  have img: "g ` ran E' = g ` ran E" if "\<And>e f. same_core e f \<Longrightarrow> g f = g e" for g :: "tc_entry \<Rightarrow> 'b"
  proof (rule equalityI; rule subsetI)
    fix y
    assume "y \<in> g ` ran E'"
    then obtain f where f: "f \<in> ran E'" "y = g f" by blast
    obtain e where "e \<in> ran E" "same_core e f" using fro [OF f(1)] by blast
    then show "y \<in> g ` ran E" using that f(2) by simp
  next
    fix y
    assume "y \<in> g ` ran E"
    then obtain e where e: "e \<in> ran E" "y = g e" by blast
    obtain f where f: "f \<in> ran E'" "same_core e f" using to [OF e(1)] by blast
    show "y \<in> g ` ran E'" using that [OF f(2)] e(2) f(1) by (metis imageI)
  qed
  have marked: "tab_marked E = \<Union> ((\<lambda>e. if en_active e then {en_addr e} else {}) ` ran E)" for E
    by (auto simp: tab_marked_def split: if_splits)
  show "tab_nodes E' = tab_nodes E" unfolding tab_nodes_def by (rule img) (rule same_coreD(1))
  show "tab_marked E' = tab_marked E" unfolding marked by (rule arg_cong [where f = Union], rule img) (simp add: same_coreD(1,2))
  show "tab_links E' = tab_links E" unfolding tab_links_def by (rule arg_cong [where f = Union], rule img) (rule same_coreD(3))
  show "tab_mlinks E' = tab_mlinks E" unfolding tab_mlinks_def by (rule arg_cong [where f = Union], rule img) (rule same_coreD(4))
qed

lemma tc_get_node_none:
  assumes "plug_rep ifs s ch" "a \<notin> tab_nodes (pg_entries s)"
  shows "tc_get_node_pl a s = Some None"
  using assms(1)
proof (cases rule: tc_get_node_cases [where a = a])
  case (found n e)
  then show ?thesis using assms(2) by (auto simp: tab_nodes_def ran_def)
qed

section \<open>Creation\<close>

definition fresh_entry :: "ip_addr list \<Rightarrow> ip_addr \<Rightarrow> tc_entry" where
  "fresh_entry ifs a = \<lparr>en_addr = a, en_prev = None, en_next = None, en_dst = replicate hashsize [], en_nb_dst = 0,
     en_active = True, en_local = tc_is_addr_local ifs a\<rparr>"

lemma fresh_entry_ok [simp]: "entry_ok ifs (fresh_entry ifs a)"
  by (simp add: entry_ok_def fresh_entry_def hashsize_def)

lemma entry_ok_next [simp]: "entry_ok ifs (e\<lparr>en_next := c\<rparr>) = entry_ok ifs e"
  by (simp add: entry_ok_def)

text \<open>A new cell in front of a chain.\<close>

lemma en_seg_push:
  assumes seg: "en_seg E None c ns" and new: "n \<notin> set ns" and ns: "distinct ns"
    and E': "E' n = Some e" "en_prev e = None" "en_next e = c"
    and head: "\<And>p f. c = Some p \<Longrightarrow> E p = Some f \<Longrightarrow> E' p = Some (f\<lparr>en_prev := Some n\<rparr>)"
    and rest: "\<And>m. m \<noteq> n \<Longrightarrow> c \<noteq> Some m \<Longrightarrow> E' m = E m"
  shows "en_seg E' None (Some n) (n # ns)"
proof (cases ns)
  case Nil
  then show ?thesis using seg E' by simp
next
  case (Cons p ps)
  then obtain f where f: "c = Some p" "E p = Some f" "en_seg E (Some p) (en_next f) ps" using seg by auto
  have "en_seg E' (Some p) (en_next f) ps"
    using f(3)
  proof (rule en_seg_cong [rotated])
    fix m g
    assume "m \<in> set ps" "E m = Some g"
    then show "\<exists>e'. E' m = Some e' \<and> en_prev e' = en_prev g \<and> en_next e' = en_next g"
      using rest [of m] new ns f(1) Cons by auto
  qed
  then show ?thesis using E' f head [OF f(1,2)] Cons by auto
qed

lemma tc_create_node_ok:
  assumes rep: "plug_rep ifs s ch" and new: "a \<notin> tab_nodes (pg_entries s)"
  shows "\<exists>n s' e. tc_create_node ifs a s = Some (n, s') \<and>
    plug_rep ifs s' (ch(hash_row a := n # ch (hash_row a))) \<and>
    pg_entries s' n = Some e \<and> en_addr e = a \<and> en_active e \<and> concat (en_dst e) = [] \<and> pg_entries s n = None \<and>
    tab_nodes (pg_entries s') = insert a (tab_nodes (pg_entries s)) \<and>
    tab_marked (pg_entries s') = insert a (tab_marked (pg_entries s)) \<and>
    tab_links (pg_entries s') = tab_links (pg_entries s) \<and> tab_mlinks (pg_entries s') = tab_mlinks (pg_entries s) \<and>
    (\<forall>m f. pg_entries s m = Some f \<longrightarrow> (\<exists>g. pg_entries s' m = Some g \<and> same_core f g)) \<and>
    pg_mid s' = pg_mid s \<and> pg_out s' = pg_out (dev_add_node a s)"
proof -
  let ?n = "pg_next s" and ?h = "hash_row a" and ?E = "pg_entries s"
  let ?e = "fresh_entry ifs a"
  have fresh: "?E ?n = None" using plug_repD(5) [OF rep, of ?n] by (cases "?E ?n") auto
  have "?n \<notin> set (ch i)" if "i < hashsize" for i
    using en_seg_live [OF plug_repD(2) [OF rep that], of ?n] fresh by auto
  note new_n = this
  let ?c = "pg_tab s ! ?h"
  have rd: "rd (pg_tab s) (int ?h) = Some ?c" using plug_repD(1) [OF rep] by simp
  define E1 where "E1 = (case ?c of None \<Rightarrow> ?E | Some p \<Rightarrow> ?E(p \<mapsto> (the (?E p))\<lparr>en_prev := Some ?n\<rparr>))"
  let ?E' = "E1(?n \<mapsto> ?e\<lparr>en_next := ?c\<rparr>)"
  have head: "\<exists>f. ?E p = Some f" "p \<noteq> ?n" "p \<in> set (ch ?h)" if "?c = Some p" for p
    using plug_repD(2) [OF rep hash_row_lt [of a]] that fresh by (cases "ch ?h"; auto)+
  define s' where "s' = dev_add_node a (s\<lparr>pg_next := ?n + 1, pg_entries := ?E', pg_tab := (pg_tab s)[?h := Some ?n]\<rparr>)"
  have run: "tc_create_node ifs a s = Some (?n, s')"
  proof (cases ?c)
    case None
    then show ?thesis using rd plug_repD(1) [OF rep]
      by (simp add: tc_create_node_def Let_def s'_def E1_def fresh_entry_def)
  next
    case (Some p)
    obtain f where "?E p = Some f" using head(1) [OF Some] by blast
    then show ?thesis using rd plug_repD(1) [OF rep] Some head(2) [OF Some]
      by (simp add: tc_create_node_def Let_def s'_def E1_def fresh_entry_def upd_entry_def fun_upd_twist)
  qed
  have s': "pg_entries s' = ?E'" "pg_tab s' = (pg_tab s)[?h := Some ?n]" "pg_next s' = ?n + 1" "pg_mid s' = pg_mid s"
      "pg_out s' = pg_out (dev_add_node a s)"
    by (simp_all add: s'_def dev_add_node_def dev_add_cmd_def)
  have core: "rel_option same_core (?E m) (E1 m)" for m
    using head(1) by (cases ?c; cases "?E m") (auto simp: E1_def)
  have fresh1: "E1 ?n = None" using core [of ?n] fresh by simp
  have chain: "en_seg ?E' None (Some ?n) (?n # ch ?h)"
  proof (rule en_seg_push [where e = "?e\<lparr>en_next := ?c\<rparr>", OF plug_repD(2) [OF rep hash_row_lt] new_n plug_repD(3) [OF rep hash_row_lt]])
    show "?E' m = ?E m" if "m \<noteq> ?n" "?c \<noteq> Some m" for m using that by (cases ?c) (auto simp: E1_def)
    show "?E' p = Some (f\<lparr>en_prev := Some ?n\<rparr>)" if "?c = Some p" "?E p = Some f" for p f
      using that head(2) by (simp add: E1_def)
    show "en_prev (?e\<lparr>en_next := ?c\<rparr>) = None" "en_next (?e\<lparr>en_next := ?c\<rparr>) = ?c" by (simp_all add: fresh_entry_def)
  qed simp_all
  have others: "en_seg ?E' None (pg_tab s ! i) (ch i)" if i: "i < hashsize" "i \<noteq> ?h" for i
    using plug_repD(2) [OF rep i(1)]
  proof (rule en_seg_cong [rotated])
    fix m f
    assume m: "m \<in> set (ch i)" "?E m = Some f"
    then have "?c \<noteq> Some m" using chains_disjoint [OF rep i(1) hash_row_lt m(1)] head(3) i(2) by blast
    moreover have "m \<noteq> ?n" using m(2) fresh by auto
    ultimately show "\<exists>e'. ?E' m = Some e' \<and> en_prev e' = en_prev f \<and> en_next e' = en_next f"
      using m(2) by (cases ?c) (auto simp: E1_def)
  qed
  have old: "\<exists>g. ?E m = Some g \<and> same_core g f" if "?E' m = Some f" "m \<noteq> ?n" for m f
    using core [of m] that by (auto simp: option_rel_Some2)
  have na: "en_addr g \<noteq> a" if "?E m = Some g" for m g using new that by (auto simp: tab_nodes_def ran_def)
  have rep': "plug_rep ifs s' (ch(?h := ?n # ch ?h))"
    unfolding plug_rep_def s'
  proof (intro conjI allI impI ballI, goal_cases)
    case (2 i)
    then show ?case using chain others plug_repD(1) [OF rep] by (cases "i = ?h") auto
  next
    case (3 i)
    then show ?case using new_n plug_repD(3) [OF rep] by auto
  next
    case (4 m f)
    then show ?case using old [OF 4] plug_repD(4) [OF rep] same_coreD(5) by (cases "m = ?n") fastforce+
  next
    case (5 m f)
    then show ?case using old [OF 5] plug_repD(5) [OF rep] by (cases "m = ?n") fastforce+
  next
    case (6 m f)
    then show ?case using old [OF 6] plug_repD(6) [OF rep] same_coreD(1) by (cases "m = ?n") (fastforce simp: fresh_entry_def)+
  next
    case (7 i m f)
    show ?case
    proof (cases "m = ?n")
      case True
      then show ?thesis using 7 new_n [OF 7(1)] by (auto simp: fresh_entry_def split: if_splits)
    next
      case False
      then obtain g where g: "?E m = Some g" "same_core g f" using old [OF 7(3)] by blast
      have "m \<in> set (ch i)" using 7(2) False by (auto split: if_splits)
      then show ?thesis using plug_repD(7) [OF rep 7(1) _ g(1)] same_coreD(1) [OF g(2)] by simp
    qed
  next
    case (8 m k f g)
    have addr: "m = ?n \<and> en_addr f = a \<or> m \<noteq> ?n \<and> (\<exists>f'. ?E m = Some f' \<and> en_addr f' = en_addr f)"
      if "?E' m = Some f" for m f
      using that old [OF that] same_coreD(1) by (cases "m = ?n") (fastforce simp: fresh_entry_def)+
    show ?case
      using addr [OF 8(1)] addr [OF 8(2)] 8(3) na plug_repD(8) [OF rep] by metis
  qed (use plug_repD(1) [OF rep] in simp)
  have links: "entry_links (?e\<lparr>en_next := ?c\<rparr>) = {}" "entry_mlinks (?e\<lparr>en_next := ?c\<rparr>) = {}"
    by (simp_all add: entry_links_def entry_mlinks_def fresh_entry_def)
  have "\<forall>m f. ?E m = Some f \<longrightarrow> (\<exists>g. ?E' m = Some g \<and> same_core f g)"
  proof (intro allI impI)
    fix m f
    assume m: "?E m = Some f"
    then have "m \<noteq> ?n" using fresh by auto
    then show "\<exists>g. ?E' m = Some g \<and> same_core f g" using core [of m] m by (auto simp: option_rel_Some1)
  qed
  then show ?thesis
    using run rep' tab_new [where E = E1, OF fresh1] tab_core [where E = ?E and E' = E1, OF core] links fresh
    by (intro exI [of _ ?n] exI [of _ s'] exI [of _ "?e\<lparr>en_next := ?c\<rparr>"])
      (simp add: s' fresh_entry_def)
qed

section \<open>Marking and adding links\<close>

lemma mark_entry_ok:
  assumes rep: "plug_rep ifs s ch" and n: "pg_entries s n = Some e"
  shows "\<exists>s'. upd_entry n (en_active_update (\<lambda>_. True)) s = Some s' \<and> plug_rep ifs s' ch \<and>
    pg_entries s' = (pg_entries s)(n \<mapsto> e\<lparr>en_active := True\<rparr>) \<and>
    tab_nodes (pg_entries s') = tab_nodes (pg_entries s) \<and>
    tab_marked (pg_entries s') = insert (en_addr e) (tab_marked (pg_entries s)) \<and>
    tab_links (pg_entries s') = tab_links (pg_entries s) \<and> tab_mlinks (pg_entries s') = tab_mlinks (pg_entries s) \<and>
    pg_mid s' = pg_mid s \<and> pg_out s' = pg_out s"
proof -
  let ?e = "e\<lparr>en_active := True\<rparr>"
  have same: "entry_links ?e = entry_links e" "entry_mlinks ?e = entry_mlinks e"
    by (simp_all add: entry_links_def entry_mlinks_def)
  have sub: "entry_links e \<subseteq> tab_links (pg_entries s)" "entry_mlinks e \<subseteq> tab_mlinks (pg_entries s)"
    using n by (auto simp: tab_defs ran_def)
  have "plug_rep ifs (s\<lparr>pg_entries := (pg_entries s)(n \<mapsto> ?e)\<rparr>) ch"
    by (rule plug_rep_upd [OF rep n]) (use plug_repD(4) [OF rep n] in \<open>simp_all add: entry_ok_def\<close>)
  then show ?thesis
    using tab_upd [where E = "pg_entries s" and n = n and e = e and e' = ?e, OF n] same sub n
    by (auto simp: upd_entry_def)
qed

lemma mark_dst_None: "mark_dst b ds = None \<longleftrightarrow> b \<notin> ds_addr ` set ds"
  by (induction ds) auto

lemma mark_dst_Some:
  "mark_dst b ds = Some ds' \<Longrightarrow> length ds' = length ds \<and> ds_addr ` set ds' = ds_addr ` set ds \<and> map ds_addr ds' = map ds_addr ds \<and>
     ds_addr ` {d \<in> set ds'. ds_active d} = insert b (ds_addr ` {d \<in> set ds. ds_active d})"
proof (induction ds arbitrary: ds')
  case Nil
  then show ?case by simp
next
  case (Cons d ds)
  have split: "{x \<in> set (y # ys). ds_active x} = (if ds_active y then insert y {x \<in> set ys. ds_active x} else {x \<in> set ys. ds_active x})"
    for y ys by auto
  show ?case
  proof (cases "ds_addr d = b")
    case True
    then have ds': "ds' = d\<lparr>ds_active := True\<rparr> # ds" using Cons.prems by simp
    show ?thesis using True unfolding ds' split by auto
  next
    case False
    then obtain es where es: "mark_dst b ds = Some es" "ds' = d # es" using Cons.prems by auto
    then show ?thesis using Cons.IH [OF es(1)] unfolding es(2) split by auto
  qed
qed

lemma set_concat_upd:
  assumes "i < length xss"
  shows "set (concat (xss[i := ys])) = set ys \<union> \<Union> (set ` set (take i xss)) \<union> \<Union> (set ` set (drop (Suc i) xss))"
    and "set (concat xss) = set (xss ! i) \<union> \<Union> (set ` set (take i xss)) \<union> \<Union> (set ` set (drop (Suc i) xss))"
    and "length (concat (xss[i := ys])) + length (xss ! i) = length (concat xss) + length ys"
proof -
  have a: "xss[i := ys] = take i xss @ ys # drop (Suc i) xss" using assms by (rule upd_conv_take_nth_drop)
  have b: "xss = take i xss @ xss ! i # drop (Suc i) xss" using assms by (rule id_take_nth_drop)
  show "set (concat (xss[i := ys])) = set ys \<union> \<Union> (set ` set (take i xss)) \<union> \<Union> (set ` set (drop (Suc i) xss))"
    unfolding a by auto
  show "set (concat xss) = set (xss ! i) \<union> \<Union> (set ` set (take i xss)) \<union> \<Union> (set ` set (drop (Suc i) xss))"
    by (subst b) auto
  have "length (concat xss) = length (concat (take i xss)) + length (xss ! i) + length (concat (drop (Suc i) xss))"
    by (subst b) simp
  then show "length (concat (xss[i := ys])) + length (xss ! i) = length (concat xss) + length ys" unfolding a by simp
qed

text \<open>An entry whose chain for \<open>b\<close> is replaced by one that has a marked link to \<open>b\<close> besides the old ones.\<close>

lemma entry_chain_upd:
  assumes len: "i < length (en_dst e)"
    and addrs: "ds_addr ` set ys = insert b (ds_addr ` set (en_dst e ! i))"
    and marks: "ds_addr ` {d \<in> set ys. ds_active d} = insert b (ds_addr ` {d \<in> set (en_dst e ! i). ds_active d})"
  shows "entry_links (e\<lparr>en_dst := (en_dst e)[i := ys], en_nb_dst := k\<rparr>) = insert (en_addr e, b) (entry_links e)"
    and "entry_mlinks (e\<lparr>en_dst := (en_dst e)[i := ys], en_nb_dst := k\<rparr>) = insert (en_addr e, b) (entry_mlinks e)"
proof -
  define R where "R = \<Union> (set ` set (take i (en_dst e))) \<union> \<Union> (set ` set (drop (Suc i) (en_dst e)))"
  have new: "set (concat ((en_dst e)[i := ys])) = set ys \<union> R" using set_concat_upd(1) [OF len] by (simp add: R_def Un_assoc)
  have old: "set (concat (en_dst e)) = set (en_dst e ! i) \<union> R" using set_concat_upd(2) [OF len] by (simp add: R_def Un_assoc)
  have pair: "(\<lambda>d. (en_addr e, ds_addr d)) ` X = Pair (en_addr e) ` (ds_addr ` X)" for X by auto
  have new_m: "{d \<in> set (concat ((en_dst e)[i := ys])). ds_active d} = {d \<in> set ys. ds_active d} \<union> {d \<in> R. ds_active d}"
    unfolding new by auto
  have old_m: "{d \<in> set (concat (en_dst e)). ds_active d} = {d \<in> set (en_dst e ! i). ds_active d} \<union> {d \<in> R. ds_active d}"
    unfolding old by auto
  have sel: "en_dst (e\<lparr>en_dst := x, en_nb_dst := k\<rparr>) = x" "en_addr (e\<lparr>en_dst := x, en_nb_dst := k\<rparr>) = en_addr e" for x
    by simp_all
  show "entry_links (e\<lparr>en_dst := (en_dst e)[i := ys], en_nb_dst := k\<rparr>) = insert (en_addr e, b) (entry_links e)"
    unfolding entry_links_def sel new old pair image_Un addrs by simp
  show "entry_mlinks (e\<lparr>en_dst := (en_dst e)[i := ys], en_nb_dst := k\<rparr>) = insert (en_addr e, b) (entry_mlinks e)"
    unfolding entry_mlinks_def sel new_m old_m pair image_Un marks by simp
qed

lemma link_known:
  assumes rep: "plug_rep ifs s ch" and n: "pg_entries s n = Some e"
  shows "b \<in> ds_addr ` set (en_dst e ! hash_row b) \<longleftrightarrow> (en_addr e, b) \<in> tab_links (pg_entries s)"
proof
  assume "b \<in> ds_addr ` set (en_dst e ! hash_row b)"
  then obtain d where d: "d \<in> set (en_dst e ! hash_row b)" "b = ds_addr d" by blast
  have "en_dst e ! hash_row b \<in> set (en_dst e)" using plug_repD(4) [OF rep n] by (simp add: entry_ok_def)
  then have "(en_addr e, b) \<in> entry_links e" using d by (auto simp: entry_links_def)
  then show "(en_addr e, b) \<in> tab_links (pg_entries s)" using n by (auto simp: tab_links_def ran_def)
next
  assume "(en_addr e, b) \<in> tab_links (pg_entries s)"
  then obtain m f where f: "pg_entries s m = Some f" "(en_addr e, b) \<in> entry_links f" by (auto simp: tab_links_def ran_def)
  then have "en_addr f = en_addr e" by (auto simp: entry_links_def)
  then have "f = e" using plug_repD(8) [OF rep f(1) n] f(1) n by simp
  then obtain i d where i: "i < length (en_dst e)" "d \<in> set (en_dst e ! i)" "ds_addr d = b"
    using f(2) by (auto simp: entry_links_def in_set_conv_nth [of _ "en_dst e"])
  then have "hash_row b = i" using plug_repD(4) [OF rep n] by (auto simp: entry_ok_def)
  then show "b \<in> ds_addr ` set (en_dst e ! hash_row b)" using i by auto
qed

text \<open>Chains grow at their heads, and the entries that are there keep their addresses.\<close>

definition grows :: "(nat \<Rightarrow> nat list) \<Rightarrow> heap \<Rightarrow> (nat \<Rightarrow> nat list) \<Rightarrow> heap \<Rightarrow> bool" where
  "grows ch E ch' E' \<longleftrightarrow> (\<forall>i. \<exists>ns. ch' i = ns @ ch i) \<and> (\<forall>n e. E n = Some e \<longrightarrow> (\<exists>f. E' n = Some f \<and> en_addr f = en_addr e))"

lemma grows_refl [simp]: "grows ch E ch E"
  by (simp add: grows_def)

lemma grows_trans: "grows ch E ch1 E1 \<Longrightarrow> grows ch1 E1 ch2 E2 \<Longrightarrow> grows ch E ch2 E2"
  unfolding grows_def by (metis append.assoc)

lemma grows_upd: "E n = Some e \<Longrightarrow> en_addr f = en_addr e \<Longrightarrow> grows ch E ch (E(n \<mapsto> f))"
  by (simp add: grows_def)

lemma grows_push:
  "\<forall>m f. E m = Some f \<longrightarrow> (\<exists>g. E' m = Some g \<and> same_core f g) \<Longrightarrow> grows ch E (ch(h := n # ch h)) E'"
  unfolding grows_def using same_coreD(1) by (auto intro: exI [of _ "[n]"]) blast+

lemma link_dst_ok:
  assumes rep: "plug_rep ifs s ch" and n: "pg_entries s n = Some e" and a: "en_addr e = a"
  shows "\<exists>s'. link_dst n a b s = Some s' \<and> plug_rep ifs s' ch \<and>
    tab_nodes (pg_entries s') = tab_nodes (pg_entries s) \<and> tab_marked (pg_entries s') = tab_marked (pg_entries s) \<and>
    tab_links (pg_entries s') = insert (a, b) (tab_links (pg_entries s)) \<and>
    tab_mlinks (pg_entries s') = insert (a, b) (tab_mlinks (pg_entries s)) \<and> pg_mid s' = pg_mid s \<and>
    pg_out s' = (if (a, b) \<in> tab_links (pg_entries s) then pg_out s else pg_out (dev_add_link a b 1 s)) \<and>
    grows ch (pg_entries s) ch (pg_entries s')"
proof -
  let ?i = "hash_row b"
  let ?chain = "en_dst e ! ?i"
  have ok: "entry_ok ifs e" by (rule plug_repD(4) [OF rep n])
  then have len: "?i < length (en_dst e)" by (simp add: entry_ok_def)
  define ys where "ys = (case mark_dst b ?chain of Some c \<Rightarrow> c | None \<Rightarrow> \<lparr>ds_addr = b, ds_active = True\<rparr> # ?chain)"
  define k where "k = en_nb_dst e + (if mark_dst b ?chain = None then 1 else 0)"
  let ?e = "e\<lparr>en_dst := (en_dst e)[?i := ys], en_nb_dst := k\<rparr>"
  have known: "mark_dst b ?chain = None \<longleftrightarrow> (a, b) \<notin> tab_links (pg_entries s)"
    using link_known [OF rep n] a by (simp add: mark_dst_None)
  have ys: "ds_addr ` set ys = insert b (ds_addr ` set ?chain)"
    "ds_addr ` {d \<in> set ys. ds_active d} = insert b (ds_addr ` {d \<in> set ?chain. ds_active d})"
    "int (length ys) - int (length ?chain) = k - en_nb_dst e"
  proof (atomize (full), cases "mark_dst b ?chain")
    case None
    have "{d \<in> set (\<lparr>ds_addr = b, ds_active = True\<rparr> # ?chain). ds_active d} =
      insert \<lparr>ds_addr = b, ds_active = True\<rparr> {d \<in> set ?chain. ds_active d}" by auto
    then show "ds_addr ` set ys = insert b (ds_addr ` set ?chain) \<and>
      ds_addr ` {d \<in> set ys. ds_active d} = insert b (ds_addr ` {d \<in> set ?chain. ds_active d}) \<and>
      int (length ys) - int (length ?chain) = k - en_nb_dst e"
      using None by (simp add: ys_def k_def)
  next
    case (Some c)
    then have "b \<in> ds_addr ` set ?chain" using mark_dst_None [of b ?chain] by simp
    then show "ds_addr ` set ys = insert b (ds_addr ` set ?chain) \<and>
      ds_addr ` {d \<in> set ys. ds_active d} = insert b (ds_addr ` {d \<in> set ?chain. ds_active d}) \<and>
      int (length ys) - int (length ?chain) = k - en_nb_dst e"
      using Some mark_dst_Some [OF Some] by (auto simp: ys_def k_def)
  qed
  have dist: "distinct (map ds_addr ys)"
  proof -
    have "distinct (map ds_addr ?chain)" using ok len by (simp add: entry_ok_def)
    then show ?thesis using mark_dst_None [of b ?chain] mark_dst_Some [of b ?chain] by (auto simp: ys_def split: option.splits)
  qed
  have row: "hash_row (ds_addr d) = ?i" if "d \<in> set ys" for d
  proof -
    have "ds_addr d \<in> insert b (ds_addr ` set ?chain)" using that ys(1) by blast
    then show ?thesis using ok len by (auto simp: entry_ok_def)
  qed
  have "entry_ok ifs ?e"
    using ok set_concat_upd(3) [OF len, of ys] ys(3) row dist
    by (auto simp: entry_ok_def nth_list_update simp del: length_concat)
  then have rep': "plug_rep ifs (s\<lparr>pg_entries := (pg_entries s)(n \<mapsto> ?e)\<rparr>) ch"
    by (intro plug_rep_upd [OF rep n]) simp_all
  note links = entry_chain_upd [OF len ys(1,2), of k]
  have sub: "entry_links e \<subseteq> tab_links (pg_entries s)" "entry_mlinks e \<subseteq> tab_mlinks (pg_entries s)"
    using n by (auto simp: tab_defs ran_def)
  have mk: "en_active e \<Longrightarrow> insert (en_addr e) (tab_marked (pg_entries s)) = tab_marked (pg_entries s)"
    using n by (auto simp: tab_marked_def ran_def)
  have tabs: "tab_nodes ((pg_entries s)(n \<mapsto> ?e)) = tab_nodes (pg_entries s)"
    "tab_marked ((pg_entries s)(n \<mapsto> ?e)) = tab_marked (pg_entries s)"
    "tab_links ((pg_entries s)(n \<mapsto> ?e)) = insert (a, b) (tab_links (pg_entries s))"
    "tab_mlinks ((pg_entries s)(n \<mapsto> ?e)) = insert (a, b) (tab_mlinks (pg_entries s))"
  proof -
    note upd = tab_upd [where E = "pg_entries s" and n = n and e = e and e' = ?e, OF n]
    have "tab_links ((pg_entries s)(n \<mapsto> ?e)) = tab_links (pg_entries s) \<union> insert (en_addr e, b) (entry_links e)"
      unfolding links(1) [symmetric] by (rule upd(3)) (auto simp: links)
    then show "tab_links ((pg_entries s)(n \<mapsto> ?e)) = insert (a, b) (tab_links (pg_entries s))" using sub(1) a by blast
    have "tab_mlinks ((pg_entries s)(n \<mapsto> ?e)) = tab_mlinks (pg_entries s) \<union> insert (en_addr e, b) (entry_mlinks e)"
      unfolding links(2) [symmetric] by (rule upd(4)) (auto simp: links)
    then show "tab_mlinks ((pg_entries s)(n \<mapsto> ?e)) = insert (a, b) (tab_mlinks (pg_entries s))" using sub(2) a by blast
    show "tab_nodes ((pg_entries s)(n \<mapsto> ?e)) = tab_nodes (pg_entries s)" by (rule upd(1)) simp_all
    show "tab_marked ((pg_entries s)(n \<mapsto> ?e)) = tab_marked (pg_entries s)" using upd(2) mk by simp
  qed
  define s' where "s' = (if mark_dst b ?chain = None then dev_add_link a b 1 else id) (s\<lparr>pg_entries := (pg_entries s)(n \<mapsto> ?e)\<rparr>)"
  have same: "e\<lparr>en_dst := x, en_nb_dst := en_nb_dst e\<rparr> = e\<lparr>en_dst := x\<rparr>" for x by (cases e) simp
  have len': "length (en_dst e) = hashsize" using ok by (simp add: entry_ok_def)
  have "link_dst n a b s = Some s'"
    using n len' by (cases "mark_dst b ?chain") (simp_all add: link_dst_def s'_def ys_def k_def same)
  moreover have "pg_entries s' = (pg_entries s)(n \<mapsto> ?e)" "pg_mid s' = pg_mid s" "plug_rep ifs s' ch"
    "pg_out s' = (if (a, b) \<in> tab_links (pg_entries s) then pg_out s else pg_out (dev_add_link a b 1 s))"
    using rep' known by (auto simp: s'_def dev_add_link_def dev_add_cmd_def)
  moreover have "grows ch (pg_entries s) ch ((pg_entries s)(n \<mapsto> ?e))" using n by (rule grows_upd) simp
  ultimately show ?thesis using tabs by simp
qed

text \<open>The commands that one link causes.\<close>

abbreviation "c_add_node a \<equiv> \<lparr>dc_type = cmd_add_node, dc_addr_1 = Some a, dc_addr_2 = None, dc_value = 0\<rparr>"
abbreviation "c_rmv_node a \<equiv> \<lparr>dc_type = cmd_remove_node, dc_addr_1 = Some a, dc_addr_2 = None, dc_value = 0\<rparr>"
abbreviation "c_add_link a b \<equiv> \<lparr>dc_type = cmd_add_link, dc_addr_1 = Some a, dc_addr_2 = Some b, dc_value = 1\<rparr>"
abbreviation "c_rmv_link a b \<equiv> \<lparr>dc_type = cmd_remove_link, dc_addr_1 = Some a, dc_addr_2 = Some b, dc_value = 0\<rparr>"
abbreviation "c_add_alias a b \<equiv> \<lparr>dc_type = cmd_add_alias, dc_addr_1 = Some a, dc_addr_2 = Some b, dc_value = 0\<rparr>"
abbreviation "c_rmv_alias a b \<equiv> \<lparr>dc_type = cmd_remove_alias, dc_addr_1 = Some a, dc_addr_2 = Some b, dc_value = 0\<rparr>"

lemmas dev_defs = dev_add_node_def dev_rmv_node_def dev_add_link_def dev_rmv_link_def dev_add_alias_def
  dev_rmv_alias_def dev_add_cmd_def

definition good_link :: "olsr_env \<Rightarrow> ip_addr \<times> ip_addr \<Rightarrow> bool" where
  "good_link env = (\<lambda>(a, b). tc_is_addr_local (oe_ifs env) a \<longrightarrow> tc_is_in_neighbourhood (oe_nbrs env) b)"

definition add_link_cmds :: "ip_addr \<times> ip_addr \<Rightarrow> heap \<Rightarrow> dev_cmd list" where
  "add_link_cmds = (\<lambda>(a, b) E.
     (if a \<in> tab_nodes E then [] else [c_add_node a]) @
     (if b \<in> insert a (tab_nodes E) then [] else [c_add_node b]) @
     (if (a, b) \<in> tab_links E then [] else [c_add_link a b]))"

lemma link_src_ok:
  assumes rep: "plug_rep ifs s ch" and ifs: "oe_ifs env = ifs" and good: "good_link env (a, b)"
  shows "\<exists>n s' ch' e. link_src env a b s = Some (Some (n, s')) \<and> plug_rep ifs s' ch' \<and>
    pg_entries s' n = Some e \<and> en_addr e = a \<and>
    tab_nodes (pg_entries s') = insert a (tab_nodes (pg_entries s)) \<and>
    tab_marked (pg_entries s') = insert a (tab_marked (pg_entries s)) \<and>
    tab_links (pg_entries s') = tab_links (pg_entries s) \<and> tab_mlinks (pg_entries s') = tab_mlinks (pg_entries s) \<and>
    pg_mid s' = pg_mid s \<and> pg_out s' = pg_out s @ (if a \<in> tab_nodes (pg_entries s) then [] else [c_add_node a]) \<and>
    grows ch (pg_entries s) ch' (pg_entries s')"
  using rep
proof (cases rule: tc_get_node_cases [where a = a])
  case (found n e)
  have loc: "en_local e = tc_is_addr_local ifs a"
    using plug_repD(4) [OF rep found(2)] found(3) by (simp add: entry_ok_def)
  have a: "a \<in> tab_nodes (pg_entries s)" using found by (auto simp: tab_nodes_def ran_def)
  obtain s' where s': "upd_entry n (en_active_update (\<lambda>_. True)) s = Some s'" "plug_rep ifs s' ch"
    "pg_entries s' = (pg_entries s)(n \<mapsto> e\<lparr>en_active := True\<rparr>)"
    "tab_nodes (pg_entries s') = tab_nodes (pg_entries s)"
    "tab_marked (pg_entries s') = insert (en_addr e) (tab_marked (pg_entries s))"
    "tab_links (pg_entries s') = tab_links (pg_entries s)" "tab_mlinks (pg_entries s') = tab_mlinks (pg_entries s)"
    "pg_mid s' = pg_mid s" "pg_out s' = pg_out s"
    using mark_entry_ok [OF rep found(2)] by blast
  have "link_src env a b s = Some (Some (n, s'))"
    using found s'(1) loc good ifs by (auto simp: link_src_def good_link_def)
  moreover have "grows ch (pg_entries s) ch (pg_entries s')" unfolding s'(3) using found(2) by (rule grows_upd) simp
  ultimately show ?thesis using s' a found(3) by (intro exI [of _ n] exI [of _ s'] exI [of _ ch]) (auto simp: insert_absorb)
next
  case absent
  obtain n s1 e where s1: "tc_create_node ifs a s = Some (n, s1)" "plug_rep ifs s1 (ch(hash_row a := n # ch (hash_row a)))"
    "pg_entries s1 n = Some e" "en_addr e = a" "en_active e"
    "tab_nodes (pg_entries s1) = insert a (tab_nodes (pg_entries s))"
    "tab_marked (pg_entries s1) = insert a (tab_marked (pg_entries s))"
    "tab_links (pg_entries s1) = tab_links (pg_entries s)" "tab_mlinks (pg_entries s1) = tab_mlinks (pg_entries s)"
    "pg_mid s1 = pg_mid s" "pg_out s1 = pg_out (dev_add_node a s)"
    "\<forall>m f. pg_entries s m = Some f \<longrightarrow> (\<exists>g. pg_entries s1 m = Some g \<and> same_core f g)"
    using tc_create_node_ok [OF rep absent(2)] by blast
  obtain s' where s': "upd_entry n (en_active_update (\<lambda>_. True)) s1 = Some s'"
    "plug_rep ifs s' (ch(hash_row a := n # ch (hash_row a)))"
    "pg_entries s' = (pg_entries s1)(n \<mapsto> e\<lparr>en_active := True\<rparr>)"
    "tab_nodes (pg_entries s') = tab_nodes (pg_entries s1)"
    "tab_marked (pg_entries s') = insert (en_addr e) (tab_marked (pg_entries s1))"
    "tab_links (pg_entries s') = tab_links (pg_entries s1)" "tab_mlinks (pg_entries s') = tab_mlinks (pg_entries s1)"
    "pg_mid s' = pg_mid s1" "pg_out s' = pg_out s1"
    using mark_entry_ok [OF s1(2,3)] by blast
  have "link_src env a b s = Some (Some (n, s'))"
    using absent s1(1) s'(1) good ifs by (auto simp: link_src_def good_link_def)
  moreover have "pg_entries s' n = Some (e\<lparr>en_active := True\<rparr>)" using s'(3) by simp
  moreover have "grows ch (pg_entries s) (ch(hash_row a := n # ch (hash_row a))) (pg_entries s')"
    unfolding s'(3) using grows_trans [OF grows_push [OF s1(12)] grows_upd [where E = "pg_entries s1" and e = e, OF s1(3)]] by simp
  ultimately show ?thesis using s'(2,4-9) s1(2-11) absent(2)
    by (intro exI [of _ n] exI [of _ s'] exI [of _ "ch(hash_row a := n # ch (hash_row a))"] exI [of _ "e\<lparr>en_active := True\<rparr>"])
      (simp add: dev_defs)
qed

text \<open>The destination is looked up or created, and marked; an entry that is held stays where it is.\<close>

lemma link_target_ok:
  assumes rep: "plug_rep ifs s ch" and n: "pg_entries s n = Some e"
  shows "\<exists>s' ch' f. link_target ifs b s = Some s' \<and> plug_rep ifs s' ch' \<and>
    pg_entries s' n = Some f \<and> en_addr f = en_addr e \<and>
    tab_nodes (pg_entries s') = insert b (tab_nodes (pg_entries s)) \<and>
    tab_marked (pg_entries s') = insert b (tab_marked (pg_entries s)) \<and>
    tab_links (pg_entries s') = tab_links (pg_entries s) \<and> tab_mlinks (pg_entries s') = tab_mlinks (pg_entries s) \<and>
    pg_mid s' = pg_mid s \<and> pg_out s' = pg_out s @ (if b \<in> tab_nodes (pg_entries s) then [] else [c_add_node b]) \<and>
    grows ch (pg_entries s) ch' (pg_entries s')"
  using rep
proof (cases rule: tc_get_node_cases [where a = b])
  case (found m g)
  have b: "b \<in> tab_nodes (pg_entries s)" using found by (auto simp: tab_nodes_def ran_def)
  obtain s' where s': "upd_entry m (en_active_update (\<lambda>_. True)) s = Some s'" "plug_rep ifs s' ch"
    "pg_entries s' = (pg_entries s)(m \<mapsto> g\<lparr>en_active := True\<rparr>)"
    "tab_nodes (pg_entries s') = tab_nodes (pg_entries s)"
    "tab_marked (pg_entries s') = insert (en_addr g) (tab_marked (pg_entries s))"
    "tab_links (pg_entries s') = tab_links (pg_entries s)" "tab_mlinks (pg_entries s') = tab_mlinks (pg_entries s)"
    "pg_mid s' = pg_mid s" "pg_out s' = pg_out s"
    using mark_entry_ok [OF rep found(2)] by blast
  have "\<exists>f. pg_entries s' n = Some f \<and> en_addr f = en_addr e" using s'(3) n found(2) by (cases "m = n") auto
  moreover have "link_target ifs b s = Some s'" using found(1) s'(1) by (simp add: link_target_def)
  moreover have "grows ch (pg_entries s) ch (pg_entries s')" unfolding s'(3) using found(2) by (rule grows_upd) simp
  ultimately show ?thesis using found(3) s' b by (intro exI [of _ s'] exI [of _ ch]) (auto simp: insert_absorb)
next
  case absent
  obtain m s1 g where s1: "tc_create_node ifs b s = Some (m, s1)" "plug_rep ifs s1 (ch(hash_row b := m # ch (hash_row b)))"
    "pg_entries s1 m = Some g" "en_addr g = b" "pg_entries s m = None"
    "tab_nodes (pg_entries s1) = insert b (tab_nodes (pg_entries s))"
    "tab_marked (pg_entries s1) = insert b (tab_marked (pg_entries s))"
    "tab_links (pg_entries s1) = tab_links (pg_entries s)" "tab_mlinks (pg_entries s1) = tab_mlinks (pg_entries s)"
    "\<forall>m f. pg_entries s m = Some f \<longrightarrow> (\<exists>g. pg_entries s1 m = Some g \<and> same_core f g)"
    "pg_mid s1 = pg_mid s" "pg_out s1 = pg_out (dev_add_node b s)"
    using tc_create_node_ok [OF rep absent(2)] by blast
  obtain s' where s': "upd_entry m (en_active_update (\<lambda>_. True)) s1 = Some s'"
    "plug_rep ifs s' (ch(hash_row b := m # ch (hash_row b)))"
    "pg_entries s' = (pg_entries s1)(m \<mapsto> g\<lparr>en_active := True\<rparr>)"
    "tab_nodes (pg_entries s') = tab_nodes (pg_entries s1)"
    "tab_marked (pg_entries s') = insert (en_addr g) (tab_marked (pg_entries s1))"
    "tab_links (pg_entries s') = tab_links (pg_entries s1)" "tab_mlinks (pg_entries s') = tab_mlinks (pg_entries s1)"
    "pg_mid s' = pg_mid s1" "pg_out s' = pg_out s1"
    using mark_entry_ok [OF s1(2,3)] by blast
  obtain f where f: "pg_entries s1 n = Some f" "same_core e f" using s1(10) n by blast
  moreover have "m \<noteq> n" using s1(5) n by auto
  ultimately have "pg_entries s' n = Some f" "en_addr f = en_addr e" using s'(3) same_coreD(1) [OF f(2)] by auto
  moreover have "link_target ifs b s = Some s'" using absent(1) s1(1) s'(1) by (simp add: link_target_def)
  moreover have "pg_out s' = pg_out s @ [c_add_node b]" using s1(12) s'(9) by (simp add: dev_defs)
  moreover have "grows ch (pg_entries s) (ch(hash_row b := m # ch (hash_row b))) (pg_entries s')"
    unfolding s'(3) using grows_trans [OF grows_push [OF s1(10)] grows_upd [where E = "pg_entries s1" and e = g, OF s1(3)]] by simp
  ultimately show ?thesis using absent(2) s1(4,6-9,11) s'(2,4-8) by auto
qed

lemma tc_addLink_ok:
  assumes rep: "plug_rep ifs s ch" and ifs: "oe_ifs env = ifs" and good: "good_link env (a, b)"
  shows "\<exists>s' ch'. tc_addLink env a b s = Some s' \<and> plug_rep ifs s' ch' \<and>
    tab_nodes (pg_entries s') = tab_nodes (pg_entries s) \<union> {a, b} \<and>
    tab_marked (pg_entries s') = tab_marked (pg_entries s) \<union> {a, b} \<and>
    tab_links (pg_entries s') = insert (a, b) (tab_links (pg_entries s)) \<and>
    tab_mlinks (pg_entries s') = insert (a, b) (tab_mlinks (pg_entries s)) \<and>
    pg_mid s' = pg_mid s \<and> pg_out s' = pg_out s @ add_link_cmds (a, b) (pg_entries s) \<and>
    grows ch (pg_entries s) ch' (pg_entries s')"
proof -
  obtain n s1 ch1 e where s1: "link_src env a b s = Some (Some (n, s1))" "plug_rep ifs s1 ch1"
    "pg_entries s1 n = Some e" "en_addr e = a"
    "tab_nodes (pg_entries s1) = insert a (tab_nodes (pg_entries s))"
    "tab_marked (pg_entries s1) = insert a (tab_marked (pg_entries s))"
    "tab_links (pg_entries s1) = tab_links (pg_entries s)" "tab_mlinks (pg_entries s1) = tab_mlinks (pg_entries s)"
    "pg_mid s1 = pg_mid s" "pg_out s1 = pg_out s @ (if a \<in> tab_nodes (pg_entries s) then [] else [c_add_node a])"
    "grows ch (pg_entries s) ch1 (pg_entries s1)"
    using link_src_ok [OF assms] by blast
  obtain s2 ch2 f where s2: "link_target ifs b s1 = Some s2" "plug_rep ifs s2 ch2"
    "pg_entries s2 n = Some f" "en_addr f = a"
    "tab_nodes (pg_entries s2) = insert b (tab_nodes (pg_entries s1))"
    "tab_marked (pg_entries s2) = insert b (tab_marked (pg_entries s1))"
    "tab_links (pg_entries s2) = tab_links (pg_entries s1)" "tab_mlinks (pg_entries s2) = tab_mlinks (pg_entries s1)"
    "pg_mid s2 = pg_mid s1" "pg_out s2 = pg_out s1 @ (if b \<in> tab_nodes (pg_entries s1) then [] else [c_add_node b])"
    "grows ch1 (pg_entries s1) ch2 (pg_entries s2)"
    using link_target_ok [OF s1(2,3), of b] s1(4) by blast
  obtain s3 where s3: "link_dst n a b s2 = Some s3" "plug_rep ifs s3 ch2"
    "tab_nodes (pg_entries s3) = tab_nodes (pg_entries s2)" "tab_marked (pg_entries s3) = tab_marked (pg_entries s2)"
    "tab_links (pg_entries s3) = insert (a, b) (tab_links (pg_entries s2))"
    "tab_mlinks (pg_entries s3) = insert (a, b) (tab_mlinks (pg_entries s2))" "pg_mid s3 = pg_mid s2"
    "pg_out s3 = (if (a, b) \<in> tab_links (pg_entries s2) then pg_out s2 else pg_out (dev_add_link a b 1 s2))"
    "grows ch2 (pg_entries s2) ch2 (pg_entries s3)"
    using link_dst_ok [OF s2(2,3,4)] by blast
  have "grows ch (pg_entries s) ch2 (pg_entries s3)" by (rule grows_trans [OF grows_trans [OF s1(11) s2(11)] s3(9)])
  moreover have "tc_addLink env a b s = Some s3"
    using s1(1) s2(1) s3(1) ifs by (simp add: tc_addLink_def)
  ultimately show ?thesis
    using s3 s2(5-10) s1(5-10)
    by (intro exI [of _ s3] exI [of _ ch2]) (auto simp: add_link_cmds_def dev_defs)
qed

lemma tc_addLink_bad:
  assumes rep: "plug_rep ifs s ch" and ifs: "oe_ifs env = ifs" and bad: "\<not> good_link env (a, b)"
  shows "tc_addLink env a b s = Some s"
  using rep
proof (cases rule: tc_get_node_cases [where a = a])
  case (found n e)
  then have "en_local e = tc_is_addr_local ifs a" using plug_repD(4) [OF rep found(2)] by (simp add: entry_ok_def)
  then show ?thesis using found bad ifs by (simp add: tc_addLink_def link_src_def good_link_def)
next
  case absent
  then show ?thesis using bad ifs by (simp add: tc_addLink_def link_src_def good_link_def)
qed

section \<open>Clearing the marks\<close>

definition clear_entry :: "tc_entry \<Rightarrow> tc_entry" where
  "clear_entry e = e\<lparr>en_active := False, en_dst := map (map (ds_active_update (\<lambda>_. False))) (en_dst e)\<rparr>"

definition clear_on :: "nat set \<Rightarrow> heap \<Rightarrow> heap" where
  "clear_on S E = (\<lambda>n. if n \<in> S then map_option clear_entry (E n) else E n)"

lemma clear_entry_simps [simp]:
  "en_addr (clear_entry e) = en_addr e" "en_prev (clear_entry e) = en_prev e" "en_next (clear_entry e) = en_next e"
  "\<not> en_active (clear_entry e)" "en_local (clear_entry e) = en_local e"
  by (simp_all add: clear_entry_def)

lemma clear_entry_ok: "entry_ok ifs (clear_entry e) = entry_ok ifs e"
proof -
  have "map ds_addr (map (ds_active_update (\<lambda>_. False)) ds) = map ds_addr ds" for ds by simp
  then show ?thesis
    by (auto simp: entry_ok_def clear_entry_def nth_map o_def simp flip: map_concat)
qed

lemma clear_entry_links: "entry_links (clear_entry e) = entry_links e" "entry_mlinks (clear_entry e) = {}"
  by (simp_all only: entry_links_def entry_mlinks_def clear_entry_def)
    (auto simp: image_image simp flip: map_concat)

lemma en_seg_clear: "en_seg (clear_on S E) p c ns \<longleftrightarrow> en_seg E p c ns"
  by (induction ns arbitrary: p c) (auto simp: clear_on_def split: if_splits)

lemma clear_on_insert: "E n = Some e \<Longrightarrow> n \<notin> S \<Longrightarrow> clear_on S (E(n \<mapsto> clear_entry e)) = clear_on (insert n S) E"
  by (auto simp: clear_on_def)

lemma reset_chain_seg:
  assumes "en_seg (pg_entries s) p c ns" "distinct ns"
  shows "reset_chain c s = Some (s\<lparr>pg_entries := clear_on (set ns) (pg_entries s)\<rparr>)"
  using assms
proof (induction ns arbitrary: p c s)
  case Nil
  then show ?case by (simp add: reset_chain.simps clear_on_def)
next
  case (Cons n ns)
  then obtain e where e: "c = Some n" "pg_entries s n = Some e" "en_seg (pg_entries s) (Some n) (en_next e) ns" by auto
  let ?s = "s\<lparr>pg_entries := (pg_entries s)(n \<mapsto> clear_entry e)\<rparr>"
  have "en_seg (pg_entries ?s) (Some n) (en_next e) ns" using en_seg_frame [OF e(3)] Cons.prems(2) by simp
  then have "reset_chain (en_next e) ?s = Some (?s\<lparr>pg_entries := clear_on (set ns) (pg_entries ?s)\<rparr>)"
    by (rule Cons.IH) (use Cons.prems(2) in simp)
  moreover have "clear_on (set ns) ((pg_entries s)(n \<mapsto> clear_entry e)) = clear_on (set (n # ns)) (pg_entries s)"
    using clear_on_insert [where E = "pg_entries s" and n = n and e = e, OF e(2)] Cons.prems(2) by simp
  ultimately show ?case using e by (subst reset_chain.simps) (simp add: Let_def clear_entry_def [symmetric])
qed

lemma clear_on_Un: "clear_on S (clear_on T E) = clear_on (S \<union> T) E" if "S \<inter> T = {}"
  by (rule ext) (use that in \<open>auto simp: clear_on_def\<close>)

lemma ran_clear: "ran (map_option clear_entry \<circ> E) = clear_entry ` ran E"
  by (auto simp: ran_def)

lemma tab_clear:
  "tab_nodes (map_option clear_entry \<circ> E) = tab_nodes E" "tab_marked (map_option clear_entry \<circ> E) = {}"
  "tab_links (map_option clear_entry \<circ> E) = tab_links E" "tab_mlinks (map_option clear_entry \<circ> E) = {}"
  by (auto simp: tab_defs ran_clear clear_entry_links image_image)

lemma tc_reset_active_flag_ok:
  assumes rep: "plug_rep ifs s ch"
  shows "tc_reset_active_flag s = Some (s\<lparr>pg_entries := map_option clear_entry \<circ> pg_entries s,
    pg_mid := map (md_active_update (\<lambda>_. False)) (pg_mid s)\<rparr>)"
proof -
  define P where "P i t \<longleftrightarrow> t = s\<lparr>pg_entries := clear_on (\<Union>j < i. set (ch j)) (pg_entries s)\<rparr>" for i t
  have "\<exists>t. iter [0..<hashsize] (\<lambda>i s. do { c \<leftarrow> rd (pg_tab s) (int i); reset_chain c s }) s = Some t \<and> P hashsize t"
  proof (rule iter_upt_total)
    show "P 0 s" by (simp add: P_def clear_on_def)
    fix i t
    assume i: "i < hashsize" and "P i t"
    then have t: "t = s\<lparr>pg_entries := clear_on (\<Union>j < i. set (ch j)) (pg_entries s)\<rparr>" by (simp add: P_def)
    have seg: "en_seg (pg_entries t) None (pg_tab s ! i) (ch i)"
      using plug_repD(2) [OF rep i] by (simp add: t en_seg_clear)
    have disj: "set (ch i) \<inter> (\<Union>j < i. set (ch j)) = {}"
      using chains_disjoint [OF rep i] i by (auto dest: less_trans)
    have "reset_chain (pg_tab s ! i) t = Some (t\<lparr>pg_entries := clear_on (set (ch i)) (pg_entries t)\<rparr>)"
      by (rule reset_chain_seg [OF seg plug_repD(3) [OF rep i]])
    moreover have "P (Suc i) (t\<lparr>pg_entries := clear_on (set (ch i)) (pg_entries t)\<rparr>)"
      using clear_on_Un [OF disj, of "pg_entries s"] by (simp add: P_def t lessThan_Suc)
    ultimately show "\<exists>t'. do { c \<leftarrow> rd (pg_tab t) (int i); reset_chain c t } = Some t' \<and> P (Suc i) t'"
      using plug_repD(1) [OF rep] i by (simp add: t)
  qed
  moreover have "clear_on (\<Union>j < hashsize. set (ch j)) (pg_entries s) = map_option clear_entry \<circ> pg_entries s"
  proof
    fix n
    show "clear_on (\<Union>j < hashsize. set (ch j)) (pg_entries s) n = (map_option clear_entry \<circ> pg_entries s) n"
    proof (cases "pg_entries s n")
      case (Some e)
      then have "n \<in> (\<Union>j < hashsize. set (ch j))" using plug_repD(6) [OF rep Some] hash_row_lt by blast
      then show ?thesis by (simp add: clear_on_def)
    qed (simp add: clear_on_def)
  qed
  ultimately show ?thesis by (auto simp: tc_reset_active_flag_def P_def)
qed

lemma plug_rep_clear:
  assumes rep: "plug_rep ifs s ch"
  shows "plug_rep ifs (s\<lparr>pg_entries := map_option clear_entry \<circ> pg_entries s, pg_mid := m\<rparr>) ch"
proof -
  have seg: "en_seg (map_option clear_entry \<circ> pg_entries s) p c ns = en_seg (pg_entries s) p c ns" for p c ns
    by (induction ns arbitrary: p c) auto
  show ?thesis
    using rep unfolding plug_rep_def by (auto simp: seg clear_entry_ok)
qed

end
