(* ===== verification/Plugin_Marks.thy ===== *)
theory Plugin_Marks imports Plugin_Inv begin

text \<open>
  The marking half of an event: after it the marked nodes and links are those of the daemon's topology set. A listener
  that executes the commands on sets of nodes, links and aliases is kept in step.
\<close>

section \<open>A listener\<close>

record net =
  nt_nodes :: "ip_addr set"
  nt_links :: "(ip_addr \<times> ip_addr) set"
  nt_alias :: "(ip_addr \<times> ip_addr) set"

text \<open>Links are known between known nodes only, and disappear with their nodes.\<close>

definition net_cmd :: "dev_cmd \<Rightarrow> net \<Rightarrow> net" where
  "net_cmd c N =
     (case (dc_addr_1 c, dc_addr_2 c) of
        (Some a, None) \<Rightarrow>
          if dc_type c = cmd_add_node then N\<lparr>nt_nodes := insert a (nt_nodes N)\<rparr>
          else if dc_type c = cmd_remove_node
          then N\<lparr>nt_nodes := nt_nodes N - {a}, nt_links := {(x, y) \<in> nt_links N. x \<noteq> a \<and> y \<noteq> a}\<rparr>
          else N
      | (Some a, Some b) \<Rightarrow>
          if dc_type c = cmd_add_link
          then (if a \<in> nt_nodes N \<and> b \<in> nt_nodes N then N\<lparr>nt_links := insert (a, b) (nt_links N)\<rparr> else N)
          else if dc_type c = cmd_remove_link then N\<lparr>nt_links := nt_links N - {(a, b)}\<rparr>
          else if dc_type c = cmd_add_alias then N\<lparr>nt_alias := insert (a, b) (nt_alias N)\<rparr>
          else if dc_type c = cmd_remove_alias then N\<lparr>nt_alias := nt_alias N - {(a, b)}\<rparr>
          else N
      | _ \<Rightarrow> N)"

definition mid_pair :: "tc_mid \<Rightarrow> ip_addr \<times> ip_addr" where
  "mid_pair d = (md_main d, md_alias d)"

definition net_of :: "plugin \<Rightarrow> net" where
  "net_of s = \<lparr>nt_nodes = tab_nodes (pg_entries s),
     nt_links = tab_links (pg_entries s) \<inter> tab_nodes (pg_entries s) \<times> tab_nodes (pg_entries s),
     nt_alias = mid_pair ` set (pg_mid s)\<rparr>"

text \<open>The commands queued between two states lead a listener from the one to the other.\<close>

definition tells :: "plugin \<Rightarrow> plugin \<Rightarrow> bool" where
  "tells s s' \<longleftrightarrow> (\<exists>cs. pg_out s' = pg_out s @ cs \<and> fold net_cmd cs (net_of s) = net_of s')"

lemma tells_refl [simp]: "tells s s"
  by (simp add: tells_def)

lemma tells_trans: "tells s t \<Longrightarrow> tells t u \<Longrightarrow> tells s u"
  unfolding tells_def by (metis append.assoc fold_append comp_apply)

lemma net_cmd_simps [simp]:
  "net_cmd (c_add_node a) N = N\<lparr>nt_nodes := insert a (nt_nodes N)\<rparr>"
  "net_cmd (c_rmv_node a) N = N\<lparr>nt_nodes := nt_nodes N - {a}, nt_links := {(x, y) \<in> nt_links N. x \<noteq> a \<and> y \<noteq> a}\<rparr>"
  "net_cmd (c_add_link a b) N = (if a \<in> nt_nodes N \<and> b \<in> nt_nodes N then N\<lparr>nt_links := insert (a, b) (nt_links N)\<rparr> else N)"
  "net_cmd (c_rmv_link a b) N = N\<lparr>nt_links := nt_links N - {(a, b)}\<rparr>"
  "net_cmd (c_add_alias a b) N = N\<lparr>nt_alias := insert (a, b) (nt_alias N)\<rparr>"
  "net_cmd (c_rmv_alias a b) N = N\<lparr>nt_alias := nt_alias N - {(a, b)}\<rparr>"
  by (simp_all add: net_cmd_def cmd_defs)

section \<open>Consistency of links and marks\<close>

text \<open>Every link ends at a node, and no alias is listed twice.\<close>

definition closed :: "plugin \<Rightarrow> bool" where
  "closed s \<longleftrightarrow> tab_links (pg_entries s) \<subseteq> tab_nodes (pg_entries s) \<times> tab_nodes (pg_entries s) \<and>
     distinct (map mid_pair (pg_mid s))"

lemma add_link_tells:
  assumes closed: "closed s"
    and s': "tab_nodes (pg_entries s') = tab_nodes (pg_entries s) \<union> {a, b}"
      "tab_links (pg_entries s') = insert (a, b) (tab_links (pg_entries s))"
      "pg_mid s' = pg_mid s" "pg_out s' = pg_out s @ add_link_cmds (a, b) (pg_entries s)"
  shows "tells s s'"
proof -
  let ?V = "tab_nodes (pg_entries s)" and ?L = "tab_links (pg_entries s)"
  have L: "?L \<inter> ?V \<times> ?V = ?L" "insert (a, b) ?L \<inter> (?V \<union> {a, b}) \<times> (?V \<union> {a, b}) = insert (a, b) ?L"
    using closed by (auto simp: closed_def)
  have "fold net_cmd (add_link_cmds (a, b) (pg_entries s)) (net_of s) = net_of s'"
    using L closed by (auto simp: add_link_cmds_def net_of_def s' insert_absorb closed_def)
  then show ?thesis using s'(4) by (auto simp: tells_def)
qed

definition ends :: "(ip_addr \<times> ip_addr) set \<Rightarrow> ip_addr set" where
  "ends L = fst ` L \<union> snd ` L"

lemma mark_links_ok:
  assumes "plug_rep ifs s ch" "oe_ifs env = ifs" "closed s"
  shows "\<exists>s' ch'. iter es (\<lambda>(a, b). tc_addLink env a b) s = Some s' \<and> plug_rep ifs s' ch' \<and> closed s' \<and> tells s s' \<and>
    (let G = set (filter (good_link env) es) in
     tab_nodes (pg_entries s') = tab_nodes (pg_entries s) \<union> ends G \<and>
     tab_marked (pg_entries s') = tab_marked (pg_entries s) \<union> ends G \<and>
     tab_links (pg_entries s') = tab_links (pg_entries s) \<union> G \<and>
     tab_mlinks (pg_entries s') = tab_mlinks (pg_entries s) \<union> G \<and> pg_mid s' = pg_mid s) \<and>
    grows ch (pg_entries s) ch' (pg_entries s')"
  using assms
proof (induction es arbitrary: s ch)
  case Nil
  then show ?case by (auto simp: ends_def)
next
  case (Cons p es)
  obtain a b where p: "p = (a, b)" by (cases p)
  show ?case
  proof (cases "good_link env (a, b)")
    case False
    then show ?thesis using tc_addLink_bad [OF Cons.prems(1,2) False] Cons.IH [OF Cons.prems] by (simp add: p)
  next
    case True
    obtain s1 ch1 where s1: "tc_addLink env a b s = Some s1" "plug_rep ifs s1 ch1"
      "tab_nodes (pg_entries s1) = tab_nodes (pg_entries s) \<union> {a, b}"
      "tab_marked (pg_entries s1) = tab_marked (pg_entries s) \<union> {a, b}"
      "tab_links (pg_entries s1) = insert (a, b) (tab_links (pg_entries s))"
      "tab_mlinks (pg_entries s1) = insert (a, b) (tab_mlinks (pg_entries s))"
      "pg_mid s1 = pg_mid s" "pg_out s1 = pg_out s @ add_link_cmds (a, b) (pg_entries s)"
      "grows ch (pg_entries s) ch1 (pg_entries s1)"
      using tc_addLink_ok [OF Cons.prems(1,2) True] by blast
    have t1: "tells s s1" by (rule add_link_tells [OF Cons.prems(3) s1(3,5,7,8)])
    have "closed s1" using Cons.prems(3) s1(3,5,7) by (auto simp: closed_def)
    from Cons.IH [OF s1(2) Cons.prems(2) this] obtain s2 ch2 where s2:
      "iter es (\<lambda>(a, b). tc_addLink env a b) s1 = Some s2" "plug_rep ifs s2 ch2" "closed s2" "tells s1 s2"
      "let G = set (filter (good_link env) es) in
       tab_nodes (pg_entries s2) = tab_nodes (pg_entries s1) \<union> ends G \<and>
       tab_marked (pg_entries s2) = tab_marked (pg_entries s1) \<union> ends G \<and>
       tab_links (pg_entries s2) = tab_links (pg_entries s1) \<union> G \<and>
       tab_mlinks (pg_entries s2) = tab_mlinks (pg_entries s1) \<union> G \<and> pg_mid s2 = pg_mid s1"
      "grows ch1 (pg_entries s1) ch2 (pg_entries s2)" by blast
    show ?thesis
      using s1(1-8) s2(1-5) grows_trans [OF s1(9) s2(6)] tells_trans [OF t1 s2(4)] True
      by (intro exI [of _ s2] exI [of _ ch2]) (auto simp: p Let_def ends_def)
  qed
qed

text \<open>Aliases.\<close>

lemma mark_mid_None: "mark_mid m a ds = None \<longleftrightarrow> (m, a) \<notin> mid_pair ` set ds"
  by (induction ds) (auto simp: mid_pair_def)

lemma mark_mid_Some:
  "mark_mid m a ds = Some ds' \<Longrightarrow> map mid_pair ds' = map mid_pair ds \<and>
     mid_pair ` {d \<in> set ds'. md_active d} = insert (m, a) (mid_pair ` {d \<in> set ds. md_active d})"
proof (induction ds arbitrary: ds')
  case Nil
  then show ?case by simp
next
  case (Cons d ds)
  have split: "{x \<in> set (y # ys). md_active x} = (if md_active y then insert y {x \<in> set ys. md_active x} else {x \<in> set ys. md_active x})"
    for y ys by auto
  show ?case
  proof (cases "md_main d = m \<and> md_alias d = a")
    case True
    then have ds': "ds' = d\<lparr>md_active := True\<rparr> # ds" using Cons.prems by simp
    show ?thesis using True unfolding ds' split by (auto simp: mid_pair_def)
  next
    case False
    then obtain es where es: "mark_mid m a ds = Some es" "ds' = d # es" using Cons.prems by auto
    then show ?thesis using Cons.IH [OF es(1)] unfolding es(2) split by auto
  qed
qed

lemma tc_addMid_ok:
  assumes "plug_rep ifs s ch" "closed s"
  shows "plug_rep ifs (tc_addMid m a s) ch \<and> closed (tc_addMid m a s) \<and> tells s (tc_addMid m a s) \<and>
    pg_entries (tc_addMid m a s) = pg_entries s \<and>
    mid_pair ` {d \<in> set (pg_mid (tc_addMid m a s)). md_active d} =
      insert (m, a) (mid_pair ` {d \<in> set (pg_mid s). md_active d})"
proof (cases "mark_mid m a (pg_mid s)")
  case None
  let ?d = "\<lparr>md_main = m, md_alias = a, md_active = True\<rparr>"
  let ?s = "tc_addMid m a s"
  have s': "pg_mid ?s = ?d # pg_mid s" "pg_entries ?s = pg_entries s" "pg_out ?s = pg_out s @ [c_add_alias m a]"
    "pg_tab ?s = pg_tab s" "pg_next ?s = pg_next s"
    using None by (simp_all add: tc_addMid_def dev_defs)
  have "{d \<in> set (?d # pg_mid s). md_active d} = insert ?d {d \<in> set (pg_mid s). md_active d}" by auto
  moreover have "mid_pair ?d = (m, a)" by (simp add: mid_pair_def)
  moreover have "plug_rep ifs ?s ch" using assms(1) s' by (simp add: plug_rep_def)
  moreover have "closed ?s" using assms(2) s' None \<open>mid_pair ?d = (m, a)\<close> by (auto simp: closed_def mark_mid_None)
  moreover have "tells s ?s" using s' \<open>mid_pair ?d = (m, a)\<close> by (simp add: tells_def net_of_def)
  ultimately show ?thesis using s' by simp
next
  case (Some ds)
  let ?s = "tc_addMid m a s"
  have s': "?s = s\<lparr>pg_mid := ds\<rparr>" using Some by (simp add: tc_addMid_def)
  have ds: "map mid_pair ds = map mid_pair (pg_mid s)"
    "mid_pair ` {d \<in> set ds. md_active d} = insert (m, a) (mid_pair ` {d \<in> set (pg_mid s). md_active d})"
    using mark_mid_Some [OF Some] by auto
  have "mid_pair ` set ds = mid_pair ` set (pg_mid s)" using arg_cong [OF ds(1), of set] by simp
  then have "tells s ?s" by (simp add: s' tells_def net_of_def)
  then show ?thesis using assms ds by (simp add: s' closed_def)
qed

lemma mark_mids_ok:
  assumes "plug_rep ifs s ch" "closed s"
  shows "(let s' = fold (\<lambda>(m, a). tc_addMid m a) ps s in plug_rep ifs s' ch \<and> closed s' \<and> tells s s' \<and>
    pg_entries s' = pg_entries s \<and>
    mid_pair ` {d \<in> set (pg_mid s'). md_active d} = set ps \<union> mid_pair ` {d \<in> set (pg_mid s). md_active d})"
  using assms
proof (induction ps arbitrary: s)
  case Nil
  then show ?case by simp
next
  case (Cons p ps)
  obtain m a where p: "p = (m, a)" by (cases p)
  note step = tc_addMid_ok [OF Cons.prems, of m a]
  then have "plug_rep ifs (tc_addMid m a s) ch" "closed (tc_addMid m a s)" by blast+
  from Cons.IH [OF this] show ?case
    using step tells_trans [of s "tc_addMid m a s"] by (auto simp: p Let_def)
qed

section \<open>The marking half\<close>

lemma tc_mark_data_ok:
  assumes rep: "plug_rep ifs s ch" and ifs: "oe_ifs env = ifs" and closed: "closed s"
  shows "\<exists>s' ch'. tc_mark_data env s = Some s' \<and> plug_rep ifs s' ch' \<and> closed s' \<and> tells s s' \<and>
    tab_nodes (pg_entries s') = tab_nodes (pg_entries s) \<union> ends (set (filter (good_link env) (env_edges env))) \<and>
    tab_marked (pg_entries s') = ends (set (filter (good_link env) (env_edges env))) \<and>
    tab_mlinks (pg_entries s') = set (filter (good_link env) (env_edges env)) \<and>
    mid_pair ` {d \<in> set (pg_mid s'). md_active d} = set (env_mids env) \<and> grows ch (pg_entries s) ch' (pg_entries s')"
proof -
  let ?c = "s\<lparr>pg_entries := map_option clear_entry \<circ> pg_entries s, pg_mid := map (md_active_update (\<lambda>_. False)) (pg_mid s)\<rparr>"
  have pairs: "map mid_pair (map (md_active_update (\<lambda>_. False)) ds) = map mid_pair ds" for ds
    by (simp add: mid_pair_def)
  have repc: "plug_rep ifs ?c ch" by (rule plug_rep_clear [OF rep])
  have "closed ?c" using closed unfolding closed_def by (simp add: tab_clear pairs del: map_map)
  have t1: "tells s ?c"
    using arg_cong [OF pairs [of "pg_mid s"], of set] by (simp add: tells_def net_of_def tab_clear image_image)
  obtain s1 ch1 where s1: "iter (env_edges env) (\<lambda>(a, b). tc_addLink env a b) ?c = Some s1" "plug_rep ifs s1 ch1"
    "closed s1" "tells ?c s1"
    "tab_nodes (pg_entries s1) = tab_nodes (pg_entries s) \<union> ends (set (filter (good_link env) (env_edges env)))"
    "tab_marked (pg_entries s1) = ends (set (filter (good_link env) (env_edges env)))"
    "tab_mlinks (pg_entries s1) = set (filter (good_link env) (env_edges env))"
    "pg_mid s1 = map (md_active_update (\<lambda>_. False)) (pg_mid s)"
    "grows ch (map_option clear_entry \<circ> pg_entries s) ch1 (pg_entries s1)"
    using mark_links_ok [OF repc ifs \<open>closed ?c\<close>, of "env_edges env"] by (auto simp: tab_clear Let_def)
  define s2 where "s2 = fold (\<lambda>(m, a). tc_addMid m a) (env_mids env) s1"
  have s2: "plug_rep ifs s2 ch1" "closed s2" "tells s1 s2" "pg_entries s2 = pg_entries s1"
    "mid_pair ` {d \<in> set (pg_mid s2). md_active d} = set (env_mids env) \<union> mid_pair ` {d \<in> set (pg_mid s1). md_active d}"
    using mark_mids_ok [OF s1(2,3), of "env_mids env"] by (auto simp: s2_def Let_def)
  have none: "{d \<in> set (pg_mid s1). md_active d} = {}" unfolding s1(8) by auto
  have "mid_pair ` {d \<in> set (pg_mid s2). md_active d} = set (env_mids env)" unfolding s2(5) none by simp
  moreover have "tells s s2" by (rule tells_trans [OF tells_trans [OF t1 s1(4)] s2(3)])
  moreover have "tc_mark_data env s = Some s2"
    using tc_reset_active_flag_ok [OF rep] s1(1) by (simp add: tc_mark_data_def s2_def)
  moreover have "grows ch (pg_entries s) ch (map_option clear_entry \<circ> pg_entries s)" by (simp add: grows_def)
  then have "grows ch (pg_entries s) ch1 (pg_entries s2)" using grows_trans s1(9) s2(4) by metis
  ultimately show ?thesis
    using s2(1,2,4) s1(5-7) by (intro exI [of _ s2] exI [of _ ch1]) simp
qed

end
