(* ===== verification/Plugin_Removal.thy ===== *)
theory Plugin_Removal imports Plugin_Marks begin

text \<open>
  The removing half of an event: what is left of the entries and of the chains. Entries keep their forward pointer; an
  entry that is removed behind an entry that stays leaves that pointer dangling.
\<close>

section \<open>Removing aliases and links\<close>

lemma rmv_alias_fold:
  "fold (\<lambda>d s. dev_rmv_alias (md_main d) (md_alias d) s) ds s =
     s\<lparr>pg_out := pg_out s @ map (\<lambda>d. c_rmv_alias (md_main d) (md_alias d)) ds\<rparr>"
  by (induction ds arbitrary: s) (simp_all add: dev_defs)

lemma drop_mids_eq:
  "drop_mids P s = s\<lparr>pg_mid := filter (\<lambda>d. \<not> P d) (pg_mid s),
     pg_out := pg_out s @ map (\<lambda>d. c_rmv_alias (md_main d) (md_alias d)) (filter P (pg_mid s))\<rparr>"
  by (simp add: drop_mids_def rmv_alias_fold)

lemma net_rmv_alias:
  "fold net_cmd (map (\<lambda>d. c_rmv_alias (md_main d) (md_alias d)) ds) N = N\<lparr>nt_alias := nt_alias N - mid_pair ` set ds\<rparr>"
  by (induction ds arbitrary: N) (simp_all add: mid_pair_def Diff_insert2 [symmetric])

lemma mids_kept:
  "distinct (map mid_pair ds) \<Longrightarrow>
    mid_pair ` set ds - mid_pair ` set (filter P ds) = mid_pair ` set (filter (\<lambda>d. \<not> P d) ds)"
proof -
  assume "distinct (map mid_pair ds)"
  then have "inj_on mid_pair (set ds)" by (simp add: distinct_map)
  then have "mid_pair ` (set ds - set (filter P ds)) = mid_pair ` set ds - mid_pair ` set (filter P ds)"
    by (rule inj_on_image_set_diff) auto
  moreover have "set ds - set (filter P ds) = set (filter (\<lambda>d. \<not> P d) ds)" by auto
  ultimately show ?thesis by simp
qed

lemma distinct_mids_filter: "distinct (map mid_pair ds) \<Longrightarrow> distinct (map mid_pair (filter P ds))"
  by (induction ds) auto

lemma drop_mids_tells:
  assumes "distinct (map mid_pair (pg_mid s))"
  shows "tells s (drop_mids P s)"
  using mids_kept [OF assms, of P]
  by (simp add: tells_def drop_mids_eq net_rmv_alias net_of_def)

definition clean_entry :: "tc_entry \<Rightarrow> tc_entry" where
  "clean_entry e = e\<lparr>en_dst := map (filter ds_active) (en_dst e),
     en_nb_dst := en_nb_dst e - int (length (filter (\<lambda>d. \<not> ds_active d) (concat (en_dst e))))\<rparr>"

lemma clean_entry_simps [simp]:
  "en_addr (clean_entry e) = en_addr e" "en_prev (clean_entry e) = en_prev e" "en_next (clean_entry e) = en_next e"
  "en_active (clean_entry e) = en_active e" "en_local (clean_entry e) = en_local e"
  by (simp_all add: clean_entry_def)

lemma clean_entry_ok:
  assumes "entry_ok ifs e"
  shows "entry_ok ifs (clean_entry e)"
proof -
  have len: "length (concat (map (filter ds_active) xss)) + length (filter (\<lambda>d. \<not> ds_active d) (concat xss)) = length (concat xss)" for xss
  proof (induction xss)
    case (Cons xs xss)
    then show ?case using sum_length_filter_compl [of ds_active xs] by simp
  qed simp
  have "distinct (map ds_addr (filter P ds))" if "distinct (map ds_addr ds)" for P ds
    using that by (induction ds) auto
  then show ?thesis
    using assms len [of "en_dst e"] by (auto simp: entry_ok_def clean_entry_def simp del: length_concat)
qed

lemma clean_entry_links: "entry_links (clean_entry e) = entry_mlinks e"
  by (auto simp: entry_links_def entry_mlinks_def clean_entry_def)

lemma rmv_link_fold:
  "fold (\<lambda>d. dev_rmv_link a (ds_addr d)) ds s = s\<lparr>pg_out := pg_out s @ map (\<lambda>d. c_rmv_link a (ds_addr d)) ds\<rparr>"
  by (induction ds arbitrary: s) (simp_all add: dev_defs)

lemma drop_dsts_eq:
  assumes "pg_entries s n = Some e"
  shows "drop_dsts n s = Some (s\<lparr>pg_entries := (pg_entries s)(n \<mapsto> clean_entry e),
    pg_out := pg_out s @ map (\<lambda>d. c_rmv_link (en_addr e) (ds_addr d)) (filter (\<lambda>d. \<not> ds_active d) (concat (en_dst e)))\<rparr>)"
  using assms by (simp add: drop_dsts_def rmv_link_fold clean_entry_def Let_def)

section \<open>One chain\<close>

definition opt_hd :: "'a list \<Rightarrow> 'a option" where
  "opt_hd xs = (case xs of [] \<Rightarrow> None | x # _ \<Rightarrow> Some x)"

lemma opt_hd_simps [simp]: "opt_hd [] = None" "opt_hd (x # xs) = Some x"
  by (simp_all add: opt_hd_def)

lemma en_seg_hd: "en_seg E p c ns \<Longrightarrow> c = opt_hd ns"
  by (cases ns) auto

text \<open>Of the entries in \<open>S\<close> exactly the marked ones survive, cleaned, with a backward pointer that may have changed.\<close>

definition cleaned :: "nat set \<Rightarrow> heap \<Rightarrow> heap \<Rightarrow> bool" where
  "cleaned S E E' \<longleftrightarrow> (\<forall>n.
     if n \<in> S then (case E n of
         None \<Rightarrow> E' n = None
       | Some e \<Rightarrow> if en_active e then \<exists>p. E' n = Some ((clean_entry e)\<lparr>en_prev := p\<rparr>) else E' n = None)
     else E' n = E n)"

lemma cleaned_out: "cleaned S E E' \<Longrightarrow> n \<notin> S \<Longrightarrow> E' n = E n"
  by (simp add: cleaned_def)

lemma cleaned_keep: "cleaned S E E' \<Longrightarrow> n \<in> S \<Longrightarrow> E n = Some e \<Longrightarrow> en_active e \<Longrightarrow> \<exists>p. E' n = Some ((clean_entry e)\<lparr>en_prev := p\<rparr>)"
  by (auto simp: cleaned_def dest!: spec [of _ n])

lemma cleaned_gone: "cleaned S E E' \<Longrightarrow> n \<in> S \<Longrightarrow> E n = Some e \<Longrightarrow> \<not> en_active e \<Longrightarrow> E' n = None"
  by (auto simp: cleaned_def dest!: spec [of _ n])

definition active_in :: "heap \<Rightarrow> nat \<Rightarrow> bool" where
  "active_in E n \<longleftrightarrow> (\<exists>e. E n = Some e \<and> en_active e)"

definition all_active :: "heap \<Rightarrow> nat list \<Rightarrow> bool" where
  "all_active E ns \<longleftrightarrow> (\<forall>n \<in> set ns. active_in E n)"

definition none_active :: "heap \<Rightarrow> nat list \<Rightarrow> bool" where
  "none_active E ns \<longleftrightarrow> (\<forall>n \<in> set ns. \<not> active_in E n)"

lemma drop_entry_eq:
  assumes n: "pg_entries s n = Some e" and i: "i < length (pg_tab s)"
    and nxt: "\<And>m. en_next e = Some m \<Longrightarrow> m \<noteq> n \<and> (\<exists>f. pg_entries s m = Some f)"
  shows "\<exists>s'. drop_entry i n s = Some s' \<and>
    pg_entries s' = (case en_next e of None \<Rightarrow> pg_entries s
      | Some m \<Rightarrow> (pg_entries s)(m \<mapsto> (the (pg_entries s m))\<lparr>en_prev := en_prev e\<rparr>))(n := None) \<and>
    pg_tab s' = (if en_prev e = None then (pg_tab s)[i := en_next e] else pg_tab s) \<and>
    pg_next s' = pg_next s \<and> pg_mid s' = filter (\<lambda>d. md_main d \<noteq> en_addr e) (pg_mid s) \<and>
    pg_out s' = pg_out (drop_mids (\<lambda>d. md_main d = en_addr e) s) @ [c_rmv_node (en_addr e)]"
proof (cases "en_next e")
  case None
  then show ?thesis using n i
    by (cases "en_prev e") (simp_all add: drop_entry_def drop_mids_eq dev_defs Let_def)
next
  case (Some m)
  then obtain f where f: "m \<noteq> n" "pg_entries s m = Some f" using nxt by blast
  then show ?thesis using n i Some
    by (cases "en_prev e") (simp_all add: drop_entry_def drop_mids_eq dev_defs Let_def upd_entry_def)
qed

text \<open>
  The walk through the rest of a chain. \<open>q\<close> is the backward pointer of its first entry, which is \<open>None\<close> as long as
  no entry of the chain was kept.
\<close>

lemma remove_chain_seg:
  assumes "en_seg (pg_entries s) q c ns" "distinct ns" "i < length (pg_tab s)" "q = None \<Longrightarrow> pg_tab s ! i = c"
  shows "\<exists>s'. remove_chain i c s = Some s' \<and> cleaned (set ns) (pg_entries s) (pg_entries s') \<and>
    pg_next s' = pg_next s \<and>
    pg_tab s' = (if q = None then (pg_tab s)[i := opt_hd (filter (active_in (pg_entries s)) ns)] else pg_tab s) \<and>
    (\<forall>ins acts. ns = ins @ acts \<longrightarrow> none_active (pg_entries s) ins \<longrightarrow> all_active (pg_entries s) acts \<longrightarrow>
      en_seg (pg_entries s') q (opt_hd acts) acts)"
  using assms
proof (induction ns arbitrary: q c s)
  case Nil
  then show ?case by (auto simp: remove_chain.simps cleaned_def) (metis list_update_id)
next
  case (Cons n ns)
  let ?E = "pg_entries s"
  obtain e where e: "c = Some n" "?E n = Some e" "en_prev e = q" "en_seg ?E (Some n) (en_next e) ns"
    using Cons.prems(1) by auto
  have nns: "n \<notin> set ns" "distinct ns" using Cons.prems(2) by auto
  obtain s1 where s1: "drop_dsts n s = Some s1" "pg_entries s1 = ?E(n \<mapsto> clean_entry e)" "pg_tab s1 = pg_tab s"
    "pg_next s1 = pg_next s"
    using drop_dsts_eq [OF e(2)] by simp
  have seg1: "en_seg (pg_entries s1) (Some n) (en_next e) ns" unfolding s1(2) by (rule en_seg_frame [OF e(4) nns(1)])
  have at1: "pg_entries s1 m = ?E m" if "m \<in> set ns" for m using that nns(1) s1(2) by auto
  have act1: "filter (active_in (pg_entries s1)) ns = filter (active_in ?E) ns"
    by (rule filter_cong) (simp_all add: active_in_def at1)
  show ?case
  proof (cases "en_active e")
    case True
    have "Some n = None \<Longrightarrow> pg_tab s1 ! i = en_next e" by simp
    from Cons.IH [OF seg1 nns(2) _ this] Cons.prems(3) s1(3) obtain s' where s':
      "remove_chain i (en_next e) s1 = Some s'" "cleaned (set ns) (pg_entries s1) (pg_entries s')"
      "pg_next s' = pg_next s1" "pg_tab s' = pg_tab s1"
      "\<forall>ins acts. ns = ins @ acts \<longrightarrow> none_active (pg_entries s1) ins \<longrightarrow> all_active (pg_entries s1) acts \<longrightarrow>
        en_seg (pg_entries s') (Some n) (opt_hd acts) acts" by auto
    have at_n: "pg_entries s' n = Some (clean_entry e)" using cleaned_out [OF s'(2) nns(1)] s1(2) by simp
    have "cleaned (set (n # ns)) ?E (pg_entries s')"
      unfolding cleaned_def
    proof (intro allI)
      fix m
      have "\<exists>p. clean_entry e = (clean_entry e)\<lparr>en_prev := p\<rparr>" by (intro exI [of _ "en_prev e"]) (simp add: clean_entry_def)
      then show "if m \<in> set (n # ns) then (case ?E m of None \<Rightarrow> pg_entries s' m = None
        | Some e \<Rightarrow> if en_active e then \<exists>p. pg_entries s' m = Some ((clean_entry e)\<lparr>en_prev := p\<rparr>) else pg_entries s' m = None)
        else pg_entries s' m = ?E m"
        using s'(2) [unfolded cleaned_def, rule_format, of m] at1 [of m] at_n e(2) True
        by (cases "m = n"; cases "?E m") (auto simp: s1(2))
    qed
    moreover have "remove_chain i c s = Some s'"
      using e(1) s1(1,2) s'(1) True by (subst remove_chain.simps) simp
    moreover have "en_seg (pg_entries s') q (opt_hd acts) acts"
      if "n # ns = ins @ acts" "none_active ?E ins" "all_active ?E acts" for ins acts
    proof -
      have "ins = []" using that(1,2) e(2) True by (cases ins) (auto simp: none_active_def active_in_def)
      then have acts: "acts = n # ns" using that(1) by simp
      have "all_active (pg_entries s1) ns" using that(3) acts at1 by (simp add: all_active_def active_in_def)
      then have "en_seg (pg_entries s') (Some n) (opt_hd ns) ns"
        using s'(5) [rule_format, of "[]" ns] by (simp add: none_active_def)
      then show ?thesis using at_n e(3) en_seg_hd [OF e(4)] acts by simp
    qed
    moreover have "pg_tab s' = (if q = None then (pg_tab s)[i := opt_hd (filter (active_in ?E) (n # ns))] else pg_tab s)"
    proof (cases "q = None")
      case True
      then have "pg_tab s ! i = Some n" using Cons.prems(4) e(1) by simp
      then have "(pg_tab s)[i := Some n] = pg_tab s" using list_update_id [of "pg_tab s" i] by simp
      then show ?thesis using s'(4) s1(3) True e(2) \<open>en_active e\<close> by (simp add: active_in_def)
    qed (use s'(4) s1(3) in auto)
    ultimately show ?thesis using s'(3) s1(4) by auto
  next
    case False
    have nxt: "m \<noteq> n \<and> (\<exists>f. pg_entries s1 m = Some f)" if "en_next (clean_entry e) = Some m" for m
    proof -
      have "m \<in> set ns" using seg1 that by (cases ns) auto
      then show ?thesis using nns(1) en_seg_live [OF seg1] by blast
    qed
    have n1: "pg_entries s1 n = Some (clean_entry e)" using s1(2) by simp
    obtain s2 where s2: "drop_entry i n s1 = Some s2"
      "pg_entries s2 = (case en_next e of None \<Rightarrow> pg_entries s1
        | Some m \<Rightarrow> (pg_entries s1)(m \<mapsto> (the (pg_entries s1 m))\<lparr>en_prev := q\<rparr>))(n := None)"
      "pg_tab s2 = (if q = None then (pg_tab s)[i := en_next e] else pg_tab s)" "pg_next s2 = pg_next s"
      using drop_entry_eq [OF n1 _ nxt, of i, unfolded clean_entry_simps] Cons.prems(3) s1(3,4) e(3) by auto
    have core: "pg_entries s2 m = pg_entries s1 m \<or>
      (\<exists>f. pg_entries s1 m = Some f \<and> pg_entries s2 m = Some (f\<lparr>en_prev := q\<rparr>))" if "m \<noteq> n" for m
      using that nxt unfolding s2(2) by (cases "en_next e") auto
    have seg2: "en_seg (pg_entries s2) q (en_next e) ns"
    proof (cases ns)
      case Nil
      then show ?thesis using seg1 by simp
    next
      case (Cons m ms)
      then obtain f where f: "en_next e = Some m" "pg_entries s1 m = Some f" "en_seg (pg_entries s1) (Some m) (en_next f) ms"
        using seg1 by auto
      have "en_seg (pg_entries s2) (Some m) (en_next f) ms"
        using f(3)
      proof (rule en_seg_cong [rotated])
        fix k g
        assume k: "k \<in> set ms" "pg_entries s1 k = Some g"
        then have "k \<noteq> n" "k \<noteq> m" using nns Cons by auto
        then show "\<exists>e'. pg_entries s2 k = Some e' \<and> en_prev e' = en_prev g \<and> en_next e' = en_next g"
          using k(2) f(1) unfolding s2(2) by simp
      qed
      moreover have "pg_entries s2 m = Some (f\<lparr>en_prev := q\<rparr>)" using f nns Cons unfolding s2(2) by auto
      ultimately show ?thesis using f(1) Cons by simp
    qed
    have at2: "active_in (pg_entries s2) m = active_in ?E m" if "m \<in> set ns" for m
    proof -
      have "m \<noteq> n" using that nns(1) by auto
      from core [OF this] show ?thesis
      proof
        assume "pg_entries s2 m = pg_entries s1 m"
        then show ?thesis by (simp add: active_in_def at1 [OF that])
      next
        assume "\<exists>f. pg_entries s1 m = Some f \<and> pg_entries s2 m = Some (f\<lparr>en_prev := q\<rparr>)"
        then show ?thesis using at1 [OF that] by (auto simp: active_in_def)
      qed
    qed
    have len2: "i < length (pg_tab s2)" using Cons.prems(3) s2(3) by simp
    have head2: "q = None \<Longrightarrow> pg_tab s2 ! i = en_next e" using s2(3) Cons.prems(3) by simp
    obtain s' where s': "remove_chain i (en_next e) s2 = Some s'" "cleaned (set ns) (pg_entries s2) (pg_entries s')"
      "pg_next s' = pg_next s2"
      "pg_tab s' = (if q = None then (pg_tab s2)[i := opt_hd (filter (active_in (pg_entries s2)) ns)] else pg_tab s2)"
      "\<forall>ins acts. ns = ins @ acts \<longrightarrow> none_active (pg_entries s2) ins \<longrightarrow> all_active (pg_entries s2) acts \<longrightarrow>
        en_seg (pg_entries s') q (opt_hd acts) acts"
      using Cons.IH [OF seg2 nns(2) len2 head2] by blast
    have "filter (active_in (pg_entries s2)) ns = filter (active_in ?E) ns" by (rule filter_cong) (simp_all add: at2)
    then have tab: "pg_tab s' = (if q = None then (pg_tab s)[i := opt_hd (filter (active_in ?E) (n # ns))] else pg_tab s)"
      using s'(4) s2(3) False e(2) by (simp add: active_in_def)
    have "cleaned (set (n # ns)) ?E (pg_entries s')"
      unfolding cleaned_def
    proof (intro allI)
      fix m
      consider "m = n" | "m \<noteq> n" "m \<in> set ns" | "m \<noteq> n" "m \<notin> set ns" by blast
      then show "if m \<in> set (n # ns) then (case ?E m of None \<Rightarrow> pg_entries s' m = None
        | Some e \<Rightarrow> if en_active e then \<exists>p. pg_entries s' m = Some ((clean_entry e)\<lparr>en_prev := p\<rparr>) else pg_entries s' m = None)
        else pg_entries s' m = ?E m"
      proof cases
        case 1
        have "pg_entries s' n = None" using cleaned_out [OF s'(2) nns(1)] unfolding s2(2) by simp
        then show ?thesis using 1 e(2) False by simp
      next
        case 2
        obtain f where f: "?E m = Some f" using en_seg_live [OF e(4) 2(2)] by blast
        obtain p where p: "pg_entries s2 m = Some (f\<lparr>en_prev := p\<rparr>)"
          using core [OF 2(1)] at1 [OF 2(2)] f by (metis option.sel option.inject same_core_def tc_entry.surjective tc_entry.update_convs(2))
        have clean: "clean_entry (f\<lparr>en_prev := p\<rparr>) = (clean_entry f)\<lparr>en_prev := p\<rparr>" by (simp add: clean_entry_def)
        show ?thesis
        proof (cases "en_active f")
          case True
          then show ?thesis using cleaned_keep [OF s'(2) 2(2) p] 2 f clean by auto
        next
          case False
          then show ?thesis using cleaned_gone [OF s'(2) 2(2) p] 2 f by simp
        qed
      next
        case 3
        have "en_next e \<noteq> Some m" using seg1 3(2) by (cases ns) auto
        then have "pg_entries s2 m = pg_entries s1 m" using 3(1) unfolding s2(2) by (cases "en_next e") auto
        then show ?thesis using cleaned_out [OF s'(2) 3(2)] 3 s1(2) by simp
      qed
    qed
    moreover have "remove_chain i c s = Some s'"
      using e(1) s1(1,2) s2(1) s'(1) False by (subst remove_chain.simps) simp
    moreover have "en_seg (pg_entries s') q (opt_hd acts) acts"
      if split: "n # ns = ins @ acts" "none_active ?E ins" "all_active ?E acts" for ins acts
    proof -
      obtain ins' where ins: "ins = n # ins'" "ns = ins' @ acts"
        using split e(2) False by (cases ins) (auto simp: all_active_def active_in_def)
      have "none_active (pg_entries s2) ins'" "all_active (pg_entries s2) acts"
        using split(2,3) at2 ins by (simp_all add: none_active_def all_active_def)
      then show ?thesis using s'(5) ins(2) by blast
    qed
    moreover have "pg_next s' = pg_next s" using s'(3) s2(4) by simp
    ultimately show ?thesis using tab by (intro exI [of _ s'] conjI allI impI) simp_all
  qed
qed

section \<open>All chains\<close>

definition kept_chain :: "heap \<Rightarrow> nat list \<Rightarrow> heap \<Rightarrow> nat option \<Rightarrow> bool" where
  "kept_chain E ns E' c \<longleftrightarrow> c = opt_hd (filter (active_in E) ns) \<and>
     (\<forall>ins acts. ns = ins @ acts \<longrightarrow> none_active E ins \<longrightarrow> all_active E acts \<longrightarrow> en_seg E' None (opt_hd acts) acts)"

lemma none_active_cong: "(\<And>n. n \<in> set ns \<Longrightarrow> E n = E' n) \<Longrightarrow> none_active E ns = none_active E' ns"
  by (simp add: none_active_def active_in_def)

lemma all_active_cong: "(\<And>n. n \<in> set ns \<Longrightarrow> E n = E' n) \<Longrightarrow> all_active E ns = all_active E' ns"
  by (simp add: all_active_def active_in_def)

lemma tc_remove_useless_link_ok:
  assumes rep: "plug_rep ifs s ch"
  shows "\<exists>s'. tc_remove_useless_link s = Some s' \<and> cleaned UNIV (pg_entries s) (pg_entries s') \<and>
    pg_next s' = pg_next s \<and> length (pg_tab s') = hashsize \<and>
    (\<forall>i < hashsize. kept_chain (pg_entries s) (ch i) (pg_entries s') (pg_tab s' ! i))"
proof -
  let ?E = "pg_entries s"
  define P where "P i t \<longleftrightarrow> pg_next t = pg_next s \<and> length (pg_tab t) = hashsize \<and>
    (\<forall>j. i \<le> j \<longrightarrow> j < hashsize \<longrightarrow> pg_tab t ! j = pg_tab s ! j) \<and>
    cleaned (\<Union>j < i. set (ch j)) ?E (pg_entries t) \<and>
    (\<forall>j < i. kept_chain ?E (ch j) (pg_entries t) (pg_tab t ! j))" for i and t :: plugin
  have "\<exists>t. iter [0..<hashsize] (\<lambda>i s. do { c \<leftarrow> rd (pg_tab s) (int i); remove_chain i c s }) s = Some t \<and> P hashsize t"
  proof (rule iter_upt_total)
    show "P 0 s" using plug_repD(1) [OF rep] by (simp add: P_def cleaned_def)
    fix i t
    assume i: "i < hashsize" and "P i t"
    then have t: "pg_next t = pg_next s" "length (pg_tab t) = hashsize"
      "\<And>j. i \<le> j \<Longrightarrow> j < hashsize \<Longrightarrow> pg_tab t ! j = pg_tab s ! j"
      "cleaned (\<Union>j < i. set (ch j)) ?E (pg_entries t)"
      "\<And>j. j < i \<Longrightarrow> kept_chain ?E (ch j) (pg_entries t) (pg_tab t ! j)" by (simp_all add: P_def)
    have disj: "n \<notin> set (ch j)" if "n \<in> set (ch i)" "j < i" for n j
      using chains_disjoint [OF rep i _ that(1), of j] that(2) i by auto
    have same: "pg_entries t n = ?E n" if "n \<in> set (ch i)" for n
      using cleaned_out [OF t(4)] disj [OF that] by auto
    have seg: "en_seg (pg_entries t) None (pg_tab t ! i) (ch i)"
      using plug_repD(2) [OF rep i] t(3) [OF order_refl i] by (auto intro: en_seg_cong [rotated] simp: same)
    have len: "i < length (pg_tab t)" using t(2) i by simp
    obtain t' where t': "remove_chain i (pg_tab t ! i) t = Some t'" "cleaned (set (ch i)) (pg_entries t) (pg_entries t')"
      "pg_next t' = pg_next t" "pg_tab t' = (pg_tab t)[i := opt_hd (filter (active_in (pg_entries t)) (ch i))]"
      "\<And>ins acts. ch i = ins @ acts \<Longrightarrow> none_active (pg_entries t) ins \<Longrightarrow> all_active (pg_entries t) acts \<Longrightarrow>
        en_seg (pg_entries t') None (opt_hd acts) acts"
      using remove_chain_seg [OF seg plug_repD(3) [OF rep i] len] by auto
    have filt: "filter (active_in (pg_entries t)) (ch i) = filter (active_in ?E) (ch i)"
      by (rule filter_cong) (simp_all add: active_in_def same)
    have "kept_chain ?E (ch i) (pg_entries t') (pg_tab t' ! i)"
      unfolding kept_chain_def
    proof (intro conjI allI impI)
      show "pg_tab t' ! i = opt_hd (filter (active_in ?E) (ch i))" using t'(4) filt len by simp
      fix ins acts
      assume a: "ch i = ins @ acts" "none_active ?E ins" "all_active ?E acts"
      then have "none_active (pg_entries t) ins" "all_active (pg_entries t) acts"
        using none_active_cong [of ins ?E "pg_entries t"] all_active_cong [of acts ?E "pg_entries t"] same by auto
      then show "en_seg (pg_entries t') None (opt_hd acts) acts" using t'(5) a(1) by blast
    qed
    moreover have "kept_chain ?E (ch j) (pg_entries t') (pg_tab t' ! j)" if j: "j < i" for j
      unfolding kept_chain_def
    proof (intro conjI allI impI)
      show "pg_tab t' ! j = opt_hd (filter (active_in ?E) (ch j))" using t'(4) t(5) [OF j] j by (simp add: kept_chain_def)
      fix ins acts
      assume a: "ch j = ins @ acts" "none_active ?E ins" "all_active ?E acts"
      then have "en_seg (pg_entries t) None (opt_hd acts) acts" using t(5) [OF j] by (simp add: kept_chain_def)
      moreover have "pg_entries t' n = pg_entries t n" if "n \<in> set acts" for n
        using cleaned_out [OF t'(2)] disj [OF _ j] that a(1) by fastforce
      ultimately show "en_seg (pg_entries t') None (opt_hd acts) acts" by (auto intro: en_seg_cong [rotated])
    qed
    moreover have "cleaned (\<Union>j < Suc i. set (ch j)) ?E (pg_entries t')"
      unfolding cleaned_def
    proof
      fix n
      show "if n \<in> (\<Union>j < Suc i. set (ch j)) then (case ?E n of None \<Rightarrow> pg_entries t' n = None
        | Some e \<Rightarrow> if en_active e then \<exists>p. pg_entries t' n = Some ((clean_entry e)\<lparr>en_prev := p\<rparr>) else pg_entries t' n = None)
        else pg_entries t' n = ?E n"
      proof (cases "n \<in> set (ch i)")
        case True
        then show ?thesis using t'(2) [unfolded cleaned_def, rule_format, of n] same [OF True] by (simp add: lessThan_Suc)
      next
        case False
        then have "pg_entries t' n = pg_entries t n" by (rule cleaned_out [OF t'(2)])
        moreover have "n \<in> (\<Union>j < Suc i. set (ch j)) \<longleftrightarrow> n \<in> (\<Union>j < i. set (ch j))" using False by (auto simp: less_Suc_eq)
        ultimately show ?thesis using t(4) unfolding cleaned_def by presburger
      qed
    qed
    ultimately have "P (Suc i) t'" using t t'(3,4) by (auto simp: P_def less_Suc_eq)
    then show "\<exists>t'. do { c \<leftarrow> rd (pg_tab t) (int i); remove_chain i c t } = Some t' \<and> P (Suc i) t'"
      using t'(1) len by auto
  qed
  then obtain t where t: "tc_remove_useless_link s = Some t" "P hashsize t" by (auto simp: tc_remove_useless_link_def)
  have cl: "cleaned (\<Union>j < hashsize. set (ch j)) ?E (pg_entries t)" using t(2) by (simp add: P_def)
  have "cleaned UNIV ?E (pg_entries t)"
    unfolding cleaned_def
  proof
    fix n
    show "if n \<in> UNIV then (case ?E n of None \<Rightarrow> pg_entries t n = None
      | Some e \<Rightarrow> if en_active e then \<exists>p. pg_entries t n = Some ((clean_entry e)\<lparr>en_prev := p\<rparr>) else pg_entries t n = None)
      else pg_entries t n = ?E n"
    proof (cases "?E n")
      case None
      then have "n \<notin> (\<Union>j < hashsize. set (ch j))" using en_seg_live [OF plug_repD(2) [OF rep]] by fastforce
      then have "pg_entries t n = ?E n" by (rule cleaned_out [OF cl])
      then show ?thesis using None by simp
    next
      case (Some e)
      then have "n \<in> (\<Union>j < hashsize. set (ch j))" using plug_repD(6) [OF rep Some] hash_row_lt by blast
      then show ?thesis using cl [unfolded cleaned_def, rule_format, of n] Some by simp
    qed
  qed
  then show ?thesis using t by (auto simp: P_def)
qed

section \<open>What a listener is told\<close>

definition live_ok :: "ip_addr list \<Rightarrow> plugin \<Rightarrow> bool" where
  "live_ok ifs s \<longleftrightarrow> (\<forall>n e. pg_entries s n = Some e \<longrightarrow> entry_ok ifs e) \<and>
     (\<forall>n m e f. pg_entries s n = Some e \<longrightarrow> pg_entries s m = Some f \<longrightarrow> en_addr e = en_addr f \<longrightarrow> n = m) \<and>
     distinct (map mid_pair (pg_mid s))"

lemma live_okD:
  assumes "live_ok ifs s"
  shows "pg_entries s n = Some e \<Longrightarrow> entry_ok ifs e"
    and "pg_entries s n = Some e \<Longrightarrow> pg_entries s m = Some f \<Longrightarrow> en_addr e = en_addr f \<Longrightarrow> n = m"
    and "distinct (map mid_pair (pg_mid s))"
  using assms unfolding live_ok_def by blast+

lemma entry_ok_uniq:
  assumes ok: "entry_ok ifs e" and d: "d \<in> set (concat (en_dst e))" "d' \<in> set (concat (en_dst e))" "ds_addr d = ds_addr d'"
  shows "d = d'"
proof -
  obtain i j where i: "i < length (en_dst e)" "d \<in> set (en_dst e ! i)" and j: "j < length (en_dst e)" "d' \<in> set (en_dst e ! j)"
    using d(1,2) by (auto simp: in_set_conv_nth [of _ "en_dst e"])
  then have "hash_row (ds_addr d) = i" "hash_row (ds_addr d') = j" using ok by (simp_all add: entry_ok_def)
  then have "i = j" using d(3) by simp
  moreover have "inj_on ds_addr (set (en_dst e ! i))" using ok i by (simp add: entry_ok_def distinct_map)
  ultimately show ?thesis using i j d(3) by (auto dest: inj_onD)
qed

lemma tab_others:
  assumes uniq: "\<And>m f. E m = Some f \<Longrightarrow> en_addr f = en_addr e \<Longrightarrow> m = n" and n: "E n = Some e"
  shows "tab_nodes (E(n := None)) = tab_nodes E - {en_addr e}"
    and "tab_links (E(n := None)) = {(x, y) \<in> tab_links E. x \<noteq> en_addr e}"
proof -
  have ne: "en_addr f \<noteq> en_addr e" if "f \<in> ran (E(n := None))" for f
    using that uniq by (auto simp: ran_def split: if_splits)
  have r: "ran E = insert e (ran (E(n := None)))" by (rule ran_split [where E = E and n = n and e = e, OF n])
  show "tab_nodes (E(n := None)) = tab_nodes E - {en_addr e}" unfolding tab_nodes_def r using ne by auto
  show "tab_links (E(n := None)) = {(x, y) \<in> tab_links E. x \<noteq> en_addr e}"
  proof -
    have src: "fst p = en_addr f" if "p \<in> entry_links f" for p f using that by (auto simp: entry_links_def)
    have "tab_links E = entry_links e \<union> tab_links (E(n := None))" unfolding tab_links_def r by simp
    moreover have "fst p \<noteq> en_addr e" if "p \<in> tab_links (E(n := None))" for p
      using that ne src unfolding tab_links_def by fastforce
    ultimately show ?thesis using src [of _ e] by fastforce
  qed
qed

text \<open>Removal: the aliases of a node disappear with it, and a listener is told everything.\<close>

definition sheds :: "plugin \<Rightarrow> plugin \<Rightarrow> bool" where
  "sheds s s' \<longleftrightarrow> tells s s' \<and> tab_nodes (pg_entries s') \<subseteq> tab_nodes (pg_entries s) \<and>
     pg_mid s' = filter (\<lambda>d. md_main d \<notin> tab_nodes (pg_entries s) - tab_nodes (pg_entries s')) (pg_mid s)"

lemma sheds_refl [simp]: "sheds s s"
  by (simp add: sheds_def)

lemma sheds_trans:
  assumes "sheds s t" "sheds t u"
  shows "sheds s u"
proof -
  have "filter (\<lambda>d. md_main d \<notin> tab_nodes (pg_entries t) - tab_nodes (pg_entries u)) (pg_mid t) =
      filter (\<lambda>d. md_main d \<notin> tab_nodes (pg_entries s) - tab_nodes (pg_entries u)) (pg_mid s)"
    using assms unfolding sheds_def by (auto intro!: filter_cong)
  then show ?thesis using assms tells_trans [of s t u] by (auto simp: sheds_def)
qed

lemma net_rmv_link:
  "fold net_cmd (map (\<lambda>d. c_rmv_link a (ds_addr d)) ds) N = N\<lparr>nt_links := nt_links N - Pair a ` ds_addr ` set ds\<rparr>"
  by (induction ds arbitrary: N) (simp_all add: Diff_insert2 [symmetric])

lemma tab_links_in: "E n = Some e \<Longrightarrow> entry_links e \<subseteq> tab_links E"
  by (auto simp: tab_links_def ran_def)

lemma clean_tab_links:
  assumes ok: "entry_ok ifs e" and n: "E n = Some e"
    and uniq: "\<And>m f. E m = Some f \<Longrightarrow> en_addr f = en_addr e \<Longrightarrow> m = n"
  shows "tab_links (E(n \<mapsto> clean_entry e)) =
    tab_links E - Pair (en_addr e) ` ds_addr ` {d \<in> set (concat (en_dst e)). \<not> ds_active d}"
proof -
  let ?G = "Pair (en_addr e) ` ds_addr ` {d \<in> set (concat (en_dst e)). \<not> ds_active d}"
  let ?R = "tab_links (E(n := None))"
  have new: "tab_links (E(n \<mapsto> clean_entry e)) = entry_mlinks e \<union> ?R"
    unfolding tab_links_def ran_upd using clean_entry_links by simp
  have old: "tab_links E = entry_links e \<union> ?R"
    unfolding tab_links_def ran_split [where E = E and n = n and e = e, OF n] by simp
  have "?R = {(x, y) \<in> tab_links E. x \<noteq> en_addr e}" by (rule tab_others(2) [where E = E and n = n and e = e, OF uniq n])
  then have "?R \<inter> ?G = {}" by auto
  moreover have "entry_mlinks e = entry_links e - ?G"
  proof (rule set_eqI)
    fix p
    show "p \<in> entry_mlinks e \<longleftrightarrow> p \<in> entry_links e - ?G"
    proof
      assume "p \<in> entry_mlinks e"
      then obtain d where d: "p = (en_addr e, ds_addr d)" "d \<in> set (concat (en_dst e))" "ds_active d"
        unfolding entry_mlinks_def by blast
      have "p \<notin> ?G"
      proof
        assume "p \<in> ?G"
        then obtain d' where d': "d' \<in> set (concat (en_dst e))" "\<not> ds_active d'" "ds_addr d' = ds_addr d"
          unfolding d(1) by (auto simp: image_iff simp del: set_concat)
        then show False using entry_ok_uniq [OF ok d'(1) d(2) d'(3)] d(3) by simp
      qed
      moreover have "p \<in> entry_links e" using d(1,2) unfolding entry_links_def by blast
      ultimately show "p \<in> entry_links e - ?G" by blast
    next
      assume "p \<in> entry_links e - ?G"
      then show "p \<in> entry_mlinks e" unfolding entry_links_def entry_mlinks_def by blast
    qed
  qed
  ultimately show ?thesis unfolding new old by blast
qed

lemma drop_dsts_tells:
  assumes live: "live_ok ifs s" and run: "drop_dsts n s = Some s'"
  shows "sheds s s' \<and> live_ok ifs s'"
proof -
  obtain e where n: "pg_entries s n = Some e" using run by (auto simp: drop_dsts_def bind_eq_Some_conv)
  let ?gone = "filter (\<lambda>d. \<not> ds_active d) (concat (en_dst e))"
  have s': "s' = s\<lparr>pg_entries := (pg_entries s)(n \<mapsto> clean_entry e),
    pg_out := pg_out s @ map (\<lambda>d. c_rmv_link (en_addr e) (ds_addr d)) ?gone\<rparr>"
    using run drop_dsts_eq [OF n] by simp
  note ok = live_okD [OF live]
  have uniq: "m = n" if "pg_entries s m = Some f" "en_addr f = en_addr e" for m f using ok(2) [OF that(1) n that(2)] .
  have nodes: "tab_nodes ((pg_entries s)(n \<mapsto> clean_entry e)) = tab_nodes (pg_entries s)"
    by (rule tab_upd(1)) (use n in simp_all)
  have "live_ok ifs s'"
    using live clean_entry_ok [OF ok(1) [OF n]] n unfolding live_ok_def s' by (auto split: if_splits)
  moreover have "tells s s'"
  proof -
    have gone: "set ?gone = {d \<in> set (concat (en_dst e)). \<not> ds_active d}" by simp
    have "net_of s' = (net_of s)\<lparr>nt_links := nt_links (net_of s) - Pair (en_addr e) ` ds_addr ` set ?gone\<rparr>"
      unfolding gone using clean_tab_links [where E = "pg_entries s" and n = n and e = e, OF ok(1) [OF n] n uniq] nodes
      by (simp add: net_of_def s' Int_Diff Int_commute) blast
    then show ?thesis unfolding tells_def net_rmv_link [symmetric] by (auto simp: s')
  qed
  ultimately show ?thesis using nodes by (simp add: sheds_def s')
qed

lemma drop_entry_tells:
  assumes live: "live_ok ifs s" and run: "drop_entry i n s = Some s'"
  shows "sheds s s' \<and> live_ok ifs s'"
proof -
  obtain e where n: "pg_entries s n = Some e" using run by (auto simp: drop_entry_def bind_eq_Some_conv)
  let ?s1 = "drop_mids (\<lambda>d. md_main d = en_addr e) s"
  note ok = live_okD [OF live]
  obtain E1 where E1: "\<And>m. rel_option same_core (pg_entries s m) (E1 m)" "pg_entries s' = E1(n := None)"
    "pg_mid s' = pg_mid ?s1" "pg_out s' = pg_out ?s1 @ [c_rmv_node (en_addr e)]"
  proof (cases "en_next e")
    case None
    show ?thesis
    proof (rule that [of "pg_entries s"])
      show "rel_option same_core (pg_entries s m) (pg_entries s m)" for m by (cases "pg_entries s m") simp_all
    qed (use run n None in \<open>auto simp: drop_entry_def drop_mids_eq dev_defs Let_def bind_eq_Some_conv split: option.splits\<close>)
  next
    case (Some m)
    then obtain f where f: "pg_entries s m = Some f"
      using run n by (auto simp: drop_entry_def drop_mids_eq dev_defs Let_def bind_eq_Some_conv upd_entry_def)
    show ?thesis
    proof (rule that [of "(pg_entries s)(m \<mapsto> f\<lparr>en_prev := en_prev e\<rparr>)"])
      show "rel_option same_core (pg_entries s k) (((pg_entries s)(m \<mapsto> f\<lparr>en_prev := en_prev e\<rparr>)) k)" for k
        using f by (cases "pg_entries s k") auto
    qed (use run n Some f in \<open>auto simp: drop_entry_def drop_mids_eq dev_defs Let_def bind_eq_Some_conv upd_entry_def split: option.splits\<close>)
  qed
  have orig: "\<exists>g. pg_entries s m = Some g \<and> same_core g f" if "E1 m = Some f" for m f
    using E1(1) [of m] that by (auto simp: option_rel_Some2)
  obtain e1 where e1: "E1 n = Some e1" "same_core e e1" using E1(1) [of n] n by (auto simp: option_rel_Some1)
  have addr: "en_addr e1 = en_addr e" by (rule same_coreD(1) [OF e1(2)])
  have uniq: "m = n" if "E1 m = Some f" "en_addr f = en_addr e1" for m f
    using orig [OF that(1)] ok(2) [OF _ n] that(2) addr same_coreD(1) by metis
  have mids: "distinct (map mid_pair (pg_mid s'))" unfolding E1(3) drop_mids_eq using distinct_mids_filter [OF ok(3)] by simp
  have "live_ok ifs s'"
    unfolding live_ok_def
  proof (intro conjI allI impI)
    show "entry_ok ifs f" if "pg_entries s' m = Some f" for m f
      using that orig [of m f] ok(1) same_coreD(5) unfolding E1(2) by (auto split: if_splits)
    show "m = k" if two: "pg_entries s' m = Some f" "pg_entries s' k = Some g" "en_addr f = en_addr g" for m k f g
    proof -
      obtain f' g' where "pg_entries s m = Some f'" "same_core f' f" "pg_entries s k = Some g'" "same_core g' g"
        using two(1,2) orig [of m f] orig [of k g] unfolding E1(2) by (auto split: if_splits)
      then show ?thesis using ok(2) two(3) same_coreD(1) by simp
    qed
  qed (rule mids)
  moreover have a: "en_addr e \<in> tab_nodes (pg_entries s)" using n by (auto simp: tab_nodes_def ran_def)
  moreover have "tab_nodes (pg_entries s') = tab_nodes (pg_entries s) - {en_addr e}"
    using tab_others(1) [where E = E1 and n = n and e = e1, OF uniq e1(1)] addr
      tab_core(1) [where E = "pg_entries s" and E' = E1, OF E1(1)] by (simp add: E1(2))
  moreover have "pg_mid s' = filter (\<lambda>d. md_main d \<notin> {en_addr e}) (pg_mid s)" by (simp add: E1(3) drop_mids_eq)
  moreover have "tab_nodes (pg_entries s) - (tab_nodes (pg_entries s) - {en_addr e}) = {en_addr e}" using a by blast
  moreover have "tells ?s1 s'"
  proof -
    note core = tab_core [where E = "pg_entries s" and E' = E1, OF E1(1)]
    have "net_of s' = net_cmd (c_rmv_node (en_addr e)) (net_of ?s1)"
      using tab_others [where E = E1 and n = n and e = e1, OF uniq e1(1)] core addr
      by (auto simp: net_of_def E1(2,3) drop_mids_eq)
    then show ?thesis using E1(4) by (simp add: tells_def)
  qed
  ultimately show ?thesis using tells_trans [OF drop_mids_tells [OF ok(3)]] unfolding sheds_def by auto
qed

lemma remove_chain_tells:
  assumes "remove_chain i c s = Some s'" "live_ok ifs s"
  shows "sheds s s' \<and> live_ok ifs s'"
proof -
  have "live_ok ifs s \<longrightarrow> sheds s s' \<and> live_ok ifs s'"
  proof (rule remove_chain.raw_induct [where P = "\<lambda>i c s s'. live_ok ifs s \<longrightarrow> sheds s s' \<and> live_ok ifs s'", OF _ assms(1)], intro impI)
    fix f i c and s s' :: plugin
    assume IH: "\<And>i c s s'. f i c s = Some s' \<Longrightarrow> live_ok ifs s \<longrightarrow> sheds s s' \<and> live_ok ifs s'"
      and run: "(case c of None \<Rightarrow> Some s
        | Some n \<Rightarrow> do { s \<leftarrow> drop_dsts n s; e \<leftarrow> pg_entries s n;
            s \<leftarrow> (if en_active e then Some s else drop_entry i n s); f i (en_next e) s }) = Some s'"
      and live: "live_ok ifs s"
    show "sheds s s' \<and> live_ok ifs s'"
    proof (cases c)
      case None
      then show ?thesis using run live by simp
    next
      case (Some n)
      then obtain s1 e s2 where r: "drop_dsts n s = Some s1" "pg_entries s1 n = Some e"
        "(if en_active e then Some s1 else drop_entry i n s1) = Some s2" "f i (en_next e) s2 = Some s'"
        using run by (auto simp: bind_eq_Some_conv)
      note t1 = drop_dsts_tells [OF live r(1)]
      have "sheds s1 s2 \<and> live_ok ifs s2" using t1 r(3) drop_entry_tells by (auto split: if_splits)
      then show ?thesis using t1 IH [OF r(4)] sheds_trans by blast
    qed
  qed
  then show ?thesis using assms(2) by blast
qed

lemma tc_remove_useless_link_tells:
  assumes "tc_remove_useless_link s = Some s'" "live_ok ifs s"
  shows "sheds s s' \<and> live_ok ifs s'"
proof -
  have "sheds s s' \<and> live_ok ifs s'"
    using assms(1) unfolding tc_remove_useless_link_def
  proof (rule iter_partial)
    fix i t t'
    assume t: "sheds s t \<and> live_ok ifs t" and "do { c \<leftarrow> rd (pg_tab t) (int i); remove_chain i c t } = Some t'"
    then obtain c where "remove_chain i c t = Some t'" by (auto simp: bind_eq_Some_conv)
    then show "sheds s t' \<and> live_ok ifs t'" using remove_chain_tells t sheds_trans by blast
  qed (simp add: assms(2))
  then show ?thesis .
qed

end
