(* ===== verification/Plugin_Safety.thy ===== *)
theory Plugin_Safety imports Plugin_Removal begin

text \<open>
  What an event of the daemon does to the plugin: its entries mirror the topology set, its commands keep a listener in step, and
  whether the next event is safe depends on which entries of a hash chain went away.
\<close>

section \<open>States between two events\<close>

definition plug_ok :: "ip_addr list \<Rightarrow> plugin \<Rightarrow> bool" where
  "plug_ok ifs s \<longleftrightarrow> (\<exists>ch. plug_rep ifs s ch) \<and> closed s"

definition env_links :: "olsr_env \<Rightarrow> (ip_addr \<times> ip_addr) set" where
  "env_links env = set (filter (good_link env) (env_edges env))"

lemma plug_ok_start: "plug_ok ifs plugin_start"
proof -
  have "closed plugin_start"
    by (simp add: closed_def plugin_start_def tc_init_plugin_def tab_links_def)
  then show ?thesis using plug_rep_start by (auto simp: plug_ok_def)
qed

text \<open>The marks along a chain, read through the forward pointers.\<close>

partial_function (option) chain_flags :: "(nat \<rightharpoonup> tc_entry) \<Rightarrow> nat option \<Rightarrow> bool list option" where
  "chain_flags E c =
     (case c of
        None \<Rightarrow> Some []
      | Some n \<Rightarrow> do { e \<leftarrow> E n; fs \<leftarrow> chain_flags E (en_next e); Some (en_active e # fs) })"

declare chain_flags.simps [code]

fun falls :: "bool list \<Rightarrow> bool" where
  "falls [] = False"
| "falls (x # xs) = ((x \<and> xs \<noteq> [] \<and> \<not> hd xs) \<or> falls xs)"

text \<open>Some chain has an unmarked entry right behind a marked one.\<close>

definition stale :: "plugin \<Rightarrow> bool" where
  "stale s \<longleftrightarrow> list_ex (\<lambda>i. case chain_flags (pg_entries s) (pg_tab s ! i) of Some fs \<Rightarrow> falls fs | None \<Rightarrow> False) [0..<hashsize]"

lemma chain_flags_seg: "en_seg E p c ns \<Longrightarrow> chain_flags E c = Some (map (active_in E) ns)"
proof (induction ns arbitrary: p c)
  case Nil
  then show ?case by (simp add: chain_flags.simps)
next
  case (Cons n ns)
  then obtain e where "c = Some n" "E n = Some e" "en_seg E (Some n) (en_next e) ns" by auto
  then show ?case using Cons.IH by (subst chain_flags.simps) (simp add: active_in_def)
qed

lemma stale_rep:
  assumes "plug_rep ifs s ch"
  shows "stale s \<longleftrightarrow> (\<exists>i < hashsize. falls (map (active_in (pg_entries s)) (ch i)))"
  using chain_flags_seg [OF plug_repD(2) [OF assms]] by (auto simp: stale_def list_ex_iff)

lemma not_falls_split:
  assumes "\<not> falls (map P ns)"
  shows "\<exists>ins acts. ns = ins @ acts \<and> (\<forall>n \<in> set ins. \<not> P n) \<and> (\<forall>n \<in> set acts. P n)"
  using assms
proof (induction ns)
  case Nil
  then show ?case by simp
next
  case (Cons n ns)
  then obtain ins acts where s: "ns = ins @ acts" "\<forall>n \<in> set ins. \<not> P n" "\<forall>n \<in> set acts. P n" by auto
  show ?case
  proof (cases "P n")
    case False
    then show ?thesis using s by (intro exI [of _ "n # ins"] exI [of _ acts]) auto
  next
    case True
    then have "ins = []" using Cons.prems s(1,2) by (cases ins) auto
    then show ?thesis using s True by (intro exI [of _ "[]"] exI [of _ "n # acts"]) auto
  qed
qed

lemma falls_all: "(\<forall>n \<in> set ns. P n) \<Longrightarrow> \<not> falls (map P ns)"
proof (induction ns)
  case (Cons n ns)
  then show ?case by (cases ns) auto
qed simp

section \<open>The next event after a stale chain\<close>

lemma flags_dangling:
  assumes "en_seg E p c (n # ns)" "cleaned UNIV E E'" "active_in E n" "\<not> (\<forall>m \<in> set ns. active_in E m)"
  shows "chain_flags E' (Some n) = None"
  using assms
proof (induction ns arbitrary: p c n)
  case Nil
  then show ?case by simp
next
  case (Cons m ms)
  obtain e where e: "E n = Some e" "en_seg E (Some n) (en_next e) (m # ms)" "en_active e"
    using Cons.prems(1,3) by (auto simp: active_in_def)
  obtain q where E'n: "E' n = Some ((clean_entry e)\<lparr>en_prev := q\<rparr>)" using cleaned_keep [OF Cons.prems(2) _ e(1,3)] by auto
  have nxt: "en_next e = Some m" using e(2) by simp
  show ?case
  proof (cases "active_in E m")
    case True
    then have "chain_flags E' (Some m) = None" using Cons.IH [OF e(2) Cons.prems(2)] Cons.prems(4) by auto
    then show ?thesis using E'n nxt by (subst chain_flags.simps) simp
  next
    case False
    obtain f where "E m = Some f" using e(2) by auto
    then have "E' m = None" using cleaned_gone [OF Cons.prems(2)] False by (auto simp: active_in_def)
    then have "chain_flags E' (Some m) = None" by (subst chain_flags.simps) simp
    then show ?thesis using E'n nxt by (subst chain_flags.simps) simp
  qed
qed

lemma falls_first:
  assumes "falls (map P ns)"
  shows "\<exists>ins n ms. ns = ins @ n # ms \<and> (\<forall>m \<in> set ins. \<not> P m) \<and> P n \<and> \<not> (\<forall>m \<in> set ms. P m)"
  using assms
proof (induction ns)
  case Nil
  then show ?case by simp
next
  case (Cons n ns)
  show ?case
  proof (cases "P n")
    case True
    have "\<not> (\<forall>m \<in> set ns. P m)"
      using Cons.prems True falls_all [of ns P] by (cases ns) auto
    then show ?thesis using True by (intro exI [of _ "[]"] exI [of _ n] exI [of _ ns]) simp
  next
    case False
    then have "falls (map P ns)" using Cons.prems by simp
    then obtain ins m ms where "ns = ins @ m # ms" "\<forall>m \<in> set ins. \<not> P m" "P m" "\<not> (\<forall>m \<in> set ms. P m)"
      using Cons.IH by blast
    then show ?thesis using False by (intro exI [of _ "n # ins"] exI [of _ m] exI [of _ ms]) simp
  qed
qed

lemma en_seg_tail: "en_seg E p c (xs @ n # ns) \<Longrightarrow> \<exists>q. en_seg E q (Some n) (n # ns)"
  by (induction xs arbitrary: p c) auto

lemma flags_of_fallen:
  assumes "en_seg E p c ns" "cleaned UNIV E E'" "falls (map (active_in E) ns)"
  shows "chain_flags E' (opt_hd (filter (active_in E) ns)) = None"
proof -
  obtain ins n ms where s: "ns = ins @ n # ms" "\<forall>m \<in> set ins. \<not> active_in E m" "active_in E n"
    "\<not> (\<forall>m \<in> set ms. active_in E m)" using falls_first [OF assms(3)] by blast
  obtain q where "en_seg E q (Some n) (n # ms)" using en_seg_tail assms(1) s(1) by blast
  then have "chain_flags E' (Some n) = None" using flags_dangling assms(2) s(3,4) by blast
  moreover have "filter (active_in E) ns = n # filter (active_in E) ms" using s(1-3) by simp
  ultimately show ?thesis by simp
qed

text \<open>A walk that succeeds needs all the entries it meets, and clearing marks keeps entries and pointers.\<close>

definition same_links :: "heap \<Rightarrow> heap \<Rightarrow> bool" where
  "same_links E E' \<longleftrightarrow> (\<forall>n. map_option en_next (E' n) = map_option en_next (E n))"

lemma same_links_flags:
  assumes "chain_flags E c = Some fs" "same_links E E'"
  shows "chain_flags E' c \<noteq> None"
proof -
  have "same_links E E' \<longrightarrow> chain_flags E' c \<noteq> None"
  proof (rule chain_flags.raw_induct [where P = "\<lambda>E c fs. same_links E E' \<longrightarrow> chain_flags E' c \<noteq> None", OF _ assms(1)], intro impI)
    fix f E c and fs :: "bool list"
    assume IH: "\<And>E c fs. f E c = Some fs \<Longrightarrow> same_links E E' \<longrightarrow> chain_flags E' c \<noteq> None"
      and run: "(case c of None \<Rightarrow> Some []
        | Some n \<Rightarrow> do { e \<leftarrow> E n; fs \<leftarrow> f E (en_next e); Some (en_active e # fs) }) = Some fs"
      and same: "same_links E E'"
    show "chain_flags E' c \<noteq> None"
    proof (cases c)
      case None
      then show ?thesis by (simp add: chain_flags.simps)
    next
      case (Some n)
      then obtain e gs where e: "E n = Some e" "f E (en_next e) = Some gs" using run by (auto simp: bind_eq_Some_conv)
      have "map_option en_next (E' n) = map_option en_next (E n)" using same by (simp add: same_links_def)
      then obtain e' where "E' n = Some e'" "en_next e' = en_next e" using e(1) by auto
      then show ?thesis using IH [OF e(2)] same Some by (subst chain_flags.simps) auto
    qed
  qed
  then show ?thesis using assms(2) by blast
qed

lemma reset_chain_walks:
  assumes "reset_chain c s = Some s'"
  shows "chain_flags (pg_entries s) c \<noteq> None \<and> same_links (pg_entries s) (pg_entries s') \<and> pg_tab s' = pg_tab s"
proof (rule reset_chain.raw_induct [where P = "\<lambda>c s s'. chain_flags (pg_entries s) c \<noteq> None \<and>
      same_links (pg_entries s) (pg_entries s') \<and> pg_tab s' = pg_tab s", OF _ assms])
  fix f c and s s' :: plugin
  assume IH: "\<And>c s s'. f c s = Some s' \<Longrightarrow> chain_flags (pg_entries s) c \<noteq> None \<and>
      same_links (pg_entries s) (pg_entries s') \<and> pg_tab s' = pg_tab s"
    and run: "(case c of None \<Rightarrow> Some s
      | Some n \<Rightarrow> do { e \<leftarrow> pg_entries s n;
          let e = e\<lparr>en_active := False, en_dst := map (map (ds_active_update (\<lambda>_. False))) (en_dst e)\<rparr>;
          f (en_next e) (s\<lparr>pg_entries := (pg_entries s)(n \<mapsto> e)\<rparr>) }) = Some s'"
  show "chain_flags (pg_entries s) c \<noteq> None \<and> same_links (pg_entries s) (pg_entries s') \<and> pg_tab s' = pg_tab s"
  proof (cases c)
    case None
    then show ?thesis using run by (simp add: chain_flags.simps same_links_def)
  next
    case (Some n)
    then obtain e where e: "pg_entries s n = Some e" "f (en_next e) (s\<lparr>pg_entries := (pg_entries s)(n \<mapsto> clear_entry e)\<rparr>) = Some s'"
      using run by (auto simp: bind_eq_Some_conv Let_def clear_entry_def)
    let ?E1 = "(pg_entries s)(n \<mapsto> clear_entry e)"
    have same: "same_links ?E1 (pg_entries s)" "same_links (pg_entries s) ?E1" using e(1) by (auto simp: same_links_def)
    have "chain_flags ?E1 (en_next e) \<noteq> None" "same_links ?E1 (pg_entries s')" "pg_tab s' = pg_tab s" using IH [OF e(2)] by auto
    moreover from this have "chain_flags (pg_entries s) (en_next e) \<noteq> None" using same_links_flags [OF _ same(1)] by blast
    ultimately show ?thesis using same(2) Some e(1) by (subst chain_flags.simps) (auto simp: same_links_def)
  qed
qed

lemma reset_stuck:
  assumes "i < hashsize" "length (pg_tab s) = hashsize" "chain_flags (pg_entries s) (pg_tab s ! i) = None"
  shows "tc_reset_active_flag s = None"
proof (rule ccontr)
  let ?f = "\<lambda>i s. do { c \<leftarrow> rd (pg_tab s) (int i); reset_chain c s }"
  assume "tc_reset_active_flag s \<noteq> None"
  then obtain t where t: "iter [0..<hashsize] ?f s = Some t" by (auto simp: tc_reset_active_flag_def bind_eq_Some_conv)
  have "[0..<hashsize] = [0..<i] @ i # [Suc i..<hashsize]"
    using assms(1) by (metis le0 less_imp_le_nat upt_add_eq_append upt_conv_Cons le_add_diff_inverse)
  then obtain u v where u: "iter [0..<i] ?f s = Some u" "?f i u = Some v"
    using t by (auto simp: iter_append bind_eq_Some_conv)
  have inv: "same_links (pg_entries s) (pg_entries u) \<and> pg_tab u = pg_tab s"
    using u(1)
  proof (rule iter_partial)
    fix j w w'
    assume w: "same_links (pg_entries s) (pg_entries w) \<and> pg_tab w = pg_tab s" and "?f j w = Some w'"
    then obtain c where "reset_chain c w = Some w'" by (auto simp: bind_eq_Some_conv)
    then show "same_links (pg_entries s) (pg_entries w') \<and> pg_tab w' = pg_tab s"
      using reset_chain_walks w by (auto simp: same_links_def)
  qed (simp add: same_links_def)
  then have "reset_chain (pg_tab s ! i) u = Some v" using u(2) assms(1,2) by simp
  then have "chain_flags (pg_entries u) (pg_tab s ! i) \<noteq> None" using reset_chain_walks by blast
  moreover have "same_links (pg_entries u) (pg_entries s)" using inv by (simp add: same_links_def)
  ultimately show False using same_links_flags assms(3) by blast
qed

text \<open>Some chain of the hash table runs into freed memory.\<close>

definition dangling :: "plugin \<Rightarrow> bool" where
  "dangling s \<longleftrightarrow> length (pg_tab s) = hashsize \<and> (\<exists>i < hashsize. chain_flags (pg_entries s) (pg_tab s ! i) = None)"

section \<open>One event\<close>

lemma plug_live: "plug_rep ifs s ch \<Longrightarrow> closed s \<Longrightarrow> live_ok ifs s"
  unfolding live_ok_def closed_def using plug_repD(4,8) by blast

lemma cleaned_ran:
  assumes "cleaned UNIV E E'"
  shows "(\<exists>n. E' n = Some f) \<longleftrightarrow> (\<exists>n e p. E n = Some e \<and> en_active e \<and> E' n = Some f \<and> f = (clean_entry e)\<lparr>en_prev := p\<rparr>)"
proof
  assume "\<exists>n. E' n = Some f"
  then obtain n where "E' n = Some f" by blast
  then show "\<exists>n e p. E n = Some e \<and> en_active e \<and> E' n = Some f \<and> f = (clean_entry e)\<lparr>en_prev := p\<rparr>"
    using assms [unfolded cleaned_def, rule_format, of n] by (auto split: option.splits if_splits)
qed blast

lemma cleaned_tabs:
  assumes cl: "cleaned UNIV (pg_entries s) E'" and rep: "plug_rep ifs s ch"
    and src: "fst ` tab_mlinks (pg_entries s) \<subseteq> tab_marked (pg_entries s)"
  shows "tab_nodes E' = tab_marked (pg_entries s)" "tab_links E' = tab_mlinks (pg_entries s)"
proof -
  let ?E = "pg_entries s"
  have fwd: "\<exists>e. e \<in> ran ?E \<and> en_active e \<and> en_addr f = en_addr e \<and> entry_links f = entry_mlinks e" if "f \<in> ran E'" for f
  proof -
    have "\<exists>n. E' n = Some f" using that by (auto simp: ran_def)
    then obtain n e p where "?E n = Some e" "en_active e" "f = (clean_entry e)\<lparr>en_prev := p\<rparr>"
      using cleaned_ran [OF cl] by blast
    then show ?thesis using clean_entry_links [of e] by (auto simp: ran_def entry_links_def)
  qed
  have bwd: "\<exists>f. f \<in> ran E' \<and> en_addr f = en_addr e \<and> entry_links f = entry_mlinks e" if "e \<in> ran ?E" "en_active e" for e
  proof -
    obtain n where "?E n = Some e" using \<open>e \<in> ran ?E\<close> by (auto simp: ran_def)
    then obtain p where "E' n = Some ((clean_entry e)\<lparr>en_prev := p\<rparr>)" using cleaned_keep [OF cl _ _ \<open>en_active e\<close>] by blast
    then show ?thesis using clean_entry_links [of e] by (intro exI [of _ "(clean_entry e)\<lparr>en_prev := p\<rparr>"]) (auto simp: ran_def entry_links_def)
  qed
  show "tab_nodes E' = tab_marked ?E"
  proof (intro equalityI subsetI)
    fix a
    assume "a \<in> tab_nodes E'"
    then obtain f where "f \<in> ran E'" "a = en_addr f" by (auto simp: tab_nodes_def)
    then obtain e where "e \<in> ran ?E" "en_active e" "a = en_addr e" using fwd [of f] by auto
    then show "a \<in> tab_marked ?E" by (auto simp: tab_marked_def)
  next
    fix a
    assume "a \<in> tab_marked ?E"
    then obtain e where "e \<in> ran ?E" "en_active e" "a = en_addr e" by (auto simp: tab_marked_def)
    then obtain f where "f \<in> ran E'" "a = en_addr f" using bwd [of e] by auto
    then show "a \<in> tab_nodes E'" by (auto simp: tab_nodes_def)
  qed
  show "tab_links E' = tab_mlinks ?E"
  proof (intro equalityI subsetI)
    fix p
    assume "p \<in> tab_links E'"
    then obtain f where "f \<in> ran E'" "p \<in> entry_links f" by (auto simp: tab_links_def)
    then obtain e where "e \<in> ran ?E" "p \<in> entry_mlinks e" using fwd [of f] by auto
    then show "p \<in> tab_mlinks ?E" by (auto simp: tab_mlinks_def)
  next
    fix p
    assume p: "p \<in> tab_mlinks ?E"
    then obtain n e where e: "?E n = Some e" "p \<in> entry_mlinks e" by (auto simp: tab_mlinks_def ran_def)
    then have "fst p = en_addr e" by (auto simp: entry_mlinks_def)
    moreover have "fst p \<in> tab_marked ?E" using src p by blast
    ultimately obtain m f where f: "?E m = Some f" "en_active f" "en_addr f = en_addr e" by (auto simp: tab_marked_def ran_def)
    then have "f = e" using plug_repD(8) [OF rep f(1) e(1) f(3)] e(1) by simp
    then obtain g where "g \<in> ran E'" "entry_links g = entry_mlinks e" using bwd [of e] f(1,2) by (auto simp: ran_def)
    then show "p \<in> tab_links E'" using e(2) by (auto simp: tab_links_def)
  qed
qed

lemma kept_chains_rep:
  assumes rep: "plug_rep ifs s ch" and cl: "cleaned UNIV (pg_entries s) (pg_entries s')"
    and nxt: "pg_next s' = pg_next s" and len: "length (pg_tab s') = hashsize"
    and kept: "\<And>i. i < hashsize \<Longrightarrow> kept_chain (pg_entries s) (ch i) (pg_entries s') (pg_tab s' ! i)"
    and fresh: "\<not> stale s"
  shows "plug_rep ifs s' (\<lambda>i. filter (active_in (pg_entries s)) (ch i))"
proof -
  let ?E = "pg_entries s" and ?E' = "pg_entries s'"
  have old: "\<exists>e p. ?E n = Some e \<and> en_active e \<and> f = (clean_entry e)\<lparr>en_prev := p\<rparr>" if "?E' n = Some f" for n f
    using cl [unfolded cleaned_def, rule_format, of n] that by (auto split: option.splits if_splits)
  have addr: "\<exists>e. ?E n = Some e \<and> active_in ?E n \<and> en_addr f = en_addr e \<and> (entry_ok ifs e \<longrightarrow> entry_ok ifs f)"
    if live: "?E' n = Some f" for n f
  proof -
    obtain e p where e: "?E n = Some e" "en_active e" "f = (clean_entry e)\<lparr>en_prev := p\<rparr>" using old [OF live] by blast
    have "same_core (clean_entry e) f" unfolding e(3) by simp
    then show ?thesis using e clean_entry_ok same_coreD(1,5) by (fastforce simp: active_in_def)
  qed
  show ?thesis
    unfolding plug_rep_def
  proof (intro conjI allI impI ballI, goal_cases)
    case (2 i)
    then have "\<not> falls (map (active_in ?E) (ch i))" using fresh stale_rep [OF rep] by blast
    then obtain ins acts where c: "ch i = ins @ acts" "\<forall>n \<in> set ins. \<not> active_in ?E n" "\<forall>n \<in> set acts. active_in ?E n"
      using not_falls_split by blast
    have f: "filter (active_in ?E) (ch i) = acts" using c by simp
    have "en_seg ?E' None (opt_hd acts) acts"
      using kept [OF 2] c by (simp add: kept_chain_def none_active_def all_active_def)
    then show ?case using kept [OF 2] f by (simp add: kept_chain_def)
  next
    case (3 i)
    then show ?case using plug_repD(3) [OF rep] by simp
  next
    case (4 n f)
    then show ?case using addr plug_repD(4) [OF rep] by blast
  next
    case (5 n f)
    then show ?case using addr plug_repD(5) [OF rep] nxt by metis
  next
    case (6 n f)
    then show ?case using addr [OF 6] plug_repD(6) [OF rep] by fastforce
  next
    case (7 i n f)
    then show ?case using addr [OF 7(3)] plug_repD(7) [OF rep 7(1)] by fastforce
  next
    case (8 n m f g)
    then show ?case using addr [OF 8(1)] addr [OF 8(2)] plug_repD(8) [OF rep] by metis
  qed (rule len)
qed

lemma tc_check_data_ok:
  assumes ok: "plug_ok ifs s" and ifs: "oe_ifs env = ifs"
  shows "\<exists>s1 s'. tc_mark_data env s = Some s1 \<and> tc_check_data env s = Some s' \<and> tells s s' \<and>
    tab_nodes (pg_entries s1) = tab_nodes (pg_entries s) \<union> ends (env_links env) \<and> plug_ok ifs s1 \<and>
    tab_nodes (pg_entries s') = ends (env_links env) \<and> tab_links (pg_entries s') = env_links env \<and>
    mid_pair ` set (pg_mid s') = {p \<in> set (env_mids env). fst p \<notin> tab_nodes (pg_entries s) - ends (env_links env)} \<and>
    (if stale s1 then dangling s' else plug_ok ifs s')"
proof -
  obtain ch where rep: "plug_rep ifs s ch" and closed: "closed s" using ok by (auto simp: plug_ok_def)
  obtain s1 ch1 where s1: "tc_mark_data env s = Some s1" "plug_rep ifs s1 ch1" "closed s1" "tells s s1"
    "tab_nodes (pg_entries s1) = tab_nodes (pg_entries s) \<union> ends (env_links env)"
    "tab_marked (pg_entries s1) = ends (env_links env)" "tab_mlinks (pg_entries s1) = env_links env"
    "mid_pair ` {d \<in> set (pg_mid s1). md_active d} = set (env_mids env)"
    using tc_mark_data_ok [OF rep ifs closed] unfolding env_links_def by blast
  define s2 where "s2 = tc_remove_useless_mid s1"
  have s2: "pg_entries s2 = pg_entries s1" "pg_tab s2 = pg_tab s1" "pg_next s2 = pg_next s1"
    "pg_mid s2 = filter md_active (pg_mid s1)"
    by (simp_all add: s2_def tc_remove_useless_mid_def drop_mids_eq)
  have rep2: "plug_rep ifs s2 ch1" using s1(2) s2 by (simp add: plug_rep_def)
  have closed2: "closed s2" using s1(3) s2 distinct_mids_filter by (simp add: closed_def)
  have "tells s1 s2" unfolding s2_def tc_remove_useless_mid_def using s1(3) by (intro drop_mids_tells) (simp add: closed_def)
  then have t2: "tells s s2" by (rule tells_trans [OF s1(4)])
  have live2: "live_ok ifs s2" by (rule plug_live [OF rep2 closed2])
  obtain s' where s': "tc_remove_useless_link s2 = Some s'" "cleaned UNIV (pg_entries s2) (pg_entries s')"
    "pg_next s' = pg_next s2" "length (pg_tab s') = hashsize"
    "\<And>i. i < hashsize \<Longrightarrow> kept_chain (pg_entries s2) (ch1 i) (pg_entries s') (pg_tab s' ! i)"
    using tc_remove_useless_link_ok [OF rep2] by blast
  have run: "tc_check_data env s = Some s'" using s1(1) s'(1) by (simp add: tc_check_data_def s2_def)
  have sheds: "sheds s2 s'" "live_ok ifs s'" using tc_remove_useless_link_tells [OF s'(1) live2] by blast+
  then have tells: "tells s s'" using tells_trans [OF t2] by (simp add: sheds_def)
  have src: "fst ` tab_mlinks (pg_entries s2) \<subseteq> tab_marked (pg_entries s2)"
    using s1(6,7) by (auto simp: s2 ends_def)
  note tabs = cleaned_tabs [OF s'(2) rep2 src]
  have nodes: "tab_nodes (pg_entries s') = ends (env_links env)" using tabs(1) s1(6) s2(1) by simp
  have links: "tab_links (pg_entries s') = env_links env" using tabs(2) s1(7) s2(1) by simp
  have gone: "tab_nodes (pg_entries s2) - tab_nodes (pg_entries s') = tab_nodes (pg_entries s) - ends (env_links env)"
    using s1(5) nodes s2(1) by auto
  have "mid_pair ` set (pg_mid s') = {p \<in> set (env_mids env). fst p \<notin> tab_nodes (pg_entries s) - ends (env_links env)}"
  proof -
    have "set (pg_mid s') = {d \<in> {d \<in> set (pg_mid s1). md_active d}. md_main d \<notin> tab_nodes (pg_entries s) - ends (env_links env)}"
      using sheds(1) gone s2(4) by (auto simp: sheds_def)
    then show ?thesis unfolding s1(8) [symmetric] by (auto simp: mid_pair_def)
  qed
  moreover have "if stale s1 then dangling s' else plug_ok ifs s'"
  proof (cases "stale s1")
    case True
    then obtain i where i: "i < hashsize" "falls (map (active_in (pg_entries s2)) (ch1 i))"
      using stale_rep [OF s1(2)] s2(1) by auto
    have "chain_flags (pg_entries s') (pg_tab s' ! i) = None"
      using flags_of_fallen [OF plug_repD(2) [OF rep2 i(1)] s'(2) i(2)] s'(5) [OF i(1)] by (simp add: kept_chain_def)
    then have "dangling s'" using i(1) s'(4) by (auto simp: dangling_def)
    then show ?thesis using True by simp
  next
    case False
    then have "\<not> stale s2" using stale_rep [OF s1(2)] stale_rep [OF rep2] s2(1) by simp
    then have "plug_rep ifs s' (\<lambda>i. filter (active_in (pg_entries s2)) (ch1 i))"
      using kept_chains_rep [OF rep2 s'(2,3,4,5)] by blast
    moreover have "closed s'" using nodes links live_okD(3) [OF sheds(2)] by (force simp: closed_def ends_def)
    ultimately show ?thesis using False by (auto simp: plug_ok_def)
  qed
  ultimately show ?thesis
    using s1(1,2,3,5) run tells nodes links by (intro exI [of _ s1] exI [of _ s']) (auto simp: plug_ok_def)
qed

lemma dangling_stuck: "dangling s \<Longrightarrow> tc_check_data env s = None"
  using reset_stuck by (auto simp: dangling_def tc_check_data_def tc_mark_data_def)

end
