(* ===== verification/Hash_Rows.thy ===== *)
theory Hash_Rows imports Ip_Calc begin

text \<open>Rows of some addresses, for the witnesses; the hash is evaluated round by round.\<close>

lemma hash_rowI:
  assumes "jenkins_hash (le32 x) = snd (snd (jhash_mix s))"
    and "jhash_round 13 8 13 s = s1" "jhash_round 12 16 5 s1 = s2" "jhash_round 3 10 15 s2 = (u, v, w)"
  shows "hash_row x = unat (w AND 127)"
  using assms by (simp add: hash_row_def olsr_ip_hashing_def hashmask_def hashsize_def jhash_mix_def)

lemmas jenkins_eval = jenkins_hash_def jhash_blocks.simps key_byte_def le32_def Let_def split_beta

lemma row_2: "hash_row 0x0200000A = 119"
proof -
  have "hash_row 0x0200000A = unat (2508526455 AND (127 :: ulong))"
  proof (rule hash_rowI)
    show "jenkins_hash (le32 0x0200000A) = snd (snd (jhash_mix (2687990211, 2654435769, 4)))" by (simp add: jenkins_eval)
    show "jhash_round 13 8 13 (2687990211, 2654435769, 4) = (33554438, 2620882863, 1640784372)" by (simp add: jhash_round_def Let_def)
    show "jhash_round 12 16 5 (33554438, 2620882863, 1640784372) = (66716325, 886315798, 693691617)" by (simp add: jhash_round_def Let_def)
    show "jhash_round 3 10 15 (66716325, 886315798, 693691617) = (2699435570, 4075671555, 2508526455)" by (simp add: jhash_round_def Let_def)
  qed
  then show ?thesis by simp
qed

lemma row_3: "hash_row 0x0300000A = 68"
proof -
  have "hash_row 0x0300000A = unat (925212612 AND (127 :: ulong))"
  proof (rule hash_rowI)
    show "jenkins_hash (le32 0x0300000A) = snd (snd (jhash_mix (2704767427, 2654435769, 4)))" by (simp add: jenkins_eval)
    show "jhash_round 13 8 13 (2704767427, 2654435769, 4) = (50331654, 2604105647, 1640782324)" by (simp add: jhash_round_def Let_def)
    show "jhash_round 12 16 5 (50331654, 2604105647, 1640782324) = (100285094, 165079829, 1370850145)" by (simp add: jhash_round_def Let_def)
    show "jhash_round 3 10 15 (100285094, 165079829, 1370850145) = (2690350172, 2050267992, 925212612)" by (simp add: jhash_round_def Let_def)
  qed
  then show ?thesis by simp
qed

lemma row_4: "hash_row 0x0400000A = 33"
proof -
  have "hash_row 0x0400000A = unat (180245025 AND (127 :: ulong))"
  proof (rule hash_rowI)
    show "jenkins_hash (le32 0x0400000A) = snd (snd (jhash_mix (2721544643, 2654435769, 4)))" by (simp add: jenkins_eval)
    show "jhash_round 13 8 13 (2721544643, 2654435769, 4) = (67108870, 2587328431, 1640780276)" by (simp add: jhash_round_def Let_def)
    show "jhash_round 12 16 5 (67108870, 2587328431, 1640780276) = (133837478, 47643413, 1458410465)" by (simp add: jhash_round_def Let_def)
    show "jhash_round 3 10 15 (133837478, 47643413, 1458410465) = (2766672332, 2806408552, 180245025)" by (simp add: jhash_round_def Let_def)
  qed
  then show ?thesis by simp
qed

lemma row_6: "hash_row 0x0600000A = 53"
proof -
  have "hash_row 0x0600000A = unat (2293161653 AND (127 :: ulong))"
  proof (rule hash_rowI)
    show "jenkins_hash (le32 0x0600000A) = snd (snd (jhash_mix (2755099075, 2654435769, 4)))" by (simp add: jenkins_eval)
    show "jhash_round 13 8 13 (2755099075, 2654435769, 4) = (100663302, 2553773999, 1640776180)" by (simp add: jhash_round_def Let_def)
    show "jhash_round 12 16 5 (100663302, 2553773999, 1640776180) = (200942247, 148249364, 1287304417)" by (simp add: jhash_round_def Let_def)
    show "jhash_round 3 10 15 (200942247, 148249364, 1287304417) = (3221095470, 68016645, 2293161653)" by (simp add: jhash_round_def Let_def)
  qed
  then show ?thesis by simp
qed

lemma row_8: "hash_row 0x0800000A = 53"
proof -
  have "hash_row 0x0800000A = unat (2869446709 AND (127 :: ulong))"
  proof (rule hash_rowI)
    show "jenkins_hash (le32 0x0800000A) = snd (snd (jhash_mix (2788653507, 2654435769, 4)))" by (simp add: jenkins_eval)
    show "jhash_round 13 8 13 (2788653507, 2654435769, 4) = (134217734, 2520219567, 1640772084)" by (simp add: jhash_round_def Let_def)
    show "jhash_round 12 16 5 (134217734, 2520219567, 1640772084) = (268063392, 1993407259, 3635831777)" by (simp add: jhash_round_def Let_def)
    show "jhash_round 3 10 15 (268063392, 1993407259, 3635831777) = (3680780248, 1380530018, 2869446709)" by (simp add: jhash_round_def Let_def)
  qed
  then show ?thesis by simp
qed

end
