(* ===== verification/Plugin_Events.thy ===== *)
theory Plugin_Events imports Plugin_Safety Device_Safety Hash_Rows begin

text \<open>
  Runs of the event handler of the plugin, from its initial state: what each event leaves, when the next one reads freed
  memory, and what the routing module makes of the commands.
\<close>

section \<open>Runs\<close>

fun plugin_events :: "olsr_env list \<Rightarrow> plugin \<Rightarrow> (dev_cmd list \<times> plugin) option" where
  "plugin_events [] s = Some ([], s)"
| "plugin_events (env # envs) s = do {
     (cs, s) \<leftarrow> olsrd_pcf_event env s;
     (ds, s) \<leftarrow> plugin_events envs s;
     Some (cs @ ds, s) }"

definition empty_net :: net where
  "empty_net = \<lparr>nt_nodes = {}, nt_links = {}, nt_alias = {}\<rparr>"

lemma net_of_start: "net_of plugin_start = empty_net"
  by (simp add: net_of_def empty_net_def plugin_start_def tc_init_plugin_def tab_nodes_def)

lemma pg_out_start: "pg_out plugin_start = []"
  by (simp add: plugin_start_def tc_init_plugin_def)

lemma sent_simps [simp]:
  "pg_entries (snd (dev_send s)) = pg_entries s" "pg_tab (snd (dev_send s)) = pg_tab s"
  "pg_mid (snd (dev_send s)) = pg_mid s" "pg_out (snd (dev_send s)) = []" "fst (dev_send s) = pg_out s"
  "plug_ok ifs (snd (dev_send s)) = plug_ok ifs s" "dangling (snd (dev_send s)) = dangling s"
  "net_of (snd (dev_send s)) = net_of s"
  by (simp_all add: dev_send_def plug_ok_def plug_rep_def closed_def dangling_def net_of_def)

text \<open>One event: \<open>s1\<close> is the state between marking and removal.\<close>

lemma event_ok:
  assumes ok: "plug_ok (oe_ifs env) s" and out: "pg_out s = []"
  shows "\<exists>s1 cs s'. tc_mark_data env s = Some s1 \<and> olsrd_pcf_event env s = Some (cs, s') \<and> pg_out s' = [] \<and>
    plug_ok (oe_ifs env) s1 \<and> tab_nodes (pg_entries s1) = tab_nodes (pg_entries s) \<union> ends (env_links env) \<and>
    fold net_cmd cs (net_of s) = net_of s' \<and>
    tab_nodes (pg_entries s') = ends (env_links env) \<and> tab_links (pg_entries s') = env_links env \<and>
    mid_pair ` set (pg_mid s') = {p \<in> set (env_mids env). fst p \<notin> tab_nodes (pg_entries s) - ends (env_links env)} \<and>
    (if stale s1 then dangling s' else plug_ok (oe_ifs env) s')"
proof -
  obtain s1 t where t: "tc_mark_data env s = Some s1" "tc_check_data env s = Some t" "tells s t"
    "tab_nodes (pg_entries s1) = tab_nodes (pg_entries s) \<union> ends (env_links env)" "plug_ok (oe_ifs env) s1"
    "tab_nodes (pg_entries t) = ends (env_links env)" "tab_links (pg_entries t) = env_links env"
    "mid_pair ` set (pg_mid t) = {p \<in> set (env_mids env). fst p \<notin> tab_nodes (pg_entries s) - ends (env_links env)}"
    "if stale s1 then dangling t else plug_ok (oe_ifs env) t"
    using tc_check_data_ok [OF ok refl] by - (erule exE, erule exE, (erule conjE)+, rule that, assumption+)
  have ev: "olsrd_pcf_event env s = Some (pg_out t, snd (dev_send t))"
    using t(2) by (simp add: olsrd_pcf_event_def dev_send_def)
  have tell: "fold net_cmd (pg_out t) (net_of s) = net_of (snd (dev_send t))"
    using t(3) out by (auto simp: tells_def)
  show ?thesis
    by (rule exI [of _ s1], rule exI [of _ "pg_out t"], rule exI [of _ "snd (dev_send t)"])
      (use t ev tell in \<open>simp split: if_splits\<close>)
qed

lemma dangling_event: "dangling s \<Longrightarrow> olsrd_pcf_event env s = None"
  using dangling_stuck by (simp add: olsrd_pcf_event_def)

section \<open>Chains of one entry\<close>

lemma falls_single:
  assumes "distinct ns" "\<And>n m. n \<in> set ns \<Longrightarrow> m \<in> set ns \<Longrightarrow> n = m"
  shows "\<not> falls (map P ns)"
proof (cases ns)
  case (Cons n ms)
  have "ms = []"
  proof (cases ms)
    case (Cons m ks)
    then have "n = m" using \<open>ns = n # ms\<close> by (intro assms(2)) simp_all
    then show ?thesis using assms(1) \<open>ns = n # ms\<close> Cons by simp
  qed
  then show ?thesis using Cons by simp
qed simp

lemma not_stale:
  assumes ok: "plug_ok ifs s" and A: "tab_nodes (pg_entries s) \<subseteq> A" "inj_on hash_row A"
  shows "\<not> stale s"
proof -
  obtain ch where rep: "plug_rep ifs s ch" using ok by (auto simp: plug_ok_def)
  have "\<not> falls (map (active_in (pg_entries s)) (ch i))" if i: "i < hashsize" for i
  proof -
    have same: "n = m" if nm: "n \<in> set (ch i)" "m \<in> set (ch i)" for n m
    proof -
      obtain e f where e: "pg_entries s n = Some e" "pg_entries s m = Some f"
        using en_seg_live [OF plug_repD(2) [OF rep i]] nm by blast
      then have "hash_row (en_addr e) = i" "hash_row (en_addr f) = i" using plug_repD(7) [OF rep i] nm by blast+
      moreover have "en_addr e \<in> A" "en_addr f \<in> A" using e A(1) by (auto simp: tab_nodes_def ran_def)
      ultimately have "en_addr e = en_addr f" using A(2) by (auto simp: inj_on_def)
      then show ?thesis using plug_repD(8) [OF rep e] by blast
    qed
    then show ?thesis using falls_single plug_repD(3) [OF rep i] by blast
  qed
  then show ?thesis using stale_rep [OF rep] by blast
qed

lemma apart_events:
  assumes "plug_ok ifs s" "pg_out s = []" "tab_nodes (pg_entries s) \<subseteq> A" "inj_on hash_row A"
    and "\<forall>env \<in> set envs. oe_ifs env = ifs \<and> ends (env_links env) \<subseteq> A"
  shows "\<exists>cs s'. plugin_events envs s = Some (cs, s') \<and> plug_ok ifs s' \<and> fold net_cmd cs (net_of s) = net_of s' \<and>
    (envs \<noteq> [] \<longrightarrow> tab_nodes (pg_entries s') = ends (env_links (last envs)) \<and> tab_links (pg_entries s') = env_links (last envs))"
  using assms
proof (induction envs arbitrary: s)
  case Nil
  then show ?case by simp
next
  case (Cons env envs)
  have ifs: "oe_ifs env = ifs" "ends (env_links env) \<subseteq> A" using Cons.prems(5) by auto
  have ok: "plug_ok (oe_ifs env) s" using Cons.prems(1) ifs(1) by simp
  obtain s1 cs t where t: "olsrd_pcf_event env s = Some (cs, t)" "pg_out t = []" "plug_ok (oe_ifs env) s1"
    "tab_nodes (pg_entries s1) = tab_nodes (pg_entries s) \<union> ends (env_links env)"
    "fold net_cmd cs (net_of s) = net_of t" "tab_nodes (pg_entries t) = ends (env_links env)"
    "tab_links (pg_entries t) = env_links env" "if stale s1 then dangling t else plug_ok (oe_ifs env) t"
    using event_ok [OF ok Cons.prems(2)] by blast
  have "\<not> stale s1" using not_stale [OF t(3) _ Cons.prems(4)] t(4) Cons.prems(3) ifs(2) by simp
  then have okt: "plug_ok ifs t" using t(8) ifs(1) by simp
  have sub: "tab_nodes (pg_entries t) \<subseteq> A" "\<forall>env \<in> set envs. oe_ifs env = ifs \<and> ends (env_links env) \<subseteq> A"
    using t(6) ifs(2) Cons.prems(5) by auto
  obtain ds u where u: "plugin_events envs t = Some (ds, u)" "plug_ok ifs u" "fold net_cmd ds (net_of t) = net_of u"
    "envs \<noteq> [] \<longrightarrow> tab_nodes (pg_entries u) = ends (env_links (last envs)) \<and> tab_links (pg_entries u) = env_links (last envs)"
    using Cons.IH [OF okt t(2) sub(1) Cons.prems(4) sub(2)] by blast
  have last: "tab_nodes (pg_entries u) = ends (env_links (last (env # envs))) \<and> tab_links (pg_entries u) = env_links (last (env # envs))"
    using u(1,4) t(6,7) by (cases envs) auto
  have run: "plugin_events (env # envs) s = Some (cs @ ds, u)" using t(1) u(1) by simp
  show ?case
    by (rule exI [of _ "cs @ ds"], rule exI [of _ u]) (use run u(2,3) t(5) last in simp)
qed

section \<open>A withdrawn node behind a kept one\<close>

lemma mark_steps:
  assumes rep: "plug_rep ifs s ch" and closed: "closed s" and ifs: "oe_ifs env = ifs" and s1: "tc_mark_data env s = Some s1"
  shows "\<exists>ch1. plug_rep ifs s1 ch1 \<and> grows ch (pg_entries s) ch1 (pg_entries s1) \<and>
    tab_nodes (pg_entries s1) = tab_nodes (pg_entries s) \<union> ends (env_links env) \<and>
    tab_marked (pg_entries s1) = ends (env_links env)"
proof -
  obtain t ch1 where t: "tc_mark_data env s = Some t" "plug_rep ifs t ch1" "grows ch (pg_entries s) ch1 (pg_entries t)"
    "tab_nodes (pg_entries t) = tab_nodes (pg_entries s) \<union> ends (env_links env)"
    "tab_marked (pg_entries t) = ends (env_links env)"
    using tc_mark_data_ok [OF rep ifs closed] unfolding env_links_def by blast
  then show ?thesis using s1 by auto
qed

lemma marked_entry:
  assumes rep: "plug_rep ifs s ch" and e: "pg_entries s n = Some e"
  shows "en_addr e \<in> tab_marked (pg_entries s) \<longleftrightarrow> active_in (pg_entries s) n"
proof
  assume "en_addr e \<in> tab_marked (pg_entries s)"
  then obtain m f where f: "pg_entries s m = Some f" "en_active f" "en_addr f = en_addr e" by (auto simp: tab_marked_def ran_def)
  then have "m = n" using plug_repD(8) [OF rep f(1) e f(3)] by simp
  then show "active_in (pg_entries s) n" using f by (auto simp: active_in_def)
next
  assume "active_in (pg_entries s) n"
  then show "en_addr e \<in> tab_marked (pg_entries s)" using e by (auto simp: active_in_def tab_marked_def ran_def)
qed

text \<open>An event that withdraws no node is safe.\<close>

lemma not_stale_joins:
  assumes ok: "plug_ok (oe_ifs env) s" and s1: "tc_mark_data env s = Some s1"
    and joins: "tab_nodes (pg_entries s) \<subseteq> ends (env_links env)"
  shows "\<not> stale s1"
proof -
  obtain ch where rep: "plug_rep (oe_ifs env) s ch" "closed s" using ok by (auto simp: plug_ok_def)
  obtain ch1 where ch1: "plug_rep (oe_ifs env) s1 ch1"
    "tab_nodes (pg_entries s1) = tab_nodes (pg_entries s) \<union> ends (env_links env)"
    "tab_marked (pg_entries s1) = ends (env_links env)"
    using mark_steps [OF rep refl s1] by blast
  have "active_in (pg_entries s1) n" if n: "i < hashsize" "n \<in> set (ch1 i)" for i n
  proof -
    obtain e where e: "pg_entries s1 n = Some e" using en_seg_live [OF plug_repD(2) [OF ch1(1) n(1)] n(2)] by blast
    then have "en_addr e \<in> tab_nodes (pg_entries s1)" by (auto simp: tab_nodes_def ran_def)
    then show ?thesis using marked_entry [OF ch1(1) e] ch1(2,3) joins by auto
  qed
  then have "\<not> falls (map (active_in (pg_entries s1)) (ch1 i))" if "i < hashsize" for i
    using that by (intro falls_all) blast
  then show ?thesis using stale_rep [OF ch1(1)] by blast
qed

lemma check_steps:
  assumes rep: "plug_rep ifs s ch" and closed: "closed s" and ifs: "oe_ifs env = ifs"
    and s1: "tc_mark_data env s = Some s1" and s': "tc_check_data env s = Some s'" and fresh: "\<not> stale s1"
  shows "\<exists>ch1. grows ch (pg_entries s) ch1 (pg_entries s1) \<and> plug_rep ifs s1 ch1 \<and>
    cleaned UNIV (pg_entries s1) (pg_entries s') \<and> plug_rep ifs s' (\<lambda>i. filter (active_in (pg_entries s1)) (ch1 i))"
proof -
  obtain ch1 where ch1: "plug_rep ifs s1 ch1" "grows ch (pg_entries s) ch1 (pg_entries s1)"
    using mark_steps [OF rep closed ifs s1] by blast
  define s2 where "s2 = tc_remove_useless_mid s1"
  have s2: "pg_entries s2 = pg_entries s1" "pg_tab s2 = pg_tab s1" "pg_next s2 = pg_next s1"
    by (simp_all add: s2_def tc_remove_useless_mid_def drop_mids_eq)
  have rep2: "plug_rep ifs s2 ch1" using ch1(1) s2 by (simp add: plug_rep_def)
  have "\<not> stale s2" using fresh s2 by (simp add: stale_def)
  moreover have "tc_remove_useless_link s2 = Some s'" using s1 s' by (simp add: tc_check_data_def s2_def)
  moreover obtain t where t: "tc_remove_useless_link s2 = Some t" "cleaned UNIV (pg_entries s2) (pg_entries t)"
    "pg_next t = pg_next s2" "length (pg_tab t) = hashsize"
    "\<And>i. i < hashsize \<Longrightarrow> kept_chain (pg_entries s2) (ch1 i) (pg_entries t) (pg_tab t ! i)"
    using tc_remove_useless_link_ok [OF rep2] by blast
  ultimately have "t = s'" by simp
  moreover have "plug_rep ifs t (\<lambda>i. filter (active_in (pg_entries s2)) (ch1 i))"
    by (rule kept_chains_rep [OF rep2 t(2-5) \<open>\<not> stale s2\<close>])
  ultimately show ?thesis using ch1 t(2) unfolding s2(1) by blast
qed

lemma falls_between:
  assumes "P a" "\<not> P b" shows "falls (map P (us @ a # vs @ b # ws))"
proof -
  have "falls (map P (a # vs @ b # ws))"
    using assms(1)
  proof (induction vs arbitrary: a)
    case Nil
    then show ?case using assms(2) by simp
  next
    case (Cons v vs)
    then show ?case by (cases "P v") (auto simp: Cons.IH)
  qed
  then show ?thesis by (induction us) auto
qed

text \<open>One entry before another in a chain.\<close>

definition before :: "nat list \<Rightarrow> nat \<Rightarrow> nat \<Rightarrow> bool" where
  "before ns n m \<longleftrightarrow> (\<exists>us vs ws. ns = us @ n # vs @ m # ws)"

lemma before_append: "n \<in> set ns \<Longrightarrow> m \<in> set ms \<Longrightarrow> before (ns @ ms) n m"
  unfolding before_def by (metis append.assoc append_Cons in_set_conv_decomp)

lemma before_grow: "before ns n m \<Longrightarrow> before (ks @ ns) n m"
  unfolding before_def by (metis append.assoc)

lemma before_filter: "before ns n m \<Longrightarrow> P n \<Longrightarrow> P m \<Longrightarrow> before (filter P ns) n m"
  unfolding before_def by fastforce

lemma before_falls: "before ns n m \<Longrightarrow> P n \<Longrightarrow> \<not> P m \<Longrightarrow> falls (map P ns)"
  unfolding before_def using falls_between by metis

lemma withdrawn_stale:
  assumes rep: "plug_rep ifs s ch" and closed: "closed s" and ifs: "oe_ifs env = ifs" and s1: "tc_mark_data env s = Some s1"
    and i: "i < hashsize" and order: "before (ch i) n m"
    and e: "pg_entries s n = Some e" "en_addr e \<in> ends (env_links env)"
    and f: "pg_entries s m = Some f" "en_addr f \<notin> ends (env_links env)"
  shows "stale s1"
proof -
  obtain ch1 where ch1: "plug_rep ifs s1 ch1" "grows ch (pg_entries s) ch1 (pg_entries s1)"
    "tab_marked (pg_entries s1) = ends (env_links env)"
    using mark_steps [OF rep closed ifs s1] by blast
  obtain e1 f1 where l: "pg_entries s1 n = Some e1" "en_addr e1 = en_addr e" "pg_entries s1 m = Some f1" "en_addr f1 = en_addr f"
    using ch1(2) e(1) f(1) unfolding grows_def by blast
  have "active_in (pg_entries s1) n" "\<not> active_in (pg_entries s1) m"
    using marked_entry [OF ch1(1) l(1)] marked_entry [OF ch1(1) l(3)] l(2,4) e(2) f(2) ch1(3) by simp_all
  moreover obtain ks where "ch1 i = ks @ ch i" using ch1(2) unfolding grows_def by blast
  ultimately have "falls (map (active_in (pg_entries s1)) (ch1 i))" using before_falls before_grow [OF order] by metis
  then show ?thesis using stale_rep [OF ch1(1)] i by blast
qed

text \<open>A node that joins is put before the nodes of its row, and stays there while they are kept.\<close>

lemma joined_before:
  assumes rep: "plug_rep ifs s ch" and closed: "closed s" and ifs: "oe_ifs env = ifs"
    and run: "tc_mark_data env s = Some s1" "tc_check_data env s = Some s'"
    and joins: "tab_nodes (pg_entries s) \<subseteq> ends (env_links env)"
    and b: "b \<in> tab_nodes (pg_entries s)" and a: "a \<in> ends (env_links env)" "a \<notin> tab_nodes (pg_entries s)" "hash_row a = hash_row b"
  shows "\<exists>ch' n m e f. plug_rep ifs s' ch' \<and> before (ch' (hash_row b)) n m \<and>
    pg_entries s' n = Some e \<and> en_addr e = a \<and> pg_entries s' m = Some f \<and> en_addr f = b"
proof -
  have "plug_ok (oe_ifs env) s" using rep closed ifs by (auto simp: plug_ok_def)
  then have fresh: "\<not> stale s1" by (rule not_stale_joins [OF _ run(1) joins])
  obtain ch1 where ch1: "grows ch (pg_entries s) ch1 (pg_entries s1)" "plug_rep ifs s1 ch1"
    "cleaned UNIV (pg_entries s1) (pg_entries s')" "plug_rep ifs s' (\<lambda>i. filter (active_in (pg_entries s1)) (ch1 i))"
    using check_steps [OF rep closed ifs run fresh] by blast
  obtain ch2 where "plug_rep ifs s1 ch2" and marked: "tab_marked (pg_entries s1) = ends (env_links env)"
    "tab_nodes (pg_entries s1) = tab_nodes (pg_entries s) \<union> ends (env_links env)"
    using mark_steps [OF rep closed ifs run(1)] by blast
  obtain m f0 where m: "pg_entries s m = Some f0" "en_addr f0 = b" using b by (auto simp: tab_nodes_def ran_def)
  obtain f1 where f1: "pg_entries s1 m = Some f1" "en_addr f1 = b" using ch1(1) m unfolding grows_def by metis
  have "a \<in> tab_nodes (pg_entries s1)" using marked(2) a(1) by simp
  then obtain n e1 where e1: "pg_entries s1 n = Some e1" "en_addr e1 = a" by (auto simp: tab_nodes_def ran_def)
  have act: "active_in (pg_entries s1) n" "active_in (pg_entries s1) m"
    using marked_entry [OF ch1(2) e1(1)] marked_entry [OF ch1(2) f1(1)] e1(2) f1(2) marked(1) a(1) b joins by auto
  have "n \<notin> set (ch (hash_row b))"
  proof
    assume "n \<in> set (ch (hash_row b))"
    then obtain e0 where "pg_entries s n = Some e0" using en_seg_live [OF plug_repD(2) [OF rep hash_row_lt]] by blast
    then have "a \<in> tab_nodes (pg_entries s)" using ch1(1) e1 unfolding grows_def by (fastforce simp: tab_nodes_def ran_def)
    then show False using a(2) by simp
  qed
  moreover obtain ns where "ch1 (hash_row b) = ns @ ch (hash_row b)" using ch1(1) unfolding grows_def by blast
  moreover have "n \<in> set (ch1 (hash_row b))" using plug_repD(6) [OF ch1(2) e1(1)] e1(2) a(3) by simp
  moreover have "m \<in> set (ch (hash_row b))" using plug_repD(6) [OF rep m(1)] m(2) by simp
  ultimately have "before (ch1 (hash_row b)) n m" using before_append by auto
  then have order: "before (filter (active_in (pg_entries s1)) (ch1 (hash_row b))) n m" by (rule before_filter) (rule act)+
  have "en_active e1" "en_active f1" using act e1(1) f1(1) by (simp_all add: active_in_def)
  then obtain p q where "pg_entries s' n = Some ((clean_entry e1)\<lparr>en_prev := p\<rparr>)" "pg_entries s' m = Some ((clean_entry f1)\<lparr>en_prev := q\<rparr>)"
    using cleaned_keep [OF ch1(3) UNIV_I] e1(1) f1(1) by meson
  then show ?thesis using order ch1(4) e1(2) f1(2)
    by (intro exI [of _ "\<lambda>i. filter (active_in (pg_entries s1)) (ch1 i)"] exI [of _ n] exI [of _ m]) simp
qed

section \<open>Properties\<close>


definition olsr_sample :: "(ip_addr \<times> ip_addr list) list \<Rightarrow> olsr_env" where
  "olsr_sample tc = \<lparr>oe_ifs = [0x0100000A], oe_nbrs = [(0x0200000A, True)], oe_tc = tc, oe_mid = [(0x0200000A, [0x0200000B])]\<rparr>"

lemma olsr_sample_simps [simp]:
  "oe_ifs (olsr_sample tc) = [0x0100000A]" "env_mids (olsr_sample tc) = [(0x0200000A, 0x0200000B)]"
  "env_links (olsr_sample tc) =
    set (filter (\<lambda>(a, b). a = 0x0100000A \<longrightarrow> b = 0x0200000A) (concat (map (\<lambda>(a, bs). map (Pair a) bs) tc)))"
  by (auto simp: olsr_sample_def env_mids_def env_links_def env_edges_def good_link_def tc_is_addr_local_def
    tc_is_in_neighbourhood_def split: if_splits)


text \<open>
  C36. After an event, the next event reads freed memory exactly when some hash chain had, between the marking and the
  removal, an entry to be removed right behind an entry to be kept. No other event reads or writes freed memory.
\<close>

theorem use_after_free_iff:
  assumes "plug_ok (oe_ifs env) s" "pg_out s = []" "oe_ifs env' = oe_ifs env"
    and "tc_mark_data env s = Some s1" "olsrd_pcf_event env s = Some (cs, s')"
  shows "olsrd_pcf_event env' s' = None \<longleftrightarrow> stale s1"
proof -
  obtain s1' cs' t where t: "tc_mark_data env s = Some s1'" "olsrd_pcf_event env s = Some (cs', t)" "pg_out t = []"
    "if stale s1' then dangling t else plug_ok (oe_ifs env) t"
    using event_ok [OF assms(1,2)] by blast
  have same: "s1' = s1" "t = s'" using t(1,2) assms(4,5) by simp_all
  show ?thesis
  proof (cases "stale s1")
    case True
    then show ?thesis using t(4) same dangling_event by simp
  next
    case False
    then have "plug_ok (oe_ifs env') s'" using t(4) same assms(3) by simp
    then show ?thesis using event_ok [of env' s'] t(3) same(2) False by auto
  qed
qed

theorem use_after_free_iff_witness:
  "\<exists>s1 cs s'. tc_mark_data (olsr_sample [(0x0200000A, [0x0300000A])]) plugin_start = Some s1 \<and>
    olsrd_pcf_event (olsr_sample [(0x0200000A, [0x0300000A])]) plugin_start = Some (cs, s') \<and>
    (olsrd_pcf_event (olsr_sample []) s' = None \<longleftrightarrow> stale s1)"
proof -
  let ?env = "olsr_sample [(0x0200000A, [0x0300000A])]"
  obtain s1 cs s' where "tc_mark_data ?env plugin_start = Some s1" "olsrd_pcf_event ?env plugin_start = Some (cs, s')"
    using event_ok [OF plug_ok_start pg_out_start, of ?env] by blast
  then show ?thesis using use_after_free_iff [of ?env plugin_start "olsr_sample []" s1 cs s'] plug_ok_start pg_out_start by auto
qed

text \<open>
  C37. When the addresses that ever occur fall into different rows of the hash table, every run of events from the initial state
  returns; the plugin then mirrors the topology set of the last event, and a listener that starts empty and executes all commands has
  the same topology.
\<close>

theorem collision_free_runs:
  assumes "inj_on hash_row A" "\<forall>env \<in> set (envs @ [env]). oe_ifs env = ifs \<and> ends (env_links env) \<subseteq> A"
  shows "\<exists>cs s'. plugin_events (envs @ [env]) plugin_start = Some (cs, s') \<and>
    tab_links (pg_entries s') = env_links env \<and> tab_nodes (pg_entries s') = ends (env_links env) \<and>
    fold net_cmd cs empty_net = net_of s'"
proof -
  have "tab_nodes (pg_entries plugin_start) \<subseteq> A" by (simp add: plugin_start_def tc_init_plugin_def tab_nodes_def)
  then obtain cs s' where "plugin_events (envs @ [env]) plugin_start = Some (cs, s')" "fold net_cmd cs (net_of plugin_start) = net_of s'"
    "tab_nodes (pg_entries s') = ends (env_links env)" "tab_links (pg_entries s') = env_links env"
    using apart_events [OF plug_ok_start pg_out_start _ assms] by auto
  then show ?thesis unfolding net_of_start by blast
qed

theorem collision_free_runs_witness:
  "\<exists>cs s'. plugin_events [olsr_sample [(0x0200000A, [0x0600000A])], olsr_sample []] plugin_start = Some (cs, s') \<and>
    tab_links (pg_entries s') = {} \<and> fold net_cmd cs empty_net = net_of s'"
proof -
  have "inj_on hash_row {0x0200000A, 0x0600000A}" by (simp add: inj_on_def row_2 row_6)
  then show ?thesis
    using collision_free_runs [of "{0x0200000A, 0x0600000A}" "[olsr_sample [(0x0200000A, [0x0600000A])]]" "olsr_sample []"]
    by (auto simp: ends_def)
qed

text \<open>
  The handler reads freed memory as soon as a node joins, a node of the same hash row that was there before leaves, and
  another event follows: the entry of the new node still points to the entry that was freed.
\<close>

theorem colliding_nodes_crash:
  assumes ifs: "oe_ifs env1 = oe_ifs env0" "oe_ifs env2 = oe_ifs env0"
    and joins: "ends (env_links env0) \<subseteq> ends (env_links env1)"
    and b: "b \<in> ends (env_links env0)" "b \<notin> ends (env_links env2)"
    and a: "a \<in> ends (env_links env1)" "a \<in> ends (env_links env2)" "a \<notin> ends (env_links env0)"
    and row: "hash_row a = hash_row b"
  shows "plugin_events [env0, env1, env2] plugin_start \<noteq> None \<and> plugin_events [env0, env1, env2, env3] plugin_start = None"
proof -
  let ?ifs = "oe_ifs env0"
  have "tab_nodes (pg_entries plugin_start) = {}" by (simp add: plugin_start_def tc_init_plugin_def tab_nodes_def)
  then obtain m0 cs0 s where s: "tc_mark_data env0 plugin_start = Some m0" "olsrd_pcf_event env0 plugin_start = Some (cs0, s)" "pg_out s = []"
    "tab_nodes (pg_entries s) = ends (env_links env0)" "plug_ok ?ifs s"
    using event_ok [OF plug_ok_start pg_out_start, of env0] not_stale_joins [OF plug_ok_start, of env0] by auto
  have sub: "tab_nodes (pg_entries s) \<subseteq> ends (env_links env1)" using joins s(4) by simp
  have ok1: "plug_ok (oe_ifs env1) s" using s(5) ifs by simp
  obtain m1 cs1 t where t: "tc_mark_data env1 s = Some m1" "olsrd_pcf_event env1 s = Some (cs1, t)" "pg_out t = []" "plug_ok ?ifs t"
    using event_ok [OF ok1 s(3)] not_stale_joins [OF ok1 _ sub] ifs(1) by (auto split: if_splits)
  obtain t' where t': "tc_check_data env1 s = Some t'" "t = snd (dev_send t')"
    using t(2) by (auto simp: olsrd_pcf_event_def bind_eq_Some_conv)
  obtain ch where ch: "plug_rep ?ifs s ch" "closed s" using s(5) by (auto simp: plug_ok_def)
  obtain ch' n m e f where order: "plug_rep ?ifs t' ch'" "before (ch' (hash_row b)) n m"
    "pg_entries t' n = Some e" "en_addr e = a" "pg_entries t' m = Some f" "en_addr f = b"
    using joined_before [OF ch ifs(1) t(1) t'(1) sub _ a(1) _ row] b(1) a(3) s(4) by auto
  have rep: "plug_rep ?ifs t ch'" using order(1) t'(2) by (simp add: dev_send_def)
  have "closed t" using t(4) by (simp add: plug_ok_def)
  have ok2: "plug_ok (oe_ifs env2) t" using t(4) ifs(2) by simp
  obtain m2 cs2 u where u: "tc_mark_data env2 t = Some m2" "olsrd_pcf_event env2 t = Some (cs2, u)"
    "if stale m2 then dangling u else plug_ok (oe_ifs env2) u"
    using event_ok [OF ok2 t(3)] by blast
  have "stale m2"
    using withdrawn_stale [OF rep \<open>closed t\<close> ifs(2) u(1) hash_row_lt order(2)] order(3-6) t'(2) a(2) b(2) by simp
  then have "olsrd_pcf_event env3 u = None" using u(3) dangling_event by simp
  then show ?thesis using s(2) t(2) u(2) by simp
qed

theorem colliding_nodes_crash_witness:
  "plugin_events [olsr_sample [(0x0200000A, [0x0600000A])], olsr_sample [(0x0200000A, [0x0600000A, 0x0800000A])],
     olsr_sample [(0x0200000A, [0x0800000A])]] plugin_start \<noteq> None \<and>
   plugin_events [olsr_sample [(0x0200000A, [0x0600000A])], olsr_sample [(0x0200000A, [0x0600000A, 0x0800000A])],
     olsr_sample [(0x0200000A, [0x0800000A])], olsr_sample [(0x0200000A, [0x0800000A])]] plugin_start = None"
proof (rule colliding_nodes_crash [where a = "0x0800000A" and b = "0x0600000A"])
  show "hash_row 0x0800000A = hash_row 0x0600000A" by (simp add: row_6 row_8)
qed (simp_all add: ends_def)

end
