(* ===== verification/Nbr_Tables.thy ===== *)
theory Nbr_Tables imports Ip_Calc begin

text \<open>
  The neighbourhood of the OLSR daemon (\<open>neighbor_table.c\<close>, \<open>two_hop_neighbor_table.c\<close>, and the part of \<open>process_package.c\<close> that
  enters a HELLO message): the neighbours, the two-hop neighbours, and the links between them, which are kept in
  both directions. A neighbour or two-hop neighbour is a structure at an address (a number); an address
  outside the map is freed memory. The rows of the hash tables and the lists of links are HOL lists; a link
  is named by its two ends.
\<close>

section \<open>State\<close>

text \<open>\<open>neighbor_list_entry\<close>: in the list of a two-hop neighbour, the neighbour through which it is reached.\<close>

record nb_link =
  nl_nbr :: nat
  nl_second_hop :: ulong
  nl_path :: ulong
  nl_saved_path :: ulong

text \<open>\<open>neighbor_2_list_entry\<close>: in the list of a neighbour, a two-hop neighbour; the timer is the time it was last set to, if it runs.\<close>

record nb2_link =
  l2_two :: nat
  l2_timer :: "ulong option"

datatype nbr_status = NOT_SYM | SYM

record neighbor_entry =
  nb_addr :: ip_addr
  nb_status :: nbr_status
  nb_will :: byte
  nb_is_mpr :: bool
  nb_was_mpr :: bool
  nb_skip :: bool
  nb_nocov :: int
  nb_2_list :: "nb2_link list"

record neighbor_2_entry =
  n2_addr :: ip_addr
  n2_covered :: byte
  n2_processed :: bool
  n2_pointer :: u16
  n2_nblist :: "nb_link list"

record nbrhood =
  nh_nbr :: "nat \<rightharpoonup> neighbor_entry"
  nh_two :: "nat \<rightharpoonup> neighbor_2_entry"
  nh_nbr_tab :: "nat list list"
  nh_two_tab :: "nat list list"
  nh_fresh :: nat
  nh_changes_nbr :: bool
  nh_changes_topo :: bool
  nh_signal :: bool

text \<open>The options of the daemon that matter here.\<close>

record olsr_conf =
  cf_tc_redundancy :: nat
  cf_mpr_coverage :: nat
  cf_lq_level :: nat
  cf_lq_dlimit :: nat

definition will_never :: byte where "will_never = 0"
definition will_always :: byte where "will_always = 7"
definition link_cost_broken :: ulong where "link_cost_broken = push_bit 22 1"

definition nbr_init :: nbrhood where
  "nbr_init = \<lparr>nh_nbr = Map.empty, nh_two = Map.empty, nh_nbr_tab = replicate hashsize [], nh_two_tab = replicate hashsize [],
     nh_fresh = 0, nh_changes_nbr = False, nh_changes_topo = False, nh_signal = False\<rparr>"

section \<open>Access\<close>

definition upd_nbr :: "nat \<Rightarrow> (neighbor_entry \<Rightarrow> neighbor_entry) \<Rightarrow> nbrhood \<Rightarrow> nbrhood option" where
  "upd_nbr n f s = do { e \<leftarrow> nh_nbr s n; Some (s\<lparr>nh_nbr := (nh_nbr s)(n \<mapsto> f e)\<rparr>) }"

definition upd_two :: "nat \<Rightarrow> (neighbor_2_entry \<Rightarrow> neighbor_2_entry) \<Rightarrow> nbrhood \<Rightarrow> nbrhood option" where
  "upd_two m f s = do { e \<leftarrow> nh_two s m; Some (s\<lparr>nh_two := (nh_two s)(m \<mapsto> f e)\<rparr>) }"

definition note_changes :: "nbrhood \<Rightarrow> nbrhood" where
  "note_changes s = s\<lparr>nh_changes_nbr := True, nh_changes_topo := True\<rparr>"

text \<open>The aliases known to the daemon (\<open>mid_set.c\<close>), as the list of main addresses with their aliases.\<close>

type_synonym mid_set = "(ip_addr \<times> ip_addr list) list"

definition mid_lookup_main_addr :: "mid_set \<Rightarrow> ip_addr \<Rightarrow> ip_addr option" where
  "mid_lookup_main_addr M a = map_option fst (List.find (\<lambda>(p, as). a \<in> set as) M)"

definition mid_lookup_aliases :: "mid_set \<Rightarrow> ip_addr \<Rightarrow> ip_addr list" where
  "mid_lookup_aliases M p = (case map_of M p of Some as \<Rightarrow> as | None \<Rightarrow> [])"

definition olsr_main_addr :: "mid_set \<Rightarrow> ip_addr \<Rightarrow> ip_addr" where
  "olsr_main_addr M a = (case mid_lookup_main_addr M a of Some p \<Rightarrow> p | None \<Rightarrow> a)"

section \<open>Neighbours\<close>

fun find_nbr :: "(nat \<rightharpoonup> neighbor_entry) \<Rightarrow> ip_addr \<Rightarrow> nat list \<Rightarrow> nat option option" where
  "find_nbr N a [] = Some None"
| "find_nbr N a (n # ns) = do { e \<leftarrow> N n; if nb_addr e = a then Some (Some n) else find_nbr N a ns }"

definition olsr_lookup_neighbor_table_alias :: "ip_addr \<Rightarrow> nbrhood \<Rightarrow> nat option option" where
  "olsr_lookup_neighbor_table_alias a s = do { row \<leftarrow> rd (nh_nbr_tab s) (int (hash_row a)); find_nbr (nh_nbr s) a row }"

definition olsr_lookup_neighbor_table :: "mid_set \<Rightarrow> ip_addr \<Rightarrow> nbrhood \<Rightarrow> nat option option" where
  "olsr_lookup_neighbor_table M a = olsr_lookup_neighbor_table_alias (olsr_main_addr M a)"

definition olsr_insert_neighbor_table :: "ip_addr \<Rightarrow> nbrhood \<Rightarrow> (nat \<times> nbrhood) option" where
  "olsr_insert_neighbor_table a s = do {
     found \<leftarrow> olsr_lookup_neighbor_table_alias a s;
     case found of
       Some n \<Rightarrow> Some (n, s)
     | None \<Rightarrow>
         (let n = nh_fresh s;
              e = \<lparr>nb_addr = a, nb_status = NOT_SYM, nb_will = will_never, nb_is_mpr = False, nb_was_mpr = False,
                   nb_skip = False, nb_nocov = 0, nb_2_list = []\<rparr>
          in do {
            row \<leftarrow> rd (nh_nbr_tab s) (int (hash_row a));
            tab \<leftarrow> wr (nh_nbr_tab s) (int (hash_row a)) (n # row);
            Some (n, s\<lparr>nh_nbr := (nh_nbr s)(n \<mapsto> e), nh_nbr_tab := tab, nh_fresh := n + 1\<rparr>) }) }"

text \<open>The link of a neighbour to the two-hop neighbour with the address.\<close>

fun find_hop_link :: "(nat \<rightharpoonup> neighbor_2_entry) \<Rightarrow> ip_addr \<Rightarrow> nb2_link list \<Rightarrow> nat option option" where
  "find_hop_link T a [] = Some None"
| "find_hop_link T a (l # ls) =
     do { t \<leftarrow> T (l2_two l); if n2_addr t = a then Some (Some (l2_two l)) else find_hop_link T a ls }"

definition olsr_lookup_my_neighbors :: "nat \<Rightarrow> ip_addr \<Rightarrow> nbrhood \<Rightarrow> nat option option" where
  "olsr_lookup_my_neighbors n a s = do { e \<leftarrow> nh_nbr s n; find_hop_link (nh_two s) a (nb_2_list e) }"

section \<open>Two-hop neighbours\<close>

fun find_two :: "mid_set \<Rightarrow> (nat \<rightharpoonup> neighbor_2_entry) \<Rightarrow> ip_addr \<Rightarrow> nat list \<Rightarrow> nat option option" where
  "find_two M T a [] = Some None"
| "find_two M T a (m # ms) = do {
     t \<leftarrow> T m;
     if n2_addr t = a \<or> a \<in> set (mid_lookup_aliases M (n2_addr t)) then Some (Some m) else find_two M T a ms }"

definition olsr_lookup_two_hop_neighbor_table :: "mid_set \<Rightarrow> ip_addr \<Rightarrow> nbrhood \<Rightarrow> nat option option" where
  "olsr_lookup_two_hop_neighbor_table M a s =
     do { row \<leftarrow> rd (nh_two_tab s) (int (hash_row a)); find_two M (nh_two s) a row }"

definition olsr_insert_two_hop_neighbor_table :: "nat \<Rightarrow> nbrhood \<Rightarrow> nbrhood option" where
  "olsr_insert_two_hop_neighbor_table m s = do {
     t \<leftarrow> nh_two s m;
     row \<leftarrow> rd (nh_two_tab s) (int (hash_row (n2_addr t)));
     tab \<leftarrow> wr (nh_two_tab s) (int (hash_row (n2_addr t))) (m # row);
     Some (s\<lparr>nh_two_tab := tab\<rparr>) }"

text \<open>Taking a structure out of its row and freeing it.\<close>

definition free_two :: "nat \<Rightarrow> nbrhood \<Rightarrow> nbrhood" where
  "free_two m s = s\<lparr>nh_two := (nh_two s)(m := None), nh_two_tab := map (remove1 m) (nh_two_tab s)\<rparr>"

definition free_nbr :: "nat \<Rightarrow> nbrhood \<Rightarrow> nbrhood" where
  "free_nbr n s = s\<lparr>nh_nbr := (nh_nbr s)(n := None), nh_nbr_tab := map (remove1 n) (nh_nbr_tab s)\<rparr>"

section \<open>Removing links\<close>

fun drop_link :: "nat \<Rightarrow> nb2_link list \<Rightarrow> nb2_link list" where
  "drop_link m [] = []"
| "drop_link m (l # ls) = (if l2_two l = m then ls else l # drop_link m ls)"

text \<open>The two-hop neighbour goes as well when its counter says that no neighbour reaches it.\<close>

definition olsr_del_nbr2_list :: "nat \<Rightarrow> nat \<Rightarrow> nbrhood \<Rightarrow> nbrhood option" where
  "olsr_del_nbr2_list n m s = do {
     t \<leftarrow> nh_two s m;
     let s = (if sint (n2_pointer t) < 1 then free_two m s else s);
     s \<leftarrow> upd_nbr n (\<lambda>e. e\<lparr>nb_2_list := drop_link m (nb_2_list e)\<rparr>) s;
     Some (note_changes s) }"

definition olsr_delete_neighbor_2_pointer :: "nat \<Rightarrow> ip_addr \<Rightarrow> nbrhood \<Rightarrow> nbrhood option" where
  "olsr_delete_neighbor_2_pointer n a s = do {
     found \<leftarrow> olsr_lookup_my_neighbors n a s;
     case found of None \<Rightarrow> Some s | Some m \<Rightarrow> olsr_del_nbr2_list n m s }"

fun keep_links :: "(nat \<rightharpoonup> neighbor_entry) \<Rightarrow> ip_addr \<Rightarrow> nb_link list \<Rightarrow> nb_link list option" where
  "keep_links N a [] = Some []"
| "keep_links N a (l # ls) = do {
     e \<leftarrow> N (nl_nbr l);
     ls \<leftarrow> keep_links N a ls;
     Some (if nb_addr e = a then ls else l # ls) }"

definition olsr_delete_neighbor_pointer :: "nat \<Rightarrow> ip_addr \<Rightarrow> nbrhood \<Rightarrow> nbrhood option" where
  "olsr_delete_neighbor_pointer m a s = do {
     t \<leftarrow> nh_two s m;
     ls \<leftarrow> keep_links (nh_nbr s) a (n2_nblist t);
     upd_two m (n2_nblist_update (\<lambda>_. ls)) s }"

definition olsr_delete_two_hop_neighbor_table :: "nat \<Rightarrow> nbrhood \<Rightarrow> nbrhood option" where
  "olsr_delete_two_hop_neighbor_table m s = do {
     t \<leftarrow> nh_two s m;
     s \<leftarrow> iter (n2_nblist t) (\<lambda>l s. do { t \<leftarrow> nh_two s m; olsr_delete_neighbor_2_pointer (nl_nbr l) (n2_addr t) s }) s;
     t \<leftarrow> nh_two s m;
     Some (free_two m s) }"

definition unlink_two :: "nat \<Rightarrow> nat \<Rightarrow> nbrhood \<Rightarrow> nbrhood option" where
  "unlink_two n m s = do {
     s \<leftarrow> upd_two m (\<lambda>t. t\<lparr>n2_pointer := n2_pointer t - 1\<rparr>) s;
     e \<leftarrow> nh_nbr s n;
     s \<leftarrow> olsr_delete_neighbor_pointer m (nb_addr e) s;
     olsr_del_nbr2_list n m s }"

text \<open>The timer of a link has fired.\<close>

definition olsr_expire_nbr2_list :: "nat \<Rightarrow> nat \<Rightarrow> nbrhood \<Rightarrow> nbrhood option" where
  "olsr_expire_nbr2_list n m s = unlink_two n m s"

definition olsr_delete_neighbor_table :: "ip_addr \<Rightarrow> nbrhood \<Rightarrow> nbrhood option" where
  "olsr_delete_neighbor_table a s = do {
     found \<leftarrow> olsr_lookup_neighbor_table_alias a s;
     case found of
       None \<Rightarrow> Some s
     | Some n \<Rightarrow> do {
         e \<leftarrow> nh_nbr s n;
         s \<leftarrow> iter (nb_2_list e) (\<lambda>l. unlink_two n (l2_two l)) s;
         e \<leftarrow> nh_nbr s n;
         Some ((free_nbr n s)\<lparr>nh_changes_nbr := True\<rparr>) } }"

definition update_neighbor_status :: "olsr_conf \<Rightarrow> mid_set \<Rightarrow> nat \<Rightarrow> bool \<Rightarrow> nbrhood \<Rightarrow> nbrhood option" where
  "update_neighbor_status cf M n sym_link s = do {
     e \<leftarrow> nh_nbr s n;
     if sym_link then do {
       s \<leftarrow> (if nb_status e = NOT_SYM then do {
                found \<leftarrow> olsr_lookup_two_hop_neighbor_table M (nb_addr e) s;
                s \<leftarrow> (case found of None \<Rightarrow> Some s | Some m \<Rightarrow> olsr_delete_two_hop_neighbor_table m s);
                Some ((note_changes s)\<lparr>nh_signal := nh_signal s \<or> cf_tc_redundancy cf > 1\<rparr>) }
              else Some s);
       upd_nbr n (nb_status_update (\<lambda>_. SYM)) s }
     else
       (let s = (if nb_status e = SYM then (note_changes s)\<lparr>nh_signal := nh_signal s \<or> cf_tc_redundancy cf > 1\<rparr> else s)
        in upd_nbr n (nb_status_update (\<lambda>_. NOT_SYM)) s) }"

section \<open>Entering a HELLO message\<close>

record hello_neighbor =
  hn_status :: byte
  hn_link :: byte
  hn_addr :: ip_addr
  hn_cost :: ulong

definition sym_neigh :: byte where "sym_neigh = 1"
definition mpr_neigh :: byte where "mpr_neigh = 2"

definition hello_sym :: "hello_neighbor \<Rightarrow> bool" where
  "hello_sym h \<longleftrightarrow> hn_status h = sym_neigh \<or> hn_status h = mpr_neigh"

text \<open>
  A new link has no timer: \<open>olsr_change_timer\<close> is called with the null pointer of the new
  structure and returns at once.
\<close>

definition linking_this_2_entries :: "nat \<Rightarrow> nat \<Rightarrow> nbrhood \<Rightarrow> nbrhood option" where
  "linking_this_2_entries n m s = do {
     s \<leftarrow> upd_two m (\<lambda>t. t\<lparr>n2_nblist := \<lparr>nl_nbr = n, nl_second_hop = link_cost_broken, nl_path = link_cost_broken,
        nl_saved_path = link_cost_broken\<rparr> # n2_nblist t\<rparr>) s;
     s \<leftarrow> upd_nbr n (\<lambda>e. e\<lparr>nb_2_list := \<lparr>l2_two = m, l2_timer = None\<rparr> # nb_2_list e\<rparr>) s;
     upd_two m (\<lambda>t. t\<lparr>n2_pointer := n2_pointer t + 1\<rparr>) s }"

definition set_link_timer :: "nat \<Rightarrow> nat \<Rightarrow> ulong \<Rightarrow> nbrhood \<Rightarrow> nbrhood option" where
  "set_link_timer n m vtime =
     upd_nbr n (\<lambda>e. e\<lparr>nb_2_list := map (\<lambda>l. if l2_two l = m then l\<lparr>l2_timer := Some vtime\<rparr> else l) (nb_2_list e)\<rparr>)"

definition map_links :: "nat \<Rightarrow> (nb_link \<Rightarrow> nb_link) \<Rightarrow> nat \<Rightarrow> nbrhood \<Rightarrow> nbrhood option" where
  "map_links n f m = upd_two m (\<lambda>t. t\<lparr>n2_nblist := map (\<lambda>l. if nl_nbr l = n then f l else l) (n2_nblist t)\<rparr>)"

definition new_two :: "ip_addr \<Rightarrow> nbrhood \<Rightarrow> (nat \<times> nbrhood) option" where
  "new_two a s =
     (let m = nh_fresh s;
          t = \<lparr>n2_addr = a, n2_covered = 0, n2_processed = False, n2_pointer = 0, n2_nblist = []\<rparr>
      in do {
        s \<leftarrow> olsr_insert_two_hop_neighbor_table m (s\<lparr>nh_two := (nh_two s)(m \<mapsto> t), nh_fresh := m + 1\<rparr>);
        Some (m, s) })"

text \<open>One neighbour of the message; \<open>own\<close> tells the addresses of the interfaces.\<close>

definition process_hello_neighbor ::
  "olsr_conf \<Rightarrow> (ip_addr \<Rightarrow> bool) \<Rightarrow> mid_set \<Rightarrow> nat \<Rightarrow> ulong \<Rightarrow> hello_neighbor \<Rightarrow> nbrhood \<Rightarrow> nbrhood option" where
  "process_hello_neighbor cf own M n vtime h s =
     (if own (hn_addr h) then Some s
      else let a = olsr_main_addr M (hn_addr h) in
        if \<not> hello_sym h then Some s
        else do {
          yet \<leftarrow> olsr_lookup_my_neighbors n a s;
          case yet of
            Some m \<Rightarrow> do {
              s \<leftarrow> set_link_timer n m vtime s;
              if cf_lq_level cf > 0 then map_links n (nl_path_update (\<lambda>_. link_cost_broken)) m s else Some s }
          | None \<Rightarrow> do {
              found \<leftarrow> olsr_lookup_two_hop_neighbor_table M a s;
              let s = note_changes s;
              (m, s) \<leftarrow> (case found of None \<Rightarrow> new_two a s | Some m \<Rightarrow> Some (m, s));
              linking_this_2_entries n m s } })"

text \<open>The message after the first pass, which replaces aliases by main addresses.\<close>

definition with_main_addr :: "(ip_addr \<Rightarrow> bool) \<Rightarrow> mid_set \<Rightarrow> hello_neighbor \<Rightarrow> hello_neighbor" where
  "with_main_addr own M h = (if own (hn_addr h) then h else h\<lparr>hn_addr := olsr_main_addr M (hn_addr h)\<rparr>)"

text \<open>
  The second pass updates the cost of a path; \<open>relevant\<close> is the test of the link quality plugin whether a
  change of a cost matters.
\<close>

definition better_path :: "ulong \<Rightarrow> ulong \<Rightarrow> nb_link \<Rightarrow> bool" where
  "better_path first_hop cost l \<longleftrightarrow> first_hop + cost < nl_path l"

definition update_path :: "(ulong \<Rightarrow> ulong \<Rightarrow> bool) \<Rightarrow> ulong \<Rightarrow> ulong \<Rightarrow> nb_link \<Rightarrow> nb_link" where
  "update_path relevant first_hop cost l =
     (if better_path first_hop cost l
      then (let l' = l\<lparr>nl_second_hop := cost, nl_path := first_hop + cost\<rparr> in
            if relevant (first_hop + cost) (nl_saved_path l) then l'\<lparr>nl_saved_path := first_hop + cost\<rparr> else l')
      else l)"

definition process_hello_cost ::
  "olsr_conf \<Rightarrow> (ip_addr \<Rightarrow> bool) \<Rightarrow> (ulong \<Rightarrow> ulong \<Rightarrow> bool) \<Rightarrow> nat \<Rightarrow> ulong \<Rightarrow> hello_neighbor \<Rightarrow> nbrhood \<Rightarrow> nbrhood option" where
  "process_hello_cost cf own relevant n first_hop h s =
     (if own (hn_addr h) \<or> \<not> hello_sym h then Some s
      else do {
        yet \<leftarrow> olsr_lookup_my_neighbors n (hn_addr h) s;
        case yet of
          None \<Rightarrow> Some s
        | Some m \<Rightarrow> do {
            t \<leftarrow> nh_two s m;
            let hit = list_ex (\<lambda>l. nl_nbr l = n \<and> better_path first_hop (hn_cost h) l \<and>
              relevant (first_hop + hn_cost h) (nl_saved_path l)) (n2_nblist t);
            s \<leftarrow> map_links n (update_path relevant first_hop (hn_cost h)) m s;
            Some (if hit \<and> cf_lq_dlimit cf > 0 then note_changes s else s) } })"

text \<open>\<open>best_link\<close> is the cost of the best link to a neighbour, from the link set.\<close>

definition process_message_neighbors ::
  "olsr_conf \<Rightarrow> (ip_addr \<Rightarrow> bool) \<Rightarrow> mid_set \<Rightarrow> (ip_addr \<Rightarrow> ulong option) \<Rightarrow> (ulong \<Rightarrow> ulong \<Rightarrow> bool) \<Rightarrow>
    nat \<Rightarrow> ulong \<Rightarrow> hello_neighbor list \<Rightarrow> nbrhood \<Rightarrow> nbrhood option" where
  "process_message_neighbors cf own M best_link relevant n vtime hs s = do {
     s \<leftarrow> iter hs (process_hello_neighbor cf own M n vtime) s;
     if cf_lq_level cf > 0 then do {
       e \<leftarrow> nh_nbr s n;
       case best_link (nb_addr e) of
         None \<Rightarrow> Some s
       | Some first_hop \<Rightarrow> iter (map (with_main_addr own M) hs) (process_hello_cost cf own relevant n first_hop) s }
     else Some s }"

text \<open>The part of \<open>olsr_hello_tap\<close> that follows the update of the link set.\<close>

definition hello_tap_neighbor ::
  "olsr_conf \<Rightarrow> (ip_addr \<Rightarrow> bool) \<Rightarrow> mid_set \<Rightarrow> (ip_addr \<Rightarrow> ulong option) \<Rightarrow> (ulong \<Rightarrow> ulong \<Rightarrow> bool) \<Rightarrow>
    nat \<Rightarrow> byte \<Rightarrow> ulong \<Rightarrow> hello_neighbor list \<Rightarrow> nbrhood \<Rightarrow> nbrhood option" where
  "hello_tap_neighbor cf own M best_link relevant n will vtime hs s = do {
     e \<leftarrow> nh_nbr s n;
     s \<leftarrow> (if nb_will e \<noteq> will then upd_nbr n (nb_will_update (\<lambda>_. will)) (note_changes s) else Some s);
     if will \<noteq> will_never then process_message_neighbors cf own M best_link relevant n vtime hs s else Some s }"

end
