(* ===== verification/Nbr_Inv.thy ===== *)
theory Nbr_Inv imports Nbr_Tables begin

text \<open>
  The invariant of the neighbourhood: the hash tables hold the live structures, every link is listed at both ends, and
  the counter of a two-hop neighbour is the number of its links. Every operation keeps it and touches live structures only.
\<close>

section \<open>Hash tables of structures\<close>

definition table_ok :: "('e \<Rightarrow> ip_addr) \<Rightarrow> (nat \<rightharpoonup> 'e) \<Rightarrow> nat list list \<Rightarrow> nat \<Rightarrow> bool" where
  "table_ok addr E tab fresh \<longleftrightarrow> length tab = hashsize \<and>
     (\<forall>i < hashsize. distinct (tab ! i) \<and> (\<forall>n \<in> set (tab ! i). \<exists>e. E n = Some e \<and> hash_row (addr e) = i)) \<and>
     (\<forall>n e. E n = Some e \<longrightarrow> n < fresh \<and> n \<in> set (tab ! hash_row (addr e))) \<and>
     (\<forall>n m e f. E n = Some e \<longrightarrow> E m = Some f \<longrightarrow> addr e = addr f \<longrightarrow> n = m)"

lemma table_okD:
  assumes "table_ok addr E tab fresh"
  shows "length tab = hashsize" and "i < hashsize \<Longrightarrow> distinct (tab ! i)"
    and "i < hashsize \<Longrightarrow> n \<in> set (tab ! i) \<Longrightarrow> \<exists>e. E n = Some e \<and> hash_row (addr e) = i"
    and "E n = Some e \<Longrightarrow> n < fresh" and "E n = Some e \<Longrightarrow> n \<in> set (tab ! hash_row (addr e))"
    and "E n = Some e \<Longrightarrow> E m = Some f \<Longrightarrow> addr e = addr f \<Longrightarrow> n = m"
  using assms unfolding table_ok_def by blast+

lemma table_upd:
  assumes ok: "table_ok addr E tab fresh" and n: "E n = Some e" and same: "addr f = addr e"
  shows "table_ok addr (E(n \<mapsto> f)) tab fresh"
  unfolding table_ok_def
proof (intro conjI allI impI ballI)
  fix i m
  assume "i < hashsize" "m \<in> set (tab ! i)"
  then obtain g where "E m = Some g" "hash_row (addr g) = i" using table_okD(3) [OF ok] by blast
  then show "\<exists>e. (E(n \<mapsto> f)) m = Some e \<and> hash_row (addr e) = i" using n same by auto
next
  fix k m g h
  assume "(E(n \<mapsto> f)) k = Some g" "(E(n \<mapsto> f)) m = Some h" "addr g = addr h"
  then show "k = m" using table_okD(6) [OF ok] n same by (auto split: if_splits)
qed (use table_okD [OF ok] n same in \<open>auto split: if_splits\<close>)

lemma table_insert:
  assumes ok: "table_ok addr E tab fresh" and new: "\<And>n f. E n = Some f \<Longrightarrow> addr f \<noteq> addr e"
  shows "table_ok addr (E(fresh \<mapsto> e)) (tab[hash_row (addr e) := fresh # tab ! hash_row (addr e)]) (Suc fresh)"
proof -
  let ?h = "hash_row (addr e)"
  have len: "?h < length tab" using table_okD(1) [OF ok] by simp
  have none: "E fresh = None" using table_okD(4) [OF ok, of fresh] by (cases "E fresh") auto
  then have notin: "fresh \<notin> set (tab ! i)" if "i < hashsize" for i using table_okD(3) [OF ok that] by fastforce
  show ?thesis
    unfolding table_ok_def
  proof (intro conjI allI impI ballI)
    fix i
    assume "i < hashsize"
    then show "distinct (tab[?h := fresh # tab ! ?h] ! i)"
      using table_okD(2) [OF ok] notin len by (cases "i = ?h") auto
  next
    fix i m
    assume i: "i < hashsize" "m \<in> set (tab[?h := fresh # tab ! ?h] ! i)"
    show "\<exists>g. (E(fresh \<mapsto> e)) m = Some g \<and> hash_row (addr g) = i"
    proof (cases "m = fresh")
      case True
      then have "i = ?h" using i notin [OF i(1)] by (cases "i = ?h") auto
      then show ?thesis using True by simp
    next
      case False
      then have "m \<in> set (tab ! i)" using i len by (cases "i = ?h") auto
      then show ?thesis using table_okD(3) [OF ok i(1)] False by auto
    qed
  next
    fix m g
    assume "(E(fresh \<mapsto> e)) m = Some g"
    then show "m < Suc fresh" "m \<in> set (tab[?h := fresh # tab ! ?h] ! hash_row (addr g))"
      using table_okD(4,5) [OF ok] len by (auto simp: nth_list_update less_Suc_eq split: if_splits)
  next
    fix k m g h
    assume "(E(fresh \<mapsto> e)) k = Some g" "(E(fresh \<mapsto> e)) m = Some h" "addr g = addr h"
    then show "k = m" using table_okD(6) [OF ok] new by (auto split: if_splits) metis+
  qed (use table_okD(1) [OF ok] in simp)
qed

lemma table_free:
  assumes ok: "table_ok addr E tab fresh"
  shows "table_ok addr (E(n := None)) (map (remove1 n) tab) fresh"
proof -
  have row: "map (remove1 n) tab ! i = remove1 n (tab ! i)" if "i < hashsize" for i
    using that table_okD(1) [OF ok] by simp
  have set_row: "set (map (remove1 n) tab ! i) = set (tab ! i) - {n}" if "i < hashsize" for i
    using row [OF that] table_okD(2) [OF ok that] by simp
  show ?thesis
    unfolding table_ok_def
  proof (intro conjI allI impI ballI)
    fix i
    assume "i < hashsize"
    then show "distinct (map (remove1 n) tab ! i)" using row table_okD(2) [OF ok] by simp
  next
    fix i m
    assume "i < hashsize" "m \<in> set (map (remove1 n) tab ! i)"
    then show "\<exists>e. (E(n := None)) m = Some e \<and> hash_row (addr e) = i" using set_row table_okD(3) [OF ok] by fastforce
  next
    fix m e
    assume "(E(n := None)) m = Some e"
    then show "m < fresh" "m \<in> set (map (remove1 n) tab ! hash_row (addr e))"
      using set_row table_okD(4,5) [OF ok] by (auto split: if_splits)
  next
    fix k m g h
    assume "(E(n := None)) k = Some g" "(E(n := None)) m = Some h" "addr g = addr h"
    then show "k = m" using table_okD(6) [OF ok] by (auto split: if_splits)
  qed (use table_okD(1) [OF ok] in simp)
qed

lemma table_map:
  assumes ok: "table_ok addr E tab fresh" and same: "\<And>e. addr (g e) = addr e"
  shows "table_ok addr (\<lambda>n. map_option g (E n)) tab fresh"
  unfolding table_ok_def
proof (intro conjI allI impI ballI)
  fix i n
  assume "i < hashsize" "n \<in> set (tab ! i)"
  then show "\<exists>e. map_option g (E n) = Some e \<and> hash_row (addr e) = i" using table_okD(3) [OF ok] same by force
next
  fix n m e f
  assume "map_option g (E n) = Some e" "map_option g (E m) = Some f" "addr e = addr f"
  then show "n = m" using table_okD(6) [OF ok] same by auto
qed (use table_okD [OF ok] same in auto)

section \<open>The invariant\<close>

definition nbrs_of :: "neighbor_2_entry \<Rightarrow> nat list" where
  "nbrs_of t = map nl_nbr (n2_nblist t)"

definition twos_of :: "neighbor_entry \<Rightarrow> nat list" where
  "twos_of e = map l2_two (nb_2_list e)"

definition max_nbrs :: nat where "max_nbrs = 2 ^ 15"

definition links_ok :: "(nat \<rightharpoonup> neighbor_entry) \<Rightarrow> (nat \<rightharpoonup> neighbor_2_entry) \<Rightarrow> bool" where
  "links_ok N T \<longleftrightarrow>
     (\<forall>n e. N n = Some e \<longrightarrow> distinct (twos_of e) \<and> (\<forall>m \<in> set (twos_of e). \<exists>t. T m = Some t \<and> n \<in> set (nbrs_of t))) \<and>
     (\<forall>m t. T m = Some t \<longrightarrow> distinct (nbrs_of t) \<and> nbrs_of t \<noteq> [] \<and> n2_pointer t = of_nat (length (nbrs_of t)) \<and>
        (\<forall>n \<in> set (nbrs_of t). \<exists>e. N n = Some e \<and> m \<in> set (twos_of e)))"

definition nbr_ok :: "nbrhood \<Rightarrow> bool" where
  "nbr_ok s \<longleftrightarrow> table_ok nb_addr (nh_nbr s) (nh_nbr_tab s) (nh_fresh s) \<and>
     table_ok n2_addr (nh_two s) (nh_two_tab s) (nh_fresh s) \<and>
     links_ok (nh_nbr s) (nh_two s) \<and> finite (dom (nh_nbr s)) \<and> card (dom (nh_nbr s)) < max_nbrs"

lemma nbr_okD:
  assumes "nbr_ok s"
  shows "table_ok nb_addr (nh_nbr s) (nh_nbr_tab s) (nh_fresh s)" "table_ok n2_addr (nh_two s) (nh_two_tab s) (nh_fresh s)"
    "links_ok (nh_nbr s) (nh_two s)" "finite (dom (nh_nbr s))" "card (dom (nh_nbr s)) < max_nbrs"
  using assms by (simp_all add: nbr_ok_def)

lemma links_okD:
  assumes "links_ok N T"
  shows "N n = Some e \<Longrightarrow> distinct (twos_of e)"
    and "N n = Some e \<Longrightarrow> m \<in> set (twos_of e) \<Longrightarrow> \<exists>t. T m = Some t \<and> n \<in> set (nbrs_of t)"
    and "T m = Some t \<Longrightarrow> distinct (nbrs_of t)" and "T m = Some t \<Longrightarrow> nbrs_of t \<noteq> []"
    and "T m = Some t \<Longrightarrow> n2_pointer t = of_nat (length (nbrs_of t))"
    and "T m = Some t \<Longrightarrow> n \<in> set (nbrs_of t) \<Longrightarrow> \<exists>e. N n = Some e \<and> m \<in> set (twos_of e)"
  using assms unfolding links_ok_def by blast+

lemma nbr_ok_init: "nbr_ok nbr_init"
  by (simp add: nbr_ok_def nbr_init_def table_ok_def links_ok_def max_nbrs_def)

lemma nbr_ok_changes [simp]:
  "nbr_ok (note_changes s) = nbr_ok s" "nbr_ok (s\<lparr>nh_changes_nbr := x\<rparr>) = nbr_ok s" "nbr_ok (s\<lparr>nh_signal := x\<rparr>) = nbr_ok s"
  by (simp_all add: nbr_ok_def note_changes_def)

lemma note_changes_simps [simp]:
  "nh_nbr (note_changes s) = nh_nbr s" "nh_two (note_changes s) = nh_two s"
  "nh_nbr_tab (note_changes s) = nh_nbr_tab s" "nh_two_tab (note_changes s) = nh_two_tab s" "nh_fresh (note_changes s) = nh_fresh s"
  by (simp_all add: note_changes_def)

text \<open>The counter, as the signed number of the code.\<close>

lemma nbrs_bound:
  assumes ok: "nbr_ok s" and m: "nh_two s m = Some t"
  shows "length (nbrs_of t) < max_nbrs"
proof -
  note l = nbr_okD(3) [OF ok]
  have "set (nbrs_of t) \<subseteq> dom (nh_nbr s)" using links_okD(6) [OF l m] by blast
  then have "card (set (nbrs_of t)) \<le> card (dom (nh_nbr s))" using nbr_okD(4) [OF ok] by (intro card_mono)
  then show ?thesis using links_okD(3) [OF l m] nbr_okD(5) [OF ok] by (simp add: distinct_card)
qed

lemma sint_count: "k < max_nbrs \<Longrightarrow> sint (of_nat k :: u16) = int k"
  by (simp add: signed_of_nat max_nbrs_def signed_take_bit_int_eq_self)

end
