(* ===== verification/Nbr_Ops.thy ===== *)
theory Nbr_Ops imports Nbr_Inv begin

text \<open>The operations on well-formed states: what they return, the state they leave, and that it is well formed.\<close>

section \<open>Lookups\<close>

lemma find_nbr_spec:
  assumes "\<forall>n \<in> set ns. \<exists>e. N n = Some e"
  shows "find_nbr N a ns = Some (List.find (\<lambda>n. \<exists>e. N n = Some e \<and> nb_addr e = a) ns)"
  using assms by (induction ns) auto

lemma find_nbr_cases:
  assumes ok: "table_ok nb_addr N tab fresh"
  obtains n e where "find_nbr N a (tab ! hash_row a) = Some (Some n)" "N n = Some e" "nb_addr e = a"
    | "find_nbr N a (tab ! hash_row a) = Some None" "\<forall>n e. N n = Some e \<longrightarrow> nb_addr e \<noteq> a"
proof -
  let ?P = "\<lambda>n. \<exists>e. N n = Some e \<and> nb_addr e = a"
  have "\<forall>n \<in> set (tab ! hash_row a). \<exists>e. N n = Some e" using table_okD(3) [OF ok hash_row_lt] by blast
  then have eq: "find_nbr N a (tab ! hash_row a) = Some (List.find ?P (tab ! hash_row a))" by (rule find_nbr_spec)
  show ?thesis
  proof (cases "List.find ?P (tab ! hash_row a)")
    case (Some n)
    then show ?thesis using eq that(1) by (auto simp: find_Some_iff)
  next
    case None
    then have "\<forall>n e. N n = Some e \<longrightarrow> nb_addr e \<noteq> a"
      using table_okD(5) [OF ok] by (auto simp: find_None_iff)
    then show ?thesis using eq None that(2) by simp
  qed
qed

lemma nbr_row:
  assumes "nbr_ok s"
  shows "rd (nh_nbr_tab s) (int (hash_row a)) = Some (nh_nbr_tab s ! hash_row a)"
    "rd (nh_two_tab s) (int (hash_row a)) = Some (nh_two_tab s ! hash_row a)"
  using table_okD(1) [OF nbr_okD(1) [OF assms]] table_okD(1) [OF nbr_okD(2) [OF assms]] by simp_all

lemma lookup_nbr_cases:
  assumes ok: "nbr_ok s"
  obtains n e where "olsr_lookup_neighbor_table_alias a s = Some (Some n)" "nh_nbr s n = Some e" "nb_addr e = a"
    | "olsr_lookup_neighbor_table_alias a s = Some None" "\<forall>n e. nh_nbr s n = Some e \<longrightarrow> nb_addr e \<noteq> a"
proof (cases rule: find_nbr_cases [OF nbr_okD(1) [OF ok], of a])
  case (1 n e)
  then show ?thesis using nbr_row(1) [OF ok, of a] by (intro that(1) [of n e]) (simp_all add: olsr_lookup_neighbor_table_alias_def)
next
  case 2
  then show ?thesis using nbr_row(1) [OF ok, of a] by (intro that(2)) (simp_all add: olsr_lookup_neighbor_table_alias_def)
qed

lemma lookup_nbr_iff:
  assumes ok: "nbr_ok s"
  shows "olsr_lookup_neighbor_table_alias a s = Some r \<longleftrightarrow>
    (case r of Some n \<Rightarrow> \<exists>e. nh_nbr s n = Some e \<and> nb_addr e = a | None \<Rightarrow> \<forall>n e. nh_nbr s n = Some e \<longrightarrow> nb_addr e \<noteq> a)"
proof (cases rule: lookup_nbr_cases [OF ok, of a])
  case (1 n e)
  have u: "(\<exists>f. nh_nbr s m = Some f \<and> nb_addr f = a) \<longleftrightarrow> n = m" for m
    using table_okD(6) [OF nbr_okD(1) [OF ok], of n] 1(2,3) by blast
  show ?thesis
  proof (cases r)
    case None
    then show ?thesis using 1 by auto
  next
    case (Some m)
    then show ?thesis by (simp add: u 1(1))
  qed
next
  case 2
  then show ?thesis by (cases r) auto
qed

lemma find_hop_link_spec:
  assumes "\<forall>l \<in> set ls. \<exists>t. T (l2_two l) = Some t"
  shows "find_hop_link T a ls = Some (List.find (\<lambda>m. \<exists>t. T m = Some t \<and> n2_addr t = a) (map l2_two ls))"
  using assms by (induction ls) auto

lemma my_neighbors_cases:
  assumes ok: "nbr_ok s" and n: "nh_nbr s n = Some e"
  obtains m t where "olsr_lookup_my_neighbors n a s = Some (Some m)" "m \<in> set (twos_of e)" "nh_two s m = Some t" "n2_addr t = a"
    | "olsr_lookup_my_neighbors n a s = Some None" "\<forall>m t. m \<in> set (twos_of e) \<longrightarrow> nh_two s m = Some t \<longrightarrow> n2_addr t \<noteq> a"
proof -
  let ?P = "\<lambda>m. \<exists>t. nh_two s m = Some t \<and> n2_addr t = a"
  have "\<forall>l \<in> set (nb_2_list e). \<exists>t. nh_two s (l2_two l) = Some t"
    using links_okD(2) [OF nbr_okD(3) [OF ok] n] by (auto simp: twos_of_def)
  then have eq: "olsr_lookup_my_neighbors n a s = Some (List.find ?P (twos_of e))"
    using n find_hop_link_spec by (simp add: olsr_lookup_my_neighbors_def twos_of_def)
  show ?thesis
  proof (cases "List.find ?P (twos_of e)")
    case (Some m)
    then have "m \<in> set (twos_of e)" "?P m" by (auto simp: find_Some_iff)
    then show ?thesis using eq Some that(1) by auto
  next
    case None
    then show ?thesis using eq that(2) by (auto simp: find_None_iff)
  qed
qed

lemma find_two_spec:
  assumes "\<forall>m \<in> set ms. \<exists>t. T m = Some t"
  shows "find_two M T a ms = Some (List.find (\<lambda>m. \<exists>t. T m = Some t \<and> (n2_addr t = a \<or> a \<in> set (mid_lookup_aliases M (n2_addr t)))) ms)"
  using assms by (induction ms) auto

lemma lookup_two_cases:
  assumes ok: "nbr_ok s"
  obtains m t where "olsr_lookup_two_hop_neighbor_table M a s = Some (Some m)" "nh_two s m = Some t"
      "n2_addr t = a \<or> a \<in> set (mid_lookup_aliases M (n2_addr t))"
    | "olsr_lookup_two_hop_neighbor_table M a s = Some None" "\<forall>m t. nh_two s m = Some t \<longrightarrow> n2_addr t \<noteq> a"
proof -
  note tab = nbr_okD(2) [OF ok]
  let ?P = "\<lambda>m. \<exists>t. nh_two s m = Some t \<and> (n2_addr t = a \<or> a \<in> set (mid_lookup_aliases M (n2_addr t)))"
  have "\<forall>m \<in> set (nh_two_tab s ! hash_row a). \<exists>t. nh_two s m = Some t" using table_okD(3) [OF tab hash_row_lt] by blast
  then have eq: "olsr_lookup_two_hop_neighbor_table M a s = Some (List.find ?P (nh_two_tab s ! hash_row a))"
    using find_two_spec nbr_row(2) [OF ok] by (simp add: olsr_lookup_two_hop_neighbor_table_def)
  show ?thesis
  proof (cases "List.find ?P (nh_two_tab s ! hash_row a)")
    case (Some m)
    then have "?P m" by (auto simp: find_Some_iff)
    then show ?thesis using eq Some that(1) by auto
  next
    case None
    then have "\<forall>m t. nh_two s m = Some t \<longrightarrow> n2_addr t \<noteq> a" using table_okD(5) [OF tab] by (auto simp: find_None_iff)
    then show ?thesis using eq None that(2) by simp
  qed
qed

section \<open>Taking a link out\<close>

definition cut_nbr :: "nat \<Rightarrow> neighbor_entry \<Rightarrow> neighbor_entry" where
  "cut_nbr m e = e\<lparr>nb_2_list := filter (\<lambda>l. l2_two l \<noteq> m) (nb_2_list e)\<rparr>"

definition cut_two :: "nat \<Rightarrow> neighbor_2_entry \<Rightarrow> neighbor_2_entry" where
  "cut_two n t = t\<lparr>n2_pointer := n2_pointer t - 1, n2_nblist := filter (\<lambda>l. nl_nbr l \<noteq> n) (n2_nblist t)\<rparr>"

lemma cut_simps [simp]:
  "nb_addr (cut_nbr m e) = nb_addr e" "twos_of (cut_nbr m e) = filter (\<lambda>k. k \<noteq> m) (twos_of e)"
  "n2_addr (cut_two n t) = n2_addr t" "nbrs_of (cut_two n t) = filter (\<lambda>k. k \<noteq> n) (nbrs_of t)"
  "n2_pointer (cut_two n t) = n2_pointer t - 1"
  by (simp_all add: cut_nbr_def cut_two_def twos_of_def nbrs_of_def filter_map o_def)

lemma drop_link_filter: "distinct (map l2_two ls) \<Longrightarrow> drop_link m ls = filter (\<lambda>l. l2_two l \<noteq> m) ls"
proof (induction ls)
  case (Cons l ls)
  have "filter (\<lambda>k. l2_two k \<noteq> l2_two l) ls = ls" using Cons.prems by (intro filter_True ballI) (metis distinct.simps(2) image_eqI list.simps(9) set_map)
  then show ?case using Cons by (cases "l2_two l = m") auto
qed simp

lemma drop_link_cut: "distinct (twos_of e) \<Longrightarrow> e\<lparr>nb_2_list := drop_link m (nb_2_list e)\<rparr> = cut_nbr m e"
  by (simp add: drop_link_filter cut_nbr_def twos_of_def)

text \<open>The state after the link between a neighbour and a two-hop neighbour is gone.\<close>

definition unlinked :: "nat \<Rightarrow> nat \<Rightarrow> nbrhood \<Rightarrow> nbrhood" where
  "unlinked n m s =
     (let t = the (nh_two s m);
          s' = (if length (nbrs_of t) = 1 then free_two m s else s\<lparr>nh_two := (nh_two s)(m \<mapsto> cut_two n t)\<rparr>)
      in s'\<lparr>nh_nbr := (nh_nbr s)(n \<mapsto> cut_nbr m (the (nh_nbr s n)))\<rparr>)"

lemma keep_links_spec:
  assumes "\<forall>l \<in> set ls. \<exists>e. N (nl_nbr l) = Some e \<and> (nb_addr e = a \<longleftrightarrow> nl_nbr l = n)"
  shows "keep_links N a ls = Some (filter (\<lambda>l. nl_nbr l \<noteq> n) ls)"
  using assms by (induction ls) auto

lemma unlink_two_eq:
  assumes ok: "nbr_ok s" and n: "nh_nbr s n = Some e" and m: "m \<in> set (twos_of e)"
  shows "unlink_two n m s = Some (note_changes (unlinked n m s))"
proof -
  note l = nbr_okD(3) [OF ok]
  obtain t where t: "nh_two s m = Some t" "n \<in> set (nbrs_of t)" using links_okD(2) [OF l n m] by blast
  let ?t1 = "t\<lparr>n2_pointer := n2_pointer t - 1\<rparr>"
  have "\<forall>k \<in> set (n2_nblist t). \<exists>f. nh_nbr s (nl_nbr k) = Some f \<and> (nb_addr f = nb_addr e \<longleftrightarrow> nl_nbr k = n)"
  proof
    fix k
    assume "k \<in> set (n2_nblist t)"
    then obtain f where f: "nh_nbr s (nl_nbr k) = Some f" using links_okD(6) [OF l t(1), of "nl_nbr k"] by (auto simp: nbrs_of_def)
    then show "\<exists>f. nh_nbr s (nl_nbr k) = Some f \<and> (nb_addr f = nb_addr e \<longleftrightarrow> nl_nbr k = n)"
      using table_okD(6) [OF nbr_okD(1) [OF ok] f n] n by auto
  qed
  then have keep: "keep_links (nh_nbr s) (nb_addr e) (n2_nblist t) = Some (filter (\<lambda>l. nl_nbr l \<noteq> n) (n2_nblist t))"
    by (rule keep_links_spec)
  define k where "k = length (nbrs_of t)"
  have k: "0 < k" "k < max_nbrs" "n2_pointer t = of_nat k"
    using links_okD(4,5) [OF l t(1)] nbrs_bound [OF ok t(1)] by (simp_all add: k_def)
  have "n2_pointer t - 1 = of_nat (k - 1)" using k by (simp add: of_nat_diff)
  then have gone: "sint (n2_pointer t - 1) < 1 \<longleftrightarrow> k = 1" using sint_count [of "k - 1"] k by auto
  have cut: "?t1\<lparr>n2_nblist := filter (\<lambda>l. nl_nbr l \<noteq> n) (n2_nblist t)\<rparr> = cut_two n t" by (simp add: cut_two_def)
  note ne = drop_link_cut [OF links_okD(1) [OF l n], of m]
  show ?thesis
    using n t(1) keep gone ne
    by (simp add: unlink_two_def upd_two_def upd_nbr_def olsr_delete_neighbor_pointer_def olsr_del_nbr2_list_def
        unlinked_def free_two_def Let_def k_def cut note_changes_def)
qed

lemma links_ok_cut:
  assumes l: "links_ok N T" and n: "N n = Some e" and m: "m \<in> set (twos_of e)" and t: "T m = Some t"
    and T': "T' = (if length (nbrs_of t) = 1 then T(m := None) else T(m \<mapsto> cut_two n t))"
  shows "links_ok (N(n \<mapsto> cut_nbr m e)) T'"
proof -
  let ?N = "N(n \<mapsto> cut_nbr m e)"
  have nt: "n \<in> set (nbrs_of t)" using links_okD(2) [OF l n m] t by auto
  have dn: "distinct (nbrs_of t)" by (rule links_okD(3) [OF l t])
  have one: "nbrs_of t = [n]" if "length (nbrs_of t) = 1" using that nt by (cases "nbrs_of t") auto
  have rest: "length (filter (\<lambda>k. k \<noteq> n) (nbrs_of t)) = length (nbrs_of t) - 1"
  proof -
    have "filter (\<lambda>k. k \<noteq> n) xs = removeAll n xs" for xs by (induction xs) auto
    then have "filter (\<lambda>k. k \<noteq> n) (nbrs_of t) = remove1 n (nbrs_of t)" using dn by (simp add: distinct_remove1_removeAll)
    then show ?thesis using nt by (simp add: length_remove1)
  qed
  show ?thesis
    unfolding links_ok_def
  proof (intro conjI allI impI)
    fix k f
    assume k: "?N k = Some f"
    then obtain g where g: "N k = Some g" "f = (if k = n then cut_nbr m g else g)" using n by (auto split: if_splits)
    show "distinct (twos_of f)" using links_okD(1) [OF l g(1)] g(2) by simp
    show "\<forall>j \<in> set (twos_of f). \<exists>t. T' j = Some t \<and> k \<in> set (nbrs_of t)"
    proof
      fix j
      assume j: "j \<in> set (twos_of f)"
      then have "j \<in> set (twos_of g)" using g(2) by (auto split: if_splits)
      then obtain u where u: "T j = Some u" "k \<in> set (nbrs_of u)" using links_okD(2) [OF l g(1)] by blast
      show "\<exists>t. T' j = Some t \<and> k \<in> set (nbrs_of t)"
      proof (cases "j = m")
        case True
        then have "k \<noteq> n" using j g(2) by auto
        then have "length (nbrs_of t) \<noteq> 1" using one u True t by auto
        then show ?thesis using T' True u t \<open>k \<noteq> n\<close> by simp
      next
        case False
        then show ?thesis using T' u by simp
      qed
    qed
  next
    fix j u
    assume j: "T' j = Some u"
    then obtain v where v: "T j = Some v" "u = (if j = m then cut_two n v else v)" "j = m \<longrightarrow> length (nbrs_of t) \<noteq> 1"
      using T' t by (auto split: if_splits)
    note lv = links_okD(3-6) [OF l v(1)]
    show "distinct (nbrs_of u)" using lv(1) v(2) by simp
    show "nbrs_of u \<noteq> []"
    proof (cases "j = m")
      case True
      then have "v = t" using v(1) t by simp
      moreover have "length (nbrs_of t) > 1" using v(3) True nt by (cases "nbrs_of t") auto
      ultimately show ?thesis using rest v(2) True by (cases "nbrs_of u") auto
    qed (use lv(2) v(2) in simp)
    show "n2_pointer u = of_nat (length (nbrs_of u))"
    proof (cases "j = m")
      case True
      then have "v = t" using v(1) t by simp
      moreover have "0 < length (nbrs_of t)" using nt by (cases "nbrs_of t") auto
      ultimately show ?thesis using lv(3) v(2) True rest by (simp add: of_nat_diff Suc_le_eq)
    qed (use lv(3) v(2) in simp)
    show "\<forall>k \<in> set (nbrs_of u). \<exists>e. ?N k = Some e \<and> j \<in> set (twos_of e)"
    proof
      fix k
      assume k: "k \<in> set (nbrs_of u)"
      then have "k \<in> set (nbrs_of v)" "j = m \<longrightarrow> k \<noteq> n" using v(2) by (auto split: if_splits)
      then show "\<exists>e. ?N k = Some e \<and> j \<in> set (twos_of e)" using lv(4) n by fastforce
    qed
  qed
qed

lemma unlinked_simps:
  assumes "nh_nbr s n = Some e"
  shows "nh_nbr (unlinked n m s) = (nh_nbr s)(n \<mapsto> cut_nbr m e)"
    "nh_nbr_tab (unlinked n m s) = nh_nbr_tab s" "nh_fresh (unlinked n m s) = nh_fresh s"
  using assms by (simp_all add: unlinked_def free_two_def Let_def)

lemma unlinked_ok:
  assumes ok: "nbr_ok s" and n: "nh_nbr s n = Some e" and m: "m \<in> set (twos_of e)"
  shows "nbr_ok (unlinked n m s)"
proof -
  obtain t where t: "nh_two s m = Some t" using links_okD(2) [OF nbr_okD(3) [OF ok] n m] by blast
  have two: "nh_two (unlinked n m s) = (if length (nbrs_of t) = 1 then (nh_two s)(m := None) else (nh_two s)(m \<mapsto> cut_two n t))"
    "nh_two_tab (unlinked n m s) = (if length (nbrs_of t) = 1 then map (remove1 m) (nh_two_tab s) else nh_two_tab s)"
    using t by (simp_all add: unlinked_def free_two_def Let_def)
  have "table_ok n2_addr (nh_two (unlinked n m s)) (nh_two_tab (unlinked n m s)) (nh_fresh s)"
    using table_free [OF nbr_okD(2) [OF ok]] table_upd [OF nbr_okD(2) [OF ok] t, of "cut_two n t"] by (simp add: two)
  moreover have "links_ok (nh_nbr (unlinked n m s)) (nh_two (unlinked n m s))"
    unfolding unlinked_simps(1) [OF n] two(1) by (rule links_ok_cut [OF nbr_okD(3) [OF ok] n m t]) simp
  moreover have "table_ok nb_addr ((nh_nbr s)(n \<mapsto> cut_nbr m e)) (nh_nbr_tab s) (nh_fresh s)"
    by (rule table_upd [OF nbr_okD(1) [OF ok] n]) simp
  moreover have "dom ((nh_nbr s)(n \<mapsto> cut_nbr m e)) = dom (nh_nbr s)" using n by auto
  ultimately show ?thesis using nbr_okD(4,5) [OF ok] by (simp add: nbr_ok_def unlinked_simps [OF n])
qed

end
