(* ===== verification/Nbr_Hello.thy ===== *)
theory Nbr_Hello imports Nbr_Ops begin

text \<open>
  The operations that remove neighbours and two-hop neighbours and the entering of a HELLO message, with their effect on
  the relation between neighbours and two-hop neighbours.
\<close>

section \<open>The two-hop relation\<close>

definition hop_links :: "nbrhood \<Rightarrow> (ip_addr \<times> ip_addr) set" where
  "hop_links s = {(nb_addr e, n2_addr t) | n e m t. nh_nbr s n = Some e \<and> m \<in> set (twos_of e) \<and> nh_two s m = Some t}"

definition nbr_addrs :: "nbrhood \<Rightarrow> ip_addr set" where
  "nbr_addrs s = nb_addr ` ran (nh_nbr s)"

lemma hop_links_iff:
  "(a, b) \<in> hop_links s \<longleftrightarrow> (\<exists>n e m t. nh_nbr s n = Some e \<and> nb_addr e = a \<and> m \<in> set (twos_of e) \<and> nh_two s m = Some t \<and> n2_addr t = b)"
  by (auto simp: hop_links_def)

lemma hop_linksI:
  "nh_nbr s n = Some e \<Longrightarrow> m \<in> set (twos_of e) \<Longrightarrow> nh_two s m = Some t \<Longrightarrow> (nb_addr e, n2_addr t) \<in> hop_links s"
  by (auto simp: hop_links_def)

lemma nbr_addrs_iff: "a \<in> nbr_addrs s \<longleftrightarrow> (\<exists>n e. nh_nbr s n = Some e \<and> nb_addr e = a)"
  by (auto simp: nbr_addrs_def ran_def)

lemma hop_links_changes [simp]:
  "hop_links (note_changes s) = hop_links s" "hop_links (s\<lparr>nh_changes_nbr := x\<rparr>) = hop_links s" "hop_links (s\<lparr>nh_signal := y\<rparr>) = hop_links s"
  "nbr_addrs (note_changes s) = nbr_addrs s" "nbr_addrs (s\<lparr>nh_changes_nbr := x\<rparr>) = nbr_addrs s" "nbr_addrs (s\<lparr>nh_signal := y\<rparr>) = nbr_addrs s"
  by (simp_all add: hop_links_def nbr_addrs_def)

text \<open>Between the entries of a well-formed state an address means an entry.\<close>

lemma hop_links_at:
  assumes ok: "nbr_ok s" and n: "nh_nbr s n = Some e" and m: "nh_two s m = Some t"
  shows "(nb_addr e, n2_addr t) \<in> hop_links s \<longleftrightarrow> m \<in> set (twos_of e)"
proof
  assume "(nb_addr e, n2_addr t) \<in> hop_links s"
  then obtain k f j u where l: "nh_nbr s k = Some f" "nb_addr f = nb_addr e" "j \<in> set (twos_of f)" "nh_two s j = Some u" "n2_addr u = n2_addr t"
    by (auto simp: hop_links_iff)
  then have "k = n" "j = m"
    using table_okD(6) [OF nbr_okD(1) [OF ok] l(1) n] table_okD(6) [OF nbr_okD(2) [OF ok] l(4) m] by simp_all
  then show "m \<in> set (twos_of e)" using l n by simp
qed (use n m in \<open>auto simp: hop_links_iff\<close>)

lemma hop_links_unlinked:
  assumes ok: "nbr_ok s" and n: "nh_nbr s n = Some e" and m: "m \<in> set (twos_of e)" and t: "nh_two s m = Some t"
  shows "hop_links (unlinked n m s) = hop_links s - {(nb_addr e, n2_addr t)}"
proof -
  note l = nbr_okD(3) [OF ok]
  have nt: "n \<in> set (nbrs_of t)" using links_okD(2) [OF l n m] t by auto
  have two: "nh_two (unlinked n m s) = (if length (nbrs_of t) = 1 then (nh_two s)(m := None) else (nh_two s)(m \<mapsto> cut_two n t))"
    using t by (simp add: unlinked_def free_two_def Let_def)
  have one: "k = n" if "length (nbrs_of t) = 1" "k \<in> set (nbrs_of t)" for k using that nt by (cases "nbrs_of t") auto
  have other: "m \<notin> set (twos_of f)" if "nh_nbr s k = Some f" "k \<noteq> n" "length (nbrs_of t) = 1" for k f
    using links_okD(2) [OF l that(1)] one that(2,3) t by fastforce
  show ?thesis
  proof (intro set_eqI iffI)
    fix p
    assume "p \<in> hop_links (unlinked n m s)"
    then obtain k f j u where p: "p = (nb_addr f, n2_addr u)" "nh_nbr (unlinked n m s) k = Some f" "j \<in> set (twos_of f)"
      "nh_two (unlinked n m s) j = Some u" by (auto simp: hop_links_def)
    obtain f' where f': "nh_nbr s k = Some f'" "nb_addr f' = nb_addr f" "j \<in> set (twos_of f')" "k = n \<longrightarrow> j \<noteq> m"
      using p(2,3) n by (auto simp: unlinked_simps(1) [OF n] split: if_splits)
    obtain u' where u': "nh_two s j = Some u'" "n2_addr u' = n2_addr u"
      using p(4) t by (auto simp: two split: if_splits)
    have "p \<in> hop_links s" using hop_linksI [OF f'(1,3) u'(1)] p(1) f'(2) u'(2) by simp
    moreover have "p \<noteq> (nb_addr e, n2_addr t)"
    proof
      assume "p = (nb_addr e, n2_addr t)"
      then have "k = n" "j = m"
        using p(1) f'(2) u'(2) table_okD(6) [OF nbr_okD(1) [OF ok] f'(1) n] table_okD(6) [OF nbr_okD(2) [OF ok] u'(1) t] by simp_all
      then show False using f'(4) by simp
    qed
    ultimately show "p \<in> hop_links s - {(nb_addr e, n2_addr t)}" by simp
  next
    fix p
    assume "p \<in> hop_links s - {(nb_addr e, n2_addr t)}"
    then obtain k f j u where p: "p = (nb_addr f, n2_addr u)" "nh_nbr s k = Some f" "j \<in> set (twos_of f)" "nh_two s j = Some u"
      "p \<noteq> (nb_addr e, n2_addr t)" by (auto simp: hop_links_def)
    have ne: "\<not> (k = n \<and> j = m)" using p n t by auto
    obtain f' where f': "nh_nbr (unlinked n m s) k = Some f'" "nb_addr f' = nb_addr f" "j \<in> set (twos_of f')"
      using p(2,3) n ne by (cases "k = n") (auto simp: unlinked_simps(1) [OF n])
    obtain u' where "nh_two (unlinked n m s) j = Some u'" "n2_addr u' = n2_addr u"
    proof (cases "j = m")
      case True
      then have "length (nbrs_of t) \<noteq> 1" using other [OF p(2)] p(3) ne by blast
      then show ?thesis using True p(4) t that by (simp add: two)
    next
      case False
      then show ?thesis using p(4) that by (simp add: two)
    qed
    then show "p \<in> hop_links (unlinked n m s)" using hop_linksI [OF f'(1,3)] f'(2) p(1) by metis
  qed
qed

text \<open>A timer fires.\<close>

lemma expire_ok:
  assumes ok: "nbr_ok s" and n: "nh_nbr s n = Some e" and m: "m \<in> set (twos_of e)" and t: "nh_two s m = Some t"
  shows "\<exists>s'. olsr_expire_nbr2_list n m s = Some s' \<and> nbr_ok s' \<and> nbr_addrs s' = nbr_addrs s \<and>
    hop_links s' = hop_links s - {(nb_addr e, n2_addr t)} \<and> nh_nbr s' = (nh_nbr s)(n \<mapsto> cut_nbr m e)"
proof -
  have "nbr_addrs (unlinked n m s) = nbr_addrs s"
    using n by (auto simp: nbr_addrs_def unlinked_simps(1) [OF n] ran_def image_iff split: if_splits) (metis cut_simps(1) option.inject)+
  then show ?thesis
    using unlink_two_eq [OF ok n m] unlinked_ok [OF ok n m] hop_links_unlinked [OF ok n m t] unlinked_simps(1) [OF n]
    by (simp add: olsr_expire_nbr2_list_def)
qed

section \<open>Deleting a neighbour\<close>

lemma unlink_all_ok:
  assumes "nbr_ok s" "nh_nbr s n = Some e" "nb_2_list e = ls"
  shows "\<exists>s'. iter ls (\<lambda>l. unlink_two n (l2_two l)) s = Some s' \<and> nbr_ok s' \<and> nbr_addrs s' = nbr_addrs s \<and>
    nh_nbr s' = (nh_nbr s)(n \<mapsto> e\<lparr>nb_2_list := []\<rparr>) \<and> hop_links s' = {p \<in> hop_links s. fst p \<noteq> nb_addr e}"
  using assms
proof (induction ls arbitrary: s e)
  case Nil
  have "fst p \<noteq> nb_addr e" if p: "p \<in> hop_links s" for p
  proof
    assume eq: "fst p = nb_addr e"
    obtain k f j where f: "nh_nbr s k = Some f" "fst p = nb_addr f" "j \<in> set (twos_of f)" using p by (auto simp: hop_links_def)
    then have "k = n" using table_okD(6) [OF nbr_okD(1) [OF Nil(1)] f(1) Nil(2)] eq by simp
    then show False using f Nil(2,3) by (simp add: twos_of_def)
  qed
  then show ?case using Nil by (auto simp: fun_upd_idem)
next
  case (Cons l ls)
  let ?m = "l2_two l"
  have m: "?m \<in> set (twos_of e)" using Cons.prems(3) by (simp add: twos_of_def)
  obtain t where t: "nh_two s ?m = Some t" using links_okD(2) [OF nbr_okD(3) [OF Cons.prems(1)] Cons.prems(2) m] by blast
  obtain s1 where s1: "unlink_two n ?m s = Some s1" "nbr_ok s1" "nbr_addrs s1 = nbr_addrs s"
    "hop_links s1 = hop_links s - {(nb_addr e, n2_addr t)}" "nh_nbr s1 = (nh_nbr s)(n \<mapsto> cut_nbr ?m e)"
    using expire_ok [OF Cons.prems(1,2) m t] unfolding olsr_expire_nbr2_list_def by blast
  have "distinct (map l2_two (l # ls))" using links_okD(1) [OF nbr_okD(3) [OF Cons.prems(1)] Cons.prems(2)] Cons.prems(3) by (simp add: twos_of_def)
  then have "drop_link ?m (l # ls) = filter (\<lambda>k. l2_two k \<noteq> ?m) (l # ls)" by (rule drop_link_filter)
  then have ls: "nb_2_list (cut_nbr ?m e) = ls" using Cons.prems(3) by (simp add: cut_nbr_def)
  have "nh_nbr s1 n = Some (cut_nbr ?m e)" by (simp add: s1(5))
  from Cons.IH [OF s1(2) this ls] obtain s2 where s2: "iter ls (\<lambda>l. unlink_two n (l2_two l)) s1 = Some s2" "nbr_ok s2"
    "nbr_addrs s2 = nbr_addrs s1" "nh_nbr s2 = (nh_nbr s1)(n \<mapsto> (cut_nbr ?m e)\<lparr>nb_2_list := []\<rparr>)"
    "hop_links s2 = {p \<in> hop_links s1. fst p \<noteq> nb_addr (cut_nbr ?m e)}" by blast
  have "(cut_nbr ?m e)\<lparr>nb_2_list := []\<rparr> = e\<lparr>nb_2_list := []\<rparr>" by (simp add: cut_nbr_def)
  then show ?case using s1 s2 by auto
qed

lemma free_nbr_ok:
  assumes ok: "nbr_ok s" and n: "nh_nbr s n = Some e" and none: "nb_2_list e = []"
  shows "nbr_ok (free_nbr n s)" "hop_links (free_nbr n s) = hop_links s" "nbr_addrs (free_nbr n s) = nbr_addrs s - {nb_addr e}"
proof -
  note l = nbr_okD(3) [OF ok]
  have gone: "n \<notin> set (nbrs_of t)" if "nh_two s m = Some t" for m t
    using links_okD(6) [OF l that, of n] n none by (auto simp: twos_of_def)
  have "links_ok ((nh_nbr s)(n := None)) (nh_two s)"
    unfolding links_ok_def
  proof (intro conjI allI impI)
    fix m t
    assume m: "nh_two s m = Some t"
    show "\<forall>k \<in> set (nbrs_of t). \<exists>e. ((nh_nbr s)(n := None)) k = Some e \<and> m \<in> set (twos_of e)"
      using links_okD(6) [OF l m] gone [OF m] by (metis fun_upd_apply)
  qed (use links_okD [OF l] in \<open>auto split: if_splits\<close>)
  moreover have "card (dom ((nh_nbr s)(n := None))) \<le> card (dom (nh_nbr s))" using nbr_okD(4) [OF ok] by (intro card_mono) auto
  ultimately show "nbr_ok (free_nbr n s)"
    using nbr_okD [OF ok] table_free [OF nbr_okD(1) [OF ok], of n] by (simp add: nbr_ok_def free_nbr_def)
  show "hop_links (free_nbr n s) = hop_links s"
  proof -
    have "(a, b) \<in> hop_links (free_nbr n s) \<longleftrightarrow> (a, b) \<in> hop_links s" for a b
      unfolding hop_links_iff free_nbr_def using n none
      by (auto simp: twos_of_def) (metis empty_iff list.set(1) list.simps(8) option.inject)
    then show ?thesis by auto
  qed
  have uniq: "k = n" if "nh_nbr s k = Some f" "nb_addr f = nb_addr e" for k f
    using table_okD(6) [OF nbr_okD(1) [OF ok] that(1) n that(2)] .
  show "nbr_addrs (free_nbr n s) = nbr_addrs s - {nb_addr e}"
  proof (intro set_eqI iffI)
    fix x
    assume "x \<in> nbr_addrs (free_nbr n s)"
    then obtain k f where f: "k \<noteq> n" "nh_nbr s k = Some f" "nb_addr f = x" by (auto simp: nbr_addrs_iff free_nbr_def split: if_splits)
    then have "x \<noteq> nb_addr e" using uniq [OF f(2)] by blast
    then show "x \<in> nbr_addrs s - {nb_addr e}" using f(2,3) by (auto simp: nbr_addrs_iff)
  next
    fix x
    assume "x \<in> nbr_addrs s - {nb_addr e}"
    then obtain k f where f: "nh_nbr s k = Some f" "nb_addr f = x" "x \<noteq> nb_addr e" by (auto simp: nbr_addrs_iff)
    then have "k \<noteq> n" using n by auto
    then show "x \<in> nbr_addrs (free_nbr n s)" using f by (auto simp: nbr_addrs_iff free_nbr_def)
  qed
qed

lemma delete_neighbor_ok:
  assumes ok: "nbr_ok s"
  shows "\<exists>s'. olsr_delete_neighbor_table a s = Some s' \<and> nbr_ok s' \<and>
    nbr_addrs s' = nbr_addrs s - {a} \<and> hop_links s' = {p \<in> hop_links s. fst p \<noteq> a}"
proof (cases rule: lookup_nbr_cases [OF ok, of a])
  case (1 n e)
  obtain s1 where s1: "iter (nb_2_list e) (\<lambda>l. unlink_two n (l2_two l)) s = Some s1" "nbr_ok s1" "nbr_addrs s1 = nbr_addrs s"
    "nh_nbr s1 = (nh_nbr s)(n \<mapsto> e\<lparr>nb_2_list := []\<rparr>)" "hop_links s1 = {p \<in> hop_links s. fst p \<noteq> nb_addr e}"
    using unlink_all_ok [OF ok 1(2) refl] by blast
  have n: "nh_nbr s1 n = Some (e\<lparr>nb_2_list := []\<rparr>)" using s1(4) by simp
  have "olsr_delete_neighbor_table a s = Some ((free_nbr n s1)\<lparr>nh_changes_nbr := True\<rparr>)"
    using 1 s1(1) n by (simp add: olsr_delete_neighbor_table_def)
  then show ?thesis using free_nbr_ok [OF s1(2) n] s1(3,5) 1(3) by simp
next
  case 2
  then have "a \<notin> nbr_addrs s" "\<forall>p \<in> hop_links s. fst p \<noteq> a" by (auto simp: nbr_addrs_def ran_def hop_links_def)
  then show ?thesis using ok 2(1) by (auto simp: olsr_delete_neighbor_table_def)
qed

section \<open>Inserting a neighbour\<close>

lemma table_mono: "table_ok addr E tab fresh \<Longrightarrow> fresh \<le> fresh' \<Longrightarrow> table_ok addr E tab fresh'"
  unfolding table_ok_def by (meson less_le_trans)

lemma insert_neighbor_ok:
  assumes ok: "nbr_ok s" and room: "card (dom (nh_nbr s)) + 1 < max_nbrs"
  shows "\<exists>n s' e. olsr_insert_neighbor_table a s = Some (n, s') \<and> nbr_ok s' \<and> nh_nbr s' n = Some e \<and> nb_addr e = a \<and>
    nbr_addrs s' = insert a (nbr_addrs s) \<and> hop_links s' = hop_links s"
proof (cases rule: lookup_nbr_cases [OF ok, of a])
  case (1 n e)
  then have "a \<in> nbr_addrs s" unfolding nbr_addrs_iff by blast
  then show ?thesis using ok 1 by (simp add: olsr_insert_neighbor_table_def insert_absorb)
next
  case 2
  let ?n = "nh_fresh s" and ?h = "hash_row a"
  define e where "e = \<lparr>nb_addr = a, nb_status = NOT_SYM, nb_will = will_never, nb_is_mpr = False, nb_was_mpr = False,
    nb_skip = False, nb_nocov = 0, nb_2_list = []\<rparr>"
  define s' where "s' = s\<lparr>nh_nbr := (nh_nbr s)(?n \<mapsto> e), nh_nbr_tab := (nh_nbr_tab s)[?h := ?n # nh_nbr_tab s ! ?h], nh_fresh := ?n + 1\<rparr>"
  have e: "nb_addr e = a" "twos_of e = []" by (simp_all add: e_def twos_of_def)
  have fresh: "nh_nbr s ?n = None" using table_okD(4) [OF nbr_okD(1) [OF ok], of ?n] by (cases "nh_nbr s ?n") auto
  have run: "olsr_insert_neighbor_table a s = Some (?n, s')"
    using 2(1) nbr_row(1) [OF ok] table_okD(1) [OF nbr_okD(1) [OF ok]]
    by (simp add: olsr_insert_neighbor_table_def s'_def e_def Let_def)
  note l = nbr_okD(3) [OF ok]
  have "links_ok ((nh_nbr s)(?n \<mapsto> e)) (nh_two s)"
    unfolding links_ok_def
  proof (intro conjI allI impI)
    fix m t
    assume m: "nh_two s m = Some t"
    show "\<forall>k \<in> set (nbrs_of t). \<exists>f. ((nh_nbr s)(?n \<mapsto> e)) k = Some f \<and> m \<in> set (twos_of f)"
      using links_okD(6) [OF l m] fresh by (metis fun_upd_apply option.distinct(1))
  qed (use links_okD [OF l] e in \<open>auto split: if_splits\<close>)
  moreover have "table_ok nb_addr ((nh_nbr s)(?n \<mapsto> e)) (nh_nbr_tab s' ) (Suc ?n)"
    using table_insert [OF nbr_okD(1) [OF ok], of e] 2(2) e(1) by (simp add: s'_def)
  moreover have "card (dom ((nh_nbr s)(?n \<mapsto> e))) < max_nbrs"
    using room nbr_okD(4) [OF ok] by (simp add: card_insert_if)
  ultimately have "nbr_ok s'"
    using nbr_okD(2,4) [OF ok] table_mono [OF nbr_okD(2) [OF ok], of "Suc ?n"] by (simp add: nbr_ok_def s'_def)
  moreover have "(x, y) \<in> hop_links s' \<longleftrightarrow> (x, y) \<in> hop_links s" for x y
    unfolding hop_links_iff using fresh e(2) by (auto simp: s'_def) (metis option.distinct(1))
  then have "hop_links s' = hop_links s" by auto
  moreover have "nbr_addrs s' = insert a (nbr_addrs s)"
    using fresh e(1) by (auto simp: nbr_addrs_def s'_def)
  ultimately show ?thesis using run e(1) by (intro exI [of _ ?n] exI [of _ s'] exI [of _ e]) (simp add: s'_def)
qed

section \<open>Deleting a two-hop neighbour\<close>

lemma cut_all_lists:
  assumes "\<forall>l \<in> set ls. \<exists>e. nh_nbr s (nl_nbr l) = Some e \<and> m \<in> set (twos_of e) \<and> distinct (twos_of e) \<and>
      (\<forall>j \<in> set (twos_of e). \<exists>u. nh_two s j = Some u)"
    and "\<forall>j u. nh_two s j = Some u \<longrightarrow> n2_addr u = n2_addr t \<longrightarrow> j = m"
    and "nh_two s m = Some t" "\<not> sint (n2_pointer t) < 1" "distinct (map nl_nbr ls)"
  shows "\<exists>s'. iter ls (\<lambda>l s. do { t \<leftarrow> nh_two s m; olsr_delete_neighbor_2_pointer (nl_nbr l) (n2_addr t) s }) s = Some s' \<and>
    nh_nbr s' = (\<lambda>n. if n \<in> nl_nbr ` set ls then map_option (cut_nbr m) (nh_nbr s n) else nh_nbr s n) \<and>
    nh_two s' = nh_two s \<and> nh_nbr_tab s' = nh_nbr_tab s \<and> nh_two_tab s' = nh_two_tab s \<and> nh_fresh s' = nh_fresh s"
  using assms
proof (induction ls arbitrary: s)
  case Nil
  show ?case by simp
next
  case (Cons l ls)
  obtain e where e: "nh_nbr s (nl_nbr l) = Some e" "m \<in> set (twos_of e)" "distinct (twos_of e)"
    "\<forall>j \<in> set (twos_of e). \<exists>u. nh_two s j = Some u" using Cons.prems(1) by auto
  have "\<forall>l \<in> set (nb_2_list e). \<exists>u. nh_two s (l2_two l) = Some u" using e(4) by (auto simp: twos_of_def)
  then have "olsr_lookup_my_neighbors (nl_nbr l) (n2_addr t) s =
      Some (List.find (\<lambda>j. \<exists>u. nh_two s j = Some u \<and> n2_addr u = n2_addr t) (twos_of e))"
    using e(1) find_hop_link_spec by (simp add: olsr_lookup_my_neighbors_def twos_of_def)
  moreover have "List.find (\<lambda>j. \<exists>u. nh_two s j = Some u \<and> n2_addr u = n2_addr t) (twos_of e) = Some m"
  proof (cases "List.find (\<lambda>j. \<exists>u. nh_two s j = Some u \<and> n2_addr u = n2_addr t) (twos_of e)")
    case None
    then show ?thesis using e(2) Cons.prems(3) by (auto simp: find_None_iff)
  next
    case (Some j)
    then have "\<exists>u. nh_two s j = Some u \<and> n2_addr u = n2_addr t" by (auto simp: find_Some_iff)
    then have "j = m" using Cons.prems(2) by blast
    then show ?thesis using Some by simp
  qed
  ultimately have "olsr_delete_neighbor_2_pointer (nl_nbr l) (n2_addr t) s = olsr_del_nbr2_list (nl_nbr l) m s"
    by (simp add: olsr_delete_neighbor_2_pointer_def)
  moreover define s1 where "s1 = note_changes (s\<lparr>nh_nbr := (nh_nbr s)(nl_nbr l \<mapsto> cut_nbr m e)\<rparr>)"
  ultimately have step: "do { t \<leftarrow> nh_two s m; olsr_delete_neighbor_2_pointer (nl_nbr l) (n2_addr t) s } = Some s1"
    using Cons.prems(3,4) e(1) drop_link_cut [OF e(3)]
    by (simp add: olsr_del_nbr2_list_def upd_nbr_def s1_def)
  have s1: "nh_nbr s1 = (nh_nbr s)(nl_nbr l \<mapsto> cut_nbr m e)" "nh_two s1 = nh_two s" "nh_nbr_tab s1 = nh_nbr_tab s"
    "nh_two_tab s1 = nh_two_tab s" "nh_fresh s1 = nh_fresh s" by (simp_all add: s1_def)
  have "\<exists>s'. iter ls (\<lambda>l s. do { t \<leftarrow> nh_two s m; olsr_delete_neighbor_2_pointer (nl_nbr l) (n2_addr t) s }) s1 = Some s' \<and>
    nh_nbr s' = (\<lambda>n. if n \<in> nl_nbr ` set ls then map_option (cut_nbr m) (nh_nbr s1 n) else nh_nbr s1 n) \<and>
    nh_two s' = nh_two s1 \<and> nh_nbr_tab s' = nh_nbr_tab s1 \<and> nh_two_tab s' = nh_two_tab s1 \<and> nh_fresh s' = nh_fresh s1"
  proof (rule Cons.IH)
    show "\<forall>k \<in> set ls. \<exists>e. nh_nbr s1 (nl_nbr k) = Some e \<and> m \<in> set (twos_of e) \<and> distinct (twos_of e) \<and>
        (\<forall>j \<in> set (twos_of e). \<exists>u. nh_two s1 j = Some u)"
      using Cons.prems(1,5) by (auto simp: s1 image_iff)
    show "\<forall>j u. nh_two s1 j = Some u \<longrightarrow> n2_addr u = n2_addr t \<longrightarrow> j = m" using Cons.prems(2) unfolding s1(2) .
    show "nh_two s1 m = Some t" using Cons.prems(3) unfolding s1(2) .
    show "\<not> sint (n2_pointer t) < 1" by (rule Cons.prems(4))
    show "distinct (map nl_nbr ls)" using Cons.prems(5) by simp
  qed
  then obtain s2 where s2: "iter ls (\<lambda>l s. do { t \<leftarrow> nh_two s m; olsr_delete_neighbor_2_pointer (nl_nbr l) (n2_addr t) s }) s1 = Some s2"
    "nh_nbr s2 = (\<lambda>n. if n \<in> nl_nbr ` set ls then map_option (cut_nbr m) (nh_nbr s1 n) else nh_nbr s1 n)"
    "nh_two s2 = nh_two s1" "nh_nbr_tab s2 = nh_nbr_tab s1" "nh_two_tab s2 = nh_two_tab s1" "nh_fresh s2 = nh_fresh s1" by blast
  have "nl_nbr l \<notin> nl_nbr ` set ls" using Cons.prems(5) by simp
  then have "nh_nbr s2 = (\<lambda>n. if n \<in> nl_nbr ` set (l # ls) then map_option (cut_nbr m) (nh_nbr s n) else nh_nbr s n)"
    using e(1) by (auto simp: s2(2) s1(1))
  moreover have "iter (l # ls) (\<lambda>l s. do { t \<leftarrow> nh_two s m; olsr_delete_neighbor_2_pointer (nl_nbr l) (n2_addr t) s }) s = Some s2"
    by (simp only: iter.simps step Option.bind.simps s2(1))
  ultimately show ?case using s2(3-6) s1 by (intro exI [of _ s2]) simp
qed

lemma delete_two_hop_ok:
  assumes ok: "nbr_ok s" and m: "nh_two s m = Some t"
  shows "\<exists>s'. olsr_delete_two_hop_neighbor_table m s = Some s' \<and> nbr_ok s' \<and> nbr_addrs s' = nbr_addrs s \<and>
    hop_links s' = {p \<in> hop_links s. snd p \<noteq> n2_addr t} \<and> nh_nbr s' = (\<lambda>n. map_option (cut_nbr m) (nh_nbr s n))"
proof -
  note l = nbr_okD(3) [OF ok]
  have k: "length (nbrs_of t) < max_nbrs" "nbrs_of t \<noteq> []" by (rule nbrs_bound [OF ok m], rule links_okD(4) [OF l m])
  have lists: "\<forall>k \<in> set (n2_nblist t). \<exists>e. nh_nbr s (nl_nbr k) = Some e \<and> m \<in> set (twos_of e) \<and> distinct (twos_of e) \<and>
      (\<forall>j \<in> set (twos_of e). \<exists>u. nh_two s j = Some u)"
    using links_okD(6) [OF l m] links_okD(1,2) [OF l] by (fastforce simp: nbrs_of_def)
  have uniq: "\<forall>j u. nh_two s j = Some u \<longrightarrow> n2_addr u = n2_addr t \<longrightarrow> j = m" using table_okD(6) [OF nbr_okD(2) [OF ok] _ m] by blast
  have "\<not> sint (n2_pointer t) < 1" using k sint_count [OF k(1)] links_okD(5) [OF l m] by (cases "nbrs_of t") auto
  then obtain s1 where s1: "iter (n2_nblist t) (\<lambda>l s. do { t \<leftarrow> nh_two s m; olsr_delete_neighbor_2_pointer (nl_nbr l) (n2_addr t) s }) s = Some s1"
    "nh_nbr s1 = (\<lambda>n. if n \<in> nl_nbr ` set (n2_nblist t) then map_option (cut_nbr m) (nh_nbr s n) else nh_nbr s n)"
    "nh_two s1 = nh_two s" "nh_nbr_tab s1 = nh_nbr_tab s" "nh_two_tab s1 = nh_two_tab s" "nh_fresh s1 = nh_fresh s"
    using cut_all_lists [OF lists uniq m] links_okD(3) [OF l m] unfolding nbrs_of_def by blast
  have nbr: "nh_nbr s1 = (\<lambda>n. map_option (cut_nbr m) (nh_nbr s n))"
  proof (rule ext)
    fix n
    show "nh_nbr s1 n = map_option (cut_nbr m) (nh_nbr s n)"
    proof (cases "n \<in> nl_nbr ` set (n2_nblist t) \<or> nh_nbr s n = None")
      case True
      then show ?thesis by (auto simp: s1(2))
    next
      case False
      then obtain e where e: "nh_nbr s n = Some e" by auto
      have "m \<notin> set (twos_of e)" using links_okD(2) [OF l e, of m] m False by (auto simp: nbrs_of_def)
      then have "filter (\<lambda>l. l2_two l \<noteq> m) (nb_2_list e) = nb_2_list e" by (auto simp: twos_of_def intro!: filter_True)
      then have "cut_nbr m e = e" by (simp add: cut_nbr_def)
      then show ?thesis using False e by (simp add: s1(2))
    qed
  qed
  let ?s = "free_two m s1"
  have run: "olsr_delete_two_hop_neighbor_table m s = Some ?s"
    using m s1(1,3) by (simp add: olsr_delete_two_hop_neighbor_table_def)
  have st: "nh_nbr ?s = (\<lambda>n. map_option (cut_nbr m) (nh_nbr s n))" "nh_two ?s = (nh_two s)(m := None)"
    "nh_nbr_tab ?s = nh_nbr_tab s" "nh_two_tab ?s = map (remove1 m) (nh_two_tab s)" "nh_fresh ?s = nh_fresh s"
    using nbr s1(3-6) by (simp_all add: free_two_def)
  have "links_ok (nh_nbr ?s) (nh_two ?s)"
    unfolding links_ok_def st
  proof (intro conjI allI impI)
    fix n e
    assume "map_option (cut_nbr m) (nh_nbr s n) = Some e"
    then obtain f where f: "nh_nbr s n = Some f" "e = cut_nbr m f" by auto
    show "distinct (twos_of e)" using links_okD(1) [OF l f(1)] f(2) by simp
    show "\<forall>j \<in> set (twos_of e). \<exists>t. ((nh_two s)(m := None)) j = Some t \<and> n \<in> set (nbrs_of t)"
      using links_okD(2) [OF l f(1)] f(2) by auto
  next
    fix j u
    assume "((nh_two s)(m := None)) j = Some u"
    then have u: "nh_two s j = Some u" "j \<noteq> m" by (auto split: if_splits)
    show "distinct (nbrs_of u)" "nbrs_of u \<noteq> []" "n2_pointer u = of_nat (length (nbrs_of u))"
      using links_okD(3-5) [OF l u(1)] by simp_all
    show "\<forall>n \<in> set (nbrs_of u). \<exists>e. map_option (cut_nbr m) (nh_nbr s n) = Some e \<and> j \<in> set (twos_of e)"
      using links_okD(6) [OF l u(1)] u(2) by fastforce
  qed
  moreover have "table_ok nb_addr (nh_nbr ?s) (nh_nbr_tab s) (nh_fresh s)"
    unfolding st(1) by (rule table_map [OF nbr_okD(1) [OF ok]]) simp
  moreover have "dom (nh_nbr ?s) = dom (nh_nbr s)" unfolding st(1) by (auto simp: dom_def)
  ultimately have "nbr_ok ?s" using nbr_okD(4,5) [OF ok] table_free [OF nbr_okD(2) [OF ok], of m] by (simp add: nbr_ok_def st)
  moreover have "hop_links ?s = {p \<in> hop_links s. snd p \<noteq> n2_addr t}"
  proof (intro set_eqI iffI)
    fix p
    assume "p \<in> hop_links ?s"
    then obtain n e j u where p: "p = (nb_addr e, n2_addr u)" "nh_nbr s n = Some e" "j \<in> set (twos_of e)" "nh_two s j = Some u" "j \<noteq> m"
      by (auto simp: hop_links_def st split: if_splits)
    then show "p \<in> {p \<in> hop_links s. snd p \<noteq> n2_addr t}" using hop_linksI [OF p(2-4)] uniq by auto
  next
    fix p
    assume "p \<in> {p \<in> hop_links s. snd p \<noteq> n2_addr t}"
    then obtain n e j u where p: "p = (nb_addr e, n2_addr u)" "nh_nbr s n = Some e" "j \<in> set (twos_of e)" "nh_two s j = Some u" "n2_addr u \<noteq> n2_addr t"
      by (auto simp: hop_links_def)
    then have "j \<noteq> m" using m by auto
    then have "nh_nbr ?s n = Some (cut_nbr m e)" "j \<in> set (twos_of (cut_nbr m e))" "nh_two ?s j = Some u" using p by (auto simp: st)
    from hop_linksI [OF this] p(1) show "p \<in> hop_links ?s" by simp
  qed
  moreover have "nbr_addrs ?s = nbr_addrs s" by (simp add: nbr_addrs_def st ran_map_option image_image)
  ultimately show ?thesis using run st(1) by blast
qed

end
