(* ===== verification/Nbr_Process.thy ===== *)
theory Nbr_Process imports Nbr_Hello begin

text \<open>Entering a HELLO message: every step returns on well-formed states, keeps them well formed, and adds the listed two-hop links.\<close>

section \<open>Updates that do not touch the links\<close>

lemma upd_nbr_ok:
  assumes ok: "nbr_ok s" and n: "nh_nbr s n = Some e" and f: "nb_addr (f e) = nb_addr e" "twos_of (f e) = twos_of e"
  shows "\<exists>s'. upd_nbr n f s = Some s' \<and> nbr_ok s' \<and> nbr_addrs s' = nbr_addrs s \<and> hop_links s' = hop_links s \<and>
    nh_nbr s' = (nh_nbr s)(n \<mapsto> f e) \<and> nh_two s' = nh_two s"
proof -
  let ?s = "s\<lparr>nh_nbr := (nh_nbr s)(n \<mapsto> f e)\<rparr>"
  note l = nbr_okD(3) [OF ok]
  have "links_ok (nh_nbr ?s) (nh_two ?s)"
    unfolding links_ok_def
  proof (intro conjI allI impI)
    fix m t
    assume "nh_two ?s m = Some t"
    then have m: "nh_two s m = Some t" by simp
    show "distinct (nbrs_of t)" "nbrs_of t \<noteq> []" "n2_pointer t = of_nat (length (nbrs_of t))" using links_okD(3-5) [OF l m] by simp_all
    show "\<forall>k \<in> set (nbrs_of t). \<exists>g. nh_nbr ?s k = Some g \<and> m \<in> set (twos_of g)"
      using links_okD(6) [OF l m] n f(2) by fastforce
  qed (use links_okD(1,2) [OF l] n f in \<open>auto split: if_splits\<close>)
  moreover have "table_ok nb_addr (nh_nbr ?s) (nh_nbr_tab s) (nh_fresh s)" using table_upd [OF nbr_okD(1) [OF ok] n f(1)] by simp
  moreover have "dom (nh_nbr ?s) = dom (nh_nbr s)" using n by auto
  ultimately have "nbr_ok ?s" using nbr_okD(2,4,5) [OF ok] by (simp add: nbr_ok_def)
  moreover have "(a, b) \<in> hop_links ?s \<longleftrightarrow> (a, b) \<in> hop_links s" for a b
  proof
    assume "(a, b) \<in> hop_links ?s"
    then show "(a, b) \<in> hop_links s" unfolding hop_links_iff using n f by (auto split: if_splits)
  next
    assume "(a, b) \<in> hop_links s"
    then obtain k g m t where g: "nh_nbr s k = Some g" "nb_addr g = a" "m \<in> set (twos_of g)" "nh_two s m = Some t" "n2_addr t = b"
      unfolding hop_links_iff by blast
    show "(a, b) \<in> hop_links ?s"
    proof (cases "k = n")
      case True
      then have "g = e" using g n by simp
      then show ?thesis using hop_linksI [of ?s n "f e" m t] g f by simp
    next
      case False
      then show ?thesis using hop_linksI [of ?s k g m t] g by simp
    qed
  qed
  then have "hop_links ?s = hop_links s" by auto
  moreover have "(a \<in> nbr_addrs ?s) = (a \<in> nbr_addrs s)" for a
    unfolding nbr_addrs_iff using n f(1) by (auto split: if_splits) (metis option.inject)
  then have "nbr_addrs ?s = nbr_addrs s" by blast
  ultimately show ?thesis using n by (auto simp: upd_nbr_def)
qed

lemma upd_two_ok:
  assumes ok: "nbr_ok s" and m: "nh_two s m = Some t"
    and f: "n2_addr (f t) = n2_addr t" "nbrs_of (f t) = nbrs_of t" "n2_pointer (f t) = n2_pointer t"
  shows "\<exists>s'. upd_two m f s = Some s' \<and> nbr_ok s' \<and> nbr_addrs s' = nbr_addrs s \<and> hop_links s' = hop_links s \<and>
    nh_two s' = (nh_two s)(m \<mapsto> f t) \<and> nh_nbr s' = nh_nbr s"
proof -
  let ?s = "s\<lparr>nh_two := (nh_two s)(m \<mapsto> f t)\<rparr>"
  note l = nbr_okD(3) [OF ok]
  have "links_ok (nh_nbr ?s) (nh_two ?s)"
    unfolding links_ok_def
  proof (intro conjI allI impI)
    fix k e
    assume "nh_nbr ?s k = Some e"
    then have k: "nh_nbr s k = Some e" by simp
    show "distinct (twos_of e)" by (rule links_okD(1) [OF l k])
    show "\<forall>j \<in> set (twos_of e). \<exists>u. nh_two ?s j = Some u \<and> k \<in> set (nbrs_of u)"
      using links_okD(2) [OF l k] m f(2) by fastforce
  qed (use links_okD(3-6) [OF l] m f in \<open>auto split: if_splits\<close>)
  moreover have "table_ok n2_addr (nh_two ?s) (nh_two_tab s) (nh_fresh s)" using table_upd [OF nbr_okD(2) [OF ok] m f(1)] by simp
  ultimately have "nbr_ok ?s" using nbr_okD(1,4,5) [OF ok] by (simp add: nbr_ok_def)
  moreover have "(a, b) \<in> hop_links ?s \<longleftrightarrow> (a, b) \<in> hop_links s" for a b
  proof
    assume "(a, b) \<in> hop_links ?s"
    then show "(a, b) \<in> hop_links s" unfolding hop_links_iff using m f(1) by (auto split: if_splits)
  next
    assume "(a, b) \<in> hop_links s"
    then obtain k g j u where g: "nh_nbr s k = Some g" "nb_addr g = a" "j \<in> set (twos_of g)" "nh_two s j = Some u" "n2_addr u = b"
      unfolding hop_links_iff by blast
    show "(a, b) \<in> hop_links ?s"
    proof (cases "j = m")
      case True
      then have "u = t" using g m by simp
      then show ?thesis using hop_linksI [of ?s k g m "f t"] g f(1) True by simp
    next
      case False
      then show ?thesis using hop_linksI [of ?s k g j u] g by simp
    qed
  qed
  then have "hop_links ?s = hop_links s" by auto
  moreover have "nbr_addrs ?s = nbr_addrs s" by (simp add: nbr_addrs_def)
  ultimately show ?thesis using m by (auto simp: upd_two_def)
qed

section \<open>A new link\<close>

definition new_link :: "nat \<Rightarrow> nb_link" where
  "new_link n = \<lparr>nl_nbr = n, nl_second_hop = link_cost_broken, nl_path = link_cost_broken, nl_saved_path = link_cost_broken\<rparr>"

definition linked_nbr :: "nat \<Rightarrow> neighbor_entry \<Rightarrow> neighbor_entry" where
  "linked_nbr m e = e\<lparr>nb_2_list := \<lparr>l2_two = m, l2_timer = None\<rparr> # nb_2_list e\<rparr>"

definition linked_two :: "nat \<Rightarrow> neighbor_2_entry \<Rightarrow> neighbor_2_entry" where
  "linked_two n t = t\<lparr>n2_nblist := new_link n # n2_nblist t, n2_pointer := n2_pointer t + 1\<rparr>"

lemma linked_simps [simp]:
  "nb_addr (linked_nbr m e) = nb_addr e" "twos_of (linked_nbr m e) = m # twos_of e"
  "n2_addr (linked_two n t) = n2_addr t" "nbrs_of (linked_two n t) = n # nbrs_of t" "n2_pointer (linked_two n t) = n2_pointer t + 1"
  by (simp_all add: linked_nbr_def linked_two_def twos_of_def nbrs_of_def new_link_def)

lemma linking_eq:
  assumes "nh_nbr s n = Some e" "nh_two s m = Some t"
  shows "linking_this_2_entries n m s =
    Some (s\<lparr>nh_nbr := (nh_nbr s)(n \<mapsto> linked_nbr m e), nh_two := (nh_two s)(m \<mapsto> linked_two n t)\<rparr>)"
  using assms by (simp add: linking_this_2_entries_def upd_two_def upd_nbr_def linked_nbr_def linked_two_def new_link_def)

text \<open>The links of all two-hop neighbours but a new one, which may still have none.\<close>

definition links_but :: "nat \<Rightarrow> (nat \<rightharpoonup> neighbor_entry) \<Rightarrow> (nat \<rightharpoonup> neighbor_2_entry) \<Rightarrow> bool" where
  "links_but m N T \<longleftrightarrow>
     (\<forall>n e. N n = Some e \<longrightarrow> distinct (twos_of e) \<and> (\<forall>j \<in> set (twos_of e). \<exists>t. T j = Some t \<and> n \<in> set (nbrs_of t))) \<and>
     (\<forall>j t. T j = Some t \<longrightarrow> distinct (nbrs_of t) \<and> (j \<noteq> m \<longrightarrow> nbrs_of t \<noteq> []) \<and> n2_pointer t = of_nat (length (nbrs_of t)) \<and>
        (\<forall>n \<in> set (nbrs_of t). \<exists>e. N n = Some e \<and> j \<in> set (twos_of e)))"

lemma links_but_ok: "links_ok N T \<Longrightarrow> links_but m N T"
  by (simp add: links_ok_def links_but_def)

lemma links_linked:
  assumes l: "links_but m N T" and n: "N n = Some e" and t: "T m = Some t" and new: "m \<notin> set (twos_of e)"
  shows "links_ok (N(n \<mapsto> linked_nbr m e)) (T(m \<mapsto> linked_two n t))"
proof -
  have N: "distinct (twos_of f)" "j \<in> set (twos_of f) \<Longrightarrow> \<exists>t. T j = Some t \<and> k \<in> set (nbrs_of t)" if "N k = Some f" for k f j
    using l that unfolding links_but_def by blast+
  have T: "distinct (nbrs_of u)" "j \<noteq> m \<Longrightarrow> nbrs_of u \<noteq> []" "n2_pointer u = of_nat (length (nbrs_of u))"
    "k \<in> set (nbrs_of u) \<Longrightarrow> \<exists>e. N k = Some e \<and> j \<in> set (twos_of e)" if "T j = Some u" for j u k
    using l that unfolding links_but_def by blast+
  have fresh: "n \<notin> set (nbrs_of t)" using T(4) [OF t, of n] n new by auto
  show ?thesis
    unfolding links_ok_def
  proof (intro conjI allI impI)
    fix k f
    assume f: "(N(n \<mapsto> linked_nbr m e)) k = Some f"
    show "distinct (twos_of f)" using f N(1) new n by (auto split: if_splits)
    show "\<forall>j \<in> set (twos_of f). \<exists>u. (T(m \<mapsto> linked_two n t)) j = Some u \<and> k \<in> set (nbrs_of u)"
    proof
      fix j
      assume j: "j \<in> set (twos_of f)"
      show "\<exists>u. (T(m \<mapsto> linked_two n t)) j = Some u \<and> k \<in> set (nbrs_of u)"
      proof (cases "k = n \<and> j = m")
        case False
        then obtain g where "N k = Some g" "j \<in> set (twos_of g)" using f j n by (auto split: if_splits)
        then obtain u where "T j = Some u" "k \<in> set (nbrs_of u)" using N(2) by blast
        then show ?thesis using t by auto
      qed simp
    qed
  next
    fix j u
    assume u: "(T(m \<mapsto> linked_two n t)) j = Some u"
    then show "distinct (nbrs_of u)" using T(1) t fresh by (auto split: if_splits)
    show "nbrs_of u \<noteq> []" using u T(2) by (auto split: if_splits)
    show "n2_pointer u = of_nat (length (nbrs_of u))" using u T(3) t by (auto split: if_splits)
    show "\<forall>k \<in> set (nbrs_of u). \<exists>f. (N(n \<mapsto> linked_nbr m e)) k = Some f \<and> j \<in> set (twos_of f)"
    proof
      fix k
      assume k: "k \<in> set (nbrs_of u)"
      show "\<exists>f. (N(n \<mapsto> linked_nbr m e)) k = Some f \<and> j \<in> set (twos_of f)"
      proof (cases "k = n \<and> j = m")
        case False
        then obtain v where "T j = Some v" "k \<in> set (nbrs_of v)" using u k t by (auto split: if_splits)
        then obtain g where "N k = Some g" "j \<in> set (twos_of g)" using T(4) by blast
        then show ?thesis using n by auto
      qed simp
    qed
  qed
qed

lemma linking_ok:
  assumes tabs: "table_ok nb_addr (nh_nbr s) (nh_nbr_tab s) (nh_fresh s)" "table_ok n2_addr (nh_two s) (nh_two_tab s) (nh_fresh s)"
    and l: "links_but m (nh_nbr s) (nh_two s)" and card: "finite (dom (nh_nbr s))" "card (dom (nh_nbr s)) < max_nbrs"
    and n: "nh_nbr s n = Some e" and t: "nh_two s m = Some t" and new: "m \<notin> set (twos_of e)"
  shows "\<exists>s'. linking_this_2_entries n m s = Some s' \<and> nbr_ok s' \<and> nbr_addrs s' = nbr_addrs s \<and>
    hop_links s' = insert (nb_addr e, n2_addr t) (hop_links s) \<and>
    nh_nbr s' = (nh_nbr s)(n \<mapsto> linked_nbr m e)"
proof -
  let ?s = "s\<lparr>nh_nbr := (nh_nbr s)(n \<mapsto> linked_nbr m e), nh_two := (nh_two s)(m \<mapsto> linked_two n t)\<rparr>"
  have "table_ok nb_addr (nh_nbr ?s) (nh_nbr_tab s) (nh_fresh s)" "table_ok n2_addr (nh_two ?s) (nh_two_tab s) (nh_fresh s)"
    using table_upd [OF tabs(1) n, of "linked_nbr m e"] table_upd [OF tabs(2) t, of "linked_two n t"] by simp_all
  moreover have "dom (nh_nbr ?s) = dom (nh_nbr s)" using n by auto
  ultimately have "nbr_ok ?s" using links_linked [OF l n t new] card by (simp add: nbr_ok_def)
  moreover have "hop_links ?s = insert (nb_addr e, n2_addr t) (hop_links s)"
  proof (intro set_eqI iffI)
    fix p
    assume "p \<in> hop_links ?s"
    then obtain k f j u where p: "p = (nb_addr f, n2_addr u)" "nh_nbr ?s k = Some f" "j \<in> set (twos_of f)" "nh_two ?s j = Some u"
      by (auto simp: hop_links_def)
    show "p \<in> insert (nb_addr e, n2_addr t) (hop_links s)"
    proof (cases "k = n \<and> j = m")
      case True
      then have "f = linked_nbr m e" "u = linked_two n t" using p(2,4) by auto
      then show ?thesis using p(1) by simp
    next
      case False
      obtain g where g: "nh_nbr s k = Some g" "nb_addr g = nb_addr f" "j \<in> set (twos_of g)"
        using p(2,3) n False by (auto split: if_splits)
      obtain v where v: "nh_two s j = Some v" "n2_addr v = n2_addr u" using p(4) t by (auto split: if_splits)
      show ?thesis using hop_linksI [OF g(1,3) v(1)] g(2) v(2) p(1) by simp
    qed
  next
    fix p
    assume p: "p \<in> insert (nb_addr e, n2_addr t) (hop_links s)"
    have lk: "nh_nbr ?s n = Some (linked_nbr m e)" "nh_two ?s m = Some (linked_two n t)" by simp_all
    show "p \<in> hop_links ?s"
    proof (cases "p = (nb_addr e, n2_addr t)")
      case True
      then show ?thesis using hop_linksI [OF lk(1) _ lk(2)] by simp
    next
      case False
      then obtain k f j u where f: "p = (nb_addr f, n2_addr u)" "nh_nbr s k = Some f" "j \<in> set (twos_of f)" "nh_two s j = Some u"
        using p by (auto simp: hop_links_def)
      obtain g where g: "nh_nbr ?s k = Some g" "nb_addr g = nb_addr f" "j \<in> set (twos_of g)"
        using f(2,3) n by (cases "k = n") auto
      obtain v where v: "nh_two ?s j = Some v" "n2_addr v = n2_addr u" using f(4) t by (cases "j = m") auto
      show ?thesis using hop_linksI [OF g(1,3) v(1)] g(2) v(2) f(1) by simp
    qed
  qed
  moreover have "(a \<in> nbr_addrs ?s) = (a \<in> nbr_addrs s)" for a
    unfolding nbr_addrs_iff using n by (auto split: if_splits) (metis option.inject)
  then have "nbr_addrs ?s = nbr_addrs s" by blast
  ultimately show ?thesis using linking_eq [OF n t] by (intro exI [of _ ?s]) simp
qed

section \<open>One neighbour of a message\<close>

text \<open>Aliases and main addresses do not mix.\<close>

definition mid_ok :: "mid_set \<Rightarrow> bool" where
  "mid_ok M \<longleftrightarrow> (\<forall>a p. a \<in> set (mid_lookup_aliases M p) \<longrightarrow> mid_lookup_main_addr M a = Some p) \<and>
     (\<forall>a p. mid_lookup_main_addr M a = Some p \<longrightarrow> mid_lookup_main_addr M p = None)"

lemma mid_ok_Nil: "mid_ok []"
  by (simp add: mid_ok_def mid_lookup_aliases_def mid_lookup_main_addr_def)

lemma main_addr_fixed:
  assumes "mid_ok M" "olsr_main_addr M a \<in> set (mid_lookup_aliases M p)" shows False
proof (cases "mid_lookup_main_addr M a")
  case None
  then show ?thesis using assms by (simp add: olsr_main_addr_def mid_ok_def)
next
  case (Some q)
  then have "mid_lookup_main_addr M q = None" using assms(1) unfolding mid_ok_def by blast
  moreover have "q \<in> set (mid_lookup_aliases M p)" using assms(2) Some by (simp add: olsr_main_addr_def)
  ultimately show ?thesis using assms(1) unfolding mid_ok_def by (metis option.distinct(1))
qed

lemma new_two_eq:
  assumes ok: "nbr_ok s" and new: "\<forall>m t. nh_two s m = Some t \<longrightarrow> n2_addr t \<noteq> a"
  shows "\<exists>s' t. new_two a s = Some (nh_fresh s, s') \<and> nh_nbr s' = nh_nbr s \<and> nh_two s' = (nh_two s)(nh_fresh s \<mapsto> t) \<and>
    n2_addr t = a \<and> nbrs_of t = [] \<and> n2_pointer t = 0 \<and>
    table_ok nb_addr (nh_nbr s') (nh_nbr_tab s') (nh_fresh s') \<and> table_ok n2_addr (nh_two s') (nh_two_tab s') (nh_fresh s') \<and>
    links_but (nh_fresh s) (nh_nbr s') (nh_two s') \<and> hop_links s' = hop_links s \<and> nbr_addrs s' = nbr_addrs s"
proof -
  let ?m = "nh_fresh s" and ?h = "hash_row a"
  define t where "t = \<lparr>n2_addr = a, n2_covered = 0, n2_processed = False, n2_pointer = 0, n2_nblist = []\<rparr>"
  define s' where "s' = s\<lparr>nh_two := (nh_two s)(?m \<mapsto> t), nh_fresh := ?m + 1, nh_two_tab := (nh_two_tab s)[?h := ?m # nh_two_tab s ! ?h]\<rparr>"
  have t: "n2_addr t = a" "nbrs_of t = []" "n2_pointer t = 0" by (simp_all add: t_def nbrs_of_def)
  have run: "new_two a s = Some (?m, s')"
    using table_okD(1) [OF nbr_okD(2) [OF ok]]
    by (simp add: new_two_def Let_def t_def s'_def olsr_insert_two_hop_neighbor_table_def)
  have fresh: "nh_two s ?m = None" using table_okD(4) [OF nbr_okD(2) [OF ok], of ?m] by (cases "nh_two s ?m") auto
  note l = nbr_okD(3) [OF ok]
  have but: "links_but ?m (nh_nbr s) ((nh_two s)(?m \<mapsto> t))"
    unfolding links_but_def
  proof (intro conjI allI impI)
    fix n e
    assume n: "nh_nbr s n = Some e"
    show "\<forall>j \<in> set (twos_of e). \<exists>u. ((nh_two s)(?m \<mapsto> t)) j = Some u \<and> n \<in> set (nbrs_of u)"
      using links_okD(2) [OF l n] fresh by (metis fun_upd_apply option.distinct(1))
  qed (use links_okD [OF l] t in \<open>auto split: if_splits\<close>)
  have "(x, y) \<in> hop_links s' \<longleftrightarrow> (x, y) \<in> hop_links s" for x y
  proof
    assume "(x, y) \<in> hop_links s'"
    then obtain n e m u where p: "nh_nbr s n = Some e" "nb_addr e = x" "m \<in> set (twos_of e)" "nh_two s' m = Some u" "n2_addr u = y"
      unfolding hop_links_iff by (auto simp: s'_def)
    then have "m \<noteq> ?m" using links_okD(2) [OF l p(1,3)] fresh by auto
    then have "nh_two s m = Some u" using p(4) by (simp add: s'_def)
    from hop_linksI [OF p(1,3) this] p(2,5) show "(x, y) \<in> hop_links s" by simp
  next
    assume "(x, y) \<in> hop_links s"
    then obtain n e m u where p: "nh_nbr s n = Some e" "nb_addr e = x" "m \<in> set (twos_of e)" "nh_two s m = Some u" "n2_addr u = y"
      unfolding hop_links_iff by blast
    then have "nh_nbr s' n = Some e" "nh_two s' m = Some u" using fresh by (auto simp: s'_def)
    from hop_linksI [OF this(1) p(3) this(2)] p(2,5) show "(x, y) \<in> hop_links s'" by simp
  qed
  then have "hop_links s' = hop_links s" by auto
  moreover have "table_ok n2_addr (nh_two s') (nh_two_tab s') (nh_fresh s')"
    using table_insert [OF nbr_okD(2) [OF ok], of t] new t(1) by (simp add: s'_def)
  moreover have "table_ok nb_addr (nh_nbr s') (nh_nbr_tab s') (nh_fresh s')"
    using table_mono [OF nbr_okD(1) [OF ok], of "Suc ?m"] by (simp add: s'_def)
  ultimately show ?thesis using run t but by (intro exI [of _ s'] exI [of _ t]) (simp add: s'_def nbr_addrs_def)
qed

definition hello_adds :: "(ip_addr \<Rightarrow> bool) \<Rightarrow> mid_set \<Rightarrow> hello_neighbor list \<Rightarrow> ip_addr set" where
  "hello_adds own M hs = {olsr_main_addr M (hn_addr h) | h. h \<in> set hs \<and> \<not> own (hn_addr h) \<and> hello_sym h}"

lemma set_link_timer_ok:
  assumes ok: "nbr_ok s" and n: "nh_nbr s n = Some e"
  shows "\<exists>s' e'. set_link_timer n m v s = Some s' \<and> nbr_ok s' \<and> nbr_addrs s' = nbr_addrs s \<and> hop_links s' = hop_links s \<and>
    nh_nbr s' n = Some e' \<and> nb_addr e' = nb_addr e \<and> nh_two s' = nh_two s"
proof -
  let ?f = "\<lambda>e. e\<lparr>nb_2_list := map (\<lambda>l. if l2_two l = m then l\<lparr>l2_timer := Some v\<rparr> else l) (nb_2_list e)\<rparr>"
  have "twos_of (?f e) = twos_of e" by (simp add: twos_of_def)
  then show ?thesis using upd_nbr_ok [OF ok n, of ?f] by (auto simp: set_link_timer_def)
qed

lemma map_links_ok:
  assumes ok: "nbr_ok s" and m: "nh_two s m = Some t" and f: "\<And>l. nl_nbr (f l) = nl_nbr l"
  shows "\<exists>s'. map_links n f m s = Some s' \<and> nbr_ok s' \<and> nbr_addrs s' = nbr_addrs s \<and> hop_links s' = hop_links s \<and> nh_nbr s' = nh_nbr s"
proof -
  let ?f = "\<lambda>t. t\<lparr>n2_nblist := map (\<lambda>l. if nl_nbr l = n then f l else l) (n2_nblist t)\<rparr>"
  have "nbrs_of (?f t) = nbrs_of t" using f by (simp add: nbrs_of_def)
  then show ?thesis using upd_two_ok [OF ok m, of ?f] by (auto simp: map_links_def)
qed

lemma process_hello_neighbor_ok:
  assumes ok: "nbr_ok s" and n: "nh_nbr s n = Some e" and mid: "mid_ok M"
  shows "\<exists>s' e'. process_hello_neighbor cf own M n vtime h s = Some s' \<and> nbr_ok s' \<and> nbr_addrs s' = nbr_addrs s \<and>
    nh_nbr s' n = Some e' \<and> nb_addr e' = nb_addr e \<and>
    hop_links s' = hop_links s \<union> {nb_addr e} \<times> hello_adds own M [h]"
proof (cases "own (hn_addr h) \<or> \<not> hello_sym h")
  case True
  then show ?thesis using ok n by (auto simp: process_hello_neighbor_def hello_adds_def)
next
  case False
  let ?a = "olsr_main_addr M (hn_addr h)"
  have adds: "{nb_addr e} \<times> hello_adds own M [h] = {(nb_addr e, ?a)}" using False by (auto simp: hello_adds_def)
  show ?thesis
  proof (cases rule: my_neighbors_cases [OF ok n, of ?a])
    case (1 m t)
    obtain s1 e1 where s1: "set_link_timer n m vtime s = Some s1" "nbr_ok s1" "nbr_addrs s1 = nbr_addrs s" "hop_links s1 = hop_links s"
      "nh_nbr s1 n = Some e1" "nb_addr e1 = nb_addr e" "nh_two s1 = nh_two s" using set_link_timer_ok [OF ok n] by blast
    have "(nb_addr e, ?a) \<in> hop_links s" using hop_linksI [OF n 1(2,3)] 1(4) by simp
    then have same: "hop_links s \<union> {nb_addr e} \<times> hello_adds own M [h] = hop_links s" unfolding adds by blast
    have m1: "nh_two s1 m = Some t" using s1(7) 1(3) by simp
    obtain s2 where s2: "map_links n (nl_path_update (\<lambda>_. link_cost_broken)) m s1 = Some s2" "nbr_ok s2" "nbr_addrs s2 = nbr_addrs s1"
      "hop_links s2 = hop_links s1" "nh_nbr s2 = nh_nbr s1"
      using map_links_ok [OF s1(2) m1, where n = n and f = "nl_path_update (\<lambda>_. link_cost_broken)"] by auto
    show ?thesis
    proof (cases "cf_lq_level cf > 0")
      case True
      then have "process_hello_neighbor cf own M n vtime h s = Some s2" using False 1(1) s1(1) s2(1) by (simp add: process_hello_neighbor_def)
      then show ?thesis using s1 s2 same by (intro exI [of _ s2] exI [of _ e1]) simp
    next
      case lq: False
      then have "process_hello_neighbor cf own M n vtime h s = Some s1" using False 1(1) s1(1) by (simp add: process_hello_neighbor_def)
      then show ?thesis using s1 same by (intro exI [of _ s1] exI [of _ e1]) simp
    qed
  next
    case absent: 2
    let ?s = "note_changes s"
    show ?thesis
    proof (cases rule: lookup_two_cases [OF ok, of M ?a])
      case (1 m t)
      then have "n2_addr t = ?a" using main_addr_fixed [OF mid] by blast
      then have "m \<notin> set (twos_of e)" using absent(2) 1(2) by blast
      moreover have "nbr_ok ?s" using ok by simp
      ultimately obtain s' where s': "linking_this_2_entries n m ?s = Some s'" "nbr_ok s'" "nbr_addrs s' = nbr_addrs s"
        "hop_links s' = insert (nb_addr e, n2_addr t) (hop_links s)" "nh_nbr s' = (nh_nbr s)(n \<mapsto> linked_nbr m e)"
        using linking_ok [of ?s m n e t] nbr_okD [of ?s] links_but_ok n 1(2) by auto
      have "process_hello_neighbor cf own M n vtime h s = Some s'"
        using False absent(1) 1(1) s'(1) by (simp add: process_hello_neighbor_def)
      then show ?thesis using s' \<open>n2_addr t = ?a\<close> adds by (intro exI [of _ s'] exI [of _ "linked_nbr m e"]) auto
    next
      case 2
      have "nbr_ok ?s" "\<forall>m t. nh_two ?s m = Some t \<longrightarrow> n2_addr t \<noteq> ?a" using ok 2(2) by simp_all
      from new_two_eq [OF this] obtain s1 t where s1: "new_two ?a ?s = Some (nh_fresh s, s1)" "nh_nbr s1 = nh_nbr s"
        "nh_two s1 = (nh_two s)(nh_fresh s \<mapsto> t)" "n2_addr t = ?a" "table_ok nb_addr (nh_nbr s1) (nh_nbr_tab s1) (nh_fresh s1)"
        "table_ok n2_addr (nh_two s1) (nh_two_tab s1) (nh_fresh s1)" "links_but (nh_fresh s) (nh_nbr s1) (nh_two s1)"
        "hop_links s1 = hop_links s" "nbr_addrs s1 = nbr_addrs s" by auto
      have "nh_fresh s \<notin> set (twos_of e)"
        using links_okD(2) [OF nbr_okD(3) [OF ok] n] table_okD(4) [OF nbr_okD(2) [OF ok]] by blast
      moreover have "finite (dom (nh_nbr s1))" "card (dom (nh_nbr s1)) < max_nbrs" "nh_nbr s1 n = Some e" "nh_two s1 (nh_fresh s) = Some t"
        using nbr_okD(4,5) [OF ok] s1(2,3) n by simp_all
      ultimately obtain s' where s': "linking_this_2_entries n (nh_fresh s) s1 = Some s'" "nbr_ok s'" "nbr_addrs s' = nbr_addrs s1"
        "hop_links s' = insert (nb_addr e, n2_addr t) (hop_links s1)" "nh_nbr s' = (nh_nbr s1)(n \<mapsto> linked_nbr (nh_fresh s) e)"
        using linking_ok [OF s1(5,6,7)] by blast
      have "process_hello_neighbor cf own M n vtime h s = Some s'"
        using False absent(1) 2(1) s1(1) s'(1) by (simp add: process_hello_neighbor_def)
      then show ?thesis using s' s1 adds by (intro exI [of _ s'] exI [of _ "linked_nbr (nh_fresh s) e"]) auto
    qed
  qed
qed

section \<open>A whole message\<close>

lemma hello_adds_Cons: "hello_adds own M (h # hs) = hello_adds own M [h] \<union> hello_adds own M hs"
  by (auto simp: hello_adds_def)

lemma first_pass_ok:
  assumes "nbr_ok s" "nh_nbr s n = Some e" "mid_ok M"
  shows "\<exists>s' e'. iter hs (process_hello_neighbor cf own M n vtime) s = Some s' \<and> nbr_ok s' \<and> nbr_addrs s' = nbr_addrs s \<and>
    nh_nbr s' n = Some e' \<and> nb_addr e' = nb_addr e \<and> hop_links s' = hop_links s \<union> {nb_addr e} \<times> hello_adds own M hs"
  using assms(1,2)
proof (induction hs arbitrary: s e)
  case Nil
  then show ?case by (auto simp: hello_adds_def)
next
  case (Cons h hs)
  obtain s1 e1 where s1: "process_hello_neighbor cf own M n vtime h s = Some s1" "nbr_ok s1" "nbr_addrs s1 = nbr_addrs s"
    "nh_nbr s1 n = Some e1" "nb_addr e1 = nb_addr e" "hop_links s1 = hop_links s \<union> {nb_addr e} \<times> hello_adds own M [h]"
    using process_hello_neighbor_ok [OF Cons.prems assms(3)] by blast
  obtain s2 e2 where s2: "iter hs (process_hello_neighbor cf own M n vtime) s1 = Some s2" "nbr_ok s2" "nbr_addrs s2 = nbr_addrs s1"
    "nh_nbr s2 n = Some e2" "nb_addr e2 = nb_addr e1" "hop_links s2 = hop_links s1 \<union> {nb_addr e1} \<times> hello_adds own M hs"
    using Cons.IH [OF s1(2,4)] by blast
  have "hop_links s2 = hop_links s \<union> {nb_addr e} \<times> hello_adds own M (h # hs)"
    unfolding s2(6) s1(5,6) hello_adds_Cons [of own M h hs] by blast
  then show ?case using s1(1,3,5) s2(1-5) by (intro exI [of _ s2] exI [of _ e2]) simp
qed

lemma cost_pass_ok:
  assumes "nbr_ok s" "nh_nbr s n = Some e"
  shows "\<exists>s'. process_hello_cost cf own relevant n first_hop h s = Some s' \<and> nbr_ok s' \<and> nbr_addrs s' = nbr_addrs s \<and>
    nh_nbr s' = nh_nbr s \<and> hop_links s' = hop_links s"
proof (cases "own (hn_addr h) \<or> \<not> hello_sym h")
  case True
  then show ?thesis using assms(1) by (simp add: process_hello_cost_def)
next
  case False
  show ?thesis
  proof (cases rule: my_neighbors_cases [OF assms, of "hn_addr h"])
    case (1 m t)
    have "nl_nbr (update_path relevant first_hop (hn_cost h) l) = nl_nbr l" for l by (simp add: update_path_def Let_def)
    from map_links_ok [OF assms(1) 1(3) this, of n]
    obtain s1 where s1: "map_links n (update_path relevant first_hop (hn_cost h)) m s = Some s1" "nbr_ok s1" "nbr_addrs s1 = nbr_addrs s"
      "hop_links s1 = hop_links s" "nh_nbr s1 = nh_nbr s" by blast
    then show ?thesis using False 1(1,3) by (auto simp: process_hello_cost_def Let_def)
  next
    case 2
    then show ?thesis using False assms(1) by (simp add: process_hello_cost_def)
  qed
qed

lemma cost_passes_ok:
  assumes "nbr_ok s" "nh_nbr s n = Some e"
  shows "\<exists>s'. iter hs (process_hello_cost cf own relevant n first_hop) s = Some s' \<and> nbr_ok s' \<and> nbr_addrs s' = nbr_addrs s \<and>
    nh_nbr s' = nh_nbr s \<and> hop_links s' = hop_links s"
  using assms
proof (induction hs arbitrary: s)
  case Nil
  then show ?case by simp
next
  case (Cons h hs)
  obtain s1 where s1: "process_hello_cost cf own relevant n first_hop h s = Some s1" "nbr_ok s1" "nbr_addrs s1 = nbr_addrs s"
    "nh_nbr s1 = nh_nbr s" "hop_links s1 = hop_links s" using cost_pass_ok [OF Cons.prems] by blast
  then show ?case using Cons.IH [of s1] Cons.prems(2) by auto
qed

lemma process_message_ok:
  assumes ok: "nbr_ok s" and n: "nh_nbr s n = Some e" and mid: "mid_ok M"
  shows "\<exists>s' e'. process_message_neighbors cf own M best_link relevant n vtime hs s = Some s' \<and> nbr_ok s' \<and>
    nbr_addrs s' = nbr_addrs s \<and> nh_nbr s' n = Some e' \<and> nb_addr e' = nb_addr e \<and>
    hop_links s' = hop_links s \<union> {nb_addr e} \<times> hello_adds own M hs"
proof -
  obtain s1 e1 where s1: "iter hs (process_hello_neighbor cf own M n vtime) s = Some s1" "nbr_ok s1" "nbr_addrs s1 = nbr_addrs s"
    "nh_nbr s1 n = Some e1" "nb_addr e1 = nb_addr e" "hop_links s1 = hop_links s \<union> {nb_addr e} \<times> hello_adds own M hs"
    using first_pass_ok [OF assms] by blast
  show ?thesis
  proof (cases "cf_lq_level cf > 0 \<and> best_link (nb_addr e1) \<noteq> None")
    case False
    then have "process_message_neighbors cf own M best_link relevant n vtime hs s = Some s1"
      using s1(1,4) by (auto simp: process_message_neighbors_def)
    then show ?thesis using s1 by (intro exI [of _ s1] exI [of _ e1]) simp
  next
    case True
    then obtain c where c: "best_link (nb_addr e1) = Some c" by auto
    obtain s2 where s2: "iter (map (with_main_addr own M) hs) (process_hello_cost cf own relevant n c) s1 = Some s2" "nbr_ok s2"
      "nbr_addrs s2 = nbr_addrs s1" "nh_nbr s2 = nh_nbr s1" "hop_links s2 = hop_links s1"
      using cost_passes_ok [OF s1(2,4)] by blast
    have "process_message_neighbors cf own M best_link relevant n vtime hs s = Some s2"
      using True s1(1,4) c s2(1) by (simp add: process_message_neighbors_def)
    then show ?thesis using s1 s2 by (intro exI [of _ s2] exI [of _ e1]) simp
  qed
qed

lemma hello_tap_ok:
  assumes ok: "nbr_ok s" and n: "nh_nbr s n = Some e" and mid: "mid_ok M"
  shows "\<exists>s'. hello_tap_neighbor cf own M best_link relevant n will vtime hs s = Some s' \<and> nbr_ok s' \<and>
    nbr_addrs s' = nbr_addrs s \<and> (\<exists>e'. nh_nbr s' n = Some e' \<and> nb_addr e' = nb_addr e) \<and>
    hop_links s' = hop_links s \<union> (if will = will_never then {} else {nb_addr e} \<times> hello_adds own M hs)"
proof -
  have "nbr_ok (note_changes s)" using ok by simp
  then obtain s1 where s1: "upd_nbr n (nb_will_update (\<lambda>_. will)) (note_changes s) = Some s1" "nbr_ok s1" "nbr_addrs s1 = nbr_addrs s"
    "hop_links s1 = hop_links s" "nh_nbr s1 = (nh_nbr s)(n \<mapsto> e\<lparr>nb_will := will\<rparr>)"
    using upd_nbr_ok [of "note_changes s" n e "nb_will_update (\<lambda>_. will)"] n by (auto simp: twos_of_def)
  define t where "t = (if nb_will e \<noteq> will then s1 else s)"
  have t: "nbr_ok t" "nbr_addrs t = nbr_addrs s" "hop_links t = hop_links s" "nh_nbr t n = Some (e\<lparr>nb_will := will\<rparr>)"
    using ok s1 n by (auto simp: t_def)
  have run: "hello_tap_neighbor cf own M best_link relevant n will vtime hs s =
      (if will \<noteq> will_never then process_message_neighbors cf own M best_link relevant n vtime hs t else Some t)"
    using n s1(1) by (auto simp: hello_tap_neighbor_def t_def)
  show ?thesis
  proof (cases "will = will_never")
    case True
    then show ?thesis using run t by simp
  next
    case False
    obtain s' e' where "process_message_neighbors cf own M best_link relevant n vtime hs t = Some s'" "nbr_ok s'"
      "nbr_addrs s' = nbr_addrs t" "nh_nbr s' n = Some e'" "nb_addr e' = nb_addr e"
      "hop_links s' = hop_links t \<union> {nb_addr e} \<times> hello_adds own M hs"
      using process_message_ok [OF t(1,4) mid, where cf = cf and own = own and best_link = best_link and relevant = relevant and vtime = vtime and hs = hs]
      by auto
    then show ?thesis using run t False by auto
  qed
qed

section \<open>The status of a neighbour\<close>

lemma update_status_ok:
  assumes ok: "nbr_ok s" and n: "nh_nbr s n = Some e"
  shows "\<exists>s'. update_neighbor_status cf M n sym_link s = Some s' \<and> nbr_ok s' \<and> nbr_addrs s' = nbr_addrs s \<and>
    hop_links s' \<subseteq> hop_links s"
proof (cases "sym_link \<and> nb_status e = NOT_SYM")
  case True
  show ?thesis
  proof (cases rule: lookup_two_cases [OF ok, of M "nb_addr e"])
    case (1 m t)
    obtain s1 where s1: "olsr_delete_two_hop_neighbor_table m s = Some s1" "nbr_ok s1" "nbr_addrs s1 = nbr_addrs s"
      "hop_links s1 = {p \<in> hop_links s. snd p \<noteq> n2_addr t}" "nh_nbr s1 = (\<lambda>n. map_option (cut_nbr m) (nh_nbr s n))"
      using delete_two_hop_ok [OF ok 1(2)] by blast
    let ?s2 = "(note_changes s1)\<lparr>nh_signal := nh_signal s1 \<or> cf_tc_redundancy cf > 1\<rparr>"
    have "nbr_ok ?s2" "nh_nbr ?s2 n = Some (cut_nbr m e)" using s1(2,5) n by simp_all
    then obtain s3 where "upd_nbr n (nb_status_update (\<lambda>_. SYM)) ?s2 = Some s3" "nbr_ok s3" "nbr_addrs s3 = nbr_addrs ?s2" "hop_links s3 = hop_links ?s2"
      using upd_nbr_ok [of ?s2 n "cut_nbr m e" "nb_status_update (\<lambda>_. SYM)"] by (auto simp: twos_of_def)
    then show ?thesis using True n 1(1) s1(1,3,4) by (auto simp: update_neighbor_status_def)
  next
    case 2
    let ?s2 = "(note_changes s)\<lparr>nh_signal := nh_signal s \<or> cf_tc_redundancy cf > 1\<rparr>"
    have "nbr_ok ?s2" "nh_nbr ?s2 n = Some e" using ok n by simp_all
    then obtain s3 where "upd_nbr n (nb_status_update (\<lambda>_. SYM)) ?s2 = Some s3" "nbr_ok s3" "nbr_addrs s3 = nbr_addrs ?s2" "hop_links s3 = hop_links ?s2"
      using upd_nbr_ok [of ?s2 n e "nb_status_update (\<lambda>_. SYM)"] by (auto simp: twos_of_def)
    then show ?thesis using True n 2(1) by (auto simp: update_neighbor_status_def)
  qed
next
  case False
  let ?v = "if sym_link then SYM else NOT_SYM"
  define t where "t = (if \<not> sym_link \<and> nb_status e = SYM then (note_changes s)\<lparr>nh_signal := nh_signal s \<or> cf_tc_redundancy cf > 1\<rparr> else s)"
  have t: "nbr_ok t" "nh_nbr t n = Some e" "nbr_addrs t = nbr_addrs s" "hop_links t = hop_links s" using ok n by (simp_all add: t_def)
  obtain s3 where "upd_nbr n (nb_status_update (\<lambda>_. ?v)) t = Some s3" "nbr_ok s3" "nbr_addrs s3 = nbr_addrs t" "hop_links s3 = hop_links t"
    using upd_nbr_ok [OF t(1,2), of "nb_status_update (\<lambda>_. ?v)"] by (auto simp: twos_of_def)
  then show ?thesis using False n t(3,4) by (auto simp: update_neighbor_status_def t_def split: if_splits)
qed

end
