(* ===== verification/Mpr.thy ===== *)
theory Mpr imports Nbr_Inv begin

text \<open>
  The selection of multipoint relays after RFC 3626 (\<open>mpr.c\<close>). The counters are 16-bit words, the coverage of a two-hop
  neighbour is a byte; \<open>M\<close> is the alias set, \<open>cov\<close> the option \<open>mpr_coverage\<close>.
\<close>

section \<open>The tables in the order of a pass\<close>

definition all_nbrs :: "nbrhood \<Rightarrow> nat list" where
  "all_nbrs s = concat (nh_nbr_tab s)"

definition all_twos :: "nbrhood \<Rightarrow> nat list" where
  "all_twos s = concat (nh_two_tab s)"

text \<open>The status of the neighbour that a two-hop neighbour also is, if it is one.\<close>

definition one_hop_status :: "mid_set \<Rightarrow> neighbor_2_entry \<Rightarrow> nbrhood \<Rightarrow> nbr_status option option" where
  "one_hop_status M t s = do {
     dup \<leftarrow> olsr_lookup_neighbor_table M (n2_addr t) s;
     case dup of None \<Rightarrow> Some None | Some d \<Rightarrow> do { e \<leftarrow> nh_nbr s d; Some (Some (nb_status e)) } }"

section \<open>Resetting\<close>

definition clear_covered :: "nat \<Rightarrow> nbrhood \<Rightarrow> nbrhood option" where
  "clear_covered m = upd_two m (n2_covered_update (\<lambda>_. 0))"

definition olsr_clear_mprs :: "nbrhood \<Rightarrow> nbrhood option" where
  "olsr_clear_mprs s = iter (all_nbrs s) (\<lambda>n s. do {
     s \<leftarrow> upd_nbr n (\<lambda>e. if nb_is_mpr e then e\<lparr>nb_was_mpr := True, nb_is_mpr := False\<rparr> else e) s;
     e \<leftarrow> nh_nbr s n;
     iter (nb_2_list e) (\<lambda>l. clear_covered (l2_two l)) s }) s"

definition olsr_check_mpr_changes :: "nbrhood \<Rightarrow> (bool \<times> nbrhood) option" where
  "olsr_check_mpr_changes s = iter (all_nbrs s) (\<lambda>n (changed, s). do {
     e \<leftarrow> nh_nbr s n;
     if nb_was_mpr e
     then do { s \<leftarrow> upd_nbr n (nb_was_mpr_update (\<lambda>_. False)) s; Some (changed \<or> \<not> nb_is_mpr e, s) }
     else Some (changed, s) }) (False, s)"

definition olsr_clear_two_hop_processed :: "nbrhood \<Rightarrow> nbrhood option" where
  "olsr_clear_two_hop_processed s = iter (all_twos s) (\<lambda>m. upd_two m (n2_processed_update (\<lambda>_. False))) s"

section \<open>Counting the two-hop neighbours\<close>

text \<open>The counters \<open>count\<close> and \<open>n_count\<close> run on from neighbour to neighbour.\<close>

definition count_two :: "mid_set \<Rightarrow> nat \<Rightarrow> u16 \<times> u16 \<times> nbrhood \<Rightarrow> (u16 \<times> u16 \<times> nbrhood) option" where
  "count_two M m = (\<lambda>(count, n_count, s). do {
     t \<leftarrow> nh_two s m;
     st \<leftarrow> one_hop_status M t s;
     if st = Some SYM then Some (count, n_count, s)
     else if n2_processed t then Some (count, n_count + 1, s)
     else do { s \<leftarrow> upd_two m (n2_processed_update (\<lambda>_. True)) s; Some (count + 1, n_count + 1, s) } })"

definition olsr_calculate_two_hop_neighbors :: "mid_set \<Rightarrow> nbrhood \<Rightarrow> (u16 \<times> nbrhood) option" where
  "olsr_calculate_two_hop_neighbors M s = do {
     s \<leftarrow> olsr_clear_two_hop_processed s;
     (count, n_count, sum, s) \<leftarrow> iter (all_nbrs s) (\<lambda>n (count, n_count, sum, s). do {
       e \<leftarrow> nh_nbr s n;
       if nb_status e = NOT_SYM
       then do { s \<leftarrow> upd_nbr n (nb_nocov_update (\<lambda>_. uint count)) s; Some (count, n_count, sum, s) }
       else do {
         (count, n_count, s) \<leftarrow> iter (nb_2_list e) (\<lambda>l. count_two M (l2_two l)) (count, n_count, s);
         s \<leftarrow> upd_nbr n (nb_nocov_update (\<lambda>_. uint n_count)) s;
         Some (count, n_count, sum + count, s) } }) (0, 0, 0, s);
     Some (sum, s) }"

section \<open>Choosing a relay\<close>

definition chosen_two :: "mid_set \<Rightarrow> nat \<Rightarrow> nat \<Rightarrow> u16 \<times> nbrhood \<Rightarrow> (u16 \<times> nbrhood) option" where
  "chosen_two M cov m = (\<lambda>(count, s). do {
     t \<leftarrow> nh_two s m;
     st \<leftarrow> one_hop_status M t s;
     if st = Some SYM then Some (count, s)
     else do {
       s \<leftarrow> upd_two m (\<lambda>t. t\<lparr>n2_covered := n2_covered t + 1\<rparr>) s;
       t \<leftarrow> nh_two s m;
       let enough = cov \<le> unat (n2_covered t);
       s \<leftarrow> iter (n2_nblist t) (\<lambda>l s. do {
              e \<leftarrow> nh_nbr s (nl_nbr l);
              if nb_status e = SYM \<and> enough then upd_nbr (nl_nbr l) (\<lambda>e. e\<lparr>nb_nocov := nb_nocov e - 1\<rparr>) s else Some s }) s;
       Some (if enough then count + 1 else count, s) } })"

definition olsr_chosen_mpr :: "mid_set \<Rightarrow> nat \<Rightarrow> nat \<Rightarrow> u16 \<times> nbrhood \<Rightarrow> (u16 \<times> nbrhood) option" where
  "olsr_chosen_mpr M cov n = (\<lambda>(count, s). do {
     s \<leftarrow> upd_nbr n (nb_is_mpr_update (\<lambda>_. True)) s;
     e \<leftarrow> nh_nbr s n;
     iter (nb_2_list e) (\<lambda>l. chosen_two M cov (l2_two l)) (count, s) })"

definition add_will_always_nodes :: "mid_set \<Rightarrow> nat \<Rightarrow> nbrhood \<Rightarrow> (u16 \<times> nbrhood) option" where
  "add_will_always_nodes M cov s = iter (all_nbrs s) (\<lambda>n (count, s). do {
     e \<leftarrow> nh_nbr s n;
     if nb_status e = NOT_SYM \<or> nb_will e \<noteq> will_always then Some (count, s) else olsr_chosen_mpr M cov n (count, s) }) (0, s)"

text \<open>A two-hop neighbour with a single link, through a symmetric neighbour of the willingness.\<close>

definition one_link :: "mid_set \<Rightarrow> byte \<Rightarrow> nat \<Rightarrow> nbrhood \<Rightarrow> bool option" where
  "one_link M will m s = do {
     t \<leftarrow> nh_two s m;
     st \<leftarrow> one_hop_status M t s;
     if st = Some SYM then Some False
     else if n2_pointer t = 1
     then (case n2_nblist t of
             [] \<Rightarrow> None
           | l # _ \<Rightarrow> do { e \<leftarrow> nh_nbr s (nl_nbr l); Some (nb_will e = will \<and> nb_status e = SYM) })
     else Some False }"

definition olsr_find_2_hop_neighbors_with_1_link :: "mid_set \<Rightarrow> byte \<Rightarrow> nbrhood \<Rightarrow> nat list option" where
  "olsr_find_2_hop_neighbors_with_1_link M will s =
     iter (all_twos s) (\<lambda>m found. do { hit \<leftarrow> one_link M will m s; Some (if hit then m # found else found) }) []"

definition olsr_find_maximum_covered :: "byte \<Rightarrow> nbrhood \<Rightarrow> nat option option" where
  "olsr_find_maximum_covered will s = do {
     (maximum, candidate) \<leftarrow> iter (all_nbrs s) (\<lambda>n (maximum, candidate). do {
       e \<leftarrow> nh_nbr s n;
       Some (if \<not> nb_is_mpr e \<and> nb_will e = will \<and> uint (maximum :: u16) < nb_nocov e
             then (word_of_int (nb_nocov e), Some n) else (maximum, candidate)) }) (0, None);
     Some candidate }"

section \<open>The selection\<close>

definition choose_one_links :: "mid_set \<Rightarrow> nat \<Rightarrow> nat list \<Rightarrow> u16 \<times> nbrhood \<Rightarrow> (u16 \<times> nbrhood) option" where
  "choose_one_links M cov ms = iter ms (\<lambda>m (count, s). do {
     t \<leftarrow> nh_two s m;
     case n2_nblist t of
       [] \<Rightarrow> None
     | l # _ \<Rightarrow> do { e \<leftarrow> nh_nbr s (nl_nbr l); if nb_is_mpr e then Some (count, s) else olsr_chosen_mpr M cov (nl_nbr l) (count, s) } })"

text \<open>The inner loop; the flag of the result tells that the count was reached.\<close>

partial_function (option) choose_maximum :: "mid_set \<Rightarrow> nat \<Rightarrow> u16 \<Rightarrow> byte \<Rightarrow> u16 \<times> nbrhood \<Rightarrow> (bool \<times> u16 \<times> nbrhood) option" where
  "choose_maximum M cov wanted will cs = do {
     found \<leftarrow> olsr_find_maximum_covered will (snd cs);
     case found of
       None \<Rightarrow> Some (False, cs)
     | Some n \<Rightarrow> do {
         cs \<leftarrow> olsr_chosen_mpr M cov n cs;
         if wanted \<le> fst cs then Some (True, cs) else choose_maximum M cov wanted will cs } }"

declare choose_maximum.simps [code]

text \<open>The levels of willingness from the given one down to the lowest.\<close>

fun mpr_levels :: "mid_set \<Rightarrow> nat \<Rightarrow> u16 \<Rightarrow> nat \<Rightarrow> u16 \<times> nbrhood \<Rightarrow> (u16 \<times> nbrhood) option" where
  "mpr_levels M cov wanted 0 cs = Some cs"
| "mpr_levels M cov wanted (Suc i) cs = do {
     ms \<leftarrow> olsr_find_2_hop_neighbors_with_1_link M (of_nat (Suc i)) (snd cs);
     cs \<leftarrow> choose_one_links M cov ms cs;
     if wanted \<le> fst cs then Some cs
     else do {
       (stop, cs) \<leftarrow> choose_maximum M cov wanted (of_nat (Suc i)) cs;
       if stop then Some cs else mpr_levels M cov wanted i cs } }"

definition needed_by :: "mid_set \<Rightarrow> nat \<Rightarrow> nb2_link list \<Rightarrow> nbrhood \<Rightarrow> bool option" where
  "needed_by M cov ls s = iter ls (\<lambda>l needed. do {
     t \<leftarrow> nh_two s (l2_two l);
     st \<leftarrow> one_hop_status M t s;
     Some (needed \<or> (st \<noteq> Some SYM \<and> unat (n2_covered t) \<le> cov)) }) False"

definition olsr_optimize_mpr_set :: "mid_set \<Rightarrow> nat \<Rightarrow> nbrhood \<Rightarrow> nbrhood option" where
  "olsr_optimize_mpr_set M cov s = iter [1..<7] (\<lambda>i s. iter (all_nbrs s) (\<lambda>n s. do {
     e \<leftarrow> nh_nbr s n;
     if nb_will e = of_nat i \<and> nb_is_mpr e then do {
       needed \<leftarrow> needed_by M cov (nb_2_list e) s;
       if needed then Some s else upd_nbr n (nb_is_mpr_update (\<lambda>_. False)) s }
     else Some s }) s) s"

definition mpr_selection :: "mid_set \<Rightarrow> nat \<Rightarrow> nbrhood \<Rightarrow> nbrhood option" where
  "mpr_selection M cov s = do {
     s \<leftarrow> olsr_clear_mprs s;
     (wanted, s) \<leftarrow> olsr_calculate_two_hop_neighbors M s;
     cs \<leftarrow> add_will_always_nodes M cov s;
     (count, s) \<leftarrow> mpr_levels M cov wanted 6 cs;
     Some s }"

definition olsr_calculate_mpr :: "olsr_conf \<Rightarrow> mid_set \<Rightarrow> nbrhood \<Rightarrow> nbrhood option" where
  "olsr_calculate_mpr cf M s = do {
     s \<leftarrow> mpr_selection M (cf_mpr_coverage cf) s;
     s \<leftarrow> olsr_optimize_mpr_set M (cf_mpr_coverage cf) s;
     (changed, s) \<leftarrow> olsr_check_mpr_changes s;
     Some (if changed \<and> cf_tc_redundancy cf > 0 then s\<lparr>nh_signal := True\<rparr> else s) }"

end
