(* ===== verification/Mpr_Select.thy ===== *)
theory Mpr_Select imports Mpr Nbr_Ops begin

text \<open>
  What the selection of relays does on well-formed tables: it changes flags and counters only, it terminates, and what it
  guarantees for a two-hop neighbour that is reached through a single neighbour.
\<close>

section \<open>The part that stays\<close>

definition nbr_core :: "neighbor_entry \<Rightarrow> ip_addr \<times> nbr_status \<times> byte \<times> nb2_link list" where
  "nbr_core e = (nb_addr e, nb_status e, nb_will e, nb_2_list e)"

definition two_core :: "neighbor_2_entry \<Rightarrow> ip_addr \<times> u16 \<times> nb_link list" where
  "two_core t = (n2_addr t, n2_pointer t, n2_nblist t)"

definition same_shape :: "nbrhood \<Rightarrow> nbrhood \<Rightarrow> bool" where
  "same_shape s s' \<longleftrightarrow> nh_nbr_tab s' = nh_nbr_tab s \<and> nh_two_tab s' = nh_two_tab s \<and> nh_fresh s' = nh_fresh s \<and>
     (\<forall>n. map_option nbr_core (nh_nbr s' n) = map_option nbr_core (nh_nbr s n)) \<and>
     (\<forall>m. map_option two_core (nh_two s' m) = map_option two_core (nh_two s m))"

lemma same_shape_refl [simp]: "same_shape s s"
  by (simp add: same_shape_def)

lemma same_shape_trans: "same_shape s t \<Longrightarrow> same_shape t u \<Longrightarrow> same_shape s u"
  by (simp add: same_shape_def)

lemma same_shape_sym: "same_shape s t \<Longrightarrow> same_shape t s"
  by (simp add: same_shape_def)

lemma shape_nbr:
  assumes "same_shape s s'" "nh_nbr s n = Some e"
  obtains e' where "nh_nbr s' n = Some e'" "nb_addr e' = nb_addr e" "nb_status e' = nb_status e" "nb_will e' = nb_will e" "nb_2_list e' = nb_2_list e"
proof -
  have "map_option nbr_core (nh_nbr s' n) = Some (nbr_core e)" using assms by (simp add: same_shape_def)
  then show ?thesis using that by (auto simp: nbr_core_def)
qed

lemma shape_two:
  assumes "same_shape s s'" "nh_two s m = Some t"
  obtains t' where "nh_two s' m = Some t'" "n2_addr t' = n2_addr t" "n2_pointer t' = n2_pointer t" "n2_nblist t' = n2_nblist t"
proof -
  have "map_option two_core (nh_two s' m) = Some (two_core t)" using assms by (simp add: same_shape_def)
  then show ?thesis using that by (auto simp: two_core_def)
qed

lemma shape_all: "same_shape s s' \<Longrightarrow> all_nbrs s' = all_nbrs s" "same_shape s s' \<Longrightarrow> all_twos s' = all_twos s"
  by (simp_all add: same_shape_def all_nbrs_def all_twos_def)

lemma table_shape:
  assumes ok: "table_ok addr E tab fresh" and core: "\<And>n. map_option c (E' n) = map_option c (E n)" and addr: "\<And>e f. c e = c f \<Longrightarrow> addr e = addr f"
  shows "table_ok addr E' tab fresh"
proof -
  have fwd: "\<exists>f. E n = Some f \<and> addr f = addr e" if n: "E' n = Some e" for n e
  proof -
    have "map_option c (E n) = Some (c e)" using core [of n] n by simp
    then obtain f where f: "E n = Some f" "c f = c e" by blast
    show ?thesis using f(1) addr [OF f(2)] by blast
  qed
  have bwd: "\<exists>f. E' n = Some f \<and> addr f = addr e" if n: "E n = Some e" for n e
  proof -
    have "map_option c (E' n) = Some (c e)" using core [of n] n by simp
    then obtain f where f: "E' n = Some f" "c f = c e" by blast
    show ?thesis using f(1) addr [OF f(2)] by blast
  qed
  show ?thesis
    unfolding table_ok_def
  proof (intro conjI allI impI ballI)
    fix i n
    assume "i < hashsize" "n \<in> set (tab ! i)"
    then obtain e where "E n = Some e" "hash_row (addr e) = i" using table_okD(3) [OF ok] by blast
    then show "\<exists>e. E' n = Some e \<and> hash_row (addr e) = i" using bwd by metis
  next
    fix n e
    assume "E' n = Some e"
    then obtain f where "E n = Some f" "addr f = addr e" using fwd by blast
    then show "n < fresh" "n \<in> set (tab ! hash_row (addr e))" using table_okD(4,5) [OF ok] by metis+
  next
    fix n m e f
    assume "E' n = Some e" "E' m = Some f" "addr e = addr f"
    then show "n = m" using fwd table_okD(6) [OF ok] by metis
  qed (use table_okD(1,2) [OF ok] in auto)
qed

lemma shape_ok:
  assumes ok: "nbr_ok s" and shape: "same_shape s s'"
  shows "nbr_ok s'"
proof -
  note l = nbr_okD(3) [OF ok]
  have sh: "nh_nbr_tab s' = nh_nbr_tab s" "nh_two_tab s' = nh_two_tab s" "nh_fresh s' = nh_fresh s" using shape by (simp_all add: same_shape_def)
  have N: "\<exists>f. nh_nbr s n = Some f \<and> twos_of f = twos_of e" if n: "nh_nbr s' n = Some e" for n e
    by (rule shape_nbr [OF same_shape_sym [OF shape] n]) (intro exI conjI, assumption, simp add: twos_of_def)
  have N': "\<exists>f. nh_nbr s' n = Some f \<and> twos_of f = twos_of e" if n: "nh_nbr s n = Some e" for n e
    by (rule shape_nbr [OF shape n]) (intro exI conjI, assumption, simp add: twos_of_def)
  have T: "\<exists>u. nh_two s m = Some u \<and> nbrs_of u = nbrs_of t \<and> n2_pointer u = n2_pointer t" if m: "nh_two s' m = Some t" for m t
    by (rule shape_two [OF same_shape_sym [OF shape] m]) (intro exI conjI, assumption, simp_all add: nbrs_of_def)
  have T': "\<exists>u. nh_two s' m = Some u \<and> nbrs_of u = nbrs_of t" if m: "nh_two s m = Some t" for m t
    by (rule shape_two [OF shape m]) (intro exI conjI, assumption, simp add: nbrs_of_def)
  have "links_ok (nh_nbr s') (nh_two s')"
    unfolding links_ok_def
  proof (intro conjI allI impI ballI)
    fix n e
    assume "nh_nbr s' n = Some e"
    then obtain f where f: "nh_nbr s n = Some f" "twos_of f = twos_of e" using N by blast
    show "distinct (twos_of e)" using links_okD(1) [OF l f(1)] f(2) by simp
    fix m
    assume "m \<in> set (twos_of e)"
    then obtain t where "nh_two s m = Some t" "n \<in> set (nbrs_of t)" using links_okD(2) [OF l f(1)] f(2) by auto
    then show "\<exists>t. nh_two s' m = Some t \<and> n \<in> set (nbrs_of t)" using T' by metis
  next
    fix m t
    assume "nh_two s' m = Some t"
    then obtain u where u: "nh_two s m = Some u" "nbrs_of u = nbrs_of t" "n2_pointer u = n2_pointer t" using T by blast
    show "distinct (nbrs_of t)" "nbrs_of t \<noteq> []" "n2_pointer t = of_nat (length (nbrs_of t))" using links_okD(3-5) [OF l u(1)] u(2,3) by simp_all
    fix n
    assume "n \<in> set (nbrs_of t)"
    then obtain e where "nh_nbr s n = Some e" "m \<in> set (twos_of e)" using links_okD(6) [OF l u(1)] u(2) by auto
    then show "\<exists>e. nh_nbr s' n = Some e \<and> m \<in> set (twos_of e)" using N' by metis
  qed
  moreover have "dom (nh_nbr s') = dom (nh_nbr s)" using N N' by (fastforce simp: dom_def)
  moreover have "table_ok nb_addr (nh_nbr s') (nh_nbr_tab s) (nh_fresh s)"
    by (rule table_shape [OF nbr_okD(1) [OF ok], where c = nbr_core]) (use shape in \<open>auto simp: same_shape_def nbr_core_def\<close>)
  moreover have "table_ok n2_addr (nh_two s') (nh_two_tab s) (nh_fresh s)"
    by (rule table_shape [OF nbr_okD(2) [OF ok], where c = two_core]) (use shape in \<open>auto simp: same_shape_def two_core_def\<close>)
  ultimately show ?thesis using nbr_okD(4,5) [OF ok] by (simp add: nbr_ok_def sh)
qed

section \<open>The tables as lists\<close>

lemma in_table:
  assumes ok: "table_ok addr E tab fresh"
  shows "n \<in> set (concat tab) \<longleftrightarrow> (\<exists>e. E n = Some e)" "distinct (concat tab)"
proof -
  note len = table_okD(1) [OF ok]
  show "n \<in> set (concat tab) \<longleftrightarrow> (\<exists>e. E n = Some e)"
  proof
    assume "n \<in> set (concat tab)"
    then obtain row where "row \<in> set tab" "n \<in> set row" by auto
    then obtain i where "i < hashsize" "n \<in> set (tab ! i)" using len by (metis in_set_conv_nth)
    then show "\<exists>e. E n = Some e" using table_okD(3) [OF ok] by blast
  next
    assume "\<exists>e. E n = Some e"
    then obtain e where "E n = Some e" by blast
    then have "n \<in> set (tab ! hash_row (addr e))" by (rule table_okD(5) [OF ok])
    then show "n \<in> set (concat tab)" using len hash_row_lt [of "addr e"] nth_mem [of "hash_row (addr e)" tab] by auto
  qed
  have disj: "set (tab ! i) \<inter> set (tab ! j) = {}" if ij: "i < hashsize" "j < hashsize" "i \<noteq> j" for i j
  proof (rule ccontr)
    assume "set (tab ! i) \<inter> set (tab ! j) \<noteq> {}"
    then obtain n where "n \<in> set (tab ! i)" "n \<in> set (tab ! j)" by blast
    then have "\<exists>e. E n = Some e \<and> hash_row (addr e) = i" "\<exists>e. E n = Some e \<and> hash_row (addr e) = j"
      using table_okD(3) [OF ok] ij by blast+
    then show False using ij(3) by auto
  qed
  have "distinct (concat (take k tab)) \<and> set (concat (take k tab)) = (\<Union>i < k. set (tab ! i))" if "k \<le> hashsize" for k
    using that
  proof (induction k)
    case (Suc k)
    then have "take (Suc k) tab = take k tab @ [tab ! k]" using len by (simp add: take_Suc_conv_app_nth)
    moreover have "set (tab ! i) \<inter> set (tab ! k) = {}" if "i < k" for i using disj [of i k] that Suc.prems by simp
    then have "(\<Union>i < k. set (tab ! i)) \<inter> set (tab ! k) = {}" by blast
    ultimately show ?case using Suc table_okD(2) [OF ok, of k] by (auto simp: lessThan_Suc)
  qed simp
  from this [of hashsize] show "distinct (concat tab)" using len by simp
qed

lemma all_nbrs_ok:
  assumes "nbr_ok s"
  shows "n \<in> set (all_nbrs s) \<longleftrightarrow> (\<exists>e. nh_nbr s n = Some e)" "distinct (all_nbrs s)"
  using in_table [OF nbr_okD(1) [OF assms]] by (simp_all add: all_nbrs_def)

lemma all_twos_ok:
  assumes "nbr_ok s"
  shows "m \<in> set (all_twos s) \<longleftrightarrow> (\<exists>t. nh_two s m = Some t)" "distinct (all_twos s)"
  using in_table [OF nbr_okD(2) [OF assms]] by (simp_all add: all_twos_def)

section \<open>Strict two-hop neighbours\<close>

definition strict :: "mid_set \<Rightarrow> nbrhood \<Rightarrow> nat \<Rightarrow> bool" where
  "strict M s m \<longleftrightarrow> (\<exists>t. nh_two s m = Some t \<and>
     \<not> (\<exists>n e. nh_nbr s n = Some e \<and> nb_addr e = olsr_main_addr M (n2_addr t) \<and> nb_status e = SYM))"

lemma one_hop_status_ok:
  assumes ok: "nbr_ok s" and m: "nh_two s m = Some t"
  shows "\<exists>r. one_hop_status M t s = Some r \<and> (r = Some SYM \<longleftrightarrow> \<not> strict M s m)"
proof (cases rule: lookup_nbr_cases [OF ok, of "olsr_main_addr M (n2_addr t)"])
  case (1 n e)
  have "nb_status f = nb_status e" if "nh_nbr s k = Some f" "nb_addr f = olsr_main_addr M (n2_addr t)" for k f
    using table_okD(6) [OF nbr_okD(1) [OF ok] that(1) 1(2)] that 1(2,3) by simp
  then have "strict M s m \<longleftrightarrow> nb_status e \<noteq> SYM" using m 1(2,3) unfolding strict_def by (metis option.inject)
  then show ?thesis using 1(1,2) by (simp add: one_hop_status_def olsr_lookup_neighbor_table_def)
next
  case 2
  then have "strict M s m" using m by (auto simp: strict_def)
  then show ?thesis using 2(1) by (simp add: one_hop_status_def olsr_lookup_neighbor_table_def)
qed

lemma shape_strict: assumes shape: "same_shape s s'" shows "strict M s' m = strict M s m"
proof -
  have "strict M s' m" if shape: "same_shape s s'" and st: "strict M s m" for s s'
  proof -
    obtain t where t: "nh_two s m = Some t" "\<not> (\<exists>n e. nh_nbr s n = Some e \<and> nb_addr e = olsr_main_addr M (n2_addr t) \<and> nb_status e = SYM)"
      using st unfolding strict_def by blast
    obtain t' where t': "nh_two s' m = Some t'" "n2_addr t' = n2_addr t" by (rule shape_two [OF shape t(1)])
    have "\<not> (\<exists>n e. nh_nbr s' n = Some e \<and> nb_addr e = olsr_main_addr M (n2_addr t') \<and> nb_status e = SYM)"
    proof
      assume "\<exists>n e. nh_nbr s' n = Some e \<and> nb_addr e = olsr_main_addr M (n2_addr t') \<and> nb_status e = SYM"
      then obtain n e where e: "nh_nbr s' n = Some e" "nb_addr e = olsr_main_addr M (n2_addr t')" "nb_status e = SYM" by blast
      obtain f where "nh_nbr s n = Some f" "nb_addr f = nb_addr e" "nb_status f = nb_status e"
        by (rule shape_nbr [OF same_shape_sym [OF shape] e(1)])
      then show False using t(2) t'(2) e by metis
    qed
    then show ?thesis using t'(1) by (auto simp: strict_def)
  qed
  then show ?thesis using shape same_shape_sym by blast
qed

definition mprs :: "nbrhood \<Rightarrow> nat set" where
  "mprs s = {n. \<exists>e. nh_nbr s n = Some e \<and> nb_is_mpr e}"

definition twos_at :: "nbrhood \<Rightarrow> nat \<Rightarrow> nat list" where
  "twos_at s n = (case nh_nbr s n of Some e \<Rightarrow> twos_of e | None \<Rightarrow> [])"

definition weight :: "mid_set \<Rightarrow> nbrhood \<Rightarrow> nat \<Rightarrow> nat" where
  "weight M s n = length (filter (strict M s) (twos_at s n))"

definition covered :: "nbrhood \<Rightarrow> nat \<Rightarrow> byte" where
  "covered s m = (case nh_two s m of Some t \<Rightarrow> n2_covered t | None \<Rightarrow> 0)"

lemma shape_twos_at: assumes "same_shape s s'" shows "twos_at s' n = twos_at s n"
proof (cases "nh_nbr s n")
  case None
  then have "map_option nbr_core (nh_nbr s' n) = None" using assms by (simp add: same_shape_def)
  then have "nh_nbr s' n = None" by simp
  then show ?thesis using None by (simp add: twos_at_def)
next
  case (Some e)
  obtain e' where "nh_nbr s' n = Some e'" "nb_2_list e' = nb_2_list e" by (rule shape_nbr [OF assms Some])
  then show ?thesis using Some by (simp add: twos_at_def twos_of_def)
qed

lemma shape_weight: "same_shape s s' \<Longrightarrow> weight M s' n = weight M s n"
  unfolding weight_def by (subst shape_twos_at, assumption, rule arg_cong [where f = length], rule filter_cong) (simp_all add: shape_strict)

lemma mprs_live: "n \<in> mprs s \<Longrightarrow> \<exists>e. nh_nbr s n = Some e"
  by (auto simp: mprs_def)

lemma finite_mprs: "nbr_ok s \<Longrightarrow> finite (mprs s)"
  using nbr_okD(4) by (rule rev_finite_subset) (auto simp: mprs_def)

end
