(* ===== verification/Mpr_Choice.thy ===== *)
theory Mpr_Choice imports Mpr_Select begin

text \<open>
  The choice of one relay: it always returns, adds the neighbour to the relays, raises the coverage of its strict two-hop
  neighbours by one, and raises the count by at most their number.
\<close>

section \<open>One two-hop neighbour\<close>

lemma upd_nbr_shape:
  assumes n: "nh_nbr s n = Some e" and core: "nbr_core (f e) = nbr_core e"
  shows "upd_nbr n f s = Some (s\<lparr>nh_nbr := (nh_nbr s)(n \<mapsto> f e)\<rparr>)" "same_shape s (s\<lparr>nh_nbr := (nh_nbr s)(n \<mapsto> f e)\<rparr>)"
  using assms by (simp_all add: upd_nbr_def same_shape_def)

lemma upd_two_shape:
  assumes m: "nh_two s m = Some t" and core: "two_core (f t) = two_core t"
  shows "upd_two m f s = Some (s\<lparr>nh_two := (nh_two s)(m \<mapsto> f t)\<rparr>)" "same_shape s (s\<lparr>nh_two := (nh_two s)(m \<mapsto> f t)\<rparr>)"
  using assms by (simp_all add: upd_two_def same_shape_def)

lemma mprs_upd: "nh_nbr s n = Some e \<Longrightarrow> nb_is_mpr f = nb_is_mpr e \<Longrightarrow> mprs (s\<lparr>nh_nbr := (nh_nbr s)(n \<mapsto> f)\<rparr>) = mprs s"
  by (auto simp: mprs_def)

lemma mprs_two [simp]: "mprs (s\<lparr>nh_two := T\<rparr>) = mprs s"
  by (simp add: mprs_def)

lemma covered_nbr [simp]: "covered (s\<lparr>nh_nbr := N\<rparr>) m = covered s m"
  by (simp add: covered_def)

text \<open>Lowering the counters of the neighbours changes nothing else.\<close>

lemma lower_counters:
  assumes "\<forall>l \<in> set ls. \<exists>e. nh_nbr s (nl_nbr l) = Some e"
  shows "\<exists>s'. iter ls (\<lambda>l s. do {
      e \<leftarrow> nh_nbr s (nl_nbr l);
      if nb_status e = SYM \<and> enough then upd_nbr (nl_nbr l) (\<lambda>e. e\<lparr>nb_nocov := nb_nocov e - 1\<rparr>) s else Some s }) s = Some s' \<and>
    same_shape s s' \<and> mprs s' = mprs s \<and> nh_two s' = nh_two s"
  using assms
proof (induction ls arbitrary: s)
  case (Cons l ls)
  let ?f = "\<lambda>l s. do { e \<leftarrow> nh_nbr s (nl_nbr l);
      if nb_status e = SYM \<and> enough then upd_nbr (nl_nbr l) (\<lambda>e. e\<lparr>nb_nocov := nb_nocov e - 1\<rparr>) s else Some s }"
  obtain e where e: "nh_nbr s (nl_nbr l) = Some e" using Cons.prems by auto
  have "\<exists>s1. ?f l s = Some s1 \<and> same_shape s s1 \<and> mprs s1 = mprs s \<and> nh_two s1 = nh_two s"
    using e upd_nbr_shape [OF e, of "\<lambda>e. e\<lparr>nb_nocov := nb_nocov e - 1\<rparr>"] by (auto simp: nbr_core_def mprs_upd [OF e])
  then obtain s1 where s1: "?f l s = Some s1" "same_shape s s1" "mprs s1 = mprs s" "nh_two s1 = nh_two s" by blast
  have "\<forall>l \<in> set ls. \<exists>e. nh_nbr s1 (nl_nbr l) = Some e"
    using Cons.prems shape_nbr [OF s1(2)] by (metis list.set_intros(2))
  from Cons.IH [OF this] obtain s2 where "iter ls ?f s1 = Some s2" "same_shape s1 s2" "mprs s2 = mprs s1" "nh_two s2 = nh_two s1" by blast
  then show ?case using s1 same_shape_trans [OF s1(2)] by simp
qed simp

lemma unat_suc_le: "unat (c + 1 :: u16) \<le> unat c + 1"
  by (metis add.commute le_less mod_less_eq_dividend unat_1 unat_word_ariths(1) word_arith_nat_add)

lemma chosen_two_ok:
  assumes ok: "nbr_ok s" and m: "nh_two s m = Some t"
  shows "\<exists>c' s'. chosen_two M cov m (c, s) = Some (c', s') \<and> same_shape s s' \<and> mprs s' = mprs s \<and>
    (\<forall>k. covered s' k = covered s k + (if k = m \<and> strict M s m then 1 else 0)) \<and>
    unat c' \<le> unat c + (if strict M s m then 1 else 0)"
proof -
  obtain r where r: "one_hop_status M t s = Some r" "r = Some SYM \<longleftrightarrow> \<not> strict M s m" using one_hop_status_ok [OF ok m] by blast
  show ?thesis
  proof (cases "strict M s m")
    case False
    then show ?thesis using m r by (simp add: chosen_two_def)
  next
    case True
    define t1 where "t1 = t\<lparr>n2_covered := n2_covered t + 1\<rparr>"
    define s1 where "s1 = s\<lparr>nh_two := (nh_two s)(m \<mapsto> t1)\<rparr>"
    let ?enough = "cov \<le> unat (n2_covered t1)"
    have u: "upd_two m (\<lambda>t. t\<lparr>n2_covered := n2_covered t + 1\<rparr>) s = Some s1" "same_shape s s1" 
      using upd_two_shape [OF m, of "\<lambda>t. t\<lparr>n2_covered := n2_covered t + 1\<rparr>"] by (simp_all add: s1_def t1_def two_core_def)
    have m1: "nh_two s1 m = Some t1" by (simp add: s1_def)
    have "\<forall>l \<in> set (n2_nblist t1). \<exists>e. nh_nbr s1 (nl_nbr l) = Some e"
      using links_okD(6) [OF nbr_okD(3) [OF ok] m] by (fastforce simp: s1_def t1_def nbrs_of_def)
    from lower_counters [OF this, of ?enough] obtain s2 where s2:
      "iter (n2_nblist t1) (\<lambda>l s. do { e \<leftarrow> nh_nbr s (nl_nbr l);
         if nb_status e = SYM \<and> ?enough then upd_nbr (nl_nbr l) (\<lambda>e. e\<lparr>nb_nocov := nb_nocov e - 1\<rparr>) s else Some s }) s1 = Some s2"
      "same_shape s1 s2" "mprs s2 = mprs s1" "nh_two s2 = nh_two s1" by blast
    have run: "chosen_two M cov m (c, s) = Some (if ?enough then c + 1 else c, s2)"
      using m r True u(1) m1 s2(1) by (simp add: chosen_two_def Let_def)
    have "covered s2 k = covered s k + (if k = m then 1 else 0)" for k
      using m by (simp add: covered_def s2(4) s1_def t1_def)
    moreover have "unat (if ?enough then c + 1 else c) \<le> unat c + 1" using unat_suc_le [of c] by simp
    ultimately show ?thesis using True run same_shape_trans [OF u(2) s2(2)] s2(3) by (simp add: s1_def)
  qed
qed

lemma chosen_list_ok:
  assumes "nbr_ok s" "distinct ms" "\<forall>m \<in> set ms. \<exists>t. nh_two s m = Some t"
  shows "\<exists>c' s'. iter ms (chosen_two M cov) (c, s) = Some (c', s') \<and> same_shape s s' \<and> mprs s' = mprs s \<and>
    (\<forall>k. covered s' k = covered s k + (if k \<in> set ms \<and> strict M s k then 1 else 0)) \<and>
    unat c' \<le> unat c + length (filter (strict M s) ms)"
  using assms
proof (induction ms arbitrary: c s)
  case (Cons m ms)
  obtain t where t: "nh_two s m = Some t" using Cons.prems(3) by auto
  obtain c1 s1 where s1: "chosen_two M cov m (c, s) = Some (c1, s1)" "same_shape s s1" "mprs s1 = mprs s"
    "\<forall>k. covered s1 k = covered s k + (if k = m \<and> strict M s m then 1 else 0)" "unat c1 \<le> unat c + (if strict M s m then 1 else 0)"
    using chosen_two_ok [OF Cons.prems(1) t] by blast
  have st: "strict M s1 = strict M s" using shape_strict [OF s1(2)] by blast
  have "\<forall>k \<in> set ms. \<exists>t. nh_two s1 k = Some t"
    using Cons.prems(3) shape_two [OF s1(2)] by (metis list.set_intros(2))
  from Cons.IH [OF shape_ok [OF Cons.prems(1) s1(2)] _ this, of c1] Cons.prems(2)
  obtain c2 s2 where s2: "iter ms (chosen_two M cov) (c1, s1) = Some (c2, s2)" "same_shape s1 s2" "mprs s2 = mprs s1"
    "\<forall>k. covered s2 k = covered s1 k + (if k \<in> set ms \<and> strict M s1 k then 1 else 0)"
    "unat c2 \<le> unat c1 + length (filter (strict M s1) ms)" by auto
  have "covered s2 k = covered s k + (if k \<in> set (m # ms) \<and> strict M s k then 1 else 0)" for k
    using s1(4) s2(4) st Cons.prems(2) by auto
  moreover have "unat c2 \<le> unat c + length (filter (strict M s) (m # ms))" using s1(5) s2(5) st by auto
  ultimately show ?case using s1(1,3) s2(1,3) same_shape_trans [OF s1(2) s2(2)] by simp
qed simp

lemma iter_comp: "iter xs (\<lambda>x. f (g x)) = iter (map g xs) f"
proof (induction xs)
  case (Cons x xs)
  show ?case by (rule ext) (simp add: Cons)
qed (simp add: fun_eq_iff)

lemma chosen_mpr_ok:
  assumes ok: "nbr_ok s" and n: "nh_nbr s n = Some e"
  shows "\<exists>c' s'. olsr_chosen_mpr M cov n (c, s) = Some (c', s') \<and> same_shape s s' \<and> mprs s' = insert n (mprs s) \<and>
    (\<forall>k. covered s' k = covered s k + (if k \<in> set (twos_of e) \<and> strict M s k then 1 else 0)) \<and>
    unat c' \<le> unat c + weight M s n"
proof -
  define e1 where "e1 = e\<lparr>nb_is_mpr := True\<rparr>"
  define s1 where "s1 = s\<lparr>nh_nbr := (nh_nbr s)(n \<mapsto> e1)\<rparr>"
  have u: "upd_nbr n (nb_is_mpr_update (\<lambda>_. True)) s = Some s1" "same_shape s s1"
    using upd_nbr_shape [OF n, of "nb_is_mpr_update (\<lambda>_. True)"] by (simp_all add: s1_def e1_def nbr_core_def)
  have e1: "nh_nbr s1 n = Some e1" "map l2_two (nb_2_list e1) = twos_of e" by (simp_all add: s1_def e1_def twos_of_def)
  have "\<forall>m \<in> set (twos_of e). \<exists>t. nh_two s1 m = Some t"
    using links_okD(2) [OF nbr_okD(3) [OF ok] n] by (auto simp: s1_def)
  from chosen_list_ok [OF shape_ok [OF ok u(2)] links_okD(1) [OF nbr_okD(3) [OF ok] n] this]
  obtain c2 s2 where s2: "iter (twos_of e) (chosen_two M cov) (c, s1) = Some (c2, s2)" "same_shape s1 s2" "mprs s2 = mprs s1"
    "\<forall>k. covered s2 k = covered s1 k + (if k \<in> set (twos_of e) \<and> strict M s1 k then 1 else 0)"
    "unat c2 \<le> unat c + length (filter (strict M s1) (twos_of e))" by blast
  have st: "strict M s1 = strict M s" using shape_strict [OF u(2)] by blast
  have "olsr_chosen_mpr M cov n (c, s) = Some (c2, s2)"
    unfolding olsr_chosen_mpr_def using u(1) e1 s2(1) by (simp add: iter_comp [of _ "chosen_two M cov" l2_two])
  moreover have "mprs s1 = insert n (mprs s)" by (auto simp: mprs_def s1_def e1_def)
  moreover have "covered s1 = covered s" by (simp add: s1_def fun_eq_iff)
  ultimately show ?thesis
    using s2 same_shape_trans [OF u(2) s2(2)] n by (simp add: st weight_def twos_at_def)
qed

section \<open>The invariant of the selection\<close>

text \<open>A strict two-hop neighbour that is reached through one neighbour only.\<close>

definition only_via :: "mid_set \<Rightarrow> nbrhood \<Rightarrow> nat \<Rightarrow> nat \<Rightarrow> bool" where
  "only_via M s n m \<longleftrightarrow> strict M s m \<and> (\<exists>t. nh_two s m = Some t \<and> nbrs_of t = [n])"

definition sel_inv :: "mid_set \<Rightarrow> nbrhood \<Rightarrow> u16 \<times> nbrhood \<Rightarrow> bool" where
  "sel_inv M s0 cs \<longleftrightarrow> nbr_ok (snd cs) \<and> same_shape s0 (snd cs) \<and> unat (fst cs) \<le> (\<Sum>n \<in> mprs (snd cs). weight M s0 n) \<and>
     (\<forall>n m. only_via M s0 n m \<longrightarrow> covered (snd cs) m = (if n \<in> mprs (snd cs) then 1 else 0))"

lemma shape_live: "same_shape s s' \<Longrightarrow> (\<exists>e. nh_nbr s' n = Some e) \<longleftrightarrow> (\<exists>e. nh_nbr s n = Some e)"
  by (metis same_shape_sym shape_nbr)

lemma sel_step:
  assumes inv: "sel_inv M s0 cs" and n: "nh_nbr (snd cs) n = Some e" and new: "\<not> nb_is_mpr e"
  shows "\<exists>cs'. olsr_chosen_mpr M cov n cs = Some cs' \<and> sel_inv M s0 cs' \<and> mprs (snd cs') = insert n (mprs (snd cs))"
proof -
  obtain c s where cs: "cs = (c, s)" by force
  have i: "nbr_ok s" "same_shape s0 s" "unat c \<le> (\<Sum>n \<in> mprs s. weight M s0 n)"
    "\<And>n m. only_via M s0 n m \<Longrightarrow> covered s m = (if n \<in> mprs s then 1 else 0)"
    using inv by (simp_all add: sel_inv_def cs)
  have n': "nh_nbr s n = Some e" "n \<notin> mprs s" using n new by (auto simp: cs mprs_def)
  obtain c' s' where s': "olsr_chosen_mpr M cov n (c, s) = Some (c', s')" "same_shape s s'" "mprs s' = insert n (mprs s)"
    "\<forall>k. covered s' k = covered s k + (if k \<in> set (twos_of e) \<and> strict M s k then 1 else 0)" "unat c' \<le> unat c + weight M s n"
    using chosen_mpr_ok [OF i(1) n'(1)] by blast
  have w: "weight M s n = weight M s0 n" by (rule shape_weight [OF i(2)])
  have cov: "covered s' m = (if k \<in> mprs s' then 1 else 0)" if via: "only_via M s0 k m" for k m
  proof -
    obtain t0 where t0: "strict M s0 m" "nh_two s0 m = Some t0" "nbrs_of t0 = [k]" using via unfolding only_via_def by blast
    obtain t where t: "nh_two s m = Some t" "n2_nblist t = n2_nblist t0" by (rule shape_two [OF i(2) t0(2)])
    have t_nbrs: "nbrs_of t = [k]" using t(2) t0(3) by (simp add: nbrs_of_def)
    note l = nbr_okD(3) [OF i(1)]
    have "m \<in> set (twos_of e) \<longleftrightarrow> k = n"
      using links_okD(2) [OF l n'(1), of m] links_okD(6) [OF l t(1), of k] t(1) t_nbrs n'(1) by auto
    then show ?thesis using s'(3,4) i(4) [OF via] t0(1) shape_strict [OF i(2)] n'(2) by auto
  qed
  have "sel_inv M s0 (c', s')"
    using shape_ok [OF i(1) s'(2)] same_shape_trans [OF i(2) s'(2)] i(3) s'(3,5) w n'(2) finite_mprs [OF i(1)] cov
    by (simp add: sel_inv_def)
  then show ?thesis using s'(1,3) cs by simp
qed

end
