(* ===== verification/Mpr_Count.thy ===== *)
theory Mpr_Count imports Mpr_Choice begin

text \<open>
  The passes before the selection: the relays and the coverage are cleared, and the number of two-hop neighbours that the
  code compares its count with is at least the sum of the strict two-hop neighbours of the symmetric neighbours.
\<close>

section \<open>Clearing\<close>

lemma covered_two: "nh_two s m = Some t \<Longrightarrow> covered (s\<lparr>nh_two := (nh_two s)(m \<mapsto> u)\<rparr>) k = (if k = m then n2_covered u else covered s k)"
  by (simp add: covered_def)

lemma clear_list_ok:
  assumes "\<forall>m \<in> set ms. \<exists>t. nh_two s m = Some t"
  shows "\<exists>s'. iter ms clear_covered s = Some s' \<and> same_shape s s' \<and> nh_nbr s' = nh_nbr s \<and>
    (\<forall>m. covered s' m = (if m \<in> set ms then 0 else covered s m))"
  using assms
proof (induction ms arbitrary: s)
  case (Cons m ms)
  obtain t where t: "nh_two s m = Some t" using Cons.prems by auto
  define s1 where "s1 = s\<lparr>nh_two := (nh_two s)(m \<mapsto> t\<lparr>n2_covered := 0\<rparr>)\<rparr>"
  have s1: "clear_covered m s = Some s1" "same_shape s s1"
    using upd_two_shape [OF t, of "n2_covered_update (\<lambda>_. 0)"] by (simp_all add: clear_covered_def s1_def two_core_def)
  have c: "covered s1 k = (if k = m then 0 else covered s k)" for k using covered_two [OF t] by (simp add: s1_def)
  have "\<forall>k \<in> set ms. \<exists>t. nh_two s1 k = Some t" using Cons.prems by (simp add: s1_def)
  from Cons.IH [OF this] obtain s2 where s2: "iter ms clear_covered s1 = Some s2" "same_shape s1 s2" "nh_nbr s2 = nh_nbr s1"
    "\<forall>k. covered s2 k = (if k \<in> set ms then 0 else covered s1 k)" by blast
  then show ?case using s1 same_shape_trans [OF s1(2) s2(2)] c by (simp add: s1_def)
qed simp

lemma clear_mprs_ok:
  assumes ok: "nbr_ok s"
  shows "\<exists>s'. olsr_clear_mprs s = Some s' \<and> same_shape s s' \<and> mprs s' = {} \<and> (\<forall>m. covered s' m = 0)"
proof -
  define P where "P ns u \<longleftrightarrow> same_shape s u \<and> mprs u \<subseteq> set ns \<and> (\<forall>n m. n \<notin> set ns \<longrightarrow> m \<in> set (twos_at s n) \<longrightarrow> covered u m = 0)" for ns u
  have "\<exists>s'. olsr_clear_mprs s = Some s' \<and> P [] s'"
    unfolding olsr_clear_mprs_def
  proof (rule iter_rest_total)
    show "P (all_nbrs s) s"
      using all_nbrs_ok(1) [OF ok] by (auto simp: P_def mprs_def twos_at_def split: option.splits)
  next
    fix n ns u
    assume n: "n \<in> set (all_nbrs s)" and P: "P (n # ns) u"
    have sh: "same_shape s u" using P by (simp add: P_def)
    have oku: "nbr_ok u" by (rule shape_ok [OF ok sh])
    obtain e where e: "nh_nbr u n = Some e" using n all_nbrs_ok(1) [OF ok] shape_live [OF sh] by blast
    define f where "f = (\<lambda>e :: neighbor_entry. if nb_is_mpr e then e\<lparr>nb_was_mpr := True, nb_is_mpr := False\<rparr> else e)"
    define u1 where "u1 = u\<lparr>nh_nbr := (nh_nbr u)(n \<mapsto> f e)\<rparr>"
    have "nbr_core (f e) = nbr_core e" by (simp add: f_def nbr_core_def)
    then have u1: "upd_nbr n f u = Some u1" "same_shape u u1" using upd_nbr_shape [OF e, of f] by (simp_all add: u1_def)
    have l: "map l2_two (nb_2_list (f e)) = twos_of e" by (simp add: f_def twos_of_def)
    have "\<forall>m \<in> set (twos_of e). \<exists>t. nh_two u1 m = Some t"
      using links_okD(2) [OF nbr_okD(3) [OF oku] e] by (auto simp: u1_def)
    from clear_list_ok [OF this] obtain u2 where u2: "iter (twos_of e) clear_covered u1 = Some u2" "same_shape u1 u2"
      "nh_nbr u2 = nh_nbr u1" "\<forall>m. covered u2 m = (if m \<in> set (twos_of e) then 0 else covered u1 m)" by blast
    have "nh_nbr u1 n = Some (f e)" by (simp add: u1_def)
    then have run: "(do { s \<leftarrow> upd_nbr n f u; e \<leftarrow> nh_nbr s n; iter (nb_2_list e) (\<lambda>l. clear_covered (l2_two l)) s }) = Some u2"
      using u1(1) u2(1) l by (simp add: iter_comp [of _ clear_covered l2_two])
    have "mprs u2 \<subseteq> mprs u - {n}" using u2(3) by (auto simp: mprs_def u1_def f_def split: if_splits)
    moreover have "twos_of e = twos_at s n" using shape_twos_at [OF sh, of n] e by (simp add: twos_at_def)
    moreover have "covered u1 m = covered u m" for m by (simp add: u1_def)
    ultimately have "P ns u2"
      using P same_shape_trans [OF same_shape_trans [OF sh u1(2)] u2(2)] u2(4) unfolding P_def by (auto, metis)
    then show "\<exists>s'. (do { s \<leftarrow> upd_nbr n (\<lambda>e. if nb_is_mpr e then e\<lparr>nb_was_mpr := True, nb_is_mpr := False\<rparr> else e) u;
        e \<leftarrow> nh_nbr s n; iter (nb_2_list e) (\<lambda>l. clear_covered (l2_two l)) s }) = Some s' \<and> P ns s'"
      using run unfolding f_def by blast
  qed
  then obtain s' where s': "olsr_clear_mprs s = Some s'" "P [] s'" by blast
  have "covered s' m = 0" for m
  proof (cases "nh_two s m")
    case None
    then show ?thesis using s'(2) shape_two [OF same_shape_sym] unfolding P_def covered_def
      by (metis option.case_eq_if option.distinct(1) option.collapse)
  next
    case (Some t)
    note l = nbr_okD(3) [OF ok]
    obtain n where n: "n \<in> set (nbrs_of t)" using links_okD(4) [OF l Some] by (cases "nbrs_of t") auto
    obtain e where "nh_nbr s n = Some e" "m \<in> set (twos_of e)" using links_okD(6) [OF l Some n] by blast
    then have "m \<in> set (twos_at s n)" by (simp add: twos_at_def)
    then show ?thesis using s'(2) unfolding P_def by simp
  qed
  then show ?thesis using s' by (auto simp: P_def)
qed

section \<open>Counting\<close>

definition two_processed :: "nbrhood \<Rightarrow> nat set" where
  "two_processed s = {m. \<exists>t. nh_two s m = Some t \<and> n2_processed t}"

lemma finite_twos: "nbr_ok s \<Longrightarrow> finite (dom (nh_two s))"
  using all_twos_ok(1) [of s] by (metis (mono_tags, lifting) List.finite_set domD finite_subset subsetI)

lemma two_processed_dom: "two_processed s \<subseteq> dom (nh_two s)"
  by (auto simp: two_processed_def)

lemma two_processed_nbr [simp]: "two_processed (s\<lparr>nh_nbr := N\<rparr>) = two_processed s"
  by (simp add: two_processed_def)

lemma shape_dom: "same_shape s s' \<Longrightarrow> dom (nh_two s') = dom (nh_two s)" "same_shape s s' \<Longrightarrow> dom (nh_nbr s') = dom (nh_nbr s)"
  unfolding same_shape_def dom_def by (metis (mono_tags, lifting) map_option_is_None)+

text \<open>What the counting leaves as it is.\<close>

definition same_relays :: "nbrhood \<Rightarrow> nbrhood \<Rightarrow> bool" where
  "same_relays s s' \<longleftrightarrow> same_shape s s' \<and> mprs s' = mprs s \<and> covered s' = covered s"

lemma same_relays_trans: "same_relays s t \<Longrightarrow> same_relays t u \<Longrightarrow> same_relays s u"
  by (auto simp: same_relays_def intro: same_shape_trans)

lemma same_relays_refl [simp]: "same_relays s s"
  by (simp add: same_relays_def)

lemma set_processed:
  assumes m: "nh_two s m = Some t"
  shows "\<exists>s'. upd_two m (n2_processed_update (\<lambda>_. b)) s = Some s' \<and> same_relays s s' \<and>
    two_processed s' = (if b then insert m (two_processed s) else two_processed s - {m})"
  using upd_two_shape [OF m, of "n2_processed_update (\<lambda>_. b)"] m
  by (auto simp: two_core_def same_relays_def covered_def two_processed_def fun_eq_iff split: if_splits)

lemma clear_processed_ok:
  assumes ok: "nbr_ok s"
  shows "\<exists>s'. olsr_clear_two_hop_processed s = Some s' \<and> same_relays s s' \<and> two_processed s' = {}"
proof -
  define P where "P ms u \<longleftrightarrow> same_relays s u \<and> two_processed u \<subseteq> set ms" for ms u
  have "\<exists>s'. olsr_clear_two_hop_processed s = Some s' \<and> P [] s'"
    unfolding olsr_clear_two_hop_processed_def
  proof (rule iter_rest_total)
    show "P (all_twos s) s" using all_twos_ok(1) [OF ok] by (auto simp: P_def two_processed_def)
  next
    fix m ms u
    assume m: "m \<in> set (all_twos s)" and P: "P (m # ms) u"
    obtain t where "nh_two s m = Some t" using m all_twos_ok(1) [OF ok] by blast
    then obtain t' where "nh_two u m = Some t'" using shape_two P by (metis P_def same_relays_def)
    from set_processed [OF this, of False] P
    show "\<exists>s'. upd_two m (n2_processed_update (\<lambda>_. False)) u = Some s' \<and> P ms s'"
      by (fastforce simp: P_def intro: same_relays_trans)
  qed
  then show ?thesis by (simp add: P_def)
qed

lemma count_two_ok:
  assumes ok: "nbr_ok s" and m: "nh_two s m = Some t" and c: "card (dom (nh_two s)) < 2 ^ 16 \<longrightarrow> unat c = card (two_processed s)"
  shows "\<exists>c' k' s'. count_two M m (c, k, s) = Some (c', k', s') \<and> same_relays s s' \<and>
    two_processed s' = two_processed s \<union> (if strict M s m then {m} else {}) \<and> (card (dom (nh_two s)) < 2 ^ 16 \<longrightarrow> unat c' = card (two_processed s'))"
proof -
  obtain r where r: "one_hop_status M t s = Some r" "r = Some SYM \<longleftrightarrow> \<not> strict M s m" using one_hop_status_ok [OF ok m] by blast
  have fin: "finite (two_processed s)" using finite_twos [OF ok] two_processed_dom finite_subset by blast
  show ?thesis
  proof (cases "\<not> strict M s m \<or> n2_processed t")
    case True
    then have "two_processed s = two_processed s \<union> (if strict M s m then {m} else {})" using m by (auto simp: two_processed_def)
    then show ?thesis using True m r c by (auto simp: count_two_def)
  next
    case False
    obtain s' where s': "upd_two m (n2_processed_update (\<lambda>_. True)) s = Some s'" "same_relays s s'" "two_processed s' = insert m (two_processed s)"
      using set_processed [OF m, of True] by auto
    have new: "m \<notin> two_processed s" using False m by (simp add: two_processed_def)
    have "insert m (two_processed s) \<subseteq> dom (nh_two s)" using m two_processed_dom by blast
    then have "card (insert m (two_processed s)) \<le> card (dom (nh_two s))" by (rule card_mono [OF finite_twos [OF ok]])
    then have "unat (c + 1) = unat c + 1" if "card (dom (nh_two s)) < 2 ^ 16"
      using that c new fin by (simp add: unat_word_ariths)
    then show ?thesis using False m r s' c new fin by (auto simp: count_two_def)
  qed
qed

lemma count_list_ok:
  assumes "nbr_ok s" "\<forall>m \<in> set ms. \<exists>t. nh_two s m = Some t" "card (dom (nh_two s)) < 2 ^ 16 \<longrightarrow> unat c = card (two_processed s)"
  shows "\<exists>c' k' s'. iter ms (count_two M) (c, k, s) = Some (c', k', s') \<and> same_relays s s' \<and>
    two_processed s' = two_processed s \<union> {m \<in> set ms. strict M s m} \<and> (card (dom (nh_two s)) < 2 ^ 16 \<longrightarrow> unat c' = card (two_processed s'))"
  using assms
proof (induction ms arbitrary: c k s)
  case Nil
  then show ?case by simp
next
  case (Cons m ms)
  obtain t where t: "nh_two s m = Some t" using Cons.prems(2) by auto
  obtain c1 k1 s1 where s1: "count_two M m (c, k, s) = Some (c1, k1, s1)" "same_relays s s1"
    "two_processed s1 = two_processed s \<union> (if strict M s m then {m} else {})" "card (dom (nh_two s)) < 2 ^ 16 \<longrightarrow> unat c1 = card (two_processed s1)"
    using count_two_ok [OF Cons.prems(1) t Cons.prems(3)] by blast
  have sh: "same_shape s s1" using s1(2) by (simp add: same_relays_def)
  have "\<forall>k \<in> set ms. \<exists>t. nh_two s1 k = Some t"
    using Cons.prems(2) shape_two [OF sh] by (metis list.set_intros(2))
  moreover have "card (dom (nh_two s1)) < 2 ^ 16 \<longrightarrow> unat c1 = card (two_processed s1)" using s1(4) shape_dom(1) [OF sh] by simp
  ultimately  obtain c2 k2 s2 where s2: "iter ms (count_two M) (c1, k1, s1) = Some (c2, k2, s2)" "same_relays s1 s2"
    "two_processed s2 = two_processed s1 \<union> {m \<in> set ms. strict M s1 m}"
    "card (dom (nh_two s)) < 2 ^ 16 \<longrightarrow> unat c2 = card (two_processed s2)"
    using Cons.IH [OF shape_ok [OF Cons.prems(1) sh], of c1 k1] shape_dom(1) [OF sh] by auto
  have "two_processed s2 = two_processed s \<union> {k \<in> set (m # ms). strict M s k}" using s1(3) s2(3) shape_strict [OF sh] by auto
  then show ?case using s1(1) s2(1,4) same_relays_trans [OF s1(2) s2(2)] by auto
qed

definition sym_nbrs :: "nbrhood \<Rightarrow> nat set" where
  "sym_nbrs s = {n. \<exists>e. nh_nbr s n = Some e \<and> nb_status e = SYM}"

lemma set_nocov:
  assumes n: "nh_nbr s n = Some e"
  shows "\<exists>s'. upd_nbr n (nb_nocov_update (\<lambda>_. x)) s = Some s' \<and> same_relays s s' \<and> two_processed s' = two_processed s"
  using upd_nbr_shape [OF n, of "nb_nocov_update (\<lambda>_. x)"] mprs_upd [OF n]
  by (auto simp: nbr_core_def same_relays_def fun_eq_iff)

lemma twos_small:
  assumes ok: "nbr_ok s" and room: "card (dom (nh_nbr s)) * card (dom (nh_two s)) < 2 ^ 16"
  shows "card (dom (nh_two s)) < 2 ^ 16"
proof (cases "dom (nh_two s) = {}")
  case False
  then obtain m t where t: "nh_two s m = Some t" by blast
  note l = nbr_okD(3) [OF ok]
  obtain n where "n \<in> set (nbrs_of t)" using links_okD(4) [OF l t] by (cases "nbrs_of t") auto
  then have "dom (nh_nbr s) \<noteq> {}" using links_okD(6) [OF l t] by blast
  then have "1 \<le> card (dom (nh_nbr s))" using nbr_okD(4) [OF ok] by (simp add: Suc_le_eq card_gt_0_iff)
  then have "1 * card (dom (nh_two s)) \<le> card (dom (nh_nbr s)) * card (dom (nh_two s))" by (intro mult_le_mono1)
  then show ?thesis using room by linarith
qed simp

lemma calculate_two_hop_ok:
  assumes ok: "nbr_ok s"
  shows "\<exists>w s'. olsr_calculate_two_hop_neighbors M s = Some (w, s') \<and> same_relays s s' \<and>
    (card (dom (nh_nbr s)) * card (dom (nh_two s)) < 2 ^ 16 \<longrightarrow> (\<Sum>n \<in> sym_nbrs s. weight M s n) \<le> unat w)"
proof -
  define R where "R \<longleftrightarrow> card (dom (nh_nbr s)) * card (dom (nh_two s)) < 2 ^ 16"
  define T where "T = card (dom (nh_two s))"
  define body where "body = (\<lambda>n (count, n_count, sum, s). do {
       e \<leftarrow> nh_nbr s n;
       if nb_status e = NOT_SYM
       then do { s \<leftarrow> upd_nbr n (nb_nocov_update (\<lambda>_. uint count)) s; Some (count, n_count, sum, s) }
       else do {
         (count, n_count, s) \<leftarrow> iter (nb_2_list e) (\<lambda>l. count_two M (l2_two l)) (count, n_count, s);
         s \<leftarrow> upd_nbr n (nb_nocov_update (\<lambda>_. uint n_count)) s;
         Some (count, n_count, sum + count, s) } } :: (u16 \<times> u16 \<times> u16 \<times> nbrhood) option)"
  define P where "P ns = (\<lambda>(c :: u16, k :: u16, w :: u16, u). distinct ns \<and> set ns \<subseteq> dom (nh_nbr s) \<and> same_relays s u \<and>
    (T < 2 ^ 16 \<longrightarrow> unat c = card (two_processed u)) \<and>
    (R \<longrightarrow> unat w + length ns * T \<le> card (dom (nh_nbr s)) * T \<and> (\<Sum>n \<in> sym_nbrs s - set ns. weight M s n) \<le> unat w))" for ns
  obtain s1 where s1: "olsr_clear_two_hop_processed s = Some s1" "same_relays s s1" "two_processed s1 = {}"
    using clear_processed_ok [OF ok] by blast
  have nbrs: "set (all_nbrs s) = dom (nh_nbr s)" "distinct (all_nbrs s)" using all_nbrs_ok [OF ok] by auto
  have all: "all_nbrs s1 = all_nbrs s" using shape_all(1) s1(2) by (simp add: same_relays_def)
  have "\<exists>s'. iter (all_nbrs s) body (0, 0, 0, s1) = Some s' \<and> P [] s'"
  proof (rule iter_rest_total)
    have "sym_nbrs s \<subseteq> dom (nh_nbr s)" by (auto simp: sym_nbrs_def)
    then have "sym_nbrs s - dom (nh_nbr s) = {}" by blast
    then have "(\<Sum>n \<in> sym_nbrs s - dom (nh_nbr s). weight M s n) = 0" by (simp only: sum.empty)
    then show "P (all_nbrs s) (0, 0, 0, s1)"
      using s1 nbrs distinct_card [OF nbrs(2)] by (simp add: P_def)
  next
    fix n ns cs
    assume Pn: "P (n # ns) cs"
    obtain c k w u where cs: "cs = (c, k, w, u)" by (metis surj_pair)
    have P: "distinct ns" "n \<notin> set ns" "set ns \<subseteq> dom (nh_nbr s)" "same_relays s u" "T < 2 ^ 16 \<longrightarrow> unat c = card (two_processed u)"
      "R \<longrightarrow> unat w + length ns * T + T \<le> card (dom (nh_nbr s)) * T" "R \<longrightarrow> (\<Sum>n \<in> sym_nbrs s - set (n # ns). weight M s n) \<le> unat w" "n \<in> dom (nh_nbr s)"
      using Pn by (simp_all add: P_def cs algebra_simps)
    have sh: "same_shape s u" using P(4) by (simp add: same_relays_def)
    obtain e0 where e0: "nh_nbr s n = Some e0" using P(8) by blast
    obtain e where e: "nh_nbr u n = Some e" "nb_status e = nb_status e0" "nb_2_list e = nb_2_list e0" by (rule shape_nbr [OF sh e0])
    have oku: "nbr_ok u" by (rule shape_ok [OF ok sh])
    show "\<exists>cs'. body n cs = Some cs' \<and> P ns cs'"
    proof (cases "nb_status e")
      case NOT_SYM
      obtain u1 where u1: "upd_nbr n (nb_nocov_update (\<lambda>_. uint c)) u = Some u1" "same_relays u u1" "two_processed u1 = two_processed u"
        using set_nocov [OF e(1)] by blast
      have "sym_nbrs s - set ns = sym_nbrs s - set (n # ns)" using e0 e(2) NOT_SYM by (auto simp: sym_nbrs_def)
      then have "R \<longrightarrow> (\<Sum>n \<in> sym_nbrs s - set ns. weight M s n) \<le> unat w" using P(7) by (simp only:)
      then have "P ns (c, k, w, u1)"
        using P(1-3,5,6) u1(3) same_relays_trans [OF P(4) u1(2)] unfolding P_def prod.case by (intro conjI impI) simp_all
      then show ?thesis using e(1) NOT_SYM u1(1) by (simp add: body_def cs)
    next
      case SYM
      have "\<forall>m \<in> set (twos_of e). \<exists>t. nh_two u m = Some t" using links_okD(2) [OF nbr_okD(3) [OF oku] e(1)] by blast
      moreover have "card (dom (nh_two u)) < 2 ^ 16 \<longrightarrow> unat c = card (two_processed u)" using P(5) shape_dom(1) [OF sh] by (simp add: T_def)
      ultimately obtain c1 k1 u1 where u1: "iter (twos_of e) (count_two M) (c, k, u) = Some (c1, k1, u1)" "same_relays u u1"
        "two_processed u1 = two_processed u \<union> {m \<in> set (twos_of e). strict M u m}" "card (dom (nh_two u)) < 2 ^ 16 \<longrightarrow> unat c1 = card (two_processed u1)"
        using count_list_ok [OF oku] by blast
      have c1: "T < 2 ^ 16 \<longrightarrow> unat c1 = card (two_processed u1)" using u1(4) shape_dom(1) [OF sh] by (simp add: T_def)
      have small: "R \<longrightarrow> T < 2 ^ 16" using twos_small [OF ok] by (simp add: R_def T_def)
      have sh1: "same_shape s u1" using same_shape_trans [OF sh] u1(2) by (simp add: same_relays_def)
      obtain e1 where e1: "nh_nbr u1 n = Some e1" using shape_live [OF sh1, of n] e0 by blast
      obtain u2 where u2: "upd_nbr n (nb_nocov_update (\<lambda>_. uint k1)) u1 = Some u2" "same_relays u1 u2" "two_processed u2 = two_processed u1"
        using set_nocov [OF e1] by blast
      have fin: "finite (two_processed u1)" and le: "card (two_processed u1) \<le> T"
        using finite_twos [OF ok] two_processed_dom [of u1] shape_dom(1) [OF sh1] by (auto simp: T_def intro: finite_subset card_mono)
      have tw: "twos_at s n = twos_of e" using e0 e(3) by (simp add: twos_at_def twos_of_def)
      have "weight M s n = card {m \<in> set (twos_of e). strict M s m}"
        using links_okD(1) [OF nbr_okD(3) [OF oku] e(1)] distinct_card [of "filter (strict M s) (twos_of e)"] by (simp add: weight_def tw)
      also have "\<dots> \<le> card (two_processed u1)" using u1(3) fin shape_strict [OF sh] by (intro card_mono) auto
      finally have wt: "R \<longrightarrow> weight M s n \<le> unat c1" using c1 small by simp
      have plus: "unat (w + c1) = unat w + unat c1" if R
      proof -
        have "unat w + unat c1 < 2 ^ 16" using P(6) c1 small le \<open>R\<close> by (simp add: T_def R_def)
        then show ?thesis by (simp add: unat_word_ariths)
      qed
      have fs: "finite (sym_nbrs s - set (n # ns))" using nbr_okD(4) [OF ok] by (rule rev_finite_subset) (auto simp: sym_nbrs_def)
      have "n \<in> sym_nbrs s" using e0 e(2) SYM by (simp add: sym_nbrs_def)
      then have "sym_nbrs s - set ns = insert n (sym_nbrs s - set (n # ns))" using P(2) by auto
      moreover have "n \<notin> sym_nbrs s - set (n # ns)" by simp
      ultimately have all: "(\<Sum>n \<in> sym_nbrs s - set ns. weight M s n) = weight M s n + (\<Sum>n \<in> sym_nbrs s - set (n # ns). weight M s n)"
        using sum.insert [OF fs, of n "weight M s"] by (simp only: not_False_eq_True)
      have total: "R \<longrightarrow> (\<Sum>n \<in> sym_nbrs s - set ns. weight M s n) \<le> unat (w + c1)" unfolding all using plus wt P(7) by linarith
      have budget: "R \<longrightarrow> unat (w + c1) + length ns * T \<le> card (dom (nh_nbr s)) * T" using plus P(6) c1 small le by linarith
      then have "P ns (c1, k1, w + c1, u2)"
        using P(1,3) c1 u2(3) same_relays_trans [OF same_relays_trans [OF P(4) u1(2)] u2(2)] total budget
        unfolding P_def prod.case by (intro conjI) simp_all
      then show ?thesis
        using e(1) SYM u1(1) u2(1) by (simp add: body_def cs iter_comp [of _ "count_two M" l2_two] flip: twos_of_def)
    qed
  qed
  then obtain c k w u where u: "iter (all_nbrs s) body (0, 0, 0, s1) = Some (c, k, w, u)" "P [] (c, k, w, u)" by auto
  have "olsr_calculate_two_hop_neighbors M s = Some (w, u)"
    using s1(1) u(1) unfolding body_def by (simp add: olsr_calculate_two_hop_neighbors_def all)
  then show ?thesis using u(2) by (auto simp: P_def R_def)
qed

end
