(* ===== verification/Mpr_Relay.thy ===== *)
theory Mpr_Relay imports Mpr_Count begin

text \<open>
  The whole selection of relays: it returns on every well-formed state, and a symmetric neighbour that alone reaches a
  strict two-hop neighbour becomes and stays a relay.
\<close>

section \<open>Stopping early\<close>

text \<open>
  The selection stops when the count reaches the wanted number. If only symmetric neighbours have two-hop neighbours, this
  does not happen before every symmetric neighbour with a strict two-hop neighbour is a relay.
\<close>

definition only_sym :: "mid_set \<Rightarrow> nbrhood \<Rightarrow> bool" where
  "only_sym M s \<longleftrightarrow> (\<forall>n e. nh_nbr s n = Some e \<longrightarrow> nb_status e = NOT_SYM \<longrightarrow> weight M s n = 0)"

lemma sel_invD:
  assumes "sel_inv M s0 (c, s)"
  shows "nbr_ok s" "same_shape s0 s" "unat c \<le> (\<Sum>n \<in> mprs s. weight M s0 n)"
    "only_via M s0 n m \<Longrightarrow> covered s m = (if n \<in> mprs s then 1 else 0)"
  using assms by (simp_all add: sel_inv_def)

lemma not_before:
  assumes inv: "sel_inv M s0 (c, s)" and ok: "nbr_ok s0" and sym: "only_sym M s0"
    and w: "(\<Sum>n \<in> sym_nbrs s0. weight M s0 n) \<le> unat w" and stop: "w \<le> c"
    and n: "n \<in> sym_nbrs s0" "0 < weight M s0 n"
  shows "n \<in> mprs s"
proof (rule ccontr)
  assume new: "n \<notin> mprs s"
  note i = sel_invD(1-3) [OF inv]
  have fin: "finite (sym_nbrs s0)" using nbr_okD(4) [OF ok] by (rule rev_finite_subset) (auto simp: sym_nbrs_def)
  have "(\<Sum>k \<in> mprs s. weight M s0 k) = (\<Sum>k \<in> mprs s \<inter> sym_nbrs s0. weight M s0 k)"
  proof (rule sum.mono_neutral_right [OF finite_mprs [OF i(1)]])
    show "\<forall>k \<in> mprs s - mprs s \<inter> sym_nbrs s0. weight M s0 k = 0"
    proof
      fix k
      assume k: "k \<in> mprs s - mprs s \<inter> sym_nbrs s0"
      then obtain e where e: "nh_nbr s0 k = Some e" using mprs_live shape_live [OF i(2)] by blast
      then have "nb_status e = NOT_SYM" using k by (cases "nb_status e") (auto simp: sym_nbrs_def)
      then show "weight M s0 k = 0" using sym e by (simp add: only_sym_def)
    qed
  qed simp
  also have "\<dots> \<le> (\<Sum>k \<in> sym_nbrs s0 - {n}. weight M s0 k)"
    using new fin by (intro sum_mono2) auto
  finally have "unat c \<le> (\<Sum>k \<in> sym_nbrs s0 - {n}. weight M s0 k)" using i(3) by linarith
  moreover have "(\<Sum>k \<in> sym_nbrs s0. weight M s0 k) = weight M s0 n + (\<Sum>k \<in> sym_nbrs s0 - {n}. weight M s0 k)"
    by (rule sum.remove [OF fin n(1)])
  ultimately show False using w n(2) stop by (simp add: word_le_nat_alt)
qed

section \<open>The choices\<close>

lemma live_in:
  assumes inv: "sel_inv M s0 cs" and e: "nh_nbr s0 n = Some e"
  obtains e' where "nh_nbr (snd cs) n = Some e'" "nb_status e' = nb_status e" "nb_will e' = nb_will e"
    "nb_is_mpr e' \<longleftrightarrow> n \<in> mprs (snd cs)"
proof -
  have "same_shape s0 (snd cs)" using inv by (simp add: sel_inv_def)
  from shape_nbr [OF this e] obtain e' where "nh_nbr (snd cs) n = Some e'" "nb_status e' = nb_status e" "nb_will e' = nb_will e" by metis
  then show ?thesis using that by (auto simp: mprs_def)
qed

definition always_nbrs :: "nbrhood \<Rightarrow> nat set" where
  "always_nbrs s = {n. \<exists>e. nh_nbr s n = Some e \<and> nb_status e = SYM \<and> nb_will e = will_always}"

lemma will_always_ok:
  assumes inv: "sel_inv M s0 (0, s)" and ok: "nbr_ok s0" and none: "mprs s = {}"
  shows "\<exists>cs'. add_will_always_nodes M cov s = Some cs' \<and> sel_inv M s0 cs' \<and> always_nbrs s0 \<subseteq> mprs (snd cs')"
proof -
  define P where "P ns cs \<longleftrightarrow> distinct ns \<and> sel_inv M s0 cs \<and> mprs (snd cs) \<inter> set ns = {} \<and>
    always_nbrs s0 - set ns \<subseteq> mprs (snd cs)" for ns cs
  have all: "all_nbrs s = all_nbrs s0" using shape_all(1) sel_invD(2) [OF inv] by blast
  have "\<exists>cs'. add_will_always_nodes M cov s = Some cs' \<and> P [] cs'"
    unfolding add_will_always_nodes_def
  proof (rule iter_rest_total)
    show "P (all_nbrs s) (0, s)" using all_nbrs_ok [OF ok] inv none all by (auto simp: P_def always_nbrs_def)
  next
    fix n ns cs
    assume n: "n \<in> set (all_nbrs s)" and P: "P (n # ns) cs"
    obtain c u where cs: "cs = (c, u)" by force
    have inv': "sel_inv M s0 cs" using P by (simp add: P_def)
    obtain e0 where e0: "nh_nbr s0 n = Some e0" using n all all_nbrs_ok(1) [OF ok] by auto
    obtain e where e: "nh_nbr (snd cs) n = Some e" "nb_status e = nb_status e0" "nb_will e = nb_will e0"
      "nb_is_mpr e \<longleftrightarrow> n \<in> mprs (snd cs)" by (rule live_in [OF inv' e0])
    show "\<exists>cs'. (case cs of (count, s) \<Rightarrow> do { e \<leftarrow> nh_nbr s n;
        if nb_status e = NOT_SYM \<or> nb_will e \<noteq> will_always then Some (count, s) else olsr_chosen_mpr M cov n (count, s) }) = Some cs' \<and> P ns cs'"
    proof (cases "nb_status e = NOT_SYM \<or> nb_will e \<noteq> will_always")
      case True
      then have "n \<notin> always_nbrs s0" using e0 e(2,3) by (auto simp: always_nbrs_def)
      then have "P ns cs" using P by (auto simp: P_def)
      then show ?thesis using True e(1) by (simp add: cs)
    next
      case False
      have "\<not> nb_is_mpr e" using P e(4) by (auto simp: P_def)
      from sel_step [OF inv' e(1) this] obtain cs' where cs': "olsr_chosen_mpr M cov n cs = Some cs'" "sel_inv M s0 cs'"
        "mprs (snd cs') = insert n (mprs (snd cs))" by blast
      then have "P ns cs'" using P by (auto simp: P_def)
      then show ?thesis using False e(1) cs'(1) by (auto simp: cs)
    qed
  qed
  then show ?thesis by (auto simp: P_def)
qed

lemma one_link_ok:
  assumes ok: "nbr_ok s" and m: "nh_two s m = Some t"
  shows "\<exists>b. one_link M will m s = Some b \<and> (only_via M s n m \<longrightarrow> (\<forall>e. nh_nbr s n = Some e \<longrightarrow> b = (nb_will e = will \<and> nb_status e = SYM)))"
proof -
  note l = nbr_okD(3) [OF ok]
  obtain r where r: "one_hop_status M t s = Some r" "r = Some SYM \<longleftrightarrow> \<not> strict M s m" using one_hop_status_ok [OF ok m] by blast
  obtain k ks where ks: "n2_nblist t = k # ks" using links_okD(4) [OF l m] by (cases "n2_nblist t") (auto simp: nbrs_of_def)
  obtain e where e: "nh_nbr s (nl_nbr k) = Some e" using links_okD(6) [OF l m, of "nl_nbr k"] by (auto simp: nbrs_of_def ks)
  have len: "n2_pointer t = of_nat (Suc (length ks))" using links_okD(5) [OF l m] by (simp add: nbrs_of_def ks)
  show ?thesis
  proof (cases "only_via M s n m")
    case True
    then have "strict M s m" "nl_nbr k = n" "ks = []" using m by (auto simp: only_via_def nbrs_of_def ks)
    then show ?thesis using m r ks e len by (auto simp: one_link_def)
  next
    case False
    then show ?thesis using m r ks e by (auto simp: one_link_def)
  qed
qed

lemma find_one_link_ok:
  assumes ok: "nbr_ok s"
  shows "\<exists>ms. olsr_find_2_hop_neighbors_with_1_link M will s = Some ms \<and> (\<forall>m \<in> set ms. \<exists>t. nh_two s m = Some t) \<and>
    (\<forall>n m e. only_via M s n m \<longrightarrow> nh_nbr s n = Some e \<longrightarrow> nb_will e = will \<longrightarrow> nb_status e = SYM \<longrightarrow> m \<in> set ms)"
proof -
  define P where "P rest ms \<longleftrightarrow> (\<forall>m \<in> set ms. \<exists>t. nh_two s m = Some t) \<and>
    (\<forall>n m e. only_via M s n m \<longrightarrow> nh_nbr s n = Some e \<longrightarrow> nb_will e = will \<longrightarrow> nb_status e = SYM \<longrightarrow> m \<in> set rest \<or> m \<in> set ms)" for rest ms
  have "\<exists>ms. olsr_find_2_hop_neighbors_with_1_link M will s = Some ms \<and> P [] ms"
    unfolding olsr_find_2_hop_neighbors_with_1_link_def
  proof (rule iter_rest_total)
    show "P (all_twos s) []" using all_twos_ok(1) [OF ok] by (auto simp: P_def only_via_def)
  next
    fix m rest found
    assume m: "m \<in> set (all_twos s)" and P: "P (m # rest) found"
    obtain t where t: "nh_two s m = Some t" using m all_twos_ok(1) [OF ok] by blast
    obtain b where b: "one_link M will m s = Some b" using one_link_ok [OF ok t] by blast
    have hit: "b" if "only_via M s n m" "nh_nbr s n = Some e" "nb_will e = will" "nb_status e = SYM" for n e
      using one_link_ok [OF ok t, of M will n] b that by auto
    have "P rest (if b then m # found else found)"
    proof (cases b)
      case True
      then show ?thesis using P t unfolding P_def by auto
    next
      case False
      have "\<not> (only_via M s n m \<and> nh_nbr s n = Some e \<and> nb_will e = will \<and> nb_status e = SYM)" for n e using hit False by blast
      then show ?thesis using P False unfolding P_def by (auto, metis+)
    qed
    then show "\<exists>s'. (do { hit \<leftarrow> one_link M will m s; Some (if hit then m # found else found) }) = Some s' \<and> P rest s'"
      using b by simp
  qed
  then show ?thesis by (auto simp: P_def)
qed

lemma choose_one_links_ok:
  assumes ok: "nbr_ok s0" and ms: "\<forall>m \<in> set ms. \<exists>t. nh_two s0 m = Some t" and inv: "sel_inv M s0 cs"
  shows "\<exists>cs'. choose_one_links M cov ms cs = Some cs' \<and> sel_inv M s0 cs' \<and> mprs (snd cs) \<subseteq> mprs (snd cs') \<and>
    (\<forall>n m. m \<in> set ms \<longrightarrow> only_via M s0 n m \<longrightarrow> n \<in> mprs (snd cs'))"
proof -
  define P where "P rest cs' \<longleftrightarrow> sel_inv M s0 cs' \<and> mprs (snd cs) \<subseteq> mprs (snd cs') \<and>
    (\<forall>n m. m \<in> set ms \<longrightarrow> m \<notin> set rest \<longrightarrow> only_via M s0 n m \<longrightarrow> n \<in> mprs (snd cs'))" for rest cs'
  have "\<exists>cs'. choose_one_links M cov ms cs = Some cs' \<and> P [] cs'"
    unfolding choose_one_links_def
  proof (rule iter_rest_total)
    show "P ms cs" using inv by (simp add: P_def)
  next
    fix m rest cs1
    assume m: "m \<in> set ms" and P: "P (m # rest) cs1"
    obtain c s where cs: "cs1 = (c, s)" by force
    have inv1: "sel_inv M s0 (c, s)" using P by (simp add: P_def cs)
    note i = sel_invD(1,2) [OF inv1]
    obtain t0 where t0: "nh_two s0 m = Some t0" using ms m by blast
    obtain t where t: "nh_two s m = Some t" "n2_nblist t = n2_nblist t0" by (rule shape_two [OF i(2) t0])
    note l = nbr_okD(3) [OF i(1)]
    obtain k ks where ks: "n2_nblist t = k # ks" using links_okD(4) [OF l t(1)] by (cases "n2_nblist t") (auto simp: nbrs_of_def)
    let ?k = "nl_nbr k"
    obtain e where e: "nh_nbr s ?k = Some e" using links_okD(6) [OF l t(1), of ?k] by (auto simp: nbrs_of_def ks)
    have via: "n = ?k" if "only_via M s0 n m" for n using that t0 t(2) ks by (auto simp: only_via_def nbrs_of_def)
    have P': "P rest cs'" if "sel_inv M s0 cs'" "mprs s \<subseteq> mprs (snd cs')" "?k \<in> mprs (snd cs')" for cs'
      unfolding P_def
    proof (intro conjI allI impI)
      fix n j
      assume j: "j \<in> set ms" "j \<notin> set rest" "only_via M s0 n j"
      show "n \<in> mprs (snd cs')"
      proof (cases "j = m")
        case True
        then show ?thesis using via j(3) that(3) by simp
      next
        case False
        then have "n \<in> mprs (snd cs1)" using P j unfolding P_def by auto
        then show ?thesis using that(2) by (auto simp: cs)
      qed
    qed (use P that in \<open>auto simp: P_def cs\<close>)
    show "\<exists>cs'. (case cs1 of (count, s) \<Rightarrow> do { t \<leftarrow> nh_two s m;
        case n2_nblist t of [] \<Rightarrow> None
        | l # _ \<Rightarrow> do { e \<leftarrow> nh_nbr s (nl_nbr l); if nb_is_mpr e then Some (count, s) else olsr_chosen_mpr M cov (nl_nbr l) (count, s) } }) = Some cs' \<and> P rest cs'"
    proof (cases "nb_is_mpr e")
      case True
      then have "?k \<in> mprs s" using e by (auto simp: mprs_def)
      then have "P rest (c, s)" by (intro P' inv1) auto
      then show ?thesis using True e t(1) ks by (simp add: cs)
    next
      case False
      from sel_step [OF inv1, of ?k e cov] e False obtain cs' where cs': "olsr_chosen_mpr M cov ?k (c, s) = Some cs'" "sel_inv M s0 cs'"
        "mprs (snd cs') = insert ?k (mprs s)" by auto
      then have "P rest cs'" by (intro P') auto
      then show ?thesis using False e t(1) ks cs'(1) by (simp add: cs)
    qed
  qed
  then show ?thesis by (auto simp: P_def)
qed

lemma find_maximum_ok:
  assumes ok: "nbr_ok s"
  shows "\<exists>r. olsr_find_maximum_covered will s = Some r \<and>
    (\<forall>n. r = Some n \<longrightarrow> (\<exists>e. nh_nbr s n = Some e \<and> \<not> nb_is_mpr e \<and> nb_will e = will))"
proof -
  define P where "P = (\<lambda>(rest :: nat list) (mx :: u16, cand :: nat option).
    \<forall>n. cand = Some n \<longrightarrow> (\<exists>e. nh_nbr s n = Some e \<and> \<not> nb_is_mpr e \<and> nb_will e = will))"
  have "\<exists>r. iter (all_nbrs s) (\<lambda>n (maximum, candidate). do {
       e \<leftarrow> nh_nbr s n;
       Some (if \<not> nb_is_mpr e \<and> nb_will e = will \<and> uint (maximum :: u16) < nb_nocov e
             then (word_of_int (nb_nocov e), Some n) else (maximum, candidate)) }) (0, None) = Some r \<and> P [] r"
  proof (rule iter_rest_total)
    fix n rest mc
    assume n: "n \<in> set (all_nbrs s)" and "P (n # rest) mc"
    moreover obtain e where "nh_nbr s n = Some e" using n all_nbrs_ok(1) [OF ok] by blast
    ultimately show "\<exists>s'. (case mc of (maximum, candidate) \<Rightarrow> do { e \<leftarrow> nh_nbr s n;
       Some (if \<not> nb_is_mpr e \<and> nb_will e = will \<and> uint (maximum :: u16) < nb_nocov e
             then (word_of_int (nb_nocov e), Some n) else (maximum, candidate)) }) = Some s' \<and> P rest s'"
      by (auto simp: P_def split: prod.splits)
  qed (simp add: P_def)
  then show ?thesis by (auto simp: olsr_find_maximum_covered_def P_def)
qed

text \<open>Every round makes one more neighbour a relay.\<close>

lemma choose_maximum_ok:
  assumes "nbr_ok s0" "sel_inv M s0 cs"
  shows "\<exists>b cs'. choose_maximum M cov w will cs = Some (b, cs') \<and> sel_inv M s0 cs' \<and> mprs (snd cs) \<subseteq> mprs (snd cs') \<and>
    (b \<longrightarrow> w \<le> fst cs')"
  using assms(2)
proof (induction "card (dom (nh_nbr s0) - mprs (snd cs))" arbitrary: cs rule: less_induct)
  case less
  obtain c s where cs: "cs = (c, s)" by force
  note i = sel_invD(1,2) [OF less.prems [unfolded cs]]
  obtain r where r: "olsr_find_maximum_covered will s = Some r"
    "\<And>n. r = Some n \<Longrightarrow> \<exists>e. nh_nbr s n = Some e \<and> \<not> nb_is_mpr e" using find_maximum_ok [OF i(1)] by blast
  show ?case
  proof (cases r)
    case None
    then show ?thesis using r(1) less.prems by (intro exI [of _ False] exI [of _ cs]) (simp add: cs choose_maximum.simps)
  next
    case (Some n)
    then obtain e where e: "nh_nbr s n = Some e" "\<not> nb_is_mpr e" using r(2) by blast
    obtain cs1 where cs1: "olsr_chosen_mpr M cov n cs = Some cs1" "sel_inv M s0 cs1" "mprs (snd cs1) = insert n (mprs s)"
      using sel_step [OF less.prems, of n e cov] e by (auto simp: cs)
    show ?thesis
    proof (cases "w \<le> fst cs1")
      case True
      then show ?thesis using r(1) Some cs1 by (subst choose_maximum.simps) (auto simp: cs)
    next
      case False
      have "n \<in> dom (nh_nbr s0) - mprs s" using e shape_dom(2) [OF i(2)] by (auto simp: mprs_def)
      then have "card (dom (nh_nbr s0) - mprs (snd cs1)) < card (dom (nh_nbr s0) - mprs (snd cs))"
        using nbr_okD(4) [OF assms(1)] by (intro psubset_card_mono) (auto simp: cs1(3) cs)
      from less.hyps [OF this cs1(2)] obtain b cs2 where "choose_maximum M cov w will cs1 = Some (b, cs2)" "sel_inv M s0 cs2"
        "mprs (snd cs1) \<subseteq> mprs (snd cs2)" "b \<longrightarrow> w \<le> fst cs2" by blast
      then show ?thesis using r(1) Some cs1 False by (subst choose_maximum.simps) (auto simp: cs)
    qed
  qed
qed

text \<open>The neighbour that a strict two-hop neighbour depends on.\<close>

definition single_relay :: "mid_set \<Rightarrow> nbrhood \<Rightarrow> nat \<Rightarrow> nat \<Rightarrow> bool" where
  "single_relay M s n i \<longleftrightarrow> (\<exists>m e. only_via M s n m \<and> nh_nbr s n = Some e \<and> nb_status e = SYM \<and> nb_will e = of_nat i)"

lemma single_relay_weight:
  assumes ok: "nbr_ok s" and n: "single_relay M s n i"
  shows "n \<in> sym_nbrs s" "0 < weight M s n"
proof -
  obtain m e t where m: "strict M s m" "nh_two s m = Some t" "nbrs_of t = [n]" "nh_nbr s n = Some e" "nb_status e = SYM"
    using n by (auto simp: single_relay_def only_via_def)
  then show "n \<in> sym_nbrs s" by (auto simp: sym_nbrs_def)
  have "m \<in> set (twos_at s n)" using links_okD(6) [OF nbr_okD(3) [OF ok] m(2), of n] m(3,4) by (simp add: twos_at_def)
  then have "filter (strict M s) (twos_at s n) \<noteq> []" using m(1) by (metis filter_empty_conv)
  then show "0 < weight M s n" by (simp add: weight_def)
qed

lemma mpr_levels_ok:
  assumes ok: "nbr_ok s0" and inv: "sel_inv M s0 cs"
  shows "\<exists>cs'. mpr_levels M cov w i cs = Some cs' \<and> sel_inv M s0 cs' \<and> mprs (snd cs) \<subseteq> mprs (snd cs') \<and>
    (only_sym M s0 \<longrightarrow> (\<Sum>n \<in> sym_nbrs s0. weight M s0 n) \<le> unat w \<longrightarrow>
      (\<forall>n. \<forall>j \<in> {1..i}. single_relay M s0 n j \<longrightarrow> n \<in> mprs (snd cs')))"
  using inv
proof (induction i arbitrary: cs)
  case (Suc i)
  let ?will = "of_nat (Suc i) :: byte"
  obtain c s where cs: "cs = (c, s)" by force
  have good: "n \<in> mprs (snd cs')"
    if "sel_inv M s0 cs'" "w \<le> fst cs'" "only_sym M s0" "(\<Sum>n \<in> sym_nbrs s0. weight M s0 n) \<le> unat w" "single_relay M s0 n j" for cs' n j
    using not_before [of M s0 "fst cs'" "snd cs'", OF _ ok that(3,4,2) single_relay_weight [OF ok that(5)]] that(1) by simp
  note i = sel_invD(1,2) [OF Suc.prems [unfolded cs]]
  obtain ms where ms: "olsr_find_2_hop_neighbors_with_1_link M ?will s = Some ms" "\<forall>m \<in> set ms. \<exists>t. nh_two s m = Some t"
    "\<And>n m e. only_via M s n m \<Longrightarrow> nh_nbr s n = Some e \<Longrightarrow> nb_will e = ?will \<Longrightarrow> nb_status e = SYM \<Longrightarrow> m \<in> set ms"
    using find_one_link_ok [OF i(1)] by metis
  have ms0: "\<forall>m \<in> set ms. \<exists>t. nh_two s0 m = Some t" using ms(2) shape_dom(1) [OF i(2)] by blast
  obtain cs1 where cs1: "choose_one_links M cov ms cs = Some cs1" "sel_inv M s0 cs1" "mprs (snd cs) \<subseteq> mprs (snd cs1)"
    "\<And>n m. m \<in> set ms \<Longrightarrow> only_via M s0 n m \<Longrightarrow> n \<in> mprs (snd cs1)"
    using choose_one_links_ok [OF ok ms0 Suc.prems] by blast
  have here: "n \<in> mprs (snd cs1)" if n: "single_relay M s0 n (Suc i)" for n
  proof -
    obtain m e0 where e0: "only_via M s0 n m" "nh_nbr s0 n = Some e0" "nb_status e0 = SYM" "nb_will e0 = ?will"
      using n unfolding single_relay_def by blast
    obtain e where e: "nh_nbr s n = Some e" "nb_status e = SYM" "nb_will e = ?will"
      using shape_nbr [OF i(2) e0(2)] e0(3,4) by metis
    obtain t0 where t0: "nh_two s0 m = Some t0" "nbrs_of t0 = [n]" "strict M s0 m" using e0(1) unfolding only_via_def by blast
    obtain t where "nh_two s m = Some t" "n2_nblist t = n2_nblist t0" by (rule shape_two [OF i(2) t0(1)])
    then have "only_via M s n m" using t0 shape_strict [OF i(2)] by (simp add: only_via_def nbrs_of_def)
    then show ?thesis using cs1(4) ms(3) e e0(1) by blast
  qed
  show ?case
  proof (cases "w \<le> fst cs1")
    case True
    then show ?thesis using ms(1) cs1(1-3) good [OF cs1(2)] by (auto simp: cs)
  next
    case False
    obtain b cs2 where cs2: "choose_maximum M cov w ?will cs1 = Some (b, cs2)" "sel_inv M s0 cs2" "mprs (snd cs1) \<subseteq> mprs (snd cs2)" "b \<longrightarrow> w \<le> fst cs2"
      using choose_maximum_ok [OF ok cs1(2)] by blast
    show ?thesis
    proof (cases b)
      case True
      then show ?thesis using ms(1) cs1(1,3) cs2 False good [OF cs2(2)] by (auto simp: cs)
    next
      case no: False
      obtain cs3 where cs3: "mpr_levels M cov w i cs2 = Some cs3" "sel_inv M s0 cs3" "mprs (snd cs2) \<subseteq> mprs (snd cs3)"
        "only_sym M s0 \<longrightarrow> (\<Sum>n \<in> sym_nbrs s0. weight M s0 n) \<le> unat w \<longrightarrow>
          (\<forall>n. \<forall>j \<in> {1..i}. single_relay M s0 n j \<longrightarrow> n \<in> mprs (snd cs3))" using Suc.IH [OF cs2(2)] by blast
      have run: "mpr_levels M cov w (Suc i) cs = Some cs3"
        using ms(1) cs1(1) cs2(1) cs3(1) False no by (simp add: cs)
      have "n \<in> mprs (snd cs3)"
        if "only_sym M s0" "(\<Sum>n \<in> sym_nbrs s0. weight M s0 n) \<le> unat w" "j \<in> {1..Suc i}" "single_relay M s0 n j" for n j
      proof (cases "j = Suc i")
        case True
        then show ?thesis using here that(4) cs2(3) cs3(3) by blast
      next
        case False
        then have "j \<in> {1..i}" using that(3) by auto
        then show ?thesis using cs3(4) that by blast
      qed
      then show ?thesis using run cs3(2,3) cs2(3) cs1(3) by blast
    qed
  qed
qed simp

section \<open>Optimising\<close>

lemma needed_by_ok:
  assumes ok: "nbr_ok s" and ls: "\<forall>l \<in> set ls. \<exists>t. nh_two s (l2_two l) = Some t"
  shows "needed_by M cov ls s = Some (\<exists>l \<in> set ls. strict M s (l2_two l) \<and> unat (covered s (l2_two l)) \<le> cov)"
proof -
  have "iter ls (\<lambda>l needed. do { t \<leftarrow> nh_two s (l2_two l); st \<leftarrow> one_hop_status M t s;
      Some (needed \<or> (st \<noteq> Some SYM \<and> unat (n2_covered t) \<le> cov)) }) b =
    Some (b \<or> (\<exists>l \<in> set ls. strict M s (l2_two l) \<and> unat (covered s (l2_two l)) \<le> cov))" for b
    using ls
  proof (induction ls arbitrary: b)
    case (Cons l ls)
    obtain t where t: "nh_two s (l2_two l) = Some t" using Cons.prems by auto
    obtain r where "one_hop_status M t s = Some r" "r = Some SYM \<longleftrightarrow> \<not> strict M s (l2_two l)" using one_hop_status_ok [OF ok t] by blast
    then show ?case using Cons t by (auto simp: covered_def)
  qed simp
  from this [of False] show ?thesis by (simp add: needed_by_def)
qed

text \<open>A relay stays one as long as it reaches a strict two-hop neighbour whose coverage is not above the option.\<close>

definition dropped_from :: "nat \<Rightarrow> mid_set \<Rightarrow> nbrhood \<Rightarrow> nbrhood \<Rightarrow> bool" where
  "dropped_from cov M s u \<longleftrightarrow> same_shape s u \<and> covered u = covered s \<and> mprs u \<subseteq> mprs s \<and>
     (\<forall>n \<in> mprs s. (\<exists>m \<in> set (twos_at s n). strict M s m \<and> unat (covered s m) \<le> cov) \<longrightarrow> n \<in> mprs u)"

lemma optimize_one:
  assumes ok: "nbr_ok s" and u: "dropped_from cov M s u" and n: "n \<in> set (all_nbrs s)"
  shows "\<exists>u'. (do { e \<leftarrow> nh_nbr u n;
      if nb_will e = w \<and> nb_is_mpr e then do {
        needed \<leftarrow> needed_by M cov (nb_2_list e) u;
        if needed then Some u else upd_nbr n (nb_is_mpr_update (\<lambda>_. False)) u }
      else Some u }) = Some u' \<and> dropped_from cov M s u'"
proof -
  have sh: "same_shape s u" using u by (simp add: dropped_from_def)
  have oku: "nbr_ok u" by (rule shape_ok [OF ok sh])
  obtain e where e: "nh_nbr u n = Some e" using n all_nbrs_ok(1) [OF ok] shape_live [OF sh] by blast
  have live: "\<forall>l \<in> set (nb_2_list e). \<exists>t. nh_two u (l2_two l) = Some t"
    using links_okD(2) [OF nbr_okD(3) [OF oku] e] by (fastforce simp: twos_of_def)
  note needed = needed_by_ok [OF oku live, of M cov]
  let ?need = "\<exists>l \<in> set (nb_2_list e). strict M u (l2_two l) \<and> unat (covered u (l2_two l)) \<le> cov"
  show ?thesis
  proof (cases "nb_will e = w \<and> nb_is_mpr e \<and> \<not> ?need")
    case True
    define u' where "u' = u\<lparr>nh_nbr := (nh_nbr u)(n \<mapsto> e\<lparr>nb_is_mpr := False\<rparr>)\<rparr>"
    have u': "upd_nbr n (nb_is_mpr_update (\<lambda>_. False)) u = Some u'" "same_shape u u'"
      using upd_nbr_shape [OF e, of "nb_is_mpr_update (\<lambda>_. False)"] by (simp_all add: u'_def nbr_core_def)
    have m: "mprs u' = mprs u - {n}" by (auto simp: u'_def mprs_def)
    have c: "covered u' = covered u" by (simp add: u'_def fun_eq_iff)
    have tw: "set (twos_at s n) = l2_two ` set (nb_2_list e)" using shape_twos_at [OF sh, of n, symmetric] e by (simp add: twos_at_def twos_of_def)
    have "\<not> (\<exists>m \<in> set (twos_at s n). strict M s m \<and> unat (covered s m) \<le> cov)"
      using True u shape_strict [OF sh] unfolding tw dropped_from_def by auto
    then have "dropped_from cov M s u'"
      using u same_shape_trans [OF sh u'(2)] c m unfolding dropped_from_def by auto
    then show ?thesis using True e u'(1) needed by auto
  next
    case False
    then show ?thesis using u e needed by auto
  qed
qed

lemma optimize_ok:
  assumes ok: "nbr_ok s"
  shows "\<exists>u. olsr_optimize_mpr_set M cov s = Some u \<and> dropped_from cov M s u"
proof -
  have "dropped_from cov M s s" by (simp add: dropped_from_def)
  then show ?thesis
    unfolding olsr_optimize_mpr_set_def
  proof (rule iter_rest_total)
    fix i is' u
    assume u: "dropped_from cov M s u"
    have all: "all_nbrs u = all_nbrs s" using shape_all(1) u by (simp add: dropped_from_def)
    show "\<exists>s'. iter (all_nbrs u) (\<lambda>n s. do { e \<leftarrow> nh_nbr s n;
      if nb_will e = of_nat i \<and> nb_is_mpr e then do {
        needed \<leftarrow> needed_by M cov (nb_2_list e) s;
        if needed then Some s else upd_nbr n (nb_is_mpr_update (\<lambda>_. False)) s }
      else Some s }) u = Some s' \<and> dropped_from cov M s s'"
      unfolding all by (rule iter_rest_total [where P = "\<lambda>_. dropped_from cov M s", OF u]) (rule optimize_one [OF ok])
  qed
qed

lemma check_changes_ok:
  assumes ok: "nbr_ok s"
  shows "\<exists>b u. olsr_check_mpr_changes s = Some (b, u) \<and> same_shape s u \<and> mprs u = mprs s"
proof -
  define P where "P = (\<lambda>(rest :: nat list) (b :: bool, u). same_shape s u \<and> mprs u = mprs s)"
  have "\<exists>bu. olsr_check_mpr_changes s = Some bu \<and> P [] bu"
    unfolding olsr_check_mpr_changes_def
  proof (rule iter_rest_total)
    fix n rest bu
    assume n: "n \<in> set (all_nbrs s)" and P: "P (n # rest) bu"
    obtain b u where bu: "bu = (b, u)" by force
    have sh: "same_shape s u" "mprs u = mprs s" using P by (simp_all add: P_def bu)
    obtain e where e: "nh_nbr u n = Some e" using n all_nbrs_ok(1) [OF ok] shape_live [OF sh(1)] by blast
    have u: "upd_nbr n (nb_was_mpr_update (\<lambda>_. False)) u = Some (u\<lparr>nh_nbr := (nh_nbr u)(n \<mapsto> e\<lparr>nb_was_mpr := False\<rparr>)\<rparr>)"
      "same_shape u (u\<lparr>nh_nbr := (nh_nbr u)(n \<mapsto> e\<lparr>nb_was_mpr := False\<rparr>)\<rparr>)"
      using upd_nbr_shape [OF e, of "nb_was_mpr_update (\<lambda>_. False)"] by (simp_all add: nbr_core_def)
    show "\<exists>s'. (case bu of (changed, s) \<Rightarrow> do { e \<leftarrow> nh_nbr s n;
       if nb_was_mpr e then do { s \<leftarrow> upd_nbr n (nb_was_mpr_update (\<lambda>_. False)) s; Some (changed \<or> \<not> nb_is_mpr e, s) }
       else Some (changed, s) }) = Some s' \<and> P rest s'"
      using e u sh same_shape_trans [OF sh(1) u(2)] by (simp add: bu P_def mprs_upd [OF e])
  qed (simp add: P_def)
  then show ?thesis by (auto simp: P_def)
qed

section \<open>The selection as a whole\<close>

lemma mpr_selection_ok:
  assumes ok: "nbr_ok s"
  shows "\<exists>c u. mpr_selection M cov s = Some u \<and> sel_inv M s (c, u) \<and> always_nbrs s \<subseteq> mprs u \<and>
    (only_sym M s \<longrightarrow> card (dom (nh_nbr s)) * card (dom (nh_two s)) < 2 ^ 16 \<longrightarrow> (\<forall>n. \<forall>j \<in> {1..6}. single_relay M s n j \<longrightarrow> n \<in> mprs u))"
proof -
  obtain s1 where s1: "olsr_clear_mprs s = Some s1" "same_shape s s1" "mprs s1 = {}" "\<forall>m. covered s1 m = 0"
    using clear_mprs_ok [OF ok] by blast
  have ok1: "nbr_ok s1" by (rule shape_ok [OF ok s1(2)])
  obtain w s2 where s2: "olsr_calculate_two_hop_neighbors M s1 = Some (w, s2)" "same_relays s1 s2"
    "card (dom (nh_nbr s1)) * card (dom (nh_two s1)) < 2 ^ 16 \<longrightarrow> (\<Sum>n \<in> sym_nbrs s1. weight M s1 n) \<le> unat w"
    using calculate_two_hop_ok [OF ok1] by blast
  have sh: "same_shape s s2" using same_shape_trans [OF s1(2)] s2(2) by (simp add: same_relays_def)
  have "sel_inv M s (0, s2)"
    using shape_ok [OF ok sh] sh s1(3,4) s2(2) by (simp add: sel_inv_def same_relays_def)
  from will_always_ok [OF this ok, of cov] s1(3) s2(2) obtain cs where cs: "add_will_always_nodes M cov s2 = Some cs" "sel_inv M s cs"
    "always_nbrs s \<subseteq> mprs (snd cs)" by (auto simp: same_relays_def)
  obtain c u where u: "mpr_levels M cov w 6 cs = Some (c, u)" "sel_inv M s (c, u)" "mprs (snd cs) \<subseteq> mprs u"
    "only_sym M s \<longrightarrow> (\<Sum>n \<in> sym_nbrs s. weight M s n) \<le> unat w \<longrightarrow> (\<forall>n. \<forall>j \<in> {1..6}. single_relay M s n j \<longrightarrow> n \<in> mprs u)"
    using mpr_levels_ok [OF ok cs(2), of cov w 6] by auto
  have "sym_nbrs s1 = sym_nbrs s"
    unfolding sym_nbrs_def by (rule Collect_cong) (metis same_shape_sym s1(2) shape_nbr)
  then have "card (dom (nh_nbr s)) * card (dom (nh_two s)) < 2 ^ 16 \<longrightarrow> (\<Sum>n \<in> sym_nbrs s. weight M s n) \<le> unat w"
    using s2(3) shape_dom [OF s1(2)] shape_weight [OF s1(2)] by simp
  moreover have "mpr_selection M cov s = Some u" using s1(1) s2(1) cs(1) u(1) by (simp add: mpr_selection_def)
  ultimately show ?thesis using u(2,3,4) cs(3) by blast
qed

lemma calculate_mpr_ok:
  assumes ok: "nbr_ok s"
  shows "\<exists>s'. olsr_calculate_mpr cf M s = Some s' \<and> nbr_ok s' \<and> same_shape s s' \<and>
    (only_sym M s \<longrightarrow> card (dom (nh_nbr s)) * card (dom (nh_two s)) < 2 ^ 16 \<longrightarrow> 1 \<le> cf_mpr_coverage cf \<longrightarrow>
      (\<forall>n. \<forall>j \<in> {1..7}. single_relay M s n j \<longrightarrow> n \<in> mprs s'))"
proof -
  let ?cov = "cf_mpr_coverage cf"
  obtain c u where u: "mpr_selection M ?cov s = Some u" "sel_inv M s (c, u)" "always_nbrs s \<subseteq> mprs u"
    "only_sym M s \<longrightarrow> card (dom (nh_nbr s)) * card (dom (nh_two s)) < 2 ^ 16 \<longrightarrow> (\<forall>n. \<forall>j \<in> {1..6}. single_relay M s n j \<longrightarrow> n \<in> mprs u)"
    using mpr_selection_ok [OF ok, of M ?cov] by blast
  note i = sel_invD(1,2,4) [OF u(2)]
  obtain v where v: "olsr_optimize_mpr_set M ?cov u = Some v" "dropped_from ?cov M u v" using optimize_ok [OF i(1)] by blast
  have shv: "same_shape u v" using v(2) by (simp add: dropped_from_def)
  obtain b x where x: "olsr_check_mpr_changes v = Some (b, x)" "same_shape v x" "mprs x = mprs v"
    using check_changes_ok [OF shape_ok [OF i(1) shv]] by blast
  define s' where "s' = (if b \<and> cf_tc_redundancy cf > 0 then x\<lparr>nh_signal := True\<rparr> else x)"
  have run: "olsr_calculate_mpr cf M s = Some s'" using u(1) v(1) x(1) by (simp add: olsr_calculate_mpr_def s'_def)
  have "same_shape s x" by (rule same_shape_trans [OF same_shape_trans [OF i(2) shv] x(2)])
  moreover have "same_shape x s'" "mprs s' = mprs x" by (simp_all add: s'_def same_shape_def mprs_def)
  ultimately have sh: "same_shape s s'" "mprs s' = mprs v" using same_shape_trans x(3) by auto
  have "n \<in> mprs s'" if hyps: "only_sym M s" "card (dom (nh_nbr s)) * card (dom (nh_two s)) < 2 ^ 16" "1 \<le> ?cov" "j \<in> {1..7}" "single_relay M s n j" for n j
  proof -
    obtain m e where e: "only_via M s n m" "nh_nbr s n = Some e" "nb_status e = SYM" "nb_will e = of_nat j"
      using hyps(5) unfolding single_relay_def by blast
    have n: "n \<in> mprs u"
    proof (cases "j = 7")
      case True
      then have "n \<in> always_nbrs s" using e by (simp add: always_nbrs_def will_always_def)
      then show ?thesis using u(3) by blast
    next
      case False
      then have "j \<in> {1..6}" using hyps(4) by auto
      then show ?thesis using u(4) hyps by blast
    qed
    obtain t where t: "strict M s m" "nh_two s m = Some t" "nbrs_of t = [n]" using e(1) unfolding only_via_def by blast
    have "m \<in> set (twos_at s n)" using links_okD(6) [OF nbr_okD(3) [OF ok] t(2), of n] t(3) e(2) by (simp add: twos_at_def)
    moreover have "strict M u m" "covered u m = 1" using i(3) [OF e(1)] n t(1) shape_strict [OF i(2)] by simp_all
    ultimately have "\<exists>m \<in> set (twos_at u n). strict M u m \<and> unat (covered u m) \<le> ?cov"
      using shape_twos_at [OF i(2)] hyps(3) by (intro bexI [of _ m]) simp_all
    then show ?thesis using v(2) n sh(2) by (simp add: dropped_from_def)
  qed
  then show ?thesis using run shape_ok [OF ok sh(1)] sh(1) by blast
qed

end
