(* ===== verification/Lq_Mpr.thy ===== *)
theory Lq_Mpr imports Mpr_Relay begin

text \<open>
  The selection of multipoint relays by link quality (\<open>lq_mpr.c\<close>), which replaces the selection of \<open>mpr.c\<close> when the
  daemon runs with link quality. \<open>best_link\<close> gives the cost of the best link to a neighbour, from the link set.
\<close>

section \<open>The code\<close>

definition lq_clear_mprs :: "nbrhood \<Rightarrow> (bool \<times> nbrhood) option" where
  "lq_clear_mprs s = iter (all_nbrs s) (\<lambda>n (changes, s). do {
     s \<leftarrow> upd_nbr n (\<lambda>e. e\<lparr>nb_was_mpr := nb_is_mpr e, nb_is_mpr := False\<rparr>) s;
     e \<leftarrow> nh_nbr s n;
     if nb_status e = NOT_SYM \<or> nb_will e \<noteq> will_always then Some (changes, s)
     else do {
       s \<leftarrow> upd_nbr n (nb_is_mpr_update (\<lambda>_. True)) s;
       Some (changes \<or> \<not> nb_was_mpr e, s) } }) (False, s)"

text \<open>The cost that a path has to beat, or nothing if the two-hop neighbour is skipped.\<close>

definition lq_best_1hop :: "mid_set \<Rightarrow> (ip_addr \<Rightarrow> ulong option) \<Rightarrow> neighbor_2_entry \<Rightarrow> nbrhood \<Rightarrow> ulong option option" where
  "lq_best_1hop M best_link t s = do {
     dup \<leftarrow> olsr_lookup_neighbor_table M (n2_addr t) s;
     case dup of
       None \<Rightarrow> Some (Some link_cost_broken)
     | Some d \<Rightarrow> do {
         e \<leftarrow> nh_nbr s d;
         if nb_status e = SYM
         then Some (case best_link (nb_addr e) of
                      None \<Rightarrow> None
                    | Some cost \<Rightarrow> if list_ex (\<lambda>l. nl_path l < cost) (n2_nblist t) then Some cost else None)
         else Some (Some link_cost_broken) } }"

definition lq_best :: "nb_link list \<Rightarrow> nbrhood \<Rightarrow> (nat option \<times> ulong) option" where
  "lq_best ls s = iter ls (\<lambda>l (neigh, best). do {
     e \<leftarrow> nh_nbr s (nl_nbr l);
     Some (if nb_status e = SYM \<and> \<not> nb_skip e \<and> nl_path l < best then (Some (nl_nbr l), nl_path l) else (neigh, best)) })
     (None, link_cost_broken)"

primrec lq_choose :: "nb_link list \<Rightarrow> ulong \<Rightarrow> nat \<Rightarrow> bool \<times> nbrhood \<Rightarrow> (bool \<times> nbrhood) option" where
  "lq_choose ls best_1hop 0 cs = Some cs"
| "lq_choose ls best_1hop (Suc k) cs = do {
     (neigh, best) \<leftarrow> lq_best ls (snd cs);
     case neigh of
       None \<Rightarrow> Some cs
     | Some n \<Rightarrow>
         if best < best_1hop then do {
           s \<leftarrow> upd_nbr n (\<lambda>e. e\<lparr>nb_is_mpr := True, nb_skip := True\<rparr>) (snd cs);
           e \<leftarrow> nh_nbr s n;
           lq_choose ls best_1hop k (fst cs \<or> \<not> nb_was_mpr e, s) }
         else Some cs }"

definition lq_cover_two :: "mid_set \<Rightarrow> (ip_addr \<Rightarrow> ulong option) \<Rightarrow> nat \<Rightarrow> nat \<Rightarrow> bool \<times> nbrhood \<Rightarrow> (bool \<times> nbrhood) option" where
  "lq_cover_two M best_link cov m = (\<lambda>(changes, s). do {
     t \<leftarrow> nh_two s m;
     limit \<leftarrow> lq_best_1hop M best_link t s;
     case limit of
       None \<Rightarrow> Some (changes, s)
     | Some best_1hop \<Rightarrow> do {
         s \<leftarrow> iter (n2_nblist t) (\<lambda>l. upd_nbr (nl_nbr l) (nb_skip_update (\<lambda>_. False))) s;
         lq_choose (n2_nblist t) best_1hop cov (changes, s) } })"

definition olsr_calculate_lq_mpr :: "olsr_conf \<Rightarrow> mid_set \<Rightarrow> (ip_addr \<Rightarrow> ulong option) \<Rightarrow> nbrhood \<Rightarrow> nbrhood option" where
  "olsr_calculate_lq_mpr cf M best_link s = do {
     cs \<leftarrow> lq_clear_mprs s;
     (changes, s) \<leftarrow> iter (all_twos s) (lq_cover_two M best_link (cf_mpr_coverage cf)) cs;
     Some (if changes \<and> cf_tc_redundancy cf > 0 then s\<lparr>nh_signal := True\<rparr> else s) }"

section \<open>Picking the cheapest\<close>

text \<open>The loop that looks for the cheapest candidate finds the first of the stably sorted candidates.\<close>

lemma hd_filter_sort:
  fixes f :: "'a \<Rightarrow> 'b :: linorder"
  assumes down: "\<And>x y. Q y \<Longrightarrow> f x \<le> f y \<Longrightarrow> Q x"
  shows "(case filter Q (sort_key f xs) of [] \<Rightarrow> \<forall>x \<in> set xs. \<not> Q x | x # _ \<Rightarrow> Q x \<and> x = hd (sort_key f xs) \<and> xs \<noteq> [])"
proof (cases "sort_key f xs")
  case Nil
  then have "xs = []" by (metis length_0_conv length_sort)
  then show ?thesis by simp
next
  case (Cons y ys)
  have s: "sorted (map f (y # ys))" using sorted_sort_key [of f xs] Cons by simp
  have set: "set xs = set (y # ys)" using set_sort [of f xs] Cons by simp
  show ?thesis
  proof (cases "Q y")
    case True
    then show ?thesis using Cons by auto
  next
    case False
    then have none: "\<forall>x \<in> set (y # ys). \<not> Q x" using down s by auto
    then have "filter Q (y # ys) = []" by simp
    then show ?thesis using none Cons set by simp
  qed
qed

lemma hd_insort: "f x \<le> f (hd ys) \<or> ys = [] \<Longrightarrow> insort_key f x ys = x # ys"
  by (cases ys) auto

fun cheaper :: "(nb_link \<Rightarrow> bool) \<Rightarrow> nb_link \<Rightarrow> nat option \<times> ulong \<Rightarrow> nat option \<times> ulong" where
  "cheaper P l (neigh, best) = (if P l \<and> nl_path l < best then (Some (nl_nbr l), nl_path l) else (neigh, best))"

lemma cheaper_fold:
  "fold (cheaper P) ls (neigh, best) =
    (case sort_key nl_path (filter (\<lambda>l. P l \<and> nl_path l < best) ls) of [] \<Rightarrow> (neigh, best) | l # _ \<Rightarrow> (Some (nl_nbr l), nl_path l))"
proof (induction ls arbitrary: neigh best)
  case (Cons l ls)
  show ?case
  proof (cases "P l \<and> nl_path l < best")
    case True
    let ?F = "filter (\<lambda>k. P k \<and> nl_path k < best) ls"
    let ?G = "filter (\<lambda>k. P k \<and> nl_path k < nl_path l) ls"
    have G: "sort_key nl_path ?G = filter (\<lambda>k. nl_path k < nl_path l) (sort_key nl_path ?F)"
      unfolding filter_sort using True by (auto intro!: arg_cong [where f = "sort_key nl_path"] filter_cong)
    have lhs: "fold (cheaper P) (l # ls) (neigh, best) = (case sort_key nl_path ?G of [] \<Rightarrow> (Some (nl_nbr l), nl_path l) | k # _ \<Rightarrow> (Some (nl_nbr k), nl_path k))"
      using True Cons.IH by simp
    have h: "case sort_key nl_path ?G of [] \<Rightarrow> \<forall>x \<in> set ?F. \<not> nl_path x < nl_path l
        | x # _ \<Rightarrow> nl_path x < nl_path l \<and> x = hd (sort_key nl_path ?F) \<and> ?F \<noteq> []"
      unfolding G by (rule hd_filter_sort) simp
    show ?thesis
    proof (cases "sort_key nl_path ?G")
      case Nil
      then have "nl_path l \<le> nl_path (hd (sort_key nl_path ?F)) \<or> sort_key nl_path ?F = []"
        using h set_sort [of nl_path ?F] by (metis (no_types, lifting) hd_in_set list.simps(4) not_le)
      then show ?thesis using lhs Nil True by (simp add: hd_insort)
    next
      case (Cons k ks)
      then have k: "nl_path k < nl_path l" "k = hd (sort_key nl_path ?F)" "?F \<noteq> []" using h [unfolded Cons list.case] by blast+
      have "length (sort_key nl_path ?F) \<noteq> 0" using k(3) by (simp only: length_sort length_0_conv not_False_eq_True)
      then have "sort_key nl_path ?F \<noteq> []" by (simp only: length_0_conv not_False_eq_True)
      then have "hd (sort_key nl_path ?F) # tl (sort_key nl_path ?F) = sort_key nl_path ?F" by (rule list.collapse)
      then have us: "sort_key nl_path ?F = k # tl (sort_key nl_path ?F)" unfolding k(2) [symmetric] by (rule sym)
      define us where "us = tl (sort_key nl_path ?F)"
      note us = us [folded us_def]
      have "sort_key nl_path (filter (\<lambda>k. P k \<and> nl_path k < best) (l # ls)) = insort_key nl_path l (k # us)"
        using True by (simp add: us)
      then have "sort_key nl_path (filter (\<lambda>k. P k \<and> nl_path k < best) (l # ls)) = k # insort_key nl_path l us"
        using k(1) by (simp only: insort_key.simps not_le [symmetric] if_False)
      then show ?thesis unfolding lhs by (simp only: Cons list.case)
    qed
  next
    case False
    then show ?thesis using Cons.IH by auto
  qed
qed simp

text \<open>Taking the first of the sorted candidates out leaves the rest sorted.\<close>

lemma sort_tl:
  assumes "sort_key f xs = y # ys" "distinct xs"
  shows "sort_key f (filter (\<lambda>x. x \<noteq> y) xs) = ys"
proof -
  have "distinct (y # ys)" using assms by (metis distinct_sort)
  then have "filter (\<lambda>x. x \<noteq> y) (y # ys) = ys" by (auto simp: filter_id_conv)
  then show ?thesis using assms(1) filter_sort [of "\<lambda>x. x \<noteq> y" f xs] by simp
qed

end
