(* ===== verification/Lq_Select.thy ===== *)
theory Lq_Select imports Lq_Mpr begin

text \<open>
  The selection by link quality against a reference: the relays are the symmetric neighbours that always relay and, for
  every two-hop neighbour that needs one, the first \<open>mpr_coverage\<close> of its links sorted by the cost of the path.
\<close>

section \<open>The reference\<close>

definition link_sym :: "nbrhood \<Rightarrow> nb_link \<Rightarrow> bool" where
  "link_sym s l \<longleftrightarrow> nl_nbr l \<in> sym_nbrs s"

text \<open>The cost of the direct link to a two-hop neighbour that is a symmetric neighbour too.\<close>

definition direct_cost :: "mid_set \<Rightarrow> (ip_addr \<Rightarrow> ulong option) \<Rightarrow> nbrhood \<Rightarrow> neighbor_2_entry \<Rightarrow> ulong option" where
  "direct_cost M best_link s t =
     (if \<exists>n \<in> sym_nbrs s. \<exists>e. nh_nbr s n = Some e \<and> nb_addr e = olsr_main_addr M (n2_addr t)
      then best_link (olsr_main_addr M (n2_addr t)) else Some link_cost_broken)"

definition lq_relays :: "mid_set \<Rightarrow> (ip_addr \<Rightarrow> ulong option) \<Rightarrow> nat \<Rightarrow> nbrhood \<Rightarrow> nat \<Rightarrow> nat set" where
  "lq_relays M best_link cov s m =
     (case nh_two s m of None \<Rightarrow> {} | Some t \<Rightarrow>
       (case direct_cost M best_link s t of None \<Rightarrow> {} | Some cost \<Rightarrow>
          nl_nbr ` set (take cov (sort_key nl_path
            (filter (\<lambda>l. link_sym s l \<and> nl_path l < cost \<and> nl_path l < link_cost_broken) (n2_nblist t))))))"

section \<open>The choice for one two-hop neighbour\<close>

definition unskipped :: "nbrhood \<Rightarrow> nb_link \<Rightarrow> bool" where
  "unskipped s l \<longleftrightarrow> (\<exists>e. nh_nbr s (nl_nbr l) = Some e \<and> nb_status e = SYM \<and> \<not> nb_skip e)"

definition was_set :: "nbrhood \<Rightarrow> nat set" where
  "was_set s = {n. \<exists>e. nh_nbr s n = Some e \<and> nb_was_mpr e}"

lemma lq_best_eq:
  assumes "\<forall>l \<in> set ls. \<exists>e. nh_nbr s (nl_nbr l) = Some e"
  shows "lq_best ls s =
    Some (case sort_key nl_path (filter (\<lambda>l. unskipped s l \<and> nl_path l < link_cost_broken) ls) of
      [] \<Rightarrow> (None, link_cost_broken) | l # _ \<Rightarrow> (Some (nl_nbr l), nl_path l))"
proof -
  have "lq_best ls s = Some (fold (cheaper (unskipped s)) ls (None, link_cost_broken))"
    unfolding lq_best_def
  proof (rule iter_Some_fold)
    fix l nb
    assume "l \<in> set ls"
    then obtain e where "nh_nbr s (nl_nbr l) = Some e" using assms by blast
    then show "(case nb of (neigh, best) \<Rightarrow> do { e \<leftarrow> nh_nbr s (nl_nbr l);
        Some (if nb_status e = SYM \<and> \<not> nb_skip e \<and> nl_path l < best then (Some (nl_nbr l), nl_path l) else (neigh, best)) }) =
      Some (cheaper (unskipped s) l nb)" by (cases nb) (simp add: unskipped_def)
  qed
  then show ?thesis by (simp only: cheaper_fold)
qed

abbreviation lq_candidates :: "nbrhood \<Rightarrow> ulong \<Rightarrow> nb_link list \<Rightarrow> nb_link list" where
  "lq_candidates s b ls \<equiv> sort_key nl_path (filter (\<lambda>l. unskipped s l \<and> nl_path l < b \<and> nl_path l < link_cost_broken) ls)"

lemma candidates_filter:
  "lq_candidates s b ls = filter (\<lambda>l. nl_path l < b) (sort_key nl_path (filter (\<lambda>l. unskipped s l \<and> nl_path l < link_cost_broken) ls))"
  unfolding filter_sort by (auto intro!: arg_cong [where f = "sort_key nl_path"] filter_cong)

text \<open>One choice marks the cheapest link and leaves the others.\<close>

lemma mark_relay:
  assumes n: "nh_nbr s n = Some e" and f: "f = (\<lambda>e. e\<lparr>nb_is_mpr := True, nb_skip := True\<rparr>)" and s1: "s1 = s\<lparr>nh_nbr := (nh_nbr s)(n \<mapsto> f e)\<rparr>"
  shows "upd_nbr n f s = Some s1" "same_shape s s1" "nh_two s1 = nh_two s" "mprs s1 = insert n (mprs s)" "was_set s1 = was_set s"
    "nh_signal s1 = nh_signal s" "nh_nbr s1 n = Some (f e)" "unskipped s1 l \<longleftrightarrow> unskipped s l \<and> nl_nbr l \<noteq> n"
  using n by (auto simp: f s1 upd_nbr_def same_shape_def nbr_core_def mprs_def was_set_def unskipped_def)

lemma lq_choose_ok:
  assumes "\<forall>l \<in> set ls. \<exists>e. nh_nbr s (nl_nbr l) = Some e" "distinct (map nl_nbr ls)"
  shows "\<exists>s'. lq_choose ls b k (ch, s) = Some (ch \<or> \<not> nl_nbr ` set (take k (lq_candidates s b ls)) \<subseteq> was_set s, s') \<and>
    same_shape s s' \<and> nh_two s' = nh_two s \<and> nh_signal s' = nh_signal s \<and> was_set s' = was_set s \<and> mprs s' = mprs s \<union> nl_nbr ` set (take k (lq_candidates s b ls))"
  using assms(1)
proof (induction k arbitrary: ch s)
  case (Suc k)
  let ?Z = "sort_key nl_path (filter (\<lambda>l. unskipped s l \<and> nl_path l < link_cost_broken) ls)"
  note best = lq_best_eq [OF Suc.prems]
  show ?case
  proof (cases ?Z)
    case Nil
    then have "lq_candidates s b ls = []" unfolding candidates_filter by simp
    then show ?thesis using best Nil by simp
  next
    case (Cons l zs)
    show ?thesis
    proof (cases "nl_path l < b")
      case False
      have "\<forall>z \<in> set zs. nl_path l \<le> nl_path z" using sorted_sort_key [of nl_path "filter (\<lambda>l. unskipped s l \<and> nl_path l < link_cost_broken) ls"] Cons by simp
      then have "\<forall>z \<in> set (l # zs). \<not> nl_path z < b" using False by auto
      then have "filter (\<lambda>l. nl_path l < b) (l # zs) = []" by (simp add: filter_empty_conv)
      then have "lq_candidates s b ls = []" unfolding candidates_filter Cons .
      then show ?thesis using best False by (simp add: Cons)
    next
      case True
      let ?D = "filter (\<lambda>l. unskipped s l \<and> nl_path l < b \<and> nl_path l < link_cost_broken) ls"
      let ?W = "filter (\<lambda>l. nl_path l < b) zs"
      have D: "sort_key nl_path ?D = l # ?W" unfolding candidates_filter Cons using True by simp
      have "set (l # ?W) = set ?D" unfolding D [symmetric] by (rule set_sort)
      then have "l \<in> set ?D" using list.set_intros(1) [of l ?W] by (simp only:)
      then have l: "l \<in> set ls" "unskipped s l" by simp_all
      obtain e where e: "nh_nbr s (nl_nbr l) = Some e" using Suc.prems l(1) by blast
      define f where "f = (\<lambda>e :: neighbor_entry. e\<lparr>nb_is_mpr := True, nb_skip := True\<rparr>)"
      define s1 where "s1 = s\<lparr>nh_nbr := (nh_nbr s)(nl_nbr l \<mapsto> f e)\<rparr>"
      note s1 = mark_relay [OF e f_def s1_def]
      have "nl_nbr k = nl_nbr l \<longleftrightarrow> k = l" if "k \<in> set ls" for k
        using assms(2) l(1) that by (auto simp: distinct_map dest: inj_onD)
      then have "filter (\<lambda>k. unskipped s1 k \<and> nl_path k < b \<and> nl_path k < link_cost_broken) ls = filter (\<lambda>k. k \<noteq> l) ?D"
        by (auto simp: s1(8) intro!: filter_cong)
      moreover have "distinct ?D" using assms(2) by (simp add: distinct_map)
      ultimately have W: "lq_candidates s1 b ls = ?W" using sort_tl [OF D] by simp
      have "\<forall>l \<in> set ls. \<exists>e. nh_nbr s1 (nl_nbr l) = Some e" using Suc.prems by (simp add: s1_def)
      from Suc.IH [OF this, of "ch \<or> \<not> nb_was_mpr e"] obtain s2 where s2:
        "lq_choose ls b k (ch \<or> \<not> nb_was_mpr e, s1) = Some ((ch \<or> \<not> nb_was_mpr e) \<or> \<not> nl_nbr ` set (take k ?W) \<subseteq> was_set s1, s2)"
        "same_shape s1 s2" "nh_two s2 = nh_two s1" "nh_signal s2 = nh_signal s1" "was_set s2 = was_set s1" "mprs s2 = mprs s1 \<union> nl_nbr ` set (take k ?W)"
        unfolding W by blast
      have "nb_was_mpr e \<longleftrightarrow> nl_nbr l \<in> was_set s" "nb_was_mpr (f e) = nb_was_mpr e" using e by (simp_all add: was_set_def f_def)
      then have "lq_choose ls b (Suc k) (ch, s) = Some (ch \<or> \<not> nl_nbr ` set (take (Suc k) (l # ?W)) \<subseteq> was_set s, s2)"
        using best True s1(1,5,7) s2(1) by (simp add: Cons f_def)
      then show ?thesis unfolding D using s2(2-6) s1(3-6) same_shape_trans [OF s1(2) s2(2)] by auto
    qed
  qed
qed simp

lemma clear_skip_ok:
  assumes "\<forall>l \<in> set ls. \<exists>e. nh_nbr s (nl_nbr l) = Some e"
  shows "\<exists>s'. iter ls (\<lambda>l. upd_nbr (nl_nbr l) (nb_skip_update (\<lambda>_. False))) s = Some s' \<and> same_shape s s' \<and> nh_two s' = nh_two s \<and> nh_signal s' = nh_signal s \<and>
    mprs s' = mprs s \<and> was_set s' = was_set s \<and> (\<forall>l \<in> set ls. unskipped s' l \<longleftrightarrow> link_sym s l)"
proof -
  define P where "P rest u \<longleftrightarrow> same_shape s u \<and> nh_two u = nh_two s \<and> nh_signal u = nh_signal s \<and> mprs u = mprs s \<and> was_set u = was_set s \<and>
    (\<forall>l \<in> set ls. l \<in> set rest \<or> (\<exists>e. nh_nbr u (nl_nbr l) = Some e \<and> \<not> nb_skip e))" for rest u
  have "\<exists>s'. iter ls (\<lambda>l. upd_nbr (nl_nbr l) (nb_skip_update (\<lambda>_. False))) s = Some s' \<and> P [] s'"
  proof (rule iter_rest_total)
    show "P ls s" by (simp add: P_def)
  next
    fix l rest u
    assume l: "l \<in> set ls" and P: "P (l # rest) u"
    obtain e where e: "nh_nbr u (nl_nbr l) = Some e" using P l assms shape_live unfolding P_def by meson
    define u1 where "u1 = u\<lparr>nh_nbr := (nh_nbr u)(nl_nbr l \<mapsto> e\<lparr>nb_skip := False\<rparr>)\<rparr>"
    have u1: "upd_nbr (nl_nbr l) (nb_skip_update (\<lambda>_. False)) u = Some u1" "same_shape u u1" "nh_two u1 = nh_two u" "nh_signal u1 = nh_signal u" "mprs u1 = mprs u" "was_set u1 = was_set u"
      using e by (auto simp: u1_def upd_nbr_def same_shape_def nbr_core_def mprs_def was_set_def)
    have "k \<in> set rest \<or> (\<exists>e. nh_nbr u1 (nl_nbr k) = Some e \<and> \<not> nb_skip e)" if k: "k \<in> set ls" for k
    proof (cases "nl_nbr k = nl_nbr l")
      case False
      then have "k \<noteq> l" by auto
      then have "k \<in> set rest \<or> (\<exists>e. nh_nbr u (nl_nbr k) = Some e \<and> \<not> nb_skip e)" using P k unfolding P_def by auto
      then show ?thesis using False by (simp add: u1_def)
    qed (simp add: u1_def)
    then have "P rest u1" using P u1 same_shape_trans unfolding P_def by metis
    then show "\<exists>s'. upd_nbr (nl_nbr l) (nb_skip_update (\<lambda>_. False)) u = Some s' \<and> P rest s'" using u1(1) by blast
  qed
  then obtain s' where s': "iter ls (\<lambda>l. upd_nbr (nl_nbr l) (nb_skip_update (\<lambda>_. False))) s = Some s'" "P [] s'" by blast
  have "unskipped s' l \<longleftrightarrow> link_sym s l" if l: "l \<in> set ls" for l
  proof -
    have sh: "same_shape s s'" using s'(2) by (simp add: P_def)
    obtain e where e: "nh_nbr s (nl_nbr l) = Some e" using assms l by blast
    obtain e' where e': "nh_nbr s' (nl_nbr l) = Some e'" "nb_status e' = nb_status e" by (rule shape_nbr [OF sh e])
    have "\<not> nb_skip e'" using s'(2) l e'(1) by (auto simp: P_def)
    then show ?thesis using e e' by (simp add: unskipped_def link_sym_def sym_nbrs_def)
  qed
  then show ?thesis using s' by (auto simp: P_def)
qed

lemma lq_best_1hop_ok:
  assumes ok: "nbr_ok s"
  shows "\<exists>r. lq_best_1hop M best_link t s = Some r \<and>
    (case direct_cost M best_link s t of
       None \<Rightarrow> r = None
     | Some c \<Rightarrow> r = Some c \<or> r = None \<and> (\<forall>l \<in> set (n2_nblist t). \<not> nl_path l < c))"
proof (cases rule: lookup_nbr_cases [OF ok, of "olsr_main_addr M (n2_addr t)"])
  case (1 n e)
  have same: "k = n" if "nh_nbr s k = Some f" "nb_addr f = olsr_main_addr M (n2_addr t)" for k f
    using table_okD(6) [OF nbr_okD(1) [OF ok] that(1) 1(2)] that(2) 1(3) by simp
  have "(\<exists>n \<in> sym_nbrs s. \<exists>e. nh_nbr s n = Some e \<and> nb_addr e = olsr_main_addr M (n2_addr t)) \<longleftrightarrow> nb_status e = SYM"
  proof
    assume "\<exists>n \<in> sym_nbrs s. \<exists>e. nh_nbr s n = Some e \<and> nb_addr e = olsr_main_addr M (n2_addr t)"
    then obtain k f where f: "k \<in> sym_nbrs s" "nh_nbr s k = Some f" "nb_addr f = olsr_main_addr M (n2_addr t)" by blast
    have "k = n" by (rule same [OF f(2,3)])
    then show "nb_status e = SYM" using f(1) 1(2) by (simp add: sym_nbrs_def)
  next
    assume "nb_status e = SYM"
    then have "n \<in> sym_nbrs s" using 1(2) by (simp add: sym_nbrs_def)
    then show "\<exists>n \<in> sym_nbrs s. \<exists>e. nh_nbr s n = Some e \<and> nb_addr e = olsr_main_addr M (n2_addr t)" using 1(2,3) by blast
  qed
  then have dc: "direct_cost M best_link s t = (if nb_status e = SYM then best_link (nb_addr e) else Some link_cost_broken)"
    unfolding direct_cost_def 1(3) by (simp only:)
  have "lq_best_1hop M best_link t s =
      Some (if nb_status e = SYM
            then (case best_link (nb_addr e) of None \<Rightarrow> None
                  | Some cost \<Rightarrow> if list_ex (\<lambda>l. nl_path l < cost) (n2_nblist t) then Some cost else None)
            else Some link_cost_broken)"
    using 1(1,2) by (simp add: lq_best_1hop_def olsr_lookup_neighbor_table_def)
  then show ?thesis
    unfolding dc by (cases "best_link (nb_addr e)") (auto simp: list_ex_iff)
next
  case 2
  then have "\<not> (\<exists>n \<in> sym_nbrs s. \<exists>e. nh_nbr s n = Some e \<and> nb_addr e = olsr_main_addr M (n2_addr t))" by blast
  then have "direct_cost M best_link s t = Some link_cost_broken" unfolding direct_cost_def by (rule if_not_P)
  then show ?thesis using 2(1) by (simp add: lq_best_1hop_def olsr_lookup_neighbor_table_def)
qed

lemma sym_nbrs_shape: "same_shape s s' \<Longrightarrow> sym_nbrs s' = sym_nbrs s"
  unfolding sym_nbrs_def by (rule Collect_cong) (metis same_shape_sym shape_nbr)

lemma direct_cost_shape:
  assumes "same_shape s s'"
  shows "direct_cost M best_link s' t = direct_cost M best_link s t"
proof -
  have "(\<exists>n \<in> sym_nbrs s'. \<exists>e. nh_nbr s' n = Some e \<and> nb_addr e = a) \<longleftrightarrow> (\<exists>n \<in> sym_nbrs s. \<exists>e. nh_nbr s n = Some e \<and> nb_addr e = a)" for a
    unfolding sym_nbrs_shape [OF assms] using shape_nbr [OF assms] shape_nbr [OF same_shape_sym [OF assms]] by metis
  then show ?thesis by (simp add: direct_cost_def)
qed

lemma lq_relays_shape:
  assumes "same_shape s s'" "nh_two s' = nh_two s"
  shows "lq_relays M best_link cov s' m = lq_relays M best_link cov s m"
  using assms by (simp add: lq_relays_def direct_cost_shape link_sym_def sym_nbrs_shape cong: option.case_cong)

lemma lq_cover_two_ok:
  assumes ok: "nbr_ok s" and m: "nh_two s m = Some t"
  shows "\<exists>s'. lq_cover_two M best_link cov m (ch, s) = Some (ch \<or> \<not> lq_relays M best_link cov s m \<subseteq> was_set s, s') \<and>
    same_shape s s' \<and> nh_two s' = nh_two s \<and> nh_signal s' = nh_signal s \<and> was_set s' = was_set s \<and> mprs s' = mprs s \<union> lq_relays M best_link cov s m"
proof -
  obtain r where r: "lq_best_1hop M best_link t s = Some r"
    "case direct_cost M best_link s t of None \<Rightarrow> r = None
     | Some c \<Rightarrow> r = Some c \<or> r = None \<and> (\<forall>l \<in> set (n2_nblist t). \<not> nl_path l < c)" using lq_best_1hop_ok [OF ok] by blast
  show ?thesis
  proof (cases r)
    case None
    then have "lq_relays M best_link cov s m = {}"
      using r(2) m by (cases "direct_cost M best_link s t") (auto simp: lq_relays_def filter_empty_conv)
    then show ?thesis using m r(1) None by (simp add: lq_cover_two_def)
  next
    case (Some c)
    then have c: "direct_cost M best_link s t = Some c" using r(2) by (cases "direct_cost M best_link s t") auto
    note l = nbr_okD(3) [OF ok]
    have live: "\<forall>l \<in> set (n2_nblist t). \<exists>e. nh_nbr s (nl_nbr l) = Some e" using links_okD(6) [OF l m] by (fastforce simp: nbrs_of_def)
    obtain s1 where s1: "iter (n2_nblist t) (\<lambda>l. upd_nbr (nl_nbr l) (nb_skip_update (\<lambda>_. False))) s = Some s1" "same_shape s s1"
      "nh_two s1 = nh_two s" "nh_signal s1 = nh_signal s" "mprs s1 = mprs s" "was_set s1 = was_set s" "\<forall>l \<in> set (n2_nblist t). unskipped s1 l \<longleftrightarrow> link_sym s l"
      using clear_skip_ok [OF live] by blast
    have live1: "\<forall>l \<in> set (n2_nblist t). \<exists>e. nh_nbr s1 (nl_nbr l) = Some e" using live shape_live [OF s1(2)] by blast
    have "filter (\<lambda>l. unskipped s1 l \<and> nl_path l < c \<and> nl_path l < link_cost_broken) (n2_nblist t) =
      filter (\<lambda>l. link_sym s l \<and> nl_path l < c \<and> nl_path l < link_cost_broken) (n2_nblist t)"
      using s1(7) by (intro filter_cong) auto
    then have rel: "nl_nbr ` set (take cov (lq_candidates s1 c (n2_nblist t))) = lq_relays M best_link cov s m"
      using m c by (simp add: lq_relays_def)
    have "distinct (map nl_nbr (n2_nblist t))" using links_okD(3) [OF l m] by (simp add: nbrs_of_def)
    from lq_choose_ok [OF live1 this, of c cov ch] obtain s2 where s2:
      "lq_choose (n2_nblist t) c cov (ch, s1) = Some (ch \<or> \<not> lq_relays M best_link cov s m \<subseteq> was_set s1, s2)"
      "same_shape s1 s2" "nh_two s2 = nh_two s1" "nh_signal s2 = nh_signal s1" "was_set s2 = was_set s1" "mprs s2 = mprs s1 \<union> lq_relays M best_link cov s m"
      unfolding rel by blast
    then show ?thesis using m r(1) Some s1 same_shape_trans [OF s1(2) s2(2)] by (simp add: lq_cover_two_def)
  qed
qed

section \<open>The whole selection\<close>

lemma lq_clear_ok:
  assumes ok: "nbr_ok s"
  shows "\<exists>s'. lq_clear_mprs s = Some (\<not> always_nbrs s \<subseteq> mprs s, s') \<and> same_shape s s' \<and> nh_two s' = nh_two s \<and>
    nh_signal s' = nh_signal s \<and> was_set s' = mprs s \<and> mprs s' = always_nbrs s"
proof -
  define P where "P rest = (\<lambda>(ch, u). distinct rest \<and> same_shape s u \<and> nh_two u = nh_two s \<and> nh_signal u = nh_signal s \<and>
    (\<forall>n \<in> set rest. nh_nbr u n = nh_nbr s n) \<and> ch = (\<not> always_nbrs s - set rest \<subseteq> mprs s) \<and>
    was_set u - set rest = mprs s - set rest \<and> mprs u - set rest = always_nbrs s - set rest)" for rest
  have dom: "set (all_nbrs s) = dom (nh_nbr s)" using all_nbrs_ok(1) [OF ok] by blast
  have "\<exists>bu. lq_clear_mprs s = Some bu \<and> P [] bu"
    unfolding lq_clear_mprs_def
  proof (rule iter_rest_total)
    have "was_set s \<subseteq> dom (nh_nbr s)" "mprs s \<subseteq> dom (nh_nbr s)" "always_nbrs s \<subseteq> dom (nh_nbr s)"
      by (auto simp: was_set_def mprs_def always_nbrs_def)
    then show "P (all_nbrs s) (False, s)" using all_nbrs_ok(2) [OF ok] unfolding P_def dom prod.case by auto
  next
    fix n rest bu
    assume n: "n \<in> set (all_nbrs s)" and Pn: "P (n # rest) bu"
    obtain ch u where bu: "bu = (ch, u)" by force
    have P: "distinct rest" "n \<notin> set rest" "same_shape s u" "nh_two u = nh_two s" "nh_signal u = nh_signal s"
      "nh_nbr u n = nh_nbr s n" "\<forall>k \<in> set rest. nh_nbr u k = nh_nbr s k" "ch = (\<not> always_nbrs s - set (n # rest) \<subseteq> mprs s)"
      "was_set u - set (n # rest) = mprs s - set (n # rest)" "mprs u - set (n # rest) = always_nbrs s - set (n # rest)"
      using Pn unfolding P_def bu prod.case by simp_all
    obtain e where e: "nh_nbr s n = Some e" using n dom by blast
    let ?always = "nb_status e = SYM \<and> nb_will e = will_always"
    define e' where "e' = e\<lparr>nb_was_mpr := nb_is_mpr e, nb_is_mpr := ?always\<rparr>"
    define u' where "u' = u\<lparr>nh_nbr := (nh_nbr u)(n \<mapsto> e')\<rparr>"
    have st: "nb_status e = NOT_SYM \<longleftrightarrow> nb_status e \<noteq> SYM" by (cases "nb_status e") auto
    have run: "(do { s \<leftarrow> upd_nbr n (\<lambda>e. e\<lparr>nb_was_mpr := nb_is_mpr e, nb_is_mpr := False\<rparr>) u;
        e \<leftarrow> nh_nbr s n;
        if nb_status e = NOT_SYM \<or> nb_will e \<noteq> will_always then Some (ch, s)
        else do { s \<leftarrow> upd_nbr n (nb_is_mpr_update (\<lambda>_. True)) s; Some (ch \<or> \<not> nb_was_mpr e, s) } }) =
      Some (ch \<or> (?always \<and> \<not> nb_is_mpr e), u')"
      using P(6) e st by (auto simp: upd_nbr_def u'_def e'_def)
    have mem: "n \<in> always_nbrs s \<longleftrightarrow> ?always" "n \<in> mprs s \<longleftrightarrow> nb_is_mpr e" using e by (auto simp: always_nbrs_def mprs_def)
    have "same_shape u u'" using P(6) e by (simp add: same_shape_def u'_def e'_def nbr_core_def)
    moreover have "was_set u' - set rest = mprs s - set rest"
    proof -
      have "was_set u' = (was_set u - {n}) \<union> (if nb_is_mpr e then {n} else {})" by (auto simp: was_set_def u'_def e'_def split: if_splits)
      then show ?thesis using P(2,9) mem(2) by (auto split: if_splits)
    qed
    moreover have "mprs u' - set rest = always_nbrs s - set rest"
    proof -
      have "mprs u' = (mprs u - {n}) \<union> (if ?always then {n} else {})" by (auto simp: mprs_def u'_def e'_def split: if_splits)
      then show ?thesis using P(2,10) mem(1) by (auto split: if_splits)
    qed
    moreover have "(ch \<or> (?always \<and> \<not> nb_is_mpr e)) = (\<not> always_nbrs s - set rest \<subseteq> mprs s)" using P(2,8) mem by auto
    moreover have "\<forall>k \<in> set rest. nh_nbr u' k = nh_nbr s k" using P(2,7) by (auto simp: u'_def)
    ultimately have "P rest (ch \<or> (?always \<and> \<not> nb_is_mpr e), u')"
      unfolding P_def prod.case using P(1,4,5) same_shape_trans [OF P(3)] by (simp add: u'_def)
    then show "\<exists>s'. (case bu of (changes, s) \<Rightarrow> do { s \<leftarrow> upd_nbr n (\<lambda>e. e\<lparr>nb_was_mpr := nb_is_mpr e, nb_is_mpr := False\<rparr>) s;
        e \<leftarrow> nh_nbr s n;
        if nb_status e = NOT_SYM \<or> nb_will e \<noteq> will_always then Some (changes, s)
        else do { s \<leftarrow> upd_nbr n (nb_is_mpr_update (\<lambda>_. True)) s; Some (changes \<or> \<not> nb_was_mpr e, s) } }) = Some s' \<and> P rest s'"
      unfolding bu prod.case run by blast
  qed
  then show ?thesis by (auto simp: P_def)
qed

lemma calculate_lq_ok:
  assumes ok: "nbr_ok s"
  shows "\<exists>s'. olsr_calculate_lq_mpr cf M best_link s = Some s' \<and> nbr_ok s' \<and> same_shape s s' \<and> nh_two s' = nh_two s \<and>
    mprs s' = always_nbrs s \<union> (\<Union>m. lq_relays M best_link (cf_mpr_coverage cf) s m) \<and>
    nh_signal s' = (nh_signal s \<or> cf_tc_redundancy cf > 0 \<and> \<not> mprs s' \<subseteq> mprs s)"
proof -
  let ?R = "lq_relays M best_link (cf_mpr_coverage cf) s"
  obtain s1 where s1: "lq_clear_mprs s = Some (\<not> always_nbrs s \<subseteq> mprs s, s1)" "same_shape s s1" "nh_two s1 = nh_two s"
    "nh_signal s1 = nh_signal s" "was_set s1 = mprs s" "mprs s1 = always_nbrs s" using lq_clear_ok [OF ok] by blast
  have all: "all_twos s1 = all_twos s" by (rule shape_all(2) [OF s1(2)])
  define P where "P rest = (\<lambda>(ch, u). same_shape s u \<and> nh_two u = nh_two s \<and> nh_signal u = nh_signal s \<and> was_set u = mprs s \<and>
    always_nbrs s \<subseteq> mprs u \<and> mprs u \<subseteq> always_nbrs s \<union> (\<Union>m. ?R m) \<and> (\<forall>m \<in> set (all_twos s). m \<in> set rest \<or> ?R m \<subseteq> mprs u) \<and>
    ch = (\<not> mprs u \<subseteq> mprs s))" for rest
  have "\<exists>bu. iter (all_twos s) (lq_cover_two M best_link (cf_mpr_coverage cf)) (\<not> always_nbrs s \<subseteq> mprs s, s1) = Some bu \<and> P [] bu"
  proof (rule iter_rest_total)
    show "P (all_twos s) (\<not> always_nbrs s \<subseteq> mprs s, s1)" using s1 by (auto simp: P_def)
  next
    fix m rest bu
    assume m: "m \<in> set (all_twos s)" and Pm: "P (m # rest) bu"
    obtain ch u where bu: "bu = (ch, u)" by force
    have P: "same_shape s u" "nh_two u = nh_two s" "nh_signal u = nh_signal s" "was_set u = mprs s" "always_nbrs s \<subseteq> mprs u"
      "mprs u \<subseteq> always_nbrs s \<union> (\<Union>m. ?R m)" "\<forall>k \<in> set (all_twos s). k \<in> set (m # rest) \<or> ?R k \<subseteq> mprs u" "ch = (\<not> mprs u \<subseteq> mprs s)"
      using Pm unfolding P_def bu prod.case by blast+
    obtain t where "nh_two u m = Some t" using m all_twos_ok(1) [OF ok] P(2) by auto
    from lq_cover_two_ok [OF shape_ok [OF ok P(1)] this] obtain u' where u':
      "lq_cover_two M best_link (cf_mpr_coverage cf) m (ch, u) = Some (ch \<or> \<not> ?R m \<subseteq> was_set u, u')" "same_shape u u'" "nh_two u' = nh_two u"
      "nh_signal u' = nh_signal u" "was_set u' = was_set u" "mprs u' = mprs u \<union> ?R m"
      unfolding lq_relays_shape [OF P(1,2)] by blast
    have "P rest (ch \<or> \<not> ?R m \<subseteq> was_set u, u')"
      unfolding P_def prod.case u'(3-6) using P same_shape_trans [OF P(1) u'(2)] by auto
    then show "\<exists>s'. lq_cover_two M best_link (cf_mpr_coverage cf) m bu = Some s' \<and> P rest s'" using u'(1) unfolding bu by blast
  qed
  then obtain ch u where u: "iter (all_twos s) (lq_cover_two M best_link (cf_mpr_coverage cf)) (\<not> always_nbrs s \<subseteq> mprs s, s1) = Some (ch, u)"
    "P [] (ch, u)" by auto
  have P: "same_shape s u" "nh_two u = nh_two s" "nh_signal u = nh_signal s" "always_nbrs s \<subseteq> mprs u"
    "mprs u \<subseteq> always_nbrs s \<union> (\<Union>m. ?R m)" "\<forall>m \<in> set (all_twos s). ?R m \<subseteq> mprs u" "ch = (\<not> mprs u \<subseteq> mprs s)"
    using u(2) unfolding P_def prod.case by auto
  have "?R m \<subseteq> mprs u" for m
  proof (cases "nh_two s m")
    case None
    then show ?thesis by (simp add: lq_relays_def)
  next
    case (Some t)
    then show ?thesis using P(6) all_twos_ok(1) [OF ok] by blast
  qed
  then have rel: "mprs u = always_nbrs s \<union> (\<Union>m. ?R m)" using P(4,5) by blast
  define s' where "s' = (if ch \<and> cf_tc_redundancy cf > 0 then u\<lparr>nh_signal := True\<rparr> else u)"
  have run: "olsr_calculate_lq_mpr cf M best_link s = Some s'" using s1(1) u(1) by (simp add: olsr_calculate_lq_mpr_def all s'_def)
  have "mprs s' = mprs u" "nh_two s' = nh_two u" "same_shape u s'" by (simp_all add: s'_def mprs_def same_shape_def)
  moreover have "nh_signal s' = (nh_signal s \<or> cf_tc_redundancy cf > 0 \<and> \<not> mprs u \<subseteq> mprs s)" using P(3,7) by (auto simp: s'_def)
  ultimately show ?thesis using run rel P(2) same_shape_trans [OF P(1)] shape_ok [OF ok] by metis
qed

end
