(* ===== verification/Nbr_System.thy ===== *)
theory Nbr_System imports Nbr_Process Lq_Select Hash_Rows begin

text \<open>
  The neighbourhood under any sequence of events: links that come and go, HELLO messages, timers, and the selection of
  relays. Every reachable state is well-formed and no event touches freed memory; towards the rest of the daemon the tables
  are a set of neighbours with a two-hop relation.
\<close>

section \<open>Events\<close>

text \<open>What the events depend on: options, own addresses, aliases, and the cost functions of the link set and the plugin.\<close>

record nbr_env =
  ne_conf :: olsr_conf
  ne_own :: "ip_addr \<Rightarrow> bool"
  ne_mid :: mid_set
  ne_best_link :: "ip_addr \<Rightarrow> ulong option"
  ne_relevant :: "ulong \<Rightarrow> ulong \<Rightarrow> bool"

datatype nbr_event =
  Insert_Nbr ip_addr
| Delete_Nbr ip_addr
| Status nat bool
| Hello nat byte ulong "hello_neighbor list"
| Expire nat nat
| Select_Mpr
| Select_Lq_Mpr

fun nbr_handle :: "nbr_env \<Rightarrow> nbr_event \<Rightarrow> nbrhood \<Rightarrow> nbrhood option" where
  "nbr_handle v (Insert_Nbr a) s = map_option snd (olsr_insert_neighbor_table a s)"
| "nbr_handle v (Delete_Nbr a) s = olsr_delete_neighbor_table a s"
| "nbr_handle v (Status n b) s = update_neighbor_status (ne_conf v) (ne_mid v) n b s"
| "nbr_handle v (Hello n will vtime hs) s =
     hello_tap_neighbor (ne_conf v) (ne_own v) (ne_mid v) (ne_best_link v) (ne_relevant v) n will vtime hs s"
| "nbr_handle v (Expire n m) s = olsr_expire_nbr2_list n m s"
| "nbr_handle v Select_Mpr s = olsr_calculate_mpr (ne_conf v) (ne_mid v) s"
| "nbr_handle v Select_Lq_Mpr s = olsr_calculate_lq_mpr (ne_conf v) (ne_mid v) (ne_best_link v) s"

text \<open>
  The event can happen: a link entry refers to a live neighbour, only running timers fire, and there are less
  than \<open>2 ^ 15\<close> neighbours, the range of the counters.
\<close>

fun can_happen :: "nbr_event \<Rightarrow> nbrhood \<Rightarrow> bool" where
  "can_happen (Insert_Nbr a) s \<longleftrightarrow> card (dom (nh_nbr s)) + 1 < max_nbrs"
| "can_happen (Status n b) s \<longleftrightarrow> nh_nbr s n \<noteq> None"
| "can_happen (Hello n will vtime hs) s \<longleftrightarrow> nh_nbr s n \<noteq> None"
| "can_happen (Expire n m) s \<longleftrightarrow>
     (case nh_nbr s n of None \<Rightarrow> False | Some e \<Rightarrow> list_ex (\<lambda>l. l2_two l = m \<and> l2_timer l \<noteq> None) (nb_2_list e))"
| "can_happen _ s \<longleftrightarrow> True"

inductive nbr_reach :: "nbr_env \<Rightarrow> nbrhood \<Rightarrow> bool" for v where
  start: "nbr_reach v nbr_init"
| event: "nbr_reach v s \<Longrightarrow> can_happen ev s \<Longrightarrow> nbr_handle v ev s = Some s' \<Longrightarrow> nbr_reach v s'"

section \<open>The abstract neighbourhood\<close>

type_synonym hood = "ip_addr set \<times> (ip_addr \<times> ip_addr) set"

definition hood_of :: "nbrhood \<Rightarrow> hood" where
  "hood_of s = (nbr_addrs s, hop_links s)"

definition nbr_name :: "nbrhood \<Rightarrow> nat \<Rightarrow> ip_addr" where
  "nbr_name s n = (case nh_nbr s n of Some e \<Rightarrow> nb_addr e | None \<Rightarrow> 0)"

definition two_name :: "nbrhood \<Rightarrow> nat \<Rightarrow> ip_addr" where
  "two_name s m = (case nh_two s m of Some t \<Rightarrow> n2_addr t | None \<Rightarrow> 0)"

text \<open>What an event may do to it; a neighbour that becomes symmetric may take two-hop neighbours with it.\<close>

fun hood_step :: "nbr_env \<Rightarrow> nbrhood \<Rightarrow> nbr_event \<Rightarrow> hood \<Rightarrow> hood \<Rightarrow> bool" where
  "hood_step v s (Insert_Nbr a) (A, R) h' \<longleftrightarrow> h' = (insert a A, R)"
| "hood_step v s (Delete_Nbr a) (A, R) h' \<longleftrightarrow> h' = (A - {a}, {p \<in> R. fst p \<noteq> a})"
| "hood_step v s (Status n b) (A, R) h' \<longleftrightarrow> (\<exists>S \<subseteq> R. h' = (A, S))"
| "hood_step v s (Hello n will vtime hs) (A, R) h' \<longleftrightarrow>
     h' = (A, R \<union> (if will = will_never then {} else {nbr_name s n} \<times> hello_adds (ne_own v) (ne_mid v) hs))"
| "hood_step v s (Expire n m) (A, R) h' \<longleftrightarrow> h' = (A, R - {(nbr_name s n, two_name s m)})"
| "hood_step v s _ h h' \<longleftrightarrow> h' = h"

lemma shape_hood:
  assumes "same_shape s s'"
  shows "hood_of s' = hood_of s"
proof -
  have half: "nbr_addrs s \<subseteq> nbr_addrs s'" "hop_links s \<subseteq> hop_links s'" if sh: "same_shape s s'" for s s'
  proof -
    show "nbr_addrs s \<subseteq> nbr_addrs s'" using shape_nbr [OF sh] by (fastforce simp: nbr_addrs_iff)
    show "hop_links s \<subseteq> hop_links s'"
    proof
      fix p
      assume "p \<in> hop_links s"
      then obtain n e m t where p: "p = (nb_addr e, n2_addr t)" "nh_nbr s n = Some e" "m \<in> set (twos_of e)" "nh_two s m = Some t"
        by (auto simp: hop_links_def)
      obtain e' where e': "nh_nbr s' n = Some e'" "nb_addr e' = nb_addr e" "nb_2_list e' = nb_2_list e" by (rule shape_nbr [OF sh p(2)])
      obtain t' where t': "nh_two s' m = Some t'" "n2_addr t' = n2_addr t" by (rule shape_two [OF sh p(4)])
      have "m \<in> set (twos_of e')" using p(3) e'(3) by (simp add: twos_of_def)
      from hop_linksI [OF e'(1) this t'(1)] show "p \<in> hop_links s'" using p(1) e'(2) t'(2) by simp
    qed
  qed
  show ?thesis using half [OF assms] half [OF same_shape_sym [OF assms]] by (auto simp: hood_of_def)
qed

section \<open>Safety and refinement\<close>

text \<open>What the daemon needs of a selection of relays, whichever of the two the configuration asks for.\<close>

locale relay_selection =
  fixes select :: "nbrhood \<Rightarrow> nbrhood option"
  assumes total: "nbr_ok s \<Longrightarrow> \<exists>s'. select s = Some s' \<and> same_shape s s'"
begin

lemma keeps:
  assumes "nbr_ok s"
  shows "\<exists>s'. select s = Some s' \<and> nbr_ok s' \<and> hood_of s' = hood_of s"
  using total [OF assms] shape_ok [OF assms] shape_hood by blast

end

interpretation rfc_selection: relay_selection "olsr_calculate_mpr cf M" for cf M
  by unfold_locales (use calculate_mpr_ok in blast)

interpretation lq_selection: relay_selection "olsr_calculate_lq_mpr cf M best_link" for cf M best_link
  by unfold_locales (use calculate_lq_ok in blast)

lemma nbr_handle_ok:
  assumes ok: "nbr_ok s" and mid: "mid_ok (ne_mid v)" and can: "can_happen ev s"
  shows "\<exists>s'. nbr_handle v ev s = Some s' \<and> nbr_ok s' \<and> hood_step v s ev (hood_of s) (hood_of s')"
proof (cases ev)
  case (Insert_Nbr a)
  then show ?thesis using insert_neighbor_ok [OF ok, of a] can by (fastforce simp: hood_of_def)
next
  case (Delete_Nbr a)
  then show ?thesis using delete_neighbor_ok [OF ok, of a] by (auto simp: hood_of_def)
next
  case (Status n b)
  then obtain e where "nh_nbr s n = Some e" using can by auto
  from update_status_ok [OF ok this, of "ne_conf v" "ne_mid v" b] show ?thesis using Status by (auto simp: hood_of_def)
next
  case (Hello n will vtime hs)
  then obtain e where e: "nh_nbr s n = Some e" using can by auto
  from hello_tap_ok [OF ok e mid, where cf = "ne_conf v" and own = "ne_own v" and best_link = "ne_best_link v" and relevant = "ne_relevant v"
      and will = will and vtime = vtime and hs = hs]
  obtain s' where "hello_tap_neighbor (ne_conf v) (ne_own v) (ne_mid v) (ne_best_link v) (ne_relevant v) n will vtime hs s = Some s'" "nbr_ok s'"
    "nbr_addrs s' = nbr_addrs s" "hop_links s' = hop_links s \<union> (if will = will_never then {} else {nb_addr e} \<times> hello_adds (ne_own v) (ne_mid v) hs)"
    by blast
  then show ?thesis using Hello e by (simp add: hood_of_def nbr_name_def)
next
  case (Expire n m)
  then obtain e where e: "nh_nbr s n = Some e" "m \<in> set (twos_of e)" using can by (auto simp: list_ex_iff twos_of_def split: option.splits)
  obtain t where t: "nh_two s m = Some t" using links_okD(2) [OF nbr_okD(3) [OF ok] e] by blast
  from expire_ok [OF ok e t] show ?thesis using Expire e(1) t by (auto simp: hood_of_def nbr_name_def two_name_def)
next
  case Select_Mpr
  then show ?thesis using rfc_selection.keeps [OF ok, of "ne_conf v" "ne_mid v"] by auto
next
  case Select_Lq_Mpr
  then show ?thesis using lq_selection.keeps [OF ok, of "ne_conf v" "ne_mid v" "ne_best_link v"] by auto
qed

lemma nbr_reach_ok:
  assumes "nbr_reach v s" "mid_ok (ne_mid v)"
  shows "nbr_ok s"
  using assms(1)
proof induction
  case start
  show ?case by (rule nbr_ok_init)
next
  case (event s ev s')
  then show ?case using nbr_handle_ok [OF event.IH assms(2) event.hyps(2)] by auto
qed

text \<open>A run of events, each of which can happen.\<close>

definition nbr_try :: "nbr_env \<Rightarrow> nbr_event \<Rightarrow> nbrhood \<Rightarrow> nbrhood option" where
  "nbr_try v ev s = (if can_happen ev s then nbr_handle v ev s else None)"

lemma nbr_reach_run: "iter evs (nbr_try v) s = Some s' \<Longrightarrow> nbr_reach v s \<Longrightarrow> nbr_reach v s'"
proof (induction evs arbitrary: s)
  case (Cons ev evs)
  then obtain s1 where "nbr_try v ev s = Some s1" "iter evs (nbr_try v) s1 = Some s'" by (auto simp: bind_eq_Some_conv)
  then show ?case using Cons nbr_reach.event by (auto simp: nbr_try_def split: if_splits)
qed simp

section \<open>New links\<close>

lemma hello_new_link:
  assumes ok: "nbr_ok s" and n: "nh_nbr s n = Some e" and mid: "mid_ok M" and h: "\<not> own (hn_addr h)" "hello_sym h"
    and new: "(nb_addr e, olsr_main_addr M (hn_addr h)) \<notin> hop_links s"
  shows "\<exists>s' m t. process_hello_neighbor cf own M n vtime h s = Some s' \<and> nbr_ok s' \<and> nh_nbr s' n = Some (linked_nbr m e) \<and>
    m \<notin> set (twos_of e) \<and> nh_two s' m = Some t \<and> n2_addr t = olsr_main_addr M (hn_addr h)"
proof -
  let ?a = "olsr_main_addr M (hn_addr h)"
  obtain s' where s': "process_hello_neighbor cf own M n vtime h s = Some s'" "nbr_ok s'" using process_hello_neighbor_ok [OF ok n mid] by blast
  have absent: "olsr_lookup_my_neighbors n ?a s = Some None" "\<forall>m t. m \<in> set (twos_of e) \<longrightarrow> nh_two s m = Some t \<longrightarrow> n2_addr t \<noteq> ?a"
  proof -
    have no: "n2_addr t \<noteq> ?a" if "m \<in> set (twos_of e)" "nh_two s m = Some t" for m t using hop_linksI [OF n that] new by auto
    then show "\<forall>m t. m \<in> set (twos_of e) \<longrightarrow> nh_two s m = Some t \<longrightarrow> n2_addr t \<noteq> ?a" by blast
    show "olsr_lookup_my_neighbors n ?a s = Some None" by (cases rule: my_neighbors_cases [OF ok n, of ?a]) (use no in blast)+
  qed
  have "\<exists>m t. nh_nbr s' n = Some (linked_nbr m e) \<and> m \<notin> set (twos_of e) \<and> nh_two s' m = Some t \<and> n2_addr t = ?a"
  proof (cases rule: lookup_two_cases [OF ok, of M ?a])
    case (1 m t)
    then have a: "n2_addr t = ?a" using main_addr_fixed [OF mid] by blast
    then have "m \<notin> set (twos_of e)" using absent(2) 1(2) by blast
    moreover have "process_hello_neighbor cf own M n vtime h s = linking_this_2_entries n m (note_changes s)"
      using h absent(1) 1(1) by (simp add: process_hello_neighbor_def)
    ultimately show ?thesis using s'(1) linking_eq [of "note_changes s" n e m t] n 1(2) a by auto
  next
    case 2
    have "nbr_ok (note_changes s)" "\<forall>m t. nh_two (note_changes s) m = Some t \<longrightarrow> n2_addr t \<noteq> ?a" using ok 2(2) by simp_all
    from new_two_eq [OF this] obtain s1 t where s1: "new_two ?a (note_changes s) = Some (nh_fresh s, s1)" "nh_nbr s1 = nh_nbr s"
      "nh_two s1 (nh_fresh s) = Some t" "n2_addr t = ?a" by auto
    have "nh_fresh s \<notin> set (twos_of e)"
      using links_okD(2) [OF nbr_okD(3) [OF ok] n] table_okD(4) [OF nbr_okD(2) [OF ok]] by blast
    moreover have "process_hello_neighbor cf own M n vtime h s = linking_this_2_entries n (nh_fresh s) s1"
      using h absent(1) 2(1) s1(1) by (simp add: process_hello_neighbor_def)
    ultimately show ?thesis using s'(1) linking_eq [of s1 n e "nh_fresh s" t] n s1 by auto
  qed
  then show ?thesis using s' by blast
qed

lemma cost_pass_names:
  assumes "process_hello_cost cf own relevant n first_hop h s = Some s'" "nh_two s m = Some t" "n2_addr t = a"
  shows "\<exists>t'. nh_two s' m = Some t' \<and> n2_addr t' = a"
  using assms
  by (auto simp: process_hello_cost_def map_links_def upd_two_def bind_eq_Some_conv Let_def split: if_splits option.splits)

text \<open>After a HELLO that lists a new two-hop neighbour, the new link has no timer.\<close>

lemma hello_tap_new_link:
  assumes ok: "nbr_ok s" and n: "nh_nbr s n = Some e" and mid: "mid_ok M" and h: "\<not> own (hn_addr h)" "hello_sym h" and will: "will \<noteq> will_never"
    and new: "(nb_addr e, olsr_main_addr M (hn_addr h)) \<notin> hop_links s"
  shows "\<exists>s' e' m t. hello_tap_neighbor cf own M best_link relevant n will vtime [h] s = Some s' \<and> nbr_ok s' \<and>
    nh_nbr s' n = Some (linked_nbr m e') \<and> m \<notin> set (twos_of e') \<and> nh_two s' m = Some t \<and> n2_addr t = olsr_main_addr M (hn_addr h)"
proof -
  let ?a = "olsr_main_addr M (hn_addr h)"
  define e1 where "e1 = e\<lparr>nb_will := will\<rparr>"
  obtain s1 where s1: "upd_nbr n (nb_will_update (\<lambda>_. will)) (note_changes s) = Some s1" "nbr_ok s1"
    "hop_links s1 = hop_links s" "nh_nbr s1 = (nh_nbr s)(n \<mapsto> e1)"
    using upd_nbr_ok [of "note_changes s" n e "nb_will_update (\<lambda>_. will)"] n ok by (auto simp: twos_of_def e1_def)
  define s2 where "s2 = (if nb_will e \<noteq> will then s1 else s)"
  have s2: "nbr_ok s2" "nh_nbr s2 n = Some e1" "hop_links s2 = hop_links s" using ok s1 n by (auto simp: s2_def e1_def)
  have "nb_addr e1 = nb_addr e" by (simp add: e1_def)
  then obtain s3 m t where s3: "process_hello_neighbor cf own M n vtime h s2 = Some s3" "nbr_ok s3" "nh_nbr s3 n = Some (linked_nbr m e1)"
    "m \<notin> set (twos_of e1)" "nh_two s3 m = Some t" "n2_addr t = ?a"
    using hello_new_link [where own = own and h = h and cf = cf and vtime = vtime, OF s2(1,2) mid h] new s2(3) by auto
  have run: "hello_tap_neighbor cf own M best_link relevant n will vtime [h] s = process_message_neighbors cf own M best_link relevant n vtime [h] s2"
    using n s1(1) will by (auto simp: hello_tap_neighbor_def s2_def)
  obtain s4 t4 where s4: "process_message_neighbors cf own M best_link relevant n vtime [h] s2 = Some s4" "nbr_ok s4" "nh_nbr s4 n = Some (linked_nbr m e1)"
    "nh_two s4 m = Some t4" "n2_addr t4 = ?a"
  proof (cases "cf_lq_level cf > 0 \<and> best_link (nb_addr (linked_nbr m e1)) \<noteq> None")
    case False
    then have "process_message_neighbors cf own M best_link relevant n vtime [h] s2 = Some s3"
      using s3(1,3) by (auto simp: process_message_neighbors_def)
    then show ?thesis using that s3 by blast
  next
    case True
    then obtain c where c: "best_link (nb_addr (linked_nbr m e1)) = Some c" by auto
    obtain s5 where s5: "process_hello_cost cf own relevant n c (with_main_addr own M h) s3 = Some s5" "nbr_ok s5" "nh_nbr s5 = nh_nbr s3"
      using cost_pass_ok [OF s3(2,3)] by blast
    obtain t5 where t5: "nh_two s5 m = Some t5" "n2_addr t5 = ?a" using cost_pass_names [OF s5(1) s3(5,6)] by blast
    have "process_message_neighbors cf own M best_link relevant n vtime [h] s2 = Some s5"
      using True s3(1,3) c s5(1) by (simp add: process_message_neighbors_def)
    then show ?thesis using that s5(2,3) s3(3) t5 by simp
  qed
  then show ?thesis using run s3(4) by metis
qed

end
