(* ===== verification/Nbr_Cases.thy ===== *)
theory Nbr_Cases imports Nbr_System begin

text \<open>
  Concrete runs: the daemon at 10.0.0.1 with the neighbours 10.0.0.2, 10.0.0.3 and 10.0.0.4, and the two-hop neighbour
  10.0.0.6. They show that the hypotheses of the general theorems can be met, and where the selection of relays goes wrong.
\<close>

section \<open>The daemon\<close>

definition ip_2 :: ip_addr where "ip_2 = 0x0200000A"
definition ip_3 :: ip_addr where "ip_3 = 0x0300000A"
definition ip_4 :: ip_addr where "ip_4 = 0x0400000A"
definition ip_6 :: ip_addr where "ip_6 = 0x0600000A"

lemma ips_row [simp]: "hash_row ip_2 = 119" "hash_row ip_3 = 68" "hash_row ip_4 = 33" "hash_row ip_6 = 53"
  by (simp_all add: ip_2_def ip_3_def ip_4_def ip_6_def row_2 row_3 row_4 row_6)

lemma ips_distinct [simp]:
  "ip_2 \<noteq> ip_3" "ip_2 \<noteq> ip_4" "ip_2 \<noteq> ip_6" "ip_3 \<noteq> ip_2" "ip_3 \<noteq> ip_4" "ip_3 \<noteq> ip_6"
  "ip_4 \<noteq> ip_2" "ip_4 \<noteq> ip_3" "ip_4 \<noteq> ip_6" "ip_6 \<noteq> ip_2" "ip_6 \<noteq> ip_3" "ip_6 \<noteq> ip_4"
  by (simp_all add: ip_2_def ip_3_def ip_4_def ip_6_def)

definition home :: nbr_env where
  "home = \<lparr>ne_conf = \<lparr>cf_tc_redundancy = 2, cf_mpr_coverage = 1, cf_lq_level = 0, cf_lq_dlimit = 0\<rparr>,
     ne_own = (\<lambda>a. a = 0x0100000A), ne_mid = [], ne_best_link = (\<lambda>a. None), ne_relevant = (\<lambda>a b. True)\<rparr>"

lemma own_home [simp]: "ne_own home ip_6 = False" "ne_own home ip_2 = False" "ne_own home ip_3 = False"
  by (simp_all add: home_def ip_6_def ip_2_def ip_3_def)

lemma home_simps [simp]:
  "ne_mid home = []" "cf_tc_redundancy (ne_conf home) = 2" "cf_mpr_coverage (ne_conf home) = 1" "cf_lq_level (ne_conf home) = 0"
  "olsr_main_addr [] a = a" "mid_lookup_aliases [] a = []"
  by (simp_all add: home_def olsr_main_addr_def mid_lookup_main_addr_def mid_lookup_aliases_def)

text \<open>A HELLO that lists 10.0.0.6 as a symmetric neighbour, with the default willingness.\<close>

definition lists_6 :: "hello_neighbor list" where
  "lists_6 = [\<lparr>hn_status = sym_neigh, hn_link = 6, hn_addr = ip_6, hn_cost = 0\<rparr>]"

lemma few [simp]: "0 < max_nbrs" "Suc 0 < max_nbrs" "Suc (Suc 0) < max_nbrs" "Suc (Suc (Suc 0)) < max_nbrs"
  by (simp_all add: max_nbrs_def)

lemmas nbr_eval = olsr_insert_neighbor_table_def olsr_lookup_neighbor_table_alias_def Let_def
  update_neighbor_status_def olsr_lookup_two_hop_neighbor_table_def olsr_lookup_neighbor_table_def note_changes_def upd_nbr_def upd_two_def
  hello_tap_neighbor_def process_message_neighbors_def process_hello_neighbor_def hello_sym_def olsr_lookup_my_neighbors_def
  linking_this_2_entries_def new_two_def olsr_insert_two_hop_neighbor_table_def lists_6_def will_never_def
  nbr_try_def

definition row_tab :: "nat list list" where
  "row_tab = replicate 128 []"

lemma row_tab_simps [simp]: "length row_tab = 128" "n < 128 \<Longrightarrow> row_tab ! n = []"
  by (simp_all add: row_tab_def)

definition plain_nbr :: "ip_addr \<Rightarrow> neighbor_entry" where
  "plain_nbr a = \<lparr>nb_addr = a, nb_status = NOT_SYM, nb_will = 0, nb_is_mpr = False, nb_was_mpr = False,
                   nb_skip = False, nb_nocov = 0, nb_2_list = []\<rparr>"

definition three_nbrs :: nbrhood where
  "three_nbrs = \<lparr>nh_nbr = [0 \<mapsto> plain_nbr ip_2, 1 \<mapsto> plain_nbr ip_3, 2 \<mapsto> plain_nbr ip_4], nh_two = Map.empty,
     nh_nbr_tab = row_tab[119 := [0], 68 := [1], 33 := [2]], nh_two_tab = row_tab,
     nh_fresh = 3, nh_changes_nbr = False, nh_changes_topo = False, nh_signal = False\<rparr>"

lemma nbr_init_rows: "nbr_init = \<lparr>nh_nbr = Map.empty, nh_two = Map.empty, nh_nbr_tab = row_tab, nh_two_tab = row_tab,
     nh_fresh = 0, nh_changes_nbr = False, nh_changes_topo = False, nh_signal = False\<rparr>"
  by (simp add: nbr_init_def row_tab_def hashsize_def)

lemma rd_wr_numeral [simp]:
  "numeral k < length xs \<Longrightarrow> rd xs (numeral k) = Some (xs ! numeral k)" "numeral k < length xs \<Longrightarrow> wr xs (numeral k) v = Some (xs[numeral k := v])"
  by (simp_all add: rd_def wr_def)

lemma three_nbrs_run: "iter [Insert_Nbr ip_2, Insert_Nbr ip_3, Insert_Nbr ip_4] (nbr_try home) nbr_init = Some three_nbrs"
  by (simp add: nbr_eval nbr_init_rows three_nbrs_def plain_nbr_def numeral_2_eq_2 numeral_3_eq_3)

definition will_nbr :: "ip_addr \<Rightarrow> neighbor_entry" where
  "will_nbr a = \<lparr>nb_addr = a, nb_status = SYM, nb_will = 3, nb_is_mpr = False, nb_was_mpr = False,
                  nb_skip = False, nb_nocov = 0, nb_2_list = [\<lparr>l2_two = 3, l2_timer = None\<rparr>]\<rparr>"

definition two_6 :: neighbor_2_entry where
  "two_6 = \<lparr>n2_addr = ip_6, n2_covered = 0, n2_processed = False, n2_pointer = 3, n2_nblist = [new_link 2, new_link 1, new_link 0]\<rparr>"

definition three_relays :: nbrhood where
  "three_relays = \<lparr>nh_nbr = [0 \<mapsto> will_nbr ip_2, 1 \<mapsto> will_nbr ip_3, 2 \<mapsto> will_nbr ip_4], nh_two = [3 \<mapsto> two_6],
     nh_nbr_tab = row_tab[119 := [0], 68 := [1], 33 := [2]], nh_two_tab = row_tab[53 := [3]],
     nh_fresh = 4, nh_changes_nbr = True, nh_changes_topo = True, nh_signal = True\<rparr>"

definition three_sym :: nbrhood where
  "three_sym = \<lparr>nh_nbr = [0 \<mapsto> (plain_nbr ip_2)\<lparr>nb_status := SYM\<rparr>, 1 \<mapsto> (plain_nbr ip_3)\<lparr>nb_status := SYM\<rparr>,
       2 \<mapsto> (plain_nbr ip_4)\<lparr>nb_status := SYM\<rparr>], nh_two = Map.empty,
     nh_nbr_tab = row_tab[119 := [0], 68 := [1], 33 := [2]], nh_two_tab = row_tab,
     nh_fresh = 3, nh_changes_nbr = True, nh_changes_topo = True, nh_signal = True\<rparr>"

lemma three_sym_run: "iter [Status 0 True, Status 1 True, Status 2 True] (nbr_try home) three_nbrs = Some three_sym"
  by (simp add: nbr_eval three_nbrs_def three_sym_def plain_nbr_def fun_upd_twist)

lemma three_relays_run: "iter [Hello 0 3 100 lists_6, Hello 1 3 100 lists_6, Hello 2 3 100 lists_6] (nbr_try home) three_sym = Some three_relays"
  by (simp add: nbr_eval three_sym_def three_relays_def plain_nbr_def will_nbr_def two_6_def new_link_def)

section \<open>Three neighbours reach the two-hop neighbour\<close>

definition relay_state :: "int \<Rightarrow> int \<Rightarrow> int \<Rightarrow> bool \<Rightarrow> bool \<Rightarrow> byte \<Rightarrow> nbrhood" where
  "relay_state i j k p q c = three_relays\<lparr>
     nh_nbr := [0 \<mapsto> (will_nbr ip_2)\<lparr>nb_nocov := i, nb_is_mpr := p\<rparr>, 1 \<mapsto> (will_nbr ip_3)\<lparr>nb_nocov := j, nb_is_mpr := q\<rparr>,
       2 \<mapsto> (will_nbr ip_4)\<lparr>nb_nocov := k\<rparr>],
     nh_two := [3 \<mapsto> two_6\<lparr>n2_processed := True, n2_covered := c\<rparr>]\<rparr>"

lemma rows_concat: "concat (row_tab[119 := [0], 68 := [Suc 0], 33 := [2]]) = [2, Suc 0, 0]" "concat (row_tab[53 := [3]]) = [3]"
  by code_simp+

lemmas relay_eval = relay_state_def three_relays_def will_nbr_def two_6_def new_link_def nbr_eval one_hop_status_def all_nbrs_def all_twos_def rows_concat

lemma relay_clear: "olsr_clear_mprs three_relays = Some three_relays"
  by (simp add: olsr_clear_mprs_def clear_covered_def relay_eval fun_upd_twist)

lemma relay_count: "olsr_calculate_two_hop_neighbors [] three_relays = Some (3, relay_state 3 2 1 False False 0)"
  by (simp add: olsr_calculate_two_hop_neighbors_def olsr_clear_two_hop_processed_def count_two_def relay_eval fun_upd_twist)

lemma relay_always: "add_will_always_nodes [] (Suc 0) (relay_state i j k p q c) = Some (0, relay_state i j k p q c)"
  by (simp add: add_will_always_nodes_def will_always_def relay_eval)

lemma relay_one_link: "olsr_find_2_hop_neighbors_with_1_link [] w (relay_state i j k p q c) = Some []"
  by (simp add: olsr_find_2_hop_neighbors_with_1_link_def one_link_def relay_eval)

lemma relay_maximum: "w \<noteq> 3 \<Longrightarrow> olsr_find_maximum_covered w (relay_state i j k p q c) = Some None"
  by (simp add: olsr_find_maximum_covered_def relay_eval)

lemma relay_maximum_3:
  "olsr_find_maximum_covered 3 (relay_state 3 2 1 False False 0) = Some (Some 0)"
  "olsr_find_maximum_covered 3 (relay_state 2 1 0 True False 1) = Some (Some 1)"
  "olsr_find_maximum_covered 3 (relay_state 1 0 (-1) True True 2) = Some None"
  by (simp_all add: olsr_find_maximum_covered_def relay_eval)

lemma relay_chosen:
  "olsr_chosen_mpr [] (Suc 0) 0 (0, relay_state 3 2 1 False False 0) = Some (1, relay_state 2 1 0 True False 1)"
  "olsr_chosen_mpr [] (Suc 0) 1 (1, relay_state 2 1 0 True False 1) = Some (2, relay_state 1 0 (-1) True True 2)"
  by (simp_all add: olsr_chosen_mpr_def chosen_two_def relay_eval fun_upd_twist)

lemma relay_optimize: "olsr_optimize_mpr_set [] (Suc 0) (relay_state 1 0 (-1) True True 2) = Some (relay_state 1 0 (-1) False False 2)"
  by (simp add: olsr_optimize_mpr_set_def needed_by_def relay_eval upt_rec fun_upd_twist)

lemma relay_changes: "olsr_check_mpr_changes (relay_state i j k False False c) = Some (False, relay_state i j k False False c)"
  by (simp add: olsr_check_mpr_changes_def relay_eval)

lemma choose_maximum_None:
  "olsr_find_maximum_covered w s = Some None \<Longrightarrow> choose_maximum M cov wanted w (c, s) = Some (False, c, s)"
  by (subst choose_maximum.simps) simp

lemma choose_maximum_Some:
  "olsr_find_maximum_covered w s = Some (Some n) \<Longrightarrow> olsr_chosen_mpr M cov n (c, s) = Some (c', s') \<Longrightarrow>
   choose_maximum M cov wanted w (c, s) = (if wanted \<le> c' then Some (True, c', s') else choose_maximum M cov wanted w (c', s'))"
  by (subst choose_maximum.simps) simp

lemma not_yet [simp]: "\<not> (3 :: u16) \<le> 0" "\<not> (3 :: u16) \<le> 1" "\<not> (3 :: u16) \<le> 2"
  by (simp_all add: word_le_nat_alt)

lemma relay_choose_3: "choose_maximum [] (Suc 0) 3 3 (0, relay_state 3 2 1 False False 0) = Some (False, 2, relay_state 1 0 (-1) True True 2)"
  by (simp add: choose_maximum_Some [OF relay_maximum_3(1) relay_chosen(1)] choose_maximum_Some [OF relay_maximum_3(2) relay_chosen(2)]
      choose_maximum_None [OF relay_maximum_3(3)])

lemma relay_level:
  "of_nat (Suc l) \<noteq> (3 :: byte) \<Longrightarrow> \<not> wanted \<le> n \<Longrightarrow>
   mpr_levels [] (Suc 0) wanted (Suc l) (n, relay_state i j k p q c) = mpr_levels [] (Suc 0) wanted l (n, relay_state i j k p q c)"
  by (simp add: relay_one_link choose_one_links_def choose_maximum_None [OF relay_maximum] del: of_nat_Suc)

lemma relay_levels: "mpr_levels [] (Suc 0) 3 6 (0, relay_state 3 2 1 False False 0) = Some (2, relay_state 1 0 (-1) True True 2)"
proof -
  have low: "mpr_levels [] (Suc 0) 3 (Suc (Suc 0)) (2, relay_state 1 0 (-1) True True 2) = Some (2, relay_state 1 0 (-1) True True 2)"
    by (simp add: relay_level del: mpr_levels.simps(2))
  have "mpr_levels [] (Suc 0) 3 (Suc (Suc (Suc 0))) (0, relay_state 3 2 1 False False 0) = Some (2, relay_state 1 0 (-1) True True 2)"
    by (subst mpr_levels.simps) (simp add: relay_one_link choose_one_links_def relay_choose_3 low del: mpr_levels.simps(2))
  then have "mpr_levels [] (Suc 0) 3 (Suc (Suc (Suc (Suc (Suc (Suc 0)))))) (0, relay_state 3 2 1 False False 0) = Some (2, relay_state 1 0 (-1) True True 2)"
    by (simp add: relay_level del: mpr_levels.simps(2))
  then show ?thesis by (simp add: eval_nat_numeral del: mpr_levels.simps)
qed

lemma relay_result: "olsr_calculate_mpr (ne_conf home) [] three_relays = Some (relay_state 1 0 (-1) False False 2)"
  by (simp add: olsr_calculate_mpr_def mpr_selection_def relay_clear relay_count relay_always relay_levels relay_optimize relay_changes del: mpr_levels.simps)

section \<open>A neighbour with an asymmetric link\<close>

text \<open>10.0.0.2, whose link is not symmetric, lists 10.0.0.3; 10.0.0.4, whose link is symmetric, lists 10.0.0.6.\<close>

definition lists_3 :: "hello_neighbor list" where
  "lists_3 = [\<lparr>hn_status = sym_neigh, hn_link = 6, hn_addr = ip_3, hn_cost = 0\<rparr>]"

definition heard_nbr :: "ip_addr \<Rightarrow> nbr_status \<Rightarrow> byte \<Rightarrow> nat \<Rightarrow> neighbor_entry" where
  "heard_nbr a st w m = \<lparr>nb_addr = a, nb_status = st, nb_will = w, nb_is_mpr = False, nb_was_mpr = False,
                         nb_skip = False, nb_nocov = 0, nb_2_list = [\<lparr>l2_two = m, l2_timer = None\<rparr>]\<rparr>"

definition lone_two :: "ip_addr \<Rightarrow> nat \<Rightarrow> neighbor_2_entry" where
  "lone_two a n = \<lparr>n2_addr = a, n2_covered = 0, n2_processed = False, n2_pointer = 1, n2_nblist = [new_link n]\<rparr>"

definition two_nbrs :: nbrhood where
  "two_nbrs = \<lparr>nh_nbr = [0 \<mapsto> plain_nbr ip_2, 1 \<mapsto> (plain_nbr ip_4)\<lparr>nb_status := SYM\<rparr>], nh_two = Map.empty,
     nh_nbr_tab = row_tab[119 := [0], 33 := [1]], nh_two_tab = row_tab,
     nh_fresh = 2, nh_changes_nbr = True, nh_changes_topo = True, nh_signal = True\<rparr>"

definition one_way :: nbrhood where
  "one_way = \<lparr>nh_nbr = [0 \<mapsto> heard_nbr ip_2 NOT_SYM 6 3, 1 \<mapsto> heard_nbr ip_4 SYM 3 2],
     nh_two = [2 \<mapsto> lone_two ip_6 1, 3 \<mapsto> lone_two ip_3 0],
     nh_nbr_tab = row_tab[119 := [0], 33 := [1]], nh_two_tab = row_tab[53 := [2], 68 := [3]],
     nh_fresh = 4, nh_changes_nbr = True, nh_changes_topo = True, nh_signal = True\<rparr>"

lemma two_nbrs_run: "iter [Insert_Nbr ip_2, Insert_Nbr ip_4, Status 1 True] (nbr_try home) nbr_init = Some two_nbrs"
  by (simp add: nbr_eval nbr_init_rows two_nbrs_def plain_nbr_def numeral_2_eq_2 numeral_3_eq_3)

lemma one_way_run: "iter [Hello 1 3 100 lists_6, Hello 0 6 100 lists_3] (nbr_try home) two_nbrs = Some one_way"
  by (simp add: nbr_eval lists_3_def two_nbrs_def one_way_def plain_nbr_def heard_nbr_def lone_two_def new_link_def fun_upd_twist)

definition way_state :: "int \<Rightarrow> int \<Rightarrow> bool \<Rightarrow> bool \<Rightarrow> byte \<Rightarrow> bool \<Rightarrow> nbrhood" where
  "way_state i j p b c q = one_way\<lparr>
     nh_nbr := [0 \<mapsto> (heard_nbr ip_2 NOT_SYM 6 3)\<lparr>nb_nocov := i, nb_is_mpr := p\<rparr>, 1 \<mapsto> (heard_nbr ip_4 SYM 3 2)\<lparr>nb_nocov := j\<rparr>],
     nh_two := [2 \<mapsto> (lone_two ip_6 1)\<lparr>n2_processed := b\<rparr>, 3 \<mapsto> (lone_two ip_3 0)\<lparr>n2_processed := q, n2_covered := c\<rparr>]\<rparr>"

lemma way_concat: "concat (row_tab[119 := [0], 33 := [Suc 0]]) = [Suc 0, 0]" "concat (row_tab[53 := [2], 68 := [3]]) = [2, 3]"
  by code_simp+

lemmas way_eval = way_state_def one_way_def heard_nbr_def lone_two_def new_link_def nbr_eval one_hop_status_def all_nbrs_def all_twos_def
  way_concat

lemma way_clear: "olsr_clear_mprs one_way = Some one_way"
  by (simp add: olsr_clear_mprs_def clear_covered_def way_eval fun_upd_twist)

lemma way_count: "olsr_calculate_two_hop_neighbors [] one_way = Some (1, way_state 1 1 False True 0 False)"
  by (simp add: olsr_calculate_two_hop_neighbors_def olsr_clear_two_hop_processed_def count_two_def way_eval fun_upd_twist)

lemma way_always: "add_will_always_nodes [] (Suc 0) (way_state 1 1 False True 0 False) = Some (0, way_state 1 1 False True 0 False)"
  by (simp add: add_will_always_nodes_def will_always_def way_eval)

lemma way_one_link: "olsr_find_2_hop_neighbors_with_1_link [] 6 (way_state 1 1 False True 0 False) = Some []"
  by (simp add: olsr_find_2_hop_neighbors_with_1_link_def one_link_def way_eval)

lemma way_maximum: "olsr_find_maximum_covered 6 (way_state 1 1 False True 0 False) = Some (Some 0)"
  by (simp add: olsr_find_maximum_covered_def way_eval)

lemma way_chosen: "olsr_chosen_mpr [] (Suc 0) 0 (0, way_state 1 1 False True 0 False) = Some (1, way_state 1 1 True True 1 False)"
  by (simp add: olsr_chosen_mpr_def chosen_two_def way_eval fun_upd_twist)

lemma way_levels: "mpr_levels [] (Suc 0) 1 6 (0, way_state 1 1 False True 0 False) = Some (1, way_state 1 1 True True 1 False)"
proof -
  have "mpr_levels [] (Suc 0) 1 (Suc 5) (0, way_state 1 1 False True 0 False) = Some (1, way_state 1 1 True True 1 False)"
    by (subst mpr_levels.simps) (simp add: way_one_link choose_one_links_def choose_maximum_Some [OF way_maximum way_chosen] del: mpr_levels.simps)
  then show ?thesis by (simp del: mpr_levels.simps)
qed

lemma way_optimize: "olsr_optimize_mpr_set [] (Suc 0) (way_state 1 1 True True 1 False) = Some (way_state 1 1 True True 1 False)"
  by (simp add: olsr_optimize_mpr_set_def needed_by_def way_eval upt_rec)

lemma way_changes: "olsr_check_mpr_changes (way_state 1 1 True True 1 False) = Some (False, way_state 1 1 True True 1 False)"
  by (simp add: olsr_check_mpr_changes_def way_eval)

lemma way_result: "olsr_calculate_mpr (ne_conf home) [] one_way = Some (way_state 1 1 True True 1 False)"
  by (simp add: olsr_calculate_mpr_def mpr_selection_def way_clear way_count way_always way_levels way_optimize way_changes del: mpr_levels.simps)

end
