(* ===== verification/Nbr_Claims.thy ===== *)
theory Nbr_Claims imports Nbr_Cases begin

text \<open>What holds of the neighbourhood and of the two selections of relays.\<close>

section \<open>The tables\<close>


lemma three_relays_reach: "nbr_reach home three_relays"
  by (rule nbr_reach_run [OF three_relays_run nbr_reach_run [OF three_sym_run nbr_reach_run [OF three_nbrs_run nbr_reach.start]]])

lemma one_way_reach: "nbr_reach home one_way"
  by (rule nbr_reach_run [OF one_way_run nbr_reach_run [OF two_nbrs_run nbr_reach.start]])

lemma home_mid: "mid_ok (ne_mid home)"
  by (simp add: mid_ok_Nil)


text \<open>
  C38. A link to a two-hop neighbour that a HELLO message adds has no timer, because \<open>olsr_change_timer\<close> is called with a null
  pointer: it does not expire, unless the neighbour lists the two-hop neighbour again.
\<close>

theorem new_link_never_expires:
  assumes "nbr_reach v s" "mid_ok (ne_mid v)" "nh_nbr s n = Some e" "will \<noteq> will_never"
    and "\<not> ne_own v (hn_addr h)" "hello_sym h" "(nb_addr e, olsr_main_addr (ne_mid v) (hn_addr h)) \<notin> hop_links s"
  shows "\<exists>s' m. nbr_handle v (Hello n will vtime [h]) s = Some s' \<and> two_name s' m = olsr_main_addr (ne_mid v) (hn_addr h) \<and>
    m \<in> set (twos_at s' n) \<and> \<not> can_happen (Expire n m) s'"
proof -
  have ok: "nbr_ok s" by (rule nbr_reach_ok [OF assms(1,2)])
  obtain s' e' m t where s': "nbr_handle v (Hello n will vtime [h]) s = Some s'" "nh_nbr s' n = Some (linked_nbr m e')"
    "m \<notin> set (twos_of e')" "nh_two s' m = Some t" "n2_addr t = olsr_main_addr (ne_mid v) (hn_addr h)"
    using hello_tap_new_link [where own = "ne_own v" and h = h and cf = "ne_conf v" and best_link = "ne_best_link v" and
      relevant = "ne_relevant v" and vtime = vtime, OF ok assms(3,2,5,6,4,7)] unfolding nbr_handle.simps by blast
  have "\<not> list_ex (\<lambda>l. l2_two l = m \<and> l2_timer l \<noteq> None) (nb_2_list (linked_nbr m e'))"
    using s'(3) by (auto simp: linked_nbr_def list_ex_iff twos_of_def)
  then show ?thesis using s' by (intro exI [of _ s'] exI [of _ m]) (simp add: two_name_def twos_at_def)
qed

lemma two_nbrs_reach: "nbr_reach home two_nbrs"
  by (rule nbr_reach_run [OF two_nbrs_run nbr_reach.start])

theorem new_link_never_expires_witness:
  "\<exists>s' m. nbr_handle home (Hello 1 3 100 lists_6) two_nbrs = Some s' \<and> two_name s' m = ip_6 \<and>
     m \<in> set (twos_at s' 1) \<and> \<not> can_happen (Expire 1 m) s'"
proof -
  have n: "nh_nbr two_nbrs 1 = Some ((plain_nbr ip_4)\<lparr>nb_status := SYM\<rparr>)" by (simp add: two_nbrs_def)
  have "hop_links two_nbrs = {}" by (auto simp: hop_links_def two_nbrs_def)
  then show ?thesis
    using new_link_never_expires [OF two_nbrs_reach home_mid n, of 3 "hd lists_6" 100]
    by (simp add: lists_6_def hello_sym_def will_never_def)
qed

section \<open>Relays after RFC 3626\<close>


definition one_relay :: nbrhood where
  "one_relay = \<lparr>nh_nbr = [0 \<mapsto> plain_nbr ip_2, 1 \<mapsto> heard_nbr ip_4 SYM 3 2], nh_two = [2 \<mapsto> lone_two ip_6 1],
     nh_nbr_tab = row_tab[119 := [0], 33 := [1]], nh_two_tab = row_tab[53 := [2]],
     nh_fresh = 3, nh_changes_nbr = True, nh_changes_topo = True, nh_signal = True\<rparr>"

lemma one_relay_run: "iter [Hello 1 3 100 lists_6] (nbr_try home) two_nbrs = Some one_relay"
  by (simp add: nbr_eval two_nbrs_def one_relay_def plain_nbr_def heard_nbr_def lone_two_def new_link_def)

lemma one_relay_single: "single_relay [] one_relay 1 3"
  unfolding single_relay_def only_via_def strict_def
  by (intro exI [of _ 2]) (simp add: one_relay_def heard_nbr_def lone_two_def nbrs_of_def new_link_def plain_nbr_def)


text \<open>
  Three symmetric neighbours of the default willingness reach the only two-hop neighbour, and the selection ends without
  any relay: the counter of reachable two-hop neighbours runs on from neighbour to neighbour, so two relays are chosen, and the
  optimisation then removes both, because it never lowers the coverage.
\<close>

theorem three_neighbours_no_relay:
  "nbr_reach home three_relays \<and> strict [] three_relays 3 \<and> sym_nbrs three_relays = {0, 1, 2} \<and>
     map (twos_at three_relays) [0, 1, 2] = [[3], [3], [3]] \<and>
     (\<exists>s'. nbr_handle home Select_Mpr three_relays = Some s' \<and> mprs s' = {})"
proof (intro conjI exI)
  show "nbr_reach home three_relays" by (rule three_relays_reach)
  show "strict [] three_relays 3" by (simp add: strict_def three_relays_def will_nbr_def two_6_def)
  show "sym_nbrs three_relays = {0, 1, 2}" by (auto simp: sym_nbrs_def three_relays_def will_nbr_def)
  show "map (twos_at three_relays) [0, 1, 2] = [[3], [3], [3]]" by (simp add: three_relays_def will_nbr_def twos_at_def twos_of_def)
  show "nbr_handle home Select_Mpr three_relays = Some (relay_state 1 0 (-1) False False 2)" using relay_result by simp
  show "mprs (relay_state 1 0 (-1) False False 2) = {}" by (auto simp: mprs_def relay_state_def will_nbr_def)
qed

text \<open>
  A neighbour whose link is not symmetric is chosen as the only relay, and the count that it
  raises ends the selection before the symmetric neighbour that alone reaches 10.0.0.6 is looked at.
\<close>

theorem asymmetric_relay:
  "nbr_reach home one_way \<and> single_relay [] one_way 1 3 \<and> 0 \<notin> sym_nbrs one_way \<and>
     (\<exists>s'. nbr_handle home Select_Mpr one_way = Some s' \<and> mprs s' = {0})"
proof (intro conjI exI)
  show "nbr_reach home one_way" by (rule one_way_reach)
  show "single_relay [] one_way 1 3"
    unfolding single_relay_def only_via_def strict_def
    by (intro exI [of _ 2]) (simp add: one_way_def heard_nbr_def lone_two_def nbrs_of_def new_link_def)
  show "0 \<notin> sym_nbrs one_way" by (simp add: sym_nbrs_def one_way_def heard_nbr_def)
  show "nbr_handle home Select_Mpr one_way = Some (way_state 1 1 True True 1 False)" using way_result by simp
  show "mprs (way_state 1 1 True True 1 False) = {0}" by (auto simp: mprs_def way_state_def heard_nbr_def)
qed

section \<open>Relays by link quality\<close>

text \<open>
  C17. The relays by link quality are the symmetric neighbours that always relay and, for every two-hop neighbour, the first
  \<open>mpr_coverage\<close> of its links when those through symmetric neighbours with a cost below that of the direct link are sorted by cost.
  A change is signalled exactly when some neighbour becomes a relay that was none; losing a relay is not signalled.
\<close>

theorem lq_relays_exact:
  assumes "nbr_reach v s" "mid_ok (ne_mid v)"
  shows "\<exists>s'. olsr_calculate_lq_mpr (ne_conf v) (ne_mid v) (ne_best_link v) s = Some s' \<and>
    mprs s' = always_nbrs s \<union> (\<Union>m. lq_relays (ne_mid v) (ne_best_link v) (cf_mpr_coverage (ne_conf v)) s m) \<and>
    nh_signal s' = (nh_signal s \<or> cf_tc_redundancy (ne_conf v) > 0 \<and> \<not> mprs s' \<subseteq> mprs s)"
  using calculate_lq_ok [OF nbr_reach_ok [OF assms], of "ne_conf v" "ne_mid v" "ne_best_link v"] by blast

theorem lq_relays_exact_witness:
  "\<exists>s'. olsr_calculate_lq_mpr (ne_conf home) [] (\<lambda>a. None) one_way = Some s' \<and> mprs s' = {}"
proof -
  have "always_nbrs one_way = {}" by (auto simp: always_nbrs_def one_way_def heard_nbr_def will_always_def split: if_splits)
  moreover have "lq_relays [] (\<lambda>a. None) k one_way m = {}" for k m
    by (auto simp: lq_relays_def one_way_def lone_two_def new_link_def split: option.splits)
  moreover have "ne_best_link home = (\<lambda>a. None)" by (simp add: home_def)
  ultimately show ?thesis using lq_relays_exact [OF one_way_reach home_mid] by auto
qed

end
