(* ===== verification/Wire.thy ===== *)
theory Wire imports Prelude_MPOLSR begin

text \<open>
  Reading and writing of the messages of the OLSR daemon (\<open>lq_packet.h\<close>) and the arithmetic of the C type \<open>int\<close>. A
  read pointer is the list of the bytes from its position to the end of the receive buffer; reading past the end is
  undefined. A writing function returns the bytes that it appends.
\<close>

section \<open>Signed arithmetic\<close>

text \<open>The value of an \<open>int\<close> expression: an overflow is undefined.\<close>

definition c_int :: "int \<Rightarrow> int option" where
  "c_int x = (if - (2 ^ 31) \<le> x \<and> x < 2 ^ 31 then Some x else None)"

text \<open>Division truncates; the divisors of the code are not negative, so only the zero divisor is excluded.\<close>

definition c_div :: "int \<Rightarrow> int \<Rightarrow> int option" where
  "c_div x y = (if y = 0 then None else c_int (sgn x * sgn y * (\<bar>x\<bar> div \<bar>y\<bar>)))"

lemma c_int_Some [simp]: "- (2 ^ 31) \<le> x \<Longrightarrow> x < 2 ^ 31 \<Longrightarrow> c_int x = Some x"
  by (simp add: c_int_def)

lemma c_int_nonneg: "0 \<le> x \<Longrightarrow> x < 2 ^ 31 \<Longrightarrow> c_int x = Some x"
  by simp

lemma c_div_nat [simp]:
  assumes "0 \<le> x" "x < 2 ^ 31" "0 < y"
  shows "c_div x y = Some (x div y)"
proof -
  have "x div y \<le> x" using zdiv_mono2 [of x 1 y] assms by simp
  then have "x div y < 2 ^ 31" "- (2 ^ 31) \<le> x div y"
    using assms by (auto simp: pos_imp_zdiv_nonneg_iff intro: order_trans [of _ 0])
  moreover have "sgn x * sgn y * (\<bar>x\<bar> div \<bar>y\<bar>) = x div y" using assms by (cases "x = 0") simp_all
  ultimately have "c_int (sgn x * sgn y * (\<bar>x\<bar> div \<bar>y\<bar>)) = Some (x div y)" by (simp only: c_int_Some)
  then show ?thesis using assms by (simp only: c_div_def) simp
qed

section \<open>Bytes of a message\<close>

lemma byte_less [simp]: "unat (b :: byte) < 256"
  using unsigned_less [of b] by simp

lemma unat_u16: "n < 65536 \<Longrightarrow> unat (of_nat n :: u16) = n"
  by (simp add: unat_of_nat)

lemma uint_less_nat: "uint (b :: byte) < int n \<longleftrightarrow> unat b < n"
  by (simp only: uint_nat of_nat_less_iff)

definition pkt_get_u8 :: "byte list \<Rightarrow> (byte \<times> byte list) option" where
  "pkt_get_u8 p = (case p of a # q \<Rightarrow> Some (a, q) | _ \<Rightarrow> None)"

definition pkt_get_u16 :: "byte list \<Rightarrow> (u16 \<times> byte list) option" where
  "pkt_get_u16 p = (case p of a # b # q \<Rightarrow> Some (htons (of_le16 [a, b]), q) | _ \<Rightarrow> None)"

definition pkt_get_ipaddress :: "byte list \<Rightarrow> (ip_addr \<times> byte list) option" where
  "pkt_get_ipaddress p = (case p of a # b # c # d # q \<Rightarrow> Some (of_le32 [a, b, c, d], q) | _ \<Rightarrow> None)"

definition pkt_ignore_u8 :: "byte list \<Rightarrow> byte list option" where
  "pkt_ignore_u8 p = (case p of a # q \<Rightarrow> Some q | _ \<Rightarrow> None)"

definition pkt_ignore_u16 :: "byte list \<Rightarrow> byte list option" where
  "pkt_ignore_u16 p = (case p of a # b # q \<Rightarrow> Some q | _ \<Rightarrow> None)"

definition pkt_put_u8 :: "byte \<Rightarrow> byte list" where
  "pkt_put_u8 v = [v]"

definition pkt_put_u16 :: "u16 \<Rightarrow> byte list" where
  "pkt_put_u16 v = le16 (htons v)"

definition pkt_put_ipaddress :: "ip_addr \<Rightarrow> byte list" where
  "pkt_put_ipaddress a = le32 a"

lemma pkt_get_put [simp]:
  "pkt_get_u8 (pkt_put_u8 v @ q) = Some (v, q)"
  "pkt_get_u16 (pkt_put_u16 w @ q) = Some (w, q)"
  "pkt_get_ipaddress (pkt_put_ipaddress a @ q) = Some (a, q)"
  using of_le16_le16 [of "htons w"] of_le32_le32 [of a]
  by (simp_all add: pkt_get_u8_def pkt_put_u8_def pkt_get_u16_def pkt_put_u16_def pkt_get_ipaddress_def
      pkt_put_ipaddress_def le16_def le32_def)

lemma pkt_ignore_put [simp]:
  "pkt_ignore_u8 (pkt_put_u8 v @ q) = Some q"
  "pkt_ignore_u16 (pkt_put_u16 w @ q) = Some q"
  by (simp_all add: pkt_ignore_u8_def pkt_put_u8_def pkt_ignore_u16_def pkt_put_u16_def le16_def)

lemma length_pkt_put [simp]:
  "length (pkt_put_u8 v) = 1" "length (pkt_put_u16 w) = 2" "length (pkt_put_ipaddress a) = 4"
  by (simp_all add: pkt_put_u8_def pkt_put_u16_def pkt_put_ipaddress_def)

end
