(* ===== verification/Lq_Fpm.thy ===== *)
theory Lq_Fpm imports Wire Nbr_Tables begin

text \<open>
  The metrics of the daemon. \<open>lq_plugin.h\<close> has a table of functions, \<open>lq_handler\<close>, which becomes the locale \<open>lq_handler\<close>:
  what the reading and the writing of HELLO and TC messages needs of a metric. This theory has the metric
  \<open>etx_fpm\<close> (\<open>lq_plugin_default_fpm.c\<close>), which the daemon uses by default, and the function of \<open>lq_plugin.c\<close> that updates the cost of a link.
\<close>

section \<open>The table of functions\<close>

text \<open>
  A metric writes two values of a link (the quality seen here and the quality seen at the other end) and reads them at the
  receiver, where the other fields of the structure keep what they had.
\<close>

locale lq_handler =
  fixes qualities :: "'q \<Rightarrow> byte \<times> byte"
    and serialize :: "'q \<Rightarrow> byte list"
    and deserialize :: "byte list \<Rightarrow> 'q \<Rightarrow> ('q \<times> byte list) option"
    and calc_cost :: "'q \<Rightarrow> ulong option"
  assumes serialize_size: "length (serialize q) = 4"
    and serialized: "\<exists>q'. (\<forall>p. deserialize (serialize q @ p) q0 = Some (q', p)) \<and> qualities q' = qualities q"
    and cost_returns: "\<exists>c. calc_cost q = Some c \<and> 0 < c \<and> c \<le> link_cost_broken"
    and cost_view: "qualities q = qualities q' \<Longrightarrow> calc_cost q = calc_cost q'"
begin

text \<open>The receiver of a message computes the cost that the sender would compute from the two values.\<close>

lemma received_cost:
  "\<exists>q' c. (\<forall>p. deserialize (serialize q @ p) q0 = Some (q', p)) \<and> qualities q' = qualities q \<and>
     calc_cost q' = Some c \<and> calc_cost q = Some c \<and> 0 < c \<and> c \<le> link_cost_broken"
  using serialized [of q q0] cost_returns [of q] cost_view by metis

end

section \<open>The metric \<open>etx_fpm\<close>\<close>

record default_lq_fpm =
  valueLq :: byte
  valueNlq :: byte
  quickstart :: u16

definition internal_multiplier :: ulong where "internal_multiplier = 65535"
definition linkcost_multiplier :: int where "linkcost_multiplier = 65535"
definition useful_lq :: int where "useful_lq = 25"
definition quickstart_steps :: u16 where "quickstart_steps = 12"
definition link_loss_multiplier :: ulong where "link_loss_multiplier = push_bit 16 1"

text \<open>The factors of the moving average. The argument is the product of the configured aging and 65535 after its conversion to an integer.\<close>

record fpm_factors =
  aging_factor_new :: ulong
  aging_factor_old :: ulong
  aging_quickstart_new :: ulong
  aging_quickstart_old :: ulong

definition default_lq_initialize_fpm :: "ulong \<Rightarrow> fpm_factors" where
  "default_lq_initialize_fpm aging =
     \<lparr>aging_factor_new = aging, aging_factor_old = internal_multiplier - aging,
      aging_quickstart_new = 16383, aging_quickstart_old = internal_multiplier - 16383\<rparr>"

definition default_lq_calc_cost_fpm :: "default_lq_fpm \<Rightarrow> ulong option" where
  "default_lq_calc_cost_fpm lq =
     (if uint (valueLq lq) < useful_lq \<or> uint (valueNlq lq) < useful_lq then Some link_cost_broken
      else do {
        a \<leftarrow> c_int (linkcost_multiplier * 255);
        a \<leftarrow> c_div a (uint (valueLq lq));
        a \<leftarrow> c_int (a * 255);
        a \<leftarrow> c_div a (uint (valueNlq lq));
        (let cost = word_of_int a :: ulong in
         if cost > link_cost_broken then Some link_cost_broken
         else if cost = 0 then Some 1
         else Some cost) })"

definition default_lq_serialize_hello_lq_pair_fpm :: "default_lq_fpm \<Rightarrow> byte list" where
  "default_lq_serialize_hello_lq_pair_fpm lq = [valueLq lq, valueNlq lq, 0, 0]"

definition default_lq_deserialize_hello_lq_pair_fpm ::
    "byte list \<Rightarrow> default_lq_fpm \<Rightarrow> (default_lq_fpm \<times> byte list) option" where
  "default_lq_deserialize_hello_lq_pair_fpm p lq = do {
     (a, p) \<leftarrow> pkt_get_u8 p;
     (b, p) \<leftarrow> pkt_get_u8 p;
     p \<leftarrow> pkt_ignore_u16 p;
     Some (lq\<lparr>valueLq := a, valueNlq := b\<rparr>, p) }"

definition default_lq_is_relevant_costchange_fpm :: "ulong \<Rightarrow> ulong \<Rightarrow> bool" where
  "default_lq_is_relevant_costchange_fpm c1 c2 = (if c1 > c2 then c2 - c1 > 64 else c1 - c2 > 64)"

definition default_lq_serialize_tc_lq_pair_fpm :: "default_lq_fpm \<Rightarrow> byte list" where
  "default_lq_serialize_tc_lq_pair_fpm lq = [valueLq lq, valueNlq lq, 0, 0]"

definition default_lq_deserialize_tc_lq_pair_fpm ::
    "byte list \<Rightarrow> default_lq_fpm \<Rightarrow> (default_lq_fpm \<times> byte list) option" where
  "default_lq_deserialize_tc_lq_pair_fpm p lq = do {
     (a, p) \<leftarrow> pkt_get_u8 p;
     (b, p) \<leftarrow> pkt_get_u8 p;
     p \<leftarrow> pkt_ignore_u16 p;
     Some (lq\<lparr>valueLq := a, valueNlq := b\<rparr>, p) }"

text \<open>One HELLO message more, received or lost; \<open>mult\<close> is the factor that the configuration sets for the link. All values are unsigned and wrap.\<close>

definition aging_step :: "fpm_factors \<Rightarrow> default_lq_fpm \<Rightarrow> ulong \<times> ulong \<times> default_lq_fpm" where
  "aging_step F lq =
     (if quickstart lq < quickstart_steps
      then (aging_quickstart_new F, aging_quickstart_old F, lq\<lparr>quickstart := quickstart lq + 1\<rparr>)
      else (aging_factor_new F, aging_factor_old F, lq))"

definition moving_average :: "ulong \<Rightarrow> ulong \<Rightarrow> ulong \<Rightarrow> bool \<Rightarrow> byte \<Rightarrow> byte" where
  "moving_average alpha_new alpha_old mult lost v =
     (let value = ucast v * internal_multiplier div 255;
          value = (value * alpha_old + internal_multiplier - 1) div internal_multiplier;
          value = (if lost then value
                   else value + (alpha_new * mult + link_loss_multiplier - 1) div link_loss_multiplier)
      in ucast ((value * 255 + internal_multiplier - 1) div internal_multiplier))"

definition default_lq_packet_loss_worker_fpm ::
    "fpm_factors \<Rightarrow> ulong \<Rightarrow> bool \<Rightarrow> default_lq_fpm \<Rightarrow> (ulong \<times> default_lq_fpm) option" where
  "default_lq_packet_loss_worker_fpm F mult lost lq =
     (let (alpha_new, alpha_old, lq) = aging_step F lq;
          lq = lq\<lparr>valueLq := moving_average alpha_new alpha_old mult lost (valueLq lq)\<rparr>
      in do { c \<leftarrow> default_lq_calc_cost_fpm lq; Some (c, lq) })"

definition default_lq_memorize_foreign_hello_fpm :: "default_lq_fpm \<Rightarrow> default_lq_fpm option \<Rightarrow> default_lq_fpm" where
  "default_lq_memorize_foreign_hello_fpm local foreign =
     (case foreign of Some f \<Rightarrow> local\<lparr>valueNlq := valueLq f\<rparr> | None \<Rightarrow> local\<lparr>valueNlq := 0\<rparr>)"

definition default_lq_clear_fpm :: default_lq_fpm where
  "default_lq_clear_fpm = \<lparr>valueLq = 0, valueNlq = 0, quickstart = 0\<rparr>"

section \<open>The cost of a link (\<open>lq_plugin.c\<close>)\<close>

record lq_link =
  lk_quality :: default_lq_fpm
  lk_linkcost :: ulong
  lk_loss_mult :: ulong

text \<open>The flags \<open>changes_neighborhood\<close>, \<open>changes_topology\<close> and the signal of a change of a link.\<close>

record lq_flags =
  fl_neighborhood :: bool
  fl_topology :: bool
  fl_link :: bool

definition olsr_update_packet_loss_worker ::
    "olsr_conf \<Rightarrow> fpm_factors \<Rightarrow> bool \<Rightarrow> lq_link \<times> lq_flags \<Rightarrow> (lq_link \<times> lq_flags) option" where
  "olsr_update_packet_loss_worker cf F lost = (\<lambda>(entry, fl). do {
     (lq, q) \<leftarrow> default_lq_packet_loss_worker_fpm F (lk_loss_mult entry) lost (lk_quality entry);
     (let entry = entry\<lparr>lk_quality := q\<rparr> in
      if default_lq_is_relevant_costchange_fpm lq (lk_linkcost entry)
      then let entry = entry\<lparr>lk_linkcost := lq\<rparr>;
               fl = (if cf_lq_dlimit cf > 0 then fl\<lparr>fl_neighborhood := True, fl_topology := True\<rparr> else fl)
           in Some (entry, fl\<lparr>fl_link := True\<rparr>)
      else Some (entry, fl)) })"

definition olsr_memorize_foreign_hello_lq :: "lq_link \<Rightarrow> default_lq_fpm option \<Rightarrow> lq_link" where
  "olsr_memorize_foreign_hello_lq l foreign = l\<lparr>lk_quality := default_lq_memorize_foreign_hello_fpm (lk_quality l) foreign\<rparr>"

end
