(* ===== verification/Lq_Fpm_Facts.thy ===== *)
theory Lq_Fpm_Facts imports Lq_Fpm begin

text \<open>
  What the metric \<open>etx_fpm\<close> computes, over natural numbers: none of its operations overflows or wraps where it should not, its cost falls
  with both qualities, and what a moving average with rounding up does to a link that is dead.
\<close>

section \<open>The cost\<close>

definition fpm_cost :: "nat \<Rightarrow> nat \<Rightarrow> nat" where
  "fpm_cost l n = (if l < 25 \<or> n < 25 then 2 ^ 22 else min (2 ^ 22) (65535 * 255 div l * 255 div n))"

lemma fpm_cost_le: "fpm_cost l n \<le> 2 ^ 22"
  by (simp add: fpm_cost_def)

lemma fpm_cost_raw:
  fixes l n :: nat
  assumes "25 \<le> l" "l < 256" "25 \<le> n" "n < 256"
  shows "65535 \<le> 65535 * 255 div l * 255 div n" "65535 * 255 div l * 255 div n < 2 ^ 31" "65535 * 255 div l * 255 < 2 ^ 31"
proof -
  have "65535 * 255 div 255 \<le> 65535 * 255 div l" using assms by (intro div_le_mono2) auto
  then have lo: "65535 \<le> 65535 * 255 div l" by simp
  then have "65535 * 255 div 255 \<le> 65535 * 255 div l * 255 div n"
    using assms by (intro order_trans [OF div_le_mono [of "65535 * 255" "65535 * 255 div l * 255" 255] div_le_mono2]) auto
  then show "65535 \<le> 65535 * 255 div l * 255 div n" by simp
  have "65535 * 255 div l \<le> 65535 * 255 div 25" using assms by (intro div_le_mono2) auto
  then have "65535 * 255 div l * 255 \<le> 668457 * 255" by simp
  then show "65535 * 255 div l * 255 < 2 ^ 31" by simp
  then show "65535 * 255 div l * 255 div n < 2 ^ 31" by (rule le_less_trans [OF div_le_dividend])
qed

lemma fpm_cost_antimono:
  assumes "l \<le> l'" "n \<le> n'"
  shows "fpm_cost l' n' \<le> fpm_cost l n"
proof (cases "l < 25 \<or> n < 25")
  case True
  then show ?thesis by (simp add: fpm_cost_le fpm_cost_def)
next
  case False
  have "65535 * 255 div l' * 255 div n' \<le> 65535 * 255 div l' * 255 div n"
    using False assms by (intro div_le_mono2) auto
  also have "\<dots> \<le> 65535 * 255 div l * 255 div n"
    using False assms by (intro div_le_mono mult_le_mono1 div_le_mono2) auto
  finally show ?thesis using False assms by (auto simp: fpm_cost_def min_le_iff_disj)
qed

lemma link_cost_broken_eq: "link_cost_broken = of_nat (2 ^ 22)"
  by (simp add: link_cost_broken_def)

lemma useful_less: "uint b < useful_lq \<longleftrightarrow> unat (b :: byte) < 25"
  using uint_less_nat [of b 25] by (simp add: useful_lq_def)

text \<open>The three steps of the conversion on \<open>int\<close>: nothing overflows.\<close>

lemma calc_cost_fpm_eq:
  "default_lq_calc_cost_fpm q = Some (of_nat (fpm_cost (unat (valueLq q)) (unat (valueNlq q))))"
proof (cases "unat (valueLq q) < 25 \<or> unat (valueNlq q) < 25")
  case True
  then have "uint (valueLq q) < useful_lq \<or> uint (valueNlq q) < useful_lq"
    using useful_less by blast
  with True show ?thesis by (auto simp: default_lq_calc_cost_fpm_def fpm_cost_def link_cost_broken_eq)
next
  case False
  define l n where "l = unat (valueLq q)" and "n = unat (valueNlq q)"
  have ln: "25 \<le> l" "l < 256" "25 \<le> n" "n < 256"
    using False by (auto simp: l_def n_def)
  define k where "k = 65535 * 255 div l"
  define m where "m = k * 255 div n"
  have m: "65535 \<le> m" "m < 2 ^ 31" and k: "k * 255 < 2 ^ 31"
    using fpm_cost_raw [OF ln] by (simp_all only: m_def k_def)
  have u: "uint (valueLq q) = int l" "uint (valueNlq q) = int n" by (simp_all add: l_def n_def)
  have "int (k * 255) < int (2 ^ 31)" using k by (simp only: of_nat_less_iff)
  then have k': "int k * 255 < 2 ^ 31" by simp
  have a: "c_div 16711425 (int l) = Some (int k)"
    using ln by (simp add: zdiv_int k_def)
  have b: "c_int (int k * 255) = Some (int k * 255)" using k' by simp
  have c: "c_div (int k * 255) (int n) = Some (int m)"
    using ln k' by (simp add: m_def zdiv_int)
  have "default_lq_calc_cost_fpm q =
     (let cost = of_nat m :: ulong in
      if cost > link_cost_broken then Some link_cost_broken else if cost = 0 then Some 1 else Some cost)"
    using ln by (simp add: default_lq_calc_cost_fpm_def u useful_lq_def linkcost_multiplier_def a b c)
  also have "\<dots> = Some (of_nat (min (2 ^ 22) m))"
  proof -
    have um: "unat (of_nat m :: ulong) = m" using m by (intro unat_small) simp
    have g: "(of_nat m :: ulong) > link_cost_broken \<longleftrightarrow> 2 ^ 22 < m"
      by (simp only: word_less_nat_alt um) (simp add: link_cost_broken_def)
    have "(of_nat m :: ulong) \<noteq> 0" using um m by (metis unat_0 not_numeral_le_zero)
    moreover have "min (2 ^ 22) m = (if 2 ^ 22 < m then 2 ^ 22 else m)" by simp
    ultimately show ?thesis by (simp only: Let_def g) (simp add: link_cost_broken_def)
  qed
  finally show ?thesis using ln by (simp add: fpm_cost_def l_def [symmetric] n_def [symmetric] m_def k_def)
qed

lemma unat_fpm_cost: "unat (of_nat (fpm_cost l n) :: ulong) = fpm_cost l n"
  using fpm_cost_le [of l n] by (intro unat_small) simp

lemma fpm_cost_pos: "l < 256 \<Longrightarrow> n < 256 \<Longrightarrow> 0 < fpm_cost l n"
  using fpm_cost_raw(1) [of l n] by (auto simp: fpm_cost_def)

section \<open>The interface\<close>

abbreviation fpm_qualities :: "default_lq_fpm \<Rightarrow> byte \<times> byte" where
  "fpm_qualities q \<equiv> (valueLq q, valueNlq q)"

lemma fpm_cost_bounds: "\<exists>c. default_lq_calc_cost_fpm q = Some c \<and> 0 < c \<and> c \<le> link_cost_broken"
  using fpm_cost_pos [of "unat (valueLq q)" "unat (valueNlq q)"] fpm_cost_le [of "unat (valueLq q)" "unat (valueNlq q)"]
  by (simp add: calc_cost_fpm_eq word_le_nat_alt word_less_nat_alt unat_fpm_cost link_cost_broken_def)

interpretation fpm_hello: lq_handler fpm_qualities default_lq_serialize_hello_lq_pair_fpm
    default_lq_deserialize_hello_lq_pair_fpm default_lq_calc_cost_fpm
  by unfold_locales
    (simp_all add: default_lq_serialize_hello_lq_pair_fpm_def default_lq_deserialize_hello_lq_pair_fpm_def pkt_get_u8_def
      pkt_ignore_u16_def fpm_cost_bounds, simp add: calc_cost_fpm_eq)

interpretation fpm_tc: lq_handler fpm_qualities default_lq_serialize_tc_lq_pair_fpm
    default_lq_deserialize_tc_lq_pair_fpm default_lq_calc_cost_fpm
  by unfold_locales
    (simp_all add: default_lq_serialize_tc_lq_pair_fpm_def default_lq_deserialize_tc_lq_pair_fpm_def pkt_get_u8_def
      pkt_ignore_u16_def fpm_cost_bounds, simp add: calc_cost_fpm_eq)

section \<open>Relevant changes\<close>

lemma relevant_any:
  assumes "c1 \<le> link_cost_broken" "c2 \<le> link_cost_broken"
  shows "default_lq_is_relevant_costchange_fpm c1 c2 \<longleftrightarrow> c1 \<noteq> c2"
proof -
  have wrap: "64 < a - b" if "a < b" "b \<le> link_cost_broken" for a b :: ulong
  proof -
    have ab: "unat a < unat b" "unat b \<le> 4194304"
      using that by (simp_all add: word_less_nat_alt word_le_nat_alt link_cost_broken_def)
    then have "unat (a - b) = 2 ^ 32 + unat a - unat b" by (simp add: unat_sub_if' )
    then show ?thesis using ab by (simp add: word_less_nat_alt)
  qed
  show ?thesis
  proof (cases c1 c2 rule: linorder_cases)
    case less
    then show ?thesis using wrap [OF less assms(2)] by (auto simp: default_lq_is_relevant_costchange_fpm_def)
  next
    case greater
    then show ?thesis using wrap [OF greater assms(1)] by (simp add: default_lq_is_relevant_costchange_fpm_def)
  qed (simp add: default_lq_is_relevant_costchange_fpm_def)
qed

section \<open>The moving average\<close>

text \<open>Division rounding up, as the code writes it.\<close>

lemma ceil_gt: "0 < d \<Longrightarrow> k < (a + (d - 1)) div d \<longleftrightarrow> k * d < (a :: nat)"
  by (simp add: less_eq_div_iff_mult_less_eq flip: Suc_le_eq) linarith

definition average :: "nat \<Rightarrow> nat \<Rightarrow> nat \<Rightarrow> bool \<Rightarrow> nat \<Rightarrow> nat" where
  "average an ao m lost v =
     (let x = (257 * v * ao + 65534) div 65535;
          y = (if lost then x else x + (an * m + 65535) div 65536)
      in (y * 255 + 65534) div 65535)"

lemma average_kept:
  fixes an ao :: nat
  assumes "an + ao = 65535" "v < 256" "m \<le> 65536"
  shows "257 * v * ao + 65534 < 2 ^ 32" "(257 * v * ao + 65534) div 65535 \<le> ao" "an * m + 65535 < 2 ^ 32"
    "(an * m + 65535) div 65536 \<le> an"
proof -
  have "257 * v * ao \<le> 65535 * 65535" using assms by (intro mult_le_mono) auto
  then have "257 * v * ao + 65534 \<le> 65535 * 65535 + 65534" by (rule add_le_mono1)
  also have "\<dots> < (2 :: nat) ^ 32" by simp
  finally show "257 * v * ao + 65534 < 2 ^ 32" .
  have "257 * v * ao \<le> 65535 * ao" using assms by (intro mult_le_mono1) auto
  then have "257 * v * ao + 65534 \<le> 65535 * ao + 65534" by (rule add_le_mono1)
  also have "\<dots> < Suc ao * 65535" by simp
  finally have "257 * v * ao + 65534 < Suc ao * 65535" .
  then show "(257 * v * ao + 65534) div 65535 \<le> ao" by (simp add: less_mult_imp_div_less flip: less_Suc_eq_le)
  have "an * m \<le> an * 65536" using assms by (intro mult_le_mono2) auto
  moreover have "an * 65536 \<le> 65535 * 65536" using assms by (intro mult_le_mono1) auto
  ultimately have "an * m + 65535 \<le> 65535 * 65536 + 65535" by linarith
  also have "\<dots> < (2 :: nat) ^ 32" by simp
  finally show "an * m + 65535 < 2 ^ 32" .
  have "an * m + 65535 < Suc an * 65536" using \<open>an * m \<le> an * 65536\<close> by (simp only: mult_Suc)
  then show "(an * m + 65535) div 65536 \<le> an" by (simp add: less_mult_imp_div_less flip: less_Suc_eq_le)
qed

lemma average_byte:
  fixes an ao :: nat
  assumes "an + ao = 65535" "v < 256" "m \<le> 65536"
  shows "average an ao m lost v < 256"
proof -
  define y where "y = (if lost then (257 * v * ao + 65534) div 65535
    else (257 * v * ao + 65534) div 65535 + (an * m + 65535) div 65536)"
  have "y \<le> 65535" using average_kept [OF assms] assms(1) by (auto simp: y_def)
  then have "y * 255 + 65534 < 256 * 65535" by simp
  then show ?thesis by (simp add: average_def Let_def y_def [symmetric] less_mult_imp_div_less)
qed

lemma word_ceil:
  assumes "a + k < 2 ^ 32"
  shows "(of_nat a :: ulong) + of_nat (Suc k) - 1 = of_nat (a + k)"
  by simp

lemma of_nat_div:
  assumes "a < 2 ^ 32" "b < 2 ^ 32"
  shows "(of_nat a :: ulong) div of_nat b = of_nat (a div b)"
proof (rule word_unat_eq_iff [THEN iffD2])
  have "a div b < 2 ^ 32" using assms(1) by (rule le_less_trans [OF div_le_dividend])
  then show "unat ((of_nat a :: ulong) div of_nat b) = unat (of_nat (a div b) :: ulong)"
    using assms by (simp only: unat_div unat_small)
qed

text \<open>With the factors of the daemon no operation of the moving average wraps.\<close>

lemma moving_average_exact:
  assumes "unat an + unat ao = 65535" "unat m \<le> 65536"
  shows "unat (moving_average an ao m lost v) = average (unat an) (unat ao) (unat m) lost (unat v)"
proof -
  define a b c w where "a = unat an" "b = unat ao" "c = unat m" "w = unat v"
  note d = this
  have ab: "a + b = 65535" "w < 256" "c \<le> 65536" using assms by (simp_all add: d)
  note kept = average_kept [OF ab]
  have eqs: "an = of_nat a" "ao = of_nat b" "m = of_nat c" "(ucast v :: ulong) = of_nat w"
    by (simp_all add: d)
  define x where "x = (257 * w * b + 65534) div 65535"
  define r where "r = (a * c + 65535) div 65536"
  have v0: "(of_nat w * internal_multiplier div 255 :: ulong) = of_nat (257 * w)"
    using of_nat_div [of "w * 65535" 255] ab(2) by (simp add: internal_multiplier_def algebra_simps)
  have v1: "((of_nat (257 * w) * of_nat b + internal_multiplier - 1) div internal_multiplier :: ulong) = of_nat x"
    using of_nat_div [of "257 * w * b + 65534" 65535] kept(1) by (simp add: internal_multiplier_def x_def add.commute)
  have v2: "((of_nat a * of_nat c + link_loss_multiplier - 1) div link_loss_multiplier :: ulong) = of_nat r"
    using of_nat_div [of "a * c + 65535" 65536] kept(3) by (simp add: link_loss_multiplier_def r_def add.commute)
  define y where "y = (if lost then x else x + r)"
  have y: "y \<le> 65535" using kept ab by (auto simp: y_def x_def r_def)
  have v3: "((of_nat y * 255 + internal_multiplier - 1) div internal_multiplier :: ulong) = of_nat ((y * 255 + 65534) div 65535)"
    using of_nat_div [of "y * 255 + 65534" 65535] y by (simp add: internal_multiplier_def add.commute)
  have yw: "(if lost then of_nat x else of_nat x + of_nat r) = (of_nat y :: ulong)" by (simp add: y_def)
  have avg: "average a b c lost w = (y * 255 + 65534) div 65535"
    by (simp add: average_def Let_def y_def x_def r_def)
  have "moving_average an ao m lost v = ucast (of_nat (average a b c lost w) :: ulong)"
    unfolding moving_average_def Let_def eqs v0 v1 v2 yw v3 avg by (rule refl)
  moreover have "average a b c lost w < 256" by (rule average_byte [OF ab])
  ultimately show ?thesis by (simp add: d unat_of_nat unsigned_of_nat take_bit_nat_eq_self)
qed

end
