(* ===== verification/Lq_Ff.thy ===== *)
theory Lq_Ff imports Lq_Fpm_Facts begin

text \<open>
  The metric \<open>etx_ff\<close> (\<open>lq_plugin_default_ff.c\<close>): packets are counted by their sequence numbers in a ring of 32 slots per link, and a
  timer computes the quality from the slots of the window. With it the fixed point numbers of \<open>fpm.h\<close>, of 10 binary places
  in the type \<open>long\<close>, and the lookup of a link in \<open>link_set.c\<close>.
\<close>

section \<open>Fixed point numbers\<close>

definition itofpm :: "ulong \<Rightarrow> int" where
  "itofpm a = sint (push_bit 10 a)"

definition fpmtoi :: "int \<Rightarrow> int" where
  "fpmtoi a = a div 1024"

definition fpmmuli :: "int \<Rightarrow> int \<Rightarrow> int option" where
  "fpmmuli a b = c_int (a * b)"

definition fpmidiv :: "int \<Rightarrow> int \<Rightarrow> int option" where
  "fpmidiv a b = c_div a b"

section \<open>State\<close>

definition lq_ff_window :: nat where "lq_ff_window = 32"
definition lq_ff_quickstart_init :: byte where "lq_ff_quickstart_init = 4"

record default_lq_ff =
  ff_valueLq :: byte
  ff_valueNlq :: byte

record default_lq_ff_hello =
  ffh_lq :: default_lq_ff
  windowSize :: byte
  activePtr :: byte
  last_seq_nr :: u16
  received :: "u16 list"
  lost :: "u16 list"

text \<open>A link, as far as the metric uses it; the neighbour is named by a number and its main address kept apart, since several links may share it.\<close>

record ff_link =
  fk_neighbor_iface_addr :: ip_addr
  fk_local_iface_addr :: ip_addr
  fk_if_name :: "string option"
  fk_neighbor :: nat
  fk_loss_mult :: ulong
  fk_linkcost :: ulong
  fk_quality :: default_lq_ff_hello

record olsr_iface =
  if_ip_addr :: ip_addr
  if_int_name :: string

record ff_state =
  fs_links :: "ff_link list"
  fs_main_addr :: "nat \<rightharpoonup> ip_addr"

section \<open>Operations\<close>

text \<open>A new link: the structure is allocated with zeros and then cleared by this function, which sets only some of its fields.\<close>

definition default_lq_clear_ff :: default_lq_ff where
  "default_lq_clear_ff = \<lparr>ff_valueLq = 0, ff_valueNlq = 0\<rparr>"

definition default_lq_clear_ff_hello :: "default_lq_ff_hello \<Rightarrow> default_lq_ff_hello option" where
  "default_lq_clear_ff_hello local =
     iter [0..<lq_ff_window] (\<lambda>i q. do { l \<leftarrow> wr (lost q) (int i) 3; Some (q\<lparr>lost := l\<rparr>) })
       (local\<lparr>ffh_lq := default_lq_clear_ff, windowSize := lq_ff_quickstart_init\<rparr>)"

definition zero_ff_hello :: default_lq_ff_hello where
  "zero_ff_hello = \<lparr>ffh_lq = default_lq_clear_ff, windowSize = 0, activePtr = 0, last_seq_nr = 0,
     received = replicate 32 0, lost = replicate 32 0\<rparr>"

definition default_lq_calc_cost_ff :: "default_lq_ff \<Rightarrow> ulong option" where
  "default_lq_calc_cost_ff lq =
     (if uint (ff_valueLq lq) < useful_lq \<or> uint (ff_valueNlq lq) < useful_lq then Some link_cost_broken
      else do {
        d \<leftarrow> c_int (uint (ff_valueLq lq) * uint (ff_valueNlq lq));
        a \<leftarrow> fpmidiv (itofpm (255 * 255)) d;
        (let cost = word_of_int a :: ulong in
         if cost > link_cost_broken then Some link_cost_broken
         else if cost = 0 then Some 1
         else Some cost) })"

text \<open>\<open>lookup_link_entry\<close>: the first link of the list that fits; the main address of its neighbour follows the one that the aliases give.\<close>

definition link_fits :: "ip_addr \<Rightarrow> olsr_iface \<Rightarrow> ff_link \<Rightarrow> bool" where
  "link_fits remote loc l =
     (remote = fk_neighbor_iface_addr l \<and>
      (case fk_if_name l of Some nm \<Rightarrow> nm = if_int_name loc | None \<Rightarrow> if_ip_addr loc = fk_local_iface_addr l))"

fun lookup_link_entry ::
    "ip_addr \<Rightarrow> ip_addr option \<Rightarrow> olsr_iface \<Rightarrow> ff_link list \<Rightarrow> (nat \<rightharpoonup> ip_addr) \<Rightarrow> (nat option \<times> (nat \<rightharpoonup> ip_addr)) option" where
  "lookup_link_entry remote remote_main loc [] N = Some (None, N)"
| "lookup_link_entry remote remote_main loc (l # ls) N =
     (if link_fits remote loc l
      then (case remote_main of
              None \<Rightarrow> Some (Some 0, N)
            | Some m \<Rightarrow> do { a \<leftarrow> N (fk_neighbor l); Some (Some 0, if m \<noteq> a then N(fk_neighbor l \<mapsto> m) else N) })
      else map_option (\<lambda>(r, N). (map_option Suc r, N)) (lookup_link_entry remote remote_main loc ls N))"

text \<open>A packet with the sequence number \<open>seqno\<close> (in the order of the host) arrives on the link.\<close>

definition ff_count :: "u16 \<Rightarrow> default_lq_ff_hello \<Rightarrow> default_lq_ff_hello option" where
  "ff_count seqno lq =
     (let seq_diff = (if last_seq_nr lq > seqno then ucast seqno + 65536 - ucast (last_seq_nr lq)
                      else ucast seqno - ucast (last_seq_nr lq)) :: ulong;
          seq_diff = (if seq_diff > 256 then 1 else seq_diff)
      in do {
        r \<leftarrow> rd (received lq) (uint (activePtr lq));
        rs \<leftarrow> wr (received lq) (uint (activePtr lq)) (r + 1);
        l \<leftarrow> rd (lost lq) (uint (activePtr lq));
        ls \<leftarrow> wr (lost lq) (uint (activePtr lq)) (ucast (ucast l + (seq_diff - 1)));
        Some (lq\<lparr>received := rs, lost := ls, last_seq_nr := seqno\<rparr>) })"

definition default_lq_parser_ff :: "mid_set \<Rightarrow> u16 \<Rightarrow> olsr_iface \<Rightarrow> ip_addr \<Rightarrow> ff_state \<Rightarrow> ff_state option" where
  "default_lq_parser_ff M seqno in_if from_addr s = do {
     (lnk, N) \<leftarrow> lookup_link_entry from_addr (mid_lookup_main_addr M from_addr) in_if (fs_links s) (fs_main_addr s);
     case lnk of
       None \<Rightarrow> Some (s\<lparr>fs_main_addr := N\<rparr>)
     | Some i \<Rightarrow> do {
         l \<leftarrow> rd (fs_links s) (int i);
         q \<leftarrow> ff_count seqno (fk_quality l);
         ls \<leftarrow> wr (fs_links s) (int i) (l\<lparr>fk_quality := q\<rparr>);
         Some (s\<lparr>fs_links := ls, fs_main_addr := N\<rparr>) } }"

text \<open>The timer, for one link: the sums over the window, the quality, the cost, and the next slot.\<close>

definition ff_sums :: "default_lq_ff_hello \<Rightarrow> (u16 \<times> u16) option" where
  "ff_sums tlq = iter [0..<unat (windowSize tlq)] (\<lambda>i (re, lo). do {
     r \<leftarrow> rd (received tlq) (int i);
     l \<leftarrow> rd (lost tlq) (int i);
     Some (re + r, lo + l) }) (0, 0)"

definition ff_ratio :: "ulong \<Rightarrow> u16 \<Rightarrow> u16 \<Rightarrow> byte option" where
  "ff_ratio mult re lo =
     (if uint re + uint lo = 0 then Some 0
      else do {
        ratio \<leftarrow> fpmidiv (itofpm mult) 65536;
        ratio \<leftarrow> fpmmuli ratio (uint re);
        ratio \<leftarrow> fpmidiv ratio (uint re + uint lo);
        ratio \<leftarrow> fpmmuli ratio 255;
        Some (word_of_int (fpmtoi ratio)) })"

definition ff_tick :: "ff_link \<Rightarrow> ff_link option" where
  "ff_tick l =
     (let tlq = fk_quality l;
          tlq = (if uint (windowSize tlq) < int lq_ff_window then tlq\<lparr>windowSize := windowSize tlq + 1\<rparr> else tlq)
      in do {
        (re, lo) \<leftarrow> ff_sums tlq;
        v \<leftarrow> ff_ratio (fk_loss_mult l) re lo;
        (let tlq = tlq\<lparr>ffh_lq := (ffh_lq tlq)\<lparr>ff_valueLq := v\<rparr>\<rparr> in do {
           c \<leftarrow> default_lq_calc_cost_ff (ffh_lq tlq);
           (let tlq = tlq\<lparr>activePtr := word_of_int ((uint (activePtr tlq) + 1) mod 32)\<rparr> in do {
              ls \<leftarrow> wr (lost tlq) (uint (activePtr tlq)) 0;
              rs \<leftarrow> wr (received tlq) (uint (activePtr tlq)) 0;
              Some (l\<lparr>fk_linkcost := c, fk_quality := tlq\<lparr>lost := ls, received := rs\<rparr>\<rparr>) }) }) })"

definition default_lq_ff_timer :: "ff_state \<Rightarrow> ff_state option" where
  "default_lq_ff_timer s = do {
     ls \<leftarrow> iter (fs_links s) (\<lambda>l done. do { l \<leftarrow> ff_tick l; Some (done @ [l]) }) [];
     Some (s\<lparr>fs_links := ls\<rparr>) }"

definition default_lq_serialize_hello_lq_pair_ff :: "default_lq_ff \<Rightarrow> byte list" where
  "default_lq_serialize_hello_lq_pair_ff lq = [ff_valueLq lq, ff_valueNlq lq, 0, 0]"

definition default_lq_deserialize_hello_lq_pair_ff :: "byte list \<Rightarrow> default_lq_ff \<Rightarrow> (default_lq_ff \<times> byte list) option" where
  "default_lq_deserialize_hello_lq_pair_ff p lq = do {
     (a, p) \<leftarrow> pkt_get_u8 p;
     (b, p) \<leftarrow> pkt_get_u8 p;
     p \<leftarrow> pkt_ignore_u16 p;
     Some (lq\<lparr>ff_valueLq := a, ff_valueNlq := b\<rparr>, p) }"

definition default_lq_is_relevant_costchange_ff :: "ulong \<Rightarrow> ulong \<Rightarrow> bool" where
  "default_lq_is_relevant_costchange_ff c1 c2 = (if c1 > c2 then c2 - c1 > 16 else c1 - c2 > 16)"

definition default_lq_serialize_tc_lq_pair_ff :: "default_lq_ff \<Rightarrow> byte list" where
  "default_lq_serialize_tc_lq_pair_ff lq = [ff_valueLq lq, ff_valueNlq lq, 0, 0]"

definition default_lq_deserialize_tc_lq_pair_ff :: "byte list \<Rightarrow> default_lq_ff \<Rightarrow> (default_lq_ff \<times> byte list) option" where
  "default_lq_deserialize_tc_lq_pair_ff p lq = do {
     (a, p) \<leftarrow> pkt_get_u8 p;
     (b, p) \<leftarrow> pkt_get_u8 p;
     p \<leftarrow> pkt_ignore_u16 p;
     Some (lq\<lparr>ff_valueLq := a, ff_valueNlq := b\<rparr>, p) }"

definition default_lq_packet_loss_worker_ff :: "ff_link \<Rightarrow> ulong" where
  "default_lq_packet_loss_worker_ff l = fk_linkcost l"

definition default_lq_memorize_foreign_hello_ff :: "default_lq_ff \<Rightarrow> default_lq_ff option \<Rightarrow> default_lq_ff" where
  "default_lq_memorize_foreign_hello_ff local foreign =
     (case foreign of Some f \<Rightarrow> local\<lparr>ff_valueNlq := ff_valueLq f\<rparr> | None \<Rightarrow> local\<lparr>ff_valueNlq := 0\<rparr>)"

end
