(* ===== verification/Lq_Ff_Facts.thy ===== *)
theory Lq_Ff_Facts imports Lq_Ff begin

text \<open>
  The metric \<open>etx_ff\<close> over natural numbers: the ring buffers stay in bounds for every sequence of packets and timer events
  (\<open>ff_ok\<close>), the quality that the timer computes, and the counting of packets as arithmetic modulo \<open>2 ^ 16\<close>.
\<close>

section \<open>Narrowing conversions\<close>

lemma word16_take_bit: "word_of_int (take_bit 32 x) = (word_of_int x :: u16)"
  by (simp add: word_of_int_eq_iff)

lemma ucast16: "(ucast (w :: ulong) :: u16) = word_of_int (uint w)"
  by simp

lemma ucast16_add: "ucast (a + b :: ulong) = (ucast a + ucast b :: u16)"
proof -
  have "uint (a + b) = take_bit 32 (uint a + uint b)" by (simp add: uint_word_arith_bintrs)
  then show ?thesis unfolding ucast16 by (simp only: word16_take_bit wi_hom_add)
qed

lemma ucast16_diff: "ucast (a - b :: ulong) = (ucast a - ucast b :: u16)"
proof -
  have "uint (a - b) = take_bit 32 (uint a - uint b)" by (simp add: uint_word_arith_bintrs)
  then show ?thesis unfolding ucast16 by (simp only: word16_take_bit wi_hom_sub)
qed

lemma ucast16_up: "(ucast (ucast (w :: u16) :: ulong) :: u16) = w"
  by (rule bit_word_eqI) (simp add: bit_simps)

lemma u16_less: "unat (w :: u16) < 65536"
  using unsigned_less [of w] by simp

lemma sum_list_upd: "i < length xs \<Longrightarrow> sum_list (xs[i := x]) = sum_list xs - xs ! i + (x :: 'a :: ab_group_add)"
  by (induction xs arbitrary: i) (auto simp: algebra_simps split: nat.splits)

lemma unat_sum_list: "unat (sum_list ws :: u16) = sum_list (map unat ws) mod 2 ^ 16"
  by (induction ws) (simp_all add: unat_word_ariths mod_add_right_eq)

section \<open>The cost\<close>

definition ff_cost :: "nat \<Rightarrow> nat \<Rightarrow> nat" where
  "ff_cost l n = (if l < 25 \<or> n < 25 then 2 ^ 22 else 66585600 div (l * n))"

lemma ff_cost_bounds:
  assumes "l < 256" "n < 256"
  shows "1024 \<le> ff_cost l n" "ff_cost l n \<le> 2 ^ 22"
proof -
  have "l * n \<le> 255 * 255" using assms by (intro mult_le_mono) auto
  show "1024 \<le> ff_cost l n"
  proof (cases "l < 25 \<or> n < 25")
    case False
    then have "0 < l * n" by simp
    then have "66585600 div (255 * 255) \<le> 66585600 div (l * n)"
      using \<open>l * n \<le> 255 * 255\<close> by (intro div_le_mono2)
    then show ?thesis using False by (simp add: ff_cost_def)
  qed (simp add: ff_cost_def)
  show "ff_cost l n \<le> 2 ^ 22"
  proof (cases "l < 25 \<or> n < 25")
    case False
    then have "25 * 25 \<le> l * n" by (intro mult_le_mono) auto
    then have "66585600 div (l * n) \<le> 66585600 div (25 * 25)" by (intro div_le_mono2) auto
    then show ?thesis using False by (simp add: ff_cost_def)
  qed (simp add: ff_cost_def)
qed

lemma itofpm_small:
  assumes "unat a \<le> 65536"
  shows "itofpm a = int (1024 * unat a)"
proof -
  have "push_bit 10 a = of_nat (1024 * unat a)" by (simp add: push_bit_eq_mult)
  moreover have "unat (of_nat (1024 * unat a) :: ulong) = 1024 * unat a" using assms by (intro unat_small) simp
  ultimately have u: "unat (push_bit 10 a) = 1024 * unat a" by simp
  then have "unat (push_bit 10 a) < 2 ^ 31" using assms by simp
  then show ?thesis unfolding itofpm_def u [symmetric] by (rule sint_small)
qed

lemma calc_cost_ff_eq:
  "default_lq_calc_cost_ff q = Some (of_nat (ff_cost (unat (ff_valueLq q)) (unat (ff_valueNlq q))))"
proof (cases "unat (ff_valueLq q) < 25 \<or> unat (ff_valueNlq q) < 25")
  case True
  then have "uint (ff_valueLq q) < useful_lq \<or> uint (ff_valueNlq q) < useful_lq" using useful_less by blast
  with True show ?thesis by (auto simp: default_lq_calc_cost_ff_def ff_cost_def link_cost_broken_eq)
next
  case False
  define l n where "l = unat (ff_valueLq q)" and "n = unat (ff_valueNlq q)"
  have ln: "25 \<le> l" "l < 256" "25 \<le> n" "n < 256" using False by (auto simp: l_def n_def)
  define m where "m = 66585600 div (l * n)"
  have m: "1024 \<le> m" "m \<le> 2 ^ 22" using ff_cost_bounds [OF ln(2,4)] ln by (simp_all add: ff_cost_def m_def)
  have "l * n \<le> 255 * 255" using ln by (intro mult_le_mono) auto
  then have "int (l * n) \<le> int (255 * 255)" by (simp only: of_nat_le_iff)
  then have "int l * int n < 2 ^ 31" by simp
  then have d: "c_int (int l * int n) = Some (int (l * n))" unfolding of_nat_mult by (rule c_int_nonneg [rotated]) simp
  have pos: "0 < int (l * n)" using ln by simp
  have c: "c_div 66585600 (int (l * n)) = Some (int m)"
    using c_div_nat [OF _ _ pos, of 66585600] by (simp add: m_def zdiv_int del: of_nat_mult)
  have i: "itofpm 65025 = 66585600" using itofpm_small [of 65025] by simp
  have u: "uint (ff_valueLq q) = int l" "uint (ff_valueNlq q) = int n" by (simp_all add: l_def n_def)
  have um: "unat (of_nat m :: ulong) = m" using m by (intro unat_small) simp
  have g: "\<not> (of_nat m :: ulong) > link_cost_broken"
    using m by (simp only: word_less_nat_alt um) (simp add: link_cost_broken_def)
  have "(of_nat m :: ulong) \<noteq> 0" using um m by (metis unat_0 not_numeral_le_zero)
  with g have "default_lq_calc_cost_ff q = Some (of_nat m)"
    using ln by (simp add: default_lq_calc_cost_ff_def u useful_lq_def d fpmidiv_def i c Let_def del: of_nat_mult)
  then show ?thesis using ln by (simp add: ff_cost_def l_def [symmetric] n_def [symmetric] m_def)
qed

lemma unat_ff_cost: "l < 256 \<Longrightarrow> n < 256 \<Longrightarrow> unat (of_nat (ff_cost l n) :: ulong) = ff_cost l n"
  using ff_cost_bounds [of l n] by (intro unat_small) simp

abbreviation ff_qualities :: "default_lq_ff \<Rightarrow> byte \<times> byte" where
  "ff_qualities q \<equiv> (ff_valueLq q, ff_valueNlq q)"

lemma ff_cost_word: "\<exists>c. default_lq_calc_cost_ff q = Some c \<and> 0 < c \<and> c \<le> link_cost_broken"
  using ff_cost_bounds [of "unat (ff_valueLq q)" "unat (ff_valueNlq q)"]
  by (simp add: calc_cost_ff_eq word_le_nat_alt word_less_nat_alt unat_ff_cost link_cost_broken_def)

interpretation ff_hello: lq_handler ff_qualities default_lq_serialize_hello_lq_pair_ff
    default_lq_deserialize_hello_lq_pair_ff default_lq_calc_cost_ff
  by unfold_locales
    (simp_all add: default_lq_serialize_hello_lq_pair_ff_def default_lq_deserialize_hello_lq_pair_ff_def pkt_get_u8_def
      pkt_ignore_u16_def ff_cost_word, simp add: calc_cost_ff_eq)

interpretation ff_tc: lq_handler ff_qualities default_lq_serialize_tc_lq_pair_ff
    default_lq_deserialize_tc_lq_pair_ff default_lq_calc_cost_ff
  by unfold_locales
    (simp_all add: default_lq_serialize_tc_lq_pair_ff_def default_lq_deserialize_tc_lq_pair_ff_def pkt_get_u8_def
      pkt_ignore_u16_def ff_cost_word, simp add: calc_cost_ff_eq)

section \<open>The ring buffers\<close>

definition ff_ok :: "default_lq_ff_hello \<Rightarrow> bool" where
  "ff_ok q \<longleftrightarrow> length (received q) = 32 \<and> length (lost q) = 32 \<and> unat (activePtr q) < 32 \<and> unat (windowSize q) \<le> 32"

lemma ff_ok_access:
  assumes "ff_ok q" "unat (activePtr q) = i"
  shows "rd (received q) (uint (activePtr q)) = Some (received q ! i)" "rd (lost q) (uint (activePtr q)) = Some (lost q ! i)"
    "wr (received q) (uint (activePtr q)) v = Some ((received q)[i := v])"
    "wr (lost q) (uint (activePtr q)) v = Some ((lost q)[i := v])"
proof -
  have "uint (activePtr q) = int i" using assms(2) by auto
  moreover have "i < length (received q)" "i < length (lost q)" using assms by (auto simp: ff_ok_def)
  ultimately show "rd (received q) (uint (activePtr q)) = Some (received q ! i)"
    "rd (lost q) (uint (activePtr q)) = Some (lost q ! i)" "wr (received q) (uint (activePtr q)) v = Some ((received q)[i := v])"
    "wr (lost q) (uint (activePtr q)) v = Some ((lost q)[i := v])"
    by (simp_all only: rd_nat wr_nat)
qed

text \<open>The packets between the last one and this one, in the 16 bits of the sequence number.\<close>

definition missed :: "u16 \<Rightarrow> u16 \<Rightarrow> u16" where
  "missed s0 s = (if unat (s - s0) > 256 then 0 else s - s0 - 1)"

lemma ff_count_eq:
  assumes "ff_ok q"
  defines "i \<equiv> unat (activePtr q)"
  shows "ff_count seqno q = Some (q\<lparr>received := (received q)[i := received q ! i + 1],
     lost := (lost q)[i := lost q ! i + missed (last_seq_nr q) seqno], last_seq_nr := seqno\<rparr>)"
proof -
  define la where "la = last_seq_nr q"
  define sd :: ulong where "sd = (if la > seqno then ucast seqno + 65536 - ucast la else ucast seqno - ucast la)"
  have c16: "(65536 :: u16) = 0" by simp
  have n: "ucast sd = seqno - la" by (simp add: sd_def ucast16_add ucast16_diff ucast16_up c16 del: unsigned_ucast_eq)
  have "unat sd < 65536"
  proof (cases "la > seqno")
    case True
    then have "unat seqno < unat la" by (simp add: word_less_nat_alt)
    moreover have "sd = of_nat (unat seqno + 65536 - unat la)"
      using True u16_less [of la] by (simp add: sd_def of_nat_diff)
    moreover have "unat (of_nat (unat seqno + 65536 - unat la) :: ulong) = unat seqno + 65536 - unat la"
      using u16_less [of seqno] by (intro unat_small) simp
    ultimately show ?thesis by (simp only:)
  next
    case False
    then have le: "unat la \<le> unat seqno" by (simp add: word_le_nat_alt not_less)
    then have "sd = of_nat (unat seqno - unat la)" using False by (simp add: sd_def of_nat_diff)
    moreover have "unat (of_nat (unat seqno - unat la) :: ulong) = unat seqno - unat la"
      using u16_less [of seqno] by (intro unat_small) simp
    moreover have "unat seqno - unat la < 65536" using u16_less [of seqno] by linarith
    ultimately show ?thesis by (simp only:)
  qed
  then have "unat (ucast sd :: u16) = unat sd" by (simp add: unsigned_ucast_eq take_bit_nat_eq_self)
  then have u: "unat sd = unat (seqno - la)" by (simp only: n)
  have jump: "sd > 256 \<longleftrightarrow> unat (seqno - la) > 256" by (simp add: word_less_nat_alt u)
  have "ucast (ucast (lost q ! i) + ((if sd > 256 then 1 else sd) - 1)) = lost q ! i + missed la seqno"
    using jump by (simp add: missed_def ucast16_add ucast16_diff ucast16_up n)
  then show ?thesis
    unfolding ff_count_def Let_def la_def [symmetric] sd_def [symmetric] ff_ok_access [OF assms(1) refl] i_def [symmetric]
    by (simp only: bind.bind_lunit la_def)
qed

lemma ff_count_ok: "ff_ok q \<Longrightarrow> ff_count seqno q = Some q' \<Longrightarrow> ff_ok q'"
  by (auto simp: ff_count_eq) (simp add: ff_ok_def)

end
