(* ===== verification/Lq_Ff_Links.thy ===== *)
theory Lq_Ff_Links imports Lq_Ff_Facts begin

text \<open>
  The life of the links under the metric \<open>etx_ff\<close>: the timer, sequences of packets and timer events, what a packet that is received
  twice does, and the factor that the configuration sets for a link (\<open>link_set.c\<close>).
\<close>

section \<open>The timer\<close>

definition ff_quality :: "nat \<Rightarrow> nat \<Rightarrow> nat \<Rightarrow> nat" where
  "ff_quality m R L = (if R + L = 0 then 0 else 1024 * m div 65536 * R div (R + L) * 255 div 1024)"

lemma ff_quality_le:
  assumes "m \<le> 65536"
  shows "1024 * m div 65536 * R div (R + L) \<le> 1024" "ff_quality m R L \<le> 255"
proof -
  have "1024 * m div 65536 \<le> 1024" using assms by simp
  then have "1024 * m div 65536 * R \<le> 1024 * (R + L)" by (intro mult_le_mono) auto
  then have "1024 * m div 65536 * R div (R + L) \<le> 1024 * (R + L) div (R + L)" by (rule div_le_mono)
  also have "\<dots> \<le> 1024"
    by (cases "R + L = 0") (simp_all only: div_by_0 nonzero_mult_div_cancel_right le0 order_refl not_False_eq_True)
  finally show *: "1024 * m div 65536 * R div (R + L) \<le> 1024" .
  then have "1024 * m div 65536 * R div (R + L) * 255 div 1024 \<le> 1024 * 255 div 1024" by (intro div_le_mono mult_le_mono1)
  then show "ff_quality m R L \<le> 255" by (simp add: ff_quality_def)
qed

lemma ff_sums_eq:
  assumes "ff_ok q"
  shows "ff_sums q = Some (sum_list (take (unat (windowSize q)) (received q)), sum_list (take (unat (windowSize q)) (lost q)))"
proof -
  have "\<exists>s. ff_sums q = Some s \<and>
     s = (sum_list (take (unat (windowSize q)) (received q)), sum_list (take (unat (windowSize q)) (lost q)))"
    unfolding ff_sums_def
  proof (rule iter_upt_total)
    fix i s
    assume "i < unat (windowSize q)" and "s = (sum_list (take i (received q)), sum_list (take i (lost q)))"
    moreover then have "i < length (received q)" "i < length (lost q)" using assms by (auto simp: ff_ok_def)
    ultimately show "\<exists>s'. (case s of (re, lo) \<Rightarrow> do {
        r \<leftarrow> rd (received q) (int i); l \<leftarrow> rd (lost q) (int i); Some (re + r, lo + l) }) = Some s' \<and>
        s' = (sum_list (take (Suc i) (received q)), sum_list (take (Suc i) (lost q)))"
      by (simp add: take_Suc_conv_app_nth)
  qed simp
  then show ?thesis by simp
qed

lemma ff_ratio_eq:
  assumes "unat m \<le> 65536"
  shows "ff_ratio m re lo = Some (of_nat (ff_quality (unat m) (unat re) (unat lo)))"
proof (cases "unat re + unat lo = 0")
  case True
  then have "re = 0 \<and> lo = 0" by (simp add: unat_eq_zero)
  then show ?thesis by (simp add: ff_ratio_def ff_quality_def)
next
  case False
  define k R L where "k = 1024 * unat m div 65536" and "R = unat re" and "L = unat lo"
  have RL: "uint re = int R" "uint lo = int L" "0 < R + L" "R < 65536" using False u16_less [of re] by (auto simp: R_def L_def)
  have k: "k \<le> 1024" using assms by (simp add: k_def)
  have i: "fpmidiv (itofpm m) 65536 = Some (int k)"
  proof -
    have "int (1024 * unat m) \<le> int (1024 * 65536)" using assms by (simp only: of_nat_le_iff mult_le_mono2)
    then have "c_div (int (1024 * unat m)) 65536 = Some (int (1024 * unat m) div 65536)" by (intro c_div_nat) simp_all
    then show ?thesis by (simp only: fpmidiv_def itofpm_small [OF assms] k_def zdiv_int of_nat_numeral)
  qed
  have "k * R \<le> 1024 * 65536" using k RL(4) by (intro mult_le_mono) auto
  then have "int (k * R) \<le> int (1024 * 65536)" by (simp only: of_nat_le_iff)
  then have kR: "int (k * R) < 2 ^ 31" by simp
  have m1: "fpmmuli (int k) (int R) = Some (int (k * R))"
    unfolding fpmmuli_def of_nat_mult [symmetric] using kR by (intro c_int_nonneg) simp_all
  have d: "fpmidiv (int (k * R)) (int R + int L) = Some (int (k * R div (R + L)))"
  proof -
    have "0 < int R + int L" using RL(3) by linarith
    then have "c_div (int (k * R)) (int R + int L) = Some (int (k * R) div (int R + int L))"
      using kR by (intro c_div_nat) simp_all
    then show ?thesis by (simp only: fpmidiv_def zdiv_int of_nat_add)
  qed
  have q: "k * R div (R + L) \<le> 1024" using ff_quality_le(1) [OF assms, of R L] by (simp add: k_def)
  then have "int (k * R div (R + L) * 255) \<le> int (1024 * 255)" by (simp only: of_nat_le_iff mult_le_mono1)
  then have m2: "fpmmuli (int (k * R div (R + L))) 255 = Some (int (k * R div (R + L) * 255))"
    unfolding fpmmuli_def by (subst c_int_nonneg) simp_all
  have "fpmtoi (int (k * R div (R + L) * 255)) = int (k * R div (R + L) * 255 div 1024)"
    unfolding fpmtoi_def by (simp only: zdiv_int) simp
  moreover have "ff_quality (unat m) R L = k * R div (R + L) * 255 div 1024" using RL(3) by (simp add: ff_quality_def k_def)
  moreover have "int R + int L \<noteq> 0" using RL(3) by linarith
  ultimately have "ff_ratio m re lo = Some (word_of_int (int (ff_quality (unat m) R L)))"
    by (simp only: ff_ratio_def RL if_False i m1 d m2 bind.bind_lunit)
  then show ?thesis by (simp add: R_def L_def)
qed

definition ff_window :: "default_lq_ff_hello \<Rightarrow> nat" where
  "ff_window q = min 32 (unat (windowSize q) + 1)"

definition ff_next :: "default_lq_ff_hello \<Rightarrow> nat" where
  "ff_next q = (unat (activePtr q) + 1) mod 32"

lemma ff_window_le [simp]: "ff_window q \<le> 32"
  by (simp add: ff_window_def)

lemma ff_next_less [simp]: "ff_next q < 32"
  by (simp add: ff_next_def)

text \<open>The quality that the timer gives to a link.\<close>

definition ff_measured :: "ff_link \<Rightarrow> nat" where
  "ff_measured l = (let q = fk_quality l in
     ff_quality (unat (fk_loss_mult l)) (unat (sum_list (take (ff_window q) (received q))))
       (unat (sum_list (take (ff_window q) (lost q)))))"

lemma unat_numeral_32: "unat (of_nat 32 :: byte) = 32"
  by simp

lemma window_step:
  assumes "unat (w :: byte) \<le> 32"
  shows "(if uint w < int lq_ff_window then w + 1 else w) = of_nat (min 32 (unat w + 1))"
proof (cases "unat w < 32")
  case True
  then have "uint w < int lq_ff_window" using uint_less_nat [of w 32] by (simp add: lq_ff_window_def)
  moreover have "min 32 (unat w + 1) = unat w + 1" using True by simp
  ultimately show ?thesis by (simp only: if_True) simp
next
  case False
  then have w: "unat w = 32" using assms by simp
  then have "w = 32" by (metis of_nat_numeral word_unat_eq_iff unat_numeral_32)
  then show ?thesis by (simp add: lq_ff_window_def)
qed

lemma unat_small_byte: "n < 256 \<Longrightarrow> unat (of_nat n :: byte) = n"
  by (simp add: unat_of_nat)

lemma ff_tick_eq:
  assumes "ff_ok (fk_quality l)" "unat (fk_loss_mult l) \<le> 65536"
  defines "q \<equiv> fk_quality l"
  shows "ff_tick l = Some (l\<lparr>
     fk_linkcost := of_nat (ff_cost (ff_measured l) (unat (ff_valueNlq (ffh_lq q)))),
     fk_quality := q\<lparr>ffh_lq := (ffh_lq q)\<lparr>ff_valueLq := of_nat (ff_measured l)\<rparr>, windowSize := of_nat (ff_window q),
       activePtr := of_nat (ff_next q), lost := (lost q)[ff_next q := 0], received := (received q)[ff_next q := 0]\<rparr>\<rparr>)"
proof -
  define q1 where "q1 = q\<lparr>windowSize := of_nat (ff_window q)\<rparr>"
  have w: "unat (windowSize q1) = ff_window q" by (simp add: q1_def unat_small_byte le_less_trans [OF ff_window_le])
  have ok1: "ff_ok q1" using assms(1) by (simp add: ff_ok_def q1_def q_def [symmetric] unat_small_byte le_less_trans [OF ff_window_le])
  have start: "(if uint (windowSize q) < int lq_ff_window then q\<lparr>windowSize := windowSize q + 1\<rparr> else q) = q1"
    using window_step [of "windowSize q"] assms(1) by (auto simp: ff_ok_def q_def [symmetric] q1_def ff_window_def split: if_splits)
  have "ff_measured l \<le> 255" unfolding ff_measured_def Let_def by (rule ff_quality_le(2) [OF assms(2)])
  then have v: "unat (of_nat (ff_measured l) :: byte) = ff_measured l" by (simp add: unat_small_byte)
  have sums: "ff_sums q1 = Some (sum_list (take (ff_window q) (received q)), sum_list (take (ff_window q) (lost q)))"
    using ff_sums_eq [OF ok1] by (simp add: w) (simp add: q1_def)
  have rat: "ff_ratio (fk_loss_mult l) (sum_list (take (ff_window q) (received q))) (sum_list (take (ff_window q) (lost q))) =
      Some (of_nat (ff_measured l))"
    by (simp add: ff_ratio_eq [OF assms(2)] ff_measured_def Let_def q_def)
  have n: "ff_next q < 32" "ff_next q < 256" using ff_next_less [of q] by (simp_all del: ff_next_less)
  have "(word_of_int ((uint (activePtr q) + 1) mod 32) :: byte) = of_nat (ff_next q)"
  proof -
    have "(uint (activePtr q) + 1) mod 32 = int (ff_next q)" by (simp add: ff_next_def zmod_int add.commute)
    then show ?thesis by simp
  qed
  moreover have "uint (of_nat (ff_next q) :: byte) = int (ff_next q)"
    using unat_small_byte [OF n(2)] by (simp only: uint_nat)
  ultimately show ?thesis
    using assms(1) n(1) wr_nat [of "ff_next q" "lost q"] wr_nat [of "ff_next q" "received q"]
    by (simp add: ff_tick_def Let_def q_def [symmetric] start sums rat calc_cost_ff_eq v ff_ok_def)
      (simp add: q1_def)
qed

lemma ff_tick_ok:
  assumes "ff_ok (fk_quality l)" "unat (fk_loss_mult l) \<le> 65536"
  shows "\<exists>l'. ff_tick l = Some l' \<and> ff_ok (fk_quality l') \<and> fk_loss_mult l' = fk_loss_mult l \<and> fk_neighbor l' = fk_neighbor l"
  using assms(1) le_less_trans [OF ff_window_le, of 256 "fk_quality l"] less_trans [OF ff_next_less, of 256 "fk_quality l"]
  by (simp add: ff_tick_eq [OF assms]) (simp add: ff_ok_def unat_small_byte)

section \<open>The factor of a link (\<open>link_set.c\<close>)\<close>

text \<open>
  The configuration has for every interface a list of addresses with factors, where the address 0 stands for all others. An
  interface of the configuration is paired with the running interface that it belongs to.
\<close>

type_synonym lq_mult = "ip_addr \<times> ulong"

definition set_loss_link_multiplier :: "('i option \<times> lq_mult list) list \<Rightarrow> 'i option \<Rightarrow> ip_addr \<Rightarrow> ulong option" where
  "set_loss_link_multiplier interfaces ifc neighbor_iface_addr = do {
     cfg_inter \<leftarrow> List.find (\<lambda>c. fst c = ifc) interfaces;
     (let val = fold (\<lambda>(a, v) val. if (a = 0 \<and> uint val < 0) \<or> a = neighbor_iface_addr then v else val) (snd cfg_inter) 0
      in Some (if val = 0 then link_loss_multiplier else val)) }"

definition last_of :: "'a \<Rightarrow> 'a list \<Rightarrow> 'a" where
  "last_of d xs = (if xs = [] then d else last xs)"

lemma fold_mult:
  "fold (\<lambda>(a, v) val. if (a = 0 \<and> uint (val :: ulong) < 0) \<or> a = b then v else val) ms d =
     last_of d (map snd (filter (\<lambda>(a, v). a = b) ms))"
  by (induction ms arbitrary: d) (auto simp: last_of_def)

section \<open>Events\<close>

datatype ff_event =
    FfPacket u16 olsr_iface ip_addr
  | FfTimer
  | FfNewLink ff_link ip_addr

text \<open>
  A packet, the timer, or a new link. The structure of a new link is zeroed and cleared; the link goes to the front of the list, its
  neighbour is known with a main address.
\<close>

fun ff_step :: "mid_set \<Rightarrow> ff_event \<Rightarrow> ff_state \<Rightarrow> ff_state option" where
  "ff_step M (FfPacket seqno in_if from_addr) s = default_lq_parser_ff M seqno in_if from_addr s"
| "ff_step M FfTimer s = default_lq_ff_timer s"
| "ff_step M (FfNewLink l m) s = do {
     q \<leftarrow> default_lq_clear_ff_hello zero_ff_hello;
     Some (s\<lparr>fs_links := l\<lparr>fk_quality := q\<rparr> # fs_links s, fs_main_addr := (fs_main_addr s)(fk_neighbor l \<mapsto> m)\<rparr>) }"

fun ff_event_ok :: "ff_event \<Rightarrow> bool" where
  "ff_event_ok (FfNewLink l m) = (unat (fk_loss_mult l) \<le> 65536)"
| "ff_event_ok _ = True"

definition ff_link_ok :: "(nat \<rightharpoonup> ip_addr) \<Rightarrow> ff_link \<Rightarrow> bool" where
  "ff_link_ok N l \<longleftrightarrow> ff_ok (fk_quality l) \<and> unat (fk_loss_mult l) \<le> 65536 \<and> fk_neighbor l \<in> dom N"

definition ff_inv :: "ff_state \<Rightarrow> bool" where
  "ff_inv s \<longleftrightarrow> (\<forall>l \<in> set (fs_links s). ff_link_ok (fs_main_addr s) l)"

lemma cleared_ff: "default_lq_clear_ff_hello zero_ff_hello =
    Some \<lparr>ffh_lq = default_lq_clear_ff, windowSize = 4, activePtr = 0, last_seq_nr = 0, received = replicate 32 0, lost = replicate 32 3\<rparr>"
proof -
  define z where "z = zero_ff_hello\<lparr>ffh_lq := default_lq_clear_ff, windowSize := lq_ff_quickstart_init\<rparr>"
  have "\<exists>q. iter [0..<32] (\<lambda>i q. do { l \<leftarrow> wr (lost q) (int i) 3; Some (q\<lparr>lost := l\<rparr>) }) z = Some q \<and>
     q = z\<lparr>lost := replicate 32 3 @ replicate (32 - 32) 0\<rparr>"
  proof (rule iter_upt_total [where P = "\<lambda>i q. q = z\<lparr>lost := replicate i 3 @ replicate (32 - i) 0\<rparr>"])
    show "z = z\<lparr>lost := replicate 0 3 @ replicate (32 - 0) 0\<rparr>" by (simp add: z_def zero_ff_hello_def)
    fix i q
    assume i: "i < 32" and q: "q = z\<lparr>lost := replicate i 3 @ replicate (32 - i) (0 :: u16)\<rparr>"
    have "replicate (32 - i) (0 :: u16) = 0 # replicate (32 - Suc i) 0"
      using i by (metis Suc_diff_Suc replicate_Suc)
    then have "(replicate i 3 @ replicate (32 - i) 0)[i := 3] = replicate (Suc i) 3 @ replicate (32 - Suc i) (0 :: u16)"
      by (simp add: list_update_append replicate_append_same)
    moreover have "wr (replicate i 3 @ replicate (32 - i) 0) (int i) (3 :: u16) = Some ((replicate i 3 @ replicate (32 - i) 0)[i := 3])"
      using i by (intro wr_nat) simp
    ultimately show "\<exists>q'. do { l \<leftarrow> wr (lost q) (int i) 3; Some (q\<lparr>lost := l\<rparr>) } = Some q' \<and>
        q' = z\<lparr>lost := replicate (Suc i) 3 @ replicate (32 - Suc i) 0\<rparr>"
      by (simp add: q)
  qed
  then show ?thesis
    by (simp add: default_lq_clear_ff_hello_def lq_ff_window_def z_def [symmetric])
      (simp add: z_def zero_ff_hello_def lq_ff_quickstart_init_def)
qed

lemma lookup_link_ok:
  assumes "\<forall>l \<in> set ls. fk_neighbor l \<in> dom N"
  shows "\<exists>r N'. lookup_link_entry a m loc ls N = Some (r, N') \<and> dom N' = dom N \<and> (\<forall>i. r = Some i \<longrightarrow> i < length ls)"
  using assms
proof (induction ls)
  case (Cons l ls)
  then obtain r N' where "lookup_link_entry a m loc ls N = Some (r, N')" "dom N' = dom N" "\<forall>i. r = Some i \<longrightarrow> i < length ls" by auto
  moreover obtain x where "N (fk_neighbor l) = Some x" using Cons.prems by auto
  ultimately show ?case by (auto split: option.splits)
qed simp

lemma ff_step_inv:
  assumes "ff_inv s" "ff_event_ok e"
  shows "\<exists>s'. ff_step M e s = Some s' \<and> ff_inv s'"
proof (cases e)
  case (FfPacket seqno in_if from_addr)
  have "\<forall>l \<in> set (fs_links s). fk_neighbor l \<in> dom (fs_main_addr s)" using assms(1) by (simp add: ff_inv_def ff_link_ok_def)
  from lookup_link_ok [OF this] obtain r N' where r: "lookup_link_entry from_addr (mid_lookup_main_addr M from_addr) in_if (fs_links s)
      (fs_main_addr s) = Some (r, N')" "dom N' = dom (fs_main_addr s)" "\<forall>i. r = Some i \<longrightarrow> i < length (fs_links s)" by blast
  have keep: "ff_link_ok N' l" if "l \<in> set (fs_links s)" for l
    using assms(1) that r(2) by (simp add: ff_inv_def ff_link_ok_def)
  show ?thesis
  proof (cases r)
    case None
    then show ?thesis using r keep by (simp add: FfPacket default_lq_parser_ff_def ff_inv_def)
  next
    case (Some i)
    then have i: "i < length (fs_links s)" using r(3) by simp
    then have l: "ff_link_ok N' (fs_links s ! i)" using keep by simp
    then have ok: "ff_ok (fk_quality (fs_links s ! i))" by (simp add: ff_link_ok_def)
    then obtain q where q: "ff_count seqno (fk_quality (fs_links s ! i)) = Some q" by (simp add: ff_count_eq)
    have "ff_link_ok N' ((fs_links s ! i)\<lparr>fk_quality := q\<rparr>)"
      using l ff_count_ok [OF ok q] by (simp add: ff_link_ok_def)
    then show ?thesis
      using r(1) Some i q keep by (auto simp: FfPacket default_lq_parser_ff_def ff_inv_def dest!: set_update_subset_insert [THEN subsetD])
  qed
next
  case FfTimer
  have "\<exists>ls. iter (fs_links s) (\<lambda>l done. do { l \<leftarrow> ff_tick l; Some (done @ [l]) }) [] = Some ls \<and>
      (\<forall>l \<in> set ls. ff_link_ok (fs_main_addr s) l)"
  proof (rule iter_rest_total [where P = "\<lambda>_ ls. \<forall>l \<in> set ls. ff_link_ok (fs_main_addr s) l"])
    fix l rest ls
    assume l: "l \<in> set (fs_links s)" and ls: "\<forall>l \<in> set ls. ff_link_ok (fs_main_addr s) l"
    from l assms(1) have "ff_link_ok (fs_main_addr s) l" by (simp add: ff_inv_def)
    then show "\<exists>ls'. do { l \<leftarrow> ff_tick l; Some (ls @ [l]) } = Some ls' \<and> (\<forall>l \<in> set ls'. ff_link_ok (fs_main_addr s) l)"
      using ff_tick_ok [of l] ls by (auto simp: ff_link_ok_def)
  qed simp
  then show ?thesis by (auto simp: FfTimer default_lq_ff_timer_def ff_inv_def)
next
  case (FfNewLink l m)
  then show ?thesis using assms by (auto simp: cleared_ff ff_inv_def ff_link_ok_def ff_ok_def)
qed

end
