(* ===== verification/Lq_Fpm_Links.thy ===== *)
theory Lq_Fpm_Links imports Lq_Fpm_Facts begin

text \<open>
  The metric \<open>etx_fpm\<close> over the life of a link: which aging lets a dead link break, and when a change of the cost is reported.
\<close>

section \<open>Lost messages\<close>

lemma average_lost_le:
  assumes "an + ao = 65535"
  shows "average an ao m True v \<le> v"
proof -
  define x where "x = (257 * v * ao + 65534) div 65535"
  have "ao \<le> 65535" using assms by simp
  then have "\<not> 257 * v * 65535 < 257 * v * ao" by simp
  then have "\<not> 257 * v < x" using ceil_gt [of 65535 "257 * v" "257 * v * ao"] by (simp add: x_def)
  then have "\<not> v < (x * 255 + 65534) div 65535" using ceil_gt [of 65535 v "x * 255"] by simp
  then show ?thesis by (simp add: average_def x_def)
qed

text \<open>A loss lowers the quality exactly if the factor is large enough for the rounding not to undo it.\<close>

lemma average_lost_less:
  assumes "an + ao = 65535" "0 < v"
  shows "average an ao m True v < v \<longleftrightarrow> 65535 \<le> v * an"
proof -
  define x where "x = (257 * v * ao + 65534) div 65535"
  obtain w where w: "v = Suc w" using assms(2) by (cases v) auto
  have "v \<le> average an ao m True v \<longleftrightarrow> w < (x * 255 + 65534) div 65535"
    by (simp add: w average_def x_def Suc_le_eq)
  also have "\<dots> \<longleftrightarrow> w * 257 < x" using ceil_gt [of 65535 w "x * 255"] by (simp add: mult.commute)
  also have "\<dots> \<longleftrightarrow> w * 257 * 65535 < 257 * v * ao"
    using ceil_gt [of 65535 "w * 257" "257 * v * ao"] by (simp add: x_def)
  also have "\<dots> \<longleftrightarrow> 257 * (w * 65535) < 257 * (v * ao)" by (simp only: ac_simps)
  also have "\<dots> \<longleftrightarrow> w * 65535 < v * ao" by (simp add: mult.commute)
  also have "\<dots> \<longleftrightarrow> v * an < 65535"
  proof -
    have "v * an + v * ao = v * 65535" using assms(1) by (metis distrib_left)
    moreover have "v * 65535 = w * 65535 + 65535" by (simp add: w)
    ultimately show ?thesis by linarith
  qed
  finally show ?thesis by linarith
qed

definition fpm_history :: "fpm_factors \<Rightarrow> ulong \<Rightarrow> bool list \<Rightarrow> default_lq_fpm \<Rightarrow> default_lq_fpm option" where
  "fpm_history F mult = (\<lambda>hs. iter hs (\<lambda>lost q. map_option snd (default_lq_packet_loss_worker_fpm F mult lost q)))"

lemma worker_fpm_eq:
  "default_lq_packet_loss_worker_fpm F mult lost q =
     (let (an, ao, q) = aging_step F q; q = q\<lparr>valueLq := moving_average an ao mult lost (valueLq q)\<rparr>
      in Some (of_nat (fpm_cost (unat (valueLq q)) (unat (valueNlq q))), q))"
  by (simp add: default_lq_packet_loss_worker_fpm_def calc_cost_fpm_eq split: prod.split)

lemma initialize_factors:
  assumes "unat aging \<le> 65535" "F = default_lq_initialize_fpm aging"
  shows "unat (aging_factor_new F) = unat aging" "unat (aging_factor_new F) + unat (aging_factor_old F) = 65535"
    "unat (aging_quickstart_new F) + unat (aging_quickstart_old F) = 65535"
proof -
  have "unat (65535 - aging) = 65535 - unat aging" using assms(1) by (simp add: unat_sub word_le_nat_alt)
  then show "unat (aging_factor_new F) = unat aging" "unat (aging_factor_new F) + unat (aging_factor_old F) = 65535"
    "unat (aging_quickstart_new F) + unat (aging_quickstart_old F) = 65535"
    using assms by (simp_all add: default_lq_initialize_fpm_def internal_multiplier_def)
qed

lemma aging_step_factors:
  assumes "unat aging \<le> 65535" "aging_step (default_lq_initialize_fpm aging) q = (an, ao, q')"
  shows "unat an + unat ao = 65535" "valueLq q' = valueLq q" "valueNlq q' = valueNlq q"
    "quickstart_steps \<le> quickstart q \<Longrightarrow> unat an = unat aging \<and> q' = q"
  using assms(2) initialize_factors [OF assms(1) refl] by (auto simp: aging_step_def split: if_splits)

text \<open>A loss after the quick start.\<close>

lemma worker_lost:
  assumes "unat aging \<le> 65535" "unat mult \<le> 65536" "quickstart_steps \<le> quickstart q"
  defines "F \<equiv> default_lq_initialize_fpm aging"
  obtains q' where "map_option snd (default_lq_packet_loss_worker_fpm F mult True q) = Some q'"
    "quickstart q' = quickstart q" "valueNlq q' = valueNlq q"
    "unat (valueLq q') = average (unat aging) (65535 - unat aging) (unat mult) True (unat (valueLq q))"
proof -
  obtain an ao q1 where st: "aging_step F q = (an, ao, q1)" by (metis prod_cases3)
  note f = aging_step_factors [OF assms(1) st [unfolded F_def]]
  have "unat an = unat aging" "q1 = q" "unat ao = 65535 - unat aging" using f(1) f(4) [OF assms(3)] by auto
  then show thesis
    using moving_average_exact [OF f(1) assms(2), of True "valueLq q"]
    by (intro that [of "q\<lparr>valueLq := moving_average an ao mult True (valueLq q)\<rparr>"])
      (simp_all add: worker_fpm_eq st Let_def)
qed

lemma history_lost_Suc:
  assumes "unat aging \<le> 65535" "unat mult \<le> 65536" "quickstart_steps \<le> quickstart q0"
  defines "F \<equiv> default_lq_initialize_fpm aging"
  shows "\<exists>q. fpm_history F mult (replicate n True) q0 = Some q \<and> quickstart q = quickstart q0 \<and>
    unat (valueLq q) = (average (unat aging) (65535 - unat aging) (unat mult) True ^^ n) (unat (valueLq q0))"
proof (induction n)
  case 0
  show ?case by (simp add: fpm_history_def)
next
  case (Suc n)
  then obtain q where q: "fpm_history F mult (replicate n True) q0 = Some q" "quickstart q = quickstart q0"
    "unat (valueLq q) = (average (unat aging) (65535 - unat aging) (unat mult) True ^^ n) (unat (valueLq q0))" by blast
  have qs: "quickstart_steps \<le> quickstart q" using assms(3) q(2) by simp
  obtain q' where "map_option snd (default_lq_packet_loss_worker_fpm F mult True q) = Some q'" "quickstart q' = quickstart q"
    "unat (valueLq q') = average (unat aging) (65535 - unat aging) (unat mult) True (unat (valueLq q))"
    using worker_lost [OF assms(1,2) qs] unfolding F_def by metis
  moreover have "replicate (Suc n) True = replicate n True @ [True]" by (simp add: replicate_append_same)
  ultimately show ?case using q by (simp add: fpm_history_def iter_append del: replicate_Suc map_option_eq_Some)
qed

text \<open>A quality that falls below a limit does so within as many losses as the quality has steps above it.\<close>

lemma average_falls:
  assumes "an + ao = 65535" "65535 \<le> 25 * an" "v < 25 + n"
  shows "(average an ao m True ^^ n) v < 25"
  using assms(3)
proof (induction n arbitrary: v)
  case (Suc n)
  have "average an ao m True v < 25 + n"
  proof (cases "v < 25")
    case True
    then show ?thesis using average_lost_le [OF assms(1), of m v] by simp
  next
    case False
    have "25 * an \<le> v * an" using False by (intro mult_le_mono1) simp
    then have "65535 \<le> v * an" using assms(2) by linarith
    then have "average an ao m True v < v" using False average_lost_less [OF assms(1)] by simp
    then show ?thesis using Suc.prems by simp
  qed
  then show ?case using Suc.IH by (simp add: funpow_swap1)
qed simp

lemma average_stays:
  assumes "an + ao = 65535" "25 * an < 65535" "25 \<le> v"
  shows "25 \<le> (average an ao m True ^^ n) v"
proof (induction n)
  case (Suc n)
  define w where "w = (average an ao m True ^^ n) v"
  have mono: "average an ao m True 25 \<le> average an ao m True w"
  proof -
    have "257 * 25 * ao \<le> 257 * w * ao" using Suc by (simp add: w_def)
    then have "(257 * 25 * ao + 65534) div 65535 \<le> (257 * w * ao + 65534) div 65535" by (intro div_le_mono) simp
    then show ?thesis unfolding average_def Let_def if_True by (intro div_le_mono) simp
  qed
  have "25 \<le> average an ao m True 25"
    using average_lost_less [OF assms(1), of 25 m] assms(2) by (simp add: not_less [symmetric])
  then show ?case using mono by (simp add: w_def)
qed (use assms in simp)

section \<open>Properties\<close>

text \<open>The cost of a link is computed without overflow, lies between 65535 and \<open>LINK_COST_BROKEN\<close>, is the broken cost when
  one of the qualities is below 25, and does not grow when the qualities grow. The branch for the cost 0 is never taken.\<close>
theorem fpm_cost_exact:
  "\<exists>c. default_lq_calc_cost_fpm q = Some c \<and> unat c = fpm_cost (unat (valueLq q)) (unat (valueNlq q)) \<and>
     65535 \<le> unat c \<and> c \<le> link_cost_broken \<and>
     (unat (valueLq q) < 25 \<or> unat (valueNlq q) < 25 \<longrightarrow> c = link_cost_broken) \<and>
     (\<forall>q'. valueLq q \<le> valueLq q' \<and> valueNlq q \<le> valueNlq q' \<longrightarrow>
        (\<exists>c'. default_lq_calc_cost_fpm q' = Some c' \<and> c' \<le> c))"
proof (rule exI, intro conjI impI allI)
  show "default_lq_calc_cost_fpm q = Some (of_nat (fpm_cost (unat (valueLq q)) (unat (valueNlq q))))"
    by (rule calc_cost_fpm_eq)
  let ?c = "of_nat (fpm_cost (unat (valueLq q)) (unat (valueNlq q))) :: ulong"
  show "unat ?c = fpm_cost (unat (valueLq q)) (unat (valueNlq q))" by (rule unat_fpm_cost)
  show "65535 \<le> unat ?c"
    unfolding unat_fpm_cost
    using fpm_cost_raw(1) [of "unat (valueLq q)" "unat (valueNlq q)"] by (auto simp: fpm_cost_def)
  show "?c \<le> link_cost_broken"
    using fpm_cost_le by (simp add: word_le_nat_alt unat_fpm_cost link_cost_broken_def)
  show "?c = link_cost_broken" if "unat (valueLq q) < 25 \<or> unat (valueNlq q) < 25"
    using that by (simp only: fpm_cost_def if_True link_cost_broken_eq)
  fix q' :: default_lq_fpm
  assume "valueLq q \<le> valueLq q' \<and> valueNlq q \<le> valueNlq q'"
  then show "\<exists>c'. default_lq_calc_cost_fpm q' = Some c' \<and> c' \<le> ?c"
    by (simp add: calc_cost_fpm_eq word_le_nat_alt unat_fpm_cost fpm_cost_antimono)
qed

theorem fpm_cost_exact_witness:
  "default_lq_calc_cost_fpm \<lparr>valueLq = 255, valueNlq = 255, quickstart = 0\<rparr> = Some 65535"
proof -
  obtain c where c: "default_lq_calc_cost_fpm \<lparr>valueLq = 255, valueNlq = 255, quickstart = 0\<rparr> = Some c"
    "unat c = fpm_cost 255 255"
    using fpm_cost_exact [of "\<lparr>valueLq = 255, valueNlq = 255, quickstart = 0\<rparr>"] by auto
  then have "unat c = unat (65535 :: ulong)" by (simp add: fpm_cost_def)
  with c(1) show ?thesis by (metis word_unat_eq_iff)
qed

text \<open>Every change of the cost of a link is reported, however small: the comparison with the threshold 64 is made on a difference
  taken the wrong way round, which wraps. The update of a link sets the cost to the new one and signals a change exactly if the cost differs.\<close>
theorem fpm_every_change_relevant:
  assumes "lk_linkcost l \<le> link_cost_broken"
  shows "\<exists>c q l' fl'. default_lq_packet_loss_worker_fpm F (lk_loss_mult l) lost (lk_quality l) = Some (c, q) \<and>
     olsr_update_packet_loss_worker cf F lost (l, fl) = Some (l', fl') \<and> lk_linkcost l' = c \<and> lk_quality l' = q \<and>
     fl_link fl' = (fl_link fl \<or> c \<noteq> lk_linkcost l)"
proof -
  obtain c q where w: "default_lq_packet_loss_worker_fpm F (lk_loss_mult l) lost (lk_quality l) = Some (c, q)"
    by (cases "default_lq_packet_loss_worker_fpm F (lk_loss_mult l) lost (lk_quality l)")
      (auto simp: worker_fpm_eq Let_def split: prod.splits)
  then obtain n where c: "c = of_nat (fpm_cost n (unat (valueNlq q)))"
    by (auto simp: worker_fpm_eq Let_def split: prod.splits)
  have "c \<le> link_cost_broken"
    using fpm_cost_le by (simp add: c word_le_nat_alt unat_fpm_cost link_cost_broken_def)
  from relevant_any [OF this assms] show ?thesis
    by (simp add: w olsr_update_packet_loss_worker_def Let_def)
qed

theorem fpm_every_change_relevant_witness:
  "\<exists>l' fl'. olsr_update_packet_loss_worker \<lparr>cf_tc_redundancy = 0, cf_mpr_coverage = 1, cf_lq_level = 2, cf_lq_dlimit = 0\<rparr>
     (default_lq_initialize_fpm 6553) True
     (\<lparr>lk_quality = \<lparr>valueLq = 0, valueNlq = 0, quickstart = 12\<rparr>, lk_linkcost = 4194303, lk_loss_mult = 65536\<rparr>,
      \<lparr>fl_neighborhood = False, fl_topology = False, fl_link = False\<rparr>) = Some (l', fl') \<and> fl_link fl' \<and> lk_linkcost l' = 4194304"
proof -
  let ?l = "\<lparr>lk_quality = \<lparr>valueLq = 0, valueNlq = 0, quickstart = 12\<rparr>, lk_linkcost = 4194303, lk_loss_mult = 65536\<rparr>"
  have "default_lq_packet_loss_worker_fpm (default_lq_initialize_fpm 6553) 65536 True \<lparr>valueLq = 0, valueNlq = 0, quickstart = 12\<rparr> =
    Some (4194304, \<lparr>valueLq = 0, valueNlq = 0, quickstart = 12\<rparr>)"
    by (simp add: worker_fpm_eq aging_step_def default_lq_initialize_fpm_def moving_average_def internal_multiplier_def
        quickstart_steps_def fpm_cost_def)
  then show ?thesis
    using fpm_every_change_relevant [of ?l "default_lq_initialize_fpm 6553" True
        "\<lparr>cf_tc_redundancy = 0, cf_mpr_coverage = 1, cf_lq_level = 2, cf_lq_dlimit = 0\<rparr>"
        "\<lparr>fl_neighborhood = False, fl_topology = False, fl_link = False\<rparr>"]
    by (auto simp: link_cost_broken_def)
qed



end
