(* ===== verification/Lq_Claims.thy ===== *)
theory Lq_Claims imports Lq_Ff_Links Lq_Fpm_Links begin

text \<open>Properties of the metric \<open>etx_ff\<close> and of the factors of links.\<close>

section \<open>Safety of the ring buffers\<close>

text \<open>C31. Whatever packets arrive and whenever the timer runs, the metric never leaves its arrays, never divides by zero and
  never overflows; the position in the ring stays below 32 and the window never exceeds the ring. The factors of the links are at most 1.\<close>
theorem ff_runs_safe:
  assumes "list_all ff_event_ok es"
  shows "\<exists>s. iter es (ff_step M) \<lparr>fs_links = [], fs_main_addr = N\<rparr> = Some s \<and>
    (\<forall>l \<in> set (fs_links s). length (received (fk_quality l)) = 32 \<and> length (lost (fk_quality l)) = 32 \<and>
       unat (activePtr (fk_quality l)) < 32 \<and> unat (windowSize (fk_quality l)) \<le> 32)"
proof -
  have "\<exists>s. iter es (ff_step M) \<lparr>fs_links = [], fs_main_addr = N\<rparr> = Some s \<and> ff_inv s"
  proof (rule iter_rest_total [where P = "\<lambda>_. ff_inv"])
    fix e rest s
    assume "e \<in> set es" "ff_inv s"
    then show "\<exists>s'. ff_step M e s = Some s' \<and> ff_inv s'"
      using assms by (intro ff_step_inv) (auto simp: list_all_iff)
  qed (simp add: ff_inv_def)
  then show ?thesis by (auto simp: ff_inv_def ff_link_ok_def ff_ok_def)
qed

abbreviation sample_link :: ff_link where
  "sample_link \<equiv> \<lparr>fk_neighbor_iface_addr = 1, fk_local_iface_addr = 2, fk_if_name = None, fk_neighbor = 0,
     fk_loss_mult = 65536, fk_linkcost = 0, fk_quality = zero_ff_hello\<rparr>"

theorem ff_runs_safe_witness:
  "\<exists>s. iter [FfNewLink sample_link 1, FfPacket 7 \<lparr>if_ip_addr = 2, if_int_name = ''''\<rparr> 1, FfTimer] (ff_step [])
     \<lparr>fs_links = [], fs_main_addr = Map.empty\<rparr> = Some s"
  using ff_runs_safe [of "[FfNewLink sample_link 1, FfPacket 7 \<lparr>if_ip_addr = 2, if_int_name = ''''\<rparr> 1, FfTimer]" "[]" Map.empty]
  by auto

section \<open>Counting\<close>

definition all_counted :: "default_lq_ff_hello \<Rightarrow> u16 \<times> u16" where
  "all_counted q = (sum_list (received q), sum_list (lost q))"

lemma ff_count_sums:
  assumes "ff_ok q" "unat (seqno - last_seq_nr q) \<le> 256"
  shows "\<exists>q'. ff_count seqno q = Some q' \<and> ff_ok q' \<and> last_seq_nr q' = seqno \<and> activePtr q' = activePtr q \<and>
    sum_list (received q') = sum_list (received q) + 1 \<and>
    sum_list (lost q') = sum_list (lost q) + (seqno - last_seq_nr q) - 1"
proof -
  have "unat (activePtr q) < length (received q)" "unat (activePtr q) < length (lost q)" using assms(1) by (auto simp: ff_ok_def)
  then show ?thesis
    using ff_count_eq [OF assms(1), of seqno] ff_count_ok [OF assms(1)] assms(2)
    by (simp add: sum_list_upd missed_def algebra_simps not_less)
qed

fun near :: "u16 \<Rightarrow> u16 list \<Rightarrow> bool" where
  "near s0 [] = True"
| "near s0 (s # ss) = (unat (s - s0) \<le> 256 \<and> near s ss)"

text \<open>A run of packets, each at most 256 numbers after the one before it, with the numbers wrapping at \<open>2 ^ 16\<close>: the packets counted as
  received are the packets of the run, and received and lost ones together are the numbers that the sender used.\<close>
theorem ff_counts_sent:
  assumes "ff_ok q" "near (last_seq_nr q) ss"
  shows "\<exists>q'. iter ss ff_count q = Some q' \<and> last_seq_nr q' = last_of (last_seq_nr q) ss \<and>
    sum_list (received q') = sum_list (received q) + of_nat (length ss) \<and>
    sum_list (received q') + sum_list (lost q') =
      sum_list (received q) + sum_list (lost q) + (last_of (last_seq_nr q) ss - last_seq_nr q)"
  using assms
proof (induction ss arbitrary: q)
  case (Cons s ss)
  then have gap: "unat (s - last_seq_nr q) \<le> 256" by simp
  obtain q1 where q1: "ff_count s q = Some q1" "ff_ok q1" "last_seq_nr q1 = s" "sum_list (received q1) = sum_list (received q) + 1"
    "sum_list (lost q1) = sum_list (lost q) + (s - last_seq_nr q) - 1"
    using ff_count_sums [OF Cons.prems(1) gap] by blast
  have "near (last_seq_nr q1) ss" using Cons.prems q1(3) by simp
  from Cons.IH [OF q1(2) this] show ?case
    using q1 by (auto simp: last_of_def algebra_simps)
qed (simp add: last_of_def)

theorem ff_counts_sent_witness:
  "\<exists>q'. iter [65535, 2, 3] ff_count (zero_ff_hello\<lparr>last_seq_nr := 65534\<rparr>) = Some q' \<and>
     sum_list (received q') = 3 \<and> sum_list (lost q') = 2"
  using ff_counts_sent [of "zero_ff_hello\<lparr>last_seq_nr := 65534\<rparr>" "[65535, 2, 3]"]
  by (auto simp: ff_ok_def zero_ff_hello_def last_of_def sum_list_replicate add_eq_0_iff)

section \<open>A packet received twice\<close>

lemma ff_quality_dup:
  assumes "R < 6000"
  shows "ff_quality 65536 (R + 1) 65535 < 25"
proof -
  define d where "d = 1024 * (R + 1) div (R + 1 + 65535)"
  have "1024 * (R + 1) < 94 * (R + 1 + 65535)" using assms by simp
  then have "d < 94" unfolding d_def by (rule less_mult_imp_div_less)
  then have "d * 255 < 25 * 1024" by simp
  then have "d * 255 div 1024 < 25" by (rule less_mult_imp_div_less)
  moreover have "1024 * 65536 div 65536 = (1024 :: nat)" by simp
  then have "ff_quality 65536 (R + 1) 65535 = d * 255 div 1024"
    unfolding ff_quality_def d_def by (simp only:) (rule if_not_P, simp)
  ultimately show ?thesis by simp
qed

lemma minus_one16: "unat (- 1 :: u16) = 65535"
proof -
  have "(- 1 :: u16) = 65535" by simp
  then show ?thesis by (simp only:) simp
qed

lemma ff_quality_full: "0 < R \<Longrightarrow> ff_quality 65536 R 0 = 255"
  by (simp add: ff_quality_def)

text \<open>C33. A copy of the last packet of a link whose window has no losses takes the count of lost packets below zero, and it wraps. The timer then
  declares the link broken, whereas without the copy it gives the link the best quality.\<close>
theorem ff_copy_breaks_link:
  assumes "ff_ok (fk_quality l)" "fk_loss_mult l = 65536" "unat (windowSize (fk_quality l)) = 32"
    "lost (fk_quality l) = replicate 32 0" "0 < sum_list (map unat (received (fk_quality l)))"
    "sum_list (map unat (received (fk_quality l))) < 6000"
  shows "\<exists>q l1 l2. ff_count (last_seq_nr (fk_quality l)) (fk_quality l) = Some q \<and>
    ff_tick (l\<lparr>fk_quality := q\<rparr>) = Some l1 \<and> fk_linkcost l1 = link_cost_broken \<and>
    ff_tick l = Some l2 \<and> ff_valueLq (ffh_lq (fk_quality l2)) = 255"
proof -
  define q0 where "q0 = fk_quality l"
  define R where "R = sum_list (map unat (received q0))"
  have R: "0 < R" "R < 6000" using assms(5,6) by (simp_all add: R_def q0_def)
  have uR: "unat (sum_list (received q0)) = R" using R by (simp add: unat_sum_list R_def)
  have ok: "ff_ok q0" and len: "length (received q0) = 32" "length (lost q0) = 32"
    using assms(1) by (simp_all add: q0_def ff_ok_def)
  obtain q where q: "ff_count (last_seq_nr q0) q0 = Some q" "ff_ok q" "sum_list (received q) = sum_list (received q0) + 1"
    "sum_list (lost q) = sum_list (lost q0) - 1" and w: "windowSize q = windowSize q0"
    using ff_count_sums [OF ok, of "last_seq_nr q0"] ff_count_eq [OF ok, of "last_seq_nr q0"] by auto
  have full: "take (ff_window p) (received p) = received p" "take (ff_window p) (lost p) = lost p"
    if "windowSize p = windowSize q0" "ff_ok p" for p
    using that assms(3) by (simp_all add: ff_window_def q0_def ff_ok_def)
  have "sum_list (lost q0) = 0" using assms(4) by (simp add: q0_def sum_list_replicate)
  then have L: "unat (sum_list (lost q)) = 65535" by (simp add: q(4) minus_one16)
  have "unat (sum_list (received q)) = R + 1" using uR R by (simp add: q(3) unat_word_ariths)
  then have bad: "ff_measured (l\<lparr>fk_quality := q\<rparr>) < 25"
    using ff_quality_dup [OF R(2)] L by (simp add: ff_measured_def full [OF w q(2)] assms(2))
  have good: "ff_measured l = 255"
    using ff_quality_full [OF R(1)] uR \<open>sum_list (lost q0) = 0\<close>
    by (simp add: ff_measured_def q0_def [symmetric] full [OF refl ok] assms(2))
  show ?thesis
    using ff_tick_eq [of "l\<lparr>fk_quality := q\<rparr>"] ff_tick_eq [of l] q bad good assms(1,2)
    by (simp add: ff_cost_def link_cost_broken_eq q0_def)
qed

theorem ff_copy_breaks_link_witness:
  "\<exists>q l1. ff_count 9 \<lparr>ffh_lq = \<lparr>ff_valueLq = 0, ff_valueNlq = 255\<rparr>, windowSize = 32, activePtr = 5, last_seq_nr = 9,
       received = replicate 32 1, lost = replicate 32 0\<rparr> = Some q \<and>
     ff_tick (sample_link\<lparr>fk_quality := q\<rparr>) = Some l1 \<and> fk_linkcost l1 = link_cost_broken"
  using ff_copy_breaks_link [of "sample_link\<lparr>fk_quality := \<lparr>ffh_lq = \<lparr>ff_valueLq = 0, ff_valueNlq = 255\<rparr>, windowSize = 32,
      activePtr = 5, last_seq_nr = 9, received = replicate 32 1, lost = replicate 32 0\<rparr>\<rparr>"]
  by (simp add: ff_ok_def sum_list_replicate) blast

section \<open>The factor for all other neighbours\<close>

text \<open>The factor that the configuration sets for all other neighbours is never used: an unsigned value is tested for being negative. A link
  gets the last factor that is set for its address, and the factor 1 if there is none or it is 0.\<close>
theorem default_multiplier_ignored:
  assumes "List.find (\<lambda>c. fst c = ifc) interfaces = Some (j, ms)" "b \<noteq> 0"
  shows "set_loss_link_multiplier interfaces ifc b =
    Some (let v = last_of 0 (map snd (filter (\<lambda>(a, v). a = b) ms)) in if v = 0 then 65536 else v)"
  using assms(1) unfolding set_loss_link_multiplier_def
  by (simp only: bind.bind_lunit snd_conv fold_mult Let_def) (simp add: link_loss_multiplier_def)

theorem default_multiplier_ignored_witness:
  "set_loss_link_multiplier [(Some (1 :: nat), [(0, 52428)])] (Some 1) 0x0200A8C0 = Some 65536"
  using default_multiplier_ignored [of "Some 1" "[(Some (1 :: nat), [(0, 52428)])]" "Some 1" "[(0, 52428)]" "0x0200A8C0"]
  by (simp add: last_of_def)

end
