(* ===== verification/Packet_Parse.thy ===== *)
theory Packet_Parse imports Bytes Duplicate_Set Wire begin

text \<open>
  The parser of the daemon (\<open>parser.c\<close>): a received packet is a header of four bytes and messages, which are given to the functions
  registered for their types. The packet lies at the front of the static receive buffer. The registered functions, the update of the
  hysteresis and the forwarding of messages belong to other components and are parameters; they may change the state and the
  buffer. The loop over the messages may run for ever: then the result is \<open>None\<close>, while \<open>Fault\<close> is an access outside of the buffer.
\<close>

section \<open>State\<close>

record parse_function_entry =
  pf_type :: ulong
  pf_forwarding :: bool
  pf_function :: nat

record 'a parse_state =
  ps_buf :: "byte list"
  ps_dups :: dup_set
  ps_user :: 'a

text \<open>
  The registered functions and packet parsers are named by numbers, as the code compares pointers to them. What they do is given by \<open>pe_run\<close> (for a message
  at an offset of the buffer) and \<open>pe_run_packet\<close>.
\<close>

record 'a parse_env =
  pe_main_addr :: ip_addr
  pe_deny :: "ip_addr list"
  pe_tick_divider :: nat
  pe_now :: clock
  pe_use_hysteresis :: bool
  pe_functions :: "parse_function_entry list"
  pe_packetparsers :: "nat list"
  pe_run :: "nat \<Rightarrow> nat \<Rightarrow> 'a parse_state \<Rightarrow> 'a parse_state option"
  pe_run_packet :: "nat \<Rightarrow> 'a parse_state \<Rightarrow> 'a parse_state option"
  pe_hysteresis :: "u16 \<Rightarrow> 'a parse_state \<Rightarrow> 'a parse_state option"
  pe_forward :: "nat \<Rightarrow> 'a parse_state \<Rightarrow> 'a parse_state option"

datatype 'a parse_end = Done "'a parse_state" | Fault

definition promiscuous :: ulong where "promiscuous = 0xffffffff"
definition min_packet_size :: int where "min_packet_size = 4"
definition maxmessagesize :: nat where "maxmessagesize = 1500"

section \<open>Registration\<close>

definition olsr_parser_add_function :: "nat \<Rightarrow> ulong \<Rightarrow> bool \<Rightarrow> parse_function_entry list \<Rightarrow> parse_function_entry list" where
  "olsr_parser_add_function f t fwd es = \<lparr>pf_type = t, pf_forwarding = fwd, pf_function = f\<rparr> # es"

fun olsr_parser_remove_function :: "nat \<Rightarrow> ulong \<Rightarrow> bool \<Rightarrow> parse_function_entry list \<Rightarrow> parse_function_entry list \<times> bool" where
  "olsr_parser_remove_function f t fwd [] = ([], False)"
| "olsr_parser_remove_function f t fwd (e # es) =
     (if pf_function e = f \<and> pf_type e = t \<and> pf_forwarding e = fwd then (es, True)
      else let (es, r) = olsr_parser_remove_function f t fwd es in (e # es, r))"

definition olsr_packetparser_add_function :: "nat \<Rightarrow> nat list \<Rightarrow> nat list" where
  "olsr_packetparser_add_function f fs = f # fs"

fun olsr_packetparser_remove_function :: "nat \<Rightarrow> nat list \<Rightarrow> nat list \<times> bool" where
  "olsr_packetparser_remove_function f [] = ([], False)"
| "olsr_packetparser_remove_function f (e # es) =
     (if e = f then (es, True) else let (es, r) = olsr_packetparser_remove_function f es in (e # es, r))"

definition olsr_validate_address :: "ip_addr list \<Rightarrow> ip_addr \<Rightarrow> bool" where
  "olsr_validate_address deny a = (\<not> List.member deny a)"

definition olsr_add_invalid_address :: "ip_addr \<Rightarrow> ip_addr list \<Rightarrow> ip_addr list" where
  "olsr_add_invalid_address a deny = a # deny"

section \<open>One message\<close>

text \<open>The fields of the header of the message at offset \<open>m\<close>, which lies in the order of the network.\<close>

definition msg_u16 :: "byte list \<Rightarrow> nat \<Rightarrow> u16 option" where
  "msg_u16 buf off = map_option (\<lambda>bs. htons (of_le16 bs)) (get_bytes buf (int off) 2)"

definition msg_type :: "byte list \<Rightarrow> nat \<Rightarrow> byte option" where
  "msg_type buf m = rd buf (int m)"

definition msg_size :: "byte list \<Rightarrow> nat \<Rightarrow> u16 option" where
  "msg_size buf m = msg_u16 buf (m + 2)"

definition msg_originator :: "byte list \<Rightarrow> nat \<Rightarrow> ip_addr option" where
  "msg_originator buf m = map_option of_le32 (get_bytes buf (int m + 4) 4)"

definition msg_seqno :: "byte list \<Rightarrow> nat \<Rightarrow> u16 option" where
  "msg_seqno buf m = msg_u16 buf (m + 10)"

definition run_entry :: "'a parse_env \<Rightarrow> nat \<Rightarrow> parse_function_entry \<Rightarrow> 'a parse_state \<times> bool \<Rightarrow> ('a parse_state \<times> bool) option" where
  "run_entry env m entry = (\<lambda>(s, processed). do {
     t \<leftarrow> msg_type (ps_buf s) m;
     if pf_type entry = promiscuous \<or> pf_type entry = ucast t then do {
       s \<leftarrow> pe_run env (pf_function entry) m s;
       Some (s, processed \<or> pf_forwarding entry) }
     else Some (s, processed) })"

text \<open>The body of the loop for the message at \<open>m\<close>; the second component tells whether the loop is left.\<close>

definition parse_message :: "'a parse_env \<Rightarrow> nat \<Rightarrow> 'a parse_state \<Rightarrow> ('a parse_state \<times> bool) option" where
  "parse_message env m s = do {
     orig \<leftarrow> msg_originator (ps_buf s) m;
     if orig = pe_main_addr env \<or> \<not> olsr_validate_address (pe_deny env) orig then Some (s, False)
     else do {
       seqno \<leftarrow> msg_seqno (ps_buf s) m;
       (let (ds, new) = olsr_shall_process_message (pe_tick_divider env) (pe_now env) orig seqno (ps_dups s);
            s = s\<lparr>ps_dups := ds\<rparr>
        in if \<not> new then Some (s, False)
           else do {
             (s, processed) \<leftarrow> iter (pe_functions env) (run_entry env m) (s, False);
             if processed then Some (s, False)
             else do {
               orig \<leftarrow> msg_originator (ps_buf s) m;
               s \<leftarrow> (if orig \<noteq> pe_main_addr env then pe_forward env m s else Some s);
               Some (s, True) } }) } }"

section \<open>A packet\<close>

partial_function (option) parse_loop :: "'a parse_env \<Rightarrow> nat \<Rightarrow> int \<Rightarrow> 'a parse_state \<Rightarrow> 'a parse_end option" where
  "parse_loop env m count s =
     (if count \<le> 0 \<or> count < min_packet_size then Some (Done s)
      else case msg_size (ps_buf s) m of
        None \<Rightarrow> Some Fault
      | Some msgsize \<Rightarrow>
          (let count = count - uint msgsize in
           if count < 0 then Some (Done s)
           else case parse_message env m s of
             None \<Rightarrow> Some Fault
           | Some (s, stop) \<Rightarrow>
               if stop then Some (Done s) else parse_loop env (m + unat msgsize) count s))"

text \<open>
  The sequence number of the packet is turned into the order of the host in the buffer, for the packet parsers; the hysteresis gets
  it turned once more.
\<close>

definition parse_start :: "'a parse_env \<Rightarrow> nat \<Rightarrow> 'a parse_state \<Rightarrow> 'a parse_state option" where
  "parse_start env cc s = do {
     raw \<leftarrow> get_bytes (ps_buf s) 2 2;
     buf \<leftarrow> put_bytes (ps_buf s) 2 (le16 (htons (of_le16 raw)));
     s \<leftarrow> iter (pe_packetparsers env) (pe_run_packet env) (s\<lparr>ps_buf := buf\<rparr>);
     (msgsize :: u16) \<leftarrow> msg_size (ps_buf s) 4;
     if pe_use_hysteresis env then do {
       raw \<leftarrow> get_bytes (ps_buf s) 2 2;
       pe_hysteresis env (htons (of_le16 raw)) s }
     else Some s }"

definition parse_packet :: "'a parse_env \<Rightarrow> nat \<Rightarrow> 'a parse_state \<Rightarrow> 'a parse_end option" where
  "parse_packet env cc s =
     (let count = int cc - 4 in
      if count < min_packet_size then Some (Done s)
      else case msg_u16 (ps_buf s) 0 of
        None \<Rightarrow> Some Fault
      | Some packlen \<Rightarrow>
          if unat packlen \<noteq> cc then Some (Done s)
          else case parse_start env cc s of
            None \<Rightarrow> Some Fault
          | Some s \<Rightarrow> parse_loop env 4 count s)"

end
