(* ===== verification/Packet_Facts.thy ===== *)
theory Packet_Facts imports Packet_Parse begin

text \<open>
  The loop of the parser: it returns when no message is shorter than its header, it hangs on a message of size 0, and on a packet that is a
  sequence of messages it does what a walk through the list of the messages does.
\<close>

section \<open>The registered functions\<close>

text \<open>
  What the parser needs of the functions that it calls: they leave the buffer alone, up to the fields for the time to live and the
  hop count of the message, which the forwarding changes.
\<close>

definition same_message :: "nat \<Rightarrow> byte list \<Rightarrow> byte list \<Rightarrow> bool" where
  "same_message m b b' \<longleftrightarrow> length b' = length b \<and> (\<forall>i. i \<noteq> m + 8 \<and> i \<noteq> m + 9 \<longrightarrow> b' ! i = b ! i)"

locale parse_functions =
  fixes env :: "'a parse_env"
  assumes run_keeps: "pe_run env f m s = Some s' \<Longrightarrow> same_message m (ps_buf s) (ps_buf s')"
    and forward_keeps: "pe_forward env m s = Some s' \<Longrightarrow> same_message m (ps_buf s) (ps_buf s')"
    and packet_keeps: "pe_run_packet env f s = Some s' \<Longrightarrow> ps_buf s' = ps_buf s"
    and hysteresis_keeps: "pe_hysteresis env n s = Some s' \<Longrightarrow> ps_buf s' = ps_buf s"
begin

lemma same_message_refl: "same_message m b b"
  by (simp add: same_message_def)

lemma same_message_trans: "same_message m b c \<Longrightarrow> same_message m c d \<Longrightarrow> same_message m b d"
  by (simp add: same_message_def)

lemma entries_keep:
  assumes "iter es (run_entry env m) (s, p) = Some (s', p')"
  shows "same_message m (ps_buf s) (ps_buf s')"
proof -
  have "(\<lambda>(t, _). same_message m (ps_buf s) (ps_buf t)) (s', p')"
  proof (rule iter_partial [OF assms])
    fix e x x'
    assume x: "case x of (t, _) \<Rightarrow> same_message m (ps_buf s) (ps_buf t)" and r: "run_entry env m e x = Some x'"
    obtain t q t' q' where tt: "x = (t, q)" "x' = (t', q')" by (cases x, cases x')
    have "same_message m (ps_buf t) (ps_buf t')"
      using r run_keeps same_message_refl by (auto simp: tt run_entry_def bind_eq_Some_conv split: if_splits)
    then show "case x' of (t, _) \<Rightarrow> same_message m (ps_buf s) (ps_buf t)" using x same_message_trans by (simp add: tt)
  qed (simp add: same_message_refl)
  then show ?thesis by simp
qed

lemma message_keeps:
  assumes "parse_message env m s = Some (s', stop)"
  shows "same_message m (ps_buf s) (ps_buf s')"
proof -
  obtain orig where o: "msg_originator (ps_buf s) m = Some orig" using assms by (auto simp: parse_message_def bind_eq_Some_conv)
  show ?thesis
  proof (cases "orig = pe_main_addr env \<or> \<not> olsr_validate_address (pe_deny env) orig")
    case True
    then show ?thesis using assms o by (auto simp: parse_message_def same_message_refl)
  next
    case False
    then obtain n where n: "msg_seqno (ps_buf s) m = Some n" using assms o by (auto simp: parse_message_def bind_eq_Some_conv)
    obtain ds new where d: "olsr_shall_process_message (pe_tick_divider env) (pe_now env) orig n (ps_dups s) = (ds, new)" by fastforce
    show ?thesis
    proof (cases new)
      case False
      then show ?thesis using assms o n d \<open>\<not> (orig = _ \<or> _)\<close> by (auto simp: parse_message_def same_message_refl)
    next
      case True
      then obtain s1 p where s1: "iter (pe_functions env) (run_entry env m) (s\<lparr>ps_dups := ds\<rparr>, False) = Some (s1, p)"
        using assms o n d False by (auto simp: parse_message_def bind_eq_Some_conv)
      have k: "same_message m (ps_buf s) (ps_buf s1)" using entries_keep [OF s1] by simp
      have "s' = s1 \<or> pe_forward env m s1 = Some s'"
        using assms o n d False True s1 by (auto simp: parse_message_def bind_eq_Some_conv split: if_splits)
      then show ?thesis using k forward_keeps same_message_trans by blast
    qed
  qed
qed

end

section \<open>Fields\<close>

lemma get_bytes_same:
  assumes "length b' = length b" "\<And>i. i < n \<Longrightarrow> b' ! (off + i) = b ! (off + i)"
  shows "get_bytes b' (int off) n = get_bytes b (int off) n"
proof (cases "off + n \<le> length b")
  case True
  then have "take n (drop off b') = take n (drop off b)" using assms by (intro nth_equalityI) simp_all
  then show ?thesis using True assms(1) by (simp add: get_bytes_nat)
qed (simp add: get_bytes_def assms(1))

section \<open>Termination\<close>

text \<open>Every message that lies in the rest of the packet has at least the size of a header.\<close>

function sizes_ok :: "byte list \<Rightarrow> nat \<Rightarrow> int \<Rightarrow> bool" where
  "sizes_ok buf m count =
     (if count < min_packet_size then True
      else case msg_size buf m of
        None \<Rightarrow> True
      | Some n \<Rightarrow> if uint n > count then True else if unat n < 12 then False
          else sizes_ok buf (m + unat n) (count - uint n))"
  by pat_completeness auto
termination
proof (relation "measure (\<lambda>(buf, m, count). nat count)", goal_cases)
  case (2 buf m count n)
  then have "0 < unat n" by linarith
  then have "0 < int (unat n)" by (simp only: of_nat_0_less_iff)
  then have "0 < uint n" by simp
  then show ?case using 2 by (simp add: min_packet_size_def)
qed simp

declare sizes_ok.simps [simp del]

definition same_from :: "nat \<Rightarrow> byte list \<Rightarrow> byte list \<Rightarrow> bool" where
  "same_from m b b' \<longleftrightarrow> length b' = length b \<and> (\<forall>i \<ge> m + 2. b' ! i = b ! i)"

lemma same_message_from: "same_message m0 b b' \<Longrightarrow> m0 + 8 \<le> m \<Longrightarrow> same_from m b b'"
  by (simp add: same_message_def same_from_def)

lemma same_from_mono: "same_from m b b' \<Longrightarrow> m \<le> m' \<Longrightarrow> same_from m' b b'"
  by (simp add: same_from_def)

lemma msg_size_from:
  assumes "same_from m b b'"
  shows "msg_size b' m = msg_size b m"
proof -
  have "get_bytes b' (int (m + 2)) 2 = get_bytes b (int (m + 2)) 2"
    using assms by (intro get_bytes_same) (simp_all add: same_from_def)
  then show ?thesis by (simp add: msg_size_def msg_u16_def)
qed

lemma sizes_ok_cong:
  assumes "same_from m b b'" "sizes_ok b m count"
  shows "sizes_ok b' m count"
  using assms
proof (induction b m count rule: sizes_ok.induct)
  case (1 b m count)
  have eq: "msg_size b' m = msg_size b m" using 1 by (intro msg_size_from)
  show ?case
  proof (cases "msg_size b m")
    case (Some n)
    have "same_from (m + unat n) b b'" using 1(2) by (rule same_from_mono) simp
    then show ?thesis
      using 1 Some by (subst sizes_ok.simps, subst (asm) (2) sizes_ok.simps) (auto simp: eq split: if_splits)
  qed (subst sizes_ok.simps, simp add: eq)
qed

context parse_functions
begin

lemma parse_loop_returns: "sizes_ok (ps_buf s) m count \<Longrightarrow> \<exists>r. parse_loop env m count s = Some r"
proof (induction "nat count" arbitrary: m count s rule: less_induct)
  case less
  show ?case
  proof (cases "count < min_packet_size")
    case True
    then show ?thesis by (subst parse_loop.simps) simp
  next
    case False
    note go = False
    show ?thesis
    proof (cases "msg_size (ps_buf s) m")
      case None
      then show ?thesis using False by (subst parse_loop.simps) simp
    next
      case (Some n)
      show ?thesis
      proof (cases "uint n > count")
        case True
        then show ?thesis using Some by (subst parse_loop.simps) simp
      next
        case fits: False
        have ok: "12 \<le> unat n" "sizes_ok (ps_buf s) (m + unat n) (count - uint n)"
          using less.prems go Some fits by (subst (asm) sizes_ok.simps, auto split: if_splits)+
        have "12 \<le> int (unat n)" using ok(1) by (metis of_nat_le_iff of_nat_numeral)
        then have dec: "nat (count - uint n) < nat count" using fits go by (simp add: min_packet_size_def)
        show ?thesis
        proof (cases "parse_message env m s")
          case None
          then show ?thesis using Some fits by (subst parse_loop.simps) simp
        next
          case (Some r)
          then obtain s' stop where r: "parse_message env m s = Some (s', stop)" by (cases r) auto
          have "sizes_ok (ps_buf s') (m + unat n) (count - uint n)"
            using sizes_ok_cong [OF same_message_from [OF message_keeps [OF r]] ok(2)] ok(1) by simp
          from less.hyps [OF dec this] show ?thesis
            using r \<open>msg_size (ps_buf s) m = Some n\<close> by (subst parse_loop.simps) simp
        qed
      qed
    qed
  qed
qed

lemma start_keeps:
  assumes "parse_start env cc s = Some s'"
  shows "\<exists>bs. put_bytes (ps_buf s) 2 bs = Some (ps_buf s') \<and> length bs = 2"
proof -
  obtain raw buf s1 where b: "put_bytes (ps_buf s) 2 (le16 (htons (of_le16 raw))) = Some buf"
    and s1: "iter (pe_packetparsers env) (pe_run_packet env) (s\<lparr>ps_buf := buf\<rparr>) = Some s1"
    and s': "s' = s1 \<or> (\<exists>n. pe_hysteresis env n s1 = Some s')"
    using assms by (auto simp: parse_start_def bind_eq_Some_conv split: if_splits)
  have "(\<lambda>t. ps_buf t = buf) s1"
    by (rule iter_partial [OF s1]) (auto simp: packet_keeps)
  then have "ps_buf s' = buf" using s' hysteresis_keeps by auto
  with b show ?thesis by (intro exI [of _ "le16 (htons (of_le16 raw))"]) simp
qed

end

section \<open>A message of size 0\<close>

text \<open>
  A message of size 0 with an originator that the node does not listen to leaves the state and the position as they are. Since the
  recursion is the least one that satisfies the equation of the loop, the loop does not return.
\<close>

lemma parse_loop_stuck:
  assumes "parse_loop env m count s = Some r"
  shows "\<not> (min_packet_size \<le> count \<and> msg_size (ps_buf s) m = Some 0 \<and> parse_message env m s = Some (s, False))"
proof (rule parse_loop.raw_induct [OF _ assms])
  fix loop env m count s r
  assume IH: "\<And>env m count s r. loop env m count s = Some r \<Longrightarrow>
      \<not> (min_packet_size \<le> count \<and> msg_size (ps_buf s) m = Some 0 \<and> parse_message env m s = Some (s, False))"
    and r: "(if count \<le> 0 \<or> count < min_packet_size then Some (Done s)
      else case msg_size (ps_buf s) m of
        None \<Rightarrow> Some Fault
      | Some msgsize \<Rightarrow>
          (let count = count - uint msgsize in
           if count < 0 then Some (Done s)
           else case parse_message env m s of
             None \<Rightarrow> Some Fault
           | Some (s, stop) \<Rightarrow>
               if stop then Some (Done s) else loop env (m + unat msgsize) count s)) = Some r"
  show "\<not> (min_packet_size \<le> count \<and> msg_size (ps_buf s) m = Some 0 \<and> parse_message env m s = Some (s, False))"
  proof
    assume stuck: "min_packet_size \<le> count \<and> msg_size (ps_buf s) m = Some 0 \<and> parse_message env m s = Some (s, False)"
    then have "loop env m count s = Some r" using r by (simp add: min_packet_size_def)
    from IH [OF this] stuck show False by blast
  qed
qed

section \<open>A walk through the messages\<close>

text \<open>The reference: the messages of a packet are given by their sizes, and every one is handled once, until one is of an unknown type.\<close>

fun deliver :: "'a parse_env \<Rightarrow> nat \<Rightarrow> nat list \<Rightarrow> 'a parse_state \<Rightarrow> 'a parse_end" where
  "deliver env m [] s = Done s"
| "deliver env m (n # ns) s =
     (case parse_message env m s of
        None \<Rightarrow> Fault
      | Some (s, stop) \<Rightarrow> if stop then Done s else deliver env (m + n) ns s)"

fun framed :: "byte list \<Rightarrow> nat \<Rightarrow> nat list \<Rightarrow> bool" where
  "framed buf m [] = True"
| "framed buf m (n # ns) = (12 \<le> n \<and> n < 65536 \<and> msg_size buf m = Some (of_nat n) \<and> framed buf (m + n) ns)"

lemma framed_cong: "same_from m b b' \<Longrightarrow> framed b m ns \<Longrightarrow> framed b' m ns"
proof (induction ns arbitrary: m)
  case (Cons n ns)
  have "same_from (m + n) b b'" using Cons.prems(1) by (rule same_from_mono) simp
  then show ?case using Cons by (simp add: msg_size_from)
qed simp

context parse_functions
begin

lemma parse_loop_deliver:
  "framed (ps_buf s) m ns \<Longrightarrow> parse_loop env m (int (sum_list ns)) s = Some (deliver env m ns s)"
proof (induction ns arbitrary: m s)
  case Nil
  then show ?case by (subst parse_loop.simps) simp
next
  case (Cons n ns)
  then have n: "12 \<le> n" "n < 65536" "msg_size (ps_buf s) m = Some (of_nat n)" "framed (ps_buf s) (m + n) ns" by simp_all
  have u: "unat (of_nat n :: u16) = n" "uint (of_nat n :: u16) = int n"
    using unat_u16 [OF n(2)] by (simp_all only: uint_nat)
  show ?case
  proof (cases "parse_message env m s")
    case None
    then show ?thesis using n u by (subst parse_loop.simps) (simp add: min_packet_size_def)
  next
    case (Some r)
    then obtain s' stop where r: "parse_message env m s = Some (s', stop)" by (cases r) auto
    have "framed (ps_buf s') (m + n) ns"
      using framed_cong [OF same_message_from [OF message_keeps [OF r]] n(4)] n(1) by simp
    from Cons.IH [OF this] show ?thesis
      using n u r by (subst parse_loop.simps) (simp add: min_packet_size_def)
  qed
qed

end

text \<open>A packet that consists of a header and of messages is framed by their lengths.\<close>

definition wire_message :: "byte list \<Rightarrow> bool" where
  "wire_message w \<longleftrightarrow> 12 \<le> length w \<and> length w < 65536 \<and> take 2 (drop 2 w) = le16 (htons (of_nat (length w)))"

lemma msg_size_at:
  assumes "wire_message w" "length pre = m"
  shows "msg_size (pre @ w @ rest) m = Some (of_nat (length w))"
proof -
  have "take 2 (drop (m + 2) (pre @ w @ rest)) = take 2 (drop 2 w)" using assms by (simp add: wire_message_def)
  then have "get_bytes (pre @ w @ rest) (int (m + 2)) 2 = Some (le16 (htons (of_nat (length w))))"
    using assms get_bytes_nat [of "m + 2" 2 "pre @ w @ rest"] by (simp only: wire_message_def) simp
  then show ?thesis by (simp add: msg_size_def msg_u16_def)
qed

lemma framed_messages:
  assumes "list_all wire_message ws" "length pre = m"
  shows "framed (pre @ concat ws @ rest) m (map length ws)"
  using assms
proof (induction ws arbitrary: pre m)
  case (Cons w ws)
  then have "framed ((pre @ w) @ concat ws @ rest) (m + length w) (map length ws)" by (intro Cons.IH) simp_all
  then show ?case using Cons.prems msg_size_at [of w pre m "concat ws @ rest"] by (simp add: wire_message_def)
qed simp

section \<open>Accesses to the buffer\<close>

definition functions_return :: "'a parse_env \<Rightarrow> bool" where
  "functions_return env \<longleftrightarrow> (\<forall>f m s. pe_run env f m s \<noteq> None) \<and> (\<forall>m s. pe_forward env m s \<noteq> None) \<and>
     (\<forall>f s. pe_run_packet env f s \<noteq> None) \<and> (\<forall>n s. pe_hysteresis env n s \<noteq> None)"

lemma get_bytes_in: "off + n \<le> length buf \<Longrightarrow> \<exists>bs. get_bytes buf (int off) n = Some bs \<and> length bs = n"
  by (simp add: get_bytes_nat)

lemma header_fields:
  assumes "m + 12 \<le> length buf"
  shows "\<exists>x. msg_type buf m = Some x" "\<exists>x. msg_size buf m = Some x" "\<exists>x. msg_originator buf m = Some x" "\<exists>x. msg_seqno buf m = Some x"
  using assms get_bytes_in [of "m + 2" 2 buf] get_bytes_in [of "m + 4" 4 buf] get_bytes_in [of "m + 10" 2 buf]
  by (auto simp: msg_type_def msg_size_def msg_originator_def msg_seqno_def msg_u16_def)

context parse_functions
begin

lemma entries_total:
  assumes "functions_return env" "m + 12 \<le> length (ps_buf s)"
  shows "\<exists>s' p'. iter es (run_entry env m) (s, p) = Some (s', p')"
proof -
  have "\<exists>x. iter es (run_entry env m) (s, p) = Some x \<and> m + 12 \<le> length (ps_buf (fst x))"
  proof (rule iter_rest_total [where P = "\<lambda>_ x. m + 12 \<le> length (ps_buf (fst x))"])
    fix e :: parse_function_entry and rest and x :: "'a parse_state \<times> bool"
    assume "m + 12 \<le> length (ps_buf (fst x))"
    moreover obtain t q where x: "x = (t, q)" by (cases x)
    ultimately have m: "m + 12 \<le> length (ps_buf t)" by simp
    obtain ty where ty: "msg_type (ps_buf t) m = Some ty" using header_fields(1) [OF m] by blast
    obtain t' where t': "pe_run env (pf_function e) m t = Some t'" using assms(1) unfolding functions_return_def by fast
    have "length (ps_buf t') = length (ps_buf t)" using run_keeps [OF t'] by (simp add: same_message_def)
    then show "\<exists>x'. run_entry env m e x = Some x' \<and> m + 12 \<le> length (ps_buf (fst x'))"
      using ty t' m by (simp add: x run_entry_def)
  qed (use assms in simp)
  then show ?thesis by auto
qed

lemma message_total:
  assumes "functions_return env" "m + 12 \<le> length (ps_buf s)"
  shows "\<exists>s' stop. parse_message env m s = Some (s', stop)"
proof -
  obtain orig n where on: "msg_originator (ps_buf s) m = Some orig" "msg_seqno (ps_buf s) m = Some n"
    using header_fields [OF assms(2)] by blast
  obtain ds new where d: "olsr_shall_process_message (pe_tick_divider env) (pe_now env) orig n (ps_dups s) = (ds, new)" by fastforce
  have "m + 12 \<le> length (ps_buf (s\<lparr>ps_dups := ds\<rparr>))" using assms(2) by simp
  from entries_total [OF assms(1) this] obtain s1 p where
    s1: "iter (pe_functions env) (run_entry env m) (s\<lparr>ps_dups := ds\<rparr>, False) = Some (s1, p)" by blast
  have "m + 12 \<le> length (ps_buf s1)" using entries_keep [OF s1] assms(2) by (simp add: same_message_def)
  then obtain o1 where o1: "msg_originator (ps_buf s1) m = Some o1" using header_fields(3) by blast
  obtain s2 where "pe_forward env m s1 = Some s2" using assms(1) unfolding functions_return_def by fast
  then show ?thesis using on d s1 o1 by (auto simp: parse_message_def Let_def)
qed

lemma parse_loop_safe:
  assumes "functions_return env"
  shows "int m + count + 8 \<le> int (length (ps_buf s)) \<Longrightarrow> sizes_ok (ps_buf s) m count \<Longrightarrow> \<exists>s'. parse_loop env m count s = Some (Done s')"
proof (induction "nat count" arbitrary: m count s rule: less_induct)
  case less
  show ?case
  proof (cases "count < min_packet_size")
    case True
    then show ?thesis by (subst parse_loop.simps) simp
  next
    case False
    then have m: "m + 12 \<le> length (ps_buf s)" using less.prems by (simp add: min_packet_size_def)
    then obtain n where n: "msg_size (ps_buf s) m = Some n" using header_fields(2) by blast
    show ?thesis
    proof (cases "uint n > count")
      case True
      then show ?thesis using n by (subst parse_loop.simps) simp
    next
      case fits: False
      have ok: "12 \<le> unat n" "sizes_ok (ps_buf s) (m + unat n) (count - uint n)"
        using less.prems False n fits by (subst (asm) sizes_ok.simps, auto split: if_splits)+
      have "12 \<le> int (unat n)" using ok(1) by (metis of_nat_le_iff of_nat_numeral)
      then have dec: "nat (count - uint n) < nat count" using fits False by (simp add: min_packet_size_def)
      obtain s' stop where r: "parse_message env m s = Some (s', stop)" using message_total [OF assms m] by blast
      note keep = message_keeps [OF r]
      have "sizes_ok (ps_buf s') (m + unat n) (count - uint n)"
        using sizes_ok_cong [OF same_message_from [OF keep] ok(2)] ok(1) by simp
      moreover have "int (m + unat n) + (count - uint n) + 8 \<le> int (length (ps_buf s'))"
        using less.prems(1) keep by (simp add: same_message_def)
      ultimately obtain s2 where "parse_loop env (m + unat n) (count - uint n) s' = Some (Done s2)" using less.hyps [OF dec] by blast
      then show ?thesis using r n fits by (subst parse_loop.simps) simp
    qed
  qed
qed

end

end
