(* ===== verification/Hello_Wire.thy ===== *)
theory Hello_Wire imports Wire Lq_Fpm Mantissa begin

text \<open>
  HELLO messages on the wire: the output buffer of an interface (\<open>net_olsr.c\<close>), the writing of a HELLO message with link qualities, which is
  cut into several messages when the buffer is full (\<open>lq_packet.c\<close>), and its reading (\<open>process_package.c\<close>). The metric is a
  parameter: its function that writes two qualities, and the one that reads them.
\<close>

section \<open>The output buffer\<close>

text \<open>The packets that were sent are recorded. No plugin has registered a function that transforms packets.\<close>

record netbuf =
  ob_pending :: "byte list"
  ob_maxsize :: nat
  ob_seqnum :: u16
  ob_sent :: "byte list list"

definition net_add_buffer :: "nat \<Rightarrow> netbuf" where
  "net_add_buffer mtu = \<lparr>ob_pending = [], ob_maxsize = mtu - 4, ob_seqnum = 0, ob_sent = []\<rparr>"

definition net_output_pending :: "netbuf \<Rightarrow> nat" where
  "net_output_pending ob = length (ob_pending ob)"

definition net_outbuffer_bytes_left :: "netbuf \<Rightarrow> int" where
  "net_outbuffer_bytes_left ob = int (ob_maxsize ob) - int (length (ob_pending ob))"

definition net_outbuffer_push :: "byte list \<Rightarrow> netbuf \<Rightarrow> netbuf \<times> nat" where
  "net_outbuffer_push data ob =
     (if length (ob_pending ob) + length data > ob_maxsize ob then (ob, 0)
      else (ob\<lparr>ob_pending := ob_pending ob @ data\<rparr>, length data))"

definition net_output :: "netbuf \<Rightarrow> netbuf" where
  "net_output ob =
     (if ob_pending ob = [] then ob
      else ob\<lparr>ob_pending := [], ob_seqnum := ob_seqnum ob + 1,
         ob_sent := ob_sent ob @ [pkt_put_u16 (of_nat (length (ob_pending ob) + 4)) @ pkt_put_u16 (ob_seqnum ob) @ ob_pending ob]\<rparr>)"

section \<open>Messages\<close>

definition hello_message_type :: byte where "hello_message_type = 1"
definition lq_hello_message_type :: byte where "lq_hello_message_type = 201"
definition max_neigh :: nat where "max_neigh = 2"
definition msg_buffer_size :: nat where "msg_buffer_size = 1496"

record olsr_common =
  oc_type :: byte
  oc_vtime :: ulong
  oc_size :: u16
  oc_orig :: ip_addr
  oc_ttl :: byte
  oc_hops :: byte

record 'q lq_hello_neighbor =
  ln_link_type :: byte
  ln_neigh_type :: byte
  ln_addr :: ip_addr
  ln_quality :: 'q

record 'q lq_hello_message =
  lh_comm :: olsr_common
  lh_htime :: ulong
  lh_will :: byte
  lh_neigh :: "'q lq_hello_neighbor list"

definition create_link_code :: "byte \<Rightarrow> byte \<Rightarrow> byte" where
  "create_link_code status link = link OR push_bit 2 status"

definition extract_status :: "byte \<Rightarrow> byte" where
  "extract_status code = drop_bit 2 (code AND 0xC)"

definition extract_link :: "byte \<Rightarrow> byte" where
  "extract_link code = code AND 3"

section \<open>Writing\<close>

text \<open>
  The message is built in the static buffer \<open>msg_buffer\<close>, behind the two headers. The state has the bytes behind the
  headers, the position of the last group header (\<open>None\<close> is the null pointer), the room left, and the global message counter.
\<close>

record hello_ser =
  hs_out :: netbuf
  hs_seqno :: u16
  hs_buff :: "byte list"
  hs_head :: "nat option"
  hs_rem :: int
  hs_first :: bool

definition serialize_common :: "olsr_common \<Rightarrow> u16 \<Rightarrow> byte list" where
  "serialize_common comm seqno =
     [oc_type comm, reltime_to_me (oc_vtime comm)] @ pkt_put_u16 (oc_size comm) @ pkt_put_ipaddress (oc_orig comm) @
     [oc_ttl comm, oc_hops comm] @ pkt_put_u16 seqno"

definition hello_off :: nat where "hello_off = 16"

definition lq_hello_header :: "'q lq_hello_message \<Rightarrow> byte list" where
  "lq_hello_header h = pkt_put_u16 0 @ [reltime_to_me (lh_htime h), lh_will h]"

text \<open>Appending to the buffer, which must not be left.\<close>

definition hello_put :: "byte list \<Rightarrow> hello_ser \<Rightarrow> hello_ser option" where
  "hello_put bs s =
     (if hello_off + length (hs_buff s) + length bs \<le> msg_buffer_size then Some (s\<lparr>hs_buff := hs_buff s @ bs\<rparr>) else None)"

definition finish_group :: "hello_ser \<Rightarrow> hello_ser option" where
  "finish_group s = do {
     i \<leftarrow> hs_head s;
     if i + 4 \<le> length (hs_buff s)
     then Some (s\<lparr>hs_buff := take (i + 2) (hs_buff s) @ pkt_put_u16 (of_nat (length (hs_buff s) - i)) @ drop (i + 4) (hs_buff s)\<rparr>)
     else None }"

definition hello_push :: "'q lq_hello_message \<Rightarrow> hello_ser \<Rightarrow> hello_ser" where
  "hello_push h s =
     (let comm = (lh_comm h)\<lparr>oc_size := of_nat (length (hs_buff s) + hello_off)\<rparr>
      in s\<lparr>hs_out := fst (net_outbuffer_push (serialize_common comm (hs_seqno s) @ lq_hello_header h @ hs_buff s) (hs_out s)),
           hs_seqno := hs_seqno s + 1\<rparr>)"

definition hello_flush :: "'q lq_hello_message \<Rightarrow> hello_ser \<Rightarrow> hello_ser option" where
  "hello_flush h s = do {
     s \<leftarrow> finish_group s;
     (let s = hello_push h s; out = net_output (hs_out s) in
      Some (s\<lparr>hs_out := out, hs_buff := [], hs_rem := net_outbuffer_bytes_left out - int hello_off, hs_first := True\<rparr>)) }"

text \<open>One neighbour of the group of neighbour type \<open>i\<close> and link type \<open>j\<close>.\<close>

definition hello_neigh ::
    "('q \<Rightarrow> byte list) \<Rightarrow> 'q lq_hello_message \<Rightarrow> byte \<Rightarrow> byte \<Rightarrow> 'q lq_hello_neighbor \<Rightarrow> hello_ser \<Rightarrow> hello_ser option" where
  "hello_neigh ser h i j neigh s =
     (if ln_neigh_type neigh \<noteq> i \<or> ln_link_type neigh \<noteq> j then Some s
      else
        let req = 4 + 4 + (if hs_first s then 4 else 0) in do {
          s \<leftarrow> (if int (length (hs_buff s) + req) > hs_rem s then hello_flush h s else Some s);
          s \<leftarrow> (if hs_first s
               then hello_put [create_link_code i j, 0, 0, 0] (s\<lparr>hs_head := Some (length (hs_buff s))\<rparr>)
               else Some s);
          s \<leftarrow> hello_put (pkt_put_ipaddress (ln_addr neigh)) s;
          s \<leftarrow> hello_put (ser (ln_quality neigh)) s;
          Some (s\<lparr>hs_first := False\<rparr>) })"

definition link_order :: "byte list" where "link_order = [2, 0, 1, 3]"

definition hello_group :: "('q \<Rightarrow> byte list) \<Rightarrow> 'q lq_hello_message \<Rightarrow> byte \<times> byte \<Rightarrow> hello_ser \<Rightarrow> hello_ser option" where
  "hello_group ser h = (\<lambda>(i, j) s. do {
     s \<leftarrow> iter (lh_neigh h) (hello_neigh ser h i j) (s\<lparr>hs_first := True\<rparr>);
     if \<not> hs_first s then finish_group s else Some s })"

definition hello_groups :: "(byte \<times> byte) list" where
  "hello_groups = concat (map (\<lambda>i. map (\<lambda>j. (of_nat i, j)) link_order) [0..<Suc max_neigh])"

text \<open>The room that the whole message needs, which is only computed if bytes wait in the output buffer.\<close>

definition hello_expected :: "'q lq_hello_neighbor list \<Rightarrow> int" where
  "hello_expected ns = int (length ns) * 8 +
     (\<Sum>(i, j) \<leftarrow> hello_groups. if \<exists>n \<in> set ns. ln_neigh_type n = i \<and> ln_link_type n = j then 4 else 0)"

definition serialize_lq_hello ::
    "('q \<Rightarrow> byte list) \<Rightarrow> 'q lq_hello_message \<Rightarrow> u16 \<Rightarrow> netbuf \<Rightarrow> (u16 \<times> netbuf) option" where
  "serialize_lq_hello ser h seqno out =
     (let rem = net_outbuffer_bytes_left out - int hello_off;
          expected_size = (if net_output_pending out > 0 then hello_expected (lh_neigh h) else 0);
          (out, rem) = (if rem < expected_size
             then let out = net_output out in (out, net_outbuffer_bytes_left out - int hello_off) else (out, rem))
      in do {
        s \<leftarrow> iter hello_groups (hello_group ser h)
          \<lparr>hs_out = out, hs_seqno = seqno, hs_buff = [], hs_head = None, hs_rem = rem, hs_first = True\<rparr>;
        (let s = hello_push h s in Some (hs_seqno s, hs_out s)) })"

section \<open>Reading\<close>

record 'q hello_nbr = hello_neighbor +
  hn_quality :: 'q

record 'q hello_message =
  hm_vtime :: ulong
  hm_htime :: ulong
  hm_source_addr :: ip_addr
  hm_packet_seq_number :: u16
  hm_hop_count :: byte
  hm_ttl :: byte
  hm_willingness :: byte
  hm_neighbors :: "'q hello_nbr list"

text \<open>
  The metric for reading: the quality of a new structure, the reading of two qualities, which consumes four bytes, and the cost. The
  functions for a plain HELLO message leave the quality and the cost as they are after the allocation.
\<close>

record 'q hello_metric =
  me_clear :: 'q
  me_deserialize :: "byte list \<Rightarrow> 'q \<Rightarrow> ('q \<times> byte list) option"
  me_cost :: "'q \<Rightarrow> ulong option"

definition read_neighbor :: "'q hello_metric \<Rightarrow> bool \<Rightarrow> byte \<Rightarrow> byte list \<Rightarrow> ('q hello_nbr \<times> byte list) option" where
  "read_neighbor M lq code p = do {
     (a, p) \<leftarrow> pkt_get_ipaddress p;
     (q, c, p) \<leftarrow> (if lq then do {
         (q, p) \<leftarrow> me_deserialize M p (me_clear M);
         c \<leftarrow> me_cost M q;
         Some (q, c, p) }
       else Some (me_clear M, 0, p));
     Some (\<lparr>hn_status = extract_status code, hn_link = extract_link code, hn_addr = a, hn_cost = c, hn_quality = q\<rparr>, p) }"

text \<open>The two loops; \<open>pos\<close> is the distance of the read pointer from the start of the message, and new neighbours go to the front of the list.\<close>

function read_group :: "'q hello_metric \<Rightarrow> bool \<Rightarrow> byte \<Rightarrow> nat \<Rightarrow> nat \<Rightarrow> byte list \<Rightarrow> 'q hello_nbr list \<Rightarrow>
    (nat \<times> byte list \<times> 'q hello_nbr list) option" where
  "read_group M lq code limit2 pos p ns =
     (if pos < limit2 then do {
        (n, p) \<leftarrow> read_neighbor M lq code p;
        read_group M lq code limit2 (pos + (if lq then 8 else 4)) p (n # ns) }
      else Some (pos, p, ns))"
  by pat_completeness auto
termination by (relation "measure (\<lambda>(M, lq, code, limit2, pos, p, ns). limit2 - pos)") auto

declare read_group.simps [simp del]

lemma read_group_pos: "read_group M lq code limit2 pos p ns = Some (pos', p', ns') \<Longrightarrow> pos \<le> pos'"
proof (induction M lq code limit2 pos p ns rule: read_group.induct)
  case (1 M lq code limit2 pos p ns)
  show ?case
  proof (cases "pos < limit2")
    case True
    then obtain n p1 where n: "read_neighbor M lq code p = Some (n, p1)" using 1(2)
      by (subst (asm) read_group.simps) (auto simp: bind_eq_Some_conv)
    then have "read_group M lq code limit2 (pos + (if lq then 8 else 4)) p1 (n # ns) = Some (pos', p', ns')"
      using 1(2) True by (subst (asm) read_group.simps) simp
    from 1(1) [OF True n refl this] show ?thesis by (simp split: if_splits)
  qed (use 1(2) in \<open>subst (asm) read_group.simps, simp\<close>)
qed

function read_groups :: "'q hello_metric \<Rightarrow> bool \<Rightarrow> nat \<Rightarrow> nat \<Rightarrow> byte list \<Rightarrow> 'q hello_nbr list \<Rightarrow> 'q hello_nbr list option" where
  "read_groups M lq limit pos p ns =
     (if pos < limit then do {
        (code, p1) \<leftarrow> pkt_get_u8 p;
        p2 \<leftarrow> pkt_ignore_u8 p1;
        (gsize, p3) \<leftarrow> pkt_get_u16 p2;
        (pos', p4, ns') \<leftarrow> read_group M lq code (pos + unat gsize) (pos + 4) p3 ns;
        read_groups M lq limit pos' p4 ns' }
      else Some ns)"
  by pat_completeness auto
termination
proof (relation "measure (\<lambda>(M, lq, limit, pos, p, ns). limit - pos)", goal_cases)
  case (2 M lq limit pos p ns x code p1 p2 y gsize p3 z pos' w p4 ns')
  then have "read_group M lq code (pos + unat gsize) (pos + 4) p3 ns = Some (pos', p4, ns')" by simp
  then have "pos + 4 \<le> pos'" by (rule read_group_pos)
  then show ?case using 2(1) by simp
qed simp

declare read_groups.simps [simp del]

text \<open>The result is the message, or \<open>None\<close> within if the message is no HELLO message.\<close>

definition deserialize_hello :: "'q hello_metric \<Rightarrow> byte list \<Rightarrow> 'q hello_message option option" where
  "deserialize_hello M ser = do {
     (type, p) \<leftarrow> pkt_get_u8 ser;
     if type \<noteq> hello_message_type \<and> type \<noteq> lq_hello_message_type then Some None
     else do {
       (vt, p) \<leftarrow> pkt_get_u8 p;
       (msize, p) \<leftarrow> pkt_get_u16 p;
       (src, p) \<leftarrow> pkt_get_ipaddress p;
       (ttl, p) \<leftarrow> pkt_get_u8 p;
       (hops, p) \<leftarrow> pkt_get_u8 p;
       (seqno, p) \<leftarrow> pkt_get_u16 p;
       p \<leftarrow> pkt_ignore_u16 p;
       (ht, p) \<leftarrow> pkt_get_u8 p;
       (will, p) \<leftarrow> pkt_get_u8 p;
       ns \<leftarrow> read_groups M (type = lq_hello_message_type) (unat msize) 16 p [];
       Some (Some \<lparr>hm_vtime = me_to_reltime vt, hm_htime = me_to_reltime ht, hm_source_addr = src, hm_packet_seq_number = seqno,
         hm_hop_count = hops, hm_ttl = ttl, hm_willingness = will, hm_neighbors = ns\<rparr>) } }"

end
