(* ===== verification/Hello_Ser.thy ===== *)
theory Hello_Ser imports Hello_Wire begin

text \<open>
  What the writer of HELLO messages produces: one or more messages, each a sequence of groups, which together hold every neighbour
  of a known type once, in the order of the groups. The invariant of the loops keeps the groups as ghost values.
\<close>

section \<open>The form of a message\<close>

type_synonym 'q hello_grp = "(byte \<times> byte) \<times> 'q lq_hello_neighbor list"

definition entry_bytes :: "('q \<Rightarrow> byte list) \<Rightarrow> 'q lq_hello_neighbor \<Rightarrow> byte list" where
  "entry_bytes ser n = pkt_put_ipaddress (ln_addr n) @ ser (ln_quality n)"

definition entries_bytes :: "('q \<Rightarrow> byte list) \<Rightarrow> 'q lq_hello_neighbor list \<Rightarrow> byte list" where
  "entries_bytes ser ns = concat (map (entry_bytes ser) ns)"

definition group_bytes :: "('q \<Rightarrow> byte list) \<Rightarrow> 'q hello_grp \<Rightarrow> byte list" where
  "group_bytes ser g = [create_link_code (fst (fst g)) (snd (fst g)), 0] @
     pkt_put_u16 (of_nat (4 + length (entries_bytes ser (snd g)))) @ entries_bytes ser (snd g)"

definition open_bytes :: "('q \<Rightarrow> byte list) \<Rightarrow> 'q hello_grp \<Rightarrow> byte list" where
  "open_bytes ser g = [create_link_code (fst (fst g)) (snd (fst g)), 0, 0, 0] @ entries_bytes ser (snd g)"

definition groups_bytes :: "('q \<Rightarrow> byte list) \<Rightarrow> 'q hello_grp list \<Rightarrow> byte list" where
  "groups_bytes ser gs = concat (map (group_bytes ser) gs)"

definition message_bytes :: "('q \<Rightarrow> byte list) \<Rightarrow> 'q lq_hello_message \<Rightarrow> u16 \<Rightarrow> 'q hello_grp list \<Rightarrow> byte list" where
  "message_bytes ser h seqno gs =
     serialize_common ((lh_comm h)\<lparr>oc_size := of_nat (length (groups_bytes ser gs) + hello_off)\<rparr>) seqno @
     lq_hello_header h @ groups_bytes ser gs"

text \<open>The messages of one HELLO, numbered from the message counter on.\<close>

fun numbered :: "('q \<Rightarrow> byte list) \<Rightarrow> 'q lq_hello_message \<Rightarrow> u16 \<Rightarrow> 'q hello_grp list list \<Rightarrow> byte list list" where
  "numbered ser h seqno [] = []"
| "numbered ser h seqno (gs # gss) = message_bytes ser h seqno gs # numbered ser h (seqno + 1) gss"

lemma numbered_snoc:
  "numbered ser h seqno (gss @ [gs]) = numbered ser h seqno gss @ [message_bytes ser h (seqno + of_nat (length gss)) gs]"
  by (induction gss arbitrary: seqno) (simp_all add: algebra_simps)

lemma length_serialize_common [simp]: "length (serialize_common comm seqno) = 12"
  by (simp add: serialize_common_def)

lemma length_lq_hello_header [simp]: "length (lq_hello_header h) = 4"
  by (simp add: lq_hello_header_def)

lemma length_message_bytes: "length (message_bytes ser h seqno gs) = hello_off + length (groups_bytes ser gs)"
  by (simp add: message_bytes_def hello_off_def)

lemma groups_bytes_simps [simp]:
  "groups_bytes ser [] = []" "groups_bytes ser (gs @ hs) = groups_bytes ser gs @ groups_bytes ser hs"
  "groups_bytes ser [g] = group_bytes ser g"
  by (simp_all add: groups_bytes_def)

lemma entries_bytes_simps [simp]:
  "entries_bytes ser [] = []" "entries_bytes ser (ns @ ms) = entries_bytes ser ns @ entries_bytes ser ms"
  "entries_bytes ser [n] = pkt_put_ipaddress (ln_addr n) @ ser (ln_quality n)"
  by (simp_all add: entries_bytes_def entry_bytes_def)

lemma length_open [simp]: "length (open_bytes ser g) = 4 + length (entries_bytes ser (snd g))"
  by (simp add: open_bytes_def)

lemma length_group [simp]: "length (group_bytes ser g) = 4 + length (entries_bytes ser (snd g))"
  by (simp add: group_bytes_def)

text \<open>The end of a group; a group that has been ended stays as it is.\<close>

lemma patch_group:
  assumes "length A = i" "length xy = 2"
  shows "take (i + 2) (A @ [c, 0] @ xy @ E) @ pkt_put_u16 (of_nat (length (A @ [c, 0] @ xy @ E) - i)) @ drop (i + 4) (A @ [c, 0] @ xy @ E) =
    A @ [c, 0] @ pkt_put_u16 (of_nat (4 + length E)) @ E"
proof -
  have "length (A @ [c, 0] @ xy @ E) - i = 4 + length E" using assms by simp
  moreover have "take (i + 2) (A @ [c, 0] @ xy @ E) = A @ [c, 0]" using assms by simp
  moreover have "drop (i + 4) (A @ [c, 0] @ xy @ E) = E" using assms by simp
  ultimately show ?thesis by (simp only: append.assoc)
qed

lemma finish_open:
  assumes "hs_buff s = groups_bytes ser gs @ open_bytes ser g" "hs_head s = Some (length (groups_bytes ser gs))"
  shows "finish_group s = Some (s\<lparr>hs_buff := groups_bytes ser (gs @ [g])\<rparr>)"
proof -
  have b: "hs_buff s = groups_bytes ser gs @ [create_link_code (fst (fst g)) (snd (fst g)), 0] @ [0, 0] @ entries_bytes ser (snd g)"
    using assms(1) by (simp add: open_bytes_def)
  show ?thesis
    unfolding finish_group_def assms(2) bind.bind_lunit b patch_group [OF refl, of "[0, 0]", simplified length_Cons list.size(3) One_nat_def]
    by (simp add: group_bytes_def)
qed

lemma finish_finished:
  assumes "hs_buff s = groups_bytes ser (gs @ [g])" "hs_head s = Some (length (groups_bytes ser gs))"
  shows "finish_group s = Some s"
proof -
  let ?xy = "pkt_put_u16 (of_nat (4 + length (entries_bytes ser (snd g))))"
  have b: "hs_buff s = groups_bytes ser gs @ [create_link_code (fst (fst g)) (snd (fst g)), 0] @ ?xy @ entries_bytes ser (snd g)"
    using assms(1) by (simp add: group_bytes_def)
  have "length ?xy = 2" by simp
  note patch = patch_group [OF refl this]
  have "finish_group s = Some (s\<lparr>hs_buff := hs_buff s\<rparr>)"
    unfolding finish_group_def assms(2) bind.bind_lunit b patch by simp
  then show ?thesis by simp
qed

section \<open>The output buffer as a sequence of messages\<close>

text \<open>\<open>ps\<close> are the messages of the packets that were sent, \<open>ws\<close> the messages that wait.\<close>

definition packet_of :: "byte list list \<Rightarrow> byte list \<Rightarrow> bool" where
  "packet_of ws p \<longleftrightarrow> (\<exists>n. p = pkt_put_u16 (of_nat (length (concat ws) + 4)) @ pkt_put_u16 n @ concat ws)"

definition ob_rep :: "netbuf \<Rightarrow> byte list list list \<Rightarrow> byte list list \<Rightarrow> bool" where
  "ob_rep ob ps ws \<longleftrightarrow> ob_pending ob = concat ws \<and> length (concat ws) \<le> ob_maxsize ob \<and>
     list_all2 packet_of ps (ob_sent ob) \<and> list_all (\<lambda>vs. length (concat vs) \<le> ob_maxsize ob) ps"

definition ob_msgs :: "netbuf \<Rightarrow> byte list list \<Rightarrow> bool" where
  "ob_msgs ob ws \<longleftrightarrow> (\<exists>ps vs. ob_rep ob ps vs \<and> concat ps @ vs = ws)"

lemma net_output_msgs:
  assumes "ob_msgs ob ws"
  shows "ob_msgs (net_output ob) ws" "ob_pending (net_output ob) = []" "ob_maxsize (net_output ob) = ob_maxsize ob"
proof -
  obtain ps vs where r: "ob_rep ob ps vs" "concat ps @ vs = ws" using assms by (auto simp: ob_msgs_def)
  show "ob_msgs (net_output ob) ws"
  proof (cases "ob_pending ob = []")
    case True
    then show ?thesis using assms by (simp add: net_output_def)
  next
    case False
    have "packet_of vs (pkt_put_u16 (of_nat (length (ob_pending ob) + 4)) @ pkt_put_u16 (ob_seqnum ob) @ ob_pending ob)"
      using r(1) by (auto simp: packet_of_def ob_rep_def)
    then have "ob_rep (net_output ob) (ps @ [vs]) []"
      using r(1) False by (auto simp: ob_rep_def net_output_def intro!: list_all2_appendI)
    then show ?thesis unfolding ob_msgs_def using r(2) by (intro exI [of _ "ps @ [vs]"] exI [of _ "[]"]) simp
  qed
qed (simp_all add: net_output_def)

lemma net_push_msgs:
  assumes "ob_msgs ob ws" "int (length w) \<le> net_outbuffer_bytes_left ob"
  shows "ob_msgs (fst (net_outbuffer_push w ob)) (ws @ [w])" "ob_maxsize (fst (net_outbuffer_push w ob)) = ob_maxsize ob"
proof -
  obtain ps vs where r: "ob_rep ob ps vs" "concat ps @ vs = ws" using assms(1) by (auto simp: ob_msgs_def)
  have fits: "length (ob_pending ob) + length w \<le> ob_maxsize ob" using assms(2) by (simp add: net_outbuffer_bytes_left_def)
  then have "ob_rep (fst (net_outbuffer_push w ob)) ps (vs @ [w])"
    using r(1) by (simp add: ob_rep_def net_outbuffer_push_def)
  then show "ob_msgs (fst (net_outbuffer_push w ob)) (ws @ [w])"
    unfolding ob_msgs_def using r(2) by (intro exI [of _ ps] exI [of _ "vs @ [w]"]) simp
  show "ob_maxsize (fst (net_outbuffer_push w ob)) = ob_maxsize ob" by (simp add: net_outbuffer_push_def)
qed

section \<open>The invariant of the loops\<close>

text \<open>
  \<open>gss\<close> are the groups of the messages that were pushed, \<open>gs\<close> the finished groups of the message under construction, \<open>opn\<close> its open
  group. The head points to the open group, and to the last finished group if there is none.
\<close>

definition ser_ok ::
    "('q \<Rightarrow> byte list) \<Rightarrow> 'q lq_hello_message \<Rightarrow> u16 \<Rightarrow> byte list list \<Rightarrow> nat \<Rightarrow>
     'q hello_grp list list \<Rightarrow> 'q hello_grp list \<Rightarrow> 'q hello_grp option \<Rightarrow> hello_ser \<Rightarrow> bool" where
  "ser_ok ser h seq0 ws0 mx gss gs opn s \<longleftrightarrow>
     ob_msgs (hs_out s) (ws0 @ numbered ser h seq0 gss) \<and> ob_maxsize (hs_out s) = mx \<and>
     hs_seqno s = seq0 + of_nat (length gss) \<and>
     hs_buff s = groups_bytes ser gs @ (case opn of None \<Rightarrow> [] | Some g \<Rightarrow> open_bytes ser g) \<and>
     hs_first s = (opn = None) \<and>
     (opn \<noteq> None \<longrightarrow> hs_head s = Some (length (groups_bytes ser gs))) \<and>
     (opn = None \<longrightarrow> gs \<noteq> [] \<longrightarrow> hs_head s = Some (length (groups_bytes ser (butlast gs)))) \<and>
     hs_rem s = net_outbuffer_bytes_left (hs_out s) - int hello_off \<and> int (length (hs_buff s)) \<le> hs_rem s"

definition all_groups :: "'q hello_grp list list \<Rightarrow> 'q hello_grp list \<Rightarrow> 'q hello_grp option \<Rightarrow> 'q hello_grp list" where
  "all_groups gss gs opn = concat gss @ gs @ (case opn of None \<Rightarrow> [] | Some g \<Rightarrow> [g])"

definition members :: "'q hello_grp list \<Rightarrow> 'q lq_hello_neighbor list" where
  "members gs = concat (map snd gs)"

definition grp_ok :: "'q hello_grp \<Rightarrow> bool" where
  "grp_ok g \<longleftrightarrow> fst g \<in> set hello_groups \<and> snd g \<noteq> [] \<and> list_all (\<lambda>n. (ln_neigh_type n, ln_link_type n) = fst g) (snd g)"

lemma members_simps [simp]: "members [] = []" "members (gs @ hs) = members gs @ members hs" "members [g] = snd g"
  by (simp_all add: members_def)

lemma ser_ok_first: "ser_ok ser h seq0 ws0 mx gss gs None s \<Longrightarrow> ser_ok ser h seq0 ws0 mx gss gs None (s\<lparr>hs_first := True\<rparr>)"
  by (auto simp: ser_ok_def)

lemma bytes_left_maxsize: "net_outbuffer_bytes_left ob \<le> int (ob_maxsize ob)"
  by (simp add: net_outbuffer_bytes_left_def)

lemma empty_bytes_left: "ob_pending ob = [] \<Longrightarrow> net_outbuffer_bytes_left ob = int (ob_maxsize ob)"
  by (simp add: net_outbuffer_bytes_left_def)

text \<open>Pushing the finished message.\<close>

lemma push_ok:
  assumes "ser_ok ser h seq0 ws0 mx gss gs None s"
  shows "ob_msgs (hs_out (hello_push h s)) (ws0 @ numbered ser h seq0 (gss @ [gs]))"
    "ob_maxsize (hs_out (hello_push h s)) = mx" "hs_seqno (hello_push h s) = seq0 + of_nat (length (gss @ [gs]))"
proof -
  let ?w = "message_bytes ser h (seq0 + of_nat (length gss)) gs"
  have s: "ob_msgs (hs_out s) (ws0 @ numbered ser h seq0 gss)" "ob_maxsize (hs_out s) = mx" "hs_buff s = groups_bytes ser gs"
    "hs_seqno s = seq0 + of_nat (length gss)" "int (length (hs_buff s)) \<le> net_outbuffer_bytes_left (hs_out s) - int hello_off"
    using assms by (auto simp: ser_ok_def)
  have "int (length ?w) \<le> net_outbuffer_bytes_left (hs_out s)" using s(3,5) by (simp add: length_message_bytes)
  note push = net_push_msgs [OF s(1) this]
  have out: "hs_out (hello_push h s) = fst (net_outbuffer_push ?w (hs_out s))"
    using s(3,4) by (simp add: hello_push_def Let_def message_bytes_def)
  show "ob_msgs (hs_out (hello_push h s)) (ws0 @ numbered ser h seq0 (gss @ [gs]))"
    unfolding out numbered_snoc using push(1) by simp
  show "ob_maxsize (hs_out (hello_push h s)) = mx" unfolding out push(2) by (rule s(2))
  show "hs_seqno (hello_push h s) = seq0 + of_nat (length (gss @ [gs]))"
    using s(4) by (simp add: hello_push_def Let_def algebra_simps)
qed

text \<open>Ending the open group.\<close>

lemma close_ok:
  assumes "ser_ok ser h seq0 ws0 mx gss gs (Some g) s"
  shows "\<exists>s'. finish_group s = Some s' \<and> ser_ok ser h seq0 ws0 mx gss (gs @ [g]) None (s'\<lparr>hs_first := True\<rparr>) \<and>
    hs_rem s' = hs_rem s"
  using assms finish_open [of s ser gs g] by (auto simp: ser_ok_def)

text \<open>A message that is full is pushed and sent, and a new one is begun.\<close>

lemma flush_ok:
  assumes "ser_ok ser h seq0 ws0 mx gss gs opn s" "gs \<noteq> [] \<or> opn \<noteq> None" "16 \<le> mx"
  shows "\<exists>s'. hello_flush h s = Some s' \<and> hs_rem s' = int mx - 16 \<and>
    ser_ok ser h seq0 ws0 mx (gss @ [gs @ (case opn of None \<Rightarrow> [] | Some g \<Rightarrow> [g])]) [] None s'"
proof -
  let ?gs = "gs @ (case opn of None \<Rightarrow> [] | Some g \<Rightarrow> [g])"
  obtain s1 where s1: "finish_group s = Some s1" "ser_ok ser h seq0 ws0 mx gss ?gs None (s1\<lparr>hs_first := True\<rparr>)"
  proof (cases opn)
    case None
    then obtain gs' g where g: "gs = gs' @ [g]" using assms(2) by (cases gs rule: rev_cases) auto
    have "finish_group s = Some s"
      using assms(1) None by (intro finish_finished [of s ser gs' g]) (simp_all add: ser_ok_def g)
    moreover have "ser_ok ser h seq0 ws0 mx gss ?gs None (s\<lparr>hs_first := True\<rparr>)" using assms(1) None by (auto simp: ser_ok_def)
    ultimately show thesis by (rule that)
  next
    case (Some g)
    then show thesis using close_ok [of ser h seq0 ws0 mx gss gs g s] assms(1) that by auto
  qed
  note push = push_ok [OF s1(2)]
  have eq: "hs_out (hello_push h (s1\<lparr>hs_first := True\<rparr>)) = hs_out (hello_push h s1)"
    "hs_seqno (hello_push h (s1\<lparr>hs_first := True\<rparr>)) = hs_seqno (hello_push h s1)"
    by (simp_all add: hello_push_def Let_def)
  define out where "out = net_output (hs_out (hello_push h s1))"
  have out: "ob_msgs out (ws0 @ numbered ser h seq0 (gss @ [?gs]))" "ob_pending out = []" "ob_maxsize out = mx"
    using net_output_msgs [OF push(1)] push(2) by (simp_all add: out_def eq)
  have "net_outbuffer_bytes_left out = int mx" using out(2,3) by (simp add: empty_bytes_left)
  then show ?thesis
    using s1(1) out push(3) assms(3) eq(2)
    by (auto simp: hello_flush_def Let_def out_def [symmetric] ser_ok_def hello_off_def)
qed

section \<open>The loops\<close>

definition opened :: "byte \<times> byte \<Rightarrow> 'q hello_grp option \<Rightarrow> 'q lq_hello_neighbor list \<Rightarrow> bool" where
  "opened k opn ns \<longleftrightarrow> (opn = None \<and> ns = []) \<or> opn = Some (k, ns)"

definition add_entry :: "('q \<Rightarrow> byte list) \<Rightarrow> byte \<Rightarrow> byte \<Rightarrow> 'q lq_hello_neighbor \<Rightarrow> hello_ser \<Rightarrow> hello_ser option" where
  "add_entry ser i j n s = do {
     s \<leftarrow> (if hs_first s
          then hello_put [create_link_code i j, 0, 0, 0] (s\<lparr>hs_head := Some (length (hs_buff s))\<rparr>)
          else Some s);
     s \<leftarrow> hello_put (pkt_put_ipaddress (ln_addr n)) s;
     s \<leftarrow> hello_put (ser (ln_quality n)) s;
     Some (s\<lparr>hs_first := False\<rparr>) }"

lemma add_entry_ok:
  assumes len: "\<And>q. length (ser q) = 4"
    and inv: "ser_ok ser h seq0 ws0 mx gss gs opn s" "opened (i, j) opn ns" "mx \<le> 1496"
    and room: "int (length (hs_buff s) + (4 + 4 + (if hs_first s then 4 else 0))) \<le> hs_rem s"
  shows "\<exists>s'. add_entry ser i j n s = Some s' \<and> hs_rem s' = hs_rem s \<and>
    ser_ok ser h seq0 ws0 mx gss gs (Some ((i, j), ns @ [n])) s'"
proof -
  have b: "net_outbuffer_bytes_left (hs_out s) \<le> 1496"
    using bytes_left_maxsize [of "hs_out s"] inv(1,3) by (auto simp: ser_ok_def)
  have fits: "hello_off + length (hs_buff s) + (4 + 4 + (if hs_first s then 4 else 0)) \<le> msg_buffer_size"
  proof -
    have "int (hello_off + length (hs_buff s) + (4 + 4 + (if hs_first s then 4 else 0))) \<le> 1496"
      using b room inv(1) by (auto simp: ser_ok_def)
    then show ?thesis by (simp add: msg_buffer_size_def)
  qed
  show ?thesis
  proof (cases opn)
    case None
    then have "ns = []" using inv(2) by (simp add: opened_def)
    then show ?thesis
      using None inv(1) fits room len by (auto simp: add_entry_def hello_put_def ser_ok_def open_bytes_def)
  next
    case (Some g)
    then have "g = ((i, j), ns)" using inv(2) by (simp add: opened_def)
    then show ?thesis
      using Some inv(1) fits room len by (auto simp: add_entry_def hello_put_def ser_ok_def open_bytes_def)
  qed
qed

lemma hello_neigh_eq:
  "hello_neigh ser h i j n s =
     (if ln_neigh_type n \<noteq> i \<or> ln_link_type n \<noteq> j then Some s
      else Option.bind (if int (length (hs_buff s) + (4 + 4 + (if hs_first s then 4 else 0))) > hs_rem s then hello_flush h s else Some s)
        (add_entry ser i j n))"
  unfolding hello_neigh_def add_entry_def [abs_def] Let_def ..

lemma neigh_ok:
  assumes len: "\<And>q. length (ser q) = 4"
    and inv: "ser_ok ser h seq0 ws0 mx gss gs opn s" "opened (i, j) opn ns"
    and mx: "28 \<le> mx" "mx \<le> 1496" and rem: "12 \<le> hs_rem s"
    and n: "ln_neigh_type n = i" "ln_link_type n = j" "(i, j) \<in> set hello_groups"
    and ok: "list_all grp_ok (all_groups gss gs opn)"
  shows "\<exists>s' gss' gs' ns'. hello_neigh ser h i j n s = Some s' \<and> 12 \<le> hs_rem s' \<and>
    ser_ok ser h seq0 ws0 mx gss' gs' (Some ((i, j), ns')) s' \<and>
    list_all grp_ok (all_groups gss' gs' (Some ((i, j), ns'))) \<and>
    members (all_groups gss' gs' (Some ((i, j), ns'))) = members (all_groups gss gs opn) @ [n]"
proof (cases "int (length (hs_buff s) + (4 + 4 + (if hs_first s then 4 else 0))) > hs_rem s")
  case False
  then obtain s' where s': "add_entry ser i j n s = Some s'" "hs_rem s' = hs_rem s"
    "ser_ok ser h seq0 ws0 mx gss gs (Some ((i, j), ns @ [n])) s'"
    using add_entry_ok [OF len inv mx(2)] by fastforce
  have "list_all grp_ok (all_groups gss gs (Some ((i, j), ns @ [n])))"
    "members (all_groups gss gs (Some ((i, j), ns @ [n]))) = members (all_groups gss gs opn) @ [n]"
    using ok inv(2) n by (auto simp: all_groups_def opened_def grp_ok_def)
  then show ?thesis using s' False n rem
    by (intro exI [of _ s'] exI [of _ gss] exI [of _ gs] exI [of _ "ns @ [n]"]) (simp add: hello_neigh_eq)
next
  case True
  have "gs \<noteq> [] \<or> opn \<noteq> None"
  proof (rule ccontr)
    assume "\<not> (gs \<noteq> [] \<or> opn \<noteq> None)"
    then have "gs = []" "opn = None" by blast+
    then have "hs_buff s = []" using inv(1) by (simp add: ser_ok_def)
    then show False using True rem by (simp split: if_splits)
  qed
  from flush_ok [OF inv(1) this] mx obtain s1 where s1: "hello_flush h s = Some s1" "hs_rem s1 = int mx - 16"
    "ser_ok ser h seq0 ws0 mx (gss @ [gs @ (case opn of None \<Rightarrow> [] | Some g \<Rightarrow> [g])]) [] None s1" by auto
  have "hs_buff s1 = []" "hs_first s1" using s1(3) by (simp_all add: ser_ok_def)
  then have "int (length (hs_buff s1) + (4 + 4 + (if hs_first s1 then 4 else 0))) \<le> hs_rem s1" using s1(2) mx by simp
  from add_entry_ok [OF len s1(3) _ mx(2) this, of i j "[]" n] obtain s' where s': "add_entry ser i j n s1 = Some s'"
    "hs_rem s' = hs_rem s1" "ser_ok ser h seq0 ws0 mx (gss @ [gs @ (case opn of None \<Rightarrow> [] | Some g \<Rightarrow> [g])]) [] (Some ((i, j), [n])) s'"
    by (auto simp: opened_def)
  have "list_all grp_ok (all_groups (gss @ [gs @ (case opn of None \<Rightarrow> [] | Some g \<Rightarrow> [g])]) [] (Some ((i, j), [n])))"
    "members (all_groups (gss @ [gs @ (case opn of None \<Rightarrow> [] | Some g \<Rightarrow> [g])]) [] (Some ((i, j), [n]))) =
      members (all_groups gss gs opn) @ [n]"
    using ok n by (auto simp: all_groups_def grp_ok_def)
  then show ?thesis using s' s1 True n mx
    by (intro exI [of _ s'] exI [of _ "gss @ [gs @ (case opn of None \<Rightarrow> [] | Some g \<Rightarrow> [g])]"] exI [of _ "[]"] exI [of _ "[n]"])
      (simp add: hello_neigh_eq)
qed

text \<open>All neighbours of one group.\<close>

lemma neighs_ok:
  assumes len: "\<And>q. length (ser q) = 4"
    and mx: "28 \<le> mx" "mx \<le> 1496" and ij: "(i, j) \<in> set hello_groups"
    and inv: "ser_ok ser h seq0 ws0 mx gss gs opn s" "opened (i, j) opn ns0"
    and rem: "(\<exists>n \<in> set ns. (ln_neigh_type n, ln_link_type n) = (i, j)) \<Longrightarrow> 12 \<le> hs_rem s"
    and ok: "list_all grp_ok (all_groups gss gs opn)"
  shows "\<exists>s' gss' gs' opn' ns'. iter ns (hello_neigh ser h i j) s = Some s' \<and> (hs_rem s = hs_rem s' \<or> 12 \<le> hs_rem s') \<and>
    ser_ok ser h seq0 ws0 mx gss' gs' opn' s' \<and> opened (i, j) opn' ns' \<and>
    list_all grp_ok (all_groups gss' gs' opn') \<and>
    members (all_groups gss' gs' opn') = members (all_groups gss gs opn) @ filter (\<lambda>n. (ln_neigh_type n, ln_link_type n) = (i, j)) ns"
  using inv rem ok
proof (induction ns arbitrary: s gss gs opn ns0)
  case Nil
  then show ?case
    by (intro exI [of _ s] exI [of _ gss] exI [of _ gs] exI [of _ opn] exI [of _ ns0]) simp
next
  case (Cons n ns)
  show ?case
  proof (cases "(ln_neigh_type n, ln_link_type n) = (i, j)")
    case False
    then have "hello_neigh ser h i j n s = Some s" by (auto simp: hello_neigh_def)
    moreover have f: "filter (\<lambda>n. (ln_neigh_type n, ln_link_type n) = (i, j)) (n # ns) =
        filter (\<lambda>n. (ln_neigh_type n, ln_link_type n) = (i, j)) ns" using False by simp
    ultimately show ?thesis
      unfolding f using Cons.IH [OF Cons.prems(1,2) _ Cons.prems(4)] Cons.prems(3) False by simp
  next
    case True
    then have "12 \<le> hs_rem s" using Cons.prems(3) by simp
    from neigh_ok [OF len Cons.prems(1,2) mx this _ _ ij Cons.prems(4), of n] True obtain s1 gss1 gs1 ns1 where
      s1: "hello_neigh ser h i j n s = Some s1" "12 \<le> hs_rem s1" "ser_ok ser h seq0 ws0 mx gss1 gs1 (Some ((i, j), ns1)) s1"
        "list_all grp_ok (all_groups gss1 gs1 (Some ((i, j), ns1)))"
        "members (all_groups gss1 gs1 (Some ((i, j), ns1))) = members (all_groups gss gs opn) @ [n]" by auto
    have "opened (i, j) (Some ((i, j), ns1)) ns1" by (simp add: opened_def)
    from Cons.IH [OF s1(3) this s1(2) s1(4)] obtain s' gss' gs' opn' ns' where
      s': "iter ns (hello_neigh ser h i j) s1 = Some s'" "hs_rem s1 = hs_rem s' \<or> 12 \<le> hs_rem s'"
        "ser_ok ser h seq0 ws0 mx gss' gs' opn' s'" "opened (i, j) opn' ns'" "list_all grp_ok (all_groups gss' gs' opn')"
        "members (all_groups gss' gs' opn') = members (all_groups gss1 gs1 (Some ((i, j), ns1))) @
           filter (\<lambda>n. (ln_neigh_type n, ln_link_type n) = (i, j)) ns" by blast
    have "12 \<le> hs_rem s'" using s'(2) s1(2) by auto
    then show ?thesis using s1 s' True
      by (intro exI [of _ s'] exI [of _ gss'] exI [of _ gs'] exI [of _ opn'] exI [of _ ns']) simp
  qed
qed

lemma group_ok:
  assumes len: "\<And>q. length (ser q) = 4"
    and mx: "28 \<le> mx" "mx \<le> 1496" and ij: "(i, j) \<in> set hello_groups"
    and inv: "ser_ok ser h seq0 ws0 mx gss gs None s"
    and rem: "(\<exists>n \<in> set (lh_neigh h). (ln_neigh_type n, ln_link_type n) \<in> set hello_groups) \<Longrightarrow> 12 \<le> hs_rem s"
    and ok: "list_all grp_ok (concat gss @ gs)"
  shows "\<exists>s' gss' gs'. hello_group ser h (i, j) s = Some s' \<and> (hs_rem s = hs_rem s' \<or> 12 \<le> hs_rem s') \<and>
    ser_ok ser h seq0 ws0 mx gss' gs' None (s'\<lparr>hs_first := True\<rparr>) \<and> list_all grp_ok (concat gss' @ gs') \<and>
    members (concat gss' @ gs') = members (concat gss @ gs) @ filter (\<lambda>n. (ln_neigh_type n, ln_link_type n) = (i, j)) (lh_neigh h)"
proof -
  have inv': "ser_ok ser h seq0 ws0 mx gss gs None (s\<lparr>hs_first := True\<rparr>)" using inv by (auto simp: ser_ok_def)
  have rem': "12 \<le> hs_rem (s\<lparr>hs_first := True\<rparr>)" if "\<exists>n \<in> set (lh_neigh h). (ln_neigh_type n, ln_link_type n) = (i, j)"
    using that rem ij by auto
  have o: "opened (i, j) None []" by (simp add: opened_def)
  have ok': "list_all grp_ok (all_groups gss gs None)" using ok by (simp add: all_groups_def)
  from neighs_ok [where ns = "lh_neigh h", OF len mx ij inv' o rem' ok'] obtain s1 gss' gs1 opn' ns' where
    s1: "iter (lh_neigh h) (hello_neigh ser h i j) (s\<lparr>hs_first := True\<rparr>) = Some s1" "hs_rem s = hs_rem s1 \<or> 12 \<le> hs_rem s1"
      "ser_ok ser h seq0 ws0 mx gss' gs1 opn' s1" "list_all grp_ok (all_groups gss' gs1 opn')"
      "members (all_groups gss' gs1 opn') = members (all_groups gss gs None) @ filter (\<lambda>n. (ln_neigh_type n, ln_link_type n) = (i, j)) (lh_neigh h)"
    by auto
  show ?thesis
  proof (cases opn')
    case None
    then have "hs_first s1" using s1(3) by (simp add: ser_ok_def)
    then show ?thesis using s1 None
      by (intro exI [of _ s1] exI [of _ gss'] exI [of _ gs1]) (simp add: hello_group_def all_groups_def ser_ok_first)
  next
    case (Some g)
    then have f: "\<not> hs_first s1" using s1(3) by (simp add: ser_ok_def)
    obtain s2 where s2: "finish_group s1 = Some s2" "ser_ok ser h seq0 ws0 mx gss' (gs1 @ [g]) None (s2\<lparr>hs_first := True\<rparr>)"
      "hs_rem s2 = hs_rem s1" using close_ok [of ser h seq0 ws0 mx gss' gs1 g s1] s1(3) Some by auto
    then show ?thesis using s1 Some f
      by (intro exI [of _ s2] exI [of _ gss'] exI [of _ "gs1 @ [g]"]) (simp add: hello_group_def all_groups_def)
  qed
qed

section \<open>A whole message\<close>

definition in_order :: "'q lq_hello_neighbor list \<Rightarrow> 'q lq_hello_neighbor list" where
  "in_order ns = concat (map (\<lambda>k. filter (\<lambda>n. (ln_neigh_type n, ln_link_type n) = k) ns) hello_groups)"

definition some_grouped :: "'q lq_hello_neighbor list \<Rightarrow> bool" where
  "some_grouped ns \<longleftrightarrow> (\<exists>n \<in> set ns. (ln_neigh_type n, ln_link_type n) \<in> set hello_groups)"

lemma groups_ok:
  assumes len: "\<And>q. length (ser q) = 4"
    and mx: "28 \<le> mx" "mx \<le> 1496" and ks: "set ks \<subseteq> set hello_groups"
    and inv: "ser_ok ser h seq0 ws0 mx gss gs None (s\<lparr>hs_first := True\<rparr>)"
    and rem: "some_grouped (lh_neigh h) \<Longrightarrow> 12 \<le> hs_rem s"
    and ok: "list_all grp_ok (concat gss @ gs)"
  shows "\<exists>s' gss' gs'. iter ks (hello_group ser h) s = Some s' \<and>
    ser_ok ser h seq0 ws0 mx gss' gs' None (s'\<lparr>hs_first := True\<rparr>) \<and> list_all grp_ok (concat gss' @ gs') \<and>
    members (concat gss' @ gs') = members (concat gss @ gs) @
      concat (map (\<lambda>k. filter (\<lambda>n. (ln_neigh_type n, ln_link_type n) = k) (lh_neigh h)) ks)"
  using ks inv rem ok
proof (induction ks arbitrary: s gss gs)
  case Nil
  then show ?case by (intro exI [of _ s] exI [of _ gss] exI [of _ gs]) simp
next
  case (Cons k ks)
  obtain i j where k: "k = (i, j)" by (cases k)
  have ij: "(i, j) \<in> set hello_groups" using Cons.prems(1) k by simp
  have rem1: "12 \<le> hs_rem (s\<lparr>hs_first := True\<rparr>)"
    if "\<exists>n \<in> set (lh_neigh h). (ln_neigh_type n, ln_link_type n) \<in> set hello_groups"
    using Cons.prems(3) that by (simp add: some_grouped_def)
  have "hello_group ser h (i, j) (s\<lparr>hs_first := True\<rparr>) = hello_group ser h (i, j) s" by (simp add: hello_group_def)
  with group_ok [OF len mx ij Cons.prems(2) rem1 Cons.prems(4)] obtain s1 gss1 gs1 where
    s1: "hello_group ser h (i, j) s = Some s1" "hs_rem s = hs_rem s1 \<or> 12 \<le> hs_rem s1"
      "ser_ok ser h seq0 ws0 mx gss1 gs1 None (s1\<lparr>hs_first := True\<rparr>)" "list_all grp_ok (concat gss1 @ gs1)"
      "members (concat gss1 @ gs1) = members (concat gss @ gs) @ filter (\<lambda>n. (ln_neigh_type n, ln_link_type n) = (i, j)) (lh_neigh h)"
    by auto
  have rem2: "some_grouped (lh_neigh h) \<Longrightarrow> 12 \<le> hs_rem s1" using s1(2) Cons.prems(3) by auto
  have "set ks \<subseteq> set hello_groups" using Cons.prems(1) by simp
  from Cons.IH [OF this s1(3) rem2 s1(4)] obtain s' gss' gs' where
    s': "iter ks (hello_group ser h) s1 = Some s'" "ser_ok ser h seq0 ws0 mx gss' gs' None (s'\<lparr>hs_first := True\<rparr>)"
      "list_all grp_ok (concat gss' @ gs')" "members (concat gss' @ gs') = members (concat gss1 @ gs1) @
        concat (map (\<lambda>k. filter (\<lambda>n. (ln_neigh_type n, ln_link_type n) = k) (lh_neigh h)) ks)" by blast
  show ?case using s' s1(1,5) k by (intro exI [of _ s'] exI [of _ gss'] exI [of _ gs']) simp
qed

lemma sum_list_nonneg_map: "(\<And>k. (0 :: int) \<le> f k) \<Longrightarrow> 0 \<le> sum_list (map f ks)"
  by (induction ks) simp_all

lemma sum_list_member: "(\<And>k. (0 :: int) \<le> f k) \<Longrightarrow> k \<in> set ks \<Longrightarrow> f k \<le> sum_list (map f ks)"
  using sum_list_nonneg_map [of f] by (induction ks) (auto intro: add_increasing2 add_increasing)

lemma expected_nonneg: "0 \<le> hello_expected ns"
  unfolding hello_expected_def by (intro add_nonneg_nonneg sum_list_nonneg_map) auto

lemma expected_grouped:
  assumes "some_grouped ns"
  shows "12 \<le> hello_expected ns"
proof -
  obtain n where n: "n \<in> set ns" "(ln_neigh_type n, ln_link_type n) \<in> set hello_groups" using assms by (auto simp: some_grouped_def)
  let ?f = "\<lambda>(i, j). if \<exists>n \<in> set ns. ln_neigh_type n = i \<and> ln_link_type n = j then 4 else (0 :: int)"
  have "?f (ln_neigh_type n, ln_link_type n) \<le> (\<Sum>k \<leftarrow> hello_groups. ?f k)" using n(2) by (intro sum_list_member) auto
  moreover have "?f (ln_neigh_type n, ln_link_type n) = 4" using n(1) by auto
  moreover have "1 \<le> int (length ns)" using n(1) by (cases ns) auto
  ultimately show ?thesis by (simp add: hello_expected_def)
qed

lemma serialize_ok:
  assumes len: "\<And>q. length (ser q) = 4"
    and ob: "ob_msgs ob ws" and mx: "28 \<le> ob_maxsize ob" "ob_maxsize ob \<le> 1496"
  shows "\<exists>seqno' ob' gss. serialize_lq_hello ser h seqno ob = Some (seqno', ob') \<and>
    seqno' = seqno + of_nat (length gss) \<and> ob_maxsize ob' = ob_maxsize ob \<and>
    ob_msgs ob' (ws @ numbered ser h seqno gss) \<and> list_all grp_ok (concat gss) \<and> members (concat gss) = in_order (lh_neigh h)"
proof -
  let ?left = "net_outbuffer_bytes_left ob - int hello_off"
  define ex where "ex = (if net_output_pending ob > 0 then hello_expected (lh_neigh h) else 0)"
  define ob1 where "ob1 = (if ?left < ex then net_output ob else ob)"
  define s0 where "s0 = \<lparr>hs_out = ob1, hs_seqno = seqno, hs_buff = [], hs_head = None,
      hs_rem = net_outbuffer_bytes_left ob1 - int hello_off, hs_first = True\<rparr>"
  have ob1: "ob_msgs ob1 ws" "ob_maxsize ob1 = ob_maxsize ob"
    using ob net_output_msgs [OF ob] by (simp_all add: ob1_def)
  have rem: "0 \<le> hs_rem s0 \<and> (some_grouped (lh_neigh h) \<longrightarrow> 12 \<le> hs_rem s0)"
  proof (cases "?left < ex \<or> net_output_pending ob = 0")
    case True
    then have "ob_pending ob1 = []"
      using net_output_msgs(2) [OF ob] by (auto simp: ob1_def net_output_pending_def)
    then show ?thesis using mx ob1(2) by (simp add: s0_def empty_bytes_left hello_off_def)
  next
    case False
    then show ?thesis
      using expected_nonneg [of "lh_neigh h"] expected_grouped [of "lh_neigh h"] by (auto simp: s0_def ob1_def ex_def)
  qed
  have start: "ser_ok ser h seqno ws (ob_maxsize ob) [] [] None (s0\<lparr>hs_first := True\<rparr>)"
    using ob1 rem by (simp add: ser_ok_def s0_def)
  from groups_ok [OF len mx subset_refl start] rem obtain s gss gs where
    s: "iter hello_groups (hello_group ser h) s0 = Some s" "ser_ok ser h seqno ws (ob_maxsize ob) gss gs None (s\<lparr>hs_first := True\<rparr>)"
      "list_all grp_ok (concat gss @ gs)" "members (concat gss @ gs) = in_order (lh_neigh h)"
    by (auto simp: in_order_def)
  note push = push_ok [OF s(2)]
  have eq: "hs_out (hello_push h (s\<lparr>hs_first := True\<rparr>)) = hs_out (hello_push h s)"
    "hs_seqno (hello_push h (s\<lparr>hs_first := True\<rparr>)) = hs_seqno (hello_push h s)"
    by (simp_all add: hello_push_def Let_def)
  have run: "serialize_lq_hello ser h seqno ob = Some (hs_seqno (hello_push h s), hs_out (hello_push h s))"
    using s(1) by (simp add: serialize_lq_hello_def Let_def ex_def [symmetric] s0_def ob1_def split: if_splits)
  show ?thesis
    unfolding run using push s(3,4) eq
    by (intro exI [of _ "hs_seqno (hello_push h s)"] exI [of _ "hs_out (hello_push h s)"] exI [of _ "gss @ [gs]"]) simp
qed

end
