(* ===== verification/Hello_Read.thy ===== *)
theory Hello_Read imports Hello_Ser Lq_Ff_Facts "HOL-Library.Multiset" begin

text \<open>
  Reading what the writer of HELLO messages produces: every message is read without an access past its end, and gives back the
  neighbours of its groups, with the qualities and the cost that the metric computes from them.
\<close>

section \<open>Codes of groups\<close>

lemma hello_groups_eq:
  "hello_groups = [(0, 2), (0, 0), (0, 1), (0, 3), (1, 2), (1, 0), (1, 1), (1, 3), (2, 2), (2, 0), (2, 1), (2, 3)]"
  by (simp add: hello_groups_def link_order_def max_neigh_def upt_conv_Cons)

lemma link_codes:
  assumes "(i, j) \<in> set hello_groups"
  shows "extract_status (create_link_code i j) = i" "extract_link (create_link_code i j) = j"
  using assms by (auto simp: hello_groups_eq create_link_code_def extract_status_def extract_link_def)

lemma distinct_hello_groups: "distinct hello_groups"
  by (simp add: hello_groups_eq)

lemma mset_filter_keys:
  "distinct ks \<Longrightarrow> mset (concat (map (\<lambda>k. filter (\<lambda>n. f n = k) ns) ks)) = mset (filter (\<lambda>n. f n \<in> set ks) ns)"
proof (induction ks)
  case (Cons k ks)
  have "mset (filter (\<lambda>n. f n = k \<or> f n \<in> set ks) ns) = mset (filter (\<lambda>n. f n = k) ns) + mset (filter (\<lambda>n. f n \<in> set ks) ns)"
    using Cons.prems by (induction ns) auto
  then show ?case using Cons by simp
qed simp

lemma mset_in_order:
  "mset (in_order ns) = mset (filter (\<lambda>n. (ln_neigh_type n, ln_link_type n) \<in> set hello_groups) ns)"
  unfolding in_order_def by (rule mset_filter_keys [OF distinct_hello_groups])

section \<open>Reading\<close>

definition received_quality :: "('q \<Rightarrow> byte list) \<Rightarrow> 'q hello_metric \<Rightarrow> 'q \<Rightarrow> 'q" where
  "received_quality ser M q = (case me_deserialize M (ser q) (me_clear M) of Some (q', _) \<Rightarrow> q' | None \<Rightarrow> me_clear M)"

definition received_nbr :: "('q \<Rightarrow> byte list) \<Rightarrow> 'q hello_metric \<Rightarrow> 'q lq_hello_neighbor \<Rightarrow> 'q hello_nbr" where
  "received_nbr ser M n = \<lparr>hn_status = ln_neigh_type n, hn_link = ln_link_type n, hn_addr = ln_addr n,
     hn_cost = (case me_cost M (ln_quality n) of Some c \<Rightarrow> c | None \<Rightarrow> 0), hn_quality = received_quality ser M (ln_quality n)\<rparr>"

definition header_fields_of :: "'q lq_hello_message \<Rightarrow> u16 \<Rightarrow> 'q hello_nbr list \<Rightarrow> 'q hello_message" where
  "header_fields_of h seqno ns = \<lparr>hm_vtime = me_to_reltime (reltime_to_me (oc_vtime (lh_comm h))),
     hm_htime = me_to_reltime (reltime_to_me (lh_htime h)), hm_source_addr = oc_orig (lh_comm h), hm_packet_seq_number = seqno,
     hm_hop_count = oc_hops (lh_comm h), hm_ttl = oc_ttl (lh_comm h), hm_willingness = lh_will h, hm_neighbors = ns\<rparr>"

context lq_handler
begin

lemma deserialize_received:
  assumes "M = \<lparr>me_clear = q0, me_deserialize = deserialize, me_cost = calc_cost\<rparr>"
  shows "deserialize (serialize q @ p) q0 = Some (received_quality serialize M q, p)"
    "qualities (received_quality serialize M q) = qualities q"
    "calc_cost (received_quality serialize M q) = Some (the (calc_cost q))" "calc_cost q = Some (the (calc_cost q))"
proof -
  obtain q' c where q': "\<And>p. deserialize (serialize q @ p) q0 = Some (q', p)" "qualities q' = qualities q"
    "calc_cost q' = Some c" "calc_cost q = Some c" using received_cost by metis
  from q'(1) [of "[]"] have "received_quality serialize M q = q'" by (simp add: received_quality_def assms)
  then show "deserialize (serialize q @ p) q0 = Some (received_quality serialize M q, p)"
    "qualities (received_quality serialize M q) = qualities q"
    "calc_cost (received_quality serialize M q) = Some (the (calc_cost q))" "calc_cost q = Some (the (calc_cost q))"
    using q' by simp_all
qed

lemma read_entry:
  assumes "M = \<lparr>me_clear = q0, me_deserialize = deserialize, me_cost = calc_cost\<rparr>"
    and "(i, j) \<in> set hello_groups" "(ln_neigh_type n, ln_link_type n) = (i, j)"
  shows "read_neighbor M True (create_link_code i j) (entry_bytes serialize n @ p) = Some (received_nbr serialize M n, p)"
proof -
  obtain c where "calc_cost (ln_quality n) = Some c" using cost_returns by blast
  then show ?thesis
    using deserialize_received [OF assms(1), of "ln_quality n"] link_codes [OF assms(2)] assms(1,3)
    by (simp add: read_neighbor_def entry_bytes_def received_nbr_def)
qed

lemma length_entries: "length (entries_bytes serialize ns) = 8 * length ns"
  by (induction ns) (simp_all add: entries_bytes_def entry_bytes_def serialize_size)

lemma read_entries:
  assumes M: "M = \<lparr>me_clear = q0, me_deserialize = deserialize, me_cost = calc_cost\<rparr>" and k: "(i, j) \<in> set hello_groups"
  shows "list_all (\<lambda>n. (ln_neigh_type n, ln_link_type n) = (i, j)) ns \<Longrightarrow>
    read_group M True (create_link_code i j) (pos + 8 * length ns) pos (entries_bytes serialize ns @ p) acc =
      Some (pos + 8 * length ns, p, rev (map (received_nbr serialize M) ns) @ acc)"
proof (induction ns arbitrary: pos acc)
  case Nil
  then show ?case by (subst read_group.simps) simp
next
  case (Cons n ns)
  have "read_neighbor M True (create_link_code i j) (entry_bytes serialize n @ entries_bytes serialize ns @ p) =
      Some (received_nbr serialize M n, entries_bytes serialize ns @ p)"
    using Cons.prems by (intro read_entry [OF M k]) simp
  moreover have "read_group M True (create_link_code i j) (pos + 8 + 8 * length ns) (pos + 8) (entries_bytes serialize ns @ p)
      (received_nbr serialize M n # acc) =
      Some (pos + 8 + 8 * length ns, p, rev (map (received_nbr serialize M) ns) @ received_nbr serialize M n # acc)"
    using Cons.prems by (intro Cons.IH) simp
  ultimately show ?case
    by (subst read_group.simps) (simp add: entries_bytes_def add.assoc)
qed

lemma read_all_groups:
  assumes M: "M = \<lparr>me_clear = q0, me_deserialize = deserialize, me_cost = calc_cost\<rparr>"
  shows "list_all grp_ok gs \<Longrightarrow> length (groups_bytes serialize gs) < 65536 \<Longrightarrow>
    read_groups M True (pos + length (groups_bytes serialize gs)) pos (groups_bytes serialize gs @ p) acc =
      Some (rev (map (received_nbr serialize M) (members gs)) @ acc)"
proof (induction gs arbitrary: pos acc)
  case Nil
  then show ?case by (subst read_groups.simps) simp
next
  case (Cons g gs)
  obtain k ns where "g = (k, ns)" by (cases g)
  moreover obtain i j where "k = (i, j)" by (cases k)
  ultimately have g: "g = ((i, j), ns)" by simp
  have ok: "(i, j) \<in> set hello_groups" "list_all (\<lambda>n. (ln_neigh_type n, ln_link_type n) = (i, j)) ns"
    using Cons.prems(1) by (simp_all add: g grp_ok_def)
  let ?len = "4 + 8 * length ns"
  have bytes: "groups_bytes serialize (g # gs) = [create_link_code i j, 0] @ pkt_put_u16 (of_nat ?len) @
      entries_bytes serialize ns @ groups_bytes serialize gs"
    by (simp add: groups_bytes_def group_bytes_def g length_entries)
  have total: "length (groups_bytes serialize (g # gs)) = ?len + length (groups_bytes serialize gs)"
    by (simp add: bytes length_entries)
  then have "?len < 65536" using Cons.prems(2) by linarith
  then have u: "unat (of_nat ?len :: u16) = ?len" by (rule unat_u16)
  have entries: "read_group M True (create_link_code i j) (pos + ?len) (pos + 4)
      (entries_bytes serialize ns @ groups_bytes serialize gs @ p) acc =
      Some (pos + ?len, groups_bytes serialize gs @ p, rev (map (received_nbr serialize M) ns) @ acc)"
    using read_entries [OF M ok, of "pos + 4" "groups_bytes serialize gs @ p" acc] by (simp add: add.assoc)
  have rest: "read_groups M True (pos + ?len + length (groups_bytes serialize gs)) (pos + ?len) (groups_bytes serialize gs @ p)
      (rev (map (received_nbr serialize M) ns) @ acc) =
      Some (rev (map (received_nbr serialize M) (members gs)) @ rev (map (received_nbr serialize M) ns) @ acc)"
    using Cons.prems total by (intro Cons.IH) simp_all
  have mem: "members (g # gs) = ns @ members gs" by (simp add: members_def g)
  have hd: "pkt_get_u8 ([create_link_code i j, 0] @ q) = Some (create_link_code i j, 0 # q)" "pkt_ignore_u8 (0 # q) = Some q" for q
    by (simp_all add: pkt_get_u8_def pkt_ignore_u8_def)
  have step: "read_groups M True limit pos (groups_bytes serialize (g # gs) @ p) acc =
      read_groups M True limit (pos + ?len) (groups_bytes serialize gs @ p) (rev (map (received_nbr serialize M) ns) @ acc)"
    if "pos < limit" for limit
    using that
    by (subst read_groups.simps)
      (simp only: bytes append.assoc hd pkt_get_put u entries bind.bind_lunit split_conv if_True)
  show ?case
    unfolding step [of "pos + length (groups_bytes serialize (g # gs))", unfolded total, simplified] total mem
    using rest by (simp add: step total add.assoc)
qed

lemma read_message:
  assumes M: "M = \<lparr>me_clear = q0, me_deserialize = deserialize, me_cost = calc_cost\<rparr>"
    and "list_all grp_ok gs" "hello_off + length (groups_bytes serialize gs) < 65536" "oc_type (lh_comm h) = lq_hello_message_type"
  shows "deserialize_hello M (message_bytes serialize h seqno gs @ p) =
    Some (Some (header_fields_of h seqno (rev (map (received_nbr serialize M) (members gs)))))"
proof -
  define n where "n = length (groups_bytes serialize gs) + hello_off"
  have "n < 65536" "n = 16 + length (groups_bytes serialize gs)" using assms(3) by (simp_all add: n_def hello_off_def)
  then have u: "unat (of_nat n :: u16) = 16 + length (groups_bytes serialize gs)" by (simp only: unat_u16)
  have gs: "read_groups M True (16 + length (groups_bytes serialize gs)) 16 (groups_bytes serialize gs @ p) [] =
      Some (rev (map (received_nbr serialize M) (members gs)))"
    using read_all_groups [OF M assms(2), of 16 p "[]"] assms(3) by simp
  have one: "pkt_get_u8 (x # q) = Some (x, q)" for x q by (simp add: pkt_get_u8_def)
  show ?thesis
    unfolding deserialize_hello_def message_bytes_def serialize_common_def lq_hello_header_def n_def [symmetric]
    by (simp add: one u gs assms(4) lq_hello_message_type_def hello_message_type_def header_fields_of_def)
qed

end

end
