(* ===== verification/Olsr_Forward.thy ===== *)
theory Olsr_Forward imports Packet_Facts Hello_Read Nbr_Ops begin

text \<open>
  A node with the parts of the daemon that handle a received message: the MPR selectors (\<open>mpr_selector_set.c\<close>), the reading of HELLO
  messages and the forwarding of messages (\<open>olsr.c\<close>) into the output buffers of the interfaces.
\<close>

section \<open>MPR selectors\<close>

text \<open>The neighbours that chose this node as a relay, with the time that their timer was last set to.\<close>

record mpr_selector_set =
  ms_list :: "(ip_addr \<times> ulong) list"
  ms_ansn :: u16
  ms_signal :: bool

definition olsr_init_mprs_set :: "mpr_selector_set \<Rightarrow> mpr_selector_set" where
  "olsr_init_mprs_set s = s\<lparr>ms_list := [], ms_ansn := 0\<rparr>"

definition increase_local_ansn :: "mpr_selector_set \<Rightarrow> mpr_selector_set" where
  "increase_local_ansn s = s\<lparr>ms_ansn := ms_ansn s + 1\<rparr>"

definition olsr_add_mpr_selector :: "ip_addr \<Rightarrow> ulong \<Rightarrow> mpr_selector_set \<Rightarrow> mpr_selector_set" where
  "olsr_add_mpr_selector a vtime s = s\<lparr>ms_list := (a, vtime) # ms_list s\<rparr>"

definition olsr_lookup_mprs_set :: "ip_addr \<Rightarrow> mpr_selector_set \<Rightarrow> bool" where
  "olsr_lookup_mprs_set a s = list_ex (\<lambda>e. fst e = a) (ms_list s)"

fun set_first_timer :: "ip_addr \<Rightarrow> ulong \<Rightarrow> (ip_addr \<times> ulong) list \<Rightarrow> (ip_addr \<times> ulong) list" where
  "set_first_timer a vtime [] = []"
| "set_first_timer a vtime (e # es) = (if fst e = a then (a, vtime) # es else e # set_first_timer a vtime es)"

definition olsr_update_mprs_set :: "ip_addr \<Rightarrow> ulong \<Rightarrow> mpr_selector_set \<Rightarrow> mpr_selector_set \<times> bool" where
  "olsr_update_mprs_set a vtime s =
     (if \<not> olsr_lookup_mprs_set a s then ((olsr_add_mpr_selector a vtime s)\<lparr>ms_signal := True\<rparr>, True)
      else (s\<lparr>ms_list := set_first_timer a vtime (ms_list s)\<rparr>, False))"

text \<open>The timer of one entry fires.\<close>

definition olsr_expire_mpr_sel_entry :: "nat \<Rightarrow> mpr_selector_set \<Rightarrow> mpr_selector_set" where
  "olsr_expire_mpr_sel_entry i s = s\<lparr>ms_list := take i (ms_list s) @ drop (Suc i) (ms_list s), ms_signal := True\<rparr>"

text \<open>Does the HELLO message say that its sender chose this node? The search stops at the first entry with the address of the interface.\<close>

definition sym_link :: byte where "sym_link = 2"

definition lookup_mpr_status :: "'q hello_message \<Rightarrow> olsr_iface \<Rightarrow> bool" where
  "lookup_mpr_status msg in_if =
     (case List.find (\<lambda>n. hn_addr n = if_ip_addr in_if) (hm_neighbors msg) of
        Some n \<Rightarrow> hn_link n = sym_link \<and> hn_status n = mpr_neigh
      | None \<Rightarrow> False)"

section \<open>The node\<close>

text \<open>
  The update of the link set with a HELLO message is not modelled, so the messages are recorded; the selector set follows them as
  \<open>olsr_hello_tap\<close> does it.
\<close>

record 'q olsr_node =
  nd_nbrs :: nbrhood
  nd_mids :: mid_set
  nd_selectors :: mpr_selector_set
  nd_ifs :: "netbuf list"
  nd_hellos :: "'q hello_message list"

definition note_selector :: "'q hello_message \<Rightarrow> olsr_iface \<Rightarrow> mpr_selector_set \<Rightarrow> mpr_selector_set" where
  "note_selector msg in_if s =
     (if lookup_mpr_status msg in_if then fst (olsr_update_mprs_set (hm_source_addr msg) (hm_vtime msg) s) else s)"

definition olsr_input_hello :: "'q hello_metric \<Rightarrow> olsr_iface \<Rightarrow> nat \<Rightarrow> 'q olsr_node parse_state \<Rightarrow> 'q olsr_node parse_state option" where
  "olsr_input_hello M in_if m s = do {
     r \<leftarrow> deserialize_hello M (drop m (ps_buf s));
     case r of
       None \<Rightarrow> Some s
     | Some msg \<Rightarrow>
         Some (s\<lparr>ps_user := (ps_user s)\<lparr>nd_hellos := nd_hellos (ps_user s) @ [msg],
           nd_selectors := note_selector msg in_if (nd_selectors (ps_user s))\<rparr>\<rparr>) }"

section \<open>Forwarding\<close>

text \<open>The message goes to the output buffer of an interface; if it does not fit, what waits there is sent first. The timers of the buffers are left out.\<close>

definition forward_on :: "byte list \<Rightarrow> netbuf \<Rightarrow> netbuf" where
  "forward_on w ob =
     (if net_output_pending ob > 0 then
        (let (ob1, n) = net_outbuffer_push w ob in
         if n \<noteq> length w then fst (net_outbuffer_push w (net_output ob1)) else ob1)
      else fst (net_outbuffer_push w ob))"

definition olsr_forward_message :: "ip_addr \<Rightarrow> nat \<Rightarrow> 'q olsr_node parse_state \<Rightarrow> 'q olsr_node parse_state option" where
  "olsr_forward_message from_addr m s = do {
     ttl \<leftarrow> rd (ps_buf s) (int (m + 8));
     hopcnt \<leftarrow> rd (ps_buf s) (int (m + 9));
     if 2 > uint ttl \<or> 255 < uint hopcnt + uint ttl then Some s
     else
       let nd = ps_user s;
           src = (case mid_lookup_main_addr (nd_mids nd) from_addr of Some p \<Rightarrow> p | None \<Rightarrow> from_addr) in do {
         r \<leftarrow> olsr_lookup_neighbor_table (nd_mids nd) src (nd_nbrs nd);
         case r of
           None \<Rightarrow> Some s
         | Some n \<Rightarrow> do {
             e \<leftarrow> nh_nbr (nd_nbrs nd) n;
             if nb_status e \<noteq> SYM then Some s
             else if \<not> olsr_lookup_mprs_set src (nd_selectors nd) then Some s
             else do {
               buf \<leftarrow> wr (ps_buf s) (int (m + 9)) (hopcnt + 1);
               buf \<leftarrow> wr buf (int (m + 8)) (ttl - 1);
               msgsize \<leftarrow> msg_size buf m;
               w \<leftarrow> get_bytes buf (int m) (unat msgsize);
               Some (s\<lparr>ps_buf := buf, ps_user := nd\<lparr>nd_ifs := map (forward_on w) (nd_ifs nd)\<rparr>\<rparr>) } } } }"

text \<open>The parser of the node: function 0 is the one for HELLO messages; the others and the packet parsers do nothing here.\<close>

definition node_env ::
    "'q hello_metric \<Rightarrow> olsr_iface \<Rightarrow> ip_addr \<Rightarrow> ip_addr \<Rightarrow> ip_addr list \<Rightarrow> nat \<Rightarrow> clock \<Rightarrow> 'q olsr_node parse_env" where
  "node_env M in_if from_addr own deny td now =
     \<lparr>pe_main_addr = own, pe_deny = deny, pe_tick_divider = td, pe_now = now, pe_use_hysteresis = False,
      pe_functions = olsr_parser_add_function 0 (ucast lq_hello_message_type) True [], pe_packetparsers = [],
      pe_run = (\<lambda>f m s. if f = 0 then olsr_input_hello M in_if m s else Some s),
      pe_run_packet = (\<lambda>f s. Some s), pe_hysteresis = (\<lambda>n s. Some s),
      pe_forward = olsr_forward_message from_addr\<rparr>"

section \<open>What the parser needs of these functions\<close>

lemma input_hello_keeps: "olsr_input_hello M in_if m s = Some s' \<Longrightarrow> ps_buf s' = ps_buf s"
  by (auto simp: olsr_input_hello_def bind_eq_Some_conv split: option.splits)

lemma forward_message_keeps:
  assumes "olsr_forward_message from_addr m s = Some s'"
  shows "same_message m (ps_buf s) (ps_buf s')"
proof -
  have wr: "same_message m b b'" if "wr b (int (m + 9)) x = Some b1" "wr b1 (int (m + 8)) y = Some b'" for b b1 b' x y
    using that by (auto simp: wr_def same_message_def nth_list_update split: if_splits)
  have refl: "same_message m (ps_buf s) (ps_buf s)" by (simp add: same_message_def)
  obtain ttl hopcnt where th: "rd (ps_buf s) (int (m + 8)) = Some ttl" "rd (ps_buf s) (int (m + 9)) = Some hopcnt"
    using assms unfolding olsr_forward_message_def by (auto simp: bind_eq_Some_conv)
  show ?thesis
    using assms th wr refl unfolding olsr_forward_message_def
    by (auto simp: Let_def bind_eq_Some_conv split: if_splits option.splits)
qed

interpretation node: parse_functions "node_env M in_if from_addr own deny td now" for M in_if from_addr own deny td now
proof
  fix f m s s'
  assume "pe_run (node_env M in_if from_addr own deny td now) f m s = Some s'"
  then have "ps_buf s' = ps_buf s" by (auto simp: node_env_def dest: input_hello_keeps split: if_splits)
  then show "same_message m (ps_buf s) (ps_buf s')" by (simp add: same_message_def)
next
  fix m s s'
  assume "pe_forward (node_env M in_if from_addr own deny td now) m s = Some s'"
  then show "same_message m (ps_buf s) (ps_buf s')" by (auto simp: node_env_def dest: forward_message_keeps)
qed (simp_all add: node_env_def)

end
