(* ===== verification/Packet_Claims.thy ===== *)
theory Packet_Claims imports Olsr_Forward begin

text \<open>Properties of the parser of packets and of the forwarding of messages.\<close>

section \<open>Forwarding\<close>

text \<open>The message as it is sent on, and the condition for it.\<close>

definition relayed :: "byte list \<Rightarrow> byte list" where
  "relayed w = w[9 := w ! 9 + 1, 8 := w ! 8 - 1]"

definition relays :: "'q olsr_node \<Rightarrow> ip_addr \<Rightarrow> byte list \<Rightarrow> bool" where
  "relays nd from_addr w \<longleftrightarrow>
     (let src = olsr_main_addr (nd_mids nd) from_addr in
      2 \<le> unat (w ! 8) \<and> unat (w ! 8) + unat (w ! 9) \<le> 255 \<and> olsr_lookup_mprs_set src (nd_selectors nd) \<and>
      (\<exists>n e. nh_nbr (nd_nbrs nd) n = Some e \<and> nb_addr e = olsr_main_addr (nd_mids nd) src \<and> nb_status e = SYM))"

lemma forward_on_msgs:
  assumes "ob_msgs ob ws"
  shows "ob_msgs (forward_on w ob) (if length w \<le> ob_maxsize ob then ws @ [w] else ws)"
proof (cases "net_output_pending ob > 0")
  case True
  show ?thesis
  proof (cases "length (ob_pending ob) + length w \<le> ob_maxsize ob")
    case fits: True
    then have "int (length w) \<le> net_outbuffer_bytes_left ob" by (simp add: net_outbuffer_bytes_left_def)
    from net_push_msgs(1) [OF assms this] show ?thesis
      using True fits by (simp add: forward_on_def net_outbuffer_push_def)
  next
    case False
    then have push: "net_outbuffer_push w ob = (ob, 0)" by (simp add: net_outbuffer_push_def)
    note out = net_output_msgs [OF assms]
    have left: "net_outbuffer_bytes_left (net_output ob) = int (ob_maxsize ob)" using out(2,3) by (simp add: empty_bytes_left)
    show ?thesis
    proof (cases "length w \<le> ob_maxsize ob")
      case small: True
      have "int (length w) \<le> net_outbuffer_bytes_left (net_output ob)" using small left by simp
      from net_push_msgs(1) [OF out(1) this] show ?thesis
        using True push small False assms by (cases "w = []") (auto simp: forward_on_def ob_msgs_def ob_rep_def)
    next
      case False
      then have "net_outbuffer_push w (net_output ob) = (net_output ob, 0)" using out(2,3) by (simp add: net_outbuffer_push_def)
      then show ?thesis using True push out(1) False by (auto simp: forward_on_def)
    qed
  qed
next
  case False
  then have e: "ob_pending ob = []" by (simp add: net_output_pending_def)
  show ?thesis
  proof (cases "length w \<le> ob_maxsize ob")
    case True
    then have "int (length w) \<le> net_outbuffer_bytes_left ob" using e by (simp add: empty_bytes_left)
    from net_push_msgs(1) [OF assms this] show ?thesis using False True by (simp add: forward_on_def)
  next
    case big: False
    then show ?thesis using False assms e by (simp add: forward_on_def net_outbuffer_push_def)
  qed
qed

lemma byte_sum: "255 < uint (a :: byte) + uint (b :: byte) \<longleftrightarrow> 255 < unat b + unat a"
proof -
  have "uint a + uint b = int (unat b + unat a)" by simp
  then show ?thesis by linarith
qed

text \<open>C23. A message is sent on exactly if its time to live is at least 2, does not exceed 255 with the hop count, and comes from a symmetric neighbour
  that chose this node as a relay. Then the time to live goes down by one and the hop count up by one, also in the buffer, and
  the message is appended once to the messages of every interface whose buffers are large enough for it; otherwise nothing changes.\<close>
theorem forward_exact:
  assumes "nbr_ok (nd_nbrs (ps_user s))" "ps_buf s = pre @ w @ rest" "length pre = m" "wire_message w"
  shows "\<exists>s'. olsr_forward_message from_addr m s = Some s' \<and>
    (if relays (ps_user s) from_addr w
     then ps_buf s' = pre @ relayed w @ rest \<and>
       list_all2 (\<lambda>ob ob'. \<forall>ws. ob_msgs ob ws \<longrightarrow> ob_msgs ob' (if length w \<le> ob_maxsize ob then ws @ [relayed w] else ws))
         (nd_ifs (ps_user s)) (nd_ifs (ps_user s'))
     else s' = s)"
proof -
  let ?nd = "ps_user s"
  let ?src = "olsr_main_addr (nd_mids ?nd) from_addr"
  have len: "12 \<le> length w" using assms(4) by (simp add: wire_message_def)
  have r8: "rd (ps_buf s) (int m + 8) = Some (w ! 8)" and r9: "rd (ps_buf s) (int m + 9) = Some (w ! 9)"
    using rd_nat [of "m + 8" "ps_buf s"] rd_nat [of "m + 9" "ps_buf s"] assms(2,3) len by (simp_all add: nth_append)
  have src: "(case mid_lookup_main_addr (nd_mids ?nd) from_addr of Some p \<Rightarrow> p | None \<Rightarrow> from_addr) = ?src"
    by (simp add: olsr_main_addr_def split: option.splits)
  have ttl: "2 > uint (w ! 8) \<longleftrightarrow> unat (w ! 8) < 2" using uint_less_nat [of "w ! 8" 2] by simp
  define w' where "w' = relayed w"
  have w': "wire_message w'" "length w' = length w"
  proof -
    have "take 2 (drop 2 w') = take 2 (drop 2 w)" by (simp add: w'_def relayed_def drop_update_swap)
    then show "wire_message w'" "length w' = length w" using assms(4) by (simp_all add: wire_message_def w'_def relayed_def)
  qed
  have buf: "wr (ps_buf s) (int m + 9) (w ! 9 + 1) = Some ((ps_buf s)[m + 9 := w ! 9 + 1])"
    "wr ((ps_buf s)[m + 9 := w ! 9 + 1]) (int m + 8) (w ! 8 - 1) = Some (pre @ w' @ rest)"
    using wr_nat [of "m + 9" "ps_buf s" "w ! 9 + 1"] wr_nat [of "m + 8" "(ps_buf s)[m + 9 := w ! 9 + 1]" "w ! 8 - 1"] assms(2,3) len
    by (simp_all add: list_update_append w'_def relayed_def)
  have "unat (of_nat (length w') :: u16) = length w'" using w'(1) by (intro unat_u16) (simp add: wire_message_def)
  then have get: "msg_size (pre @ w' @ rest) m = Some (of_nat (length w'))"
    "get_bytes (pre @ w' @ rest) (int m) (unat (of_nat (length w') :: u16)) = Some w'"
    using msg_size_at [OF w'(1) assms(3)] get_bytes_append [OF assms(3) refl, of w' rest] by simp_all
  define run where "run = olsr_forward_message from_addr m s"
  show ?thesis
  proof (cases "unat (w ! 8) < 2 \<or> 255 < unat (w ! 8) + unat (w ! 9)")
    case True
    then have "run = Some s" by (simp add: run_def olsr_forward_message_def r8 r9 ttl byte_sum)
    moreover have "\<not> relays ?nd from_addr w" using True by (auto simp: relays_def)
    ultimately show ?thesis by (simp add: run_def)
  next
    case False
    note live = False
    show ?thesis
    proof (cases rule: lookup_nbr_cases [OF assms(1), of "olsr_main_addr (nd_mids ?nd) ?src"])
      case (1 n e)
      have step: "run = (if nb_status e \<noteq> SYM then Some s
          else if \<not> olsr_lookup_mprs_set ?src (nd_selectors ?nd) then Some s
          else Some (s\<lparr>ps_buf := pre @ w' @ rest, ps_user := ?nd\<lparr>nd_ifs := map (forward_on w') (nd_ifs ?nd)\<rparr>\<rparr>))"
        unfolding run_def olsr_forward_message_def using live 1
        by (simp add: r8 r9 ttl byte_sum src Let_def olsr_lookup_neighbor_table_def buf get)
      have u: "(\<exists>n e. nh_nbr (nd_nbrs ?nd) n = Some e \<and> nb_addr e = olsr_main_addr (nd_mids ?nd) ?src \<and> nb_status e = SYM) \<longleftrightarrow> nb_status e = SYM"
      proof
        assume "\<exists>n e. nh_nbr (nd_nbrs ?nd) n = Some e \<and> nb_addr e = olsr_main_addr (nd_mids ?nd) ?src \<and> nb_status e = SYM"
        then obtain n1 e1 where e1: "nh_nbr (nd_nbrs ?nd) n1 = Some e1" "nb_addr e1 = olsr_main_addr (nd_mids ?nd) ?src" "nb_status e1 = SYM"
          by blast
        then have "n1 = n" using 1(1) lookup_nbr_iff [OF assms(1), of "olsr_main_addr (nd_mids ?nd) ?src" "Some n1"] by simp
        then show "nb_status e = SYM" using e1 1(2) by simp
      qed (use 1(2,3) in blast)
      have rel: "relays ?nd from_addr w \<longleftrightarrow> olsr_lookup_mprs_set ?src (nd_selectors ?nd) \<and> nb_status e = SYM"
        using live u by (auto simp: relays_def Let_def)
      define R where "R = (\<lambda>ob ob'. \<forall>ws. ob_msgs ob ws \<longrightarrow> ob_msgs ob' (if length w \<le> ob_maxsize ob then ws @ [w'] else ws))"
      have "list_all2 R (nd_ifs ?nd) (map (forward_on w') (nd_ifs ?nd))"
        unfolding R_def using forward_on_msgs [where w = w'] w'(2) by (auto simp: list_all2_conv_all_nth)
      then have "\<exists>s'. run = Some s' \<and> (if relays ?nd from_addr w
          then ps_buf s' = pre @ w' @ rest \<and> list_all2 R (nd_ifs ?nd) (nd_ifs (ps_user s')) else s' = s)"
        using step rel by auto
      then show ?thesis by (simp only: run_def w'_def R_def)
    next
      case 2
      have "run = Some s"
        unfolding run_def olsr_forward_message_def using live 2
        by (simp add: r8 r9 ttl byte_sum src Let_def olsr_lookup_neighbor_table_def)
      moreover have "\<not> relays ?nd from_addr w" using 2 by (auto simp: relays_def Let_def)
      ultimately show ?thesis by (simp add: run_def)
    qed
  qed
qed

text \<open>A node with one symmetric neighbour, which chose the node as a relay, and one interface.\<close>

definition sym_entry :: "ip_addr \<Rightarrow> neighbor_entry" where
  "sym_entry a = \<lparr>nb_addr = a, nb_status = SYM, nb_will = 3, nb_is_mpr = False, nb_was_mpr = False, nb_skip = False, nb_nocov = 0,
     nb_2_list = []\<rparr>"

definition one_nbr :: "ip_addr \<Rightarrow> nbrhood" where
  "one_nbr a = nbr_init\<lparr>nh_nbr := [0 \<mapsto> sym_entry a],
     nh_nbr_tab := (replicate hashsize [])[hash_row a := [0]], nh_fresh := 1\<rparr>"

lemma one_nbr_ok: "nbr_ok (one_nbr a)"
proof -
  have empty: "table_ok addr Map.empty (replicate hashsize []) 0" for addr by (simp add: table_ok_def)
  have "table_ok nb_addr [0 \<mapsto> sym_entry a] ((replicate hashsize [])[hash_row a := [0]]) 1"
    using table_insert [OF empty, of nb_addr "sym_entry a"] by (simp add: sym_entry_def)
  moreover have "table_ok n2_addr Map.empty (replicate hashsize []) 1" by (simp add: table_ok_def)
  moreover have "links_ok [0 \<mapsto> sym_entry a] Map.empty" by (simp add: links_ok_def twos_of_def sym_entry_def)
  ultimately show ?thesis by (simp add: nbr_ok_def one_nbr_def nbr_init_def max_nbrs_def)
qed

definition one_nbr_state :: "unit olsr_node parse_state" where
  "one_nbr_state = \<lparr>ps_buf = replicate 4 0 @ [77, 0, 0, 12, 9, 0, 0, 1, 5, 2, 0, 3] @ [0], ps_dups = Map.empty,
     ps_user = \<lparr>nd_nbrs = one_nbr 2, nd_mids = [], nd_selectors = \<lparr>ms_list = [(2, 0)], ms_ansn = 0, ms_signal = False\<rparr>,
       nd_ifs = [net_add_buffer 1500], nd_hellos = []\<rparr>\<rparr>"

theorem forward_exact_witness:
  "\<exists>s'. olsr_forward_message 2 4 one_nbr_state = Some s' \<and>
    ps_buf s' = replicate 4 0 @ [77, 0, 0, 12, 9, 0, 0, 1, 4, 3, 0, 3] @ [0] \<and>
    list_all2 (\<lambda>ob ob'. \<forall>ws. ob_msgs ob ws \<longrightarrow>
        ob_msgs ob' (if 12 \<le> ob_maxsize ob then ws @ [[77, 0, 0, 12, 9, 0, 0, 1, 4, 3, 0, 3]] else ws))
      [net_add_buffer 1500] (nd_ifs (ps_user s'))"
proof -
  let ?w = "[77, 0, 0, 12, 9, 0, 0, 1, 5, 2, 0, 3] :: byte list"
  have ok: "nbr_ok (nd_nbrs (ps_user one_nbr_state))" by (simp add: one_nbr_state_def one_nbr_ok)
  have buf: "ps_buf one_nbr_state = replicate 4 0 @ ?w @ [0]" by (simp add: one_nbr_state_def)
  have w: "wire_message ?w" by (simp add: wire_message_def le16_def htons_def)
  have addr: "olsr_main_addr [] a = a" for a by (simp add: olsr_main_addr_def mid_lookup_main_addr_def)
  have rel: "relays (ps_user one_nbr_state) 2 ?w"
    by (simp add: relays_def one_nbr_state_def addr olsr_lookup_mprs_set_def one_nbr_def sym_entry_def Let_def)
  have out: "relayed ?w = [77, 0, 0, 12, 9, 0, 0, 1, 4, 3, 0, 3]" by (simp add: relayed_def)
  have k: "length ?w = 12" "nd_ifs (ps_user one_nbr_state) = [net_add_buffer 1500]" by (simp_all add: one_nbr_state_def)
  have "length (replicate 4 (0 :: byte)) = 4" by simp
  from forward_exact [OF ok buf this w, of 2] show ?thesis by (simp only: rel out k if_True)
qed

section \<open>The parser\<close>

text \<open>Around the loop: a packet of the announced length goes through the start of the parser, which only writes bytes 2 and 3.\<close>

definition announced :: "nat \<Rightarrow> byte list \<Rightarrow> bool" where
  "announced cc buf \<longleftrightarrow> 8 \<le> cc \<and> (case msg_u16 buf 0 of Some n \<Rightarrow> unat n = cc | None \<Rightarrow> False)"

lemma parse_packet_announced:
  assumes "announced cc (ps_buf s)"
  shows "parse_packet env cc s = (case parse_start env cc s of None \<Rightarrow> Some Fault | Some s' \<Rightarrow> parse_loop env 4 (int cc - 4) s')"
  using assms by (auto simp: announced_def parse_packet_def min_packet_size_def Let_def split: option.splits)

lemma parse_packet_other:
  assumes "\<not> announced cc (ps_buf s)"
  shows "parse_packet env cc s = Some (Done s) \<or> parse_packet env cc s = Some Fault"
  using assms by (auto simp: announced_def parse_packet_def min_packet_size_def Let_def split: option.splits)

lemma put_bytes_from:
  assumes "put_bytes b 2 bs = Some b'" "length bs = 2"
  shows "same_from 2 b b'"
proof -
  have "4 \<le> length b" "b' = take 2 b @ bs @ drop 4 b" using assms by (auto simp: put_bytes_def split: if_splits)
  then show ?thesis using assms(2) by (auto simp: same_from_def nth_append)
qed

context parse_functions
begin

lemma start_same: "parse_start env cc s = Some s' \<Longrightarrow> same_from 4 (ps_buf s) (ps_buf s')"
  using start_keeps [of cc s s'] put_bytes_from same_from_mono [of 2 _ _ 4] by fastforce

lemma start_sizes: "parse_start env cc s = Some s' \<Longrightarrow> sizes_ok (ps_buf s) 4 n \<Longrightarrow> sizes_ok (ps_buf s') 4 n"
  using sizes_ok_cong start_same by blast

lemma packet_returns: "sizes_ok (ps_buf s) 4 (int cc - 4) \<Longrightarrow> parse_packet env cc s \<noteq> None"
  using parse_packet_announced [of cc s env] parse_packet_other [of cc s env] parse_loop_returns [where m = 4 and count = "int cc - 4"]
    start_sizes [of cc s] by (cases "announced cc (ps_buf s)") (auto split: option.splits)

lemma start_total:
  assumes "functions_return env" "12 \<le> length (ps_buf s)"
  shows "\<exists>s'. parse_start env cc s = Some s'"
proof -
  obtain raw where raw: "get_bytes (ps_buf s) 2 2 = Some raw" using get_bytes_in [of 2 2 "ps_buf s"] assms(2) by auto
  have "put_bytes (ps_buf s) (int 2) (le16 (htons (of_le16 raw))) =
      Some (take 2 (ps_buf s) @ le16 (htons (of_le16 raw)) @ drop (2 + 2) (ps_buf s))"
    using put_bytes_nat [of 2 "le16 (htons (of_le16 raw))" "ps_buf s"] assms(2) by simp
  then obtain buf where buf: "put_bytes (ps_buf s) 2 (le16 (htons (of_le16 raw))) = Some buf" by simp
  have len: "length buf = length (ps_buf s)" using put_bytes_length [OF buf] .
  have "\<exists>t. iter (pe_packetparsers env) (pe_run_packet env) (s\<lparr>ps_buf := buf\<rparr>) = Some t \<and> ps_buf t = buf"
  proof (rule iter_rest_total [where P = "\<lambda>_ t. ps_buf t = buf"])
    fix f and rest and t :: "'a parse_state"
    assume "ps_buf t = buf"
    moreover obtain t' where "pe_run_packet env f t = Some t'" using assms(1) unfolding functions_return_def by fast
    ultimately show "\<exists>t'. pe_run_packet env f t = Some t' \<and> ps_buf t' = buf" using packet_keeps by metis
  qed simp
  then obtain t where t: "iter (pe_packetparsers env) (pe_run_packet env) (s\<lparr>ps_buf := buf\<rparr>) = Some t" "ps_buf t = buf" by blast
  have "\<exists>x. msg_size (ps_buf t) 4 = Some x" using header_fields(2) [of 4 "ps_buf t"] t(2) len assms(2) 
    get_bytes_in [of 6 2 "ps_buf t"] by (auto simp: msg_size_def msg_u16_def)
  then obtain x where x: "msg_size (ps_buf t) 4 = Some x" ..
  obtain raw2 where raw2: "get_bytes (ps_buf t) 2 2 = Some raw2" using get_bytes_in [of 2 2 "ps_buf t"] t(2) len assms(2) by auto
  obtain u where "pe_hysteresis env (htons (of_le16 raw2)) t = Some u" using assms(1) unfolding functions_return_def by fast
  then show ?thesis using raw buf t(1) x raw2 by (simp add: parse_start_def)
qed

lemma packet_safe:
  assumes "functions_return env" "sizes_ok (ps_buf s) 4 (int cc - 4)" "cc + 8 \<le> length (ps_buf s)"
  shows "\<exists>s'. parse_packet env cc s = Some (Done s')"
proof (cases "announced cc (ps_buf s)")
  case True
  then have "12 \<le> length (ps_buf s)" using assms(3) by (simp add: announced_def)
  then obtain s1 where s1: "parse_start env cc s = Some s1" using start_total [OF assms(1)] by blast
  have "sizes_ok (ps_buf s1) 4 (int cc - 4)" "length (ps_buf s1) = length (ps_buf s)"
    using start_sizes [OF s1 assms(2)] start_same [OF s1] by (simp_all add: same_from_def)
  then have "\<exists>s'. parse_loop env 4 (int cc - 4) s1 = Some (Done s')" using assms(3) by (intro parse_loop_safe [OF assms(1)]) simp_all
  then show ?thesis using s1 by (simp add: parse_packet_announced [OF True])
next
  case False
  have "\<exists>x. msg_u16 (ps_buf s) 0 = Some x" using get_bytes_in [of 0 2 "ps_buf s"] assms(3) by (auto simp: msg_u16_def)
  then have "parse_packet env cc s \<noteq> Some Fault"
    using False by (auto simp: announced_def parse_packet_def min_packet_size_def Let_def)
  then show ?thesis using parse_packet_other [OF False, of env] by blast
qed

end

text \<open>C21. If every message in the packet has at least the size of its header, then the parser returns, whatever the registered functions do to
  the state, as long as they leave the buffer alone up to the two fields that the forwarding changes.\<close>
theorem parse_returns:
  assumes "parse_functions env" "sizes_ok (ps_buf s) 4 (int cc - 4)"
  shows "parse_packet env cc s \<noteq> None"
  by (rule parse_functions.packet_returns [OF assms])

text \<open>An environment without registered functions, and one message of an unknown type.\<close>

definition quiet_env :: "unit parse_env" where
  "quiet_env = \<lparr>pe_main_addr = 1, pe_deny = [0], pe_tick_divider = 10, pe_now = 0, pe_use_hysteresis = False, pe_functions = [],
     pe_packetparsers = [], pe_run = (\<lambda>f m s. Some s), pe_run_packet = (\<lambda>f s. Some s), pe_hysteresis = (\<lambda>n s. Some s),
     pe_forward = (\<lambda>m s. Some s)\<rparr>"

interpretation quiet: parse_functions quiet_env
  by unfold_locales (auto simp: quiet_env_def same_message_def)

lemma quiet_returns: "functions_return quiet_env"
  by (simp add: functions_return_def quiet_env_def)

definition one_message :: "byte list" where
  "one_message = [0, 16, 0, 7] @ [77, 0, 0, 12, 9, 0, 0, 1, 1, 0, 0, 3] @ replicate 8 0"

lemma one_message_sizes: "sizes_ok one_message 4 12"
proof -
  have "msg_size one_message 4 = Some 12"
    by (simp add: msg_size_def msg_u16_def one_message_def get_bytes_def htons_def)
  then show ?thesis by (subst sizes_ok.simps, simp add: min_packet_size_def) (subst sizes_ok.simps, simp add: min_packet_size_def)
qed

theorem parse_returns_witness:
  "parse_packet quiet_env 16 \<lparr>ps_buf = one_message, ps_dups = Map.empty, ps_user = ()\<rparr> \<noteq> None"
  using parse_returns [OF quiet.parse_functions_axioms, of "\<lparr>ps_buf = one_message, ps_dups = Map.empty, ps_user = ()\<rparr>" 16]
  by (simp add: one_message_sizes)



text \<open>The 8 bytes are needed: the loop goes on as long as 4 bytes are left, but then reads a header of 12 bytes. If the last 4 bytes of the
  buffer are the start of a message that claims to fit, the originator is read behind the buffer.\<close>
theorem header_overread:
  assumes "m + 4 = length (ps_buf s)" "msg_size (ps_buf s) m = Some n" "unat n \<le> 4"
  shows "parse_loop env m 4 s = Some Fault"
proof -
  have "msg_originator (ps_buf s) m = None" using assms(1) by (simp add: msg_originator_def get_bytes_def)
  then have "parse_message env m s = None" by (simp add: parse_message_def)
  moreover have "\<not> 4 < uint n" using assms(3) uint_nat [of n] by linarith
  ultimately show ?thesis using assms(2) by (subst parse_loop.simps) (simp add: min_packet_size_def)
qed

theorem header_overread_witness:
  "parse_loop quiet_env 0 4 \<lparr>ps_buf = [77, 0, 0, 4], ps_dups = Map.empty, ps_user = ()\<rparr> = Some Fault"
  using header_overread [of 0 "\<lparr>ps_buf = [77, 0, 0, 4], ps_dups = Map.empty, ps_user = ()\<rparr>" 4 quiet_env]
  by (simp add: msg_size_def msg_u16_def get_bytes_def htons_def)

text \<open>C20. A single message makes the daemon hang: if its size is 0 and its originator is the node itself or an address of the deny list,
  then the parser never returns.\<close>
theorem parse_hangs:
  assumes "parse_functions env" "announced cc (ps_buf s)" "parse_start env cc s \<noteq> None"
    and "msg_size (ps_buf s) 4 = Some 0" "msg_originator (ps_buf s) 4 = Some a"
    and "a = pe_main_addr env \<or> \<not> olsr_validate_address (pe_deny env) a"
  shows "parse_packet env cc s = None"
proof -
  obtain s1 where s1: "parse_start env cc s = Some s1" using assms(3) by blast
  note same = parse_functions.start_same [OF assms(1) s1]
  have "get_bytes (ps_buf s1) (int 8) 4 = get_bytes (ps_buf s) (int 8) 4"
    using same by (intro get_bytes_same) (simp_all add: same_from_def)
  then have orig: "msg_originator (ps_buf s1) 4 = Some a" using assms(5) by (simp add: msg_originator_def)
  have m: "parse_message env 4 s1 = Some (s1, False)" using orig assms(6) by (auto simp: parse_message_def)
  have z: "msg_size (ps_buf s1) 4 = Some 0" using msg_size_from [OF same] assms(4) by simp
  have "min_packet_size \<le> int cc - 4" using assms(2) by (simp add: announced_def min_packet_size_def)
  then have "parse_loop env 4 (int cc - 4) s1 = None"
    using parse_loop_stuck [of env 4 "int cc - 4" s1] m z by (cases "parse_loop env 4 (int cc - 4) s1") auto
  then show ?thesis using s1 by (simp add: parse_packet_announced [OF assms(2)])
qed

definition zero_message :: "byte list" where
  "zero_message = [0, 16, 0, 7] @ [77, 0, 0, 0, 1, 0, 0, 0, 1, 1, 0, 3]"

theorem parse_hangs_witness:
  "parse_packet quiet_env 16 \<lparr>ps_buf = zero_message, ps_dups = Map.empty, ps_user = ()\<rparr> = None"
proof (rule parse_hangs [OF quiet.parse_functions_axioms])
  let ?s = "\<lparr>ps_buf = zero_message, ps_dups = Map.empty, ps_user = ()\<rparr>"
  show "announced 16 (ps_buf ?s)" by (simp add: announced_def msg_u16_def zero_message_def get_bytes_def htons_def)
  show "parse_start quiet_env 16 ?s \<noteq> None"
    by (simp add: parse_start_def quiet_env_def zero_message_def get_bytes_def put_bytes_def msg_size_def msg_u16_def)
  show "msg_size (ps_buf ?s) 4 = Some 0"
    by (simp add: msg_size_def msg_u16_def zero_message_def get_bytes_def htons_def)
  show "msg_originator (ps_buf ?s) 4 = Some 1" by (simp add: msg_originator_def zero_message_def get_bytes_def)
  show "(1 :: ip_addr) = pe_main_addr quiet_env \<or> \<not> olsr_validate_address (pe_deny quiet_env) 1" by (simp add: quiet_env_def)
qed

lemma packet_walk:
  assumes "parse_functions env" "list_all wire_message ws" "packet_of ws p" "8 \<le> length p" "length p < 65536" "ps_buf s = p @ rest"
  shows "parse_packet env (length p) s =
    (case parse_start env (length p) s of None \<Rightarrow> Some Fault | Some s1 \<Rightarrow> Some (deliver env 4 (map length ws) s1))"
proof -
  obtain n where p: "p = pkt_put_u16 (of_nat (length (concat ws) + 4)) @ pkt_put_u16 n @ concat ws"
    using assms(3) by (auto simp: packet_of_def)
  then have len: "length p = length (concat ws) + 4" by (simp del: length_concat)
  define k where "k = length (concat ws) + 4"
  have "unat (of_nat k :: u16) = k" using assms(5) len by (intro unat_u16) (simp add: k_def del: length_concat)
  moreover have "msg_u16 (ps_buf s) 0 = Some (of_nat k)"
    using get_bytes_append [of "[]" 0 "pkt_put_u16 (of_nat k)" 2 "pkt_put_u16 n @ concat ws @ rest"]
    by (simp add: msg_u16_def assms(6) p k_def [symmetric] pkt_put_u16_def)
  ultimately have ann: "announced (length p) (ps_buf s)" using assms(4) len by (simp add: announced_def k_def)
  have frame: "framed (ps_buf s) 4 (map length ws)"
    using framed_messages [OF assms(2), of "pkt_put_u16 (of_nat k) @ pkt_put_u16 n" 4 rest] by (simp add: assms(6) p k_def)
  have count: "int (length p) - 4 = int (sum_list (map length ws))" using len by (simp add: length_concat)
  show ?thesis
  proof (cases "parse_start env (length p) s")
    case (Some s1)
    have "framed (ps_buf s1) 4 (map length ws)"
      using framed_cong [OF parse_functions.start_same [OF assms(1) Some] frame] .
    then show ?thesis
      using Some parse_functions.parse_loop_deliver [OF assms(1)] by (simp add: parse_packet_announced [OF ann] count)
  qed (simp add: parse_packet_announced [OF ann])
qed

text \<open>C14. A packet as the output buffer sends it, a header and messages, is handled message by message in their order: the parser does
  what a walk through the list of the messages does, and never mistakes the borders of the messages.\<close>
theorem packet_delivery:
  assumes "parse_functions env" "list_all wire_message ws" "packet_of ws p" "8 \<le> length p" "length p < 65536" "ps_buf s = p @ rest"
  shows "parse_packet env (length p) s =
    (case parse_start env (length p) s of None \<Rightarrow> Some Fault | Some s1 \<Rightarrow> Some (deliver env 4 (map length ws) s1))"
  by (rule packet_walk [OF assms])

definition two_messages :: "byte list list" where
  "two_messages = [[77, 0, 0, 12, 9, 0, 0, 1, 1, 0, 0, 3], [78, 0, 0, 13, 9, 0, 0, 2, 1, 0, 0, 4, 5]]"

lemma two_messages_ok: "list_all wire_message two_messages"
  by (simp add: two_messages_def wire_message_def le16_def htons_def)

theorem packet_delivery_witness:
  "let p = pkt_put_u16 29 @ pkt_put_u16 7 @ concat two_messages; s = \<lparr>ps_buf = p, ps_dups = Map.empty, ps_user = ()\<rparr>
   in parse_packet quiet_env 29 s =
    (case parse_start quiet_env 29 s of None \<Rightarrow> Some Fault | Some s1 \<Rightarrow> Some (deliver quiet_env 4 [12, 13] s1))"
proof -
  let ?p = "pkt_put_u16 29 @ pkt_put_u16 7 @ concat two_messages"
  have len: "length ?p = 29" "map length two_messages = [12, 13]" by (simp_all add: two_messages_def)
  have "packet_of two_messages ?p" using len by (auto simp: packet_of_def two_messages_def)
  from packet_delivery [OF quiet.parse_functions_axioms two_messages_ok this, of "\<lparr>ps_buf = ?p, ps_dups = Map.empty, ps_user = ()\<rparr>" "[]"]
  show ?thesis unfolding len by (simp add: Let_def)
qed

text \<open>A new message of a type that no function is registered for ends the packet: it is forwarded, but the messages behind it are
  not even looked at, although the size of the message is known.\<close>
theorem unknown_type_ends_packet:
  assumes "4 \<le> left" "msg_size (ps_buf s) m = Some n" "uint n \<le> left"
    and "msg_originator (ps_buf s) m = Some a" "a \<noteq> pe_main_addr env" "olsr_validate_address (pe_deny env) a"
    and "msg_seqno (ps_buf s) m = Some q" "olsr_shall_process_message (pe_tick_divider env) (pe_now env) a q (ps_dups s) = (ds, True)"
    and "msg_type (ps_buf s) m = Some t" "list_all (\<lambda>e. pf_type e \<noteq> promiscuous \<and> pf_type e \<noteq> ucast t) (pe_functions env)"
    and "pe_forward env m (s\<lparr>ps_dups := ds\<rparr>) = Some s'"
  shows "parse_loop env m left s = Some (Done s')"
proof -
  have "iter es (run_entry env m) (s\<lparr>ps_dups := ds\<rparr>, False) = Some (s\<lparr>ps_dups := ds\<rparr>, False)"
    if "list_all (\<lambda>e. pf_type e \<noteq> promiscuous \<and> pf_type e \<noteq> ucast t) es" for es
    using that by (induction es) (simp_all add: run_entry_def assms(9))
  then have "parse_message env m s = Some (s', True)" using assms by (simp add: parse_message_def)
  then show ?thesis using assms(1,2,3) by (subst parse_loop.simps) (simp add: min_packet_size_def)
qed

definition two_message_state :: "unit parse_state" where
  "two_message_state = \<lparr>ps_buf = concat two_messages, ps_dups = Map.empty, ps_user = ()\<rparr>"

theorem unknown_type_ends_packet_witness:
  "parse_loop quiet_env 0 25 two_message_state = Some (Done (two_message_state\<lparr>ps_dups :=
     fst (olsr_shall_process_message 10 0 0x01000009 3 Map.empty)\<rparr>))"
proof (rule unknown_type_ends_packet)
  let ?s = two_message_state
  show "msg_size (ps_buf ?s) 0 = Some 12" "msg_originator (ps_buf ?s) 0 = Some 0x01000009" "msg_seqno (ps_buf ?s) 0 = Some 3"
    "msg_type (ps_buf ?s) 0 = Some 77"
    by (simp_all add: two_message_state_def two_messages_def msg_size_def msg_originator_def msg_seqno_def msg_type_def msg_u16_def
        get_bytes_def htons_def rd_def)
qed (simp_all add: quiet_env_def two_message_state_def olsr_validate_address_def olsr_shall_process_message_def Let_def)

end
