(* ===== verification/Packet_Input.thy ===== *)
theory Packet_Input imports Packet_Parse begin

text \<open>
  The receiving of packets (\<open>olsr_input\<close> in \<open>parser.c\<close>): the datagrams that wait at a socket are read into the receive buffer and given to the
  parser. The kernel is a queue of datagrams, each with the address that it comes from. No plugin has registered a preprocessor.
\<close>

text \<open>The interfaces, in the order of the list, with what the receiving needs of them.\<close>

record 'i net_interface =
  int_addr :: ip_addr
  olsr_socket :: nat
  int_iface :: 'i

fun if_ifwithaddr :: "'i net_interface list \<Rightarrow> ip_addr \<Rightarrow> 'i net_interface option" where
  "if_ifwithaddr [] a = None"
| "if_ifwithaddr (i # ifs) a = (if int_addr i = a then Some i else if_ifwithaddr ifs a)"

fun if_ifwithsock :: "'i net_interface list \<Rightarrow> nat \<Rightarrow> 'i net_interface option" where
  "if_ifwithsock [] fd = None"
| "if_ifwithsock (i # ifs) fd = (if olsr_socket i = fd then Some i else if_ifwithsock ifs fd)"

text \<open>The call of \<open>recvfrom\<close> cuts a datagram off at the size of the buffer; the bytes behind it stay as they were.\<close>

definition inbuf_size :: nat where "inbuf_size = maxmessagesize + 1"

definition recv_into :: "byte list \<Rightarrow> byte list \<Rightarrow> byte list \<times> nat" where
  "recv_into buf data = (let d = take (length buf) data in (d @ drop (length d) buf, length d))"

text \<open>
  The loop, with the number of rounds that \<open>cpu_overload_exit\<close> leaves. The result is \<open>None\<close> if the parser does not return; otherwise it has
  the datagrams that still wait.
\<close>

fun input_loop ::
    "('i \<Rightarrow> ip_addr \<Rightarrow> 'a parse_env) \<Rightarrow> 'i net_interface list \<Rightarrow> nat \<Rightarrow> nat \<Rightarrow> (ip_addr \<times> byte list) list \<Rightarrow> 'a parse_state \<Rightarrow>
     ('a parse_end \<times> (ip_addr \<times> byte list) list) option" where
  "input_loop env ifs fd 0 q s = Some (Done s, q)"
| "input_loop env ifs fd (Suc k) [] s = Some (Done s, [])"
| "input_loop env ifs fd (Suc k) ((from_addr, data) # q) s =
     (let (buf, cc) = recv_into (ps_buf s) data; s = s\<lparr>ps_buf := buf\<rparr> in
      if cc = 0 then Some (Done s, q)
      else if if_ifwithaddr ifs from_addr \<noteq> None then Some (Done s, q)
      else case if_ifwithsock ifs fd of
        None \<Rightarrow> Some (Done s, q)
      | Some i \<Rightarrow>
          (case parse_packet (env (int_iface i) from_addr) cc s of
             None \<Rightarrow> None
           | Some Fault \<Rightarrow> Some (Fault, q)
           | Some (Done s) \<Rightarrow> input_loop env ifs fd k q s))"

definition max_input_rounds :: nat where "max_input_rounds = 32"

definition olsr_input ::
    "('i \<Rightarrow> ip_addr \<Rightarrow> 'a parse_env) \<Rightarrow> 'i net_interface list \<Rightarrow> nat \<Rightarrow> (ip_addr \<times> byte list) list \<Rightarrow> 'a parse_state \<Rightarrow>
     ('a parse_end \<times> (ip_addr \<times> byte list) list) option" where
  "olsr_input env ifs fd q s = input_loop env ifs fd max_input_rounds q s"

end
