(* ===== verification/Hello_Path.thy ===== *)
theory Hello_Path imports Packet_Claims Packet_Input begin

text \<open>
  The way of a HELLO message: its messages in the packets of the output buffer, their handling by the parser of the receiver, and the
  loop that takes in the packets.
\<close>

section \<open>Messages of a HELLO\<close>

lemma numbered_append:
  "numbered ser h n (gss @ hss) = numbered ser h n gss @ numbered ser h (n + of_nat (length gss)) hss"
  by (induction gss arbitrary: n) (simp_all add: algebra_simps)

lemma length_numbered [simp]: "length (numbered ser h n gss) = length gss"
  by (induction gss arbitrary: n) simp_all

lemma numbered_split:
  assumes "numbered ser h n gss = vs @ ws"
  shows "vs = numbered ser h n (take (length vs) gss)"
    "ws = numbered ser h (n + of_nat (length vs)) (drop (length vs) gss)"
proof -
  have l: "length gss = length vs + length ws" using assms length_numbered by (metis length_append)
  have "numbered ser h n gss = numbered ser h n (take (length vs) gss) @
      numbered ser h (n + of_nat (length vs)) (drop (length vs) gss)"
    using numbered_append [of ser h n "take (length vs) gss" "drop (length vs) gss"] l by simp
  then have "vs @ ws = numbered ser h n (take (length vs) gss) @ numbered ser h (n + of_nat (length vs)) (drop (length vs) gss)"
    by (simp only: assms)
  moreover have "length (numbered ser h n (take (length vs) gss)) = length vs" using l by simp
  ultimately show "vs = numbered ser h n (take (length vs) gss)"
    "ws = numbered ser h (n + of_nat (length vs)) (drop (length vs) gss)"
    by (metis append_eq_append_conv)+
qed

lemma message_bytes_wire:
  assumes "hello_off + length (groups_bytes ser gs) < 65536"
  shows "wire_message (message_bytes ser h n gs)"
proof -
  have "take 2 (drop 2 (message_bytes ser h n gs)) = pkt_put_u16 (of_nat (length (groups_bytes ser gs) + hello_off))"
    by (simp add: message_bytes_def serialize_common_def)
  then show ?thesis
    using assms by (simp add: wire_message_def length_message_bytes pkt_put_u16_def hello_off_def add.commute)
qed

lemma message_fields:
  assumes "w = message_bytes ser h n gs" "length pre = m"
  shows "msg_type (pre @ w @ rest) m = Some (oc_type (lh_comm h))"
    "msg_originator (pre @ w @ rest) m = Some (oc_orig (lh_comm h))"
    "msg_seqno (pre @ w @ rest) m = Some n"
proof -
  have a: "drop 4 w = pkt_put_ipaddress (oc_orig (lh_comm h)) @ drop 8 w" "drop 10 w = pkt_put_u16 n @ drop 12 w"
    by (simp_all add: assms(1) message_bytes_def serialize_common_def)
  have len: "16 \<le> length w" by (simp add: assms(1) length_message_bytes hello_off_def)
  have "w ! 0 = oc_type (lh_comm h)" by (simp add: assms(1) message_bytes_def serialize_common_def)
  moreover have "w \<noteq> []" using len by auto
  ultimately show "msg_type (pre @ w @ rest) m = Some (oc_type (lh_comm h))"
    using rd_nat [of m "pre @ w @ rest"] assms(2) by (auto simp: msg_type_def nth_append)
  have "get_bytes (pre @ w @ rest) (int (m + 4)) 4 = Some (pkt_put_ipaddress (oc_orig (lh_comm h)))"
    using get_bytes_nat [of "m + 4" 4 "pre @ w @ rest"] assms(2) len a(1) by simp
  then show "msg_originator (pre @ w @ rest) m = Some (oc_orig (lh_comm h))"
    by (simp add: msg_originator_def pkt_put_ipaddress_def)
  have "get_bytes (pre @ w @ rest) (int (m + 10)) 2 = Some (pkt_put_u16 n)"
    using get_bytes_nat [of "m + 10" 2 "pre @ w @ rest"] assms(2) len a(2) by simp
  then show "msg_seqno (pre @ w @ rest) m = Some n" by (simp add: msg_seqno_def msg_u16_def pkt_put_u16_def)
qed

section \<open>One message at the receiver\<close>

text \<open>The state of the node after a HELLO message.\<close>

definition hear :: "olsr_iface \<Rightarrow> 'q hello_message \<Rightarrow> 'q olsr_node \<Rightarrow> 'q olsr_node" where
  "hear in_if msg nd = nd\<lparr>nd_hellos := nd_hellos nd @ [msg], nd_selectors := note_selector msg in_if (nd_selectors nd)\<rparr>"

definition heard_message :: "('q \<Rightarrow> byte list) \<Rightarrow> 'q hello_metric \<Rightarrow> 'q lq_hello_message \<Rightarrow> u16 \<Rightarrow> 'q hello_grp list \<Rightarrow> 'q hello_message" where
  "heard_message ser M h n gs = header_fields_of h n (rev (map (received_nbr ser M) (members gs)))"

context lq_handler
begin

lemma hello_parsed:
  assumes M: "M = \<lparr>me_clear = q0, me_deserialize = deserialize, me_cost = calc_cost\<rparr>"
    and env: "env = node_env M in_if from_addr own deny td now"
    and w: "ps_buf s = pre @ message_bytes serialize h n gs @ rest" "length pre = m"
    and gs: "list_all grp_ok gs" "hello_off + length (groups_bytes serialize gs) < 65536"
    and h: "oc_type (lh_comm h) = lq_hello_message_type" "oc_orig (lh_comm h) \<noteq> own" "olsr_validate_address deny (oc_orig (lh_comm h))"
    and new: "olsr_shall_process_message td now (oc_orig (lh_comm h)) n (ps_dups s) = (ds, True)"
  shows "parse_message env m s = Some (s\<lparr>ps_dups := ds, ps_user := hear in_if (heard_message serialize M h n gs) (ps_user s)\<rparr>, False)"
proof -
  note f = message_fields [OF refl w(2), of serialize h n gs rest]
  have read: "deserialize_hello M (message_bytes serialize h n gs @ rest) = Some (Some (heard_message serialize M h n gs))"
    using read_message [OF M gs h(1)] by (simp add: heard_message_def)
  have "run_entry env m \<lparr>pf_type = ucast lq_hello_message_type, pf_forwarding = True, pf_function = 0\<rparr> (s\<lparr>ps_dups := ds\<rparr>, False) =
      Some (s\<lparr>ps_dups := ds, ps_user := hear in_if (heard_message serialize M h n gs) (ps_user s)\<rparr>, True)"
    using f(1) w read by (simp add: run_entry_def env node_env_def h(1) olsr_input_hello_def hear_def)
  then have "iter (pe_functions env) (run_entry env m) (s\<lparr>ps_dups := ds\<rparr>, False) =
      Some (s\<lparr>ps_dups := ds, ps_user := hear in_if (heard_message serialize M h n gs) (ps_user s)\<rparr>, True)"
    by (simp add: env node_env_def olsr_parser_add_function_def)
  then show ?thesis using f w(1) h new by (simp add: parse_message_def env node_env_def)
qed

end

section \<open>The packets of one HELLO at the receiver\<close>

text \<open>The next message with the counter \<open>n\<close> is no duplicate.\<close>

definition next_fresh :: "dup_set \<Rightarrow> ip_addr \<Rightarrow> u16 \<Rightarrow> bool" where
  "next_fresh ds a n \<longleftrightarrow> (case ds a of None \<Rightarrow> True | Some e \<Rightarrow> du_seqnr e + 1 = n \<and> n \<noteq> 0)"

lemma next_fresh_step:
  assumes "next_fresh ds a n" "n + 1 \<noteq> 0"
  shows "\<exists>ds'. olsr_shall_process_message td now a n ds = (ds', True) \<and> next_fresh ds' a (n + 1)"
proof (cases "ds a")
  case None
  then show ?thesis using assms(2) by (simp add: olsr_shall_process_message_def next_fresh_def olsr_create_duplicate_entry_def Let_def)
next
  case (Some e)
  then have n: "n = du_seqnr e + 1" "n \<noteq> 0" using assms(1) by (simp_all add: next_fresh_def)
  then have "unat n = Suc (unat (du_seqnr e))" using unatSuc [of "du_seqnr e"] by (simp add: add.commute)
  then have "int (unat n) = int (unat (du_seqnr e)) + 1" by (simp only: of_nat_Suc add.commute)
  then have "uint n = uint (du_seqnr e) + 1" by (simp only: uint_nat)
  then have d: "seq_diff n (du_seqnr e) = 1" by (simp add: seq_diff_def)
  have judged: "\<exists>e'. judge n f = (e', True) \<and> du_seqnr e' = n" if "du_seqnr f = du_seqnr e" for f
    using d that by (simp add: judge_def Let_def)
  define f where "f = (if sint (get_timestamp td duplicate_vtime now) > sint (du_valid_until e)
    then e\<lparr>du_valid_until := get_timestamp td duplicate_vtime now\<rparr> else e)"
  have "du_seqnr f = du_seqnr e" by (simp add: f_def)
  then obtain e' where e': "judge n f = (e', True)" "du_seqnr e' = n" using judged by blast
  have "olsr_shall_process_message td now a n ds = (ds(a \<mapsto> e'), True)"
    using Some e'(1) by (simp add: olsr_shall_process_message_def Let_def f_def [symmetric])
  then show ?thesis using e'(2) assms(2) by (simp add: next_fresh_def)
qed

fun heard_all ::
    "('q \<Rightarrow> byte list) \<Rightarrow> 'q hello_metric \<Rightarrow> 'q lq_hello_message \<Rightarrow> u16 \<Rightarrow> 'q hello_grp list list \<Rightarrow> 'q hello_message list" where
  "heard_all ser M h n [] = []"
| "heard_all ser M h n (gs # gss) = heard_message ser M h n gs # heard_all ser M h (n + 1) gss"

lemma heard_all_append:
  "heard_all ser M h n (gss @ hss) = heard_all ser M h n gss @ heard_all ser M h (n + of_nat (length gss)) hss"
  by (induction gss arbitrary: n) (simp_all add: algebra_simps)

lemma heard_all_neighbors:
  "mset (concat (map hm_neighbors (heard_all ser M h n gss))) = image_mset (received_nbr ser M) (mset (members (concat gss)))"
  by (induction gss arbitrary: n) (simp_all add: heard_message_def header_fields_of_def)

lemma next_counter:
  assumes "unat n + Suc k \<le> 65535"
  shows "n + 1 \<noteq> (0 :: u16)" "unat (n + 1) + k \<le> 65535"
proof -
  have "n + 1 = of_nat (unat n + 1)" by simp
  then have "unat (n + 1) = unat n + 1" using assms unat_u16 [of "unat n + 1"] by (simp only: )
  then show "n + 1 \<noteq> (0 :: u16)" "unat (n + 1) + k \<le> 65535" using assms by auto
qed

lemma node_start:
  assumes "ps_buf s = a @ b @ c" "length a = 2" "length b = 2" "4 \<le> length c"
  shows "\<exists>x. length x = 2 \<and> parse_start (node_env M in_if from_addr own deny td now) cc s = Some (s\<lparr>ps_buf := a @ x @ c\<rparr>)"
proof -
  let ?x = "le16 (htons (of_le16 b))"
  have g: "get_bytes (ps_buf s) 2 2 = Some b" "put_bytes (ps_buf s) 2 ?x = Some (a @ ?x @ c)"
    using get_bytes_append [of a 2 b 2 c] put_bytes_append [of a 2 b ?x c] assms by simp_all
  have "\<exists>y. msg_size (a @ ?x @ c) 4 = Some y"
    using get_bytes_in [of 6 2 "a @ ?x @ c"] assms by (auto simp: msg_size_def msg_u16_def)
  then show ?thesis using g by (intro exI [of _ ?x]) (auto simp: parse_start_def node_env_def)
qed

context lq_handler
begin

lemma deliver_hellos:
  assumes M: "M = \<lparr>me_clear = q0, me_deserialize = deserialize, me_cost = calc_cost\<rparr>"
    and env: "env = node_env M in_if from_addr own deny td now"
    and h: "oc_type (lh_comm h) = lq_hello_message_type" "oc_orig (lh_comm h) \<noteq> own" "olsr_validate_address deny (oc_orig (lh_comm h))"
  shows "ps_buf s = pre @ concat (numbered serialize h n gss) @ rest \<Longrightarrow> length pre = m \<Longrightarrow> list_all grp_ok (concat gss) \<Longrightarrow>
    list_all (\<lambda>gs. hello_off + length (groups_bytes serialize gs) < 65536) gss \<Longrightarrow> next_fresh (ps_dups s) (oc_orig (lh_comm h)) n \<Longrightarrow>
    unat n + length gss \<le> 65535 \<Longrightarrow>
    \<exists>s'. deliver env m (map length (numbered serialize h n gss)) s = Done s' \<and> ps_buf s' = ps_buf s \<and>
      nd_hellos (ps_user s') = nd_hellos (ps_user s) @ heard_all serialize M h n gss \<and>
      next_fresh (ps_dups s') (oc_orig (lh_comm h)) (n + of_nat (length gss))"
proof (induction gss arbitrary: n s pre m)
  case (Cons gs gss)
  let ?w = "message_bytes serialize h n gs"
  note c = next_counter [of n "length gss"]
  obtain ds where ds: "olsr_shall_process_message td now (oc_orig (lh_comm h)) n (ps_dups s) = (ds, True)"
    "next_fresh ds (oc_orig (lh_comm h)) (n + 1)"
    using next_fresh_step [OF Cons.prems(5)] c(1) Cons.prems(6) by force
  define s1 where "s1 = s\<lparr>ps_dups := ds, ps_user := hear in_if (heard_message serialize M h n gs) (ps_user s)\<rparr>"
  have buf: "ps_buf s = pre @ ?w @ concat (numbered serialize h (n + 1) gss) @ rest" using Cons.prems(1) by simp
  have "parse_message env m s = Some (s1, False)"
    using Cons.prems(3,4) unfolding s1_def by (intro hello_parsed [OF M env buf Cons.prems(2) _ _ h ds(1)]) simp_all
  moreover have "\<exists>s'. deliver env (m + length ?w) (map length (numbered serialize h (n + 1) gss)) s1 = Done s' \<and> ps_buf s' = ps_buf s1 \<and>
      nd_hellos (ps_user s') = nd_hellos (ps_user s1) @ heard_all serialize M h (n + 1) gss \<and>
      next_fresh (ps_dups s') (oc_orig (lh_comm h)) (n + 1 + of_nat (length gss))"
    using Cons.prems buf c(2) ds(2) by (intro Cons.IH [of s1 "pre @ ?w"]) (simp_all add: s1_def)
  ultimately show ?case by (auto simp: s1_def hear_def algebra_simps)
qed simp

lemma packet_hellos:
  assumes M: "M = \<lparr>me_clear = q0, me_deserialize = deserialize, me_cost = calc_cost\<rparr>"
    and env: "env = node_env M in_if from_addr own deny td now"
    and h: "oc_type (lh_comm h) = lq_hello_message_type" "oc_orig (lh_comm h) \<noteq> own" "olsr_validate_address deny (oc_orig (lh_comm h))"
    and p: "packet_of (numbered serialize h n gss) p" "length p < 65536" "ps_buf s = p @ rest"
    and gss: "list_all grp_ok (concat gss)" "next_fresh (ps_dups s) (oc_orig (lh_comm h)) n" "unat n + length gss \<le> 65535"
  shows "\<exists>s'. parse_packet env (length p) s = Some (Done s') \<and> length (ps_buf s') = length (ps_buf s) \<and>
      nd_hellos (ps_user s') = nd_hellos (ps_user s) @ heard_all serialize M h n gss \<and>
      next_fresh (ps_dups s') (oc_orig (lh_comm h)) (n + of_nat (length gss))"
proof -
  let ?ws = "numbered serialize h n gss"
  obtain k where k: "p = pkt_put_u16 (of_nat (length (concat ?ws) + 4)) @ pkt_put_u16 k @ concat ?ws"
    using p(1) by (auto simp: packet_of_def)
  define hd1 where "hd1 = pkt_put_u16 (of_nat (length (concat ?ws) + 4))"
  have p4: "p = hd1 @ pkt_put_u16 k @ concat ?ws" "length hd1 = 2" using k by (simp_all add: hd1_def)
  have len: "length p = length (concat ?ws) + 4" using p4 by (simp del: length_concat)
  show ?thesis
  proof (cases gss)
    case Nil
    then show ?thesis using gss(2) p4 by (intro exI [of _ s]) (simp add: parse_packet_def min_packet_size_def)
  next
    case (Cons gs gs')
    have small: "\<forall>w \<in> set ?ws. length w < 65536"
      using p(2) len member_le_sum_list [of _ "map length ?ws"] by (fastforce simp: length_concat)
    have sizes: "list_all (\<lambda>gs. hello_off + length (groups_bytes serialize gs) < 65536) hss"
      if "\<forall>w \<in> set (numbered serialize h j hss). length w < 65536" for j hss
      using that by (induction hss arbitrary: j) (simp, fastforce simp: length_message_bytes)
    have wires: "list_all wire_message (numbered serialize h j hss)"
      if "list_all (\<lambda>gs. hello_off + length (groups_bytes serialize gs) < 65536) hss" for j hss
      using that by (induction hss arbitrary: j) (simp_all add: message_bytes_wire)
    have body: "16 \<le> length (concat ?ws)" by (simp add: Cons length_message_bytes hello_off_def)
    then obtain x where x: "length x = 2" "parse_start env (length p) s = Some (s\<lparr>ps_buf := hd1 @ x @ concat ?ws @ rest\<rparr>)"
      using node_start [of s hd1 "pkt_put_u16 k" "concat ?ws @ rest" M in_if from_addr own deny td now "length p"] p(3) p4 env by auto
    have "\<exists>s'. deliver env 4 (map length ?ws) (s\<lparr>ps_buf := hd1 @ x @ concat ?ws @ rest\<rparr>) = Done s' \<and>
        ps_buf s' = hd1 @ x @ concat ?ws @ rest \<and> nd_hellos (ps_user s') = nd_hellos (ps_user s) @ heard_all serialize M h n gss \<and>
        next_fresh (ps_dups s') (oc_orig (lh_comm h)) (n + of_nat (length gss))"
      using deliver_hellos [OF M env h, of "s\<lparr>ps_buf := hd1 @ x @ concat ?ws @ rest\<rparr>" "hd1 @ x" n gss rest 4]
        x(1) p4(2) gss sizes [OF small] by simp
    then obtain s' where s': "deliver env 4 (map length ?ws) (s\<lparr>ps_buf := hd1 @ x @ concat ?ws @ rest\<rparr>) = Done s'"
      "ps_buf s' = hd1 @ x @ concat ?ws @ rest" "nd_hellos (ps_user s') = nd_hellos (ps_user s) @ heard_all serialize M h n gss"
      "next_fresh (ps_dups s') (oc_orig (lh_comm h)) (n + of_nat (length gss))" by blast
    have pf: "parse_functions env" unfolding env by (rule node.parse_functions_axioms)
    have "8 \<le> length p" using body len by simp
    from packet_walk [OF pf wires [OF sizes [OF small]] p(1) this p(2,3)] have "parse_packet env (length p) s = Some (Done s')"
      using x(2) s'(1) by simp
    moreover have "length (ps_buf s') = length (ps_buf s)" using s'(2) x(1) p(3) p4 by (simp del: length_concat)
    ultimately show ?thesis using s'(3,4) by blast
  qed
qed

lemma input_hellos:
  assumes M: "M = \<lparr>me_clear = q0, me_deserialize = deserialize, me_cost = calc_cost\<rparr>"
    and h: "oc_type (lh_comm h) = lq_hello_message_type" "oc_orig (lh_comm h) \<noteq> own" "olsr_validate_address deny (oc_orig (lh_comm h))"
    and ifs: "if_ifwithaddr ifs from_addr = None" "if_ifwithsock ifs fd = Some i"
  shows "list_all2 packet_of ps sent \<Longrightarrow> concat ps = numbered serialize h n gss \<Longrightarrow> list_all (\<lambda>vs. length (concat vs) \<le> 1496) ps \<Longrightarrow>
    length sent \<le> k \<Longrightarrow> length (ps_buf s) = inbuf_size \<Longrightarrow> list_all grp_ok (concat gss) \<Longrightarrow>
    next_fresh (ps_dups s) (oc_orig (lh_comm h)) n \<Longrightarrow> unat n + length gss \<le> 65535 \<Longrightarrow>
    \<exists>s'. input_loop (\<lambda>in_if from_addr. node_env M in_if from_addr own deny td now) ifs fd k (map (Pair from_addr) sent) s = Some (Done s', []) \<and>
      nd_hellos (ps_user s') = nd_hellos (ps_user s) @ heard_all serialize M h n gss"
proof (induction ps arbitrary: sent n gss k s)
  case Nil
  have "gss = []" using Nil.prems(2) length_numbered [of serialize h n gss] by (metis concat.simps(1) length_0_conv)
  moreover have "sent = []" using Nil.prems(1) by simp
  ultimately show ?case by (cases k) simp_all
next
  case (Cons vs ps)
  let ?env = "\<lambda>in_if from_addr. node_env M in_if from_addr own deny td now"
  obtain p rest k' where p: "sent = p # rest" "packet_of vs p" "list_all2 packet_of ps rest" "k = Suc k'" "length rest \<le> k'"
    using Cons.prems(1,4) by (cases sent; cases k) auto
  have split: "numbered serialize h n gss = vs @ concat ps" using Cons.prems(2) by simp
  define g1 g2 where "g1 = take (length vs) gss" and "g2 = drop (length vs) gss"
  note sp = numbered_split [OF split, folded g1_def g2_def]
  have g: "gss = g1 @ g2" by (simp add: g1_def g2_def)
  have lv: "length vs = length g1" using sp(1) length_numbered by metis
  have lp: "length p = length (concat vs) + 4" using p(2) by (auto simp: packet_of_def simp del: length_concat)
  then have lp': "4 \<le> length p" "length p \<le> 1500" using Cons.prems(3) by simp_all
  have recv: "recv_into (ps_buf s) p = (p @ drop (length p) (ps_buf s), length p)"
    using lp' Cons.prems(5) by (simp add: recv_into_def inbuf_size_def maxmessagesize_def)
  define s0 where "s0 = s\<lparr>ps_buf := p @ drop (length p) (ps_buf s)\<rparr>"
  have "\<exists>s'. parse_packet (?env (int_iface i) from_addr) (length p) s0 = Some (Done s') \<and> length (ps_buf s') = length (ps_buf s0) \<and>
      nd_hellos (ps_user s') = nd_hellos (ps_user s0) @ heard_all serialize M h n g1 \<and>
      next_fresh (ps_dups s') (oc_orig (lh_comm h)) (n + of_nat (length g1))"
    using Cons.prems(6,7,8) p(2) sp(1) lp' g
    by (intro packet_hellos [OF M refl h, of n g1 p s0 "drop (length p) (ps_buf s)"]) (simp_all add: s0_def)
  then obtain s1 where s1: "parse_packet (?env (int_iface i) from_addr) (length p) s0 = Some (Done s1)" "length (ps_buf s1) = length (ps_buf s0)"
    "nd_hellos (ps_user s1) = nd_hellos (ps_user s0) @ heard_all serialize M h n g1"
    "next_fresh (ps_dups s1) (oc_orig (lh_comm h)) (n + of_nat (length g1))" by blast
  have cnt: "unat (n + of_nat (length g1)) + length g2 \<le> 65535"
  proof -
    have "n + of_nat (length g1) = of_nat (unat n + length g1)" by simp
    moreover have "unat n + length g1 < 65536" using Cons.prems(8) g by simp
    ultimately have "unat (n + of_nat (length g1)) = unat n + length g1" by (metis unat_u16)
    then show ?thesis using Cons.prems(8) g by simp
  qed
  have "\<exists>s'. input_loop ?env ifs fd k' (map (Pair from_addr) rest) s1 = Some (Done s', []) \<and>
      nd_hellos (ps_user s') = nd_hellos (ps_user s1) @ heard_all serialize M h (n + of_nat (length g1)) g2"
    using Cons.prems(3,5,6) p(3,5) sp(2) s1(2,4) cnt g lv lp' by (intro Cons.IH) (simp_all add: s0_def inbuf_size_def maxmessagesize_def)
  then show ?case
    using s1(1,3) lp'(1) recv ifs by (auto simp: p(1,4) s0_def g heard_all_append Let_def)
qed

end

section \<open>Sizes of messages\<close>

lemma ob_msgs_length:
  assumes "ob_msgs ob ws" "w \<in> set ws"
  shows "length w \<le> ob_maxsize ob"
proof -
  obtain ps vs where r: "ob_rep ob ps vs" "concat ps @ vs = ws" using assms(1) by (auto simp: ob_msgs_def)
  have part: "length w \<le> length (concat us)" if "w \<in> set us" for us :: "byte list list"
    using that member_le_sum_list [of "length w" "map length us"] by (simp add: length_concat)
  from r assms(2) have "w \<in> set vs \<or> (\<exists>us \<in> set ps. w \<in> set us)" by auto
  then show ?thesis
  proof
    assume "w \<in> set vs"
    then show ?thesis using part [of vs] r(1) by (simp add: ob_rep_def)
  next
    assume "\<exists>us \<in> set ps. w \<in> set us"
    then obtain us where us: "us \<in> set ps" "w \<in> set us" by blast
    then have "length (concat us) \<le> ob_maxsize ob" using r(1) by (simp add: ob_rep_def list_all_iff)
    then show ?thesis using part [OF us(2)] by linarith
  qed
qed

text \<open>The entries of the types that the writer knows.\<close>

definition writable :: "'q lq_hello_neighbor \<Rightarrow> bool" where
  "writable n \<longleftrightarrow> (ln_neigh_type n, ln_link_type n) \<in> set hello_groups"

lemma heard_writable:
  assumes "members (concat gss) = in_order (lh_neigh h)"
  shows "mset (concat (map hm_neighbors (heard_all ser M h n gss))) =
    image_mset (received_nbr ser M) (mset (filter writable (lh_neigh h)))"
  unfolding heard_all_neighbors assms mset_in_order writable_def ..

context lq_handler
begin

lemma numbered_read:
  assumes M: "M = \<lparr>me_clear = q0, me_deserialize = deserialize, me_cost = calc_cost\<rparr>"
    and t: "oc_type (lh_comm h) = lq_hello_message_type"
  shows "list_all grp_ok (concat gss) \<Longrightarrow> \<forall>w \<in> set (numbered serialize h n gss). length w < 65536 \<Longrightarrow>
    map (deserialize_hello M) (numbered serialize h n gss) = map (\<lambda>m. Some (Some m)) (heard_all serialize M h n gss)"
proof (induction gss arbitrary: n)
  case (Cons gs gss)
  have "deserialize_hello M (message_bytes serialize h n gs) = Some (Some (heard_message serialize M h n gs))"
    using read_message [OF M _ _ t, of gs n "[]"] Cons.prems by (simp add: heard_message_def length_message_bytes)
  moreover have "map (deserialize_hello M) (numbered serialize h (n + 1) gss) = map (\<lambda>m. Some (Some m)) (heard_all serialize M h (n + 1) gss)"
    using Cons.prems by (intro Cons.IH) simp_all
  ultimately show ?case by simp
qed simp

lemma hello_written_aux:
  assumes M: "M = \<lparr>me_clear = q0, me_deserialize = deserialize, me_cost = calc_cost\<rparr>"
    and t: "oc_type (lh_comm h) = lq_hello_message_type"
    and ob: "ob_msgs ob ws" "28 \<le> ob_maxsize ob" "ob_maxsize ob \<le> 1496"
  shows "\<exists>gss ob'. serialize_lq_hello serialize h seqno ob = Some (seqno + of_nat (length gss), ob') \<and> ob_maxsize ob' = ob_maxsize ob \<and>
    ob_msgs ob' (ws @ numbered serialize h seqno gss) \<and> list_all grp_ok (concat gss) \<and>
    map (deserialize_hello M) (numbered serialize h seqno gss) = map (\<lambda>m. Some (Some m)) (heard_all serialize M h seqno gss) \<and>
    mset (concat (map hm_neighbors (heard_all serialize M h seqno gss))) =
      image_mset (received_nbr serialize M) (mset (filter writable (lh_neigh h)))"
proof -
  obtain ob' gss where r: "serialize_lq_hello serialize h seqno ob = Some (seqno + of_nat (length gss), ob')"
    "ob_maxsize ob' = ob_maxsize ob" "ob_msgs ob' (ws @ numbered serialize h seqno gss)" "list_all grp_ok (concat gss)"
    "members (concat gss) = in_order (lh_neigh h)"
    using serialize_ok [where ser = serialize, OF serialize_size ob] by blast
  have "\<forall>w \<in> set (numbered serialize h seqno gss). length w < 65536"
    using ob_msgs_length [OF r(3)] ob(3) r(2) by force
  from numbered_read [OF M t r(4) this] show ?thesis
    using r heard_writable [OF r(5), of serialize M seqno] by blast
qed

end

end
