(* ===== verification/Hello_Claims.thy ===== *)
theory Hello_Claims imports Hello_Path begin

text \<open>Properties of HELLO messages from the writer at one node, through the output buffer and the packets, to the reader at another node.\<close>

section \<open>Writing and reading\<close>


text \<open>Two neighbours, one of them with a neighbour type that the writer does not know.\<close>

definition sample_hello :: "default_lq_fpm lq_hello_message" where
  "sample_hello = \<lparr>lh_comm = \<lparr>oc_type = lq_hello_message_type, oc_vtime = 6000, oc_size = 0, oc_orig = 9, oc_ttl = 1, oc_hops = 0\<rparr>,
     lh_htime = 2000, lh_will = 3, lh_neigh =
       [\<lparr>ln_link_type = 2, ln_neigh_type = 1, ln_addr = 7, ln_quality = \<lparr>valueLq = 255, valueNlq = 200, quickstart = 0\<rparr>\<rparr>,
        \<lparr>ln_link_type = 2, ln_neigh_type = 5, ln_addr = 8, ln_quality = \<lparr>valueLq = 1, valueNlq = 2, quickstart = 0\<rparr>\<rparr>]\<rparr>"

abbreviation fpm_metric :: "default_lq_fpm hello_metric" where
  "fpm_metric \<equiv> \<lparr>me_clear = \<lparr>valueLq = 0, valueNlq = 0, quickstart = 0\<rparr>, me_deserialize = default_lq_deserialize_hello_lq_pair_fpm,
     me_cost = default_lq_calc_cost_fpm\<rparr>"

lemma sample_writable: "filter writable (lh_neigh sample_hello) = [hd (lh_neigh sample_hello)]"
  by (simp add: sample_hello_def writable_def hello_groups_eq)

lemma new_buffer_msgs: "ob_msgs (net_add_buffer mtu) []"
  unfolding ob_msgs_def by (intro exI [of _ "[]"]) (simp add: ob_rep_def net_add_buffer_def)


section \<open>From node to node\<close>

text \<open>C9. A HELLO message of any length goes from a node to its neighbour: the neighbour receives the packets that the output buffer sent, in their
  order, and did not hear from the sender before. Then the neighbour reads, without any access outside of its buffers, exactly the
  neighbours of the HELLO, each once. At most 32 packets are taken in by one call, and the counter of the messages must not wrap.\<close>
theorem hello_delivered:
  assumes "lq_handler qualities ser deser cost" "M = \<lparr>me_clear = q0, me_deserialize = deser, me_cost = cost\<rparr>"
    and "oc_type (lh_comm h) = lq_hello_message_type" "oc_orig (lh_comm h) \<noteq> own" "olsr_validate_address deny (oc_orig (lh_comm h))"
    and "32 \<le> mtu" "mtu \<le> 1500" "serialize_lq_hello ser h seqno (net_add_buffer mtu) = Some (seqno', ob)"
    and "sent = ob_sent (net_output ob)" "length sent \<le> 32" "unat seqno < 62000"
    and "if_ifwithaddr ifs from_addr = None" "if_ifwithsock ifs fd = Some i"
    and "length (ps_buf s) = inbuf_size" "ps_dups s (oc_orig (lh_comm h)) = None"
  shows "\<exists>s' hs. olsr_input (\<lambda>in_if from_addr. node_env M in_if from_addr own deny td now) ifs fd (map (Pair from_addr) sent) s = Some (Done s', []) \<and>
    nd_hellos (ps_user s') = nd_hellos (ps_user s) @ hs \<and>
    mset (concat (map hm_neighbors hs)) = image_mset (received_nbr ser M) (mset (filter writable (lh_neigh h)))"
proof -
  have size: "28 \<le> ob_maxsize (net_add_buffer mtu)" "ob_maxsize (net_add_buffer mtu) \<le> 1496" using assms(6,7) by (simp_all add: net_add_buffer_def)
  obtain gss where r: "ob_maxsize ob \<le> 1496" "ob_msgs ob (numbered ser h seqno gss)" "list_all grp_ok (concat gss)"
    "mset (concat (map hm_neighbors (heard_all ser M h seqno gss))) = image_mset (received_nbr ser M) (mset (filter writable (lh_neigh h)))"
    using lq_handler.hello_written_aux [OF assms(1,2,3) new_buffer_msgs size, of seqno] size assms(8) by auto
  obtain ps vs where rep: "ob_rep (net_output ob) ps vs" "concat ps @ vs = numbered ser h seqno gss"
    using net_output_msgs(1) [OF r(2)] by (auto simp: ob_msgs_def)
  have nonempty: "\<forall>w \<in> set (numbered ser h n g). 16 \<le> length w" for n g
    by (induction g arbitrary: n) (simp_all add: length_message_bytes hello_off_def)
  have "vs = []"
  proof (rule ccontr)
    assume "vs \<noteq> []"
    then obtain w where "w \<in> set vs" by (cases vs) auto
    moreover have "concat vs = []" using rep(1) net_output_msgs(2) [OF r(2)] by (simp add: ob_rep_def)
    moreover have "set vs \<subseteq> set (numbered ser h seqno gss)" using rep(2) by (metis set_append sup_ge2)
    ultimately show False using nonempty [of seqno gss] by force
  qed
  then have all: "concat ps = numbered ser h seqno gss" using rep(2) by simp
  have ps: "list_all2 packet_of ps sent" "list_all (\<lambda>us. length (concat us) \<le> 1496) ps"
    using rep(1) r(1) net_output_msgs(3) [OF r(2)] assms(9) by (auto simp: ob_rep_def list_all_iff)
  have "length gss \<le> 3000"
  proof -
    have "16 * length ws \<le> length (concat ws)" if "\<forall>w \<in> set ws. 16 \<le> length w" for ws :: "byte list list"
      using that by (induction ws) auto
    from this [OF nonempty, of seqno gss] have "16 * length gss \<le> length (concat (concat ps))" by (simp add: all)
    moreover have "length (concat (concat qs)) \<le> 1496 * length qs" if "list_all (\<lambda>us. length (concat us) \<le> 1496) qs" for qs :: "byte list list list"
      using that by (induction qs) simp_all
    moreover have "length ps \<le> 32" using list_all2_lengthD [OF ps(1)] assms(10) by simp
    ultimately show ?thesis using ps(2) by fastforce
  qed
  then have "unat seqno + length gss \<le> 65535" using assms(11) by simp
  moreover have "next_fresh (ps_dups s) (oc_orig (lh_comm h)) seqno" using assms(15) by (simp add: next_fresh_def)
  ultimately show ?thesis
    using lq_handler.input_hellos [OF assms(1,2,3,4,5,12,13) ps(1) all ps(2) _ assms(14) r(3), of 32 td now] assms(10) r(4)
    unfolding olsr_input_def max_input_rounds_def by blast
qed

lemma sample_sent:
  "map_option (\<lambda>(n, ob). (n, length (ob_sent (net_output ob))))
    (serialize_lq_hello default_lq_serialize_hello_lq_pair_fpm sample_hello 5 (net_add_buffer 1500)) = Some (6, 1)"
  by code_simp

definition listening_node :: "default_lq_fpm olsr_node parse_state" where
  "listening_node = \<lparr>ps_buf = replicate inbuf_size 0, ps_dups = Map.empty,
     ps_user = \<lparr>nd_nbrs = nbr_init, nd_mids = [], nd_selectors = \<lparr>ms_list = [], ms_ansn = 0, ms_signal = False\<rparr>,
       nd_ifs = [net_add_buffer 1500], nd_hellos = []\<rparr>\<rparr>"

theorem hello_delivered_witness:
  "\<exists>ob s'. serialize_lq_hello default_lq_serialize_hello_lq_pair_fpm sample_hello 5 (net_add_buffer 1500) = Some (6, ob) \<and>
    olsr_input (\<lambda>in_if from_addr. node_env fpm_metric in_if from_addr 4 [0] 10 0)
      [\<lparr>int_addr = 4, olsr_socket = 3, int_iface = \<lparr>if_ip_addr = 4, if_int_name = ''ath0''\<rparr>\<rparr>] 3
      (map (Pair 9) (ob_sent (net_output ob))) listening_node = Some (Done s', []) \<and>
    image_mset hn_addr (mset (concat (map hm_neighbors (nd_hellos (ps_user s'))))) = {# 7 #}"
proof -
  let ?ser = default_lq_serialize_hello_lq_pair_fpm
  let ?ifs = "[\<lparr>int_addr = 4, olsr_socket = 3, int_iface = \<lparr>if_ip_addr = 4, if_int_name = ''ath0''\<rparr>\<rparr>]"
  obtain ob where ob: "serialize_lq_hello ?ser sample_hello 5 (net_add_buffer 1500) = Some (6, ob)" "length (ob_sent (net_output ob)) \<le> 32"
    using sample_sent by auto
  have h: "oc_type (lh_comm sample_hello) = lq_hello_message_type" "oc_orig (lh_comm sample_hello) \<noteq> 4"
    "olsr_validate_address [0] (oc_orig (lh_comm sample_hello))" by (simp_all add: sample_hello_def olsr_validate_address_def)
  have ifs: "if_ifwithaddr ?ifs 9 = None" "if_ifwithsock ?ifs 3 = Some (hd ?ifs)" by simp_all
  have s: "length (ps_buf listening_node) = inbuf_size" "ps_dups listening_node (oc_orig (lh_comm sample_hello)) = None"
    by (simp_all add: listening_node_def)
  have n: "32 \<le> (1500 :: nat)" "(1500 :: nat) \<le> 1500" "unat (5 :: u16) < 62000" by simp_all
  obtain s' hs where r: "olsr_input (\<lambda>in_if from_addr. node_env fpm_metric in_if from_addr 4 [0] 10 0) ?ifs 3
      (map (Pair 9) (ob_sent (net_output ob))) listening_node = Some (Done s', [])"
    "nd_hellos (ps_user s') = nd_hellos (ps_user listening_node) @ hs"
    "mset (concat (map hm_neighbors hs)) = image_mset (received_nbr ?ser fpm_metric) (mset (filter writable (lh_neigh sample_hello)))"
    using hello_delivered [OF fpm_hello.lq_handler_axioms refl h n(1,2) ob(1) refl ob(2) n(3) ifs s, where td = 10 and now = 0] by blast
  have "hn_addr (received_nbr ?ser fpm_metric m) = ln_addr m" for m by (simp add: received_nbr_def)
  then have "image_mset hn_addr (mset (concat (map hm_neighbors hs))) = {# 7 #}"
    by (simp only: r(3) sample_writable) (simp add: sample_hello_def)
  moreover have "nd_hellos (ps_user s') = hs" using r(2) by (simp add: listening_node_def)
  ultimately show ?thesis using ob(1) r(1) by auto
qed

section \<open>A group that is longer than its message\<close>

text \<open>A HELLO message of 20 bytes, the headers and the header of a group that claims to have \<open>k\<close> neighbours.\<close>

definition overlong_hello :: "'q lq_hello_message \<Rightarrow> u16 \<Rightarrow> byte \<Rightarrow> nat \<Rightarrow> byte list" where
  "overlong_hello h seqno code k =
     serialize_common ((lh_comm h)\<lparr>oc_size := 20\<rparr>) seqno @ lq_hello_header h @ [code, 0] @ pkt_put_u16 (of_nat (4 + 8 * k))"

text \<open>C30. The reader believes the size of a group, without comparing it with the size of the message: what lies behind the message is read as
  neighbours of its sender. Where the buffer ends with the message, the read leaves the buffer.\<close>
theorem hello_overread:
  fixes M :: "'q hello_metric"
  assumes "lq_handler qualities ser deser cost" "M = \<lparr>me_clear = q0, me_deserialize = deser, me_cost = cost\<rparr>"
    and "oc_type (lh_comm h) = lq_hello_message_type" "(i, j) \<in> set hello_groups" "8 * length ns < 65532"
    and "list_all (\<lambda>n. (ln_neigh_type n, ln_link_type n) = (i, j)) ns"
  shows "length (overlong_hello h seqno (create_link_code i j) (length ns)) = 20 \<and>
    deserialize_hello M (overlong_hello h seqno (create_link_code i j) (length ns) @ entries_bytes ser ns @ p) =
      Some (Some (header_fields_of h seqno (rev (map (received_nbr ser M) ns)))) \<and>
    (deserialize_hello M (overlong_hello h seqno (create_link_code i j) (length ns)) = None \<or> ns = [])"
proof -
  define k where "k = 4 + 8 * length ns"
  have u: "unat (of_nat k :: u16) = k" using assms(5) by (intro unat_u16) (simp add: k_def)
  have one: "pkt_get_u8 (x # q) = Some (x, q)" "pkt_ignore_u8 (x # q) = Some q" for x q by (simp_all add: pkt_get_u8_def pkt_ignore_u8_def)
  have mo: "x \<bind> (\<lambda>y. Some (f y)) = map_option f x" for x and f :: "'q hello_nbr list \<Rightarrow> 'q hello_message option" by (cases x) simp_all
  have read: "read_group M True (create_link_code i j) (16 + k) 20 (entries_bytes ser ns @ p) [] =
      Some (16 + k, p, rev (map (received_nbr ser M) ns))"
    using lq_handler.read_entries [OF assms(1,2,4,6), of 20 p "[]"] by (simp add: k_def add.assoc)
  have head: "deserialize_hello M (overlong_hello h seqno (create_link_code i j) (length ns) @ q) =
      (case read_group M True (create_link_code i j) (16 + k) 20 q [] of None \<Rightarrow> None
       | Some (pos, p, ns) \<Rightarrow> map_option (\<lambda>ns. Some (header_fields_of h seqno ns)) (read_groups M True 20 pos p ns))" for q
    unfolding deserialize_hello_def overlong_hello_def serialize_common_def lq_hello_header_def k_def [symmetric]
    by (simp add: one u assms(3) lq_hello_message_type_def hello_message_type_def header_fields_of_def read_groups.simps [of M True 20 16] mo
        split: option.splits)
  have over: "read_group M True (create_link_code i j) (16 + k) 20 [] [] = None" if "ns \<noteq> []"
    using that by (subst read_group.simps) (simp add: k_def read_neighbor_def pkt_get_ipaddress_def)
  have stop: "read_groups M True 20 (16 + k) p r = Some r" for r by (subst read_groups.simps) (simp add: k_def)
  have "length (overlong_hello h seqno (create_link_code i j) (length ns)) = 20" by (simp add: overlong_hello_def)
  then show ?thesis using head [of "entries_bytes ser ns @ p"] read stop head [of "[]"] over by auto
qed

theorem hello_overread_witness:
  "deserialize_hello fpm_metric (overlong_hello sample_hello 5 (create_link_code 1 2) 1) = None"
  using hello_overread [OF fpm_hello.lq_handler_axioms refl, where h = sample_hello and i = 1 and j = 2 and
      ns = "[hd (lh_neigh sample_hello)]" and ?q0.0 = "\<lparr>valueLq = 0, valueNlq = 0, quickstart = 0\<rparr>" and seqno = 5]
  by (simp add: sample_hello_def hello_groups_eq)

end
