(* ===== verification/Lsdb.thy ===== *)
theory Lsdb imports Hello_Wire begin

text \<open>
  The link state database of the daemon (\<open>tc_set.c\<close>): the nodes of the network with the edges that their TC messages announce. An AVL tree
  is the list of its elements in the order of the keys; an address is the 32-bit word that the code compares. An edge is named
  by its owner and its destination. Timers are given by the time that they were last set to, and the calls of the routing table are recorded. The
  reference counters, which only decide when the memory of a removed entry is given back, are left out.
\<close>

section \<open>Sequence numbers\<close>

definition tc_ansn_window :: int where "tc_ansn_window = 256"
definition tc_seqno_window :: int where "tc_seqno_window = 1024"
definition tc_ansn_window_mult :: int where "tc_ansn_window_mult = 4"
definition tc_seqno_window_mult :: int where "tc_seqno_window_mult = 8"

definition olsr_seq_inrange_low :: "int \<Rightarrow> int \<Rightarrow> u16 \<Rightarrow> bool" where
  "olsr_seq_inrange_low beg end_seq seq =
     (if beg < 0 then uint seq \<ge> uint (of_int beg :: u16) \<or> uint seq < end_seq
      else if end_seq \<ge> 0x10000 then uint seq \<ge> beg \<or> uint seq < uint (of_int end_seq :: u16)
      else uint seq \<ge> beg \<and> uint seq < end_seq)"

definition olsr_seq_inrange_high :: "int \<Rightarrow> int \<Rightarrow> u16 \<Rightarrow> bool" where
  "olsr_seq_inrange_high beg end_seq seq =
     (if beg < 0 then uint seq > uint (of_int beg :: u16) \<or> uint seq \<le> end_seq
      else if end_seq \<ge> 0x10000 then uint seq > beg \<or> uint seq \<le> uint (of_int end_seq :: u16)
      else uint seq > beg \<and> uint seq \<le> end_seq)"

definition seqno_greater_than :: "u16 \<Rightarrow> u16 \<Rightarrow> bool" where
  "seqno_greater_than s1 s2 \<longleftrightarrow>
     (s1 > s2 \<and> uint s1 - uint s2 \<le> 0xFFFF div 2) \<or> (s2 > s1 \<and> uint s2 - uint s1 > 0xFFFF div 2)"

section \<open>State\<close>

record 'q tc_edge_entry =
  ed_ansn :: u16
  ed_cost :: ulong
  ed_quality :: 'q
  ed_inv :: "(ip_addr \<times> ip_addr) option"

record 'q lsdb_node =
  tn_edges :: "(ip_addr \<times> 'q tc_edge_entry) list"
  tn_gc :: "ulong option"
  tn_validity :: "ulong option"
  tn_msg_seq :: u16
  tn_msg_hops :: byte
  tn_ansn :: u16
  tn_ignored :: u16
  tn_err_seq :: u16
  tn_err_seq_valid :: bool

datatype rt_call = Rt_Insert ip_addr | Rt_Delete ip_addr

record 'q lsdb =
  ls_tree :: "ip_addr \<rightharpoonup> 'q lsdb_node"
  ls_changes :: bool
  ls_rt :: "rt_call list"

text \<open>The configuration and the active metric; a new edge has the quality whose bytes are all 0. \<open>tf_link_status\<close> is \<open>check_neighbor_link\<close>.\<close>

record 'q tc_conf =
  tf_main_addr :: ip_addr
  tf_lq_level :: nat
  tf_lq_dlimit :: byte
  tf_deny :: "ip_addr list"
  tf_zero :: 'q
  tf_deserialize :: "byte list \<Rightarrow> 'q \<Rightarrow> ('q \<times> byte list) option"
  tf_cost :: "'q \<Rightarrow> ulong option"
  tf_relevant :: "ulong \<Rightarrow> ulong \<Rightarrow> bool"
  tf_link_status :: "ip_addr \<Rightarrow> byte"

section \<open>Trees\<close>

fun avl_ins :: "ip_addr \<Rightarrow> 'e \<Rightarrow> (ip_addr \<times> 'e) list \<Rightarrow> (ip_addr \<times> 'e) list" where
  "avl_ins k v [] = [(k, v)]"
| "avl_ins k v ((a, b) # ps) = (if k < a then (k, v) # (a, b) # ps else if k = a then (a, b) # ps else (a, b) # avl_ins k v ps)"

definition avl_del :: "ip_addr \<Rightarrow> (ip_addr \<times> 'e) list \<Rightarrow> (ip_addr \<times> 'e) list" where
  "avl_del k ps = filter (\<lambda>p. fst p \<noteq> k) ps"

definition avl_upd :: "ip_addr \<Rightarrow> ('e \<Rightarrow> 'e) \<Rightarrow> (ip_addr \<times> 'e) list \<Rightarrow> (ip_addr \<times> 'e) list" where
  "avl_upd k f ps = map (\<lambda>(a, b). (a, if a = k then f b else b)) ps"

definition upd_tc :: "ip_addr \<Rightarrow> ('q lsdb_node \<Rightarrow> 'q lsdb_node) \<Rightarrow> 'q lsdb \<Rightarrow> 'q lsdb option" where
  "upd_tc a f s = map_option (\<lambda>tc. s\<lparr>ls_tree := (ls_tree s)(a \<mapsto> f tc)\<rparr>) (ls_tree s a)"

definition get_edge :: "'q lsdb \<Rightarrow> ip_addr \<times> ip_addr \<Rightarrow> 'q tc_edge_entry option" where
  "get_edge s k = Option.bind (ls_tree s (fst k)) (\<lambda>tc. map_of (tn_edges tc) (snd k))"

definition upd_edge :: "ip_addr \<times> ip_addr \<Rightarrow> ('q tc_edge_entry \<Rightarrow> 'q tc_edge_entry) \<Rightarrow> 'q lsdb \<Rightarrow> 'q lsdb option" where
  "upd_edge k f s = do { e \<leftarrow> get_edge s k; upd_tc (fst k) (\<lambda>tc. tc\<lparr>tn_edges := avl_upd (snd k) f (tn_edges tc)\<rparr>) s }"

section \<open>Nodes\<close>

definition new_tc :: "'q lsdb_node" where
  "new_tc = \<lparr>tn_edges = [], tn_gc = None, tn_validity = None, tn_msg_seq = 0, tn_msg_hops = 0, tn_ansn = 0, tn_ignored = 0,
     tn_err_seq = 0, tn_err_seq_valid = False\<rparr>"

definition olsr_add_tc_entry :: "'q tc_conf \<Rightarrow> ip_addr \<Rightarrow> 'q lsdb \<Rightarrow> 'q lsdb \<times> bool" where
  "olsr_add_tc_entry c a s =
     (if tf_main_addr c = 0 then (s, False)
      else (s\<lparr>ls_tree := (case ls_tree s a of None \<Rightarrow> (ls_tree s)(a \<mapsto> new_tc) | Some _ \<Rightarrow> ls_tree s),
              ls_rt := ls_rt s @ [Rt_Insert a]\<rparr>, True))"

definition olsr_init_tc :: "'q tc_conf \<Rightarrow> 'q lsdb" where
  "olsr_init_tc c = fst (olsr_add_tc_entry c (tf_main_addr c) \<lparr>ls_tree = Map.empty, ls_changes = False, ls_rt = []\<rparr>)"

definition olsr_lookup_tc_edge :: "ip_addr \<Rightarrow> ip_addr \<Rightarrow> 'q lsdb \<Rightarrow> 'q tc_edge_entry option option" where
  "olsr_lookup_tc_edge a d s = do { tc \<leftarrow> ls_tree s a; Some (map_of (tn_edges tc) d) }"

section \<open>Edges\<close>

definition olsr_calc_tc_edge_entry_etx :: "'q tc_conf \<Rightarrow> ip_addr \<times> ip_addr \<Rightarrow> 'q lsdb \<Rightarrow> ('q lsdb \<times> bool) option" where
  "olsr_calc_tc_edge_entry_etx c k s =
     (if tf_lq_level c < 1 then Some (s, False)
      else do {
        e \<leftarrow> get_edge s k;
        cost \<leftarrow> tf_cost c (ed_quality e);
        s \<leftarrow> upd_edge k (\<lambda>e. e\<lparr>ed_cost := cost\<rparr>) s;
        Some (s, tf_relevant c (ed_cost e) cost) })"

definition olsr_add_tc_edge_entry :: "'q tc_conf \<Rightarrow> ip_addr \<Rightarrow> ip_addr \<Rightarrow> u16 \<Rightarrow> 'q lsdb \<Rightarrow> 'q lsdb option" where
  "olsr_add_tc_edge_entry c a d ansn s = do {
     s \<leftarrow> upd_tc a (\<lambda>tc. tc\<lparr>tn_edges :=
        avl_ins d \<lparr>ed_ansn = ansn, ed_cost = 0, ed_quality = tf_zero c, ed_inv = None\<rparr> (tn_edges tc)\<rparr>) s;
     s \<leftarrow> (case ls_tree s d of
         None \<Rightarrow> Some s
       | Some tc \<Rightarrow> (case map_of (tn_edges tc) a of
             None \<Rightarrow> Some s
           | Some _ \<Rightarrow> do {
               s \<leftarrow> upd_edge (d, a) (\<lambda>e. e\<lparr>ed_inv := Some (a, d)\<rparr>) s;
               upd_edge (a, d) (\<lambda>e. e\<lparr>ed_inv := Some (d, a)\<rparr>) s }));
     (s, _) \<leftarrow> olsr_calc_tc_edge_entry_etx c (a, d) s;
     Some s }"

text \<open>The structure is given back at the end of the function, when the back pointer of the inverse edge is cleared; an edge may be its own inverse.\<close>

definition olsr_delete_tc_edge_entry :: "ip_addr \<times> ip_addr \<Rightarrow> 'q lsdb \<Rightarrow> 'q lsdb option" where
  "olsr_delete_tc_edge_entry k s = do {
     e \<leftarrow> get_edge s k;
     s \<leftarrow> (case ed_inv e of None \<Rightarrow> Some s | Some j \<Rightarrow> upd_edge j (\<lambda>e. e\<lparr>ed_inv := None\<rparr>) s);
     upd_tc (fst k) (\<lambda>tc. tc\<lparr>tn_edges := avl_del (snd k) (tn_edges tc)\<rparr>) s }"

definition delete_edges :: "ip_addr \<Rightarrow> ip_addr list \<Rightarrow> 'q lsdb \<Rightarrow> 'q lsdb option" where
  "delete_edges a ds = iter ds (\<lambda>d. olsr_delete_tc_edge_entry (a, d))"

definition olsr_delete_tc_entry :: "ip_addr \<Rightarrow> 'q lsdb \<Rightarrow> 'q lsdb option" where
  "olsr_delete_tc_entry a s = do {
     tc \<leftarrow> ls_tree s a;
     s \<leftarrow> delete_edges a (map fst (tn_edges tc)) (s\<lparr>ls_rt := ls_rt s @ [Rt_Delete a]\<rparr>);
     Some (s\<lparr>ls_tree := (ls_tree s)(a := None)\<rparr>) }"

definition olsr_delete_outdated_tc_edges :: "ip_addr \<Rightarrow> 'q lsdb \<Rightarrow> ('q lsdb \<times> bool) option" where
  "olsr_delete_outdated_tc_edges a s = do {
     tc \<leftarrow> ls_tree s a;
     (let ds = map fst (filter (\<lambda>(d, e). seqno_greater_than (tn_ansn tc) (ed_ansn e)) (tn_edges tc)) in do {
        s \<leftarrow> delete_edges a ds s;
        Some (s, ds \<noteq> []) }) }"

fun revoked :: "u16 \<Rightarrow> ip_addr \<Rightarrow> ip_addr \<Rightarrow> bool \<Rightarrow> (ip_addr \<times> 'q tc_edge_entry) list \<Rightarrow> ip_addr list" where
  "revoked ansn lower upper passed [] = []"
| "revoked ansn lower upper passed ((d, e) # es) =
     (if \<not> passed \<and> \<not> lower \<le> d then revoked ansn lower upper False es
      else if upper \<le> d then []
      else if seqno_greater_than ansn (ed_ansn e) then d # revoked ansn lower upper True es
      else revoked ansn lower upper True es)"

definition olsr_delete_revoked_tc_edges :: "ip_addr \<Rightarrow> u16 \<Rightarrow> ip_addr \<Rightarrow> ip_addr \<Rightarrow> 'q lsdb \<Rightarrow> ('q lsdb \<times> bool) option" where
  "olsr_delete_revoked_tc_edges a ansn lower upper s = do {
     tc \<leftarrow> ls_tree s a;
     (let ds = revoked ansn lower upper False (tn_edges tc) in do {
        s \<leftarrow> delete_edges a ds s;
        Some (s, ds \<noteq> []) }) }"

section \<open>Timers\<close>

definition olsr_expire_tc_entry :: "ip_addr \<Rightarrow> 'q lsdb \<Rightarrow> 'q lsdb option" where
  "olsr_expire_tc_entry a s = do {
     s \<leftarrow> upd_tc a (\<lambda>tc. tc\<lparr>tn_validity := None\<rparr>) s;
     s \<leftarrow> olsr_delete_tc_entry a s;
     Some (s\<lparr>ls_changes := True\<rparr>) }"

definition olsr_expire_tc_edge_gc :: "ip_addr \<Rightarrow> 'q lsdb \<Rightarrow> 'q lsdb option" where
  "olsr_expire_tc_edge_gc a s = do {
     s \<leftarrow> upd_tc a (\<lambda>tc. tc\<lparr>tn_gc := None\<rparr>) s;
     (s, deleted) \<leftarrow> olsr_delete_outdated_tc_edges a s;
     Some (if deleted then s\<lparr>ls_changes := True\<rparr> else s) }"

end
