(* ===== verification/Tc_Message.thy ===== *)
theory Tc_Message imports Lsdb begin

text \<open>
  TC messages: how a node announces its links (\<open>lq_packet.c\<close>), possibly in several messages with border flags, and how the messages are read into
  the link state database (\<open>tc_set.c\<close>).
\<close>

section \<open>Borders\<close>

text \<open>The number of the highest bit, counted from the end of the address and from 1, in which two addresses differ.\<close>

fun first_diff :: "byte list \<Rightarrow> byte list \<Rightarrow> nat" where
  "first_diff (x # xs) (y # ys) = (if x \<noteq> y then 0 else Suc (first_diff xs ys))"
| "first_diff xs ys = 0"

fun border_bit :: "byte \<Rightarrow> byte \<Rightarrow> byte \<Rightarrow> nat \<Rightarrow> nat \<Rightarrow> nat" where
  "border_bit lower higher bitmask bitpos 0 = bitpos"
| "border_bit lower higher bitmask bitpos (Suc k) =
     (if lower AND bitmask = higher AND bitmask then bitpos
      else border_bit lower higher (push_bit 1 bitmask) (Suc bitpos) k)"

definition calculate_border_flag :: "ip_addr option \<Rightarrow> ip_addr \<Rightarrow> byte option" where
  "calculate_border_flag lower_border higher_border = do {
     l \<leftarrow> lower_border;
     (let lower = le32 l; higher = le32 higher_border; part = first_diff lower higher in
      if part = 4 then Some 0
      else Some (of_nat (border_bit (lower ! part) (higher ! part) 0xFE 0 8 + 8 * (4 - part - 1) + 1))) }"

text \<open>The address at a border. The bytes of an address lie in the order of the network; a negative index is before its start.\<close>

definition border_ip :: "byte \<Rightarrow> ip_addr \<Rightarrow> ip_addr option" where
  "border_ip flag a =
     (let flag = flag - 1; k = unat flag div 8; bit = unat flag mod 8 in do {
        bs \<leftarrow> iter [0..<k] (\<lambda>i bs. wr bs (4 - int i - 1) 0) (le32 a);
        x \<leftarrow> rd bs (4 - int k - 1);
        bs \<leftarrow> wr bs (4 - int k - 1) (x AND push_bit bit 0xFF);
        x \<leftarrow> rd bs (4 - int k - 1);
        bs \<leftarrow> wr bs (4 - int k - 1) (x OR push_bit bit 1);
        Some (of_le32 bs) })"

text \<open>For a flag of 0xff the code clears or fills the pointer to the address instead of the address, so the address stays as it is.\<close>

definition olsr_calculate_tc_border :: "byte \<Rightarrow> ip_addr \<Rightarrow> byte \<Rightarrow> ip_addr \<Rightarrow> (ip_addr \<times> ip_addr) option option" where
  "olsr_calculate_tc_border lower_border lower_ip upper_border upper_ip =
     (if lower_border = 0 \<and> upper_border = 0 then Some None
      else do {
        l \<leftarrow> (if lower_border = 0xFF then Some lower_ip else border_ip lower_border lower_ip);
        u \<leftarrow> (if upper_border = 0xFF then Some upper_ip else border_ip upper_border upper_ip);
        Some (Some (l, u)) })"

section \<open>Reading\<close>

definition tc_message_type :: byte where "tc_message_type = 2"
definition lq_tc_message_type :: byte where "lq_tc_message_type = 202"

text \<open>One announced address. The result has the address, whether a link quality of four bytes was read, and whether the edge changed.\<close>

definition olsr_tc_update_edge ::
    "'q tc_conf \<Rightarrow> ip_addr \<Rightarrow> u16 \<Rightarrow> byte list \<Rightarrow> 'q lsdb \<Rightarrow> (ip_addr \<times> bool \<times> bool \<times> byte list \<times> 'q lsdb) option" where
  "olsr_tc_update_edge c a ansn p s = do {
     (n, p) \<leftarrow> pkt_get_ipaddress p;
     found \<leftarrow> olsr_lookup_tc_edge a n s;
     case found of
       None \<Rightarrow>
         if List.member (tf_deny c) n then Some (n, False, False, p, s)
         else do {
           s \<leftarrow> olsr_add_tc_edge_entry c a n ansn s;
           e \<leftarrow> get_edge s (a, n);
           (q, p) \<leftarrow> tf_deserialize c p (ed_quality e);
           s \<leftarrow> upd_edge (a, n) (\<lambda>e. e\<lparr>ed_quality := q\<rparr>) s;
           Some (n, True, True, p, s) }
     | Some e \<Rightarrow> do {
         s \<leftarrow> upd_edge (a, n) (\<lambda>e. e\<lparr>ed_ansn := ansn\<rparr>) s;
         (p, s) \<leftarrow> (if tf_lq_level c > 0 then do {
             (q, p) \<leftarrow> tf_deserialize c p (ed_quality e);
             s \<leftarrow> upd_edge (a, n) (\<lambda>e. e\<lparr>ed_quality := q\<rparr>) s;
             Some (p, s) }
           else Some (p, s));
         (s, relevant) \<leftarrow> olsr_calc_tc_edge_entry_etx c (a, n) s;
         tc \<leftarrow> ls_tree s a;
         Some (n, tf_lq_level c > 0, relevant \<and> tn_msg_hops tc \<le> tf_lq_dlimit c, p, s) } }"

text \<open>The loop over the addresses; \<open>pos\<close> is the distance of the read pointer from the start of the message.\<close>

function tc_edges ::
    "'q tc_conf \<Rightarrow> ip_addr \<Rightarrow> u16 \<Rightarrow> nat \<Rightarrow> nat \<Rightarrow> byte list \<Rightarrow> (ip_addr \<times> ip_addr) option \<Rightarrow> 'q lsdb \<Rightarrow>
     ('q lsdb \<times> (ip_addr \<times> ip_addr) option) option" where
  "tc_edges c a ansn limit pos p borders s =
     (if pos < limit then do {
        (n, lq, changed, p, s) \<leftarrow> olsr_tc_update_edge c a ansn p s;
        tc_edges c a ansn limit (pos + (if lq then 8 else 4)) p (Some (case borders of None \<Rightarrow> n | Some (l, _) \<Rightarrow> l, n))
          (if changed then s\<lparr>ls_changes := True\<rparr> else s) }
      else Some (s, borders))"
  by pat_completeness auto
termination by (relation "measure (\<lambda>(c, a, ansn, limit, pos, p, borders, s). limit - pos)") auto

declare tc_edges.simps [simp del]

text \<open>Is a message of the node interesting? Stray and repeated messages are counted in the entry.\<close>

definition tc_filter :: "u16 \<Rightarrow> u16 \<Rightarrow> 'q lsdb_node \<Rightarrow> 'q lsdb_node \<times> bool" where
  "tc_filter msg_seq ansn tc =
     (if tn_edges tc = [] then (tc, True)
      else if olsr_seq_inrange_high (uint (tn_msg_seq tc) - tc_seqno_window) (uint (tn_msg_seq tc)) msg_seq \<and>
          olsr_seq_inrange_high (uint (tn_ansn tc) - tc_ansn_window) (uint (tn_ansn tc)) ansn then
        (if tn_msg_seq tc = msg_seq then (tc, False)
         else (tc\<lparr>tn_ignored := tn_ignored tc + 1\<rparr>, \<not> tn_ignored tc < 32))
      else if \<not> olsr_seq_inrange_high (uint (tn_msg_seq tc)) (uint (tn_msg_seq tc) + tc_seqno_window * tc_seqno_window_mult) msg_seq \<or>
          \<not> olsr_seq_inrange_low (uint (tn_ansn tc)) (uint (tn_ansn tc) + tc_ansn_window * tc_ansn_window_mult) ansn then
        (let tc = (if \<not> tn_err_seq_valid tc then tc\<lparr>tn_err_seq := msg_seq, tn_err_seq_valid := True\<rparr> else tc)
         in (tc, tn_err_seq tc \<noteq> msg_seq))
      else (tc, True))"

definition tc_gate :: "u16 \<Rightarrow> u16 \<Rightarrow> ip_addr \<Rightarrow> 'q lsdb \<Rightarrow> 'q lsdb \<times> bool" where
  "tc_gate msg_seq ansn a s =
     (case ls_tree s a of
        None \<Rightarrow> (s, True)
      | Some tc \<Rightarrow> (let (tc, go) = tc_filter msg_seq ansn tc in (s\<lparr>ls_tree := (ls_tree s)(a \<mapsto> tc)\<rparr>, go)))"

definition olsr_tc_edge_gc_time :: ulong where "olsr_tc_edge_gc_time = 2000"

text \<open>The whole function; the second component tells whether the message is forwarded at the end. The argument is the buffer from the message on.\<close>

definition olsr_input_tc :: "'q tc_conf \<Rightarrow> ip_addr \<Rightarrow> byte list \<Rightarrow> 'q lsdb \<Rightarrow> ('q lsdb \<times> bool) option" where
  "olsr_input_tc c from_addr msg s = do {
     (type, p) \<leftarrow> pkt_get_u8 msg;
     if type \<noteq> lq_tc_message_type \<and> type \<noteq> tc_message_type then Some (s, False)
     else do {
       (vt, p) \<leftarrow> pkt_get_u8 p;
       (msize, p) \<leftarrow> pkt_get_u16 p;
       (orig, p) \<leftarrow> pkt_get_ipaddress p;
       (ttl, p) \<leftarrow> pkt_get_u8 p;
       (msg_hops, p) \<leftarrow> pkt_get_u8 p;
       (msg_seq, p) \<leftarrow> pkt_get_u16 p;
       (ansn, p) \<leftarrow> pkt_get_u16 p;
       (lower_border, p) \<leftarrow> pkt_get_u8 p;
       (upper_border, p) \<leftarrow> pkt_get_u8 p;
       (let (s, go) = tc_gate msg_seq ansn orig s in
        if \<not> go then Some (s, False)
        else do {
          s \<leftarrow> (if ls_tree s orig = None
               then (let (s, added) = olsr_add_tc_entry c orig s in if added then Some s else None) else Some s);
          s \<leftarrow> upd_tc orig (\<lambda>tc. tc\<lparr>tn_msg_hops := msg_hops, tn_msg_seq := msg_seq, tn_ansn := ansn, tn_ignored := 0,
             tn_err_seq_valid := False\<rparr>) s;
          if tf_link_status c from_addr \<noteq> 2 then Some (s, False)
          else do {
            (s, borders) \<leftarrow> tc_edges c orig ansn (unat msize) 16 p None s;
            borders \<leftarrow> (case borders of
                None \<Rightarrow> Some None
              | Some (l, u) \<Rightarrow> olsr_calculate_tc_border lower_border l upper_border u);
            s \<leftarrow> upd_tc orig (\<lambda>tc. tc\<lparr>tn_validity := Some (me_to_reltime vt)\<rparr>) s;
            s \<leftarrow> (case borders of
                None \<Rightarrow> upd_tc orig (\<lambda>tc. tc\<lparr>tn_gc := Some olsr_tc_edge_gc_time\<rparr>) s
              | Some (l, u) \<Rightarrow> map_option fst (olsr_delete_revoked_tc_edges orig ansn l u s));
            Some (s, True) } }) } }"

section \<open>Writing\<close>

record 'q tc_mpr_addr =
  ta_address :: ip_addr
  ta_quality :: 'q

record 'q lq_tc_message =
  lt_comm :: olsr_common
  lt_from :: ip_addr
  lt_ansn :: u16
  lt_neigh :: "'q tc_mpr_addr list"

record tc_ser =
  ts_out :: netbuf
  ts_seqno :: u16
  ts_buff :: "byte list"
  ts_rem :: int
  ts_left_border :: byte
  ts_last_ip :: "ip_addr option"

definition lq_tc_header :: "'q lq_tc_message \<Rightarrow> byte \<Rightarrow> byte \<Rightarrow> byte list" where
  "lq_tc_header t lower_border upper_border = pkt_put_u16 (lt_ansn t) @ [lower_border, upper_border]"

definition tc_push :: "'q lq_tc_message \<Rightarrow> byte \<Rightarrow> byte \<Rightarrow> tc_ser \<Rightarrow> tc_ser" where
  "tc_push t lower_border upper_border s =
     (let comm = (lt_comm t)\<lparr>oc_size := of_nat (length (ts_buff s) + hello_off)\<rparr>
      in s\<lparr>ts_out := fst (net_outbuffer_push
             (serialize_common comm (ts_seqno s) @ lq_tc_header t lower_border upper_border @ ts_buff s) (ts_out s)),
           ts_seqno := ts_seqno s + 1\<rparr>)"

definition tc_put :: "byte list \<Rightarrow> tc_ser \<Rightarrow> tc_ser option" where
  "tc_put bs s =
     (if hello_off + length (ts_buff s) + length bs \<le> msg_buffer_size then Some (s\<lparr>ts_buff := ts_buff s @ bs\<rparr>) else None)"

definition tc_neigh :: "('q \<Rightarrow> byte list) \<Rightarrow> 'q lq_tc_message \<Rightarrow> 'q tc_mpr_addr \<Rightarrow> tc_ser \<Rightarrow> tc_ser option" where
  "tc_neigh ser t neigh s = do {
     s \<leftarrow> (if int (length (ts_buff s) + 4 + 4) > ts_rem s then do {
         flag \<leftarrow> calculate_border_flag (ts_last_ip s) (ta_address neigh);
         (let s = tc_push t (ts_left_border s) flag s; out = net_output (ts_out s) in
          Some (s\<lparr>ts_out := out, ts_left_border := flag, ts_buff := [], ts_rem := net_outbuffer_bytes_left out - int hello_off\<rparr>)) }
       else Some s);
     s \<leftarrow> tc_put (pkt_put_ipaddress (ta_address neigh)) s;
     s \<leftarrow> tc_put (ser (ta_quality neigh)) s;
     Some (s\<lparr>ts_last_ip := Some (ta_address neigh)\<rparr>) }"

definition serialize_lq_tc :: "('q \<Rightarrow> byte list) \<Rightarrow> 'q lq_tc_message \<Rightarrow> u16 \<Rightarrow> netbuf \<Rightarrow> (u16 \<times> netbuf) option" where
  "serialize_lq_tc ser t seqno out =
     (let rem = net_outbuffer_bytes_left out - int hello_off;
          expected_size = (if net_output_pending out > 0 then int (length (lt_neigh t)) * 8 else 0);
          (out, rem) = (if rem < expected_size
             then let out = net_output out in (out, net_outbuffer_bytes_left out - int hello_off) else (out, rem))
      in do {
        s \<leftarrow> iter (lt_neigh t) (tc_neigh ser t)
          \<lparr>ts_out = out, ts_seqno = seqno, ts_buff = [], ts_rem = rem, ts_left_border = 0xFF, ts_last_ip = None\<rparr>;
        (let s = tc_push t (ts_left_border s) 0xFF s in Some (ts_seqno s, ts_out s)) })"

end
