(* ===== verification/Lsdb_Inv.thy ===== *)
theory Lsdb_Inv imports Tc_Message begin

text \<open>
  The invariant of the link state database: the trees are ordered, and every edge points to its inverse edge if that exists. The edges without
  these pointers, as a map from pairs of addresses, are what the operations are compared with.
\<close>

section \<open>Trees\<close>

definition tree_ok :: "(ip_addr \<times> 'e) list \<Rightarrow> bool" where
  "tree_ok ps \<longleftrightarrow> sorted_wrt (<) (map fst ps)"

lemma tree_ok_Nil [simp]: "tree_ok []"
  by (simp add: tree_ok_def)

lemma avl_ins_keys: "set (map fst (avl_ins k v ps)) = insert k (set (map fst ps))"
  by (induction k v ps rule: avl_ins.induct) auto

lemma tree_ok_ins: "tree_ok ps \<Longrightarrow> tree_ok (avl_ins k v ps)"
proof (induction k v ps rule: avl_ins.induct)
  case (2 k v a b ps)
  have "set (map fst (avl_ins k v ps)) = insert k (set (map fst ps))" by (rule avl_ins_keys)
  then show ?case using 2 unfolding tree_ok_def by auto
qed (simp add: tree_ok_def)

lemma map_of_ins: "map_of ps k = None \<Longrightarrow> map_of (avl_ins k v ps) = (map_of ps)(k \<mapsto> v)"
  by (induction k v ps rule: avl_ins.induct) (auto simp: fun_upd_twist split: if_splits)

lemma tree_ok_del: "tree_ok ps \<Longrightarrow> tree_ok (avl_del k ps)"
  unfolding tree_ok_def avl_del_def by (induction ps) auto

lemma map_of_del: "map_of (avl_del k ps) = (map_of ps)(k := None)"
  unfolding avl_del_def by (induction ps) auto

lemma keys_upd [simp]: "map fst (avl_upd k f ps) = map fst ps"
  by (induction ps) (auto simp: avl_upd_def)

lemma tree_ok_upd [simp]: "tree_ok (avl_upd k f ps) = tree_ok ps"
  by (simp add: tree_ok_def)

lemma map_of_upd: "map_of ps k = Some e \<Longrightarrow> map_of (avl_upd k f ps) = (map_of ps)(k \<mapsto> f e)"
proof (rule ext)
  fix x
  have "map_of (avl_upd k f ps) x = (if x = k then map_option f (map_of ps x) else map_of ps x)"
    by (induction ps) (auto simp: avl_upd_def)
  then show "map_of ps k = Some e \<Longrightarrow> map_of (avl_upd k f ps) x = ((map_of ps)(k \<mapsto> f e)) x" by simp
qed

section \<open>Access\<close>

definition trees_ok :: "'q lsdb \<Rightarrow> bool" where
  "trees_ok s \<longleftrightarrow> (\<forall>a tc. ls_tree s a = Some tc \<longrightarrow> tree_ok (tn_edges tc))"

text \<open>The nodes without their edges.\<close>

definition node_rest :: "'q lsdb \<Rightarrow> ip_addr \<rightharpoonup> 'q lsdb_node" where
  "node_rest s = (\<lambda>a. map_option (\<lambda>tc. tc\<lparr>tn_edges := []\<rparr>) (ls_tree s a))"

definition same_nodes :: "'q lsdb \<Rightarrow> 'q lsdb \<Rightarrow> bool" where
  "same_nodes s s' \<longleftrightarrow> node_rest s' = node_rest s \<and> ls_changes s' = ls_changes s \<and> ls_rt s' = ls_rt s"

lemma same_nodes_refl [simp]: "same_nodes s s"
  by (simp add: same_nodes_def)

lemma same_nodes_trans: "same_nodes s t \<Longrightarrow> same_nodes t u \<Longrightarrow> same_nodes s u"
  by (simp add: same_nodes_def)

lemma same_nodes_tree:
  assumes "same_nodes s s'" "ls_tree s a = Some tc"
  obtains tc' where "ls_tree s' a = Some tc'" "tc'\<lparr>tn_edges := []\<rparr> = tc\<lparr>tn_edges := []\<rparr>"
proof -
  have "node_rest s' a = node_rest s a" using assms(1) by (simp add: same_nodes_def)
  then show ?thesis using assms(2) that by (auto simp: node_rest_def)
qed

lemma same_nodes_dom: "same_nodes s s' \<Longrightarrow> ls_tree s' a = None \<longleftrightarrow> ls_tree s a = None"
proof -
  assume "same_nodes s s'"
  then have "node_rest s' a = node_rest s a" by (simp add: same_nodes_def)
  then show ?thesis by (cases "ls_tree s a"; cases "ls_tree s' a") (simp_all add: node_rest_def)
qed

lemma upd_edges_ok:
  assumes ok: "trees_ok s" and tc: "ls_tree s a = Some tc"
    and g: "map_of (g (tn_edges tc)) = (map_of (tn_edges tc))(d := x)" "tree_ok (g (tn_edges tc))"
  shows "\<exists>s'. upd_tc a (\<lambda>tc. tc\<lparr>tn_edges := g (tn_edges tc)\<rparr>) s = Some s' \<and> trees_ok s' \<and>
    get_edge s' = (get_edge s)((a, d) := x) \<and> same_nodes s s'"
proof -
  let ?s = "s\<lparr>ls_tree := (ls_tree s)(a \<mapsto> tc\<lparr>tn_edges := g (tn_edges tc)\<rparr>)\<rparr>"
  have "upd_tc a (\<lambda>tc. tc\<lparr>tn_edges := g (tn_edges tc)\<rparr>) s = Some ?s" using tc by (simp add: upd_tc_def)
  moreover have "trees_ok ?s" using ok g(2) by (simp add: trees_ok_def)
  moreover have "get_edge ?s = (get_edge s)((a, d) := x)"
    using g(1) tc by (auto simp: get_edge_def fun_eq_iff)
  moreover have "same_nodes s ?s" using tc by (simp add: same_nodes_def node_rest_def fun_eq_iff)
  ultimately show ?thesis by blast
qed

lemma upd_edge_ok:
  assumes ok: "trees_ok s" and e: "get_edge s k = Some e"
  shows "\<exists>s'. upd_edge k f s = Some s' \<and> trees_ok s' \<and> get_edge s' = (get_edge s)(k \<mapsto> f e) \<and> same_nodes s s'"
proof -
  obtain tc where tc: "ls_tree s (fst k) = Some tc" "map_of (tn_edges tc) (snd k) = Some e"
    using e by (auto simp: get_edge_def bind_eq_Some_conv)
  have "\<exists>s'. upd_tc (fst k) (\<lambda>tc. tc\<lparr>tn_edges := avl_upd (snd k) f (tn_edges tc)\<rparr>) s = Some s' \<and> trees_ok s' \<and>
    get_edge s' = (get_edge s)((fst k, snd k) := Some (f e)) \<and> same_nodes s s'"
    using ok tc by (intro upd_edges_ok [OF ok tc(1)]) (simp_all add: map_of_upd trees_ok_def)
  then show ?thesis using e by (simp add: upd_edge_def)
qed

lemma ins_edge_ok:
  assumes ok: "trees_ok s" and a: "ls_tree s a \<noteq> None" and new: "get_edge s (a, d) = None"
  shows "\<exists>s'. upd_tc a (\<lambda>tc. tc\<lparr>tn_edges := avl_ins d e (tn_edges tc)\<rparr>) s = Some s' \<and> trees_ok s' \<and>
    get_edge s' = (get_edge s)((a, d) \<mapsto> e) \<and> same_nodes s s'"
proof -
  obtain tc where tc: "ls_tree s a = Some tc" using a by blast
  then have "map_of (tn_edges tc) d = None" using new by (simp add: get_edge_def)
  then show ?thesis
    using ok tc by (intro upd_edges_ok [OF ok tc]) (simp_all add: map_of_ins tree_ok_ins trees_ok_def)
qed

lemma del_edge_ok:
  assumes ok: "trees_ok s" and e: "get_edge s k \<noteq> None"
  shows "\<exists>s'. upd_tc (fst k) (\<lambda>tc. tc\<lparr>tn_edges := avl_del (snd k) (tn_edges tc)\<rparr>) s = Some s' \<and> trees_ok s' \<and>
    get_edge s' = (get_edge s)(k := None) \<and> same_nodes s s'"
proof -
  obtain tc where tc: "ls_tree s (fst k) = Some tc" using e by (auto simp: get_edge_def bind_eq_None_conv)
  have "\<exists>s'. upd_tc (fst k) (\<lambda>tc. tc\<lparr>tn_edges := avl_del (snd k) (tn_edges tc)\<rparr>) s = Some s' \<and> trees_ok s' \<and>
    get_edge s' = (get_edge s)((fst k, snd k) := None) \<and> same_nodes s s'"
    using ok tc by (intro upd_edges_ok [OF ok tc]) (simp_all add: map_of_del tree_ok_del trees_ok_def)
  then show ?thesis by simp
qed

section \<open>The invariant\<close>

definition lsdb_ok :: "'q lsdb \<Rightarrow> bool" where
  "lsdb_ok s \<longleftrightarrow> trees_ok s \<and>
     (\<forall>a d e. get_edge s (a, d) = Some e \<longrightarrow> ed_inv e = (if get_edge s (d, a) = None then None else Some (d, a)))"

lemma lsdb_okD:
  assumes "lsdb_ok s"
  shows "trees_ok s" "get_edge s (a, d) = Some e \<Longrightarrow> ed_inv e = (if get_edge s (d, a) = None then None else Some (d, a))"
  using assms unfolding lsdb_ok_def by blast+

text \<open>An edge without its pointer: number, cost and quality.\<close>

definition edge_core :: "'q lsdb \<Rightarrow> ip_addr \<times> ip_addr \<rightharpoonup> u16 \<times> ulong \<times> 'q" where
  "edge_core s = (\<lambda>k. map_option (\<lambda>e. (ed_ansn e, ed_cost e, ed_quality e)) (get_edge s k))"

lemma edge_core_None [simp]: "edge_core s k = None \<longleftrightarrow> get_edge s k = None"
  by (simp add: edge_core_def)

text \<open>Changing the fields of an edge but not its pointer.\<close>

lemma upd_edge_inv:
  assumes ok: "lsdb_ok s" and e: "get_edge s k = Some e" and f: "ed_inv (f e) = ed_inv e"
  shows "\<exists>s'. upd_edge k f s = Some s' \<and> lsdb_ok s' \<and> get_edge s' = (get_edge s)(k \<mapsto> f e) \<and>
    edge_core s' = (edge_core s)(k \<mapsto> (ed_ansn (f e), ed_cost (f e), ed_quality (f e))) \<and> same_nodes s s'"
proof -
  obtain s' where s': "upd_edge k f s = Some s'" "trees_ok s'" "get_edge s' = (get_edge s)(k \<mapsto> f e)" "same_nodes s s'"
    using upd_edge_ok [OF lsdb_okD(1) [OF ok] e] by blast
  have "lsdb_ok s'"
    unfolding lsdb_ok_def
  proof (intro conjI allI impI)
    fix a d g
    assume g: "get_edge s' (a, d) = Some g"
    have n: "get_edge s' (d, a) = None \<longleftrightarrow> get_edge s (d, a) = None" using s'(3) e by auto
    show "ed_inv g = (if get_edge s' (d, a) = None then None else Some (d, a))"
    proof (cases "k = (a, d)")
      case True
      then have "g = f e" using g s'(3) by simp
      then show ?thesis using lsdb_okD(2) [OF ok, of a d e] e f True n by simp
    next
      case False
      then have "get_edge s (a, d) = Some g" using g s'(3) by auto
      then show ?thesis using lsdb_okD(2) [OF ok] n by simp
    qed
  qed (rule s'(2))
  moreover have "edge_core s' = (edge_core s)(k \<mapsto> (ed_ansn (f e), ed_cost (f e), ed_quality (f e)))"
    using s'(3) by (auto simp: edge_core_def fun_eq_iff)
  ultimately show ?thesis using s' by blast
qed

section \<open>Adding and deleting edges\<close>

definition metric_total :: "'q tc_conf \<Rightarrow> bool" where
  "metric_total c \<longleftrightarrow> (\<forall>q. tf_cost c q \<noteq> None)"

definition edge_cost :: "'q tc_conf \<Rightarrow> ulong \<Rightarrow> 'q \<Rightarrow> ulong" where
  "edge_cost c old q = (if tf_lq_level c < 1 then old else the (tf_cost c q))"

lemma calc_etx_ok:
  assumes m: "metric_total c" and ok: "lsdb_ok s" and e: "get_edge s k = Some e"
  shows "\<exists>s' r. olsr_calc_tc_edge_entry_etx c k s = Some (s', r) \<and> lsdb_ok s' \<and>
    edge_core s' = (edge_core s)(k \<mapsto> (ed_ansn e, edge_cost c (ed_cost e) (ed_quality e), ed_quality e)) \<and> same_nodes s s'"
proof (cases "tf_lq_level c < 1")
  case True
  then show ?thesis using ok e
    by (intro exI [of _ s] exI [of _ False]) (auto simp: olsr_calc_tc_edge_entry_etx_def edge_cost_def edge_core_def fun_eq_iff)
next
  case False
  obtain cost where cost: "tf_cost c (ed_quality e) = Some cost" using m by (auto simp: metric_total_def)
  obtain s' where s': "upd_edge k (\<lambda>e. e\<lparr>ed_cost := cost\<rparr>) s = Some s'" "lsdb_ok s'"
    "edge_core s' = (edge_core s)(k \<mapsto> (ed_ansn e, cost, ed_quality e))" "same_nodes s s'"
    using upd_edge_inv [OF ok e, of "\<lambda>e. e\<lparr>ed_cost := cost\<rparr>"] by auto
  then show ?thesis
    using False e cost by (intro exI [of _ s'] exI [of _ "tf_relevant c (ed_cost e) cost"])
      (simp add: olsr_calc_tc_edge_entry_etx_def edge_cost_def)
qed

lemma add_edge_ok:
  assumes m: "metric_total c" and ok: "lsdb_ok s" and a: "ls_tree s a \<noteq> None" and new: "get_edge s (a, d) = None"
  shows "\<exists>s'. olsr_add_tc_edge_entry c a d n s = Some s' \<and> lsdb_ok s' \<and>
    edge_core s' = (edge_core s)((a, d) \<mapsto> (n, edge_cost c 0 (tf_zero c), tf_zero c)) \<and> same_nodes s s'"
proof -
  let ?e = "\<lparr>ed_ansn = n, ed_cost = 0, ed_quality = tf_zero c, ed_inv = None\<rparr>"
  obtain s1 where s1: "upd_tc a (\<lambda>tc. tc\<lparr>tn_edges := avl_ins d ?e (tn_edges tc)\<rparr>) s = Some s1" "trees_ok s1"
    "get_edge s1 = (get_edge s)((a, d) \<mapsto> ?e)" "same_nodes s s1"
    using ins_edge_ok [OF lsdb_okD(1) [OF ok] a new] by blast
  have inv: "ed_inv e = (if get_edge s (y, x) = None then None else Some (y, x))" if "get_edge s (x, y) = Some e" for x y e
    using lsdb_okD(2) [OF ok that] .
  define s2 where "s2 = (case ls_tree s1 d of None \<Rightarrow> Some s1
     | Some tc \<Rightarrow> (case map_of (tn_edges tc) a of None \<Rightarrow> Some s1
        | Some _ \<Rightarrow> do { s \<leftarrow> upd_edge (d, a) (\<lambda>e. e\<lparr>ed_inv := Some (a, d)\<rparr>) s1; upd_edge (a, d) (\<lambda>e. e\<lparr>ed_inv := Some (d, a)\<rparr>) s }))"
  have "\<exists>t. s2 = Some t \<and> lsdb_ok t \<and> (\<exists>i. get_edge t (a, d) = Some (?e\<lparr>ed_inv := i\<rparr>)) \<and>
      edge_core t = edge_core s1 \<and> same_nodes s1 t"
  proof (cases "get_edge s1 (d, a)")
    case None
    have s2: "s2 = Some s1" using None by (auto simp: s2_def get_edge_def bind_eq_None_conv split: option.splits)
    have "a \<noteq> d" using None s1(3) by auto
    then have "lsdb_ok s1"
      using None s1(2,3) inv unfolding lsdb_ok_def by (auto split: if_splits)
    then show ?thesis using s2 s1(3) by (intro exI [of _ s1]) auto
  next
    case (Some e)
    then have s2: "s2 = do { s \<leftarrow> upd_edge (d, a) (\<lambda>e. e\<lparr>ed_inv := Some (a, d)\<rparr>) s1; upd_edge (a, d) (\<lambda>e. e\<lparr>ed_inv := Some (d, a)\<rparr>) s }"
      by (auto simp: s2_def get_edge_def bind_eq_Some_conv)
    obtain t1 where t1: "upd_edge (d, a) (\<lambda>e. e\<lparr>ed_inv := Some (a, d)\<rparr>) s1 = Some t1" "trees_ok t1"
      "get_edge t1 = (get_edge s1)((d, a) \<mapsto> e\<lparr>ed_inv := Some (a, d)\<rparr>)" "same_nodes s1 t1"
      using upd_edge_ok [OF s1(2) Some] by blast
    obtain f where f: "get_edge t1 (a, d) = Some f" "f = ?e\<lparr>ed_inv := ed_inv f\<rparr>"
      using t1(3) s1(3) Some by (cases "a = d") auto
    obtain t2 where t2: "upd_edge (a, d) (\<lambda>e. e\<lparr>ed_inv := Some (d, a)\<rparr>) t1 = Some t2" "trees_ok t2"
      "get_edge t2 = (get_edge t1)((a, d) \<mapsto> f\<lparr>ed_inv := Some (d, a)\<rparr>)" "same_nodes t1 t2"
      using upd_edge_ok [OF t1(2) f(1)] by blast
    have g: "get_edge t2 = (get_edge s1)((d, a) \<mapsto> e\<lparr>ed_inv := Some (a, d)\<rparr>, (a, d) \<mapsto> f\<lparr>ed_inv := Some (d, a)\<rparr>)"
      using t1(3) t2(3) by simp
    have "ed_inv x = (if get_edge t2 (v, u) = None then None else Some (v, u))" if x: "get_edge t2 (u, v) = Some x" for u v x
    proof (cases "(u, v) = (a, d) \<or> (u, v) = (d, a)")
      case True
      moreover have "get_edge t2 (a, d) \<noteq> None" "get_edge t2 (d, a) \<noteq> None"
        by (cases "a = d"; simp add: g)+
      moreover have "ed_inv x = Some (v, u)"
      proof (cases "(u, v) = (a, d)")
        case True
        then show ?thesis using x by (auto simp: g)
      next
        case False
        then have "u = d" "v = a" using \<open>(u, v) = (a, d) \<or> (u, v) = (d, a)\<close> by blast+
        then show ?thesis using x False by (auto simp: g)
      qed
      ultimately show ?thesis by auto
    next
      case False
      have n: "(u, v) \<noteq> (a, d)" "(u, v) \<noteq> (d, a)" "(v, u) \<noteq> (a, d)" "(v, u) \<noteq> (d, a)" using False by blast+
      have "get_edge s (u, v) = Some x" using x unfolding g s1(3) fun_upd_other [OF n(1)] fun_upd_other [OF n(2)] .
      moreover have "get_edge t2 (v, u) = get_edge s (v, u)" unfolding g s1(3) fun_upd_other [OF n(3)] fun_upd_other [OF n(4)] ..
      ultimately show ?thesis using inv by simp
    qed
    then have "lsdb_ok t2" using t2(2) unfolding lsdb_ok_def by blast
    moreover have "edge_core t2 = edge_core s1"
    proof (rule ext)
      fix k
      show "edge_core t2 k = edge_core s1 k"
      proof (cases "k = (a, d)")
        case True
        then have "get_edge t2 k = Some (f\<lparr>ed_inv := Some (d, a)\<rparr>)" "get_edge s1 k = Some ?e" by (simp_all add: g s1(3))
        moreover have "ed_ansn f = n" "ed_cost f = 0" "ed_quality f = tf_zero c" by (subst f(2), simp)+
        ultimately show ?thesis by (simp add: edge_core_def)
      next
        case other: False
        show ?thesis
        proof (cases "k = (d, a)")
          case True
          have "get_edge t2 k = Some (e\<lparr>ed_inv := Some (a, d)\<rparr>)" unfolding g fun_upd_other [OF other] by (simp only: True fun_upd_same)
          then show ?thesis using Some by (simp add: edge_core_def True)
        next
          case False
          have "get_edge t2 k = get_edge s1 k" unfolding g fun_upd_other [OF other] fun_upd_other [OF False] ..
          then show ?thesis by (simp add: edge_core_def)
        qed
      qed
    qed
    moreover have "get_edge t2 (a, d) = Some (?e\<lparr>ed_inv := Some (d, a)\<rparr>)"
    proof -
      have "f\<lparr>ed_inv := Some (d, a)\<rparr> = ?e\<lparr>ed_inv := Some (d, a)\<rparr>" by (subst f(2)) simp
      then show ?thesis by (simp add: g)
    qed
    ultimately show ?thesis using s2 t1 t2 same_nodes_trans by (intro exI [of _ t2]) auto
  qed
  then obtain t i where t: "s2 = Some t" "lsdb_ok t" "get_edge t (a, d) = Some (?e\<lparr>ed_inv := i\<rparr>)" "edge_core t = edge_core s1"
    "same_nodes s1 t" by blast
  obtain u r where u: "olsr_calc_tc_edge_entry_etx c (a, d) t = Some (u, r)" "lsdb_ok u"
    "edge_core u = (edge_core t)((a, d) \<mapsto> (n, edge_cost c 0 (tf_zero c), tf_zero c))" "same_nodes t u"
    using calc_etx_ok [OF m t(2,3)] by auto
  have "edge_core u = (edge_core s)((a, d) \<mapsto> (n, edge_cost c 0 (tf_zero c), tf_zero c))"
    using u(3) t(4) s1(3) by (auto simp: edge_core_def fun_eq_iff)
  moreover have "olsr_add_tc_edge_entry c a d n s = Some u"
    using s1(1) t(1) u(1) by (simp add: olsr_add_tc_edge_entry_def s2_def [symmetric])
  ultimately show ?thesis using u(2) s1(4) t(5) u(4) same_nodes_trans by blast
qed

lemma delete_edge_ok:
  assumes ok: "lsdb_ok s" and e: "get_edge s k \<noteq> None"
  shows "\<exists>s'. olsr_delete_tc_edge_entry k s = Some s' \<and> lsdb_ok s' \<and> edge_core s' = (edge_core s)(k := None) \<and> same_nodes s s'"
proof -
  obtain a d where k: "k = (a, d)" by (cases k)
  obtain e where e: "get_edge s (a, d) = Some e" using e k by auto
  note inv = lsdb_okD(2) [OF ok]
  define s1 where "s1 = (case ed_inv e of None \<Rightarrow> Some s | Some j \<Rightarrow> upd_edge j (\<lambda>e. e\<lparr>ed_inv := None\<rparr>) s)"
  have "\<exists>t. s1 = Some t \<and> trees_ok t \<and> edge_core t = edge_core s \<and> same_nodes s t \<and>
      (\<forall>j. j \<noteq> (d, a) \<longrightarrow> j \<noteq> (a, d) \<longrightarrow> get_edge t j = get_edge s j) \<and>
      (\<forall>x. get_edge t (d, a) = Some x \<longrightarrow> ed_inv x = None)"
  proof (cases "get_edge s (d, a)")
    case None
    then show ?thesis using inv [OF e] lsdb_okD(1) [OF ok] by (simp add: s1_def)
  next
    case (Some f)
    obtain t where t: "upd_edge (d, a) (\<lambda>e. e\<lparr>ed_inv := None\<rparr>) s = Some t" "trees_ok t"
      "get_edge t = (get_edge s)((d, a) \<mapsto> f\<lparr>ed_inv := None\<rparr>)" "same_nodes s t"
      using upd_edge_ok [OF lsdb_okD(1) [OF ok] Some] by blast
    then show ?thesis using inv [OF e] Some by (auto simp: s1_def edge_core_def fun_eq_iff)
  qed
  then obtain t where t: "s1 = Some t" "trees_ok t" "edge_core t = edge_core s" "same_nodes s t"
    "\<forall>j. j \<noteq> (d, a) \<longrightarrow> j \<noteq> (a, d) \<longrightarrow> get_edge t j = get_edge s j"
    "\<forall>x. get_edge t (d, a) = Some x \<longrightarrow> ed_inv x = None" by blast
  have "edge_core t (a, d) \<noteq> None" unfolding t(3) using e by simp
  then have "get_edge t (a, d) \<noteq> None" by simp
  from del_edge_ok [OF t(2) this] obtain u where u: "upd_tc a (\<lambda>tc. tc\<lparr>tn_edges := avl_del d (tn_edges tc)\<rparr>) t = Some u" "trees_ok u"
    "get_edge u = (get_edge t)((a, d) := None)" "same_nodes t u" by auto
  have "lsdb_ok u"
    unfolding lsdb_ok_def
  proof (intro conjI allI impI)
    fix x y g
    assume g: "get_edge u (x, y) = Some g"
    show "ed_inv g = (if get_edge u (y, x) = None then None else Some (y, x))"
    proof (cases "(x, y) = (d, a)")
      case True
      then have "get_edge t (d, a) = Some g" using g by (cases "a = d") (simp_all add: u(3))
      then have "ed_inv g = None" using t(6) by blast
      moreover have "get_edge u (y, x) = None" using True u(3) by simp
      ultimately show ?thesis by simp
    next
      case False
      moreover have n: "(x, y) \<noteq> (a, d)" using g u(3) by auto
      moreover have "(y, x) \<noteq> (d, a)" "(y, x) = (a, d) \<longrightarrow> (x, y) = (d, a)" using n by blast+
      ultimately have "get_edge s (x, y) = Some g" "get_edge u (y, x) = get_edge s (y, x)"
        using g u(3) t(5) by (metis fun_upd_other)+
      then show ?thesis using inv by simp
    qed
  qed (rule u(2))
  moreover have "edge_core u = (edge_core s)(k := None)"
  proof (rule ext)
    fix x
    show "edge_core u x = ((edge_core s)(k := None)) x"
      using fun_cong [OF t(3), of x] by (cases "x = k") (simp_all add: k edge_core_def u(3))
  qed
  moreover have "olsr_delete_tc_edge_entry k s = Some u"
    using e t(1) u(1) by (simp add: olsr_delete_tc_edge_entry_def k s1_def)
  ultimately show ?thesis using t(4) u(4) same_nodes_trans by blast
qed

lemma delete_edges_ok:
  assumes "lsdb_ok s" "distinct ds" "\<And>d. d \<in> set ds \<Longrightarrow> get_edge s (a, d) \<noteq> None"
  shows "\<exists>s'. delete_edges a ds s = Some s' \<and> lsdb_ok s' \<and>
    edge_core s' = (\<lambda>k. if fst k = a \<and> snd k \<in> set ds then None else edge_core s k) \<and> same_nodes s s'"
  using assms
proof (induction ds arbitrary: s)
  case Nil
  then show ?case by (simp add: delete_edges_def)
next
  case (Cons d ds)
  obtain s1 where s1: "olsr_delete_tc_edge_entry (a, d) s = Some s1" "lsdb_ok s1" "edge_core s1 = (edge_core s)((a, d) := None)" "same_nodes s s1"
    using delete_edge_ok [OF Cons.prems(1)] Cons.prems(3) by force
  have "get_edge s1 (a, x) \<noteq> None" if "x \<in> set ds" for x
  proof -
    have "edge_core s1 (a, x) = edge_core s (a, x)" using s1(3) that Cons.prems(2) by auto
    then show ?thesis using Cons.prems(3) that by (metis edge_core_None list.set_intros(2))
  qed
  then obtain s2 where s2: "delete_edges a ds s1 = Some s2" "lsdb_ok s2"
    "edge_core s2 = (\<lambda>k. if fst k = a \<and> snd k \<in> set ds then None else edge_core s1 k)" "same_nodes s1 s2"
    using Cons.IH [OF s1(2)] Cons.prems(2) by auto
  have "edge_core s2 = (\<lambda>k. if fst k = a \<and> snd k \<in> set (d # ds) then None else edge_core s k)"
    unfolding s2(3) s1(3) by (auto simp: fun_eq_iff)
  then show ?case using s1(1,4) s2(1,2,4) same_nodes_trans by (auto simp: delete_edges_def)
qed

end
