(* ===== verification/Lsdb_Input.thy ===== *)
theory Lsdb_Input imports Lsdb_Inv Lq_Ff_Facts begin

text \<open>
  The reading of a TC message into the database: its edges are entered one after the other, and the edges within the borders that it does not
  announce are deleted. The reference works on maps from pairs of addresses to number, cost and qualities.
\<close>

section \<open>Revoked edges\<close>

lemma revoked_set:
  assumes "tree_ok es" "passed \<longrightarrow> (\<forall>p \<in> set es. lower \<le> fst p)"
  shows "distinct (revoked n lower upper passed es) \<and>
    set (revoked n lower upper passed es) =
      {d. \<exists>e. (d, e) \<in> set es \<and> lower \<le> d \<and> d < upper \<and> seqno_greater_than n (ed_ansn e)}"
  using assms
proof (induction n lower upper passed es rule: revoked.induct)
  case (2 n lower upper passed d e es)
  have t: "tree_ok es" and d: "\<forall>p \<in> set es. d < fst p" using 2(4) by (auto simp: tree_ok_def)
  consider (before) "\<not> passed \<and> \<not> lower \<le> d" | (behind) "\<not> (\<not> passed \<and> \<not> lower \<le> d)" "upper \<le> d"
    | (within) "\<not> (\<not> passed \<and> \<not> lower \<le> d)" "\<not> upper \<le> d" by blast
  then show ?case
  proof cases
    case before
    then show ?thesis using 2(1) [OF before t] by auto
  next
    case behind
    then have "\<forall>p \<in> set es. upper < fst p" using d by (auto intro: order.strict_trans1)
    then show ?thesis using behind by auto
  next
    case within
    then have low: "lower \<le> d" using 2(5) by auto
    then have r: "True \<longrightarrow> (\<forall>p \<in> set es. lower \<le> fst p)" using d by (auto intro: order.trans less_imp_le)
    have ih: "distinct (revoked n lower upper True es)"
      "set (revoked n lower upper True es) = {x. \<exists>f. (x, f) \<in> set es \<and> lower \<le> x \<and> x < upper \<and> seqno_greater_than n (ed_ansn f)}"
      using 2(2) [OF within _ t r] 2(3) [OF within _ t r] by (cases "seqno_greater_than n (ed_ansn e)"; simp)+
    have "d \<notin> fst ` set es" using d by auto
    then show ?thesis using within low ih by (auto simp: image_iff)
  qed
qed simp

lemma tree_map_of: "tree_ok ps \<Longrightarrow> (d, e) \<in> set ps \<longleftrightarrow> map_of ps d = Some e"
proof -
  assume "tree_ok ps"
  then have "distinct (map fst ps)" by (simp add: tree_ok_def strict_sorted_iff)
  then show ?thesis by simp
qed

text \<open>Deleting edges by their number, from the ones that satisfy \<open>P\<close>.\<close>

definition drop_old :: "ip_addr \<Rightarrow> u16 \<Rightarrow> (ip_addr \<Rightarrow> bool) \<Rightarrow> (ip_addr \<times> ip_addr \<rightharpoonup> u16 \<times> 'v) \<Rightarrow> (ip_addr \<times> ip_addr \<rightharpoonup> u16 \<times> 'v)" where
  "drop_old a n P E = (\<lambda>k. case E k of None \<Rightarrow> None
     | Some (m, v) \<Rightarrow> if fst k = a \<and> P (snd k) \<and> seqno_greater_than n m then None else Some (m, v))"

lemma drop_edges:
  assumes ok: "lsdb_ok s" and tc: "ls_tree s a = Some tc" and d: "distinct ds"
    and ds: "set ds = {d. \<exists>e. (d, e) \<in> set (tn_edges tc) \<and> P d \<and> seqno_greater_than n (ed_ansn e)}"
  shows "\<exists>s'. delete_edges a ds s = Some s' \<and> lsdb_ok s' \<and> edge_core s' = drop_old a n P (edge_core s) \<and> same_nodes s s'"
proof -
  have t: "tree_ok (tn_edges tc)" using lsdb_okD(1) [OF ok] tc by (simp add: trees_ok_def)
  have get: "get_edge s (a, x) = map_of (tn_edges tc) x" for x using tc by (simp add: get_edge_def)
  have "\<exists>s'. delete_edges a ds s = Some s' \<and> lsdb_ok s' \<and>
      edge_core s' = (\<lambda>k. if fst k = a \<and> snd k \<in> set ds then None else edge_core s k) \<and> same_nodes s s'"
    using ds tree_map_of [OF t] by (intro delete_edges_ok [OF ok d]) (auto simp: get)
  moreover have "(\<lambda>k. if fst k = a \<and> snd k \<in> set ds then None else edge_core s k) = drop_old a n P (edge_core s)"
  proof (rule ext)
    fix k :: "ip_addr \<times> ip_addr"
    obtain x y where k: "k = (x, y)" by (cases k)
    show "(if fst k = a \<and> snd k \<in> set ds then None else edge_core s k) = drop_old a n P (edge_core s) k"
    proof (cases "x = a")
      case True
      then show ?thesis
        by (cases "map_of (tn_edges tc) y") (auto simp: k ds tree_map_of [OF t] drop_old_def edge_core_def get)
    qed (auto simp: k drop_old_def split: option.splits)
  qed
  ultimately show ?thesis by simp
qed

lemma delete_revoked_ok:
  assumes ok: "lsdb_ok s" and tc: "ls_tree s a = Some tc"
  shows "\<exists>s' r. olsr_delete_revoked_tc_edges a n l u s = Some (s', r) \<and> lsdb_ok s' \<and>
    edge_core s' = drop_old a n (\<lambda>d. l \<le> d \<and> d < u) (edge_core s) \<and> same_nodes s s'"
proof -
  have t: "tree_ok (tn_edges tc)" using lsdb_okD(1) [OF ok] tc by (simp add: trees_ok_def)
  note r = revoked_set [OF t, of False l n u, simplified]
  have "\<exists>s'. delete_edges a (revoked n l u False (tn_edges tc)) s = Some s' \<and> lsdb_ok s' \<and>
      edge_core s' = drop_old a n (\<lambda>d. l \<le> d \<and> d < u) (edge_core s) \<and> same_nodes s s'"
    using r by (intro drop_edges [OF ok tc]) auto
  then show ?thesis using tc by (auto simp: olsr_delete_revoked_tc_edges_def Let_def)
qed

lemma delete_outdated_ok:
  assumes ok: "lsdb_ok s" and tc: "ls_tree s a = Some tc"
  shows "\<exists>s' r. olsr_delete_outdated_tc_edges a s = Some (s', r) \<and> lsdb_ok s' \<and>
    edge_core s' = drop_old a (tn_ansn tc) (\<lambda>_. True) (edge_core s) \<and> same_nodes s s'"
proof -
  have t: "tree_ok (tn_edges tc)" using lsdb_okD(1) [OF ok] tc by (simp add: trees_ok_def)
  let ?ds = "map fst (filter (\<lambda>(d, e). seqno_greater_than (tn_ansn tc) (ed_ansn e)) (tn_edges tc))"
  have "distinct ?ds" using t by (simp add: tree_ok_def strict_sorted_iff distinct_map_filter)
  then have "\<exists>s'. delete_edges a ?ds s = Some s' \<and> lsdb_ok s' \<and>
      edge_core s' = drop_old a (tn_ansn tc) (\<lambda>_. True) (edge_core s) \<and> same_nodes s s'"
    by (intro drop_edges [OF ok tc]) force+
  then show ?thesis using tc by (auto simp: olsr_delete_outdated_tc_edges_def Let_def)
qed

section \<open>Entering the announced edges\<close>

text \<open>The reference. A new edge gets the cost of a link without any quality, a known one the cost of the announced quality.\<close>

definition enter :: "ip_addr \<Rightarrow> u16 \<Rightarrow> ulong \<Rightarrow> ('q \<Rightarrow> ulong) \<Rightarrow> ('q \<Rightarrow> byte \<times> byte) \<Rightarrow> 'q tc_mpr_addr \<Rightarrow>
    (ip_addr \<times> ip_addr \<rightharpoonup> u16 \<times> ulong \<times> byte \<times> byte) \<Rightarrow> (ip_addr \<times> ip_addr \<rightharpoonup> u16 \<times> ulong \<times> byte \<times> byte)" where
  "enter a ansn c0 cost quals n E =
     E((a, ta_address n) \<mapsto> (ansn, if E (a, ta_address n) = None then c0 else cost (ta_quality n), quals (ta_quality n)))"

definition tc_entry_bytes :: "('q \<Rightarrow> byte list) \<Rightarrow> 'q tc_mpr_addr \<Rightarrow> byte list" where
  "tc_entry_bytes ser n = pkt_put_ipaddress (ta_address n) @ ser (ta_quality n)"

definition tc_entries_bytes :: "('q \<Rightarrow> byte list) \<Rightarrow> 'q tc_mpr_addr list \<Rightarrow> byte list" where
  "tc_entries_bytes ser ns = concat (map (tc_entry_bytes ser) ns)"

definition borders_after :: "(ip_addr \<times> ip_addr) option \<Rightarrow> 'q tc_mpr_addr list \<Rightarrow> (ip_addr \<times> ip_addr) option" where
  "borders_after b ns = (if ns = [] then b
     else Some (case b of None \<Rightarrow> ta_address (hd ns) | Some (l, _) \<Rightarrow> l, ta_address (last ns)))"

definition edge_view :: "('q \<Rightarrow> byte \<times> byte) \<Rightarrow> 'q lsdb \<Rightarrow> ip_addr \<times> ip_addr \<rightharpoonup> u16 \<times> ulong \<times> byte \<times> byte" where
  "edge_view quals s = (\<lambda>k. map_option (\<lambda>(n, c, q). (n, c, quals q)) (edge_core s k))"

lemma edge_view_None [simp]: "edge_view quals s k = None \<longleftrightarrow> get_edge s k = None"
  by (simp add: edge_view_def)

lemma edge_view_upd: "edge_core s' = (edge_core s)(k \<mapsto> (n, c, q)) \<Longrightarrow> edge_view quals s' = (edge_view quals s)(k \<mapsto> (n, c, quals q))"
  by (auto simp: edge_view_def fun_eq_iff)

lemma edge_view_drop: "edge_core s' = drop_old a n P (edge_core s) \<Longrightarrow> edge_view quals s' = drop_old a n P (edge_view quals s)"
proof (rule ext)
  fix k
  assume "edge_core s' = drop_old a n P (edge_core s)"
  then show "edge_view quals s' k = drop_old a n P (edge_view quals s) k"
    by (cases "edge_core s k") (auto simp: edge_view_def drop_old_def simp del: edge_core_None)
qed

lemma edge_view_changes [simp]: "edge_view quals (s\<lparr>ls_changes := b\<rparr>) = edge_view quals s"
  by (simp add: edge_view_def edge_core_def get_edge_def)

lemma lsdb_ok_changes [simp]: "lsdb_ok (s\<lparr>ls_changes := b\<rparr>) = lsdb_ok s"
  by (simp add: lsdb_ok_def trees_ok_def get_edge_def)

lemma get_edge_lookup: "ls_tree s a = Some tc \<Longrightarrow> olsr_lookup_tc_edge a d s = Some (get_edge s (a, d))"
  by (simp add: olsr_lookup_tc_edge_def get_edge_def)

definition metric_conf :: "(byte list \<Rightarrow> 'q \<Rightarrow> ('q \<times> byte list) option) \<Rightarrow> ('q \<Rightarrow> ulong option) \<Rightarrow> 'q tc_conf \<Rightarrow> bool" where
  "metric_conf deser cost c \<longleftrightarrow> tf_deserialize c = deser \<and> tf_cost c = cost \<and> 0 < tf_lq_level c"

definition cost_of :: "('q \<Rightarrow> ulong option) \<Rightarrow> 'q \<Rightarrow> ulong" where
  "cost_of cost q = the (cost q)"

context lq_handler
begin

lemma metric_conf_total: "metric_conf deserialize calc_cost c \<Longrightarrow> metric_total c"
  using cost_returns by (force simp: metric_conf_def metric_total_def)

lemma conf_edge_cost: "metric_conf deserialize calc_cost c \<Longrightarrow> edge_cost c old q = cost_of calc_cost q"
  by (simp add: metric_conf_def edge_cost_def cost_of_def)

lemma update_edge_ok:
  assumes c: "metric_conf deserialize calc_cost c" and ok: "lsdb_ok s" and a: "ls_tree s a \<noteq> None" and free: "\<not> List.member (tf_deny c) (ta_address n)"
  shows "\<exists>s' ch. olsr_tc_update_edge c a ansn (tc_entry_bytes serialize n @ p) s = Some (ta_address n, True, ch, p, s') \<and> lsdb_ok s' \<and>
    edge_view qualities s' = enter a ansn (cost_of calc_cost (tf_zero c)) (cost_of calc_cost) qualities n (edge_view qualities s) \<and> same_nodes s s'"
proof -
  let ?k = "(a, ta_address n)"
  obtain tc where tc: "ls_tree s a = Some tc" using a by blast
  note total = metric_conf_total [OF c]
  have bytes: "pkt_get_ipaddress (tc_entry_bytes serialize n @ p) = Some (ta_address n, serialize (ta_quality n) @ p)"
    by (simp add: tc_entry_bytes_def)
  have conf: "tf_deserialize c = deserialize" "tf_cost c = calc_cost" "0 < tf_lq_level c" using c by (simp_all add: metric_conf_def)
  show ?thesis
  proof (cases "get_edge s ?k")
    case None
    obtain s1 where s1: "olsr_add_tc_edge_entry c a (ta_address n) ansn s = Some s1" "lsdb_ok s1"
      "edge_core s1 = (edge_core s)(?k \<mapsto> (ansn, edge_cost c 0 (tf_zero c), tf_zero c))" "same_nodes s s1"
      using add_edge_ok [OF total ok a None] by blast
    have core: "edge_core s1 ?k = Some (ansn, cost_of calc_cost (tf_zero c), tf_zero c)" using s1(3) conf_edge_cost [OF c] by simp
    then obtain e where e: "get_edge s1 ?k = Some e" "ed_ansn e = ansn" "ed_cost e = cost_of calc_cost (tf_zero c)" "ed_quality e = tf_zero c"
      by (auto simp: edge_core_def)
    obtain q' where q': "\<forall>p. deserialize (serialize (ta_quality n) @ p) (tf_zero c) = Some (q', p)" "qualities q' = qualities (ta_quality n)"
      using serialized by blast
    obtain s2 where s2: "upd_edge ?k (\<lambda>e. e\<lparr>ed_quality := q'\<rparr>) s1 = Some s2" "lsdb_ok s2"
      "edge_core s2 = (edge_core s1)(?k \<mapsto> (ansn, cost_of calc_cost (tf_zero c), q'))" "same_nodes s1 s2"
      using upd_edge_inv [OF s1(2) e(1), of "\<lambda>e. e\<lparr>ed_quality := q'\<rparr>"] e by auto
    have "olsr_tc_update_edge c a ansn (tc_entry_bytes serialize n @ p) s = Some (ta_address n, True, True, p, s2)"
      using bytes get_edge_lookup [OF tc] None free s1(1) e(1,4) q'(1) s2(1) conf by (simp add: olsr_tc_update_edge_def)
    moreover have "edge_core s2 = (edge_core s)(?k \<mapsto> (ansn, cost_of calc_cost (tf_zero c), q'))" using s1(3) s2(3) by simp
    from edge_view_upd [OF this] have "edge_view qualities s2 = enter a ansn (cost_of calc_cost (tf_zero c)) (cost_of calc_cost) qualities n (edge_view qualities s)"
      using None q'(2) by (simp add: enter_def)
    ultimately show ?thesis using s2(2) same_nodes_trans [OF s1(4) s2(4)] by blast
  next
    case (Some e)
    obtain s1 where s1: "upd_edge ?k (\<lambda>e. e\<lparr>ed_ansn := ansn\<rparr>) s = Some s1" "lsdb_ok s1" "get_edge s1 = (get_edge s)(?k \<mapsto> e\<lparr>ed_ansn := ansn\<rparr>)"
      "edge_core s1 = (edge_core s)(?k \<mapsto> (ansn, ed_cost e, ed_quality e))" "same_nodes s s1"
      using upd_edge_inv [OF ok Some, of "\<lambda>e. e\<lparr>ed_ansn := ansn\<rparr>"] by auto
    obtain q' where q': "\<forall>p. deserialize (serialize (ta_quality n) @ p) (ed_quality e) = Some (q', p)" "qualities q' = qualities (ta_quality n)"
      using serialized by blast
    have e1: "get_edge s1 ?k = Some (e\<lparr>ed_ansn := ansn\<rparr>)" by (simp add: s1(3))
    obtain s2 where s2: "upd_edge ?k (\<lambda>e. e\<lparr>ed_quality := q'\<rparr>) s1 = Some s2" "lsdb_ok s2"
      "get_edge s2 = (get_edge s1)(?k \<mapsto> e\<lparr>ed_ansn := ansn, ed_quality := q'\<rparr>)"
      "edge_core s2 = (edge_core s1)(?k \<mapsto> (ansn, ed_cost e, q'))" "same_nodes s1 s2"
      using upd_edge_inv [OF s1(2) e1, of "\<lambda>e. e\<lparr>ed_quality := q'\<rparr>"] by auto
    have e2: "get_edge s2 ?k = Some (e\<lparr>ed_ansn := ansn, ed_quality := q'\<rparr>)" by (simp add: s2(3))
    obtain s3 r where s3: "olsr_calc_tc_edge_entry_etx c ?k s2 = Some (s3, r)" "lsdb_ok s3"
      "edge_core s3 = (edge_core s2)(?k \<mapsto> (ansn, cost_of calc_cost q', q'))" "same_nodes s2 s3"
      using calc_etx_ok [OF total s2(2) e2] conf_edge_cost [OF c] by auto
    have same: "same_nodes s s3" using s1(5) s2(5) s3(4) same_nodes_trans by blast
    obtain tc' where tc': "ls_tree s3 a = Some tc'" using same_nodes_tree [OF same tc] by blast
    have "olsr_tc_update_edge c a ansn (tc_entry_bytes serialize n @ p) s =
        Some (ta_address n, True, r \<and> tn_msg_hops tc' \<le> tf_lq_dlimit c, p, s3)"
      using bytes get_edge_lookup [OF tc] Some s1(1) q'(1) s2(1) s3(1) tc' conf by (simp add: olsr_tc_update_edge_def)
    moreover have "edge_core s3 = (edge_core s)(?k \<mapsto> (ansn, cost_of calc_cost (ta_quality n), q'))"
      using s1(4) s2(4) s3(3) cost_view [OF q'(2)] by (simp add: cost_of_def)
    from edge_view_upd [OF this] have "edge_view qualities s3 = enter a ansn (cost_of calc_cost (tf_zero c)) (cost_of calc_cost) qualities n (edge_view qualities s)"
      using Some q'(2) by (simp add: enter_def edge_view_def edge_core_def)
    ultimately show ?thesis using s3(2) same by blast
  qed
qed

lemma tc_edges_ok:
  assumes c: "metric_conf deserialize calc_cost c"
  shows "lsdb_ok s \<Longrightarrow> ls_tree s a \<noteq> None \<Longrightarrow> list_all (\<lambda>n. \<not> List.member (tf_deny c) (ta_address n)) ns \<Longrightarrow>
    \<exists>s'. tc_edges c a ansn (pos + 8 * length ns) pos (tc_entries_bytes serialize ns @ p) b s = Some (s', borders_after b ns) \<and> lsdb_ok s' \<and>
      edge_view qualities s' = fold (enter a ansn (cost_of calc_cost (tf_zero c)) (cost_of calc_cost) qualities) ns (edge_view qualities s) \<and>
      node_rest s' = node_rest s \<and> ls_rt s' = ls_rt s"
proof (induction ns arbitrary: pos b s)
  case Nil
  then show ?case by (subst tc_edges.simps) (simp add: borders_after_def tc_entries_bytes_def)
next
  case (Cons n ns)
  obtain s1 ch where s1: "olsr_tc_update_edge c a ansn (tc_entry_bytes serialize n @ tc_entries_bytes serialize ns @ p) s =
      Some (ta_address n, True, ch, tc_entries_bytes serialize ns @ p, s1)" "lsdb_ok s1"
    "edge_view qualities s1 = enter a ansn (cost_of calc_cost (tf_zero c)) (cost_of calc_cost) qualities n (edge_view qualities s)" "same_nodes s s1"
    using update_edge_ok [OF c Cons.prems(1,2), of n ansn "tc_entries_bytes serialize ns @ p"] Cons.prems(3) by auto
  let ?s1 = "if ch then s1\<lparr>ls_changes := True\<rparr> else s1" and ?b = "Some (case b of None \<Rightarrow> ta_address n | Some (l, _) \<Rightarrow> l, ta_address n)"
  have t: "ls_tree ?s1 a \<noteq> None" using Cons.prems(2) same_nodes_dom [OF s1(4), of a] by (simp del: not_None_eq)
  have "lsdb_ok ?s1" using s1(2) by simp
  from Cons.IH [OF this t, of "pos + 8" ?b] obtain s' where
    s': "tc_edges c a ansn (pos + 8 + 8 * length ns) (pos + 8) (tc_entries_bytes serialize ns @ p) ?b ?s1 = Some (s', borders_after ?b ns)"
    "lsdb_ok s'" "edge_view qualities s' = fold (enter a ansn (cost_of calc_cost (tf_zero c)) (cost_of calc_cost) qualities) ns (edge_view qualities ?s1)"
    "node_rest s' = node_rest ?s1" "ls_rt s' = ls_rt ?s1"
    using Cons.prems(3) by auto
  have b: "borders_after ?b ns = borders_after b (n # ns)"
    by (cases ns) (auto simp: borders_after_def split: option.splits)
  have "tc_edges c a ansn (pos + 8 * length (n # ns)) pos (tc_entries_bytes serialize (n # ns) @ p) b s = Some (s', borders_after b (n # ns))"
    using s1(1) s'(1) by (subst tc_edges.simps) (simp add: tc_entries_bytes_def b add.assoc)
  moreover have "node_rest s' = node_rest s \<and> ls_rt s' = ls_rt s"
    using s'(4,5) s1(4) by (simp add: same_nodes_def node_rest_def split: if_splits)
  ultimately show ?case using s'(2,3) s1(3) by simp
qed

end

section \<open>The whole message\<close>

definition tc_bytes :: "('q \<Rightarrow> byte list) \<Rightarrow> 'q lq_tc_message \<Rightarrow> u16 \<Rightarrow> byte \<Rightarrow> byte \<Rightarrow> 'q tc_mpr_addr list \<Rightarrow> byte list" where
  "tc_bytes ser t seqno lower upper ns =
     serialize_common ((lt_comm t)\<lparr>oc_size := of_nat (length (tc_entries_bytes ser ns) + hello_off)\<rparr>) seqno @
     lq_tc_header t lower upper @ tc_entries_bytes ser ns"

lemma filter_edges: "tc_filter n ansn tc = (tc', go) \<Longrightarrow> tn_edges tc' = tn_edges tc"
  by (auto simp: tc_filter_def Let_def split: if_splits)

lemma tree_eq_view:
  assumes "\<And>a. map_option tn_edges (ls_tree s' a) = map_option tn_edges (ls_tree s a)"
  shows "lsdb_ok s' = lsdb_ok s" "edge_core s' = edge_core s"
proof -
  have "get_edge s' = get_edge s"
  proof (rule ext)
    fix k :: "ip_addr \<times> ip_addr"
    show "get_edge s' k = get_edge s k"
      using assms [of "fst k"] by (cases "ls_tree s (fst k)"; cases "ls_tree s' (fst k)") (simp_all add: get_edge_def)
  qed
  moreover have "trees_ok s' = trees_ok s"
  proof -
    have "(\<forall>tc. ls_tree s' a = Some tc \<longrightarrow> tree_ok (tn_edges tc)) = (\<forall>tc. ls_tree s a = Some tc \<longrightarrow> tree_ok (tn_edges tc))" for a
      using assms [of a] by (cases "ls_tree s a"; cases "ls_tree s' a") simp_all
    then show ?thesis by (simp add: trees_ok_def)
  qed
  ultimately show "lsdb_ok s' = lsdb_ok s" "edge_core s' = edge_core s" by (simp_all add: lsdb_ok_def edge_core_def)
qed

lemma upd_tc_view:
  assumes "upd_tc a f s = Some s'" "\<And>tc. tn_edges (f tc) = tn_edges tc"
  shows "lsdb_ok s' = lsdb_ok s" "edge_core s' = edge_core s" "ls_tree s' = (ls_tree s)(a := map_option f (ls_tree s a))"
proof -
  obtain tc where tc: "ls_tree s a = Some tc" "s' = s\<lparr>ls_tree := (ls_tree s)(a \<mapsto> f tc)\<rparr>" using assms(1) by (auto simp: upd_tc_def)
  then have "map_option tn_edges (ls_tree s' x) = map_option tn_edges (ls_tree s x)" for x using assms(2) by simp
  from tree_eq_view [OF this] show "lsdb_ok s' = lsdb_ok s" "edge_core s' = edge_core s" by simp_all
  show "ls_tree s' = (ls_tree s)(a := map_option f (ls_tree s a))" using tc by simp
qed

lemma upd_tc_Some: "ls_tree s a = Some tc \<Longrightarrow> upd_tc a f s = Some (s\<lparr>ls_tree := (ls_tree s)(a \<mapsto> f tc)\<rparr>)"
  by (simp add: upd_tc_def)

lemma gate_view:
  assumes "tc_gate n ansn a s = (s', go)"
  shows "lsdb_ok s' = lsdb_ok s" "edge_core s' = edge_core s" "ls_tree s' x = None \<longleftrightarrow> ls_tree s x = None"
proof -
  have "map_option tn_edges (ls_tree s' y) = map_option tn_edges (ls_tree s y)" for y
    using assms by (auto simp: tc_gate_def Let_def dest: filter_edges split: option.splits prod.splits)
  from tree_eq_view [OF this] show "lsdb_ok s' = lsdb_ok s" "edge_core s' = edge_core s" by simp_all
  show "ls_tree s' x = None \<longleftrightarrow> ls_tree s x = None"
    using assms by (auto simp: tc_gate_def Let_def split: option.splits prod.splits if_splits)
qed

lemma add_node_view:
  assumes "tf_main_addr c \<noteq> 0" "ls_tree s a = None"
  shows "\<exists>s'. olsr_add_tc_entry c a s = (s', True) \<and> lsdb_ok s' = lsdb_ok s \<and> edge_core s' = edge_core s \<and> ls_tree s' a = Some new_tc"
proof -
  let ?s = "s\<lparr>ls_tree := (ls_tree s)(a \<mapsto> new_tc), ls_rt := ls_rt s @ [Rt_Insert a]\<rparr>"
  have "get_edge ?s = get_edge s" using assms(2) by (auto simp: get_edge_def new_tc_def fun_eq_iff)
  moreover have "trees_ok ?s = trees_ok s"
    unfolding trees_ok_def using assms(2) by (simp add: new_tc_def) (metis option.distinct(1))
  ultimately have "lsdb_ok ?s = lsdb_ok s" "edge_core ?s = edge_core s" by (simp_all add: lsdb_ok_def edge_core_def)
  then show ?thesis using assms by (simp add: olsr_add_tc_entry_def)
qed

text \<open>The borders of a message: none without announced edges, otherwise from the first and the last one.\<close>

definition message_borders :: "byte \<Rightarrow> byte \<Rightarrow> 'q tc_mpr_addr list \<Rightarrow> (ip_addr \<times> ip_addr) option option" where
  "message_borders lower upper ns =
     (if ns = [] then Some None else olsr_calculate_tc_border lower (ta_address (hd ns)) upper (ta_address (last ns)))"

definition announce ::
    "ip_addr \<Rightarrow> u16 \<Rightarrow> ulong \<Rightarrow> ('q \<Rightarrow> ulong) \<Rightarrow> ('q \<Rightarrow> byte \<times> byte) \<Rightarrow> (ip_addr \<times> ip_addr) option \<Rightarrow> 'q tc_mpr_addr list \<Rightarrow>
     (ip_addr \<times> ip_addr \<rightharpoonup> u16 \<times> ulong \<times> byte \<times> byte) \<Rightarrow> (ip_addr \<times> ip_addr \<rightharpoonup> u16 \<times> ulong \<times> byte \<times> byte)" where
  "announce a ansn c0 cost quals bd ns E =
     (let E' = fold (enter a ansn c0 cost quals) ns E in
      case bd of None \<Rightarrow> E' | Some (l, u) \<Rightarrow> drop_old a ansn (\<lambda>d. l \<le> d \<and> d < u) E')"

context lq_handler
begin

lemma length_tc_entries: "length (tc_entries_bytes serialize ns) = 8 * length ns"
  by (induction ns) (simp_all add: tc_entries_bytes_def tc_entry_bytes_def serialize_size)

text \<open>An accepted message up to its borders.\<close>

lemma input_tc_start:
  assumes c: "metric_conf deserialize calc_cost c" "tf_main_addr c \<noteq> 0" "tf_link_status c from_addr = 2"
    and ok: "lsdb_ok s" and t: "oc_type (lt_comm t) = lq_tc_message_type" "oc_orig (lt_comm t) = a"
    and ns: "list_all (\<lambda>n. \<not> List.member (tf_deny c) (ta_address n)) ns" "8 * length ns < 65520"
    and gate: "snd (tc_gate seqno (lt_ansn t) a s)"
  shows "\<exists>s' tc. lsdb_ok s' \<and> ls_tree s' a = Some tc \<and> tn_msg_seq tc = seqno \<and> tn_ansn tc = lt_ansn t \<and>
    tn_gc tc = Option.bind (ls_tree s a) tn_gc \<and>
    edge_view qualities s' = fold (enter a (lt_ansn t) (cost_of calc_cost (tf_zero c)) (cost_of calc_cost) qualities) ns (edge_view qualities s) \<and>
    olsr_input_tc c from_addr (tc_bytes serialize t seqno lower upper ns @ p) s = do {
      borders \<leftarrow> message_borders lower upper ns;
      s \<leftarrow> upd_tc a (\<lambda>tc. tc\<lparr>tn_validity := Some (me_to_reltime (reltime_to_me (oc_vtime (lt_comm t))))\<rparr>) s';
      s \<leftarrow> (case borders of
          None \<Rightarrow> upd_tc a (\<lambda>tc. tc\<lparr>tn_gc := Some olsr_tc_edge_gc_time\<rparr>) s
        | Some (l, u) \<Rightarrow> map_option fst (olsr_delete_revoked_tc_edges a (lt_ansn t) l u s));
      Some (s, True) }"
proof -
  obtain s0 where s0: "tc_gate seqno (lt_ansn t) a s = (s0, True)" using gate by (metis prod.collapse)
  note g = gate_view [OF s0]
  define s1o where "s1o = (if ls_tree s0 a = None then (let (s, added) = olsr_add_tc_entry c a s0 in if added then Some s else None) else Some s0)"
  obtain s1 tc1 where s1: "s1o = Some s1" "lsdb_ok s1 = lsdb_ok s0" "edge_core s1 = edge_core s0" "ls_tree s1 a = Some tc1"
    "tn_gc tc1 = Option.bind (ls_tree s a) tn_gc"
  proof (cases "ls_tree s0 a")
    case None
    then have "ls_tree s a = None" using g(3) by simp
    then show ?thesis using add_node_view [OF c(2) None] that None by (auto simp: s1o_def new_tc_def)
  next
    case (Some tc)
    moreover obtain tc0 where tc0: "ls_tree s a = Some tc0" using g(3) [of a] Some by auto
    moreover have "tn_gc tc = tn_gc tc0"
      using s0 Some tc0 by (auto simp: tc_gate_def tc_filter_def Let_def split: prod.splits if_splits)
    ultimately show ?thesis using that by (simp add: s1o_def)
  qed
  let ?h = "\<lambda>tc. tc\<lparr>tn_msg_hops := oc_hops (lt_comm t), tn_msg_seq := seqno, tn_ansn := lt_ansn t, tn_ignored := 0, tn_err_seq_valid := False\<rparr>"
  obtain s2 where s2: "upd_tc a ?h s1 = Some s2" using upd_tc_Some [OF s1(4)] by blast
  have v2: "lsdb_ok s2 = lsdb_ok s1" "edge_core s2 = edge_core s1" "ls_tree s2 = (ls_tree s1)(a := map_option ?h (ls_tree s1 a))"
    by (rule upd_tc_view [OF s2], simp)+
  have ok2: "lsdb_ok s2" using v2(1) s1(2) g(1) ok by simp
  have a2: "ls_tree s2 a \<noteq> None" using v2(3) s1(4) by simp
  obtain s3 where s3: "tc_edges c a (lt_ansn t) (16 + 8 * length ns) 16 (tc_entries_bytes serialize ns @ p) None s2 = Some (s3, borders_after None ns)"
    "lsdb_ok s3" "edge_view qualities s3 = fold (enter a (lt_ansn t) (cost_of calc_cost (tf_zero c)) (cost_of calc_cost) qualities) ns (edge_view qualities s2)"
    "node_rest s3 = node_rest s2" "ls_rt s3 = ls_rt s2"
    using tc_edges_ok [OF c(1) ok2 a2 ns(1), of "lt_ansn t" 16 p None] by blast
  have "node_rest s3 a = node_rest s2 a" by (simp only: s3(4))
  then obtain tc3 where tc3: "ls_tree s3 a = Some tc3" "tn_msg_seq tc3 = seqno" "tn_ansn tc3 = lt_ansn t" "tn_gc tc3 = tn_gc tc1"
    using v2(3) s1(4)
    by (cases "ls_tree s3 a") (auto simp: node_rest_def dest!: arg_cong [where f = "\<lambda>tc. (tn_msg_seq tc, tn_ansn tc, tn_gc tc)"])
  have view: "edge_view qualities s3 = fold (enter a (lt_ansn t) (cost_of calc_cost (tf_zero c)) (cost_of calc_cost) qualities) ns (edge_view qualities s)"
    using s3(3) v2(2) s1(3) g(2) by (simp add: edge_view_def)
  define k where "k = length (tc_entries_bytes serialize ns) + hello_off"
  have "k < 65536" "k = 16 + 8 * length ns" using ns(2) by (simp_all add: k_def length_tc_entries hello_off_def)
  then have u: "unat (of_nat k :: u16) = 16 + 8 * length ns" by (simp only: unat_u16)
  have b: "(case borders_after None ns of None \<Rightarrow> Some None | Some (l, u) \<Rightarrow> olsr_calculate_tc_border lower l upper u) = message_borders lower upper ns"
    by (cases "ns = []") (simp_all add: borders_after_def message_borders_def)
  have one: "pkt_get_u8 (x # q) = Some (x, q)" for x q by (simp add: pkt_get_u8_def)
  have "olsr_input_tc c from_addr (tc_bytes serialize t seqno lower upper ns @ p) s = do {
      borders \<leftarrow> message_borders lower upper ns;
      s \<leftarrow> upd_tc a (\<lambda>tc. tc\<lparr>tn_validity := Some (me_to_reltime (reltime_to_me (oc_vtime (lt_comm t))))\<rparr>) s3;
      s \<leftarrow> (case borders of
          None \<Rightarrow> upd_tc a (\<lambda>tc. tc\<lparr>tn_gc := Some olsr_tc_edge_gc_time\<rparr>) s
        | Some (l, u) \<Rightarrow> map_option fst (olsr_delete_revoked_tc_edges a (lt_ansn t) l u s));
      Some (s, True) }"
    unfolding olsr_input_tc_def tc_bytes_def serialize_common_def lq_tc_header_def k_def [symmetric]
    by (simp add: one u t s0 s1o_def [symmetric] s1(1) s2 c(3) s3(1) b)
  then show ?thesis using s3(2) tc3 s1(5) view by (intro exI [of _ s3] exI [of _ tc3]) simp
qed

text \<open>Where the borders lie outside of an address the function writes outside of its variables.\<close>

lemma input_tc_borders:
  assumes "metric_conf deserialize calc_cost c" "tf_main_addr c \<noteq> 0" "tf_link_status c from_addr = 2"
    and "lsdb_ok s" "oc_type (lt_comm t) = lq_tc_message_type" "oc_orig (lt_comm t) = a"
    and "list_all (\<lambda>n. \<not> List.member (tf_deny c) (ta_address n)) ns" "8 * length ns < 65520"
    and "snd (tc_gate seqno (lt_ansn t) a s)" and "message_borders lower upper ns = None"
  shows "olsr_input_tc c from_addr (tc_bytes serialize t seqno lower upper ns @ p) s = None"
  using input_tc_start [OF assms(1-9), of lower upper p] assms(10) by auto

lemma input_tc_ok:
  assumes c: "metric_conf deserialize calc_cost c" "tf_main_addr c \<noteq> 0" "tf_link_status c from_addr = 2"
    and ok: "lsdb_ok s" and t: "oc_type (lt_comm t) = lq_tc_message_type" "oc_orig (lt_comm t) = a"
    and ns: "list_all (\<lambda>n. \<not> List.member (tf_deny c) (ta_address n)) ns" "8 * length ns < 65520"
    and gate: "snd (tc_gate seqno (lt_ansn t) a s)" and bd: "message_borders lower upper ns = Some bd"
  shows "\<exists>s' tc. olsr_input_tc c from_addr (tc_bytes serialize t seqno lower upper ns @ p) s = Some (s', True) \<and> lsdb_ok s' \<and>
    edge_view qualities s' = announce a (lt_ansn t) (cost_of calc_cost (tf_zero c)) (cost_of calc_cost) qualities bd ns (edge_view qualities s) \<and>
    ls_tree s' a = Some tc \<and> tn_msg_seq tc = seqno \<and> tn_ansn tc = lt_ansn t \<and> tn_validity tc \<noteq> None \<and>
    tn_gc tc = (if bd = None then Some olsr_tc_edge_gc_time else Option.bind (ls_tree s a) tn_gc)"
proof -
  obtain s3 tc3 where s3: "lsdb_ok s3" "ls_tree s3 a = Some tc3" "tn_msg_seq tc3 = seqno" "tn_ansn tc3 = lt_ansn t"
    "tn_gc tc3 = Option.bind (ls_tree s a) tn_gc"
    "edge_view qualities s3 = fold (enter a (lt_ansn t) (cost_of calc_cost (tf_zero c)) (cost_of calc_cost) qualities) ns (edge_view qualities s)"
    and run: "olsr_input_tc c from_addr (tc_bytes serialize t seqno lower upper ns @ p) s = do {
      s \<leftarrow> upd_tc a (\<lambda>tc. tc\<lparr>tn_validity := Some (me_to_reltime (reltime_to_me (oc_vtime (lt_comm t))))\<rparr>) s3;
      s \<leftarrow> (case bd of
          None \<Rightarrow> upd_tc a (\<lambda>tc. tc\<lparr>tn_gc := Some olsr_tc_edge_gc_time\<rparr>) s
        | Some (l, u) \<Rightarrow> map_option fst (olsr_delete_revoked_tc_edges a (lt_ansn t) l u s));
      Some (s, True) }"
    using input_tc_start [OF c ok t ns gate, of lower upper p] bd by auto
  let ?v = "\<lambda>tc. tc\<lparr>tn_validity := Some (me_to_reltime (reltime_to_me (oc_vtime (lt_comm t))))\<rparr>"
  obtain s4 where s4: "upd_tc a ?v s3 = Some s4" using upd_tc_Some [OF s3(2)] by blast
  have v4: "lsdb_ok s4 = lsdb_ok s3" "edge_core s4 = edge_core s3" "ls_tree s4 = (ls_tree s3)(a := map_option ?v (ls_tree s3 a))"
    by (rule upd_tc_view [OF s4], simp)+
  have tc4: "ls_tree s4 a = Some (?v tc3)" using v4(3) s3(2) by simp
  have view: "edge_view qualities s4 = fold (enter a (lt_ansn t) (cost_of calc_cost (tf_zero c)) (cost_of calc_cost) qualities) ns (edge_view qualities s)"
    using s3(6) v4(2) by (simp add: edge_view_def)
  show ?thesis
  proof (cases bd)
    case None
    obtain s5 where s5: "upd_tc a (\<lambda>tc. tc\<lparr>tn_gc := Some olsr_tc_edge_gc_time\<rparr>) s4 = Some s5" using upd_tc_Some [OF tc4] by blast
    have "lsdb_ok s5 = lsdb_ok s4" "edge_core s5 = edge_core s4"
      "ls_tree s5 = (ls_tree s4)(a := map_option (\<lambda>tc. tc\<lparr>tn_gc := Some olsr_tc_edge_gc_time\<rparr>) (ls_tree s4 a))"
      by (rule upd_tc_view [OF s5], simp)+
    then show ?thesis
      unfolding run s4 using None s5 v4(1) s3(1,3,4) view tc4 by (auto simp: announce_def edge_view_def)
  next
    case (Some lu)
    obtain l u where lu: "lu = (l, u)" by (cases lu)
    obtain s5 r where s5: "olsr_delete_revoked_tc_edges a (lt_ansn t) l u s4 = Some (s5, r)" "lsdb_ok s5"
      "edge_core s5 = drop_old a (lt_ansn t) (\<lambda>d. l \<le> d \<and> d < u) (edge_core s4)" "same_nodes s4 s5"
      using delete_revoked_ok [OF _ tc4] v4(1) s3(1) by blast
    obtain tc5 where tc5: "ls_tree s5 a = Some tc5" "tc5\<lparr>tn_edges := []\<rparr> = (?v tc3)\<lparr>tn_edges := []\<rparr>"
      using same_nodes_tree [OF s5(4) tc4] by blast
    from tc5(2) have "tn_msg_seq tc5 = seqno \<and> tn_ansn tc5 = lt_ansn t \<and> tn_validity tc5 \<noteq> None \<and> tn_gc tc5 = Option.bind (ls_tree s a) tn_gc"
      using s3(3,4,5) by (auto dest!: arg_cong [where f = "\<lambda>tc. (tn_msg_seq tc, tn_ansn tc, tn_validity tc, tn_gc tc)"])
    then show ?thesis unfolding run s4 using Some lu s5(1,2) tc5(1) edge_view_drop [OF s5(3)] view by (simp add: announce_def)
  qed
qed

end

end
