(* ===== verification/Lsdb_Claims.thy ===== *)
theory Lsdb_Claims imports Lsdb_Input begin

text \<open>Properties of TC messages and of the link state database.\<close>

section \<open>The windows of sequence numbers\<close>

definition ahead :: "int \<Rightarrow> u16 \<Rightarrow> int" where
  "ahead beg seq = (uint seq - beg) mod 65536"

lemma uint_of_int_u16: "uint (of_int x :: u16) = x mod 65536"
  by (simp add: uint_word_of_int)

lemma mod_u16:
  fixes x :: int
  shows "- 65536 \<le> x \<Longrightarrow> x < 0 \<Longrightarrow> x mod 65536 = x + 65536" "0 \<le> x \<Longrightarrow> x < 65536 \<Longrightarrow> x mod 65536 = x"
    "65536 \<le> x \<Longrightarrow> x < 131072 \<Longrightarrow> x mod 65536 = x - 65536"
proof -
  show "- 65536 \<le> x \<Longrightarrow> x < 0 \<Longrightarrow> x mod 65536 = x + 65536"
    using mod_pos_pos_trivial [of "x + 65536" 65536] by (simp only: mod_add_self2)
  show "65536 \<le> x \<Longrightarrow> x < 131072 \<Longrightarrow> x mod 65536 = x - 65536"
    using mod_pos_pos_trivial [of "x - 65536" 65536] by (simp only: minus_mod_self2)
qed (rule mod_pos_pos_trivial)

lemma ahead_cases:
  assumes "- 65536 < beg" "beg < 65536"
  shows "ahead beg seq = (if uint seq < beg then uint seq - beg + 65536 else if uint seq - beg < 65536 then uint seq - beg else uint seq - beg - 65536)"
proof -
  have "0 \<le> uint seq" "uint seq < 65536" using uint_lt2p [of seq] by simp_all
  then have x: "- 65536 \<le> uint seq - beg" "uint seq - beg < 131072" using assms by linarith+
  show ?thesis unfolding ahead_def
    using mod_u16(1) [OF x(1)] mod_u16(2) [of "uint seq - beg"] mod_u16(3) [OF _ x(2)] by auto
qed

lemma windows_aux:
  assumes "- 65536 < beg" "beg < 65536" "0 \<le> end_seq" "end_seq < 131072" "beg < end_seq" "end_seq - beg < 65536" "beg < 0 \<longrightarrow> end_seq < 65536"
  shows "(olsr_seq_inrange_low beg end_seq seq \<longleftrightarrow> ahead beg seq < end_seq - beg) \<and>
    (olsr_seq_inrange_high beg end_seq seq \<longleftrightarrow> 0 < ahead beg seq \<and> ahead beg seq \<le> end_seq - beg)"
proof -
  have s: "0 \<le> uint seq" "uint seq < 65536" using uint_lt2p [of seq] by simp_all
  consider (neg) "beg < 0" | (over) "0 \<le> beg" "65536 \<le> end_seq" | (plain) "0 \<le> beg" "end_seq < 65536" by linarith
  then show ?thesis
  proof cases
    case neg
    have n: "\<not> uint seq < beg" "beg < uint seq" using neg s by linarith+
    have m: "beg mod 65536 = beg + 65536" using neg assms(1) by (intro mod_u16) simp_all
    show ?thesis
      using neg assms s by (auto simp: olsr_seq_inrange_low_def olsr_seq_inrange_high_def uint_of_int_u16 m n ahead_cases)
  next
    case over
    have m: "end_seq mod 65536 = end_seq - 65536" using over assms(4) by (intro mod_u16) simp_all
    have n: "0 < uint seq - beg + 65536" "uint seq - beg < 65536" "uint seq < end_seq" "uint seq \<le> end_seq"
      using assms(2) over s by linarith+
    show ?thesis
      using over assms n by (auto simp: olsr_seq_inrange_low_def olsr_seq_inrange_high_def uint_of_int_u16 m ahead_cases)
  next
    case plain
    have n: "\<not> uint seq + 65536 < end_seq" "\<not> uint seq + 65536 \<le> end_seq" using plain s by linarith+
    show ?thesis
      using plain assms s by (auto simp: olsr_seq_inrange_low_def olsr_seq_inrange_high_def n ahead_cases)
  qed
qed

text \<open>C29. The tests for windows of sequence numbers are right at every wrap-around: a number is in the window exactly if it lies less than the size
  of the window ahead of its start, counted modulo \<open>2 ^ 16\<close>; the one form has its start in the window, the other one its end.\<close>
theorem windows_exact:
  assumes "- 65536 < beg" "beg < 65536" "0 \<le> end_seq" "end_seq < 131072" "beg < end_seq" "end_seq - beg < 65536" "beg < 0 \<longrightarrow> end_seq < 65536"
  shows "(olsr_seq_inrange_low beg end_seq seq \<longleftrightarrow> ahead beg seq < end_seq - beg) \<and>
    (olsr_seq_inrange_high beg end_seq seq \<longleftrightarrow> 0 < ahead beg seq \<and> ahead beg seq \<le> end_seq - beg)"
  using windows_aux [OF assms] .

theorem windows_exact_witness:
  "olsr_seq_inrange_high (-1000) 24 65000 \<and> \<not> olsr_seq_inrange_high (-1000) 24 100 \<and> olsr_seq_inrange_low 65000 66024 100"
  using windows_exact [of "-1000" 24 65000] windows_exact [of "-1000" 24 100] windows_exact [of 65000 66024 100]
  by (simp add: ahead_def)

section \<open>Restarted nodes\<close>

text \<open>Is one of the messages, given by their sequence and neighbour set numbers, accepted?\<close>

fun accepted :: "(u16 \<times> u16) list \<Rightarrow> 'q lsdb_node \<Rightarrow> bool" where
  "accepted [] tc = False"
| "accepted (m # ms) tc = (let (tc', go) = tc_filter (fst m) (snd m) tc in go \<or> accepted ms tc')"

lemma filter_rejects:
  assumes "tc_filter n ansn tc = (tc', False)" "n \<noteq> tn_msg_seq tc"
  shows "tn_msg_seq tc' = tn_msg_seq tc \<and>
    (unat (tn_ignored tc) < 32 \<and> unat (tn_ignored tc') = unat (tn_ignored tc) + 1 \<and> tn_err_seq_valid tc' = tn_err_seq_valid tc \<and> tn_err_seq tc' = tn_err_seq tc \<or>
     tn_ignored tc' = tn_ignored tc \<and> tn_err_seq_valid tc' \<and> tn_err_seq tc' = n \<and> (tn_err_seq_valid tc \<longrightarrow> tn_err_seq tc = n))"
proof -
  have "unat (x + 1) = unat x + 1" if "x < 32" for x :: u16
    using that by (intro unatSuc [of x, simplified, folded Suc_eq_plus1] | simp add: word_less_nat_alt unat_word_ariths)+
  then show ?thesis using assms by (auto simp: tc_filter_def Let_def word_less_nat_alt split: if_splits)
qed

lemma rejected_rest:
  assumes "\<not> accepted ms tc" "distinct (map fst ms)" "tn_msg_seq tc \<notin> fst ` set ms" "tn_err_seq_valid tc" "tn_err_seq tc \<notin> fst ` set ms"
  shows "length ms \<le> 32 - unat (tn_ignored tc)"
  using assms
proof (induction ms arbitrary: tc)
  case (Cons m ms)
  obtain tc' where f: "tc_filter (fst m) (snd m) tc = (tc', False)" "\<not> accepted ms tc'"
    using Cons.prems(1) by (auto split: prod.splits)
  have "fst m \<noteq> tn_msg_seq tc" using Cons.prems(3) by auto
  note r = filter_rejects [OF f(1) this]
  have u: "unat (tn_ignored tc) < 32" "unat (tn_ignored tc') = unat (tn_ignored tc) + 1" "tn_err_seq_valid tc'" "tn_err_seq tc' = tn_err_seq tc"
    using r Cons.prems(4,5) by auto
  then show ?case using Cons.IH [OF f(2)] Cons.prems r by auto
qed simp

lemma rejected_most:
  assumes "\<not> accepted ms tc" "distinct (map fst ms)" "tn_msg_seq tc \<notin> fst ` set ms"
  shows "length ms \<le> 33 - min 32 (unat (tn_ignored tc))"
  using assms
proof (induction ms arbitrary: tc)
  case (Cons m ms)
  obtain tc' where f: "tc_filter (fst m) (snd m) tc = (tc', False)" "\<not> accepted ms tc'"
    using Cons.prems(1) by (auto split: prod.splits)
  have "fst m \<noteq> tn_msg_seq tc" using Cons.prems(3) by auto
  note r = filter_rejects [OF f(1) this]
  have d: "distinct (map fst ms)" "tn_msg_seq tc' \<notin> fst ` set ms" using Cons.prems r by auto
  from r consider (old) "unat (tn_ignored tc) < 32" "unat (tn_ignored tc') = unat (tn_ignored tc) + 1"
    | (stray) "tn_ignored tc' = tn_ignored tc" "tn_err_seq_valid tc'" "tn_err_seq tc' = fst m" by blast
  then show ?case
  proof cases
    case old
    then show ?thesis using Cons.IH [OF f(2) d] by auto
  next
    case stray
    then have "tn_err_seq tc' \<notin> fst ` set ms" using Cons.prems(2) by simp
    from rejected_rest [OF f(2) d stray(2) this] show ?thesis using stray(1) by auto
  qed
qed simp

text \<open>C28. A node that restarts is heard again: whatever the numbers of its messages are and whatever is stored about it, at most 33 messages with
  different sequence numbers, none of them the stored one, are rejected in a row, and fewer if some have been ignored before.\<close>
theorem restart_heard:
  assumes "distinct (map fst ms)" "tn_msg_seq tc \<notin> fst ` set ms" "33 - min 32 (unat (tn_ignored tc)) < length ms"
  shows "accepted ms tc"
  using rejected_most [of ms tc] assms by fastforce

text \<open>The bound is reached: two more old numbers are ignored, and one number that is far away.\<close>

definition old_node :: "nat lsdb_node" where
  "old_node = new_tc\<lparr>tn_edges := [(7, \<lparr>ed_ansn = 9, ed_cost = 1, ed_quality = 0, ed_inv = None\<rparr>)], tn_msg_seq := 1000, tn_ansn := 9,
     tn_ignored := 30\<rparr>"

theorem restart_heard_witness:
  "accepted [(40000, 9), (900, 9), (901, 9), (902, 9)] old_node \<and> \<not> accepted [(40000, 9), (900, 9), (901, 9)] old_node"
proof -
  have "tn_msg_seq old_node = 1000" "unat (tn_ignored old_node) = 30" by (simp_all add: old_node_def)
  then have "accepted [(40000, 9), (900, 9), (901, 9), (902, 9)] old_node" by (intro restart_heard) simp_all
  moreover have "\<not> accepted [(40000, 9), (900, 9), (901, 9)] old_node" by code_simp
  ultimately show ?thesis by blast
qed

end
