(* ===== verification/Tc_Claims.thy ===== *)
theory Tc_Claims imports Lsdb_Claims begin

text \<open>What TC messages do to the link state database.\<close>

section \<open>Announced edges\<close>

lemma enter_all:
  "distinct (map ta_address ns) \<Longrightarrow> fold (enter a m c0 cost quals) ns E k =
    (case find (\<lambda>n. k = (a, ta_address n)) ns of None \<Rightarrow> E k
     | Some n \<Rightarrow> Some (m, if E k = None then c0 else cost (ta_quality n), quals (ta_quality n)))"
proof (induction ns arbitrary: E)
  case (Cons n ns)
  show ?case
  proof (cases "k = (a, ta_address n)")
    case True
    then have "find (\<lambda>n. k = (a, ta_address n)) ns = None" using Cons.prems by (auto simp: find_None_iff image_iff)
    then show ?thesis using Cons True by (simp add: enter_def)
  next
    case False
    then show ?thesis using Cons by (simp add: enter_def split: option.split)
  qed
qed simp

lemma enter_known:
  assumes "distinct (map ta_address ns)" "n \<in> set ns"
  shows "fold (enter a m c0 cost quals) ns E (a, ta_address n) =
    Some (m, if E (a, ta_address n) = None then c0 else cost (ta_quality n), quals (ta_quality n))"
proof -
  have "find (\<lambda>x. (a, ta_address n) = (a, ta_address x)) ns = Some n"
    using assms by (induction ns) (auto simp: image_iff)
  then show ?thesis by (simp only: enter_all [OF assms(1)] option.case)
qed

lemma enter_other:
  "d \<notin> ta_address ` set ns \<Longrightarrow> fold (enter a m c0 cost quals) ns E (a, d) = E (a, d)"
  by (induction ns arbitrary: E) (simp_all add: enter_def)

lemma not_newer_self [simp]: "\<not> seqno_greater_than n n"
  by (simp add: seqno_greater_than_def)

lemma drop_same: "E k = Some (n, v) \<Longrightarrow> drop_old a n P E k = Some (n, v)"
  by (simp add: drop_old_def)

lemma announce_known:
  assumes "distinct (map ta_address ns)" "n \<in> set ns"
  shows "announce a m c0 cost quals bd ns E (a, ta_address n) =
    Some (m, if E (a, ta_address n) = None then c0 else cost (ta_quality n), quals (ta_quality n))"
  using enter_known [OF assms] by (auto simp: announce_def Let_def drop_same split: option.split)

lemma no_borders: "ns \<noteq> [] \<Longrightarrow> message_borders 0xFF 0xFF ns = Some (Some (ta_address (hd ns), ta_address (last ns)))"
  by (simp add: message_borders_def olsr_calculate_tc_border_def)

text \<open>C13. An accepted TC message of any length is read from its bytes into the database exactly as announced: its edges are entered with its number
  and qualities, the older edges between its borders are deleted, all others stay; every edge keeps the pointer to its inverse edge.\<close>
theorem tc_message_entered:
  assumes "lq_handler quals ser deser cost" "metric_conf deser cost c" "tf_main_addr c \<noteq> 0" "tf_link_status c from_addr = 2"
    and "lsdb_ok s" "oc_type (lt_comm t) = lq_tc_message_type" "oc_orig (lt_comm t) = a"
    and "list_all (\<lambda>n. \<not> List.member (tf_deny c) (ta_address n)) ns" "8 * length ns < 65520"
    and "snd (tc_gate seqno (lt_ansn t) a s)" "message_borders lower upper ns = Some bd"
  shows "\<exists>s'. olsr_input_tc c from_addr (tc_bytes ser t seqno lower upper ns @ p) s = Some (s', True) \<and> lsdb_ok s' \<and>
    edge_view quals s' = announce a (lt_ansn t) (cost_of cost (tf_zero c)) (cost_of cost) quals bd ns (edge_view quals s)"
  using lq_handler.input_tc_ok [OF assms, of p] by blast

definition fpm_tc_conf :: "default_lq_fpm tc_conf" where
  "fpm_tc_conf = \<lparr>tf_main_addr = 1, tf_lq_level = 2, tf_lq_dlimit = 3, tf_deny = [0], tf_zero = \<lparr>valueLq = 0, valueNlq = 0, quickstart = 0\<rparr>,
     tf_deserialize = default_lq_deserialize_tc_lq_pair_fpm, tf_cost = default_lq_calc_cost_fpm, tf_relevant = default_lq_is_relevant_costchange_fpm,
     tf_link_status = (\<lambda>_. 2)\<rparr>"

definition sample_neigh :: "ip_addr \<Rightarrow> byte \<Rightarrow> default_lq_fpm tc_mpr_addr" where
  "sample_neigh a q = \<lparr>ta_address = a, ta_quality = \<lparr>valueLq = q, valueNlq = q, quickstart = 0\<rparr>\<rparr>"

definition sample_tc :: "u16 \<Rightarrow> default_lq_fpm lq_tc_message" where
  "sample_tc ansn = \<lparr>lt_comm = \<lparr>oc_type = lq_tc_message_type, oc_vtime = 15000, oc_size = 0, oc_orig = 9, oc_ttl = 255, oc_hops = 1\<rparr>,
     lt_from = 9, lt_ansn = ansn, lt_neigh = [sample_neigh 4 255, sample_neigh 6 128]\<rparr>"

lemma init_tc_ok [simp]: "tf_main_addr c \<noteq> 0 \<Longrightarrow> lsdb_ok (olsr_init_tc c)"
  by (auto simp: olsr_init_tc_def olsr_add_tc_entry_def lsdb_ok_def trees_ok_def get_edge_def new_tc_def split: if_splits)

lemma init_tc_view: "edge_view quals (olsr_init_tc c) = Map.empty" "a \<noteq> tf_main_addr c \<Longrightarrow> ls_tree (olsr_init_tc c) a = None"
  by (auto simp: olsr_init_tc_def olsr_add_tc_entry_def edge_view_def edge_core_def get_edge_def new_tc_def fun_eq_iff)

lemma fpm_tc_conf_ok [simp]:
  "metric_conf default_lq_deserialize_tc_lq_pair_fpm default_lq_calc_cost_fpm fpm_tc_conf" "tf_main_addr fpm_tc_conf = 1"
  "tf_link_status fpm_tc_conf x = 2" "tf_deny fpm_tc_conf = [0]" "tf_zero fpm_tc_conf = \<lparr>valueLq = 0, valueNlq = 0, quickstart = 0\<rparr>"
  by (simp_all add: fpm_tc_conf_def metric_conf_def)

lemma sample_tc_simps [simp]:
  "oc_type (lt_comm (sample_tc n)) = lq_tc_message_type" "oc_orig (lt_comm (sample_tc n)) = 9" "lt_ansn (sample_tc n) = n"
  "lt_neigh (sample_tc n) = [sample_neigh 4 255, sample_neigh 6 128]" "ta_address (sample_neigh x q) = x"
  by (simp_all add: sample_tc_def sample_neigh_def)

theorem tc_message_entered_witness:
  "\<exists>s'. olsr_input_tc fpm_tc_conf 9 (tc_bytes default_lq_serialize_tc_lq_pair_fpm (sample_tc 3) 8 0xFF 0xFF (lt_neigh (sample_tc 3)))
      (olsr_init_tc fpm_tc_conf) = Some (s', True) \<and>
    dom (edge_view fpm_qualities s') = {(9, 4), (9, 6)}"
proof -
  let ?s = "olsr_init_tc fpm_tc_conf" and ?ns = "lt_neigh (sample_tc 3)"
  have h: "list_all (\<lambda>n. \<not> List.member (tf_deny fpm_tc_conf) (ta_address n)) ?ns" "8 * length ?ns < 65520" by simp_all
  have g: "snd (tc_gate 8 (lt_ansn (sample_tc 3)) 9 ?s)" by (simp add: tc_gate_def init_tc_view)
  obtain s' where "olsr_input_tc fpm_tc_conf 9 (tc_bytes default_lq_serialize_tc_lq_pair_fpm (sample_tc 3) 8 0xFF 0xFF ?ns @ []) ?s = Some (s', True)"
    "edge_view fpm_qualities s' = announce 9 (lt_ansn (sample_tc 3)) (cost_of default_lq_calc_cost_fpm (tf_zero fpm_tc_conf))
      (cost_of default_lq_calc_cost_fpm) fpm_qualities (Some (4, 6)) ?ns (edge_view fpm_qualities ?s)"
    using tc_message_entered [OF fpm_tc.lq_handler_axioms _ _ _ _ _ _ h g, where lower = "0xFF" and upper = "0xFF" and bd = "Some (4, 6)" and p = "[]"
      and from_addr = 9] by (auto simp: no_borders)
  then show ?thesis by (auto simp: announce_def enter_def drop_old_def init_tc_view split: if_splits)
qed

section \<open>The cost of a new edge\<close>

lemma ahead_step: "ahead (uint n - k) (n + 1) = (k + 1) mod 65536"
proof -
  have "uint (n + 1) = (uint n + 1) mod 65536" by (simp add: uint_word_ariths)
  then show ?thesis by (simp add: ahead_def mod_diff_left_eq add.commute)
qed

text \<open>The next message of a node is accepted.\<close>

lemma gate_next:
  assumes "ls_tree s a = Some tc" "tn_msg_seq tc = n" "tn_ansn tc = m"
  shows "snd (tc_gate (n + 1) m a s)"
proof -
  have b: "0 \<le> uint x" "uint x < 65536" for x :: u16 using uint_lt2p [of x] by simp_all
  have "\<not> olsr_seq_inrange_high (uint n - tc_seqno_window) (uint n) (n + 1)"
    using windows_aux [of "uint n - 1024" "uint n" "n + 1"] b [of n] ahead_step [of n 1024] by (simp add: tc_seqno_window_def)
  moreover have "olsr_seq_inrange_high (uint n) (uint n + tc_seqno_window * tc_seqno_window_mult) (n + 1)"
    using windows_aux [of "uint n" "uint n + 8192" "n + 1"] b [of n] ahead_step [of n 0] by (simp add: tc_seqno_window_def tc_seqno_window_mult_def)
  moreover have "olsr_seq_inrange_low (uint m) (uint m + tc_ansn_window * tc_ansn_window_mult) m"
    using windows_aux [of "uint m" "uint m + 1024" m] b [of m] by (simp add: ahead_def tc_ansn_window_def tc_ansn_window_mult_def)
  ultimately show ?thesis using assms by (simp add: tc_gate_def tc_filter_def)
qed

lemma broken_costs: "cost_of default_lq_calc_cost_fpm \<lparr>valueLq = 0, valueNlq = 0, quickstart = 0\<rparr> = link_cost_broken"
  by (simp add: cost_of_def default_lq_calc_cost_fpm_def useful_lq_def)

text \<open>C24. The cost of an edge is computed before its link quality is read from the message: an edge that a TC message adds gets the
  cost of a broken link whatever its quality is, so it cannot be used. Only the next TC message of the node, with the same content, gives it the cost
  of its quality.\<close>
theorem new_edges_unusable:
  assumes "metric_conf default_lq_deserialize_tc_lq_pair_fpm default_lq_calc_cost_fpm c" "tf_main_addr c \<noteq> 0" "tf_link_status c from_addr = 2"
    and "tf_zero c = \<lparr>valueLq = 0, valueNlq = 0, quickstart = 0\<rparr>"
    and "lsdb_ok s" "oc_type (lt_comm t) = lq_tc_message_type" "oc_orig (lt_comm t) = a"
    and "list_all (\<lambda>n. \<not> List.member (tf_deny c) (ta_address n)) ns" "8 * length ns < 65520"
    and "snd (tc_gate seqno (lt_ansn t) a s)" "distinct (map ta_address ns)" "n \<in> set ns" "get_edge s (a, ta_address n) = None"
  shows "\<exists>s1 s2. olsr_input_tc c from_addr (tc_bytes default_lq_serialize_tc_lq_pair_fpm t seqno 0xFF 0xFF ns) s = Some (s1, True) \<and>
    edge_view fpm_qualities s1 (a, ta_address n) = Some (lt_ansn t, link_cost_broken, fpm_qualities (ta_quality n)) \<and>
    olsr_input_tc c from_addr (tc_bytes default_lq_serialize_tc_lq_pair_fpm t (seqno + 1) 0xFF 0xFF ns) s1 = Some (s2, True) \<and>
    edge_view fpm_qualities s2 (a, ta_address n) = Some (lt_ansn t, the (default_lq_calc_cost_fpm (ta_quality n)), fpm_qualities (ta_quality n))"
proof -
  let ?ser = default_lq_serialize_tc_lq_pair_fpm
  have "ns \<noteq> []" using assms(12) by auto
  note bd = no_borders [OF this]
  obtain s1 tc where s1: "olsr_input_tc c from_addr (tc_bytes ?ser t seqno 0xFF 0xFF ns) s = Some (s1, True)" "lsdb_ok s1"
    "edge_view fpm_qualities s1 (a, ta_address n) = Some (lt_ansn t, link_cost_broken, fpm_qualities (ta_quality n))"
    "ls_tree s1 a = Some tc" "tn_msg_seq tc = seqno" "tn_ansn tc = lt_ansn t"
    using fpm_tc.input_tc_ok [OF assms(1-3,5-10) bd, of "[]"] assms(4,13) announce_known [OF assms(11,12)] by (auto simp: broken_costs)
  note gate = gate_next [OF s1(4-6)]
  have known: "edge_view fpm_qualities s1 (a, ta_address n) \<noteq> None" using s1(3) by simp
  obtain s2 where s2: "olsr_input_tc c from_addr (tc_bytes ?ser t (seqno + 1) 0xFF 0xFF ns) s1 = Some (s2, True)"
    "edge_view fpm_qualities s2 (a, ta_address n) = Some (lt_ansn t, the (default_lq_calc_cost_fpm (ta_quality n)), fpm_qualities (ta_quality n))"
    using fpm_tc.input_tc_ok [OF assms(1-3) s1(2) assms(6-9) gate bd, of "[]"] announce_known [OF assms(11,12)] known
    by (auto simp: cost_of_def)
  show ?thesis using s1(1,3) s2 by blast
qed

theorem new_edges_unusable_witness:
  "\<exists>s1 s2. olsr_input_tc fpm_tc_conf 5 (tc_bytes default_lq_serialize_tc_lq_pair_fpm (sample_tc 3) 65535 0xFF 0xFF (lt_neigh (sample_tc 3)))
      (olsr_init_tc fpm_tc_conf) = Some (s1, True) \<and>
    edge_view fpm_qualities s1 (9, 4) = Some (3, 2 ^ 22, 255, 255) \<and>
    olsr_input_tc fpm_tc_conf 5 (tc_bytes default_lq_serialize_tc_lq_pair_fpm (sample_tc 3) 0 0xFF 0xFF (lt_neigh (sample_tc 3))) s1 = Some (s2, True) \<and>
    edge_view fpm_qualities s2 (9, 4) = Some (3, 65535, 255, 255)"
proof -
  let ?s = "olsr_init_tc fpm_tc_conf" and ?ns = "lt_neigh (sample_tc 3)"
  have h: "list_all (\<lambda>n. \<not> List.member (tf_deny fpm_tc_conf) (ta_address n)) ?ns" "8 * length ?ns < 65520" by simp_all
  have g: "snd (tc_gate 65535 (lt_ansn (sample_tc 3)) 9 ?s)" by (simp add: tc_gate_def init_tc_view)
  have n: "distinct (map ta_address ?ns)" "sample_neigh 4 255 \<in> set ?ns" by simp_all
  have e: "get_edge ?s (9, ta_address (sample_neigh 4 255)) = None" by (simp add: get_edge_def init_tc_view)
  have c: "the (default_lq_calc_cost_fpm (ta_quality (sample_neigh 4 255))) = 65535" by code_simp
  have b: "link_cost_broken = 2 ^ 22" by (simp add: link_cost_broken_def)
  have m: "tf_main_addr fpm_tc_conf \<noteq> 0" "tf_link_status fpm_tc_conf 5 = 2" "tf_zero fpm_tc_conf = \<lparr>valueLq = 0, valueNlq = 0, quickstart = 0\<rparr>"
    by simp_all
  have "lsdb_ok ?s" by simp
  note r = new_edges_unusable [OF fpm_tc_conf_ok(1) m this _ _ h g n e]
  have w: "(65535 :: u16) + 1 = 0" by simp
  from r [unfolded w] c b show ?thesis
    by (simp add: sample_neigh_def)
qed

section \<open>Old edges\<close>

lemma one_part_keeps:
  assumes "ns \<noteq> []" "d \<notin> ta_address ` set ns" "\<not> (ta_address (hd ns) \<le> d \<and> d < ta_address (last ns))"
  shows "announce a m c0 cost quals (Some (ta_address (hd ns), ta_address (last ns))) ns E (a, d) = E (a, d)"
  using enter_other [OF assms(2)] assms(3) by (auto simp: announce_def drop_old_def split: option.split)

text \<open>C25. The flags 255 of a message that announces all neighbours of a node mean that it has no lower and no upper border, but the code takes the
  first and the last announced address as borders, because it fills the pointers instead of the addresses: an older edge of the node outside of
  them stays, with its cost, although the message revokes it, and the timer that would remove it later is not started.\<close>
theorem stale_edges_stay:
  assumes "lq_handler quals ser deser cost" "metric_conf deser cost c" "tf_main_addr c \<noteq> 0" "tf_link_status c from_addr = 2"
    and "lsdb_ok s" "oc_type (lt_comm t) = lq_tc_message_type" "oc_orig (lt_comm t) = a"
    and "list_all (\<lambda>n. \<not> List.member (tf_deny c) (ta_address n)) ns" "8 * length ns < 65520" "snd (tc_gate seqno (lt_ansn t) a s)"
    and "ns \<noteq> []" "d \<notin> ta_address ` set ns" "\<not> (ta_address (hd ns) \<le> d \<and> d < ta_address (last ns))"
  shows "\<exists>s' tc. olsr_input_tc c from_addr (tc_bytes ser t seqno 0xFF 0xFF ns) s = Some (s', True) \<and>
    edge_view quals s' (a, d) = edge_view quals s (a, d) \<and> ls_tree s' a = Some tc \<and> tn_gc tc = Option.bind (ls_tree s a) tn_gc"
  using lq_handler.input_tc_ok [OF assms(1-10) no_borders [OF assms(11)], of "[]"] one_part_keeps [OF assms(11-13)] by auto

definition stale_state :: "default_lq_fpm lsdb" where
  "stale_state = \<lparr>ls_tree = [9 \<mapsto> new_tc\<lparr>tn_edges := [(2, \<lparr>ed_ansn = 1, ed_cost = 65535,
     ed_quality = \<lparr>valueLq = 255, valueNlq = 255, quickstart = 0\<rparr>, ed_inv = None\<rparr>)], tn_msg_seq := 7, tn_ansn := 1\<rparr>],
     ls_changes = False, ls_rt = []\<rparr>"

lemma stale_state_ok: "lsdb_ok stale_state"
  by (auto simp: stale_state_def lsdb_ok_def trees_ok_def get_edge_def tree_ok_def split: if_splits)

theorem stale_edges_stay_witness:
  "\<exists>s'. olsr_input_tc fpm_tc_conf 5 (tc_bytes default_lq_serialize_tc_lq_pair_fpm (sample_tc 2) 8 0xFF 0xFF (lt_neigh (sample_tc 2))) stale_state =
      Some (s', True) \<and> edge_view fpm_qualities s' (9, 2) = Some (1, 65535, 255, 255)"
proof -
  let ?ns = "lt_neigh (sample_tc 2)"
  have h: "list_all (\<lambda>n. \<not> List.member (tf_deny fpm_tc_conf) (ta_address n)) ?ns" "8 * length ?ns < 65520" by simp_all
  have g: "snd (tc_gate 8 (lt_ansn (sample_tc 2)) 9 stale_state)" by code_simp
  have d: "?ns \<noteq> []" "2 \<notin> ta_address ` set ?ns" "\<not> (ta_address (hd ?ns) \<le> 2 \<and> 2 < ta_address (last ?ns))" by simp_all
  have m: "tf_main_addr fpm_tc_conf \<noteq> 0" "tf_link_status fpm_tc_conf 5 = 2" by simp_all
  have "edge_view fpm_qualities stale_state (9, 2) = Some (1, 65535, 255, 255)"
    by (simp add: stale_state_def edge_view_def edge_core_def get_edge_def)
  then show ?thesis
    using stale_edges_stay [OF fpm_tc.lq_handler_axioms fpm_tc_conf_ok(1) m stale_state_ok _ _ h g d] by auto
qed

section \<open>Border flags\<close>

definition bad_flag :: "byte \<Rightarrow> bool" where
  "bad_flag f \<longleftrightarrow> f \<noteq> 255 \<and> (f = 0 \<or> 32 < f)"

lemma clear_bytes: "j \<le> 4 \<Longrightarrow> length bs = 4 \<Longrightarrow>
    \<exists>bs'. iter [0..<j] (\<lambda>i bs. wr bs (4 - int i - 1) 0) bs = Some bs' \<and> length bs' = (4 :: nat)"
proof (induction j)
  case (Suc j)
  then show ?case by (auto simp: iter_append wr_def)
qed simp

lemma border_ip_None: "border_ip f x = None \<longleftrightarrow> f = 0 \<or> 32 < f"
proof -
  define k where "k = unat (f - 1) div 8"
  have m: "unat (- 1 :: byte) = 255" by code_simp
  have k: "4 \<le> k \<longleftrightarrow> f = 0 \<or> 32 < f"
  proof (cases "f = 0")
    case False
    then have "0 < unat f" by (simp add: unat_gt_0)
    moreover have "unat (f - 1) = unat f - 1" using False by (simp add: unat_minus_one)
    moreover have "4 \<le> k \<longleftrightarrow> 32 \<le> unat (f - 1)" unfolding k_def by linarith
    ultimately show ?thesis using False by (auto simp: word_less_nat_alt)
  qed (simp add: k_def m)
  show ?thesis
  proof (cases "4 \<le> k")
    case True
    then have "rd bs (4 - int k - 1) = None" for bs :: "byte list" by (simp add: rd_def)
    then have "border_ip f x = None" by (simp add: border_ip_def Let_def k_def [symmetric])
    then show ?thesis using k True by simp
  next
    case False
    then obtain bs where "iter [0..<k] (\<lambda>i bs. wr bs (4 - int i - 1) 0) (le32 x) = Some bs" "length bs = 4"
      using clear_bytes [of k "le32 x"] by auto
    then have "border_ip f x \<noteq> None" using False by (simp add: border_ip_def Let_def k_def [symmetric] rd_def wr_def)
    then show ?thesis using k False by simp
  qed
qed

lemma bad_borders:
  "olsr_calculate_tc_border lower l upper u = None \<longleftrightarrow> (lower \<noteq> 0 \<or> upper \<noteq> 0) \<and> (bad_flag lower \<or> bad_flag upper)"
  using border_ip_None [of lower l] border_ip_None [of upper u]
  by (cases "border_ip lower l"; cases "border_ip upper u") (simp_all add: olsr_calculate_tc_border_def bad_flag_def)

text \<open>C26. The border flags of a message are not checked: flags above 32, or one flag that is 0 while the other is not, make the daemon write in front
  of the address, and these are the only flags that do so. One such byte in an otherwise correct message is enough.\<close>
theorem bad_border_flags:
  assumes "lq_handler quals ser deser cost" "metric_conf deser cost c" "tf_main_addr c \<noteq> 0" "tf_link_status c from_addr = 2"
    and "lsdb_ok s" "oc_type (lt_comm t) = lq_tc_message_type" "oc_orig (lt_comm t) = a"
    and "list_all (\<lambda>n. \<not> List.member (tf_deny c) (ta_address n)) ns" "8 * length ns < 65520" "snd (tc_gate seqno (lt_ansn t) a s)"
    and "ns \<noteq> []"
  shows "olsr_input_tc c from_addr (tc_bytes ser t seqno lower upper ns) s = None \<longleftrightarrow>
    (lower \<noteq> 0 \<or> upper \<noteq> 0) \<and> (bad_flag lower \<or> bad_flag upper)"
proof (cases "message_borders lower upper ns")
  case None
  then have "(lower \<noteq> 0 \<or> upper \<noteq> 0) \<and> (bad_flag lower \<or> bad_flag upper)"
    using assms(11) by (simp add: message_borders_def bad_borders)
  then show ?thesis using lq_handler.input_tc_borders [OF assms(1-10) None, of "[]"] by simp
next
  case (Some bd)
  then have "\<not> ((lower \<noteq> 0 \<or> upper \<noteq> 0) \<and> (bad_flag lower \<or> bad_flag upper))"
    using assms(11) bad_borders [of lower "ta_address (hd ns)" upper "ta_address (last ns)"] by (simp add: message_borders_def)
  moreover obtain s' where "olsr_input_tc c from_addr (tc_bytes ser t seqno lower upper ns) s = Some (s', True)"
    using lq_handler.input_tc_ok [OF assms(1-10) Some, of "[]"] by auto
  ultimately show ?thesis by (simp del: de_Morgan_conj de_Morgan_disj)
qed

theorem bad_border_flags_witness:
  "olsr_input_tc fpm_tc_conf 5 (tc_bytes default_lq_serialize_tc_lq_pair_fpm (sample_tc 2) 8 0xFF 33 (lt_neigh (sample_tc 2))) stale_state = None \<and>
   olsr_input_tc fpm_tc_conf 5 (tc_bytes default_lq_serialize_tc_lq_pair_fpm (sample_tc 2) 8 0xFF 32 (lt_neigh (sample_tc 2))) stale_state \<noteq> None"
proof -
  let ?ns = "lt_neigh (sample_tc 2)"
  have h: "list_all (\<lambda>n. \<not> List.member (tf_deny fpm_tc_conf) (ta_address n)) ?ns" "8 * length ?ns < 65520" "?ns \<noteq> []" by simp_all
  have g: "snd (tc_gate 8 (lt_ansn (sample_tc 2)) 9 stale_state)" by code_simp
  have m: "tf_main_addr fpm_tc_conf \<noteq> 0" "tf_link_status fpm_tc_conf 5 = 2" by simp_all
  note r = bad_border_flags [OF fpm_tc.lq_handler_axioms fpm_tc_conf_ok(1) m stale_state_ok _ _ h(1,2) g h(3)]
  show ?thesis by (subst (1 2) r) (simp_all add: bad_flag_def)
qed

end
