(* ===== verification/Lsdb_Reach.thy ===== *)
theory Lsdb_Reach imports Tc_Claims begin

text \<open>
  The states of the link state database that a daemon can reach by reading TC messages, right or wrong ones, and by its timers; and the messages of
  daemons without link qualities.
\<close>

section \<open>Messages keep the invariant\<close>

lemma update_edge_inv:
  assumes m: "metric_total c" and ok: "lsdb_ok s" and a: "ls_tree s a \<noteq> None"
    and r: "olsr_tc_update_edge c a ansn p s = Some (n, lq, ch, p', s')"
  shows "lsdb_ok s' \<and> same_nodes s s'"
proof -
  obtain tc where tc: "ls_tree s a = Some tc" using a by blast
  obtain p1 where p1: "pkt_get_ipaddress p = Some (n, p1)"
    using r by (auto simp: olsr_tc_update_edge_def bind_eq_Some_conv split: prod.splits option.splits if_splits)
  note u = r [unfolded olsr_tc_update_edge_def p1 Option.bind.simps prod.case get_edge_lookup [OF tc]]
  show ?thesis
  proof (cases "get_edge s (a, n)")
    case None
    obtain s1 where s1: "olsr_add_tc_edge_entry c a n ansn s = Some s1" "lsdb_ok s1" "same_nodes s s1"
      using add_edge_ok [OF m ok a None] by blast
    show ?thesis
    proof (cases "List.member (tf_deny c) n")
      case False
      then obtain e q p2 where e: "get_edge s1 (a, n) = Some e" "upd_edge (a, n) (\<lambda>e. e\<lparr>ed_quality := q\<rparr>) s1 = Some s'"
        using u None s1(1) by (auto simp: bind_eq_Some_conv split: prod.splits)
      then show ?thesis using upd_edge_inv [OF s1(2) e(1), of "\<lambda>e. e\<lparr>ed_quality := q\<rparr>"] same_nodes_trans [OF s1(3)] by auto
    qed (use u None ok in auto)
  next
    case (Some e)
    obtain s1 where s1: "upd_edge (a, n) (\<lambda>e. e\<lparr>ed_ansn := ansn\<rparr>) s = Some s1" "lsdb_ok s1"
      "get_edge s1 = (get_edge s)((a, n) \<mapsto> e\<lparr>ed_ansn := ansn\<rparr>)" "same_nodes s s1"
      using upd_edge_inv [OF ok Some, of "\<lambda>e. e\<lparr>ed_ansn := ansn\<rparr>"] by auto
    obtain s2 p2 rel where s2: "(if tf_lq_level c > 0 then do { (q, p) \<leftarrow> tf_deserialize c p1 (ed_quality e);
          s \<leftarrow> upd_edge (a, n) (\<lambda>e. e\<lparr>ed_quality := q\<rparr>) s1; Some (p, s) } else Some (p1, s1)) = Some (p2, s2)"
      "olsr_calc_tc_edge_entry_etx c (a, n) s2 = Some (s', rel)"
      using u Some s1(1) by (auto simp: bind_eq_Some_conv split: prod.splits)
    have "lsdb_ok s2 \<and> same_nodes s1 s2 \<and> get_edge s2 (a, n) \<noteq> None"
    proof (cases "tf_lq_level c > 0")
      case True
      then obtain q where "upd_edge (a, n) (\<lambda>e. e\<lparr>ed_quality := q\<rparr>) s1 = Some s2"
        using s2(1) by (auto simp: bind_eq_Some_conv split: prod.splits)
      then show ?thesis using upd_edge_inv [OF s1(2), of "(a, n)" "e\<lparr>ed_ansn := ansn\<rparr>" "\<lambda>e. e\<lparr>ed_quality := q\<rparr>"] s1(3) by auto
    qed (use s2(1) s1 in auto)
    then obtain e2 where "lsdb_ok s2" "same_nodes s1 s2" "get_edge s2 (a, n) = Some e2" by blast
    then show ?thesis using calc_etx_ok [OF m, of s2 "(a, n)" e2] s2(2) same_nodes_trans s1(4) by (metis option.inject prod.inject)
  qed
qed

lemma tc_edges_inv:
  "metric_total c \<Longrightarrow> tc_edges c a ansn limit pos p b s = Some (s', b') \<Longrightarrow> lsdb_ok s \<Longrightarrow> ls_tree s a \<noteq> None \<Longrightarrow>
    lsdb_ok s' \<and> ls_tree s' a \<noteq> None"
proof (induction c a ansn limit pos p b s rule: tc_edges.induct)
  case (1 c a ansn limit pos p b s)
  show ?case
  proof (cases "pos < limit")
    case True
    obtain n lq ch p1 s1 where u: "olsr_tc_update_edge c a ansn p s = Some (n, lq, ch, p1, s1)"
      using 1(3) True by (subst (asm) tc_edges.simps) (auto simp: bind_eq_Some_conv)
    let ?s1 = "if ch then s1\<lparr>ls_changes := True\<rparr> else s1"
    have i: "lsdb_ok s1" "same_nodes s s1" using update_edge_inv [OF 1(2,4,5) u] by simp_all
    have "ls_tree ?s1 a \<noteq> None" using same_nodes_dom [OF i(2), of a] 1(5) by (simp del: not_None_eq)
    moreover have "lsdb_ok ?s1" using i(1) by simp
    moreover have "tc_edges c a ansn limit (pos + (if lq then 8 else 4)) p1 (Some (case b of None \<Rightarrow> n | Some (l, _) \<Rightarrow> l, n)) ?s1 = Some (s', b')"
      using 1(3) True u by (subst (asm) tc_edges.simps) simp
    ultimately show ?thesis using 1(1) [OF True u refl refl refl refl] 1(2) by blast
  qed (use 1(3-5) in \<open>subst (asm) tc_edges.simps, simp\<close>)
qed

lemma upd_tc_ok:
  assumes "upd_tc a f s = Some s'" "lsdb_ok s" "\<And>tc. tn_edges (f tc) = tn_edges tc"
  shows "lsdb_ok s'" "ls_tree s' a \<noteq> None"
  using upd_tc_view [OF assms(1,3)] assms(1,2) by (auto simp: upd_tc_def)

lemma input_tc_inv:
  assumes m: "metric_total c" "tf_main_addr c \<noteq> 0" and ok: "lsdb_ok s" and r: "olsr_input_tc c from_addr msg s = Some (s', fwd)"
  shows "lsdb_ok s'"
proof -
  obtain type p where t: "pkt_get_u8 msg = Some (type, p)" using r by (auto simp: olsr_input_tc_def bind_eq_Some_conv)
  show ?thesis
  proof (cases "type \<noteq> lq_tc_message_type \<and> type \<noteq> tc_message_type")
    case False
    obtain vt p1 msize p2 a p3 ttl p4 msg_hops p5 msg_seq p6 ansn p7 lower p8 upper p9 where reads:
      "pkt_get_u8 p = Some (vt, p1)" "pkt_get_u16 p1 = Some (msize, p2)" "pkt_get_ipaddress p2 = Some (a, p3)" "pkt_get_u8 p3 = Some (ttl, p4)"
      "pkt_get_u8 p4 = Some (msg_hops, p5)" "pkt_get_u16 p5 = Some (msg_seq, p6)" "pkt_get_u16 p6 = Some (ansn, p7)"
      "pkt_get_u8 p7 = Some (lower, p8)" "pkt_get_u8 p8 = Some (upper, p9)"
      using r False by (auto simp: olsr_input_tc_def t bind_eq_Some_conv)
    obtain s0 go where gate: "tc_gate msg_seq ansn a s = (s0, go)" by fastforce
    note rest = r [unfolded olsr_input_tc_def t Option.bind.simps prod.case if_not_P [OF False] reads gate Let_def]
    note g = gate_view [OF gate]
    show ?thesis
    proof (cases go)
      case True
      obtain s1 where s1: "(if ls_tree s0 a = None then (case olsr_add_tc_entry c a s0 of (s, added) \<Rightarrow> if added then Some s else None) else Some s0) = Some s1"
        "lsdb_ok s1"
        using add_node_view [OF m(2), of s0 a] g(1) ok by (cases "ls_tree s0 a") auto
      obtain s2 where s2: "upd_tc a (\<lambda>tc. tc\<lparr>tn_msg_hops := msg_hops, tn_msg_seq := msg_seq, tn_ansn := ansn, tn_ignored := 0,
             tn_err_seq_valid := False\<rparr>) s1 = Some s2"
        using rest True s1(1) by (auto simp: bind_eq_Some_conv)
      have ok2: "lsdb_ok s2" "ls_tree s2 a \<noteq> None" by (rule upd_tc_ok [OF s2 s1(2)], simp)+
      show ?thesis
      proof (cases "tf_link_status c from_addr = 2")
        case True2: True
        obtain s3 b bd s4 where s3: "tc_edges c a ansn (unat msize) 16 p9 None s2 = Some (s3, b)"
          and s4: "upd_tc a (\<lambda>tc. tc\<lparr>tn_validity := Some (me_to_reltime vt)\<rparr>) s3 = Some s4"
          and s5: "(case bd of None \<Rightarrow> upd_tc a (\<lambda>tc. tc\<lparr>tn_gc := Some olsr_tc_edge_gc_time\<rparr>) s4
              | Some (l, u) \<Rightarrow> map_option fst (olsr_delete_revoked_tc_edges a ansn l u s4)) = Some s'"
          using rest True True2 s1(1) s2 by (auto simp: bind_eq_Some_conv simp del: bind.bind_lunit)
        have ok3: "lsdb_ok s3" using tc_edges_inv [OF m(1) s3 ok2] by simp
        have ok4: "lsdb_ok s4" "ls_tree s4 a \<noteq> None" by (rule upd_tc_ok [OF s4 ok3], simp)+
        show ?thesis
        proof (cases bd)
          case None
          then show ?thesis using upd_tc_ok(1) [OF _ ok4(1)] s5 by auto
        next
          case (Some lu)
          then obtain l u where lu: "bd = Some (l, u)" by (cases lu) auto
          obtain tc where "ls_tree s4 a = Some tc" using ok4(2) by blast
          then show ?thesis using delete_revoked_ok [OF ok4(1), of a tc ansn l u] s5 lu by auto
        qed
      qed (use rest True s1(1) s2 ok2 in auto)
    qed (use rest g(1) ok in auto)
  qed (use r t ok in \<open>simp add: olsr_input_tc_def\<close>)
qed

section \<open>Timers\<close>

lemma delete_entry_ok:
  assumes ok: "lsdb_ok s" and tc: "ls_tree s a = Some tc"
  shows "\<exists>s'. olsr_delete_tc_entry a s = Some s' \<and> lsdb_ok s' \<and> ls_tree s' a = None \<and>
    edge_core s' = (\<lambda>k. if fst k = a then None else edge_core s k)"
proof -
  let ?s = "s\<lparr>ls_rt := ls_rt s @ [Rt_Delete a]\<rparr>" and ?ds = "map fst (tn_edges tc)"
  have rt: "lsdb_ok ?s = lsdb_ok s" "edge_core ?s = edge_core s" "get_edge ?s = get_edge s" "ls_tree ?s = ls_tree s"
    by (simp_all add: lsdb_ok_def trees_ok_def edge_core_def get_edge_def fun_eq_iff)
  have t: "tree_ok (tn_edges tc)" using lsdb_okD(1) [OF ok] tc by (simp add: trees_ok_def)
  have ds: "d \<in> set ?ds \<longleftrightarrow> get_edge s (a, d) \<noteq> None" for d
    using tc by (simp add: get_edge_def map_of_eq_None_iff del: not_None_eq)
  obtain s1 where s1: "delete_edges a ?ds ?s = Some s1" "lsdb_ok s1"
    "edge_core s1 = (\<lambda>k. if fst k = a \<and> snd k \<in> set ?ds then None else edge_core ?s k)" "same_nodes ?s s1"
    using delete_edges_ok [of ?s ?ds a] ok t ds rt(1,3) by (auto simp: tree_ok_def strict_sorted_iff)
  have core: "edge_core s1 = (\<lambda>k. if fst k = a then None else edge_core s k)"
  proof (rule ext)
    fix k :: "ip_addr \<times> ip_addr"
    have k: "edge_core s1 k = (if fst k = a \<and> snd k \<in> set ?ds then None else edge_core s k)" by (simp only: s1(3) rt(2))
    show "edge_core s1 k = (if fst k = a then None else edge_core s k)"
    proof (cases "fst k = a \<and> snd k \<notin> set ?ds")
      case True
      then have "get_edge s k = None" using ds [of "snd k"] by (metis prod.collapse)
      then show ?thesis using k by (simp add: edge_core_def)
    qed (use k in auto)
  qed
  let ?t = "s1\<lparr>ls_tree := (ls_tree s1)(a := None)\<rparr>"
  have "get_edge s1 (a, d) = None" for d using fun_cong [OF core, of "(a, d)"] by simp
  then have g: "get_edge ?t = get_edge s1" by (auto simp: get_edge_def fun_eq_iff)
  then have "lsdb_ok ?t" using s1(2) unfolding lsdb_ok_def trees_ok_def by simp
  moreover have "edge_core ?t = edge_core s1" by (simp add: edge_core_def g)
  ultimately show ?thesis using tc s1(1) core by (simp add: olsr_delete_tc_entry_def)
qed

lemma node_expire_ok:
  assumes "lsdb_ok s" "ls_tree s a = Some tc"
  shows "\<exists>s'. olsr_expire_tc_entry a s = Some s' \<and> lsdb_ok s' \<and> ls_tree s' a = None \<and>
    edge_core s' = (\<lambda>k. if fst k = a then None else edge_core s k)"
proof -
  obtain s1 where s1: "upd_tc a (\<lambda>tc. tc\<lparr>tn_validity := None\<rparr>) s = Some s1" using upd_tc_Some [OF assms(2)] by blast
  have v: "lsdb_ok s1 = lsdb_ok s" "edge_core s1 = edge_core s" "ls_tree s1 = (ls_tree s)(a := map_option (\<lambda>tc. tc\<lparr>tn_validity := None\<rparr>) (ls_tree s a))"
    by (rule upd_tc_view [OF s1], simp)+
  obtain s2 where "olsr_delete_tc_entry a s1 = Some s2" "lsdb_ok s2" "ls_tree s2 a = None"
    "edge_core s2 = (\<lambda>k. if fst k = a then None else edge_core s1 k)"
    using delete_entry_ok [of s1 a] v(1,3) assms by auto
  then show ?thesis using s1 v(2) by (auto simp: olsr_expire_tc_entry_def edge_core_def get_edge_def)
qed

lemma collect_ok:
  assumes "lsdb_ok s" "ls_tree s a = Some tc"
  shows "\<exists>s'. olsr_expire_tc_edge_gc a s = Some s' \<and> lsdb_ok s' \<and>
    edge_core s' = drop_old a (tn_ansn tc) (\<lambda>_. True) (edge_core s)"
proof -
  obtain s1 where s1: "upd_tc a (\<lambda>tc. tc\<lparr>tn_gc := None\<rparr>) s = Some s1" using upd_tc_Some [OF assms(2)] by blast
  have v: "lsdb_ok s1 = lsdb_ok s" "edge_core s1 = edge_core s" "ls_tree s1 = (ls_tree s)(a := map_option (\<lambda>tc. tc\<lparr>tn_gc := None\<rparr>) (ls_tree s a))"
    by (rule upd_tc_view [OF s1], simp)+
  obtain s2 r where s2: "olsr_delete_outdated_tc_edges a s1 = Some (s2, r)" "lsdb_ok s2"
    "edge_core s2 = drop_old a (tn_ansn tc) (\<lambda>_. True) (edge_core s1)"
    using delete_outdated_ok [of s1 a "tc\<lparr>tn_gc := None\<rparr>"] v(1,3) assms by auto
  have "edge_core (s2\<lparr>ls_changes := True\<rparr>) = edge_core s2" by (simp add: edge_core_def get_edge_def fun_eq_iff)
  then show ?thesis using s1 s2 v(2) by (simp add: olsr_expire_tc_edge_gc_def)
qed

section \<open>Reachable states\<close>

text \<open>The links of the daemon may change between the messages; the bytes of a message are arbitrary.\<close>

inductive tc_reach :: "'q tc_conf \<Rightarrow> 'q lsdb \<Rightarrow> bool" for c where
  start: "tc_reach c (olsr_init_tc c)"
| message: "tc_reach c s \<Longrightarrow> olsr_input_tc (c\<lparr>tf_link_status := st\<rparr>) from_addr msg s = Some (s', fwd) \<Longrightarrow> tc_reach c s'"
| expire: "tc_reach c s \<Longrightarrow> ls_tree s a = Some tc \<Longrightarrow> tn_validity tc \<noteq> None \<Longrightarrow> olsr_expire_tc_entry a s = Some s' \<Longrightarrow> tc_reach c s'"
| collect: "tc_reach c s \<Longrightarrow> ls_tree s a = Some tc \<Longrightarrow> tn_gc tc \<noteq> None \<Longrightarrow> olsr_expire_tc_edge_gc a s = Some s' \<Longrightarrow> tc_reach c s'"
| process_changes: "tc_reach c s \<Longrightarrow> tc_reach c (s\<lparr>ls_changes := False\<rparr>)"

lemma reach_ok: "tc_reach c s \<Longrightarrow> metric_total c \<Longrightarrow> tf_main_addr c \<noteq> 0 \<Longrightarrow> lsdb_ok s"
proof (induction rule: tc_reach.induct)
  case (message s st from_addr msg s' fwd)
  have m: "metric_total (c\<lparr>tf_link_status := st\<rparr>) = metric_total c" by (simp add: metric_total_def)
  show ?case by (rule input_tc_inv [OF _ _ _ message(2)]) (use message m in simp_all)
next
  case (expire s a tc s')
  then show ?case using node_expire_ok [of s a tc] by auto
next
  case (collect s a tc s')
  then show ?case using collect_ok [of s a tc] by auto
qed simp_all

text \<open>C12. In every state that the daemon reaches, whatever messages it reads, the edges of a node are ordered, and an edge points to its inverse edge
  exactly if that exists. The timers of its nodes never fail: the one removes the node with its edges and the pointers to them, the
  other one exactly the edges that the last messages did not announce.\<close>
theorem database_invariant:
  assumes "tc_reach c s" "metric_total c" "tf_main_addr c \<noteq> 0" "ls_tree s a = Some tc"
  shows "sorted_wrt (<) (map fst (tn_edges tc)) \<and>
    (\<forall>d e. get_edge s (a, d) = Some e \<longrightarrow> ed_inv e = (if get_edge s (d, a) = None then None else Some (d, a))) \<and>
    (\<exists>s'. olsr_expire_tc_entry a s = Some s' \<and> lsdb_ok s' \<and> ls_tree s' a = None \<and>
      edge_core s' = (\<lambda>k. if fst k = a then None else edge_core s k)) \<and>
    (\<exists>s'. olsr_expire_tc_edge_gc a s = Some s' \<and> lsdb_ok s' \<and> edge_core s' = drop_old a (tn_ansn tc) (\<lambda>_. True) (edge_core s))"
proof (intro conjI)
  note ok = reach_ok [OF assms(1-3)]
  show "sorted_wrt (<) (map fst (tn_edges tc))" using lsdb_okD(1) [OF ok] assms(4) by (simp add: trees_ok_def tree_ok_def)
  show "\<forall>d e. get_edge s (a, d) = Some e \<longrightarrow> ed_inv e = (if get_edge s (d, a) = None then None else Some (d, a))"
    using lsdb_okD(2) [OF ok] by blast
qed (use node_expire_ok [OF reach_ok [OF assms(1-3)] assms(4)] collect_ok [OF reach_ok [OF assms(1-3)] assms(4)] in simp_all)

text \<open>Node 9 announces node 4 and node 4 announces node 9.\<close>

definition answer_tc :: "default_lq_fpm lq_tc_message" where
  "answer_tc = \<lparr>lt_comm = \<lparr>oc_type = lq_tc_message_type, oc_vtime = 15000, oc_size = 0, oc_orig = 4, oc_ttl = 255, oc_hops = 1\<rparr>,
     lt_from = 4, lt_ansn = 65535, lt_neigh = [sample_neigh 9 200]\<rparr>"

lemma enter_elsewhere: "fst k \<noteq> a \<Longrightarrow> fold (enter a m c0 cost quals) ns E k = E k"
  by (induction ns arbitrary: E) (auto simp: enter_def)

lemma announce_elsewhere: "fst k \<noteq> a \<Longrightarrow> announce a m c0 cost quals bd ns E k = E k"
  using enter_elsewhere [of k a m c0 cost quals ns E] by (auto simp: announce_def Let_def drop_old_def split: option.split)

lemma gate_empty: "(\<And>d. get_edge s (a, d) = None) \<Longrightarrow> snd (tc_gate n m a s)"
proof (cases "ls_tree s a")
  case (Some tc)
  assume e: "\<And>d. get_edge s (a, d) = None"
  have "tn_edges tc = []"
  proof (cases "tn_edges tc")
    case (Cons x xs)
    then show ?thesis using e [of "fst x"] Some by (cases x) (simp add: get_edge_def)
  qed
  then show ?thesis using Some by (simp add: tc_gate_def tc_filter_def)
qed (simp add: tc_gate_def)

text \<open>A node without edges is announced by its first message.\<close>

lemma first_message:
  assumes "metric_conf default_lq_deserialize_tc_lq_pair_fpm default_lq_calc_cost_fpm c" "tf_main_addr c \<noteq> 0" "tf_link_status c from_addr = 2"
    and "lsdb_ok s" "oc_type (lt_comm t) = lq_tc_message_type" "oc_orig (lt_comm t) = a" "\<And>d. get_edge s (a, d) = None"
    and "list_all (\<lambda>n. \<not> List.member (tf_deny c) (ta_address n)) ns" "8 * length ns < 65520" "ns \<noteq> []" "distinct (map ta_address ns)"
  shows "\<exists>s'. olsr_input_tc c from_addr (tc_bytes default_lq_serialize_tc_lq_pair_fpm t seqno 0xFF 0xFF ns) s = Some (s', True) \<and> lsdb_ok s' \<and>
    (\<forall>n \<in> set ns. get_edge s' (a, ta_address n) \<noteq> None) \<and> (\<forall>k. fst k \<noteq> a \<longrightarrow> (get_edge s' k = None) = (get_edge s k = None))"
proof -
  obtain s' where s': "olsr_input_tc c from_addr (tc_bytes default_lq_serialize_tc_lq_pair_fpm t seqno 0xFF 0xFF ns) s = Some (s', True)" "lsdb_ok s'"
    "edge_view fpm_qualities s' = announce a (lt_ansn t) (cost_of default_lq_calc_cost_fpm (tf_zero c)) (cost_of default_lq_calc_cost_fpm) fpm_qualities
      (Some (ta_address (hd ns), ta_address (last ns))) ns (edge_view fpm_qualities s)"
    using fpm_tc.input_tc_ok [OF assms(1-6,8,9) gate_empty [OF assms(7)] no_borders [OF assms(10)], where p = "[]" and seqno = seqno] by auto
  have "get_edge s' (a, ta_address n) \<noteq> None" if "n \<in> set ns" for n
  proof -
    have "edge_view fpm_qualities s' (a, ta_address n) \<noteq> None" by (simp only: s'(3) announce_known [OF assms(11) that]) simp
    then show ?thesis by simp
  qed
  moreover have "(get_edge s' k = None) = (get_edge s k = None)" if "fst k \<noteq> a" for k
  proof -
    have "edge_view fpm_qualities s' k = edge_view fpm_qualities s k" by (simp only: s'(3) announce_elsewhere [OF that])
    then show ?thesis by (metis edge_view_None)
  qed
  ultimately show ?thesis using s'(1,2) by blast
qed

lemma both_announced: "\<exists>s. tc_reach fpm_tc_conf s \<and> get_edge s (9, 4) \<noteq> None \<and> get_edge s (4, 9) \<noteq> None"
proof -
  let ?ser = default_lq_serialize_tc_lq_pair_fpm and ?ns = "lt_neigh (sample_tc 3)" and ?ms = "[sample_neigh 9 200]" and ?s = "olsr_init_tc fpm_tc_conf"
  have m: "tf_main_addr fpm_tc_conf \<noteq> 0" "tf_link_status fpm_tc_conf 5 = 2" "lsdb_ok ?s" by simp_all
  have t: "oc_type (lt_comm answer_tc) = lq_tc_message_type" "oc_orig (lt_comm answer_tc) = 4" by (simp_all add: answer_tc_def)
  have ns: "list_all (\<lambda>n. \<not> List.member (tf_deny fpm_tc_conf) (ta_address n)) ?ns" "8 * length ?ns < 65520" "?ns \<noteq> []" "distinct (map ta_address ?ns)"
    by simp_all
  have ms: "list_all (\<lambda>n. \<not> List.member (tf_deny fpm_tc_conf) (ta_address n)) ?ms" "8 * length ?ms < 65520" "?ms \<noteq> []" "distinct (map ta_address ?ms)"
    by simp_all
  have none: "get_edge ?s k = None" for k
    using fun_cong [OF init_tc_view(1) [of fpm_qualities fpm_tc_conf], of k] by simp
  obtain s1 where s1: "olsr_input_tc fpm_tc_conf 5 (tc_bytes ?ser (sample_tc 3) 8 0xFF 0xFF ?ns) ?s = Some (s1, True)" "lsdb_ok s1"
    "\<forall>n \<in> set ?ns. get_edge s1 (9, ta_address n) \<noteq> None" "\<forall>k. fst k \<noteq> 9 \<longrightarrow> (get_edge s1 k = None) = (get_edge ?s k = None)"
    using first_message [OF fpm_tc_conf_ok(1) m _ _ none ns, where t = "sample_tc 3" and seqno = 8] by auto
  have "get_edge s1 (4, d) = None" for d using s1(4) none by simp
  from first_message [OF fpm_tc_conf_ok(1) m(1,2) s1(2) t this ms, where seqno = 77]
  obtain s2 where s2: "olsr_input_tc fpm_tc_conf 5 (tc_bytes ?ser answer_tc 77 0xFF 0xFF ?ms) s1 = Some (s2, True)"
    "get_edge s2 (4, 9) \<noteq> None" "\<forall>k. fst k \<noteq> 4 \<longrightarrow> (get_edge s2 k = None) = (get_edge s1 k = None)" by auto
  have c: "fpm_tc_conf\<lparr>tf_link_status := \<lambda>_. 2\<rparr> = fpm_tc_conf" by (simp add: fpm_tc_conf_def)
  note r = tc_reach.message [where c = fpm_tc_conf and st = "\<lambda>_. 2", unfolded c]
  have "tc_reach fpm_tc_conf s2" by (rule r [OF r [OF tc_reach.start s1(1)] s2(1)])
  moreover have "get_edge s2 (9, 4) \<noteq> None" using s1(3) s2(3) by simp
  ultimately show ?thesis using s2(2) by blast
qed

theorem database_invariant_witness:
  "\<exists>s s' e. tc_reach fpm_tc_conf s \<and> get_edge s (9, 4) = Some e \<and> ed_inv e = Some (4, 9) \<and>
    olsr_expire_tc_entry 9 s = Some s' \<and> get_edge s' (9, 4) = None \<and> get_edge s' (4, 9) \<noteq> None"
proof -
  obtain s e tc where s: "tc_reach fpm_tc_conf s" "get_edge s (9, 4) = Some e" "get_edge s (4, 9) \<noteq> None" "ls_tree s 9 = Some tc"
    using both_announced by (auto simp: get_edge_def bind_eq_Some_conv)
  note reach = s(1)
  have m: "metric_total fpm_tc_conf" by (rule fpm_tc.metric_conf_total) simp
  have "tf_main_addr fpm_tc_conf \<noteq> 0" by simp
  from database_invariant [OF reach m this s(4)] obtain s' where inv: "ed_inv e = Some (4, 9)" "olsr_expire_tc_entry 9 s = Some s'"
    "edge_core s' = (\<lambda>k. if fst k = 9 then None else edge_core s k)"
    using s(2,3) by auto
  have "get_edge s' (9, 4) = None" "get_edge s' (4, 9) \<noteq> None"
    using s(3) by (simp_all only: edge_core_None [symmetric] inv(3)) simp_all
  then show ?thesis using reach s(2) inv by blast
qed

section \<open>Messages without link qualities\<close>

definition rfc_tc_bytes :: "olsr_common \<Rightarrow> u16 \<Rightarrow> u16 \<Rightarrow> ip_addr list \<Rightarrow> byte list" where
  "rfc_tc_bytes comm seqno ansn as =
     serialize_common (comm\<lparr>oc_size := of_nat (4 * length as + hello_off)\<rparr>) seqno @ pkt_put_u16 ansn @ [0, 0] @ concat (map pkt_put_ipaddress as)"

lemma deserialize_any:
  "length bs = 4 \<Longrightarrow> \<exists>q'. default_lq_deserialize_tc_lq_pair_fpm (bs @ p) q = Some (q', p)"
  by (cases bs; cases "tl bs"; cases "tl (tl bs)"; cases "tl (tl (tl bs))")
    (auto simp: default_lq_deserialize_tc_lq_pair_fpm_def pkt_get_u8_def pkt_ignore_u16_def)

lemma rfc_update:
  assumes c: "tf_deserialize c = default_lq_deserialize_tc_lq_pair_fpm" "metric_total c" and ok: "lsdb_ok s" and a: "ls_tree s a = Some tc"
    and new: "get_edge s (a, x) = None" "\<not> List.member (tf_deny c) x"
  shows "\<exists>s'. olsr_tc_update_edge c a ansn (pkt_put_ipaddress x @ pkt_put_ipaddress y @ p) s = Some (x, True, True, p, s') \<and> lsdb_ok s' \<and>
    dom (edge_core s') = insert (a, x) (dom (edge_core s)) \<and> same_nodes s s'"
proof -
  have "ls_tree s a \<noteq> None" using a by simp
  then obtain s1 where s1: "olsr_add_tc_edge_entry c a x ansn s = Some s1" "lsdb_ok s1"
    "edge_core s1 = (edge_core s)((a, x) \<mapsto> (ansn, edge_cost c 0 (tf_zero c), tf_zero c))" "same_nodes s s1"
    using add_edge_ok [OF c(2) ok _ new(1), of ansn] by auto
  have "edge_core s1 (a, x) \<noteq> None" by (simp only: s1(3)) simp
  then obtain e where e: "get_edge s1 (a, x) = Some e" by auto
  obtain q where q: "default_lq_deserialize_tc_lq_pair_fpm (pkt_put_ipaddress y @ p) (ed_quality e) = Some (q, p)"
    using deserialize_any [of "pkt_put_ipaddress y"] by auto
  obtain s2 where s2: "upd_edge (a, x) (\<lambda>e. e\<lparr>ed_quality := q\<rparr>) s1 = Some s2" "lsdb_ok s2"
    "edge_core s2 = (edge_core s1)((a, x) \<mapsto> (ed_ansn e, ed_cost e, q))" "same_nodes s1 s2"
    using upd_edge_inv [OF s1(2) e, of "\<lambda>e. e\<lparr>ed_quality := q\<rparr>"] by auto
  have "olsr_tc_update_edge c a ansn (pkt_put_ipaddress x @ pkt_put_ipaddress y @ p) s = Some (x, True, True, p, s2)"
    using get_edge_lookup [OF a] new s1(1) e q s2(1) c(1) by (simp add: olsr_tc_update_edge_def)
  moreover have "dom (edge_core s2) = insert (a, x) (dom (edge_core s))" by (simp add: s2(3) s1(3) dom_fun_upd)
  ultimately show ?thesis using s2(2) same_nodes_trans [OF s1(4) s2(4)] by blast
qed

lemma rfc_edges:
  assumes c: "tf_deserialize c = default_lq_deserialize_tc_lq_pair_fpm" "metric_total c"
  shows "lsdb_ok s \<Longrightarrow> ls_tree s a \<noteq> None \<Longrightarrow> distinct (map fst ps) \<Longrightarrow> \<forall>x \<in> set ps. get_edge s (a, fst x) = None \<and> \<not> List.member (tf_deny c) (fst x) \<Longrightarrow>
    \<exists>s' b'. tc_edges c a ansn (pos + 8 * length ps) pos (concat (map pkt_put_ipaddress (concat (map (\<lambda>(x, y). [x, y]) ps))) @ p) b s = Some (s', b') \<and>
      lsdb_ok s' \<and> ls_tree s' a \<noteq> None \<and> dom (edge_core s') = Pair a ` fst ` set ps \<union> dom (edge_core s)"
proof (induction ps arbitrary: pos b s)
  case Nil
  then show ?case by (subst tc_edges.simps) simp
next
  case (Cons z ps)
  obtain x y where z: "z = (x, y)" by (cases z)
  let ?p = "concat (map pkt_put_ipaddress (concat (map (\<lambda>(x, y). [x, y]) ps))) @ p"
  obtain tc where tc: "ls_tree s a = Some tc" using Cons.prems(2) by blast
  obtain s1 where s1: "olsr_tc_update_edge c a ansn (pkt_put_ipaddress x @ pkt_put_ipaddress y @ ?p) s = Some (x, True, True, ?p, s1)"
    "lsdb_ok s1" "dom (edge_core s1) = insert (a, x) (dom (edge_core s))" "same_nodes s s1"
    using rfc_update [OF c Cons.prems(1) tc, of x ansn y ?p] Cons.prems(4) z by auto
  let ?s1 = "s1\<lparr>ls_changes := True\<rparr>" and ?b = "Some (case b of None \<Rightarrow> x | Some (l, _) \<Rightarrow> l, x)"
  have t: "ls_tree ?s1 a \<noteq> None" using Cons.prems(2) same_nodes_dom [OF s1(4), of a] by (simp del: not_None_eq)
  have g: "get_edge ?s1 = get_edge s1" "edge_core ?s1 = edge_core s1" by (simp_all add: get_edge_def edge_core_def fun_eq_iff)
  have new: "get_edge ?s1 (a, fst w) = None \<and> \<not> List.member (tf_deny c) (fst w)" if w: "w \<in> set ps" for w
  proof -
    have "fst w \<noteq> x" using w Cons.prems(3) z by auto
    then have "(a, fst w) \<notin> dom (edge_core s1)" using s1(3) Cons.prems(4) w by (simp add: domIff)
    then show ?thesis using Cons.prems(4) w g(1) by (simp add: domIff)
  qed
  have "lsdb_ok ?s1" "distinct (map fst ps)" using s1(2) Cons.prems(3) by simp_all
  from Cons.IH [OF this(1) t this(2), of "pos + 8" ?b] new obtain s' b' where
    s': "tc_edges c a ansn (pos + 8 + 8 * length ps) (pos + 8) ?p ?b ?s1 = Some (s', b')" "lsdb_ok s'" "ls_tree s' a \<noteq> None"
    "dom (edge_core s') = Pair a ` fst ` set ps \<union> dom (edge_core ?s1)" by blast
  have "tc_edges c a ansn (pos + 8 * length (z # ps)) pos (concat (map pkt_put_ipaddress (concat (map (\<lambda>(x, y). [x, y]) (z # ps)))) @ p) b s = Some (s', b')"
    using s1(1) s'(1) by (subst tc_edges.simps) (simp add: z add.assoc)
  then show ?case using s'(2-4) s1(3) g(2) z by auto
qed

text \<open>C27. A daemon without link qualities reads the TC messages of the standard wrongly: for an edge that it does not know it reads four bytes of
  link quality, which these messages do not have. From the first message of a node it learns only every second announced address, and the
  addresses between them become link qualities.\<close>
theorem rfc_addresses_lost:
  assumes "tf_lq_level c = 0" "tf_deserialize c = default_lq_deserialize_tc_lq_pair_fpm" "tf_cost c = default_lq_calc_cost_fpm"
    and "tf_main_addr c \<noteq> 0" "tf_link_status c from_addr = 2" "lsdb_ok s"
    and "oc_type comm = tc_message_type" "oc_orig comm = a" "ls_tree s a = None"
    and "distinct (map fst ps)" "\<forall>x \<in> set ps. \<not> List.member (tf_deny c) (fst x)" "8 * length ps < 65520"
  shows "\<exists>s'. olsr_input_tc c from_addr (rfc_tc_bytes comm seqno ansn (concat (map (\<lambda>(x, y). [x, y]) ps))) s = Some (s', True) \<and>
    {d. get_edge s' (a, d) \<noteq> None} = fst ` set ps"
proof -
  have m: "metric_total c" using fpm_cost_bounds assms(3) by (metis metric_total_def option.distinct(1))
  obtain s1 where s1: "olsr_add_tc_entry c a s = (s1, True)" "lsdb_ok s1" "edge_core s1 = edge_core s" "ls_tree s1 a = Some new_tc"
    using add_node_view [OF assms(4,9)] assms(6) by auto
  let ?h = "\<lambda>tc. tc\<lparr>tn_msg_hops := oc_hops comm, tn_msg_seq := seqno, tn_ansn := ansn, tn_ignored := 0, tn_err_seq_valid := False\<rparr>"
  obtain s2 where s2: "upd_tc a ?h s1 = Some s2" using upd_tc_Some [OF s1(4)] by blast
  have v2: "lsdb_ok s2 = lsdb_ok s1" "edge_core s2 = edge_core s1" by (rule upd_tc_view [OF s2], simp)+
  have t2: "ls_tree s2 a \<noteq> None" by (rule upd_tc_ok(2) [OF s2 s1(2)]) simp
  have no: "get_edge s (a, d) = None" for d using assms(9) by (simp add: get_edge_def)
  have "edge_core s2 (a, d) = None" for d unfolding v2(2) s1(3) using no by simp
  then have "\<forall>x \<in> set ps. get_edge s2 (a, fst x) = None \<and> \<not> List.member (tf_deny c) (fst x)" using assms(11) by simp
  from rfc_edges [OF assms(2) m _ t2 assms(10) this, of ansn 16 "[]" None] v2(1) s1(2)
  obtain s3 b where s3: "tc_edges c a ansn (16 + 8 * length ps) 16 (concat (map pkt_put_ipaddress (concat (map (\<lambda>(x, y). [x, y]) ps)))) None s2 = Some (s3, b)"
    "lsdb_ok s3" "ls_tree s3 a \<noteq> None" "dom (edge_core s3) = Pair a ` fst ` set ps \<union> dom (edge_core s2)" by auto
  obtain tc3 where tc3: "ls_tree s3 a = Some tc3" using s3(3) by blast
  let ?v = "\<lambda>tc. tc\<lparr>tn_validity := Some (me_to_reltime (reltime_to_me (oc_vtime comm)))\<rparr>"
  obtain s4 where s4: "upd_tc a ?v s3 = Some s4" using upd_tc_Some [OF tc3] by blast
  have v4: "edge_core s4 = edge_core s3" "ls_tree s4 = (ls_tree s3)(a := map_option ?v (ls_tree s3 a))"
    by (rule upd_tc_view [OF s4], simp)+
  obtain s5 where s5: "upd_tc a (\<lambda>tc. tc\<lparr>tn_gc := Some olsr_tc_edge_gc_time\<rparr>) s4 = Some s5"
    using upd_tc_Some v4(2) tc3 by (metis fun_upd_same option.map(2))
  have v5: "edge_core s5 = edge_core s4" by (rule upd_tc_view [OF s5]) simp
  have l: "length (concat (map (\<lambda>(x, y). [x, y]) ps)) = 2 * length ps" by (induction ps) auto
  define k where "k = 4 * (2 * length ps) + hello_off"
  have "k < 65536" "k = 16 + 8 * length ps" using assms(12) by (simp_all add: k_def hello_off_def)
  then have u: "unat (of_nat k :: u16) = 16 + 8 * length ps" by (simp only: unat_u16)
  have b: "(case b of None \<Rightarrow> Some None | Some (l, u) \<Rightarrow> olsr_calculate_tc_border 0 l 0 u) = Some None"
    by (simp add: olsr_calculate_tc_border_def split: option.split)
  have one: "pkt_get_u8 (x # q) = Some (x, q)" for x q by (simp add: pkt_get_u8_def)
  have g: "tc_gate seqno ansn a s = (s, True)" using assms(9) by (simp add: tc_gate_def)
  have "olsr_input_tc c from_addr (rfc_tc_bytes comm seqno ansn (concat (map (\<lambda>(x, y). [x, y]) ps))) s = Some (s5, True)"
    unfolding olsr_input_tc_def rfc_tc_bytes_def serialize_common_def l k_def [symmetric]
    by (simp add: one u assms(5,7,8,9) g s1(1) s2 s3(1) b s4 s5 tc_message_type_def)
  moreover have "get_edge s5 (a, d) \<noteq> None \<longleftrightarrow> d \<in> fst ` set ps" for d
  proof -
    have "get_edge s5 (a, d) \<noteq> None \<longleftrightarrow> (a, d) \<in> dom (edge_core s3)" using v4(1) v5 by (metis domIff edge_core_None)
    also have "\<dots> \<longleftrightarrow> d \<in> fst ` set ps" using s3(4) v2(2) s1(3) no by (auto simp: domIff)
    finally show ?thesis .
  qed
  ultimately show ?thesis by auto
qed

theorem rfc_addresses_lost_witness:
  "\<exists>s'. olsr_input_tc (fpm_tc_conf\<lparr>tf_lq_level := 0\<rparr>) 5
      (rfc_tc_bytes \<lparr>oc_type = tc_message_type, oc_vtime = 15000, oc_size = 0, oc_orig = 9, oc_ttl = 255, oc_hops = 1\<rparr> 8 3 [4, 5, 6, 7])
      (olsr_init_tc fpm_tc_conf) = Some (s', True) \<and>
    {d. get_edge s' (9, d) \<noteq> None} = {4, 6}"
proof -
  let ?c = "fpm_tc_conf\<lparr>tf_lq_level := 0\<rparr>" and ?ps = "[(4, 5), (6, 7)] :: (ip_addr \<times> ip_addr) list"
  let ?comm = "\<lparr>oc_type = tc_message_type, oc_vtime = 15000, oc_size = 0, oc_orig = 9, oc_ttl = 255, oc_hops = 1\<rparr>"
  have c: "tf_lq_level ?c = 0" "tf_deserialize ?c = default_lq_deserialize_tc_lq_pair_fpm" "tf_cost ?c = default_lq_calc_cost_fpm"
    "tf_main_addr ?c \<noteq> 0" "tf_link_status ?c 5 = 2" "oc_type ?comm = tc_message_type" "oc_orig ?comm = 9"
    by (simp_all add: fpm_tc_conf_def)
  have ps: "distinct (map fst ?ps)" "\<forall>x \<in> set ?ps. \<not> List.member (tf_deny ?c) (fst x)" "8 * length ?ps < 65520" by simp_all
  have "lsdb_ok (olsr_init_tc fpm_tc_conf)" "ls_tree (olsr_init_tc fpm_tc_conf) 9 = None" by (simp_all add: init_tc_view)
  from rfc_addresses_lost [OF c(1-5) this(1) c(6,7) this(2) ps, of 8 3] show ?thesis by simp
qed

end
