(* ===== verification/Tc_Write.thy ===== *)
theory Tc_Write imports Lsdb_Reach Hello_Path begin

text \<open>
  The writing of TC messages, in several parts if there are many neighbours, and their way into the database of another node.
\<close>

section \<open>Border flags\<close>

definition good_flag :: "byte \<Rightarrow> bool" where
  "good_flag f \<longleftrightarrow> f = 255 \<or> 0 < f \<and> f \<le> 32"

lemma first_diff_less: "length xs = length ys \<Longrightarrow> xs \<noteq> ys \<Longrightarrow> first_diff xs ys < length xs"
  by (induction xs ys rule: first_diff.induct) auto

lemma border_bit_le: "border_bit l h 0xFE 0 8 \<le> 7"
proof -
  have z: "(32512 :: byte) = 0" by code_simp
  have "border_bit l h 0xFE 0 8 = border_bit l h 0xFE 0 (Suc (Suc (Suc (Suc (Suc (Suc (Suc (Suc 0))))))))" by (simp add: eval_nat_numeral)
  also have "\<dots> \<le> 7" by (simp add: z)
  finally show ?thesis .
qed

lemma border_flag_good:
  assumes "x \<noteq> y"
  shows "\<exists>f. calculate_border_flag (Some x) y = Some f \<and> good_flag f"
proof -
  have "le32 x \<noteq> le32 y" using assms of_le32_le32 by metis
  then have p: "first_diff (le32 x) (le32 y) < 4" using first_diff_less [of "le32 x" "le32 y"] by simp
  define k where "k = border_bit (le32 x ! first_diff (le32 x) (le32 y)) (le32 y ! first_diff (le32 x) (le32 y)) 0xFE 0 8 +
    8 * (4 - first_diff (le32 x) (le32 y) - 1) + 1"
  have k: "0 < k" "k \<le> 32" using p border_bit_le [of "le32 x ! first_diff (le32 x) (le32 y)" "le32 y ! first_diff (le32 x) (le32 y)"]
    unfolding k_def by linarith+
  have "calculate_border_flag (Some x) y = Some (of_nat k)" using p by (simp add: calculate_border_flag_def Let_def k_def)
  moreover have "unat (of_nat k :: byte) = k" using k by (simp add: unat_of_nat)
  then have "good_flag (of_nat k)" using k by (simp add: good_flag_def word_less_nat_alt word_le_nat_alt)
  ultimately show ?thesis by blast
qed

section \<open>Parts\<close>

text \<open>A part has its two flags and its neighbours.\<close>

fun tc_numbered :: "('q \<Rightarrow> byte list) \<Rightarrow> 'q lq_tc_message \<Rightarrow> u16 \<Rightarrow> (byte \<times> byte \<times> 'q tc_mpr_addr list) list \<Rightarrow> byte list list" where
  "tc_numbered ser t n [] = []"
| "tc_numbered ser t n ((l, u, ns) # ps) = tc_bytes ser t n l u ns # tc_numbered ser t (n + 1) ps"

fun part_chain :: "byte \<Rightarrow> (byte \<times> byte \<times> 'q list) list \<Rightarrow> byte \<Rightarrow> bool" where
  "part_chain l [] r = (l = r)"
| "part_chain l ((l', u, ns) # ps) r = (l' = l \<and> good_flag l \<and> good_flag u \<and> ns \<noteq> [] \<and> part_chain u ps r)"

definition part_members :: "(byte \<times> byte \<times> 'q list) list \<Rightarrow> 'q list" where
  "part_members ps = concat (map (\<lambda>(_, _, ns). ns) ps)"

lemma part_members_simps [simp]: "part_members [] = []" "part_members ((l, u, ns) # ps) = ns @ part_members ps"
    "part_members (ps @ qs) = part_members ps @ part_members qs"
  by (simp_all add: part_members_def)

lemma tc_numbered_snoc: "tc_numbered ser t n (ps @ [(l, u, ns)]) = tc_numbered ser t n ps @ [tc_bytes ser t (n + of_nat (length ps)) l u ns]"
  by (induction ps arbitrary: n) (auto simp: algebra_simps)

lemma part_chain_snoc: "part_chain l ps r \<Longrightarrow> good_flag r \<Longrightarrow> good_flag u \<Longrightarrow> ns \<noteq> [] \<Longrightarrow> part_chain l (ps @ [(r, u, ns)]) u"
  by (induction ps arbitrary: l) auto

definition tc_ok ::
    "('q \<Rightarrow> byte list) \<Rightarrow> 'q lq_tc_message \<Rightarrow> u16 \<Rightarrow> byte list list \<Rightarrow> nat \<Rightarrow> (byte \<times> byte \<times> 'q tc_mpr_addr list) list \<Rightarrow> 'q tc_mpr_addr list \<Rightarrow>
     tc_ser \<Rightarrow> bool" where
  "tc_ok ser t seq0 ws0 mx ps ns s \<longleftrightarrow>
     ob_msgs (ts_out s) (ws0 @ tc_numbered ser t seq0 ps) \<and> ob_maxsize (ts_out s) = mx \<and> ts_seqno s = seq0 + of_nat (length ps) \<and>
     ts_buff s = tc_entries_bytes ser ns \<and> ts_rem s = net_outbuffer_bytes_left (ts_out s) - int hello_off \<and> 8 * int (length ns) \<le> ts_rem s \<and>
     ts_last_ip s = (if ns = [] then None else Some (ta_address (last ns))) \<and> (ns = [] \<longrightarrow> ps = [] \<and> 8 \<le> ts_rem s) \<and>
     part_chain 255 ps (ts_left_border s) \<and> good_flag (ts_left_border s)"

lemma entries_length: "(\<And>q. length (ser q) = 4) \<Longrightarrow> length (tc_entries_bytes ser ns) = 8 * length ns"
  by (induction ns) (simp_all add: tc_entries_bytes_def tc_entry_bytes_def)

lemma tc_push_ok:
  assumes len: "\<And>q. length (ser q) = 4" and ok: "tc_ok ser t seq0 ws0 mx ps ns s"
  shows "ob_msgs (ts_out (tc_push t l u s)) (ws0 @ tc_numbered ser t seq0 (ps @ [(l, u, ns)]))"
    "ob_maxsize (ts_out (tc_push t l u s)) = mx" "ts_seqno (tc_push t l u s) = seq0 + of_nat (length (ps @ [(l, u, ns)]))"
proof -
  let ?w = "tc_bytes ser t (seq0 + of_nat (length ps)) l u ns"
  have s: "ob_msgs (ts_out s) (ws0 @ tc_numbered ser t seq0 ps)" "ob_maxsize (ts_out s) = mx" "ts_buff s = tc_entries_bytes ser ns"
    "ts_seqno s = seq0 + of_nat (length ps)" "8 * int (length ns) \<le> net_outbuffer_bytes_left (ts_out s) - int hello_off"
    using ok by (auto simp: tc_ok_def)
  have "length ?w = hello_off + 8 * length ns"
    by (simp add: tc_bytes_def lq_tc_header_def entries_length [OF len] hello_off_def)
  then have "int (length ?w) \<le> net_outbuffer_bytes_left (ts_out s)" using s(5) by simp
  note push = net_push_msgs [OF s(1) this]
  have out: "ts_out (tc_push t l u s) = fst (net_outbuffer_push ?w (ts_out s))"
    using s(3,4) by (simp add: tc_push_def Let_def tc_bytes_def)
  show "ob_msgs (ts_out (tc_push t l u s)) (ws0 @ tc_numbered ser t seq0 (ps @ [(l, u, ns)]))"
    unfolding out tc_numbered_snoc using push(1) by simp
  show "ob_maxsize (ts_out (tc_push t l u s)) = mx" unfolding out push(2) by (rule s(2))
  show "ts_seqno (tc_push t l u s) = seq0 + of_nat (length (ps @ [(l, u, ns)]))"
    using s(4) by (simp add: tc_push_def Let_def algebra_simps)
qed

text \<open>Adding a neighbour to a part with room.\<close>

lemma tc_add_ok:
  assumes len: "\<And>q. length (ser q) = 4" and mx: "mx \<le> 1496"
    and ok: "tc_ok ser t seq0 ws0 mx ps ns s" and room: "8 * int (length ns) + 8 \<le> ts_rem s"
  shows "\<exists>s'. do { s \<leftarrow> tc_put (pkt_put_ipaddress (ta_address n)) s; s \<leftarrow> tc_put (ser (ta_quality n)) s; Some (s\<lparr>ts_last_ip := Some (ta_address n)\<rparr>) } =
    Some s' \<and> tc_ok ser t seq0 ws0 mx ps (ns @ [n]) s'"
proof -
  have "ts_rem s \<le> int mx - 16" using ok bytes_left_maxsize [of "ts_out s"] by (simp add: tc_ok_def hello_off_def)
  then have fits: "hello_off + 8 * length ns + 8 \<le> msg_buffer_size" using mx room by (simp add: hello_off_def msg_buffer_size_def)
  have buff: "ts_buff s = tc_entries_bytes ser ns" using ok by (simp add: tc_ok_def)
  have snoc: "tc_entries_bytes ser (ns @ [n]) = tc_entries_bytes ser ns @ pkt_put_ipaddress (ta_address n) @ ser (ta_quality n)"
    by (simp add: tc_entries_bytes_def tc_entry_bytes_def)
  show ?thesis
    using ok room fits by (simp add: tc_put_def buff entries_length [OF len] len tc_ok_def snoc)
qed

lemma tc_neigh_ok:
  assumes len: "\<And>q. length (ser q) = 4" and mx: "24 \<le> mx" "mx \<le> 1496"
    and ok: "tc_ok ser t seq0 ws0 mx ps ns s" and new: "ta_address n \<notin> ta_address ` set ns"
  shows "\<exists>s' ps' ns'. tc_neigh ser t n s = Some s' \<and> tc_ok ser t seq0 ws0 mx ps' ns' s' \<and> ns' \<noteq> [] \<and>
    part_members ps' @ ns' = part_members ps @ ns @ [n]"
proof -
  have size: "length (ts_buff s) + 4 + 4 = 8 * length ns + 8" using ok by (simp add: tc_ok_def entries_length [OF len])
  show ?thesis
  proof (cases "8 * int (length ns) + 8 \<le> ts_rem s")
    case True
    from tc_add_ok [OF len mx(2) ok this, of n] show ?thesis
      using True size by (fastforce simp: tc_neigh_def)
  next
    case False
    have ns: "ns \<noteq> []" using ok False by (auto simp: tc_ok_def)
    then have "ta_address (last ns) \<noteq> ta_address n" using new by (metis image_eqI last_in_set)
    from border_flag_good [OF this] obtain f where f: "calculate_border_flag (ts_last_ip s) (ta_address n) = Some f" "good_flag f"
      using ok ns by (auto simp: tc_ok_def)
    define s1 where "s1 = tc_push t (ts_left_border s) f s"
    note push = tc_push_ok [OF len ok, of "ts_left_border s" f, folded s1_def]
    define s2 where "s2 = s1\<lparr>ts_out := net_output (ts_out s1), ts_left_border := f, ts_buff := [],
      ts_rem := net_outbuffer_bytes_left (net_output (ts_out s1)) - int hello_off\<rparr>"
    let ?s3 = "s2\<lparr>ts_last_ip := None\<rparr>"
    have left: "net_outbuffer_bytes_left (net_output (ts_out s1)) = int mx"
      using net_output_msgs(2,3) [OF push(1)] push(2) by (simp add: empty_bytes_left)
    have "\<exists>s'. do { s \<leftarrow> tc_put (pkt_put_ipaddress (ta_address n)) s2; s \<leftarrow> tc_put (ser (ta_quality n)) s; Some (s\<lparr>ts_last_ip := Some (ta_address n)\<rparr>) } =
        Some s' \<and> tc_ok ser t seq0 ws0 mx (ps @ [(ts_left_border s, f, ns)]) [n] s'"
    proof -
      have chain: "part_chain 255 (ps @ [(ts_left_border s, f, ns)]) f"
        using ok f(2) ns by (intro part_chain_snoc) (simp_all add: tc_ok_def)
      have "pkt_put_ipaddress (ta_address n) @ ser (ta_quality n) = tc_entries_bytes ser [n]"
        by (simp add: tc_entries_bytes_def tc_entry_bytes_def)
      then show ?thesis
        using net_output_msgs [OF push(1)] push(2,3) chain f(2) mx left
        by (simp add: tc_put_def tc_ok_def s2_def len hello_off_def msg_buffer_size_def)
    qed
    then obtain s' where s': "do { s \<leftarrow> tc_put (pkt_put_ipaddress (ta_address n)) s2; s \<leftarrow> tc_put (ser (ta_quality n)) s; Some (s\<lparr>ts_last_ip := Some (ta_address n)\<rparr>) } =
        Some s'" "tc_ok ser t seq0 ws0 mx (ps @ [(ts_left_border s, f, ns)]) [n] s'" by blast
    have "tc_neigh ser t n s = Some s'"
      using s'(1) f(1) False size by (simp add: tc_neigh_def Let_def s1_def [symmetric] s2_def)
    then show ?thesis using s'(2) by (intro exI [of _ s'] exI [of _ "ps @ [(ts_left_border s, f, ns)]"] exI [of _ "[n]"]) simp
  qed
qed

lemma tc_neighs_ok:
  assumes len: "\<And>q. length (ser q) = 4" and mx: "24 \<le> mx" "mx \<le> 1496"
  shows "tc_ok ser t seq0 ws0 mx ps ns s \<Longrightarrow> distinct (map ta_address (part_members ps @ ns @ ms)) \<Longrightarrow> ns @ ms \<noteq> [] \<Longrightarrow>
    \<exists>s' ps' ns'. iter ms (tc_neigh ser t) s = Some s' \<and> tc_ok ser t seq0 ws0 mx ps' ns' s' \<and> ns' \<noteq> [] \<and>
      part_members ps' @ ns' = part_members ps @ ns @ ms"
proof (induction ms arbitrary: ps ns s)
  case (Cons n ms)
  have "ta_address n \<notin> ta_address ` set ns" using Cons.prems(2) by auto
  then obtain s1 ps1 ns1 where s1: "tc_neigh ser t n s = Some s1" "tc_ok ser t seq0 ws0 mx ps1 ns1 s1" "ns1 \<noteq> []"
    "part_members ps1 @ ns1 = part_members ps @ ns @ [n]"
    using tc_neigh_ok [OF len mx Cons.prems(1)] by blast
  have all: "part_members ps1 @ ns1 @ ms = part_members ps @ ns @ n # ms" using arg_cong [OF s1(4), of "\<lambda>l. l @ ms"] by simp
  have d: "distinct (map ta_address (part_members ps1 @ ns1 @ ms))" unfolding all by (rule Cons.prems(2))
  have "ns1 @ ms \<noteq> []" using s1(3) by simp
  from Cons.IH [OF s1(2) d this] show ?case using s1(1) all by simp
qed auto

text \<open>The written message; if there is room for all neighbours in one packet, it has one part.\<close>

lemma serialize_tc_ok:
  assumes len: "\<And>q. length (ser q) = 4"
    and ob: "ob_msgs ob ws" and mx: "24 \<le> ob_maxsize ob" "ob_maxsize ob \<le> 1496"
    and ns: "lt_neigh t \<noteq> []" "distinct (map ta_address (lt_neigh t))"
  shows "\<exists>ob' ps. serialize_lq_tc ser t seqno ob = Some (seqno + of_nat (length ps), ob') \<and> ob_maxsize ob' = ob_maxsize ob \<and>
    ob_msgs ob' (ws @ tc_numbered ser t seqno ps) \<and> part_chain 255 ps 255 \<and> part_members ps = lt_neigh t"
proof -
  let ?left = "net_outbuffer_bytes_left ob - int hello_off"
  define ex where "ex = (if net_output_pending ob > 0 then int (length (lt_neigh t)) * 8 else 0)"
  define ob1 where "ob1 = (if ?left < ex then net_output ob else ob)"
  define s0 where "s0 = \<lparr>ts_out = ob1, ts_seqno = seqno, ts_buff = [], ts_rem = net_outbuffer_bytes_left ob1 - int hello_off,
    ts_left_border = 0xFF, ts_last_ip = None\<rparr>"
  have ob1: "ob_msgs ob1 ws" "ob_maxsize ob1 = ob_maxsize ob"
    using ob net_output_msgs [OF ob] by (simp_all add: ob1_def)
  have rem: "8 \<le> ts_rem s0"
  proof (cases "?left < ex \<or> net_output_pending ob = 0")
    case True
    then have "ob_pending ob1 = []"
      using net_output_msgs(2) [OF ob] by (auto simp: ob1_def net_output_pending_def)
    then show ?thesis using mx ob1(2) by (simp add: s0_def empty_bytes_left hello_off_def)
  next
    case False
    then have "ex = int (length (lt_neigh t)) * 8" "ob1 = ob" "ex \<le> ?left" by (auto simp: ex_def ob1_def)
    moreover have "1 \<le> int (length (lt_neigh t))" using ns(1) by (cases "lt_neigh t") simp_all
    ultimately show ?thesis by (simp add: s0_def)
  qed
  have start: "tc_ok ser t seqno ws (ob_maxsize ob) [] [] s0"
    using ob1 rem by (simp add: tc_ok_def s0_def tc_entries_bytes_def good_flag_def)
  from tc_neighs_ok [OF len mx start, of "lt_neigh t"] ns obtain s ps m where
    s: "iter (lt_neigh t) (tc_neigh ser t) s0 = Some s" "tc_ok ser t seqno ws (ob_maxsize ob) ps m s" "m \<noteq> []" "part_members ps @ m = lt_neigh t"
    by auto
  let ?ps = "ps @ [(ts_left_border s, 255, m)]"
  note push = tc_push_ok [OF len s(2), of "ts_left_border s" 255]
  have chain: "part_chain 255 ?ps 255" using s(2,3) by (intro part_chain_snoc) (simp_all add: tc_ok_def good_flag_def)
  have run: "serialize_lq_tc ser t seqno ob = Some (ts_seqno (tc_push t (ts_left_border s) 255 s), ts_out (tc_push t (ts_left_border s) 255 s))"
    using s(1) by (simp add: serialize_lq_tc_def Let_def ex_def [symmetric] s0_def ob1_def split: if_splits)
  show ?thesis unfolding run using push chain s(4) by (intro exI [of _ "ts_out (tc_push t (ts_left_border s) 255 s)"] exI [of _ ?ps]) simp
qed

section \<open>From node to node\<close>

definition read_tcs :: "'q tc_conf \<Rightarrow> ip_addr \<Rightarrow> byte list list \<Rightarrow> 'q lsdb \<Rightarrow> 'q lsdb option" where
  "read_tcs c from_addr ms s = iter ms (\<lambda>m s. map_option fst (olsr_input_tc c from_addr m s)) s"

lemma good_borders:
  assumes "good_flag l" "good_flag u" "ns \<noteq> []"
  shows "\<exists>b. message_borders l u ns = Some (Some b)"
proof -
  obtain b where "olsr_calculate_tc_border l (ta_address (hd ns)) u (ta_address (last ns)) = Some b"
    using bad_borders [of l "ta_address (hd ns)" u "ta_address (last ns)"] assms(1,2)
    by (auto simp: good_flag_def bad_flag_def simp flip: not_le)
  moreover have "olsr_calculate_tc_border l x u y \<noteq> Some None" for x y
    using assms(1) by (auto simp: good_flag_def olsr_calculate_tc_border_def bind_eq_Some_conv)
  ultimately show ?thesis using assms(3) by (cases b) (auto simp: message_borders_def)
qed

text \<open>A part keeps what the other parts with the same number announced, and adds only what it announces.\<close>

lemma announce_same:
  assumes "d \<notin> ta_address ` set ns" "E (a, d) = Some (m, v)"
  shows "announce a m c0 cost quals bd ns E (a, d) = Some (m, v)"
  using enter_other [OF assms(1), of a m c0 cost quals E] assms(2) by (auto simp: announce_def Let_def drop_old_def split: option.split)

lemma announce_none:
  assumes "d \<notin> ta_address ` set ns" "E (a, d) = None"
  shows "announce a m c0 cost quals bd ns E (a, d) = None"
  using enter_other [OF assms(1), of a m c0 cost quals E] assms(2) by (auto simp: announce_def Let_def drop_old_def split: option.split)

text \<open>The edges of \<open>a\<close> in the database, with the number of the message and the announced qualities.\<close>

definition announced_edges :: "('q \<Rightarrow> byte \<times> byte) \<Rightarrow> 'q lsdb \<Rightarrow> ip_addr \<Rightarrow> u16 \<Rightarrow> 'q tc_mpr_addr list \<Rightarrow> bool" where
  "announced_edges quals s a m ns \<longleftrightarrow>
     (\<forall>n \<in> set ns. \<exists>cost. edge_view quals s (a, ta_address n) = Some (m, cost, quals (ta_quality n))) \<and>
     (\<forall>d. d \<notin> ta_address ` set ns \<longrightarrow> get_edge s (a, d) = None)"

lemma announced_step:
  assumes "announced_edges quals s a m dn" "distinct (map ta_address (dn @ ns))"
    and v: "edge_view quals s' = announce a m c0 cost quals bd ns (edge_view quals s)"
  shows "announced_edges quals s' a m (dn @ ns)"
proof -
  have ns: "distinct (map ta_address ns)" using assms(2) by simp
  have "\<exists>c. edge_view quals s' (a, ta_address n) = Some (m, c, quals (ta_quality n))" if n: "n \<in> set (dn @ ns)" for n
  proof (cases "n \<in> set ns")
    case True
    then show ?thesis unfolding v announce_known [OF ns True] by simp
  next
    case False
    then obtain c where e: "edge_view quals s (a, ta_address n) = Some (m, c, quals (ta_quality n))"
      using assms(1) n by (auto simp: announced_edges_def)
    have "ta_address n \<notin> ta_address ` set ns" using False n assms(2) by auto
    then show ?thesis unfolding v by (intro exI [of _ c] announce_same e)
  qed
  moreover have "get_edge s' (a, d) = None" if "d \<notin> ta_address ` set (dn @ ns)" for d
  proof -
    have "edge_view quals s (a, d) = None" using assms(1) that by (auto simp: announced_edges_def)
    then have "edge_view quals s' (a, d) = None" unfolding v using that by (intro announce_none) auto
    then show ?thesis by simp
  qed
  ultimately show ?thesis unfolding announced_edges_def by blast
qed

context lq_handler
begin

lemma read_parts:
  assumes c: "metric_conf deserialize calc_cost c" "tf_main_addr c \<noteq> 0" "tf_link_status c from_addr = 2"
    and t: "oc_type (lt_comm t) = lq_tc_message_type" "oc_orig (lt_comm t) = a"
  shows "part_chain l ps r \<Longrightarrow> lsdb_ok s \<Longrightarrow> announced_edges qualities s a (lt_ansn t) dn \<Longrightarrow> snd (tc_gate n (lt_ansn t) a s) \<Longrightarrow>
    distinct (map ta_address (dn @ part_members ps)) \<Longrightarrow> list_all (\<lambda>n. \<not> List.member (tf_deny c) (ta_address n)) (part_members ps) \<Longrightarrow>
    \<forall>w \<in> set (tc_numbered serialize t n ps). length w \<le> 1496 \<Longrightarrow>
    \<exists>s'. read_tcs c from_addr (tc_numbered serialize t n ps) s = Some s' \<and> lsdb_ok s' \<and>
      announced_edges qualities s' a (lt_ansn t) (dn @ part_members ps) \<and> (\<forall>k. fst k \<noteq> a \<longrightarrow> edge_view qualities s' k = edge_view qualities s k)"
proof (induction l ps r arbitrary: dn n s rule: part_chain.induct)
  case (2 l l' u ns ps r)
  have chain: "l' = l" "good_flag l" "good_flag u" "ns \<noteq> []" "part_chain u ps r" using 2(2) by simp_all
  obtain bd where bd: "message_borders l' u ns = Some (Some bd)" using good_borders [OF chain(2-4)] chain(1) by auto
  have ns: "list_all (\<lambda>n. \<not> List.member (tf_deny c) (ta_address n)) ns" using 2(7) by simp
  have "length (tc_bytes serialize t n l' u ns) \<le> 1496" using 2(8) by simp
  then have "8 * length ns < 65520" by (simp add: tc_bytes_def lq_tc_header_def length_tc_entries)
  from input_tc_ok [OF c 2(3) t ns this 2(5) bd, of "[]"] obtain s1 tc where
    s1: "olsr_input_tc c from_addr (tc_bytes serialize t n l' u ns) s = Some (s1, True)" "lsdb_ok s1"
    "edge_view qualities s1 = announce a (lt_ansn t) (cost_of calc_cost (tf_zero c)) (cost_of calc_cost) qualities (Some bd) ns (edge_view qualities s)"
    "ls_tree s1 a = Some tc" "tn_msg_seq tc = n" "tn_ansn tc = lt_ansn t" by auto
  have ann: "announced_edges qualities s1 a (lt_ansn t) (dn @ ns)" using 2(6) by (intro announced_step [OF 2(4) _ s1(3)]) auto
  have "distinct (map ta_address ((dn @ ns) @ part_members ps))" "list_all (\<lambda>n. \<not> List.member (tf_deny c) (ta_address n)) (part_members ps)"
    "\<forall>w \<in> set (tc_numbered serialize t (n + 1) ps). length w \<le> 1496"
    using 2(6-8) by simp_all
  from 2(1) [OF chain(5) s1(2) ann gate_next [OF s1(4-6)] this] obtain s' where
    "read_tcs c from_addr (tc_numbered serialize t (n + 1) ps) s1 = Some s'" "lsdb_ok s'"
    "announced_edges qualities s' a (lt_ansn t) ((dn @ ns) @ part_members ps)" "\<forall>k. fst k \<noteq> a \<longrightarrow> edge_view qualities s' k = edge_view qualities s1 k"
    by blast
  then show ?case using s1(1) by (simp add: read_tcs_def s1(3) announce_elsewhere)
qed (simp add: read_tcs_def)

end

text \<open>Writing a TC message never fails and leaves no buffer, however many neighbours it has: it becomes one or more messages with consecutive
  numbers behind what waits in the output buffer. Their parts make up the list of the neighbours, every part has the upper border of the part before it as
  its lower border, the first and the last border are open, and all flags are ones that a reader accepts.\<close>
theorem tc_written:
  assumes "lq_handler quals ser deser cost" "ob_msgs ob ws" "24 \<le> ob_maxsize ob" "ob_maxsize ob \<le> 1496"
    and "lt_neigh t \<noteq> []" "distinct (map ta_address (lt_neigh t))"
  shows "\<exists>ob' ps. serialize_lq_tc ser t seqno ob = Some (seqno + of_nat (length ps), ob') \<and>
    ob_msgs ob' (ws @ tc_numbered ser t seqno ps) \<and> part_chain 255 ps 255 \<and> part_members ps = lt_neigh t"
  using serialize_tc_ok [where ser = ser, OF lq_handler.serialize_size [OF assms(1)] assms(2-), of seqno] by blast

text \<open>A buffer with room for one neighbour in each message.\<close>

lemma small_buffer: "ob_msgs (net_add_buffer 28) []" "24 \<le> ob_maxsize (net_add_buffer 28)" "ob_maxsize (net_add_buffer 28) \<le> 1496"
  by (auto simp: net_add_buffer_def ob_msgs_def ob_rep_def intro!: exI [of _ "[]"])

theorem tc_written_witness:
  "\<exists>ob' ps. serialize_lq_tc default_lq_serialize_tc_lq_pair_fpm (sample_tc 3) 65535 (net_add_buffer 28) =
      Some (65535 + of_nat (length ps), ob') \<and>
    ob_msgs ob' (tc_numbered default_lq_serialize_tc_lq_pair_fpm (sample_tc 3) 65535 ps) \<and> part_chain 255 ps 255 \<and>
    part_members ps = [sample_neigh 4 255, sample_neigh 6 128]"
proof -
  have t: "lt_neigh (sample_tc 3) \<noteq> []" "distinct (map ta_address (lt_neigh (sample_tc 3)))" by simp_all
  show ?thesis using tc_written [OF fpm_tc.lq_handler_axioms small_buffer t, of 65535] by simp
qed

text \<open>C11. A TC message of any length goes from a node to another one that does not know its edges yet, and that reads its parts in their order: then
  the database has exactly the announced edges of the node, each with the number and the two link qualities of the message, and all other edges as
  they were.\<close>
theorem tc_delivered:
  assumes "lq_handler quals ser deser cost" "metric_conf deser cost c" "tf_main_addr c \<noteq> 0" "tf_link_status c from_addr = 2"
    and "oc_type (lt_comm t) = lq_tc_message_type" "oc_orig (lt_comm t) = a" "lsdb_ok s" "\<forall>d. get_edge s (a, d) = None"
    and "lt_neigh t \<noteq> []" "distinct (map ta_address (lt_neigh t))" "list_all (\<lambda>n. \<not> List.member (tf_deny c) (ta_address n)) (lt_neigh t)"
    and "28 \<le> mtu" "mtu \<le> 1500" "serialize_lq_tc ser t seqno (net_add_buffer mtu) = Some (seqno', ob)"
  shows "\<exists>ms s'. ob_msgs ob ms \<and> read_tcs c from_addr ms s = Some s' \<and> lsdb_ok s' \<and>
    {d. get_edge s' (a, d) \<noteq> None} = ta_address ` set (lt_neigh t) \<and>
    (\<forall>n \<in> set (lt_neigh t). \<exists>cost. edge_view quals s' (a, ta_address n) = Some (lt_ansn t, cost, quals (ta_quality n))) \<and>
    (\<forall>x d. x \<noteq> a \<longrightarrow> edge_view quals s' (x, d) = edge_view quals s (x, d))"
proof -
  have ob: "ob_msgs (net_add_buffer mtu) []" "24 \<le> ob_maxsize (net_add_buffer mtu)" "ob_maxsize (net_add_buffer mtu) \<le> 1496"
    using assms(12,13) by (auto simp: net_add_buffer_def ob_msgs_def ob_rep_def intro!: exI [of _ "[]"])
  obtain ps where ps: "ob_maxsize ob \<le> 1496" "ob_msgs ob (tc_numbered ser t seqno ps)" "part_chain 255 ps 255" "part_members ps = lt_neigh t"
    using serialize_tc_ok [where ser = ser, OF lq_handler.serialize_size [OF assms(1)] ob assms(9,10), of seqno] assms(14) ob(3) by auto
  have "\<forall>w \<in> set (tc_numbered ser t seqno ps). length w \<le> 1496" using ob_msgs_length [OF ps(2)] ps(1) by fastforce
  moreover have "announced_edges quals s a (lt_ansn t) []" using assms(8) by (simp add: announced_edges_def)
  moreover have "snd (tc_gate seqno (lt_ansn t) a s)" using assms(8) by (intro gate_empty) simp
  ultimately obtain s' where s': "read_tcs c from_addr (tc_numbered ser t seqno ps) s = Some s'" "lsdb_ok s'"
    "announced_edges quals s' a (lt_ansn t) (lt_neigh t)" "\<forall>k. fst k \<noteq> a \<longrightarrow> edge_view quals s' k = edge_view quals s k"
    using lq_handler.read_parts [OF assms(1-6) ps(3) assms(7), of "[]" seqno] assms(10,11) ps(4) by auto
  have "{d. get_edge s' (a, d) \<noteq> None} = ta_address ` set (lt_neigh t)"
  proof (intro set_eqI iffI)
    fix d
    assume "d \<in> ta_address ` set (lt_neigh t)"
    then have "edge_view quals s' (a, d) \<noteq> None" using s'(3) by (auto simp: announced_edges_def simp del: edge_view_None)
    then show "d \<in> {d. get_edge s' (a, d) \<noteq> None}" by simp
  qed (use s'(3) in \<open>auto simp: announced_edges_def\<close>)
  then show ?thesis using ps(2) s' by (auto simp: announced_edges_def)
qed

theorem tc_delivered_witness:
  "\<exists>n ob ms s'. serialize_lq_tc default_lq_serialize_tc_lq_pair_fpm (sample_tc 3) 65535 (net_add_buffer 28) = Some (n, ob) \<and> ob_msgs ob ms \<and>
    read_tcs fpm_tc_conf 5 ms (olsr_init_tc fpm_tc_conf) = Some s' \<and> {d. get_edge s' (9, d) \<noteq> None} = {4, 6} \<and>
    map_option (\<lambda>(n, c, q). (n, q)) (edge_view fpm_qualities s' (9, 6)) = Some (3, 128, 128)"
proof -
  let ?s = "olsr_init_tc fpm_tc_conf" and ?ns = "lt_neigh (sample_tc 3)"
  have d: "?ns \<noteq> []" "distinct (map ta_address ?ns)" by simp_all
  obtain k ob where ob: "serialize_lq_tc default_lq_serialize_tc_lq_pair_fpm (sample_tc 3) 65535 (net_add_buffer 28) = Some (k, ob)"
    using serialize_tc_ok [where ser = default_lq_serialize_tc_lq_pair_fpm, OF fpm_tc.serialize_size small_buffer d, of 65535] by blast
  have m: "tf_main_addr fpm_tc_conf \<noteq> 0" "tf_link_status fpm_tc_conf 5 = 2" "lsdb_ok ?s" by simp_all
  have "get_edge ?s k = None" for k using fun_cong [OF init_tc_view(1) [of fpm_qualities fpm_tc_conf], of k] by simp
  then have n: "\<forall>d. get_edge ?s (9, d) = None" by blast
  have t: "oc_type (lt_comm (sample_tc 3)) = lq_tc_message_type" "oc_orig (lt_comm (sample_tc 3)) = 9" by simp_all
  have ns: "?ns \<noteq> []" "distinct (map ta_address ?ns)" "list_all (\<lambda>n. \<not> List.member (tf_deny fpm_tc_conf) (ta_address n)) ?ns" by simp_all
  have mtu: "28 \<le> (28 :: nat)" "(28 :: nat) \<le> 1500" by simp_all
  obtain ms s' where r: "ob_msgs ob ms" "read_tcs fpm_tc_conf 5 ms ?s = Some s'" "{d. get_edge s' (9, d) \<noteq> None} = ta_address ` set ?ns"
    "\<forall>n \<in> set ?ns. \<exists>cost. edge_view fpm_qualities s' (9, ta_address n) = Some (lt_ansn (sample_tc 3), cost, fpm_qualities (ta_quality n))"
    using tc_delivered [OF fpm_tc.lq_handler_axioms fpm_tc_conf_ok(1) m(1,2) t m(3) n ns mtu ob] by blast
  have "map_option (\<lambda>(n, c, q). (n, q)) (edge_view fpm_qualities s' (9, 6)) = Some (3, 128, 128)"
    using bspec [OF r(4), of "sample_neigh 6 128"] by (auto simp: sample_neigh_def)
  moreover have "{d. get_edge s' (9, d) \<noteq> None} = {4, 6}" unfolding r(3) by simp
  ultimately show ?thesis using ob r(1,2) by blast
qed

end
