(* ===== verification/Spec2Isabelle.thy ===== *)
theory Spec2Isabelle imports Mojette_Transport Dll Route_Search Datagram_Safety Duplicate_Set Mantissa Plugin_Events Nbr_Claims Lq_Claims Hello_Claims Tc_Write
begin

text \<open>
  Verification of the MP-OLSR testbed (SEREADMO): reliable multipath transport over an ad hoc
  network. The repository holds three programs of its own and a copy of the OLSR daemon.

  \<^bold>\<open>The programs and how they interact.\<close> An application sends a message with
  \<open>ser_mojette/ser_sendto.c\<close>, which cuts it into rows, codes the rows into Mojette projections and
  sends rows and projections as UDP datagrams; \<open>serveur/serveur_udp.c\<close> receives them and rebuilds the message
  from any sufficient subset. On the way, the kernel module \<open>src_iptables/ser_module\<close> catches every datagram
  to its port in a netfilter hook, puts an explicit route in it, and forwards it hop by hop. The routes come from
  a topology store, which the OLSR daemon keeps up to date by writing command tokens to a character device. The
  commands come from a plugin of the daemon, which compares its copy of the topology with the daemon's after every change.

  \<^bold>\<open>Theories.\<close>
  \<^item> \<open>Prelude_MPOLSR\<close>: C arrays with bounds, counting loops over a failing body, words, byte order.
  \<^item> \<open>Mojette\<close>, \<open>Mojette_Counts\<close>, \<open>Katz\<close>, \<open>Mojette_Inverse\<close>, \<open>Mojette_System\<close>:
    \<open>mojette/mojette.c\<close> and \<open>serveur/mojette.c\<close>, that is \<open>forward\<close>, \<open>inverse\<close> and \<open>inverse_system\<close>. \<open>Katz\<close> proves in a locale
    over abstract pixel grids that a univocal bin exists whenever the angles satisfy the Katz criterion and
    is interpreted on the grid of the code; \<open>Mojette_System\<close> holds the round trips.
  \<^item> \<open>Mojette_Net\<close>, \<open>Mojette_Transport\<close>: \<open>ser_sendto\<close> and the loop of \<open>serveur_udp.c\<close>, and the delivery theorem.
  \<^item> \<open>Dll\<close>: the pointer updates of the doubly linked lists, refined to list operations (locale \<open>linked_list\<close>).
  \<^item> \<open>Tc_Store\<close>, \<open>Tc_Invariant\<close>, \<open>Tc_Ops\<close>: \<open>ser_path_tc.c\<close>. \<open>Tc_Store\<close> has one definition per C function on the state
    record \<open>tc_state\<close> (the globals of the file; a structure is named by a number, a number outside the map is
    freed memory). \<open>Tc_Invariant\<close> states \<open>tc_ok\<close>: hash chains, address tables, link lists and node list agree.
    \<open>Tc_Ops\<close> has the abstract topology \<open>topo\<close> and the refinement of every operation.
  \<^item> \<open>Codec\<close>, \<open>Ser_Device\<close>, \<open>Device_Safety\<close>: \<open>ser_device.c\<close>; the locale \<open>fixed_codec\<close> (layouts of fixed size) is interpreted on
    tokens, addresses and headers, the locale \<open>node_store\<close> on the topology store. \<open>reachable\<close> are the
    states that the daemon can produce.
  \<^item> \<open>Tc_Dijkstra\<close>, \<open>Tc_Shortest\<close>, \<open>Tc_Paths\<close>, \<open>Route_Search\<close>: \<open>ser_path_djk.c\<close>. Costs are 32-bit words; the theorems assume that the
    sum of the costs on any path stays below \<open>2 ^ 32 - 1\<close> in every round (\<open>no_overflow\<close>).
  \<^item> \<open>Bytes\<close>, \<open>Path_Header\<close>, \<open>Skb\<close>, \<open>Ip_View\<close>, \<open>Skb_Ops\<close>: byte buffers, the routing header and the path cache (\<open>ser_path.c\<close>),
    editing of datagrams (\<open>skb_tools.c\<close>) on the bytes of the packet.
  \<^item> \<open>Hooks\<close>, \<open>Forwarding\<close>, \<open>Datagram_Safety\<close>: the three netfilter hooks, the loading of the module
    (\<open>sereadmo-module.c\<close>), and the journey of a datagram.
  \<^item> \<open>Duplicate_Set\<close>, \<open>Ip_Calc\<close>, \<open>Mantissa\<close>: parts of the OLSR daemon (\<open>src_olsr/olsrd-0.5.6-r2/src\<close>): the duplicate test of
    received messages, compared with a reference over unbounded numbers; masks and the hash of an address; the 8-bit format of time intervals.
  \<^item> \<open>Plugin_Tc\<close>, \<open>Plugin_Inv\<close>, \<open>Plugin_Marks\<close>, \<open>Plugin_Removal\<close>, \<open>Plugin_Safety\<close>, \<open>Plugin_Events\<close>: the plugin of the daemon
    (\<open>lib/sereadmo/src/ser_tc.c\<close>, \<open>ser_data.c\<close>). \<open>Plugin_Tc\<close> has its state and operations, \<open>Plugin_Inv\<close> the representation of the hash
    chains of nodes (\<open>plug_rep\<close>) and the adding of nodes and links, \<open>Plugin_Marks\<close> and \<open>Plugin_Removal\<close> the two halves of an
    event, \<open>Plugin_Safety\<close> a whole event, \<open>Plugin_Events\<close> runs of events.
  \<^item> \<open>Nbr_Tables\<close>, \<open>Nbr_Inv\<close>, \<open>Nbr_Ops\<close>, \<open>Nbr_Hello\<close>, \<open>Nbr_Process\<close>: the neighbour tables of the daemon (\<open>neighbor_table.c\<close>,
    \<open>two_hop_neighbor_table.c\<close>) and the entering of a HELLO message (\<open>process_package.c\<close>). \<open>Nbr_Tables\<close> has the state and one
    definition per function, \<open>Nbr_Inv\<close> the invariant \<open>nbr_ok\<close> (hash chains, links listed at both ends, counters), the others
    the effect of the operations on the two-hop relation \<open>hop_links\<close>.
  \<^item> \<open>Mpr\<close>, \<open>Mpr_Select\<close>, \<open>Mpr_Choice\<close>, \<open>Mpr_Count\<close>, \<open>Mpr_Relay\<close>: the selection of relays after RFC 3626 (\<open>mpr.c\<close>), with the invariant of
    its loops (\<open>sel_inv\<close>). \<open>Lq_Mpr\<close>, \<open>Lq_Select\<close>: the selection by link quality (\<open>lq_mpr.c\<close>) against a reference that sorts.
  \<^item> \<open>Nbr_System\<close>, \<open>Nbr_Cases\<close>, \<open>Nbr_Claims\<close>: sequences of events on the neighbourhood. The locale \<open>relay_selection\<close> states what the
    daemon needs of a selection and is interpreted on both. \<open>Hash_Rows\<close>: the hashes of some addresses, for the examples.

  \<^item> \<open>Wire\<close>: reading and writing of the fields of messages (\<open>lq_packet.h\<close>) and the arithmetic of the C type \<open>int\<close>.
  \<^item> \<open>Lq_Fpm\<close>, \<open>Lq_Fpm_Facts\<close>, \<open>Lq_Fpm_Links\<close>: the metric \<open>etx_fpm\<close> (\<open>lq_plugin_default_fpm.c\<close>, \<open>lq_plugin.c\<close>). The table of functions of a
    metric, \<open>struct lq_handler\<close>, is the locale \<open>lq_handler\<close>, which is interpreted on the functions for HELLO and TC messages of both metrics.
  \<^item> \<open>Lq_Ff\<close>, \<open>Lq_Ff_Facts\<close>, \<open>Lq_Ff_Links\<close>, \<open>Lq_Claims\<close>: the metric \<open>etx_ff\<close> (\<open>lq_plugin_default_ff.c\<close>), which counts packets in ring
    buffers, with the lookup of links and the factors of links (\<open>link_set.c\<close>).
  \<^item> \<open>Packet_Parse\<close>, \<open>Packet_Input\<close>, \<open>Packet_Facts\<close>: the receiving and parsing of packets (\<open>parser.c\<close>). What the parser needs of the functions
    registered for the types of messages is the locale \<open>parse_functions\<close>; a reference walks through the list of the messages.
  \<^item> \<open>Hello_Wire\<close>, \<open>Hello_Ser\<close>, \<open>Hello_Read\<close>, \<open>Hello_Path\<close>, \<open>Hello_Claims\<close>: the output buffers (\<open>net_olsr.c\<close>), the writing of HELLO messages
    (\<open>lq_packet.c\<close>) and their reading (\<open>process_package.c\<close>). \<open>Hello_Ser\<close> has the invariant of the writing loops, with the groups as ghost
    values; \<open>Hello_Path\<close> follows a message through the packets to the receiver.
  \<^item> \<open>Olsr_Forward\<close>, \<open>Packet_Claims\<close>: the MPR selectors (\<open>mpr_selector_set.c\<close>), the forwarding of messages (\<open>olsr.c\<close>), and a node that runs them
    with the parser, on which \<open>parse_functions\<close> is interpreted.
  \<^item> \<open>Lsdb\<close>, \<open>Tc_Message\<close>: the link state database (\<open>tc_set.c\<close>) with its trees as ordered lists, and the reading and writing of TC messages
    (\<open>tc_set.c\<close>, \<open>lq_packet.c\<close>). \<open>Lsdb_Inv\<close> has the invariant \<open>lsdb_ok\<close> and the view of the edges as a map, \<open>Lsdb_Input\<close> the reference
    \<open>announce\<close> for a whole message, in the context of \<open>lq_handler\<close>.
  \<^item> \<open>Lsdb_Claims\<close>, \<open>Tc_Claims\<close>, \<open>Lsdb_Reach\<close>, \<open>Tc_Write\<close>: the windows of sequence numbers; what messages do to the database; its
    reachable states; and the way of a message from the writer to the database of another node.

  \<^bold>\<open>Conventions.\<close> A function whose C body can run into undefined behaviour returns an option, and \<open>None\<close> is the
  undefined case, so a theorem that it returns \<open>Some\<close> is a memory-safety theorem. Locked sections are single steps. What the
  code gets from outside (sockets, allocations, the functions of the Linux kernel) is a parameter; the assumptions
  on the kernel are \<open>kernel_ok\<close> in \<open>Skb\<close>.

  \<^bold>\<open>Loops and fuel.\<close> Counting loops are \<open>iter\<close> over their index list. The main loop of Dijkstra removes a node in
  every round, which is its termination measure. The walk along predecessor pointers, the search in a
  pointer list, the inner loop of the relay selection and the loop over the messages of a packet may run forever on ill-formed data and are partial
  functions; they are proved to return on well-formed states, and the last one to hang on a message of size 0. No definition uses fuel; the receive loop of the Mojette server runs over the list of
  received datagrams.

  \<^bold>\<open>Not modelled.\<close> The rest of the OLSR daemon (\<open>src_olsr\<close>: link set, routing, the messages other than HELLO and TC) with its other plugins and graphical interfaces, the simulator port of the kernel module
  (\<open>src_iptables/ser_routing\<close>, C++ glue and generated build files), the validation tools, and the demonstration clients.
  Of the modelled files, debug output, timing and the slab caches of the optional \<open>ALLOC_WITH_CACHE\<close> build are left out.
\<close>

end
